(* ===== verification/Prelude.thy ===== *)
theory Prelude
  imports Main "HOL-Library.Word" "HOL-Library.Product_Lexorder" "HOL-Library.List_Lexorder"
    "HOL-Library.Multiset"
begin

text \<open>
  Shared vocabulary of the development: the fixed-width integers of the Rust sources as ranges
  of \<open>int\<close> and \<open>nat\<close> with their checked, saturating and Euclidean operations, the standard
  library's comparators (\<open>Ordering\<close>, \<open>then_with\<close>, \<open>sort_by\<close>, \<open>min_by\<close>, \<open>min_by_key\<close>,
  \<open>max_by_key\<close>) and vector helpers, and the generic facts about them that the component
  theories share. Signed coordinates (\<open>i32\<close>) are \<open>int\<close> with \<open>i32_ok\<close> as their type
  invariant; sizes (\<open>usize\<close>) are \<open>nat\<close>; counters that wrap are words.
\<close>

unbundle bit_operations_syntax

named_theorems i32_defs \<open>unfold the checked signed arithmetic\<close>
named_theorems wf_intros \<open>well-formedness of the containers a component keeps\<close>

type_synonym u8 = "8 word"
type_synonym u32 = "32 word"
type_synonym u64 = "64 word"

subsection \<open>Signed 32-bit integers\<close>

abbreviation i32_min :: int where "i32_min \<equiv> -2147483648"
abbreviation i32_max :: int where "i32_max \<equiv> 2147483647"

definition i32_ok :: "int \<Rightarrow> bool" where
  "i32_ok x \<longleftrightarrow> i32_min \<le> x \<and> x \<le> i32_max"

definition i32_try :: "int \<Rightarrow> int option" where
  "i32_try x = (if i32_ok x then Some x else None)"

definition i32_checked_add :: "int \<Rightarrow> int \<Rightarrow> int option" where
  "i32_checked_add a b = i32_try (a + b)"

definition i32_checked_mul :: "int \<Rightarrow> int \<Rightarrow> int option" where
  "i32_checked_mul a b = i32_try (a * b)"

definition i32_saturating_add :: "int \<Rightarrow> int \<Rightarrow> int" where
  "i32_saturating_add a b = max i32_min (min i32_max (a + b))"

definition i32_saturating_sub :: "int \<Rightarrow> int \<Rightarrow> int" where
  "i32_saturating_sub a b = max i32_min (min i32_max (a - b))"

declare i32_ok_def [i32_defs] i32_try_def [i32_defs] i32_checked_add_def [i32_defs]
  i32_checked_mul_def [i32_defs] i32_saturating_add_def [i32_defs]
  i32_saturating_sub_def [i32_defs]

lemma i32_checked_add_Some [simp]:
  "i32_checked_add a b = Some c \<longleftrightarrow> i32_ok (a + b) \<and> c = a + b"
  by (auto simp: i32_checked_add_def i32_try_def)

lemma i32_checked_add_None [simp]: "i32_checked_add a b = None \<longleftrightarrow> \<not> i32_ok (a + b)"
  by (simp add: i32_checked_add_def i32_try_def)

lemma i32_try_Some [simp]: "i32_try a = Some c \<longleftrightarrow> i32_ok a \<and> c = a"
  by (auto simp: i32_try_def)

lemma i32_try_None [simp]: "i32_try a = None \<longleftrightarrow> \<not> i32_ok a"
  by (simp add: i32_try_def)

lemma i32_checked_mul_Some [simp]:
  "i32_checked_mul a b = Some c \<longleftrightarrow> i32_ok (a * b) \<and> c = a * b"
  by (auto simp: i32_checked_mul_def)

lemma i32_checked_mul_None [simp]: "i32_checked_mul a b = None \<longleftrightarrow> \<not> i32_ok (a * b)"
  by (simp add: i32_checked_mul_def)

subsection \<open>Unsigned integers\<close>

abbreviation u16_max :: nat where "u16_max \<equiv> 65535"
abbreviation u32_max :: nat where "u32_max \<equiv> 4294967295"
abbreviation u64_max :: nat where "u64_max \<equiv> 18446744073709551615"
abbreviation u128_max :: nat where "u128_max \<equiv> 340282366920938463463374607431768211455"

definition u64_saturating_add :: "nat \<Rightarrow> nat \<Rightarrow> nat" where
  "u64_saturating_add a b = min u64_max (a + b)"

definition u32_checked_add :: "nat \<Rightarrow> nat \<Rightarrow> nat option" where
  "u32_checked_add a b = (if a + b \<le> u32_max then Some (a + b) else None)"

text \<open>\<open>u32::checked_next_power_of_two\<close>.\<close>

definition checked_next_power_of_two :: "nat \<Rightarrow> nat option" where
  "checked_next_power_of_two n = map_option (\<lambda>k. 2 ^ k) (List.find (\<lambda>k. n \<le> 2 ^ k) [0..<32])"

lemma u64_saturating_add_le [simp]: "u64_saturating_add a b \<le> u64_max"
  by (simp add: u64_saturating_add_def)

subsection \<open>Ordering and comparators\<close>

datatype ordering = Less | Equal | Greater

definition cmp :: "'a::linorder \<Rightarrow> 'a \<Rightarrow> ordering" where
  "cmp a b = (if a < b then Less else if a = b then Equal else Greater)"

fun then_with :: "ordering \<Rightarrow> ordering \<Rightarrow> ordering" where
  "then_with Equal o2 = o2"
| "then_with o1 o2 = o1"

lemma cmp_simps [simp]:
  "cmp a b = Less \<longleftrightarrow> a < b" "cmp a b = Equal \<longleftrightarrow> a = b" "cmp a b = Greater \<longleftrightarrow> b < a"
  by (auto simp: cmp_def)

lemma then_with_simps [simp]:
  "then_with o1 o2 = Less \<longleftrightarrow> o1 = Less \<or> (o1 = Equal \<and> o2 = Less)"
  "then_with o1 o2 = Equal \<longleftrightarrow> o1 = Equal \<and> o2 = Equal"
  "then_with o1 o2 = Greater \<longleftrightarrow> o1 = Greater \<or> (o1 = Equal \<and> o2 = Greater)"
  by (cases o1; simp)+

fun insert_by :: "('a \<Rightarrow> 'a \<Rightarrow> ordering) \<Rightarrow> 'a \<Rightarrow> 'a list \<Rightarrow> 'a list" where
  "insert_by c x [] = [x]"
| "insert_by c x (y # ys) = (if c x y = Greater then y # insert_by c x ys else x # y # ys)"

text \<open>\<open>slice::sort_by\<close>: the stable sort by a comparator.\<close>

definition sort_by :: "('a \<Rightarrow> 'a \<Rightarrow> ordering) \<Rightarrow> 'a list \<Rightarrow> 'a list" where
  "sort_by c xs = foldr (insert_by c) xs []"

lemma mset_insert_by [simp]: "mset (insert_by c x ys) = add_mset x (mset ys)"
  by (induction ys) auto

lemma mset_sort_by [simp]: "mset (sort_by c xs) = mset xs"
  by (induction xs) (auto simp: sort_by_def)

lemma set_sort_by [simp]: "set (sort_by c xs) = set xs"
  by (metis mset_sort_by set_mset_mset)

lemma length_sort_by [simp]: "length (sort_by c xs) = length xs"
  by (metis mset_sort_by size_mset)

lemma distinct_sort_by [simp]: "distinct (sort_by c xs) = distinct xs"
  by (metis mset_sort_by mset_eq_imp_distinct_iff)

definition total_cmp :: "('a \<Rightarrow> 'a \<Rightarrow> ordering) \<Rightarrow> bool" where
  "total_cmp c \<longleftrightarrow> (\<forall>x y. c x y = Greater \<longrightarrow> c y x = Less) \<and>
     (\<forall>x y z. c x y \<noteq> Greater \<longrightarrow> c y z \<noteq> Greater \<longrightarrow> c x z \<noteq> Greater)"

lemma total_cmp_flip: "total_cmp c \<Longrightarrow> c x y = Greater \<Longrightarrow> c y x = Less"
  unfolding total_cmp_def by blast

lemma total_cmp_trans:
  "total_cmp c \<Longrightarrow> c x y \<noteq> Greater \<Longrightarrow> c y z \<noteq> Greater \<Longrightarrow> c x z \<noteq> Greater"
  unfolding total_cmp_def by blast

lemma total_cmp_refl: "total_cmp c \<Longrightarrow> c x x \<noteq> Greater"
  by (metis ordering.distinct(3) total_cmp_flip)

lemma sorted_insert_by:
  assumes c: "total_cmp c" and s: "sorted_wrt (\<lambda>a b. c a b \<noteq> Greater) ys"
  shows "sorted_wrt (\<lambda>a b. c a b \<noteq> Greater) (insert_by c x ys)"
  using s
proof (induction ys)
  case Nil
  then show ?case by simp
next
  case (Cons y ys)
  have set_ins: "set (insert_by c x zs) = insert x (set zs)" for zs
    by (metis mset_insert_by set_mset_add_mset_insert set_mset_mset)
  show ?case
  proof (cases "c x y = Greater")
    case True
    with c have "c y x \<noteq> Greater" by (simp add: total_cmp_flip)
    with True Cons show ?thesis by (auto simp: set_ins)
  next
    case False
    have "c x z \<noteq> Greater" if "z \<in> set ys" for z
      using total_cmp_trans [OF c False, of z] Cons.prems that by simp
    with False Cons.prems show ?thesis by simp
  qed
qed

lemma sorted_sort_by:
  "total_cmp c \<Longrightarrow> sorted_wrt (\<lambda>a b. c a b \<noteq> Greater) (sort_by c xs)"
  by (induction xs) (auto simp: sort_by_def sorted_insert_by)

text \<open>\<open>Iterator::min_by\<close> keeps the first of equal minima, \<open>max_by_key\<close> the last of equal maxima.\<close>

fun min_by :: "('a \<Rightarrow> 'a \<Rightarrow> ordering) \<Rightarrow> 'a list \<Rightarrow> 'a option" where
  "min_by c [] = None"
| "min_by c (x # xs) = Some (foldl (\<lambda>m y. if c m y = Greater then y else m) x xs)"

definition min_by_key :: "('a \<Rightarrow> 'k::linorder) \<Rightarrow> 'a list \<Rightarrow> 'a option" where
  "min_by_key f xs = min_by (\<lambda>a b. cmp (f a) (f b)) xs"

fun max_by_key :: "('a \<Rightarrow> 'k::linorder) \<Rightarrow> 'a list \<Rightarrow> 'a option" where
  "max_by_key f [] = None"
| "max_by_key f (x # xs) = Some (foldl (\<lambda>m y. if f y < f m then m else y) x xs)"

lemma min_by_None [simp]: "min_by c xs = None \<longleftrightarrow> xs = []"
  by (cases xs) auto

lemma min_by_key_None [simp]: "min_by_key f xs = None \<longleftrightarrow> xs = []"
  by (simp add: min_by_key_def)

lemma max_by_key_None [simp]: "max_by_key f xs = None \<longleftrightarrow> xs = []"
  by (cases xs) auto

lemma foldl_min_by_in: "foldl (\<lambda>m y. if c m y = Greater then y else m) x xs \<in> insert x (set xs)"
proof (induction xs arbitrary: x)
  case (Cons y ys)
  show ?case using Cons.IH [of "if c x y = Greater then y else x"] by (auto split: if_splits)
qed simp

lemma min_by_in: "min_by c xs = Some m \<Longrightarrow> m \<in> set xs"
  using foldl_min_by_in [of c] by (cases xs) auto

lemma foldl_min_by_least:
  assumes c: "total_cmp c"
  shows "\<forall>y \<in> insert x (set xs). c (foldl (\<lambda>m y. if c m y = Greater then y else m) x xs) y \<noteq> Greater"
proof (induction xs arbitrary: x)
  case Nil
  show ?case using total_cmp_refl [OF c] by simp
next
  case (Cons z zs)
  let ?m = "if c x z = Greater then z else x"
  have m: "c ?m x \<noteq> Greater" "c ?m z \<noteq> Greater"
    using total_cmp_refl [OF c] total_cmp_flip [OF c, of x z] by auto
  have IH: "\<forall>y \<in> insert ?m (set zs).
      c (foldl (\<lambda>m y. if c m y = Greater then y else m) ?m zs) y \<noteq> Greater"
    by (rule Cons.IH)
  have tr: "\<And>a b d. c a b \<noteq> Greater \<Longrightarrow> c b d \<noteq> Greater \<Longrightarrow> c a d \<noteq> Greater"
    by (rule total_cmp_trans [OF c])
  have "c (foldl (\<lambda>m y. if c m y = Greater then y else m) ?m zs) x \<noteq> Greater"
    using IH tr [OF _ m(1)] by blast
  moreover have "c (foldl (\<lambda>m y. if c m y = Greater then y else m) ?m zs) z \<noteq> Greater"
    using IH tr [OF _ m(2)] by blast
  ultimately show ?case using IH by simp
qed

lemma min_by_least: "total_cmp c \<Longrightarrow> min_by c xs = Some m \<Longrightarrow> y \<in> set xs \<Longrightarrow> c m y \<noteq> Greater"
  using foldl_min_by_least [of c] by (cases xs) auto

lemma total_cmp_key: "total_cmp (\<lambda>a b. cmp (f a) (f b))"
  by (auto simp: total_cmp_def)

lemma min_by_key_in: "min_by_key f xs = Some m \<Longrightarrow> m \<in> set xs"
  by (auto simp: min_by_key_def intro: min_by_in)

lemma min_by_key_least: "min_by_key f xs = Some m \<Longrightarrow> y \<in> set xs \<Longrightarrow> f m \<le> f y"
  using min_by_least [OF total_cmp_key [of f], of xs m y] by (auto simp: min_by_key_def)

lemma foldl_max_by_key:
  "foldl (\<lambda>m y. if f y < f m then m else y) x xs \<in> insert x (set xs) \<and>
   (\<forall>y \<in> insert x (set xs). f y \<le> f (foldl (\<lambda>m y. if f y < f m then m else y) x xs))"
  for f :: "'a \<Rightarrow> 'k::linorder"
proof (induction xs arbitrary: x)
  case Nil
  then show ?case by simp
next
  case (Cons z zs)
  show ?case using Cons.IH [of "if f z < f x then x else z"] by (force split: if_splits)
qed

lemma max_by_key_in: "max_by_key f xs = Some m \<Longrightarrow> m \<in> set xs"
  using foldl_max_by_key [of f] by (cases xs) auto

lemma max_by_key_greatest: "max_by_key f xs = Some m \<Longrightarrow> y \<in> set xs \<Longrightarrow> f y \<le> f m"
  using foldl_max_by_key [of f] by (cases xs) auto

subsection \<open>Sorted sets and vectors\<close>

text \<open>\<open>BTreeSet\<close> collection: ascending, without duplicates.\<close>

definition btree_set :: "'a::linorder list \<Rightarrow> 'a list" where
  "btree_set xs = remdups_adj (sort xs)"

lemma set_btree_set [simp]: "set (btree_set xs) = set xs"
  by (simp add: btree_set_def)

lemma sorted_btree_set [simp]: "sorted (btree_set xs)"
  by (simp add: btree_set_def sorted_remdups_adj)

lemma distinct_concat_disjoint:
  "distinct xs \<Longrightarrow> (\<And>x. x \<in> set xs \<Longrightarrow> distinct (f x)) \<Longrightarrow>
   (\<And>x y. x \<in> set xs \<Longrightarrow> y \<in> set xs \<Longrightarrow> x \<noteq> y \<Longrightarrow> set (f x) \<inter> set (f y) = {}) \<Longrightarrow> distinct (concat (map f xs))"
  by (induction xs) auto

lemma distinct_concat_map:
  "distinct xs \<Longrightarrow> (\<And>x. x \<in> set xs \<Longrightarrow> distinct (f x)) \<Longrightarrow>
   (\<And>x y a. x \<in> set xs \<Longrightarrow> y \<in> set xs \<Longrightarrow> a \<in> set (f x) \<Longrightarrow> a \<in> set (f y) \<Longrightarrow> x = y) \<Longrightarrow>
   distinct (concat (map f xs))"
proof (induction xs)
  case (Cons x xs)
  have "set (f x) \<inter> (\<Union>y \<in> set xs. set (f y)) = {}"
    using Cons.prems(1,3) by fastforce
  moreover have "distinct (concat (map f xs))" using Cons by (intro Cons.IH) auto
  ultimately show ?case using Cons.prems(2) by simp
qed simp

lemma distinct_remdups_adj_sorted: "sorted xs \<Longrightarrow> distinct (remdups_adj xs)"
  by (induction xs rule: remdups_adj.induct) auto

lemma distinct_btree_set [simp]: "distinct (btree_set xs)"
  by (simp add: btree_set_def distinct_remdups_adj_sorted)

lemma btree_set_unique: "sorted xs \<Longrightarrow> distinct xs \<Longrightarrow> set xs = set ys \<Longrightarrow> xs = btree_set ys"
  by (rule sorted_distinct_set_unique) auto

lemma length_btree_set_le: "length (btree_set xs) \<le> length xs"
  by (metis btree_set_def length_sort remdups_adj_length)

lemma length_btree_set: "length (btree_set xs) = card (set xs)"
  by (metis distinct_btree_set distinct_card set_btree_set)

lemma btree_set_length_eq [simp]: "length (btree_set xs) = length xs \<longleftrightarrow> distinct xs"
  by (metis card_distinct distinct_card length_btree_set)

text \<open>\<open>slice::windows(2)\<close> with a predicate on each pair.\<close>

fun windows2_all :: "('a \<Rightarrow> 'a \<Rightarrow> bool) \<Rightarrow> 'a list \<Rightarrow> bool" where
  "windows2_all p (x # y # zs) = (p x y \<and> windows2_all p (y # zs))"
| "windows2_all p _ = True"

lemma windows2_all_iff_successively: "windows2_all p xs = successively p xs"
  by (induction p xs rule: windows2_all.induct) auto

lemma windows2_all_less_iff: "windows2_all (\<lambda>a b. f a < f b) xs = sorted_wrt (<) (map f xs)"
  for f :: "'a \<Rightarrow> 'k::linorder"
proof -
  have "windows2_all (\<lambda>a b. f a < f b) xs = successively (<) (map f xs)"
    by (simp add: windows2_all_iff_successively successively_map)
  also have "\<dots> = sorted_wrt (<) (map f xs)"
    by (rule successively_conv_sorted_wrt) (auto intro: transpI)
  finally show ?thesis .
qed

text \<open>Inclusive ranges \<open>a..=b\<close> and half-open ranges \<open>a..b\<close> over \<open>i32\<close>.\<close>

abbreviation range_incl :: "int \<Rightarrow> int \<Rightarrow> int list" where
  "range_incl a b \<equiv> [a..b]"

abbreviation range_excl :: "int \<Rightarrow> int \<Rightarrow> int list" where
  "range_excl a b \<equiv> [a..b - 1]"

lemma sorted_wrt_less_distinct: "sorted_wrt (<) xs \<Longrightarrow> distinct (xs :: 'a::linorder list)"
  by (simp add: strict_sorted_iff)

subsection \<open>Invariants of transition systems\<close>

text \<open>
  Every stateful component is a set of initial states and a step relation; its safety
  properties are invariants. The induction over runs is done once, here.
\<close>

locale transition_invariant =
  fixes init :: "'s \<Rightarrow> bool" and step :: "'s \<Rightarrow> 's \<Rightarrow> bool" and inv :: "'s \<Rightarrow> bool"
  assumes init_inv: "init s \<Longrightarrow> inv s"
    and step_inv: "inv s \<Longrightarrow> step s t \<Longrightarrow> inv t"
begin

lemma run_inv: "step\<^sup>*\<^sup>* s t \<Longrightarrow> inv s \<Longrightarrow> inv t"
  by (induction rule: rtranclp_induct) (auto intro: step_inv)

lemma reachable_inv: "init s \<Longrightarrow> step\<^sup>*\<^sup>* s t \<Longrightarrow> inv t"
  using run_inv init_inv by blast

end

end
