(* ===== verification/Ordered_Map.thy ===== *)
theory Ordered_Map
  imports Prelude
begin

text \<open>
  The standard library's \<open>BTreeMap\<close>, which almost every stateful component of the repository is
  built on: an association list whose keys ascend strictly, so that iteration order, \<open>len\<close> and
  range scans are those of the code. The operations are executable; \<open>btree_wf\<close> is their
  invariant. The locale \<open>ordered_map\<close> is the interface the components use, with the facts about
  runs of insertions that several of them need proved once.
\<close>

type_synonym ('k, 'v) btree = "('k \<times> 'v) list"

definition btree_wf :: "('k::linorder, 'v) btree \<Rightarrow> bool" where
  "btree_wf m \<longleftrightarrow> sorted_wrt (<) (map fst m)"

fun btree_get :: "('k::linorder, 'v) btree \<Rightarrow> 'k \<Rightarrow> 'v option" where
  "btree_get [] k = None"
| "btree_get ((k', v) # m) k = (if k = k' then Some v else btree_get m k)"

fun btree_insert :: "'k::linorder \<Rightarrow> 'v \<Rightarrow> ('k, 'v) btree \<Rightarrow> ('k, 'v) btree" where
  "btree_insert k v [] = [(k, v)]"
| "btree_insert k v ((k', v') # m) =
     (if k < k' then (k, v) # (k', v') # m
      else if k = k' then (k, v) # m
      else (k', v') # btree_insert k v m)"

fun btree_remove :: "'k::linorder \<Rightarrow> ('k, 'v) btree \<Rightarrow> ('k, 'v) btree" where
  "btree_remove k [] = []"
| "btree_remove k ((k', v') # m) = (if k = k' then m else (k', v') # btree_remove k m)"

definition btree_keys :: "('k::linorder, 'v) btree \<Rightarrow> 'k list" where
  "btree_keys m = map fst m"

definition btree_values :: "('k::linorder, 'v) btree \<Rightarrow> 'v list" where
  "btree_values m = map snd m"

definition btree_contains :: "('k::linorder, 'v) btree \<Rightarrow> 'k \<Rightarrow> bool" where
  "btree_contains m k \<longleftrightarrow> btree_get m k \<noteq> None"

text \<open>\<open>get_mut\<close> followed by an assignment through the reference: a no-op on an absent key.\<close>

fun btree_update :: "'k::linorder \<Rightarrow> ('v \<Rightarrow> 'v) \<Rightarrow> ('k, 'v) btree \<Rightarrow> ('k, 'v) btree" where
  "btree_update k f [] = []"
| "btree_update k f ((k', v') # m) = (if k = k' then (k', f v') # m else (k', v') # btree_update k f m)"

text \<open>\<open>range(lo..=hi)\<close> and collection of an iterator of pairs (a later pair wins).\<close>

definition btree_range :: "'k::linorder \<Rightarrow> 'k \<Rightarrow> ('k, 'v) btree \<Rightarrow> ('k \<times> 'v) list" where
  "btree_range lo hi m = filter (\<lambda>(k, _). lo \<le> k \<and> k \<le> hi) m"

definition btree_collect :: "('k::linorder \<times> 'v) list \<Rightarrow> ('k, 'v) btree" where
  "btree_collect xs = fold (\<lambda>(k, v). btree_insert k v) xs []"

subsection \<open>The interface\<close>

locale ordered_map =
  fixes empty :: "'m"
    and get :: "'m \<Rightarrow> 'k::linorder \<Rightarrow> 'v option"
    and put :: "'k \<Rightarrow> 'v \<Rightarrow> 'm \<Rightarrow> 'm"
    and del :: "'k \<Rightarrow> 'm \<Rightarrow> 'm"
    and entries :: "'m \<Rightarrow> ('k \<times> 'v) list"
    and wf :: "'m \<Rightarrow> bool"
  assumes wf_empty: "wf empty"
    and wf_put: "wf m \<Longrightarrow> wf (put k v m)"
    and wf_del: "wf m \<Longrightarrow> wf (del k m)"
    and get_empty: "get empty k = None"
    and get_put: "get (put k v m) k' = (if k' = k then Some v else get m k')"
    and get_del: "wf m \<Longrightarrow> get (del k m) k' = (if k' = k then None else get m k')"
    and entries_sorted: "wf m \<Longrightarrow> sorted_wrt (<) (map fst (entries m))"
    and entries_get: "wf m \<Longrightarrow> (k, v) \<in> set (entries m) \<longleftrightarrow> get m k = Some v"
begin

lemma fold_put_wf: "wf m \<Longrightarrow> wf (fold (\<lambda>x. put (kf x) (vf x)) xs m)"
  by (induction xs arbitrary: m) (auto intro: wf_put)

lemma fold_put_get_notin:
  "k \<notin> kf ` set xs \<Longrightarrow> get (fold (\<lambda>x. put (kf x) (vf x)) xs m) k = get m k"
  by (induction xs arbitrary: m) (auto simp: get_put)

lemma fold_put_get:
  "distinct (map kf xs) \<Longrightarrow> x \<in> set xs \<Longrightarrow>
   get (fold (\<lambda>x. put (kf x) (vf x)) xs m) (kf x) = Some (vf x)"
proof (induction xs arbitrary: m)
  case (Cons y ys)
  then show ?case
    using fold_put_get_notin [of "kf y" kf ys vf] by (auto simp: get_put)
qed simp

lemma fold_put_dom:
  "get (fold (\<lambda>x. put (kf x) (vf x)) xs m) k \<noteq> None \<longleftrightarrow> k \<in> kf ` set xs \<or> get m k \<noteq> None"
  by (induction xs arbitrary: m) (auto simp: get_put)

lemma entries_ext:
  assumes "wf m" "wf n" "\<And>k. get m k = get n k"
  shows "entries m = entries n"
proof -
  have inj: "\<And>m. wf m \<Longrightarrow> sorted (map fst (entries m)) \<and> distinct (map fst (entries m))"
    using entries_sorted by (simp add: strict_sorted_iff)
  have "set (entries m) = set (entries n)"
    using assms by (auto simp: entries_get)
  moreover have "inj_on fst (set (entries m) \<union> set (entries n))"
    using assms by (auto simp: inj_on_def entries_get)
  ultimately show ?thesis
    using inj [OF assms(1)] inj [OF assms(2)] by (metis map_sorted_distinct_set_unique)
qed

end

subsection \<open>The association list implements it\<close>

lemma btree_get_iff: "btree_wf m \<Longrightarrow> btree_get m k = Some v \<longleftrightarrow> (k, v) \<in> set m"
proof (induction m)
  case Nil
  then show ?case by simp
next
  case (Cons p m)
  then show ?case by (cases p) (force simp: btree_wf_def)
qed

lemma btree_get_None: "btree_get m k = None \<longleftrightarrow> k \<notin> fst ` set m"
  by (induction m) (auto split: if_splits)

lemma btree_get_map_of: "btree_get m = map_of m"
  by (rule ext, induct_tac x rule: btree_get.induct) auto

lemma set_fst_btree_insert: "fst ` set (btree_insert k v m) = insert k (fst ` set m)"
  by (induction k v m rule: btree_insert.induct) auto

lemma btree_wf_Nil [simp, wf_intros]: "btree_wf []"
  by (simp add: btree_wf_def)

lemma btree_wf_Cons: "btree_wf ((k, v) # m) \<longleftrightarrow> btree_wf m \<and> (\<forall>k' \<in> fst ` set m. k < k')"
  by (auto simp: btree_wf_def)

lemma btree_wf_append:
  "btree_wf (m @ [(k, v)]) \<longleftrightarrow> btree_wf m \<and> (\<forall>(k', _) \<in> set m. k' < k)"
  by (induction m) (auto simp: btree_wf_Cons)

lemma btree_wf_insert [simp, wf_intros]: "btree_wf m \<Longrightarrow> btree_wf (btree_insert k v m)"
proof (induction k v m rule: btree_insert.induct)
  case (2 k v k' v' m)
  then show ?case
    by (auto simp: btree_wf_Cons set_fst_btree_insert simp del: image_iff) (force+)?
qed (simp add: btree_wf_def)

lemma set_btree_remove_subset: "set (btree_remove k m) \<subseteq> set m"
  by (induction k m rule: btree_remove.induct) auto

lemma btree_wf_remove [simp, wf_intros]: "btree_wf m \<Longrightarrow> btree_wf (btree_remove k m)"
proof (induction k m rule: btree_remove.induct)
  case (2 k k' v' m)
  then show ?case using set_btree_remove_subset [of k m] by (auto simp: btree_wf_Cons)
qed simp

lemma fst_set_btree_update [simp]: "map fst (btree_update k f m) = map fst m"
  by (induction k f m rule: btree_update.induct) auto

lemma btree_wf_update [simp, wf_intros]: "btree_wf m \<Longrightarrow> btree_wf (btree_update k f m)"
  by (simp add: btree_wf_def)

lemma btree_get_insert: "btree_get (btree_insert k v m) k' = (if k' = k then Some v else btree_get m k')"
  by (induction k v m rule: btree_insert.induct) auto

lemma btree_get_remove:
  "btree_wf m \<Longrightarrow> btree_get (btree_remove k m) k' = (if k' = k then None else btree_get m k')"
proof (induction k m rule: btree_remove.induct)
  case (2 k k'' v'' m)
  then show ?case by (force simp: btree_wf_Cons btree_get_None)
qed simp

lemma btree_get_update:
  "btree_get (btree_update k f m) k' = (if k' = k then map_option f (btree_get m k) else btree_get m k')"
  by (induction k f m rule: btree_update.induct) auto

interpretation bt: ordered_map "[]" btree_get btree_insert btree_remove "\<lambda>m. m" btree_wf
  by unfold_locales
    (auto simp: btree_get_insert btree_get_remove btree_get_iff, simp_all add: btree_wf_def)

declare btree_get_insert [simp] btree_get_update [simp]

subsection \<open>Derived facts\<close>

lemma btree_ext: "btree_wf m \<Longrightarrow> btree_wf n \<Longrightarrow> (\<And>k. btree_get m k = btree_get n k) \<Longrightarrow> m = n"
  by (rule bt.entries_ext)

lemma btree_wf_distinct: "btree_wf m \<Longrightarrow> distinct (map fst m)"
  by (simp add: btree_wf_def sorted_wrt_less_distinct)

lemma btree_wf_filter [simp, wf_intros]: "btree_wf m \<Longrightarrow> btree_wf (filter P m)"
  by (simp add: btree_wf_def sorted_wrt_map sorted_wrt_filter)

lemma btree_wf_map_values [simp]: "btree_wf (map (\<lambda>(k, v). (k, f k v)) m) = btree_wf m"
  by (simp add: btree_wf_def comp_def case_prod_unfold)

lemma btree_get_map_values [simp]:
  "btree_get (map (\<lambda>(k, v). (k, f k v)) m) k = map_option (f k) (btree_get m k)"
  by (induction m) auto

lemma btree_get_filter:
  "btree_wf m \<Longrightarrow> btree_get (filter (\<lambda>(k, v). P k v) m) k =
     (case btree_get m k of None \<Rightarrow> None | Some v \<Rightarrow> if P k v then Some v else None)"
proof (induction m)
  case (Cons p m)
  then show ?case by (cases p) (force simp: btree_wf_Cons btree_get_None split: option.splits)
qed simp

lemma btree_length_insert:
  "btree_wf m \<Longrightarrow> length (btree_insert k v m) = (if btree_contains m k then length m else Suc (length m))"
proof (induction k v m rule: btree_insert.induct)
  case (2 k v k' v' m)
  then show ?case
    by (auto simp: btree_contains_def btree_wf_Cons btree_get_None dest: less_asym) 
qed (simp add: btree_contains_def)

lemma btree_length_remove:
  "length (btree_remove k m) = (if btree_contains m k then length m - 1 else length m)"
proof (induction k m rule: btree_remove.induct)
  case (2 k k' v' m)
  show ?case
  proof (cases "btree_contains m k")
    case True
    then have "m \<noteq> []" by (auto simp: btree_contains_def)
    with 2 True show ?thesis by (auto simp: btree_contains_def Suc_diff_le)
  next
    case False
    with 2 show ?thesis by (auto simp: btree_contains_def)
  qed
qed (simp add: btree_contains_def)

lemma btree_length_update [simp]: "length (btree_update k f m) = length m"
  by (metis fst_set_btree_update length_map)

lemma btree_remove_absent [simp]: "btree_get m k = None \<Longrightarrow> btree_remove k m = m"
  by (induction k m rule: btree_remove.induct) (auto split: if_splits)

lemma btree_keys_set: "set (btree_keys m) = {k. btree_get m k \<noteq> None}"
  by (auto simp: btree_keys_def btree_get_None)

lemma btree_values_set: "btree_wf m \<Longrightarrow> set (btree_values m) = {v. \<exists>k. btree_get m k = Some v}"
  by (force simp: btree_values_def btree_get_iff)

lemma btree_range_set:
  "btree_wf m \<Longrightarrow> set (btree_range lo hi m) = {(k, v). lo \<le> k \<and> k \<le> hi \<and> btree_get m k = Some v}"
  by (auto simp: btree_range_def btree_get_iff)

lemma btree_wf_collect [simp]: "btree_wf (btree_collect xs)"
proof -
  have "btree_wf m \<Longrightarrow> btree_wf (fold (\<lambda>(k, v). btree_insert k v) xs m)" for m :: "('a, 'b) btree"
    by (induction xs arbitrary: m) auto
  then show ?thesis by (simp add: btree_collect_def)
qed

lemma btree_collect_get: "btree_get (btree_collect xs) k = map_of (rev xs) k"
proof -
  have "btree_get (fold (\<lambda>(k, v). btree_insert k v) xs m) k = (btree_get m ++ map_of (rev xs)) k" for m
    by (induction xs arbitrary: m) (auto simp: map_add_def split: option.splits)
  then show ?thesis by (simp add: btree_collect_def map_add_def split: option.split)
qed

subsection \<open>Sums over the values\<close>

definition btree_sum :: "('v \<Rightarrow> nat) \<Rightarrow> ('k::linorder, 'v) btree \<Rightarrow> nat" where
  "btree_sum f m = sum_list (map (\<lambda>(_, v). f v) m)"

lemma btree_sum_simps [simp]:
  "btree_sum f [] = 0" "btree_sum f ((k, v) # m) = f v + btree_sum f m"
  by (simp_all add: btree_sum_def)

lemma btree_sum_insert:
  "btree_wf m \<Longrightarrow> btree_sum f (btree_insert k v m) + (case btree_get m k of None \<Rightarrow> 0 | Some w \<Rightarrow> f w)
     = btree_sum f m + f v"
proof (induction k v m rule: btree_insert.induct)
  case (2 k v k' v' m)
  then have "btree_get m k = None" if "k < k'"
    using that by (force simp: btree_wf_Cons btree_get_None)
  with 2 show ?case by (auto simp: btree_wf_Cons)
qed simp

lemma btree_sum_remove:
  "btree_sum f (btree_remove k m) + (case btree_get m k of None \<Rightarrow> 0 | Some w \<Rightarrow> f w) = btree_sum f m"
  by (induction k m rule: btree_remove.induct) auto

lemma btree_sum_update:
  "btree_sum f (btree_update k g m) + (case btree_get m k of None \<Rightarrow> 0 | Some w \<Rightarrow> f w)
     = btree_sum f m + (case btree_get m k of None \<Rightarrow> 0 | Some w \<Rightarrow> f (g w))"
  by (induction k g m rule: btree_update.induct) auto

lemma btree_sum_le: "btree_get m k = Some v \<Longrightarrow> f v \<le> btree_sum f m"
  by (induction m) (auto split: if_splits)

text \<open>\<open>entry(k).or_default()\<close> and reads with a default.\<close>

definition btree_get_or :: "'v \<Rightarrow> ('k::linorder, 'v) btree \<Rightarrow> 'k \<Rightarrow> 'v" where
  "btree_get_or d m k = (case btree_get m k of None \<Rightarrow> d | Some v \<Rightarrow> v)"

lemma btree_get_or_simps [simp]:
  "btree_get m k = None \<Longrightarrow> btree_get_or d m k = d" "btree_get m k = Some v \<Longrightarrow> btree_get_or d m k = v"
  by (simp_all add: btree_get_or_def)

end
