(* ===== verification/Coords.thy ===== *)
theory Coords
  imports Prelude
begin

text \<open>
  World addresses: \<open>ChunkCoord\<close> (world/src/chunk.rs) and \<open>VoxelCoord\<close> (world/src/edit.rs), with
  the derived lexicographic \<open>Ord\<close> of the structs, the split of a voxel address into its owning
  chunk and its local coordinates, and the linear voxel indices inside a chunk. The lemmas show
  that the split is a bijection and stays inside \<open>i32\<close>. \<open>div\<close> and \<open>mod\<close> are Rust's
  \<open>div_euclid\<close> and \<open>rem_euclid\<close>, since every divisor is positive.
\<close>

definition CHUNK_EDGE :: nat where "CHUNK_EDGE = 32"
definition CHUNK_VOLUME :: nat where "CHUNK_VOLUME = CHUNK_EDGE * CHUNK_EDGE * CHUNK_EDGE"

lemma CHUNK_EDGE_simp [simp]: "CHUNK_EDGE = 32" by (simp add: CHUNK_EDGE_def)
lemma CHUNK_VOLUME_simp [simp]: "CHUNK_VOLUME = 32768" by (simp add: CHUNK_VOLUME_def)

record chunk_coord =
  cx :: int
  cy :: int
  cz :: int

record voxel_coord =
  vx :: int
  vy :: int
  vz :: int

instantiation chunk_coord_ext :: (linorder) linorder
begin

definition less_eq_chunk_coord_ext :: "'a chunk_coord_scheme \<Rightarrow> 'a chunk_coord_scheme \<Rightarrow> bool" where
  "less_eq_chunk_coord_ext a b \<longleftrightarrow>
     (cx a, cy a, cz a, chunk_coord.more a) \<le> (cx b, cy b, cz b, chunk_coord.more b)"

definition less_chunk_coord_ext :: "'a chunk_coord_scheme \<Rightarrow> 'a chunk_coord_scheme \<Rightarrow> bool" where
  "less_chunk_coord_ext a b \<longleftrightarrow>
     (cx a, cy a, cz a, chunk_coord.more a) < (cx b, cy b, cz b, chunk_coord.more b)"

instance
  by standard (auto simp: less_eq_chunk_coord_ext_def less_chunk_coord_ext_def)

end

instantiation voxel_coord_ext :: (linorder) linorder
begin

definition less_eq_voxel_coord_ext :: "'a voxel_coord_scheme \<Rightarrow> 'a voxel_coord_scheme \<Rightarrow> bool" where
  "less_eq_voxel_coord_ext a b \<longleftrightarrow>
     (vx a, vy a, vz a, voxel_coord.more a) \<le> (vx b, vy b, vz b, voxel_coord.more b)"

definition less_voxel_coord_ext :: "'a voxel_coord_scheme \<Rightarrow> 'a voxel_coord_scheme \<Rightarrow> bool" where
  "less_voxel_coord_ext a b \<longleftrightarrow>
     (vx a, vy a, vz a, voxel_coord.more a) < (vx b, vy b, vz b, voxel_coord.more b)"

instance
  by standard (auto simp: less_eq_voxel_coord_ext_def less_voxel_coord_ext_def)

end

lemma chunk_coord_less: "(a :: chunk_coord) < b \<longleftrightarrow> (cx a, cy a, cz a) < (cx b, cy b, cz b)"
  by (auto simp: less_chunk_coord_ext_def)

lemma chunk_coord_le: "(a :: chunk_coord) \<le> b \<longleftrightarrow> (cx a, cy a, cz a) \<le> (cx b, cy b, cz b)"
  by (auto simp: less_eq_chunk_coord_ext_def)

lemma voxel_coord_less: "(a :: voxel_coord) < b \<longleftrightarrow> (vx a, vy a, vz a) < (vx b, vy b, vz b)"
  by (auto simp: less_voxel_coord_ext_def)

subsection \<open>Chunk coordinates\<close>

abbreviation chunk_at :: "int \<Rightarrow> int \<Rightarrow> int \<Rightarrow> chunk_coord" where
  "chunk_at x y z \<equiv> \<lparr>cx = x, cy = y, cz = z\<rparr>"

abbreviation voxel_at :: "int \<Rightarrow> int \<Rightarrow> int \<Rightarrow> voxel_coord" where
  "voxel_at x y z \<equiv> \<lparr>vx = x, vy = y, vz = z\<rparr>"

lemma chunk_surjective [simp]: "chunk_at (cx c) (cy c) (cz c) = c" by simp
lemma voxel_surjective [simp]: "voxel_at (vx v) (vy v) (vz v) = v" by simp

definition MIN_WORLD_AXIS :: int where "MIN_WORLD_AXIS = i32_min div int CHUNK_EDGE"
definition MAX_WORLD_AXIS :: int where "MAX_WORLD_AXIS = i32_max div int CHUNK_EDGE"

definition is_world_representable :: "chunk_coord \<Rightarrow> bool" where
  "is_world_representable c \<longleftrightarrow>
     cx c \<ge> MIN_WORLD_AXIS \<and> cx c \<le> MAX_WORLD_AXIS \<and>
     cy c \<ge> MIN_WORLD_AXIS \<and> cy c \<le> MAX_WORLD_AXIS \<and>
     cz c \<ge> MIN_WORLD_AXIS \<and> cz c \<le> MAX_WORLD_AXIS"

text \<open>\<open>world_origin\<close> asserts representability: \<open>None\<close> is the panic.\<close>

definition world_origin :: "chunk_coord \<Rightarrow> (int \<times> int \<times> int) option" where
  "world_origin c =
     (if is_world_representable c
      then Some (cx c * int CHUNK_EDGE, cy c * int CHUNK_EDGE, cz c * int CHUNK_EDGE)
      else None)"

lemma world_axis_simps [simp]: "MIN_WORLD_AXIS = -67108864" "MAX_WORLD_AXIS = 67108863"
  by (simp_all add: MIN_WORLD_AXIS_def MAX_WORLD_AXIS_def)

subsection \<open>Voxel coordinates\<close>

definition voxel_ok :: "voxel_coord \<Rightarrow> bool" where
  "voxel_ok v \<longleftrightarrow> i32_ok (vx v) \<and> i32_ok (vy v) \<and> i32_ok (vz v)"

definition chunk_ok :: "chunk_coord \<Rightarrow> bool" where
  "chunk_ok c \<longleftrightarrow> i32_ok (cx c) \<and> i32_ok (cy c) \<and> i32_ok (cz c)"

definition voxel_chunk :: "voxel_coord \<Rightarrow> chunk_coord" where
  "voxel_chunk v =
     (let edge = int CHUNK_EDGE in chunk_at (vx v div edge) (vy v div edge) (vz v div edge))"

definition voxel_local :: "voxel_coord \<Rightarrow> nat \<times> nat \<times> nat" where
  "voxel_local v =
     (let edge = int CHUNK_EDGE in (nat (vx v mod edge), nat (vy v mod edge), nat (vz v mod edge)))"

definition local_ok :: "nat \<times> nat \<times> nat \<Rightarrow> bool" where
  "local_ok = (\<lambda>(x, y, z). x < CHUNK_EDGE \<and> y < CHUNK_EDGE \<and> z < CHUNK_EDGE)"

text \<open>The voxel at local coordinates of a chunk, as every caller of \<open>world_origin\<close> computes it.\<close>

definition voxel_of_local :: "int \<times> int \<times> int \<Rightarrow> nat \<times> nat \<times> nat \<Rightarrow> voxel_coord" where
  "voxel_of_local origin l =
     (case (origin, l) of ((ox, oy, oz), (x, y, z)) \<Rightarrow>
        voxel_at (ox + int x) (oy + int y) (oz + int z))"

lemma voxel_chunk_representable: "voxel_ok v \<Longrightarrow> is_world_representable (voxel_chunk v)"
  by (auto simp: voxel_ok_def i32_ok_def is_world_representable_def voxel_chunk_def Let_def)

lemma voxel_local_ok [simp]: "local_ok (voxel_local v)"
  by (auto simp: local_ok_def voxel_local_def Let_def nat_less_iff)

lemma voxel_split:
  "voxel_ok v \<Longrightarrow> \<exists>origin. world_origin (voxel_chunk v) = Some origin \<and>
     voxel_of_local origin (voxel_local v) = v"
  using voxel_chunk_representable [of v]
  by (auto simp: world_origin_def voxel_of_local_def voxel_chunk_def voxel_local_def Let_def)

lemma voxel_join:
  assumes "world_origin c = Some origin" "local_ok l"
  shows "voxel_ok (voxel_of_local origin l)"
    and "voxel_chunk (voxel_of_local origin l) = c"
    and "voxel_local (voxel_of_local origin l) = l"
  using assms
  by (cases l; auto simp: world_origin_def voxel_of_local_def voxel_chunk_def voxel_local_def
      local_ok_def voxel_ok_def i32_ok_def is_world_representable_def Let_def nat_add_distrib
      nat_mult_distrib split: if_splits)+

lemma chunk_ok_representable: "is_world_representable c \<Longrightarrow> chunk_ok c"
  by (auto simp: chunk_ok_def i32_ok_def is_world_representable_def)

subsection \<open>Linear indices\<close>

text \<open>
  \<open>chunk_index\<close> (chunk.rs) walks Y-Z-X with X contiguous and asserts its bounds;
  \<open>local_index\<close> and \<open>local_coord\<close> (edit.rs) keep a vertical column contiguous.
\<close>

definition chunk_index :: "nat \<Rightarrow> nat \<Rightarrow> nat \<Rightarrow> nat option" where
  "chunk_index x y z =
     (if x < CHUNK_EDGE \<and> y < CHUNK_EDGE \<and> z < CHUNK_EDGE
      then Some (x + z * CHUNK_EDGE + y * CHUNK_EDGE * CHUNK_EDGE) else None)"

definition local_index :: "nat \<times> nat \<times> nat \<Rightarrow> nat" where
  "local_index = (\<lambda>(x, y, z). y + z * CHUNK_EDGE + x * CHUNK_EDGE * CHUNK_EDGE)"

definition local_coord :: "nat \<Rightarrow> nat \<times> nat \<times> nat" where
  "local_coord index =
     (let x = index div (CHUNK_EDGE * CHUNK_EDGE);
          within_column_plane = index mod (CHUNK_EDGE * CHUNK_EDGE);
          z = within_column_plane div CHUNK_EDGE;
          y = within_column_plane mod CHUNK_EDGE
      in (x, y, z))"

lemma base32_pair:
  fixes a b :: nat
  assumes "a < 32"
  shows "(a + b * 32) div 32 = b" and "(a + b * 32) mod 32 = a"
  using assms by simp_all

lemma base32_triple:
  fixes a b c :: nat
  assumes "a < 32" "b < 32"
  shows "(a + b * 32 + c * 1024) mod 32 = a"
    and "(a + b * 32 + c * 1024) mod 1024 = a + b * 32"
    and "(a + b * 32 + c * 1024) div 1024 = c"
proof -
  have "a + b * 32 + c * 1024 = a + (b + c * 32) * 32" by simp
  then show "(a + b * 32 + c * 1024) mod 32 = a"
    using base32_pair(2) [OF assms(1), of "b + c * 32"] by metis
  have "a + b * 32 < 1024" using assms by simp
  then show "(a + b * 32 + c * 1024) mod 1024 = a + b * 32"
    and "(a + b * 32 + c * 1024) div 1024 = c"
    by simp_all
qed

lemma chunk_index_less: "chunk_index x y z = Some i \<Longrightarrow> i < CHUNK_VOLUME"
  by (auto simp: chunk_index_def split: if_splits)

lemma chunk_index_digits:
  "chunk_index x y z = Some i \<Longrightarrow> x = i mod 32 \<and> z = i mod 1024 div 32 \<and> y = i div 1024"
proof -
  assume "chunk_index x y z = Some i"
  then have lt: "x < 32" "z < 32" and i: "x + z * 32 + y * 1024 = i"
    by (auto simp: chunk_index_def split: if_splits)
  show ?thesis
    using base32_triple [OF lt, of y] base32_pair [OF lt(1), of z] unfolding i by simp
qed

lemma chunk_index_inj:
  "chunk_index x y z = Some i \<Longrightarrow> chunk_index x' y' z' = Some i \<Longrightarrow> x = x' \<and> y = y' \<and> z = z'"
  using chunk_index_digits by metis

lemma chunk_index_surj:
  "i < CHUNK_VOLUME \<Longrightarrow> chunk_index (i mod 32) (i div 1024) (i mod 1024 div 32) = Some i"
proof -
  assume "i < CHUNK_VOLUME"
  moreover have "i mod 32 = i mod 1024 mod 32" by (simp add: mod_mod_cancel)
  then have "i mod 32 + i mod 1024 div 32 * 32 + i div 1024 * 1024 = i"
    by (metis add.commute div_mult_mod_eq)
  ultimately show ?thesis by (simp add: chunk_index_def less_mult_imp_div_less)
qed

lemma local_index_less: "local_ok l \<Longrightarrow> local_index l < CHUNK_VOLUME"
  by (cases l) (auto simp: local_ok_def local_index_def)

lemma local_coord_ok: "i < CHUNK_VOLUME \<Longrightarrow> local_ok (local_coord i)"
  by (auto simp: local_ok_def local_coord_def Let_def less_mult_imp_div_less)

lemma local_index_coord: "local_index (local_coord i) = i"
  by (simp add: local_index_def local_coord_def Let_def)

lemma local_coord_index: "local_ok l \<Longrightarrow> local_coord (local_index l) = l"
  using base32_triple [of "fst (snd l)" "snd (snd l)" "fst l"]
    base32_pair [of "fst (snd l)" "snd (snd l)"]
  by (cases l) (auto simp: local_ok_def local_index_def local_coord_def Let_def)

lemma local_index_inj: "local_ok a \<Longrightarrow> local_ok b \<Longrightarrow> local_index a = local_index b \<longleftrightarrow> a = b"
  by (metis local_coord_index)

end
