(* ===== verification/Material_Model.thy ===== *)
theory Material_Model
  imports Prelude
begin

text \<open>
  The durable material schema (world/src/material.rs): the stable ids written into every
  payload, their decoding, and the rendering and collision classes derived from them. The
  emission table holds only \<open>f32\<close> render constants and is left out.
\<close>

datatype render_layer = LayerEmpty | LayerOpaque | LayerTranslucent

datatype material =
  Air | Grass | Dirt | Stone | Sand | Snow | Clay | Basalt | Wood | Leaves | Moss | Limestone
| RedSand | Water | GlowCrystal

definition MATERIAL_SCHEMA_VERSION :: nat where "MATERIAL_SCHEMA_VERSION = 3"

definition MATERIAL_ALL :: "material list" where
  "MATERIAL_ALL = [Air, Grass, Dirt, Stone, Sand, Snow, Clay, Basalt, Wood, Leaves, Moss,
     Limestone, RedSand, Water, GlowCrystal]"

fun material_id :: "material \<Rightarrow> nat" where
  "material_id Air = 0"
| "material_id Grass = 1"
| "material_id Dirt = 2"
| "material_id Stone = 3"
| "material_id Sand = 4"
| "material_id Snow = 5"
| "material_id Clay = 6"
| "material_id Basalt = 7"
| "material_id Wood = 8"
| "material_id Leaves = 9"
| "material_id Moss = 10"
| "material_id Limestone = 11"
| "material_id RedSand = 12"
| "material_id Water = 13"
| "material_id GlowCrystal = 14"

definition material_from_id :: "nat \<Rightarrow> material option" where
  "material_from_id i =
     (if i = 0 then Some Air
      else if i = 1 then Some Grass
      else if i = 2 then Some Dirt
      else if i = 3 then Some Stone
      else if i = 4 then Some Sand
      else if i = 5 then Some Snow
      else if i = 6 then Some Clay
      else if i = 7 then Some Basalt
      else if i = 8 then Some Wood
      else if i = 9 then Some Leaves
      else if i = 10 then Some Moss
      else if i = 11 then Some Limestone
      else if i = 12 then Some RedSand
      else if i = 13 then Some Water
      else if i = 14 then Some GlowCrystal
      else None)"

fun render_layer_of :: "material \<Rightarrow> render_layer" where
  "render_layer_of Air = LayerEmpty"
| "render_layer_of Water = LayerTranslucent"
| "render_layer_of _ = LayerOpaque"

definition is_collidable :: "material \<Rightarrow> bool" where
  "is_collidable m \<longleftrightarrow> \<not> (m = Air \<or> m = Water)"

definition is_renderable :: "material \<Rightarrow> bool" where
  "is_renderable m \<longleftrightarrow> render_layer_of m \<noteq> LayerEmpty"

definition occludes_ambient :: "material \<Rightarrow> bool" where
  "occludes_ambient m \<longleftrightarrow> render_layer_of m = LayerOpaque"

definition is_fluid :: "material \<Rightarrow> bool" where
  "is_fluid m \<longleftrightarrow> m = Water"

lemma material_from_id_id [simp]: "material_from_id (material_id m) = Some m"
  by (cases m) (simp_all add: material_from_id_def)

lemma material_from_id_Some: "material_from_id i = Some m \<longleftrightarrow> i = material_id m"
proof
  show "material_from_id i = Some m \<Longrightarrow> i = material_id m"
    unfolding material_from_id_def by (auto split: if_split_asm)
qed simp

lemma material_id_inj [simp]: "material_id a = material_id b \<longleftrightarrow> a = b"
  by (metis material_from_id_id option.inject)

lemma material_id_less: "material_id m < length MATERIAL_ALL"
  by (cases m) (simp_all add: MATERIAL_ALL_def)

lemma material_all_nth: "i < length MATERIAL_ALL \<Longrightarrow> material_id (MATERIAL_ALL ! i) = i"
proof -
  have "map material_id MATERIAL_ALL = [0..<15]" by (simp add: MATERIAL_ALL_def upt_rec)
  then show "i < length MATERIAL_ALL \<Longrightarrow> ?thesis"
    by (metis add_0 length_map length_upt minus_nat.diff_0 nth_map nth_upt)
qed

lemma material_all_set [simp]: "set MATERIAL_ALL = UNIV"
proof -
  have "m \<in> set MATERIAL_ALL" for m by (cases m) (simp_all add: MATERIAL_ALL_def)
  then show ?thesis by blast
qed

lemma material_id_le_u16 [simp]: "material_id m \<le> u16_max"
  by (cases m) simp_all

lemma is_renderable_iff: "is_renderable m \<longleftrightarrow> m \<noteq> Air"
  by (cases m) (simp_all add: is_renderable_def)

lemma occludes_iff_collidable: "occludes_ambient m \<longleftrightarrow> is_collidable m"
  by (cases m) (simp_all add: occludes_ambient_def is_collidable_def)

end
