(* ===== verification/Chunk_Model.thy ===== *)
theory Chunk_Model
  imports Coords Material_Model
begin

text \<open>
  The chunk (world/src/chunk.rs): a representable coordinate and exactly \<open>CHUNK_VOLUME\<close>
  materials. \<open>None\<close> of \<open>chunk_empty\<close>, \<open>chunk_filled\<close>, \<open>chunk_get\<close> and \<open>chunk_set\<close> is the panic
  of the code's assertion; \<open>chunk_from_voxels\<close> returns its \<open>Option\<close>. The lemmas give the
  read-after-write laws and preservation of the invariant \<open>chunk_wf\<close>.
\<close>

record chunk =
  ch_coord :: chunk_coord
  ch_voxels :: "material list"

definition chunk_wf :: "chunk \<Rightarrow> bool" where
  "chunk_wf c \<longleftrightarrow> is_world_representable (ch_coord c) \<and> length (ch_voxels c) = CHUNK_VOLUME"

definition chunk_from_voxels :: "chunk_coord \<Rightarrow> material list \<Rightarrow> chunk option" where
  "chunk_from_voxels coord voxels =
     (if is_world_representable coord \<and> length voxels = CHUNK_VOLUME
      then Some \<lparr>ch_coord = coord, ch_voxels = voxels\<rparr> else None)"

definition chunk_filled :: "chunk_coord \<Rightarrow> material \<Rightarrow> chunk option" where
  "chunk_filled coord m =
     (if is_world_representable coord
      then Some \<lparr>ch_coord = coord, ch_voxels = replicate CHUNK_VOLUME m\<rparr> else None)"

definition chunk_empty :: "chunk_coord \<Rightarrow> chunk option" where
  "chunk_empty coord =
     (if is_world_representable coord
      then Some \<lparr>ch_coord = coord, ch_voxels = replicate CHUNK_VOLUME Air\<rparr> else None)"

definition chunk_get :: "chunk \<Rightarrow> nat \<Rightarrow> nat \<Rightarrow> nat \<Rightarrow> material option" where
  "chunk_get c x y z = map_option (\<lambda>i. ch_voxels c ! i) (chunk_index x y z)"

definition chunk_set :: "chunk \<Rightarrow> nat \<Rightarrow> nat \<Rightarrow> nat \<Rightarrow> material \<Rightarrow> chunk option" where
  "chunk_set c x y z m =
     map_option (\<lambda>i. c\<lparr>ch_voxels := (ch_voxels c)[i := m]\<rparr>) (chunk_index x y z)"

lemma chunk_filled_wf: "chunk_filled coord m = Some c \<Longrightarrow> chunk_wf c"
  by (auto simp: chunk_filled_def chunk_wf_def split: if_splits)

lemma chunk_empty_filled: "chunk_empty coord = chunk_filled coord Air"
  by (simp add: chunk_empty_def chunk_filled_def)

lemma chunk_from_voxels_wf: "chunk_from_voxels coord vs = Some c \<Longrightarrow> chunk_wf c"
  by (auto simp: chunk_from_voxels_def chunk_wf_def split: if_splits)

lemma chunk_set_wf: "chunk_wf c \<Longrightarrow> chunk_set c x y z m = Some c' \<Longrightarrow> chunk_wf c' \<and> ch_coord c' = ch_coord c"
  by (auto simp: chunk_set_def chunk_wf_def)

lemma chunk_get_defined: "local_ok (x, y, z) \<longleftrightarrow> chunk_get c x y z \<noteq> None"
  by (auto simp: chunk_get_def chunk_index_def local_ok_def)

lemma chunk_set_defined: "local_ok (x, y, z) \<longleftrightarrow> chunk_set c x y z m \<noteq> None"
  by (auto simp: chunk_set_def chunk_index_def local_ok_def)

lemma chunk_get_set:
  assumes "chunk_wf c" "chunk_set c x y z m = Some c'"
  shows "chunk_get c' x' y' z' = (if (x', y', z') = (x, y, z) then Some m else chunk_get c x' y' z')"
proof -
  obtain i where i: "chunk_index x y z = Some i" and c': "c' = c\<lparr>ch_voxels := (ch_voxels c)[i := m]\<rparr>"
    using assms(2) by (auto simp: chunk_set_def)
  have less: "i < length (ch_voxels c)" using assms(1) chunk_index_less [OF i] by (simp add: chunk_wf_def)
  show ?thesis
  proof (cases "chunk_index x' y' z'")
    case None
    with i show ?thesis by (auto simp: chunk_get_def)
  next
    case (Some j)
    have "(x', y', z') = (x, y, z) \<longleftrightarrow> j = i"
      using chunk_index_inj [OF i, of x' y' z'] Some i by auto
    then show ?thesis using Some less by (simp add: chunk_get_def c')
  qed
qed

lemma chunk_ext:
  assumes "chunk_wf c" "chunk_wf d" "ch_coord c = ch_coord d"
    and "\<And>x y z. local_ok (x, y, z) \<Longrightarrow> chunk_get c x y z = chunk_get d x y z"
  shows "c = d"
proof -
  have "ch_voxels c ! i = ch_voxels d ! i" if "i < CHUNK_VOLUME" for i
  proof -
    have s: "chunk_index (i mod 32) (i div 1024) (i mod 1024 div 32) = Some i"
      by (rule chunk_index_surj [OF that])
    moreover have "local_ok (i mod 32, i div 1024, i mod 1024 div 32)"
      using that by (simp add: local_ok_def less_mult_imp_div_less)
    ultimately show ?thesis using assms(4) by (force simp: chunk_get_def)
  qed
  then have "ch_voxels c = ch_voxels d"
    using assms(1,2) by (intro nth_equalityI) (auto simp: chunk_wf_def)
  with assms(3) show ?thesis by simp
qed

end
