(* ===== verification/Wire_Bytes.thy ===== *)
theory Wire_Bytes
  imports Prelude
begin

text \<open>
  Byte-level building blocks shared by every binary format of the repository: little-endian
  integers (\<open>to_le_bytes\<close>, \<open>from_le_bytes\<close>), offset reads (\<open>bytes.get(a..b)\<close>)
  and the result type with Rust's \<open>?\<close> operator.
\<close>

subsection \<open>Results\<close>

text \<open>\<open>Result<T, E>\<close> is \<open>'e + 'a\<close>; \<open>attempt\<close> is the \<open>?\<close> operator.\<close>

fun attempt :: "'e + 'a \<Rightarrow> ('a \<Rightarrow> 'e + 'b) \<Rightarrow> 'e + 'b" where
  "attempt (Inl e) k = Inl e"
| "attempt (Inr x) k = k x"

definition ok_or :: "'e \<Rightarrow> 'a option \<Rightarrow> 'e + 'a" where
  "ok_or e x = (case x of None \<Rightarrow> Inl e | Some y \<Rightarrow> Inr y)"

lemma ok_or_simps [simp]: "ok_or e None = Inl e" "ok_or e (Some y) = Inr y"
  by (simp_all add: ok_or_def)

lemma try_Inr [simp]: "attempt m k = Inr y \<longleftrightarrow> (\<exists>x. m = Inr x \<and> k x = Inr y)"
  by (cases m) auto

lemma ok_or_Inr [simp]: "ok_or e x = Inr y \<longleftrightarrow> x = Some y"
  by (cases x) auto

subsection \<open>Little-endian integers\<close>

fun to_le :: "nat \<Rightarrow> nat \<Rightarrow> u8 list" where
  "to_le 0 n = []"
| "to_le (Suc k) n = of_nat (n mod 256) # to_le k (n div 256)"

fun from_le :: "u8 list \<Rightarrow> nat" where
  "from_le [] = 0"
| "from_le (b # bs) = unat b + 256 * from_le bs"

lemma length_to_le [simp]: "length (to_le k n) = k"
  by (induction k arbitrary: n) auto

lemma unat_of_nat_u8: "n < 256 \<Longrightarrow> unat (of_nat n :: u8) = n"
  by (simp add: unat_of_nat)

lemma from_to_le: "n < 256 ^ k \<Longrightarrow> from_le (to_le k n) = n"
proof (induction k arbitrary: n)
  case (Suc k)
  then have "n div 256 < 256 ^ k" by (simp add: less_mult_imp_div_less mult.commute)
  with Suc.IH show ?case by (simp add: unat_of_nat_u8)
qed simp

lemma from_le_less: "from_le bs < 256 ^ length bs"
proof (induction bs)
  case (Cons b bs)
  have "unat b < 256" using unsigned_less [of b] by simp
  with Cons.IH show ?case by simp
qed simp

lemma to_from_le: "length bs = k \<Longrightarrow> to_le k (from_le bs) = bs"
proof (induction bs arbitrary: k)
  case (Cons b bs)
  have "unat b < 256" using unsigned_less [of b] by simp
  with Cons show ?case by auto
qed simp

definition u16_le :: "nat \<Rightarrow> u8 list" where "u16_le n = to_le 2 n"
definition u32_le :: "nat \<Rightarrow> u8 list" where "u32_le n = to_le 4 n"
definition u64_le :: "u64 \<Rightarrow> u8 list" where "u64_le w = to_le 8 (unat w)"
definition i32_le :: "int \<Rightarrow> u8 list" where "i32_le x = to_le 4 (nat (x mod 4294967296))"

definition u64_from_le :: "u8 list \<Rightarrow> u64" where "u64_from_le bs = of_nat (from_le bs)"

definition i32_from_le :: "u8 list \<Rightarrow> int" where
  "i32_from_le bs =
     (let n = int (from_le bs) in if n < 2147483648 then n else n - 4294967296)"

lemma length_le [simp]:
  "length (u16_le n) = 2" "length (u32_le n) = 4" "length (u64_le w) = 8" "length (i32_le x) = 4"
  by (simp_all add: u16_le_def u32_le_def u64_le_def i32_le_def)

lemma u16_roundtrip: "n \<le> u16_max \<Longrightarrow> from_le (u16_le n) = n"
  by (simp add: u16_le_def from_to_le)

lemma u32_roundtrip: "n \<le> u32_max \<Longrightarrow> from_le (u32_le n) = n"
  by (simp add: u32_le_def from_to_le)

lemma u64_roundtrip: "u64_from_le (u64_le w) = w"
proof -
  have "unat w < 256 ^ 8" using unsigned_less [of w] by simp
  then show ?thesis by (simp add: u64_le_def u64_from_le_def from_to_le)
qed

lemma i32_roundtrip: "i32_ok x \<Longrightarrow> i32_from_le (i32_le x) = x"
proof -
  assume x: "i32_ok x"
  have "from_le (i32_le x) = nat (x mod 4294967296)"
    unfolding i32_le_def by (rule from_to_le) (simp add: nat_less_iff)
  moreover have "x mod 4294967296 = (if 0 \<le> x then x else x + 4294967296)"
  proof (cases "0 \<le> x")
    case False
    have "x mod 4294967296 = (x + 4294967296) mod 4294967296" by simp
    also have "\<dots> = x + 4294967296"
      using x False by (intro mod_pos_pos_trivial) (auto simp: i32_ok_def)
    finally show ?thesis using False by simp
  qed (use x in \<open>simp add: i32_ok_def\<close>)
  ultimately show ?thesis using x by (auto simp: i32_from_le_def i32_ok_def Let_def)
qed

lemma i32_from_le_ok: "length bs = 4 \<Longrightarrow> i32_ok (i32_from_le bs)"
  using from_le_less [of bs] by (auto simp: i32_from_le_def i32_ok_def Let_def)

lemma i32_le_from_le:
  assumes "length bs = 4"
  shows "i32_le (i32_from_le bs) = bs"
proof -
  have n: "from_le bs < 4294967296" using from_le_less [of bs] assms by simp
  then have "nat (i32_from_le bs mod 4294967296) = from_le bs"
    by (auto simp: i32_from_le_def Let_def)
  then show ?thesis by (simp add: i32_le_def to_from_le assms)
qed

lemma u64_le_from_le:
  assumes "length bs = 8"
  shows "u64_le (u64_from_le bs) = bs"
proof -
  have "from_le bs < 2 ^ 64" using from_le_less [of bs] assms by simp
  then have "unat (of_nat (from_le bs) :: u64) = from_le bs" by (simp add: unat_of_nat)
  then show ?thesis using assms by (simp only: u64_le_def u64_from_le_def to_from_le)
qed

subsection \<open>Offset reads\<close>

text \<open>\<open>bytes.get(a..b)\<close>.\<close>

definition slice :: "u8 list \<Rightarrow> nat \<Rightarrow> nat \<Rightarrow> u8 list option" where
  "slice bs a b = (if a \<le> b \<and> b \<le> length bs then Some (take (b - a) (drop a bs)) else None)"

lemma slice_append_skip:
  "length xs \<le> a \<Longrightarrow> slice (xs @ ys) a b =
     (if length xs \<le> b then slice ys (a - length xs) (b - length xs) else None)"
  by (auto simp: slice_def)

lemma slice_append_hit: "length xs = b \<Longrightarrow> slice (xs @ ys) 0 b = Some xs"
  by (simp add: slice_def)

lemma slice_exact: "length xs = a \<Longrightarrow> length ys = b - a \<Longrightarrow> a \<le> b \<Longrightarrow> slice (xs @ ys @ zs) a b = Some ys"
  by (simp add: slice_def)

lemma drop_split: "drop a b = take n (drop a b) @ drop (a + n) b"
  by (metis add.commute append_take_drop_id drop_drop)

definition ascii :: "string \<Rightarrow> u8 list" where
  "ascii s = map of_char s"

end
