(* ===== verification/Bit_Packing.thy ===== *)
theory Bit_Packing
  imports Chunk_Model Wire_Bytes
begin

text \<open>
  The palette index stream of the chunk codec (world/src/codec.rs): \<open>bits_for\<close>, the packing loop
  with its 64-bit accumulator and the unpacking loop that refills it byte by byte. Both are
  related to plain base-\<open>2^bits\<close> digits of the little-endian value of the payload, so the two
  loops are inverse to each other.
\<close>

datatype codec_error =
  CodecTruncated
| CodecInvalidMagic
| CodecUnsupportedVersion nat
| CodecInvalidHeader string
| CodecSourceIdentityMismatch
| CodecUnknownMaterial nat
| CodecCorruptHash

subsection \<open>The code\<close>

fun bit_length :: "nat \<Rightarrow> nat" where
  "bit_length n = (if n = 0 then 0 else Suc (bit_length (n div 2)))"

declare bit_length.simps [simp del]

definition leading_zeros64 :: "nat \<Rightarrow> nat" where
  "leading_zeros64 n = 64 - bit_length n"

definition bits_for :: "nat \<Rightarrow> nat" where
  "bits_for palette_len = 64 - leading_zeros64 (palette_len - 1)"

fun pack_drain :: "u8 list \<Rightarrow> u64 \<Rightarrow> nat \<Rightarrow> u8 list \<times> u64 \<times> nat" where
  "pack_drain packed accumulator held =
     (if held \<ge> 8 then pack_drain (packed @ [ucast accumulator]) (drop_bit 8 accumulator) (held - 8)
      else (packed, accumulator, held))"

declare pack_drain.simps [simp del]

fun pack_loop :: "nat list \<Rightarrow> nat \<Rightarrow> material list \<Rightarrow> u8 list \<Rightarrow> u64 \<Rightarrow> nat \<Rightarrow> u8 list" where
  "pack_loop palette_indices bits [] packed accumulator held =
     (if held > 0 then packed @ [ucast accumulator] else packed)"
| "pack_loop palette_indices bits (m # ms) packed accumulator held =
     (let index = of_nat (palette_indices ! material_id m);
          accumulator = accumulator OR push_bit held index;
          held = held + bits;
          (packed, accumulator, held) = pack_drain packed accumulator held
      in pack_loop palette_indices bits ms packed accumulator held)"

definition pack_indices :: "material list \<Rightarrow> nat list \<Rightarrow> nat \<Rightarrow> u8 list" where
  "pack_indices voxels palette_indices bits = pack_loop palette_indices bits voxels [] 0 0"

function refill :: "u8 list \<Rightarrow> nat \<Rightarrow> u64 \<Rightarrow> nat \<Rightarrow> nat \<Rightarrow> codec_error + (u64 \<times> nat \<times> nat)" where
  "refill payload bits accumulator held cursor =
     (if held < bits then
        (if cursor < length payload then
           refill payload bits (accumulator OR push_bit held (ucast (payload ! cursor)))
             (held + 8) (cursor + 1)
         else Inl CodecTruncated)
      else Inr (accumulator, held, cursor))"
  by pat_completeness auto
termination
  by (relation "measure (\<lambda>(payload, bits, accumulator, held, cursor). bits - held)") auto

declare refill.simps [simp del]

text \<open>The \<open>while\<close> loop runs until \<open>CHUNK_VOLUME\<close> voxels are read: \<open>n\<close> counts those missing.\<close>

fun unpack_loop ::
  "u8 list \<Rightarrow> material list \<Rightarrow> nat \<Rightarrow> nat \<Rightarrow> material list \<Rightarrow> bool list \<Rightarrow> u64 \<Rightarrow> nat \<Rightarrow> nat \<Rightarrow>
   codec_error + (material list \<times> bool list)" where
  "unpack_loop payload palette bits 0 voxels referenced accumulator held cursor =
     Inr (voxels, referenced)"
| "unpack_loop payload palette bits (Suc n) voxels referenced accumulator held cursor =
     attempt (refill payload bits accumulator held cursor) (\<lambda>(accumulator, held, cursor).
       let index = unat (accumulator AND (push_bit bits 1 - 1)) in
       if index \<ge> length referenced then Inl (CodecInvalidHeader ''palette index out of range'')
       else if index \<ge> length palette then Inl (CodecInvalidHeader ''palette index out of range'')
       else unpack_loop payload palette bits n (voxels @ [palette ! index]) (referenced[index := True])
              (drop_bit bits accumulator) (held - bits) cursor)"

definition unpack_indices :: "u8 list \<Rightarrow> material list \<Rightarrow> nat \<Rightarrow> codec_error + material list" where
  "unpack_indices payload palette bits =
     attempt (unpack_loop payload palette bits CHUNK_VOLUME [] (replicate (length palette) False) 0 0 0)
       (\<lambda>(voxels, referenced).
         if False \<in> set referenced
         then Inl (CodecInvalidHeader ''palette contains an unused material'')
         else Inr voxels)"

subsection \<open>Digits\<close>

fun digits_val :: "nat \<Rightarrow> nat list \<Rightarrow> nat" where
  "digits_val b [] = 0"
| "digits_val b (x # xs) = x + 2 ^ b * digits_val b xs"

fun to_digits :: "nat \<Rightarrow> nat \<Rightarrow> nat \<Rightarrow> nat list" where
  "to_digits b 0 v = []"
| "to_digits b (Suc n) v = (v mod 2 ^ b) # to_digits b n (v div 2 ^ b)"

lemma length_to_digits [simp]: "length (to_digits b n v) = n"
  by (induction n arbitrary: v) auto

lemma to_digits_val: "\<forall>x \<in> set xs. x < 2 ^ b \<Longrightarrow> to_digits b (length xs) (digits_val b xs) = xs"
  by (induction xs) auto

lemma digits_val_less: "\<forall>x \<in> set xs. x < 2 ^ b \<Longrightarrow> digits_val b xs < 2 ^ (b * length xs)"
proof (induction xs)
  case (Cons x xs)
  then have "digits_val b xs + 1 \<le> 2 ^ (b * length xs)" and "x < 2 ^ b" by auto
  then have "2 ^ b * (digits_val b xs + 1) \<le> 2 ^ b * 2 ^ (b * length xs)" by (intro mult_le_mono2)
  with \<open>x < 2 ^ b\<close> show ?case by (simp add: power_add)
qed simp

lemma digits_val_to_digits: "v < 2 ^ (b * n) \<Longrightarrow> digits_val b (to_digits b n v) = v"
proof (induction n arbitrary: v)
  case (Suc n)
  then have "v div 2 ^ b < 2 ^ (b * n)" by (simp add: power_add less_mult_imp_div_less mult.commute)
  with Suc.IH show ?case by simp
qed simp

lemma to_digits_less: "x \<in> set (to_digits b n v) \<Longrightarrow> x < 2 ^ b"
  by (induction n arbitrary: v) auto

lemma bit_length_bound: "n < 2 ^ bit_length n"
proof (induction n rule: bit_length.induct)
  case (1 n)
  show ?case
  proof (cases "n = 0")
    case False
    with 1 have "n div 2 < 2 ^ bit_length (n div 2)" by simp
    then have "n < 2 * 2 ^ bit_length (n div 2)" by linarith
    with False show ?thesis by (simp add: bit_length.simps [of n])
  qed (simp add: bit_length.simps)
qed

lemma bit_length_le: "n < 2 ^ k \<Longrightarrow> bit_length n \<le> k"
proof (induction n arbitrary: k rule: bit_length.induct)
  case (1 n)
  show ?case
  proof (cases "n = 0")
    case False
    with 1(2) obtain j where k: "k = Suc j" by (cases k) auto
    with 1(2) have "n div 2 < 2 ^ j" by simp
    with 1(1) False k show ?thesis by (simp add: bit_length.simps [of n])
  qed (simp add: bit_length.simps)
qed

lemma bits_for_bound:
  assumes "0 < n" "n \<le> 16"
  shows "i < n \<Longrightarrow> i < 2 ^ bits_for n" and "bits_for n \<le> 4" and "1 < n \<Longrightarrow> 0 < bits_for n"
proof -
  have le: "bit_length (n - 1) \<le> 4" using assms by (intro bit_length_le) auto
  then have b: "bits_for n = bit_length (n - 1)" by (simp add: bits_for_def leading_zeros64_def)
  show "bits_for n \<le> 4" using le b by simp
  show "i < n \<Longrightarrow> i < 2 ^ bits_for n" using bit_length_bound [of "n - 1"] b by simp
  have "0 < bit_length (n - 1)" if "1 < n"
    using that by (subst bit_length.simps) simp
  with b show "1 < n \<Longrightarrow> 0 < bits_for n" by simp
qed

subsection \<open>Accumulator arithmetic\<close>

lemma or_mult_power: "a < 2 ^ h \<Longrightarrow> a OR (b * 2 ^ h) = a + b * 2 ^ h" for a b :: nat
proof (induction h arbitrary: a)
  case (Suc h)
  then have "a div 2 < 2 ^ h" by simp
  then have "a div 2 OR b * 2 ^ h = a div 2 + b * 2 ^ h" by (rule Suc.IH)
  moreover have "b * 2 ^ Suc h div 2 = b * 2 ^ h" by simp
  ultimately have "a OR b * 2 ^ Suc h = of_bool (odd a) + 2 * (a div 2 + b * 2 ^ h)"
    by (subst or_nat_rec) simp
  then show ?case by (simp add: odd_two_times_div_two_succ algebra_simps) presburger?
qed simp

lemma unat_push:
  fixes b :: u64
  assumes "unat b * 2 ^ h < 2 ^ 64"
  shows "unat (push_bit h b) = unat b * 2 ^ h"
proof -
  have "push_bit h b = of_nat (unat b * 2 ^ h)" by (simp add: push_bit_eq_mult)
  then have "unat (push_bit h b) = take_bit 64 (unat b * 2 ^ h)"
    by (simp only: unsigned_of_nat) simp
  then show ?thesis using assms by (simp add: take_bit_eq_mod)
qed

lemma unat_or_push:
  fixes a b :: u64
  assumes "unat a < 2 ^ h" "unat b * 2 ^ h < 2 ^ 64"
  shows "unat (a OR push_bit h b) = unat a + unat b * 2 ^ h"
  using or_mult_power [OF assms(1)] by (simp add: unsigned_or_eq unat_push [OF assms(2)])

lemma unat_low_byte: "unat (ucast w :: u8) = unat w mod 256" for w :: u64
  by (simp add: unsigned_ucast_eq take_bit_eq_mod)

lemma unat_drop: "unat (drop_bit n w) = unat w div 2 ^ n" for w :: u64
  by (simp only: unat_drop_bit_eq) (simp add: drop_bit_eq_div)

lemma unat_mask: "n \<le> 63 \<Longrightarrow> unat (w AND (push_bit n 1 - 1)) = unat w mod 2 ^ n" for w :: u64
proof -
  assume "n \<le> 63"
  have "w AND (push_bit n 1 - 1) = take_bit n w"
    by (simp add: take_bit_eq_mask mask_eq_exp_minus_1 push_bit_eq_mult)
  then show ?thesis by (simp only: unsigned_take_bit_eq) (simp add: take_bit_eq_mod)
qed

lemma unat_ucast_byte: "unat (ucast b :: u64) = unat b" for b :: u8
proof -
  have "unat b < 256" using unsigned_less [of b] by simp
  then show ?thesis by (simp add: unsigned_ucast_eq take_bit_eq_mod)
qed

lemma from_le_append: "from_le (xs @ ys) = from_le xs + 256 ^ length xs * from_le ys"
  by (induction xs) (simp_all add: algebra_simps)

lemma power_256: "(256 :: nat) ^ n = 2 ^ (8 * n)"
  by (simp add: power_mult)

subsection \<open>What the packing loop writes\<close>

lemma pack_drain_value:
  "pack_drain packed acc held = (packed', acc', held') \<Longrightarrow> unat acc < 2 ^ held \<Longrightarrow>
   held' < 8 \<and> unat acc' < 2 ^ held' \<and> 8 * length packed' + held' = 8 * length packed + held \<and>
   from_le packed' + 256 ^ length packed' * unat acc' = from_le packed + 256 ^ length packed * unat acc"
proof (induction packed acc held rule: pack_drain.induct)
  case (1 packed acc held)
  show ?case
  proof (cases "held \<ge> 8")
    case True
    let ?p = "packed @ [ucast acc]" and ?a = "drop_bit 8 acc"
    have "(2 :: nat) ^ (held - 8) * 2 ^ 8 = 2 ^ held" using True by (simp only: flip: power_add) simp
    with 1(3) have "unat acc < 2 ^ (held - 8) * 2 ^ 8" by simp
    then have less: "unat ?a < 2 ^ (held - 8)" by (simp add: unat_drop less_mult_imp_div_less)
    have "pack_drain ?p ?a (held - 8) = (packed', acc', held')"
      using 1(2) True by (simp add: pack_drain.simps [of packed acc held])
    from 1(1) [OF True this less]
    have "held' < 8 \<and> unat acc' < 2 ^ held' \<and> 8 * length packed' + held' = 8 * length packed + held \<and>
      from_le packed' + 256 ^ length packed' * unat acc' = from_le ?p + 256 ^ length ?p * unat ?a"
      using True by simp
    moreover have "from_le ?p + 256 ^ length ?p * unat ?a
        = from_le packed + 256 ^ length packed * (unat acc mod 256 + 256 * (unat acc div 256))"
      unfolding distrib_left by (simp add: from_le_append unat_low_byte unat_drop)
    moreover have "unat acc mod 256 + 256 * (unat acc div 256) = unat acc" by simp
    ultimately show ?thesis by metis
  next
    case False
    with 1 show ?thesis by (simp add: pack_drain.simps [of packed acc held])
  qed
qed

lemma pack_loop_value:
  assumes "held < 8" "unat acc < 2 ^ held" "bits \<le> 8"
    and "\<forall>m \<in> set ms. palette_indices ! material_id m < 2 ^ bits"
  shows "from_le (pack_loop palette_indices bits ms packed acc held)
      = from_le packed + 256 ^ length packed *
          (unat acc + 2 ^ held * digits_val bits (map (\<lambda>m. palette_indices ! material_id m) ms)) \<and>
    length (pack_loop palette_indices bits ms packed acc held)
      = length packed + (held + bits * length ms + 7) div 8"
  using assms
proof (induction ms arbitrary: packed acc held)
  case Nil
  have "unat acc < 256" using Nil(1,2) power_strict_increasing [of held 8 "2 :: nat"] by simp
  then show ?case using Nil(1,2) by (auto simp: from_le_append unat_low_byte div_if)
next
  case (Cons m ms)
  let ?i = "palette_indices ! material_id m"
  let ?acc = "acc OR push_bit held (of_nat ?i)"
  obtain p a h where d: "pack_drain packed ?acc (held + bits) = (p, a, h)" by (metis prod_cases3)
  have i: "?i < 2 ^ bits" using Cons.prems(4) by simp
  have "(2 :: nat) ^ bits \<le> 2 ^ 8" using Cons.prems(3) by (intro power_increasing) auto
  with i have "?i < 256" by simp
  then have ui: "unat (of_nat ?i :: u64) = ?i" by (simp add: unat_of_nat)
  have "(2 :: nat) ^ held \<le> 2 ^ 8" using Cons.prems(1) by (intro power_increasing) auto
  with \<open>?i < 256\<close> have "?i * 2 ^ held < 2 ^ 64"
    by (intro le_less_trans [OF mult_le_mono [of ?i 256 "2 ^ held" 256]]) auto
  then have acc: "unat ?acc = unat acc + ?i * 2 ^ held"
    using unat_or_push [OF Cons.prems(2), of "of_nat ?i"] ui by simp
  have "unat acc + ?i * 2 ^ held < (?i + 1) * 2 ^ held" using Cons.prems(2) by simp
  also have "\<dots> \<le> 2 ^ bits * 2 ^ held" using i by (intro mult_le_mono1) simp
  finally have "unat ?acc < 2 ^ (held + bits)" by (simp add: acc power_add mult.commute)
  from pack_drain_value [OF d this]
  have st: "h < 8" "unat a < 2 ^ h" and len: "8 * length p + h = 8 * length packed + (held + bits)"
    and v: "from_le p + 256 ^ length p * unat a = from_le packed + 256 ^ length packed * unat ?acc"
    by auto
  let ?D = "digits_val bits (map (\<lambda>m. palette_indices ! material_id m) ms)"
  have "(256 :: nat) ^ length p * 2 ^ h = 256 ^ length packed * 2 ^ held * 2 ^ bits"
    using len by (simp add: power_256 flip: power_add)
  then have w: "256 ^ length p * (2 ^ h * ?D) = 256 ^ length packed * (2 ^ held * (2 ^ bits * ?D))"
    by (metis (no_types) mult.assoc)
  have "from_le (pack_loop palette_indices bits ms p a h)
      = from_le p + 256 ^ length p * unat a + 256 ^ length p * (2 ^ h * ?D)"
    and L: "length (pack_loop palette_indices bits ms p a h) = length p + (h + bits * length ms + 7) div 8"
    using Cons.IH [OF st Cons.prems(3)] Cons.prems(4) by (simp_all add: distrib_left)
  then have V: "from_le (pack_loop palette_indices bits ms p a h)
      = from_le packed + 256 ^ length packed * (unat acc + 2 ^ held * (?i + 2 ^ bits * ?D))"
    unfolding v w acc by (simp add: algebra_simps)
  have "length p + (h + bits * length ms + 7) div 8 = (8 * length p + h + bits * length ms + 7) div 8"
    by simp
  also have "\<dots> = length packed + (held + bits * length (m # ms) + 7) div 8"
    unfolding len by (simp add: algebra_simps)
  finally show ?case using V L by (simp add: d)
qed

lemma pack_indices_value:
  assumes "bits \<le> 8" "\<forall>m \<in> set ms. palette_indices ! material_id m < 2 ^ bits"
  shows "from_le (pack_indices ms palette_indices bits)
      = digits_val bits (map (\<lambda>m. palette_indices ! material_id m) ms)"
    and "length (pack_indices ms palette_indices bits) = (bits * length ms + 7) div 8"
  using pack_loop_value [of 0 0 bits ms palette_indices "[]"] assms by (simp_all add: pack_indices_def)

subsection \<open>What the unpacking loop reads\<close>

text \<open>
  \<open>unread_value\<close> is the number still to be read: the held bits, then the payload from \<open>cursor\<close>.
\<close>

definition unread_value :: "u8 list \<Rightarrow> u64 \<Rightarrow> nat \<Rightarrow> nat \<Rightarrow> nat" where
  "unread_value payload acc held cursor = unat acc + 2 ^ held * from_le (drop cursor payload)"

lemma refill_spec:
  assumes "unat acc < 2 ^ held" "held < 16" "bits \<le> 8" "cursor \<le> length payload"
  shows "if bits \<le> held + 8 * (length payload - cursor)
    then \<exists>acc' held' cursor'. refill payload bits acc held cursor = Inr (acc', held', cursor') \<and>
      bits \<le> held' \<and> held' < 16 \<and> unat acc' < 2 ^ held' \<and> cursor' \<le> length payload \<and>
      held' + 8 * (length payload - cursor') = held + 8 * (length payload - cursor) \<and>
      unread_value payload acc' held' cursor' = unread_value payload acc held cursor
    else refill payload bits acc held cursor = Inl CodecTruncated"
  using assms
proof (induction payload bits acc held cursor rule: refill.induct)
  case (1 payload bits acc held cursor)
  show ?case
  proof (cases "held < bits \<and> cursor < length payload")
    case False
    with 1(5) have "\<not> held < bits \<or> cursor = length payload" by auto
    then show ?thesis
      using 1(2-) by (cases "held < bits"; subst (1 2) refill.simps) auto
  next
    case True
    let ?b = "payload ! cursor" and ?acc = "acc OR push_bit held (ucast (payload ! cursor))"
    have b: "unat ?b < 256" using unsigned_less [of ?b] by simp
    have "(2 :: nat) ^ held \<le> 2 ^ 16" using 1(3) by (intro power_increasing) auto
    with b have "unat ?b * 2 ^ held < 2 ^ 64"
      by (intro le_less_trans [OF mult_le_mono [of "unat ?b" 256 "2 ^ held" "2 ^ 16"]]) auto
    then have acc: "unat ?acc = unat acc + unat ?b * 2 ^ held"
      using unat_or_push [OF 1(2), of "ucast ?b"] by (simp add: unat_ucast_byte)
    have "unat acc + unat ?b * 2 ^ held < (unat ?b + 1) * 2 ^ held" using 1(2) by simp
    also have "\<dots> \<le> 256 * 2 ^ held" using b by (intro mult_le_mono1) simp
    finally have less: "unat ?acc < 2 ^ (held + 8)" by (simp add: acc power_add)
    have "drop cursor payload = ?b # drop (cursor + 1) payload"
      using True by (simp add: Cons_nth_drop_Suc)
    then have v: "unread_value payload ?acc (held + 8) (cursor + 1) = unread_value payload acc held cursor"
      unfolding unread_value_def acc by (simp add: power_add algebra_simps)
    have step: "refill payload bits acc held cursor = refill payload bits ?acc (held + 8) (cursor + 1)"
      using True by (subst refill.simps) simp
    have n: "held + 8 + 8 * (length payload - (cursor + 1)) = held + 8 * (length payload - cursor)"
      using True by arith
    show ?thesis
      using 1(1) [OF conjunct1 [OF True] conjunct2 [OF True] less] True 1(4)
      unfolding step n v by simp
  qed
qed

lemma to_digits_split:
  assumes "bits \<le> held"
  shows "to_digits bits (Suc n) (unread_value payload acc held cursor)
    = unat acc mod 2 ^ bits # to_digits bits n (unread_value payload (drop_bit bits acc) (held - bits) cursor)"
proof -
  have p: "(2 :: nat) ^ held = 2 ^ bits * 2 ^ (held - bits)" using assms by (simp flip: power_add)
  have "(unat acc + 2 ^ bits * k) mod 2 ^ bits = unat acc mod 2 ^ bits"
    and "(unat acc + 2 ^ bits * k) div 2 ^ bits = unat acc div 2 ^ bits + k" for k by simp_all
  then show ?thesis unfolding unread_value_def p by (simp add: unat_drop mult.assoc add.commute)
qed

definition mark_all :: "bool list \<Rightarrow> nat list \<Rightarrow> bool list" where
  "mark_all referenced ds = fold (\<lambda>d r. r[d := True]) ds referenced"

lemma unpack_loop_spec:
  assumes "unat acc < 2 ^ held" "held < 16" "bits \<le> 8" "cursor \<le> length payload"
    and "length referenced = length palette"
    and "ds = to_digits bits n (unread_value payload acc held cursor)"
  shows "unpack_loop payload palette bits n voxels referenced acc held cursor = Inr (vs, rs) \<longleftrightarrow>
    bits * n \<le> held + 8 * (length payload - cursor) \<and> (\<forall>d \<in> set ds. d < length palette) \<and>
    vs = voxels @ map (\<lambda>d. palette ! d) ds \<and> rs = mark_all referenced ds"
  using assms
proof (induction n arbitrary: voxels referenced acc held cursor ds)
  case 0
  then show ?case by (auto simp: mark_all_def)
next
  case (Suc n)
  note spec = refill_spec [OF Suc.prems(1-4)]
  show ?case
  proof (cases "bits \<le> held + 8 * (length payload - cursor)")
    case False
    with spec show ?thesis by simp
  next
    case True
    with spec obtain a h c where r: "refill payload bits acc held cursor = Inr (a, h, c)"
      and h: "bits \<le> h" "h < 16" and a: "unat a < 2 ^ h" and c: "c \<le> length payload"
      and avail: "h + 8 * (length payload - c) = held + 8 * (length payload - cursor)"
      and v: "unread_value payload a h c = unread_value payload acc held cursor"
      by auto
    let ?i = "unat a mod 2 ^ bits" and ?a = "drop_bit bits a"
    let ?ds = "to_digits bits n (unread_value payload ?a (h - bits) c)"
    have i: "unat (a AND (push_bit bits 1 - 1)) = ?i" using Suc.prems(3) by (simp only: unat_mask)
    have ds: "ds = ?i # ?ds" using to_digits_split [OF h(1), of n payload a c] v Suc.prems(6) by simp
    have "unat a < 2 ^ (h - bits) * 2 ^ bits" using a h(1) by (simp flip: power_add)
    then have a': "unat ?a < 2 ^ (h - bits)" by (simp only: unat_drop less_mult_imp_div_less)
    have IH: "unpack_loop payload palette bits n (voxels @ [palette ! ?i]) (referenced[?i := True])
        ?a (h - bits) c = Inr (vs, rs) \<longleftrightarrow>
      bits * n \<le> (h - bits) + 8 * (length payload - c) \<and> (\<forall>d \<in> set ?ds. d < length palette) \<and>
      vs = (voxels @ [palette ! ?i]) @ map (\<lambda>d. palette ! d) ?ds \<and>
      rs = mark_all (referenced[?i := True]) ?ds"
      using Suc.IH [OF a' _ Suc.prems(3) c _ refl] h Suc.prems(5) by simp
    have n: "bits * n \<le> (h - bits) + 8 * (length payload - c)
        \<longleftrightarrow> bits * Suc n \<le> held + 8 * (length payload - cursor)"
      using h(1) avail by auto
    have "unpack_loop payload palette bits (Suc n) voxels referenced acc held cursor
      = (if ?i \<ge> length palette then Inl (CodecInvalidHeader ''palette index out of range'')
         else unpack_loop payload palette bits n (voxels @ [palette ! ?i]) (referenced[?i := True])
               ?a (h - bits) c)"
      unfolding unpack_loop.simps r attempt.simps prod.case i Let_def Suc.prems(5) by simp
    then show ?thesis using IH n unfolding ds by (auto simp: mark_all_def)
  qed
qed

lemma length_mark_all [simp]: "length (mark_all r ds) = length r"
  unfolding mark_all_def by (induction ds arbitrary: r) auto

lemma mark_all_nth: "i < length r \<Longrightarrow> mark_all r ds ! i = (r ! i \<or> i \<in> set ds)"
proof (induction ds arbitrary: r)
  case (Cons d ds)
  then show ?case by (cases "i = d") (simp_all add: mark_all_def)
qed (simp add: mark_all_def)

lemma unpack_indices_iff:
  assumes "bits \<le> 8" "ds = to_digits bits CHUNK_VOLUME (from_le payload)"
  shows "unpack_indices payload palette bits = Inr vs \<longleftrightarrow>
    bits * CHUNK_VOLUME \<le> 8 * length payload \<and> set ds = {..<length palette} \<and>
    vs = map (\<lambda>d. palette ! d) ds"
proof -
  let ?r = "mark_all (replicate (length palette) False) ds"
  have "unpack_loop payload palette bits CHUNK_VOLUME [] (replicate (length palette) False) 0 0 0
      = Inr (us, rs) \<longleftrightarrow>
    bits * CHUNK_VOLUME \<le> 8 * length payload \<and> (\<forall>d \<in> set ds. d < length palette) \<and>
    us = map (\<lambda>d. palette ! d) ds \<and> rs = ?r" for us rs
    using unpack_loop_spec [of 0 0 bits 0 payload "replicate (length palette) False" palette ds
        CHUNK_VOLUME "[]" us rs] assms by (simp add: unread_value_def del: unpack_loop.simps CHUNK_VOLUME_simp)
  moreover have "False \<in> set ?r \<longleftrightarrow> \<not> {..<length palette} \<subseteq> set ds"
    by (force simp: in_set_conv_nth [of False] mark_all_nth)
  ultimately show ?thesis
    unfolding unpack_indices_def try_Inr by (auto simp del: CHUNK_VOLUME_simp split: if_split_asm)
qed

end
