(* ===== verification/Edit_Chunk.thy ===== *)
theory Edit_Chunk
  imports Ordered_Map Chunk_Model Bit_Packing
begin

text \<open>
  The overrides of one chunk (\<open>EditedChunk\<close> in world/src/edit.rs): a vector of local index and
  material, sorted by index, searched by binary search. \<open>ec_replace\<close>, \<open>merge_chunk_overrides\<close> and
  the two scanning strategies of \<open>for_each_in_box\<close> are shown to be the operations of an ordered
  map and a plain filter.
\<close>

type_synonym edited_chunk = "(nat \<times> material) list"

text \<open>
  \<open>partition_point\<close> and \<open>binary_search_by_key\<close> of the standard library on a vector sorted by key:
  the first position whose key is not below, and whether the key is there.
\<close>

definition partition_point :: "('a \<Rightarrow> bool) \<Rightarrow> 'a list \<Rightarrow> nat" where
  "partition_point p xs = length (takeWhile p xs)"

definition binary_search :: "nat \<Rightarrow> edited_chunk \<Rightarrow> nat + nat" where
  "binary_search local overrides =
     (let i = partition_point (\<lambda>(index, _). index < local) overrides in
      if i < length overrides \<and> fst (overrides ! i) = local then Inr i else Inl i)"

definition ec_wf :: "edited_chunk \<Rightarrow> bool" where
  "ec_wf overrides \<longleftrightarrow> btree_wf overrides \<and> (\<forall>(index, _) \<in> set overrides. index < CHUNK_VOLUME)"

definition ec_get :: "edited_chunk \<Rightarrow> nat \<Rightarrow> material option" where
  "ec_get overrides local =
     (case binary_search local overrides of
        Inr index \<Rightarrow> Some (snd (overrides ! index))
      | Inl _ \<Rightarrow> None)"

definition ec_replace :: "nat \<Rightarrow> material option \<Rightarrow> edited_chunk \<Rightarrow> edited_chunk \<times> bool" where
  "ec_replace local material overrides =
     (case binary_search local overrides of
        Inr index \<Rightarrow>
          (case material of
             None \<Rightarrow> (take index overrides @ drop (Suc index) overrides, True)
           | Some m \<Rightarrow>
               if snd (overrides ! index) = m then (overrides, False)
               else (overrides[index := (local, m)], False))
      | Inl index \<Rightarrow>
          (case material of
             None \<Rightarrow> (overrides, False)
           | Some m \<Rightarrow> (take index overrides @ (local, m) # drop index overrides, True)))"

definition ec_is_empty :: "edited_chunk \<Rightarrow> bool" where
  "ec_is_empty overrides \<longleftrightarrow> overrides = []"

text \<open>\<open>&overrides[first..after]\<close> between two partition points.\<close>

definition ec_slice :: "nat \<Rightarrow> nat \<Rightarrow> edited_chunk \<Rightarrow> edited_chunk" where
  "ec_slice start stop overrides =
     (let first = partition_point (\<lambda>(index, _). index < start) overrides;
          after = partition_point (\<lambda>(index, _). index \<le> stop) overrides
      in take (after - first) (drop first overrides))"

definition ec_column :: "nat \<Rightarrow> nat \<Rightarrow> edited_chunk \<Rightarrow> edited_chunk" where
  "ec_column x z overrides =
     ec_slice (local_index (x, 0, z)) (local_index (x, CHUNK_EDGE - 1, z)) overrides"

definition usize_saturating_mul :: "nat \<Rightarrow> nat \<Rightarrow> nat" where
  "usize_saturating_mul a b = min u64_max (a * b)"

definition search_depth :: "nat \<Rightarrow> nat" where
  "search_depth n = 64 - leading_zeros64 (max n 1)"

text \<open>The visited indices, in order; \<open>visit\<close> is the caller's accumulation over them.\<close>

definition for_each_in_box ::
  "nat \<times> nat \<Rightarrow> nat \<times> nat \<Rightarrow> nat \<times> nat \<Rightarrow> edited_chunk \<Rightarrow> nat list" where
  "for_each_in_box x y z overrides =
     (let full_chunk_box = (x = (0, CHUNK_EDGE - 1) \<and> y = (0, CHUNK_EDGE - 1) \<and> z = (0, CHUNK_EDGE - 1));
          indexed_column_cost =
            usize_saturating_mul (usize_saturating_mul (usize_saturating_mul
              (snd x - fst x + 1) (snd z - fst z + 1)) 2) (search_depth (length overrides))
      in if full_chunk_box \<or> length overrides \<le> indexed_column_cost
         then filter (\<lambda>index. case local_coord index of (lx, ly, lz) \<Rightarrow>
                fst x \<le> lx \<and> lx \<le> snd x \<and> fst y \<le> ly \<and> ly \<le> snd y \<and> fst z \<le> lz \<and> lz \<le> snd z)
              (map fst overrides)
         else concat (map (\<lambda>lx. concat (map (\<lambda>lz.
                map fst (ec_slice (local_index (lx, fst y, lz)) (local_index (lx, snd y, lz)) overrides))
                [fst z..<Suc (snd z)])) [fst x..<Suc (snd x)]))"

fun merge_chunk_overrides :: "edited_chunk \<Rightarrow> (nat \<times> material option) list \<Rightarrow> edited_chunk" where
  "merge_chunk_overrides [] [] = []"
| "merge_chunk_overrides (old # olds) [] = old # merge_chunk_overrides olds []"
| "merge_chunk_overrides [] ((new_index, new_material) # news) =
     (case new_material of Some m \<Rightarrow> [(new_index, m)] | None \<Rightarrow> []) @ merge_chunk_overrides [] news"
| "merge_chunk_overrides ((old_index, old_material) # olds) ((new_index, new_material) # news) =
     (if old_index < new_index
      then (old_index, old_material) # merge_chunk_overrides olds ((new_index, new_material) # news)
      else if new_index < old_index
      then (case new_material of Some m \<Rightarrow> [(new_index, m)] | None \<Rightarrow> []) @
           merge_chunk_overrides ((old_index, old_material) # olds) news
      else (case new_material of Some m \<Rightarrow> [(new_index, m)] | None \<Rightarrow> []) @
           merge_chunk_overrides olds news)"

subsection \<open>Search in a sorted vector\<close>

lemma partition_point_Cons:
  "partition_point p (x # xs) = (if p x then Suc (partition_point p xs) else 0)"
  by (simp add: partition_point_def)

lemma partition_point_le: "partition_point p xs \<le> length xs"
  by (simp add: partition_point_def length_takeWhile_le)

lemma binary_search_Nil [simp]: "binary_search k [] = Inl 0"
  by (simp add: binary_search_def partition_point_def)

lemma binary_search_Cons [simp]:
  "binary_search k ((i, v) # m) =
     (if i < k then map_sum Suc Suc (binary_search k m) else if i = k then Inr 0 else Inl 0)"
  by (simp add: binary_search_def partition_point_Cons Let_def)

lemma binary_search_bound:
  "binary_search k m = Inr i \<Longrightarrow> i < length m \<and> fst (m ! i) = k"
  "binary_search k m = Inl i \<Longrightarrow> i \<le> length m"
  by (auto simp: binary_search_def Let_def partition_point_le split: if_splits)

lemma binary_search_Inl: "btree_wf m \<Longrightarrow> (\<exists>i. binary_search k m = Inl i) \<longleftrightarrow> btree_get m k = None"
proof (induction m)
  case (Cons p m)
  then show ?case
    by (cases p; cases "binary_search k m") (force simp: btree_wf_Cons btree_get_None)+
qed simp

lemma ec_get_btree: "btree_wf m \<Longrightarrow> ec_get m = btree_get m"
proof (rule ext, induction m)
  case (Cons p m)
  then have IH: "ec_get m x = btree_get m x" for x by (cases p) (auto simp: btree_wf_Cons)
  have "btree_get m x = None" if "x < fst p" for x
    using Cons.prems that by (cases p) (force simp: btree_wf_Cons btree_get_None)
  then show ?case using IH [of x]
    by (cases p; cases "binary_search x m") (auto simp: ec_get_def)
qed (simp add: ec_get_def)

lemma ec_replace_Some: "fst (ec_replace k (Some v) m) = btree_insert k v m"
proof (induction m)
  case (Cons p m)
  then show ?case
    by (cases p; cases "binary_search k m") (auto simp: ec_replace_def split: if_splits)
qed (simp add: ec_replace_def)

lemma ec_replace_None: "btree_wf m \<Longrightarrow> fst (ec_replace k None m) = btree_remove k m"
proof (induction m)
  case (Cons p m)
  then have wf: "btree_wf m" by (cases p) (simp add: btree_wf_Cons)
  have "btree_remove k m = m" if "k < fst p"
    using Cons.prems that by (intro btree_remove_absent) (cases p, force simp: btree_wf_Cons btree_get_None)
  then show ?case using Cons.IH [OF wf]
    by (cases p; cases "binary_search k m") (auto simp: ec_replace_def)
qed (simp add: ec_replace_def)

lemma ec_replace_flag:
  "btree_wf m \<Longrightarrow> snd (ec_replace k material m) \<longleftrightarrow> (btree_get m k = None) \<noteq> (material = None)"
  using binary_search_Inl [of m k]
  by (cases "binary_search k m"; cases material) (auto simp: ec_replace_def)

subsection \<open>Scans\<close>

lemma ec_slice_filter:
  "btree_wf m \<Longrightarrow> ec_slice a b m = filter (\<lambda>(i, _). a \<le> i \<and> i \<le> b) m"
proof (induction m)
  case (Cons p m)
  obtain i v where p: "p = (i, v)" by fastforce
  from Cons.prems have wf: "btree_wf m" and gt: "\<forall>j \<in> fst ` set m. i < j"
    by (auto simp: p btree_wf_Cons)
  note IH = Cons.IH [OF wf]
  show ?case
  proof (cases "i \<le> b")
    case False
    then have "filter (\<lambda>(i, _). a \<le> i \<and> i \<le> b) (p # m) = []"
      using gt by (force simp: p filter_empty_conv)
    with False show ?thesis by (simp add: ec_slice_def p partition_point_Cons)
  next
    case True
    show ?thesis
    proof (cases "i < a")
      case True
      with \<open>i \<le> b\<close> IH show ?thesis by (simp add: ec_slice_def p partition_point_Cons Let_def)
    next
      case False
      have "partition_point (\<lambda>(index, _). index < a) m = 0"
        using gt False by (cases m) (auto simp: partition_point_def)
      with False \<open>i \<le> b\<close> IH show ?thesis
        by (simp add: ec_slice_def p partition_point_Cons Let_def)
    qed
  qed
qed (simp add: ec_slice_def)

lemma local_index_between:
  assumes "x < 32" "z < 32" "y0 < 32" "y1 < 32"
  shows "local_index (x, y0, z) \<le> i \<and> i \<le> local_index (x, y1, z) \<longleftrightarrow>
    (\<exists>y. local_coord i = (x, y, z) \<and> y0 \<le> y \<and> y \<le> y1)"
proof
  assume between: "local_index (x, y0, z) \<le> i \<and> i \<le> local_index (x, y1, z)"
  then have b: "y0 + z * 32 + x * 1024 \<le> i" "i \<le> y1 + z * 32 + x * 1024"
    by (simp_all add: local_index_def mult.commute)
  define y where "y = i - (z * 32 + x * 1024)"
  have i: "i = y + z * 32 + x * 1024" and y: "y0 \<le> y" "y \<le> y1"
    using b unfolding y_def by arith+
  then have "local_ok (x, y, z)" using assms by (simp add: local_ok_def)
  from local_coord_index [OF this] have "local_coord i = (x, y, z)"
    unfolding i by (simp add: local_index_def mult.commute)
  with y show "\<exists>y. local_coord i = (x, y, z) \<and> y0 \<le> y \<and> y \<le> y1" by blast
next
  assume "\<exists>y. local_coord i = (x, y, z) \<and> y0 \<le> y \<and> y \<le> y1"
  then obtain y where "local_coord i = (x, y, z)" and y: "y0 \<le> y" "y \<le> y1" by blast
  then have "i = local_index (x, y, z)" by (metis local_index_coord)
  with y show "local_index (x, y0, z) \<le> i \<and> i \<le> local_index (x, y1, z)"
    by (simp add: local_index_def)
qed

definition in_box :: "nat \<times> nat \<Rightarrow> nat \<times> nat \<Rightarrow> nat \<times> nat \<Rightarrow> nat \<Rightarrow> bool" where
  "in_box x y z index =
     (case local_coord index of (lx, ly, lz) \<Rightarrow>
        fst x \<le> lx \<and> lx \<le> snd x \<and> fst y \<le> ly \<and> ly \<le> snd y \<and> fst z \<le> lz \<and> lz \<le> snd z)"

lemma set_for_each_in_box:
  assumes "btree_wf m" "fst y < 32" "snd x < 32" "snd y < 32" "snd z < 32"
  shows "set (for_each_in_box x y z m) = {i \<in> fst ` set m. in_box x y z i}"
proof -
  have slice: "fst ` set (ec_slice (local_index (lx, fst y, lz)) (local_index (lx, snd y, lz)) m)
      = {i \<in> fst ` set m. \<exists>ly. local_coord i = (lx, ly, lz) \<and> fst y \<le> ly \<and> ly \<le> snd y}"
    if "lx < 32" "lz < 32" for lx lz
    using local_index_between [OF that assms(2,4)]
    unfolding ec_slice_filter [OF assms(1)] by (force simp: image_iff)
  have boxed: "in_box x y z i \<longleftrightarrow> (\<exists>lx \<in> {fst x..<Suc (snd x)}. \<exists>lz \<in> {fst z..<Suc (snd z)}.
      \<exists>ly. local_coord i = (lx, ly, lz) \<and> fst y \<le> ly \<and> ly \<le> snd y)" for i
    by (cases "local_coord i") (auto simp: in_box_def less_Suc_eq_le)
  have "(\<Union>lx \<in> {fst x..<Suc (snd x)}. \<Union>lz \<in> {fst z..<Suc (snd z)}.
      fst ` set (ec_slice (local_index (lx, fst y, lz)) (local_index (lx, snd y, lz)) m))
    = (\<Union>lx \<in> {fst x..<Suc (snd x)}. \<Union>lz \<in> {fst z..<Suc (snd z)}.
      {i \<in> fst ` set m. \<exists>ly. local_coord i = (lx, ly, lz) \<and> fst y \<le> ly \<and> ly \<le> snd y})"
    using assms(3,5) by (intro SUP_cong refl slice) auto
  also have "\<dots> = {i \<in> fst ` set m. in_box x y z i}"
    unfolding boxed by blast
  finally have columns: "set (concat (map (\<lambda>lx. concat (map (\<lambda>lz.
      map fst (ec_slice (local_index (lx, fst y, lz)) (local_index (lx, snd y, lz)) m))
      [fst z..<Suc (snd z)])) [fst x..<Suc (snd x)])) = {i \<in> fst ` set m. in_box x y z i}"
    by (simp only: set_concat set_map set_upt image_image)
  have scan: "set (filter (\<lambda>index. case local_coord index of (lx, ly, lz) \<Rightarrow>
      fst x \<le> lx \<and> lx \<le> snd x \<and> fst y \<le> ly \<and> ly \<le> snd y \<and> fst z \<le> lz \<and> lz \<le> snd z) (map fst m))
    = {i \<in> fst ` set m. in_box x y z i}"
    by (simp only: set_filter set_map in_box_def)
  show ?thesis
    unfolding for_each_in_box_def Let_def if_distrib [of set] columns scan if_cancel ..
qed

lemma ec_column_filter:
  assumes "btree_wf m" "x < 32" "z < 32"
  shows "set (ec_column x z m) = {(i, v) \<in> set m. \<exists>y < 32. local_coord i = (x, y, z)}"
  using local_index_between [OF assms(2,3), of 0 31]
  unfolding ec_column_def ec_slice_filter [OF assms(1)] by (auto simp: less_Suc_eq_le)

subsection \<open>Merging a batch\<close>

lemma merge_keys:
  "p \<in> set (merge_chunk_overrides old new) \<Longrightarrow> fst p \<in> fst ` set old \<union> fst ` set new"
  by (induction old new rule: merge_chunk_overrides.induct) (auto split: option.splits if_splits)

lemma merge_wf:
  "btree_wf old \<Longrightarrow> btree_wf new \<Longrightarrow> btree_wf (merge_chunk_overrides old new)"
proof (induction old new rule: merge_chunk_overrides.induct)
  case (2 old olds)
  then show ?case using merge_keys [of _ olds "[]"] by (cases old) (fastforce simp: btree_wf_Cons)
next
  case (3 i v news)
  then show ?case
    using merge_keys [of _ "[]" news] by (cases v) (fastforce simp: btree_wf_Cons)+
next
  case (4 i v olds j w news)
  consider "i < j" | "j < i" | "i = j" by linarith
  then show ?case
  proof cases
    case 1
    with 4 merge_keys [of _ olds "(j, w) # news"] show ?thesis
      by (fastforce simp: btree_wf_Cons)
  next
    case 2
    with 4 merge_keys [of _ "(i, v) # olds" news] show ?thesis
      by (cases w) (fastforce simp: btree_wf_Cons)+
  next
    case 3
    with 4 merge_keys [of _ olds news] show ?thesis
      by (cases w) (fastforce simp: btree_wf_Cons)+
  qed
qed simp

lemma merge_get:
  "btree_wf old \<Longrightarrow> btree_wf new \<Longrightarrow>
   btree_get (merge_chunk_overrides old new) k =
     (case btree_get new k of None \<Rightarrow> btree_get old k | Some change \<Rightarrow> change)"
proof (induction old new rule: merge_chunk_overrides.induct)
  case (2 old olds)
  then show ?case by (cases old) (simp add: btree_wf_Cons)
next
  case (3 i v news)
  then have "i \<notin> fst ` set news" by (auto simp: btree_wf_Cons)
  with 3 show ?case
    by (cases v) (auto simp: btree_wf_Cons btree_get_None [symmetric])
next
  case (4 i v olds j w news)
  have wf: "btree_wf olds" "btree_wf news" using "4.prems" by (auto simp: btree_wf_Cons)
  have n: "btree_get olds i = None" "btree_get news j = None"
    using "4.prems" by (auto simp: btree_wf_Cons btree_get_None)
  have lt: "btree_get news i = None" if "i < j"
    using "4.prems" that by (force simp: btree_wf_Cons btree_get_None)
  have gt: "btree_get olds j = None" if "j < i"
    using "4.prems" that by (force simp: btree_wf_Cons btree_get_None)
  consider "i < j" | "j < i" | "i = j" by linarith
  then show ?case
  proof cases
    case 1
    with "4.IH"(1) [OF 1 wf(1) "4.prems"(2)] lt show ?thesis by (simp split: option.split)
  next
    case 2
    with "4.IH"(2) [OF _ 2 "4.prems"(1) wf(2)] gt n show ?thesis by (cases w) auto
  next
    case 3
    with "4.IH"(3) [OF _ _ wf] n show ?thesis by (cases w) (auto split: option.split)
  qed
qed simp

lemma ec_wf_get: "ec_wf m \<longleftrightarrow> btree_wf m \<and> (\<forall>k. btree_get m k \<noteq> None \<longrightarrow> k < CHUNK_VOLUME)"
  by (auto simp: ec_wf_def btree_get_None)

lemma merge_ec_wf:
  "ec_wf old \<Longrightarrow> btree_wf new \<Longrightarrow> \<forall>k. btree_get new k \<noteq> None \<longrightarrow> k < CHUNK_VOLUME \<Longrightarrow>
   ec_wf (merge_chunk_overrides old new)"
  by (auto simp: ec_wf_get merge_wf merge_get split: option.splits)

lemma ec_replace_get:
  "btree_wf m \<Longrightarrow> btree_get (fst (ec_replace k material m)) k' = (if k' = k then material else btree_get m k')"
  by (cases material) (auto simp: ec_replace_Some ec_replace_None btree_get_remove)

lemma ec_replace_btree_wf: "btree_wf m \<Longrightarrow> btree_wf (fst (ec_replace k material m))"
  by (cases material) (auto simp: ec_replace_Some ec_replace_None)

lemma ec_replace_wf: "ec_wf m \<Longrightarrow> k < CHUNK_VOLUME \<Longrightarrow> ec_wf (fst (ec_replace k material m))"
  by (auto simp: ec_wf_get ec_replace_get ec_replace_btree_wf split: if_splits)

end
