(* ===== verification/Edit_Map.thy ===== *)
theory Edit_Map
  imports Edit_Chunk
begin

text \<open>
  The sparse edit journal (\<open>EditMap\<close> in world/src/edit.rs): overrides owned once by their
  canonical chunk, keyed X/Z/Y, with a running count. The single and the batch update are
  modelled as the code performs them; the lemmas show that both implement an update of the
  abstract map from voxels to overrides, that they agree, and that the journal's invariant
  (sorted, no empty chunk, exact count) is kept.
\<close>

type_synonym edit_key = "int \<times> int \<times> int"

definition chunk_key :: "chunk_coord \<Rightarrow> edit_key" where
  "chunk_key coord = (cx coord, cz coord, cy coord)"

definition chunk_of_key :: "edit_key \<Rightarrow> chunk_coord" where
  "chunk_of_key = (\<lambda>(x, z, y). chunk_at x y z)"

record edit_map =
  em_chunks :: "(edit_key, edited_chunk) btree"
  em_count :: nat

definition em_empty :: edit_map where
  "em_empty = \<lparr>em_chunks = [], em_count = 0\<rparr>"

definition override_at :: "edit_map \<Rightarrow> voxel_coord \<Rightarrow> material option" where
  "override_at em coord =
     Option.bind (btree_get (em_chunks em) (chunk_key (voxel_chunk coord)))
       (\<lambda>chunk. ec_get chunk (local_index (voxel_local coord)))"

definition resolve_generated :: "edit_map \<Rightarrow> voxel_coord \<Rightarrow> material \<Rightarrow> material" where
  "resolve_generated em coord generated =
     (case override_at em coord of Some m \<Rightarrow> m | None \<Rightarrow> generated)"

definition replace_override :: "voxel_coord \<Rightarrow> material option \<Rightarrow> edit_map \<Rightarrow> edit_map" where
  "replace_override coord material em =
     (let previous = override_at em coord in
      if previous = material then em else
      let key = chunk_key (voxel_chunk coord);
          local = local_index (voxel_local coord)
      in case material of
           Some m \<Rightarrow>
             em\<lparr>em_chunks := btree_insert key
                  (fst (ec_replace local (Some m) (btree_get_or [] (em_chunks em) key))) (em_chunks em),
                em_count := (if previous = None then em_count em + 1 else em_count em)\<rparr>
         | None \<Rightarrow>
             (let (chunks, remove_chunk) =
                (case btree_get (em_chunks em) key of
                   None \<Rightarrow> (em_chunks em, False)
                 | Some chunk \<Rightarrow>
                     let chunk = fst (ec_replace local None chunk)
                     in (btree_update key (\<lambda>_. chunk) (em_chunks em), ec_is_empty chunk))
              in em\<lparr>em_chunks := (if remove_chunk then btree_remove key chunks else chunks),
                    em_count := em_count em - 1\<rparr>))"

definition set_against_generated :: "voxel_coord \<Rightarrow> material \<Rightarrow> material \<Rightarrow> edit_map \<Rightarrow> edit_map" where
  "set_against_generated coord material generated em =
     (if generated = material then replace_override coord None em
      else replace_override coord (Some material) em)"

definition insert_override :: "voxel_coord \<Rightarrow> material \<Rightarrow> edit_map \<Rightarrow> edit_map" where
  "insert_override coord material em = replace_override coord (Some material) em"

definition replace_durable_override :: "voxel_coord \<Rightarrow> material option \<Rightarrow> edit_map \<Rightarrow> edit_map" where
  "replace_durable_override coord material em = replace_override coord material em"

text \<open>The batch: changes grouped by chunk, then one merge per touched chunk.\<close>

type_synonym change = "voxel_coord \<times> material option"

fun group_change ::
  "change \<Rightarrow> (edit_key, (nat \<times> material option) list) btree \<Rightarrow> (edit_key, (nat \<times> material option) list) btree" where
  "group_change (coord, material) chunks =
     (let key = chunk_key (voxel_chunk coord) in
      btree_insert key (btree_get_or [] chunks key @ [(local_index (voxel_local coord), material)]) chunks)"

fun apply_group :: "edit_key \<times> (nat \<times> material option) list \<Rightarrow> edit_map \<Rightarrow> edit_map" where
  "apply_group (key, changes) em =
     (let changes = sort_key fst changes;
          previous = btree_get_or [] (em_chunks em) key;
          chunks = btree_remove key (em_chunks em);
          count = em_count em - length previous;
          merged = merge_chunk_overrides previous changes
      in em\<lparr>em_count := count + length merged,
            em_chunks := (if merged = [] then chunks else btree_insert key merged chunks)\<rparr>)"

definition replace_durable_overrides :: "change list \<Rightarrow> edit_map \<Rightarrow> edit_map" where
  "replace_durable_overrides changes em = fold apply_group (fold group_change changes []) em"

definition em_len :: "edit_map \<Rightarrow> nat" where "em_len em = em_count em"
definition em_is_empty :: "edit_map \<Rightarrow> bool" where "em_is_empty em \<longleftrightarrow> em_count em = 0"

subsection \<open>Invariant and lookup\<close>

definition em_wf :: "edit_map \<Rightarrow> bool" where
  "em_wf em \<longleftrightarrow> btree_wf (em_chunks em) \<and> em_count em = btree_sum length (em_chunks em) \<and>
     (\<forall>key chunk. btree_get (em_chunks em) key = Some chunk \<longrightarrow>
        ec_wf chunk \<and> chunk \<noteq> [] \<and> is_world_representable (chunk_of_key key))"

definition em_lookup :: "edit_map \<Rightarrow> edit_key \<Rightarrow> nat \<Rightarrow> material option" where
  "em_lookup em key local = btree_get (btree_get_or [] (em_chunks em) key) local"

definition address :: "voxel_coord \<Rightarrow> edit_key \<times> nat" where
  "address v = (chunk_key (voxel_chunk v), local_index (voxel_local v))"

lemma chunk_of_key [simp]: "chunk_of_key (chunk_key c) = c" "chunk_key (chunk_of_key k) = k"
  by (simp_all add: chunk_of_key_def chunk_key_def case_prod_unfold)

lemma chunk_key_inj [simp]: "chunk_key a = chunk_key b \<longleftrightarrow> a = b"
  by (metis chunk_of_key(1))

lemma voxel_recompose:
  "voxel_at (cx (voxel_chunk v) * 32 + int (fst (voxel_local v)))
     (cy (voxel_chunk v) * 32 + int (fst (snd (voxel_local v))))
     (cz (voxel_chunk v) * 32 + int (snd (snd (voxel_local v)))) = v"
  by (simp add: voxel_chunk_def voxel_local_def Let_def)

lemma address_inj [simp]: "address v = address w \<longleftrightarrow> v = w"
proof
  assume "address v = address w"
  then have "voxel_chunk v = voxel_chunk w" "voxel_local v = voxel_local w"
    by (auto simp: address_def local_index_inj)
  then show "v = w" by (metis voxel_recompose)
qed simp

lemma address_less: "snd (address v) < CHUNK_VOLUME"
  unfolding address_def snd_conv by (rule local_index_less) simp

lemma em_wf_empty [simp, wf_intros]: "em_wf em_empty"
  by (simp add: em_wf_def em_empty_def)

lemma em_wf_get:
  "em_wf em \<Longrightarrow> btree_get (em_chunks em) key = Some chunk \<Longrightarrow>
   ec_wf chunk \<and> chunk \<noteq> [] \<and> is_world_representable (chunk_of_key key)"
  unfolding em_wf_def by blast

lemma em_wf_chunk:
  assumes "em_wf em"
  shows "btree_wf (btree_get_or [] (em_chunks em) key)" "ec_wf (btree_get_or [] (em_chunks em) key)"
  using em_wf_get [OF assms, of key]
  by (cases "btree_get (em_chunks em) key"; simp add: ec_wf_def)+

lemma override_lookup: "em_wf em \<Longrightarrow> override_at em v = em_lookup em (fst (address v)) (snd (address v))"
  using em_wf_chunk(1) [of em "chunk_key (voxel_chunk v)"]
  by (cases "btree_get (em_chunks em) (chunk_key (voxel_chunk v))")
    (simp_all add: override_at_def em_lookup_def address_def ec_get_btree)

lemma em_ext:
  assumes "em_wf a" "em_wf b" and eq: "\<And>key l. em_lookup a key l = em_lookup b key l"
  shows "a = (b :: edit_map)"
proof -
  have "btree_get (em_chunks a) key = btree_get (em_chunks b) key" for key
  proof -
    have "btree_get_or [] (em_chunks a) key = btree_get_or [] (em_chunks b) key"
      using eq em_wf_chunk(1) assms(1,2) by (intro btree_ext) (auto simp: em_lookup_def)
    then show ?thesis
      using em_wf_get [OF assms(1), of key] em_wf_get [OF assms(2), of key]
      by (cases "btree_get (em_chunks a) key"; cases "btree_get (em_chunks b) key") auto
  qed
  then have "em_chunks a = em_chunks b" using assms(1,2) by (intro btree_ext) (auto simp: em_wf_def)
  with assms(1,2) show ?thesis by (simp add: em_wf_def)
qed

subsection \<open>One update\<close>

lemma em_lookup_same [simp]: "em_lookup (em\<lparr>em_count := n\<rparr>) = em_lookup em"
  by (intro ext) (simp add: em_lookup_def)

lemma replace_override_lookup:
  assumes wf: "em_wf em"
  shows "em_lookup (replace_override c material em) key l =
    (if (key, l) = address c then material else em_lookup em key l)"
proof (cases "override_at em c = material")
  case True
  then show ?thesis using override_lookup [OF wf, of c]
    by (cases "address c") (auto simp: replace_override_def)
next
  case False
  let ?key = "chunk_key (voxel_chunk c)" and ?l = "local_index (voxel_local c)"
  let ?ec = "btree_get_or [] (em_chunks em) ?key"
  have ec: "btree_wf ?ec" by (rule em_wf_chunk [OF wf])
  have bw: "btree_wf (em_chunks em)" using wf by (simp add: em_wf_def)
  show ?thesis
  proof (cases material)
    case (Some m)
    with False ec show ?thesis
      by (auto simp: replace_override_def Let_def em_lookup_def address_def btree_get_or_def
          ec_replace_get split: option.splits)
  next
    case None
    with False obtain chunk where chunk: "btree_get (em_chunks em) ?key = Some chunk"
      by (auto simp: override_at_def bind_eq_None_conv)
    have cw: "btree_wf chunk" using em_wf_get [OF wf chunk] by (simp add: ec_wf_def)
    show ?thesis
    proof (cases "fst (ec_replace ?l None chunk) = []")
      case True
      have "btree_get (fst (ec_replace ?l None chunk)) i = None" for i by (simp add: True)
      then have "btree_get chunk i = None" if "i \<noteq> ?l" for i
        using that ec_replace_get [OF cw, of ?l None i] by simp
      with None False chunk cw bw True show ?thesis
        by (auto simp: replace_override_def Let_def em_lookup_def address_def btree_get_or_def
            ec_is_empty_def btree_get_remove split: option.splits)
    next
      case nonempty: False
      with None False chunk cw bw show ?thesis
        by (auto simp: replace_override_def Let_def em_lookup_def address_def btree_get_or_def
            ec_is_empty_def ec_replace_get split: option.splits)
    qed
  qed
qed

lemma replace_override_chunks:
  assumes wf: "em_wf em" and "voxel_ok c" and neq: "override_at em c \<noteq> material"
  defines "key \<equiv> chunk_key (voxel_chunk c)"
  defines "ec \<equiv> fst (ec_replace (local_index (voxel_local c)) material (btree_get_or [] (em_chunks em) key))"
  shows "em_chunks (replace_override c material em) =
      (if ec = [] then btree_remove key (em_chunks em) else btree_insert key ec (em_chunks em))"
    and "em_count (replace_override c material em) =
      (case material of None \<Rightarrow> em_count em - 1
       | Some _ \<Rightarrow> if override_at em c = None then em_count em + 1 else em_count em)"
proof -
  have upd: "btree_update key (\<lambda>_. v) m = btree_insert key v m"
    if "btree_get m key \<noteq> None" "btree_wf m" for v :: edited_chunk and m
    using that by (intro btree_ext) auto
  have rem: "btree_remove key (btree_insert key v m) = btree_remove key m"
    if "btree_wf m" for v :: edited_chunk and m
    using that by (intro btree_ext) (auto simp: btree_get_remove)
  have bw: "btree_wf (em_chunks em)" using wf by (simp add: em_wf_def)
  show "em_count (replace_override c material em) =
      (case material of None \<Rightarrow> em_count em - 1
       | Some _ \<Rightarrow> if override_at em c = None then em_count em + 1 else em_count em)"
    using neq by (auto simp: replace_override_def Let_def split: option.splits prod.splits)
  show "em_chunks (replace_override c material em) =
      (if ec = [] then btree_remove key (em_chunks em) else btree_insert key ec (em_chunks em))"
  proof (cases material)
    case (Some m)
    have "btree_get ec (local_index (voxel_local c)) = Some m"
      using em_wf_chunk(1) [OF wf, of key] by (simp add: ec_def Some ec_replace_get)
    then have "ec \<noteq> []" by auto
    with neq Some show ?thesis by (simp add: replace_override_def Let_def ec_def key_def)
  next
    case None
    with neq obtain chunk where chunk: "btree_get (em_chunks em) key = Some chunk"
      by (auto simp: override_at_def bind_eq_None_conv key_def)
    obtain old where some: "override_at em c = Some old" using neq None by auto
    from chunk have ec: "ec = fst (ec_replace (local_index (voxel_local c)) None chunk)"
      by (simp add: ec_def None)
    have "em_chunks (replace_override c material em) =
        (if ec = [] then btree_remove key (btree_update key (\<lambda>_. ec) (em_chunks em))
         else btree_update key (\<lambda>_. ec) (em_chunks em))"
      using some chunk unfolding None ec
      by (simp add: replace_override_def Let_def key_def [symmetric] ec_is_empty_def)
    then show ?thesis using upd rem bw chunk by simp
  qed
qed

lemma replace_override_wf [wf_intros]:
  assumes wf: "em_wf em" and v: "voxel_ok c"
  shows "em_wf (replace_override c material em)"
proof (cases "override_at em c = material")
  case False
  let ?key = "chunk_key (voxel_chunk c)" and ?l = "local_index (voxel_local c)"
  let ?old = "btree_get_or [] (em_chunks em) ?key"
  let ?ec = "fst (ec_replace ?l material ?old)"
  note r = replace_override_chunks [OF wf v False]
  have bw: "btree_wf (em_chunks em)" and n: "em_count em = btree_sum length (em_chunks em)"
    using wf by (auto simp: em_wf_def)
  have ow: "btree_wf ?old" "ec_wf ?old" using em_wf_chunk [OF wf] by auto
  have ecw: "ec_wf ?ec"
    using ow(2) address_less [of c] by (intro ec_replace_wf) (auto simp: address_def)
  have at: "override_at em c = btree_get ?old ?l"
    using override_lookup [OF wf, of c] by (simp add: address_def em_lookup_def)
  have len: "length ?ec = (case material of None \<Rightarrow> length ?old - 1
      | Some _ \<Rightarrow> if override_at em c = None then length ?old + 1 else length ?old)"
    using ow(1) False at
    by (cases material) (auto simp: ec_replace_Some ec_replace_None btree_length_insert
        btree_length_remove btree_contains_def)
  have pos: "1 \<le> length ?old" if "material = None"
    using False at that by (cases "?old") auto
  let ?w = "case btree_get (em_chunks em) ?key of None \<Rightarrow> 0 | Some w \<Rightarrow> length w"
  have w: "?w = length ?old" by (simp add: btree_get_or_def split: option.split)
  have sum: "btree_sum length (em_chunks (replace_override c material em)) + length ?old
      = btree_sum length (em_chunks em) + length ?ec"
    using btree_sum_remove [of length ?key "em_chunks em"] btree_sum_insert [OF bw, of length ?key ?ec]
    unfolding r(1) w by simp
  have old: "length ?old \<le> btree_sum length (em_chunks em)"
    using btree_sum_remove [of length ?key "em_chunks em"] unfolding w by simp
  have "em_count (replace_override c material em) = btree_sum length (em_chunks (replace_override c material em))"
  proof (cases material)
    case None
    then have "length ?ec = length ?old - 1" "1 \<le> length ?old" using len pos by simp_all
    with sum old have "btree_sum length (em_chunks em) - 1
        = btree_sum length (em_chunks (replace_override c material em))" by linarith
    with None show ?thesis unfolding r(2) n by simp
  next
    case (Some m)
    with sum len old show ?thesis unfolding r(2) n by (simp split: if_splits)
  qed
  moreover have "is_world_representable (voxel_chunk c)" by (rule voxel_chunk_representable [OF v])
  ultimately show ?thesis
    using bw ecw em_wf_get [OF wf] unfolding em_wf_def r(1)
    by (auto simp: btree_get_remove split: if_splits)
qed (use wf in \<open>simp add: replace_override_def\<close>)

subsection \<open>A batch\<close>

definition key_changes :: "edit_key \<Rightarrow> change list \<Rightarrow> (nat \<times> material option) list" where
  "key_changes key changes =
     map (\<lambda>(v, x). (snd (address v), x)) (filter (\<lambda>(v, _). fst (address v) = key) changes)"

lemma key_changes_simps [simp]:
  "key_changes key [] = []"
  "key_changes key ((v, x) # cs) =
     (if fst (address v) = key then (snd (address v), x) # key_changes key cs else key_changes key cs)"
  by (simp_all add: key_changes_def)

lemma group_changes_get:
  "btree_get (fold group_change changes g) key =
     (if key_changes key changes = [] then btree_get g key
      else Some (btree_get_or [] g key @ key_changes key changes))"
proof (induction changes arbitrary: g)
  case (Cons c cs)
  obtain v x where c: "c = (v, x)" by fastforce
  show ?case
    by (cases "btree_get g (chunk_key (voxel_chunk v))")
      (auto simp: c Cons.IH Let_def address_def btree_get_or_def)
qed simp

lemma group_changes_wf: "btree_wf g \<Longrightarrow> btree_wf (fold group_change changes g)"
  by (induction changes arbitrary: g) (auto simp: Let_def)

lemma key_changes_mem: "(l, x) \<in> set (key_changes key cs) \<longleftrightarrow> (\<exists>v. (v, x) \<in> set cs \<and> address v = (key, l))"
  by (force simp: key_changes_def image_iff)

lemma key_changes_distinct: "distinct (map fst cs) \<Longrightarrow> distinct (map fst (key_changes key cs))"
proof (induction cs)
  case (Cons c cs)
  obtain v x where c: "c = (v, x)" by fastforce
  have "snd (address v) \<notin> fst ` set (key_changes key cs)" if "fst (address v) = key"
  proof
    assume "snd (address v) \<in> fst ` set (key_changes key cs)"
    then obtain y where "(snd (address v), y) \<in> set (key_changes key cs)" by auto
    then obtain w where "(w, y) \<in> set cs" "address w = (key, snd (address v))"
      by (auto simp: key_changes_mem)
    with that have "w = v" by (metis address_inj prod.collapse)
    with \<open>(w, y) \<in> set cs\<close> Cons.prems show False by (force simp: c)
  qed
  with Cons show ?case by (simp add: c)
qed simp

lemma sort_key_changes:
  assumes "distinct (map fst cs)"
  shows "btree_wf (sort_key fst cs)" and "btree_get (sort_key fst cs) = map_of cs"
proof -
  have d: "distinct (map fst (sort_key fst cs))"
    using assms by (metis distinct_map distinct_sort set_sort)
  then show wf: "btree_wf (sort_key fst cs)"
    by (simp add: btree_wf_def strict_sorted_iff)
  show "btree_get (sort_key fst cs) = map_of cs"
    using d assms by (simp add: btree_get_map_of map_of_inject_set)
qed

lemma apply_group_spec:
  assumes wf: "em_wf em" and d: "distinct (map fst cs)"
    and rep: "is_world_representable (chunk_of_key key)"
    and small: "\<forall>(l, _) \<in> set cs. l < CHUNK_VOLUME"
  shows "em_wf (apply_group (key, cs) em)"
    and "em_lookup (apply_group (key, cs) em) key' l =
      (if key' = key then (case map_of cs l of Some x \<Rightarrow> x | None \<Rightarrow> em_lookup em key l)
       else em_lookup em key' l)"
proof -
  let ?old = "btree_get_or [] (em_chunks em) key"
  let ?new = "merge_chunk_overrides ?old (sort_key fst cs)"
  note s = sort_key_changes [OF d]
  have bw: "btree_wf (em_chunks em)" and n: "em_count em = btree_sum length (em_chunks em)"
    using wf by (auto simp: em_wf_def)
  have ow: "btree_wf ?old" "ec_wf ?old" using em_wf_chunk [OF wf] by auto
  have "\<forall>k. btree_get (sort_key fst cs) k \<noteq> None \<longrightarrow> k < CHUNK_VOLUME"
    using small by (auto simp: s(2) map_of_eq_None_iff)
  then have new: "ec_wf ?new" by (rule merge_ec_wf [OF ow(2) s(1)])
  have rem: "btree_insert key v (btree_remove key (em_chunks em)) = btree_insert key v (em_chunks em)" for v
    using bw by (intro btree_ext) (auto simp: btree_get_remove)
  have chunks: "em_chunks (apply_group (key, cs) em) =
      (if ?new = [] then btree_remove key (em_chunks em) else btree_insert key ?new (em_chunks em))"
    and count: "em_count (apply_group (key, cs) em) = em_count em - length ?old + length ?new"
    by (simp_all add: Let_def rem)
  have w: "(case btree_get (em_chunks em) key of None \<Rightarrow> 0 | Some w \<Rightarrow> length w) = length ?old"
    by (simp add: btree_get_or_def split: option.split)
  have "btree_sum length (em_chunks (apply_group (key, cs) em)) + length ?old
      = btree_sum length (em_chunks em) + length ?new"
    using btree_sum_remove [of length key "em_chunks em"] btree_sum_insert [OF bw, of length key ?new]
    unfolding chunks w by simp
  moreover have "length ?old \<le> btree_sum length (em_chunks em)"
    using btree_sum_remove [of length key "em_chunks em"] unfolding w by simp
  ultimately have "em_count (apply_group (key, cs) em) = btree_sum length (em_chunks (apply_group (key, cs) em))"
    unfolding count n by linarith
  then show "em_wf (apply_group (key, cs) em)"
    using bw new rep em_wf_get [OF wf] unfolding em_wf_def chunks
    by (auto simp: btree_get_remove split: if_splits)
  have g: "btree_get ?new l = (case map_of cs l of Some x \<Rightarrow> x | None \<Rightarrow> btree_get ?old l)"
    using merge_get [OF ow(1) s(1), of l] by (simp add: s(2) split: option.split)
  have "btree_get_or [] (em_chunks (apply_group (key, cs) em)) key' =
      (if key' = key then ?new else btree_get_or [] (em_chunks em) key')"
    using bw unfolding chunks by (auto simp: btree_get_or_def btree_get_remove)
  then show "em_lookup (apply_group (key, cs) em) key' l =
      (if key' = key then (case map_of cs l of Some x \<Rightarrow> x | None \<Rightarrow> em_lookup em key l)
       else em_lookup em key' l)"
    using g unfolding em_lookup_def by (simp del: apply_group.simps split: option.split)
qed

lemma fold_apply_group:
  assumes "btree_wf groups" "em_wf em"
    and "\<forall>(key, cs) \<in> set groups. distinct (map fst cs) \<and> is_world_representable (chunk_of_key key) \<and>
      (\<forall>(l, _) \<in> set cs. l < CHUNK_VOLUME)"
  shows "em_wf (fold apply_group groups em) \<and>
    em_lookup (fold apply_group groups em) key l =
      (case map_of (btree_get_or [] groups key) l of Some x \<Rightarrow> x | None \<Rightarrow> em_lookup em key l)"
  using assms
proof (induction groups arbitrary: em)
  case (Cons g groups)
  obtain k cs where g: "g = (k, cs)" by fastforce
  have ok: "distinct (map fst cs)" "is_world_representable (chunk_of_key k)"
    "\<forall>(l, _) \<in> set cs. l < CHUNK_VOLUME" using Cons.prems(3) by (auto simp: g)
  note a = apply_group_spec [OF Cons.prems(2) ok]
  have wf: "btree_wf groups" and absent: "btree_get groups k = None"
    using Cons.prems(1) by (auto simp: g btree_wf_Cons btree_get_None)
  have "\<forall>(key, cs) \<in> set groups. distinct (map fst cs) \<and> is_world_representable (chunk_of_key key) \<and>
      (\<forall>(l, _) \<in> set cs. l < CHUNK_VOLUME)" using Cons.prems(3) by simp
  from Cons.IH [OF wf a(1) this]
  show ?case
    unfolding g fold.simps comp_def a(2) by (auto simp: btree_get_or_def absent split: option.split)
qed simp

lemma replace_durable_overrides_spec:
  assumes wf: "em_wf em" and d: "distinct (map fst changes)"
    and ok: "\<forall>(v, _) \<in> set changes. voxel_ok v"
  shows "em_wf (replace_durable_overrides changes em)"
    and "em_lookup (replace_durable_overrides changes em) key l =
      (case map_of (key_changes key changes) l of Some x \<Rightarrow> x | None \<Rightarrow> em_lookup em key l)"
proof -
  let ?g = "fold group_change changes []"
  have bg: "btree_wf ?g" by (simp add: group_changes_wf)
  have get: "btree_get_or [] ?g k = key_changes k changes" for k
    by (simp add: btree_get_or_def group_changes_get)
  have "distinct (map fst cs) \<and> is_world_representable (chunk_of_key k) \<and>
      (\<forall>(l, _) \<in> set cs. l < CHUNK_VOLUME)" if m: "(k, cs) \<in> set ?g" for k cs
  proof -
    have g: "btree_get ?g k = Some cs" using m bg by (simp add: btree_get_iff)
    then have cs: "cs = key_changes k changes" "cs \<noteq> []"
      by (auto simp: group_changes_get split: if_splits)
    then obtain l x where "(l, x) \<in> set (key_changes k changes)" by (metis last_in_set surj_pair)
    then obtain v where v: "(v, x) \<in> set changes" "address v = (k, l)" by (auto simp: key_changes_mem)
    then have "chunk_of_key k = voxel_chunk v" by (auto simp: address_def)
    moreover have "voxel_ok v" using ok v by auto
    moreover have "l < CHUNK_VOLUME" if "(l, x) \<in> set cs" for l x
      using that address_less unfolding cs by (metis key_changes_mem snd_conv)
    ultimately show ?thesis
      using key_changes_distinct [OF d] voxel_chunk_representable by (auto simp: cs)
  qed
  then have "\<forall>(key, cs) \<in> set ?g. distinct (map fst cs) \<and> is_world_representable (chunk_of_key key) \<and>
      (\<forall>(l, _) \<in> set cs. l < CHUNK_VOLUME)" by blast
  from fold_apply_group [OF bg wf this, of key l]
  show "em_wf (replace_durable_overrides changes em)"
    and "em_lookup (replace_durable_overrides changes em) key l =
      (case map_of (key_changes key changes) l of Some x \<Rightarrow> x | None \<Rightarrow> em_lookup em key l)"
    by (simp_all add: replace_durable_overrides_def get)
qed

lemma map_of_key_changes:
  "distinct (map fst cs) \<Longrightarrow> map_of (key_changes key cs) l = Some x \<longleftrightarrow>
     (\<exists>v. (v, x) \<in> set cs \<and> address v = (key, l))"
  unfolding map_of_eq_Some_iff [OF key_changes_distinct] key_changes_mem ..

lemma replace_durable_overrides_at:
  assumes "em_wf em" "distinct (map fst changes)" "\<forall>(v, _) \<in> set changes. voxel_ok v"
  shows "override_at (replace_durable_overrides changes em) v =
    (case map_of changes v of Some x \<Rightarrow> x | None \<Rightarrow> override_at em v)"
proof -
  note s = replace_durable_overrides_spec [OF assms]
  have "map_of (key_changes (fst (address v)) changes) (snd (address v)) = Some x \<longleftrightarrow>
      map_of changes v = Some x" for x
    using map_of_key_changes [OF assms(2)] assms(2) by auto
  then have "map_of (key_changes (fst (address v)) changes) (snd (address v)) = map_of changes v"
    by (metis not_Some_eq)
  then show ?thesis
    using s(2) by (simp add: override_lookup [OF s(1)] override_lookup [OF assms(1)] split: option.split)
qed

lemma replace_override_at:
  assumes "em_wf em" "voxel_ok c"
  shows "override_at (replace_override c x em) v = (if v = c then x else override_at em v)"
  using replace_override_lookup [OF assms(1), of c x]
  by (simp add: override_lookup [OF assms(1)] override_lookup [OF replace_override_wf [OF assms]])

lemma override_at_ext:
  assumes "em_wf a" "em_wf b" and eq: "\<And>v. voxel_ok v \<Longrightarrow> override_at a v = override_at b v"
  shows "a = (b :: edit_map)"
proof (rule em_ext [OF assms(1,2)])
  fix key l
  have none: "em_lookup m key l = None" if "em_wf m" "\<nexists>v. voxel_ok v \<and> address v = (key, l)" for m
  proof (rule ccontr)
    assume "em_lookup m key l \<noteq> None"
    then obtain chunk where c: "btree_get (em_chunks m) key = Some chunk" "btree_get chunk l \<noteq> None"
      by (auto simp: em_lookup_def btree_get_or_def split: option.splits)
    from em_wf_get [OF that(1) c(1)] have rep: "is_world_representable (chunk_of_key key)" and l: "l < CHUNK_VOLUME"
      using c(2) by (auto simp: ec_wf_get)
    from rep obtain org where org: "world_origin (chunk_of_key key) = Some org"
      by (auto simp: world_origin_def)
    note j = voxel_join [OF org local_coord_ok [OF l]]
    from j have "address (voxel_of_local org (local_coord l)) = (key, l)"
      by (simp add: address_def local_index_coord)
    with j(1) that(2) show False by blast
  qed
  show "em_lookup a key l = em_lookup b key l"
  proof (cases "\<exists>v. voxel_ok v \<and> address v = (key, l)")
    case True
    then obtain v where "voxel_ok v" "address v = (key, l)" by blast
    with eq [of v] show ?thesis
      by (simp add: override_lookup [OF assms(1)] override_lookup [OF assms(2)])
  qed (use none assms(1,2) in simp)
qed

text \<open>
  C12: the journal refines a map from voxels to overrides. On a well-formed journal,
  \<open>replace_override\<close> keeps it well formed (sorted, no empty chunk, exact count, representable
  keys) and is observed by \<open>override_at\<close> as a point update at that voxel and nowhere else.
\<close>

theorem replace_override_refines:
  assumes "em_wf em" "voxel_ok c"
  shows "em_wf (replace_override c x em) \<and>
    override_at (replace_override c x em) = (override_at em)(c := x)"
  using replace_override_wf [OF assms] replace_override_at [OF assms] by auto

theorem replace_override_refines_witness:
  "override_at (replace_override (voxel_at (-1) 5 40) (Some Stone) em_empty)
     = (override_at em_empty)(voxel_at (-1) 5 40 := Some Stone)"
  using replace_override_refines [of em_empty "voxel_at (-1) 5 40" "Some Stone"]
  by (simp add: voxel_ok_def i32_ok_def)

lemma fold_replace_override:
  assumes "em_wf em" "distinct (map fst changes)" "\<forall>(v, _) \<in> set changes. voxel_ok v"
  shows "em_wf (fold (\<lambda>(v, x). replace_override v x) changes em) \<and>
    override_at (fold (\<lambda>(v, x). replace_override v x) changes em) w =
      (case map_of changes w of Some x \<Rightarrow> x | None \<Rightarrow> override_at em w)"
  using assms
proof (induction changes arbitrary: em)
  case (Cons c cs)
  obtain v x where c: "c = (v, x)" by fastforce
  have wf: "em_wf (replace_override v x em)" and v: "voxel_ok v"
    using Cons.prems by (auto simp: c replace_override_wf)
  have n: "map_of cs w = None" if "w = v"
    using Cons.prems(2) that by (auto simp: c map_of_eq_None_iff)
  from Cons.IH [OF wf] Cons.prems n show ?case
    by (auto simp: c replace_override_at [OF Cons.prems(1) v] split: option.split)
qed simp

text \<open>
  C13: the batch is the sequence of its changes. For a batch without duplicate coordinates,
  \<open>replace_durable_overrides\<close>, which groups the changes by chunk and merges each touched chunk
  once, leaves exactly the journal (entries and count) that applying the changes one by one with
  \<open>replace_override\<close> leaves.
\<close>

theorem replace_durable_overrides_sequential:
  assumes "em_wf em" "distinct (map fst changes)" "\<forall>(v, _) \<in> set changes. voxel_ok v"
  shows "replace_durable_overrides changes em = fold (\<lambda>(v, x). replace_override v x) changes em"
proof (rule override_at_ext)
  show "em_wf (replace_durable_overrides changes em)"
    by (rule replace_durable_overrides_spec(1) [OF assms])
  show "em_wf (fold (\<lambda>(v, x). replace_override v x) changes em)"
    using fold_replace_override [OF assms] by blast
  show "override_at (replace_durable_overrides changes em) v =
      override_at (fold (\<lambda>(v, x). replace_override v x) changes em) v" for v
    using fold_replace_override [OF assms] replace_durable_overrides_at [OF assms] by simp
qed

definition sample_changes :: "change list" where
  "sample_changes = [(voxel_at 0 0 0, Some Stone), (voxel_at 40 (-3) 7, Some Water), (voxel_at 0 1 0, None)]"

theorem replace_durable_overrides_sequential_witness:
  "replace_durable_overrides sample_changes em_empty =
     fold (\<lambda>(v, x). replace_override v x) sample_changes em_empty"
  by (rule replace_durable_overrides_sequential)
    (simp_all add: sample_changes_def voxel_ok_def i32_ok_def)

end
