(* ===== verification/Chunk_Codec.thy ===== *)
theory Chunk_Codec
  imports Bit_Packing
begin

text \<open>
  The versioned \<open>VXCH\<close> chunk codec (world/src/codec.rs): \<open>encode_chunk\<close> and \<open>decode_chunk\<close>
  field by field. \<open>blake3\<close>, the hash of the third-party crate, is an argument; the only thing
  the code relies on is that a digest has 32 bytes. The lemmas show that decoding inverts
  encoding and that an accepted payload is the encoding of the chunk it decodes to.
\<close>

definition codec_MAGIC :: "u8 list" where "codec_MAGIC = ascii ''VXCH''"
definition codec_FORMAT_VERSION :: nat where "codec_FORMAT_VERSION = 2"
definition codec_HEADER_LEN :: nat where "codec_HEADER_LEN = 104"
definition ENCODING_UNIFORM :: u8 where "ENCODING_UNIFORM = 0"
definition ENCODING_PALETTE :: u8 where "ENCODING_PALETTE = 1"
definition CONTENT_HASH_DOMAIN :: "u8 list" where
  "CONTENT_HASH_DOMAIN = ascii ''voxels-vxch-content-v2'' @ [0]"

fun trailing_zeros :: "nat \<Rightarrow> nat" where
  "trailing_zeros n = (if n = 0 \<or> n mod 2 = 1 then 0 else Suc (trailing_zeros (n div 2)))"

definition hash_ok :: "u8 list \<Rightarrow> bool" where
  "hash_ok h \<longleftrightarrow> length h = 32"

definition content_hash :: "(u8 list \<Rightarrow> u8 list) \<Rightarrow> chunk \<Rightarrow> u8 list \<Rightarrow> u8 list" where
  "content_hash blake3 chunk source_identity_hash =
     blake3 (CONTENT_HASH_DOMAIN @ source_identity_hash @
       i32_le (cx (ch_coord chunk)) @ i32_le (cy (ch_coord chunk)) @ i32_le (cz (ch_coord chunk)) @
       u16_le MATERIAL_SCHEMA_VERSION @
       concat (map (\<lambda>m. u16_le (material_id m)) (ch_voxels chunk)))"

subsection \<open>Encoding\<close>

definition present_materials :: "material list \<Rightarrow> bool list" where
  "present_materials voxels =
     fold (\<lambda>m present. present[material_id m := True]) voxels
       (replicate (length MATERIAL_ALL) False)"

fun palette_step :: "bool list \<Rightarrow> material \<Rightarrow> nat list \<times> nat list \<Rightarrow> nat list \<times> nat list" where
  "palette_step present m (palette, palette_indices) =
     (let i = material_id m in
      if present ! i
      then (palette @ [i], palette_indices[i := length palette mod 256])
      else (palette, palette_indices))"

definition build_palette :: "material list \<Rightarrow> nat list \<times> nat list" where
  "build_palette voxels =
     fold (palette_step (present_materials voxels)) MATERIAL_ALL
       ([], replicate (length MATERIAL_ALL) 0)"

definition encode_chunk :: "(u8 list \<Rightarrow> u8 list) \<Rightarrow> chunk \<Rightarrow> u8 list \<Rightarrow> u8 list" where
  "encode_chunk blake3 chunk source_identity_hash =
     (let (palette, palette_indices) = build_palette (ch_voxels chunk);
          uniform = (length palette = 1);
          bits = (if uniform then 0 else bits_for (length palette));
          payload = (if uniform then [] else pack_indices (ch_voxels chunk) palette_indices bits);
          coord = ch_coord chunk;
          hash = content_hash blake3 chunk source_identity_hash
      in codec_MAGIC @ u16_le codec_FORMAT_VERSION @ u16_le codec_HEADER_LEN @
         [of_nat (trailing_zeros CHUNK_EDGE)] @
         [if uniform then ENCODING_UNIFORM else ENCODING_PALETTE] @
         u16_le 0 @ i32_le (cx coord) @ i32_le (cy coord) @ i32_le (cz coord) @
         u16_le MATERIAL_SCHEMA_VERSION @ u16_le 0 @ source_identity_hash @
         u32_le CHUNK_VOLUME @ u16_le (length palette) @ [of_nat bits] @ [0] @
         u32_le (length payload) @ hash @ concat (map u16_le palette) @ payload)"

subsection \<open>Decoding\<close>

definition read_u16 :: "u8 list \<Rightarrow> nat \<Rightarrow> codec_error + nat" where
  "read_u16 bytes offset =
     attempt (ok_or CodecTruncated (slice bytes offset (offset + 2))) (\<lambda>v. Inr (from_le v))"

definition read_u32 :: "u8 list \<Rightarrow> nat \<Rightarrow> codec_error + nat" where
  "read_u32 bytes offset =
     attempt (ok_or CodecTruncated (slice bytes offset (offset + 4))) (\<lambda>v. Inr (from_le v))"

definition read_i32 :: "u8 list \<Rightarrow> nat \<Rightarrow> codec_error + int" where
  "read_i32 bytes offset =
     attempt (ok_or CodecTruncated (slice bytes offset (offset + 4))) (\<lambda>v. Inr (i32_from_le v))"

text \<open>The palette loop: \<open>n\<close> entries are still to be read.\<close>

fun read_palette :: "u8 list \<Rightarrow> nat \<Rightarrow> material list \<Rightarrow> nat \<Rightarrow> codec_error + (material list \<times> nat)" where
  "read_palette bytes 0 palette cursor = Inr (palette, cursor)"
| "read_palette bytes (Suc n) palette cursor =
     attempt (read_u16 bytes cursor) (\<lambda>i.
     attempt (ok_or (CodecUnknownMaterial i) (material_from_id i)) (\<lambda>m.
       if palette \<noteq> [] \<and> material_id (last palette) \<ge> i
       then Inl (CodecInvalidHeader ''palette material ids must be strictly increasing'')
       else read_palette bytes n (palette @ [m]) (cursor + 2)))"

definition decode_voxels ::
  "u8 list \<Rightarrow> u8 \<Rightarrow> material list \<Rightarrow> nat \<Rightarrow> nat \<Rightarrow> nat \<Rightarrow> nat \<Rightarrow> codec_error + material list" where
  "decode_voxels bytes encoding palette cursor palette_len bits payload_len =
     (if encoding = ENCODING_UNIFORM \<and> palette_len = 1 \<and> bits = 0 \<and> payload_len = 0
      then Inr (replicate CHUNK_VOLUME (palette ! 0))
      else if encoding = ENCODING_PALETTE \<and> palette_len > 1 \<and> bits = bits_for palette_len
      then (let required = (CHUNK_VOLUME * bits + 7) div 8 in
            if payload_len \<noteq> required
            then Inl (CodecInvalidHeader ''invalid packed payload length'')
            else unpack_indices (drop cursor bytes) palette bits)
      else Inl (CodecInvalidHeader ''invalid encoding parameters''))"

definition decode_body :: "(u8 list \<Rightarrow> u8 list) \<Rightarrow> u8 list \<Rightarrow> u8 list \<Rightarrow> codec_error + chunk" where
  "decode_body blake3 bytes expected_source_identity_hash =
     attempt (read_i32 bytes 12) (\<lambda>x.
     attempt (read_i32 bytes 16) (\<lambda>y.
     attempt (read_i32 bytes 20) (\<lambda>z.
       let coord = chunk_at x y z in
       if \<not> is_world_representable coord
       then Inl (CodecInvalidHeader ''chunk coordinate outside voxel grid'') else
       attempt (read_u16 bytes 64) (\<lambda>palette_len.
       if palette_len = 0 \<or> palette_len > length MATERIAL_ALL
       then Inl (CodecInvalidHeader ''invalid palette length'') else
       let bits = unat (bytes ! 66) in
       attempt (read_u32 bytes 68) (\<lambda>payload_len.
       let expected_len = codec_HEADER_LEN + palette_len * 2 + payload_len in
       if length bytes < expected_len then Inl CodecTruncated
       else if length bytes \<noteq> expected_len then Inl (CodecInvalidHeader ''trailing bytes'') else
       attempt (read_palette bytes palette_len [] codec_HEADER_LEN) (\<lambda>(palette, cursor).
       attempt (decode_voxels bytes (bytes ! 9) palette cursor palette_len bits payload_len) (\<lambda>voxels.
       attempt (ok_or (CodecInvalidHeader ''voxel count mismatch'') (chunk_from_voxels coord voxels)) (\<lambda>chunk.
       if content_hash blake3 chunk expected_source_identity_hash \<noteq> take 32 (drop 72 bytes)
       then Inl CodecCorruptHash else Inr chunk))))))))"

definition decode_chunk :: "(u8 list \<Rightarrow> u8 list) \<Rightarrow> u8 list \<Rightarrow> u8 list \<Rightarrow> codec_error + chunk" where
  "decode_chunk blake3 bytes expected_source_identity_hash =
     (if length bytes < 8 then Inl CodecTruncated
      else if take 4 bytes \<noteq> codec_MAGIC then Inl CodecInvalidMagic else
      attempt (read_u16 bytes 4) (\<lambda>version.
      if version \<noteq> codec_FORMAT_VERSION then Inl (CodecUnsupportedVersion version)
      else if length bytes < codec_HEADER_LEN then Inl CodecTruncated else
      attempt (read_u16 bytes 6) (\<lambda>header_len.
      if header_len \<noteq> codec_HEADER_LEN then Inl (CodecInvalidHeader ''unexpected header length'')
      else if bytes ! 8 \<noteq> of_nat (trailing_zeros CHUNK_EDGE)
      then Inl (CodecInvalidHeader ''unexpected chunk edge'')
      else if take 32 (drop 28 bytes) \<noteq> expected_source_identity_hash
      then Inl CodecSourceIdentityMismatch else
      attempt (read_u16 bytes 10) (\<lambda>reserved.
      attempt (read_u16 bytes 26) (\<lambda>reserved2.
      if reserved \<noteq> 0 \<or> reserved2 \<noteq> 0 \<or> bytes ! 67 \<noteq> 0
      then Inl (CodecInvalidHeader ''reserved fields must be zero'') else
      attempt (read_u16 bytes 24) (\<lambda>schema.
      if schema \<noteq> MATERIAL_SCHEMA_VERSION then Inl (CodecInvalidHeader ''material schema mismatch'') else
      attempt (read_u32 bytes 60) (\<lambda>count.
      if count \<noteq> CHUNK_VOLUME then Inl (CodecInvalidHeader ''unexpected voxel count'')
      else decode_body blake3 bytes expected_source_identity_hash)))))))"

subsection \<open>The palette\<close>

definition palette_of :: "material list \<Rightarrow> material list" where
  "palette_of voxels = filter (\<lambda>m. m \<in> set voxels) MATERIAL_ALL"

lemma set_palette_of [simp]: "set (palette_of vs) = set vs"
  by (auto simp: palette_of_def)

lemma sorted_all: "sorted_wrt (<) (map material_id MATERIAL_ALL)"
  by (simp add: MATERIAL_ALL_def)

lemma sorted_palette_of: "sorted_wrt (<) (map material_id (palette_of vs))"
  using sorted_all by (simp add: palette_of_def sorted_wrt_map sorted_wrt_filter)

lemma palette_unique:
  assumes "sorted_wrt (<) (map material_id p)" "set p = set vs"
  shows "p = palette_of vs"
proof -
  have "map material_id p = map material_id (palette_of vs)"
    using assms sorted_palette_of [of vs]
    by (intro sorted_distinct_set_unique) (auto simp: strict_sorted_iff)
  then show ?thesis by (simp add: inj_map_eq_map inj_def)
qed

lemma distinct_palette_of [simp]: "distinct (palette_of vs)"
proof -
  have "distinct MATERIAL_ALL" by (simp add: MATERIAL_ALL_def)
  then show ?thesis by (simp add: palette_of_def)
qed

lemma length_palette_of: "length (palette_of vs) \<le> 15" "vs \<noteq> [] \<Longrightarrow> 0 < length (palette_of vs)"
proof -
  have "length (palette_of vs) \<le> length MATERIAL_ALL" by (simp add: palette_of_def)
  then show "length (palette_of vs) \<le> 15" by (simp add: MATERIAL_ALL_def)
  show "vs \<noteq> [] \<Longrightarrow> 0 < length (palette_of vs)"
    by (metis length_greater_0_conv set_empty set_palette_of)
qed

lemma present_materials_nth: "present_materials vs ! material_id m = (m \<in> set vs)"
proof -
  have "length r = length MATERIAL_ALL \<Longrightarrow>
    fold (\<lambda>m present. present[material_id m := True]) vs r ! material_id m
      = (r ! material_id m \<or> m \<in> set vs)" for r
  proof (induction vs arbitrary: r)
    case (Cons v vs)
    then show ?case using material_id_less [of m] by (cases "v = m") auto
  qed simp
  from this [of "replicate (length MATERIAL_ALL) False"] show ?thesis
    using material_id_less [of m] by (simp add: present_materials_def)
qed

lemma fold_palette_step:
  assumes "fold (palette_step present) ms (p, idx) = (p', idx')" "distinct ms"
    and "length p + length ms < 256" "length idx = length MATERIAL_ALL"
  shows "p' = p @ map material_id (filter (\<lambda>m. present ! material_id m) ms)"
    and "m \<notin> set ms \<Longrightarrow> idx' ! material_id m = idx ! material_id m"
    and "m \<in> set ms \<Longrightarrow> present ! material_id m \<Longrightarrow>
      idx' ! material_id m < length p' \<and> p' ! (idx' ! material_id m) = material_id m"
proof -
  have "p' = p @ map material_id (filter (\<lambda>m. present ! material_id m) ms) \<and>
    (m \<notin> set ms \<longrightarrow> idx' ! material_id m = idx ! material_id m) \<and>
    (m \<in> set ms \<longrightarrow> present ! material_id m \<longrightarrow>
      idx' ! material_id m < length p' \<and> p' ! (idx' ! material_id m) = material_id m)"
    using assms
  proof (induction ms arbitrary: p idx)
    case (Cons a ms)
    show ?case
    proof (cases "present ! material_id a")
      case False
      with Cons.prems Cons.IH [of p idx] show ?thesis by auto
    next
      case True
      let ?idx = "idx[material_id a := length p]"
      have lt: "length p < 256" using Cons.prems(3) by simp
      have "fold (palette_step present) ms (p @ [material_id a], ?idx) = (p', idx')"
        using Cons.prems(1) True lt by (simp add: Let_def)
      with Cons.prems(2-) Cons.IH [of "p @ [material_id a]" ?idx] True material_id_less [of a]
      show ?thesis by (cases "m = a") (auto simp: nth_append)
    qed
  qed auto
  then show "p' = p @ map material_id (filter (\<lambda>m. present ! material_id m) ms)"
    and "m \<notin> set ms \<Longrightarrow> idx' ! material_id m = idx ! material_id m"
    and "m \<in> set ms \<Longrightarrow> present ! material_id m \<Longrightarrow>
      idx' ! material_id m < length p' \<and> p' ! (idx' ! material_id m) = material_id m"
    by auto
qed

lemma build_palette_spec:
  assumes "build_palette vs = (palette, indices)"
  shows "palette = map material_id (palette_of vs)"
    and "m \<in> set vs \<Longrightarrow> indices ! material_id m < length (palette_of vs) \<and>
      palette_of vs ! (indices ! material_id m) = m"
proof -
  have d: "distinct MATERIAL_ALL" by (simp add: MATERIAL_ALL_def)
  have l: "length ([] :: nat list) + length MATERIAL_ALL < 256" by (simp add: MATERIAL_ALL_def)
  have r: "length (replicate (length MATERIAL_ALL) (0 :: nat)) = length MATERIAL_ALL" by simp
  note * = fold_palette_step [OF assms [unfolded build_palette_def] d l r]
  show p: "palette = map material_id (palette_of vs)"
    using *(1) by (simp add: palette_of_def present_materials_nth)
  show "m \<in> set vs \<Longrightarrow> indices ! material_id m < length (palette_of vs) \<and>
      palette_of vs ! (indices ! material_id m) = m"
    using *(3) [of m] by (auto simp: present_materials_nth p)
qed

subsection \<open>The frame\<close>

text \<open>The header with its variable fields, followed by the palette and the payload.\<close>

definition frame ::
  "u8 \<Rightarrow> int \<Rightarrow> int \<Rightarrow> int \<Rightarrow> u8 list \<Rightarrow> nat \<Rightarrow> u8 \<Rightarrow> nat \<Rightarrow> u8 list \<Rightarrow> u8 list \<Rightarrow> u8 list" where
  "frame encoding x y z sid palette_len bits payload_len hash tail =
     codec_MAGIC @ u16_le codec_FORMAT_VERSION @ u16_le codec_HEADER_LEN @
     [of_nat (trailing_zeros CHUNK_EDGE)] @ [encoding] @ u16_le 0 @ i32_le x @ i32_le y @ i32_le z @
     u16_le MATERIAL_SCHEMA_VERSION @ u16_le 0 @ sid @ u32_le CHUNK_VOLUME @ u16_le palette_len @
     [bits] @ [0] @ u32_le payload_len @ hash @ tail"

lemma length_MAGIC [simp]: "length codec_MAGIC = 4"
  by (simp add: codec_MAGIC_def ascii_def)

lemma length_frame [simp]:
  "length sid = 32 \<Longrightarrow> length hash = 32 \<Longrightarrow>
   length (frame e x y z sid pl bits n hash tail) = 104 + length tail"
  by (simp add: frame_def)

lemma slice_Cons_skip: "0 < a \<Longrightarrow> slice (x # xs) a b = (if 0 < b then slice xs (a - 1) (b - 1) else None)"
  by (cases a; cases b) (auto simp: slice_def)

lemma frame_reads:
  assumes "length sid = 32" "length hash = 32"
    and "b = frame e x y z sid pl bits n hash tail"
  shows "take 4 b = codec_MAGIC" and "slice b 4 6 = Some (u16_le codec_FORMAT_VERSION)"
    and "slice b 6 8 = Some (u16_le codec_HEADER_LEN)"
    and "b ! 8 = of_nat (trailing_zeros CHUNK_EDGE)" and "b ! 9 = e"
    and "slice b 10 12 = Some (u16_le 0)" and "slice b 12 16 = Some (i32_le x)"
    and "slice b 16 20 = Some (i32_le y)" and "slice b 20 24 = Some (i32_le z)"
    and "slice b 24 26 = Some (u16_le MATERIAL_SCHEMA_VERSION)" and "slice b 26 28 = Some (u16_le 0)"
    and "take 32 (drop 28 b) = sid" and "slice b 60 64 = Some (u32_le CHUNK_VOLUME)"
    and "slice b 64 66 = Some (u16_le pl)" and "b ! 66 = bits" and "b ! 67 = 0"
    and "slice b 68 72 = Some (u32_le n)" and "take 32 (drop 72 b) = hash" and "drop 104 b = tail"
  unfolding assms(3) frame_def
  by (simp_all add: slice_append_skip slice_append_hit slice_Cons_skip assms(1,2) nth_append
      del: CHUNK_VOLUME_simp CHUNK_EDGE_simp)

lemma frame_fields:
  assumes len: "104 \<le> length b" and "take 4 b = codec_MAGIC"
    and "take 2 (drop 4 b) = u16_le codec_FORMAT_VERSION"
    and "take 2 (drop 6 b) = u16_le codec_HEADER_LEN"
    and "b ! 8 = of_nat (trailing_zeros CHUNK_EDGE)" and "take 2 (drop 10 b) = u16_le 0"
    and "take 4 (drop 12 b) = i32_le x" and "take 4 (drop 16 b) = i32_le y"
    and "take 4 (drop 20 b) = i32_le z" and "take 2 (drop 24 b) = u16_le MATERIAL_SCHEMA_VERSION"
    and "take 2 (drop 26 b) = u16_le 0" and "take 32 (drop 28 b) = sid"
    and "take 4 (drop 60 b) = u32_le CHUNK_VOLUME" and "take 2 (drop 64 b) = u16_le pl"
    and "b ! 67 = 0" and "take 4 (drop 68 b) = u32_le n" and "take 32 (drop 72 b) = hash"
    and "drop 104 b = tail"
  shows "b = frame (b ! 9) x y z sid pl (b ! 66) n hash tail"
proof -
  have one: "drop k b = b ! k # drop (k + 1) b" if "k < 104" for k
    using len that by (simp add: Cons_nth_drop_Suc)
  have "b = take 4 b @ drop 4 b" by simp
  also have "drop 4 b = take 2 (drop 4 b) @ take 2 (drop 6 b) @ drop 8 b"
    using drop_split [of 4 b 2] drop_split [of 6 b 2] by simp
  also have "drop 8 b = [b ! 8] @ [b ! 9] @ take 2 (drop 10 b) @ drop 12 b"
    using one [of 8] one [of 9] drop_split [of 10 b 2] by simp
  also have "drop 12 b = take 4 (drop 12 b) @ take 4 (drop 16 b) @ take 4 (drop 20 b) @ drop 24 b"
    using drop_split [of 12 b 4] drop_split [of 16 b 4] drop_split [of 20 b 4] by simp
  also have "drop 24 b = take 2 (drop 24 b) @ take 2 (drop 26 b) @ take 32 (drop 28 b) @ drop 60 b"
    using drop_split [of 24 b 2] drop_split [of 26 b 2] drop_split [of 28 b 32] by simp
  also have "drop 60 b = take 4 (drop 60 b) @ take 2 (drop 64 b) @ [b ! 66] @ [b ! 67] @ drop 68 b"
    using drop_split [of 60 b 4] drop_split [of 64 b 2] one [of 66] one [of 67] by simp
  also have "drop 68 b = take 4 (drop 68 b) @ take 32 (drop 72 b) @ drop 104 b"
    using drop_split [of 68 b 4] drop_split [of 72 b 32] by simp
  finally show ?thesis unfolding assms(2-) frame_def by simp
qed

subsection \<open>Reading a frame\<close>

lemma read_u16_Inr: "read_u16 b k = Inr v \<longleftrightarrow> k + 2 \<le> length b \<and> v = from_le (take 2 (drop k b))"
  by (auto simp: read_u16_def slice_def)

lemma read_u32_Inr: "read_u32 b k = Inr v \<longleftrightarrow> k + 4 \<le> length b \<and> v = from_le (take 4 (drop k b))"
  by (auto simp: read_u32_def slice_def)

lemma read_i32_Inr: "read_i32 b k = Inr v \<longleftrightarrow> k + 4 \<le> length b \<and> v = i32_from_le (take 4 (drop k b))"
  by (auto simp: read_i32_def slice_def)

lemmas read_Inr = read_u16_Inr read_u32_Inr read_i32_Inr

lemma from_le_u16: "k + 2 \<le> length b \<Longrightarrow> from_le (take 2 (drop k b)) = n \<Longrightarrow> take 2 (drop k b) = u16_le n"
  unfolding u16_le_def by (metis (no_types) add_le_imp_le_diff add.commute length_drop length_take min.absorb2 to_from_le)

lemma from_le_u32: "k + 4 \<le> length b \<Longrightarrow> from_le (take 4 (drop k b)) = n \<Longrightarrow> take 4 (drop k b) = u32_le n"
  unfolding u32_le_def by (metis (no_types) add_le_imp_le_diff add.commute length_drop length_take min.absorb2 to_from_le)

lemma from_le_i32: "k + 4 \<le> length b \<Longrightarrow> i32_from_le (take 4 (drop k b)) = n \<Longrightarrow> take 4 (drop k b) = i32_le n"
  by (metis (no_types) add_le_imp_le_diff add.commute length_drop length_take min.absorb2 i32_le_from_le)

lemma read_palette_spec:
  "read_palette b n p cur = Inr (q, cur') \<Longrightarrow> sorted_wrt (<) (map material_id p) \<Longrightarrow> cur \<le> length b \<Longrightarrow>
   \<exists>r. q = p @ r \<and> length r = n \<and> sorted_wrt (<) (map material_id q) \<and> cur' = cur + 2 * n \<and>
     drop cur b = concat (map u16_le (map material_id r)) @ drop cur' b"
proof (induction n arbitrary: p cur)
  case 0
  then show ?case by simp
next
  case (Suc n)
  from Suc.prems(1) obtain m where r: "read_u16 b cur = Inr (material_id m)"
    and inc: "p = [] \<or> material_id (last p) < material_id m"
    and rest: "read_palette b n (p @ [m]) (cur + 2) = Inr (q, cur')"
    by (auto simp: material_from_id_Some not_le split: if_splits)
  from r have len: "cur + 2 \<le> length b" and m: "take 2 (drop cur b) = u16_le (material_id m)"
    by (auto simp: read_u16_Inr intro: from_le_u16)
  have "\<forall>k \<in> set p. material_id k \<le> material_id (last p)"
    using Suc.prems(2) by (cases p rule: rev_cases) (auto simp: sorted_wrt_append)
  with inc Suc.prems(2) have "sorted_wrt (<) (map material_id (p @ [m]))"
    by (auto simp: sorted_wrt_append)
  from Suc.IH [OF rest this len] obtain r where r: "q = (p @ [m]) @ r" "length r = n"
    "sorted_wrt (<) (map material_id q)" "cur' = cur + 2 + 2 * n"
    "drop (cur + 2) b = concat (map u16_le (map material_id r)) @ drop cur' b" by auto
  moreover have "drop cur b = u16_le (material_id m) @ drop (cur + 2) b"
    using drop_split [of cur b 2] m by simp
  ultimately show ?case by (intro exI [of _ "m # r"]) auto
qed

lemma read_palette_enc:
  "sorted_wrt (<) (map material_id (p @ r)) \<Longrightarrow>
   drop cur b = concat (map u16_le (map material_id r)) @ rest \<Longrightarrow> cur \<le> length b \<Longrightarrow>
   read_palette b (length r) p cur = Inr (p @ r, cur + 2 * length r)"
proof (induction r arbitrary: p cur)
  case (Cons m r)
  have d: "drop cur b = u16_le (material_id m) @ (concat (map u16_le (map material_id r)) @ rest)"
    using Cons.prems(2) by simp
  then have len: "cur + 2 \<le> length b" using Cons.prems(3)
    by (metis add.commute add_le_imp_le_diff le_add1 le_diff_conv2 length_append length_drop length_le(1))
  have "read_u16 b cur = Inr (material_id m)"
    using len by (simp add: read_u16_Inr d u16_roundtrip)
  moreover have "drop (cur + 2) b = concat (map u16_le (map material_id r)) @ rest"
    by (metis d add.commute append_eq_conv_conj drop_drop length_le(1))
  moreover have "p = [] \<or> material_id (last p) < material_id m"
    using Cons.prems(1) by (cases p rule: rev_cases) (auto simp: sorted_wrt_append)
  ultimately show ?case using Cons.IH [of "p @ [m]" "cur + 2"] Cons.prems(1) len by auto
qed simp

subsection \<open>The payload\<close>

text \<open>What \<open>encode_chunk\<close> puts after the header, and the two size fields.\<close>

definition chunk_bits :: "material list \<Rightarrow> nat" where
  "chunk_bits vs = (if length (palette_of vs) = 1 then 0 else bits_for (length (palette_of vs)))"

definition chunk_payload :: "material list \<Rightarrow> u8 list" where
  "chunk_payload vs =
     (if length (palette_of vs) = 1 then []
      else pack_indices vs (snd (build_palette vs)) (chunk_bits vs))"

lemma encode_chunk_frame:
  "encode_chunk blake3 c sid =
     frame (if length (palette_of (ch_voxels c)) = 1 then ENCODING_UNIFORM else ENCODING_PALETTE)
       (cx (ch_coord c)) (cy (ch_coord c)) (cz (ch_coord c)) sid (length (palette_of (ch_voxels c)))
       (of_nat (chunk_bits (ch_voxels c))) (length (chunk_payload (ch_voxels c)))
       (content_hash blake3 c sid)
       (concat (map u16_le (map material_id (palette_of (ch_voxels c)))) @ chunk_payload (ch_voxels c))"
proof -
  obtain p i where bp: "build_palette (ch_voxels c) = (p, i)" by fastforce
  from build_palette_spec(1) [OF this] have "p = map material_id (palette_of (ch_voxels c))" .
  then show ?thesis
    unfolding encode_chunk_def frame_def bp prod.case Let_def chunk_payload_def chunk_bits_def
    by (simp only: bp snd_conv length_map append_assoc)
qed

lemma chunk_bits_less: "vs \<noteq> [] \<Longrightarrow> chunk_bits vs \<le> 4"
  using length_palette_of [of vs] bits_for_bound(2) [of "length (palette_of vs)"]
  by (simp add: chunk_bits_def)

lemma chunk_payload_spec:
  assumes "length (palette_of vs) > 1" "length vs = CHUNK_VOLUME"
  shows "length (chunk_payload vs) = (CHUNK_VOLUME * chunk_bits vs + 7) div 8"
    and "unpack_indices (chunk_payload vs) (palette_of vs) (bits_for (length (palette_of vs))) = Inr vs"
proof -
  let ?p = "palette_of vs" and ?b = "bits_for (length (palette_of vs))"
  obtain q i where bp: "build_palette vs = (q, i)" by fastforce
  have i: "i ! material_id m < length ?p" "?p ! (i ! material_id m) = m" if "m \<in> set vs" for m
    using build_palette_spec(2) [OF bp that] by auto
  have ne: "vs \<noteq> []" using assms(2) by auto
  have b: "chunk_bits vs = ?b" and b4: "?b \<le> 4" using assms(1) chunk_bits_less [OF ne] by (auto simp: chunk_bits_def)
  have bound: "\<forall>m \<in> set vs. i ! material_id m < 2 ^ ?b"
  proof
    fix m assume "m \<in> set vs"
    from i(1) [OF this] show "i ! material_id m < 2 ^ ?b"
      using length_palette_of(1) [of vs] assms(1) by (intro bits_for_bound(1)) auto
  qed
  have pay: "chunk_payload vs = pack_indices vs i ?b"
    using assms(1) by (simp add: chunk_payload_def bp b)
  let ?ds = "map (\<lambda>m. i ! material_id m) vs"
  have b8: "?b \<le> 8" using b4 by simp
  note v = pack_indices_value [OF b8 bound, folded pay]
  show "length (chunk_payload vs) = (CHUNK_VOLUME * chunk_bits vs + 7) div 8"
    using v(2) assms(2) b by (simp add: mult.commute)
  have ds: "?ds = to_digits ?b CHUNK_VOLUME (from_le (chunk_payload vs))"
    using to_digits_val [of ?ds ?b] bound v(1) assms(2) by simp
  have "set ?ds = {..<length ?p}"
  proof
    show "set ?ds \<subseteq> {..<length ?p}" using i by auto
    show "{..<length ?p} \<subseteq> set ?ds"
    proof
      fix k assume "k \<in> {..<length ?p}"
      then have k: "k < length ?p" by simp
      then have m: "?p ! k \<in> set vs" by (metis nth_mem set_palette_of)
      from i [OF m] k have "i ! material_id (?p ! k) = k" by (simp add: nth_eq_iff_index_eq)
      with m show "k \<in> set ?ds" by (force simp: image_iff)
    qed
  qed
  moreover have "map (\<lambda>d. ?p ! d) ?ds = vs" using i by (simp add: map_idI)
  moreover have "?b * CHUNK_VOLUME \<le> 8 * length (chunk_payload vs)"
    using v(2) assms(2) by simp
  ultimately show "unpack_indices (chunk_payload vs) ?p ?b = Inr vs"
    unfolding unpack_indices_iff [OF b8 ds] by simp
qed

lemma unpack_canonical:
  assumes "unpack_indices payload p (bits_for (length p)) = Inr vs" "1 < length p" "length p \<le> 15"
    and "sorted_wrt (<) (map material_id p)"
    and "length payload = (CHUNK_VOLUME * bits_for (length p) + 7) div 8"
  shows "p = palette_of vs" and "length vs = CHUNK_VOLUME" and "payload = chunk_payload vs"
proof -
  let ?b = "bits_for (length p)"
  let ?ds = "to_digits ?b CHUNK_VOLUME (from_le payload)"
  have b4: "?b \<le> 4" using assms(2,3) by (intro bits_for_bound) auto
  then have b8: "?b \<le> 8" by simp
  have ds: "set ?ds = {..<length p}" and vs: "vs = map (\<lambda>d. p ! d) ?ds"
    using assms(1) unpack_indices_iff [OF b8 refl] by auto
  have "set vs = set p" unfolding vs set_map ds by (auto simp: in_set_conv_nth)
  then show p: "p = palette_of vs" using palette_unique [OF assms(4)] by simp
  show len: "length vs = CHUNK_VOLUME" by (simp add: vs)
  obtain q i where bp: "build_palette vs = (q, i)" by fastforce
  have dist: "distinct p" using p by (metis distinct_palette_of)
  have "i ! material_id (p ! d) = d" if "d \<in> set ?ds" for d
  proof -
    have d: "d < length p" using ds that by auto
    have "p ! d \<in> set vs" unfolding vs using that by auto
    from build_palette_spec(2) [OF bp this, folded p] show ?thesis
      using dist d by (metis nth_eq_iff_index_eq)
  qed
  then have idx: "map (\<lambda>m. i ! material_id m) vs = ?ds"
    unfolding vs map_map comp_def by (intro map_idI) auto
  have "d < 2 ^ ?b" if "d \<in> set ?ds" for d by (rule to_digits_less [OF that])
  then have bound: "\<forall>m \<in> set vs. i ! material_id m < 2 ^ ?b"
    using idx by (metis image_eqI list.set_map)
  have pay: "chunk_payload vs = pack_indices vs i ?b"
    using assms(2) p by (simp add: chunk_payload_def chunk_bits_def bp)
  note v = pack_indices_value [OF b8 bound, folded pay]
  have eq: "length payload = length (chunk_payload vs)"
    using v(2) assms(5) len by (simp add: mult.commute)
  have "8 * length payload = ?b * CHUNK_VOLUME" using assms(5) by simp
  then have "from_le payload < 2 ^ (?b * CHUNK_VOLUME)"
    using from_le_less [of payload] by (simp add: power_256 mult.commute)
  then have "from_le payload = from_le (chunk_payload vs)"
    unfolding v(1) idx by (rule digits_val_to_digits [symmetric])
  with eq show "payload = chunk_payload vs" by (metis to_from_le)
qed

subsection \<open>Decoding inverts encoding\<close>

definition digests_ok :: "(u8 list \<Rightarrow> u8 list) \<Rightarrow> bool" where
  "digests_ok blake3 \<longleftrightarrow> (\<forall>xs. hash_ok (blake3 xs))"

lemma content_hash_length: "digests_ok blake3 \<Longrightarrow> length (content_hash blake3 c sid) = 32"
  by (simp add: digests_ok_def hash_ok_def content_hash_def)

lemma decode_header:
  assumes "b = frame e x y z sid pl bits n hash tail" "length sid = 32" "length hash = 32"
  shows "decode_chunk blake3 b sid' =
    (if sid \<noteq> sid' then Inl CodecSourceIdentityMismatch else decode_body blake3 b sid')"
proof -
  note r = frame_reads [OF assms(2,3,1)]
  have "104 \<le> length b" using assms by simp
  then show ?thesis
    by (simp add: decode_chunk_def read_u16_def read_u32_def r u16_roundtrip u32_roundtrip
        codec_FORMAT_VERSION_def codec_HEADER_LEN_def MATERIAL_SCHEMA_VERSION_def)
qed

lemma decode_body_frame:
  assumes b: "b = frame e x y z sid pl (of_nat bits) n hash tail" "length sid = 32" "length hash = 32"
    and ok: "i32_ok x" "i32_ok y" "i32_ok z" "pl \<le> u16_max" "bits < 256" "n \<le> u32_max"
    and rep: "is_world_representable (chunk_at x y z)"
    and pl: "0 < pl" "pl \<le> length MATERIAL_ALL"
    and size: "length tail = pl * 2 + n"
    and pal: "read_palette b pl [] 104 = Inr (palette, cursor)"
    and vox: "decode_voxels b e palette cursor pl bits n = Inr vs"
    and chunk: "chunk_from_voxels (chunk_at x y z) vs = Some c"
    and hash: "hash = content_hash blake3 c sid'"
  shows "decode_body blake3 b sid' = Inr c"
proof -
  note r = frame_reads [OF b(2,3,1)]
  have "unat (of_nat bits :: u8) = bits" using ok(5) by (rule unat_of_nat_u8)
  moreover have "length b = 104 + (pl * 2 + n)" using b size by simp
  ultimately show ?thesis
    using ok rep pl pal vox chunk r(18)
    by (simp add: decode_body_def read_u16_def read_u32_def read_i32_def r u16_roundtrip
        u32_roundtrip i32_roundtrip codec_HEADER_LEN_def hash)
qed

lemma decode_of_encode:
  assumes "digests_ok blake3" "hash_ok sid" "chunk_wf c"
  shows "decode_chunk blake3 (encode_chunk blake3 c sid) sid = Inr c"
proof -
  let ?vs = "ch_voxels c" and ?p = "palette_of (ch_voxels c)" and ?co = "ch_coord c"
  let ?b = "encode_chunk blake3 c sid" and ?n = "length (chunk_payload (ch_voxels c))"
  have len: "length ?vs = CHUNK_VOLUME" and rep: "is_world_representable ?co"
    using assms(3) by (auto simp: chunk_wf_def)
  then have ne: "?vs \<noteq> []" by auto
  note pl = length_palette_of(1) [of ?vs] length_palette_of(2) [OF ne]
  have sid: "length sid = 32" using assms(2) by (simp add: hash_ok_def)
  have hash: "length (content_hash blake3 c sid) = 32" using assms(1) by (rule content_hash_length)
  note b = encode_chunk_frame [of blake3 c sid]
  have bits: "chunk_bits ?vs < 256" using chunk_bits_less [OF ne] by simp
  have n: "?n \<le> u32_max" and vox: "decode_voxels ?b
      (if length ?p = 1 then ENCODING_UNIFORM else ENCODING_PALETTE) ?p (104 + 2 * length ?p)
      (length ?p) (chunk_bits ?vs) ?n = Inr ?vs"
  proof -
    have d: "drop (104 + 2 * length ?p) ?b = chunk_payload ?vs"
    proof -
      have "drop 104 ?b = concat (map u16_le (map material_id ?p)) @ chunk_payload ?vs"
        using frame_reads(19) [OF sid hash b] .
      moreover have "length (concat (map u16_le (map material_id ?p))) = 2 * length ?p"
        by (simp add: length_concat comp_def sum_list_triv)
      ultimately show ?thesis by (metis add.commute append_eq_conv_conj drop_drop)
    qed
    show "?n \<le> u32_max"
      using chunk_payload_spec(1) [OF _ len] pl chunk_bits_less [OF ne]
      by (cases "length ?p = 1") (auto simp: chunk_payload_def)
    show "decode_voxels ?b (if length ?p = 1 then ENCODING_UNIFORM else ENCODING_PALETTE) ?p
        (104 + 2 * length ?p) (length ?p) (chunk_bits ?vs) ?n = Inr ?vs"
    proof (cases "length ?p = 1")
      case True
      then obtain m where m: "?p = [m]" by (cases ?p) auto
      then have "set ?vs = {m}" by (metis list.set(1) list.simps(15) set_palette_of)
      then have "replicate (length ?vs) m = ?vs" by (intro replicate_eqI [symmetric]) auto
      then show ?thesis using True m len
        by (simp add: decode_voxels_def chunk_bits_def chunk_payload_def)
    next
      case False
      with pl(2) have gt: "1 < length ?p" by linarith
      note s = chunk_payload_spec [OF gt len]
      show ?thesis using False gt s
        by (simp add: decode_voxels_def d chunk_bits_def ENCODING_PALETTE_def ENCODING_UNIFORM_def)
    qed
  qed
  have pal: "read_palette ?b (length ?p) [] 104 = Inr (?p, 104 + 2 * length ?p)"
    using read_palette_enc [of "[]" ?p 104 ?b] sorted_palette_of [of ?vs]
      frame_reads(19) [OF sid hash b] by (simp add: b sid hash)
  have "decode_body blake3 ?b sid = Inr c"
  proof (rule decode_body_frame [OF b sid hash _ _ _ _ bits n _ _ _ _ pal vox])
    show "i32_ok (cx ?co)" "i32_ok (cy ?co)" "i32_ok (cz ?co)"
      using chunk_ok_representable [OF rep] by (auto simp: chunk_ok_def)
    show "length ?p \<le> u16_max" "length ?p \<le> length MATERIAL_ALL"
      using pl(1) by (simp_all add: MATERIAL_ALL_def)
    show "length (concat (map u16_le (map material_id ?p)) @ chunk_payload ?vs) = length ?p * 2 + ?n"
      by (simp add: length_concat comp_def sum_list_triv)
    show "chunk_from_voxels (chunk_at (cx ?co) (cy ?co) (cz ?co)) ?vs = Some c"
      using rep len by (simp add: chunk_from_voxels_def)
    show "is_world_representable (chunk_at (cx ?co) (cy ?co) (cz ?co))"
      using rep by (simp only: chunk_surjective)
  qed (use pl in auto)
  then show ?thesis using decode_header [OF b sid hash] by simp
qed

definition zero_hash :: "u8 list" where "zero_hash = replicate 32 0"

definition sample_chunk :: chunk where
  "sample_chunk = \<lparr>ch_coord = chunk_at 1 (-2) 3, ch_voxels = Stone # replicate 32767 Water\<rparr>"

lemma sample_ok: "digests_ok (\<lambda>_. zero_hash)" "hash_ok zero_hash" "chunk_wf sample_chunk"
  by (simp_all add: digests_ok_def hash_ok_def zero_hash_def sample_chunk_def chunk_wf_def
      is_world_representable_def)

text \<open>
  C10: decoding inverts encoding. For every well-formed chunk (a coordinate inside the voxel grid
  and \<open>CHUNK_VOLUME\<close> materials) and every 32-byte source identity, \<open>decode_chunk\<close> under the same
  identity accepts the bytes \<open>encode_chunk\<close> wrote and returns that chunk, whatever its palette.
\<close>

theorem decode_encode_chunk:
  assumes "digests_ok blake3" "hash_ok sid" "chunk_wf c"
  shows "decode_chunk blake3 (encode_chunk blake3 c sid) sid = Inr c"
  using assms by (rule decode_of_encode)

theorem decode_encode_chunk_witness:
  "decode_chunk (\<lambda>_. zero_hash) (encode_chunk (\<lambda>_. zero_hash) sample_chunk zero_hash) zero_hash
     = Inr sample_chunk"
  by (rule decode_encode_chunk [OF sample_ok])

subsection \<open>Accepted bytes are canonical\<close>

lemma decode_chunk_checks:
  assumes "decode_chunk blake3 b sid = Inr c"
  shows "104 \<le> length b" and "take 4 b = codec_MAGIC"
    and "take 2 (drop 4 b) = u16_le codec_FORMAT_VERSION"
    and "take 2 (drop 6 b) = u16_le codec_HEADER_LEN"
    and "b ! 8 = of_nat (trailing_zeros CHUNK_EDGE)" and "take 2 (drop 10 b) = u16_le 0"
    and "take 2 (drop 24 b) = u16_le MATERIAL_SCHEMA_VERSION"
    and "take 2 (drop 26 b) = u16_le 0" and "take 32 (drop 28 b) = sid"
    and "take 4 (drop 60 b) = u32_le CHUNK_VOLUME" and "b ! 67 = 0"
    and "decode_body blake3 b sid = Inr c"
proof -
  show len: "104 \<le> length b"
    using assms by (auto simp: decode_chunk_def codec_HEADER_LEN_def split: if_split_asm)
  note simps = decode_chunk_def read_u16_Inr read_u32_Inr
  show "take 4 b = codec_MAGIC" "b ! 8 = of_nat (trailing_zeros CHUNK_EDGE)"
    "take 32 (drop 28 b) = sid" "b ! 67 = 0" "decode_body blake3 b sid = Inr c"
    using assms by (auto simp: simps simp del: trailing_zeros.simps split: if_split_asm)
  have "from_le (take 2 (drop 4 b)) = codec_FORMAT_VERSION"
    "from_le (take 2 (drop 6 b)) = codec_HEADER_LEN" "from_le (take 2 (drop 10 b)) = 0"
    "from_le (take 2 (drop 24 b)) = MATERIAL_SCHEMA_VERSION" "from_le (take 2 (drop 26 b)) = 0"
    "from_le (take 4 (drop 60 b)) = CHUNK_VOLUME"
    using assms by (auto simp: simps simp del: trailing_zeros.simps split: if_split_asm)
  then show "take 2 (drop 4 b) = u16_le codec_FORMAT_VERSION"
    "take 2 (drop 6 b) = u16_le codec_HEADER_LEN" "take 2 (drop 10 b) = u16_le 0"
    "take 2 (drop 24 b) = u16_le MATERIAL_SCHEMA_VERSION" "take 2 (drop 26 b) = u16_le 0"
    "take 4 (drop 60 b) = u32_le CHUNK_VOLUME"
    using len by (auto intro!: from_le_u16 from_le_u32 simp del: CHUNK_VOLUME_simp)
qed

lemma decode_body_checks:
  assumes "decode_body blake3 b sid = Inr c"
  obtains x y z pl n palette cursor vs where
    "take 4 (drop 12 b) = i32_le x" "take 4 (drop 16 b) = i32_le y" "take 4 (drop 20 b) = i32_le z"
    "take 2 (drop 64 b) = u16_le pl" "take 4 (drop 68 b) = u32_le n" "0 < pl" "pl \<le> length MATERIAL_ALL"
    "length b = 104 + pl * 2 + n" "read_palette b pl [] 104 = Inr (palette, cursor)"
    "decode_voxels b (b ! 9) palette cursor pl (unat (b ! 66)) n = Inr vs"
    "chunk_from_voxels (chunk_at x y z) vs = Some c" "take 32 (drop 72 b) = content_hash blake3 c sid"
proof -
  from assms obtain x y z pl n palette cursor vs where
    r: "read_i32 b 12 = Inr x" "read_i32 b 16 = Inr y" "read_i32 b 20 = Inr z"
    "read_u16 b 64 = Inr pl" "read_u32 b 68 = Inr n" and
    "0 < pl" "pl \<le> length MATERIAL_ALL"
    "length b = 104 + pl * 2 + n" "read_palette b pl [] 104 = Inr (palette, cursor)"
    "decode_voxels b (b ! 9) palette cursor pl (unat (b ! 66)) n = Inr vs"
    "chunk_from_voxels (chunk_at x y z) vs = Some c" "take 32 (drop 72 b) = content_hash blake3 c sid"
    unfolding decode_body_def Let_def codec_HEADER_LEN_def
    by (auto split: if_split_asm simp: not_less)
  moreover have "take 4 (drop 12 b) = i32_le x" "take 4 (drop 16 b) = i32_le y"
    "take 4 (drop 20 b) = i32_le z" "take 2 (drop 64 b) = u16_le pl" "take 4 (drop 68 b) = u32_le n"
    using r by (auto simp: read_Inr intro!: from_le_u16 from_le_u32 from_le_i32)
  ultimately show thesis using that by blast
qed

text \<open>
  C2: accepted bytes are canonical. If \<open>decode_chunk\<close> accepts a byte string under an identity,
  the string is exactly what \<open>encode_chunk\<close> writes for the decoded chunk, so a chunk has one
  accepted encoding, and the chunk is well formed.
\<close>

theorem decode_chunk_canonical:
  assumes "decode_chunk blake3 b sid = Inr c"
  shows "encode_chunk blake3 c sid = b \<and> chunk_wf c"
proof -
  note h = decode_chunk_checks [OF assms]
  obtain x y z pl n p cursor vs where
    f: "take 4 (drop 12 b) = i32_le x" "take 4 (drop 16 b) = i32_le y" "take 4 (drop 20 b) = i32_le z"
      "take 2 (drop 64 b) = u16_le pl" "take 4 (drop 68 b) = u32_le n"
    and pl: "0 < pl" "pl \<le> length MATERIAL_ALL" and len: "length b = 104 + pl * 2 + n"
    and pal: "read_palette b pl [] 104 = Inr (p, cursor)"
    and vox: "decode_voxels b (b ! 9) p cursor pl (unat (b ! 66)) n = Inr vs"
    and chunk: "chunk_from_voxels (chunk_at x y z) vs = Some c"
    and hash: "take 32 (drop 72 b) = content_hash blake3 c sid"
    by (rule decode_body_checks [OF h(12)])
  have wf: "chunk_wf c" using chunk by (rule chunk_from_voxels_wf)
  have c: "cx (ch_coord c) = x" "cy (ch_coord c) = y" "cz (ch_coord c) = z" "ch_voxels c = vs"
    using chunk by (auto simp: chunk_from_voxels_def split: if_splits)
  from read_palette_spec [OF pal _ h(1)] have lp: "length p = pl"
    and sorted: "sorted_wrt (<) (map material_id p)" and cur: "cursor = 104 + 2 * pl"
    and tail: "drop 104 b = concat (map u16_le (map material_id p)) @ drop cursor b" by auto
  have pay: "length (drop cursor b) = n" using len cur by simp
  have e: "p = palette_of vs \<and> drop cursor b = chunk_payload vs \<and> unat (b ! 66) = chunk_bits vs \<and>
      b ! 9 = (if length (palette_of vs) = 1 then ENCODING_UNIFORM else ENCODING_PALETTE)"
  proof (cases "b ! 9 = ENCODING_UNIFORM \<and> pl = 1 \<and> unat (b ! 66) = 0 \<and> n = 0")
    case True
    with vox have vs: "vs = replicate CHUNK_VOLUME (p ! 0)" by (simp add: decode_voxels_def)
    from lp True obtain m where m: "p = [m]" by (cases p) auto
    then have "set p = set vs" using vs by simp
    with sorted have "p = palette_of vs" by (rule palette_unique)
    moreover from this have "length (palette_of vs) = 1" using m by (metis One_nat_def length_Cons list.size(3))
    ultimately show ?thesis using True pay by (auto simp: chunk_payload_def chunk_bits_def)
  next
    case False
    with vox have b: "b ! 9 = ENCODING_PALETTE" "1 < pl" "unat (b ! 66) = bits_for (length p)"
      and n: "n = (CHUNK_VOLUME * bits_for (length p) + 7) div 8"
      and u: "unpack_indices (drop cursor b) p (bits_for (length p)) = Inr vs"
      unfolding decode_voxels_def Let_def by (auto simp: lp split: if_split_asm)
    have "length p \<le> 15" using pl lp by (simp add: MATERIAL_ALL_def)
    from unpack_canonical [OF u _ this sorted] b(2) lp n pay
    have "p = palette_of vs" "drop cursor b = chunk_payload vs" by auto
    then show ?thesis using b lp by (auto simp: chunk_bits_def)
  qed
  have "of_nat (unat (b ! 66)) = b ! 66" by simp
  then have "of_nat (chunk_bits vs) = b ! 66" using e by metis
  then have "encode_chunk blake3 c sid
      = frame (b ! 9) x y z sid pl (b ! 66) n (take 32 (drop 72 b)) (drop 104 b)"
    unfolding encode_chunk_frame c tail hash
  proof -
    have p: "palette_of vs = p" "chunk_payload vs = drop cursor b" using e by simp_all
    have "(if pl = 1 then ENCODING_UNIFORM else ENCODING_PALETTE) = b ! 9" using e lp by simp
    with \<open>of_nat (chunk_bits vs) = b ! 66\<close>
    show "frame (if length (palette_of vs) = 1 then ENCODING_UNIFORM else ENCODING_PALETTE) x y z sid
        (length (palette_of vs)) (of_nat (chunk_bits vs)) (length (chunk_payload vs))
        (content_hash blake3 c sid)
        (concat (map u16_le (map material_id (palette_of vs))) @ chunk_payload vs)
      = frame (b ! 9) x y z sid pl (b ! 66) n (content_hash blake3 c sid)
        (concat (map u16_le (map material_id p)) @ drop cursor b)"
      by (simp only: p lp pay)
  qed
  also have "\<dots> = b"
    by (rule frame_fields [OF h(1-6) f(1-3) h(7-10) f(4) h(11) f(5) refl refl, symmetric])
  finally show ?thesis using wf by blast
qed

theorem decode_chunk_canonical_witness:
  "let b = encode_chunk (\<lambda>_. zero_hash) sample_chunk zero_hash in
   decode_chunk (\<lambda>_. zero_hash) b zero_hash = Inr sample_chunk \<and>
   encode_chunk (\<lambda>_. zero_hash) sample_chunk zero_hash = b"
  using decode_chunk_canonical [OF decode_of_encode [OF sample_ok]] decode_of_encode [OF sample_ok]
  by (simp add: Let_def)

subsection \<open>Damaged payloads\<close>

lemma decode_body_length:
  assumes b: "b = frame e x y z sid pl bits n hash tail" "length sid = 32" "length hash = 32"
    and ok: "i32_ok x" "i32_ok y" "i32_ok z" "pl \<le> u16_max" "n \<le> u32_max"
    and rep: "is_world_representable (chunk_at x y z)"
    and pl: "0 < pl" "pl \<le> length MATERIAL_ALL"
    and size: "length tail \<noteq> pl * 2 + n"
  shows "decode_body blake3 b sid' =
    Inl (if length tail < pl * 2 + n then CodecTruncated else CodecInvalidHeader ''trailing bytes'')"
proof -
  note r = frame_reads [OF b(2,3,1)]
  have "length b = 104 + length tail" using b by simp
  then show ?thesis
    using ok rep pl size
    by (simp add: decode_body_def read_u16_def read_u32_def read_i32_def r u16_roundtrip
        u32_roundtrip i32_roundtrip codec_HEADER_LEN_def)
qed

lemma frame_append: "frame e x y z sid pl bits n hash tail @ extra = frame e x y z sid pl bits n hash (tail @ extra)"
  by (simp add: frame_def)

lemma frame_take:
  assumes "length sid = 32" "length hash = 32" "104 \<le> k"
  shows "take k (frame e x y z sid pl bits n hash tail) = frame e x y z sid pl bits n hash (take (k - 104) tail)"
proof -
  have f: "frame e x y z sid pl bits n hash t = frame e x y z sid pl bits n hash [] @ t" for t
    by (simp add: frame_append)
  show ?thesis
    by (subst (1 2) f) (simp add: assms)
qed

lemma decode_short:
  assumes "k < 104" "length sid = 32" "length hash = 32" "b = frame e x y z sid pl bits n hash tail"
  shows "decode_chunk blake3 (take k b) sid' = Inl CodecTruncated"
proof (cases "k < 8")
  case False
  note r = frame_reads [OF assms(2-4)]
  have l: "length (take k b) = k" using assms by simp
  have "take 4 (take k b) = codec_MAGIC" using False r(1) by (simp add: min_def)
  moreover have "slice (take k b) 4 6 = slice b 4 6"
    using False assms by (simp add: slice_def drop_take min_def)
  ultimately show ?thesis
    using l assms(1) False
    by (simp add: decode_chunk_def read_u16_def r u16_roundtrip codec_FORMAT_VERSION_def codec_HEADER_LEN_def)
qed (use assms in \<open>simp add: decode_chunk_def\<close>)

lemma chunk_payload_u32:
  assumes "length vs = CHUNK_VOLUME"
  shows "length (chunk_payload vs) \<le> u32_max"
proof (cases "length (palette_of vs) = 1")
  case False
  have ne: "vs \<noteq> []" using assms by auto
  with False have "1 < length (palette_of vs)" using length_palette_of(2) [OF ne] by linarith
  then show ?thesis using chunk_payload_spec(1) [OF _ assms] chunk_bits_less [OF ne] by simp
qed (simp add: chunk_payload_def)

text \<open>
  C11: damaged payloads are rejected with the error the code names. Of an encoding of a
  well-formed chunk, every strict prefix is \<open>Truncated\<close>, every proper extension has trailing
  bytes, and decoding it under any other source identity is an identity mismatch.
\<close>

theorem decode_chunk_rejects:
  assumes "digests_ok blake3" "hash_ok sid" "chunk_wf c"
  shows "(\<forall>k < length (encode_chunk blake3 c sid).
        decode_chunk blake3 (take k (encode_chunk blake3 c sid)) sid = Inl CodecTruncated) \<and>
    (\<forall>extra. extra \<noteq> [] \<longrightarrow> decode_chunk blake3 (encode_chunk blake3 c sid @ extra) sid
        = Inl (CodecInvalidHeader ''trailing bytes'')) \<and>
    (\<forall>sid'. sid' \<noteq> sid \<longrightarrow> decode_chunk blake3 (encode_chunk blake3 c sid) sid' = Inl CodecSourceIdentityMismatch)"
proof -
  let ?vs = "ch_voxels c" and ?p = "palette_of (ch_voxels c)" and ?co = "ch_coord c"
  let ?tail = "concat (map u16_le (map material_id ?p)) @ chunk_payload ?vs"
  let ?n = "length (chunk_payload ?vs)"
  have len: "length ?vs = CHUNK_VOLUME" and rep: "is_world_representable ?co"
    using assms(3) by (auto simp: chunk_wf_def)
  then have ne: "?vs \<noteq> []" by auto
  have sid: "length sid = 32" using assms(2) by (simp add: hash_ok_def)
  have hash: "length (content_hash blake3 c sid) = 32" using assms(1) by (rule content_hash_length)
  note b = encode_chunk_frame [of blake3 c sid]
  have tail: "length ?tail = length ?p * 2 + ?n"
    by (simp add: length_concat comp_def sum_list_triv)
  have pl: "0 < length ?p" "length ?p \<le> length MATERIAL_ALL" "length ?p \<le> u16_max"
    using length_palette_of(1) [of ?vs] length_palette_of(2) [OF ne] by (simp_all add: MATERIAL_ALL_def)
  note n = chunk_payload_u32 [OF len]
  have ok: "i32_ok (cx ?co)" "i32_ok (cy ?co)" "i32_ok (cz ?co)"
    using chunk_ok_representable [OF rep] by (auto simp: chunk_ok_def)
  have rep': "is_world_representable (chunk_at (cx ?co) (cy ?co) (cz ?co))"
    using rep by (simp only: chunk_surjective)
  note body = decode_body_length [OF refl sid hash ok pl(3) n rep' pl(1,2)]
  have A: "decode_chunk blake3 (take k (encode_chunk blake3 c sid)) sid = Inl CodecTruncated"
    if k: "k < length (encode_chunk blake3 c sid)" for k
  proof (cases "k < 104")
    case True
    then show ?thesis by (rule decode_short [OF _ sid hash b])
  next
    case False
    then have k: "104 \<le> k" "k - 104 < length ?tail" using k b sid hash by simp_all
    then have less: "length (take (k - 104) ?tail) < length ?p * 2 + ?n" unfolding tail by simp
    have "take k (encode_chunk blake3 c sid) = frame
        (if length ?p = 1 then ENCODING_UNIFORM else ENCODING_PALETTE) (cx ?co) (cy ?co) (cz ?co) sid
        (length ?p) (of_nat (chunk_bits ?vs)) ?n (content_hash blake3 c sid) (take (k - 104) ?tail)"
      unfolding b using frame_take [OF sid hash k(1)] .
    then show ?thesis
      using decode_header [OF _ sid hash] body [OF less_imp_neq [OF less]] less by simp
  qed
  have B: "decode_chunk blake3 (encode_chunk blake3 c sid @ extra) sid
      = Inl (CodecInvalidHeader ''trailing bytes'')" if "extra \<noteq> []" for extra
  proof -
    have gt: "length (?tail @ extra) > length ?p * 2 + ?n" using that tail by (simp add: add.assoc)
    show ?thesis
      unfolding b frame_append
      using decode_header [OF refl sid hash] body [OF gt [THEN less_imp_neq, THEN not_sym]] gt by simp
  qed
  show ?thesis using A B decode_header [OF b sid hash] by auto
qed

theorem decode_chunk_rejects_witness:
  "decode_chunk (\<lambda>_. zero_hash) (take 3 (encode_chunk (\<lambda>_. zero_hash) sample_chunk zero_hash)) zero_hash
     = Inl CodecTruncated"
proof -
  have "3 < length (encode_chunk (\<lambda>_. zero_hash) sample_chunk zero_hash)"
    using content_hash_length [OF sample_ok(1)] sample_ok(2) by (simp add: encode_chunk_frame hash_ok_def)
  with decode_chunk_rejects [OF sample_ok] show ?thesis by blast
qed

end
