(* ===== verification/Edit_Codec.thy ===== *)
theory Edit_Codec
  imports Edit_Map Chunk_Codec
begin

text \<open>
  Durable edit chunks (\<open>VXED\<close>, world/src/edit.rs): \<open>encode_chunk_overrides\<close> and
  \<open>decode_chunk_overrides\<close>, the record the storage keeps per edited chunk. The lemmas show that
  hydration restores the chunk exactly, that accepted records are canonical, and that a journal is
  rebuilt from the records of its edited chunks; the journal's reachable states are those of
  \<open>edit_step\<close>, and its invariant holds on all of them.
\<close>

datatype edit_codec_error =
  EditTruncated
| EditInvalidMagic
| EditUnsupportedVersion nat
| EditInvalidHeader string
| EditCoordinateMismatch
| EditUnknownMaterial nat
| EditCorruptHash

definition EDIT_CHUNK_MAGIC :: "u8 list" where "EDIT_CHUNK_MAGIC = ascii ''VXED''"
definition EDIT_CHUNK_VERSION :: nat where "EDIT_CHUNK_VERSION = 1"
definition EDIT_CHUNK_HEADER_BYTES :: nat where "EDIT_CHUNK_HEADER_BYTES = 60"
definition EDIT_CHUNK_ENTRY_BYTES :: nat where "EDIT_CHUNK_ENTRY_BYTES = 4"
definition EDIT_CHUNK_HASH_DOMAIN :: "u8 list" where
  "EDIT_CHUNK_HASH_DOMAIN = ascii ''voxels-edit-chunk-v1'' @ [0]"

definition edit_chunk_hash :: "(u8 list \<Rightarrow> u8 list) \<Rightarrow> chunk_coord \<Rightarrow> u8 list \<Rightarrow> u8 list" where
  "edit_chunk_hash blake3 coord entries =
     blake3 (EDIT_CHUNK_HASH_DOMAIN @ i32_le (cx coord) @ i32_le (cy coord) @ i32_le (cz coord) @ entries)"

definition encode_entry :: "nat \<times> material \<Rightarrow> u8 list" where
  "encode_entry = (\<lambda>(index, m). u16_le index @ u16_le (material_id m))"

definition encode_chunk_overrides ::
  "(u8 list \<Rightarrow> u8 list) \<Rightarrow> chunk_coord \<Rightarrow> edit_map \<Rightarrow> u8 list option" where
  "encode_chunk_overrides blake3 coord em =
     Option.bind (btree_get (em_chunks em) (chunk_key coord)) (\<lambda>chunk.
       if length chunk > u32_max then None else
       let entries = concat (map encode_entry chunk);
           hash = edit_chunk_hash blake3 coord entries
       in Some (EDIT_CHUNK_MAGIC @ u16_le EDIT_CHUNK_VERSION @ u16_le EDIT_CHUNK_HEADER_BYTES @
            u16_le MATERIAL_SCHEMA_VERSION @ u16_le 0 @ u32_le (length chunk) @
            i32_le (cx coord) @ i32_le (cy coord) @ i32_le (cz coord) @ hash @ entries))"

definition read_edit_u16 :: "u8 list \<Rightarrow> nat \<Rightarrow> edit_codec_error + nat" where
  "read_edit_u16 bytes offset =
     attempt (ok_or EditTruncated (slice bytes offset (offset + 2))) (\<lambda>v. Inr (from_le v))"

definition read_edit_u32 :: "u8 list \<Rightarrow> nat \<Rightarrow> edit_codec_error + nat" where
  "read_edit_u32 bytes offset =
     attempt (ok_or EditTruncated (slice bytes offset (offset + 4))) (\<lambda>v. Inr (from_le v))"

definition read_edit_i32 :: "u8 list \<Rightarrow> nat \<Rightarrow> edit_codec_error + int" where
  "read_edit_i32 bytes offset =
     attempt (ok_or EditTruncated (slice bytes offset (offset + 4))) (\<lambda>v. Inr (i32_from_le v))"

fun decode_entries :: "u8 list \<Rightarrow> nat option \<Rightarrow> edited_chunk \<Rightarrow> edit_codec_error + edited_chunk" where
  "decode_entries (b0 # b1 # b2 # b3 # rest) previous decoded =
     (let index = from_le [b0, b1] in
      if index \<ge> CHUNK_VOLUME \<or> (case previous of Some p \<Rightarrow> p \<ge> index | None \<Rightarrow> False)
      then Inl (EditInvalidHeader ''local indices are not strictly ordered'')
      else let material_id = from_le [b2, b3] in
           attempt (ok_or (EditUnknownMaterial material_id) (material_from_id material_id)) (\<lambda>m.
             decode_entries rest (Some index) (decoded @ [(index, m)])))"
| "decode_entries _ previous decoded = Inr decoded"

definition decode_edit_body ::
  "(u8 list \<Rightarrow> u8 list) \<Rightarrow> chunk_coord \<Rightarrow> u8 list \<Rightarrow> edit_map \<Rightarrow> edit_codec_error + edit_map" where
  "decode_edit_body blake3 coord bytes em =
     attempt (read_edit_u32 bytes 12) (\<lambda>count.
     if count = 0 \<or> count > CHUNK_VOLUME then Inl (EditInvalidHeader ''entry count is out of bounds'') else
     attempt (read_edit_i32 bytes 16) (\<lambda>x.
     attempt (read_edit_i32 bytes 20) (\<lambda>y.
     attempt (read_edit_i32 bytes 24) (\<lambda>z.
     let encoded_coord = chunk_at x y z in
     if \<not> is_world_representable encoded_coord
     then Inl (EditInvalidHeader ''chunk coordinate outside voxel grid'')
     else if encoded_coord \<noteq> coord then Inl EditCoordinateMismatch else
     let expected_len = EDIT_CHUNK_HEADER_BYTES + count * EDIT_CHUNK_ENTRY_BYTES in
     if length bytes < expected_len then Inl EditTruncated
     else if length bytes \<noteq> expected_len then Inl (EditInvalidHeader ''trailing bytes'') else
     let entries = drop EDIT_CHUNK_HEADER_BYTES bytes in
     if edit_chunk_hash blake3 coord entries \<noteq> take 32 (drop 28 bytes) then Inl EditCorruptHash
     else if btree_contains (em_chunks em) (chunk_key coord)
     then Inl (EditInvalidHeader ''duplicate chunk during hydration'') else
     attempt (decode_entries entries None []) (\<lambda>decoded.
       Inr (em\<lparr>em_count := em_count em + length decoded,
               em_chunks := btree_insert (chunk_key coord) decoded (em_chunks em)\<rparr>))))))"

definition decode_chunk_overrides ::
  "(u8 list \<Rightarrow> u8 list) \<Rightarrow> chunk_coord \<Rightarrow> u8 list \<Rightarrow> edit_map \<Rightarrow> edit_codec_error + edit_map" where
  "decode_chunk_overrides blake3 coord bytes em =
     (if length bytes < 8 then Inl EditTruncated
      else if take 4 bytes \<noteq> EDIT_CHUNK_MAGIC then Inl EditInvalidMagic else
      attempt (read_edit_u16 bytes 4) (\<lambda>version.
      if version \<noteq> EDIT_CHUNK_VERSION then Inl (EditUnsupportedVersion version)
      else if length bytes < EDIT_CHUNK_HEADER_BYTES then Inl EditTruncated else
      attempt (read_edit_u16 bytes 6) (\<lambda>header.
      if header \<noteq> EDIT_CHUNK_HEADER_BYTES then Inl (EditInvalidHeader ''unexpected header length'') else
      attempt (read_edit_u16 bytes 8) (\<lambda>schema.
      if schema \<noteq> MATERIAL_SCHEMA_VERSION then Inl (EditInvalidHeader ''material schema mismatch'') else
      attempt (read_edit_u16 bytes 10) (\<lambda>reserved.
      if reserved \<noteq> 0 then Inl (EditInvalidHeader ''reserved field is nonzero'')
      else decode_edit_body blake3 coord bytes em)))))"

definition edited_chunks :: "edit_map \<Rightarrow> chunk_coord list" where
  "edited_chunks em = map (\<lambda>(x, z, y). chunk_at x y z) (btree_keys (em_chunks em))"

subsection \<open>Entries\<close>

lemma length_encode_entry [simp]: "length (encode_entry e) = 4"
  by (cases e) (simp add: encode_entry_def)

lemma length_concat_entries [simp]: "length (concat (map encode_entry es)) = 4 * length es"
  by (induction es) simp_all

lemma u16_le_two: "\<exists>a b. u16_le n = [a, b]"
  by (simp add: u16_le_def numeral_2_eq_2)

lemma decode_entries_encode:
  "btree_wf (done @ es) \<Longrightarrow> \<forall>(i, _) \<in> set es. i < CHUNK_VOLUME \<Longrightarrow>
   previous = (if done = [] then None else Some (fst (last done))) \<Longrightarrow>
   decode_entries (concat (map encode_entry es)) previous done = Inr (done @ es)"
proof (induction es arbitrary: "done" previous)
  case (Cons e es)
  obtain i m where e: "e = (i, m)" by fastforce
  have i: "i < CHUNK_VOLUME" using Cons.prems(2) by (simp add: e)
  obtain b0 b1 where ib: "u16_le i = [b0, b1]"
    using u16_le_two by blast
  obtain b2 b3 where mb: "u16_le (material_id m) = [b2, b3]"
    using u16_le_two by blast
  have v: "from_le [b0, b1] = i" "from_le [b2, b3] = material_id m"
    using u16_roundtrip [of i] u16_roundtrip [of "material_id m"] i ib mb by (simp_all del: from_le.simps)
  have "\<not> (case previous of Some p \<Rightarrow> p \<ge> i | None \<Rightarrow> False)"
    using Cons.prems(1,3) by (cases "done" rule: rev_cases) (auto simp: btree_wf_def e sorted_wrt_append)
  moreover have "decode_entries (concat (map encode_entry es)) (Some i) (done @ [(i, m)])
      = Inr ((done @ [(i, m)]) @ es)"
    using Cons.prems by (intro Cons.IH) (auto simp: e)
  ultimately show ?case
    using i unfolding e encode_entry_def prod.case list.map concat.simps ib mb append.simps
      decode_entries.simps v Let_def by (simp del: CHUNK_VOLUME_simp)
qed simp

lemma decode_entries_cases:
  obtains b0 b1 b2 b3 rest where "bytes = b0 # b1 # b2 # b3 # rest" | "length bytes < 4"
proof (cases "length bytes < 4")
  case False
  then have "bytes = hd bytes # hd (tl bytes) # hd (tl (tl bytes)) # hd (tl (tl (tl bytes))) # tl (tl (tl (tl bytes)))"
    by (cases bytes; cases "tl bytes"; cases "tl (tl bytes)"; cases "tl (tl (tl bytes))") auto
  then show ?thesis using that(1) by blast
qed (rule that)

lemma four_bytes:
  "length bytes = 4 * Suc n \<Longrightarrow> \<exists>b0 b1 b2 b3 rest. bytes = b0 # b1 # b2 # b3 # rest \<and> length rest = 4 * n"
  by (cases bytes rule: decode_entries_cases) auto

lemma decode_entries_inv:
  "decode_entries bytes previous done = Inr es \<Longrightarrow> length bytes = 4 * n \<Longrightarrow> btree_wf done \<Longrightarrow>
   previous = (if done = [] then None else Some (fst (last done))) \<Longrightarrow>
   \<exists>r. es = done @ r \<and> length r = n \<and> btree_wf es \<and> (\<forall>(i, _) \<in> set r. i < CHUNK_VOLUME) \<and>
     bytes = concat (map encode_entry r)"
proof (induction n arbitrary: bytes previous "done")
  case (Suc n)
  then obtain b0 b1 b2 b3 rest where b: "bytes = b0 # b1 # b2 # b3 # rest" and n: "length rest = 4 * n"
    using four_bytes [of bytes n] by blast
  define i where "i = from_le [b0, b1]"
  from Suc.prems(1) obtain m where m: "from_le [b2, b3] = material_id m"
    and i: "i < CHUNK_VOLUME" and gt: "\<not> (case previous of Some p \<Rightarrow> p \<ge> i | None \<Rightarrow> False)"
    and rest: "decode_entries rest (Some i) (done @ [(i, m)]) = Inr es"
    unfolding b decode_entries.simps i_def [symmetric] Let_def
    by (auto simp: material_from_id_Some split: if_splits simp del: from_le.simps CHUNK_VOLUME_simp)
  have wf: "btree_wf (done @ [(i, m)])"
    unfolding btree_wf_append
    using Suc.prems(3,4) gt by (cases "done" rule: rev_cases) (fastforce simp: btree_wf_append)+
  from Suc.IH [OF rest n wf] obtain r where r: "es = (done @ [(i, m)]) @ r" "length r = n" "btree_wf es"
    "\<forall>(i, _) \<in> set r. i < CHUNK_VOLUME" "rest = concat (map encode_entry r)" by auto
  have e: "encode_entry (i, m) = [b0, b1, b2, b3]"
    using to_from_le [of "[b0, b1]" 2] to_from_le [of "[b2, b3]" 2] m
    by (simp add: encode_entry_def u16_le_def i_def del: from_le.simps to_le.simps)
  have "bytes = concat (map encode_entry ((i, m) # r))" using e r(5) by (simp add: b del: from_le.simps)
  moreover have "es = done @ ((i, m) # r)" "length ((i, m) # r) = Suc n"
    "\<forall>(i, _) \<in> set ((i, m) # r). i < CHUNK_VOLUME" using r(1,2,4) i by simp_all
  ultimately show ?case using r(3) by blast
qed simp

subsection \<open>The record\<close>

definition edit_frame :: "nat \<Rightarrow> chunk_coord \<Rightarrow> u8 list \<Rightarrow> u8 list \<Rightarrow> u8 list" where
  "edit_frame entry_count coord hash entries =
     EDIT_CHUNK_MAGIC @ u16_le EDIT_CHUNK_VERSION @ u16_le EDIT_CHUNK_HEADER_BYTES @
     u16_le MATERIAL_SCHEMA_VERSION @ u16_le 0 @ u32_le entry_count @
     i32_le (cx coord) @ i32_le (cy coord) @ i32_le (cz coord) @ hash @ entries"

lemma encode_chunk_overrides_frame:
  "encode_chunk_overrides blake3 coord em = Some b \<longleftrightarrow>
     (\<exists>chunk. btree_get (em_chunks em) (chunk_key coord) = Some chunk \<and> length chunk \<le> u32_max \<and>
        b = edit_frame (length chunk) coord
              (edit_chunk_hash blake3 coord (concat (map encode_entry chunk))) (concat (map encode_entry chunk)))"
  by (cases "btree_get (em_chunks em) (chunk_key coord)")
    (auto simp: encode_chunk_overrides_def edit_frame_def Let_def)

lemma length_EDIT_MAGIC [simp]: "length EDIT_CHUNK_MAGIC = 4"
  by (simp add: EDIT_CHUNK_MAGIC_def ascii_def)

lemma edit_frame_reads:
  assumes "length hash = 32" "b = edit_frame entry_count coord hash entries"
  shows "take 4 b = EDIT_CHUNK_MAGIC" and "slice b 4 6 = Some (u16_le EDIT_CHUNK_VERSION)"
    and "slice b 6 8 = Some (u16_le EDIT_CHUNK_HEADER_BYTES)"
    and "slice b 8 10 = Some (u16_le MATERIAL_SCHEMA_VERSION)" and "slice b 10 12 = Some (u16_le 0)"
    and "slice b 12 16 = Some (u32_le entry_count)" and "slice b 16 20 = Some (i32_le (cx coord))"
    and "slice b 20 24 = Some (i32_le (cy coord))" and "slice b 24 28 = Some (i32_le (cz coord))"
    and "take 32 (drop 28 b) = hash" and "drop 60 b = entries" and "length b = 60 + length entries"
  unfolding assms(2) edit_frame_def
  by (simp_all add: slice_append_skip slice_append_hit assms(1) nth_append)

lemma edit_frame_fields:
  assumes len: "60 \<le> length b" and "take 4 b = EDIT_CHUNK_MAGIC"
    and "take 2 (drop 4 b) = u16_le EDIT_CHUNK_VERSION"
    and "take 2 (drop 6 b) = u16_le EDIT_CHUNK_HEADER_BYTES"
    and "take 2 (drop 8 b) = u16_le MATERIAL_SCHEMA_VERSION" and "take 2 (drop 10 b) = u16_le 0"
    and "take 4 (drop 12 b) = u32_le n" and "take 4 (drop 16 b) = i32_le (cx c)"
    and "take 4 (drop 20 b) = i32_le (cy c)" and "take 4 (drop 24 b) = i32_le (cz c)"
    and "take 32 (drop 28 b) = hash" and "drop 60 b = entries"
  shows "b = edit_frame n c hash entries"
proof -
  have "b = take 4 b @ drop 4 b" by simp
  also have "drop 4 b = take 2 (drop 4 b) @ take 2 (drop 6 b) @ take 2 (drop 8 b) @ take 2 (drop 10 b) @ drop 12 b"
    using drop_split [of 4 b 2] drop_split [of 6 b 2] drop_split [of 8 b 2] drop_split [of 10 b 2] by simp
  also have "drop 12 b = take 4 (drop 12 b) @ take 4 (drop 16 b) @ take 4 (drop 20 b) @ take 4 (drop 24 b) @ drop 28 b"
    using drop_split [of 12 b 4] drop_split [of 16 b 4] drop_split [of 20 b 4] drop_split [of 24 b 4] by simp
  also have "drop 28 b = take 32 (drop 28 b) @ drop 60 b"
    using drop_split [of 28 b 32] by simp
  finally show ?thesis unfolding assms(2-) edit_frame_def by simp
qed

lemma read_edit_Inr:
  "read_edit_u16 b k = Inr v \<longleftrightarrow> k + 2 \<le> length b \<and> v = from_le (take 2 (drop k b))"
  "read_edit_u32 b k = Inr v \<longleftrightarrow> k + 4 \<le> length b \<and> v = from_le (take 4 (drop k b))"
  "read_edit_i32 b k = Inr x \<longleftrightarrow> k + 4 \<le> length b \<and> x = i32_from_le (take 4 (drop k b))"
  by (auto simp: read_edit_u16_def read_edit_u32_def read_edit_i32_def slice_def)

lemma ec_wf_length: "ec_wf chunk \<Longrightarrow> length chunk \<le> CHUNK_VOLUME"
proof -
  assume wf: "ec_wf chunk"
  then have "distinct (map fst chunk)" by (simp add: ec_wf_def btree_wf_distinct)
  then have "card (fst ` set chunk) = length chunk" by (metis distinct_card length_map list.set_map)
  moreover have "fst ` set chunk \<subseteq> {..<CHUNK_VOLUME}" using wf by (auto simp: ec_wf_def)
  then have "card (fst ` set chunk) \<le> CHUNK_VOLUME" by (metis card_lessThan card_mono finite_lessThan)
  ultimately show ?thesis by simp
qed

lemma edit_hash_length: "digests_ok blake3 \<Longrightarrow> length (edit_chunk_hash blake3 c e) = 32"
  by (simp add: digests_ok_def hash_ok_def edit_chunk_hash_def)

definition hydrated :: "chunk_coord \<Rightarrow> edited_chunk \<Rightarrow> edit_map \<Rightarrow> edit_map" where
  "hydrated coord chunk em =
     em\<lparr>em_count := em_count em + length chunk,
        em_chunks := btree_insert (chunk_key coord) chunk (em_chunks em)\<rparr>"

lemma decode_edit_frame:
  assumes "digests_ok blake3" and chunk: "ec_wf chunk" "chunk \<noteq> []" and rep: "is_world_representable coord"
    and absent: "btree_get (em_chunks em) (chunk_key coord) = None"
    and b: "b = edit_frame (length chunk) coord
      (edit_chunk_hash blake3 coord (concat (map encode_entry chunk))) (concat (map encode_entry chunk))"
  shows "decode_chunk_overrides blake3 coord b em = Inr (hydrated coord chunk em)"
proof -
  note r = edit_frame_reads [OF edit_hash_length [OF assms(1)] b]
  have len: "length b = 60 + length chunk * 4" using r(12) by simp
  have n: "length chunk \<le> 32768" "0 < length chunk" using ec_wf_length [OF chunk(1)] chunk(2) by simp_all
  have ok: "i32_ok (cx coord)" "i32_ok (cy coord)" "i32_ok (cz coord)"
    using chunk_ok_representable [OF rep] by (auto simp: chunk_ok_def)
  have d: "decode_entries (concat (map encode_entry chunk)) None [] = Inr chunk"
    using decode_entries_encode [of "[]" chunk None] chunk(1) by (simp add: ec_wf_def)
  have "decode_edit_body blake3 coord b em = Inr (hydrated coord chunk em)"
    unfolding decode_edit_body_def EDIT_CHUNK_HEADER_BYTES_def EDIT_CHUNK_ENTRY_BYTES_def r(10) r(11)
    using n rep absent ok
    by (simp add: read_edit_u32_def read_edit_i32_def r u32_roundtrip i32_roundtrip len d
        btree_contains_def hydrated_def del: chunk_coord.simps)
  then show ?thesis
    using n len
    by (simp add: decode_chunk_overrides_def read_edit_u16_def r u16_roundtrip
        EDIT_CHUNK_VERSION_def EDIT_CHUNK_HEADER_BYTES_def MATERIAL_SCHEMA_VERSION_def)
qed

lemma hydrated_wf:
  assumes "em_wf em" "ec_wf chunk" "chunk \<noteq> []" "is_world_representable coord"
    and "btree_get (em_chunks em) (chunk_key coord) = None"
  shows "em_wf (hydrated coord chunk em)"
    and "em_lookup (hydrated coord chunk em) key l =
      (if key = chunk_key coord then btree_get chunk l else em_lookup em key l)"
proof -
  have bw: "btree_wf (em_chunks em)" and n: "em_count em = btree_sum length (em_chunks em)"
    using assms(1) by (auto simp: em_wf_def)
  show "em_wf (hydrated coord chunk em)"
    using btree_sum_insert [OF bw, of length "chunk_key coord" chunk] assms(2-) bw n em_wf_get [OF assms(1)]
    unfolding em_wf_def hydrated_def by (auto split: if_splits)
  show "em_lookup (hydrated coord chunk em) key l =
      (if key = chunk_key coord then btree_get chunk l else em_lookup em key l)"
    by (simp add: em_lookup_def hydrated_def btree_get_or_def)
qed

lemma decode_overrides_inv:
  assumes "decode_chunk_overrides blake3 coord b em = Inr em'"
  obtains chunk where "em' = hydrated coord chunk em" "ec_wf chunk" "chunk \<noteq> []"
    "is_world_representable coord" "btree_get (em_chunks em) (chunk_key coord) = None"
    "b = edit_frame (length chunk) coord
      (edit_chunk_hash blake3 coord (concat (map encode_entry chunk))) (concat (map encode_entry chunk))"
proof -
  have h: "take 4 b = EDIT_CHUNK_MAGIC" "from_le (take 2 (drop 4 b)) = EDIT_CHUNK_VERSION" "60 \<le> length b"
    "from_le (take 2 (drop 6 b)) = EDIT_CHUNK_HEADER_BYTES"
    "from_le (take 2 (drop 8 b)) = MATERIAL_SCHEMA_VERSION" "from_le (take 2 (drop 10 b)) = 0"
    and body: "decode_edit_body blake3 coord b em = Inr em'"
    using assms unfolding decode_chunk_overrides_def
    by (auto simp: read_edit_Inr EDIT_CHUNK_HEADER_BYTES_def split: if_split_asm)
  from body obtain entry_count x y z chunk where
    f: "read_edit_u32 b 12 = Inr entry_count" "read_edit_i32 b 16 = Inr x" "read_edit_i32 b 20 = Inr y" "read_edit_i32 b 24 = Inr z"
    and n: "0 < entry_count" "entry_count \<le> CHUNK_VOLUME" and coord: "chunk_at x y z = coord"
    and rep: "is_world_representable coord" and len: "length b = 60 + 4 * entry_count"
    and hash: "edit_chunk_hash blake3 coord (drop 60 b) = take 32 (drop 28 b)"
    and absent: "btree_get (em_chunks em) (chunk_key coord) = None"
    and dec: "decode_entries (drop 60 b) None [] = Inr chunk" and em': "em' = hydrated coord chunk em"
    unfolding decode_edit_body_def Let_def EDIT_CHUNK_HEADER_BYTES_def EDIT_CHUNK_ENTRY_BYTES_def
    by (auto simp: hydrated_def btree_contains_def split: if_split_asm)
  have "length (drop 60 b) = 4 * entry_count" using len by simp
  from decode_entries_inv [OF dec this] have chunk: "length chunk = entry_count" "ec_wf chunk"
    "drop 60 b = concat (map encode_entry chunk)" by (auto simp: ec_wf_def)
  have c: "cx coord = x" "cy coord = y" "cz coord = z" using coord by auto
  have "take 2 (drop 4 b) = u16_le EDIT_CHUNK_VERSION" "take 2 (drop 6 b) = u16_le EDIT_CHUNK_HEADER_BYTES"
    "take 2 (drop 8 b) = u16_le MATERIAL_SCHEMA_VERSION" "take 2 (drop 10 b) = u16_le 0"
    "take 4 (drop 12 b) = u32_le entry_count" "take 4 (drop 16 b) = i32_le (cx coord)"
    "take 4 (drop 20 b) = i32_le (cy coord)" "take 4 (drop 24 b) = i32_le (cz coord)"
    using h f by (auto simp: read_edit_Inr c intro!: from_le_u16 from_le_u32 from_le_i32)
  from edit_frame_fields [OF h(3,1) this hash [symmetric] chunk(3)]
  have "b = edit_frame (length chunk) coord
      (edit_chunk_hash blake3 coord (concat (map encode_entry chunk))) (concat (map encode_entry chunk))"
    by (simp only: chunk(1,3))
  moreover have "chunk \<noteq> []" using chunk(1) n by auto
  ultimately show thesis using that em' chunk(2) rep absent by blast
qed

lemma encode_overrides_hydrate:
  assumes "digests_ok blake3" "em_wf em" "em_wf dst"
    and enc: "encode_chunk_overrides blake3 coord em = Some b"
    and absent: "btree_get (em_chunks dst) (chunk_key coord) = None"
  shows "\<exists>chunk. btree_get (em_chunks em) (chunk_key coord) = Some chunk \<and>
    decode_chunk_overrides blake3 coord b dst = Inr (hydrated coord chunk dst) \<and>
    em_wf (hydrated coord chunk dst)"
proof -
  obtain chunk where chunk: "btree_get (em_chunks em) (chunk_key coord) = Some chunk"
    and b: "b = edit_frame (length chunk) coord
      (edit_chunk_hash blake3 coord (concat (map encode_entry chunk))) (concat (map encode_entry chunk))"
    using enc by (auto simp: encode_chunk_overrides_frame)
  from em_wf_get [OF assms(2) chunk] have ok: "ec_wf chunk" "chunk \<noteq> []" "is_world_representable coord"
    by simp_all
  show ?thesis
    using chunk decode_edit_frame [OF assms(1) ok absent b] hydrated_wf(1) [OF assms(3) ok absent] by blast
qed

lemma hydrated_at:
  assumes "em_wf em" "em_wf dst" "em_wf (hydrated coord chunk dst)"
    and "btree_get (em_chunks em) (chunk_key coord) = Some chunk"
  shows "override_at (hydrated coord chunk dst) v =
    (if voxel_chunk v = coord then override_at em v else override_at dst v)"
  using assms(4)
  unfolding override_lookup [OF assms(1)] override_lookup [OF assms(2)] override_lookup [OF assms(3)]
  by (simp add: em_lookup_def hydrated_def address_def btree_get_or_def)

text \<open>
  C5: a durable record restores its chunk. The record \<open>encode_chunk_overrides\<close> writes for an
  edited chunk of a well-formed journal is accepted by \<open>decode_chunk_overrides\<close> on any well-formed
  journal that does not hold the chunk yet; the result is well formed, has exactly the encoded
  overrides in that chunk and is unchanged elsewhere.
\<close>

theorem decode_encode_overrides:
  assumes "digests_ok blake3" "em_wf em" "em_wf dst"
    and "encode_chunk_overrides blake3 coord em = Some b"
    and "btree_get (em_chunks dst) (chunk_key coord) = None"
  shows "\<exists>dst'. decode_chunk_overrides blake3 coord b dst = Inr dst' \<and> em_wf dst' \<and>
    (\<forall>v. override_at dst' v = (if voxel_chunk v = coord then override_at em v else override_at dst v))"
  using encode_overrides_hydrate [OF assms] hydrated_at [OF assms(2,3)] by blast

definition sample_journal :: edit_map where
  "sample_journal = \<lparr>em_chunks = [((0, 0, 0), [(5, Stone), (7, Water)]), ((1, 0, -2), [(0, Air)])], em_count = 3\<rparr>"

lemma sample_journal_wf: "em_wf sample_journal"
  by (auto simp: em_wf_def sample_journal_def btree_wf_def ec_wf_def is_world_representable_def
      chunk_of_key_def less_prod_def split: if_splits)

theorem decode_encode_overrides_witness:
  "\<exists>b dst'. encode_chunk_overrides (\<lambda>_. zero_hash) (chunk_at 0 0 0) sample_journal = Some b \<and>
     decode_chunk_overrides (\<lambda>_. zero_hash) (chunk_at 0 0 0) b em_empty = Inr dst' \<and>
     override_at dst' (voxel_at 0 5 0) = override_at sample_journal (voxel_at 0 5 0)"
proof -
  obtain b where b: "encode_chunk_overrides (\<lambda>_. zero_hash) (chunk_at 0 0 0) sample_journal = Some b"
    by (simp add: encode_chunk_overrides_def sample_journal_def chunk_key_def Let_def)
  show ?thesis
    using b decode_encode_overrides [OF sample_ok(1) sample_journal_wf em_wf_empty b]
    by (force simp: em_empty_def voxel_chunk_def)
qed

text \<open>
  C7: accepted records are canonical. A record \<open>decode_chunk_overrides\<close> accepts is byte for byte
  the record of the chunk it installs, the chunk was absent before, and the journal stays well
  formed.
\<close>

theorem decode_overrides_canonical:
  assumes "em_wf em" "decode_chunk_overrides blake3 coord b em = Inr em'"
  shows "encode_chunk_overrides blake3 coord em' = Some b \<and> em_wf em' \<and>
    btree_get (em_chunks em) (chunk_key coord) = None"
proof -
  obtain chunk where c: "em' = hydrated coord chunk em" "ec_wf chunk" "chunk \<noteq> []"
    "is_world_representable coord" "btree_get (em_chunks em) (chunk_key coord) = None"
    "b = edit_frame (length chunk) coord
      (edit_chunk_hash blake3 coord (concat (map encode_entry chunk))) (concat (map encode_entry chunk))"
    by (rule decode_overrides_inv [OF assms(2)])
  have "length chunk \<le> u32_max" using ec_wf_length [OF c(2)] by simp
  then show ?thesis
    using c hydrated_wf(1) [OF assms(1) c(2-5)]
    unfolding encode_chunk_overrides_frame by (auto simp: hydrated_def)
qed

theorem decode_overrides_canonical_witness:
  "\<exists>b em'. decode_chunk_overrides (\<lambda>_. zero_hash) (chunk_at 0 0 0) b em_empty = Inr em' \<and>
     encode_chunk_overrides (\<lambda>_. zero_hash) (chunk_at 0 0 0) em' = Some b"
proof -
  obtain b where b: "encode_chunk_overrides (\<lambda>_. zero_hash) (chunk_at 0 0 0) sample_journal = Some b"
    by (simp add: encode_chunk_overrides_def sample_journal_def chunk_key_def Let_def)
  have "btree_get (em_chunks em_empty) (chunk_key (chunk_at 0 0 0)) = None" by (simp add: em_empty_def)
  from encode_overrides_hydrate [OF sample_ok(1) sample_journal_wf em_wf_empty b this]
  obtain em' where "decode_chunk_overrides (\<lambda>_. zero_hash) (chunk_at 0 0 0) b em_empty = Inr em'" by blast
  with decode_overrides_canonical [OF em_wf_empty this] show ?thesis by blast
qed

subsection \<open>Rebuilding a journal\<close>

text \<open>Hydration of a journal from the records of its edited chunks, one after the other.\<close>

fun hydrate_journal ::
  "(u8 list \<Rightarrow> u8 list) \<Rightarrow> (chunk_coord \<times> u8 list) list \<Rightarrow> edit_map \<Rightarrow> edit_codec_error + edit_map" where
  "hydrate_journal blake3 [] em = Inr em"
| "hydrate_journal blake3 ((coord, record) # rs) em =
     attempt (decode_chunk_overrides blake3 coord record em) (hydrate_journal blake3 rs)"

definition journal_records :: "(u8 list \<Rightarrow> u8 list) \<Rightarrow> edit_map \<Rightarrow> (chunk_coord \<times> u8 list) list" where
  "journal_records blake3 em =
     map (\<lambda>coord. (coord, the (encode_chunk_overrides blake3 coord em))) (edited_chunks em)"

lemma hydrate_chunks:
  assumes "digests_ok blake3" "em_wf em"
  shows "btree_wf rest \<Longrightarrow> set rest \<subseteq> set (em_chunks em) \<Longrightarrow> em_wf dst \<Longrightarrow>
    \<forall>key \<in> fst ` set rest. btree_get (em_chunks dst) key = None \<Longrightarrow>
    hydrate_journal blake3 (map (\<lambda>(key, _). (chunk_of_key key,
        the (encode_chunk_overrides blake3 (chunk_of_key key) em))) rest) dst
      = Inr (fold (\<lambda>(key, chunk). hydrated (chunk_of_key key) chunk) rest dst)"
proof (induction rest arbitrary: dst)
  case (Cons p rest)
  obtain key chunk where p: "p = (key, chunk)" by fastforce
  have get: "btree_get (em_chunks em) (chunk_key (chunk_of_key key)) = Some chunk"
    using Cons.prems(2) assms(2) by (simp add: p em_wf_def btree_get_iff)
  have "length chunk \<le> u32_max" using em_wf_get [OF assms(2) get] ec_wf_length [of chunk] by simp
  with get obtain b where b: "encode_chunk_overrides blake3 (chunk_of_key key) em = Some b"
    by (metis encode_chunk_overrides_frame)
  have absent: "btree_get (em_chunks dst) (chunk_key (chunk_of_key key)) = None"
    using Cons.prems(4) by (simp add: p)
  from encode_overrides_hydrate [OF assms Cons.prems(3) b absent] get
  have d: "decode_chunk_overrides blake3 (chunk_of_key key) b dst = Inr (hydrated (chunk_of_key key) chunk dst)"
    and wf: "em_wf (hydrated (chunk_of_key key) chunk dst)" by auto
  have "\<forall>k \<in> fst ` set rest. btree_get (em_chunks (hydrated (chunk_of_key key) chunk dst)) k = None"
    using Cons.prems(1,4) by (auto simp: p hydrated_def btree_wf_Cons)
  with Cons wf show ?case by (simp add: p b d btree_wf_Cons)
qed simp

lemma fold_hydrated:
  "fold (\<lambda>(key, chunk). hydrated (chunk_of_key key) chunk) rest dst =
     dst\<lparr>em_count := em_count dst + btree_sum length rest,
        em_chunks := fold (\<lambda>(key, chunk). btree_insert key chunk) rest (em_chunks dst)\<rparr>"
  by (induction rest arbitrary: dst) (auto simp: hydrated_def)

lemma btree_collect_id: "btree_wf m \<Longrightarrow> btree_collect m = m"
proof (rule btree_ext)
  assume wf: "btree_wf m"
  then have "map_of (rev m) = map_of m"
    by (subst map_of_inject_set) (simp_all add: btree_wf_distinct flip: rev_map)
  then show "btree_get (btree_collect m) k = btree_get m k" for k
    by (simp only: btree_collect_get) (simp add: btree_get_map_of)
qed simp_all

text \<open>
  A journal is rebuilt from its records. Encoding every edited chunk of a well-formed journal
  and hydrating the records in order into an empty journal succeeds and gives back the same journal.
\<close>

theorem hydrate_journal_records:
  assumes "digests_ok blake3" "em_wf em"
  shows "hydrate_journal blake3 (journal_records blake3 em) em_empty = Inr em"
proof -
  have r: "journal_records blake3 em = map (\<lambda>(key, _). (chunk_of_key key,
      the (encode_chunk_overrides blake3 (chunk_of_key key) em))) (em_chunks em)"
    by (simp add: journal_records_def edited_chunks_def btree_keys_def chunk_of_key_def case_prod_unfold)
  have wf: "btree_wf (em_chunks em)" "em_count em = btree_sum length (em_chunks em)"
    using assms(2) by (auto simp: em_wf_def)
  have "fold (\<lambda>(key, chunk). btree_insert key chunk) (em_chunks em) [] = em_chunks em"
    using btree_collect_id [OF wf(1)] by (simp add: btree_collect_def)
  then have "fold (\<lambda>(key, chunk). hydrated (chunk_of_key key) chunk) (em_chunks em) em_empty = em"
    by (simp add: fold_hydrated em_empty_def wf(2) [symmetric])
  with hydrate_chunks [OF assms wf(1) subset_refl em_wf_empty] show ?thesis
    unfolding r by (simp add: em_empty_def)
qed

theorem hydrate_journal_records_witness:
  "hydrate_journal (\<lambda>_. zero_hash) (journal_records (\<lambda>_. zero_hash) sample_journal) em_empty
     = Inr sample_journal"
  by (rule hydrate_journal_records [OF sample_ok(1) sample_journal_wf])

subsection \<open>Reachable journals\<close>

inductive edit_step :: "(u8 list \<Rightarrow> u8 list) \<Rightarrow> edit_map \<Rightarrow> edit_map \<Rightarrow> bool" for blake3 where
  step_replace: "voxel_ok c \<Longrightarrow> edit_step blake3 em (replace_override c x em)"
| step_batch: "distinct (map fst changes) \<Longrightarrow> \<forall>(v, _) \<in> set changes. voxel_ok v \<Longrightarrow>
    edit_step blake3 em (replace_durable_overrides changes em)"
| step_hydrate: "decode_chunk_overrides blake3 coord b em = Inr em' \<Longrightarrow> edit_step blake3 em em'"

inductive_cases edit_stepE: "edit_step blake3 em em'"

lemma edit_step_wf: "em_wf em \<Longrightarrow> edit_step blake3 em em' \<Longrightarrow> em_wf em'"
proof (erule edit_stepE)
  fix coord b assume wf: "em_wf em" and d: "decode_chunk_overrides blake3 coord b em = Inr em'"
  obtain chunk where "em' = hydrated coord chunk em" "ec_wf chunk" "chunk \<noteq> []"
    "is_world_representable coord" "btree_get (em_chunks em) (chunk_key coord) = None"
    by (rule decode_overrides_inv [OF d])
  then show "em_wf em'" using hydrated_wf(1) [OF wf] by blast
qed (auto intro: replace_override_wf replace_durable_overrides_spec(1))

interpretation journal: transition_invariant "\<lambda>em. em = em_empty" "edit_step blake3" em_wf for blake3
  by unfold_locales (auto intro: edit_step_wf)

lemma btree_sum_card:
  assumes "btree_wf m" "\<forall>(_, chunk) \<in> set m. btree_wf chunk"
  shows "btree_sum length m = card {(k, l). btree_get (btree_get_or [] m k) l \<noteq> None}
    \<and> finite {(k, l). btree_get (btree_get_or [] m k) l \<noteq> None}"
  using assms
proof (induction m)
  case Nil
  then show ?case by (simp add: btree_get_or_def)
next
  case (Cons p m)
  obtain k c where p: "p = (k, c)" by fastforce
  let ?S = "\<lambda>m. {(k, l). btree_get (btree_get_or [] m k) l \<noteq> None}"
  have wf: "btree_wf m" and c: "distinct (map fst c)" and absent: "btree_get m k = None"
    using Cons.prems by (auto simp: p btree_wf_Cons btree_wf_distinct btree_get_None)
  have or: "btree_get_or [] (p # m) k' = (if k' = k then c else btree_get_or [] m k')" for k'
    by (simp add: p btree_get_or_def)
  have c_dom: "{l. btree_get c l \<noteq> None} = fst ` set c" by (auto simp: btree_get_None)
  have m_dom: "btree_get_or [] m k = []" using absent by simp
  have S: "?S (p # m) = Pair k ` (fst ` set c) \<union> ?S m"
    unfolding or c_dom [symmetric] using m_dom by (auto split: if_splits)
  have "card (Pair k ` (fst ` set c)) = length c"
  proof -
    have "card (Pair k ` (fst ` set c)) = card (fst ` set c)" by (rule card_image) (simp add: inj_on_def)
    also have "\<dots> = length c" using distinct_card [OF c] by simp
    finally show ?thesis .
  qed
  moreover have "Pair k ` (fst ` set c) \<inter> ?S m = {}" using absent by (auto simp: btree_get_or_def)
  ultimately show ?case
    using Cons.IH [OF wf] Cons.prems(2) unfolding S by (auto simp: p card_Un_disjoint)
qed

lemma em_count_card:
  assumes "em_wf em"
  shows "em_len em = card {v. override_at em v \<noteq> None}"
proof -
  let ?S = "{(k, l). em_lookup em k l \<noteq> None}"
  have "\<forall>(_, chunk) \<in> set (em_chunks em). btree_wf chunk"
    using em_wf_get [OF assms] assms by (fastforce simp: em_wf_def ec_wf_def btree_get_iff)
  then have "em_len em = card ?S"
    using btree_sum_card [of "em_chunks em"] assms by (simp add: em_len_def em_wf_def em_lookup_def)
  also have "?S = address ` {v. override_at em v \<noteq> None}"
  proof
    show "?S \<subseteq> address ` {v. override_at em v \<noteq> None}"
    proof clarify
      fix x z y l m assume l: "em_lookup em (x, z, y) l = Some m"
      then obtain chunk where chunk: "btree_get (em_chunks em) (x, z, y) = Some chunk" "btree_get chunk l = Some m"
        by (auto simp: em_lookup_def btree_get_or_def split: option.splits)
      from em_wf_get [OF assms chunk(1)] chunk(2) have small: "l < CHUNK_VOLUME"
        and "is_world_representable (chunk_of_key (x, z, y))" by (auto simp: ec_wf_get)
      then obtain org where org: "world_origin (chunk_of_key (x, z, y)) = Some org"
        by (auto simp: world_origin_def)
      let ?v = "voxel_of_local org (local_coord l)"
      note j = voxel_join [OF org local_coord_ok [OF small]]
      then have a: "address ?v = ((x, z, y), l)" by (simp add: address_def local_index_coord)
      with l have "override_at em ?v \<noteq> None" by (simp add: override_lookup [OF assms])
      with a show "((x, z, y), l) \<in> address ` {v. override_at em v \<noteq> None}" by (metis (mono_tags) image_eqI mem_Collect_eq)
    qed
    show "address ` {v. override_at em v \<noteq> None} \<subseteq> ?S"
      by (clarsimp simp: override_lookup [OF assms]) (metis fst_conv snd_conv)
  qed
  also have "card (address ` {v. override_at em v \<noteq> None}) = card {v. override_at em v \<noteq> None}"
    by (rule card_image) (simp add: inj_on_def)
  finally show ?thesis .
qed

text \<open>
  C14: every reachable journal is sound. Whatever sequence of single updates, validated batches and
  accepted hydrations leads from the empty journal to \<open>em\<close>, \<open>em\<close> is well formed and
  \<open>len\<close> is exactly the number of voxels that carry an override.
\<close>

theorem reachable_journal:
  assumes "(edit_step blake3)\<^sup>*\<^sup>* em_empty em"
  shows "em_wf em \<and> em_len em = card {v. override_at em v \<noteq> None}"
  using journal.reachable_inv [OF refl assms] em_count_card by blast

theorem reachable_journal_witness:
  "em_len (replace_override (voxel_at 3 4 5) (Some Sand) em_empty)
     = card {v. override_at (replace_override (voxel_at 3 4 5) (Some Sand) em_empty) v \<noteq> None}"
proof -
  have "edit_step (\<lambda>_. zero_hash) em_empty (replace_override (voxel_at 3 4 5) (Some Sand) em_empty)"
    by (rule step_replace) (simp add: voxel_ok_def i32_ok_def)
  then have "(edit_step (\<lambda>_. zero_hash))\<^sup>*\<^sup>* em_empty (replace_override (voxel_at 3 4 5) (Some Sand) em_empty)"
    by (rule r_into_rtranclp)
  from reachable_journal [OF this] show ?thesis by blast
qed

end
