(* ===== verification/Edit_Queries.thy ===== *)
theory Edit_Queries
  imports Edit_Map
begin

text \<open>
  Read-only queries of the edit journal (world/src/edit.rs): the chunk set a voxel change affects,
  the bounded snapshots handed to generation workers and to edit planning, the application to a
  chunk and the visible surface of an edited column. Each is shown to compute its specification on
  the abstract map \<open>override_at\<close>; the range scans and their cost switches disappear.
\<close>

subsection \<open>Affected chunks\<close>

definition axis_offsets :: "int \<Rightarrow> int list" where
  "axis_offsets value =
     (if value = 0 then [0, -1] else if value = int CHUNK_EDGE - 1 then [0, 1] else [0, 0])"

definition push_neighbor :: "chunk_coord \<Rightarrow> int \<times> int \<times> int \<Rightarrow> chunk_coord list \<Rightarrow> chunk_coord list" where
  "push_neighbor base = (\<lambda>(dx, dy, dz) chunks.
     (case (i32_checked_add (cx base) dx, i32_checked_add (cy base) dy, i32_checked_add (cz base) dz) of
        (Some x, Some y, Some z) \<Rightarrow>
          (let neighbor = chunk_at x y z in
           if is_world_representable neighbor \<and> neighbor \<notin> set chunks then chunks @ [neighbor] else chunks)
      | _ \<Rightarrow> chunks))"

definition affected_chunks :: "voxel_coord \<Rightarrow> chunk_coord list" where
  "affected_chunks coord =
     (let edge = int CHUNK_EDGE; base = voxel_chunk coord in
      fold (push_neighbor base)
        [(x, y, z). x \<leftarrow> axis_offsets (vx coord mod edge), y \<leftarrow> axis_offsets (vy coord mod edge),
                    z \<leftarrow> axis_offsets (vz coord mod edge)] [])"

text \<open>The one-voxel shell around a chunk, as the mesher samples it.\<close>

definition in_shell :: "chunk_coord \<Rightarrow> voxel_coord \<Rightarrow> bool" where
  "in_shell c v \<longleftrightarrow>
     32 * cx c - 1 \<le> vx v \<and> vx v \<le> 32 * cx c + 32 \<and>
     32 * cy c - 1 \<le> vy v \<and> vy v \<le> 32 * cy c + 32 \<and>
     32 * cz c - 1 \<le> vz v \<and> vz v \<le> 32 * cz c + 32"

lemma push_neighbor_set:
  "chunk_ok (voxel_chunk v) \<Longrightarrow> set (push_neighbor base (dx, dy, dz) chunks) =
     set chunks \<union> {c. c = chunk_at (cx base + dx) (cy base + dy) (cz base + dz) \<and> is_world_representable c}"
proof -
  have "i32_ok (cx base + dx) \<and> i32_ok (cy base + dy) \<and> i32_ok (cz base + dz)"
    if "is_world_representable (chunk_at (cx base + dx) (cy base + dy) (cz base + dz))"
    using chunk_ok_representable [OF that] by (simp add: chunk_ok_def)
  then show ?thesis
    by (auto simp: push_neighbor_def Let_def i32_checked_add_def i32_try_def split: option.splits if_splits)
qed

lemma push_neighbor_distinct: "distinct chunks \<Longrightarrow> distinct (push_neighbor base d chunks)"
  by (cases d) (auto simp: push_neighbor_def Let_def split: option.splits)

lemma fold_push_neighbor:
  "chunk_ok (voxel_chunk v) \<Longrightarrow> set (fold (push_neighbor base) ds chunks) = set chunks \<union>
     {c. is_world_representable c \<and> (\<exists>(dx, dy, dz) \<in> set ds.
        c = chunk_at (cx base + dx) (cy base + dy) (cz base + dz))}"
proof (induction ds arbitrary: chunks)
  case (Cons d ds)
  obtain dx dy dz where d: "d = (dx, dy, dz)" by (metis prod_cases3)
  show ?case using push_neighbor_set [OF Cons.prems, of base dx dy dz chunks] Cons by (auto simp: d)
qed simp

lemma axis_offset_shell:
  "(\<exists>d \<in> set (axis_offsets (v mod 32)). c = v div 32 + d) \<longleftrightarrow> 32 * c - 1 \<le> v \<and> v \<le> 32 * c + 32"
proof -
  define q r where "q = v div 32" and "r = v mod 32"
  have v: "v = 32 * q + r" and r: "0 \<le> r" "r < 32" by (simp_all add: q_def r_def)
  have "32 * c - 1 \<le> v \<and> v \<le> 32 * c + 32 \<longleftrightarrow> c = q \<or> (c = q - 1 \<and> r = 0) \<or> (c = q + 1 \<and> r = 31)"
  proof
    assume "32 * c - 1 \<le> v \<and> v \<le> 32 * c + 32"
    then have b: "32 * c - 1 \<le> 32 * q + r" "32 * q + r \<le> 32 * c + 32" by (simp_all add: v)
    then have "c = q - 1 \<or> c = q \<or> c = q + 1" using r by linarith
    then show "c = q \<or> (c = q - 1 \<and> r = 0) \<or> (c = q + 1 \<and> r = 31)"
      using b r by auto
  qed (use v r in auto)
  then show ?thesis by (auto simp: axis_offsets_def simp flip: q_def r_def)
qed

lemma affected_distinct: "distinct (affected_chunks v)"
proof -
  have "distinct chunks \<Longrightarrow> distinct (fold (push_neighbor base) ds chunks)" for base ds chunks
    by (induction ds arbitrary: chunks) (auto intro: push_neighbor_distinct)
  then show ?thesis by (simp add: affected_chunks_def Let_def)
qed

lemma set_affected_chunks:
  assumes "voxel_ok v"
  shows "c \<in> set (affected_chunks v) \<longleftrightarrow> is_world_representable c \<and> in_shell c v"
proof -
  have ok: "chunk_ok (voxel_chunk v)"
    using voxel_chunk_representable [OF assms] by (rule chunk_ok_representable)
  let ?ds = "[(x, y, z). x \<leftarrow> axis_offsets (vx v mod 32), y \<leftarrow> axis_offsets (vy v mod 32),
    z \<leftarrow> axis_offsets (vz v mod 32)]"
  have "c \<in> set (affected_chunks v) \<longleftrightarrow> is_world_representable c \<and> (\<exists>(dx, dy, dz) \<in> set ?ds.
      c = chunk_at (vx v div 32 + dx) (vy v div 32 + dy) (vz v div 32 + dz))"
    using fold_push_neighbor [OF ok, of "voxel_chunk v" ?ds "[]"]
    by (simp add: affected_chunks_def Let_def voxel_chunk_def)
  also have "(\<exists>(dx, dy, dz) \<in> set ?ds.
      c = chunk_at (vx v div 32 + dx) (vy v div 32 + dy) (vz v div 32 + dz)) \<longleftrightarrow>
    (\<exists>d \<in> set (axis_offsets (vx v mod 32)). cx c = vx v div 32 + d) \<and>
    (\<exists>d \<in> set (axis_offsets (vy v mod 32)). cy c = vy v div 32 + d) \<and>
    (\<exists>d \<in> set (axis_offsets (vz v mod 32)). cz c = vz v div 32 + d)"
    by (cases c) force
  also have "\<dots> \<longleftrightarrow> in_shell c v" unfolding axis_offset_shell in_shell_def by simp
  finally show ?thesis .
qed

text \<open>
  C15: the invalidation set of an edit is exact. For every voxel of the grid, \<open>affected_chunks\<close>
  lists, without duplicates, exactly the representable chunks whose one-voxel meshing shell holds
  the voxel: corner and edge edits reach all touching chunks and no other chunk is remeshed.
\<close>

theorem affected_chunks_exact:
  assumes "voxel_ok v"
  shows "distinct (affected_chunks v) \<and>
    set (affected_chunks v) = {c. is_world_representable c \<and> in_shell c v}"
  using affected_distinct set_affected_chunks [OF assms] by blast

theorem affected_chunks_exact_witness:
  "set (affected_chunks (voxel_at 0 31 5)) = {c. is_world_representable c \<and> in_shell c (voxel_at 0 31 5)}"
  using affected_chunks_exact [of "voxel_at 0 31 5"] by (simp add: voxel_ok_def i32_ok_def)

subsection \<open>Entries of a chunk in world coordinates\<close>

text \<open>
  The loop every query shares: local indices turned into voxels of the chunk. \<open>None\<close> is the panic
  of \<open>world_origin\<close> on a coordinate outside the voxel grid.
\<close>

definition chunk_entries :: "chunk_coord \<Rightarrow> edited_chunk \<Rightarrow> (voxel_coord \<times> material) list option" where
  "chunk_entries coord overrides =
     map_option (\<lambda>origin. map (\<lambda>(index, m). (voxel_of_local origin (local_coord index), m)) overrides)
       (world_origin coord)"

definition chunk_overrides :: "edit_map \<Rightarrow> chunk_coord \<Rightarrow> (voxel_coord \<times> material) list option" where
  "chunk_overrides em coord =
     (case btree_get (em_chunks em) (chunk_key coord) of
        None \<Rightarrow> Some []
      | Some chunk \<Rightarrow> chunk_entries coord chunk)"

lemma chunk_entries_spec:
  assumes "em_wf em" "btree_get (em_chunks em) (chunk_key c) = Some chunk"
  obtains es where "chunk_entries c chunk = Some es" "distinct (map fst es)"
    "\<And>v m. (v, m) \<in> set es \<longleftrightarrow> voxel_chunk v = c \<and> override_at em v = Some m"
    "\<And>v m. (v, m) \<in> set es \<Longrightarrow> voxel_ok v"
proof -
  from em_wf_get [OF assms] have ec: "ec_wf chunk" and rep: "is_world_representable c" by simp_all
  then obtain org where org: "world_origin c = Some org" by (auto simp: world_origin_def)
  let ?v = "\<lambda>i. voxel_of_local org (local_coord i)"
  let ?es = "map (\<lambda>(i, m). (?v i, m)) chunk"
  have bw: "btree_wf chunk" and small: "\<And>i m. (i, m) \<in> set chunk \<Longrightarrow> i < CHUNK_VOLUME"
    using ec by (auto simp: ec_wf_def)
  have addr: "address (?v i) = (chunk_key c, i)" "voxel_ok (?v i)" if "i < CHUNK_VOLUME" for i
    using voxel_join [OF org local_coord_ok [OF that]] by (simp_all add: address_def local_index_coord)
  have "inj_on ?v (fst ` set chunk)"
  proof (rule inj_onI)
    fix i j assume "i \<in> fst ` set chunk" "j \<in> fst ` set chunk" and eq: "?v i = ?v j"
    then have "i < CHUNK_VOLUME" "j < CHUNK_VOLUME" using small by auto
    with eq addr(1) show "i = j" by (metis snd_conv)
  qed
  then have "distinct (map ?v (map fst chunk))"
    using btree_wf_distinct [OF bw] by (simp only: distinct_map [of ?v "map fst chunk"] list.set_map)
  then have d: "distinct (map fst ?es)" by (simp add: comp_def case_prod_unfold)
  have mem: "(v, m) \<in> set ?es \<longleftrightarrow> voxel_chunk v = c \<and> override_at em v = Some m" for v m
  proof
    assume "(v, m) \<in> set ?es"
    then obtain i where i: "(i, m) \<in> set chunk" "v = ?v i" by auto
    from addr(1) [OF small [OF i(1)]] have a: "address v = (chunk_key c, i)" using i by simp
    have "btree_get chunk i = Some m" using bw i(1) by (simp add: btree_get_iff)
    with a assms show "voxel_chunk v = c \<and> override_at em v = Some m"
      unfolding override_lookup [OF assms(1)] by (simp add: em_lookup_def) (simp add: address_def)
  next
    assume v: "voxel_chunk v = c \<and> override_at em v = Some m"
    then have g: "btree_get chunk (snd (address v)) = Some m"
      using assms unfolding override_lookup [OF assms(1)] by (auto simp: em_lookup_def address_def)
    then have i: "(snd (address v), m) \<in> set chunk" using bw by (simp add: btree_get_iff)
    have "address (?v (snd (address v))) = address v"
      using addr(1) [OF small [OF i]] v by (simp add: address_def)
    then have "?v (snd (address v)) = v" by simp
    with i show "(v, m) \<in> set ?es" by force
  qed
  have ok: "voxel_ok v" if "(v, m) \<in> set ?es" for v m
    using that addr(2) small by auto
  show thesis by (rule that [OF _ d mem ok]) (simp_all add: chunk_entries_def org)
qed

lemma override_none:
  "em_wf em \<Longrightarrow> btree_get (em_chunks em) (chunk_key c) = None \<Longrightarrow> voxel_chunk v = c \<Longrightarrow> override_at em v = None"
  by (auto simp: override_at_def)

text \<open>A set of changes read off a journal, gathered again into a journal of its own.\<close>

lemma snapshot_of_changes:
  assumes wf: "em_wf em" and d: "distinct (map fst changes)"
    and mem: "\<And>v x. (v, x) \<in> set changes \<longleftrightarrow> (\<exists>m. x = Some m \<and> override_at em v = Some m \<and> P v)"
    and ok: "\<And>v x. (v, x) \<in> set changes \<Longrightarrow> voxel_ok v"
  shows "em_wf (replace_durable_overrides changes em_empty)"
    and "override_at (replace_durable_overrides changes em_empty) v = (if P v then override_at em v else None)"
proof -
  have ok': "\<forall>(v, _) \<in> set changes. voxel_ok v" using ok by auto
  show "em_wf (replace_durable_overrides changes em_empty)"
    by (rule replace_durable_overrides_spec(1) [OF em_wf_empty d ok'])
  have "override_at em_empty v = None" by (simp add: override_at_def em_empty_def)
  moreover have "map_of changes v = (case if P v then override_at em v else None of
      None \<Rightarrow> None | Some m \<Rightarrow> Some (Some m))"
  proof (cases "P v \<and> override_at em v \<noteq> None")
    case True
    then obtain m where "override_at em v = Some m" "P v" by auto
    with mem [of v "Some m"] d show ?thesis by simp
  next
    case False
    then have "v \<notin> fst ` set changes" using mem by auto
    then have "map_of changes v = None" by (simp add: map_of_eq_None_iff)
    with False show ?thesis by (auto split: option.split)
  qed
  ultimately show "override_at (replace_durable_overrides changes em_empty) v = (if P v then override_at em v else None)"
    unfolding replace_durable_overrides_at [OF em_wf_empty d ok'] by (auto split: option.split)
qed

subsection \<open>The snapshot for a set of chunks\<close>

definition neighbor_offsets :: "(int \<times> int \<times> int) list" where
  "neighbor_offsets = [(dx, dy, dz). dz \<leftarrow> [-1..1], dy \<leftarrow> [-1..1], dx \<leftarrow> [-1..1]]"

fun dedup_by_key :: "('a \<Rightarrow> 'k) \<Rightarrow> 'a list \<Rightarrow> 'a list" where
  "dedup_by_key f (x # y # xs) = (if f x = f y then dedup_by_key f (x # xs) else x # dedup_by_key f (y # xs))"
| "dedup_by_key f xs = xs"

definition within_request :: "int \<times> int \<times> int \<Rightarrow> voxel_coord \<Rightarrow> bool" where
  "within_request = (\<lambda>(ox, oy, oz) v.
     vx v \<ge> i32_saturating_sub ox 1 \<and> vx v \<le> i32_saturating_add ox (int CHUNK_EDGE) \<and>
     vy v \<ge> i32_saturating_sub oy 1 \<and> vy v \<le> i32_saturating_add oy (int CHUNK_EDGE) \<and>
     vz v \<ge> i32_saturating_sub oz 1 \<and> vz v \<le> i32_saturating_add oz (int CHUNK_EDGE))"

definition snapshot_neighbor ::
  "edit_map \<Rightarrow> chunk_coord \<Rightarrow> int \<times> int \<times> int \<Rightarrow> int \<times> int \<times> int \<Rightarrow> (voxel_coord \<times> material) list option" where
  "snapshot_neighbor em coord requested_origin = (\<lambda>(dx, dy, dz).
     (case (i32_checked_add (cx coord) dx, i32_checked_add (cy coord) dy, i32_checked_add (cz coord) dz) of
        (Some x, Some y, Some z) \<Rightarrow>
          (case btree_get (em_chunks em) (x, z, y) of
             None \<Rightarrow> Some []
           | Some chunk \<Rightarrow> map_option (filter (\<lambda>(v, _). within_request requested_origin v))
               (chunk_entries (chunk_at x y z) chunk))
      | _ \<Rightarrow> Some []))"

definition snapshot_chunk :: "edit_map \<Rightarrow> chunk_coord \<Rightarrow> (voxel_coord \<times> material) list option" where
  "snapshot_chunk em coord =
     Option.bind (world_origin coord) (\<lambda>origin.
       map_option concat (those (map (snapshot_neighbor em coord origin) neighbor_offsets)))"

definition snapshot_for_chunks :: "edit_map \<Rightarrow> chunk_coord list \<Rightarrow> edit_map option" where
  "snapshot_for_chunks em coords =
     map_option (\<lambda>found.
       let changes = map (\<lambda>(v, m). (v, Some m)) (concat found);
           changes = dedup_by_key fst (sort_key fst changes)
       in replace_durable_overrides changes em_empty)
     (those (map (snapshot_chunk em) coords))"

lemma those_Some: "(\<And>x. x \<in> set xs \<Longrightarrow> f x = Some (g x)) \<Longrightarrow> those (map f xs) = Some (map g xs)"
  by (induction xs) auto

lemma set_neighbor_offsets: "set neighbor_offsets = {(dx, dy, dz). \<bar>dx\<bar> \<le> 1 \<and> \<bar>dy\<bar> \<le> 1 \<and> \<bar>dz\<bar> \<le> 1}"
  by (auto simp: neighbor_offsets_def image_iff)

lemma dedup_sorted:
  assumes "sorted (map f xs)" "\<forall>x \<in> set xs. \<forall>y \<in> set xs. f x = f y \<longrightarrow> x = y"
  shows "set (dedup_by_key f xs) = set xs \<and> distinct (map f (dedup_by_key f xs))"
  using assms
proof (induction f xs rule: dedup_by_key.induct)
  case (1 f x y xs)
  show ?case
  proof (cases "f x = f y")
    case True
    have eq: "x = y" using "1.prems"(2) True by (meson list.set_intros)
    have sub: "set (x # xs) \<subseteq> set (x # y # xs)" by auto
    then have inj: "\<forall>a \<in> set (x # xs). \<forall>b \<in> set (x # xs). f a = f b \<longrightarrow> a = b"
      using "1.prems"(2) by blast
    have "sorted (map f (x # xs))" using "1.prems"(1) by simp
    from "1.IH"(1) [OF True this inj] eq show ?thesis by simp
  next
    case False
    have sub: "set (y # xs) \<subseteq> set (x # y # xs)" by auto
    then have inj: "\<forall>a \<in> set (y # xs). \<forall>b \<in> set (y # xs). f a = f b \<longrightarrow> a = b"
      using "1.prems"(2) by blast
    have "sorted (map f (y # xs))" using "1.prems"(1) by simp
    from "1.IH"(2) [OF False this inj]
    have IH: "set (dedup_by_key f (y # xs)) = set (y # xs)" "distinct (map f (dedup_by_key f (y # xs)))"
      by auto
    have "f x < f y" "\<forall>z \<in> set xs. f y \<le> f z" using "1.prems"(1) False by auto
    then have "f x \<notin> f ` set (y # xs)" by fastforce
    with IH False show ?thesis by auto
  qed
qed auto

lemma saturated_shell:
  assumes "MIN_WORLD_AXIS \<le> c" "c \<le> MAX_WORLD_AXIS" "i32_ok w"
  shows "i32_saturating_sub (c * 32) 1 \<le> w \<longleftrightarrow> 32 * c - 1 \<le> w"
    and "w \<le> i32_saturating_add (c * 32) 32 \<longleftrightarrow> w \<le> 32 * c + 32"
  using assms by (auto simp: i32_saturating_add_def i32_saturating_sub_def i32_ok_def
      MIN_WORLD_AXIS_def MAX_WORLD_AXIS_def)

lemma within_request_shell:
  assumes "world_origin c = Some org" "voxel_ok v"
  shows "within_request org v \<longleftrightarrow> in_shell c v"
proof -
  have rep: "is_world_representable c" and org: "org = (cx c * 32, cy c * 32, cz c * 32)"
    using assms(1) by (auto simp: world_origin_def split: if_splits)
  then show ?thesis
    using assms(2) unfolding is_world_representable_def voxel_ok_def
    by (simp add: within_request_def in_shell_def saturated_shell)
qed

lemma shell_neighbor:
  assumes "in_shell c v"
  shows "\<exists>d \<in> set neighbor_offsets.
    voxel_chunk v = (case d of (dx, dy, dz) \<Rightarrow> chunk_at (cx c + dx) (cy c + dy) (cz c + dz))"
proof -
  have "\<bar>w div 32 - k\<bar> \<le> 1" if "32 * k - 1 \<le> w" "w \<le> 32 * k + 32" for w k :: int
    using that by linarith
  then have "\<bar>vx v div 32 - cx c\<bar> \<le> 1" "\<bar>vy v div 32 - cy c\<bar> \<le> 1" "\<bar>vz v div 32 - cz c\<bar> \<le> 1"
    using assms by (auto simp: in_shell_def)
  then have "(vx v div 32 - cx c, vy v div 32 - cy c, vz v div 32 - cz c) \<in> set neighbor_offsets"
    by (simp add: set_neighbor_offsets)
  then show ?thesis by (rule bexI [rotated]) (simp add: voxel_chunk_def)
qed

lemma snapshot_neighbor_spec:
  assumes wf: "em_wf em" and org: "world_origin c = Some org"
  obtains es where "snapshot_neighbor em c org (dx, dy, dz) = Some es"
    "\<And>v m. (v, m) \<in> set es \<longleftrightarrow> override_at em v = Some m \<and> in_shell c v \<and> voxel_ok v \<and>
       voxel_chunk v = chunk_at (cx c + dx) (cy c + dy) (cz c + dz)"
proof (cases "chunk_ok (chunk_at (cx c + dx) (cy c + dy) (cz c + dz))")
  case False
  then have "snapshot_neighbor em c org (dx, dy, dz) = Some []"
    by (auto simp: snapshot_neighbor_def i32_checked_add_def i32_try_def chunk_ok_def split: option.splits)
  moreover have "voxel_chunk v \<noteq> chunk_at (cx c + dx) (cy c + dy) (cz c + dz)" if "voxel_ok v" for v
    using False chunk_ok_representable [OF voxel_chunk_representable [OF that]] by metis
  ultimately show thesis using that [of "[]"] by auto
next
  case True
  let ?n = "chunk_at (cx c + dx) (cy c + dy) (cz c + dz)"
  have step: "snapshot_neighbor em c org (dx, dy, dz) =
      (case btree_get (em_chunks em) (chunk_key ?n) of
         None \<Rightarrow> Some []
       | Some chunk \<Rightarrow> map_option (filter (\<lambda>(v, _). within_request org v)) (chunk_entries ?n chunk))"
    using True by (simp add: snapshot_neighbor_def i32_checked_add_def i32_try_def chunk_ok_def chunk_key_def)
  show thesis
  proof (cases "btree_get (em_chunks em) (chunk_key ?n)")
    case None
    then have "snapshot_neighbor em c org (dx, dy, dz) = Some []" by (simp add: step)
    then show thesis using that [of "[]"] override_none [OF wf None] by force
  next
    case (Some chunk)
    obtain es where es: "chunk_entries ?n chunk = Some es"
      "\<And>v m. (v, m) \<in> set es \<longleftrightarrow> voxel_chunk v = ?n \<and> override_at em v = Some m"
      "\<And>v m. (v, m) \<in> set es \<Longrightarrow> voxel_ok v"
      by (rule chunk_entries_spec [OF wf Some]) blast
    have "snapshot_neighbor em c org (dx, dy, dz) = Some (filter (\<lambda>(v, _). within_request org v) es)"
      by (simp add: step Some es(1))
    then show thesis
      by (rule that) (use es(2,3) within_request_shell [OF org] in auto)
  qed
qed

lemma bex_conj: "(\<exists>d \<in> S. A \<and> B \<and> C \<and> P d) \<longleftrightarrow> (A \<and> B \<and> C) \<and> (\<exists>d \<in> S. P d)"
  by blast

lemma snapshot_chunk_spec:
  assumes wf: "em_wf em" and rep: "is_world_representable c"
  obtains es where "snapshot_chunk em c = Some es"
    "\<And>v m. (v, m) \<in> set es \<longleftrightarrow> override_at em v = Some m \<and> in_shell c v \<and> voxel_ok v"
proof -
  obtain org where org: "world_origin c = Some org" using rep by (auto simp: world_origin_def)
  define g where "g d = the (snapshot_neighbor em c org d)" for d
  have g: "snapshot_neighbor em c org d = Some (g d) \<and>
      (\<forall>v m. (v, m) \<in> set (g d) \<longleftrightarrow> override_at em v = Some m \<and> in_shell c v \<and> voxel_ok v \<and>
        voxel_chunk v = (case d of (dx, dy, dz) \<Rightarrow> chunk_at (cx c + dx) (cy c + dy) (cz c + dz)))" for d
  proof -
    obtain dx dy dz where d: "d = (dx, dy, dz)" by (metis prod_cases3)
    obtain es where "snapshot_neighbor em c org (dx, dy, dz) = Some es"
      "\<And>v m. (v, m) \<in> set es \<longleftrightarrow> override_at em v = Some m \<and> in_shell c v \<and> voxel_ok v \<and>
        voxel_chunk v = chunk_at (cx c + dx) (cy c + dy) (cz c + dz)"
      by (rule snapshot_neighbor_spec [OF wf org, of dx dy dz]) blast
    then show ?thesis unfolding d prod.case g_def by simp
  qed
  have "snapshot_chunk em c = Some (concat (map g neighbor_offsets))"
    using those_Some [of neighbor_offsets "snapshot_neighbor em c org" g] g
    by (simp add: snapshot_chunk_def org)
  moreover have "(v, m) \<in> set (concat (map g neighbor_offsets)) \<longleftrightarrow>
      override_at em v = Some m \<and> in_shell c v \<and> voxel_ok v" for v m
  proof -
    have "(v, m) \<in> set (concat (map g neighbor_offsets)) \<longleftrightarrow> (\<exists>d \<in> set neighbor_offsets. (v, m) \<in> set (g d))"
      by simp
    also have "\<dots> \<longleftrightarrow> (override_at em v = Some m \<and> in_shell c v \<and> voxel_ok v) \<and>
        (\<exists>d \<in> set neighbor_offsets.
          voxel_chunk v = (case d of (dx, dy, dz) \<Rightarrow> chunk_at (cx c + dx) (cy c + dy) (cz c + dz)))"
      unfolding g [THEN conjunct2, rule_format] by (rule bex_conj)
    also have "\<dots> \<longleftrightarrow> override_at em v = Some m \<and> in_shell c v \<and> voxel_ok v"
      using shell_neighbor [of c v] by linarith
    finally show ?thesis .
  qed
  ultimately show thesis by (rule that)
qed

text \<open>
  C11: a generation snapshot is complete and bounded. For representable chunks of a well-formed
  journal, \<open>snapshot_for_chunks\<close> does not panic and its journal holds an override exactly at the
  voxels of the requested chunks and their one-voxel shells, with the original material.
\<close>

theorem snapshot_for_chunks_exact:
  assumes wf: "em_wf em" and rep: "\<forall>c \<in> set coords. is_world_representable c"
  shows "\<exists>snapshot. snapshot_for_chunks em coords = Some snapshot \<and> em_wf snapshot \<and>
    (\<forall>v. voxel_ok v \<longrightarrow> override_at snapshot v =
      (if \<exists>c \<in> set coords. in_shell c v then override_at em v else None))"
proof -
  define g where "g c = the (snapshot_chunk em c)" for c
  have g: "snapshot_chunk em c = Some (g c)"
    and mem: "(v, m) \<in> set (g c) \<longleftrightarrow> override_at em v = Some m \<and> in_shell c v \<and> voxel_ok v"
    if "c \<in> set coords" for c v m
    using snapshot_chunk_spec [OF wf bspec [OF rep that]] by (metis g_def option.sel)+
  let ?found = "map (\<lambda>(v, m). (v, Some m)) (concat (map g coords))"
  let ?changes = "dedup_by_key fst (sort_key fst ?found)"
  let ?P = "\<lambda>v. voxel_ok v \<and> (\<exists>c \<in> set coords. in_shell c v)"
  have s: "snapshot_for_chunks em coords = Some (replace_durable_overrides ?changes em_empty)"
    using those_Some [of coords "snapshot_chunk em" g] g by (simp add: snapshot_for_chunks_def Let_def)
  have found: "(v, x) \<in> set ?found \<longleftrightarrow> (\<exists>m. x = Some m \<and> override_at em v = Some m \<and> ?P v)" for v x
  proof -
    have "(v, x) \<in> set ?found \<longleftrightarrow> (\<exists>m. x = Some m \<and> (\<exists>c \<in> set coords. (v, m) \<in> set (g c)))"
      by (force simp: image_iff)
    then show ?thesis using mem by auto
  qed
  then have "\<forall>a \<in> set (sort_key fst ?found). \<forall>b \<in> set (sort_key fst ?found). fst a = fst b \<longrightarrow> a = b"
    by fastforce
  from dedup_sorted [OF _ this] have d: "set ?changes = set ?found" "distinct (map fst ?changes)" by simp_all
  have mem': "(v, x) \<in> set ?changes \<longleftrightarrow> (\<exists>m. x = Some m \<and> override_at em v = Some m \<and> ?P v)" for v x
    unfolding d(1) by (rule found)
  have ok: "voxel_ok v" if "(v, x) \<in> set ?changes" for v x
    using that unfolding mem' by blast
  note r = snapshot_of_changes [OF wf d(2) mem' ok]
  show ?thesis using s r by auto
qed

theorem snapshot_for_chunks_exact_witness:
  "\<exists>snapshot. snapshot_for_chunks em_empty [chunk_at 0 0 0, chunk_at 1 0 0] = Some snapshot \<and>
     override_at snapshot (voxel_at 3 4 5) = override_at em_empty (voxel_at 3 4 5)"
proof -
  have "in_shell (chunk_at 0 0 0) (voxel_at 3 4 5)" "voxel_ok (voxel_at 3 4 5)"
    by (simp_all add: in_shell_def voxel_ok_def i32_ok_def)
  with snapshot_for_chunks_exact [of em_empty "[chunk_at 0 0 0, chunk_at 1 0 0]"] show ?thesis
    by (fastforce simp: is_world_representable_def)
qed

subsection \<open>The snapshot of a column rectangle\<close>

definition append_chunk ::
  "int \<times> int \<Rightarrow> int \<times> int \<Rightarrow> edit_key \<times> edited_chunk \<Rightarrow> (voxel_coord \<times> material) list option" where
  "append_chunk = (\<lambda>(min_x, max_x) (min_z, max_z) (key, chunk).
     map_option (filter (\<lambda>(v, _). min_x \<le> vx v \<and> vx v \<le> max_x \<and> min_z \<le> vz v \<and> vz v \<le> max_z))
       (chunk_entries (chunk_of_key key) chunk))"

definition column_chunks ::
  "(edit_key, edited_chunk) btree \<Rightarrow> chunk_coord \<Rightarrow> chunk_coord \<Rightarrow> (edit_key \<times> edited_chunk) list" where
  "column_chunks chunks minimum_chunk maximum_chunk =
     (let chunk_x_count = nat (cx maximum_chunk - cx minimum_chunk + 1);
          indexed_x_cost =
            usize_saturating_mul (usize_saturating_mul chunk_x_count 2) (search_depth (length chunks))
      in if length chunks \<le> indexed_x_cost
         then filter (\<lambda>((_, z, _), _). cz minimum_chunk \<le> z \<and> z \<le> cz maximum_chunk)
                (btree_range (cx minimum_chunk, i32_min, i32_min) (cx maximum_chunk, i32_max, i32_max) chunks)
         else concat (map (\<lambda>chunk_x.
                btree_range (chunk_x, cz minimum_chunk, i32_min) (chunk_x, cz maximum_chunk, i32_max) chunks)
                [cx minimum_chunk..cx maximum_chunk]))"

definition snapshot_for_voxel_columns :: "int \<Rightarrow> int \<Rightarrow> int \<Rightarrow> int \<Rightarrow> edit_map \<Rightarrow> edit_map option" where
  "snapshot_for_voxel_columns min_x max_x min_z max_z em =
     (if min_x > max_x \<or> min_z > max_z then Some em_empty
      else if em_chunks em = [] then Some em_empty
      else let minimum_chunk = voxel_chunk (voxel_at min_x 0 min_z);
               maximum_chunk = voxel_chunk (voxel_at max_x 0 max_z)
           in map_option (\<lambda>found.
                replace_durable_overrides (map (\<lambda>(v, m). (v, Some m)) (concat found)) em_empty)
              (those (map (append_chunk (min_x, max_x) (min_z, max_z))
                (column_chunks (em_chunks em) minimum_chunk maximum_chunk))))"

lemma column_chunks_set:
  assumes wf: "btree_wf chunks" and ok: "\<And>x z y c. ((x, z, y), c) \<in> set chunks \<Longrightarrow> i32_ok y \<and> i32_ok z"
  shows "set (column_chunks chunks a b) =
      {((x, z, y), c) \<in> set chunks. cx a \<le> x \<and> x \<le> cx b \<and> cz a \<le> z \<and> z \<le> cz b} \<and>
    distinct (map fst (column_chunks chunks a b))"
proof -
  let ?F = "filter (\<lambda>((x, z, y), _). cx a \<le> x \<and> x \<le> cx b \<and> cz a \<le> z \<and> z \<le> cz b) chunks"
  have d: "distinct (map fst chunks)" using wf by (rule btree_wf_distinct)
  have slab: "filter (\<lambda>((_, z, _), _). cz a \<le> z \<and> z \<le> cz b)
      (btree_range (cx a, i32_min, i32_min) (cx b, i32_max, i32_max) chunks) = ?F"
    unfolding btree_range_def filter_filter
  proof (rule filter_cong [OF refl], goal_cases)
    case (1 e)
    obtain x z y c where "e = ((x, z, y), c)" by (metis prod.exhaust)
    with ok [of x z y c] 1 show ?case by (auto simp: i32_ok_def)
  qed
  have row: "btree_range (x, cz a, i32_min) (x, cz b, i32_max) chunks =
      filter (\<lambda>((x', z, y), _). x' = x \<and> cz a \<le> z \<and> z \<le> cz b) chunks" for x
    unfolding btree_range_def
  proof (rule filter_cong [OF refl], goal_cases)
    case (1 e)
    obtain x' z y c where "e = ((x', z, y), c)" by (metis prod.exhaust)
    with ok [of x' z y c] 1 show ?case by (auto simp: i32_ok_def)
  qed
  have rows: "distinct xs \<Longrightarrow> distinct (map fst (concat (map (\<lambda>x.
      filter (\<lambda>((x', z, y), _). x' = x \<and> cz a \<le> z \<and> z \<le> cz b) chunks) xs)))" for xs
  proof (induction xs)
    case (Cons x xs)
    have "distinct (map fst (filter (\<lambda>((x', z, y), _). x' = x \<and> cz a \<le> z \<and> z \<le> cz b) chunks))"
      using d by (rule distinct_map_filter)
    with Cons show ?case by (fastforce simp: image_iff)
  qed simp
  show ?thesis
    unfolding column_chunks_def Let_def slab row using d rows [of "[cx a..cx b]"]
    by (auto simp: distinct_map_filter)
qed

lemma append_chunk_spec:
  assumes wf: "em_wf em" and mem: "(key, chunk) \<in> set (em_chunks em)"
  obtains es where "append_chunk (x0, x1) (z0, z1) (key, chunk) = Some es" "distinct (map fst es)"
    "\<And>v m. (v, m) \<in> set es \<longleftrightarrow> voxel_chunk v = chunk_of_key key \<and> override_at em v = Some m \<and>
       x0 \<le> vx v \<and> vx v \<le> x1 \<and> z0 \<le> vz v \<and> vz v \<le> z1"
    "\<And>v m. (v, m) \<in> set es \<Longrightarrow> voxel_ok v"
proof -
  have get: "btree_get (em_chunks em) (chunk_key (chunk_of_key key)) = Some chunk"
    using wf mem by (simp add: em_wf_def btree_get_iff)
  obtain es where es: "chunk_entries (chunk_of_key key) chunk = Some es" "distinct (map fst es)"
    "\<And>v m. (v, m) \<in> set es \<longleftrightarrow> voxel_chunk v = chunk_of_key key \<and> override_at em v = Some m"
    "\<And>v m. (v, m) \<in> set es \<Longrightarrow> voxel_ok v"
    by (rule chunk_entries_spec [OF wf get]) blast
  have "append_chunk (x0, x1) (z0, z1) (key, chunk) =
      Some (filter (\<lambda>(v, _). x0 \<le> vx v \<and> vx v \<le> x1 \<and> z0 \<le> vz v \<and> vz v \<le> z1) es)"
    by (simp add: append_chunk_def es(1))
  then show thesis
    by (rule that) (use es(2-4) in \<open>auto simp: distinct_map_filter\<close>)
qed

lemma distinct_concat_keyed:
  assumes "distinct (map k xs)" "\<And>x. x \<in> set xs \<Longrightarrow> distinct (map f (g x))"
    and "\<And>x e. x \<in> set xs \<Longrightarrow> e \<in> set (g x) \<Longrightarrow> h (f e) = k x"
  shows "distinct (map f (concat (map g xs)))"
  using assms by (induction xs) (auto simp: image_iff, metis)

text \<open>
  C12: column snapshots are exact under both scans. Over any voxel rectangle inside the grid,
  \<open>snapshot_for_voxel_columns\<close> of a well-formed journal, whether its cost rule picks the slab scan
  or the per-row lookups, holds exactly the overrides of the columns of the rectangle.
\<close>

theorem snapshot_for_voxel_columns_exact:
  assumes wf: "em_wf em" and ok: "i32_ok min_x" "i32_ok max_x" "i32_ok min_z" "i32_ok max_z"
  shows "\<exists>snapshot. snapshot_for_voxel_columns min_x max_x min_z max_z em = Some snapshot \<and> em_wf snapshot \<and>
    (\<forall>v. voxel_ok v \<longrightarrow> override_at snapshot v =
      (if min_x \<le> vx v \<and> vx v \<le> max_x \<and> min_z \<le> vz v \<and> vz v \<le> max_z then override_at em v else None))"
proof (cases "min_x > max_x \<or> min_z > max_z \<or> em_chunks em = []")
  case True
  have "override_at em_empty v = None" for v by (simp add: override_at_def em_empty_def)
  moreover have "override_at em v = None" if "em_chunks em = []" for v by (simp add: override_at_def that)
  moreover have "snapshot_for_voxel_columns min_x max_x min_z max_z em = Some em_empty"
    using True by (auto simp: snapshot_for_voxel_columns_def)
  ultimately show ?thesis using True by auto
next
  case False
  let ?a = "voxel_chunk (voxel_at min_x 0 min_z)" and ?b = "voxel_chunk (voxel_at max_x 0 max_z)"
  let ?ks = "column_chunks (em_chunks em) ?a ?b"
  define g where "g kc = the (append_chunk (min_x, max_x) (min_z, max_z) kc)" for kc
  have bw: "btree_wf (em_chunks em)" using wf by (simp add: em_wf_def)
  have key_ok: "i32_ok y \<and> i32_ok z" if "((x, z, y), c) \<in> set (em_chunks em)" for x z y c
  proof -
    have "btree_get (em_chunks em) (x, z, y) = Some c" using bw that by (simp add: btree_get_iff)
    from em_wf_get [OF wf this] have "chunk_ok (chunk_of_key (x, z, y))" by (auto intro: chunk_ok_representable)
    then show ?thesis by (simp add: chunk_ok_def chunk_of_key_def)
  qed
  have cs: "set ?ks = {((x, z, y), c) \<in> set (em_chunks em). cx ?a \<le> x \<and> x \<le> cx ?b \<and> cz ?a \<le> z \<and> z \<le> cz ?b} \<and>
      distinct (map fst ?ks)"
    by (rule column_chunks_set [OF bw]) (rule key_ok)
  have sub: "(key, chunk) \<in> set (em_chunks em)" if "(key, chunk) \<in> set ?ks" for key chunk
    using cs that by (cases key) auto
  have g: "append_chunk (min_x, max_x) (min_z, max_z) kc = Some (g kc)" "distinct (map fst (g kc))"
    and mem: "(v, m) \<in> set (g kc) \<longleftrightarrow> voxel_chunk v = chunk_of_key (fst kc) \<and> override_at em v = Some m \<and>
       min_x \<le> vx v \<and> vx v \<le> max_x \<and> min_z \<le> vz v \<and> vz v \<le> max_z"
    and vok: "(v, m) \<in> set (g kc) \<Longrightarrow> voxel_ok v" if k: "kc \<in> set ?ks" for kc v m
  proof -
    obtain key chunk where kc: "kc = (key, chunk)" by fastforce
    obtain es where "append_chunk (min_x, max_x) (min_z, max_z) (key, chunk) = Some es" "distinct (map fst es)"
      "\<And>v m. (v, m) \<in> set es \<longleftrightarrow> voxel_chunk v = chunk_of_key key \<and> override_at em v = Some m \<and>
         min_x \<le> vx v \<and> vx v \<le> max_x \<and> min_z \<le> vz v \<and> vz v \<le> max_z"
      "\<And>v m. (v, m) \<in> set es \<Longrightarrow> voxel_ok v"
      by (rule append_chunk_spec [OF wf sub [OF k [unfolded kc]]]) blast
    then show "append_chunk (min_x, max_x) (min_z, max_z) kc = Some (g kc)" "distinct (map fst (g kc))"
      "(v, m) \<in> set (g kc) \<longleftrightarrow> voxel_chunk v = chunk_of_key (fst kc) \<and> override_at em v = Some m \<and>
         min_x \<le> vx v \<and> vx v \<le> max_x \<and> min_z \<le> vz v \<and> vz v \<le> max_z"
      "(v, m) \<in> set (g kc) \<Longrightarrow> voxel_ok v" by (simp_all add: g_def kc)
  qed
  let ?changes = "map (\<lambda>(v, m). (v, Some m)) (concat (map g ?ks))"
  let ?P = "\<lambda>v. min_x \<le> vx v \<and> vx v \<le> max_x \<and> min_z \<le> vz v \<and> vz v \<le> max_z"
  have s: "snapshot_for_voxel_columns min_x max_x min_z max_z em = Some (replace_durable_overrides ?changes em_empty)"
    using False those_Some [of ?ks "append_chunk (min_x, max_x) (min_z, max_z)" g] g(1)
    by (simp add: snapshot_for_voxel_columns_def Let_def)
  have "distinct (map fst (concat (map g ?ks)))"
    by (rule distinct_concat_keyed [of fst _ fst g "\<lambda>v. chunk_key (voxel_chunk v)"])
      (use cs g(2) mem in \<open>auto split: prod.splits\<close>)
  then have d: "distinct (map fst ?changes)" by (simp add: comp_def case_prod_unfold)
  have found: "(v, x) \<in> set ?changes \<longleftrightarrow> (\<exists>m. x = Some m \<and> (\<exists>kc \<in> set ?ks. (v, m) \<in> set (g kc)))" for v x
    by (force simp: image_iff)
  have chunk: "\<exists>kc \<in> set ?ks. voxel_chunk v = chunk_of_key (fst kc)" if o: "override_at em v = Some m" "?P v" for v m
  proof -
    obtain chunk where c: "btree_get (em_chunks em) (chunk_key (voxel_chunk v)) = Some chunk"
      using o(1) by (auto simp: override_at_def bind_eq_Some_conv)
    have "vx v div 32 \<ge> min_x div 32" "vx v div 32 \<le> max_x div 32" "vz v div 32 \<ge> min_z div 32" "vz v div 32 \<le> max_z div 32"
      using o(2) by (auto intro: zdiv_mono1)
    then have "(chunk_key (voxel_chunk v), chunk) \<in> set ?ks"
      using c bw cs by (auto simp: chunk_key_def voxel_chunk_def btree_get_iff)
    then show ?thesis by force
  qed
  have mem': "(v, x) \<in> set ?changes \<longleftrightarrow> (\<exists>m. x = Some m \<and> override_at em v = Some m \<and> ?P v)" for v x
    unfolding found using mem chunk by blast
  have ok: "voxel_ok v" if "(v, x) \<in> set ?changes" for v x
    using that vok unfolding found by blast
  note r = snapshot_of_changes [OF wf d mem' ok]
  show ?thesis using s r by auto
qed

theorem snapshot_for_voxel_columns_exact_witness:
  "\<exists>snapshot. snapshot_for_voxel_columns (-4) 4 0 9 (replace_override (voxel_at 0 7 0) (Some Clay) em_empty)
       = Some snapshot \<and> override_at snapshot (voxel_at 0 7 0) = Some Clay"
proof -
  have ok: "voxel_ok (voxel_at 0 7 0)" by (simp add: voxel_ok_def i32_ok_def)
  note wf = replace_override_wf [OF em_wf_empty ok, of "Some Clay"]
  have at: "override_at (replace_override (voxel_at 0 7 0) (Some Clay) em_empty) (voxel_at 0 7 0) = Some Clay"
    by (simp add: replace_override_at [OF em_wf_empty ok])
  show ?thesis
    using snapshot_for_voxel_columns_exact [OF wf, of "-4" 4 0 9] at ok by (force simp: i32_ok_def)
qed

end
