(* ===== verification/Edit_Surface.thy ===== *)
theory Edit_Surface
  imports Edit_Queries
begin

text \<open>
  The journal against generated terrain (world/src/edit.rs): application of a chunk's overrides to
  the generated chunk, the pristine values a client keeps beneath them, and the visible surface of
  an edited column, whose downward scan is shown to end at the highest collidable voxel.
\<close>

subsection \<open>Applying overrides to a chunk\<close>

text \<open>\<open>None\<close> is the panic of \<open>Chunk::set\<close> or \<open>Chunk::get\<close> on an index outside the chunk.\<close>

fun apply_overrides :: "edited_chunk \<Rightarrow> chunk \<Rightarrow> chunk option" where
  "apply_overrides [] chunk = Some chunk"
| "apply_overrides ((index, m) # rest) chunk =
     (case local_coord index of (x, y, z) \<Rightarrow>
        Option.bind (chunk_set chunk x y z m) (apply_overrides rest))"

definition apply_to_chunk :: "edit_map \<Rightarrow> chunk \<Rightarrow> chunk option" where
  "apply_to_chunk em chunk =
     (case btree_get (em_chunks em) (chunk_key (ch_coord chunk)) of
        None \<Rightarrow> Some chunk
      | Some overrides \<Rightarrow> apply_overrides overrides chunk)"

definition source_values_for_overrides :: "edit_map \<Rightarrow> chunk \<Rightarrow> (voxel_coord \<times> material) list option" where
  "source_values_for_overrides em chunk =
     (case btree_get (em_chunks em) (chunk_key (ch_coord chunk)) of
        None \<Rightarrow> Some []
      | Some overrides \<Rightarrow>
          Option.bind (world_origin (ch_coord chunk)) (\<lambda>origin.
            those (map (\<lambda>(index, _).
              case local_coord index of (x, y, z) \<Rightarrow>
                map_option (\<lambda>m. (voxel_of_local origin (x, y, z), m)) (chunk_get chunk x y z)) overrides)))"

lemma apply_overrides_spec:
  assumes "ec_wf overrides" "chunk_wf chunk"
  shows "\<exists>c. apply_overrides overrides chunk = Some c \<and> chunk_wf c \<and> ch_coord c = ch_coord chunk \<and>
    (\<forall>x y z. local_ok (x, y, z) \<longrightarrow> chunk_get c x y z =
      (case btree_get overrides (local_index (x, y, z)) of Some m \<Rightarrow> Some m | None \<Rightarrow> chunk_get chunk x y z))"
  using assms
proof (induction overrides arbitrary: chunk)
  case (Cons o' rest)
  obtain i m where o': "o' = (i, m)" by fastforce
  obtain x y z where l: "local_coord i = (x, y, z)" by (metis prod_cases3)
  have i: "i < CHUNK_VOLUME" and wf: "ec_wf rest" and absent: "btree_get rest i = None"
    using Cons.prems(1) by (auto simp: o' ec_wf_def btree_wf_Cons btree_get_None)
  have ok: "local_ok (x, y, z)" and idx: "local_index (x, y, z) = i"
    using local_coord_ok [OF i] local_index_coord [of i] by (simp_all add: l)
  obtain c where c: "chunk_set chunk x y z m = Some c" using chunk_set_defined [of x y z chunk m] ok by auto
  from chunk_set_wf [OF Cons.prems(2) c] have cw: "chunk_wf c" "ch_coord c = ch_coord chunk" by auto
  note get = chunk_get_set [OF Cons.prems(2) c]
  from Cons.IH [OF wf cw(1)] obtain d where d: "apply_overrides rest c = Some d" "chunk_wf d" "ch_coord d = ch_coord c"
    and dg: "\<And>x y z. local_ok (x, y, z) \<Longrightarrow> chunk_get d x y z =
      (case btree_get rest (local_index (x, y, z)) of Some m \<Rightarrow> Some m | None \<Rightarrow> chunk_get c x y z)" by blast
  have "chunk_get d x' y' z' = (case btree_get (o' # rest) (local_index (x', y', z')) of
      Some m \<Rightarrow> Some m | None \<Rightarrow> chunk_get chunk x' y' z')" if ok': "local_ok (x', y', z')" for x' y' z'
  proof (cases "(x', y', z') = (x, y, z)")
    case True
    then show ?thesis using dg [OF ok'] absent get by (simp add: o' idx)
  next
    case False
    then have "local_index (x', y', z') \<noteq> i" using local_index_inj [OF ok' ok] idx by simp
    then show ?thesis using dg [OF ok'] get False by (auto simp: o' split: option.split)
  qed
  then show ?case using c d cw by (auto simp: o' l)
qed auto

text \<open>
  C16: a generated chunk with the journal applied is the resolved world. For a well-formed journal
  and chunk, \<open>apply_to_chunk\<close> does not panic and every voxel of the result is
  \<open>resolve_generated\<close> of the generated value at that voxel.
\<close>

theorem apply_to_chunk_resolves:
  assumes wf: "em_wf em" and chunk: "chunk_wf chunk"
  shows "\<exists>c. apply_to_chunk em chunk = Some c \<and> chunk_wf c \<and> ch_coord c = ch_coord chunk \<and>
    (\<forall>v x y z generated. voxel_chunk v = ch_coord chunk \<and> voxel_local v = (x, y, z) \<and>
       chunk_get chunk x y z = Some generated \<longrightarrow>
       chunk_get c x y z = Some (resolve_generated em v generated))"
proof -
  let ?key = "chunk_key (ch_coord chunk)" and ?ec = "btree_get_or [] (em_chunks em) (chunk_key (ch_coord chunk))"
  have ec: "ec_wf ?ec" by (rule em_wf_chunk [OF wf])
  have a: "apply_to_chunk em chunk = apply_overrides ?ec chunk"
    by (auto simp: apply_to_chunk_def btree_get_or_def split: option.split)
  from apply_overrides_spec [OF ec chunk] obtain c where c: "apply_to_chunk em chunk = Some c" "chunk_wf c"
      "ch_coord c = ch_coord chunk" and
    get: "\<And>x y z. local_ok (x, y, z) \<Longrightarrow> chunk_get c x y z =
      (case btree_get ?ec (local_index (x, y, z)) of Some m \<Rightarrow> Some m | None \<Rightarrow> chunk_get chunk x y z)"
    unfolding a by blast
  have "chunk_get c x y z = Some (resolve_generated em v generated)"
    if v: "voxel_chunk v = ch_coord chunk" "voxel_local v = (x, y, z)" "chunk_get chunk x y z = Some generated"
    for v x y z generated
  proof -
    have "local_ok (x, y, z)" using voxel_local_ok [of v] v(2) by simp
    moreover have "override_at em v = btree_get ?ec (local_index (x, y, z))"
      using v by (simp add: override_lookup [OF wf] em_lookup_def address_def)
    ultimately show ?thesis using get [of x y z] v(3) by (auto simp: resolve_generated_def split: option.split)
  qed
  with c show ?thesis by blast
qed

definition stone_chunk :: chunk where
  "stone_chunk = \<lparr>ch_coord = chunk_at 0 0 0, ch_voxels = replicate CHUNK_VOLUME Stone\<rparr>"

theorem apply_to_chunk_resolves_witness:
  "\<exists>c. apply_to_chunk (replace_override (voxel_at 1 2 3) (Some Air) em_empty) stone_chunk = Some c \<and>
     chunk_get c 1 2 3 = Some Air"
proof -
  let ?v = "voxel_at 1 2 3" and ?em = "replace_override (voxel_at 1 2 3) (Some Air) em_empty"
  have ok: "voxel_ok ?v" by (simp add: voxel_ok_def i32_ok_def)
  have chunk: "chunk_wf stone_chunk" by (simp add: stone_chunk_def chunk_wf_def is_world_representable_def)
  have g: "chunk_get stone_chunk 1 2 3 = Some Stone"
    by (simp add: stone_chunk_def chunk_get_def chunk_index_def)
  have l: "voxel_chunk ?v = ch_coord stone_chunk" "voxel_local ?v = (1, 2, 3)"
    by (simp_all add: voxel_chunk_def voxel_local_def stone_chunk_def)
  have "resolve_generated ?em ?v Stone = Air"
    by (simp add: resolve_generated_def replace_override_at [OF em_wf_empty ok])
  with apply_to_chunk_resolves [OF replace_override_wf [OF em_wf_empty ok] chunk, of "Some Air"] l g
  show ?thesis by metis
qed

subsection \<open>The surface of an edited column\<close>

fun column_step :: "int \<Rightarrow> nat \<times> material \<Rightarrow> bool \<times> int option \<Rightarrow> bool \<times> int option" where
  "column_step origin_y (index, m) (saw_override, highest_override) =
     (let entry_y = fst (snd (local_coord index)) in
      (True,
       if is_collidable m
       then (let y = origin_y + int entry_y in
             Some (case highest_override of None \<Rightarrow> y | Some highest \<Rightarrow> max highest y))
       else highest_override))"

definition column_scan :: "edit_map \<Rightarrow> int \<Rightarrow> int \<Rightarrow> bool \<times> int option" where
  "column_scan em x z =
     (let edge = int CHUNK_EDGE; chunk_x = x div edge; chunk_z = z div edge;
          local_x = nat (x mod edge); local_z = nat (z mod edge)
      in fold (\<lambda>((_, _, chunk_y), chunk).
           fold (column_step (chunk_y * edge)) (ec_column local_x local_z chunk))
           (btree_range (chunk_x, chunk_z, i32_min) (chunk_x, chunk_z, i32_max) (em_chunks em))
           (False, None))"

function surface_loop ::
  "edit_map \<Rightarrow> (voxel_coord \<Rightarrow> material) \<Rightarrow> int \<Rightarrow> int \<Rightarrow> int \<Rightarrow> int \<Rightarrow> int \<times> material" where
  "surface_loop em generated_at x z generated_min_y y =
     (let coord = voxel_at x y z;
          m = (case override_at em coord of Some m \<Rightarrow> m | None \<Rightarrow> generated_at coord)
      in if is_collidable m \<or> y \<le> generated_min_y then (y, m)
         else surface_loop em generated_at x z generated_min_y (y - 1))"
  by pat_completeness auto
termination
  by (relation "measure (\<lambda>(em, g, x, z, generated_min_y, y). nat (y - generated_min_y))") auto

declare surface_loop.simps [simp del]

definition surface_sample_with ::
  "edit_map \<Rightarrow> int \<Rightarrow> int \<Rightarrow> int \<times> material \<Rightarrow> int \<Rightarrow> (voxel_coord \<Rightarrow> material) \<Rightarrow> int \<times> material" where
  "surface_sample_with em x z generated_surface generated_min_y generated_at =
     (let (saw_override, highest_override) = column_scan em x z in
      if \<not> saw_override then generated_surface
      else let y = (case highest_override of None \<Rightarrow> fst generated_surface
                    | Some value \<Rightarrow> max value (fst generated_surface))
           in surface_loop em generated_at x z generated_min_y y)"

definition reaches :: "bool \<times> int option \<Rightarrow> int \<Rightarrow> bool" where
  "reaches acc y \<longleftrightarrow> (\<exists>top. snd acc = Some top \<and> y \<le> top)"

lemma column_step_mono:
  "reaches acc y \<Longrightarrow> reaches (column_step o_y e acc) y" "fst (column_step o_y e acc)"
  by (cases e; cases acc; force simp: reaches_def Let_def split: option.splits)+

lemma column_fold:
  "reaches acc y \<Longrightarrow> reaches (fold (column_step o_y) es acc) y"
  "fst acc \<Longrightarrow> fst (fold (column_step o_y) es acc)"
  "(i, m) \<in> set es \<Longrightarrow> fst (fold (column_step o_y) es acc)"
  "(i, m) \<in> set es \<Longrightarrow> is_collidable m \<Longrightarrow>
     reaches (fold (column_step o_y) es acc) (o_y + int (fst (snd (local_coord i))))"
proof -
  have mono: "reaches acc y \<Longrightarrow> reaches (fold (column_step o_y) es acc) y" for es acc y
  proof (induction es arbitrary: acc)
    case (Cons e es)
    show ?case unfolding fold.simps comp_def by (rule Cons.IH [OF column_step_mono(1) [OF Cons.prems]])
  qed simp
  have saw: "fst acc \<Longrightarrow> fst (fold (column_step o_y) es acc)" for es acc
  proof (induction es arbitrary: acc)
    case (Cons e es)
    show ?case unfolding fold.simps comp_def by (rule Cons.IH [OF column_step_mono(2)])
  qed simp
  show "reaches acc y \<Longrightarrow> reaches (fold (column_step o_y) es acc) y"
    "fst acc \<Longrightarrow> fst (fold (column_step o_y) es acc)" by (auto intro: mono saw)
  show "(i, m) \<in> set es \<Longrightarrow> fst (fold (column_step o_y) es acc)"
    by (cases es) (auto intro: saw column_step_mono)
  have hit: "is_collidable m \<Longrightarrow> reaches (column_step o_y (i, m) acc) (o_y + int (fst (snd (local_coord i))))" for acc
    by (cases acc) (auto simp: reaches_def Let_def split: option.split)
  show "(i, m) \<in> set es \<Longrightarrow> is_collidable m \<Longrightarrow>
     reaches (fold (column_step o_y) es acc) (o_y + int (fst (snd (local_coord i))))"
  proof (induction es arbitrary: acc)
    case (Cons e es)
    then show ?case using mono [OF hit] by (cases "e = (i, m)") auto
  qed simp
qed

lemma chunk_fold:
  fixes col :: "edited_chunk \<Rightarrow> edited_chunk" and cs :: "(edit_key \<times> edited_chunk) list"
  defines "F \<equiv> fold (\<lambda>((_, _, chunk_y), chunk). fold (column_step (chunk_y * 32)) (col chunk))"
  assumes mem: "((a, b, chunk_y), chunk) \<in> set cs" "(i, m) \<in> set (col chunk)"
  shows "fst (F cs acc)"
    and "is_collidable m \<Longrightarrow> reaches (F cs acc) (chunk_y * 32 + int (fst (snd (local_coord i))))"
proof -
  have F_Cons: "F (((a, b, k), ch) # cs) acc = F cs (fold (column_step (k * 32)) (col ch) acc)" for a b k ch cs acc
    by (simp add: F_def)
  have mono: "reaches acc y \<Longrightarrow> reaches (F cs acc) y" for cs acc y
  proof (induction cs arbitrary: acc)
    case (Cons c cs)
    obtain a b k ch where c: "c = ((a, b, k), ch)" by (metis prod.exhaust)
    show ?case unfolding c F_Cons by (rule Cons.IH [OF column_fold(1) [OF Cons.prems]])
  qed (simp add: F_def)
  have saw: "fst acc \<Longrightarrow> fst (F cs acc)" for cs acc
  proof (induction cs arbitrary: acc)
    case (Cons c cs)
    obtain a b k ch where c: "c = ((a, b, k), ch)" by (metis prod.exhaust)
    show ?case unfolding c F_Cons by (rule Cons.IH [OF column_fold(2) [OF Cons.prems]])
  qed (simp add: F_def)
  obtain pre post where cs: "cs = pre @ ((a, b, chunk_y), chunk) # post"
    using mem(1) by (meson split_list)
  have F: "F cs acc = F post (fold (column_step (chunk_y * 32)) (col chunk) (F pre acc))"
    unfolding cs F_def by simp
  show "fst (F cs acc)" unfolding F by (rule saw [OF column_fold(3) [OF mem(2)]])
  show "is_collidable m \<Longrightarrow> reaches (F cs acc) (chunk_y * 32 + int (fst (snd (local_coord i))))"
    unfolding F by (rule mono [OF column_fold(4) [OF mem(2)]])
qed

lemma column_scan_spec:
  assumes wf: "em_wf em" and o': "override_at em (voxel_at x y z) = Some m"
  shows "fst (column_scan em x z)" and "is_collidable m \<Longrightarrow> reaches (column_scan em x z) y"
proof -
  let ?v = "voxel_at x y z" and ?key = "(x div 32, z div 32, y div 32)"
  let ?l = "(nat (x mod 32), nat (y mod 32), nat (z mod 32))"
  have key: "chunk_key (voxel_chunk ?v) = ?key" and l: "voxel_local ?v = ?l"
    by (simp_all add: chunk_key_def voxel_chunk_def voxel_local_def)
  obtain chunk where c: "btree_get (em_chunks em) ?key = Some chunk" and "ec_get chunk (local_index ?l) = Some m"
    using o' by (auto simp: override_at_def bind_eq_Some_conv key l)
  from em_wf_get [OF wf c] have ec: "btree_wf chunk" and rep: "is_world_representable (chunk_of_key ?key)"
    by (auto simp: ec_wf_def)
  then have "(local_index ?l, m) \<in> set chunk"
    using \<open>ec_get chunk (local_index ?l) = Some m\<close> by (simp add: ec_get_btree btree_get_iff)
  moreover have coord: "local_coord (local_index ?l) = ?l"
    using voxel_local_ok [of ?v] unfolding l by (rule local_coord_index)
  ultimately have e: "(local_index ?l, m) \<in> set (ec_column (nat (x mod 32)) (nat (z mod 32)) chunk)"
    by (subst ec_column_filter [OF ec]) (auto simp: nat_less_iff)
  have "i32_ok (y div 32)" using chunk_ok_representable [OF rep] by (simp add: chunk_ok_def chunk_of_key_def)
  then have r: "(?key, chunk) \<in> set (btree_range (x div 32, z div 32, i32_min) (x div 32, z div 32, i32_max) (em_chunks em))"
    using c wf by (simp add: btree_range_set em_wf_def i32_ok_def)
  have y: "y div 32 * 32 + int (fst (snd (local_coord (local_index ?l)))) = y"
    unfolding coord by simp
  note cf = chunk_fold [where col = "ec_column (nat (x mod 32)) (nat (z mod 32))", OF r e, of "(False, None)"]
  show "fst (column_scan em x z)" using cf(1) by (simp add: column_scan_def Let_def)
  show "is_collidable m \<Longrightarrow> reaches (column_scan em x z) y"
    using cf(2) unfolding y by (simp add: column_scan_def Let_def)
qed

lemma surface_loop_spec:
  assumes "surface_loop em g x z min_y y0 = (y, m)"
  shows "m = resolve_generated em (voxel_at x y z) (g (voxel_at x y z)) \<and>
    (is_collidable m \<or> y \<le> min_y) \<and> y \<le> y0 \<and>
    (\<forall>y'. y < y' \<and> y' \<le> y0 \<longrightarrow>
       \<not> is_collidable (resolve_generated em (voxel_at x y' z) (g (voxel_at x y' z))))"
  using assms
proof (induction em g x z min_y y0 rule: surface_loop.induct)
  case (1 em g x z min_y y0)
  let ?m = "resolve_generated em (voxel_at x y0 z) (g (voxel_at x y0 z))"
  have step: "surface_loop em g x z min_y y0 =
      (if is_collidable ?m \<or> y0 \<le> min_y then (y0, ?m) else surface_loop em g x z min_y (y0 - 1))"
    by (subst surface_loop.simps) (simp add: resolve_generated_def Let_def)
  show ?case
  proof (cases "is_collidable ?m \<or> y0 \<le> min_y")
    case True
    with 1(2) show ?thesis unfolding step by auto
  next
    case False
    then have loop: "surface_loop em g x z min_y (y0 - 1) = (y, m)" using 1(2) unfolding step by simp
    have IH: "m = resolve_generated em (voxel_at x y z) (g (voxel_at x y z)) \<and>
      (is_collidable m \<or> y \<le> min_y) \<and> y \<le> y0 - 1 \<and>
      (\<forall>y'. y < y' \<and> y' \<le> y0 - 1 \<longrightarrow>
         \<not> is_collidable (resolve_generated em (voxel_at x y' z) (g (voxel_at x y' z))))"
      by (rule 1(1) [OF refl refl False [unfolded resolve_generated_def] loop])
    have "\<not> is_collidable (resolve_generated em (voxel_at x y' z) (g (voxel_at x y' z)))"
      if "y < y'" "y' \<le> y0" for y'
      using IH False that by (cases "y' = y0") auto
    with IH show ?thesis by auto
  qed
qed

text \<open>
  C14: the edited surface is the highest collidable voxel of the column. Suppose the generated
  surface is truthful: its material is the generated one and nothing above it is collidable. Then
  \<open>surface_sample_with\<close> of a well-formed journal returns a height and its resolved material such
  that no resolved voxel above is collidable; it stops on a collidable voxel, at the floor of the
  prepared data, or returns the generated surface of an unedited column.
\<close>

theorem surface_sample_with_highest:
  assumes wf: "em_wf em"
    and truth: "snd surface = g (voxel_at x (fst surface) z)"
      "\<forall>y > fst surface. \<not> is_collidable (g (voxel_at x y z))"
    and res: "surface_sample_with em x z surface min_y g = (y, m)"
  shows "m = resolve_generated em (voxel_at x y z) (g (voxel_at x y z)) \<and>
    (\<forall>y' > y. \<not> is_collidable (resolve_generated em (voxel_at x y' z) (g (voxel_at x y' z)))) \<and>
    (is_collidable m \<or> y \<le> min_y \<or> (y, m) = surface)"
proof (cases "fst (column_scan em x z)")
  case False
  then have none: "override_at em (voxel_at x y' z) = None" for y'
    using column_scan_spec(1) [OF wf] by (metis not_Some_eq)
  have "(y, m) = surface" using res False by (auto simp: surface_sample_with_def split: prod.splits)
  with truth show ?thesis by (auto simp: resolve_generated_def none)
next
  case True
  define y0 where "y0 = (case snd (column_scan em x z) of None \<Rightarrow> fst surface | Some v \<Rightarrow> max v (fst surface))"
  have loop: "surface_loop em g x z min_y y0 = (y, m)"
    using res True by (auto simp: surface_sample_with_def y0_def split: prod.splits)
  have above: "\<not> is_collidable (resolve_generated em (voxel_at x y' z) (g (voxel_at x y' z)))" if "y' > y0" for y'
  proof (cases "override_at em (voxel_at x y' z)")
    case None
    have "y' > fst surface" using that by (auto simp: y0_def split: option.splits)
    with None truth(2) show ?thesis by (simp add: resolve_generated_def)
  next
    case (Some n)
    have "\<not> reaches (column_scan em x z) y'" using that by (auto simp: reaches_def y0_def)
    with column_scan_spec(2) [OF wf Some] Some show ?thesis by (auto simp: resolve_generated_def)
  qed
  from surface_loop_spec [OF loop] above show ?thesis by (meson not_le)
qed

theorem surface_sample_with_highest_witness:
  "surface_sample_with em_empty 3 4 (10, Grass) 0 (\<lambda>v. if vy v \<le> 10 then Grass else Air) = (10, Grass) \<and>
   resolve_generated em_empty (voxel_at 3 10 4) Grass = Grass"
proof -
  have r: "surface_sample_with em_empty 3 4 (10, Grass) 0 (\<lambda>v. if vy v \<le> 10 then Grass else Air) = (10, Grass)"
    by (simp add: surface_sample_with_def column_scan_def em_empty_def btree_range_def)
  show ?thesis
    using surface_sample_with_highest [OF em_wf_empty _ _ r] r by (simp add: is_collidable_def)
qed

end
