(* ===== verification/Terrain_Key.thy ===== *)
theory Terrain_Key
  imports Ordered_Map Coords
begin

text \<open>
  Keys of the virtual terrain's page hierarchy (\<open>TerrainPageKey\<close>, world/src/terrain_page.rs) and
  the half-open voxel boxes they own (\<open>VoxelBounds\<close>, world/src/virtual_surface.rs). A surface key
  marks itself by a vertical coordinate of \<open>i32::MIN\<close>. The lemmas show that parents, children and
  ancestors agree and that the children of a page tile it.
\<close>

definition TERRAIN_PAGE_EDGE_SAMPLES :: nat where "TERRAIN_PAGE_EDGE_SAMPLES = 32"
definition TERRAIN_PAGE_MAX_LEVEL :: nat where "TERRAIN_PAGE_MAX_LEVEL = 20"
definition TERRAIN_SURFACE_PAGE_CHILDREN :: nat where "TERRAIN_SURFACE_PAGE_CHILDREN = 4"
definition TERRAIN_SURFACE_PAGE_COORD_Y :: int where "TERRAIN_SURFACE_PAGE_COORD_Y = i32_min"

record page_key =
  pk_level :: nat
  pk_x :: int
  pk_y :: int
  pk_z :: int

instantiation page_key_ext :: (linorder) linorder
begin

definition less_eq_page_key_ext :: "'a page_key_scheme \<Rightarrow> 'a page_key_scheme \<Rightarrow> bool" where
  "less_eq_page_key_ext a b \<longleftrightarrow>
     (pk_level a, pk_x a, pk_y a, pk_z a, page_key.more a) \<le> (pk_level b, pk_x b, pk_y b, pk_z b, page_key.more b)"

definition less_page_key_ext :: "'a page_key_scheme \<Rightarrow> 'a page_key_scheme \<Rightarrow> bool" where
  "less_page_key_ext a b \<longleftrightarrow>
     (pk_level a, pk_x a, pk_y a, pk_z a, page_key.more a) < (pk_level b, pk_x b, pk_y b, pk_z b, page_key.more b)"

instance
  by standard (auto simp: less_eq_page_key_ext_def less_page_key_ext_def)

end

definition page_at :: "nat \<Rightarrow> int \<Rightarrow> int \<Rightarrow> int \<Rightarrow> page_key" where
  "page_at level x y z = \<lparr>pk_level = level, pk_x = x, pk_y = y, pk_z = z\<rparr>"

lemma page_at_simps [simp]:
  "pk_level (page_at l x y z) = l" "pk_x (page_at l x y z) = x"
  "pk_y (page_at l x y z) = y" "pk_z (page_at l x y z) = z"
  by (simp_all add: page_at_def)

lemma page_at_surj [simp]: "page_at (pk_level k) (pk_x k) (pk_y k) (pk_z k) = k"
  by (simp add: page_at_def)

lemma page_at_eq [simp]: "page_at l x y z = page_at l' x' y' z' \<longleftrightarrow> l = l' \<and> x = x' \<and> y = y' \<and> z = z'"
  by (simp add: page_at_def)

lemma page_key_eqI: "pk_level a = pk_level b \<Longrightarrow> pk_x a = pk_x b \<Longrightarrow> pk_y a = pk_y b \<Longrightarrow> pk_z a = pk_z b \<Longrightarrow> a = (b :: page_key)"
  by simp

definition key_ok :: "page_key \<Rightarrow> bool" where
  "key_ok k \<longleftrightarrow> pk_level k \<le> 255 \<and> i32_ok (pk_x k) \<and> i32_ok (pk_y k) \<and> i32_ok (pk_z k)"

subsection \<open>Boxes\<close>

record voxel_bounds =
  vb_min :: voxel_coord
  vb_max :: voxel_coord

definition bounds_new :: "voxel_coord \<Rightarrow> voxel_coord \<Rightarrow> voxel_bounds option" where
  "bounds_new lo hi =
     (if vx lo \<ge> vx hi \<or> vy lo \<ge> vy hi \<or> vz lo \<ge> vz hi then None
      else Some \<lparr>vb_min = lo, vb_max = hi\<rparr>)"

definition bounds_contains :: "voxel_bounds \<Rightarrow> voxel_coord \<Rightarrow> bool" where
  "bounds_contains b v \<longleftrightarrow>
     vx v \<ge> vx (vb_min b) \<and> vy v \<ge> vy (vb_min b) \<and> vz v \<ge> vz (vb_min b) \<and>
     vx v < vx (vb_max b) \<and> vy v < vy (vb_max b) \<and> vz v < vz (vb_max b)"

definition contains_bounds :: "voxel_bounds \<Rightarrow> voxel_bounds \<Rightarrow> bool" where
  "contains_bounds b child \<longleftrightarrow>
     bounds_contains b (vb_min child) \<and> vx (vb_max child) \<le> vx (vb_max b) \<and>
     vy (vb_max child) \<le> vy (vb_max b) \<and> vz (vb_max child) \<le> vz (vb_max b)"

definition u64_checked_mul :: "nat \<Rightarrow> nat \<Rightarrow> nat option" where
  "u64_checked_mul a b = (if a * b \<le> u64_max then Some (a * b) else None)"

definition bounds_volume :: "voxel_bounds \<Rightarrow> nat option" where
  "bounds_volume b =
     (if vx (vb_max b) - vx (vb_min b) < 0 \<or> vy (vb_max b) - vy (vb_min b) < 0 \<or>
         vz (vb_max b) - vz (vb_min b) < 0 then None
      else Option.bind (u64_checked_mul (nat (vx (vb_max b) - vx (vb_min b))) (nat (vy (vb_max b) - vy (vb_min b))))
             (\<lambda>xy. u64_checked_mul xy (nat (vz (vb_max b) - vz (vb_min b)))))"

subsection \<open>Keys\<close>

definition page_surface :: "nat \<Rightarrow> int \<Rightarrow> int \<Rightarrow> page_key" where
  "page_surface level x z = page_at level x TERRAIN_SURFACE_PAGE_COORD_Y z"

definition is_surface :: "page_key \<Rightarrow> bool" where
  "is_surface k \<longleftrightarrow> pk_y k = TERRAIN_SURFACE_PAGE_COORD_Y"

definition i64_try :: "int \<Rightarrow> int option" where
  "i64_try x = (if -9223372036854775808 \<le> x \<and> x \<le> 9223372036854775807 then Some x else None)"

definition page_span :: "page_key \<Rightarrow> int" where
  "page_span k = int TERRAIN_PAGE_EDGE_SAMPLES * 2 ^ pk_level k"

definition horizontal_bounds :: "page_key \<Rightarrow> ((int \<times> int) \<times> (int \<times> int)) option" where
  "horizontal_bounds k =
     (if pk_level k > TERRAIN_PAGE_MAX_LEVEL then None
      else let span = page_span k in
        Option.bind (i64_try (pk_x k * span)) (\<lambda>minimum_x.
        Option.bind (i64_try (pk_z k * span)) (\<lambda>minimum_z.
        Option.bind (i64_try (minimum_x + span)) (\<lambda>maximum_x.
        Option.bind (i64_try (minimum_z + span)) (\<lambda>maximum_z.
        Option.bind (i32_try minimum_x) (\<lambda>x0.
        Option.bind (i32_try minimum_z) (\<lambda>z0.
        Option.bind (i32_try maximum_x) (\<lambda>x1.
        Option.bind (i32_try maximum_z) (\<lambda>z1.
          Some ((x0, z0), (x1, z1)))))))))))"

definition page_bounds :: "page_key \<Rightarrow> voxel_bounds option" where
  "page_bounds k =
     (if pk_level k > TERRAIN_PAGE_MAX_LEVEL \<or> is_surface k then None
      else let span = page_span k in
        Option.bind (i32_try (pk_x k * span)) (\<lambda>x0.
        Option.bind (i32_try (pk_y k * span)) (\<lambda>y0.
        Option.bind (i32_try (pk_z k * span)) (\<lambda>z0.
        Option.bind (i32_try (pk_x k * span + span)) (\<lambda>x1.
        Option.bind (i32_try (pk_y k * span + span)) (\<lambda>y1.
        Option.bind (i32_try (pk_z k * span + span)) (\<lambda>z1.
          bounds_new (voxel_at x0 y0 z0) (voxel_at x1 y1 z1))))))))"

definition page_parent :: "page_key \<Rightarrow> page_key option" where
  "page_parent k =
     (if pk_level k < TERRAIN_PAGE_MAX_LEVEL
      then Some (page_at (pk_level k + 1) (pk_x k div 2)
        (if is_surface k then TERRAIN_SURFACE_PAGE_COORD_Y else pk_y k div 2) (pk_z k div 2))
      else None)"

definition ancestor_at :: "page_key \<Rightarrow> nat \<Rightarrow> page_key option" where
  "ancestor_at k level =
     (if level < pk_level k \<or> level > TERRAIN_PAGE_MAX_LEVEL then None
      else let scale = 2 ^ (level - pk_level k)
           in Some (page_at level (pk_x k div scale)
                (if is_surface k then TERRAIN_SURFACE_PAGE_COORD_Y else pk_y k div scale) (pk_z k div scale)))"

definition bit_of :: "nat \<Rightarrow> nat \<Rightarrow> int" where
  "bit_of index k = int (index div 2 ^ k mod 2)"

definition page_children :: "page_key \<Rightarrow> page_key list option" where
  "page_children k =
     (if is_surface k \<or> pk_level k = 0 then None
      else Option.bind (i32_checked_mul (pk_x k) 2) (\<lambda>x.
           Option.bind (i32_checked_mul (pk_y k) 2) (\<lambda>y.
           Option.bind (i32_checked_mul (pk_z k) 2) (\<lambda>z.
             Some (map (\<lambda>index. page_at (pk_level k - 1) (x + bit_of index 0) (y + bit_of index 1)
                     (z + bit_of index 2)) [0..<8])))))"

definition refinement_children :: "page_key \<Rightarrow> page_key list option" where
  "refinement_children k =
     (if pk_level k = 0 then None
      else if is_surface k
      then Option.bind (i32_checked_mul (pk_x k) 2) (\<lambda>base_x.
           Option.bind (i32_checked_mul (pk_z k) 2) (\<lambda>base_z.
             Some (map (\<lambda>index. page_surface (pk_level k - 1) (base_x + bit_of index 0) (base_z + bit_of index 1))
               [0..<TERRAIN_SURFACE_PAGE_CHILDREN])))
      else page_children k)"

subsection \<open>Parents, children and ancestors\<close>

lemma page_consts [simp]:
  "TERRAIN_PAGE_EDGE_SAMPLES = 32" "TERRAIN_PAGE_MAX_LEVEL = 20"
  "TERRAIN_SURFACE_PAGE_CHILDREN = 4" "TERRAIN_SURFACE_PAGE_COORD_Y = i32_min"
  by (simp_all add: TERRAIN_PAGE_EDGE_SAMPLES_def TERRAIN_PAGE_MAX_LEVEL_def
      TERRAIN_SURFACE_PAGE_CHILDREN_def TERRAIN_SURFACE_PAGE_COORD_Y_def)

lemma bit_of_values: "bit_of i k = 0 \<or> bit_of i k = 1"
  by (auto simp: bit_of_def)

lemma half_child: "c div 2 = p \<longleftrightarrow> c = 2 * p \<or> c = 2 * p + 1" for c p :: int
  by presburger

lemma ancestor_parent: "pk_level k < TERRAIN_PAGE_MAX_LEVEL \<Longrightarrow> ancestor_at k (pk_level k + 1) = page_parent k"
  by (simp add: ancestor_at_def page_parent_def)

lemma ancestor_level: "ancestor_at k l = Some a \<Longrightarrow> pk_level a = l \<and> pk_level k \<le> l \<and> l \<le> TERRAIN_PAGE_MAX_LEVEL"
  by (auto simp: ancestor_at_def Let_def split: if_splits)

lemma div_pow_ge: "i32_min < y \<Longrightarrow> y \<le> i32_max \<Longrightarrow> y div 2 ^ n \<noteq> i32_min"
proof -
  assume y: "i32_min < y" "y \<le> i32_max"
  have "i32_min < y div 2 ^ n"
  proof (cases "0 \<le> y")
    case True
    then have "0 \<le> y div 2 ^ n" by (simp add: pos_imp_zdiv_nonneg_iff)
    then show ?thesis by simp
  next
    case False
    then have "y * 2 ^ n \<le> y * 1" by (intro mult_left_mono_neg) auto
    then have "y \<le> y div 2 ^ n" by (metis mult.right_neutral nonzero_mult_div_cancel_right power_not_zero zdiv_mono1 zero_less_numeral zero_less_power zero_neq_numeral)
    with y show ?thesis by simp
  qed
  then show ?thesis by simp
qed

text \<open>
  Ancestors compose. For a key with \<open>i32\<close> coordinates, the ancestor at a level reached through
  an intermediate ancestor is the direct one, and the ancestor one level up is \<open>parent\<close>.
\<close>

theorem ancestor_at_compose:
  assumes "key_ok k" "ancestor_at k l = Some a" "l \<le> m"
  shows "ancestor_at a m = ancestor_at k m \<and>
    (pk_level k < TERRAIN_PAGE_MAX_LEVEL \<longrightarrow> ancestor_at k (pk_level k + 1) = page_parent k)"
proof -
  from assms(2) have l: "pk_level k \<le> l" "l \<le> 20"
    and a: "a = page_at l (pk_x k div 2 ^ (l - pk_level k))
      (if is_surface k then i32_min else pk_y k div 2 ^ (l - pk_level k)) (pk_z k div 2 ^ (l - pk_level k))"
    by (auto simp: ancestor_at_def Let_def split: if_splits)
  have exp: "(2 :: int) ^ (m - pk_level k) = 2 ^ (l - pk_level k) * 2 ^ (m - l)"
    using l assms(3) by (simp flip: power_add)
  have d: "w div 2 ^ (l - pk_level k) div 2 ^ (m - l) = w div 2 ^ (m - pk_level k)" for w :: int
    unfolding exp by (rule zdiv_zmult2_eq [symmetric]) simp
  have s: "is_surface a \<longleftrightarrow> is_surface k"
    using assms(1) div_pow_ge [of "pk_y k" "l - pk_level k"]
    by (auto simp: is_surface_def a key_ok_def i32_ok_def)
  have "ancestor_at a m = ancestor_at k m"
    using l assms(3) s by (auto simp: ancestor_at_def Let_def a d)
  then show ?thesis using ancestor_parent by blast
qed

theorem ancestor_at_compose_witness:
  "ancestor_at (page_at 2 (-1) i32_min 1) 5 = ancestor_at (page_at 0 (-3) i32_min 7) 5"
proof -
  have "ancestor_at (page_at 0 (-3) i32_min 7) 2 = Some (page_at 2 (-1) i32_min 1)"
    by (simp add: ancestor_at_def is_surface_def)
  from ancestor_at_compose [OF _ this, of 5] show ?thesis by (simp add: key_ok_def i32_ok_def)
qed

lemma surface_children_list:
  "refinement_children k = Some cs \<Longrightarrow> is_surface k \<Longrightarrow>
   0 < pk_level k \<and> i32_ok (2 * pk_x k) \<and> i32_ok (2 * pk_z k) \<and>
   cs = [page_at (pk_level k - 1) (2 * pk_x k) i32_min (2 * pk_z k),
         page_at (pk_level k - 1) (2 * pk_x k + 1) i32_min (2 * pk_z k),
         page_at (pk_level k - 1) (2 * pk_x k) i32_min (2 * pk_z k + 1),
         page_at (pk_level k - 1) (2 * pk_x k + 1) i32_min (2 * pk_z k + 1)]"
  by (auto simp: refinement_children_def page_surface_def bit_of_def upt_rec mult.commute bind_eq_Some_conv split: if_splits)

lemma volume_children_list:
  "page_children k = Some cs \<Longrightarrow>
   0 < pk_level k \<and> \<not> is_surface k \<and> i32_ok (2 * pk_x k) \<and> i32_ok (2 * pk_y k) \<and> i32_ok (2 * pk_z k) \<and>
   cs = [page_at (pk_level k - 1) (2 * pk_x k + dx) (2 * pk_y k + dy) (2 * pk_z k + dz).
          dz \<leftarrow> [0, 1], dy \<leftarrow> [0, 1], dx \<leftarrow> [0, 1]]"
  by (auto simp: page_children_def bit_of_def upt_rec mult.commute bind_eq_Some_conv split: if_splits)

text \<open>
  C10: the refinement of a page is exactly its children. If \<open>refinement_children\<close> returns a list, it
  has no duplicates and a key of the grid is in it precisely when \<open>parent\<close> maps it back to the page:
  four keys for a surface page, eight for a volume page whose lower neighbour row is not the
  reserved surface coordinate.
\<close>

theorem refinement_children_parent:
  assumes "refinement_children k = Some cs" "pk_level k \<le> TERRAIN_PAGE_MAX_LEVEL"
    and "2 * pk_y k \<noteq> i32_min" "is_surface k \<or> i32_min < pk_y k"
  shows "distinct cs \<and> length cs = (if is_surface k then 4 else 8) \<and>
    (\<forall>c. c \<in> set cs \<longleftrightarrow> page_parent c = Some k \<and> (is_surface c \<longleftrightarrow> is_surface k))"
proof (cases "is_surface k")
  case True
  note l = surface_children_list [OF assms(1) True]
  have y: "pk_y k = i32_min" using True by (simp add: is_surface_def)
  have "c \<in> set cs \<longleftrightarrow> page_parent c = Some k \<and> (is_surface c \<longleftrightarrow> is_surface k)" for c
  proof -
    have "page_parent c = Some k \<and> is_surface c \<longleftrightarrow>
      pk_level c = pk_level k - 1 \<and> pk_x c div 2 = pk_x k \<and> pk_y c = i32_min \<and> pk_z c div 2 = pk_z k"
      using l assms(2) y by (auto simp: page_parent_def is_surface_def intro!: page_key_eqI)
    also have "\<dots> \<longleftrightarrow> c \<in> set cs"
      unfolding half_child using l by (cases c) (auto simp: page_at_def)
    finally show ?thesis using True by auto
  qed
  then show ?thesis using True l by simp
next
  case False
  then have "page_children k = Some cs" using assms(1) by (auto simp: refinement_children_def split: if_splits)
  note l = volume_children_list [OF this]
  have y: "i32_min < pk_y k" using assms(4) False by simp
  have "c \<in> set cs \<longleftrightarrow> page_parent c = Some k \<and> (is_surface c \<longleftrightarrow> is_surface k)" for c
  proof -
    have "page_parent c = Some k \<and> \<not> is_surface c \<longleftrightarrow>
      pk_level c = pk_level k - 1 \<and> pk_x c div 2 = pk_x k \<and> pk_y c div 2 = pk_y k \<and> pk_z c div 2 = pk_z k"
      using l assms(2,3) y by (auto simp: page_parent_def is_surface_def intro!: page_key_eqI)
    also have "\<dots> \<longleftrightarrow> c \<in> set cs"
      unfolding half_child using l by (cases c) (auto simp: page_at_def)
    finally show ?thesis using False by auto
  qed
  then show ?thesis using False l by (simp add: distinct_map)
qed

theorem refinement_children_parent_witness:
  "page_at 1 5 i32_min (-3) \<in> set (the (refinement_children (page_at 2 2 i32_min (-2)))) \<and>
   page_parent (page_at 1 5 i32_min (-3)) = Some (page_at 2 2 i32_min (-2))"
proof -
  obtain cs where cs: "refinement_children (page_at 2 2 i32_min (-2)) = Some cs"
    by (simp add: refinement_children_def is_surface_def i32_checked_mul_def i32_try_def i32_ok_def)
  have "page_parent (page_at 1 5 i32_min (-3)) = Some (page_at 2 2 i32_min (-2))"
    by (simp add: page_parent_def is_surface_def)
  with refinement_children_parent [OF cs] cs show ?thesis by (simp add: is_surface_def)
qed

subsection \<open>Ownership\<close>

definition owns_column :: "page_key \<Rightarrow> int \<Rightarrow> int \<Rightarrow> bool" where
  "owns_column k x z \<longleftrightarrow> (case horizontal_bounds k of None \<Rightarrow> False
     | Some ((x0, z0), (x1, z1)) \<Rightarrow> x0 \<le> x \<and> x < x1 \<and> z0 \<le> z \<and> z < z1)"

lemma horizontal_bounds_Some:
  assumes "key_ok k" "pk_level k \<le> 20"
  shows "horizontal_bounds k =
    (let s = page_span k; x = pk_x k * s; z = pk_z k * s in
     if i32_ok x \<and> i32_ok z \<and> i32_ok (x + s) \<and> i32_ok (z + s) then Some ((x, z), (x + s, z + s)) else None)"
proof -
  have s: "0 < page_span k" "page_span k \<le> 2 ^ 25"
  proof -
    have "(2 :: int) ^ pk_level k \<le> 2 ^ 20" using assms(2) by (intro power_increasing) auto
    then show "0 < page_span k" "page_span k \<le> 2 ^ 25" by (simp_all add: page_span_def)
  qed
  have "-9223372036854775808 \<le> w * page_span k \<and> w * page_span k + page_span k \<le> 9223372036854775807"
    if "i32_ok w" for w
  proof -
    have "\<bar>w\<bar> \<le> 2147483648" using that by (auto simp: i32_ok_def)
    then have "\<bar>w * page_span k\<bar> \<le> 2147483648 * 2 ^ 25"
      using s unfolding abs_mult by (intro mult_mono) auto
    with s show ?thesis by (auto simp: abs_le_iff)
  qed
  then have "i64_try (pk_x k * page_span k) = Some (pk_x k * page_span k)"
    "i64_try (pk_z k * page_span k) = Some (pk_z k * page_span k)"
    "i64_try (pk_x k * page_span k + page_span k) = Some (pk_x k * page_span k + page_span k)"
    "i64_try (pk_z k * page_span k + page_span k) = Some (pk_z k * page_span k + page_span k)"
    using assms(1) s by (fastforce simp: i64_try_def key_ok_def)+
  then show ?thesis using assms(2) by (auto simp: horizontal_bounds_def Let_def i32_try_def)
qed

lemma span_child: "0 < pk_level k \<Longrightarrow> page_span k = 2 * page_span (page_at (pk_level k - 1) x y z)"
  by (cases "pk_level k") (simp_all add: page_span_def)

lemma cell_contains: "0 < s \<Longrightarrow> (p * s \<le> w \<and> w < p * s + s) \<longleftrightarrow> w div s = p" for w s p :: int
proof
  assume s: "0 < s" and b: "p * s \<le> w \<and> w < p * s + s"
  then have "w = p * s + (w - p * s)" "0 \<le> w - p * s" "w - p * s < s" by auto
  then show "w div s = p" by (metis div_mult_self3 div_pos_pos_trivial add.right_neutral s not_less_iff_gr_or_eq)
next
  assume s: "0 < s" and "w div s = p"
  then have "w = p * s + w mod s" by (metis div_mult_mod_eq)
  with s show "p * s \<le> w \<and> w < p * s + s" using pos_mod_bound [of s w] pos_mod_sign [of s w] by linarith
qed

lemma span_pos: "0 < page_span k"
  by (simp add: page_span_def)

lemma bounds_level: "horizontal_bounds k \<noteq> None \<Longrightarrow> pk_level k \<le> 20"
  by (auto simp: horizontal_bounds_def split: if_splits)

lemma owns_column_div:
  assumes "key_ok k" "horizontal_bounds k \<noteq> None"
  shows "owns_column k x z \<longleftrightarrow> x div page_span k = pk_x k \<and> z div page_span k = pk_z k"
  using assms(2) horizontal_bounds_Some [OF assms(1) bounds_level [OF assms(2)]]
  unfolding cell_contains [OF span_pos, symmetric]
  by (auto simp: owns_column_def Let_def split: if_splits)

lemma i32_between: "i32_ok a \<Longrightarrow> i32_ok b \<Longrightarrow> a \<le> w \<Longrightarrow> w \<le> b \<Longrightarrow> i32_ok w"
  by (simp add: i32_ok_def)

lemma surface_child_bounds:
  assumes k: "key_ok k" "is_surface k" and b: "horizontal_bounds k \<noteq> None"
    and cs: "refinement_children k = Some cs" and c: "c \<in> set cs"
  shows "key_ok c" and "horizontal_bounds c \<noteq> None" and "page_span k = 2 * page_span c"
proof -
  note l = surface_children_list [OF cs k(2)]
  obtain dx dz where d: "dx \<in> {0, 1}" "dz \<in> {0, 1}"
    and c': "c = page_at (pk_level k - 1) (2 * pk_x k + dx) i32_min (2 * pk_z k + dz)"
    using c l by auto
  show t: "page_span k = 2 * page_span c" using span_child [of k] l unfolding c' by blast
  have s: "0 < page_span c" by (rule span_pos)
  have "page_span k \<ge> 2" using t s by linarith
  have B: "i32_ok (pk_x k * page_span k)" "i32_ok (pk_x k * page_span k + page_span k)"
    "i32_ok (pk_z k * page_span k)" "i32_ok (pk_z k * page_span k + page_span k)"
    using b horizontal_bounds_Some [OF k(1) bounds_level [OF b]] by (auto simp: Let_def split: if_splits)
  have even: "i32_ok (2 * w) \<Longrightarrow> e \<in> {0, 1} \<Longrightarrow> i32_ok (2 * w + e)" for w e
    by (auto simp: i32_ok_def)
  show key: "key_ok c" using k l even d unfolding c' key_ok_def by (auto simp: i32_ok_def)
  have in_x: "i32_ok ((2 * w + e) * page_span c) \<and> i32_ok ((2 * w + e) * page_span c + page_span c)"
    if "i32_ok (w * page_span k)" "i32_ok (w * page_span k + page_span k)" "e \<in> {0, 1}" for w e
  proof -
    have "(2 * w + e) * page_span c = w * page_span k + e * page_span c" by (simp add: t algebra_simps)
    moreover have "0 \<le> e * page_span c" "e * page_span c \<le> page_span c" using that(3) s by auto
    ultimately show ?thesis
      using that(1,2) s t by (auto intro: i32_between [OF that(1,2)])
  qed
  have "pk_level c \<le> 20" using bounds_level [OF b] unfolding c' by simp
  from horizontal_bounds_Some [OF key this] in_x [OF B(1,2) d(1)] in_x [OF B(3,4) d(2)]
  show "horizontal_bounds c \<noteq> None" by (simp add: Let_def c')
qed

text \<open>
  C16: the children of a surface page tile it. If a surface page with \<open>i32\<close> coordinates has
  horizontal bounds and is refined, every child has bounds, and a voxel column is owned by the page
  precisely when exactly one child owns it (and then no column outside the page is owned by a child).
\<close>

theorem surface_children_tile:
  assumes k: "key_ok k" "is_surface k" and b: "horizontal_bounds k \<noteq> None"
    and cs: "refinement_children k = Some cs"
  shows "(\<forall>c \<in> set cs. horizontal_bounds c \<noteq> None) \<and>
    (owns_column k x z \<longleftrightarrow> (\<exists>!c. c \<in> set cs \<and> owns_column c x z)) \<and>
    (owns_column k x z \<longleftrightarrow> (\<exists>c \<in> set cs. owns_column c x z))"
proof -
  note cb = surface_child_bounds [OF k b cs]
  note l = surface_children_list [OF cs k(2)]
  let ?t = "page_span (page_at (pk_level k - 1) (2 * pk_x k) i32_min (2 * pk_z k))"
  have t: "page_span k = 2 * ?t" using span_child [of k] l by blast
  have tc: "page_span c = ?t" if "c \<in> set cs" for c using that l by (auto simp: page_span_def)
  have own: "owns_column c x z \<longleftrightarrow> x div ?t = pk_x c \<and> z div ?t = pk_z c" if "c \<in> set cs" for c
    using owns_column_div [OF cb(1) [OF that] cb(2) [OF that]] tc [OF that] by simp
  have half: "w div page_span k = w div ?t div 2" for w
    unfolding t using zdiv_zmult2_eq [of 2 w ?t] by (simp add: mult.commute)
  have "owns_column k x z \<longleftrightarrow> x div ?t div 2 = pk_x k \<and> z div ?t div 2 = pk_z k"
    using owns_column_div [OF k(1) b] by (simp only: half)
  also have "\<dots> \<longleftrightarrow> page_at (pk_level k - 1) (x div ?t) i32_min (z div ?t) \<in> set cs"
    unfolding half_child using l by auto
  finally have main: "owns_column k x z \<longleftrightarrow> page_at (pk_level k - 1) (x div ?t) i32_min (z div ?t) \<in> set cs" .
  have uniq: "c = page_at (pk_level k - 1) (x div ?t) i32_min (z div ?t)"
    if "c \<in> set cs" "owns_column c x z" for c
    using own [OF that(1)] that l by auto
  have hit: "owns_column (page_at (pk_level k - 1) (x div ?t) i32_min (z div ?t)) x z" if "owns_column k x z"
    using own main that by simp
  have some: "owns_column k x z \<longleftrightarrow> (\<exists>c \<in> set cs. owns_column c x z)"
  proof
    assume "owns_column k x z"
    with main hit show "\<exists>c \<in> set cs. owns_column c x z" by blast
  next
    assume "\<exists>c \<in> set cs. owns_column c x z"
    then obtain c where "c \<in> set cs" "owns_column c x z" by blast
    with uniq [OF this] main show "owns_column k x z" by simp
  qed
  have one: "(\<exists>c \<in> set cs. owns_column c x z) \<longleftrightarrow> (\<exists>!c. c \<in> set cs \<and> owns_column c x z)"
    using uniq by blast
  show ?thesis using cb(2) some one by blast
qed

theorem surface_children_tile_witness:
  "\<exists>cs. refinement_children (page_at 1 (-1) i32_min 2) = Some cs \<and>
     (owns_column (page_at 1 (-1) i32_min 2) (-5) 130 \<longleftrightarrow> (\<exists>c \<in> set cs. owns_column c (-5) 130))"
proof -
  let ?k = "page_at 1 (-1) i32_min 2"
  have k: "key_ok ?k" "is_surface ?k" by (simp_all add: key_ok_def is_surface_def i32_ok_def)
  have b: "horizontal_bounds ?k \<noteq> None"
    by (simp add: horizontal_bounds_def page_span_def i64_try_def i32_try_def i32_ok_def Let_def)
  obtain cs where cs: "refinement_children ?k = Some cs"
    by (simp add: refinement_children_def is_surface_def i32_checked_mul_def i32_try_def i32_ok_def)
  from surface_children_tile [OF k b cs] cs show ?thesis by blast
qed

end
