(* ===== verification/Revisions.thy ===== *)
theory Revisions
  imports Terrain_Key Wire_Bytes
begin

text \<open>
  Revision fences and authoritative edit floors (runtime/src/lib.rs): the serial-number order of
  wrapping revisions, canonical dependency vectors, the merge walks that intersect and invalidate
  them, and the client's floors that advance with every observed commit. The lemmas relate the
  walks to their set specifications and show that incremental invalidation agrees with a full
  check and that floors do not depend on the order commits arrive in.
\<close>

definition TERRAIN_COVERAGE_ROOT_LEVEL :: nat where "TERRAIN_COVERAGE_ROOT_LEVEL = 10"

definition revision_satisfies :: "u64 \<Rightarrow> u64 \<Rightarrow> bool" where
  "revision_satisfies candidate requested \<longleftrightarrow>
     candidate = requested \<or> candidate - requested < push_bit 63 1"

text \<open>\<open>ChunkRevision\<close> and \<open>TerrainPageRevision\<close>: one record over the type of its key.\<close>

record 'k dependency =
  dep_key :: 'k
  dep_revision :: u64

type_synonym chunk_revision = "chunk_coord dependency"
type_synonym page_revision = "page_key dependency"

definition dep :: "'k \<Rightarrow> u64 \<Rightarrow> 'k dependency" where
  "dep k r = \<lparr>dep_key = k, dep_revision = r\<rparr>"

datatype fence_error =
  ZeroRevision
| ConflictingChunkRevision chunk_coord
| ConflictingTerrainPageRevision page_key

datatype change_error = UnrepresentableTerrainDependency chunk_coord

subsection \<open>Fences\<close>

fun canonical_loop ::
  "('k \<Rightarrow> fence_error) \<Rightarrow> 'k dependency list \<Rightarrow> 'k dependency list \<Rightarrow> fence_error + 'k dependency list" where
  "canonical_loop conflict [] canonical = Inr canonical"
| "canonical_loop conflict (d # ds) canonical =
     (if dep_revision d = 0 then Inl ZeroRevision
      else if canonical \<noteq> [] \<and> dep_key (last canonical) = dep_key d
      then if dep_revision (last canonical) \<noteq> dep_revision d then Inl (conflict (dep_key d))
           else canonical_loop conflict ds canonical
      else canonical_loop conflict ds (canonical @ [d]))"

definition canonical_chunk_revisions :: "chunk_revision list \<Rightarrow> fence_error + chunk_revision list" where
  "canonical_chunk_revisions revisions =
     canonical_loop ConflictingChunkRevision (sort_key dep_key revisions) []"

definition canonical_terrain_page_revisions :: "page_revision list \<Rightarrow> fence_error + page_revision list" where
  "canonical_terrain_page_revisions revisions =
     canonical_loop ConflictingTerrainPageRevision (sort_key dep_key revisions) []"

definition REVISION_FENCE_DIGEST_OFFSET :: u64 where "REVISION_FENCE_DIGEST_OFFSET = 0xcbf29ce484222325"
definition REVISION_FENCE_DIGEST_PRIME :: u64 where "REVISION_FENCE_DIGEST_PRIME = 0x00000100000001b3"

definition digest_bytes :: "u8 list \<Rightarrow> u64 \<Rightarrow> u64" where
  "digest_bytes bytes digest =
     fold (\<lambda>byte digest. (digest XOR ucast byte) * REVISION_FENCE_DIGEST_PRIME) bytes digest"

definition revision_fence_digest :: "chunk_revision list \<Rightarrow> page_revision list \<Rightarrow> u64" where
  "revision_fence_digest chunks terrain_pages =
     (let digest = digest_bytes (ascii ''world-revision-fence-v1'') REVISION_FENCE_DIGEST_OFFSET;
          digest = digest_bytes (u64_le (of_nat (length chunks))) digest;
          digest = fold (\<lambda>d digest.
            digest_bytes (u64_le (dep_revision d))
             (digest_bytes (i32_le (cz (dep_key d)))
              (digest_bytes (i32_le (cy (dep_key d)))
               (digest_bytes (i32_le (cx (dep_key d))) digest)))) chunks digest;
          digest = digest_bytes (u64_le (of_nat (length terrain_pages))) digest
      in fold (\<lambda>d digest.
            digest_bytes (u64_le (dep_revision d))
             (digest_bytes (i32_le (pk_z (dep_key d)))
              (digest_bytes (i32_le (pk_y (dep_key d)))
               (digest_bytes (i32_le (pk_x (dep_key d)))
                (digest_bytes [of_nat (pk_level (dep_key d))] digest))))) terrain_pages digest)"

record revision_fence =
  rf_chunks :: "chunk_revision list"
  rf_terrain_pages :: "page_revision list"
  rf_digest :: u64

definition fence_new :: "chunk_revision list \<Rightarrow> page_revision list \<Rightarrow> fence_error + revision_fence" where
  "fence_new chunks terrain_pages =
     attempt (canonical_chunk_revisions chunks) (\<lambda>chunks.
     attempt (canonical_terrain_page_revisions terrain_pages) (\<lambda>terrain_pages.
       Inr \<lparr>rf_chunks = chunks, rf_terrain_pages = terrain_pages,
            rf_digest = revision_fence_digest chunks terrain_pages\<rparr>))"

definition fence_eq :: "revision_fence \<Rightarrow> revision_fence \<Rightarrow> bool" where
  "fence_eq a b \<longleftrightarrow> rf_chunks a = rf_chunks b \<and> rf_terrain_pages a = rf_terrain_pages b"

subsection \<open>Changes\<close>

record world_change =
  wc_chunks :: "chunk_revision list"
  wc_terrain_pages :: "page_revision list"
  wc_revalidation_pages :: "page_revision list"
  wc_invalidated_roots :: "page_key list"

definition world_change_default :: world_change where
  "world_change_default =
     \<lparr>wc_chunks = [], wc_terrain_pages = [], wc_revalidation_pages = [], wc_invalidated_roots = []\<rparr>"

fun sorted_keys_intersect :: "'k::linorder dependency list \<Rightarrow> 'k dependency list \<Rightarrow> bool" where
  "sorted_keys_intersect (l # ls) (r # rs) =
     (case cmp (dep_key l) (dep_key r) of
        Less \<Rightarrow> sorted_keys_intersect ls (r # rs)
      | Equal \<Rightarrow> True
      | Greater \<Rightarrow> sorted_keys_intersect (l # ls) rs)"
| "sorted_keys_intersect _ _ = False"

fun sorted_revisions_invalidate :: "'k::linorder dependency list \<Rightarrow> 'k dependency list \<Rightarrow> bool" where
  "sorted_revisions_invalidate (c # cs) (a # as) =
     (case cmp (dep_key c) (dep_key a) of
        Less \<Rightarrow> sorted_revisions_invalidate cs (a # as)
      | Equal \<Rightarrow> if \<not> revision_satisfies (dep_revision a) (dep_revision c) then True
                 else sorted_revisions_invalidate cs as
      | Greater \<Rightarrow> sorted_revisions_invalidate (c # cs) as)"
| "sorted_revisions_invalidate _ _ = False"

definition change_is_empty :: "world_change \<Rightarrow> bool" where
  "change_is_empty c \<longleftrightarrow> wc_chunks c = [] \<and> wc_terrain_pages c = []"

definition change_intersects :: "world_change \<Rightarrow> revision_fence \<Rightarrow> bool" where
  "change_intersects c fence \<longleftrightarrow>
     sorted_keys_intersect (wc_chunks c) (rf_chunks fence) \<or>
     sorted_keys_intersect (wc_terrain_pages c) (rf_terrain_pages fence)"

definition change_invalidates :: "world_change \<Rightarrow> revision_fence \<Rightarrow> bool" where
  "change_invalidates c fence \<longleftrightarrow>
     sorted_revisions_invalidate (wc_chunks c) (rf_chunks fence) \<or>
     sorted_revisions_invalidate (wc_terrain_pages c) (rf_terrain_pages fence)"

definition terrain_directory_revisions :: "world_change \<Rightarrow> page_revision list" where
  "terrain_directory_revisions c = filter (\<lambda>d. pk_level (dep_key d) > 0) (wc_revalidation_pages c)"

subsection \<open>Authoritative floors\<close>

record edit_revisions =
  er_resync_watermark :: "u64 option"
  er_voxels :: "(voxel_coord, u64) btree"
  er_chunks :: "(chunk_coord, u64) btree"
  er_terrain_pages :: "(page_key, u64) btree"

definition edit_revisions_default :: edit_revisions where
  "edit_revisions_default =
     \<lparr>er_resync_watermark = None, er_voxels = [], er_chunks = [], er_terrain_pages = []\<rparr>"

definition commit_is_after_resync :: "edit_revisions \<Rightarrow> u64 \<Rightarrow> bool" where
  "commit_is_after_resync er revision \<longleftrightarrow>
     (case er_resync_watermark er of
        None \<Rightarrow> True
      | Some watermark \<Rightarrow> revision \<noteq> watermark \<and> revision_satisfies revision watermark)"

definition advance_revision :: "'k::linorder \<Rightarrow> u64 \<Rightarrow> ('k, u64) btree \<Rightarrow> bool \<times> ('k, u64) btree" where
  "advance_revision key candidate revisions =
     (case btree_get revisions key of
        Some current \<Rightarrow>
          if candidate \<noteq> current \<and> revision_satisfies candidate current
          then (True, btree_update key (\<lambda>_. candidate) revisions) else (False, revisions)
      | None \<Rightarrow> (True, btree_insert key candidate revisions))"

fun advance_all :: "'k::linorder list \<Rightarrow> u64 \<Rightarrow> ('k, u64) btree \<Rightarrow> bool list \<times> ('k, u64) btree" where
  "advance_all [] revision revisions = ([], revisions)"
| "advance_all (k # ks) revision revisions =
     (let (advanced, revisions) = advance_revision k revision revisions;
          (rest, revisions) = advance_all ks revision revisions
      in (advanced # rest, revisions))"

text \<open>\<open>filter_map\<close> over the keys that advanced.\<close>

definition advanced_deps :: "'k list \<Rightarrow> bool list \<Rightarrow> u64 \<Rightarrow> 'k dependency list" where
  "advanced_deps keys flags revision = map (\<lambda>(k, _). dep k revision) (filter snd (zip keys flags))"

fun surface_leaves :: "chunk_coord \<Rightarrow> (int \<times> int) list \<Rightarrow> change_error + page_key list" where
  "surface_leaves coord [] = Inr []"
| "surface_leaves coord ((offset_x, offset_z) # offsets) =
     attempt (ok_or (UnrepresentableTerrainDependency coord) (i32_checked_add (cx coord) offset_x)) (\<lambda>x.
     attempt (ok_or (UnrepresentableTerrainDependency coord) (i32_checked_add (cz coord) offset_z)) (\<lambda>z.
     let leaf = page_surface 0 x z in
     if horizontal_bounds leaf = None then Inl (UnrepresentableTerrainDependency coord) else
     attempt (surface_leaves coord offsets) (\<lambda>leaves. Inr (leaf # leaves))))"

fun all_surface_leaves :: "chunk_coord list \<Rightarrow> change_error + page_key list" where
  "all_surface_leaves [] = Inr []"
| "all_surface_leaves (coord # coords) =
     (if \<not> is_world_representable coord then Inl (UnrepresentableTerrainDependency coord) else
      attempt (surface_leaves coord [(0, 0), (-1, 0), (0, -1), (-1, -1)]) (\<lambda>leaves.
      attempt (all_surface_leaves coords) (\<lambda>rest. Inr (leaves @ rest))))"

definition surface_edit_dependencies :: "chunk_coord list \<Rightarrow> change_error + page_key list" where
  "surface_edit_dependencies affected_chunks =
     attempt (all_surface_leaves affected_chunks) (\<lambda>leaves.
       Inr (btree_set (concat (map (\<lambda>leaf.
         List.map_filter (ancestor_at leaf) [0..<Suc TERRAIN_COVERAGE_ROOT_LEVEL]) (btree_set leaves)))))"

definition chunk_floor :: "edit_revisions \<Rightarrow> chunk_coord \<Rightarrow> u64" where
  "chunk_floor er coord = btree_get_or 1 (er_chunks er) coord"

definition terrain_page_floor :: "edit_revisions \<Rightarrow> page_key \<Rightarrow> u64" where
  "terrain_page_floor er key = btree_get_or 1 (er_terrain_pages er) key"

definition fence_is_current :: "edit_revisions \<Rightarrow> revision_fence \<Rightarrow> bool" where
  "fence_is_current er fence \<longleftrightarrow>
     list_all (\<lambda>d. revision_satisfies (dep_revision d) (chunk_floor er (dep_key d))) (rf_chunks fence) \<and>
     list_all (\<lambda>d. revision_satisfies (dep_revision d) (terrain_page_floor er (dep_key d))) (rf_terrain_pages fence)"

definition observe_world_change_batch ::
  "voxel_coord list \<Rightarrow> u64 \<Rightarrow> chunk_coord list \<Rightarrow> edit_revisions \<Rightarrow>
   (change_error + (bool list \<times> world_change)) \<times> edit_revisions" where
  "observe_world_change_batch coords revision affected er =
     (if \<not> commit_is_after_resync er revision
      then (Inr (replicate (length coords) False, world_change_default), er)
      else let affected_chunks = btree_set affected in
        case surface_edit_dependencies affected_chunks of
          Inl e \<Rightarrow> (Inl e, er)
        | Inr terrain_page_keys \<Rightarrow>
            (let (apply_values, voxels) = advance_all coords revision (er_voxels er);
                 (chunk_flags, chunk_floors) = advance_all affected_chunks revision (er_chunks er);
                 (page_flags, page_floors) = advance_all terrain_page_keys revision (er_terrain_pages er);
                 chunks = advanced_deps affected_chunks chunk_flags revision;
                 terrain_pages = advanced_deps terrain_page_keys page_flags revision;
                 er = er\<lparr>er_voxels := voxels, er_chunks := chunk_floors, er_terrain_pages := page_floors\<rparr>;
                 invalidated_terrain_roots =
                   map dep_key (filter (\<lambda>d. pk_level (dep_key d) = TERRAIN_COVERAGE_ROOT_LEVEL) terrain_pages);
                 terrain_revalidation_pages =
                   map (\<lambda>key. dep key (terrain_page_floor er key))
                     (filter (\<lambda>key. case ancestor_at key TERRAIN_COVERAGE_ROOT_LEVEL of
                        None \<Rightarrow> False | Some root \<Rightarrow> root \<in> set invalidated_terrain_roots) terrain_page_keys)
             in (Inr (apply_values,
                   \<lparr>wc_chunks = chunks, wc_terrain_pages = terrain_pages,
                    wc_revalidation_pages = terrain_revalidation_pages,
                    wc_invalidated_roots = invalidated_terrain_roots\<rparr>), er)))"

definition observe_commit_batch ::
  "voxel_coord list \<Rightarrow> u64 \<Rightarrow> chunk_coord list \<Rightarrow> edit_revisions \<Rightarrow> bool list \<times> edit_revisions" where
  "observe_commit_batch coords revision affected er =
     (case observe_world_change_batch coords revision affected er of
        (Inr (applied_values, _), er) \<Rightarrow> (applied_values, er)
      | (Inl _, er) \<Rightarrow> (replicate (length coords) False, er))"

definition observe_commit ::
  "voxel_coord \<Rightarrow> u64 \<Rightarrow> chunk_coord list \<Rightarrow> edit_revisions \<Rightarrow> bool \<times> edit_revisions" where
  "observe_commit coord revision affected er =
     (let (applied, er) = observe_commit_batch [coord] revision affected er in (hd applied, er))"

definition revisions_clear :: "edit_revisions \<Rightarrow> edit_revisions" where
  "revisions_clear er =
     er\<lparr>er_resync_watermark := None, er_voxels := [], er_chunks := [], er_terrain_pages := []\<rparr>"

text \<open>\<open>None\<close> is the panic on revision zero.\<close>

definition reset_to_revision :: "u64 \<Rightarrow> edit_revisions \<Rightarrow> (bool \<times> edit_revisions) option" where
  "reset_to_revision revision er =
     (if revision = 0 then None
      else if (case er_resync_watermark er of
                 None \<Rightarrow> False
               | Some watermark \<Rightarrow> revision = watermark \<or> \<not> revision_satisfies revision watermark)
      then Some (False, er)
      else Some (True, er\<lparr>er_resync_watermark := Some revision, er_voxels := [], er_chunks := [],
                          er_terrain_pages := []\<rparr>))"

subsection \<open>Merge walks\<close>

definition deps_sorted :: "'k::linorder dependency list \<Rightarrow> bool" where
  "deps_sorted ds \<longleftrightarrow> sorted_wrt (<) (map dep_key ds)"

lemma deps_sorted_Cons [simp]:
  "deps_sorted (d # ds) \<longleftrightarrow> deps_sorted ds \<and> (\<forall>x \<in> set ds. dep_key d < dep_key x)"
  by (auto simp: deps_sorted_def)

lemma deps_sorted_Nil [simp]: "deps_sorted []"
  by (simp add: deps_sorted_def)

lemma cmp_eval: "a < b \<Longrightarrow> cmp a b = Less" "b < a \<Longrightarrow> cmp a b = Greater" "cmp a a = Equal"
  by simp_all

lemma intersect_iff:
  "deps_sorted l \<Longrightarrow> deps_sorted r \<Longrightarrow>
   sorted_keys_intersect l r \<longleftrightarrow> (\<exists>a \<in> set l. \<exists>b \<in> set r. dep_key a = dep_key b)"
proof (induction l r rule: sorted_keys_intersect.induct)
  case (1 l ls r rs)
  show ?case
  proof (cases "cmp (dep_key l) (dep_key r)")
    case Less
    then have "\<forall>b \<in> set (r # rs). dep_key l \<noteq> dep_key b" using "1.prems" by fastforce
    with 1 Less show ?thesis by (auto simp: cmp_eval)
  next
    case Greater
    then have "\<forall>a \<in> set (l # ls). dep_key a \<noteq> dep_key r" using "1.prems" by fastforce
    with 1 Greater show ?thesis by (auto simp: cmp_eval)
  next
    case Equal
    then show ?thesis by (auto simp: cmp_eval)
  qed
qed auto

lemma invalidate_iff:
  "deps_sorted c \<Longrightarrow> deps_sorted a \<Longrightarrow> sorted_revisions_invalidate c a \<longleftrightarrow>
     (\<exists>x \<in> set c. \<exists>y \<in> set a. dep_key x = dep_key y \<and> \<not> revision_satisfies (dep_revision y) (dep_revision x))"
proof (induction c a rule: sorted_revisions_invalidate.induct)
  case (1 c cs a as)
  show ?case
  proof (cases "cmp (dep_key c) (dep_key a)")
    case Less
    then have "\<forall>y \<in> set (a # as). dep_key c \<noteq> dep_key y" using "1.prems" by fastforce
    with 1 Less show ?thesis by (auto simp: cmp_eval)
  next
    case Greater
    then have "\<forall>x \<in> set (c # cs). dep_key x \<noteq> dep_key a" using "1.prems" by fastforce
    with 1 Greater show ?thesis by (auto simp: cmp_eval)
  next
    case Equal
    then have "\<forall>y \<in> set as. dep_key c \<noteq> dep_key y" "\<forall>x \<in> set cs. dep_key x \<noteq> dep_key a"
      using "1.prems" by fastforce+
    with 1 Equal show ?thesis by (auto simp: cmp_eval)
  qed
qed auto

subsection \<open>Canonical dependencies\<close>

lemma canonical_loop_Inr:
  assumes "canonical_loop conflict ds canonical = Inr out" "sorted (map dep_key (canonical @ ds))"
    and "deps_sorted canonical" "\<forall>d \<in> set canonical. dep_revision d \<noteq> 0"
  shows "deps_sorted out \<and> set out = set canonical \<union> set ds \<and> (\<forall>d \<in> set out. dep_revision d \<noteq> 0)"
  using assms
proof (induction conflict ds canonical rule: canonical_loop.induct)
  case (2 conflict d ds canonical)
  have nz: "dep_revision d \<noteq> 0" using "2.prems"(1) by (auto split: if_splits)
  show ?case
  proof (cases "canonical \<noteq> [] \<and> dep_key (last canonical) = dep_key d")
    case True
    with "2.prems"(1) nz have r: "dep_revision (last canonical) = dep_revision d"
      and rest: "canonical_loop conflict ds canonical = Inr out" by (auto split: if_splits)
    from True r have "d = last canonical" by simp
    then have d: "d \<in> set canonical" using True by simp
    have "sorted (map dep_key (canonical @ ds))" using "2.prems"(2) by (auto simp: sorted_append)
    from "2.IH"(1) [OF nz True _ rest this "2.prems"(3,4)] r d show ?thesis by auto
  next
    case False
    with "2.prems"(1) nz have rest: "canonical_loop conflict ds (canonical @ [d]) = Inr out"
      by (auto split: if_splits)
    have "\<forall>x \<in> set canonical. dep_key x < dep_key d"
    proof (cases canonical rule: rev_cases)
      case (snoc xs y)
      then have "dep_key y \<noteq> dep_key d" "dep_key y \<le> dep_key d"
        using False "2.prems"(2) by (auto simp: sorted_append)
      with snoc "2.prems"(3) show ?thesis by (auto simp: deps_sorted_def sorted_wrt_append)
    qed simp
    with "2.prems"(3) have "deps_sorted (canonical @ [d])" by (auto simp: deps_sorted_def sorted_wrt_append)
    from "2.IH"(2) [OF nz False rest _ this] "2.prems"(2,4) nz show ?thesis by auto
  qed
qed auto

lemma canonical_loop_Inl:
  assumes "canonical_loop conflict ds canonical = Inl e"
  shows "(\<exists>d \<in> set ds. dep_revision d = 0) \<or>
    (\<exists>a \<in> set canonical \<union> set ds. \<exists>b \<in> set ds. dep_key a = dep_key b \<and> dep_revision a \<noteq> dep_revision b \<and> e = conflict (dep_key b))"
  using assms
proof (induction conflict ds canonical rule: canonical_loop.induct)
  case (2 conflict d ds canonical)
  consider "dep_revision d = 0"
    | "canonical \<noteq> []" "dep_key (last canonical) = dep_key d" "dep_revision (last canonical) \<noteq> dep_revision d"
      "e = conflict (dep_key d)"
    | "dep_revision d \<noteq> 0" "canonical \<noteq> [] \<and> dep_key (last canonical) = dep_key d"
      "\<not> dep_revision (last canonical) \<noteq> dep_revision d" "canonical_loop conflict ds canonical = Inl e"
    | "dep_revision d \<noteq> 0" "\<not> (canonical \<noteq> [] \<and> dep_key (last canonical) = dep_key d)"
      "canonical_loop conflict ds (canonical @ [d]) = Inl e"
    using "2.prems" by (auto split: if_splits)
  then show ?case
  proof cases
    case 2
    then have "last canonical \<in> set canonical" by simp
    with 2 show ?thesis by auto
  next
    case 3
    from "2.IH"(1) [OF 3] show ?thesis by auto
  next
    case 4
    from "2.IH"(2) [OF 4] show ?thesis by auto
  qed simp
qed simp

lemma canonical_revisions_iff:
  fixes ds :: "'k::linorder dependency list"
  assumes "canonical_loop conflict (sort_key dep_key ds) [] = Inr out"
  shows "deps_sorted out" and "set out = set ds" and "\<forall>d \<in> set out. dep_revision d \<noteq> 0"
  using canonical_loop_Inr [OF assms] by simp_all

lemma deps_sorted_inj: "deps_sorted ds \<Longrightarrow> a \<in> set ds \<Longrightarrow> b \<in> set ds \<Longrightarrow> dep_key a = dep_key b \<Longrightarrow> a = b"
proof (induction ds)
  case (Cons d ds)
  then show ?case by fastforce
qed simp

definition declarations_ok :: "'k dependency list \<Rightarrow> bool" where
  "declarations_ok ds \<longleftrightarrow> (\<forall>d \<in> set ds. dep_revision d \<noteq> 0) \<and>
     (\<forall>a \<in> set ds. \<forall>b \<in> set ds. dep_key a = dep_key b \<longrightarrow> dep_revision a = dep_revision b)"

lemma canonical_accepts:
  fixes ds :: "'k::linorder dependency list"
  shows "(\<exists>out. canonical_loop conflict (sort_key dep_key ds) [] = Inr out) \<longleftrightarrow> declarations_ok ds"
proof
  assume "\<exists>out. canonical_loop conflict (sort_key dep_key ds) [] = Inr out"
  then obtain out where out: "canonical_loop conflict (sort_key dep_key ds) [] = Inr out" by blast
  note c = canonical_revisions_iff [OF out]
  show "declarations_ok ds"
    using c(3) deps_sorted_inj [OF c(1)] unfolding declarations_ok_def c(2) by metis
next
  assume ok: "declarations_ok ds"
  show "\<exists>out. canonical_loop conflict (sort_key dep_key ds) [] = Inr out"
  proof (cases "canonical_loop conflict (sort_key dep_key ds) []")
    case (Inl e)
    from canonical_loop_Inl [OF Inl] have "(\<exists>d \<in> set ds. dep_revision d = 0) \<or>
        (\<exists>a \<in> set ds. \<exists>b \<in> set ds. dep_key a = dep_key b \<and> dep_revision a \<noteq> dep_revision b)" by auto
    with ok show ?thesis unfolding declarations_ok_def by blast
  qed blast
qed

lemma deps_sorted_unique: "deps_sorted a \<Longrightarrow> deps_sorted b \<Longrightarrow> set a = set b \<Longrightarrow> a = b"
proof -
  assume s: "deps_sorted a" "deps_sorted b" and eq: "set a = set b"
  have "inj_on dep_key (set a \<union> set b)"
    using deps_sorted_inj [OF s(1)] eq by (auto simp: inj_on_def)
  with s eq show "a = b"
    by (intro map_sorted_distinct_set_unique [of dep_key]) (auto simp: deps_sorted_def strict_sorted_iff)
qed

text \<open>
  C11: a fence is the canonical form of its declarations. \<open>WorldRevisionFence::new\<close> accepts exactly
  the declarations without a zero revision and without two revisions for one key; the accepted
  vectors are strictly sorted by key and hold the same dependencies, and two accepted declarations
  with the same dependencies, in whatever order and repetition, give the same fence and digest.
\<close>

theorem fence_new_canonical:
  "((\<exists>f. fence_new cs ps = Inr f) \<longleftrightarrow> declarations_ok cs \<and> declarations_ok ps) \<and>
   (\<forall>f. fence_new cs ps = Inr f \<longrightarrow>
      deps_sorted (rf_chunks f) \<and> set (rf_chunks f) = set cs \<and>
      deps_sorted (rf_terrain_pages f) \<and> set (rf_terrain_pages f) = set ps \<and>
      (\<forall>cs' ps' f'. fence_new cs' ps' = Inr f' \<and> set cs' = set cs \<and> set ps' = set ps \<longrightarrow> f' = f))"
proof -
  have acc: "(\<exists>f. fence_new cs ps = Inr f) \<longleftrightarrow> declarations_ok cs \<and> declarations_ok ps" for cs ps
    using canonical_accepts [of ConflictingChunkRevision cs]
      canonical_accepts [of ConflictingTerrainPageRevision ps]
    by (auto simp: fence_new_def canonical_chunk_revisions_def canonical_terrain_page_revisions_def)
  have shape: "deps_sorted (rf_chunks f) \<and> set (rf_chunks f) = set cs \<and>
      deps_sorted (rf_terrain_pages f) \<and> set (rf_terrain_pages f) = set ps \<and>
      rf_digest f = revision_fence_digest (rf_chunks f) (rf_terrain_pages f)"
    if "fence_new cs ps = Inr f" for cs ps f
    using that canonical_revisions_iff(1,2) [of ConflictingChunkRevision cs]
      canonical_revisions_iff(1,2) [of ConflictingTerrainPageRevision ps]
    by (auto simp: fence_new_def canonical_chunk_revisions_def canonical_terrain_page_revisions_def)
  have "f' = f" if f: "fence_new cs ps = Inr f" and f': "fence_new cs' ps' = Inr f'"
    and eq: "set cs' = set cs" "set ps' = set ps" for f f' cs' ps'
  proof -
    have "rf_chunks f' = rf_chunks f" "rf_terrain_pages f' = rf_terrain_pages f"
      using shape [OF f] shape [OF f'] eq by (auto intro: deps_sorted_unique)
    with shape [OF f] shape [OF f'] show ?thesis by simp
  qed
  with acc shape show ?thesis by blast
qed

theorem fence_new_canonical_witness:
  "\<exists>f. fence_new [dep (chunk_at 0 0 1) 5, dep (chunk_at 0 0 0) 2, dep (chunk_at 0 0 1) 5] [] = Inr f \<and>
     deps_sorted (rf_chunks f) \<and> set (rf_chunks f) = {dep (chunk_at 0 0 0) 2, dep (chunk_at 0 0 1) 5}"
proof -
  let ?a = "[dep (chunk_at 0 0 1) 5, dep (chunk_at 0 0 0) 2, dep (chunk_at 0 0 1) 5]"
  have ok: "declarations_ok ?a" "declarations_ok ([] :: page_revision list)"
    by (auto simp: declarations_ok_def dep_def)
  have set_a: "set ?a = {dep (chunk_at 0 0 0) 2, dep (chunk_at 0 0 1) 5}" by auto
  from ok fence_new_canonical [of ?a "[]"] obtain f where f: "fence_new ?a [] = Inr f" by blast
  with fence_new_canonical [of ?a "[]", THEN conjunct2, rule_format, OF f] show ?thesis
    unfolding set_a by blast
qed

subsection \<open>Advancing floors\<close>

text \<open>\<open>newest old r\<close>: the floor after a commit of revision \<open>r\<close> over an old floor, if any.\<close>

definition advances :: "u64 option \<Rightarrow> u64 \<Rightarrow> bool" where
  "advances old r \<longleftrightarrow> (case old of None \<Rightarrow> True | Some c \<Rightarrow> r \<noteq> c \<and> revision_satisfies r c)"

definition newest :: "u64 option \<Rightarrow> u64 \<Rightarrow> u64" where
  "newest old r = (case old of None \<Rightarrow> r
    | Some c \<Rightarrow> if r \<noteq> c \<and> revision_satisfies r c then r else c)"

lemma advance_revision_spec:
  assumes "btree_wf m"
  shows "fst (advance_revision k r m) = advances (btree_get m k) r"
    and "btree_wf (snd (advance_revision k r m))"
    and "btree_get (snd (advance_revision k r m)) k' =
      (if k' = k then Some (newest (btree_get m k) r) else btree_get m k')"
  using assms
  by (cases "btree_get m k", auto simp: advance_revision_def advances_def newest_def)+

lemma newest_again: "newest (Some (newest old r)) r = newest old r"
  by (simp add: newest_def split: option.split)

lemma advance_all_map:
  assumes "btree_wf m"
  shows "btree_wf (snd (advance_all ks r m))"
    and "btree_get (snd (advance_all ks r m)) k =
      (if k \<in> set ks then Some (newest (btree_get m k) r) else btree_get m k)"
proof -
  have "btree_wf (snd (advance_all ks r m)) \<and> btree_get (snd (advance_all ks r m)) k =
      (if k \<in> set ks then Some (newest (btree_get m k) r) else btree_get m k)"
    using assms
  proof (induction ks arbitrary: m)
    case (Cons a ks)
    note a = advance_revision_spec [OF Cons.prems, of a r]
    show ?case
      using Cons.IH [OF a(2)] a(3) by (auto simp: split_beta Let_def newest_again)
  qed simp
  then show "btree_wf (snd (advance_all ks r m))"
    "btree_get (snd (advance_all ks r m)) k =
      (if k \<in> set ks then Some (newest (btree_get m k) r) else btree_get m k)" by auto
qed

lemma advance_all_flags:
  assumes "btree_wf m" "distinct ks"
  shows "fst (advance_all ks r m) = map (\<lambda>k. advances (btree_get m k) r) ks"
  using assms
proof (induction ks arbitrary: m)
  case (Cons a ks)
  note a = advance_revision_spec [OF Cons.prems(1), of a r]
  have "map (\<lambda>k. advances (btree_get (snd (advance_revision a r m)) k) r) ks
      = map (\<lambda>k. advances (btree_get m k) r) ks"
    using Cons.prems(2) a(3) by auto
  with Cons.IH [OF a(2)] Cons.prems(2) a(1) show ?case by (simp add: split_beta Let_def)
qed simp

lemma advanced_deps_map: "advanced_deps ks (map p ks) r = map (\<lambda>k. dep k r) (filter p ks)"
  by (induction ks) (auto simp: advanced_deps_def)

lemma dep_simps [simp]: "dep_key (dep k r) = k" "dep_revision (dep k r) = r"
  by (simp_all add: dep_def)

definition er_wf :: "edit_revisions \<Rightarrow> bool" where
  "er_wf er \<longleftrightarrow> btree_wf (er_voxels er) \<and> btree_wf (er_chunks er) \<and> btree_wf (er_terrain_pages er)"

lemma surface_dependencies_sorted:
  "surface_edit_dependencies cs = Inr keys \<Longrightarrow> sorted_wrt (<) keys \<and> distinct keys"
  by (auto simp: surface_edit_dependencies_def strict_sorted_iff)

text \<open>The two shapes of an observed batch that is not stale.\<close>

lemma observe_cases:
  assumes wf: "er_wf er" and live: "commit_is_after_resync er r"
    and keys: "surface_edit_dependencies (btree_set affected) = Inr keys"
    and obs: "observe_world_change_batch coords r affected er = (res, er')"
  shows "\<exists>vals change. res = Inr (vals, change) \<and> er_wf er' \<and>
    wc_chunks change = map (\<lambda>k. dep k r) (filter (\<lambda>k. advances (btree_get (er_chunks er) k) r) (btree_set affected)) \<and>
    wc_terrain_pages change = map (\<lambda>k. dep k r) (filter (\<lambda>k. advances (btree_get (er_terrain_pages er) k) r) keys) \<and>
    er_resync_watermark er' = er_resync_watermark er \<and>
    (\<forall>v. btree_get (er_voxels er') v = (if v \<in> set coords then Some (newest (btree_get (er_voxels er) v) r) else btree_get (er_voxels er) v)) \<and>
    (\<forall>k. btree_get (er_chunks er') k = (if k \<in> set affected then Some (newest (btree_get (er_chunks er) k) r) else btree_get (er_chunks er) k)) \<and>
    (\<forall>k. btree_get (er_terrain_pages er') k = (if k \<in> set keys then Some (newest (btree_get (er_terrain_pages er) k) r) else btree_get (er_terrain_pages er) k))"
proof -
  have w: "btree_wf (er_voxels er)" "btree_wf (er_chunks er)" "btree_wf (er_terrain_pages er)"
    using wf by (auto simp: er_wf_def)
  have d: "distinct keys" using surface_dependencies_sorted [OF keys] by blast
  note m = advance_all_map [OF w(1)] advance_all_map [OF w(2)] advance_all_map [OF w(3)]
  note f = advance_all_flags [OF w(2) distinct_btree_set] advance_all_flags [OF w(3) d]
  show ?thesis
    using obs live
    by (auto simp: observe_world_change_batch_def Let_def keys split_beta f advanced_deps_map er_wf_def m)
qed

lemma floor_after:
  assumes get: "\<And>k. btree_get m' k = (if k \<in> set ks then Some (newest (btree_get m k) r) else btree_get m k)"
    and cur: "list_all (\<lambda>d. revision_satisfies (dep_revision d) (btree_get_or 1 m (dep_key d))) ds"
    and s: "deps_sorted ds" "sorted_wrt (<) ks"
  shows "list_all (\<lambda>d. revision_satisfies (dep_revision d) (btree_get_or 1 m' (dep_key d))) ds \<longleftrightarrow>
    \<not> sorted_revisions_invalidate (map (\<lambda>k. dep k r) (filter (\<lambda>k. advances (btree_get m k) r) ks)) ds"
proof -
  let ?c = "map (\<lambda>k. dep k r) (filter (\<lambda>k. advances (btree_get m k) r) ks)"
  have "map dep_key ?c = filter (\<lambda>k. advances (btree_get m k) r) ks" by (simp add: comp_def)
  then have "deps_sorted ?c" using s(2) unfolding deps_sorted_def by (simp add: sorted_wrt_filter)
  note inv = invalidate_iff [OF this s(1)]
  have fl: "btree_get_or 1 m' k = (if k \<in> set ks \<and> advances (btree_get m k) r then r else btree_get_or 1 m k)" for k
    by (auto simp: btree_get_or_def get newest_def advances_def split: option.splits)
  show ?thesis
    using cur unfolding inv list_all_iff fl by auto
qed

text \<open>
  C17: incremental invalidation is exact. Take floors with sorted maps and a canonical fence that
  is current. After observing any batch that is not rejected, the fence is current under the new
  floors precisely when the returned change does not invalidate it, and the floors of exactly the
  batch's voxels and affected chunks have advanced to the newer of their old value and the batch's
  revision. A rejected batch changes nothing; neither does a batch whose revision is the watermark
  of the last resync or older, which also reports that no value applies and that nothing changed.
\<close>

theorem observe_invalidates_exactly:
  assumes wf: "er_wf er" and fence: "deps_sorted (rf_chunks fence)" "deps_sorted (rf_terrain_pages fence)"
    and cur: "fence_is_current er fence"
    and obs: "observe_world_change_batch coords revision affected er = (res, er')"
  shows "er_wf er' \<and> er_resync_watermark er' = er_resync_watermark er \<and>
    (case res of Inl e \<Rightarrow> er' = er
     | Inr (vals, change) \<Rightarrow> (fence_is_current er' fence \<longleftrightarrow> \<not> change_invalidates change fence) \<and>
         (\<forall>v. btree_get (er_voxels er') v = (if v \<in> set coords \<and> commit_is_after_resync er revision
            then Some (newest (btree_get (er_voxels er) v) revision) else btree_get (er_voxels er) v)) \<and>
         (\<forall>c. btree_get (er_chunks er') c = (if c \<in> set affected \<and> commit_is_after_resync er revision
            then Some (newest (btree_get (er_chunks er) c) revision) else btree_get (er_chunks er) c))) \<and>
    (\<forall>watermark. er_resync_watermark er = Some watermark \<and> (revision = watermark \<or> \<not> revision_satisfies revision watermark) \<longrightarrow>
       er' = er \<and> res = Inr (replicate (length coords) False, world_change_default))"
proof (cases "commit_is_after_resync er revision")
  case False
  then have "res = Inr (replicate (length coords) False, world_change_default)" "er' = er"
    using obs by (simp_all add: observe_world_change_batch_def)
  with False wf cur show ?thesis by (simp add: world_change_default_def change_invalidates_def)
next
  case live: True
  then have fresh: "\<not> (er_resync_watermark er = Some w \<and> (revision = w \<or> \<not> revision_satisfies revision w))" for w
    by (auto simp: commit_is_after_resync_def)
  show ?thesis
  proof (cases "surface_edit_dependencies (btree_set affected)")
    case (Inl e)
    with obs live wf fresh show ?thesis by (auto simp: observe_world_change_batch_def)
  next
    case (Inr keys)
    have ks: "sorted_wrt (<) (btree_set affected)" "sorted_wrt (<) keys"
      using surface_dependencies_sorted [OF Inr] by (simp_all add: strict_sorted_iff)
    from observe_cases [OF wf live Inr obs] obtain vals change where o': "res = Inr (vals, change)" "er_wf er'"
        "er_resync_watermark er' = er_resync_watermark er"
      and ch: "wc_chunks change = map (\<lambda>k. dep k revision) (filter (\<lambda>k. advances (btree_get (er_chunks er) k) revision) (btree_set affected))"
        "wc_terrain_pages change = map (\<lambda>k. dep k revision) (filter (\<lambda>k. advances (btree_get (er_terrain_pages er) k) revision) keys)"
      and gv: "\<And>v. btree_get (er_voxels er') v = (if v \<in> set coords then Some (newest (btree_get (er_voxels er) v) revision) else btree_get (er_voxels er) v)"
      and gc: "\<And>k. btree_get (er_chunks er') k = (if k \<in> set (btree_set affected) then Some (newest (btree_get (er_chunks er) k) revision) else btree_get (er_chunks er) k)"
      and gp: "\<And>k. btree_get (er_terrain_pages er') k = (if k \<in> set keys then Some (newest (btree_get (er_terrain_pages er) k) revision) else btree_get (er_terrain_pages er) k)"
      by auto
    note cur' = cur [unfolded fence_is_current_def chunk_floor_def terrain_page_floor_def]
    have "fence_is_current er' fence \<longleftrightarrow> \<not> change_invalidates change fence"
      unfolding fence_is_current_def chunk_floor_def terrain_page_floor_def change_invalidates_def ch
      using floor_after [OF gc cur' [THEN conjunct1] fence(1) ks(1)]
        floor_after [OF gp cur' [THEN conjunct2] fence(2) ks(2)] by blast
    with o' live gv gc fresh show ?thesis by (simp (no_asm_simp))
  qed
qed

definition sample_fence :: revision_fence where
  "sample_fence = \<lparr>rf_chunks = [dep (chunk_at 0 0 0) 4], rf_terrain_pages = [], rf_digest = 0\<rparr>"

theorem observe_invalidates_exactly_witness:
  "observe_world_change_batch [voxel_at 1 1 1] 7 [chunk_at 0 0 0] (edit_revisions_default\<lparr>er_resync_watermark := Some 9\<rparr>) =
     (Inr ([False], world_change_default), edit_revisions_default\<lparr>er_resync_watermark := Some 9\<rparr>) \<and>
   (\<exists>res er'. observe_world_change_batch [voxel_at 1 1 1] 10 [chunk_at 0 0 0] (edit_revisions_default\<lparr>er_resync_watermark := Some 9\<rparr>) =
     (res, er') \<and> er_resync_watermark er' = Some 9)"
proof -
  let ?er = "edit_revisions_default\<lparr>er_resync_watermark := Some 9\<rparr>"
  have a: "er_wf ?er" by (simp add: er_wf_def edit_revisions_default_def)
  have b: "deps_sorted (rf_chunks sample_fence)" "deps_sorted (rf_terrain_pages sample_fence)"
    by (simp_all add: sample_fence_def)
  have c: "fence_is_current ?er sample_fence"
    by (simp add: fence_is_current_def sample_fence_def chunk_floor_def edit_revisions_default_def
        btree_get_or_def revision_satisfies_def)
  have stale: "er_resync_watermark ?er = Some 9 \<and> ((7 :: u64) = 9 \<or> \<not> revision_satisfies 7 9)"
    by (simp add: revision_satisfies_def push_bit_eq_mult)
  obtain res er' where o': "observe_world_change_batch [voxel_at 1 1 1] 7 [chunk_at 0 0 0] ?er = (res, er')" by fastforce
  obtain res2 er2 where o2: "observe_world_change_batch [voxel_at 1 1 1] 10 [chunk_at 0 0 0] ?er = (res2, er2)" by fastforce
  show ?thesis using observe_invalidates_exactly [OF a b c o'] observe_invalidates_exactly [OF a b c o2] stale o' o2 by auto
qed

subsection \<open>Order and duplication of commits\<close>

text \<open>
  Revisions are serials: \<open>revision_satisfies\<close> compares them modulo 2^64. Inside a window of half
  the range they are ranked by their distance from its base, and \<open>newest\<close> is a maximum of ranks.
\<close>

definition in_window :: "u64 \<Rightarrow> u64 \<Rightarrow> bool" where
  "in_window base r \<longleftrightarrow> r - base < push_bit 63 1"

definition floor_rank :: "u64 \<Rightarrow> u64 option \<Rightarrow> nat" where
  "floor_rank base old = (case old of None \<Rightarrow> 0 | Some c \<Rightarrow> Suc (unat (c - base)))"

lemma floor_rank_inject: "floor_rank base a = floor_rank base b \<Longrightarrow> a = b"
  by (auto simp: floor_rank_def word_unat_eq_iff [symmetric] split: option.splits)

lemma window_satisfies:
  assumes "in_window base r" "in_window base c"
  shows "revision_satisfies r c \<longleftrightarrow> c - base \<le> r - base"
proof -
  define x where "x = r - base"
  define y where "y = c - base"
  have d: "r - c = x - y" by (simp add: x_def y_def)
  have xb: "unat x < 2 ^ 63" "unat y < 2 ^ 63"
    using assms unfolding in_window_def x_def [symmetric] y_def [symmetric]
    by (simp_all add: word_less_nat_alt push_bit_eq_mult)
  have eq: "r = c \<longleftrightarrow> x = y" by (simp add: x_def y_def)
  show ?thesis
  proof (cases "y \<le> x")
    case True
    then have "unat (x - y) = unat x - unat y" by (rule unat_sub)
    with xb have "x - y < push_bit 63 1" by (simp add: word_less_nat_alt push_bit_eq_mult)
    with True show ?thesis unfolding revision_satisfies_def d x_def y_def by simp
  next
    case False
    then have lt: "unat x < unat y" by (simp add: word_le_nat_alt)
    have "unat (x - y) = 2 ^ 64 + unat x - unat y"
      using unat_sub_if' [of x y] lt by simp
    with xb lt have "\<not> x - y < push_bit 63 1" by (simp add: word_less_nat_alt push_bit_eq_mult)
    with False show ?thesis unfolding revision_satisfies_def d eq unfolding x_def [symmetric] y_def [symmetric]
      by auto
  qed
qed

definition opt_in_window :: "u64 \<Rightarrow> u64 option \<Rightarrow> bool" where
  "opt_in_window base old \<longleftrightarrow> (case old of None \<Rightarrow> True | Some c \<Rightarrow> in_window base c)"

lemma newest_rank:
  assumes "in_window base r" "opt_in_window base old"
  shows "floor_rank base (Some (newest old r)) = max (floor_rank base old) (floor_rank base (Some r))"
    and "in_window base (newest old r)"
  using assms
  by (cases old, auto simp: newest_def floor_rank_def opt_in_window_def window_satisfies max_def word_le_nat_alt)+

type_synonym commit = "voxel_coord list \<times> u64 \<times> chunk_coord list"

definition observe_all :: "commit list \<Rightarrow> edit_revisions \<Rightarrow> edit_revisions" where
  "observe_all commits er =
     fold (\<lambda>(coords, revision, affected) er. snd (observe_world_change_batch coords revision affected er)) commits er"

text \<open>The keys whose floors a commit reaches, in the three maps.\<close>

definition reached :: "edit_revisions \<Rightarrow> commit \<Rightarrow> (voxel_coord set \<times> chunk_coord set \<times> page_key set)" where
  "reached er = (\<lambda>(coords, revision, affected).
     if commit_is_after_resync er revision
     then case surface_edit_dependencies (btree_set affected) of
         Inl e \<Rightarrow> ({}, {}, {}) | Inr keys \<Rightarrow> (set coords, set affected, set keys)
     else ({}, {}, {}))"

definition raises :: "('k \<Rightarrow> u64 option) \<Rightarrow> 'k set \<Rightarrow> u64 \<Rightarrow> ('k \<Rightarrow> u64 option) \<Rightarrow> bool" where
  "raises f K r g \<longleftrightarrow> (\<forall>k. g k = (if k \<in> K then Some (newest (f k) r) else f k))"

lemma observe_raises:
  assumes "er_wf er"
  shows "er_wf (snd (observe_world_change_batch coords r affected er)) \<and>
    er_resync_watermark (snd (observe_world_change_batch coords r affected er)) = er_resync_watermark er \<and>
    (case reached er (coords, r, affected) of (V, C, P) \<Rightarrow>
      raises (btree_get (er_voxels er)) V r (btree_get (er_voxels (snd (observe_world_change_batch coords r affected er)))) \<and>
      raises (btree_get (er_chunks er)) C r (btree_get (er_chunks (snd (observe_world_change_batch coords r affected er)))) \<and>
      raises (btree_get (er_terrain_pages er)) P r (btree_get (er_terrain_pages (snd (observe_world_change_batch coords r affected er)))))"
proof -
  obtain res er' where obs: "observe_world_change_batch coords r affected er = (res, er')" by fastforce
  show ?thesis
  proof (cases "commit_is_after_resync er r")
    case False
    with assms obs show ?thesis by (auto simp: observe_world_change_batch_def reached_def raises_def)
  next
    case live: True
    show ?thesis
    proof (cases "surface_edit_dependencies (btree_set affected)")
      case (Inl e)
      with assms obs live show ?thesis by (auto simp: observe_world_change_batch_def reached_def raises_def)
    next
      case (Inr keys)
      from observe_cases [OF assms live Inr obs] obs live Inr show ?thesis
        by (auto simp: reached_def raises_def)
    qed
  qed
qed

definition reaches_ranks :: "u64 \<Rightarrow> (commit \<Rightarrow> 'k set) \<Rightarrow> commit list \<Rightarrow> 'k \<Rightarrow> nat set" where
  "reaches_ranks base K commits k = (\<lambda>c. floor_rank base (Some (fst (snd c)))) ` {c \<in> set commits. k \<in> K c}"

lemma reaches_ranks_Cons:
  "reaches_ranks base K (c # cs) k =
    (if k \<in> K c then insert (floor_rank base (Some (fst (snd c)))) (reaches_ranks base K cs k) else reaches_ranks base K cs k)"
proof -
  have "{c' \<in> set (c # cs). k \<in> K c'} = (if k \<in> K c then insert c {c' \<in> set cs. k \<in> K c'} else {c' \<in> set cs. k \<in> K c'})"
    by auto
  then show ?thesis unfolding reaches_ranks_def by simp
qed

lemma finite_reaches_ranks [simp]: "finite (reaches_ranks base K cs k)"
  by (simp add: reaches_ranks_def)

lemma raises_step:
  assumes "raises f K r g" "in_window base r" "\<And>k. opt_in_window base (f k)"
  shows "floor_rank base (g k) =
      (if k \<in> K then max (floor_rank base (f k)) (floor_rank base (Some r)) else floor_rank base (f k))"
    and "opt_in_window base (g k)"
  using assms newest_rank [OF assms(2), of "f k"] by (auto simp: raises_def opt_in_window_def)

definition windowed :: "u64 \<Rightarrow> edit_revisions \<Rightarrow> bool" where
  "windowed base er \<longleftrightarrow> (\<forall>k. opt_in_window base (btree_get (er_voxels er) k)) \<and>
     (\<forall>k. opt_in_window base (btree_get (er_chunks er) k)) \<and>
     (\<forall>k. opt_in_window base (btree_get (er_terrain_pages er) k))"

lemma reached_watermark:
  "er_resync_watermark er' = er_resync_watermark er \<Longrightarrow> reached er' = reached er"
  by (simp add: reached_def commit_is_after_resync_def fun_eq_iff)

lemma insert_max_if:
  assumes "finite S"
  shows "Max (insert (if p then max a b else a) S) = (if p then Max (insert a (insert b S)) else Max (insert a S))"
  using assms by (cases "S = {}") (auto simp: max.assoc)

lemma observe_all_ranks:
  assumes "er_wf er" "windowed base er" "\<forall>c\<in>set commits. in_window base (fst (snd c))"
  shows "er_wf (observe_all commits er) \<and>
    er_resync_watermark (observe_all commits er) = er_resync_watermark er \<and>
    (\<forall>k. floor_rank base (btree_get (er_voxels (observe_all commits er)) k) =
       Max (insert (floor_rank base (btree_get (er_voxels er) k)) (reaches_ranks base (\<lambda>c. fst (reached er c)) commits k))) \<and>
    (\<forall>k. floor_rank base (btree_get (er_chunks (observe_all commits er)) k) =
       Max (insert (floor_rank base (btree_get (er_chunks er) k)) (reaches_ranks base (\<lambda>c. fst (snd (reached er c))) commits k))) \<and>
    (\<forall>k. floor_rank base (btree_get (er_terrain_pages (observe_all commits er)) k) =
       Max (insert (floor_rank base (btree_get (er_terrain_pages er) k)) (reaches_ranks base (\<lambda>c. snd (snd (reached er c))) commits k)))"
  using assms
proof (induction commits arbitrary: er)
  case Nil
  then show ?case by (simp add: observe_all_def reaches_ranks_def)
next
  case (Cons c commits)
  obtain coords r affected where c: "c = (coords, r, affected)" by (cases c) auto
  obtain V C P where vcp: "reached er c = (V, C, P)" by (cases "reached er c") auto
  define er1 where "er1 = snd (observe_world_change_batch coords r affected er)"
  have all: "observe_all (c # commits) er = observe_all commits er1"
    by (simp add: observe_all_def c er1_def)
  note step = observe_raises [OF Cons.prems(1), of coords r affected, folded er1_def c, unfolded vcp prod.case]
  have r: "in_window base r" using Cons.prems(3) c by simp
  note w = Cons.prems(2) [unfolded windowed_def]
  note v = raises_step [OF step [THEN conjunct2, THEN conjunct2, THEN conjunct1] r, OF w [THEN conjunct1, THEN spec]]
  note ch = raises_step [OF step [THEN conjunct2, THEN conjunct2, THEN conjunct2, THEN conjunct1] r,
      OF w [THEN conjunct2, THEN conjunct1, THEN spec]]
  note p = raises_step [OF step [THEN conjunct2, THEN conjunct2, THEN conjunct2, THEN conjunct2] r,
      OF w [THEN conjunct2, THEN conjunct2, THEN spec]]
  have w1: "windowed base er1" unfolding windowed_def using v(2) ch(2) p(2) by blast
  have wm: "er_resync_watermark er1 = er_resync_watermark er" using step by blast
  note ih = Cons.IH [OF step [THEN conjunct1] w1, unfolded reached_watermark [OF wm] wm]
  have fr: "fst (snd c) = r" using c by simp
  show ?case
    using ih Cons.prems(3) unfolding all reaches_ranks_Cons vcp v(1) ch(1) p(1) fr
    by (simp add: insert_max_if)
qed

text \<open>
  Commit delivery is insensitive to order and to duplication. Two lists of commits with the
  same commits in them, all of revisions inside half of the serial range above a common base (the
  recorded floors too), leave the same floors, whatever the order and the repetitions: stale
  after a resync, rejected and accepted commits alike.
\<close>

theorem observe_all_order_free:
  assumes "er_wf er" "windowed base er" "\<forall>c\<in>set commits. in_window base (fst (snd c))"
    and same: "set commits' = set commits"
  shows "observe_all commits' er = observe_all commits er"
proof -
  have w': "\<forall>c\<in>set commits'. in_window base (fst (snd c))" using assms(3) same by simp
  note a = observe_all_ranks [OF assms(1,2,3)] and b = observe_all_ranks [OF assms(1,2) w']
  have rr: "reaches_ranks base K commits' k = reaches_ranks base K commits k" for K and k :: 'z
    by (simp add: reaches_ranks_def same)
  have "er_voxels (observe_all commits' er) = er_voxels (observe_all commits er)"
    using a b by (intro btree_ext floor_rank_inject [of base]) (auto simp: er_wf_def rr)
  moreover have "er_chunks (observe_all commits' er) = er_chunks (observe_all commits er)"
    using a b by (intro btree_ext floor_rank_inject [of base]) (auto simp: er_wf_def rr)
  moreover have "er_terrain_pages (observe_all commits' er) = er_terrain_pages (observe_all commits er)"
    using a b by (intro btree_ext floor_rank_inject [of base]) (auto simp: er_wf_def rr)
  ultimately show ?thesis using a b by (simp add: edit_revisions.equality)
qed

theorem observe_all_order_free_witness:
  "observe_all [([voxel_at 1 1 1], 9, [chunk_at 0 0 0]), ([voxel_at 1 1 1], 7, [chunk_at 0 0 0]), ([voxel_at 1 1 1], 9, [chunk_at 0 0 0])]
     edit_revisions_default =
   observe_all [([voxel_at 1 1 1], 7, [chunk_at 0 0 0]), ([voxel_at 1 1 1], 9, [chunk_at 0 0 0])] edit_revisions_default"
proof (rule observe_all_order_free [where base = 1])
  show "er_wf edit_revisions_default" by (simp add: er_wf_def edit_revisions_default_def)
  show "windowed 1 edit_revisions_default"
    by (simp add: windowed_def opt_in_window_def edit_revisions_default_def)
  show "\<forall>c\<in>set [([voxel_at 1 1 1], 7, [chunk_at 0 0 0]), ([voxel_at 1 1 1], 9, [chunk_at 0 0 0])].
      in_window 1 (fst (snd c))"
    by (simp add: in_window_def push_bit_eq_mult)
qed auto

end
