(* ===== verification/Stream_Scheduler.thy ===== *)
theory Stream_Scheduler
  imports Ordered_Map Coords
begin

text \<open>
  \<open>StreamScheduler\<close> of runtime/src/lib.rs: the bounded generation, meshing and upload pipeline of
  full-resolution chunks, in the order of the source. Coordinates are \<open>int\<close>s inside \<open>i32\<close>,
  wrapping counters, revisions and ticket serials are 64-bit words, \<open>usize\<close> counts and the
  saturating counters of the latency histograms are \<open>nat\<close>. Each method is one definition from
  the old scheduler to the result and the new one. \<open>from_motion\<close>, which builds the priority hint
  from floating-point motion, is not modelled: every hint is covered.
\<close>

definition MAX_LOAD_RADIUS_CHUNKS :: int where "MAX_LOAD_RADIUS_CHUNKS = 64"
definition MAX_VERTICAL_RADIUS_CHUNKS :: int where "MAX_VERTICAL_RADIUS_CHUNKS = 32"
definition MAX_SECONDARY_INTEREST_CHUNKS :: nat where "MAX_SECONDARY_INTEREST_CHUNKS = 192"
definition LATENCY_HISTOGRAM_BUCKETS :: nat where "LATENCY_HISTOGRAM_BUCKETS = 256"

subsection \<open>Configuration, hints and tickets\<close>

type_synonym coord_key_t = "int \<times> int \<times> int"

record stream_config =
  load_radius_chunks :: int
  vertical_radius_chunks :: int
  retention_margin_chunks :: int
  max_tracked_chunks :: nat
  max_secondary_interest_chunks :: nat

definition stream_config_default :: stream_config where
  "stream_config_default =
     \<lparr>load_radius_chunks = 9, vertical_radius_chunks = 1, retention_margin_chunks = 2,
      max_tracked_chunks = 1024, max_secondary_interest_chunks = MAX_SECONDARY_INTEREST_CHUNKS\<rparr>"

datatype config_error = NegativeRadius | RadiusTooLarge | EmptyCapacity | SecondaryInterestTooLarge

record frame_budget =
  fb_generation :: nat
  fb_meshing :: nat
  fb_upload :: nat

definition frame_budget_default :: frame_budget where
  "frame_budget_default = \<lparr>fb_generation = 0, fb_meshing = 0, fb_upload = 0\<rparr>"

record priority_hint =
  forward :: "int \<times> int"
  predicted_offset :: "int \<times> int"
  cone_cosine :: int

definition neutral :: priority_hint where
  "neutral = \<lparr>forward = (0, 0), predicted_offset = (0, 0), cone_cosine = 0\<rparr>"

definition rank_offset :: "priority_hint \<Rightarrow> int \<Rightarrow> int \<Rightarrow> int \<times> int \<times> int" where
  "rank_offset h dx dz =
     (let radius = max \<bar>dx\<bar> \<bar>dz\<bar>;
          vicinity_band = min radius 2;
          predicted_dx = dx - fst (predicted_offset h);
          predicted_dz = dz - snd (predicted_offset h);
          predicted_distance = predicted_dx * predicted_dx + predicted_dz * predicted_dz;
          distance_squared = dx * dx + dz * dz;
          dot = dx * fst (forward h) + dz * snd (forward h);
          view_class =
            (if forward h = (0, 0) \<or> distance_squared = 0 then 1
             else if dot \<le> 0 then 2
             else if dot * dot \<ge> distance_squared * cone_cosine h * cone_cosine h then 0
             else 1)
      in (vicinity_band, view_class, predicted_distance))"

datatype work_stage = Generation | Meshing | Upload

record work_ticket =
  tk_coord :: chunk_coord
  tk_stage :: work_stage
  tk_revision :: u64
  tk_serial :: u64

record frame_work =
  fw_generation :: "work_ticket list"
  fw_meshing :: "work_ticket list"
  fw_upload :: "work_ticket list"

record readiness =
  vr_resident :: nat
  vr_required :: nat

definition vicinity_default :: readiness where
  "vicinity_default = \<lparr>vr_resident = 0, vr_required = 0\<rparr>"

definition is_ready :: "readiness \<Rightarrow> bool" where
  "is_ready r \<longleftrightarrow> vr_required r > 0 \<and> vr_resident r = vr_required r"

definition fw_len :: "frame_work \<Rightarrow> nat" where
  "fw_len w = length (fw_generation w) + length (fw_meshing w) + length (fw_upload w)"

definition fw_is_empty :: "frame_work \<Rightarrow> bool" where
  "fw_is_empty w \<longleftrightarrow> fw_len w = 0"

datatype completion_status = Accepted | Stale

datatype chunk_state =
  CsQueuedGeneration | CsGenerating | CsQueuedMeshing | CsMeshing | CsQueuedUpload | CsUploading | CsResident

record chunk_status =
  cs_coord :: chunk_coord
  cs_state :: chunk_state
  cs_revision :: u64
  cs_desired :: bool

record evicted_chunk =
  ev_coord :: chunk_coord
  ev_state :: chunk_state
  ev_revision :: u64

record dirty_report =
  dr_affected_chunks :: "chunk_coord list"
  dr_invalidated_tickets :: "work_ticket list"
  dr_previously_resident :: "chunk_coord list"

definition dirty_report_default :: dirty_report where
  "dirty_report_default =
     \<lparr>dr_affected_chunks = [], dr_invalidated_tickets = [], dr_previously_resident = []\<rparr>"

record stage_counts =
  st_queued :: nat
  st_in_flight :: nat

record frame_latency =
  fl_completed :: nat
  fl_in_flight :: nat
  fl_p95_frames :: nat
  fl_max_frames :: nat

record stream_diagnostics =
  sd_frame :: u64
  sd_tracked :: nat
  sd_desired :: nat
  sd_secondary_requested :: nat
  sd_secondary_normalized :: nat
  sd_secondary_desired :: nat
  sd_secondary_truncated :: nat
  sd_resident :: nat
  sd_generation :: stage_counts
  sd_meshing :: stage_counts
  sd_upload :: stage_counts
  sd_accepted_completions :: u64
  sd_stale_completions :: u64
  sd_total_evictions :: u64
  sd_started_this_frame :: frame_budget
  sd_initial_residency_latency :: frame_latency
  sd_remesh_latency :: frame_latency

subsection \<open>Latency histogram\<close>

record latency_histogram =
  lh_buckets :: "nat list"
  lh_completed :: nat
  lh_max_frames :: nat

definition histogram_default :: latency_histogram where
  "histogram_default = \<lparr>lh_buckets = replicate LATENCY_HISTOGRAM_BUCKETS 0, lh_completed = 0, lh_max_frames = 0\<rparr>"

definition histogram_record :: "nat \<Rightarrow> latency_histogram \<Rightarrow> latency_histogram" where
  "histogram_record frames h =
     (let last_bucket = LATENCY_HISTOGRAM_BUCKETS - 1;
          bucket = min frames last_bucket
      in \<lparr>lh_buckets = (lh_buckets h)[bucket := u64_saturating_add (lh_buckets h ! bucket) 1],
          lh_completed = u64_saturating_add (lh_completed h) 1,
          lh_max_frames = max (lh_max_frames h) frames\<rparr>)"

fun percentile_scan :: "nat \<Rightarrow> nat \<Rightarrow> nat \<Rightarrow> nat \<Rightarrow> nat list \<Rightarrow> nat" where
  "percentile_scan rank max_frames index cumulative [] = max_frames"
| "percentile_scan rank max_frames index cumulative (b # buckets) =
     (let cumulative = u64_saturating_add cumulative b in
      if cumulative \<ge> rank
      then (if index = LATENCY_HISTOGRAM_BUCKETS - 1 then max_frames else index)
      else percentile_scan rank max_frames (index + 1) cumulative buckets)"

definition percentile :: "nat \<Rightarrow> latency_histogram \<Rightarrow> nat" where
  "percentile p h =
     (if lh_completed h = 0 then 0
      else let rank = ((lh_completed h * p + 99) div 100) mod 2 ^ 64
           in percentile_scan rank (lh_max_frames h) 0 0 (lh_buckets h))"

definition histogram_summary :: "nat \<Rightarrow> latency_histogram \<Rightarrow> frame_latency" where
  "histogram_summary in_flight h =
     \<lparr>fl_completed = lh_completed h, fl_in_flight = in_flight, fl_p95_frames = percentile 95 h,
      fl_max_frames = lh_max_frames h\<rparr>"

subsection \<open>Entries and the scheduler\<close>

datatype state =
  QueuedGeneration | Generating work_ticket | QueuedMeshing | MeshingState work_ticket
| QueuedUpload | Uploading work_ticket | Resident

fun state_public :: "state \<Rightarrow> chunk_state" where
  "state_public QueuedGeneration = CsQueuedGeneration"
| "state_public (Generating _) = CsGenerating"
| "state_public QueuedMeshing = CsQueuedMeshing"
| "state_public (MeshingState _) = CsMeshing"
| "state_public QueuedUpload = CsQueuedUpload"
| "state_public (Uploading _) = CsUploading"
| "state_public Resident = CsResident"

fun state_ticket :: "state \<Rightarrow> work_ticket option" where
  "state_ticket (Generating t) = Some t"
| "state_ticket (MeshingState t) = Some t"
| "state_ticket (Uploading t) = Some t"
| "state_ticket _ = None"

record entry =
  en_coord :: chunk_coord
  en_state :: state
  en_revision :: u64
  en_desired :: bool
  en_initial_started :: "u64 option"
  en_remesh_started :: "u64 option"
  en_ever_resident :: bool

record scheduler =
  ss_config :: stream_config
  ss_focus :: chunk_coord
  ss_focus_initialized :: bool
  ss_secondary_interest :: "chunk_coord list"
  ss_secondary_requested :: nat
  ss_secondary_truncated :: nat
  ss_entries :: "(coord_key_t, entry) btree"
  ss_evictions :: "evicted_chunk list"
  ss_next_ticket_serial :: u64
  ss_frame :: u64
  ss_accepted_completions :: u64
  ss_stale_completions :: u64
  ss_total_evictions :: u64
  ss_started_this_frame :: frame_budget
  ss_initial_residency_latency :: latency_histogram
  ss_remesh_latency :: latency_histogram

definition scheduler_new :: "stream_config \<Rightarrow> config_error + scheduler" where
  "scheduler_new config =
     (if load_radius_chunks config < 0 \<or> vertical_radius_chunks config < 0 \<or> retention_margin_chunks config < 0
      then Inl NegativeRadius
      else if load_radius_chunks config > MAX_LOAD_RADIUS_CHUNKS
        \<or> vertical_radius_chunks config > MAX_VERTICAL_RADIUS_CHUNKS
        \<or> i32_saturating_add (load_radius_chunks config) (retention_margin_chunks config) > MAX_LOAD_RADIUS_CHUNKS
      then Inl RadiusTooLarge
      else if max_tracked_chunks config = 0 then Inl EmptyCapacity
      else if max_secondary_interest_chunks config > MAX_SECONDARY_INTEREST_CHUNKS
      then Inl SecondaryInterestTooLarge
      else Inr
        \<lparr>ss_config = config, ss_focus = chunk_at 0 0 0, ss_focus_initialized = False,
         ss_secondary_interest = [], ss_secondary_requested = 0, ss_secondary_truncated = 0,
         ss_entries = [], ss_evictions = [], ss_next_ticket_serial = 1, ss_frame = 0,
         ss_accepted_completions = 0, ss_stale_completions = 0, ss_total_evictions = 0,
         ss_started_this_frame = frame_budget_default,
         ss_initial_residency_latency = histogram_default, ss_remesh_latency = histogram_default\<rparr>)"

subsection \<open>Keys, priorities and counters\<close>

definition coord_key :: "chunk_coord \<Rightarrow> coord_key_t" where
  "coord_key c = (cx c, cy c, cz c)"

definition coord_from_key :: "coord_key_t \<Rightarrow> chunk_coord" where
  "coord_from_key k = (case k of (x, y, z) \<Rightarrow> chunk_at x y z)"

definition chunk_priority :: "chunk_coord \<Rightarrow> chunk_coord \<Rightarrow> int \<times> int \<times> int \<times> int \<times> int \<times> int" where
  "chunk_priority focus coord =
     (let dx = cx coord - cx focus; dy = cy coord - cy focus; dz = cz coord - cz focus
      in (dx * dx + dz * dz, \<bar>dy\<bar>, \<bar>dx\<bar> + \<bar>dz\<bar>, cy coord, cz coord, cx coord))"

definition directional_priority ::
  "chunk_coord \<Rightarrow> chunk_coord \<Rightarrow> priority_hint \<Rightarrow> int \<times> int \<times> int \<times> int \<times> int \<times> int \<times> int \<times> int \<times> int" where
  "directional_priority focus coord hint =
     (let dx = cx coord - cx focus; dy = cy coord - cy focus; dz = cz coord - cz focus;
          (vicinity_band, view_class, predicted_distance) = rank_offset hint dx dz
      in (vicinity_band, view_class, predicted_distance,
          dx * dx + dz * dz, \<bar>dy\<bar>, \<bar>dx\<bar> + \<bar>dz\<bar>, cy coord, cz coord, cx coord))"

definition inside_retention :: "stream_config \<Rightarrow> chunk_coord \<Rightarrow> chunk_coord \<Rightarrow> bool" where
  "inside_retention config focus coord \<longleftrightarrow>
     (let radius = load_radius_chunks config + retention_margin_chunks config;
          vertical = vertical_radius_chunks config + retention_margin_chunks config;
          dx = cx coord - cx focus; dy = cy coord - cy focus; dz = cz coord - cz focus
      in dx * dx + dz * dz \<le> radius * radius \<and> \<bar>dy\<bar> \<le> vertical)"

definition increment_nonzero :: "u64 \<Rightarrow> u64" where
  "increment_nonzero value = (let incremented = value + 1 in if incremented = 0 then 1 else incremented)"

definition elapsed_frames :: "u64 \<Rightarrow> u64 \<Rightarrow> u64" where
  "elapsed_frames start end_frame =
     (if end_frame \<ge> start then end_frame - start else - 1 - start + end_frame)"

text \<open>\<open>sort_unstable_by_key\<close> is the stable sort here: equal priorities mean equal coordinates.\<close>

definition normalized_interest :: "chunk_coord \<Rightarrow> chunk_coord list \<Rightarrow> nat \<Rightarrow> chunk_coord list \<times> nat" where
  "normalized_interest focus interest limit =
     (let unique = btree_set (map coord_key (filter is_world_representable interest));
          normalized = sort_key (chunk_priority focus) (map coord_from_key unique)
      in (take limit normalized, length normalized - limit))"

subsection \<open>Desired set and eviction\<close>

definition evict_key :: "coord_key_t \<Rightarrow> scheduler \<Rightarrow> scheduler" where
  "evict_key key s =
     (case btree_get (ss_entries s) key of
        None \<Rightarrow> s
      | Some e \<Rightarrow> s\<lparr>ss_entries := btree_remove key (ss_entries s),
          ss_evictions := ss_evictions s @
            [\<lparr>ev_coord = en_coord e, ev_state = state_public (en_state e), ev_revision = en_revision e\<rparr>],
          ss_total_evictions := increment_nonzero (ss_total_evictions s)\<rparr>)"

definition evict_farthest_undesired :: "scheduler \<Rightarrow> bool \<times> scheduler" where
  "evict_farthest_undesired s =
     (case max_by_key (\<lambda>(_, e). (chunk_priority (ss_focus s) (en_coord e), coord_key (en_coord e)))
         (filter (\<lambda>(_, e). \<not> en_desired e) (ss_entries s)) of
        Some (key, _) \<Rightarrow> (True, evict_key key s)
      | None \<Rightarrow> (False, s))"

text \<open>The primary cylinder in the loop order of the code; the \<open>continue\<close>s drop a candidate.\<close>

definition cylinder :: "stream_config \<Rightarrow> chunk_coord \<Rightarrow> chunk_coord list" where
  "cylinder config focus =
     (let radius = load_radius_chunks config; vertical = vertical_radius_chunks config in
      concat (map (\<lambda>dy. case i32_checked_add (cy focus) dy of
          None \<Rightarrow> []
        | Some y \<Rightarrow> concat (map (\<lambda>dz. concat (map (\<lambda>dx.
            if dx * dx + dz * dz > radius * radius then []
            else case (i32_checked_add (cx focus) dx, i32_checked_add (cz focus) dz) of
                (Some x, Some z) \<Rightarrow>
                  (let coord = chunk_at x y z in if is_world_representable coord then [coord] else [])
              | _ \<Rightarrow> [])
            (range_incl (- radius) radius))) (range_incl (- radius) radius)))
        (range_incl (- vertical) vertical)))"

fun add_secondary :: "nat \<Rightarrow> chunk_coord list \<Rightarrow> coord_key_t set \<Rightarrow> chunk_coord list \<Rightarrow> chunk_coord list" where
  "add_secondary limit [] keys candidates = candidates"
| "add_secondary limit (c # cs) keys candidates =
     (if length candidates = limit then candidates
      else if coord_key c \<notin> keys
      then add_secondary limit cs (insert (coord_key c) keys) (candidates @ [c])
      else add_secondary limit cs keys candidates)"

definition desired_coordinates :: "scheduler \<Rightarrow> chunk_coord \<Rightarrow> chunk_coord list" where
  "desired_coordinates s focus =
     (let candidates = sort_key (chunk_priority focus) (cylinder (ss_config s) focus);
          candidates = take (max_tracked_chunks (ss_config s)) candidates
      in add_secondary (max_tracked_chunks (ss_config s)) (ss_secondary_interest s)
           (set (map coord_key candidates)) candidates)"

lemma chunk_priority_inj: "chunk_priority focus a = chunk_priority focus b \<Longrightarrow> a = b"
  by (auto simp: chunk_priority_def Let_def)

lemma coord_key_inj [simp]: "coord_key a = coord_key b \<longleftrightarrow> a = b"
  by (auto simp: coord_key_def)

lemma coord_key_roundtrip [simp]: "coord_from_key (coord_key c) = c" "coord_key (coord_from_key k) = k"
  by (auto simp: coord_key_def coord_from_key_def split: prod.split)

lemma evict_key_entries: "ss_entries (evict_key key s) = btree_remove key (ss_entries s)"
  by (auto simp: evict_key_def split: option.split)

lemma evict_farthest_cases:
  assumes "evict_farthest_undesired s = (b, s')"
  shows "(b \<and> (\<exists>key e. (key, e) \<in> set (ss_entries s) \<and> \<not> en_desired e \<and> s' = evict_key key s))
    \<or> (\<not> b \<and> s' = s \<and> (\<forall>(key, e) \<in> set (ss_entries s). en_desired e))"
proof (cases "max_by_key (\<lambda>(_, e). (chunk_priority (ss_focus s) (en_coord e), coord_key (en_coord e)))
         (filter (\<lambda>(_, e). \<not> en_desired e) (ss_entries s))")
  case None
  with assms show ?thesis by (auto simp: evict_farthest_undesired_def filter_empty_conv)
next
  case (Some p)
  obtain key e where p: "p = (key, e)" by (cases p)
  from max_by_key_in [OF Some] p have "(key, e) \<in> set (ss_entries s)" "\<not> en_desired e" by auto
  moreover have "b" "s' = evict_key key s" using assms Some p by (auto simp: evict_farthest_undesired_def)
  ultimately show ?thesis by blast
qed

text \<open>The inner \<open>while\<close> of \<open>update_focus_with_interest\<close>: evict until an entry fits or nothing can go.\<close>

function make_room :: "scheduler \<Rightarrow> scheduler" where
  "make_room s =
     (if length (ss_entries s) \<ge> max_tracked_chunks (ss_config s)
      then (case evict_farthest_undesired s of (evicted, s') \<Rightarrow> if evicted then make_room s' else s')
      else s)"
  by pat_completeness auto
termination
proof (relation "measure (\<lambda>s. length (ss_entries s))")
  fix s :: scheduler and b s'
  assume "(b, s') = evict_farthest_undesired s" and b
  with evict_farthest_cases [of s b s'] obtain key e where
    "(key, e) \<in> set (ss_entries s)" "s' = evict_key key s" by auto
  then show "(s', s) \<in> measure (\<lambda>s. length (ss_entries s))"
    by (auto simp: evict_key_entries btree_length_remove btree_contains_def btree_get_None
        simp del: length_greater_0_conv intro!: diff_less dest: length_pos_if_in_set
        intro: image_eqI [of key fst "(key, e)"])
qed simp

declare make_room.simps [simp del]

definition new_entry :: "chunk_coord \<Rightarrow> u64 \<Rightarrow> entry" where
  "new_entry coord frame =
     \<lparr>en_coord = coord, en_state = QueuedGeneration, en_revision = 1, en_desired = True,
      en_initial_started = Some frame, en_remesh_started = None, en_ever_resident = False\<rparr>"

definition track_desired :: "chunk_coord \<Rightarrow> scheduler \<Rightarrow> scheduler" where
  "track_desired coord s =
     (let key = coord_key coord in
      if btree_contains (ss_entries s) key
      then s\<lparr>ss_entries := btree_update key (en_desired_update (\<lambda>_. True)) (ss_entries s)\<rparr>
      else let s = make_room s in
        if length (ss_entries s) < max_tracked_chunks (ss_config s)
        then s\<lparr>ss_entries := btree_insert key (new_entry coord (ss_frame s)) (ss_entries s)\<rparr>
        else s)"

definition mark_desired :: "coord_key_t set \<Rightarrow> scheduler \<Rightarrow> scheduler" where
  "mark_desired keys s =
     s\<lparr>ss_entries := map (\<lambda>(k, e). (k, e\<lparr>en_desired := k \<in> keys\<rparr>)) (ss_entries s)\<rparr>"

definition evict_where :: "(entry \<Rightarrow> bool) \<Rightarrow> scheduler \<Rightarrow> scheduler" where
  "evict_where p s =
     fold evict_key (map (\<lambda>e. coord_key (en_coord e)) (filter p (btree_values (ss_entries s)))) s"

definition update_focus_with_interest :: "chunk_coord \<Rightarrow> chunk_coord list \<Rightarrow> scheduler \<Rightarrow> bool \<times> scheduler" where
  "update_focus_with_interest focus interest s =
     (let (secondary, capacity_truncated) =
            normalized_interest focus interest (max_secondary_interest_chunks (ss_config s));
          desired_changed = (\<not> ss_focus_initialized s \<or> ss_focus s \<noteq> focus \<or> ss_secondary_interest s \<noteq> secondary);
          s = s\<lparr>ss_secondary_requested := length interest, ss_secondary_truncated := capacity_truncated\<rparr>
      in if \<not> desired_changed then (False, s)
      else let s = s\<lparr>ss_focus := focus, ss_focus_initialized := True, ss_secondary_interest := secondary\<rparr>;
          desired = desired_coordinates s focus;
          s = mark_desired (set (map coord_key desired)) s;
          s = evict_where (\<lambda>e. \<not> en_desired e \<and> \<not> inside_retention (ss_config s) focus (en_coord e)) s;
          s = evict_where (\<lambda>e. \<not> en_desired e \<and> en_state e \<noteq> Resident) s
      in (True, fold track_desired desired s))"

definition update_focus :: "chunk_coord \<Rightarrow> scheduler \<Rightarrow> bool \<times> scheduler" where
  "update_focus focus s = update_focus_with_interest focus [] s"

subsection \<open>Scheduling work\<close>

definition take_ticket_serial :: "scheduler \<Rightarrow> u64 \<times> scheduler" where
  "take_ticket_serial s =
     (ss_next_ticket_serial s, s\<lparr>ss_next_ticket_serial := increment_nonzero (ss_next_ticket_serial s)\<rparr>)"

fun in_flight :: "work_stage \<Rightarrow> work_ticket \<Rightarrow> state" where
  "in_flight Generation t = Generating t"
| "in_flight Meshing t = MeshingState t"
| "in_flight Upload t = Uploading t"

fun start_keys :: "work_stage \<Rightarrow> coord_key_t list \<Rightarrow> scheduler \<Rightarrow> work_ticket list \<times> scheduler" where
  "start_keys stage [] s = ([], s)"
| "start_keys stage (key # keys) s =
     (case btree_get (ss_entries s) key of
        None \<Rightarrow> start_keys stage keys s
      | Some e \<Rightarrow>
          (let (serial, s) = take_ticket_serial s;
               ticket = \<lparr>tk_coord = en_coord e, tk_stage = stage, tk_revision = en_revision e, tk_serial = serial\<rparr>;
               s = s\<lparr>ss_entries := btree_update key (en_state_update (\<lambda>_. in_flight stage ticket)) (ss_entries s)\<rparr>;
               (tickets, s) = start_keys stage keys s
           in (ticket # tickets, s)))"

definition stage_order :: "scheduler \<Rightarrow> priority_hint \<Rightarrow> coord_key_t set \<Rightarrow> coord_key_t \<Rightarrow>
    bool \<times> int \<times> int \<times> int \<times> int \<times> int \<times> int \<times> int \<times> int \<times> int" where
  "stage_order s hint urgent key =
     (key \<notin> urgent, directional_priority (ss_focus s) (coord_from_key key) hint)"

definition eligible_keys :: "state \<Rightarrow> scheduler \<Rightarrow> coord_key_t list" where
  "eligible_keys queued s =
     map fst (filter (\<lambda>(_, e). en_state e = queued \<and> (en_desired e \<or> en_ever_resident e)) (ss_entries s))"

definition start_stage ::
  "work_stage \<Rightarrow> state \<Rightarrow> nat \<Rightarrow> priority_hint \<Rightarrow> coord_key_t set \<Rightarrow> scheduler \<Rightarrow> work_ticket list \<times> scheduler" where
  "start_stage stage queued budget hint urgent s =
     start_keys stage (take budget (sort_key (stage_order s hint urgent) (eligible_keys queued s))) s"

definition schedule_frame_with_urgency ::
  "frame_budget \<Rightarrow> priority_hint \<Rightarrow> chunk_coord list \<Rightarrow> scheduler \<Rightarrow> frame_work \<times> scheduler" where
  "schedule_frame_with_urgency budget hint urgent s =
     (let s = s\<lparr>ss_frame := increment_nonzero (ss_frame s), ss_started_this_frame := frame_budget_default\<rparr>;
          urgent = set (map coord_key urgent);
          (generation, s) = start_stage Generation QueuedGeneration (fb_generation budget) hint urgent s;
          (meshing, s) = start_stage Meshing QueuedMeshing (fb_meshing budget) hint urgent s;
          (upload, s) = start_stage Upload QueuedUpload (fb_upload budget) hint urgent s
      in (\<lparr>fw_generation = generation, fw_meshing = meshing, fw_upload = upload\<rparr>,
          s\<lparr>ss_started_this_frame :=
             \<lparr>fb_generation = length generation, fb_meshing = length meshing, fb_upload = length upload\<rparr>\<rparr>))"

definition schedule_frame_prioritized :: "frame_budget \<Rightarrow> priority_hint \<Rightarrow> scheduler \<Rightarrow> frame_work \<times> scheduler" where
  "schedule_frame_prioritized budget hint s = schedule_frame_with_urgency budget hint [] s"

definition schedule_frame :: "frame_budget \<Rightarrow> scheduler \<Rightarrow> frame_work \<times> scheduler" where
  "schedule_frame budget s = schedule_frame_prioritized budget neutral s"

subsection \<open>Completions\<close>

definition next_state :: "scheduler \<Rightarrow> work_ticket \<Rightarrow> state option" where
  "next_state s ticket =
     (case map_option en_state (btree_get (ss_entries s) (coord_key (tk_coord ticket))) of
        Some (Generating active) \<Rightarrow> if active = ticket then Some QueuedMeshing else None
      | Some (MeshingState active) \<Rightarrow> if active = ticket then Some QueuedUpload else None
      | Some (Uploading active) \<Rightarrow> if active = ticket then Some Resident else None
      | _ \<Rightarrow> None)"

definition record_since :: "u64 option \<Rightarrow> u64 \<Rightarrow> latency_histogram \<Rightarrow> latency_histogram" where
  "record_since started frame h =
     (case started of None \<Rightarrow> h | Some start \<Rightarrow> histogram_record (unat (elapsed_frames start frame)) h)"

definition become_resident :: "entry \<Rightarrow> entry" where
  "become_resident e = e\<lparr>en_initial_started := None, en_remesh_started := None, en_ever_resident := True\<rparr>"

definition advance_entry :: "coord_key_t \<Rightarrow> state \<Rightarrow> scheduler \<Rightarrow> scheduler" where
  "advance_entry key state s =
     (case btree_get (ss_entries s) key of
        None \<Rightarrow> s
      | Some e \<Rightarrow>
          if state = Resident
          then s\<lparr>ss_entries := btree_update key (\<lambda>e. become_resident (e\<lparr>en_state := Resident\<rparr>)) (ss_entries s),
                 ss_initial_residency_latency :=
                   record_since (en_initial_started e) (ss_frame s) (ss_initial_residency_latency s),
                 ss_remesh_latency := record_since (en_remesh_started e) (ss_frame s) (ss_remesh_latency s)\<rparr>
          else s\<lparr>ss_entries := btree_update key (en_state_update (\<lambda>_. state)) (ss_entries s)\<rparr>)"

definition stale_completion :: "scheduler \<Rightarrow> completion_status \<times> scheduler" where
  "stale_completion s = (Stale, s\<lparr>ss_stale_completions := increment_nonzero (ss_stale_completions s)\<rparr>)"

definition complete :: "work_ticket \<Rightarrow> scheduler \<Rightarrow> completion_status \<times> scheduler" where
  "complete ticket s =
     (case next_state s ticket of
        Some state \<Rightarrow>
          (let s = advance_entry (coord_key (tk_coord ticket)) state s
           in (Accepted, s\<lparr>ss_accepted_completions := increment_nonzero (ss_accepted_completions s)\<rparr>))
      | None \<Rightarrow> stale_completion s)"

definition retry_state :: "scheduler \<Rightarrow> work_ticket \<Rightarrow> state option" where
  "retry_state s ticket =
     (case map_option en_state (btree_get (ss_entries s) (coord_key (tk_coord ticket))) of
        Some (Generating active) \<Rightarrow> if active = ticket then Some QueuedGeneration else None
      | Some (MeshingState active) \<Rightarrow> if active = ticket then Some QueuedMeshing else None
      | Some (Uploading active) \<Rightarrow> if active = ticket then Some QueuedUpload else None
      | _ \<Rightarrow> None)"

definition retry :: "work_ticket \<Rightarrow> scheduler \<Rightarrow> completion_status \<times> scheduler" where
  "retry ticket s =
     (case retry_state s ticket of
        Some queued \<Rightarrow> (Accepted, s\<lparr>ss_entries :=
          btree_update (coord_key (tk_coord ticket)) (en_state_update (\<lambda>_. queued)) (ss_entries s)\<rparr>)
      | None \<Rightarrow> stale_completion s)"

subsection \<open>Invalidation\<close>

fun requeued :: "state \<Rightarrow> state" where
  "requeued QueuedGeneration = QueuedGeneration"
| "requeued (Generating _) = QueuedGeneration"
| "requeued _ = QueuedMeshing"

definition dirty_entry :: "(state \<Rightarrow> state) \<Rightarrow> u64 \<Rightarrow> entry \<Rightarrow> entry" where
  "dirty_entry f frame e =
     e\<lparr>en_remesh_started := (if en_ever_resident e then Some frame else en_remesh_started e),
       en_revision := increment_nonzero (en_revision e), en_state := f (en_state e)\<rparr>"

definition report_entry :: "chunk_coord \<Rightarrow> entry \<Rightarrow> dirty_report \<Rightarrow> dirty_report" where
  "report_entry coord e r =
     r\<lparr>dr_invalidated_tickets := dr_invalidated_tickets r @
          (case state_ticket (en_state e) of Some t \<Rightarrow> [t] | None \<Rightarrow> []),
       dr_previously_resident := dr_previously_resident r @ (if en_state e = Resident then [coord] else [])\<rparr>"

definition mark_chunk_edited :: "chunk_coord \<Rightarrow> dirty_report \<times> scheduler \<Rightarrow> dirty_report \<times> scheduler" where
  "mark_chunk_edited coord rs =
     (let (report, s) = rs; key = coord_key coord in
      case btree_get (ss_entries s) key of
        None \<Rightarrow> (report, s)
      | Some e \<Rightarrow> (report_entry coord e report,
          s\<lparr>ss_entries := btree_update key (dirty_entry requeued (ss_frame s)) (ss_entries s)\<rparr>))"

definition mark_chunks_edited :: "chunk_coord list \<Rightarrow> scheduler \<Rightarrow> dirty_report \<times> scheduler" where
  "mark_chunks_edited chunks s =
     (let affected = btree_set chunks in
      fold mark_chunk_edited affected (dirty_report_default\<lparr>dr_affected_chunks := affected\<rparr>, s))"

definition invalidate_all_generation :: "scheduler \<Rightarrow> dirty_report \<times> scheduler" where
  "invalidate_all_generation s =
     (fold (\<lambda>e r. report_entry (en_coord e) e (r\<lparr>dr_affected_chunks := dr_affected_chunks r @ [en_coord e]\<rparr>))
        (btree_values (ss_entries s)) dirty_report_default,
      s\<lparr>ss_entries := map (\<lambda>(k, e). (k, dirty_entry (\<lambda>_. QueuedGeneration) (ss_frame s) e)) (ss_entries s)\<rparr>)"

subsection \<open>Queries\<close>

definition entry_status :: "entry \<Rightarrow> chunk_status" where
  "entry_status e =
     \<lparr>cs_coord = en_coord e, cs_state = state_public (en_state e), cs_revision = en_revision e,
      cs_desired = en_desired e\<rparr>"

definition status :: "scheduler \<Rightarrow> chunk_coord \<Rightarrow> chunk_status option" where
  "status s coord = map_option entry_status (btree_get (ss_entries s) (coord_key coord))"

definition statuses :: "scheduler \<Rightarrow> chunk_status list" where
  "statuses s = map entry_status (btree_values (ss_entries s))"

definition ready_at :: "scheduler \<Rightarrow> chunk_coord \<Rightarrow> bool" where
  "ready_at s coord = (case status s coord of None \<Rightarrow> False | Some st \<Rightarrow> cs_desired st \<and> cs_state st = CsResident)"

definition count_ready :: "scheduler \<Rightarrow> chunk_coord \<Rightarrow> readiness \<Rightarrow> readiness" where
  "count_ready s coord r =
     (if \<not> is_world_representable coord then r
      else \<lparr>vr_resident = vr_resident r + of_bool (ready_at s coord), vr_required = vr_required r + 1\<rparr>)"

definition vicinity_readiness_at :: "scheduler \<Rightarrow> chunk_coord \<Rightarrow> int \<Rightarrow> readiness" where
  "vicinity_readiness_at s focus radius_chunks =
     (if \<not> ss_focus_initialized s \<or> radius_chunks < 0 then vicinity_default
      else let radius = min radius_chunks (load_radius_chunks (ss_config s));
               vertical = vertical_radius_chunks (ss_config s)
      in fold (\<lambda>dz r. fold (\<lambda>dx r.
           if dx * dx + dz * dz > radius * radius then r
           else fold (\<lambda>dy r.
             case (i32_checked_add (cx focus) dx, i32_checked_add (cy focus) dy, i32_checked_add (cz focus) dz) of
               (Some x, Some y, Some z) \<Rightarrow> count_ready s (chunk_at x y z) r
             | _ \<Rightarrow> r) (range_incl (- vertical) vertical) r)
           (range_incl (- radius) radius) r) (range_incl (- radius) radius) vicinity_default)"

definition vicinity_readiness :: "scheduler \<Rightarrow> int \<Rightarrow> readiness" where
  "vicinity_readiness s radius_chunks = vicinity_readiness_at s (ss_focus s) radius_chunks"

definition interest_readiness :: "scheduler \<Rightarrow> chunk_coord list \<Rightarrow> readiness" where
  "interest_readiness s coords = fold (count_ready s) coords vicinity_default"

definition drain_evictions :: "scheduler \<Rightarrow> evicted_chunk list \<times> scheduler" where
  "drain_evictions s = (ss_evictions s, s\<lparr>ss_evictions := []\<rparr>)"

definition stage_counts_zero :: stage_counts where
  "stage_counts_zero = \<lparr>st_queued = 0, st_in_flight = 0\<rparr>"

definition diagnose_entry :: "entry \<Rightarrow> stream_diagnostics \<Rightarrow> stream_diagnostics" where
  "diagnose_entry e d =
     (let d = d\<lparr>sd_desired := sd_desired d + of_bool (en_desired e),
           sd_initial_residency_latency := fl_in_flight_update
             (\<lambda>n. n + of_bool (en_initial_started e \<noteq> None)) (sd_initial_residency_latency d),
           sd_remesh_latency := fl_in_flight_update
             (\<lambda>n. n + of_bool (en_remesh_started e \<noteq> None)) (sd_remesh_latency d)\<rparr>
      in case en_state e of
          QueuedGeneration \<Rightarrow> d\<lparr>sd_generation := st_queued_update Suc (sd_generation d)\<rparr>
        | Generating _ \<Rightarrow> d\<lparr>sd_generation := st_in_flight_update Suc (sd_generation d)\<rparr>
        | QueuedMeshing \<Rightarrow> d\<lparr>sd_meshing := st_queued_update Suc (sd_meshing d)\<rparr>
        | MeshingState _ \<Rightarrow> d\<lparr>sd_meshing := st_in_flight_update Suc (sd_meshing d)\<rparr>
        | QueuedUpload \<Rightarrow> d\<lparr>sd_upload := st_queued_update Suc (sd_upload d)\<rparr>
        | Uploading _ \<Rightarrow> d\<lparr>sd_upload := st_in_flight_update Suc (sd_upload d)\<rparr>
        | Resident \<Rightarrow> d\<lparr>sd_resident := sd_resident d + 1\<rparr>)"

definition diagnostics :: "scheduler \<Rightarrow> stream_diagnostics" where
  "diagnostics s =
     (let desired = length (filter (\<lambda>coord.
            case btree_get (ss_entries s) (coord_key coord) of None \<Rightarrow> False | Some e \<Rightarrow> en_desired e)
            (ss_secondary_interest s));
          normalized = length (ss_secondary_interest s);
          d = \<lparr>sd_frame = ss_frame s, sd_tracked = length (ss_entries s), sd_desired = 0,
            sd_secondary_requested = ss_secondary_requested s, sd_secondary_normalized = normalized,
            sd_secondary_desired = desired,
            sd_secondary_truncated = u64_saturating_add (ss_secondary_truncated s) (normalized - desired),
            sd_resident = 0, sd_generation = stage_counts_zero, sd_meshing = stage_counts_zero,
            sd_upload = stage_counts_zero, sd_accepted_completions = ss_accepted_completions s,
            sd_stale_completions = ss_stale_completions s, sd_total_evictions = ss_total_evictions s,
            sd_started_this_frame = ss_started_this_frame s,
            sd_initial_residency_latency = histogram_summary 0 (ss_initial_residency_latency s),
            sd_remesh_latency = histogram_summary 0 (ss_remesh_latency s)\<rparr>
      in fold diagnose_entry (btree_values (ss_entries s)) d)"

definition desired_column_ready :: "scheduler \<Rightarrow> int \<Rightarrow> int \<Rightarrow> bool" where
  "desired_column_ready s x z =
     (let column = filter (\<lambda>e. en_desired e \<and> cx (en_coord e) = x \<and> cz (en_coord e) = z) (btree_values (ss_entries s))
      in column \<noteq> [] \<and> list_all (\<lambda>e. en_state e = Resident) column)"

definition desired_chunk_renderable :: "scheduler \<Rightarrow> chunk_coord \<Rightarrow> bool" where
  "desired_chunk_renderable s coord =
     (case btree_get (ss_entries s) (coord_key coord) of None \<Rightarrow> False
      | Some e \<Rightarrow> en_desired e \<and> en_ever_resident e)"

end
