(* ===== verification/Stream_Invariant.thy ===== *)
theory Stream_Invariant
  imports Stream_Scheduler
begin

text \<open>
  The invariant of \<open>StreamScheduler\<close> and what \<open>update_focus_with_interest\<close> leaves behind: the
  desired set is tracked exactly, work that survives is untouched, and every tracked chunk that is
  dropped is announced as an eviction.
\<close>

declare split_paired_All [simp del] split_paired_Ex [simp del]

subsection \<open>The invariant of an entry\<close>

definition ticket_ok :: "work_stage \<Rightarrow> entry \<Rightarrow> work_ticket \<Rightarrow> bool" where
  "ticket_ok stage e t \<longleftrightarrow> tk_coord t = en_coord e \<and> tk_stage t = stage \<and> tk_revision t = en_revision e"

fun state_ok :: "entry \<Rightarrow> state \<Rightarrow> bool" where
  "state_ok e (Generating t) = ticket_ok Generation e t"
| "state_ok e (MeshingState t) = ticket_ok Meshing e t"
| "state_ok e (Uploading t) = ticket_ok Upload e t"
| "state_ok e Resident = (en_ever_resident e \<and> en_remesh_started e = None)"
| "state_ok e _ = True"

definition entry_ok :: "coord_key_t \<Rightarrow> entry \<Rightarrow> bool" where
  "entry_ok key e \<longleftrightarrow> key = coord_key (en_coord e) \<and> state_ok e (en_state e) \<and> en_revision e \<noteq> 0
     \<and> (en_ever_resident e \<longleftrightarrow> en_initial_started e = None)
     \<and> (en_remesh_started e \<noteq> None \<longrightarrow> en_ever_resident e)"

definition settled :: "entry \<Rightarrow> bool" where
  "settled e \<longleftrightarrow> en_desired e \<or> en_ever_resident e"

definition entries_all :: "(coord_key_t \<Rightarrow> entry \<Rightarrow> bool) \<Rightarrow> scheduler \<Rightarrow> bool" where
  "entries_all p s \<longleftrightarrow> btree_wf (ss_entries s) \<and> (\<forall>k e. btree_get (ss_entries s) k = Some e \<longrightarrow> p k e)"

definition sched_wf :: "scheduler \<Rightarrow> bool" where
  "sched_wf s \<longleftrightarrow> entries_all (\<lambda>k e. entry_ok k e \<and> settled e) s
     \<and> length (ss_entries s) \<le> max_tracked_chunks (ss_config s)
     \<and> length (ss_secondary_interest s) \<le> max_secondary_interest_chunks (ss_config s)
     \<and> ss_next_ticket_serial s \<noteq> 0"

lemma entries_allD: "entries_all p s \<Longrightarrow> btree_get (ss_entries s) k = Some e \<Longrightarrow> p k e"
  by (simp add: entries_all_def)

lemma entries_all_wf: "entries_all p s \<Longrightarrow> btree_wf (ss_entries s)"
  by (simp add: entries_all_def)

lemma entries_all_mono: "entries_all p s \<Longrightarrow> (\<And>k e. p k e \<Longrightarrow> q k e) \<Longrightarrow> entries_all q s"
  by (auto simp: entries_all_def)

lemma entries_all_update:
  assumes "entries_all p s" "ss_entries s' = btree_update k f (ss_entries s)" "\<And>e. btree_get (ss_entries s) k = Some e \<Longrightarrow> p k e \<Longrightarrow> p k (f e)"
  shows "entries_all p s'"
  using assms by (auto simp: entries_all_def split: if_splits)

lemma entries_all_map:
  assumes "entries_all p s" "ss_entries s' = map (\<lambda>(k, e). (k, f k e)) (ss_entries s)" "\<And>k e. p k e \<Longrightarrow> q k (f k e)"
  shows "entries_all q s'"
  using assms by (auto simp: entries_all_def)

lemma entries_all_values:
  assumes "entries_all p s" "e \<in> set (btree_values (ss_entries s))"
  shows "\<exists>k. btree_get (ss_entries s) k = Some e \<and> p k e"
  using assms btree_values_set [of "ss_entries s"] by (auto simp: entries_all_def)

lemma increment_nonzero_neq [simp]: "increment_nonzero v \<noteq> 0"
  by (simp add: increment_nonzero_def Let_def)

subsection \<open>Evictions\<close>

definition evicted_of :: "entry \<Rightarrow> evicted_chunk" where
  "evicted_of e = \<lparr>ev_coord = en_coord e, ev_state = state_public (en_state e), ev_revision = en_revision e\<rparr>"

text \<open>Nothing outside the entries and the eviction log changes.\<close>

definition same_shell :: "scheduler \<Rightarrow> scheduler \<Rightarrow> bool" where
  "same_shell s s' \<longleftrightarrow> ss_config s' = ss_config s \<and> ss_focus s' = ss_focus s
     \<and> ss_focus_initialized s' = ss_focus_initialized s \<and> ss_secondary_interest s' = ss_secondary_interest s
     \<and> ss_next_ticket_serial s' = ss_next_ticket_serial s \<and> ss_frame s' = ss_frame s"

lemma same_shell_refl [simp]: "same_shell s s" by (simp add: same_shell_def)
lemma same_shell_trans: "same_shell a b \<Longrightarrow> same_shell b c \<Longrightarrow> same_shell a c" by (simp add: same_shell_def)

definition new_entry_at :: "u64 \<Rightarrow> coord_key_t \<Rightarrow> entry" where
  "new_entry_at frame k = new_entry (coord_from_key k) frame"

text \<open>
  \<open>reshapes C s s'\<close>: \<open>s'\<close> is \<open>s\<close> without some undesired entries, all of them and only them
  appended to the eviction log, and with new entries at the keys of \<open>C\<close> that were absent.
\<close>

definition reshapes :: "coord_key_t set \<Rightarrow> scheduler \<Rightarrow> scheduler \<Rightarrow> bool" where
  "reshapes C s s' \<longleftrightarrow> same_shell s s' \<and>
     (\<exists>lost. ss_evictions s' = ss_evictions s @ map evicted_of lost \<and> distinct (map en_coord lost) \<and>
        (\<forall>e \<in> set lost. \<not> en_desired e \<and> btree_get (ss_entries s) (coord_key (en_coord e)) = Some e) \<and>
        (\<forall>k. btree_get (ss_entries s') k =
          (if k \<in> (\<lambda>e. coord_key (en_coord e)) ` set lost then None
           else if k \<in> C \<and> btree_get (ss_entries s) k = None then Some (new_entry_at (ss_frame s) k)
           else btree_get (ss_entries s) k)))"

abbreviation drops_to :: "scheduler \<Rightarrow> scheduler \<Rightarrow> bool" where
  "drops_to \<equiv> reshapes {}"

lemma drops_to_refl [simp]: "drops_to s s"
  by (auto simp: reshapes_def intro: exI [of _ "[]"])

lemma new_entry_desired [simp]: "en_desired (new_entry_at f k)" "en_coord (new_entry_at f k) = coord_from_key k"
  by (simp_all add: new_entry_at_def new_entry_def)

lemma reshapes_trans:
  assumes r1: "reshapes C a b" and r2: "reshapes D b c"
    and D: "\<And>k e. k \<in> D \<Longrightarrow> btree_get (ss_entries a) k = Some e \<Longrightarrow> en_desired e"
  shows "reshapes (C \<union> D) a c"
proof -
  let ?key = "\<lambda>e. coord_key (en_coord e)"
  from r1 obtain l1 where l1: "same_shell a b" "ss_evictions b = ss_evictions a @ map evicted_of l1"
    "distinct (map en_coord l1)"
    "\<And>e. e \<in> set l1 \<Longrightarrow> \<not> en_desired e \<and> btree_get (ss_entries a) (?key e) = Some e"
    "\<And>k. btree_get (ss_entries b) k = (if k \<in> ?key ` set l1 then None
       else if k \<in> C \<and> btree_get (ss_entries a) k = None then Some (new_entry_at (ss_frame a) k)
       else btree_get (ss_entries a) k)"
    by (auto simp: reshapes_def)
  from r2 obtain l2 where l2: "same_shell b c" "ss_evictions c = ss_evictions b @ map evicted_of l2"
    "distinct (map en_coord l2)"
    "\<And>e. e \<in> set l2 \<Longrightarrow> \<not> en_desired e \<and> btree_get (ss_entries b) (?key e) = Some e"
    "\<And>k. btree_get (ss_entries c) k = (if k \<in> ?key ` set l2 then None
       else if k \<in> D \<and> btree_get (ss_entries b) k = None then Some (new_entry_at (ss_frame b) k)
       else btree_get (ss_entries b) k)"
    by (auto simp: reshapes_def)
  have fr: "ss_frame b = ss_frame a" using l1(1) by (simp add: same_shell_def)
  have fresh: "?key e \<notin> ?key ` set l1 \<and> \<not> en_desired e \<and> btree_get (ss_entries a) (?key e) = Some e" if "e \<in> set l2" for e
    using l2(4) [OF that] l1(5) [of "?key e"] new_entry_desired(1) [of "ss_frame a" "?key e"]
    by (auto split: if_splits simp del: new_entry_desired)
  have "en_coord x \<noteq> en_coord y" if "x \<in> set l1" "y \<in> set l2" for x y
  proof
    assume "en_coord x = en_coord y"
    then have "?key y \<in> ?key ` set l1" using that(1) by (metis imageI)
    with fresh [OF that(2)] show False by blast
  qed
  then have "en_coord ` set l1 \<inter> en_coord ` set l2 = {}" by blast
  then have dist: "distinct (map en_coord (l1 @ l2))" using l1(3) l2(3) by simp
  have nD: "?key e \<notin> D" if "e \<in> set l1" for e using D l1(4) [OF that] by blast
  have get: "btree_get (ss_entries c) k = (if k \<in> ?key ` set (l1 @ l2) then None
       else if k \<in> C \<union> D \<and> btree_get (ss_entries a) k = None then Some (new_entry_at (ss_frame a) k)
       else btree_get (ss_entries a) k)" for k
    unfolding l2(5) l1(5) fr using nD by (auto simp: image_Un)
  show ?thesis
    unfolding reshapes_def
    using same_shell_trans [OF l1(1) l2(1)] l1(2,4) l2(2) fresh dist get
    by (intro conjI exI [of _ "l1 @ l2"]) auto
qed

lemma drops_to_trans: "drops_to a b \<Longrightarrow> drops_to b c \<Longrightarrow> drops_to a c"
  using reshapes_trans [of "{}" a b "{}" c] by simp

lemma drops_to_evict:
  assumes "entries_all entry_ok s" "btree_get (ss_entries s) key = Some e" "\<not> en_desired e"
  shows "drops_to s (evict_key key s)"
proof -
  have "key = coord_key (en_coord e)" using entries_allD [OF assms(1,2)] by (simp add: entry_ok_def)
  with assms show ?thesis
    unfolding reshapes_def
    by (intro conjI exI [of _ "[e]"])
      (auto simp: evict_key_def evicted_of_def same_shell_def btree_get_remove entries_all_wf)
qed

lemma entries_all_evict: "entries_all p s \<Longrightarrow> entries_all p (evict_key key s)"
  by (auto simp: entries_all_def evict_key_entries btree_get_remove split: if_splits)

lemma entries_all_fold_evict: "entries_all p s \<Longrightarrow> entries_all p (fold evict_key keys s)"
  by (induction keys arbitrary: s) (auto intro: entries_all_evict)

lemma fold_evict_get:
  "btree_wf (ss_entries s) \<Longrightarrow> btree_get (ss_entries (fold evict_key keys s)) k =
     (if k \<in> set keys then None else btree_get (ss_entries s) k)"
proof (induction keys arbitrary: s)
  case (Cons key keys)
  then show ?case by (simp add: evict_key_entries btree_get_remove)
qed simp

lemma fold_evict_drops:
  assumes "entries_all entry_ok s" "distinct es"
    "\<forall>e \<in> set es. btree_get (ss_entries s) (coord_key (en_coord e)) = Some e \<and> \<not> en_desired e"
  shows "drops_to s (fold evict_key (map (\<lambda>e. coord_key (en_coord e)) es) s)"
  using assms
proof (induction es arbitrary: s)
  case (Cons e es)
  let ?s = "evict_key (coord_key (en_coord e)) s"
  have ne: "en_coord e' \<noteq> en_coord e" if "e' \<in> set es" for e'
    using Cons.prems(2,3) that by (metis distinct.simps(2) list.set_intros(1,2) option.inject)
  have "drops_to s ?s" using Cons.prems by (intro drops_to_evict) auto
  moreover have "drops_to ?s (fold evict_key (map (\<lambda>e. coord_key (en_coord e)) es) ?s)"
    using Cons.prems ne
    by (intro Cons.IH) (auto intro: entries_all_evict simp: evict_key_entries btree_get_remove entries_all_wf)
  ultimately show ?case by (auto intro: drops_to_trans)
qed simp

lemma distinct_values:
  assumes "entries_all entry_ok s"
  shows "distinct (btree_values (ss_entries s))"
proof -
  have "map fst (ss_entries s) = map (\<lambda>e. coord_key (en_coord e)) (btree_values (ss_entries s))"
    using assms unfolding btree_values_def map_map
    by (intro map_cong) (auto simp: entries_all_def btree_get_iff entry_ok_def)
  with btree_wf_distinct [OF entries_all_wf [OF assms]] show ?thesis
    by (metis distinct_map)
qed

lemma evict_where_spec:
  assumes ok: "entries_all entry_ok s" and u: "\<And>e. p e \<Longrightarrow> \<not> en_desired e"
  shows "drops_to s (evict_where p s)"
    and "entries_all (\<lambda>k e. entry_ok k e \<and> \<not> p e) (evict_where p s)"
proof -
  have mem: "btree_get (ss_entries s) (coord_key (en_coord e)) = Some e" if "e \<in> set (btree_values (ss_entries s))" for e
    using entries_all_values [OF ok that] by (auto simp: entry_ok_def)
  show "drops_to s (evict_where p s)"
    unfolding evict_where_def using ok u mem distinct_values [OF ok] by (intro fold_evict_drops) auto
  have get: "btree_get (ss_entries (evict_where p s)) k = Some e \<Longrightarrow> btree_get (ss_entries s) k = Some e \<and> \<not> p e" for k e
    using entries_allD [OF ok, of k e] btree_values_set [OF entries_all_wf [OF ok]]
    by (fastforce simp: evict_where_def fold_evict_get entries_all_wf [OF ok] entry_ok_def split: if_splits)
  have "entries_all entry_ok (evict_where p s)"
    unfolding evict_where_def by (rule entries_all_fold_evict [OF ok])
  with get show "entries_all (\<lambda>k e. entry_ok k e \<and> \<not> p e) (evict_where p s)"
    unfolding entries_all_def by blast
qed

subsection \<open>Making room\<close>

lemma make_room_spec:
  assumes "entries_all entry_ok s"
  shows "drops_to s (make_room s) \<and> entries_all entry_ok (make_room s) \<and>
    (length (ss_entries (make_room s)) < max_tracked_chunks (ss_config s)
      \<or> (\<forall>(k, e) \<in> set (ss_entries (make_room s)). en_desired e))"
  using assms
proof (induction s rule: make_room.induct)
  case (1 s)
  obtain b s' where ev: "evict_farthest_undesired s = (b, s')" by fastforce
  show ?case
  proof (cases "length (ss_entries s) \<ge> max_tracked_chunks (ss_config s)")
    case full: True
    note cs = evict_farthest_cases [OF ev]
    show ?thesis
    proof (cases b)
      case True
      with cs obtain key e where e: "(key, e) \<in> set (ss_entries s)" "\<not> en_desired e" "s' = evict_key key s" by auto
      then have d: "drops_to s s'" "entries_all entry_ok s'"
        using "1.prems" by (auto intro: drops_to_evict entries_all_evict simp: btree_get_iff entries_all_wf)
      have cfg: "ss_config s' = ss_config s" using d(1) by (simp add: reshapes_def same_shell_def)
      have "make_room s = make_room s'" using full ev True by (simp add: make_room.simps [of s])
      with "1.IH" [OF full ev [symmetric] True d(2)] d(1) cfg show ?thesis
        by (auto intro: drops_to_trans)
    next
      case False
      with cs full ev "1.prems" show ?thesis by (simp add: make_room.simps [of s])
    qed
  next
    case False
    with "1.prems" show ?thesis by (simp add: make_room.simps [of s])
  qed
qed

text \<open>The entries while the desired coordinates are being tracked.\<close>

definition marked :: "coord_key_t set \<Rightarrow> scheduler \<Rightarrow> bool" where
  "marked D s \<longleftrightarrow> entries_all (\<lambda>k e. entry_ok k e \<and> settled e \<and> (en_desired e \<longleftrightarrow> k \<in> D)) s
     \<and> length (ss_entries s) \<le> max_tracked_chunks (ss_config s)"

lemma drops_to_get:
  assumes "drops_to s s'" "btree_get (ss_entries s') k = Some e"
  shows "btree_get (ss_entries s) k = Some e"
  using assms unfolding reshapes_def
  by (elim exE conjE) (drule spec [of _ k], simp split: if_splits)

lemma drops_to_length:
  assumes "drops_to s s'" "btree_wf (ss_entries s)" "btree_wf (ss_entries s')"
  shows "length (ss_entries s') \<le> length (ss_entries s)"
proof -
  have "set (ss_entries s') \<subseteq> set (ss_entries s)" using assms(2,3) drops_to_get [OF assms(1)] by (auto simp: btree_get_iff [symmetric])
  then show ?thesis
    using assms(2,3) by (metis btree_wf_distinct card_mono distinct_card distinct_map finite_set)
qed

lemma btree_all_in_length:
  assumes "btree_wf m" "fst ` set m \<subseteq> D" "finite D"
  shows "length m \<le> card D"
  using assms by (metis btree_wf_distinct card_mono distinct_card length_map list.set_map)

lemma new_entry_ok [simp]: "entry_ok (coord_key c) (new_entry c f)" "settled (new_entry c f)"
  by (simp_all add: entry_ok_def new_entry_def settled_def)

lemma entries_all_insert:
  "entries_all p s \<Longrightarrow> ss_entries s' = btree_insert k e (ss_entries s) \<Longrightarrow> p k e \<Longrightarrow> entries_all p s'"
  by (auto simp: entries_all_def)

lemma drops_to_all: "drops_to s s' \<Longrightarrow> btree_wf (ss_entries s') \<Longrightarrow> entries_all p s \<Longrightarrow> entries_all p s'"
  using drops_to_get [of s s'] by (simp add: entries_all_def)

lemma track_desired_spec:
  assumes m: "marked D s" and D: "finite D" "card D \<le> max_tracked_chunks (ss_config s)" and c: "coord_key c \<in> D"
  shows "reshapes {coord_key c} s (track_desired c s) \<and> marked D (track_desired c s)
    \<and> btree_get (ss_entries (track_desired c s)) (coord_key c) \<noteq> None"
proof (cases "btree_get (ss_entries s) (coord_key c)")
  case (Some e)
  note all = m [unfolded marked_def, THEN conjunct1]
  have "en_desired e" using entries_allD [OF all Some] c by simp
  then have "e\<lparr>en_desired := True\<rparr> = e" by simp
  then have "ss_entries (track_desired c s) = ss_entries s"
    using Some entries_all_wf [OF all]
    by (intro btree_ext) (auto simp: track_desired_def btree_contains_def)
  then have "track_desired c s = s" using Some by (simp add: track_desired_def btree_contains_def)
  with m Some show ?thesis by (auto simp: reshapes_def intro: exI [of _ "[]"])
next
  case None
  note all = m [unfolded marked_def, THEN conjunct1]
  have ok: "entries_all entry_ok s" by (rule entries_all_mono [OF all]) blast
  define r where "r = make_room s"
  have r: "drops_to s r" "entries_all entry_ok r"
    "length (ss_entries r) < max_tracked_chunks (ss_config s) \<or> (\<forall>(k, e) \<in> set (ss_entries r). en_desired e)"
    using make_room_spec [OF ok] by (simp_all add: r_def)
  have cfg: "ss_config r = ss_config s" "ss_frame r = ss_frame s" using r(1) by (auto simp: reshapes_def same_shell_def)
  have rall: "entries_all (\<lambda>k e. entry_ok k e \<and> settled e \<and> (en_desired e \<longleftrightarrow> k \<in> D)) r"
    by (rule drops_to_all [OF r(1) entries_all_wf [OF r(2)] all])
  have nor: "btree_get (ss_entries r) (coord_key c) = None" using r(1) None by (auto simp: reshapes_def)
  have room: "length (ss_entries r) < max_tracked_chunks (ss_config s)"
  proof (rule disjE [OF r(3)])
    assume des: "\<forall>(k, e) \<in> set (ss_entries r). en_desired e"
    have "fst ` set (ss_entries r) \<subseteq> D - {coord_key c}"
      using des nor rall by (force simp: entries_all_def btree_get_iff btree_get_None)
    then have "length (ss_entries r) \<le> card (D - {coord_key c})"
      using D(1) by (intro btree_all_in_length entries_all_wf [OF r(2)]) auto
    also have "\<dots> < card D" using c D(1) by (intro psubset_card_mono) auto
    finally show ?thesis using D(2) by simp
  qed
  have eq: "track_desired c s = r\<lparr>ss_entries := btree_insert (coord_key c) (new_entry c (ss_frame s)) (ss_entries r)\<rparr>"
    using None room by (simp add: track_desired_def btree_contains_def Let_def cfg flip: r_def)
  have "entries_all (\<lambda>k e. entry_ok k e \<and> settled e \<and> (en_desired e \<longleftrightarrow> k \<in> D)) (track_desired c s)"
    by (rule entries_all_insert [OF rall, where k = "coord_key c" and e = "new_entry c (ss_frame s)"])
      (use c in \<open>simp_all add: eq\<close>, simp add: new_entry_def)
  moreover have "length (ss_entries (track_desired c s)) \<le> max_tracked_chunks (ss_config (track_desired c s))"
    using room by (simp add: eq cfg btree_length_insert entries_all_wf [OF r(2)])
  ultimately have "marked D (track_desired c s)" by (simp add: marked_def)
  moreover have "reshapes {coord_key c} s (track_desired c s)"
    using r(1) None unfolding reshapes_def eq
    by (auto simp: same_shell_def new_entry_at_def)
  ultimately show ?thesis by (simp add: eq)
qed

lemma track_all:
  assumes m: "marked D s" and D: "finite D" "card D \<le> max_tracked_chunks (ss_config s)"
    and cs: "coord_key ` set cs \<subseteq> D"
  shows "reshapes (coord_key ` set cs) s (fold track_desired cs s) \<and> marked D (fold track_desired cs s)
    \<and> (\<forall>c \<in> set cs. btree_get (ss_entries (fold track_desired cs s)) (coord_key c) \<noteq> None)"
  using assms
proof (induction cs arbitrary: s)
  case Nil
  then show ?case by simp
next
  case (Cons c cs)
  let ?s = "track_desired c s"
  note one = track_desired_spec [OF Cons.prems(1,2,3), of c]
  have c: "coord_key c \<in> D" using Cons.prems(4) by simp
  have cfg: "ss_config ?s = ss_config s" using one c by (auto simp: reshapes_def same_shell_def)
  have rest: "reshapes (coord_key ` set cs) ?s (fold track_desired cs ?s) \<and> marked D (fold track_desired cs ?s)
    \<and> (\<forall>c \<in> set cs. btree_get (ss_entries (fold track_desired cs ?s)) (coord_key c) \<noteq> None)"
    using Cons.prems one c cfg by (intro Cons.IH) auto
  have des: "en_desired e" if "k \<in> D" "btree_get (ss_entries s) k = Some e" for k e
    using Cons.prems(1) that by (auto simp: marked_def entries_all_def)
  have "reshapes ({coord_key c} \<union> coord_key ` set cs) s (fold track_desired cs ?s)"
  proof (rule reshapes_trans)
    show "reshapes {coord_key c} s ?s" using one c by blast
    show "reshapes (coord_key ` set cs) ?s (fold track_desired cs ?s)" using rest by blast
    fix k e assume "k \<in> coord_key ` set cs" "btree_get (ss_entries s) k = Some e"
    moreover from this(1) have "k \<in> D" using Cons.prems(4) by auto
    ultimately show "en_desired e" by (intro des)
  qed
  moreover have "btree_get (ss_entries (fold track_desired cs ?s)) (coord_key c) \<noteq> None"
  proof -
    obtain e where e: "btree_get (ss_entries ?s) (coord_key c) = Some e" using one c by auto
    have "en_desired e" using one c e by (auto simp: marked_def entries_all_def)
    with rest e show ?thesis unfolding reshapes_def by fastforce
  qed
  ultimately show ?case using rest by simp
qed

subsection \<open>The desired coordinates\<close>

definition in_cylinder :: "stream_config \<Rightarrow> chunk_coord \<Rightarrow> chunk_coord \<Rightarrow> bool" where
  "in_cylinder config focus c \<longleftrightarrow> is_world_representable c \<and>
     (cx c - cx focus)\<^sup>2 + (cz c - cz focus)\<^sup>2 \<le> (load_radius_chunks config)\<^sup>2 \<and>
     \<bar>cy c - cy focus\<bar> \<le> vertical_radius_chunks config"

lemma square_bound: "(x :: int)\<^sup>2 + y\<^sup>2 \<le> r\<^sup>2 \<Longrightarrow> 0 \<le> r \<Longrightarrow> - r \<le> x \<and> x \<le> r"
proof -
  assume a: "x\<^sup>2 + y\<^sup>2 \<le> r\<^sup>2" and r: "0 \<le> r"
  have "x\<^sup>2 \<le> r\<^sup>2" using a zero_le_power2 [of y] by linarith
  then have "\<bar>x\<bar> \<le> r" using r by (metis abs_le_square_iff abs_of_nonneg)
  then show ?thesis by linarith
qed

lemma set_checked [simp]:
  "set (case i32_checked_add a d of None \<Rightarrow> [] | Some y \<Rightarrow> f y) = (if i32_ok (a + d) then set (f (a + d)) else {})"
  "set (case (i32_checked_add a d, i32_checked_add b e) of (Some x, Some z) \<Rightarrow> g x z | _ \<Rightarrow> []) =
     (if i32_ok (a + d) \<and> i32_ok (b + e) then set (g (a + d) (b + e)) else {})"
  by (simp_all add: i32_checked_add_def i32_try_def)

lemma in_set_cylinder:
  "c \<in> set (cylinder config focus) \<longleftrightarrow>
    (\<exists>dy \<in> {- vertical_radius_chunks config..vertical_radius_chunks config}. i32_ok (cy focus + dy) \<and>
    (\<exists>dz \<in> {- load_radius_chunks config..load_radius_chunks config}.
     \<exists>dx \<in> {- load_radius_chunks config..load_radius_chunks config}.
      dx * dx + dz * dz \<le> load_radius_chunks config * load_radius_chunks config \<and>
      i32_ok (cx focus + dx) \<and> i32_ok (cz focus + dz) \<and>
      is_world_representable c \<and> c = chunk_at (cx focus + dx) (cy focus + dy) (cz focus + dz)))"
  (is "_ \<longleftrightarrow> (\<exists>dy \<in> ?V. ?ok dy \<and> (\<exists>dz \<in> ?R. \<exists>dx \<in> ?R. ?p dx dy dz))")
proof -
  define row where "row y dz dx = (if dx * dx + dz * dz > load_radius_chunks config * load_radius_chunks config then []
      else case (i32_checked_add (cx focus) dx, i32_checked_add (cz focus) dz) of
          (Some x, Some z) \<Rightarrow> (let coord = chunk_at x y z in if is_world_representable coord then [coord] else [])
        | _ \<Rightarrow> [])" for dx y dz
  have row: "c \<in> set (row (cy focus + dy) dz dx) \<longleftrightarrow> ?p dx dy dz" for dx dy dz
    by (auto simp: row_def Let_def)
  have cyl: "cylinder config focus = concat (map (\<lambda>dy. case i32_checked_add (cy focus) dy of None \<Rightarrow> []
      | Some y \<Rightarrow> concat (map (\<lambda>dz. concat (map (row y dz)
          (range_incl (- load_radius_chunks config) (load_radius_chunks config))))
          (range_incl (- load_radius_chunks config) (load_radius_chunks config))))
      (range_incl (- vertical_radius_chunks config) (vertical_radius_chunks config)))"
    unfolding cylinder_def Let_def row_def by (rule refl)
  have "c \<in> set (cylinder config focus) \<longleftrightarrow>
      (\<exists>dy \<in> ?V. ?ok dy \<and> (\<exists>dz \<in> ?R. \<exists>dx \<in> ?R. c \<in> set (row (cy focus + dy) dz dx)))"
    unfolding cyl by auto
  then show ?thesis unfolding row .
qed

lemma set_cylinder:
  assumes r: "0 \<le> load_radius_chunks config"
  shows "set (cylinder config focus) = {c. in_cylinder config focus c}"
proof (rule set_eqI)
  fix c :: chunk_coord
  let ?dx = "cx c - cx focus" and ?dy = "cy c - cy focus" and ?dz = "cz c - cz focus"
  have "in_cylinder config focus c \<Longrightarrow> c \<in> set (cylinder config focus)"
    unfolding in_set_cylinder
    using square_bound [of ?dx ?dz] square_bound [of ?dz ?dx] r chunk_ok_representable [of c]
    by (intro bexI [of _ ?dy] conjI bexI [of _ ?dz] bexI [of _ ?dx])
      (auto simp: in_cylinder_def chunk_ok_def power2_eq_square add.commute)
  moreover have "c \<in> set (cylinder config focus) \<Longrightarrow> in_cylinder config focus c"
    unfolding in_set_cylinder by (auto simp: in_cylinder_def power2_eq_square)
  ultimately show "c \<in> set (cylinder config focus) \<longleftrightarrow> c \<in> {c. in_cylinder config focus c}" by blast
qed

lemma distinct_cylinder: "distinct (cylinder config focus)"
  unfolding cylinder_def Let_def
  by (intro distinct_concat_map; simp split: option.splits if_splits; (intro impI conjI distinct_concat_map)?)
    (auto simp: Let_def split: option.splits if_splits)

lemma add_secondary_spec:
  assumes "distinct candidates" "length candidates \<le> limit" "keys = coord_key ` set candidates"
  shows "distinct (add_secondary limit cs keys candidates)
    \<and> length (add_secondary limit cs keys candidates) \<le> limit
    \<and> set candidates \<subseteq> set (add_secondary limit cs keys candidates)
    \<and> set (add_secondary limit cs keys candidates) \<subseteq> set candidates \<union> set cs
    \<and> (length (add_secondary limit cs keys candidates) < limit \<longrightarrow> set cs \<subseteq> set (add_secondary limit cs keys candidates))
    \<and> (length candidates = limit \<longrightarrow> add_secondary limit cs keys candidates = candidates)"
  using assms
proof (induction limit cs keys candidates rule: add_secondary.induct)
  case (2 limit c cs keys candidates)
  show ?case
  proof (cases "length candidates = limit")
    case False
    show ?thesis
    proof (cases "coord_key c \<in> keys")
      case True
      with "2.prems" have "c \<in> set candidates" by auto
      with "2.IH"(2) False True "2.prems" show ?thesis by auto
    next
      case fresh: False
      with "2.prems" have "c \<notin> set candidates" by auto
      with "2.IH"(1) False fresh "2.prems" show ?thesis by auto
    qed
  qed (use "2.prems" in auto)
qed auto

lemma sort_key_take_least:
  assumes "a \<in> set (take n (sort_key f xs))" "b \<in> set xs" "b \<notin> set (take n (sort_key f xs))"
  shows "f a \<le> f b" and "length (take n (sort_key f xs)) = n"
proof -
  let ?ys = "sort_key f xs"
  have b: "b \<in> set (drop n ?ys)"
    using assms(2,3) by (metis Un_iff append_take_drop_id set_append set_sort)
  have "sorted (map f (take n ?ys @ drop n ?ys))" by simp
  then show "f a \<le> f b"
    unfolding map_append sorted_append using assms(1) b by auto
  show "length (take n ?ys) = n" using b by (cases "n \<le> length ?ys") auto
qed

lemma desired_spec:
  assumes r: "0 \<le> load_radius_chunks (ss_config s)"
  shows "distinct (desired_coordinates s focus)
    \<and> length (desired_coordinates s focus) \<le> max_tracked_chunks (ss_config s)
    \<and> (\<forall>c \<in> set (desired_coordinates s focus).
         in_cylinder (ss_config s) focus c \<or> c \<in> set (ss_secondary_interest s))
    \<and> (\<forall>c. in_cylinder (ss_config s) focus c \<longrightarrow> c \<in> set (desired_coordinates s focus)
        \<or> length (desired_coordinates s focus) = max_tracked_chunks (ss_config s)
          \<and> (\<forall>d \<in> set (desired_coordinates s focus).
               in_cylinder (ss_config s) focus d \<and> chunk_priority focus d \<le> chunk_priority focus c))
    \<and> (set (ss_secondary_interest s) \<subseteq> set (desired_coordinates s focus)
        \<or> length (desired_coordinates s focus) = max_tracked_chunks (ss_config s))"
proof -
  let ?cap = "max_tracked_chunks (ss_config s)"
  define near where "near = take ?cap (sort_key (chunk_priority focus) (cylinder (ss_config s) focus))"
  have eq: "desired_coordinates s focus = add_secondary ?cap (ss_secondary_interest s) (coord_key ` set near) near"
    by (simp add: desired_coordinates_def near_def Let_def)
  have near: "distinct near" "length near \<le> ?cap" "set near \<subseteq> {c. in_cylinder (ss_config s) focus c}"
    using distinct_cylinder set_take_subset set_cylinder [OF r, of focus] unfolding near_def by fastforce+
  note add = add_secondary_spec [OF near(1,2) refl, of "ss_secondary_interest s", folded eq]
  have "c \<in> set (desired_coordinates s focus)
        \<or> length (desired_coordinates s focus) = ?cap
          \<and> (\<forall>d \<in> set (desired_coordinates s focus).
               in_cylinder (ss_config s) focus d \<and> chunk_priority focus d \<le> chunk_priority focus c)"
    if c: "in_cylinder (ss_config s) focus c" for c
  proof (cases "c \<in> set near")
    case False
    have cc: "c \<in> set (cylinder (ss_config s) focus)" using c set_cylinder [OF r] by simp
    show ?thesis
    proof (cases "near = []")
      case True
      then have "?cap = 0" using cc unfolding near_def by (metis empty_iff list.set(1) set_sort take_eq_Nil)
      with add True show ?thesis by simp
    next
      case ne: False
      then obtain a where "a \<in> set near" by (cases near) auto
      then have full: "length near = ?cap"
        using sort_key_take_least(2) [of a ?cap "chunk_priority focus", OF _ cc] False by (simp add: near_def)
      have "\<forall>d \<in> set near. chunk_priority focus d \<le> chunk_priority focus c"
        using sort_key_take_least(1) [of _ ?cap "chunk_priority focus", OF _ cc] False by (simp add: near_def)
      with full add near(3) show ?thesis by auto
    qed
  qed (use add in auto)
  moreover have "c \<in> set (desired_coordinates s focus) \<Longrightarrow>
      in_cylinder (ss_config s) focus c \<or> c \<in> set (ss_secondary_interest s)" for c
    using add near(3) by auto
  ultimately show ?thesis using add by (metis le_neq_implies_less)
qed

text \<open>
  The desired set of a focus is bounded by the configured capacity and duplicate-free, it
  holds nothing but the representable chunks of the primary cylinder and the secondary interest,
  and primary coverage wins by distance: a chunk of the cylinder is left out only when the set is
  full of chunks of the cylinder, none of them of a later priority. Secondary interest is left
  out only when the capacity is reached.
\<close>

theorem desired_coordinates_nearest:
  assumes r: "0 \<le> load_radius_chunks (ss_config s)"
  shows "distinct (desired_coordinates s focus)
    \<and> length (desired_coordinates s focus) \<le> max_tracked_chunks (ss_config s)
    \<and> (\<forall>c \<in> set (desired_coordinates s focus).
         in_cylinder (ss_config s) focus c \<or> c \<in> set (ss_secondary_interest s))
    \<and> (\<forall>c. in_cylinder (ss_config s) focus c \<longrightarrow> c \<in> set (desired_coordinates s focus)
        \<or> length (desired_coordinates s focus) = max_tracked_chunks (ss_config s)
          \<and> (\<forall>d \<in> set (desired_coordinates s focus).
               in_cylinder (ss_config s) focus d \<and> chunk_priority focus d \<le> chunk_priority focus c))
    \<and> (set (ss_secondary_interest s) \<subseteq> set (desired_coordinates s focus)
        \<or> length (desired_coordinates s focus) = max_tracked_chunks (ss_config s))"
  by (rule desired_spec [OF r])

definition sample_config :: stream_config where
  "sample_config = \<lparr>load_radius_chunks = 1, vertical_radius_chunks = 0, retention_margin_chunks = 1,
     max_tracked_chunks = 4, max_secondary_interest_chunks = 2\<rparr>"

definition sample_scheduler :: scheduler where
  "sample_scheduler = (case scheduler_new sample_config of Inr s \<Rightarrow> s)"

lemma sample_scheduler_new: "scheduler_new sample_config = Inr sample_scheduler"
  by (simp add: sample_scheduler_def scheduler_new_def sample_config_def MAX_LOAD_RADIUS_CHUNKS_def
      MAX_VERTICAL_RADIUS_CHUNKS_def MAX_SECONDARY_INTEREST_CHUNKS_def i32_saturating_add_def)

lemma scheduler_new_fields:
  assumes "scheduler_new config = Inr s"
  shows "ss_config s = config" "ss_entries s = []" "\<not> ss_focus_initialized s" "ss_secondary_interest s = []"
    "ss_evictions s = []" "ss_next_ticket_serial s = 1"
    "0 \<le> load_radius_chunks config" "0 \<le> vertical_radius_chunks config" "0 < max_tracked_chunks config"
  using assms by (auto simp: scheduler_new_def split: if_splits)

lemmas sample_scheduler_simps [simp] = scheduler_new_fields [OF sample_scheduler_new]

theorem desired_coordinates_nearest_witness:
  "length (desired_coordinates sample_scheduler (chunk_at 5 0 5)) = 4 \<and>
   list_all (\<lambda>d. \<bar>cx d - 5\<bar> \<le> 1) (desired_coordinates sample_scheduler (chunk_at 5 0 5))"
proof -
  let ?f = "chunk_at 5 0 5" and ?s = sample_scheduler
  have r: "0 \<le> load_radius_chunks (ss_config ?s)" by (simp add: sample_config_def)
  note d = desired_coordinates_nearest [OF r, of ?f]
  have cyl: "in_cylinder sample_config ?f c \<Longrightarrow> \<bar>cx c - 5\<bar> \<le> 1" for c
    using square_bound [of "cx c - 5" "cz c - 5" 1] by (auto simp: in_cylinder_def sample_config_def)
  have five: "in_cylinder sample_config ?f ` {chunk_at 5 0 5, chunk_at 4 0 5, chunk_at 6 0 5, chunk_at 5 0 4, chunk_at 5 0 6} = {True}"
    by (auto simp: in_cylinder_def sample_config_def is_world_representable_def)
  have "\<not> {chunk_at 5 0 5, chunk_at 4 0 5, chunk_at 6 0 5, chunk_at 5 0 4, chunk_at 5 0 6} \<subseteq> set (desired_coordinates ?s ?f)"
  proof
    assume sub: "{chunk_at 5 0 5, chunk_at 4 0 5, chunk_at 6 0 5, chunk_at 5 0 4, chunk_at 5 0 6} \<subseteq> set (desired_coordinates ?s ?f)"
    have "card {chunk_at 5 0 5, chunk_at 4 0 5, chunk_at 6 0 5, chunk_at 5 0 4, chunk_at 5 0 6} \<le> card (set (desired_coordinates ?s ?f))"
      by (rule card_mono [OF _ sub]) simp
    also have "\<dots> \<le> 4" using d card_length [of "desired_coordinates ?s ?f"] by (simp add: sample_config_def)
    finally show False by simp
  qed
  then have "length (desired_coordinates ?s ?f) = 4"
    using d five by (auto simp: sample_config_def)
  with d cyl show ?thesis by (auto simp: list_all_iff)
qed

subsection \<open>Updating the focus\<close>

lemma mark_desired_spec:
  assumes "sched_wf s"
  shows "entries_all (\<lambda>k e. entry_ok k e \<and> (en_desired e \<longleftrightarrow> k \<in> D) \<and> (en_state e = Resident \<longrightarrow> settled e)) (mark_desired D s)"
    and "btree_get (ss_entries (mark_desired D s)) k = map_option (\<lambda>e. e\<lparr>en_desired := k \<in> D\<rparr>) (btree_get (ss_entries s) k)"
    and "length (ss_entries (mark_desired D s)) = length (ss_entries s)"
proof -
  have st: "state_ok (e\<lparr>en_desired := b\<rparr>) st = state_ok e st" for e b st
    by (cases st) (auto simp: ticket_ok_def)
  show "entries_all (\<lambda>k e. entry_ok k e \<and> (en_desired e \<longleftrightarrow> k \<in> D) \<and> (en_state e = Resident \<longrightarrow> settled e)) (mark_desired D s)"
  proof (rule entries_all_map)
    show "entries_all (\<lambda>k e. entry_ok k e \<and> settled e) s" using assms by (simp add: sched_wf_def)
    show "ss_entries (mark_desired D s) = map (\<lambda>(k, e). (k, e\<lparr>en_desired := k \<in> D\<rparr>)) (ss_entries s)"
      by (simp add: mark_desired_def)
  qed (auto simp: entry_ok_def st settled_def)
  show "btree_get (ss_entries (mark_desired D s)) k = map_option (\<lambda>e. e\<lparr>en_desired := k \<in> D\<rparr>) (btree_get (ss_entries s) k)"
    "length (ss_entries (mark_desired D s)) = length (ss_entries s)"
    by (simp_all add: mark_desired_def)
qed

text \<open>The stages of a changed focus, named so that the proofs can talk about them.\<close>

definition focused :: "chunk_coord \<Rightarrow> chunk_coord list \<Rightarrow> scheduler \<Rightarrow> scheduler" where
  "focused focus interest s =
     s\<lparr>ss_secondary_requested := length interest,
       ss_secondary_truncated := snd (normalized_interest focus interest (max_secondary_interest_chunks (ss_config s))),
       ss_focus := focus, ss_focus_initialized := True,
       ss_secondary_interest := fst (normalized_interest focus interest (max_secondary_interest_chunks (ss_config s)))\<rparr>"

lemma update_focus_changed:
  assumes "update_focus_with_interest focus interest s = (True, s')"
  defines "f \<equiv> focused focus interest s"
  defines "D \<equiv> desired_coordinates f focus"
  shows "s' = fold track_desired D
    (evict_where (\<lambda>e. \<not> en_desired e \<and> en_state e \<noteq> Resident)
      (evict_where (\<lambda>e. \<not> en_desired e \<and> \<not> inside_retention (ss_config s) focus (en_coord e))
        (mark_desired (coord_key ` set D) f)))"
  using assms(1) unfolding D_def f_def focused_def
  by (simp add: update_focus_with_interest_def Let_def split_beta mark_desired_def split: if_splits)

lemma normalized_interest_spec:
  "length (fst (normalized_interest focus interest limit)) \<le> limit
   \<and> distinct (fst (normalized_interest focus interest limit))
   \<and> (\<forall>c \<in> set (fst (normalized_interest focus interest limit)). c \<in> set interest \<and> is_world_representable c)"
proof -
  have inj: "inj coord_from_key" by (rule inj_on_inverseI [of _ coord_key]) simp
  have "set (map coord_from_key (btree_set (map coord_key (filter is_world_representable interest))))
      = set (filter is_world_representable interest)"
    by (auto simp: image_image)
  moreover have "distinct (map coord_from_key (btree_set (map coord_key (filter is_world_representable interest))))"
    unfolding distinct_map using inj_on_subset [OF inj] by simp
  ultimately show ?thesis
    by (auto simp: normalized_interest_def Let_def dest!: in_set_takeD)
qed

lemma update_focus_stages:
  assumes wf: "sched_wf s" and upd: "update_focus_with_interest focus interest s = (True, s')"
    and r: "0 \<le> load_radius_chunks (ss_config s)"
  defines "D \<equiv> desired_coordinates (focused focus interest s) focus"
  defines "K \<equiv> coord_key ` set D"
  shows "\<exists>m. drops_to (mark_desired K (focused focus interest s)) m
    \<and> entries_all (\<lambda>k e. entry_ok k e \<and> settled e \<and> (en_desired e \<longleftrightarrow> k \<in> K)
        \<and> (\<not> en_desired e \<longrightarrow> en_state e = Resident \<and> inside_retention (ss_config s) focus (en_coord e))) m
    \<and> reshapes K m s' \<and> marked K s' \<and> (\<forall>k \<in> K. btree_get (ss_entries s') k \<noteq> None)"
proof -
  let ?f = "focused focus interest s"
  have fcfg: "ss_config ?f = ss_config s" "ss_entries ?f = ss_entries s" by (simp_all add: focused_def)
  have "normalized_interest focus interest n = (a, b) \<Longrightarrow> length a \<le> n" for n a b
    using normalized_interest_spec [of focus interest n] by simp
  then have wff: "sched_wf ?f"
    using wf normalized_interest_spec [of focus interest "max_secondary_interest_chunks (ss_config s)"]
    by (simp add: sched_wf_def focused_def entries_all_def)
  define a where "a = mark_desired K ?f"
  note ma = mark_desired_spec [OF wff, of K, folded a_def]
  define b where "b = evict_where (\<lambda>e. \<not> en_desired e \<and> \<not> inside_retention (ss_config s) focus (en_coord e)) a"
  define c where "c = evict_where (\<lambda>e. \<not> en_desired e \<and> en_state e \<noteq> Resident) b"
  have aok: "entries_all entry_ok a" by (rule entries_all_mono [OF ma(1)]) blast
  have b: "drops_to a b" "entries_all (\<lambda>k e. entry_ok k e \<and> \<not> (\<not> en_desired e \<and> \<not> inside_retention (ss_config s) focus (en_coord e))) b"
    unfolding b_def by (rule evict_where_spec [OF aok]; simp)+
  have bok: "entries_all entry_ok b" by (rule entries_all_mono [OF b(2)]) blast
  have c: "drops_to b c" "entries_all (\<lambda>k e. entry_ok k e \<and> \<not> (\<not> en_desired e \<and> en_state e \<noteq> Resident)) c"
    unfolding c_def by (rule evict_where_spec [OF bok]; simp)+
  note cwf = entries_all_wf [OF c(2)] and bwf = entries_all_wf [OF b(2)]
  have ac: "drops_to a c" by (rule drops_to_trans [OF b(1) c(1)])
  have call: "entries_all (\<lambda>k e. entry_ok k e \<and> settled e \<and> (en_desired e \<longleftrightarrow> k \<in> K)
        \<and> (\<not> en_desired e \<longrightarrow> en_state e = Resident \<and> inside_retention (ss_config s) focus (en_coord e))) c"
    using drops_to_all [OF ac cwf ma(1)] drops_to_all [OF c(1) cwf b(2)] c(2)
    unfolding entries_all_def settled_def by blast
  have cfg: "ss_config c = ss_config s"
    using ac by (auto simp: reshapes_def same_shell_def a_def mark_desired_def fcfg)
  have cK: "entries_all (\<lambda>k e. entry_ok k e \<and> settled e \<and> (en_desired e \<longleftrightarrow> k \<in> K)) c"
    by (rule entries_all_mono [OF call]) blast
  have "length (ss_entries c) \<le> length (ss_entries a)"
    by (rule drops_to_length [OF ac entries_all_wf [OF ma(1)] cwf])
  also have "\<dots> \<le> max_tracked_chunks (ss_config c)" using wff by (simp add: ma(3) cfg sched_wf_def fcfg)
  finally have mc: "marked K c" using cK by (simp add: marked_def)
  have D: "card K \<le> max_tracked_chunks (ss_config c)"
    using desired_spec [of ?f focus] r card_length [of D] card_image_le [of "set D" coord_key]
    unfolding K_def D_def cfg fcfg by simp
  have s': "s' = fold track_desired D c"
    using update_focus_changed [OF upd] unfolding c_def b_def a_def K_def D_def .
  have "finite K" by (simp add: K_def)
  from track_all [OF mc this D, of D] have "reshapes K c s' \<and> marked K s' \<and> (\<forall>k \<in> K. btree_get (ss_entries s') k \<noteq> None)"
    unfolding s' by (simp add: K_def)
  with ac call show ?thesis unfolding a_def [symmetric] by (intro exI [of _ c]) blast
qed

definition tracked :: "scheduler \<Rightarrow> chunk_coord \<Rightarrow> entry option" where
  "tracked s c = btree_get (ss_entries s) (coord_key c)"

text \<open>What a reshaping leaves of the entries it starts from, when the wanted ones are desired.\<close>

lemma reshapes_effect:
  assumes "reshapes K a s'" "\<forall>k e. k \<in> K \<longrightarrow> btree_get (ss_entries a) k = Some e \<longrightarrow> en_desired e"
  shows "k \<in> K \<Longrightarrow> btree_get (ss_entries s') k =
      Some (case btree_get (ss_entries a) k of None \<Rightarrow> new_entry_at (ss_frame a) k | Some e \<Rightarrow> e)"
    and "k \<notin> K \<Longrightarrow> btree_get (ss_entries s') k = Some e \<Longrightarrow> btree_get (ss_entries a) k = Some e"
    and "\<exists>lost. ss_evictions s' = ss_evictions a @ map evicted_of lost \<and> distinct (map en_coord lost) \<and>
      en_coord ` set lost = {c. btree_get (ss_entries a) (coord_key c) \<noteq> None \<and> btree_get (ss_entries s') (coord_key c) = None}"
proof -
  obtain lost where lost: "ss_evictions s' = ss_evictions a @ map evicted_of lost" "distinct (map en_coord lost)"
    "\<forall>e \<in> set lost. \<not> en_desired e \<and> btree_get (ss_entries a) (coord_key (en_coord e)) = Some e"
    "\<forall>k. btree_get (ss_entries s') k = (if k \<in> (\<lambda>e. coord_key (en_coord e)) ` set lost then None
       else if k \<in> K \<and> btree_get (ss_entries a) k = None then Some (new_entry_at (ss_frame a) k)
       else btree_get (ss_entries a) k)"
    using assms(1) unfolding reshapes_def by blast
  have kept: "k \<notin> (\<lambda>e. coord_key (en_coord e)) ` set lost" if "k \<in> K" for k
    using lost(3) assms(2) that by blast
  show "k \<in> K \<Longrightarrow> btree_get (ss_entries s') k =
      Some (case btree_get (ss_entries a) k of None \<Rightarrow> new_entry_at (ss_frame a) k | Some e \<Rightarrow> e)"
    using lost(4) kept by (simp split: option.split)
  show "k \<notin> K \<Longrightarrow> btree_get (ss_entries s') k = Some e \<Longrightarrow> btree_get (ss_entries a) k = Some e"
    using lost(4) by (simp split: if_splits)
  have "c \<in> en_coord ` set lost \<longleftrightarrow> btree_get (ss_entries a) (coord_key c) \<noteq> None \<and> btree_get (ss_entries s') (coord_key c) = None"
    for c
  proof -
    have "c \<in> en_coord ` set lost \<longleftrightarrow> coord_key c \<in> (\<lambda>e. coord_key (en_coord e)) ` set lost" by auto
    moreover have "c \<in> en_coord ` set lost \<Longrightarrow> btree_get (ss_entries a) (coord_key c) \<noteq> None" using lost(3) by auto
    ultimately show ?thesis using lost(4) by (auto split: if_splits)
  qed
  then show "\<exists>lost. ss_evictions s' = ss_evictions a @ map evicted_of lost \<and> distinct (map en_coord lost) \<and>
      en_coord ` set lost = {c. btree_get (ss_entries a) (coord_key c) \<noteq> None \<and> btree_get (ss_entries s') (coord_key c) = None}"
    using lost(1,2) by (intro exI [of _ lost]) auto
qed

text \<open>
  C19: a changed focus is reconciled exactly. Afterwards the tracked and desired chunks are
  precisely the desired coordinates of the new focus, whatever the capacity; desired chunks that
  were tracked keep their pipeline state, revision and history, the others start in queued
  generation; a chunk that stays tracked without being desired was tracked before, is resident
  and lies inside the retention cylinder; and the eviction log grows by exactly one notice per
  chunk that lost its entry.
\<close>

theorem update_focus_exact:
  assumes wf: "sched_wf s" and r: "0 \<le> load_radius_chunks (ss_config s)"
    and upd: "update_focus_with_interest focus interest s = (True, s')"
  defines "D \<equiv> set (desired_coordinates (focused focus interest s) focus)"
  shows "(\<forall>c. (\<exists>e. tracked s' c = Some e \<and> en_desired e) \<longleftrightarrow> c \<in> D) \<and>
    (\<forall>c \<in> D. tracked s' c = Some (case tracked s c of None \<Rightarrow> new_entry c (ss_frame s) | Some e \<Rightarrow> e\<lparr>en_desired := True\<rparr>)) \<and>
    (\<forall>c e. tracked s' c = Some e \<and> c \<notin> D \<longrightarrow>
       (\<exists>old. tracked s c = Some old \<and> e = old\<lparr>en_desired := False\<rparr>) \<and> en_state e = Resident
         \<and> inside_retention (ss_config s) focus c) \<and>
    (\<exists>lost. ss_evictions s' = ss_evictions s @ map evicted_of lost \<and> distinct (map en_coord lost) \<and>
       en_coord ` set lost = {c. tracked s c \<noteq> None \<and> tracked s' c = None})"
proof -
  let ?f = "focused focus interest s"
  define K where "K = coord_key ` D"
  define a where "a = mark_desired K ?f"
  obtain m where m: "drops_to a m"
    "entries_all (\<lambda>k e. entry_ok k e \<and> settled e \<and> (en_desired e \<longleftrightarrow> k \<in> K)
        \<and> (\<not> en_desired e \<longrightarrow> en_state e = Resident \<and> inside_retention (ss_config s) focus (en_coord e))) m"
    "reshapes K m s'" "marked K s'" "\<forall>k \<in> K. btree_get (ss_entries s') k \<noteq> None"
    using update_focus_stages [OF wf upd r] unfolding K_def D_def a_def by blast
  have Kiff: "coord_key c \<in> K \<longleftrightarrow> c \<in> D" for c by (auto simp: K_def)
  have aget: "btree_get (ss_entries a) k = map_option (\<lambda>e. e\<lparr>en_desired := k \<in> K\<rparr>) (btree_get (ss_entries s) k)" for k
    by (simp add: a_def mark_desired_def focused_def)
  have ades: "\<forall>k e. k \<in> K \<longrightarrow> btree_get (ss_entries a) k = Some e \<longrightarrow> en_desired e" by (auto simp: aget)
  have mdes: "\<forall>k e. k \<in> K \<longrightarrow> btree_get (ss_entries m) k = Some e \<longrightarrow> en_desired e"
    using entries_allD [OF m(2)] by simp
  have as': "reshapes K a s'" using reshapes_trans [OF m(1,3)] ades by simp
  note from_a = reshapes_effect [OF as' ades] and from_m = reshapes_effect(2) [OF m(3) mdes]
  have fr: "ss_frame a = ss_frame s" "ss_evictions a = ss_evictions s" by (simp_all add: a_def mark_desired_def focused_def)
  have mall: "entries_all (\<lambda>k e. entry_ok k e \<and> settled e \<and> (en_desired e \<longleftrightarrow> k \<in> K)) s'"
    using m(4) by (simp add: marked_def)
  have in_D: "tracked s' c = Some (case tracked s c of None \<Rightarrow> new_entry c (ss_frame s) | Some e \<Rightarrow> e\<lparr>en_desired := True\<rparr>)"
    if "c \<in> D" for c
    using from_a(1) [of "coord_key c"] that Kiff [of c]
    by (simp add: tracked_def aget new_entry_at_def fr split: option.split)
  moreover have "(\<exists>e. tracked s' c = Some e \<and> en_desired e) \<longleftrightarrow> c \<in> D" for c
    using in_D [of c] entries_allD [OF mall, of "coord_key c"] Kiff [of c] by (auto simp: tracked_def)
  moreover have "(\<exists>old. tracked s c = Some old \<and> e = old\<lparr>en_desired := False\<rparr>) \<and> en_state e = Resident
         \<and> inside_retention (ss_config s) focus c" if e: "tracked s' c = Some e" "c \<notin> D" for c e
    using from_a(2) [of "coord_key c" e] entries_allD [OF m(2) from_m [of "coord_key c" e]] e Kiff [of c]
    by (auto simp: aget tracked_def entry_ok_def)
  moreover have "\<exists>lost. ss_evictions s' = ss_evictions s @ map evicted_of lost \<and> distinct (map en_coord lost) \<and>
      en_coord ` set lost = {c. tracked s c \<noteq> None \<and> tracked s' c = None}"
    using from_a(3) by (simp add: tracked_def aget fr)
  ultimately show ?thesis by blast
qed

lemma sched_wf_new: "scheduler_new config = Inr s \<Longrightarrow> sched_wf s"
  by (simp add: sched_wf_def entries_all_def scheduler_new_fields)

theorem update_focus_exact_witness:
  "\<exists>s'. update_focus_with_interest (chunk_at 5 0 5) [] sample_scheduler = (True, s') \<and>
     (\<forall>c. (\<exists>e. tracked s' c = Some e \<and> en_desired e) \<longleftrightarrow>
        c \<in> set (desired_coordinates (focused (chunk_at 5 0 5) [] sample_scheduler) (chunk_at 5 0 5)))"
proof -
  let ?f = "chunk_at 5 0 5" and ?s = sample_scheduler
  obtain b s' where u: "update_focus_with_interest ?f [] ?s = (b, s')" by fastforce
  have b: "b" using u by (auto simp: update_focus_with_interest_def Let_def split_beta)
  have r: "0 \<le> load_radius_chunks (ss_config ?s)" by (simp add: sample_config_def)
  have upd: "update_focus_with_interest ?f [] ?s = (True, s')" using u b by simp
  note ex = update_focus_exact [OF sched_wf_new [OF sample_scheduler_new] r upd]
  with upd show ?thesis by blast
qed

end
