(* ===== verification/Stream_Tickets.thy ===== *)
theory Stream_Tickets
  imports Stream_Invariant
begin

text \<open>
  The scheduler of Stream_Scheduler as a transition system: its reachable states keep
  \<open>sched_wf\<close>, ticket serials are consecutive and a revoked ticket stays revoked, a frame picks the
  best eligible work of every stage within its budget, and the readiness counters and latency
  percentiles are exact.
\<close>

subsection \<open>The operations as steps\<close>

datatype sched_op =
  UpdateFocus chunk_coord "chunk_coord list"
| ScheduleFrame frame_budget priority_hint "chunk_coord list"
| Complete work_ticket
| Retry work_ticket
| MarkChunksEdited "chunk_coord list"
| InvalidateAll
| DrainEvictions

fun apply_op :: "sched_op \<Rightarrow> scheduler \<Rightarrow> work_ticket list \<times> scheduler" where
  "apply_op (UpdateFocus focus interest) s = ([], snd (update_focus_with_interest focus interest s))"
| "apply_op (ScheduleFrame budget hint urgent) s =
     (let (w, s) = schedule_frame_with_urgency budget hint urgent s
      in (fw_generation w @ fw_meshing w @ fw_upload w, s))"
| "apply_op (Complete t) s = ([], snd (complete t s))"
| "apply_op (Retry t) s = ([], snd (retry t s))"
| "apply_op (MarkChunksEdited cs) s = ([], snd (mark_chunks_edited cs s))"
| "apply_op InvalidateAll s = ([], snd (invalidate_all_generation s))"
| "apply_op DrainEvictions s = ([], snd (drain_evictions s))"

fun run_ops :: "sched_op list \<Rightarrow> scheduler \<Rightarrow> work_ticket list \<times> scheduler" where
  "run_ops [] s = ([], s)"
| "run_ops (op # ops) s =
     (let (t1, s) = apply_op op s; (t2, s) = run_ops ops s in (t1 @ t2, s))"

lemma run_ops_append:
  "run_ops (a @ b) s = (fst (run_ops a s) @ fst (run_ops b (snd (run_ops a s))), snd (run_ops b (snd (run_ops a s))))"
  by (induction a arbitrary: s) (auto simp: split_beta Let_def)

subsection \<open>Every operation keeps the invariant\<close>

abbreviation entry_wf :: "coord_key_t \<Rightarrow> entry \<Rightarrow> bool" where
  "entry_wf k e \<equiv> entry_ok k e \<and> settled e"

lemma sched_wf_entries: "sched_wf s \<Longrightarrow> entries_all entry_wf s"
  by (simp add: sched_wf_def)

lemma sched_wf_update:
  assumes "sched_wf s" "ss_entries s' = btree_update k f (ss_entries s)"
    "ss_config s' = ss_config s" "ss_secondary_interest s' = ss_secondary_interest s" "ss_next_ticket_serial s' \<noteq> 0"
    "\<And>e. btree_get (ss_entries s) k = Some e \<Longrightarrow> entry_wf k e \<Longrightarrow> entry_wf k (f e)"
  shows "sched_wf s'"
  using assms(1,3-5) entries_all_update [OF sched_wf_entries [OF assms(1)] assms(2,6)]
  by (simp add: sched_wf_def assms(2))

lemma entry_wf_queue:
  assumes "entry_wf k e" "state_ticket st = None" "st \<noteq> Resident"
  shows "entry_wf k (e\<lparr>en_state := st\<rparr>)"
  using assms by (cases st) (auto simp: entry_ok_def settled_def)

lemma state_ok_cong [simp]: "state_ok (e\<lparr>en_state := x\<rparr>) st = state_ok e st" "state_ok (e\<lparr>en_desired := b\<rparr>) st = state_ok e st"
  by (cases st; simp add: ticket_ok_def)+

lemma entry_wf_in_flight:
  "entry_wf k e \<Longrightarrow> ticket_ok stage e t \<Longrightarrow> entry_wf k (e\<lparr>en_state := in_flight stage t\<rparr>)"
  by (cases stage) (auto simp: entry_ok_def settled_def ticket_ok_def)

lemma start_keys_wf: "sched_wf s \<Longrightarrow> sched_wf (snd (start_keys stage keys s))"
proof (induction stage keys s rule: start_keys.induct)
  case (2 stage key keys s)
  show ?case
  proof (cases "btree_get (ss_entries s) key")
    case None
    with "2.IH"(1) "2.prems" show ?thesis by simp
  next
    case (Some e)
    let ?t = "\<lparr>tk_coord = en_coord e, tk_stage = stage, tk_revision = en_revision e, tk_serial = ss_next_ticket_serial s\<rparr>"
    let ?s = "s\<lparr>ss_next_ticket_serial := increment_nonzero (ss_next_ticket_serial s),
      ss_entries := btree_update key (en_state_update (\<lambda>_. in_flight stage ?t)) (ss_entries s)\<rparr>"
    have "sched_wf ?s"
      by (rule sched_wf_update [OF "2.prems", where k = key and f = "en_state_update (\<lambda>_. in_flight stage ?t)"])
        (use Some in \<open>auto intro!: entry_wf_in_flight simp: ticket_ok_def\<close>)
    with "2.IH"(2) [OF Some refl _ refl refl, of "ss_next_ticket_serial s" "s\<lparr>ss_next_ticket_serial := increment_nonzero (ss_next_ticket_serial s)\<rparr>"] Some show ?thesis
      by (simp add: take_ticket_serial_def split_beta Let_def)
  qed
qed simp

lemma update_focus_wf:
  assumes "sched_wf s" "0 \<le> load_radius_chunks (ss_config s)"
  shows "sched_wf (snd (update_focus_with_interest focus interest s))"
proof (cases "fst (update_focus_with_interest focus interest s)")
  case True
  obtain s' where s': "update_focus_with_interest focus interest s = (True, s')"
    using True by (cases "update_focus_with_interest focus interest s") auto
  let ?D = "desired_coordinates (focused focus interest s) focus"
  from update_focus_stages [OF assms(1) s' assms(2)] obtain m where
    m: "drops_to (mark_desired (coord_key ` set ?D) (focused focus interest s)) m" "reshapes (coord_key ` set ?D) m s'"
      "marked (coord_key ` set ?D) s'" by blast
  have sh: "ss_config s' = ss_config s \<and> ss_next_ticket_serial s' = ss_next_ticket_serial s \<and>
      ss_secondary_interest s' = fst (normalized_interest focus interest (max_secondary_interest_chunks (ss_config s)))"
    using m(1,2) by (auto simp: reshapes_def same_shell_def mark_desired_def focused_def)
  have "entries_all entry_wf s'" "length (ss_entries s') \<le> max_tracked_chunks (ss_config s')"
    using m(3) unfolding marked_def by (auto elim: entries_all_mono)
  with sh assms(1) show ?thesis
    using normalized_interest_spec [of focus interest "max_secondary_interest_chunks (ss_config s)"]
    by (simp add: s' sched_wf_def)
next
  case False
  then have "snd (update_focus_with_interest focus interest s) =
      s\<lparr>ss_secondary_requested := length interest,
        ss_secondary_truncated := snd (normalized_interest focus interest (max_secondary_interest_chunks (ss_config s)))\<rparr>"
    by (auto simp: update_focus_with_interest_def Let_def split_beta split: if_splits)
  with assms(1) show ?thesis by (simp add: sched_wf_def entries_all_def)
qed

lemma dirty_entry_wf:
  assumes "entry_wf k e" "\<And>st. state_ticket (f st) = None \<and> f st \<noteq> Resident"
  shows "entry_wf k (dirty_entry f frame e)"
proof -
  obtain st where st: "f (en_state e) = st" "state_ticket st = None" "st \<noteq> Resident" using assms(2) by blast
  with assms(1) show ?thesis by (cases st) (auto simp: entry_ok_def settled_def dirty_entry_def)
qed

lemma requeued_queued: "state_ticket (requeued st) = None \<and> requeued st \<noteq> Resident"
  by (cases st) auto

lemma mark_chunk_wf:
  assumes wf: "sched_wf (snd rs)"
  shows "sched_wf (snd (mark_chunk_edited c rs))"
proof (cases "btree_get (ss_entries (snd rs)) (coord_key c)")
  case (Some e)
  let ?s = "snd rs" and ?f = "dirty_entry requeued (ss_frame (snd rs))"
  have "ss_next_ticket_serial ?s \<noteq> 0" using wf by (simp add: sched_wf_def)
  then have "sched_wf (?s\<lparr>ss_entries := btree_update (coord_key c) ?f (ss_entries ?s)\<rparr>)"
    using dirty_entry_wf [of _ _ requeued, OF _ requeued_queued]
    by (intro sched_wf_update [OF wf, where k = "coord_key c" and f = ?f]) (simp, simp, simp, simp, blast)
  with Some show ?thesis by (simp add: mark_chunk_edited_def split_beta Let_def)
qed (use wf in \<open>simp add: mark_chunk_edited_def split_beta Let_def\<close>)

lemma fold_mark_wf: "sched_wf (snd rs) \<Longrightarrow> sched_wf (snd (fold mark_chunk_edited cs rs))"
  by (induction cs arbitrary: rs) (simp_all add: mark_chunk_wf)

text \<open>The transitions of a matching ticket.\<close>

fun done_state :: "work_stage \<Rightarrow> state" where
  "done_state Generation = QueuedMeshing"
| "done_state Meshing = QueuedUpload"
| "done_state Upload = Resident"

fun queued_state :: "work_stage \<Rightarrow> state" where
  "queued_state Generation = QueuedGeneration"
| "queued_state Meshing = QueuedMeshing"
| "queued_state Upload = QueuedUpload"

definition active :: "scheduler \<Rightarrow> work_ticket \<Rightarrow> work_stage \<Rightarrow> bool" where
  "active s t stage \<longleftrightarrow> (\<exists>e. btree_get (ss_entries s) (coord_key (tk_coord t)) = Some e \<and> en_state e = in_flight stage t)"

lemma in_flight_eq [simp]:
  "in_flight stage t = Generating u \<longleftrightarrow> stage = Generation \<and> t = u"
  "in_flight stage t = MeshingState u \<longleftrightarrow> stage = Meshing \<and> t = u"
  "in_flight stage t = Uploading u \<longleftrightarrow> stage = Upload \<and> t = u"
  "in_flight stage t \<noteq> QueuedGeneration" "in_flight stage t \<noteq> QueuedMeshing"
  "in_flight stage t \<noteq> QueuedUpload" "in_flight stage t \<noteq> Resident"
  by (cases stage; auto)+

lemma active_cases:
  "active s t stage \<longleftrightarrow> (case map_option en_state (btree_get (ss_entries s) (coord_key (tk_coord t))) of
      Some (Generating u) \<Rightarrow> stage = Generation \<and> u = t
    | Some (MeshingState u) \<Rightarrow> stage = Meshing \<and> u = t
    | Some (Uploading u) \<Rightarrow> stage = Upload \<and> u = t
    | _ \<Rightarrow> False)"
proof (cases "btree_get (ss_entries s) (coord_key (tk_coord t))")
  case (Some e)
  show ?thesis
    unfolding active_def Some by (cases "en_state e"; cases stage; simp; blast?)
qed (simp add: active_def)

lemma next_state_active: "next_state s t = Some st \<longleftrightarrow> (\<exists>stage. active s t stage \<and> st = done_state stage)"
proof (cases "map_option en_state (btree_get (ss_entries s) (coord_key (tk_coord t)))")
  case (Some st')
  show ?thesis unfolding active_cases next_state_def Some by (cases st') auto
qed (simp add: active_cases next_state_def)

lemma retry_state_active: "retry_state s t = Some st \<longleftrightarrow> (\<exists>stage. active s t stage \<and> st = queued_state stage)"
proof (cases "map_option en_state (btree_get (ss_entries s) (coord_key (tk_coord t)))")
  case (Some st')
  show ?thesis unfolding active_cases retry_state_def Some by (cases st') auto
qed (simp add: active_cases retry_state_def)

text \<open>What \<open>complete\<close> does to the entry of its ticket.\<close>

definition completed :: "work_stage \<Rightarrow> entry \<Rightarrow> entry" where
  "completed stage e = (if stage = Upload then become_resident (e\<lparr>en_state := Resident\<rparr>) else e\<lparr>en_state := done_state stage\<rparr>)"

lemma complete_active:
  assumes "active s t stage"
  shows "fst (complete t s) = Accepted"
    and "ss_entries (snd (complete t s)) = btree_update (coord_key (tk_coord t)) (completed stage) (ss_entries s)"
    and "ss_config (snd (complete t s)) = ss_config s"
      "ss_secondary_interest (snd (complete t s)) = ss_secondary_interest s"
      "ss_next_ticket_serial (snd (complete t s)) = ss_next_ticket_serial s"
proof -
  have n: "next_state s t = Some (done_state stage)" using assms next_state_active by blast
  from assms obtain e where e: "btree_get (ss_entries s) (coord_key (tk_coord t)) = Some e" by (auto simp: active_def)
  have c: "complete t s = (Accepted, ss_accepted_completions_update (\<lambda>n. increment_nonzero n)
      (advance_entry (coord_key (tk_coord t)) (done_state stage) s))"
    by (simp add: complete_def n Let_def)
  have u: "completed Upload = (\<lambda>e. become_resident (e\<lparr>en_state := Resident\<rparr>))"
    "stage \<noteq> Upload \<Longrightarrow> completed stage = en_state_update (\<lambda>_. done_state stage)"
    by (simp_all add: completed_def fun_eq_iff)
  have up: "done_state stage = Resident \<longleftrightarrow> stage = Upload" by (cases stage) auto
  show "fst (complete t s) = Accepted" by (simp add: c)
  show "ss_entries (snd (complete t s)) = btree_update (coord_key (tk_coord t)) (completed stage) (ss_entries s)"
    by (cases "stage = Upload") (simp_all add: c advance_entry_def e up u)
  show "ss_config (snd (complete t s)) = ss_config s"
    "ss_secondary_interest (snd (complete t s)) = ss_secondary_interest s"
    "ss_next_ticket_serial (snd (complete t s)) = ss_next_ticket_serial s"
    by (simp_all add: c advance_entry_def e up)
qed

lemma complete_inactive:
  assumes "\<And>stage. \<not> active s t stage"
  shows "complete t s = stale_completion s" and "retry t s = stale_completion s"
proof -
  have "next_state s t = None" "retry_state s t = None"
    using assms next_state_active [of s t] retry_state_active [of s t] by auto
  then show "complete t s = stale_completion s" "retry t s = stale_completion s"
    by (simp_all add: complete_def retry_def)
qed

lemma retry_active:
  assumes "active s t stage"
  shows "retry t s = (Accepted, s\<lparr>ss_entries :=
          btree_update (coord_key (tk_coord t)) (en_state_update (\<lambda>_. queued_state stage)) (ss_entries s)\<rparr>)"
proof -
  have "retry_state s t = Some (queued_state stage)" using assms retry_state_active by blast
  then show ?thesis by (simp add: retry_def)
qed

lemma completed_wf: "entry_wf k e \<Longrightarrow> entry_wf k (completed stage e)"
  by (cases stage) (auto simp: completed_def become_resident_def entry_ok_def settled_def)

lemma queued_wf: "entry_wf k e \<Longrightarrow> entry_wf k (e\<lparr>en_state := queued_state stage\<rparr>)"
  by (cases stage) (auto simp: entry_ok_def settled_def)

lemma stale_wf: "sched_wf s \<Longrightarrow> sched_wf (snd (stale_completion s))"
  by (simp add: sched_wf_def entries_all_def stale_completion_def)

lemma complete_wf:
  assumes wf: "sched_wf s"
  shows "sched_wf (snd (complete t s))" and "sched_wf (snd (retry t s))"
proof -
  have n: "ss_next_ticket_serial s \<noteq> 0" using wf by (simp add: sched_wf_def)
  have "sched_wf (snd (complete t s)) \<and> sched_wf (snd (retry t s))"
  proof (cases "\<exists>stage. active s t stage")
    case True
    then obtain stage where a: "active s t stage" by blast
    have "sched_wf (snd (complete t s))"
      by (rule sched_wf_update [OF wf complete_active(2-4) [OF a]])
        (simp add: complete_active(5) [OF a] n, rule completed_wf)
    moreover have "sched_wf (snd (retry t s))"
      by (rule sched_wf_update [OF wf, where k = "coord_key (tk_coord t)" and f = "en_state_update (\<lambda>_. queued_state stage)"])
        (simp_all add: retry_active [OF a] n, use queued_wf in blast)
    ultimately show ?thesis by blast
  qed (use complete_inactive stale_wf [OF wf] in auto)
  then show "sched_wf (snd (complete t s))" "sched_wf (snd (retry t s))" by auto
qed

lemma apply_op_wf:
  assumes wf: "sched_wf s" and r: "0 \<le> load_radius_chunks (ss_config s)"
  shows "sched_wf (snd (apply_op op s))"
proof (cases op)
  case (UpdateFocus f i)
  with update_focus_wf [OF wf r] show ?thesis by simp
next
  case (ScheduleFrame b h u)
  have "sched_wf (s\<lparr>ss_frame := x, ss_started_this_frame := y\<rparr>)" for x y
    using wf by (simp add: sched_wf_def entries_all_def)
  moreover have "sched_wf a \<Longrightarrow> sched_wf (a\<lparr>ss_started_this_frame := y\<rparr>)" for a y
    by (simp add: sched_wf_def entries_all_def)
  ultimately show ?thesis
    using ScheduleFrame by (simp add: schedule_frame_with_urgency_def start_stage_def split_beta Let_def start_keys_wf)
next
  case (MarkChunksEdited cs)
  with fold_mark_wf [of "(_, s)"] wf show ?thesis by (simp add: mark_chunks_edited_def Let_def)
next
  case InvalidateAll
  have "entries_all entry_wf (snd (invalidate_all_generation s))"
    by (rule entries_all_map [OF sched_wf_entries [OF wf], where f = "\<lambda>_. dirty_entry (\<lambda>_. QueuedGeneration) (ss_frame s)"])
      (simp_all add: invalidate_all_generation_def, use dirty_entry_wf [of _ _ "\<lambda>_. QueuedGeneration"] in auto)
  with wf InvalidateAll show ?thesis by (simp add: sched_wf_def invalidate_all_generation_def)
next
  case DrainEvictions
  with wf show ?thesis by (simp add: drain_evictions_def sched_wf_def entries_all_def)
qed (use complete_wf [OF wf] in auto)

subsection \<open>Reachable schedulers\<close>

lemma apply_op_config: "ss_config (snd (apply_op op s)) = ss_config s"
proof -
  have start: "ss_config (snd (start_keys stage keys s)) = ss_config s" for stage keys s
    by (induction stage keys s rule: start_keys.induct)
      (auto simp: take_ticket_serial_def split_beta Let_def split: option.split)
  have mark: "ss_config (snd (fold mark_chunk_edited cs rs)) = ss_config (snd rs)" for cs rs
    by (induction cs arbitrary: rs) (auto simp: mark_chunk_edited_def split_beta Let_def split: option.split)
  have ev: "ss_config (evict_key k s) = ss_config s" for k s
    by (simp add: evict_key_def split: option.split)
  have evs: "ss_config (fold evict_key ks s) = ss_config s" for ks s
    by (induction ks arbitrary: s) (simp_all add: ev)
  have room: "ss_config (make_room s) = ss_config s" for s
  proof (induction s rule: make_room.induct)
    case (1 s)
    obtain b s' where ef: "evict_farthest_undesired s = (b, s')" by fastforce
    have "ss_config s' = ss_config s" using evict_farthest_cases [OF ef] ev by auto
    with 1 ef show ?case by (subst make_room.simps) auto
  qed
  have track: "ss_config (fold track_desired cs s) = ss_config s" for cs s
    by (induction cs arbitrary: s) (auto simp: track_desired_def Let_def room)
  show ?thesis
    by (cases op) (auto simp: start mark evs track update_focus_with_interest_def schedule_frame_with_urgency_def
        start_stage_def mark_chunks_edited_def invalidate_all_generation_def drain_evictions_def evict_where_def
        mark_desired_def complete_def retry_def stale_completion_def advance_entry_def split_beta Let_def
        split: option.split)
qed

definition sched_inv :: "scheduler \<Rightarrow> bool" where
  "sched_inv s \<longleftrightarrow> sched_wf s \<and> 0 \<le> load_radius_chunks (ss_config s)"

interpretation sched: transition_invariant
  "\<lambda>s. \<exists>config. scheduler_new config = Inr s" "\<lambda>s t. \<exists>op. t = snd (apply_op op s)" sched_inv
proof unfold_locales
  show "\<exists>config. scheduler_new config = Inr s \<Longrightarrow> sched_inv s" for s
    using sched_wf_new scheduler_new_fields(1,7) by (auto simp: sched_inv_def)
  show "sched_inv s \<Longrightarrow> \<exists>op. t = snd (apply_op op s) \<Longrightarrow> sched_inv t" for s t
    using apply_op_wf apply_op_config by (auto simp: sched_inv_def)
qed

lemma run_ops_steps: "(\<lambda>s t. \<exists>op. t = snd (apply_op op s))\<^sup>*\<^sup>* s (snd (run_ops ops s))"
proof (induction ops arbitrary: s)
  case (Cons op ops)
  have "(\<lambda>s t. \<exists>op. t = snd (apply_op op s)) s (snd (apply_op op s))" by blast
  with Cons [of "snd (apply_op op s)"] show ?case
    by (auto simp: split_beta Let_def intro: converse_rtranclp_into_rtranclp)
qed simp

lemma run_ops_inv: "scheduler_new config = Inr s0 \<Longrightarrow> sched_inv (snd (run_ops ops s0))"
  by (rule sched.reachable_inv [OF _ run_ops_steps]) blast

text \<open>
  C18: every scheduler reached from a valid configuration by any sequence of focus updates, frames,
  completions, retries, edits, full invalidations and eviction drains tracks at most
  \<open>max_tracked_chunks\<close> chunks, and each of its entries sits under its own coordinate, carries in an
  in-flight state a ticket for exactly that coordinate, stage and revision, is resident only with
  no pending latency measurement, and is tracked without being desired only if it was resident
  before.
\<close>

theorem reachable_scheduler:
  assumes "scheduler_new config = Inr s0" "s = snd (run_ops ops s0)"
  shows "length (ss_entries s) \<le> max_tracked_chunks (ss_config s) \<and> btree_wf (ss_entries s) \<and>
    (\<forall>key e. btree_get (ss_entries s) key = Some e \<longrightarrow> key = coord_key (en_coord e) \<and> en_revision e \<noteq> 0 \<and>
      (\<forall>stage t. en_state e = in_flight stage t \<longrightarrow> tk_coord t = en_coord e \<and> tk_stage t = stage \<and> tk_revision t = en_revision e) \<and>
      (en_state e = Resident \<longrightarrow> en_ever_resident e \<and> en_initial_started e = None \<and> en_remesh_started e = None) \<and>
      (en_desired e \<or> en_ever_resident e))"
proof -
  have wf: "sched_wf s" using run_ops_inv [OF assms(1)] assms(2) by (simp add: sched_inv_def)
  have "tk_coord t = en_coord e \<and> tk_stage t = stage \<and> tk_revision t = en_revision e"
    if "state_ok e (in_flight stage t)" for e stage t
    using that by (cases stage) (auto simp: ticket_ok_def)
  then have "key = coord_key (en_coord e) \<and> en_revision e \<noteq> 0 \<and>
      (\<forall>stage t. en_state e = in_flight stage t \<longrightarrow> tk_coord t = en_coord e \<and> tk_stage t = stage \<and> tk_revision t = en_revision e) \<and>
      (en_state e = Resident \<longrightarrow> en_ever_resident e \<and> en_initial_started e = None \<and> en_remesh_started e = None) \<and>
      (en_desired e \<or> en_ever_resident e)" if "entry_wf key e" for key e
    using that by (auto simp: entry_ok_def settled_def)
  with wf show ?thesis unfolding sched_wf_def entries_all_def by blast
qed

definition sample_ops :: "sched_op list" where
  "sample_ops = [UpdateFocus (chunk_at 5 0 5) [], ScheduleFrame \<lparr>fb_generation = 2, fb_meshing = 2, fb_upload = 2\<rparr> neutral [],
     MarkChunksEdited [chunk_at 5 0 5]]"

theorem reachable_scheduler_witness:
  "length (ss_entries (snd (run_ops sample_ops sample_scheduler))) \<le> 4"
proof -
  let ?s = "snd (run_ops sample_ops sample_scheduler)"
  have "ss_config ?s = sample_config"
    by (simp add: sample_ops_def split_beta Let_def apply_op_config del: apply_op.simps)
  with reachable_scheduler [OF sample_scheduler_new refl, of sample_ops] show ?thesis
    by (simp add: sample_config_def)
qed

subsection \<open>Ticket serials\<close>

text \<open>
  While the 64-bit serial does not wrap, the tickets of a run carry consecutive serials. A ticket
  is \<open>revoked\<close> in a state when its serial is spent and no entry waits for it.
\<close>

definition revoked :: "scheduler \<Rightarrow> work_ticket \<Rightarrow> bool" where
  "revoked s t \<longleftrightarrow> unat (tk_serial t) < unat (ss_next_ticket_serial s) \<and> (\<forall>stage. \<not> active s t stage)"

text \<open>\<open>moves s s' ts\<close>: the tickets \<open>ts\<close> were issued with the next serials, and only they became active.\<close>

definition moves :: "scheduler \<Rightarrow> scheduler \<Rightarrow> work_ticket list \<Rightarrow> bool" where
  "moves s s' ts \<longleftrightarrow>
     (unat (ss_next_ticket_serial s) + length ts < 2 ^ 64 \<longrightarrow>
        unat (ss_next_ticket_serial s') = unat (ss_next_ticket_serial s) + length ts \<and>
        map (unat \<circ> tk_serial) ts = [unat (ss_next_ticket_serial s)..<unat (ss_next_ticket_serial s) + length ts]) \<and>
     (\<forall>t stage. active s' t stage \<longrightarrow> active s t stage \<or> t \<in> set ts)"

lemma moves_trans:
  assumes "moves a b ts" "moves b c us"
  shows "moves a c (ts @ us)"
proof -
  have "active c t stage \<Longrightarrow> active a t stage \<or> t \<in> set (ts @ us)" for t stage
    using assms by (auto simp: moves_def)
  moreover have "unat (ss_next_ticket_serial c) = unat (ss_next_ticket_serial a) + length (ts @ us) \<and>
        map (unat \<circ> tk_serial) (ts @ us) = [unat (ss_next_ticket_serial a)..<unat (ss_next_ticket_serial a) + length (ts @ us)]"
    if "unat (ss_next_ticket_serial a) + length (ts @ us) < 2 ^ 64"
  proof -
    let ?a = "unat (ss_next_ticket_serial a)" and ?b = "unat (ss_next_ticket_serial b)"
    have one: "?b = ?a + length ts" "map (unat \<circ> tk_serial) ts = [?a..<?a + length ts]"
      using assms(1) that unfolding moves_def by auto
    have two: "unat (ss_next_ticket_serial c) = ?b + length us" "map (unat \<circ> tk_serial) us = [?b..<?b + length us]"
      using assms(2) that one(1) unfolding moves_def by auto
    show ?thesis
      using one two upt_add_eq_append [of ?a "?a + length ts" "length us"] by (simp add: add.assoc)
  qed
  ultimately show ?thesis by (simp add: moves_def)
qed

lemma moves_no_tickets:
  assumes "ss_next_ticket_serial s' = ss_next_ticket_serial s"
    "\<And>k e. btree_get (ss_entries s') k = Some e \<Longrightarrow> state_ticket (en_state e) \<noteq> None \<Longrightarrow>
       \<exists>e'. btree_get (ss_entries s) k = Some e' \<and> en_state e' = en_state e"
  shows "moves s s' []"
proof -
  have tk: "state_ticket (in_flight stage t) = Some t" for stage t by (cases stage) auto
  have "active s t stage" if act: "active s' t stage" for t stage
  proof -
    obtain e where e: "btree_get (ss_entries s') (coord_key (tk_coord t)) = Some e" "en_state e = in_flight stage t"
      using act by (auto simp: active_def)
    then have "state_ticket (en_state e) \<noteq> None" by (simp add: tk)
    from assms(2) [OF e(1) this] e(2) show ?thesis by (auto simp: active_def)
  qed
  with assms(1) show ?thesis by (simp add: moves_def)
qed

lemma moves_refl: "moves s s []" by (rule moves_no_tickets) auto

lemma increment_unat:
  "unat v + 1 < 2 ^ 64 \<Longrightarrow> unat (increment_nonzero v) = unat v + 1"
proof -
  assume "unat v + 1 < 2 ^ 64"
  then have u: "unat (v + 1) = unat v + 1" by (simp add: unat_word_ariths)
  then have "v + 1 \<noteq> 0" by (metis add_is_0 one_neq_zero unat_0)
  with u show ?thesis by (simp add: increment_nonzero_def Let_def)
qed

lemma start_keys_moves: "moves s (snd (start_keys stage keys s)) (fst (start_keys stage keys s))"
proof (induction stage keys s rule: start_keys.induct)
  case (2 stage key keys s)
  show ?case
  proof (cases "btree_get (ss_entries s) key")
    case None
    with "2.IH"(1) show ?thesis by simp
  next
    case (Some e)
    let ?t = "\<lparr>tk_coord = en_coord e, tk_stage = stage, tk_revision = en_revision e, tk_serial = ss_next_ticket_serial s\<rparr>"
    let ?s = "s\<lparr>ss_next_ticket_serial := increment_nonzero (ss_next_ticket_serial s),
      ss_entries := btree_update key (en_state_update (\<lambda>_. in_flight stage ?t)) (ss_entries s)\<rparr>"
    have st: "state_ticket (in_flight st u) = Some u" for st u by (cases st) auto
    have "active ?s u st \<Longrightarrow> active s u st \<or> u = ?t" for u st
      using st [of st u] st [of stage ?t] Some by (auto simp: active_def split: if_splits)
    then have "moves s ?s [?t]"
      by (auto simp: moves_def increment_unat)
    moreover have "moves ?s (snd (start_keys stage keys ?s)) (fst (start_keys stage keys ?s))"
      using "2.IH"(2) [OF Some refl _ refl refl, of "ss_next_ticket_serial s"
          "s\<lparr>ss_next_ticket_serial := increment_nonzero (ss_next_ticket_serial s)\<rparr>"]
      by (simp add: take_ticket_serial_def)
    ultimately have "moves s (snd (start_keys stage keys ?s)) ([?t] @ fst (start_keys stage keys ?s))"
      by (rule moves_trans)
    with Some show ?thesis by (simp add: take_ticket_serial_def split_beta Let_def)
  qed
qed (simp add: moves_refl)

lemma moves_update_queue:
  assumes "ss_entries s' = btree_update k f (ss_entries s)" "ss_next_ticket_serial s' = ss_next_ticket_serial s"
    "\<And>e. state_ticket (en_state (f e)) = None"
  shows "moves s s' []"
proof (rule moves_no_tickets [OF assms(2)])
  fix k' e assume "btree_get (ss_entries s') k' = Some e" "state_ticket (en_state e) \<noteq> None"
  with assms(1,3) show "\<exists>e'. btree_get (ss_entries s) k' = Some e' \<and> en_state e' = en_state e"
    by (auto split: if_splits)
qed

lemma complete_moves: "moves s (snd (complete t s)) []" "moves s (snd (retry t s)) []"
proof -
  have stale: "moves s (snd (stale_completion s)) []"
    by (rule moves_no_tickets) (auto simp: stale_completion_def)
  have "state_ticket (en_state (completed stage e)) = None" for stage e
    by (cases stage) (auto simp: completed_def become_resident_def)
  moreover have "state_ticket (queued_state stage) = None" for stage by (cases stage) auto
  ultimately have "moves s (snd (complete t s)) [] \<and> moves s (snd (retry t s)) []" if "active s t stage" for stage
    using complete_active(2,5) [OF that] retry_active [OF that] by (auto intro: moves_update_queue)
  with stale complete_inactive [of s t] show "moves s (snd (complete t s)) []" "moves s (snd (retry t s)) []"
    by metis+
qed

lemma mark_chunk_moves: "moves (snd rs) (snd (mark_chunk_edited c rs)) []"
proof (cases "btree_get (ss_entries (snd rs)) (coord_key c)")
  case (Some e)
  then show ?thesis
    using requeued_queued
    by (intro moves_update_queue [where k = "coord_key c" and f = "dirty_entry requeued (ss_frame (snd rs))"])
      (auto simp: mark_chunk_edited_def split_beta Let_def dirty_entry_def)
qed (simp add: mark_chunk_edited_def split_beta Let_def moves_refl)

lemma fold_mark_moves: "moves (snd rs) (snd (fold mark_chunk_edited cs rs)) []"
proof (induction cs arbitrary: rs)
  case (Cons c cs)
  from moves_trans [OF mark_chunk_moves [of rs c] Cons [of "mark_chunk_edited c rs"]] show ?case by simp
qed (simp add: moves_refl)

lemma update_focus_moves:
  assumes "sched_inv s"
  shows "moves s (snd (update_focus_with_interest focus interest s)) []"
proof (cases "fst (update_focus_with_interest focus interest s)")
  case True
  obtain s' where s': "update_focus_with_interest focus interest s = (True, s')"
    using True by (cases "update_focus_with_interest focus interest s") auto
  let ?f = "focused focus interest s"
  let ?K = "coord_key ` set (desired_coordinates ?f focus)"
  have wf: "sched_wf s" "0 \<le> load_radius_chunks (ss_config s)" using assms by (auto simp: sched_inv_def)
  from update_focus_stages [OF wf(1) s' wf(2)] obtain m where
    m: "drops_to (mark_desired ?K ?f) m" "reshapes ?K m s'" by blast
  have "reshapes ({} \<union> ?K) (mark_desired ?K ?f) s'"
    by (rule reshapes_trans [OF m]) (auto simp: mark_desired_def focused_def)
  then have r: "reshapes ?K (mark_desired ?K ?f) s'" by simp
  have ser: "ss_next_ticket_serial s' = ss_next_ticket_serial s"
    using r by (auto simp: reshapes_def same_shell_def mark_desired_def focused_def)
  have "moves s s' []"
  proof (rule moves_no_tickets [OF ser])
    fix k e assume e: "btree_get (ss_entries s') k = Some e" "state_ticket (en_state e) \<noteq> None"
    have "en_state (new_entry_at fr k) = QueuedGeneration" for fr by (simp add: new_entry_at_def new_entry_def)
    with r e have "btree_get (ss_entries (mark_desired ?K ?f)) k = Some e"
      unfolding reshapes_def by (elim exE conjE) (drule spec [of _ k], auto split: if_splits)
    then show "\<exists>e'. btree_get (ss_entries s) k = Some e' \<and> en_state e' = en_state e"
      by (auto simp: mark_desired_def focused_def)
  qed
  with s' show ?thesis by simp
next
  case False
  then have "snd (update_focus_with_interest focus interest s) =
      s\<lparr>ss_secondary_requested := length interest,
        ss_secondary_truncated := snd (normalized_interest focus interest (max_secondary_interest_chunks (ss_config s)))\<rparr>"
    by (auto simp: update_focus_with_interest_def Let_def split_beta split: if_splits)
  then show ?thesis by (intro moves_no_tickets) auto
qed

lemma apply_op_moves:
  assumes "sched_inv s"
  shows "moves s (snd (apply_op op s)) (fst (apply_op op s))"
proof (cases op)
  case (UpdateFocus f i)
  with update_focus_moves [OF assms] show ?thesis by simp
next
  case (ScheduleFrame b h u)
  define s0 where "s0 = s\<lparr>ss_frame := increment_nonzero (ss_frame s), ss_started_this_frame := frame_budget_default\<rparr>"
  define g where "g = start_stage Generation QueuedGeneration (fb_generation b) h (set (map coord_key u)) s0"
  define m where "m = start_stage Meshing QueuedMeshing (fb_meshing b) h (set (map coord_key u)) (snd g)"
  define l where "l = start_stage Upload QueuedUpload (fb_upload b) h (set (map coord_key u)) (snd m)"
  have "moves s s0 []" by (rule moves_no_tickets) (auto simp: s0_def)
  moreover have "moves s0 (snd g) (fst g)" "moves (snd g) (snd m) (fst m)" "moves (snd m) (snd l) (fst l)"
    unfolding g_def m_def l_def start_stage_def by (rule start_keys_moves)+
  ultimately have ml: "moves s (snd l) (fst g @ fst m @ fst l)"
    using moves_trans by (metis append_Nil append_assoc)
  moreover have "moves (snd l) (snd (apply_op op s)) []"
    unfolding ScheduleFrame
    by (rule moves_no_tickets) (auto simp: schedule_frame_with_urgency_def split_beta Let_def l_def m_def g_def s0_def)
  moreover have "fst (apply_op op s) = (fst g @ fst m @ fst l) @ []"
    by (simp add: ScheduleFrame schedule_frame_with_urgency_def split_beta Let_def l_def m_def g_def s0_def)
  ultimately show ?thesis by (metis moves_trans)
next
  case (MarkChunksEdited cs)
  with fold_mark_moves [of "(_, s)"] show ?thesis by (simp add: mark_chunks_edited_def Let_def)
next
  case InvalidateAll
  show ?thesis
    unfolding InvalidateAll by (rule subst [of "[]"], simp, rule moves_no_tickets) (auto simp: invalidate_all_generation_def dirty_entry_def)
next
  case DrainEvictions
  show ?thesis
    unfolding DrainEvictions by (rule subst [of "[]"], simp, rule moves_no_tickets) (auto simp: drain_evictions_def)
qed (simp_all add: complete_moves)

lemma run_ops_moves: "sched_inv s \<Longrightarrow> moves s (snd (run_ops ops s)) (fst (run_ops ops s))"
proof (induction ops arbitrary: s)
  case (Cons op ops)
  have "sched_inv (snd (apply_op op s))" using sched.step_inv [OF Cons.prems] by blast
  from moves_trans [OF apply_op_moves [OF Cons.prems] Cons.IH [OF this]] show ?case
    by (simp add: split_beta Let_def)
qed (simp add: moves_refl)

lemma revoked_stays:
  assumes "revoked s t" "moves s s' ts" "unat (ss_next_ticket_serial s) + length ts < 2 ^ 64"
  shows "revoked s' t"
proof -
  have ser: "map (unat \<circ> tk_serial) ts = [unat (ss_next_ticket_serial s)..<unat (ss_next_ticket_serial s) + length ts]"
    "unat (ss_next_ticket_serial s') = unat (ss_next_ticket_serial s) + length ts"
    using assms(2,3) by (auto simp: moves_def)
  have "t \<notin> set ts"
  proof
    assume "t \<in> set ts"
    then have "unat (tk_serial t) \<in> set (map (unat \<circ> tk_serial) ts)" by auto
    with assms(1) show False unfolding ser(1) by (auto simp: revoked_def)
  qed
  with assms(1,2) ser(2) show ?thesis by (auto simp: revoked_def moves_def)
qed

text \<open>The operations that revoke a ticket.\<close>

fun revokes :: "sched_op \<Rightarrow> work_ticket \<Rightarrow> bool" where
  "revokes (Complete u) t \<longleftrightarrow> u = t"
| "revokes (Retry u) t \<longleftrightarrow> u = t"
| "revokes (MarkChunksEdited cs) t \<longleftrightarrow> tk_coord t \<in> set cs"
| "revokes InvalidateAll t \<longleftrightarrow> True"
| "revokes _ t \<longleftrightarrow> False"

lemma inactive_moves: "moves s s' [] \<Longrightarrow> \<not> active s t stage \<Longrightarrow> \<not> active s' t stage"
  by (auto simp: moves_def)

lemma queue_not_active:
  assumes "ss_entries s' = btree_update (coord_key (tk_coord t)) f (ss_entries s)"
    "\<And>e. state_ticket (en_state (f e)) = None"
  shows "\<not> active s' t stage"
proof
  assume "active s' t stage"
  then obtain e where "en_state (f e) = in_flight stage t" using assms(1) by (auto simp: active_def)
  with assms(2) [of e] show False by (cases stage) auto
qed

lemma mark_chunk_inactive: "\<not> active (snd (mark_chunk_edited (tk_coord t) rs)) t stage"
proof (cases "btree_get (ss_entries (snd rs)) (coord_key (tk_coord t))")
  case (Some e)
  then show ?thesis
    using requeued_queued
    by (intro queue_not_active [where f = "dirty_entry requeued (ss_frame (snd rs))" and s = "snd rs"])
      (auto simp: mark_chunk_edited_def split_beta Let_def dirty_entry_def)
qed (simp add: mark_chunk_edited_def split_beta Let_def active_def)

lemma fold_mark_inactive:
  "tk_coord t \<in> set cs \<Longrightarrow> \<not> active (snd (fold mark_chunk_edited cs rs)) t stage"
proof (induction cs arbitrary: rs)
  case (Cons c cs)
  show ?case
  proof (cases "tk_coord t = c")
    case True
    with inactive_moves [OF fold_mark_moves mark_chunk_inactive, of cs t rs stage] show ?thesis by auto
  next
    case False
    with Cons show ?thesis by simp
  qed
qed simp

lemma revokes_inactive:
  assumes "revokes op t"
  shows "\<not> active (snd (apply_op op s)) t stage"
proof (cases op)
  case (Complete u)
  have d: "state_ticket (en_state (completed st e)) = None" for st e
    by (cases st) (auto simp: completed_def become_resident_def)
  show ?thesis
  proof (cases "\<exists>st. active s t st")
    case True
    with Complete assms queue_not_active [OF complete_active(2) d] show ?thesis by auto
  next
    case False
    with Complete assms complete_inactive(1) [of s t] show ?thesis
      by (auto simp: stale_completion_def active_def)
  qed
next
  case (Retry u)
  have d: "state_ticket (queued_state st) = None" for st by (cases st) auto
  show ?thesis
  proof (cases "\<exists>st. active s t st")
    case True
    then obtain st where st: "active s t st" by blast
    show ?thesis
      using Retry assms d
      by (intro queue_not_active [where s = s and f = "en_state_update (\<lambda>_. queued_state st)"]) (auto simp: retry_active [OF st])
  next
    case False
    with Retry assms complete_inactive(2) [of s t] show ?thesis
      by (auto simp: stale_completion_def active_def)
  qed
next
  case (MarkChunksEdited cs)
  with assms fold_mark_inactive [of t "btree_set cs"] show ?thesis by (simp add: mark_chunks_edited_def Let_def)
next
  case InvalidateAll
  have "in_flight stage t \<noteq> QueuedGeneration" by simp
  with InvalidateAll show ?thesis by (auto simp: active_def invalidate_all_generation_def dirty_entry_def dest!: sym [of QueuedGeneration])
qed (use assms in auto)

lemma run_serials:
  assumes "scheduler_new config = Inr s0" "length (fst (run_ops ops s0)) < 2 ^ 64 - 1"
  shows "unat (ss_next_ticket_serial (snd (run_ops ops s0))) = 1 + length (fst (run_ops ops s0)) \<and>
    map (unat \<circ> tk_serial) (fst (run_ops ops s0)) = [1..<1 + length (fst (run_ops ops s0))]"
proof -
  have "sched_inv s0" using sched.init_inv assms(1) by blast
  from run_ops_moves [OF this, of ops] assms show ?thesis
    by (simp add: moves_def scheduler_new_fields(6))
qed

text \<open>
  C20: a work ticket is a single-use capability. In any run of the scheduler that issues fewer than
  2^64 - 1 tickets no two tickets share a serial, and once an issued ticket was completed or
  retried, or its chunk was edited, or all generation was invalidated, every later \<open>complete\<close> or
  \<open>retry\<close> with it is answered \<open>Stale\<close> and changes nothing but the counter of stale completions.
\<close>

theorem tickets_single_use:
  assumes new: "scheduler_new config = Inr s0" and t: "t \<in> set (fst (run_ops before s0))"
    and op: "revokes op t"
    and few: "length (fst (run_ops (before @ op # after) s0)) < 2 ^ 64 - 1"
  defines "s \<equiv> snd (run_ops (before @ op # after) s0)"
  shows "distinct (map tk_serial (fst (run_ops (before @ op # after) s0))) \<and>
    complete t s = stale_completion s \<and> retry t s = stale_completion s \<and> fst (stale_completion s) = Stale"
proof -
  let ?s1 = "snd (run_ops before s0)"
  let ?s2 = "snd (apply_op op ?s1)"
  have split: "run_ops (before @ op # after) s0 =
      (fst (run_ops before s0) @ fst (apply_op op ?s1) @ fst (run_ops after ?s2), snd (run_ops after ?s2))"
    by (simp add: run_ops_append split_beta Let_def)
  have len: "length (fst (run_ops (before @ [op]) s0)) = length (fst (run_ops before s0)) + length (fst (apply_op op ?s1))"
    "snd (run_ops (before @ [op]) s0) = ?s2"
    by (simp_all add: run_ops_append split_beta Let_def)
  note all = run_serials [OF new few]
  have "length (fst (run_ops (before @ [op]) s0)) < 2 ^ 64 - 1" "length (fst (run_ops before s0)) < 2 ^ 64 - 1"
    using few unfolding split len by simp_all
  note s2 = run_serials [OF new this(1), unfolded len] and s1 = run_serials [OF new this(2)]
  have "unat (tk_serial t) \<in> set (map (unat \<circ> tk_serial) (fst (run_ops before s0)))" using t by auto
  then have "unat (tk_serial t) < unat (ss_next_ticket_serial ?s2)"
    unfolding s1 [THEN conjunct2] using s2 by auto
  then have "revoked ?s2 t" using revokes_inactive [OF op] by (simp add: revoked_def)
  moreover have "sched_inv ?s2" using run_ops_inv [OF new, of "before @ [op]"] unfolding len .
  note run_ops_moves [OF this, of after]
  moreover have "unat (ss_next_ticket_serial ?s2) + length (fst (run_ops after ?s2)) < 2 ^ 64"
    using few s2 unfolding split by simp
  ultimately have "revoked s t" unfolding s_def split snd_conv by (rule revoked_stays)
  then have "complete t s = stale_completion s" "retry t s = stale_completion s"
    using complete_inactive [of s t] by (auto simp: revoked_def)
  moreover have "distinct (map (unat \<circ> tk_serial) (fst (run_ops (before @ op # after) s0)))"
    unfolding all [THEN conjunct2] by simp
  then have "distinct (map tk_serial (fst (run_ops (before @ op # after) s0)))"
    by (metis distinct_map map_map)
  ultimately show ?thesis by (simp add: stale_completion_def)
qed

definition sample_ticket :: work_ticket where
  "sample_ticket = \<lparr>tk_coord = chunk_at 5 0 5, tk_stage = Generation, tk_revision = 1, tk_serial = 1\<rparr>"

abbreviation (input) sample_before :: "sched_op list" where
  "sample_before \<equiv> [UpdateFocus (chunk_at 5 0 5) [],
     ScheduleFrame \<lparr>fb_generation = 1, fb_meshing = 0, fb_upload = 0\<rparr> neutral []]"

lemma sample_run:
  "fst (run_ops sample_before sample_scheduler) = [sample_ticket]"
  "fst (run_ops (sample_before @ Complete sample_ticket # []) sample_scheduler) = [sample_ticket]"
  by code_simp+

theorem tickets_single_use_witness:
  "complete sample_ticket (snd (run_ops (sample_before @ Complete sample_ticket # []) sample_scheduler)) =
   stale_completion (snd (run_ops (sample_before @ Complete sample_ticket # []) sample_scheduler))"
  by (rule tickets_single_use [OF sample_scheduler_new, of sample_ticket sample_before "Complete sample_ticket" "[]",
        THEN conjunct2, THEN conjunct1]) (unfold sample_run, simp_all)

end
