(* ===== verification/Stream_Frames.thy ===== *)
theory Stream_Frames
  imports Stream_Tickets
begin

text \<open>
  What one frame of the scheduler starts, what its readiness counters mean and what its latency
  percentiles report.
\<close>

declare split_paired_All [simp del] split_paired_Ex [simp del]

subsection \<open>Starting work\<close>

definition candidates :: "scheduler \<Rightarrow> state \<Rightarrow> chunk_coord set" where
  "candidates s queued = {c. \<exists>e. tracked s c = Some e \<and> en_state e = queued}"

text \<open>\<open>picks\<close>: as many distinct candidates as the budget allows, none of later order than one left.\<close>

definition picks :: "scheduler \<Rightarrow> priority_hint \<Rightarrow> chunk_coord list \<Rightarrow> chunk_coord set \<Rightarrow> nat \<Rightarrow> work_stage \<Rightarrow> work_ticket list \<Rightarrow> bool" where
  "picks s hint urgent cand budget stage ts \<longleftrightarrow>
     distinct (map tk_coord ts) \<and> tk_coord ` set ts \<subseteq> cand \<and> length ts = min budget (card cand) \<and>
     (\<forall>t \<in> set ts. tk_stage t = stage \<and> (\<forall>c \<in> cand - tk_coord ` set ts.
        stage_order s hint (coord_key ` set urgent) (coord_key (tk_coord t))
          \<le> stage_order s hint (coord_key ` set urgent) (coord_key c)))"

lemma start_keys_spec:
  assumes "entries_all entry_wf s" "distinct keys" "\<forall>k \<in> set keys. btree_get (ss_entries s) k \<noteq> None"
  shows "map (coord_key \<circ> tk_coord) (fst (start_keys stage keys s)) = keys \<and>
    (\<forall>t \<in> set (fst (start_keys stage keys s)). tk_stage t = stage \<and> active (snd (start_keys stage keys s)) t stage) \<and>
    (\<forall>k. k \<notin> set keys \<longrightarrow> btree_get (ss_entries (snd (start_keys stage keys s))) k = btree_get (ss_entries s) k)"
  using assms
proof (induction stage keys s rule: start_keys.induct)
  case (2 stage key keys s)
  then obtain e where e: "btree_get (ss_entries s) key = Some e" by auto
  let ?t = "\<lparr>tk_coord = en_coord e, tk_stage = stage, tk_revision = en_revision e, tk_serial = ss_next_ticket_serial s\<rparr>"
  let ?y = "s\<lparr>ss_next_ticket_serial := increment_nonzero (ss_next_ticket_serial s)\<rparr>"
  let ?s = "?y\<lparr>ss_entries := btree_update key (en_state_update (\<lambda>_. in_flight stage ?t)) (ss_entries ?y)\<rparr>"
  have tk: "(ss_next_ticket_serial s, ?y) = take_ticket_serial s" by (simp add: take_ticket_serial_def)
  have key: "coord_key (en_coord e) = key" using entries_allD [OF "2.prems"(1) e] by (simp add: entry_ok_def)
  have pre1: "entries_all entry_wf ?s"
    by (rule entries_all_update [OF "2.prems"(1), where k = key and f = "en_state_update (\<lambda>_. in_flight stage ?t)"])
      (simp, rule entry_wf_in_flight, simp, use e in \<open>simp add: ticket_ok_def\<close>)
  have pre2: "distinct keys" using "2.prems"(2) by simp
  have pre3: "\<forall>k \<in> set keys. btree_get (ss_entries ?s) k \<noteq> None" using "2.prems"(3) by auto
  note ih = "2.IH"(2) [OF e refl tk refl refl pre1 pre2 pre3]
  have run: "start_keys stage (key # keys) s = (?t # fst (start_keys stage keys ?s), snd (start_keys stage keys ?s))"
    by (simp add: e take_ticket_serial_def split_beta Let_def)
  have nk: "key \<notin> set keys" using "2.prems"(2) by simp
  have "btree_get (ss_entries (snd (start_keys stage keys ?s))) key = Some (e\<lparr>en_state := in_flight stage ?t\<rparr>)"
    using ih nk e by simp
  then have "active (snd (start_keys stage keys ?s)) ?t stage" by (simp add: active_def key)
  with ih nk show ?case unfolding run by (auto simp: key)
qed simp

lemma stage_keys:
  assumes "sched_wf s"
  shows "set (eligible_keys queued s) = coord_key ` candidates s queued" and "distinct (eligible_keys queued s)"
    and "length (eligible_keys queued s) = card (candidates s queued)"
    and "k \<in> set (eligible_keys queued s) \<Longrightarrow> btree_get (ss_entries s) k \<noteq> None"
proof -
  note wf = entries_all_wf [OF sched_wf_entries [OF assms]]
  have set: "k \<in> set (eligible_keys queued s) \<longleftrightarrow> (\<exists>e. btree_get (ss_entries s) k = Some e \<and> en_state e = queued)" for k
    using entries_allD [OF sched_wf_entries [OF assms], of k]
    by (force simp: eligible_keys_def btree_get_iff [OF wf] settled_def)
  show s: "set (eligible_keys queued s) = coord_key ` candidates s queued"
  proof (rule set_eqI)
    fix k
    have "k \<in> set (eligible_keys queued s) \<longleftrightarrow> coord_from_key k \<in> candidates s queued"
      unfolding set candidates_def tracked_def by simp
    also have "\<dots> \<longleftrightarrow> k \<in> coord_key ` candidates s queued"
      by (metis coord_key_roundtrip image_iff)
    finally show "k \<in> set (eligible_keys queued s) \<longleftrightarrow> k \<in> coord_key ` candidates s queued" .
  qed
  show d: "distinct (eligible_keys queued s)"
    unfolding eligible_keys_def using btree_wf_distinct [OF wf] by (rule distinct_map_filter)
  have "inj_on coord_key (candidates s queued)" by (simp add: inj_on_def)
  with s d show "length (eligible_keys queued s) = card (candidates s queued)"
    by (metis card_image distinct_card)
  show "k \<in> set (eligible_keys queued s) \<Longrightarrow> btree_get (ss_entries s) k \<noteq> None" unfolding set by auto
qed

lemma start_stage_spec:
  assumes wf: "sched_wf s" and run: "start_stage stage queued budget hint (coord_key ` set urgent) s = (ts, s')"
  shows "picks s hint urgent (candidates s queued) budget stage ts \<and> sched_wf s' \<and>
    (\<forall>t \<in> set ts. active s' t stage) \<and> (\<forall>c. c \<notin> tk_coord ` set ts \<longrightarrow> tracked s' c = tracked s c)"
proof -
  let ?order = "stage_order s hint (coord_key ` set urgent)"
  define keys where "keys = take budget (sort_key ?order (eligible_keys queued s))"
  have keys: "distinct keys" "\<forall>k \<in> set keys. btree_get (ss_entries s) k \<noteq> None"
    "set keys \<subseteq> coord_key ` candidates s queued" "length keys = min budget (card (candidates s queued))"
    using stage_keys(1-3) [OF wf, of queued] stage_keys(4) [OF wf, of _ queued] by (auto simp: keys_def dest!: in_set_takeD)
  have run': "ts = fst (start_keys stage keys s)" "s' = snd (start_keys stage keys s)"
    using run by (simp_all add: start_stage_def keys_def)
  note spec = start_keys_spec [OF sched_wf_entries [OF wf] keys(1,2), of stage, folded run']
  have mk: "map coord_key (map tk_coord ts) = keys" using spec by simp
  have im: "coord_key ` tk_coord ` set ts = set keys" using arg_cong [OF mk, of set] by (simp add: image_image)
  have in_ts: "c \<in> tk_coord ` set ts \<longleftrightarrow> coord_key c \<in> set keys" for c
    unfolding im [symmetric] by (simp add: inj_image_mem_iff inj_on_def)
  have least: "?order (coord_key (tk_coord t)) \<le> ?order (coord_key c)"
    if "t \<in> set ts" "c \<in> candidates s queued - tk_coord ` set ts" for t c
    using sort_key_take_least(1) [of "coord_key (tk_coord t)" budget ?order "eligible_keys queued s" "coord_key c"]
      that in_ts [of c] im stage_keys(1) [OF wf, of queued] unfolding keys_def by blast
  have "distinct (map tk_coord ts)" using keys(1) mk by (metis distinct_map)
  moreover have "length ts = length keys" using mk by (metis length_map)
  moreover have "tk_coord ` set ts \<subseteq> candidates s queued"
    using keys(3) in_ts by (metis (no_types, lifting) coord_key_inj imageE subset_iff)
  ultimately have "picks s hint urgent (candidates s queued) budget stage ts"
    unfolding picks_def using least spec keys(4) by simp
  moreover have "sched_wf s'" unfolding run'(2) by (rule start_keys_wf [OF wf])
  ultimately show ?thesis using spec in_ts by (simp add: tracked_def)
qed

lemma start_keys_focus: "ss_focus (snd (start_keys stage keys s)) = ss_focus s"
  by (induction stage keys s rule: start_keys.induct)
    (auto simp: take_ticket_serial_def split_beta Let_def split: option.split)

lemma start_stage_focus: "start_stage stage queued budget hint urgent s = (ts, s') \<Longrightarrow> ss_focus s' = ss_focus s"
  using start_keys_focus by (metis start_stage_def snd_conv)

lemma picks_focus: "ss_focus s' = ss_focus s \<Longrightarrow> picks s' hint urgent cand budget stage ts = picks s hint urgent cand budget stage ts"
  by (simp add: picks_def stage_order_def)

lemma candidates_after:
  assumes p: "picks s hint urgent (candidates s queued) budget stage ts"
    and act: "\<forall>t \<in> set ts. active s' t stage" and same: "\<forall>c. c \<notin> tk_coord ` set ts \<longrightarrow> tracked s' c = tracked s c"
    and q: "other \<noteq> queued" "\<And>t. other \<noteq> in_flight stage t"
  shows "candidates s' other = candidates s other"
proof (rule set_eqI)
  fix c
  show "c \<in> candidates s' other \<longleftrightarrow> c \<in> candidates s other"
  proof (cases "c \<in> tk_coord ` set ts")
    case True
    then obtain t where t: "t \<in> set ts" "tk_coord t = c" by auto
    have "c \<notin> candidates s' other" using act t q(2) by (auto simp: candidates_def active_def tracked_def)
    moreover have "c \<in> candidates s queued" using p True by (auto simp: picks_def)
    ultimately show ?thesis using q(1) by (auto simp: candidates_def)
  qed (use same in \<open>simp add: candidates_def\<close>)
qed

lemma active_tracked: "tracked s' (tk_coord t) = tracked s (tk_coord t) \<Longrightarrow> active s' t stage = active s t stage"
  by (simp add: active_def tracked_def)

text \<open>A later stage leaves the tickets of an earlier one active: their chunks are no candidates.\<close>

lemma active_after:
  assumes p: "picks s hint urgent (candidates s queued) budget stage ts"
    and same: "\<forall>c. c \<notin> tk_coord ` set ts \<longrightarrow> tracked s' c = tracked s c"
    and a: "active s u other" and q: "\<And>t. queued \<noteq> in_flight other t"
  shows "active s' u other"
proof -
  have "tk_coord u \<notin> candidates s queued" using a q [of u] by (auto simp: candidates_def active_def tracked_def)
  then have "tk_coord u \<notin> tk_coord ` set ts" using p by (auto simp: picks_def)
  with same a active_tracked [of s' u s other] show ?thesis by simp
qed

text \<open>
  A frame starts the best work its budget allows. In every stage it issues one ticket for each
  of as many distinct queued chunks as the budget of the stage admits, never leaving out a chunk
  that comes before a started one in the order of urgency, vicinity, view class, predicted and
  current distance; each ticket is the one its chunk then waits for; no other entry changes.
\<close>

theorem schedule_frame_picks:
  assumes wf: "sched_wf s" and run: "schedule_frame_with_urgency budget hint urgent s = (w, s')"
  shows "picks s hint urgent (candidates s QueuedGeneration) (fb_generation budget) Generation (fw_generation w) \<and>
    picks s hint urgent (candidates s QueuedMeshing) (fb_meshing budget) Meshing (fw_meshing w) \<and>
    picks s hint urgent (candidates s QueuedUpload) (fb_upload budget) Upload (fw_upload w) \<and>
    (\<forall>t \<in> set (fw_generation w @ fw_meshing w @ fw_upload w). active s' t (tk_stage t)) \<and>
    (\<forall>c. c \<notin> tk_coord ` set (fw_generation w @ fw_meshing w @ fw_upload w) \<longrightarrow> tracked s' c = tracked s c)"
proof -
  let ?u = "coord_key ` set urgent"
  define s0 where "s0 = s\<lparr>ss_frame := increment_nonzero (ss_frame s), ss_started_this_frame := frame_budget_default\<rparr>"
  obtain g s1 where g: "start_stage Generation QueuedGeneration (fb_generation budget) hint ?u s0 = (g, s1)" by fastforce
  obtain m s2 where m: "start_stage Meshing QueuedMeshing (fb_meshing budget) hint ?u s1 = (m, s2)" by fastforce
  obtain l s3 where l: "start_stage Upload QueuedUpload (fb_upload budget) hint ?u s2 = (l, s3)" by fastforce
  have w: "fw_generation w = g" "fw_meshing w = m" "fw_upload w = l" "ss_entries s' = ss_entries s3"
    using run g m l by (auto simp: schedule_frame_with_urgency_def Let_def s0_def)
  have wf0: "sched_wf s0" using wf by (simp add: s0_def sched_wf_def entries_all_def)
  have c0: "candidates s0 q = candidates s q" "tracked s0 c = tracked s c" "ss_focus s0 = ss_focus s" for q c
    by (simp_all add: s0_def candidates_def tracked_def)
  note G = start_stage_spec [OF wf0 g]
  then have wf1: "sched_wf s1" by blast
  note M = start_stage_spec [OF wf1 m]
  then have wf2: "sched_wf s2" by blast
  note L = start_stage_spec [OF wf2 l]
  note f = start_stage_focus [OF g] start_stage_focus [OF m]
  have c1: "candidates s1 q = candidates s q" if "q \<noteq> QueuedGeneration" "\<And>t. q \<noteq> in_flight Generation t" for q
    using candidates_after [of s0 hint urgent QueuedGeneration _ Generation g s1 q] G that c0 by blast
  have c2: "candidates s2 QueuedUpload = candidates s QueuedUpload"
    using candidates_after [of s1 hint urgent QueuedMeshing "fb_meshing budget" Meshing m s2 QueuedUpload] M c1 [of QueuedUpload] by simp
  have gp: "picks s hint urgent (candidates s QueuedGeneration) (fb_generation budget) Generation g"
    using G picks_focus [OF c0(3)] c0(1) by simp
  have mp: "picks s hint urgent (candidates s QueuedMeshing) (fb_meshing budget) Meshing m"
    using M picks_focus [of s1 s] f c0(3) c1 [of QueuedMeshing] by simp
  have lp: "picks s hint urgent (candidates s QueuedUpload) (fb_upload budget) Upload l"
    using L picks_focus [of s2 s] f c0(3) c2 by simp
  have g3: "active s3 t Generation" if "t \<in> set g" for t
  proof -
    have "active s2 t Generation" using active_after [of s1 hint urgent QueuedMeshing "fb_meshing budget" Meshing m s2 t Generation] M G that by simp
    then show ?thesis using active_after [of s2 hint urgent QueuedUpload "fb_upload budget" Upload l s3 t Generation] L by simp
  qed
  have m3: "active s3 t Meshing" if "t \<in> set m" for t
    using active_after [of s2 hint urgent QueuedUpload "fb_upload budget" Upload l s3 t Meshing] L M that by simp
  have tr: "tracked s' c = tracked s3 c" "active s' t st = active s3 t st" for c t st
    by (simp_all add: tracked_def active_def w)
  have "active s' t (tk_stage t)" if "t \<in> set (g @ m @ l)" for t
    using that g3 m3 L gp mp lp by (auto simp: tr picks_def)
  moreover have "tracked s' c = tracked s c" if "c \<notin> tk_coord ` set (g @ m @ l)" for c
    using that G M L by (simp add: tr c0 image_Un)
  ultimately show ?thesis using gp mp lp unfolding w by blast
qed

theorem schedule_frame_picks_witness:
  "\<exists>w s'. schedule_frame_with_urgency \<lparr>fb_generation = 1, fb_meshing = 1, fb_upload = 1\<rparr> neutral []
       (snd (run_ops [UpdateFocus (chunk_at 5 0 5) []] sample_scheduler)) = (w, s') \<and>
     length (fw_generation w) \<le> 1"
proof -
  let ?s = "snd (run_ops [UpdateFocus (chunk_at 5 0 5) []] sample_scheduler)"
  have wf: "sched_wf ?s"
    using run_ops_inv [OF sample_scheduler_new, of "[UpdateFocus (chunk_at 5 0 5) []]"] unfolding sched_inv_def by blast
  obtain w s' where r: "schedule_frame_with_urgency \<lparr>fb_generation = 1, fb_meshing = 1, fb_upload = 1\<rparr> neutral [] ?s = (w, s')"
    by fastforce
  from schedule_frame_picks [OF wf r] have "length (fw_generation w) \<le> 1" by (simp add: picks_def)
  with r show ?thesis by blast
qed

subsection \<open>Readiness\<close>

lemma fold_count_ready:
  "vr_required (fold (count_ready s) cs r) = vr_required r + length (filter is_world_representable cs)"
  "vr_resident (fold (count_ready s) cs r) =
     vr_resident r + length (filter (\<lambda>c. is_world_representable c \<and> ready_at s c) cs)"
  by (induction cs arbitrary: r) (auto simp: count_ready_def)

lemma fold_concat_map: "fold f (concat (map g xs)) a = fold (\<lambda>x. fold f (g x)) xs a"
  by (induction xs arbitrary: a) auto

definition sweep :: "chunk_coord \<Rightarrow> int \<Rightarrow> int \<Rightarrow> chunk_coord list" where
  "sweep focus radius vertical = concat (map (\<lambda>dz. concat (map (\<lambda>dx.
     if dx * dx + dz * dz > radius * radius then []
     else concat (map (\<lambda>dy.
       if i32_ok (cx focus + dx) \<and> i32_ok (cy focus + dy) \<and> i32_ok (cz focus + dz)
       then [chunk_at (cx focus + dx) (cy focus + dy) (cz focus + dz)] else [])
       (range_incl (- vertical) vertical))) (range_incl (- radius) radius))) (range_incl (- radius) radius))"

lemma sweep_step:
  "(case (i32_checked_add x dx, i32_checked_add y dy, i32_checked_add z dz) of
      (Some x, Some y, Some z) \<Rightarrow> count_ready s (chunk_at x y z) r | _ \<Rightarrow> r) =
   fold (count_ready s) (if i32_ok (x + dx) \<and> i32_ok (y + dy) \<and> i32_ok (z + dz)
     then [chunk_at (x + dx) (y + dy) (z + dz)] else []) r"
  by (simp add: i32_checked_add_def i32_try_def)

lemma fold_skip: "fold f (if p then [] else xs) a = (if p then a else fold f xs a)"
  by simp

lemma readiness_fold:
  assumes "ss_focus_initialized s" "0 \<le> radius_chunks"
  shows "vicinity_readiness_at s focus radius_chunks = fold (count_ready s)
     (sweep focus (min radius_chunks (load_radius_chunks (ss_config s))) (vertical_radius_chunks (ss_config s))) vicinity_default"
proof -
  have init: "\<not> (\<not> ss_focus_initialized s \<or> radius_chunks < 0)" using assms by simp
  show ?thesis
    unfolding vicinity_readiness_at_def Let_def sweep_def fold_concat_map fold_skip sweep_step if_not_P [OF init]
    by (rule refl)
qed

definition around :: "chunk_coord \<Rightarrow> int \<Rightarrow> int \<Rightarrow> chunk_coord set" where
  "around focus radius vertical = {c. is_world_representable c \<and>
     (cx c - cx focus)\<^sup>2 + (cz c - cz focus)\<^sup>2 \<le> radius\<^sup>2 \<and> \<bar>cy c - cy focus\<bar> \<le> vertical}"

lemma sweep_distinct: "distinct (sweep focus radius vertical)"
  unfolding sweep_def
  by (rule distinct_concat_map; (rule distinct_concat_map)?; (simp split: if_splits)?;
      (intro impI distinct_concat_map)?) (auto split: if_splits)

lemma sweep_set:
  assumes "0 \<le> radius"
  shows "{c \<in> set (sweep focus radius vertical). is_world_representable c} = around focus radius vertical"
proof (rule set_eqI)
  fix c :: chunk_coord
  let ?dx = "cx c - cx focus" and ?dy = "cy c - cy focus" and ?dz = "cz c - cz focus"
  have sw: "c \<in> set (sweep focus radius vertical) \<longleftrightarrow> (\<exists>dz \<in> {- radius..radius}. \<exists>dx \<in> {- radius..radius}.
      dx * dx + dz * dz \<le> radius * radius \<and> (\<exists>dy \<in> {- vertical..vertical}.
      i32_ok (cx focus + dx) \<and> i32_ok (cy focus + dy) \<and> i32_ok (cz focus + dz) \<and>
      c = chunk_at (cx focus + dx) (cy focus + dy) (cz focus + dz)))"
    unfolding sweep_def by (fastforce split: if_splits)
  have covered: "c \<in> set (sweep focus radius vertical)" if "c \<in> around focus radius vertical"
    unfolding sw using that square_bound [of ?dx ?dz] square_bound [of ?dz ?dx] assms chunk_ok_representable [of c]
    by (intro bexI [of _ ?dz] bexI [of _ ?dx] conjI bexI [of _ ?dy])
      (auto simp: around_def chunk_ok_def power2_eq_square add.commute)
  have "c \<in> set (sweep focus radius vertical) \<Longrightarrow> is_world_representable c \<Longrightarrow> c \<in> around focus radius vertical"
    unfolding sw by (auto simp: around_def power2_eq_square)
  moreover have "c \<in> around focus radius vertical \<Longrightarrow> is_world_representable c" by (simp add: around_def)
  ultimately show "c \<in> {c \<in> set (sweep focus radius vertical). is_world_representable c} \<longleftrightarrow> c \<in> around focus radius vertical"
    using covered by blast
qed

text \<open>
  C21: the vicinity readiness counts exactly. For an initialised scheduler and a nonnegative radius,
  \<open>required\<close> is the number of representable chunks of the cylinder of that radius (clipped to the
  load radius) and the configured height, \<open>resident\<close> the number of those that are desired and
  resident, and so the vicinity is ready precisely when the cylinder is not empty and all of its
  chunks are desired and resident.
\<close>

theorem vicinity_readiness_exact:
  fixes focus :: chunk_coord
  assumes "ss_focus_initialized s" "0 \<le> radius_chunks" "0 \<le> load_radius_chunks (ss_config s)"
  defines "C \<equiv> around focus (min radius_chunks (load_radius_chunks (ss_config s))) (vertical_radius_chunks (ss_config s))"
  shows "vr_required (vicinity_readiness_at s focus radius_chunks) = card C \<and>
    vr_resident (vicinity_readiness_at s focus radius_chunks) = card {c \<in> C. ready_at s c} \<and>
    (is_ready (vicinity_readiness_at s focus radius_chunks) \<longleftrightarrow> C \<noteq> {} \<and> (\<forall>c \<in> C. ready_at s c))"
proof -
  let ?L = "sweep focus (min radius_chunks (load_radius_chunks (ss_config s))) (vertical_radius_chunks (ss_config s))"
  have C: "C = set (filter is_world_representable ?L)"
    using sweep_set [of "min radius_chunks (load_radius_chunks (ss_config s))" focus "vertical_radius_chunks (ss_config s)"] assms(2,3)
    by (simp add: C_def)
  have "length (filter is_world_representable ?L) = card C"
    unfolding C by (rule distinct_card [symmetric]) (simp add: sweep_distinct)
  moreover have "{c \<in> C. ready_at s c} = set (filter (\<lambda>c. is_world_representable c \<and> ready_at s c) ?L)"
    unfolding C by auto
  then have "length (filter (\<lambda>c. is_world_representable c \<and> ready_at s c) ?L) = card {c \<in> C. ready_at s c}"
    by (simp only:) (rule distinct_card [symmetric], simp add: sweep_distinct)
  ultimately have counts: "vr_required (vicinity_readiness_at s focus radius_chunks) = card C"
    "vr_resident (vicinity_readiness_at s focus radius_chunks) = card {c \<in> C. ready_at s c}"
    by (simp_all add: readiness_fold [OF assms(1,2)] fold_count_ready vicinity_default_def)
  have fin: "finite C" unfolding C by simp
  then have "card {c \<in> C. ready_at s c} = card C \<longleftrightarrow> {c \<in> C. ready_at s c} = C"
    by (metis (no_types, lifting) card_subset_eq mem_Collect_eq subsetI)
  with counts fin show ?thesis by (auto simp: is_ready_def card_gt_0_iff)
qed

theorem vicinity_readiness_exact_witness:
  "\<not> is_ready (vicinity_readiness_at (snd (run_ops [UpdateFocus (chunk_at 5 0 5) []] sample_scheduler)) (chunk_at 5 0 5) 0)"
proof -
  let ?s = "snd (run_ops [UpdateFocus (chunk_at 5 0 5) []] sample_scheduler)"
  have a: "ss_focus_initialized ?s" "\<not> ready_at ?s (chunk_at 5 0 5)" by code_simp+
  have cfg: "ss_config ?s = sample_config"
    by (simp add: split_beta Let_def apply_op_config del: apply_op.simps)
  then have r: "0 \<le> load_radius_chunks (ss_config ?s)" by (simp add: sample_config_def)
  have "chunk_at 5 0 5 \<in> around (chunk_at 5 0 5) (min 0 (load_radius_chunks (ss_config ?s))) (vertical_radius_chunks (ss_config ?s))"
    unfolding cfg by (simp add: around_def is_world_representable_def sample_config_def)
  with vicinity_readiness_exact [OF a(1) _ r, of 0 "chunk_at 5 0 5"] a(2) show ?thesis by blast
qed

subsection \<open>Latency percentiles\<close>

lemma sorted_filter_le:
  "sorted S \<Longrightarrow> r < length S \<Longrightarrow> r < length (filter (\<lambda>x. x \<le> i) S) \<longleftrightarrow> S ! r \<le> i" for i :: nat
proof (induction S arbitrary: r)
  case (Cons a S)
  show ?case
  proof (cases "a \<le> i")
    case True
    then show ?thesis using Cons by (cases r) auto
  next
    case False
    then have "filter (\<lambda>x. x \<le> i) (a # S) = []" using Cons.prems(1) by (auto simp: filter_empty_conv)
    moreover have "a \<le> (a # S) ! r" using Cons.prems by (cases r) auto
    ultimately show ?thesis using False by simp
  qed
qed simp

definition bucketed :: "nat list \<Rightarrow> nat \<Rightarrow> nat" where
  "bucketed fs i = length (filter (\<lambda>f. min f 255 = i) fs)"

definition up_to :: "nat list \<Rightarrow> nat \<Rightarrow> nat" where
  "up_to fs i = length (filter (\<lambda>f. min f 255 \<le> i) fs)"

lemma up_to_Suc: "up_to fs (Suc i) = up_to fs i + bucketed fs (Suc i)"
  by (induction fs) (auto simp: up_to_def bucketed_def)

lemma up_to_0: "up_to fs 0 = bucketed fs 0"
  by (simp add: up_to_def bucketed_def)

lemma record_all:
  assumes "length fs \<le> u64_max"
  shows "lh_buckets (fold histogram_record fs histogram_default) = map (bucketed fs) [0..<256] \<and>
    lh_completed (fold histogram_record fs histogram_default) = length fs \<and>
    lh_max_frames (fold histogram_record fs histogram_default) = (if fs = [] then 0 else Max (set fs))"
  using assms
proof (induction fs rule: rev_induct)
  case Nil
  show ?case
    by (simp add: histogram_default_def bucketed_def LATENCY_HISTOGRAM_BUCKETS_def map_replicate_const)
next
  case (snoc f fs)
  define h where "h = fold histogram_record fs histogram_default"
  have ih: "lh_buckets h = map (bucketed fs) [0..<256]" "lh_completed h = length fs"
    "lh_max_frames h = (if fs = [] then 0 else Max (set fs))" using snoc by (auto simp: h_def)
  have b: "bucketed fs (min f 255) + 1 \<le> u64_max"
    using snoc.prems le_trans [OF length_filter_le [of "\<lambda>x. min x 255 = min f 255" fs], of "u64_max - 1"]
    by (simp add: bucketed_def)
  have "(map (bucketed fs) [0..<256])[min f 255 := bucketed fs (min f 255) + 1] = map (bucketed (fs @ [f])) [0..<256]"
    by (rule nth_equalityI) (auto simp: nth_list_update bucketed_def)
  moreover have "map (bucketed fs) [0..<256] ! min f 255 = bucketed fs (min f 255)" by (simp add: nth_map_upt)
  ultimately show ?case
    using b snoc.prems unfolding fold_append comp_def fold_simps h_def [symmetric]
    by (simp add: histogram_record_def ih LATENCY_HISTOGRAM_BUCKETS_def Let_def u64_saturating_add_def max.commute)
qed

lemma scan_finds:
  assumes n: "length fs \<le> u64_max" and total: "rank \<le> length fs"
    and v: "\<And>i. i < 255 \<Longrightarrow> rank \<le> up_to fs i \<longleftrightarrow> v \<le> i"
    and bs: "bs = map (bucketed fs) [index..<256]" "index < 256"
    and cum: "cumulative = (if index = 0 then 0 else up_to fs (index - 1))" "index = 0 \<or> cumulative < rank"
  shows "percentile_scan rank mx index cumulative bs = (if v < 255 then v else mx)"
  using bs cum
proof (induction bs arbitrary: index cumulative)
  case Nil
  then show ?case by simp
next
  case (Cons b bs)
  have b: "b = bucketed fs index" "bs = map (bucketed fs) [Suc index..<256]"
    using Cons.prems(1,2) by (simp_all add: upt_rec [of index])
  have "cumulative + b = up_to fs index"
    using Cons.prems(3) b(1) up_to_0 up_to_Suc [of fs "index - 1"] by (cases index) auto
  moreover have "up_to fs index \<le> u64_max" using n length_filter_le unfolding up_to_def by (metis le_trans)
  ultimately have sat: "u64_saturating_add cumulative b = up_to fs index" by (simp add: u64_saturating_add_def)
  have low: "\<not> v \<le> index - 1" if "index \<noteq> 0"
    using Cons.prems(2-4) v [of "index - 1"] that by (auto simp: not_le)
  have full: "up_to fs 255 = length fs" by (simp add: up_to_def)
  show ?case
  proof (cases "rank \<le> up_to fs index")
    case True
    show ?thesis
    proof (cases "index = 255")
      case True
      with \<open>rank \<le> up_to fs index\<close> low sat show ?thesis by (simp add: LATENCY_HISTOGRAM_BUCKETS_def Let_def)
    next
      case False
      then have "index < 255" using Cons.prems(2) by simp
      with v True have "v \<le> index" by blast
      with low have "v = index" by (cases index) auto
      with True False \<open>index < 255\<close> sat show ?thesis by (simp add: LATENCY_HISTOGRAM_BUCKETS_def Let_def)
    qed
  next
    case False
    then have "index \<noteq> 255" using full total by auto
    then have "index < 255" using Cons.prems(2) by simp
    then have "percentile_scan rank mx (index + 1) (up_to fs index) bs = (if v < 255 then v else mx)"
      using False b(2) by (intro Cons.IH) auto
    with False sat show ?thesis by (simp add: Let_def)
  qed
qed

text \<open>
  C26: the latency percentile is the nearest-rank percentile. After recording any nonempty sequence of
  at most 2^64 - 1 latencies, the percentile \<open>p\<close> is the element of rank ceil(p n / 100) of the
  sorted sequence whenever that is below 255 frames, and the maximum recorded otherwise.
\<close>

theorem percentile_nearest_rank:
  assumes "fs \<noteq> []" "length fs \<le> u64_max" "1 \<le> p" "p \<le> 100"
  defines "v \<equiv> sort fs ! ((length fs * p + 99) div 100 - 1)"
  shows "percentile p (fold histogram_record fs histogram_default) = (if v < 255 then v else Max (set fs))"
proof -
  let ?rank = "(length fs * p + 99) div 100"
  have pos: "0 < length fs" using assms(1) by simp
  have r1: "1 \<le> ?rank"
  proof -
    have "1 \<le> length fs * p" using pos assms(3) by (metis One_nat_def Suc_leI nat_0_less_mult_iff zero_less_one less_le_trans)
    then show ?thesis using div_le_mono [of 100 "length fs * p + 99" 100] by simp
  qed
  have "length fs * p \<le> length fs * 100" using assms(4) by (rule mult_le_mono2)
  then have rn: "?rank \<le> length fs" by linarith
  have le: "?rank \<le> up_to fs i \<longleftrightarrow> v \<le> i" if i: "i < 255" for i
  proof -
    have "mset (filter (\<lambda>x. x \<le> i) fs) = mset (filter (\<lambda>x. x \<le> i) (sort fs))" by simp
    then have "length (filter (\<lambda>x. x \<le> i) fs) = length (filter (\<lambda>x. x \<le> i) (sort fs))" by (metis size_mset)
    moreover have "filter (\<lambda>f. min f 255 \<le> i) fs = filter (\<lambda>x. x \<le> i) fs" using i by (intro filter_cong) auto
    ultimately have "up_to fs i = length (filter (\<lambda>x. x \<le> i) (sort fs))" by (simp add: up_to_def)
    moreover obtain r where r: "?rank = Suc r" using r1 by (cases ?rank) auto
    ultimately show ?thesis using sorted_filter_le [of "sort fs" r i] rn unfolding v_def r by (simp add: Suc_le_eq)
  qed
  have "?rank mod 2 ^ 64 = ?rank" using rn assms(2) by (intro mod_less) simp
  moreover have "percentile_scan ?rank (Max (set fs)) 0 0 (map (bucketed fs) [0..<256]) = (if v < 255 then v else Max (set fs))"
    by (rule scan_finds [OF assms(2) rn le]) auto
  ultimately show ?thesis
    using record_all [OF assms(2)] assms(1) by (simp add: percentile_def Let_def)
qed

theorem percentile_nearest_rank_witness:
  "percentile 95 (fold histogram_record [3, 300, 7] histogram_default) = 300"
  using percentile_nearest_rank [of "[3, 300, 7]" 95] by simp

end
