(* ===== verification/Arena.thy ===== *)
theory Arena
  imports Ordered_Map
begin

text \<open>
  \<open>ArenaAllocator\<close> of render/src/arena.rs: the best-fit, coalescing allocator of the GPU buffer
  pages. Offsets and sizes (\<open>u32\<close>) and byte totals (\<open>u64\<close>) are \<open>nat\<close>, generations wrap and are
  32-bit words. The invariant counts, for every byte of a page, the free ranges and the live
  allocations that hold it: exactly one.
\<close>

declare split_paired_All [simp del] split_paired_Ex [simp del]

record allocation =
  al_page :: nat
  al_offset :: nat
  al_size :: nat
  al_generation :: u32

record arena_stats =
  as_pages :: nat
  as_capacity_bytes :: nat
  as_allocated_bytes :: nat
  as_free_bytes :: nat
  as_largest_free_range :: nat

record arena_page =
  pg_capacity :: nat
  pg_free :: "(nat \<times> nat) list"

record arena =
  ar_default_page_size :: nat
  ar_alignment :: nat
  ar_maximum_capacity :: "nat option"
  ar_maximum_pages :: "nat option"
  ar_pages :: "arena_page list"
  ar_active :: "(nat \<times> nat, nat \<times> u32) btree"
  ar_next_generation :: u32

definition arena_new :: "nat \<Rightarrow> nat \<Rightarrow> arena" where
  "arena_new default_page_size alignment =
     \<lparr>ar_default_page_size = max default_page_size 1, ar_alignment = max alignment 1,
      ar_maximum_capacity = None, ar_maximum_pages = None, ar_pages = [], ar_active = [],
      ar_next_generation = 1\<rparr>"

definition arena_new_bounded :: "nat \<Rightarrow> nat \<Rightarrow> nat \<Rightarrow> nat \<Rightarrow> arena option" where
  "arena_new_bounded default_page_size alignment maximum_capacity maximum_pages =
     (if maximum_capacity = 0 \<or> maximum_pages = 0 then None
      else Some \<lparr>ar_default_page_size = max default_page_size 1, ar_alignment = max alignment 1,
        ar_maximum_capacity = Some maximum_capacity, ar_maximum_pages = Some (min maximum_pages u16_max),
        ar_pages = [], ar_active = [], ar_next_generation = 1\<rparr>)"

definition align_up :: "nat \<Rightarrow> nat \<Rightarrow> nat option" where
  "align_up v alignment =
     (let remainder = v mod alignment
      in if remainder = 0 then Some v else u32_checked_add v (alignment - remainder))"

definition page_capacity :: "nat \<Rightarrow> nat \<Rightarrow> nat" where
  "page_capacity default_page_size allocation_size =
     (if allocation_size \<le> default_page_size then default_page_size
      else case checked_next_power_of_two allocation_size of Some n \<Rightarrow> n | None \<Rightarrow> allocation_size)"

definition page_ranges :: "nat \<Rightarrow> arena_page \<Rightarrow> nat \<Rightarrow> (nat \<times> nat \<times> nat) list" where
  "page_ranges page_index page sz =
     map (\<lambda>(range_index, (_, free_size)). (free_size - sz, page_index, range_index))
       (filter (\<lambda>(_, (_, free_size)). free_size \<ge> sz) (enumerate 0 (pg_free page)))"

definition better :: "'c::linorder \<Rightarrow> 'c option \<Rightarrow> 'c option" where
  "better candidate best =
     (case best of None \<Rightarrow> Some candidate | Some current \<Rightarrow> if candidate < current then Some candidate else best)"

definition best_fit :: "arena \<Rightarrow> nat \<Rightarrow> (nat \<times> nat \<times> nat) option" where
  "best_fit ar sz =
     fold better (concat (map (\<lambda>(i, page). page_ranges i page sz) (enumerate 0 (ar_pages ar)))) None"

definition total_capacity :: "arena \<Rightarrow> nat" where
  "total_capacity ar = sum_list (map pg_capacity (ar_pages ar))"

definition page_limit :: "arena \<Rightarrow> nat" where
  "page_limit ar = (case ar_maximum_pages ar of Some n \<Rightarrow> n | None \<Rightarrow> u16_max)"

definition may_grow :: "arena \<Rightarrow> nat \<Rightarrow> bool" where
  "may_grow ar capacity \<longleftrightarrow>
     (case ar_maximum_capacity ar of None \<Rightarrow> True
      | Some maximum \<Rightarrow> u64_saturating_add (total_capacity ar) capacity \<le> maximum)"

definition find_range :: "nat \<Rightarrow> arena \<Rightarrow> (nat \<times> nat \<times> arena) option" where
  "find_range sz ar =
     (case best_fit ar sz of
        Some (_, page, range_index) \<Rightarrow> Some (page, range_index, ar)
      | None \<Rightarrow>
          if length (ar_pages ar) \<ge> page_limit ar then None
          else let capacity = page_capacity (ar_default_page_size ar) sz in
            if \<not> may_grow ar capacity then None
            else Some (length (ar_pages ar), 0,
              ar\<lparr>ar_pages := ar_pages ar @ [\<lparr>pg_capacity = capacity, pg_free = [(0, capacity)]\<rparr>]\<rparr>))"

definition take_range :: "nat \<Rightarrow> nat \<Rightarrow> arena_page \<Rightarrow> (nat \<times> arena_page) option" where
  "take_range sz range_index page =
     (if range_index < length (pg_free page)
      then let (offset, free_size) = pg_free page ! range_index in
        Some (offset, if free_size = sz
          then page\<lparr>pg_free := take range_index (pg_free page) @ drop (Suc range_index) (pg_free page)\<rparr>
          else page\<lparr>pg_free := (pg_free page)[range_index := (offset + sz, free_size - sz)]\<rparr>)
      else None)"

definition wrapping_generation :: "u32 \<Rightarrow> u32" where
  "wrapping_generation g = max (g + 1) 1"

definition allocate :: "nat \<Rightarrow> arena \<Rightarrow> (allocation \<times> arena) option" where
  "allocate requested_size ar =
     (if requested_size = 0 then None
      else Option.bind (align_up requested_size (ar_alignment ar)) (\<lambda>sz.
        Option.bind (find_range sz ar) (\<lambda>(page_index, range_index, ar).
        if page_index < length (ar_pages ar)
        then Option.bind (take_range sz range_index (ar_pages ar ! page_index)) (\<lambda>(offset, page).
          let generation = ar_next_generation ar;
              a = \<lparr>al_page = page_index, al_offset = offset, al_size = sz, al_generation = generation\<rparr>
          in Some (a, ar\<lparr>ar_pages := (ar_pages ar)[page_index := page],
               ar_next_generation := wrapping_generation generation,
               ar_active := btree_insert (page_index, offset) (sz, generation) (ar_active ar)\<rparr>))
        else None)))"

definition aligned_allocation_size :: "arena \<Rightarrow> nat \<Rightarrow> nat option" where
  "aligned_allocation_size ar requested_size =
     (if requested_size > 0 then align_up requested_size (ar_alignment ar) else None)"

definition can_allocate :: "arena \<Rightarrow> nat \<Rightarrow> bool" where
  "can_allocate ar requested_size =
     (case aligned_allocation_size ar requested_size of
        None \<Rightarrow> False
      | Some sz \<Rightarrow>
          if list_ex (\<lambda>page. list_ex (\<lambda>(_, free_size). free_size \<ge> sz) (pg_free page)) (ar_pages ar) then True
          else if length (ar_pages ar) \<ge> page_limit ar then False
          else may_grow ar (page_capacity (ar_default_page_size ar) sz))"

fun merge_ranges :: "(nat \<times> nat) list \<Rightarrow> (nat \<times> nat) list \<Rightarrow> (nat \<times> nat) list" where
  "merge_ranges merged [] = merged"
| "merge_ranges merged ((offset, sz) # ranges) =
     (if merged \<noteq> [] \<and> fst (last merged) + snd (last merged) = offset
      then merge_ranges (butlast merged @ [(fst (last merged), snd (last merged) + sz)]) ranges
      else merge_ranges (merged @ [(offset, sz)]) ranges)"

definition arena_free :: "allocation \<Rightarrow> arena \<Rightarrow> bool \<times> arena" where
  "arena_free a ar =
     (let key = (al_page a, al_offset a) in
      if btree_get (ar_active ar) key \<noteq> Some (al_size a, al_generation a) then (False, ar)
      else let ar = ar\<lparr>ar_active := btree_remove key (ar_active ar)\<rparr> in
        if al_page a < length (ar_pages ar)
        then let page = ar_pages ar ! al_page a;
                 ranges = sort_key fst (pg_free page @ [(al_offset a, al_size a)])
          in (True, ar\<lparr>ar_pages := (ar_pages ar)[al_page a := page\<lparr>pg_free := merge_ranges [] ranges\<rparr>]\<rparr>)
        else (False, ar))"

definition arena_page_capacity :: "arena \<Rightarrow> nat \<Rightarrow> nat option" where
  "arena_page_capacity ar page =
     (if page < length (ar_pages ar) then Some (pg_capacity (ar_pages ar ! page)) else None)"

definition arena_stats_of :: "arena \<Rightarrow> arena_stats" where
  "arena_stats_of ar =
     (let capacity_bytes = total_capacity ar;
          allocated_bytes = sum_list (map fst (btree_values (ar_active ar)))
      in \<lparr>as_pages = length (ar_pages ar), as_capacity_bytes = capacity_bytes, as_allocated_bytes = allocated_bytes,
          as_free_bytes = capacity_bytes - allocated_bytes,
          as_largest_free_range = fold max (concat (map (\<lambda>page. map snd (pg_free page)) (ar_pages ar))) 0\<rparr>)"

subsection \<open>Ranges and their bytes\<close>

definition covers :: "nat \<times> nat \<Rightarrow> nat \<Rightarrow> nat" where
  "covers r b = (if fst r \<le> b \<and> b < fst r + snd r then 1 else 0)"

definition cover :: "(nat \<times> nat) list \<Rightarrow> nat \<Rightarrow> nat" where
  "cover rs b = sum_list (map (\<lambda>r. covers r b) rs)"

lemma cover_simps [simp]: "cover [] b = 0" "cover (r # rs) b = covers r b + cover rs b" "cover (rs @ qs) b = cover rs b + cover qs b"
  by (simp_all add: cover_def)

lemma cover_mset: "mset rs = mset qs \<Longrightarrow> cover rs b = cover qs b"
  unfolding cover_def by (metis mset_map sum_mset_sum_list)

lemma covers_split: "covers (o1, n + m) b = covers (o1, n) b + covers (o1 + n, m) b"
  by (auto simp: covers_def)

lemma cover_merge: "cover (merge_ranges merged rs) b = cover merged b + cover rs b"
proof (induction merged rs rule: merge_ranges.induct)
  case (2 merged offset sz ranges)
  show ?case
  proof (cases "merged \<noteq> [] \<and> fst (last merged) + snd (last merged) = offset")
    case True
    then obtain ms o1 n where m: "merged = ms @ [(o1, n)]" by (metis append_butlast_last_id surj_pair)
    with 2 True show ?thesis using covers_split [of o1 n sz b] by simp
  next
    case False
    then have "merge_ranges merged ((offset, sz) # ranges) = merge_ranges (merged @ [(offset, sz)]) ranges" by auto
    with "2.IH"(2) [OF False] show ?thesis by simp
  qed
qed simp

text \<open>Coalesced: ascending, nonempty and with a gap before each next range.\<close>

definition coalesced :: "(nat \<times> nat) list \<Rightarrow> bool" where
  "coalesced rs \<longleftrightarrow> sorted_wrt (\<lambda>r q. fst r + snd r < fst q) rs \<and> (\<forall>r \<in> set rs. 0 < snd r)"

lemma coalesced_append:
  "coalesced (rs @ [q]) \<longleftrightarrow> coalesced rs \<and> 0 < snd q \<and> (\<forall>r \<in> set rs. fst r + snd r < fst q)"
  by (auto simp: coalesced_def sorted_wrt_append)

text \<open>Disjoint nonempty ranges in ascending order follow one another.\<close>

definition orderly :: "(nat \<times> nat) list \<Rightarrow> bool" where
  "orderly rs \<longleftrightarrow> sorted_wrt (\<lambda>r q. fst r + snd r \<le> fst q) rs \<and> (\<forall>r \<in> set rs. 0 < snd r)"

lemma coalesced_merge:
  assumes "coalesced merged" "orderly (merged @ rs)"
  shows "coalesced (merge_ranges merged rs)"
  using assms
proof (induction merged rs rule: merge_ranges.induct)
  case (2 merged offset sz ranges)
  show ?case
  proof (cases "merged \<noteq> [] \<and> fst (last merged) + snd (last merged) = offset")
    case True
    then obtain ms o1 n where m: "merged = ms @ [(o1, n)]" by (metis append_butlast_last_id surj_pair)
    have "coalesced (ms @ [(o1, n + sz)])"
      using "2.prems"(1) by (simp add: m coalesced_append)
    moreover have "orderly ((ms @ [(o1, n + sz)]) @ ranges)"
      using "2.prems"(2) True by (auto simp: m orderly_def sorted_wrt_append)
    ultimately show ?thesis using "2.IH"(1) True by (simp add: m)
  next
    case False
    have "fst r + snd r < offset" if "r \<in> set merged" for r
    proof -
      have le: "fst q + snd q \<le> offset" if "q \<in> set merged" for q
        using "2.prems"(2) that by (auto simp: orderly_def sorted_wrt_append)
      obtain ms l where m: "merged = ms @ [l]" using \<open>r \<in> set merged\<close> by (metis empty_iff list.set(1) rev_exhaust)
      have l: "fst l + snd l < offset" using le [of l] False by (auto simp: m)
      show ?thesis
      proof (cases "r = l")
        case False
        then have "fst r + snd r < fst l" using \<open>r \<in> set merged\<close> "2.prems"(1) by (auto simp: m coalesced_append)
        with l show ?thesis by linarith
      qed (use l in simp)
    qed
    then have "coalesced (merged @ [(offset, sz)])"
      using "2.prems" by (simp add: coalesced_append orderly_def)
    moreover have "merge_ranges merged ((offset, sz) # ranges) = merge_ranges (merged @ [(offset, sz)]) ranges"
      using False by auto
    ultimately show ?thesis using "2.IH"(2) [OF False] "2.prems"(2) by simp
  qed
qed simp

lemma covers_le_cover: "r \<in> set rs \<Longrightarrow> covers r b \<le> cover rs b"
  by (induction rs) auto

text \<open>Ranges that cover no byte twice are disjoint, so sorting them makes them orderly.\<close>

lemma orderly_sort:
  assumes "\<And>b. cover rs b \<le> 1" "\<forall>r \<in> set rs. 0 < snd r"
  shows "orderly (sort_key fst rs)"
proof -
  have c: "cover (sort_key fst rs) b \<le> 1" for b using assms(1) cover_mset [of "sort_key fst rs" rs] by simp
  have s: "sorted_wrt (\<lambda>r q. fst r \<le> fst q) (sort_key fst rs)"
    using sorted_sort_key [of fst rs] by (simp add: sorted_wrt_map)
  have pos: "\<forall>r \<in> set (sort_key fst rs). 0 < snd r" using assms(2) by simp
  have "sorted_wrt (\<lambda>r q. fst r + snd r \<le> fst q) qs"
    if "sorted_wrt (\<lambda>r q. fst r \<le> fst q) qs" "\<And>b. cover qs b \<le> 1" "\<forall>r \<in> set qs. 0 < snd r" for qs :: "(nat \<times> nat) list"
    using that
  proof (induction qs)
    case (Cons r qs)
    have "fst r + snd r \<le> fst q" if q: "q \<in> set qs" for q
    proof (rule ccontr)
      assume "\<not> fst r + snd r \<le> fst q"
      moreover have "fst r \<le> fst q" "0 < snd q" using Cons.prems q by auto
      ultimately have "covers r (fst q) = 1" "covers q (fst q) = 1" by (auto simp: covers_def)
      with Cons.prems(2) [of "fst q"] covers_le_cover [OF q, of "fst q"] show False by simp
    qed
    moreover have "cover qs b \<le> 1" for b using Cons.prems(2) [of b] by simp
    ultimately show ?case using Cons by simp
  qed simp
  with c s pos show ?thesis by (simp add: orderly_def)
qed

subsection \<open>The invariant\<close>

definition live :: "(nat \<times> nat, nat \<times> u32) btree \<Rightarrow> nat \<Rightarrow> (nat \<times> nat) list" where
  "live m i = map (\<lambda>((_, offset), (n, _)). (offset, n)) (filter (\<lambda>((page, _), _). page = i) m)"

definition page_wf :: "nat \<Rightarrow> arena_page \<Rightarrow> (nat \<times> nat) list \<Rightarrow> bool" where
  "page_wf alignment page used \<longleftrightarrow> coalesced (pg_free page) \<and>
     (\<forall>b. cover (pg_free page) b + cover used b = (if b < pg_capacity page then 1 else 0)) \<and>
     (\<forall>r \<in> set (pg_free page). alignment dvd fst r) \<and>
     (\<forall>r \<in> set used. 0 < snd r \<and> alignment dvd fst r \<and> alignment dvd snd r)"

definition arena_wf :: "arena \<Rightarrow> bool" where
  "arena_wf ar \<longleftrightarrow> btree_wf (ar_active ar) \<and> 0 < ar_alignment ar \<and> 0 < ar_default_page_size ar \<and>
     (\<forall>i < length (ar_pages ar). page_wf (ar_alignment ar) (ar_pages ar ! i) (live (ar_active ar) i)) \<and>
     (\<forall>k v. btree_get (ar_active ar) k = Some v \<longrightarrow> fst k < length (ar_pages ar)) \<and>
     length (ar_pages ar) \<le> page_limit ar \<and> page_limit ar \<le> u16_max \<and>
     ar_default_page_size ar \<le> u32_max \<and> (\<forall>page \<in> set (ar_pages ar). pg_capacity page \<le> u32_max) \<and>
     (case ar_maximum_capacity ar of None \<Rightarrow> True | Some maximum \<Rightarrow> total_capacity ar \<le> maximum)"

lemma arena_page_wf:
  "arena_wf ar \<Longrightarrow> i < length (ar_pages ar) \<Longrightarrow> page_wf (ar_alignment ar) (ar_pages ar ! i) (live (ar_active ar) i)"
  by (simp add: arena_wf_def)

lemma mset_btree_insert: "btree_get m k = None \<Longrightarrow> mset (btree_insert k v m) = add_mset (k, v) (mset m)"
  by (induction k v m rule: btree_insert.induct) (auto split: if_splits)

lemma mset_btree_remove: "btree_get m k = Some v \<Longrightarrow> mset m = add_mset (k, v) (mset (btree_remove k m))"
  by (induction k m rule: btree_remove.induct) (auto split: if_splits)

lemma mset_live: "mset (live m i) = image_mset (\<lambda>((_, offset), (n, _)). (offset, n)) (filter_mset (\<lambda>((page, _), _). page = i) (mset m))"
  by (simp add: live_def mset_filter)

lemma live_insert:
  assumes "btree_get m (p, off) = None"
  shows "mset (live (btree_insert (p, off) (n, g) m) i) = (if i = p then add_mset (off, n) (mset (live m i)) else mset (live m i))"
  by (simp add: mset_live mset_btree_insert [OF assms])

lemma live_remove:
  assumes "btree_get m (p, off) = Some (n, g)"
  shows "mset (live m i) = (if i = p then add_mset (off, n) (mset (live (btree_remove (p, off) m) i)) else mset (live (btree_remove (p, off) m) i))"
  by (simp add: mset_live mset_btree_remove [OF assms])

lemma page_wf_mset: "mset u = mset u' \<Longrightarrow> page_wf al page u = page_wf al page u'"
proof -
  assume m: "mset u = mset u'"
  then have "set u = set u'" by (rule mset_eq_setD)
  moreover have "cover u b = cover u' b" for b by (rule cover_mset [OF m])
  ultimately show ?thesis by (simp add: page_wf_def)
qed

lemma live_in: "(p, off) = k \<Longrightarrow> btree_wf m \<Longrightarrow> btree_get m k = Some (n, g) \<Longrightarrow> (off, n) \<in> set (live m p)"
  by (force simp: live_def btree_get_iff)

text \<open>Taking a range out of a page for an allocation, and giving it back.\<close>

lemma cover_update:
  "i < length rs \<Longrightarrow> cover (rs[i := r]) b + covers (rs ! i) b = cover rs b + covers r b"
  by (induction rs arbitrary: i) (auto split: nat.split)

lemma cover_delete:
  "i < length rs \<Longrightarrow> cover (take i rs @ drop (Suc i) rs) b + covers (rs ! i) b = cover rs b"
proof (induction rs arbitrary: i)
  case (Cons a rs)
  then show ?case by (cases i) (auto simp: add.assoc)
qed simp

lemma set_delete: "set (take i rs @ drop (Suc i) rs) \<subseteq> set rs"
  using set_take_subset set_drop_subset by fastforce

lemma coalesced_delete: "coalesced rs \<Longrightarrow> coalesced (take i rs @ drop (Suc i) rs)"
proof (induction rs arbitrary: i)
  case (Cons a rs)
  have rs: "coalesced rs" using Cons.prems by (simp add: coalesced_def)
  show ?case
  proof (cases i)
    case (Suc j)
    from Cons.IH [OF rs, of j] Cons.prems Suc show ?thesis
      using set_delete [of j rs] by (auto simp: coalesced_def simp del: set_append)
  qed (use rs in simp)
qed simp

lemma coalesced_shrink:
  assumes "coalesced rs" "i < length rs" "rs ! i = (off, n)" "m < n"
  shows "coalesced (rs[i := (off + m, n - m)])"
  using assms
proof (induction rs arbitrary: i)
  case (Cons a rs)
  show ?case
  proof (cases i)
    case 0
    with Cons.prems show ?thesis by (auto simp: coalesced_def)
  next
    case (Suc j)
    have "coalesced (rs[j := (off + m, n - m)])"
      using Cons.prems Suc by (intro Cons.IH) (auto simp: coalesced_def)
    moreover have "fst a + snd a < fst q" if "q \<in> set (rs[j := (off + m, n - m)])" for q
    proof -
      have "(off, n) \<in> set rs" using Cons.prems Suc by (metis Suc_less_eq length_Cons nth_Cons_Suc nth_mem)
      then have "fst a + snd a < off" using Cons.prems(1) by (auto simp: coalesced_def)
      with that Cons.prems(1) show ?thesis by (auto simp: coalesced_def dest!: set_update_subset_insert [THEN subsetD])
    qed
    ultimately show ?thesis using Cons.prems(1) Suc by (auto simp: coalesced_def)
  qed
qed simp

lemma take_range_wf:
  assumes wf: "page_wf al page used" and t: "take_range n i page = Some (off, page')" and fit: "n \<le> snd (pg_free page ! i)"
    and n: "0 < n" "al dvd n"
  shows "page_wf al page' ((off, n) # used) \<and> pg_capacity page' = pg_capacity page \<and> fst (pg_free page ! i) = off
    \<and> i < length (pg_free page)"
proof -
  obtain fs where f: "pg_free page ! i = (off, fs)" "i < length (pg_free page)"
    using t by (auto simp: take_range_def split: if_splits prod.splits)
  have mem: "(off, fs) \<in> set (pg_free page)" using f by (metis nth_mem)
  have al: "al dvd off" "\<forall>r \<in> set (pg_free page). al dvd fst r" using wf mem by (auto simp: page_wf_def)
  have fs: "n \<le> fs" using fit f by simp
  show ?thesis
  proof (cases "fs = n")
    case True
    then have p': "page' = page\<lparr>pg_free := take i (pg_free page) @ drop (Suc i) (pg_free page)\<rparr>"
      using t f by (simp add: take_range_def)
    have "cover (pg_free page') b + covers (off, n) b = cover (pg_free page) b" for b
      using cover_delete [OF f(2), of b] True f(1) by (simp add: p')
    moreover have "coalesced (pg_free page')" using wf coalesced_delete by (simp add: p' page_wf_def del: cover_simps)
    moreover have "\<forall>r \<in> set (pg_free page'). al dvd fst r" using al(2) set_delete [of i "pg_free page"] unfolding p' by auto
    ultimately show ?thesis using wf f al(1) n by (simp add: page_wf_def p' add.assoc [symmetric])
  next
    case False
    then have p': "page' = page\<lparr>pg_free := (pg_free page)[i := (off + n, fs - n)]\<rparr>"
      using t f by (simp add: take_range_def)
    have sp: "covers (off, fs) b = covers (off, n) b + covers (off + n, fs - n) b" for b
      using covers_split [of off n "fs - n" b] fs by simp
    have "cover (pg_free page') b + covers (off, n) b = cover (pg_free page) b" for b
      using cover_update [OF f(2), of "(off + n, fs - n)" b] sp [of b] f(1) by (simp add: p')
    moreover have "coalesced (pg_free page')"
      using wf coalesced_shrink [OF _ f(2,1), of n] fs False by (simp add: p' page_wf_def)
    moreover have "\<forall>r \<in> set (pg_free page'). al dvd fst r"
      using al n(2) unfolding p' by (auto dest!: set_update_subset_insert [THEN subsetD])
    ultimately show ?thesis using wf f al(1) n by (simp add: page_wf_def p' add.assoc [symmetric])
  qed
qed

lemma give_back_wf:
  assumes wf: "page_wf al page ((off, n) # used)"
  defines "ranges \<equiv> sort_key fst (pg_free page @ [(off, n)])"
  shows "page_wf al (page\<lparr>pg_free := merge_ranges [] ranges\<rparr>) used"
proof -
  have m: "mset ranges = add_mset (off, n) (mset (pg_free page))" by (simp add: ranges_def)
  have cov: "cover ranges b = cover (pg_free page) b + covers (off, n) b" for b
    using cover_mset [of ranges "(off, n) # pg_free page"] m by simp
  have tot: "cover ranges b + cover used b = (if b < pg_capacity page then 1 else 0)" for b
    using wf by (simp add: page_wf_def cov add.assoc)
  have one: "cover (pg_free page @ [(off, n)]) b \<le> 1" for b
    using tot [of b] cov [of b] by (simp split: if_splits)
  have set: "set ranges = insert (off, n) (set (pg_free page))" by (auto simp: ranges_def)
  have pos: "\<forall>r \<in> set (pg_free page @ [(off, n)]). 0 < snd r" using wf by (auto simp: page_wf_def coalesced_def)
  have "orderly ranges" unfolding ranges_def by (rule orderly_sort [OF one pos])
  then have co: "coalesced (merge_ranges [] ranges)" by (intro coalesced_merge) (simp_all add: coalesced_def)
  have fsts: "fst ` set (merge_ranges ms rs) \<subseteq> fst ` set ms \<union> fst ` set rs" for ms rs
  proof (induction ms rs rule: merge_ranges.induct)
    case (2 ms o1 s1 rs)
    show ?case
    proof (cases "ms \<noteq> [] \<and> fst (last ms) + snd (last ms) = o1")
      case True
      then obtain qs l where "ms = qs @ [l]" by (metis rev_exhaust)
      with 2 True show ?thesis by auto
    next
      case False
      then have "merge_ranges ms ((o1, s1) # rs) = merge_ranges (ms @ [(o1, s1)]) rs" by auto
      with "2.IH"(2) [OF False] show ?thesis by auto
    qed
  qed simp
  have "\<forall>x \<in> fst ` set ranges. al dvd x" using wf set by (auto simp: page_wf_def)
  then have "\<forall>r \<in> set (merge_ranges [] ranges). al dvd fst r" using fsts [of "[]" ranges] by fastforce
  with co tot wf show ?thesis by (simp add: page_wf_def cover_merge)
qed

subsection \<open>Best fit\<close>

lemma fold_better_None [simp]: "fold better xs b = None \<longleftrightarrow> xs = [] \<and> b = None"
proof (induction xs arbitrary: b)
  case (Cons x xs)
  have "better x b \<noteq> None" by (auto simp: better_def split: option.split)
  with Cons show ?case by simp
qed simp

lemma better_Some:
  "\<exists>d. better x b = Some d \<and> d \<le> x \<and> (\<forall>e. b = Some e \<longrightarrow> d \<le> e) \<and> (d = x \<or> b = Some d)"
  by (cases b) (auto simp: better_def)

lemma fold_better_Some:
  "fold better xs b = Some c \<Longrightarrow> (c \<in> set xs \<or> b = Some c) \<and> (\<forall>x \<in> set xs. c \<le> x) \<and> (\<forall>d. b = Some d \<longrightarrow> c \<le> d)"
proof (induction xs arbitrary: b)
  case (Cons x xs)
  obtain d where d: "better x b = Some d" "d \<le> x" "\<forall>e. b = Some e \<longrightarrow> d \<le> e" "d = x \<or> b = Some d"
    using better_Some [of x b] by blast
  have f: "fold better xs (Some d) = Some c" using Cons.prems d(1) by simp
  from Cons.IH [OF f] have ih: "c \<in> set xs \<or> d = c" "\<forall>x \<in> set xs. c \<le> x" "c \<le> d" by auto
  with d show ?case by fastforce
qed simp

definition fits :: "arena \<Rightarrow> nat \<Rightarrow> nat \<Rightarrow> nat \<Rightarrow> bool" where
  "fits ar sz p r \<longleftrightarrow> p < length (ar_pages ar) \<and> r < length (pg_free (ar_pages ar ! p)) \<and> sz \<le> snd (pg_free (ar_pages ar ! p) ! r)"

lemma bex_enumerate: "(\<exists>x \<in> set (enumerate 0 xs). P (fst x) (snd x)) \<longleftrightarrow> (\<exists>i < length xs. P i (xs ! i))"
proof
  assume "\<exists>i < length xs. P i (xs ! i)"
  then obtain i where "i < length xs" "P i (xs ! i)" by blast
  then show "\<exists>x \<in> set (enumerate 0 xs). P (fst x) (snd x)"
    by (intro bexI [of _ "(i, xs ! i)"]) (simp_all add: in_set_enumerate_eq)
qed (auto simp: in_set_enumerate_eq)

lemma in_page_ranges:
  "(w, q, r) \<in> set (page_ranges p page sz) \<longleftrightarrow>
   q = p \<and> r < length (pg_free page) \<and> sz \<le> snd (pg_free page ! r) \<and> w = snd (pg_free page ! r) - sz"
proof -
  have "(w, q, r) \<in> set (page_ranges p page sz) \<longleftrightarrow>
      (\<exists>x \<in> set (enumerate 0 (pg_free page)). sz \<le> snd (snd x) \<and> w = snd (snd x) - sz \<and> q = p \<and> r = fst x)"
    unfolding page_ranges_def by (force simp: split_beta)
  also have "\<dots> \<longleftrightarrow> q = p \<and> r < length (pg_free page) \<and> sz \<le> snd (pg_free page ! r) \<and> w = snd (pg_free page ! r) - sz"
    unfolding bex_enumerate [where P = "\<lambda>a b. sz \<le> snd b \<and> w = snd b - sz \<and> q = p \<and> r = a"] by blast
  finally show ?thesis .
qed

lemma best_fit_candidates:
  "(w, p, r) \<in> set (concat (map (\<lambda>(i, page). page_ranges i page sz) (enumerate 0 (ar_pages ar)))) \<longleftrightarrow>
   fits ar sz p r \<and> w = snd (pg_free (ar_pages ar ! p) ! r) - sz"
proof -
  have "(w, p, r) \<in> set (concat (map (\<lambda>(i, page). page_ranges i page sz) (enumerate 0 (ar_pages ar)))) \<longleftrightarrow>
      (\<exists>x \<in> set (enumerate 0 (ar_pages ar)). (w, p, r) \<in> set (page_ranges (fst x) (snd x) sz))"
    by (simp add: split_beta)
  also have "\<dots> \<longleftrightarrow> fits ar sz p r \<and> w = snd (pg_free (ar_pages ar ! p) ! r) - sz"
    unfolding in_page_ranges fits_def
      bex_enumerate [where P = "\<lambda>a b. p = a \<and> r < length (pg_free b) \<and> sz \<le> snd (pg_free b ! r) \<and> w = snd (pg_free b ! r) - sz"]
    by blast
  finally show ?thesis .
qed

lemma best_fit_None: "best_fit ar sz = None \<longleftrightarrow> (\<forall>p r. \<not> fits ar sz p r)"
proof -
  have "best_fit ar sz = None \<longleftrightarrow> set (concat (map (\<lambda>(i, page). page_ranges i page sz) (enumerate 0 (ar_pages ar)))) = {}"
    unfolding best_fit_def fold_better_None set_empty by simp
  also have "\<dots> \<longleftrightarrow> (\<forall>w p r. (w, p, r) \<notin> set (concat (map (\<lambda>(i, page). page_ranges i page sz) (enumerate 0 (ar_pages ar)))))"
    by (metis (no_types, lifting) all_not_in_conv prod_cases3)
  finally show ?thesis unfolding best_fit_candidates by blast
qed

lemma best_fit_Some:
  assumes "best_fit ar sz = Some (w, p, r)"
  shows "fits ar sz p r" and "fits ar sz q t \<Longrightarrow> snd (pg_free (ar_pages ar ! p) ! r) \<le> snd (pg_free (ar_pages ar ! q) ! t)"
proof -
  note b = fold_better_Some [OF assms [unfolded best_fit_def]]
  then show "fits ar sz p r" using best_fit_candidates by blast
  assume f: "fits ar sz q t"
  from b have w: "w = snd (pg_free (ar_pages ar ! p) ! r) - sz" "fits ar sz p r" using best_fit_candidates by blast+
  have "(w, p, r) \<le> (snd (pg_free (ar_pages ar ! q) ! t) - sz, q, t)"
    using b f best_fit_candidates by blast
  with w f show "snd (pg_free (ar_pages ar ! p) ! r) \<le> snd (pg_free (ar_pages ar ! q) ! t)"
    by (auto simp: fits_def)
qed

lemma align_up_spec:
  assumes "align_up v al = Some n" "0 < al"
  shows "al dvd n" "v \<le> n" "n < v + al"
proof -
  have "al dvd n \<and> v \<le> n \<and> n < v + al"
  proof (cases "v mod al = 0")
    case True
    with assms show ?thesis by (auto simp: align_up_def)
  next
    case False
    have lt: "v mod al < al" using assms(2) by simp
    have n: "n = v + (al - v mod al)" using assms(1) False by (simp add: align_up_def Let_def u32_checked_add_def split: if_splits)
    have "v = al * (v div al) + v mod al" by simp
    with lt have "n = al * (v div al) + al" unfolding n by linarith
    then have "al dvd n" by simp
    moreover have "0 < v mod al" using False by simp
    ultimately show ?thesis using n lt by linarith
  qed
  then show "al dvd n" "v \<le> n" "n < v + al" by auto
qed

subsection \<open>Canonical free lists\<close>

lemma cover_pos: "0 < cover rs b \<longleftrightarrow> (\<exists>r \<in> set rs. fst r \<le> b \<and> b < fst r + snd r)"
  by (induction rs) (auto simp: covers_def)

lemma coalesced_Cons:
  "coalesced (r # rs) \<longleftrightarrow> coalesced rs \<and> 0 < snd r \<and> (\<forall>q \<in> set rs. fst r + snd r < fst q)"
  by (auto simp: coalesced_def)

lemma coalesced_head:
  assumes c: "coalesced (r # rs)" and d: "coalesced (q # qs)" and le: "\<And>b. 0 < cover (r # rs) b \<Longrightarrow> 0 < cover (q # qs) b"
  shows "fst q \<le> fst r" and "fst q = fst r \<Longrightarrow> snd r \<le> snd q"
proof -
  have "0 < cover (r # rs) (fst r)" using c by (simp add: coalesced_Cons covers_def)
  from le [OF this] show "fst q \<le> fst r" using d unfolding cover_pos by (fastforce simp: coalesced_Cons)
  assume eq: "fst q = fst r"
  show "snd r \<le> snd q"
  proof (rule ccontr)
    assume "\<not> snd r \<le> snd q"
    then have "0 < cover (r # rs) (fst r + snd q)" by (simp add: covers_def)
    from le [OF this] eq d show False unfolding cover_pos by (fastforce simp: coalesced_Cons)
  qed
qed

text \<open>A coalesced list is determined by the bytes it covers.\<close>

lemma coalesced_unique:
  "coalesced rs \<Longrightarrow> coalesced qs \<Longrightarrow> (\<And>b. cover rs b = cover qs b) \<Longrightarrow> rs = qs"
proof (induction rs arbitrary: qs)
  case Nil
  show ?case
  proof (cases qs)
    case (Cons q qs')
    with Nil.prems(2) have "0 < cover qs (fst q)" by (simp add: coalesced_Cons covers_def)
    with Nil.prems(3) [of "fst q"] show ?thesis by simp
  qed simp
next
  case (Cons r rs)
  show ?case
  proof (cases qs)
    case Nil
    with Cons.prems(1) have "0 < cover (r # rs) (fst r)" by (simp add: coalesced_Cons covers_def)
    with Cons.prems(3) [of "fst r"] Nil show ?thesis by simp
  next
    case (Cons q qs')
    have a: "0 < cover (r # rs) b \<longleftrightarrow> 0 < cover (q # qs') b" for b using Cons.prems(3) [of b] Cons by simp
    note h = coalesced_head [OF Cons.prems(1) Cons.prems(2) [unfolded Cons]]
      coalesced_head [OF Cons.prems(2) [unfolded Cons] Cons.prems(1)]
    have f: "fst q = fst r" using h(1,3) a by (metis le_antisym)
    then have "snd q = snd r" using h(2,4) a by (metis le_antisym)
    with f have rq: "q = r" by (simp add: prod_eq_iff)
    have "rs = qs'"
      using Cons.prems Cons rq by (intro Cons.IH) (auto simp: coalesced_Cons)
    with rq Cons show ?thesis by simp
  qed
qed

subsection \<open>Allocation keeps the invariant\<close>

lemma page_capacity_bounds:
  assumes "sz \<le> u32_max" "d \<le> u32_max"
  shows "sz \<le> page_capacity d sz" and "page_capacity d sz \<le> u32_max"
proof -
  have "sz \<le> 2 ^ k \<and> (2 :: nat) ^ k \<le> 2 ^ 31" if "List.find (\<lambda>k. sz \<le> 2 ^ k) [0..<32] = Some k" for k
  proof -
    from that have "k \<le> 31" "sz \<le> 2 ^ k" by (auto simp: find_Some_iff)
    then show ?thesis using power_increasing [of k 31 "2 :: nat"] by simp
  qed
  then have "sz \<le> page_capacity d sz \<and> page_capacity d sz \<le> u32_max"
    using assms unfolding page_capacity_def checked_next_power_of_two_def
    by (cases "List.find (\<lambda>k. sz \<le> 2 ^ k) [0..<32]") fastforce+
  then show "sz \<le> page_capacity d sz" "page_capacity d sz \<le> u32_max" by auto
qed

lemma live_out: "btree_wf m \<Longrightarrow> (\<And>k v. btree_get m k = Some v \<Longrightarrow> fst k < n) \<Longrightarrow> live m n = []"
  by (force simp: live_def filter_empty_conv btree_get_iff)

lemma total_capacity_bound:
  assumes "arena_wf ar"
  shows "total_capacity ar \<le> u16_max * u32_max"
proof -
  have "sum_list (map pg_capacity ps) \<le> length ps * u32_max" if "\<forall>page \<in> set ps. pg_capacity page \<le> u32_max" for ps
    using that by (induction ps) auto
  then have "total_capacity ar \<le> length (ar_pages ar) * u32_max" using assms by (auto simp: arena_wf_def total_capacity_def)
  also have "\<dots> \<le> u16_max * u32_max" using assms by (intro mult_le_mono1) (auto simp: arena_wf_def)
  finally show ?thesis .
qed

lemma grow_wf:
  assumes wf: "arena_wf ar" and sz: "sz \<le> u32_max" and room: "length (ar_pages ar) < page_limit ar"
    and may: "may_grow ar (page_capacity (ar_default_page_size ar) sz)"
  defines "cap \<equiv> page_capacity (ar_default_page_size ar) sz"
  defines "ar' \<equiv> ar\<lparr>ar_pages := ar_pages ar @ [\<lparr>pg_capacity = cap, pg_free = [(0, cap)]\<rparr>]\<rparr>"
  shows "arena_wf ar'"
proof -
  have cap: "0 < cap" "cap \<le> u32_max"
    using wf page_capacity_bounds [OF sz, of "ar_default_page_size ar"]
    by (auto simp: cap_def arena_wf_def page_capacity_def)
  have new: "live (ar_active ar) (length (ar_pages ar)) = []"
    using wf by (intro live_out) (auto simp: arena_wf_def)
  have "page_wf (ar_alignment ar) \<lparr>pg_capacity = cap, pg_free = [(0, cap)]\<rparr> []"
    using cap by (auto simp: page_wf_def coalesced_def covers_def)
  then have pages: "\<forall>i < length (ar_pages ar'). page_wf (ar_alignment ar) (ar_pages ar' ! i) (live (ar_active ar) i)"
    using wf new by (auto simp: ar'_def arena_wf_def nth_append less_Suc_eq)
  have "total_capacity ar + cap \<le> u64_max" using total_capacity_bound [OF wf] cap(2) by simp
  then have "case ar_maximum_capacity ar of None \<Rightarrow> True | Some maximum \<Rightarrow> total_capacity ar' \<le> maximum"
    using may by (auto simp: may_grow_def u64_saturating_add_def cap_def [symmetric] total_capacity_def ar'_def split: option.splits)
  with pages wf cap room show ?thesis
    unfolding arena_wf_def by (auto simp: ar'_def page_limit_def split: option.splits)
qed

text \<open>The two ways \<open>allocate\<close> finds a range.\<close>

lemma find_range_cases:
  assumes "find_range sz ar = Some (p, r, ar')"
  shows "(ar' = ar \<and> fits ar sz p r \<and> (\<forall>q t. fits ar sz q t \<longrightarrow>
        snd (pg_free (ar_pages ar ! p) ! r) \<le> snd (pg_free (ar_pages ar ! q) ! t)))
    \<or> ((\<forall>q t. \<not> fits ar sz q t) \<and> p = length (ar_pages ar) \<and> r = 0 \<and> length (ar_pages ar) < page_limit ar
       \<and> may_grow ar (page_capacity (ar_default_page_size ar) sz)
       \<and> ar' = ar\<lparr>ar_pages := ar_pages ar @ [\<lparr>pg_capacity = page_capacity (ar_default_page_size ar) sz,
             pg_free = [(0, page_capacity (ar_default_page_size ar) sz)]\<rparr>]\<rparr>)"
proof (cases "best_fit ar sz")
  case None
  with assms best_fit_None [of ar sz] show ?thesis
    by (auto simp: find_range_def Let_def split: if_splits)
next
  case (Some c)
  obtain w where "c = (w, p, r)" "ar' = ar" using assms Some by (cases c) (auto simp: find_range_def)
  with Some best_fit_Some [of ar sz w p r] show ?thesis by blast
qed

lemma page_limit_pages [simp]: "page_limit (ar\<lparr>ar_pages := ps\<rparr>) = page_limit ar"
  by (simp add: page_limit_def)

lemma sum_list_update_capacity:
  "p < length ps \<Longrightarrow> pg_capacity page' = pg_capacity (ps ! p) \<Longrightarrow>
   map pg_capacity (ps[p := page']) = map pg_capacity ps"
  by (metis list_update_id map_update)

text \<open>
  One page after taking a range: the allocation is recorded at a key that was free, and the page
  stays well formed.
\<close>

lemma allocate_step:
  fixes g g' :: u32
  assumes wf: "arena_wf ar" and f: "fits ar sz p r" and sz: "0 < sz" "ar_alignment ar dvd sz"
    and t: "take_range sz r (ar_pages ar ! p) = Some (off, page')"
  defines "ar' \<equiv> ar\<lparr>ar_pages := (ar_pages ar)[p := page'], ar_next_generation := g',
      ar_active := btree_insert (p, off) (sz, g) (ar_active ar)\<rparr>"
  shows "arena_wf ar' \<and> btree_get (ar_active ar) (p, off) = None \<and> off = fst (pg_free (ar_pages ar ! p) ! r) \<and>
    ar_alignment ar dvd off \<and> (\<forall>b. cover (pg_free page') b + covers (off, sz) b = cover (pg_free (ar_pages ar ! p)) b)"
proof -
  let ?page = "ar_pages ar ! p" and ?used = "live (ar_active ar) p"
  have p: "p < length (ar_pages ar)" "r < length (pg_free ?page)" "sz \<le> snd (pg_free ?page ! r)" using f by (auto simp: fits_def)
  have pw: "page_wf (ar_alignment ar) ?page ?used" using wf p(1) by (simp add: arena_wf_def)
  note tk = take_range_wf [OF pw t p(3) sz]
  have w: "btree_wf (ar_active ar)" using wf by (simp add: arena_wf_def)
  have mem: "(off, snd (pg_free ?page ! r)) \<in> set (pg_free ?page)" using tk p(2) by (metis nth_mem prod.collapse)
  have none: "btree_get (ar_active ar) (p, off) = None"
  proof (rule ccontr)
    assume "btree_get (ar_active ar) (p, off) \<noteq> None"
    then obtain n h where "btree_get (ar_active ar) (p, off) = Some (n, h)" by auto
    from live_in [OF refl w this] have "(off, n) \<in> set ?used" .
    moreover from this have "0 < n" using pw by (auto simp: page_wf_def)
    ultimately have "0 < cover ?used off" by (auto simp: cover_pos intro: bexI [of _ "(off, n)"])
    moreover have "0 < cover (pg_free ?page) off"
      unfolding cover_pos using mem p(3) sz(1) by (intro bexI [of _ "(off, snd (pg_free ?page ! r))"]) auto
    moreover have "cover (pg_free ?page) off + cover ?used off \<le> 1" using pw by (simp add: page_wf_def)
    ultimately show False by linarith
  qed
  have li: "mset (live (ar_active ar') i) = (if i = p then add_mset (off, sz) (mset (live (ar_active ar) i)) else mset (live (ar_active ar) i))" for i
    unfolding ar'_def using live_insert [OF none] by simp
  have pages: "page_wf (ar_alignment ar) (ar_pages ar' ! i) (live (ar_active ar') i)" if "i < length (ar_pages ar)" for i
  proof (cases "i = p")
    case True
    have "mset (live (ar_active ar') p) = mset ((off, sz) # ?used)" using li [of p] by simp
    from page_wf_mset [OF this] tk True p(1) show ?thesis by (simp add: ar'_def)
  next
    case False
    have "mset (live (ar_active ar') i) = mset (live (ar_active ar) i)" using li [of i] False by simp
    from page_wf_mset [OF this] wf that False show ?thesis by (simp add: ar'_def arena_wf_def)
  qed
  have caps: "map pg_capacity (ar_pages ar') = map pg_capacity (ar_pages ar)"
    using sum_list_update_capacity [OF p(1)] tk by (simp add: ar'_def)
  then have "pg_capacity ` set (ar_pages ar') = pg_capacity ` set (ar_pages ar)" by (metis list.set_map)
  then have capb: "\<forall>page \<in> set (ar_pages ar'). pg_capacity page \<le> u32_max" using wf unfolding arena_wf_def by (metis image_iff)
  have "arena_wf ar'"
    using wf pages caps capb p(1) unfolding arena_wf_def
    by (auto simp: ar'_def page_limit_def total_capacity_def split: option.splits if_splits)
  moreover have "cover (pg_free page') b + covers (off, sz) b = cover (pg_free ?page) b" for b
  proof -
    have "cover (pg_free page') b + (covers (off, sz) b + cover ?used b) = cover (pg_free ?page) b + cover ?used b"
      using tk pw by (simp add: page_wf_def)
    then show ?thesis by simp
  qed
  moreover have "ar_alignment ar dvd off" using pw mem by (force simp: page_wf_def)
  ultimately show ?thesis using none tk by simp
qed

text \<open>The arena \<open>allocate\<close> serves from: its own, or its own with a new page.\<close>

definition served_from :: "arena \<Rightarrow> nat \<Rightarrow> arena" where
  "served_from ar sz =
     (if \<exists>p r. fits ar sz p r then ar
      else ar\<lparr>ar_pages := ar_pages ar @ [\<lparr>pg_capacity = page_capacity (ar_default_page_size ar) sz,
             pg_free = [(0, page_capacity (ar_default_page_size ar) sz)]\<rparr>]\<rparr>)"

lemma align_up_le: "align_up v al = Some n \<Longrightarrow> v \<le> u32_max \<Longrightarrow> n \<le> u32_max"
  by (auto simp: align_up_def Let_def u32_checked_add_def split: if_splits)

lemma allocate_spec:
  assumes wf: "arena_wf ar" and n: "n \<le> u32_max" and a: "allocate n ar = Some (a, ar')"
  defines "base \<equiv> served_from ar (al_size a)"
  shows "arena_wf base \<and> arena_wf ar' \<and> align_up n (ar_alignment ar) = Some (al_size a) \<and> 0 < n \<and>
    (\<exists>r. fits base (al_size a) (al_page a) r \<and> fst (pg_free (ar_pages base ! al_page a) ! r) = al_offset a \<and>
      (\<forall>q t. fits base (al_size a) q t \<longrightarrow>
         snd (pg_free (ar_pages base ! al_page a) ! r) \<le> snd (pg_free (ar_pages base ! q) ! t))) \<and>
    ar_alignment ar dvd al_offset a \<and> al_generation a = ar_next_generation ar \<and>
    btree_get (ar_active ar) (al_page a, al_offset a) = None \<and>
    (\<exists>page'. ar' = base\<lparr>ar_pages := (ar_pages base)[al_page a := page'],
        ar_next_generation := wrapping_generation (ar_next_generation ar),
        ar_active := btree_insert (al_page a, al_offset a) (al_size a, al_generation a) (ar_active ar)\<rparr> \<and>
      pg_capacity page' = pg_capacity (ar_pages base ! al_page a) \<and>
      (\<forall>b. cover (pg_free page') b + covers (al_offset a, al_size a) b = cover (pg_free (ar_pages base ! al_page a)) b))"
proof -
  from a obtain sz p r ar1 off page' where s: "n \<noteq> 0" "align_up n (ar_alignment ar) = Some sz"
    "find_range sz ar = Some (p, r, ar1)" "p < length (ar_pages ar1)" "take_range sz r (ar_pages ar1 ! p) = Some (off, page')"
    "a = \<lparr>al_page = p, al_offset = off, al_size = sz, al_generation = ar_next_generation ar1\<rparr>"
    "ar' = ar1\<lparr>ar_pages := (ar_pages ar1)[p := page'], ar_next_generation := wrapping_generation (ar_next_generation ar1),
        ar_active := btree_insert (p, off) (sz, ar_next_generation ar1) (ar_active ar1)\<rparr>"
    by (auto simp: allocate_def Let_def bind_eq_Some_conv split: if_splits)
  have al: "0 < ar_alignment ar" using wf by (simp add: arena_wf_def)
  note sz = align_up_spec [OF s(2) al] and szm = align_up_le [OF s(2) n]
  have szp: "0 < sz" using sz s(1) by linarith
  have base: "base = ar1 \<and> arena_wf ar1 \<and> fits ar1 sz p r \<and> ar_active ar1 = ar_active ar \<and> ar_alignment ar1 = ar_alignment ar
      \<and> ar_next_generation ar1 = ar_next_generation ar \<and>
      (\<forall>q t. fits ar1 sz q t \<longrightarrow> snd (pg_free (ar_pages ar1 ! p) ! r) \<le> snd (pg_free (ar_pages ar1 ! q) ! t))"
    using find_range_cases [OF s(3)]
  proof
    assume c: "ar1 = ar \<and> fits ar sz p r \<and> (\<forall>q t. fits ar sz q t \<longrightarrow>
        snd (pg_free (ar_pages ar ! p) ! r) \<le> snd (pg_free (ar_pages ar ! q) ! t))"
    then have "base = ar" by (auto simp: base_def served_from_def s(6))
    with c wf show ?thesis by simp
  next
    let ?cap = "page_capacity (ar_default_page_size ar) sz"
    assume c: "(\<forall>q t. \<not> fits ar sz q t) \<and> p = length (ar_pages ar) \<and> r = 0 \<and> length (ar_pages ar) < page_limit ar
       \<and> may_grow ar ?cap \<and> ar1 = ar\<lparr>ar_pages := ar_pages ar @ [\<lparr>pg_capacity = ?cap, pg_free = [(0, ?cap)]\<rparr>]\<rparr>"
    then have "base = ar1" by (auto simp: base_def served_from_def s(6))
    moreover have "arena_wf ar1" using grow_wf [OF wf szm] c by simp
    moreover have "sz \<le> ?cap" using wf szm by (intro page_capacity_bounds) (simp_all add: arena_wf_def)
    moreover have "fits ar1 sz q t \<longleftrightarrow> q = p \<and> t = r \<and> sz \<le> ?cap" for q t
      using c by (auto simp: fits_def nth_append less_Suc_eq)
    ultimately show ?thesis using c by auto
  qed
  have dv: "ar_alignment ar1 dvd sz" using base sz(1) by simp
  note st = allocate_step [OF _ _ szp dv s(5), of "ar_next_generation ar1" "wrapping_generation (ar_next_generation ar1)"]
  have b1: "arena_wf ar1" "fits ar1 sz p r" using base by auto
  note st = st [OF b1]
  have tk: "pg_capacity page' = pg_capacity (ar_pages ar1 ! p)"
    using s(5) by (auto simp: take_range_def Let_def split: if_splits prod.splits)
  show ?thesis
    using st base s(1,2) tk unfolding s(6,7) by auto
qed

lemma free_refused:
  "btree_get (ar_active ar) (al_page a, al_offset a) \<noteq> Some (al_size a, al_generation a) \<Longrightarrow> arena_free a ar = (False, ar)"
  by (simp add: arena_free_def Let_def)

lemma free_spec:
  assumes wf: "arena_wf ar" and l: "btree_get (ar_active ar) (al_page a, al_offset a) = Some (al_size a, al_generation a)"
  shows "\<exists>ar' page'. arena_free a ar = (True, ar') \<and> arena_wf ar' \<and> al_page a < length (ar_pages ar) \<and>
    ar' = ar\<lparr>ar_active := btree_remove (al_page a, al_offset a) (ar_active ar), ar_pages := (ar_pages ar)[al_page a := page']\<rparr> \<and>
    coalesced (pg_free page') \<and> pg_capacity page' = pg_capacity (ar_pages ar ! al_page a) \<and>
    (\<forall>b. cover (pg_free page') b = cover (pg_free (ar_pages ar ! al_page a)) b + covers (al_offset a, al_size a) b)"
proof -
  let ?p = "al_page a" and ?off = "al_offset a" and ?n = "al_size a"
  let ?page = "ar_pages ar ! al_page a"
  let ?m = "btree_remove (?p, ?off) (ar_active ar)"
  define page' where "page' = ?page\<lparr>pg_free := merge_ranges [] (sort_key fst (pg_free ?page @ [(?off, ?n)]))\<rparr>"
  define ar' where "ar' = ar\<lparr>ar_active := ?m, ar_pages := (ar_pages ar)[?p := page']\<rparr>"
  have w: "btree_wf (ar_active ar)" using wf by (simp add: arena_wf_def)
  have p: "?p < length (ar_pages ar)" using wf l by (fastforce simp: arena_wf_def)
  have fr: "arena_free a ar = (True, ar')"
    using l p by (simp add: arena_free_def Let_def ar'_def page'_def)
  have li: "mset (live (ar_active ar) i) = (if i = ?p then add_mset (?off, ?n) (mset (live ?m i)) else mset (live ?m i))" for i
    by (rule live_remove [OF l])
  have pw: "page_wf (ar_alignment ar) ?page ((?off, ?n) # live ?m ?p)"
  proof -
    have "mset (live (ar_active ar) ?p) = mset ((?off, ?n) # live ?m ?p)" using li [of ?p] by simp
    moreover have "page_wf (ar_alignment ar) ?page (live (ar_active ar) ?p)" using wf p by (simp add: arena_wf_def)
    ultimately show ?thesis using page_wf_mset by blast
  qed
  have pw': "page_wf (ar_alignment ar) page' (live ?m ?p)" unfolding page'_def by (rule give_back_wf [OF pw])
  have pages: "page_wf (ar_alignment ar) (ar_pages ar' ! i) (live ?m i)" if "i < length (ar_pages ar)" for i
  proof (cases "i = ?p")
    case False
    have "mset (live (ar_active ar) i) = mset (live ?m i)" using li [of i] False by simp
    from page_wf_mset [OF this] arena_page_wf [OF wf that] False show ?thesis by (simp add: ar'_def)
  qed (use pw' p in \<open>simp add: ar'_def\<close>)
  have cap': "pg_capacity page' = pg_capacity ?page" by (simp add: page'_def)
  have caps: "map pg_capacity (ar_pages ar') = map pg_capacity (ar_pages ar)"
    using sum_list_update_capacity [OF p cap'] by (simp add: ar'_def)
  then have "pg_capacity ` set (ar_pages ar') = pg_capacity ` set (ar_pages ar)" by (metis list.set_map)
  then have capb: "\<forall>page \<in> set (ar_pages ar'). pg_capacity page \<le> u32_max" using wf unfolding arena_wf_def by (metis image_iff)
  have wf': "arena_wf ar'"
    using wf pages caps capb w unfolding arena_wf_def
    by (auto simp: ar'_def page_limit_def total_capacity_def btree_get_remove split: option.splits if_splits)
  have "cover (pg_free page') b = cover (pg_free ?page) b + covers (?off, ?n) b" for b
  proof -
    have "cover (pg_free page') b + cover (live ?m ?p) b = cover (pg_free ?page) b + (covers (?off, ?n) b + cover (live ?m ?p) b)"
      using pw pw' by (simp add: page_wf_def cap')
    then show ?thesis by simp
  qed
  moreover have "coalesced (pg_free page')" using pw' by (simp add: page_wf_def)
  ultimately show ?thesis using fr wf' p cap' unfolding ar'_def by blast
qed

subsection \<open>Reachable arenas\<close>

datatype arena_op = AllocateOp nat | FreeOp allocation

fun arena_apply :: "arena_op \<Rightarrow> arena \<Rightarrow> arena" where
  "arena_apply (AllocateOp n) ar = (case allocate n ar of None \<Rightarrow> ar | Some (_, ar') \<Rightarrow> ar')"
| "arena_apply (FreeOp a) ar = snd (arena_free a ar)"

definition arena_op_ok :: "arena_op \<Rightarrow> bool" where
  "arena_op_ok op \<longleftrightarrow> (case op of AllocateOp n \<Rightarrow> n \<le> u32_max | FreeOp _ \<Rightarrow> True)"

definition arena_start :: "nat \<Rightarrow> nat \<Rightarrow> arena \<Rightarrow> bool" where
  "arena_start d al ar \<longleftrightarrow> d \<le> u32_max \<and> (ar = arena_new d al \<or> (\<exists>c p. arena_new_bounded d al c p = Some ar))"

lemma arena_start_wf: "arena_start d al ar \<Longrightarrow> arena_wf ar"
  by (auto simp: arena_start_def arena_new_def arena_new_bounded_def arena_wf_def page_limit_def total_capacity_def
      split: if_splits)

lemma arena_apply_wf:
  assumes "arena_wf ar" "arena_op_ok op"
  shows "arena_wf (arena_apply op ar)"
proof (cases op)
  case (AllocateOp n)
  with assms allocate_spec [OF assms(1), of n] show ?thesis
    by (auto simp: arena_op_ok_def split: option.splits)
next
  case (FreeOp a)
  show ?thesis
  proof (cases "btree_get (ar_active ar) (al_page a, al_offset a) = Some (al_size a, al_generation a)")
    case True
    with free_spec [OF assms(1)] FreeOp show ?thesis by fastforce
  qed (use FreeOp assms(1) free_refused in auto)
qed

interpretation arena: transition_invariant
  "\<lambda>ar. \<exists>d al. arena_start d al ar" "\<lambda>ar ar'. \<exists>op. arena_op_ok op \<and> ar' = arena_apply op ar" arena_wf
  by unfold_locales (auto intro: arena_start_wf arena_apply_wf)

definition arena_step :: "arena \<Rightarrow> arena \<Rightarrow> bool" where
  "arena_step ar ar' \<longleftrightarrow> (\<exists>op. arena_op_ok op \<and> ar' = arena_apply op ar)"

lemma arena_reach_wf: "arena_start d al ar0 \<Longrightarrow> arena_step\<^sup>*\<^sup>* ar0 ar \<Longrightarrow> arena_wf ar"
  using arena.reachable_inv [of ar0 ar] unfolding arena_step_def by blast

text \<open>Bytes and sizes.\<close>

lemma covers_sum: "fst r + snd r \<le> n \<Longrightarrow> (\<Sum>b<n. covers r b) = snd r"
proof -
  assume "fst r + snd r \<le> n"
  then have "{b \<in> {..<n}. fst r \<le> b \<and> b < fst r + snd r} = {fst r..<fst r + snd r}" by auto
  moreover have "(\<Sum>b<n. covers r b) = card {b \<in> {..<n}. fst r \<le> b \<and> b < fst r + snd r}"
    unfolding covers_def by (simp add: sum.If_cases Int_def)
  ultimately show ?thesis by simp
qed

lemma cover_sum: "\<forall>r \<in> set rs. fst r + snd r \<le> n \<Longrightarrow> (\<Sum>b<n. cover rs b) = sum_list (map snd rs)"
  by (induction rs) (simp_all add: sum.distrib covers_sum)

lemma page_bytes:
  assumes "page_wf al page used"
  shows "sum_list (map snd (pg_free page)) + sum_list (map snd used) = pg_capacity page"
proof -
  let ?n = "pg_capacity page"
  have tot: "cover (pg_free page @ used) b = (if b < ?n then 1 else 0)" for b using assms by (simp add: page_wf_def)
  have inside: "\<forall>r \<in> set (pg_free page @ used). fst r + snd r \<le> ?n"
  proof (rule ballI, rule ccontr)
    fix r assume r: "r \<in> set (pg_free page @ used)" and "\<not> fst r + snd r \<le> ?n"
    moreover have "0 < snd r" using r assms by (auto simp: page_wf_def coalesced_def)
    ultimately have "0 < cover (pg_free page @ used) (max ?n (fst r))"
      unfolding cover_pos by (intro bexI [OF _ r]) auto
    with tot [of "max ?n (fst r)"] show False by simp
  qed
  have "sum_list (map snd (pg_free page @ used)) = (\<Sum>b<?n. cover (pg_free page @ used) b)"
    by (rule cover_sum [OF inside, symmetric])
  also have "\<dots> = (\<Sum>b<?n. 1)" by (rule sum.cong [OF refl]) (use tot in \<open>simp del: cover_simps\<close>)
  finally show ?thesis by simp
qed

lemma live_total:
  assumes "\<forall>x \<in> set m. fst (fst x) < n"
  shows "(\<Sum>i<n. sum_list (map snd (live m i))) = sum_list (map (fst \<circ> snd) m)"
  using assms
proof (induction m)
  case (Cons x m)
  obtain p off sz g where x: "x = ((p, off), (sz, g))" by (metis prod.collapse)
  have "sum_list (map snd (live (x # m) i)) = (if i = p then sz else 0) + sum_list (map snd (live m i))" for i
    by (simp add: live_def x)
  then have "(\<Sum>i<n. sum_list (map snd (live (x # m) i))) = (\<Sum>i<n. if i = p then sz else 0) + (\<Sum>i<n. sum_list (map snd (live m i)))"
    by (simp add: sum.distrib)
  also have "(\<Sum>i<n. if i = p then sz else 0) = sz" using Cons.prems by (simp add: x)
  finally show ?case using Cons by (simp add: x)
qed (simp add: live_def)

lemma fold_max_largest: "fold max xs a = Max (insert a (set xs))" for a :: nat
  by (simp add: Max.set_eq_fold [symmetric])

text \<open>The statistics in terms of the arena: every byte of a page is either free or in a live allocation.\<close>

lemma stats_exact:
  assumes "arena_wf ar"
  shows "as_pages (arena_stats_of ar) = length (ar_pages ar)"
    and "as_capacity_bytes (arena_stats_of ar) = sum_list (map pg_capacity (ar_pages ar))"
    and "as_allocated_bytes (arena_stats_of ar) = (\<Sum>i<length (ar_pages ar). sum_list (map snd (live (ar_active ar) i)))"
    and "as_free_bytes (arena_stats_of ar) = sum_list (map (\<lambda>page. sum_list (map snd (pg_free page))) (ar_pages ar))"
    and "as_capacity_bytes (arena_stats_of ar) = as_free_bytes (arena_stats_of ar) + as_allocated_bytes (arena_stats_of ar)"
    and "as_largest_free_range (arena_stats_of ar) = Max (insert 0 (\<Union>page \<in> set (ar_pages ar). snd ` set (pg_free page)))"
proof -
  let ?n = "length (ar_pages ar)" and ?st = "arena_stats_of ar"
  show "as_pages ?st = ?n" by (simp add: arena_stats_of_def Let_def)
  show "as_capacity_bytes ?st = sum_list (map pg_capacity (ar_pages ar))"
    by (simp add: arena_stats_of_def Let_def total_capacity_def)
  have keys: "\<forall>x \<in> set (ar_active ar). fst (fst x) < ?n"
    using assms unfolding arena_wf_def by (metis btree_get_iff prod.collapse)
  have "sum_list (map (fst \<circ> snd) (ar_active ar)) = (\<Sum>i<?n. sum_list (map snd (live (ar_active ar) i)))"
    by (rule live_total [OF keys, symmetric])
  then show used: "as_allocated_bytes ?st = (\<Sum>i<?n. sum_list (map snd (live (ar_active ar) i)))"
    by (simp add: arena_stats_of_def Let_def btree_values_def)
  have idx: "sum_list (map f (ar_pages ar)) = (\<Sum>i<?n. f (ar_pages ar ! i))" for f :: "arena_page \<Rightarrow> nat"
    by (simp add: sum_list_sum_nth atLeast0LessThan)
  have "(\<Sum>i<?n. pg_capacity (ar_pages ar ! i)) =
      (\<Sum>i<?n. sum_list (map snd (pg_free (ar_pages ar ! i))) + sum_list (map snd (live (ar_active ar) i)))"
    using assms by (intro sum.cong refl page_bytes [OF arena_page_wf, symmetric]) auto
  then have total: "as_capacity_bytes ?st =
      sum_list (map (\<lambda>page. sum_list (map snd (pg_free page))) (ar_pages ar)) + as_allocated_bytes ?st"
    unfolding used by (simp add: arena_stats_of_def Let_def total_capacity_def idx sum.distrib)
  then show free: "as_free_bytes ?st = sum_list (map (\<lambda>page. sum_list (map snd (pg_free page))) (ar_pages ar))"
    by (simp add: arena_stats_of_def Let_def)
  show "as_capacity_bytes ?st = as_free_bytes ?st + as_allocated_bytes ?st" unfolding total free ..
  show "as_largest_free_range ?st = Max (insert 0 (\<Union>page \<in> set (ar_pages ar). snd ` set (pg_free page)))"
    by (simp add: arena_stats_of_def Let_def fold_max_largest)
qed

text \<open>
  C21: every arena reached by allocations and frees (accepted, refused, stale or repeated) partitions
  its pages: each byte of a page is held by exactly one free range or live allocation; the free
  ranges ascend and are fully coalesced; live allocations are nonempty and aligned; the page and
  capacity ceilings hold. The reported statistics are exact, field by field: the number of pages, the
  bytes of the pages, of the live allocations and of the free ranges (which add up, so that the
  subtraction cannot underflow), and the size of the largest free range, zero when there is none.
\<close>

theorem arena_partitioned:
  assumes "arena_start d al ar0" "arena_step\<^sup>*\<^sup>* ar0 ar"
  shows "(\<forall>i < length (ar_pages ar).
      (\<forall>b < pg_capacity (ar_pages ar ! i). cover (pg_free (ar_pages ar ! i)) b + cover (live (ar_active ar) i) b = 1) \<and>
      coalesced (pg_free (ar_pages ar ! i)) \<and>
      (\<forall>(off, n) \<in> set (live (ar_active ar) i). 0 < n \<and> ar_alignment ar dvd off \<and> ar_alignment ar dvd n)) \<and>
    length (ar_pages ar) \<le> page_limit ar \<and>
    (\<forall>maximum. ar_maximum_capacity ar = Some maximum \<longrightarrow> total_capacity ar \<le> maximum) \<and>
    arena_stats_of ar = \<lparr>as_pages = length (ar_pages ar), as_capacity_bytes = sum_list (map pg_capacity (ar_pages ar)),
      as_allocated_bytes = (\<Sum>i<length (ar_pages ar). sum_list (map snd (live (ar_active ar) i))),
      as_free_bytes = sum_list (map (\<lambda>page. sum_list (map snd (pg_free page))) (ar_pages ar)),
      as_largest_free_range = Max (insert 0 (\<Union>page \<in> set (ar_pages ar). snd ` set (pg_free page)))\<rparr> \<and>
    as_capacity_bytes (arena_stats_of ar) = as_free_bytes (arena_stats_of ar) + as_allocated_bytes (arena_stats_of ar)"
proof -
  have wf: "arena_wf ar" by (rule arena_reach_wf [OF assms])
  then have "page_wf (ar_alignment ar) (ar_pages ar ! i) (live (ar_active ar) i)" if "i < length (ar_pages ar)" for i
    using that by (simp add: arena_wf_def)
  then have "\<forall>i < length (ar_pages ar).
      (\<forall>b < pg_capacity (ar_pages ar ! i). cover (pg_free (ar_pages ar ! i)) b + cover (live (ar_active ar) i) b = 1) \<and>
      coalesced (pg_free (ar_pages ar ! i)) \<and>
      (\<forall>(off, n) \<in> set (live (ar_active ar) i). 0 < n \<and> ar_alignment ar dvd off \<and> ar_alignment ar dvd n)"
    by (fastforce simp: page_wf_def)
  moreover have "length (ar_pages ar) \<le> page_limit ar \<and>
      (\<forall>maximum. ar_maximum_capacity ar = Some maximum \<longrightarrow> total_capacity ar \<le> maximum)"
    using wf by (auto simp: arena_wf_def)
  ultimately show ?thesis using stats_exact [OF wf] by (simp add: arena_stats.equality)
qed

definition sample_arena :: arena where
  "sample_arena = arena_apply (AllocateOp 10) (arena_new 64 8)"

lemma sample_arena_eq:
  "sample_arena = \<lparr>ar_default_page_size = 64, ar_alignment = 8, ar_maximum_capacity = None, ar_maximum_pages = None,
     ar_pages = [\<lparr>pg_capacity = 64, pg_free = [(16, 48)]\<rparr>], ar_active = [((0, 0), (16, 1))],
     ar_next_generation = wrapping_generation 1\<rparr>"
  by (simp add: sample_arena_def arena_new_def allocate_def align_up_def u32_checked_add_def find_range_def best_fit_def
      page_limit_def may_grow_def page_capacity_def take_range_def)

lemma sample_arena_reach: "arena_start 64 8 (arena_new 64 8)" "arena_step\<^sup>*\<^sup>* (arena_new 64 8) sample_arena"
proof -
  have "arena_step (arena_new 64 8) sample_arena"
    unfolding arena_step_def sample_arena_def by (rule exI [of _ "AllocateOp 10"]) (simp add: arena_op_ok_def)
  then show "arena_step\<^sup>*\<^sup>* (arena_new 64 8) sample_arena" by blast
qed (simp add: arena_start_def)

theorem arena_partitioned_witness:
  "length (ar_pages sample_arena) = 1 \<and>
   cover (pg_free (ar_pages sample_arena ! 0)) 20 + cover (live (ar_active sample_arena) 0) 20 = 1 \<and>
   arena_stats_of sample_arena = \<lparr>as_pages = 1, as_capacity_bytes = 64, as_allocated_bytes = 16, as_free_bytes = 48,
     as_largest_free_range = 48\<rparr>"
  using arena_partitioned [OF sample_arena_reach] by (auto simp: sample_arena_eq live_def)

text \<open>
  C28: \<open>allocate\<close> is best fit and \<open>can_allocate\<close> predicts it. In a reachable arena an allocation
  succeeds precisely when \<open>can_allocate\<close> says so. Its size is the request rounded up to the
  alignment, its offset is aligned, its range starts a free range of the arena (or of the page
  added when no free range was large enough) that no sufficient free range undercuts, exactly its
  bytes leave the free list, and it is recorded under a key no live allocation had.
\<close>

theorem allocate_best_fit:
  assumes reach: "arena_start d al ar0" "arena_step\<^sup>*\<^sup>* ar0 ar" and n: "n \<le> u32_max"
  shows "(can_allocate ar n \<longleftrightarrow> allocate n ar \<noteq> None) \<and>
    (\<forall>a ar'. allocate n ar = Some (a, ar') \<longrightarrow>
      n \<le> al_size a \<and> al_size a < n + ar_alignment ar \<and> ar_alignment ar dvd al_size a \<and> ar_alignment ar dvd al_offset a \<and>
      btree_get (ar_active ar) (al_page a, al_offset a) = None \<and>
      btree_get (ar_active ar') (al_page a, al_offset a) = Some (al_size a, al_generation a) \<and>
      (\<exists>r. fits (served_from ar (al_size a)) (al_size a) (al_page a) r \<and>
        fst (pg_free (ar_pages (served_from ar (al_size a)) ! al_page a) ! r) = al_offset a \<and>
        (\<forall>q t. fits (served_from ar (al_size a)) (al_size a) q t \<longrightarrow>
          snd (pg_free (ar_pages (served_from ar (al_size a)) ! al_page a) ! r)
            \<le> snd (pg_free (ar_pages (served_from ar (al_size a)) ! q) ! t))) \<and>
      (\<forall>b. cover (pg_free (ar_pages ar' ! al_page a)) b + covers (al_offset a, al_size a) b
        = cover (pg_free (ar_pages (served_from ar (al_size a)) ! al_page a)) b))"
proof -
  have wf: "arena_wf ar" by (rule arena_reach_wf [OF reach])
  then have al: "0 < ar_alignment ar" by (simp add: arena_wf_def)
  have "can_allocate ar n \<longleftrightarrow> allocate n ar \<noteq> None"
  proof (cases "aligned_allocation_size ar n")
    case None
    then show ?thesis by (auto simp: can_allocate_def aligned_allocation_size_def allocate_def split: if_splits)
  next
    case (Some sz)
    have s: "0 < n" "align_up n (ar_alignment ar) = Some sz" using Some by (auto simp: aligned_allocation_size_def split: if_splits)
    have lex: "list_ex (\<lambda>page. list_ex (\<lambda>(_, free_size). free_size \<ge> sz) (pg_free page)) (ar_pages ar) \<longleftrightarrow> (\<exists>p r. fits ar sz p r)"
      by (auto simp: list_ex_length fits_def split_beta)
    have fr: "find_range sz ar \<noteq> None \<longleftrightarrow> can_allocate ar n"
      using best_fit_None [of ar sz] lex
      by (auto simp: can_allocate_def Some find_range_def Let_def split: option.splits)
    have "allocate n ar \<noteq> None" if "find_range sz ar \<noteq> None"
    proof -
      from that obtain p r ar1 where f: "find_range sz ar = Some (p, r, ar1)" by (metis not_None_eq prod_cases3)
      from find_range_cases [OF f] have "p < length (ar_pages ar1) \<and> r < length (pg_free (ar_pages ar1 ! p))"
        by (auto simp: fits_def)
      then show ?thesis using s f by (auto simp: allocate_def take_range_def Let_def split: prod.splits)
    qed
    moreover have "allocate n ar \<noteq> None \<Longrightarrow> find_range sz ar \<noteq> None"
      using s by (cases "find_range sz ar") (simp_all add: allocate_def)
    ultimately show ?thesis using fr by blast
  qed
  moreover have "n \<le> al_size a \<and> al_size a < n + ar_alignment ar \<and> ar_alignment ar dvd al_size a \<and> ar_alignment ar dvd al_offset a \<and>
      btree_get (ar_active ar) (al_page a, al_offset a) = None \<and>
      btree_get (ar_active ar') (al_page a, al_offset a) = Some (al_size a, al_generation a) \<and>
      (\<exists>r. fits (served_from ar (al_size a)) (al_size a) (al_page a) r \<and>
        fst (pg_free (ar_pages (served_from ar (al_size a)) ! al_page a) ! r) = al_offset a \<and>
        (\<forall>q t. fits (served_from ar (al_size a)) (al_size a) q t \<longrightarrow>
          snd (pg_free (ar_pages (served_from ar (al_size a)) ! al_page a) ! r)
            \<le> snd (pg_free (ar_pages (served_from ar (al_size a)) ! q) ! t))) \<and>
      (\<forall>b. cover (pg_free (ar_pages ar' ! al_page a)) b + covers (al_offset a, al_size a) b
        = cover (pg_free (ar_pages (served_from ar (al_size a)) ! al_page a)) b)"
    if "allocate n ar = Some (a, ar')" for a ar'
    using allocate_spec [OF wf n that] align_up_spec [OF _ al, of n "al_size a"] by (auto simp: fits_def)
  ultimately show ?thesis by blast
qed

theorem allocate_best_fit_witness:
  "\<exists>a ar'. allocate 10 sample_arena = Some (a, ar') \<and> 10 \<le> al_size a \<and> al_size a < 10 + ar_alignment sample_arena"
proof -
  have "can_allocate sample_arena 10"
    by (simp add: can_allocate_def sample_arena_eq aligned_allocation_size_def align_up_def u32_checked_add_def)
  then obtain a ar' where a: "allocate 10 sample_arena = Some (a, ar')"
    using allocate_best_fit [OF sample_arena_reach, of 10] by auto
  with allocate_best_fit [OF sample_arena_reach, of 10] show ?thesis by auto
qed

text \<open>
  Freeing undoes allocating. In a reachable arena, freeing the allocation just made is accepted
  and gives back the free lists and live allocations from before it, page by page (with one more
  page, wholly free, when the allocation had to add it); freeing it a second time is refused and
  changes nothing.
\<close>

theorem free_undoes_allocate:
  assumes reach: "arena_start d al ar0" "arena_step\<^sup>*\<^sup>* ar0 ar" and n: "n \<le> u32_max"
    and a: "allocate n ar = Some (a, ar1)"
  shows "\<exists>ar2. arena_free a ar1 = (True, ar2) \<and> ar_active ar2 = ar_active ar \<and>
    ar_pages ar2 = ar_pages (served_from ar (al_size a)) \<and> arena_free a ar2 = (False, ar2)"
proof -
  have wf: "arena_wf ar" by (rule arena_reach_wf [OF reach])
  let ?base = "served_from ar (al_size a)" and ?k = "(al_page a, al_offset a)"
  note spec = allocate_spec [OF wf n a]
  then obtain page' where p: "ar1 = ?base\<lparr>ar_pages := (ar_pages ?base)[al_page a := page'],
        ar_next_generation := wrapping_generation (ar_next_generation ar),
        ar_active := btree_insert ?k (al_size a, al_generation a) (ar_active ar)\<rparr>"
      "pg_capacity page' = pg_capacity (ar_pages ?base ! al_page a)"
      "\<forall>b. cover (pg_free page') b + covers (al_offset a, al_size a) b = cover (pg_free (ar_pages ?base ! al_page a)) b"
    by blast
  have lt: "al_page a < length (ar_pages ?base)" using spec by (auto simp: fits_def)
  have none: "btree_get (ar_active ar) ?k = None" using spec by blast
  have w: "btree_wf (ar_active ar)" using wf by (simp add: arena_wf_def)
  have wf1: "arena_wf ar1" using spec by blast
  have "btree_get (ar_active ar1) ?k = Some (al_size a, al_generation a)" by (simp add: p(1))
  from free_spec [OF wf1 this] obtain ar2 q where q: "arena_free a ar1 = (True, ar2)"
    "ar2 = ar1\<lparr>ar_active := btree_remove ?k (ar_active ar1), ar_pages := (ar_pages ar1)[al_page a := q]\<rparr>"
    "coalesced (pg_free q)" "pg_capacity q = pg_capacity (ar_pages ar1 ! al_page a)"
    "\<forall>b. cover (pg_free q) b = cover (pg_free (ar_pages ar1 ! al_page a)) b + covers (al_offset a, al_size a) b"
    by blast
  have act: "ar_active ar2 = ar_active ar"
    unfolding q(2) p(1) using w none by (intro btree_ext) (auto simp: btree_get_remove)
  have "coalesced (pg_free (ar_pages ?base ! al_page a))" using spec lt by (auto simp: arena_wf_def page_wf_def)
  then have "pg_free q = pg_free (ar_pages ?base ! al_page a)"
    using q(3,5) p(3) lt by (intro coalesced_unique) (auto simp: p(1))
  then have "q = ar_pages ?base ! al_page a"
    using q(4) p(2) lt by (simp add: p(1) arena_page.equality)
  then have pages: "ar_pages ar2 = ar_pages ?base" unfolding q(2) p(1) by simp
  have "arena_free a ar2 = (False, ar2)" by (rule free_refused) (simp add: act none)
  with q(1) act pages show ?thesis by blast
qed

theorem free_undoes_allocate_witness:
  "\<exists>a ar1 ar2. allocate 10 sample_arena = Some (a, ar1) \<and> arena_free a ar1 = (True, ar2) \<and>
     ar_pages ar2 = ar_pages (served_from sample_arena (al_size a))"
proof -
  have "allocate 10 sample_arena \<noteq> None"
    by (simp add: sample_arena_eq allocate_def align_up_def u32_checked_add_def find_range_def best_fit_def
        page_ranges_def better_def take_range_def Let_def)
  then obtain b ar1 where b: "allocate 10 sample_arena = Some (b, ar1)" by auto
  from free_undoes_allocate [OF sample_arena_reach _ b] b show ?thesis by auto
qed

end
