(* ===== verification/Brick_Residency.thy ===== *)
theory Brick_Residency
  imports Ordered_Map
begin

text \<open>
  The CPU-side cache of directly traversed voxel bricks (\<open>render/src/brick_residency.rs\<close>): stable GPU
  slots with generation tokens, a bounded queue of coalesced uploads, and their eviction. Payloads
  are lists of bytes; slots, generations, revisions and sequence numbers keep the width of the code;
  brick and voxel coordinates, which the code keeps as \<open>i32\<close> and only divides, are integers.
  The floating-point ray march \<open>trace\<close> is not modelled.
\<close>

declare split_paired_All [simp del] split_paired_Ex [simp del]

section \<open>Data\<close>

definition BRICK_EDGE :: nat where "BRICK_EDGE = 8"
definition BRICK_VOXEL_COUNT :: nat where "BRICK_VOXEL_COUNT = BRICK_EDGE * BRICK_EDGE * BRICK_EDGE"
definition BRICK_WORD_COUNT :: nat where "BRICK_WORD_COUNT = BRICK_VOXEL_COUNT div 4"

record brick_coord =
  bc_x :: int
  bc_y :: int
  bc_z :: int

instantiation brick_coord_ext :: (linorder) linorder
begin

definition less_eq_brick_coord_ext :: "'a brick_coord_scheme \<Rightarrow> 'a brick_coord_scheme \<Rightarrow> bool" where
  "less_eq_brick_coord_ext a b \<longleftrightarrow>
     (bc_x a, bc_y a, bc_z a, brick_coord.more a) \<le> (bc_x b, bc_y b, bc_z b, brick_coord.more b)"

definition less_brick_coord_ext :: "'a brick_coord_scheme \<Rightarrow> 'a brick_coord_scheme \<Rightarrow> bool" where
  "less_brick_coord_ext a b \<longleftrightarrow>
     (bc_x a, bc_y a, bc_z a, brick_coord.more a) < (bc_x b, bc_y b, bc_z b, brick_coord.more b)"

instance
  by standard (auto simp: less_eq_brick_coord_ext_def less_brick_coord_ext_def)

end

definition brick_at :: "int \<Rightarrow> int \<Rightarrow> int \<Rightarrow> brick_coord" where
  "brick_at x y z = \<lparr>bc_x = x, bc_y = y, bc_z = z\<rparr>"

record brick_address =
  ba_slot :: u32
  ba_generation :: u64

record brick_upload =
  bu_coord :: brick_coord
  bu_address :: brick_address
  bu_revision :: u64
  bu_payload :: "u8 list"

datatype queue_status = Queued | ReplacedPending | Stale | InvalidRevision | InvalidPayload | Capacity

record resident =
  re_address :: brick_address
  re_revision :: u64
  re_payload :: "u8 list"
  re_non_empty :: bool

record pending_brick =
  pb_revision :: u64
  pb_payload :: "u8 list"
  pb_sequence :: u64

record brick_residency =
  br_slots :: "brick_coord option list"
  br_residents :: "(brick_coord, resident) btree"
  br_pending :: "(brick_coord, pending_brick) btree"
  br_sequence :: u64
  br_next_generation :: u64
  br_pending_capacity :: nat

section \<open>Operations\<close>

definition byte_offset :: "brick_upload \<Rightarrow> nat" where
  "byte_offset u = unat (ba_slot (bu_address u)) * BRICK_VOXEL_COUNT"

definition le_word :: "u8 list \<Rightarrow> nat \<Rightarrow> u32" where
  "le_word payload w =
     or (or (or (ucast (payload ! (w * 4))) (push_bit 8 (ucast (payload ! (w * 4 + 1)))))
            (push_bit 16 (ucast (payload ! (w * 4 + 2)))))
        (push_bit 24 (ucast (payload ! (w * 4 + 3))))"

definition material_words :: "brick_upload \<Rightarrow> u32 list option" where
  "material_words u =
     (if length (bu_payload u) \<noteq> BRICK_VOXEL_COUNT then None
      else Some (map (le_word (bu_payload u)) [0..<BRICK_WORD_COUNT]))"

definition low_word :: "u64 \<Rightarrow> u32" where "low_word w = ucast w"
definition high_word :: "u64 \<Rightarrow> u32" where "high_word w = ucast (drop_bit 32 w)"

definition descriptor_words :: "brick_upload \<Rightarrow> u32 list" where
  "descriptor_words u =
     [word_of_int (bc_x (bu_coord u)), word_of_int (bc_y (bu_coord u)), word_of_int (bc_z (bu_coord u)),
      ba_slot (bu_address u), low_word (ba_generation (bu_address u)), high_word (ba_generation (bu_address u)),
      low_word (bu_revision u), high_word (bu_revision u)]"

definition residency_new :: "nat \<Rightarrow> brick_residency" where
  "residency_new capacity =
     \<lparr>br_slots = replicate capacity None, br_residents = [], br_pending = [], br_sequence = 0,
      br_next_generation = 1, br_pending_capacity = max (min (capacity * 4) u64_max) 1\<rparr>"

definition brick_capacity :: "brick_residency \<Rightarrow> nat" where
  "brick_capacity s = length (br_slots s)"

definition resident_len :: "brick_residency \<Rightarrow> nat" where
  "resident_len s = length (br_residents s)"

definition pending_len :: "brick_residency \<Rightarrow> nat" where
  "pending_len s = length (br_pending s)"

definition brick_address_of :: "brick_residency \<Rightarrow> brick_coord \<Rightarrow> brick_address option" where
  "brick_address_of s c = map_option re_address (btree_get (br_residents s) c)"

definition is_current :: "brick_residency \<Rightarrow> brick_coord \<Rightarrow> brick_address \<Rightarrow> bool" where
  "is_current s c a \<longleftrightarrow> brick_address_of s c = Some a"

definition brick_revision :: "brick_residency \<Rightarrow> brick_coord \<Rightarrow> u64 option" where
  "brick_revision s c =
     (case btree_get (br_residents s) c of
        Some r \<Rightarrow> Some (re_revision r)
      | None \<Rightarrow> map_option pb_revision (btree_get (br_pending s) c))"

definition resident_bricks :: "brick_residency \<Rightarrow> (brick_coord \<times> brick_address \<times> bool) list" where
  "resident_bricks s = map (\<lambda>(c, r). (c, re_address r, re_non_empty r)) (br_residents s)"

definition brick_of_voxel :: "int \<times> int \<times> int \<Rightarrow> brick_coord" where
  "brick_of_voxel v = (case v of (x, y, z) \<Rightarrow>
     brick_at (x div int BRICK_EDGE) (y div int BRICK_EDGE) (z div int BRICK_EDGE))"

definition brick_voxel_index :: "int \<times> int \<times> int \<Rightarrow> nat" where
  "brick_voxel_index v = (case v of (vx, vy, vz) \<Rightarrow>
     (let x = nat (vx mod int BRICK_EDGE); y = nat (vy mod int BRICK_EDGE); z = nat (vz mod int BRICK_EDGE)
      in x + z * BRICK_EDGE + y * BRICK_EDGE * BRICK_EDGE))"

definition get_at :: "'a list \<Rightarrow> nat \<Rightarrow> 'a option" where
  "get_at xs i = (if i < length xs then Some (xs ! i) else None)"

definition sample :: "brick_residency \<Rightarrow> int \<times> int \<times> int \<Rightarrow> u8 option" where
  "sample s voxel =
     (case btree_get (br_residents s) (brick_of_voxel voxel) of
        None \<Rightarrow> None
      | Some r \<Rightarrow> get_at (re_payload r) (brick_voxel_index voxel))"

definition queue_update :: "brick_coord \<Rightarrow> u64 \<Rightarrow> u8 list \<Rightarrow> brick_residency \<Rightarrow> queue_status \<times> brick_residency" where
  "queue_update c revision payload s =
     (if revision = 0 then (InvalidRevision, s)
      else if length payload \<noteq> BRICK_VOXEL_COUNT then (InvalidPayload, s)
      else if (case brick_revision s c of Some current \<Rightarrow> revision \<le> current | None \<Rightarrow> False) then (Stale, s)
      else if \<not> btree_contains (br_pending s) c \<and> length (br_pending s) \<ge> br_pending_capacity s then (Capacity, s)
      else
        let sequence = br_sequence s + 1;
            replaced = btree_get (br_pending s) c;
            s' = s\<lparr>br_sequence := sequence,
                   br_pending := btree_insert c
                     \<lparr>pb_revision = revision, pb_payload = payload, pb_sequence = sequence\<rparr> (br_pending s)\<rparr>
        in (if replaced \<noteq> None then ReplacedPending else Queued, s'))"

primrec position :: "('a \<Rightarrow> bool) \<Rightarrow> 'a list \<Rightarrow> nat option" where
  "position P [] = None"
| "position P (x # xs) = (if P x then Some 0 else map_option Suc (position P xs))"

definition next_upload :: "brick_residency \<Rightarrow> brick_coord option" where
  "next_upload s =
     map_option fst (min_by_key (\<lambda>(_, p). pb_sequence p)
       (filter (\<lambda>(c, _). position Option.is_none (br_slots s) \<noteq> None \<or> btree_contains (br_residents s) c) (br_pending s)))"

definition advance_generation :: "u64 \<Rightarrow> u64" where
  "advance_generation g = max (g + 1) 1"

definition upload_address :: "brick_coord \<Rightarrow> brick_residency \<Rightarrow> (brick_address \<times> brick_residency) option" where
  "upload_address c s =
     (case btree_get (br_residents s) c of
        Some r \<Rightarrow> Some (re_address r, s)
      | None \<Rightarrow>
          (case position Option.is_none (br_slots s) of
             None \<Rightarrow> None
           | Some slot \<Rightarrow>
               Some (\<lparr>ba_slot = word_of_nat slot, ba_generation = br_next_generation s\<rparr>,
                 s\<lparr>br_next_generation := advance_generation (br_next_generation s),
                   br_slots := (br_slots s)[slot := Some c]\<rparr>)))"

definition drain_one :: "brick_residency \<Rightarrow> (brick_upload \<times> brick_residency) option" where
  "drain_one s =
     (case next_upload s of
        None \<Rightarrow> None
      | Some c \<Rightarrow>
          (case upload_address c s of
             None \<Rightarrow> None
           | Some (address, s1) \<Rightarrow>
               (case btree_get (br_pending s1) c of
                  None \<Rightarrow> None
                | Some p \<Rightarrow>
                    Some (\<lparr>bu_coord = c, bu_address = address, bu_revision = pb_revision p, bu_payload = pb_payload p\<rparr>,
                      s1\<lparr>br_pending := btree_remove c (br_pending s1),
                         br_residents := btree_insert c
                           \<lparr>re_address = address, re_revision = pb_revision p, re_payload = pb_payload p,
                            re_non_empty = list_ex (\<lambda>material. material \<noteq> 0) (pb_payload p)\<rparr> (br_residents s1)\<rparr>))))"

primrec drain_uploads :: "nat \<Rightarrow> brick_residency \<Rightarrow> brick_upload list \<times> brick_residency" where
  "drain_uploads 0 s = ([], s)"
| "drain_uploads (Suc n) s =
     (case drain_one s of
        None \<Rightarrow> ([], s)
      | Some (u, s1) \<Rightarrow> (let (us, s2) = drain_uploads n s1 in (u # us, s2)))"

definition brick_evict :: "brick_coord \<Rightarrow> brick_residency \<Rightarrow> bool \<times> brick_residency" where
  "brick_evict c s =
     (let s1 = s\<lparr>br_pending := btree_remove c (br_pending s)\<rparr> in
      case btree_get (br_residents s1) c of
        None \<Rightarrow> (False, s1)
      | Some r \<Rightarrow>
          let s2 = s1\<lparr>br_residents := btree_remove c (br_residents s1)\<rparr>;
              slot = unat (ba_slot (re_address r))
          in (True, if get_at (br_slots s2) slot = Some (Some c)
                    then s2\<lparr>br_slots := (br_slots s2)[slot := None]\<rparr> else s2))"

section \<open>Facts about the helpers\<close>

lemma position_Some:
  "position P xs = Some i \<Longrightarrow> i < length xs \<and> P (xs ! i) \<and> (\<forall>j < i. \<not> P (xs ! j))"
proof (induction xs arbitrary: i)
  case (Cons x xs)
  show ?case
  proof (cases "P x")
    case False
    then obtain k where k: "position P xs = Some k" "i = Suc k" using Cons.prems by auto
    from Cons.IH [OF k(1)] show ?thesis using False k(2) by (auto simp: less_Suc_eq_0_disj)
  qed (use Cons.prems in auto)
qed simp

lemma position_None: "position P xs = None \<longleftrightarrow> (\<forall>x \<in> set xs. \<not> P x)"
  by (induction xs) auto

lemma brick_index_bound: "brick_voxel_index v < BRICK_VOXEL_COUNT"
proof -
  obtain x y z where v: "v = (x, y, z)" by (cases v)
  have "nat (x mod 8) < 8" "nat (y mod 8) < 8" "nat (z mod 8) < 8" by (simp_all add: nat_less_iff)
  then show ?thesis by (simp add: v brick_voxel_index_def BRICK_VOXEL_COUNT_def BRICK_EDGE_def)
qed

lemma next_upload_Some:
  assumes "next_upload s = Some c" and wf: "btree_wf (br_pending s)"
  shows "\<exists>p. btree_get (br_pending s) c = Some p \<and>
    (br_residents s = br_residents s \<and> (position Option.is_none (br_slots s) \<noteq> None \<or> btree_contains (br_residents s) c)) \<and>
    (\<forall>d q. btree_get (br_pending s) d = Some q \<longrightarrow>
       position Option.is_none (br_slots s) \<noteq> None \<or> btree_contains (br_residents s) d \<longrightarrow> pb_sequence p \<le> pb_sequence q)"
proof -
  let ?f = "filter (\<lambda>(c, _). position Option.is_none (br_slots s) \<noteq> None \<or> btree_contains (br_residents s) c) (br_pending s)"
  from assms obtain p where m: "min_by_key (\<lambda>(_, p). pb_sequence p) ?f = Some (c, p)"
    by (auto simp: next_upload_def)
  from min_by_key_in [OF m] have i: "(c, p) \<in> set (br_pending s)"
    "position Option.is_none (br_slots s) \<noteq> None \<or> btree_contains (br_residents s) c" by auto
  have least: "pb_sequence p \<le> pb_sequence q"
    if "btree_get (br_pending s) d = Some q"
      "position Option.is_none (br_slots s) \<noteq> None \<or> btree_contains (br_residents s) d" for d q
  proof -
    from that wf have "(d, q) \<in> set ?f" by (auto simp: btree_get_iff)
    from min_by_key_least [OF m this] show ?thesis by simp
  qed
  show ?thesis using i least wf by (auto simp: btree_get_iff)
qed

lemma next_upload_None:
  "btree_wf (br_pending s) \<Longrightarrow> next_upload s = None \<longleftrightarrow>
     (\<forall>c. btree_contains (br_pending s) c \<longrightarrow> position Option.is_none (br_slots s) = None \<and> \<not> btree_contains (br_residents s) c)"
  by (auto simp: next_upload_def filter_empty_conv btree_contains_def btree_get_iff)

section \<open>The residency invariant\<close>

definition slots_agree :: "brick_coord option list \<Rightarrow> (brick_coord, resident) btree \<Rightarrow> bool" where
  "slots_agree slots residents \<longleftrightarrow>
     (\<forall>i < length slots. \<forall>c. slots ! i = Some c \<longleftrightarrow>
        (\<exists>r. btree_get residents c = Some r \<and> unat (ba_slot (re_address r)) = i)) \<and>
     (\<forall>c r. btree_get residents c = Some r \<longrightarrow> unat (ba_slot (re_address r)) < length slots)"

definition payload_ok :: "u64 \<Rightarrow> u8 list \<Rightarrow> bool" where
  "payload_ok revision payload \<longleftrightarrow> revision \<noteq> 0 \<and> length payload = BRICK_VOXEL_COUNT"

definition residency_wf :: "brick_residency \<Rightarrow> bool" where
  "residency_wf s \<longleftrightarrow>
     btree_wf (br_residents s) \<and> btree_wf (br_pending s) \<and>
     length (br_slots s) \<le> u32_max \<and>
     slots_agree (br_slots s) (br_residents s) \<and>
     (\<forall>c r. btree_get (br_residents s) c = Some r \<longrightarrow>
        payload_ok (re_revision r) (re_payload r) \<and> re_non_empty r = (\<exists>m \<in> set (re_payload r). m \<noteq> 0)) \<and>
     (\<forall>c p. btree_get (br_pending s) c = Some p \<longrightarrow> payload_ok (pb_revision p) (pb_payload p)) \<and>
     length (br_pending s) \<le> br_pending_capacity s"

lemma residency_new_wf: "capacity \<le> u32_max \<Longrightarrow> residency_wf (residency_new capacity)"
  by (simp add: residency_wf_def residency_new_def slots_agree_def)

lemma queue_update_wf: "residency_wf s \<Longrightarrow> residency_wf (snd (queue_update c v p s))"
  by (auto simp: queue_update_def Let_def residency_wf_def btree_get_insert btree_length_insert
      btree_contains_def payload_ok_def split: if_splits)

lemma slots_agree_insert:
  assumes "slots_agree slots residents" "i < length slots" "slots ! i = None" "unat (ba_slot (re_address r)) = i"
    "btree_get residents c = None"
  shows "slots_agree (slots[i := Some c]) (btree_insert c r residents)"
  using assms unfolding slots_agree_def
  by (auto simp: btree_get_insert nth_list_update split: if_splits)

lemma slots_agree_update:
  assumes "slots_agree slots residents" "btree_get residents c = Some r" "re_address r' = re_address r"
  shows "slots_agree slots (btree_insert c r' residents)"
  using assms unfolding slots_agree_def by (auto simp: btree_get_insert split: if_splits)

lemma slots_agree_inj:
  assumes "slots_agree slots residents" "btree_get residents c = Some r" "btree_get residents d = Some q"
    "ba_slot (re_address q) = ba_slot (re_address r)"
  shows "d = c"
proof -
  have "slots ! unat (ba_slot (re_address r)) = Some c" "slots ! unat (ba_slot (re_address q)) = Some d"
    using assms(1-3) unfolding slots_agree_def by blast+
  with assms(4) show ?thesis by simp
qed

lemma slots_agree_remove:
  assumes "slots_agree slots residents" "btree_wf residents" "btree_get residents c = Some r"
  shows "slots_agree (slots[unat (ba_slot (re_address r)) := None]) (btree_remove c residents) \<and>
    get_at slots (unat (ba_slot (re_address r))) = Some (Some c)"
proof -
  let ?i = "unat (ba_slot (re_address r))"
  have at: "?i < length slots" "slots ! ?i = Some c" using assms(1,3) unfolding slots_agree_def by blast+
  have "slots[?i := None] ! j = Some d \<longleftrightarrow>
      (\<exists>q. btree_get (btree_remove c residents) d = Some q \<and> unat (ba_slot (re_address q)) = j)"
    if j: "j < length slots" for j d
  proof (cases "d = c")
    case True
    have "slots[?i := None] ! j \<noteq> Some c"
    proof (cases "j = ?i")
      case False
      have "slots ! j = Some c \<longleftrightarrow> (\<exists>q. btree_get residents c = Some q \<and> unat (ba_slot (re_address q)) = j)"
        using assms(1) j unfolding slots_agree_def by blast
      then show ?thesis using False assms(3) by simp
    qed (use j in simp)
    then show ?thesis using True assms(2) by (simp add: btree_get_remove)
  next
    case False
    then have "slots[?i := None] ! j = Some d \<longleftrightarrow> slots ! j = Some d" using at j by (auto simp: nth_list_update)
    also have "\<dots> \<longleftrightarrow> (\<exists>q. btree_get residents d = Some q \<and> unat (ba_slot (re_address q)) = j)"
      using assms(1) j unfolding slots_agree_def by blast
    finally show ?thesis using False assms(2) by (simp add: btree_get_remove)
  qed
  moreover have "unat (ba_slot (re_address q)) < length slots"
    if "btree_get (btree_remove c residents) d = Some q" for d q
    using that assms(1,2) unfolding slots_agree_def by (auto simp: btree_get_remove split: if_splits)
  ultimately show ?thesis using at by (simp add: slots_agree_def get_at_def)
qed

lemma brick_evict_eq:
  assumes "residency_wf s"
  shows "brick_evict c s =
    (case btree_get (br_residents s) c of
       None \<Rightarrow> (False, s\<lparr>br_pending := btree_remove c (br_pending s)\<rparr>)
     | Some r \<Rightarrow> (True, s\<lparr>br_pending := btree_remove c (br_pending s),
         br_residents := btree_remove c (br_residents s),
         br_slots := (br_slots s)[unat (ba_slot (re_address r)) := None]\<rparr>))"
proof (cases "btree_get (br_residents s) c")
  case (Some r)
  have "get_at (br_slots s) (unat (ba_slot (re_address r))) = Some (Some c)"
    using slots_agree_remove [OF _ _ Some] assms by (simp add: residency_wf_def)
  then show ?thesis using Some by (simp add: brick_evict_def Let_def)
qed (simp add: brick_evict_def)

lemma brick_evict_wf:
  assumes wf: "residency_wf s" shows "residency_wf (snd (brick_evict c s))"
proof (cases "btree_get (br_residents s) c")
  case None
  then show ?thesis using wf
    by (auto simp: brick_evict_eq [OF wf] residency_wf_def btree_get_remove btree_length_remove)
next
  case (Some r)
  then show ?thesis using wf slots_agree_remove [OF _ _ Some, of "br_slots s"]
    by (auto simp: brick_evict_eq [OF wf] residency_wf_def btree_get_remove btree_length_remove)
qed

text \<open>What one turn of the drain loop does, for a resident brick and for a newcomer.\<close>

definition admitted :: "brick_coord \<Rightarrow> brick_address \<Rightarrow> brick_residency \<Rightarrow> brick_residency \<Rightarrow> bool" where
  "admitted c address s s1 \<longleftrightarrow>
     (case btree_get (br_residents s) c of
        Some r \<Rightarrow> address = re_address r \<and> s1 = s
      | None \<Rightarrow> \<exists>i. position Option.is_none (br_slots s) = Some i \<and>
          address = \<lparr>ba_slot = word_of_nat i, ba_generation = br_next_generation s\<rparr> \<and>
          s1 = s\<lparr>br_next_generation := advance_generation (br_next_generation s), br_slots := (br_slots s)[i := Some c]\<rparr>)"

lemma upload_address_admitted: "upload_address c s = Some (address, s1) \<Longrightarrow> admitted c address s s1"
  by (auto simp: upload_address_def admitted_def split: option.splits)

lemma drain_one_Some:
  assumes d: "drain_one s = Some (u, t)"
  obtains p s1 where "next_upload s = Some (bu_coord u)" "btree_get (br_pending s) (bu_coord u) = Some p"
    "admitted (bu_coord u) (bu_address u) s s1" "bu_revision u = pb_revision p" "bu_payload u = pb_payload p"
    "t = s1\<lparr>br_pending := btree_remove (bu_coord u) (br_pending s),
       br_residents := btree_insert (bu_coord u)
         \<lparr>re_address = bu_address u, re_revision = pb_revision p, re_payload = pb_payload p,
          re_non_empty = list_ex (\<lambda>material. material \<noteq> 0) (pb_payload p)\<rparr> (br_residents s)\<rparr>"
proof -
  from d obtain c where c: "next_upload s = Some c" by (auto simp: drain_one_def split: option.splits)
  from d c obtain address s1 where a: "upload_address c s = Some (address, s1)"
    by (auto simp: drain_one_def split: option.splits)
  have keep: "br_pending s1 = br_pending s" "br_residents s1 = br_residents s"
    using upload_address_admitted [OF a] by (auto simp: admitted_def split: option.splits)
  from d c a obtain p where p: "btree_get (br_pending s1) c = Some p"
    by (auto simp: drain_one_def split: option.splits)
  show thesis
    by (rule that [of p s1]) (use d c a p upload_address_admitted [OF a] keep in \<open>auto simp: drain_one_def\<close>)
qed

lemma drain_one_wf:
  assumes wf: "residency_wf s" and d: "drain_one s = Some (u, t)" shows "residency_wf t"
  using d
proof (rule drain_one_Some)
  fix p s1
  assume a: "next_upload s = Some (bu_coord u)" and p: "btree_get (br_pending s) (bu_coord u) = Some p"
    and ad: "admitted (bu_coord u) (bu_address u) s s1"
    and t: "t = s1\<lparr>br_pending := btree_remove (bu_coord u) (br_pending s),
       br_residents := btree_insert (bu_coord u)
         \<lparr>re_address = bu_address u, re_revision = pb_revision p, re_payload = pb_payload p,
          re_non_empty = list_ex (\<lambda>material. material \<noteq> 0) (pb_payload p)\<rparr> (br_residents s)\<rparr>"
  have agree: "slots_agree (br_slots t) (br_residents t)"
  proof (cases "btree_get (br_residents s) (bu_coord u)")
    case (Some r)
    then show ?thesis using ad wf by (auto simp: t admitted_def residency_wf_def intro: slots_agree_update)
  next
    case None
    with ad obtain i where i: "position Option.is_none (br_slots s) = Some i"
      "bu_address u = \<lparr>ba_slot = word_of_nat i, ba_generation = br_next_generation s\<rparr>"
      "s1 = s\<lparr>br_next_generation := advance_generation (br_next_generation s), br_slots := (br_slots s)[i := Some (bu_coord u)]\<rparr>"
      by (auto simp: admitted_def)
    from position_Some [OF i(1)] have lt: "i < length (br_slots s)" "br_slots s ! i = None"
      by (auto simp: Option.is_none_def)
    with wf have "unat (word_of_nat i :: u32) = i"
      by (simp add: residency_wf_def unat_of_nat take_bit_nat_eq_self_iff)
    with wf lt None show ?thesis by (auto simp: t i residency_wf_def intro!: slots_agree_insert)
  qed
  moreover have "length (br_slots t) = length (br_slots s)" "br_pending_capacity t = br_pending_capacity s"
    using ad by (auto simp: t admitted_def split: option.splits)
  ultimately show ?thesis using wf p
    by (auto simp: residency_wf_def t btree_get_insert btree_get_remove btree_length_remove payload_ok_def list_ex_iff split: if_splits)
qed

lemma drain_uploads_wf: "residency_wf s \<Longrightarrow> residency_wf (snd (drain_uploads n s))"
proof (induction n arbitrary: s)
  case (Suc n)
  show ?case
  proof (cases "drain_one s")
    case (Some ut)
    then obtain u t where ut: "drain_one s = Some (u, t)" by (cases ut) auto
    from Suc.IH [OF drain_one_wf [OF Suc.prems ut]] ut show ?thesis by (cases "drain_uploads n t") simp
  qed (use Suc.prems in simp)
qed simp


section \<open>Runs\<close>

datatype brick_op =
    QueueOp brick_coord u64 "u8 list"
  | DrainOp nat
  | EvictOp brick_coord

fun brick_apply :: "brick_op \<Rightarrow> brick_residency \<Rightarrow> brick_residency" where
  "brick_apply (QueueOp c v p) s = snd (queue_update c v p s)"
| "brick_apply (DrainOp n) s = snd (drain_uploads n s)"
| "brick_apply (EvictOp c) s = snd (brick_evict c s)"

definition brick_step :: "brick_residency \<Rightarrow> brick_residency \<Rightarrow> bool" where
  "brick_step s t \<longleftrightarrow> (\<exists>op. t = brick_apply op s)"

definition brick_start :: "nat \<Rightarrow> brick_residency \<Rightarrow> bool" where
  "brick_start capacity s \<longleftrightarrow> capacity \<le> u32_max \<and> s = residency_new capacity"

lemma brick_apply_wf: "residency_wf s \<Longrightarrow> residency_wf (brick_apply op s)"
  by (cases op) (auto intro: queue_update_wf drain_uploads_wf brick_evict_wf)

interpretation bricks: transition_invariant "brick_start capacity" brick_step residency_wf
  by unfold_locales (auto simp: brick_start_def brick_step_def intro: residency_new_wf brick_apply_wf)

lemmas brick_reach_wf = bricks.reachable_inv

lemma residents_within_slots:
  assumes wf: "residency_wf s" shows "resident_len s \<le> brick_capacity s"
proof -
  let ?slot = "\<lambda>c. unat (ba_slot (re_address (the (btree_get (br_residents s) c))))"
  let ?K = "fst ` set (br_residents s)"
  have dom: "c \<in> ?K \<longleftrightarrow> (\<exists>r. btree_get (br_residents s) c = Some r)" for c
    using btree_get_None [of "br_residents s" c] by auto
  have "inj_on ?slot ?K"
  proof (rule inj_onI)
    fix c d assume "c \<in> ?K" "d \<in> ?K" and e: "?slot c = ?slot d"
    then obtain r q where rq: "btree_get (br_residents s) c = Some r" "btree_get (br_residents s) d = Some q"
      by (auto simp: dom)
    with e have "ba_slot (re_address q) = ba_slot (re_address r)" by (simp add: word_eq_iff_unsigned [where 'a = nat])
    with rq wf show "c = d" by (metis slots_agree_inj residency_wf_def)
  qed
  moreover have "?slot ` ?K \<subseteq> {..<brick_capacity s}"
  proof -
    have "unat (ba_slot (re_address r)) < length (br_slots s)" if "btree_get (br_residents s) c = Some r" for c r
      using wf that unfolding residency_wf_def slots_agree_def by blast
    then have "?slot c < brick_capacity s" if "c \<in> ?K" for c
      using that unfolding dom brick_capacity_def by force
    then show ?thesis by blast
  qed
  ultimately have "card ?K \<le> brick_capacity s" using card_inj_on_le [of ?slot ?K "{..<brick_capacity s}"] by simp
  moreover have "card ?K = resident_len s"
    using wf distinct_card [of "map fst (br_residents s)"] by (simp add: residency_wf_def resident_len_def btree_wf_distinct)
  ultimately show ?thesis by simp
qed


section \<open>Draining the queue\<close>

definition upload_applied :: "brick_residency \<Rightarrow> brick_residency \<Rightarrow> brick_upload \<Rightarrow> bool" where
  "upload_applied s t u \<longleftrightarrow>
     (\<exists>p. btree_get (br_pending s) (bu_coord u) = Some p \<and> bu_revision u = pb_revision p \<and> bu_payload u = pb_payload p) \<and>
     btree_get (br_residents t) (bu_coord u) =
       Some \<lparr>re_address = bu_address u, re_revision = bu_revision u, re_payload = bu_payload u,
             re_non_empty = list_ex (\<lambda>material. material \<noteq> 0) (bu_payload u)\<rparr> \<and>
     btree_get (br_pending t) (bu_coord u) = None"

lemma drain_one_exact:
  assumes wf: "residency_wf s" and d: "drain_one s = Some (u, t)"
  shows "upload_applied s t u" "c \<noteq> bu_coord u \<Longrightarrow> btree_get (br_residents t) c = btree_get (br_residents s) c"
    "c \<noteq> bu_coord u \<Longrightarrow> btree_get (br_pending t) c = btree_get (br_pending s) c"
    "is_current s (bu_coord u) a \<Longrightarrow> is_current t (bu_coord u) a"
    "br_pending_capacity t = br_pending_capacity s" "br_sequence t = br_sequence s"
proof -
  from d obtain p s1 where u: "btree_get (br_pending s) (bu_coord u) = Some p"
    "admitted (bu_coord u) (bu_address u) s s1" "bu_revision u = pb_revision p" "bu_payload u = pb_payload p"
    "t = s1\<lparr>br_pending := btree_remove (bu_coord u) (br_pending s),
       br_residents := btree_insert (bu_coord u)
         \<lparr>re_address = bu_address u, re_revision = pb_revision p, re_payload = pb_payload p,
          re_non_empty = list_ex (\<lambda>material. material \<noteq> 0) (pb_payload p)\<rparr> (br_residents s)\<rparr>"
    by (rule drain_one_Some)
  have w: "btree_wf (br_pending s)" using wf by (simp add: residency_wf_def)
  show "upload_applied s t u" using u w by (simp add: upload_applied_def btree_get_insert btree_get_remove)
  show "c \<noteq> bu_coord u \<Longrightarrow> btree_get (br_residents t) c = btree_get (br_residents s) c"
    "c \<noteq> bu_coord u \<Longrightarrow> btree_get (br_pending t) c = btree_get (br_pending s) c"
    using u w by (simp_all add: btree_get_insert btree_get_remove)
  show "is_current s (bu_coord u) a \<Longrightarrow> is_current t (bu_coord u) a"
    using u by (auto simp: is_current_def brick_address_of_def btree_get_insert admitted_def split: option.splits)
  show "br_pending_capacity t = br_pending_capacity s" "br_sequence t = br_sequence s"
    using u by (auto simp: admitted_def split: option.splits)
qed

lemma drain_one_None:
  assumes wf: "residency_wf s"
  shows "drain_one s = None \<longleftrightarrow> next_upload s = None"
proof (cases "next_upload s")
  case (Some c)
  have "btree_wf (br_pending s)" using wf by (simp add: residency_wf_def)
  from next_upload_Some [OF Some this] obtain p where p: "btree_get (br_pending s) c = Some p"
    "position Option.is_none (br_slots s) \<noteq> None \<or> btree_contains (br_residents s) c" by blast
  then have "upload_address c s \<noteq> None"
    by (auto simp: upload_address_def btree_contains_def split: option.splits)
  then obtain address s1 where a: "upload_address c s = Some (address, s1)" by auto
  have "br_pending s1 = br_pending s"
    using upload_address_admitted [OF a] by (auto simp: admitted_def split: option.splits)
  then show ?thesis using Some a p(1) by (simp add: drain_one_def)
qed (simp add: drain_one_def)

lemma drain_uploads_spec:
  assumes "residency_wf s" and "drain_uploads n s = (us, t)"
  shows "length us \<le> n \<and> distinct (map bu_coord us) \<and> (\<forall>u \<in> set us. upload_applied s t u) \<and>
    (\<forall>c. c \<notin> bu_coord ` set us \<longrightarrow> btree_get (br_residents t) c = btree_get (br_residents s) c \<and>
       btree_get (br_pending t) c = btree_get (br_pending s) c) \<and>
    (\<forall>c a. is_current s c a \<longrightarrow> is_current t c a) \<and> (length us < n \<longrightarrow> next_upload t = None)"
  using assms
proof (induction n arbitrary: s us)
  case (Suc n)
  show ?case
  proof (cases "drain_one s")
    case None
    with Suc.prems show ?thesis using drain_one_None by simp
  next
    case (Some uw)
    then obtain u s1 where u: "drain_one s = Some (u, s1)" by (cases uw) auto
    note e = drain_one_exact [OF Suc.prems(1) u]
    obtain vs where vs: "drain_uploads n s1 = (vs, t)" "us = u # vs"
      using Suc.prems(2) u by (cases "drain_uploads n s1") auto
    note IH = Suc.IH [OF drain_one_wf [OF Suc.prems(1) u] vs(1)]
    have notin: "bu_coord u \<notin> bu_coord ` set vs"
      using IH e(1) by (auto simp: upload_applied_def)
    have "upload_applied s t u" using e(1) IH notin by (auto simp: upload_applied_def)
    moreover have "upload_applied s t v" if "v \<in> set vs" for v
    proof -
      have "bu_coord v \<noteq> bu_coord u" using that notin by (metis image_eqI)
      moreover have "upload_applied s1 t v" using IH that by blast
      ultimately show ?thesis using e(3) by (auto simp: upload_applied_def)
    qed
    moreover have "is_current t c a" if "is_current s c a" for c a
    proof (cases "c = bu_coord u")
      case True
      then show ?thesis using that e(4) IH by blast
    next
      case False
      then have "is_current s1 c a" using that e(2) by (simp add: is_current_def brick_address_of_def)
      then show ?thesis using IH by blast
    qed
    ultimately show ?thesis using IH notin e(2,3) by (auto simp: vs(2))
  qed
qed simp


section \<open>Address tokens\<close>

definition retired :: "u64 \<Rightarrow> brick_residency \<Rightarrow> bool" where
  "retired g s \<longleftrightarrow> g < br_next_generation s \<and> (\<forall>c a. is_current s c a \<longrightarrow> ba_generation a \<noteq> g)"

definition tokens_fresh :: "brick_residency \<Rightarrow> bool" where
  "tokens_fresh s \<longleftrightarrow>
     (\<forall>c a. is_current s c a \<longrightarrow> ba_generation a < br_next_generation s) \<and>
     (\<forall>c d a b. is_current s c a \<longrightarrow> is_current s d b \<longrightarrow> ba_generation a = ba_generation b \<longrightarrow> c = d)"

lemma advance_generation_unat:
  "unat g < u64_max \<Longrightarrow> unat (advance_generation g) = Suc (unat g) \<and> g < advance_generation g"
proof -
  assume "unat g < u64_max"
  then have "unat (g + 1) = Suc (unat g)" by (simp add: unat_word_ariths)
  moreover from this have "1 \<le> g + 1" by (simp add: word_le_nat_alt)
  ultimately show ?thesis by (simp add: advance_generation_def max_def word_less_nat_alt)
qed

lemma drain_one_current:
  assumes d: "drain_one s = Some (u, t)" and fresh: "unat (br_next_generation s) < u64_max"
  shows "(\<forall>c a. is_current t c a \<longrightarrow> is_current s c a \<or>
      (c = bu_coord u \<and> ba_generation a = br_next_generation s \<and> br_next_generation s < br_next_generation t)) \<and>
    br_next_generation s \<le> br_next_generation t \<and> unat (br_next_generation t) \<le> Suc (unat (br_next_generation s))"
proof -
  from d obtain p s1 where f: "btree_get (br_pending s) (bu_coord u) = Some p"
    and u: "admitted (bu_coord u) (bu_address u) s s1"
    "t = s1\<lparr>br_pending := btree_remove (bu_coord u) (br_pending s),
       br_residents := btree_insert (bu_coord u)
         \<lparr>re_address = bu_address u, re_revision = pb_revision p, re_payload = pb_payload p,
          re_non_empty = list_ex (\<lambda>material. material \<noteq> 0) (pb_payload p)\<rparr> (br_residents s)\<rparr>"
    by (rule drain_one_Some)
  note adv = advance_generation_unat [OF fresh]
  show ?thesis
  proof (cases "btree_get (br_residents s) (bu_coord u)")
    case (Some r)
    then have "bu_address u = re_address r" "s1 = s" using u(1) by (simp_all add: admitted_def)
    then show ?thesis using Some
      by (simp add: u(2) is_current_def brick_address_of_def btree_get_insert)
  next
    case None
    then have "ba_generation (bu_address u) = br_next_generation s"
      "br_next_generation s1 = advance_generation (br_next_generation s)"
      using u(1) by (auto simp: admitted_def)
    then show ?thesis using adv
      by (auto simp: u(2) is_current_def brick_address_of_def btree_get_insert split: if_splits)
  qed
qed

lemma drain_one_tokens:
  assumes d: "drain_one s = Some (u, t)" and n: "unat (br_next_generation s) < u64_max"
  shows "tokens_fresh s \<Longrightarrow> tokens_fresh t" "retired g s \<Longrightarrow> retired g t"
proof -
  note e = drain_one_current [OF d n]
  show "retired g s \<Longrightarrow> retired g t" using e unfolding retired_def by (metis order_less_le_trans less_irrefl)
  assume f: "tokens_fresh s"
  have a: "ba_generation a < br_next_generation t" if "is_current t c a" for c a
    using e f that unfolding tokens_fresh_def by (metis order_less_le_trans)
  have b: "c = d" if "is_current t c a" "is_current t d b" "ba_generation a = ba_generation b" for c d a b
    using e f that unfolding tokens_fresh_def by (metis less_irrefl)
  show "tokens_fresh t" using a b unfolding tokens_fresh_def by blast
qed

lemma drain_uploads_tokens:
  assumes "unat (br_next_generation s) + n \<le> u64_max"
  shows "(tokens_fresh s \<longrightarrow> tokens_fresh (snd (drain_uploads n s))) \<and>
    (retired g s \<longrightarrow> retired g (snd (drain_uploads n s))) \<and>
    unat (br_next_generation (snd (drain_uploads n s))) \<le> unat (br_next_generation s) + n"
  using assms
proof (induction n arbitrary: s)
  case (Suc n)
  show ?case
  proof (cases "drain_one s")
    case (Some uw)
    then obtain u s1 where u: "drain_one s = Some (u, s1)" by (cases uw) auto
    have n: "unat (br_next_generation s) < u64_max" using Suc.prems by simp
    note e = drain_one_current [OF u n] and k = drain_one_tokens [OF u n]
    have "unat (br_next_generation s1) + n \<le> u64_max" using e Suc.prems by linarith
    from Suc.IH [OF this] have "(tokens_fresh s \<longrightarrow> tokens_fresh (snd (drain_uploads n s1))) \<and>
      (retired g s \<longrightarrow> retired g (snd (drain_uploads n s1))) \<and>
      unat (br_next_generation (snd (drain_uploads n s1))) \<le> unat (br_next_generation s) + Suc n"
      using e k by (auto intro: order_trans)
    then show ?thesis using u by (cases "drain_uploads n s1") simp
  qed simp
qed simp

fun drain_budget :: "brick_op list \<Rightarrow> nat" where
  "drain_budget [] = 0"
| "drain_budget (DrainOp n # ops) = n + drain_budget ops"
| "drain_budget (_ # ops) = drain_budget ops"

lemma queue_update_tokens:
  "br_residents (snd (queue_update c v p s)) = br_residents s"
  "br_next_generation (snd (queue_update c v p s)) = br_next_generation s"
  by (auto simp: queue_update_def Let_def)

lemma evict_current:
  assumes wf: "residency_wf s"
  shows "is_current (snd (brick_evict c s)) d a \<longleftrightarrow> d \<noteq> c \<and> is_current s d a"
    "br_next_generation (snd (brick_evict c s)) = br_next_generation s"
proof -
  have "btree_wf (br_residents s)" using wf by (simp add: residency_wf_def)
  then show "is_current (snd (brick_evict c s)) d a \<longleftrightarrow> d \<noteq> c \<and> is_current s d a"
    by (auto simp: brick_evict_eq [OF wf] is_current_def brick_address_of_def btree_get_remove split: option.splits)
  show "br_next_generation (snd (brick_evict c s)) = br_next_generation s"
    by (simp add: brick_evict_eq [OF wf] split: option.splits)
qed

lemma ops_tokens:
  assumes "residency_wf s" "unat (br_next_generation s) + drain_budget ops \<le> u64_max"
  shows "residency_wf (fold brick_apply ops s) \<and>
    (tokens_fresh s \<longrightarrow> tokens_fresh (fold brick_apply ops s)) \<and>
    (retired g s \<longrightarrow> retired g (fold brick_apply ops s)) \<and>
    unat (br_next_generation (fold brick_apply ops s)) \<le> unat (br_next_generation s) + drain_budget ops"
  using assms
proof (induction ops arbitrary: s)
  case (Cons op ops)
  let ?t = "brick_apply op s"
  have wf: "residency_wf ?t" by (rule brick_apply_wf [OF Cons.prems(1)])
  have one: "(tokens_fresh s \<longrightarrow> tokens_fresh ?t) \<and> (retired g s \<longrightarrow> retired g ?t) \<and>
      unat (br_next_generation ?t) + drain_budget ops \<le> unat (br_next_generation s) + drain_budget (op # ops)"
  proof (cases op)
    case (DrainOp n)
    have "unat (br_next_generation s) + n \<le> u64_max" using Cons.prems(2) by (simp add: DrainOp)
    from drain_uploads_tokens [OF this] show ?thesis by (simp add: DrainOp)
  next
    case (EvictOp c)
    show ?thesis using evict_current [OF Cons.prems(1), of c]
      by (simp add: EvictOp tokens_fresh_def retired_def) blast
  qed (simp add: queue_update_tokens tokens_fresh_def retired_def is_current_def brick_address_of_def)
  then have "unat (br_next_generation ?t) + drain_budget ops \<le> u64_max" using Cons.prems(2) by linarith
  from Cons.IH [OF wf this] one show ?case by auto
qed simp


section \<open>Properties\<close>

lemma current_slot:
  assumes wf: "residency_wf s"
  shows "is_current s c a \<Longrightarrow> get_at (br_slots s) (unat (ba_slot a)) = Some (Some c)"
    and "get_at (br_slots s) i = Some (Some c) \<Longrightarrow> \<exists>a. is_current s c a \<and> unat (ba_slot a) = i"
proof -
  have ag: "slots_agree (br_slots s) (br_residents s)" using wf by (simp add: residency_wf_def)
  show "get_at (br_slots s) (unat (ba_slot a)) = Some (Some c)" if "is_current s c a"
  proof -
    from that obtain r where r: "btree_get (br_residents s) c = Some r" "re_address r = a"
      by (auto simp: is_current_def brick_address_of_def)
    then have "unat (ba_slot a) < length (br_slots s)" using ag unfolding slots_agree_def by blast
    with r ag show ?thesis unfolding slots_agree_def get_at_def by auto
  qed
  show "\<exists>a. is_current s c a \<and> unat (ba_slot a) = i" if "get_at (br_slots s) i = Some (Some c)"
  proof -
    from that have i: "i < length (br_slots s)" "br_slots s ! i = Some c" by (auto simp: get_at_def split: if_splits)
    with ag obtain r where "btree_get (br_residents s) c = Some r" "unat (ba_slot (re_address r)) = i"
      unfolding slots_agree_def by blast
    then show ?thesis by (auto simp: is_current_def brick_address_of_def)
  qed
qed

lemma brick_index_onto:
  assumes "i < BRICK_VOXEL_COUNT"
  shows "\<exists>v. brick_of_voxel v = c \<and> brick_voxel_index v = i"
proof (intro exI conjI)
  let ?v = "(8 * bc_x c + int (i mod 8), 8 * bc_y c + int (i div 64), 8 * bc_z c + int (i div 8 mod 8))"
  have "i < 512" using assms by (simp add: BRICK_VOXEL_COUNT_def BRICK_EDGE_def)
  then have "i div 64 < 8" by auto
  moreover have "i = i mod 8 + (i div 8 mod 8) * 8 + i div 64 * 64"
  proof -
    have "i div 64 = i div 8 div 8" using div_mult2_eq [of i 8 8] by simp
    moreover have "i = 8 * (i div 8) + i mod 8" "i div 8 = 8 * (i div 8 div 8) + i div 8 mod 8" by simp_all
    ultimately show ?thesis by linarith
  qed
  ultimately show "brick_of_voxel ?v = c" "brick_voxel_index ?v = i"
    by (simp_all add: brick_of_voxel_def brick_voxel_index_def brick_at_def BRICK_EDGE_def Let_def nat_add_distrib)
qed

lemma resident_non_empty:
  assumes wf: "residency_wf s" and r: "btree_get (br_residents s) c = Some r"
  shows "re_non_empty r \<longleftrightarrow> (\<exists>v m. brick_of_voxel v = c \<and> sample s v = Some m \<and> m \<noteq> 0)"
proof -
  have p: "length (re_payload r) = BRICK_VOXEL_COUNT" "re_non_empty r = (\<exists>m \<in> set (re_payload r). m \<noteq> 0)"
    using wf r unfolding residency_wf_def payload_ok_def by blast+
  have s: "sample s v = Some (re_payload r ! brick_voxel_index v)" if "brick_of_voxel v = c" for v
    using that r p brick_index_bound [of v] by (simp add: sample_def get_at_def)
  show ?thesis
  proof
    assume "re_non_empty r"
    then obtain i where i: "i < length (re_payload r)" "re_payload r ! i \<noteq> 0" using p by (auto simp: in_set_conv_nth)
    with p brick_index_onto obtain v where "brick_of_voxel v = c" "brick_voxel_index v = i" by metis
    with s i show "\<exists>v m. brick_of_voxel v = c \<and> sample s v = Some m \<and> m \<noteq> 0" by metis
  next
    assume "\<exists>v m. brick_of_voxel v = c \<and> sample s v = Some m \<and> m \<noteq> 0"
    then obtain v where "brick_of_voxel v = c" "re_payload r ! brick_voxel_index v \<noteq> 0" using s by auto
    moreover have "re_payload r ! brick_voxel_index v \<in> set (re_payload r)" using p(1) brick_index_bound [of v] by simp
    ultimately show "re_non_empty r" using p(2) by blast
  qed
qed

definition solid_payload :: "u8 list" where
  "solid_payload = replicate BRICK_VOXEL_COUNT 7"

definition sample_ops :: "brick_op list" where
  "sample_ops = [QueueOp (brick_at 0 0 0) 1 solid_payload, DrainOp 1]"

definition sample_residency :: brick_residency where
  "sample_residency = fold brick_apply sample_ops (residency_new 1)"

lemma solid_payload_simps [simp]: "length solid_payload = BRICK_VOXEL_COUNT" "list_ex (\<lambda>m. m \<noteq> 0) solid_payload"
  by (simp_all add: solid_payload_def list_ex_iff BRICK_VOXEL_COUNT_def BRICK_EDGE_def)

lemma sample_residency_eq:
  "sample_residency = \<lparr>br_slots = [Some (brick_at 0 0 0)],
     br_residents = [(brick_at 0 0 0, \<lparr>re_address = \<lparr>ba_slot = 0, ba_generation = 1\<rparr>, re_revision = 1,
       re_payload = solid_payload, re_non_empty = True\<rparr>)],
     br_pending = [], br_sequence = 1, br_next_generation = advance_generation 1, br_pending_capacity = 4\<rparr>"
  by (simp add: sample_residency_def sample_ops_def residency_new_def queue_update_def brick_revision_def btree_contains_def
      drain_one_def next_upload_def min_by_key_def upload_address_def Option.is_none_def)

lemma brick_step_fold: "brick_step\<^sup>*\<^sup>* s (fold brick_apply ops s)"
proof (induction ops arbitrary: s)
  case (Cons op ops)
  have "brick_step s (brick_apply op s)" by (auto simp: brick_step_def)
  then show ?case using Cons.IH [of "brick_apply op s"] by simp
qed simp

lemma sample_residency_reach:
  "brick_start 1 (residency_new 1)" "brick_step\<^sup>*\<^sup>* (residency_new 1) sample_residency"
  by (simp_all add: brick_start_def sample_residency_def brick_step_fold)

text \<open>
  C24: after any run of updates, drains and evictions, an occupied slot names the brick that carries
  its address and every resident brick names the slot it occupies, so no two bricks share a slot and
  residency never exceeds the capacity; the queue respects its bound; every payload, resident or
  pending, is a complete brick of a nonzero revision, so that sampling fails for exactly the voxels of
  bricks that are not resident; and the emptiness flag listed for a brick is true exactly when some
  voxel of the brick samples a nonzero material.
\<close>

theorem residency_sound:
  assumes "brick_start capacity s0" "brick_step\<^sup>*\<^sup>* s0 s"
  shows "resident_len s \<le> brick_capacity s \<and> pending_len s \<le> br_pending_capacity s \<and>
    (\<forall>c a. is_current s c a \<longrightarrow> get_at (br_slots s) (unat (ba_slot a)) = Some (Some c)) \<and>
    (\<forall>i c. get_at (br_slots s) i = Some (Some c) \<longrightarrow> (\<exists>a. is_current s c a \<and> unat (ba_slot a) = i)) \<and>
    (\<forall>c r. btree_get (br_residents s) c = Some r \<longrightarrow> re_revision r \<noteq> 0 \<and> length (re_payload r) = BRICK_VOXEL_COUNT) \<and>
    (\<forall>c p. btree_get (br_pending s) c = Some p \<longrightarrow> pb_revision p \<noteq> 0 \<and> length (pb_payload p) = BRICK_VOXEL_COUNT) \<and>
    (\<forall>v. sample s v = None \<longleftrightarrow> brick_address_of s (brick_of_voxel v) = None) \<and>
    (\<forall>(c, a, occupied) \<in> set (resident_bricks s). is_current s c a \<and>
       (occupied \<longleftrightarrow> (\<exists>v m. brick_of_voxel v = c \<and> sample s v = Some m \<and> m \<noteq> 0)))"
proof -
  have wf: "residency_wf s" by (rule brick_reach_wf [OF assms])
  then have w: "btree_wf (br_residents s)" by (simp add: residency_wf_def)
  have "is_current s c a \<and> (occupied \<longleftrightarrow> (\<exists>v m. brick_of_voxel v = c \<and> sample s v = Some m \<and> m \<noteq> 0))"
    if "(c, a, occupied) \<in> set (resident_bricks s)" for c a occupied
  proof -
    from that obtain r where "(c, r) \<in> set (br_residents s)" "a = re_address r" "occupied = re_non_empty r"
      by (auto simp: resident_bricks_def)
    then have "btree_get (br_residents s) c = Some r" using w by (simp add: btree_get_iff)
    with resident_non_empty [OF wf this] \<open>a = _\<close> \<open>occupied = _\<close> show ?thesis
      by (simp add: is_current_def brick_address_of_def)
  qed
  moreover have "pending_len s \<le> br_pending_capacity s" using wf by (simp add: residency_wf_def pending_len_def)
  moreover have full: "\<forall>c r. btree_get (br_residents s) c = Some r \<longrightarrow> re_revision r \<noteq> 0 \<and> length (re_payload r) = BRICK_VOXEL_COUNT"
    "\<forall>c p. btree_get (br_pending s) c = Some p \<longrightarrow> pb_revision p \<noteq> 0 \<and> length (pb_payload p) = BRICK_VOXEL_COUNT"
    using wf unfolding residency_wf_def payload_ok_def by blast+
  moreover have "sample s v = None \<longleftrightarrow> brick_address_of s (brick_of_voxel v) = None" for v
    using full(1) brick_index_bound [of v]
    by (cases "btree_get (br_residents s) (brick_of_voxel v)") (simp_all add: sample_def brick_address_of_def get_at_def)
  ultimately show ?thesis using residents_within_slots [OF wf] current_slot [OF wf] by blast
qed

theorem residency_sound_witness:
  "is_current sample_residency (brick_at 0 0 0) \<lparr>ba_slot = 0, ba_generation = 1\<rparr> \<and>
   get_at (br_slots sample_residency) 0 = Some (Some (brick_at 0 0 0)) \<and>
   sample sample_residency (8, 0, 0) = None \<and>
   (\<exists>v m. brick_of_voxel v = brick_at 0 0 0 \<and> sample sample_residency v = Some m \<and> m \<noteq> 0)"
proof -
  have "is_current sample_residency (brick_at 0 0 0) \<lparr>ba_slot = 0, ba_generation = 1\<rparr>"
    "(brick_at 0 0 0, \<lparr>ba_slot = 0, ba_generation = 1\<rparr>, True) \<in> set (resident_bricks sample_residency)"
    by (simp_all add: sample_residency_eq is_current_def brick_address_of_def resident_bricks_def)
  moreover note sound = residency_sound [OF sample_residency_reach]
  then have "\<forall>(c, a, occupied) \<in> set (resident_bricks sample_residency). is_current sample_residency c a \<and>
      (occupied \<longleftrightarrow> (\<exists>v m. brick_of_voxel v = c \<and> sample sample_residency v = Some m \<and> m \<noteq> 0))" by blast
  moreover have "get_at (br_slots sample_residency) (unat (0 :: u32)) = Some (Some (brick_at 0 0 0))"
    using sound calculation(1) by fastforce
  moreover have "sample sample_residency (8, 0, 0) = None \<longleftrightarrow> brick_address_of sample_residency (brick_of_voxel (8, 0, 0)) = None"
    using sound by blast
  moreover have "brick_address_of sample_residency (brick_of_voxel (8, 0, 0)) = None"
    by (simp add: brick_address_of_def brick_of_voxel_def sample_residency_eq brick_at_def BRICK_EDGE_def)
  ultimately show ?thesis by fastforce
qed

text \<open>
  C25: an address token outlives its brick as a refusal. Once a brick holding an address is evicted,
  no later run of updates, drains and evictions makes that address current again, for that brick or
  any other, whichever slot is reused, as long as fewer than 2^64 - 1 uploads were requested in all
  (the generation counter wraps there).
\<close>

theorem evicted_address_never_current:
  assumes "capacity \<le> u32_max" and s: "s = fold brick_apply before (residency_new capacity)"
    and cur: "is_current s c a" and t: "t = fold brick_apply after (snd (brick_evict c s))"
    and budget: "drain_budget before + drain_budget after < u64_max"
  shows "\<not> is_current t d a"
proof -
  let ?s0 = "residency_new capacity" and ?e = "snd (brick_evict c s)"
  have "residency_wf ?s0" "tokens_fresh ?s0" "unat (br_next_generation ?s0) = 1"
    using residency_new_wf [OF assms(1)] by (simp_all add: residency_new_def tokens_fresh_def is_current_def brick_address_of_def)
  with ops_tokens [of ?s0 before] budget have m: "residency_wf s" "tokens_fresh s"
    "unat (br_next_generation s) \<le> 1 + drain_budget before" by (simp_all add: s)
  note e = evict_current [OF m(1), of c]
  have "retired (ba_generation a) ?e"
    using m(2) cur unfolding retired_def e tokens_fresh_def by metis
  moreover have "unat (br_next_generation ?e) + drain_budget after \<le> u64_max" using m(3) budget by (simp add: e(2))
  ultimately have "retired (ba_generation a) t"
    using ops_tokens [OF brick_evict_wf [OF m(1), of c]] by (simp add: t)
  then show ?thesis by (auto simp: retired_def)
qed

theorem evicted_address_never_current_witness:
  "\<not> is_current (fold brick_apply [QueueOp (brick_at 5 0 0) 1 solid_payload, DrainOp 3]
       (snd (brick_evict (brick_at 0 0 0) sample_residency)))
     (brick_at 5 0 0) \<lparr>ba_slot = 0, ba_generation = 1\<rparr>"
proof (rule evicted_address_never_current [where before = sample_ops and capacity = 1 and c = "brick_at 0 0 0"])
  show "sample_residency = fold brick_apply sample_ops (residency_new 1)" by (simp add: sample_residency_def)
  show "is_current sample_residency (brick_at 0 0 0) \<lparr>ba_slot = 0, ba_generation = 1\<rparr>"
    by (simp add: sample_residency_eq is_current_def brick_address_of_def)
  show "drain_budget sample_ops + drain_budget [QueueOp (brick_at 5 0 0) 1 solid_payload, DrainOp 3] < u64_max"
    by (simp add: sample_ops_def)
qed simp_all

text \<open>
  C34: draining uploads at most the requested number of bricks, each once, with the revision and
  payload that were pending for it; exactly those leave the queue and become what \<open>sample\<close> and the
  address table report; every brick that had an address keeps it; and the drain stops short of its
  budget only when no queued brick could be uploaded.
\<close>

theorem drain_uploads_exact:
  assumes "brick_start capacity s0" "brick_step\<^sup>*\<^sup>* s0 s" and d: "drain_uploads n s = (us, t)"
  shows "length us \<le> n \<and> distinct (map bu_coord us) \<and> (\<forall>u \<in> set us. upload_applied s t u) \<and>
    (\<forall>c. c \<notin> bu_coord ` set us \<longrightarrow> btree_get (br_residents t) c = btree_get (br_residents s) c \<and>
       btree_get (br_pending t) c = btree_get (br_pending s) c) \<and>
    (\<forall>c a. is_current s c a \<longrightarrow> is_current t c a) \<and>
    (length us < n \<longrightarrow> (\<forall>c. btree_contains (br_pending t) c \<longrightarrow>
       None \<notin> set (br_slots t) \<and> \<not> btree_contains (br_residents t) c))"
proof -
  have wf: "residency_wf s" by (rule brick_reach_wf [OF assms(1,2)])
  note spec = drain_uploads_spec [OF wf d]
  have "residency_wf t" using drain_uploads_wf [OF wf, of n] d by simp
  then have "next_upload t = None \<longleftrightarrow> (\<forall>c. btree_contains (br_pending t) c \<longrightarrow>
      position Option.is_none (br_slots t) = None \<and> \<not> btree_contains (br_residents t) c)"
    by (intro next_upload_None) (simp add: residency_wf_def)
  then have "next_upload t = None \<Longrightarrow> (\<forall>c. btree_contains (br_pending t) c \<longrightarrow>
      None \<notin> set (br_slots t) \<and> \<not> btree_contains (br_residents t) c)"
    by (auto simp: position_None Option.is_none_def)
  with spec show ?thesis by blast
qed

theorem drain_uploads_exact_witness:
  "\<exists>us t. drain_uploads 2 (snd (queue_update (brick_at 0 0 0) 9 solid_payload sample_residency)) = (us, t) \<and>
     length us \<le> 2 \<and> is_current t (brick_at 0 0 0) \<lparr>ba_slot = 0, ba_generation = 1\<rparr>"
proof -
  let ?s = "snd (queue_update (brick_at 0 0 0) 9 solid_payload sample_residency)"
  have "brick_step sample_residency ?s" unfolding brick_step_def by (metis brick_apply.simps(1))
  with sample_residency_reach(2) have r: "brick_step\<^sup>*\<^sup>* (residency_new 1) ?s" by simp
  have c: "is_current ?s (brick_at 0 0 0) \<lparr>ba_slot = 0, ba_generation = 1\<rparr>"
    by (simp add: is_current_def brick_address_of_def queue_update_tokens) (simp add: sample_residency_eq)
  obtain us t where d: "drain_uploads 2 ?s = (us, t)" by (cases "drain_uploads 2 ?s")
  from drain_uploads_exact [OF sample_residency_reach(1) r d] c d show ?thesis by blast
qed

text \<open>
  C26: the staleness test looks only at the resident revision. When a resident brick has a newer
  update queued, a later call with an older revision (above the resident one) is accepted as a
  replacement, and the next upload of the brick carries the older revision: the newest edit is lost.
\<close>

theorem pending_revision_regresses:
  assumes "btree_get (br_residents s) c = Some r" "btree_get (br_pending s) c = Some p"
    and "re_revision r < revision" "revision < pb_revision p" "length payload = BRICK_VOXEL_COUNT"
  shows "\<exists>s'. queue_update c revision payload s = (ReplacedPending, s') \<and>
    map_option pb_revision (btree_get (br_pending s') c) = Some revision \<and>
    map_option pb_payload (btree_get (br_pending s') c) = Some payload"
proof -
  have "revision \<noteq> 0" using assms(3) by auto
  then show ?thesis using assms
    by (simp add: queue_update_def brick_revision_def btree_contains_def Let_def btree_get_insert not_le)
qed


theorem pending_revision_regresses_witness:
  "\<exists>s'. queue_update (brick_at 0 0 0) 3 solid_payload
      (snd (queue_update (brick_at 0 0 0) 5 solid_payload sample_residency)) = (ReplacedPending, s') \<and>
    map_option pb_revision (btree_get (br_pending s') (brick_at 0 0 0)) = Some 3"
proof -
  let ?s = "snd (queue_update (brick_at 0 0 0) 5 solid_payload sample_residency)"
  let ?r = "\<lparr>re_address = \<lparr>ba_slot = 0, ba_generation = 1\<rparr>, re_revision = 1, re_payload = solid_payload, re_non_empty = True\<rparr>"
  let ?p = "\<lparr>pb_revision = 5, pb_payload = solid_payload, pb_sequence = 2\<rparr>"
  have "btree_get (br_residents ?s) (brick_at 0 0 0) = Some ?r" "btree_get (br_pending ?s) (brick_at 0 0 0) = Some ?p"
    by (simp_all add: sample_residency_eq queue_update_def brick_revision_def btree_contains_def word_le_nat_alt)
  from pending_revision_regresses [OF this, of 3 solid_payload] show ?thesis by (auto simp: word_less_nat_alt)
qed

end
