(* ===== verification/Brick_Hash.thy ===== *)
theory Brick_Hash
  imports Brick_Residency
begin

text \<open>
  The open-addressing spatial index of the traversal atlas (\<open>render/src/brick_hash.rs\<close>) and its
  rebuilding from the resident bricks (\<open>render/src/brick_gpu.rs\<close>). Entries keep the layout of the GPU
  buffer, indices and hashes are 32-bit words.
\<close>

section \<open>The table\<close>

definition INVALID_SLOT :: u32 where "INVALID_SLOT = - 1"
definition RESIDENT_EMPTY :: u32 where "RESIDENT_EMPTY = 1"
definition RESIDENT_NON_EMPTY :: u32 where "RESIDENT_NON_EMPTY = 2"

record hash_entry =
  he_coord :: "int list"
  he_metadata :: "u32 list"

definition EMPTY_ENTRY :: hash_entry where
  "EMPTY_ENTRY = \<lparr>he_coord = [0, 0, 0, 0], he_metadata = [INVALID_SLOT, 0, 0, 0]\<rparr>"

definition entry_is_empty :: "hash_entry \<Rightarrow> bool" where
  "entry_is_empty e \<longleftrightarrow> he_metadata e ! 0 = INVALID_SLOT"

record hash_item =
  hi_coord :: brick_coord
  hi_address :: brick_address
  hi_non_empty :: bool

record hash_table =
  ht_entries :: "hash_entry list"
  ht_mask :: u32

datatype hash_error = InvalidHashCapacity | DuplicateCoordinate brick_coord | HashTableFull

definition is_power_of_two :: "nat \<Rightarrow> bool" where
  "is_power_of_two n \<longleftrightarrow> list_ex (\<lambda>k. n = 2 ^ k) [0..<32]"

definition hash_new :: "nat \<Rightarrow> hash_error + hash_table" where
  "hash_new capacity =
     (if capacity < 2 \<or> \<not> is_power_of_two capacity then Inl InvalidHashCapacity
      else Inr \<lparr>ht_entries = replicate capacity EMPTY_ENTRY, ht_mask = word_of_nat (capacity - 1)\<rparr>)"

definition hash_capacity :: "hash_table \<Rightarrow> nat" where
  "hash_capacity t = length (ht_entries t)"

definition hash_clear :: "hash_table \<Rightarrow> hash_table" where
  "hash_clear t = t\<lparr>ht_entries := map (\<lambda>_. EMPTY_ENTRY) (ht_entries t)\<rparr>"

definition brick_hash :: "brick_coord \<Rightarrow> u32" where
  "brick_hash c =
     (let h0 = 2166136261;
          h1 = xor h0 (word_of_int (bc_x c)) * 16777619;
          h2 = xor h1 (word_of_int (bc_y c)) * 16777619
      in xor h2 (word_of_int (bc_z c)) * 16777619)"

definition probe_index :: "u32 \<Rightarrow> brick_coord \<Rightarrow> nat \<Rightarrow> nat" where
  "probe_index msk c probe = unat (and (and (brick_hash c) msk + word_of_nat probe) msk)"

definition coord_words :: "brick_coord \<Rightarrow> int list" where
  "coord_words c = [bc_x c, bc_y c, bc_z c]"

definition encode_item :: "hash_item \<Rightarrow> hash_entry" where
  "encode_item item =
     \<lparr>he_coord = coord_words (hi_coord item) @ [0],
      he_metadata = [ba_slot (hi_address item), low_word (ba_generation (hi_address item)),
        high_word (ba_generation (hi_address item)),
        if hi_non_empty item then RESIDENT_NON_EMPTY else RESIDENT_EMPTY]\<rparr>"

fun insert_probe :: "hash_item \<Rightarrow> u32 \<Rightarrow> hash_entry list \<Rightarrow> nat list \<Rightarrow> hash_error + hash_entry list" where
  "insert_probe item msk entries [] = Inl HashTableFull"
| "insert_probe item msk entries (probe # probes) =
     (let index = probe_index msk (hi_coord item) probe; entry = entries ! index in
      if entry_is_empty entry then Inr (entries[index := encode_item item])
      else if take 3 (he_coord entry) = coord_words (hi_coord item) then Inl (DuplicateCoordinate (hi_coord item))
      else insert_probe item msk entries probes)"

definition hash_insert :: "hash_item \<Rightarrow> hash_table \<Rightarrow> hash_error + hash_table" where
  "hash_insert item t =
     (case insert_probe item (ht_mask t) (ht_entries t) [0..<length (ht_entries t)] of
        Inl e \<Rightarrow> Inl e
      | Inr entries \<Rightarrow> Inr (t\<lparr>ht_entries := entries\<rparr>))"

fun hash_insert_all :: "hash_item list \<Rightarrow> hash_table \<Rightarrow> hash_error + hash_table" where
  "hash_insert_all [] t = Inr t"
| "hash_insert_all (item # items) t =
     (case hash_insert item t of Inl e \<Rightarrow> Inl e | Inr t' \<Rightarrow> hash_insert_all items t')"

definition hash_rebuild :: "hash_item list \<Rightarrow> hash_table \<Rightarrow> hash_error option \<times> hash_table" where
  "hash_rebuild items t =
     (case hash_insert_all items \<lparr>ht_entries = replicate (length (ht_entries t)) EMPTY_ENTRY, ht_mask = ht_mask t\<rparr> of
        Inl e \<Rightarrow> (Some e, t)
      | Inr candidate \<Rightarrow> (None, t\<lparr>ht_entries := ht_entries candidate\<rparr>))"

fun lookup_probe :: "brick_coord \<Rightarrow> u32 \<Rightarrow> hash_entry list \<Rightarrow> nat list \<Rightarrow> (u32 \<times> bool) option" where
  "lookup_probe c msk entries [] = None"
| "lookup_probe c msk entries (probe # probes) =
     (let entry = entries ! probe_index msk c probe in
      if entry_is_empty entry then None
      else if take 3 (he_coord entry) = coord_words c
      then Some (he_metadata entry ! 0, he_metadata entry ! 3 = RESIDENT_NON_EMPTY)
      else lookup_probe c msk entries probes)"

definition hash_lookup :: "hash_table \<Rightarrow> brick_coord \<Rightarrow> (u32 \<times> bool) option" where
  "hash_lookup t c = lookup_probe c (ht_mask t) (ht_entries t) [0..<length (ht_entries t)]"

section \<open>Probe sequences\<close>

definition table_ok :: "hash_table \<Rightarrow> bool" where
  "table_ok t \<longleftrightarrow> (\<exists>k < 32. length (ht_entries t) = 2 ^ k \<and> ht_mask t = mask k)"

lemma hash_new_ok: "hash_new capacity = Inr t \<Longrightarrow> table_ok t \<and> hash_capacity t = capacity"
proof -
  assume n: "hash_new capacity = Inr t"
  then obtain k where k: "k < 32" "capacity = 2 ^ k"
    by (auto simp: hash_new_def is_power_of_two_def list_ex_iff split: if_splits)
  have "(word_of_nat (2 ^ k - 1) :: u32) = mask k" by (simp add: mask_eq_exp_minus_1 of_nat_diff)
  then show ?thesis using n k by (auto simp: hash_new_def table_ok_def hash_capacity_def split: if_splits)
qed

lemma probe_index_mod:
  assumes "k < 32" "p < 2 ^ k"
  shows "probe_index (mask k) c p = (unat (brick_hash c) + p) mod 2 ^ k"
proof -
  have a: "unat (and w (mask k)) = unat w mod 2 ^ k" for w :: u32
    by (simp add: take_bit_eq_mask [symmetric] unsigned_take_bit_eq) (simp add: take_bit_eq_mod)
  have "(2::nat) ^ k \<le> 2 ^ 31" using assms(1) by (intro power_increasing) auto
  then have "unat (word_of_nat p :: u32) = p" using assms(2) by (simp add: unat_of_nat take_bit_nat_eq_self_iff)
  moreover have "(unat (brick_hash c) mod 2 ^ k + p) mod 2 ^ 32 mod 2 ^ k = (unat (brick_hash c) mod 2 ^ k + p) mod (2 ^ k :: nat)"
    by (intro mod_mod_cancel le_imp_power_dvd) (use assms(1) in simp)
  ultimately show ?thesis by (simp add: probe_index_def a unat_word_ariths mod_add_left_eq)
qed

lemma probe_index_bij:
  assumes "k < 32" shows "probe_index (mask k) c ` {0..<2 ^ k} = {0..<2 ^ k}" "inj_on (probe_index (mask k) c) {0..<2 ^ k}"
proof -
  have m: "probe_index (mask k) c p = (unat (brick_hash c) + p) mod 2 ^ k" if "p \<in> {0..<2 ^ k}" for p
    using probe_index_mod [OF assms] that by simp
  show inj: "inj_on (probe_index (mask k) c) {0..<2 ^ k}"
  proof (rule inj_onI)
    fix p q assume pq: "p \<in> {0..<2 ^ k}" "q \<in> {0..<(2::nat) ^ k}" "probe_index (mask k) c p = probe_index (mask k) c q"
    then have "(unat (brick_hash c) + p) mod 2 ^ k = (unat (brick_hash c) + q) mod 2 ^ k" by (simp add: m)
    then have "int (unat (brick_hash c) + p) mod int (2 ^ k) = int (unat (brick_hash c) + q) mod int (2 ^ k)"
      by (simp only: of_nat_mod [symmetric])
    then have "int (2 ^ k) dvd int p - int q" by (simp add: mod_eq_dvd_iff)
    then have "int p mod int (2 ^ k) = int q mod int (2 ^ k)" by (simp only: mod_eq_dvd_iff)
    then have "p mod 2 ^ k = q mod 2 ^ k" by (simp only: of_nat_mod [symmetric] of_nat_eq_iff)
    then show "p = q" using pq by simp
  qed
  have "probe_index (mask k) c ` {0..<2 ^ k} \<subseteq> {0..<2 ^ k}" using m by auto
  then show "probe_index (mask k) c ` {0..<2 ^ k} = {0..<2 ^ k}"
    using inj by (intro card_subset_eq) (auto simp: card_image)
qed


section \<open>What a table holds\<close>

definition item_ok :: "hash_item \<Rightarrow> bool" where
  "item_ok item \<longleftrightarrow> ba_slot (hi_address item) \<noteq> INVALID_SLOT"

definition item_value :: "hash_item \<Rightarrow> u32 \<times> bool" where
  "item_value item = (ba_slot (hi_address item), hi_non_empty item)"

lemma coord_words_inj [simp]: "coord_words c = coord_words d \<longleftrightarrow> c = d"
  by (auto simp: coord_words_def)

lemma encode_item_simps [simp]:
  "take 3 (he_coord (encode_item item)) = coord_words (hi_coord item)"
  "entry_is_empty (encode_item item) \<longleftrightarrow> \<not> item_ok item"
  "he_metadata (encode_item item) ! 0 = ba_slot (hi_address item)"
  "(he_metadata (encode_item item) ! 3 = RESIDENT_NON_EMPTY) = hi_non_empty item"
  by (simp_all add: encode_item_def coord_words_def entry_is_empty_def item_ok_def RESIDENT_NON_EMPTY_def RESIDENT_EMPTY_def)

lemma empty_entry_is_empty [simp]: "entry_is_empty EMPTY_ENTRY"
  by (simp add: entry_is_empty_def EMPTY_ENTRY_def)

text \<open>The entries of a table that holds the items inserted so far: every occupied entry is one of
  them, as many as there are items, and each is reached from its hash before any empty entry.\<close>

definition holds :: "nat \<Rightarrow> hash_entry list \<Rightarrow> hash_item list \<Rightarrow> bool" where
  "holds k entries items \<longleftrightarrow>
     length entries = 2 ^ k \<and> distinct (map hi_coord items) \<and>
     length (filter (\<lambda>e. \<not> entry_is_empty e) entries) = length items \<and>
     (\<forall>e \<in> set entries. \<not> entry_is_empty e \<longrightarrow> (\<exists>item \<in> set items. e = encode_item item)) \<and>
     (\<forall>item \<in> set items. item_ok item \<and> (\<exists>j < 2 ^ k.
        entries ! probe_index (mask k) (hi_coord item) j = encode_item item \<and>
        (\<forall>j' < j. \<not> entry_is_empty (entries ! probe_index (mask k) (hi_coord item) j') \<and>
           take 3 (he_coord (entries ! probe_index (mask k) (hi_coord item) j')) \<noteq> coord_words (hi_coord item))))"

lemma holds_empty: "holds k (replicate (2 ^ k) EMPTY_ENTRY) []"
  by (simp add: holds_def)

lemma lookup_probe_hit:
  assumes "i \<le> j" "j < n" "entries ! probe_index m c j = encode_item item" "hi_coord item = c" "item_ok item"
    "\<forall>j' < j. \<not> entry_is_empty (entries ! probe_index m c j') \<and> take 3 (he_coord (entries ! probe_index m c j')) \<noteq> coord_words c"
  shows "lookup_probe c m entries [i..<n] = Some (item_value item)"
  using assms
proof (induction "j - i" arbitrary: i)
  case 0
  then have "i = j" by simp
  with 0 show ?case by (simp add: upt_conv_Cons item_value_def)
next
  case (Suc d)
  then have "i < j" "d = j - Suc i" by simp_all
  with Suc show ?case by (simp add: upt_conv_Cons)
qed

lemma lookup_probe_miss:
  assumes "\<forall>j \<in> set js. \<not> entry_is_empty (entries ! probe_index m c j) \<longrightarrow>
    take 3 (he_coord (entries ! probe_index m c j)) \<noteq> coord_words c"
  shows "lookup_probe c m entries js = None"
  using assms by (induction js) (auto simp: Let_def)

lemma probe_index_less: "k < 32 \<Longrightarrow> j < 2 ^ k \<Longrightarrow> probe_index (mask k) c j < 2 ^ k"
  by (simp add: probe_index_mod)

lemma holds_occupied:
  assumes h: "holds k entries items" and k: "k < 32" and j: "j < 2 ^ k"
    and ne: "\<not> entry_is_empty (entries ! probe_index (mask k) c j)"
  shows "\<exists>item \<in> set items. take 3 (he_coord (entries ! probe_index (mask k) c j)) = coord_words (hi_coord item)"
proof -
  have "entries ! probe_index (mask k) c j \<in> set entries"
    using h probe_index_less [OF k j] by (simp add: holds_def)
  with h ne obtain item where "item \<in> set items" "entries ! probe_index (mask k) c j = encode_item item"
    unfolding holds_def by blast
  then show ?thesis by auto
qed

lemma holds_lookup:
  assumes h: "holds k entries items" and k: "k < 32"
  shows "lookup_probe c (mask k) entries [0..<2 ^ k] = map_of (map (\<lambda>item. (hi_coord item, item_value item)) items) c"
proof (cases "\<exists>item \<in> set items. hi_coord item = c")
  case True
  then obtain item where i: "item \<in> set items" "hi_coord item = c" by blast
  with h obtain j where j: "j < 2 ^ k" "entries ! probe_index (mask k) c j = encode_item item" "item_ok item"
    "\<forall>j' < j. \<not> entry_is_empty (entries ! probe_index (mask k) c j') \<and>
       take 3 (he_coord (entries ! probe_index (mask k) c j')) \<noteq> coord_words c"
    unfolding holds_def by blast
  have "lookup_probe c (mask k) entries [0..<2 ^ k] = Some (item_value item)"
    by (rule lookup_probe_hit [of 0 j]) (use i j in auto)
  moreover have "map_of (map (\<lambda>item. (hi_coord item, item_value item)) items) c = Some (item_value item)"
    using h i by (intro map_of_is_SomeI) (force simp: holds_def comp_def)+
  ultimately show ?thesis by simp
next
  case False
  have "lookup_probe c (mask k) entries [0..<2 ^ k] = None"
  proof (rule lookup_probe_miss, intro ballI impI)
    fix j assume j: "j \<in> set [0..<2 ^ k]" and ne: "\<not> entry_is_empty (entries ! probe_index (mask k) c j)"
    have "j < 2 ^ k" using j by simp
    from holds_occupied [OF h k this ne] False
    show "take 3 (he_coord (entries ! probe_index (mask k) c j)) \<noteq> coord_words c" by auto
  qed
  moreover have "map_of (map (\<lambda>item. (hi_coord item, item_value item)) items) c = None"
    using False by (auto simp: map_of_eq_None_iff)
  ultimately show ?thesis by simp
qed


lemma insert_probe_place:
  assumes "i \<le> j" "j < n" "entry_is_empty (entries ! probe_index m (hi_coord item) j)"
    "\<forall>j' < j. \<not> entry_is_empty (entries ! probe_index m (hi_coord item) j') \<and>
       take 3 (he_coord (entries ! probe_index m (hi_coord item) j')) \<noteq> coord_words (hi_coord item)"
  shows "insert_probe item m entries [i..<n] = Inr (entries[probe_index m (hi_coord item) j := encode_item item])"
  using assms
proof (induction "j - i" arbitrary: i)
  case 0
  then have "i = j" by simp
  with 0 show ?case by (simp add: upt_conv_Cons)
next
  case (Suc d)
  then have "i < j" "d = j - Suc i" by simp_all
  with Suc show ?case by (simp add: upt_conv_Cons)
qed

lemma insert_probe_full:
  assumes "\<forall>j \<in> set js. \<not> entry_is_empty (entries ! probe_index m (hi_coord item) j)"
  shows "\<exists>e. insert_probe item m entries js = Inl e"
  using assms by (induction js) (auto simp: Let_def)

lemma insert_probe_duplicate:
  assumes "i \<le> j" "j < n" "take 3 (he_coord (entries ! probe_index m (hi_coord item) j)) = coord_words (hi_coord item)"
    "\<forall>j' \<le> j. \<not> entry_is_empty (entries ! probe_index m (hi_coord item) j')"
  shows "\<exists>e. insert_probe item m entries [i..<n] = Inl e"
  using assms
proof (induction "j - i" arbitrary: i)
  case 0
  then have "i = j" by simp
  with 0 show ?case by (simp add: upt_conv_Cons)
next
  case (Suc d)
  then have "i < j" "d = j - Suc i" by simp_all
  with Suc show ?case by (simp add: upt_conv_Cons Let_def)
qed

lemma filter_update_length:
  assumes "i < length xs" "\<not> P (xs ! i)" "P x"
  shows "length (filter P (xs[i := x])) = Suc (length (filter P xs))"
  using assms by (simp add: upd_conv_take_nth_drop) (metis (no_types, lifting) add_Suc_right filter.simps(2) filter_append id_take_nth_drop length_append)

text \<open>Inserting into a table succeeds exactly for a new coordinate while there is room.\<close>

lemma holds_insert:
  assumes h: "holds k entries items" and k: "k < 32" and ok: "item_ok item"
  shows "if hi_coord item \<notin> hi_coord ` set items \<and> length items < 2 ^ k
    then \<exists>entries'. insert_probe item (mask k) entries [0..<2 ^ k] = Inr entries' \<and> holds k entries' (items @ [item])
    else \<exists>e. insert_probe item (mask k) entries [0..<2 ^ k] = Inl e"
proof -
  let ?c = "hi_coord item" and ?ix = "probe_index (mask k) (hi_coord item)"
  have len: "length entries = 2 ^ k" and cnt: "length (filter (\<lambda>e. \<not> entry_is_empty e) entries) = length items"
    using h by (simp_all add: holds_def)
  show ?thesis
  proof (cases "?c \<in> hi_coord ` set items")
    case True
    then obtain old where o: "old \<in> set items" "hi_coord old = ?c" by auto
    with h obtain j where j: "j < 2 ^ k" "entries ! ?ix j = encode_item old" "item_ok old"
      "\<forall>j' < j. \<not> entry_is_empty (entries ! ?ix j')"
      unfolding holds_def by (metis (no_types, lifting))
    then have "\<exists>e. insert_probe item (mask k) entries [0..<2 ^ k] = Inl e"
      by (intro insert_probe_duplicate [of 0 j]) (auto simp: o le_less)
    with True show ?thesis by simp
  next
    case new: False
    show ?thesis
    proof (cases "\<exists>j < 2 ^ k. entry_is_empty (entries ! ?ix j)")
      case False
      then have "\<exists>e. insert_probe item (mask k) entries [0..<2 ^ k] = Inl e" by (intro insert_probe_full) auto
      moreover have "\<not> entry_is_empty e" if "e \<in> set entries" for e
      proof -
        from that len obtain i where i: "i < 2 ^ k" "e = entries ! i" by (auto simp: in_set_conv_nth)
        then obtain j where "j < 2 ^ k" "i = ?ix j" using probe_index_bij(1) [OF k, of ?c] by (metis atLeastLessThan_iff imageE zero_le)
        with False i show ?thesis by blast
      qed
      then have "length items = 2 ^ k" using cnt len by (simp add: filter_id_conv [THEN iffD2])
      ultimately show ?thesis using new by simp
    next
      case True
      define j where "j = (LEAST j. j < 2 ^ k \<and> entry_is_empty (entries ! ?ix j))"
      have j: "j < 2 ^ k" "entry_is_empty (entries ! ?ix j)"
        using LeastI_ex [OF True] by (simp_all add: j_def)
      have before: "\<not> entry_is_empty (entries ! ?ix j')" if "j' < j" for j'
        using not_less_Least [of j' "\<lambda>j. j < 2 ^ k \<and> entry_is_empty (entries ! ?ix j)"] that j(1) by (auto simp: j_def)
      have before': "take 3 (he_coord (entries ! ?ix j')) \<noteq> coord_words ?c" if "j' < j" for j'
        using holds_occupied [OF h k _ before [OF that]] that j(1) new by (metis coord_words_inj image_eqI order.strict_trans)
      let ?i = "?ix j" and ?new = "entries[?ix j := encode_item item]"
      have i: "?i < 2 ^ k" by (rule probe_index_less [OF k j(1)])
      have ins: "insert_probe item (mask k) entries [0..<2 ^ k] = Inr ?new"
        using before before' j by (intro insert_probe_place) auto
      have count: "length (filter (\<lambda>e. \<not> entry_is_empty e) ?new) = Suc (length items)"
        using filter_update_length [of ?i entries "\<lambda>e. \<not> entry_is_empty e" "encode_item item"] i j(2) ok len cnt by simp
      have same: "?new ! n = entries ! n" if "\<not> entry_is_empty (entries ! n)" for n
        using that j(2) by (cases "n = ?i") simp_all
      have placed: "item_ok it \<and> (\<exists>l < 2 ^ k. ?new ! probe_index (mask k) (hi_coord it) l = encode_item it \<and>
          (\<forall>j' < l. \<not> entry_is_empty (?new ! probe_index (mask k) (hi_coord it) j') \<and>
            take 3 (he_coord (?new ! probe_index (mask k) (hi_coord it) j')) \<noteq> coord_words (hi_coord it)))"
        if "it \<in> set (items @ [item])" for it
      proof (cases "it = item")
        case True
        show ?thesis using ok j(1) i len before before' same by (intro conjI exI [of _ j]) (auto simp: True)
      next
        case False
        then have "it \<in> set items" using that by simp
        with h obtain l where l: "item_ok it" "l < 2 ^ k" "entries ! probe_index (mask k) (hi_coord it) l = encode_item it"
          "\<forall>j' < l. \<not> entry_is_empty (entries ! probe_index (mask k) (hi_coord it) j') \<and>
            take 3 (he_coord (entries ! probe_index (mask k) (hi_coord it) j')) \<noteq> coord_words (hi_coord it)"
          unfolding holds_def by blast
        from l(1,3) have "\<not> entry_is_empty (entries ! probe_index (mask k) (hi_coord it) l)" by simp
        with l same show ?thesis by (intro conjI exI [of _ l]) simp_all
      qed
      have "holds k ?new (items @ [item])"
        unfolding holds_def
      proof (intro conjI ballI impI)
        show "distinct (map hi_coord (items @ [item]))" using h new by (auto simp: holds_def)
        show "\<exists>it \<in> set (items @ [item]). e = encode_item it" if "e \<in> set ?new" "\<not> entry_is_empty e" for e
        proof -
          have "e \<in> insert (encode_item item) (set entries)" using that(1) set_update_subset_insert by (metis subsetD)
          then show ?thesis using h that(2) by (auto simp: holds_def)
        qed
      qed (use count len placed in auto)
      moreover have "length items < 2 ^ k"
        using count len length_filter_le [of "\<lambda>e. \<not> entry_is_empty e" ?new] by simp
      ultimately show ?thesis using new ins by simp
    qed
  qed
qed


lemma insert_all_holds:
  assumes "holds k (ht_entries t) items" "ht_mask t = mask k" "k < 32" "\<forall>item \<in> set rest. item_ok item"
  shows "if distinct (map hi_coord (items @ rest)) \<and> length (items @ rest) \<le> 2 ^ k
    then \<exists>t'. hash_insert_all rest t = Inr t' \<and> holds k (ht_entries t') (items @ rest) \<and> ht_mask t' = mask k
    else \<exists>e. hash_insert_all rest t = Inl e"
  using assms
proof (induction rest arbitrary: t items)
  case Nil
  have "length items = length (filter (\<lambda>e. \<not> entry_is_empty e) (ht_entries t))" "length (ht_entries t) = 2 ^ k"
    using Nil by (simp_all add: holds_def)
  then have "length items \<le> 2 ^ k" by (metis length_filter_le)
  then show ?case using Nil by (simp add: holds_def)
next
  case (Cons item rest)
  have len: "length (ht_entries t) = 2 ^ k" using Cons.prems(1) by (simp add: holds_def)
  have ok: "item_ok item" using Cons.prems(4) by simp
  note ins = holds_insert [OF Cons.prems(1,3) ok]
  show ?case
  proof (cases "hi_coord item \<notin> hi_coord ` set items \<and> length items < 2 ^ k")
    case True
    then obtain entries' where e: "insert_probe item (mask k) (ht_entries t) [0..<2 ^ k] = Inr entries'"
      "holds k entries' (items @ [item])" using ins by (auto split: if_splits)
    let ?t = "t\<lparr>ht_entries := entries'\<rparr>"
    have "hash_insert item t = Inr ?t" using e(1) len Cons.prems(2) by (simp add: hash_insert_def)
    moreover have "if distinct (map hi_coord ((items @ [item]) @ rest)) \<and> length ((items @ [item]) @ rest) \<le> 2 ^ k
      then \<exists>t'. hash_insert_all rest ?t = Inr t' \<and> holds k (ht_entries t') ((items @ [item]) @ rest) \<and> ht_mask t' = mask k
      else \<exists>e. hash_insert_all rest ?t = Inl e"
      by (rule Cons.IH) (use e(2) Cons.prems in simp_all)
    ultimately show ?thesis by (simp only: hash_insert_all.simps sum.case append_assoc append_Cons append_Nil)
  next
    case False
    with ins obtain err where "insert_probe item (mask k) (ht_entries t) [0..<2 ^ k] = Inl err" by (auto split: if_splits)
    then have "\<exists>e. hash_insert_all (item # rest) t = Inl e"
      using len Cons.prems(2) by (simp add: hash_insert_def)
    moreover have "\<not> (distinct (map hi_coord (items @ item # rest)) \<and> length (items @ item # rest) \<le> 2 ^ k)"
      using False by auto
    ultimately show ?thesis by (simp only: if_False)
  qed
qed

lemma hash_rebuild_spec:
  assumes "table_ok t" "\<forall>item \<in> set items. item_ok item" and r: "hash_rebuild items t = (err, t')"
  shows "table_ok t'" "hash_capacity t' = hash_capacity t"
    "err = None \<longleftrightarrow> distinct (map hi_coord items) \<and> length items \<le> hash_capacity t"
    "err \<noteq> None \<Longrightarrow> t' = t"
    "err = None \<Longrightarrow> hash_lookup t' c = map_of (map (\<lambda>item. (hi_coord item, item_value item)) items) c"
proof -
  from assms(1) obtain k where k: "k < 32" "length (ht_entries t) = 2 ^ k" "ht_mask t = mask k" by (auto simp: table_ok_def)
  let ?t0 = "\<lparr>ht_entries = replicate (2 ^ k) EMPTY_ENTRY, ht_mask = mask k\<rparr>"
  have spec: "if distinct (map hi_coord items) \<and> length items \<le> 2 ^ k
    then \<exists>t'. hash_insert_all items ?t0 = Inr t' \<and> holds k (ht_entries t') items \<and> ht_mask t' = mask k
    else \<exists>e. hash_insert_all items ?t0 = Inl e"
  proof -
    have "holds k (ht_entries ?t0) []" "ht_mask ?t0 = mask k" by (simp_all add: holds_empty)
    from insert_all_holds [OF this k(1) assms(2)] show ?thesis by (simp only: append_Nil)
  qed
  have cap: "hash_capacity t = 2 ^ k" using k by (simp add: hash_capacity_def)
  have keep: "table_ok t' \<and> hash_capacity t' = hash_capacity t"
  proof (cases "hash_insert_all items ?t0")
    case (Inl e)
    then have "t' = t" using r by (auto simp: hash_rebuild_def k(2,3))
    then show ?thesis using assms(1) by simp
  next
    case (Inr u)
    then have "holds k (ht_entries u) items" "t' = t\<lparr>ht_entries := ht_entries u\<rparr>"
      using spec r by (auto simp: hash_rebuild_def k(2,3) split: if_splits)
    then show ?thesis using k by (auto simp: table_ok_def hash_capacity_def holds_def)
  qed
  then show "table_ok t'" "hash_capacity t' = hash_capacity t" by simp_all
  show "err = None \<longleftrightarrow> distinct (map hi_coord items) \<and> length items \<le> hash_capacity t" "err \<noteq> None \<Longrightarrow> t' = t"
    "err = None \<Longrightarrow> hash_lookup t' c = map_of (map (\<lambda>item. (hi_coord item, item_value item)) items) c"
    using spec r k(1) by (auto simp: hash_rebuild_def k(2,3) cap hash_lookup_def holds_lookup holds_def [of k _ items]
        split: if_splits sum.splits)
qed

section \<open>Properties\<close>

text \<open>
  C23: rebuilding a table built by \<open>new\<close> (and any table a rebuild left) replaces its contents by the
  given items, all or nothing: it succeeds exactly when the coordinates are distinct and fit the
  capacity, lookups then answer exactly the items (slot and occupancy of a listed brick, nothing
  for any other), and a failed rebuild leaves the published table as it was. Open addressing, hash
  collisions and a completely full table are covered.
\<close>

theorem hash_rebuild_lookup:
  assumes "hash_new capacity = Inr t0" and "t = snd (hash_rebuild before t0)"
    and "\<forall>item \<in> set before \<union> set items. item_ok item" and "hash_rebuild items t = (err, t')"
  shows "(err = None \<longleftrightarrow> distinct (map hi_coord items) \<and> length items \<le> capacity) \<and>
    (err = None \<longrightarrow> hash_lookup t' = map_of (map (\<lambda>item. (hi_coord item, (ba_slot (hi_address item), hi_non_empty item))) items)) \<and>
    (err \<noteq> None \<longrightarrow> t' = t) \<and> hash_capacity t' = capacity"
proof -
  from hash_new_ok [OF assms(1)] have t0: "table_ok t0" "hash_capacity t0 = capacity" by auto
  obtain e where e: "hash_rebuild before t0 = (e, t)" using assms(2) by (cases "hash_rebuild before t0") simp
  have "\<forall>item \<in> set before. item_ok item" using assms(3) by blast
  note b = hash_rebuild_spec [OF t0(1) this e]
  have "\<forall>item \<in> set items. item_ok item" using assms(3) by blast
  note r = hash_rebuild_spec [OF b(1) this assms(4)]
  have "err = None \<longrightarrow> hash_lookup t' = map_of (map (\<lambda>item. (hi_coord item, (ba_slot (hi_address item), hi_non_empty item))) items)"
    using r(5) by (auto simp: item_value_def)
  with r(2-4) b(2) t0(2) show ?thesis by simp
qed

definition sample_item :: "int \<Rightarrow> u32 \<Rightarrow> hash_item" where
  "sample_item x slot = \<lparr>hi_coord = brick_at x 0 0, hi_address = \<lparr>ba_slot = slot, ba_generation = 1\<rparr>, hi_non_empty = True\<rparr>"

theorem hash_rebuild_lookup_witness:
  "\<exists>t0 err t'. hash_new 2 = Inr t0 \<and> hash_rebuild [sample_item 3 0, sample_item (- 8) 1] t0 = (err, t') \<and> err = None \<and>
     hash_lookup t' (brick_at (- 8) 0 0) = Some (1, True) \<and> hash_lookup t' (brick_at 9 0 0) = None"
proof -
  obtain t0 where t0: "hash_new 2 = Inr t0" by (simp add: hash_new_def is_power_of_two_def upt_rec)
  have b: "t0 = snd (hash_rebuild [] t0)"
    using t0 by (auto simp: hash_rebuild_def hash_new_def split: if_splits)
  obtain err t' where r: "hash_rebuild [sample_item 3 0, sample_item (- 8) 1] t0 = (err, t')"
    by (cases "hash_rebuild [sample_item 3 0, sample_item (- 8) 1] t0")
  have "\<forall>item \<in> set [] \<union> set [sample_item 3 0, sample_item (- 8) 1]. item_ok item"
    by (simp add: item_ok_def sample_item_def INVALID_SLOT_def)
  from hash_rebuild_lookup [OF t0 b this r] t0 r show ?thesis by (auto simp: sample_item_def brick_at_def)
qed

end
