(* ===== verification/Brick_Atlas.thy ===== *)
theory Brick_Atlas
  imports Brick_Hash
begin

text \<open>
  The GPU atlas of traversed bricks (\<open>render/src/brick_gpu.rs\<close>): the residency cache, the spatial
  index rebuilt from it and the storage buffers both are written to. Buffers are functions from byte
  offsets to the words last written there, zero at creation; the hash buffer holds the entries last
  written to it, by a refresh or by \<open>upload_hash_table\<close>, if any were. Pipelines, bind groups and
  dispatches are not modelled; the device's binding limit is a parameter.
\<close>

section \<open>State and operations\<close>

definition GPU_BRICK_DESCRIPTOR_WORDS :: nat where "GPU_BRICK_DESCRIPTOR_WORDS = 8"
definition GPU_BRICK_DESCRIPTOR_BYTES :: nat where "GPU_BRICK_DESCRIPTOR_BYTES = GPU_BRICK_DESCRIPTOR_WORDS * 4"

record atlas =
  at_residency :: brick_residency
  at_materials :: "nat \<Rightarrow> u32 list"
  at_descriptors :: "nat \<Rightarrow> u32 list"
  at_hash_buffer :: "hash_entry list option"
  at_hash_capacity :: nat
  at_hash_table :: hash_table




definition descriptor_offset :: "brick_upload \<Rightarrow> nat" where
  "descriptor_offset u = unat (ba_slot (bu_address u)) * GPU_BRICK_DESCRIPTOR_BYTES"

definition hash_items :: "brick_residency \<Rightarrow> hash_item list" where
  "hash_items s = map (\<lambda>(c, a, non_empty). \<lparr>hi_coord = c, hi_address = a, hi_non_empty = non_empty\<rparr>) (resident_bricks s)"

definition refresh_hash_table :: "atlas \<Rightarrow> atlas" where
  "refresh_hash_table g =
     (case hash_rebuild (hash_items (at_residency g)) (at_hash_table g) of
        (Some e, _) \<Rightarrow> g
      | (None, table) \<Rightarrow> g\<lparr>at_hash_table := table, at_hash_buffer := Some (ht_entries table)\<rparr>)"

definition write_upload :: "brick_upload \<Rightarrow> atlas \<Rightarrow> atlas" where
  "write_upload u g =
     (case material_words u of
        None \<Rightarrow> g
      | Some ws \<Rightarrow> g\<lparr>at_materials := (at_materials g)(byte_offset u := ws),
          at_descriptors := (at_descriptors g)(descriptor_offset u := descriptor_words u)\<rparr>)"








section \<open>The index as an interface\<close>



section \<open>The mirror invariant\<close>









section \<open>Writing uploads\<close>


lemma write_upload_keeps [simp]:
  "at_residency (write_upload u g) = at_residency g" "at_hash_buffer (write_upload u g) = at_hash_buffer g"
  "at_hash_table (write_upload u g) = at_hash_table g" "at_hash_capacity (write_upload u g) = at_hash_capacity g"
  by (simp_all add: write_upload_def split: option.splits)

lemma fold_write_keeps [simp]:
  "at_residency (fold write_upload us g) = at_residency g" "at_hash_buffer (fold write_upload us g) = at_hash_buffer g"
  "at_hash_table (fold write_upload us g) = at_hash_table g"
  "at_hash_capacity (fold write_upload us g) = at_hash_capacity g"
  by (induction us arbitrary: g) auto









section \<open>Every operation keeps the mirror\<close>










section \<open>Properties\<close>








lemma refresh_keeps_capacity [simp]: "at_hash_capacity (refresh_hash_table g) = at_hash_capacity g"
  by (simp add: refresh_hash_table_def split: prod.split option.split)









end
