(* ===== verification/Request_Window.thy ===== *)
theory Request_Window
  imports Prelude "HOL-Library.Product_Lexorder"
begin

text \<open>
  The priority classes of world requests (\<open>world/src/source.rs\<close>) and the choice of a pending request
  to cancel when the client's request window is full (\<open>shell/src/request_window.rs\<close>).
\<close>

datatype product_priority = CollisionCritical | VisibleChunk | Prefetch | VirtualTerrain

fun request_window_rank :: "product_priority \<Rightarrow> nat" where
  "request_window_rank CollisionCritical = 0"
| "request_window_rank VirtualTerrain = 1"
| "request_window_rank VisibleChunk = 2"
| "request_window_rank Prefetch = 3"

definition priority_preemption_candidate :: "product_priority \<Rightarrow> (u64 \<times> product_priority) list \<Rightarrow> u64 option" where
  "priority_preemption_candidate incoming pending =
     map_option fst (max_by_key (\<lambda>(request_id, priority). (request_window_rank priority, request_id))
       (filter (\<lambda>(_, priority). request_window_rank priority > request_window_rank incoming) pending))"

lemma request_window_rank_inj: "request_window_rank p = request_window_rank q \<longleftrightarrow> p = q"
  by (cases p; cases q) simp_all

text \<open>
  A request is cancelled only for a strictly more valuable one: nothing is chosen precisely when no
  pending request ranks below the incoming one, and the chosen request has the least valuable
  class pending and, within that class, the newest identifier.
\<close>

theorem preemption_candidate_least_valuable:
  "(priority_preemption_candidate incoming pending = None \<longleftrightarrow>
      (\<forall>(i, p) \<in> set pending. request_window_rank p \<le> request_window_rank incoming)) \<and>
   (\<forall>i. priority_preemption_candidate incoming pending = Some i \<longrightarrow>
      (\<exists>p. (i, p) \<in> set pending \<and> request_window_rank p > request_window_rank incoming \<and>
        (\<forall>(j, q) \<in> set pending. request_window_rank q < request_window_rank p \<or> (q = p \<and> j \<le> i))))"
proof -
  let ?low = "filter (\<lambda>(_, priority). request_window_rank priority > request_window_rank incoming) pending"
  let ?key = "\<lambda>(request_id, priority). (request_window_rank priority, request_id)"
  have "priority_preemption_candidate incoming pending = None \<longleftrightarrow> ?low = []"
    by (simp add: priority_preemption_candidate_def)
  moreover have "?low = [] \<longleftrightarrow> (\<forall>(i, p) \<in> set pending. request_window_rank p \<le> request_window_rank incoming)"
    by (auto simp: filter_empty_conv not_less)
  moreover have "\<exists>p. (i, p) \<in> set pending \<and> request_window_rank p > request_window_rank incoming \<and>
      (\<forall>(j, q) \<in> set pending. request_window_rank q < request_window_rank p \<or> (q = p \<and> j \<le> i))"
    if c: "priority_preemption_candidate incoming pending = Some i" for i
  proof -
    from c obtain p where m: "max_by_key ?key ?low = Some (i, p)" by (auto simp: priority_preemption_candidate_def)
    have low: "(i, p) \<in> set pending" "request_window_rank p > request_window_rank incoming"
      using max_by_key_in [OF m] by auto
    have "request_window_rank q < request_window_rank p \<or> (q = p \<and> j \<le> i)" if "(j, q) \<in> set pending" for j q
    proof (cases "request_window_rank q > request_window_rank incoming")
      case True
      with that have "(j, q) \<in> set ?low" by simp
      from max_by_key_greatest [OF m this] show ?thesis by (auto simp: request_window_rank_inj)
    next
      case False
      with low show ?thesis by simp
    qed
    with low show ?thesis by blast
  qed
  ultimately show ?thesis by simp
qed

lemma preemption_candidate_example:
  "priority_preemption_candidate CollisionCritical
     [(10, VisibleChunk), (11, Prefetch), (12, CollisionCritical), (13, Prefetch)] = Some 13"
  by (simp add: priority_preemption_candidate_def word_less_nat_alt)

end
