(* ===== verification/Generation_Limiter.thy ===== *)
theory Generation_Limiter
  imports Request_Window "HOL-Library.Multiset"
begin

text \<open>
  Priority-aware admission of blocking world generation (\<open>world-service/src/generation_limiter.rs\<close>):
  the counters behind the mutex, the eligibility rule of each lane, the lane a signal notifies, and
  the runs of concurrent tasks that register, try, give up, release and signal. Every step is one
  critical section of the mutex: an operation that frees or takes a permit leaves its section before
  it enters that of \<open>signal\<close>. The wake-up primitive (\<open>tokio::sync::Notify\<close>) is not modelled: a signal
  yields the lane it notifies.
\<close>

section \<open>State and operations\<close>

definition MAX_CONSECUTIVE_IMMEDIATE_GRANTS :: nat where "MAX_CONSECUTIVE_IMMEDIATE_GRANTS = 8"

datatype lane = Collision | Immediate | Ordinary

fun lane_for_priority :: "product_priority \<Rightarrow> lane" where
  "lane_for_priority CollisionCritical = Collision"
| "lane_for_priority VirtualTerrain = Immediate"
| "lane_for_priority VisibleChunk = Ordinary"
| "lane_for_priority Prefetch = Ordinary"

record limiter_state =
  ls_available :: nat
  ls_collision_waiters :: nat
  ls_immediate_waiters :: nat
  ls_ordinary_waiters :: nat
  ls_consecutive :: nat

definition limiter_new :: "nat \<Rightarrow> limiter_state option" where
  "limiter_new capacity =
     (if capacity > 0
      then Some \<lparr>ls_available = capacity, ls_collision_waiters = 0, ls_immediate_waiters = 0, ls_ordinary_waiters = 0,
             ls_consecutive = 0\<rparr>
      else None)"

definition signal_lane :: "limiter_state \<Rightarrow> lane option" where
  "signal_lane s =
     (let wake_collision = ls_available s > 0 \<and> ls_collision_waiters s > 0;
          wake_immediate = ls_available s > 0 \<and> ls_collision_waiters s = 0 \<and> ls_immediate_waiters s > 0 \<and>
            (ls_ordinary_waiters s = 0 \<or> ls_consecutive s < MAX_CONSECUTIVE_IMMEDIATE_GRANTS);
          wake_ordinary = ls_available s > 0 \<and> ls_collision_waiters s = 0 \<and>
            (ls_immediate_waiters s = 0 \<or> ls_consecutive s \<ge> MAX_CONSECUTIVE_IMMEDIATE_GRANTS) \<and>
            ls_ordinary_waiters s > 0
      in if wake_collision then Some Collision
         else if wake_immediate then Some Immediate
         else if wake_ordinary then Some Ordinary
         else None)"

fun waiter_new :: "lane \<Rightarrow> limiter_state \<Rightarrow> limiter_state" where
  "waiter_new Collision s = s\<lparr>ls_collision_waiters := ls_collision_waiters s + 1\<rparr>"
| "waiter_new Immediate s = s\<lparr>ls_immediate_waiters := ls_immediate_waiters s + 1\<rparr>"
| "waiter_new Ordinary s = s\<lparr>ls_ordinary_waiters := ls_ordinary_waiters s + 1\<rparr>"

fun lane_turn :: "lane \<Rightarrow> limiter_state \<Rightarrow> bool" where
  "lane_turn Collision s = True"
| "lane_turn Immediate s \<longleftrightarrow> ls_collision_waiters s = 0 \<and>
     (ls_ordinary_waiters s = 0 \<or> ls_consecutive s < MAX_CONSECUTIVE_IMMEDIATE_GRANTS)"
| "lane_turn Ordinary s \<longleftrightarrow> ls_collision_waiters s = 0 \<and>
     (ls_immediate_waiters s = 0 \<or> ls_consecutive s \<ge> MAX_CONSECUTIVE_IMMEDIATE_GRANTS)"

definition eligible :: "lane \<Rightarrow> limiter_state \<Rightarrow> bool" where
  "eligible l s \<longleftrightarrow> ls_available s > 0 \<and> lane_turn l s"

fun waiter_remove :: "lane \<Rightarrow> limiter_state \<Rightarrow> limiter_state" where
  "waiter_remove Collision s = s\<lparr>ls_collision_waiters := ls_collision_waiters s - 1\<rparr>"
| "waiter_remove Immediate s = s\<lparr>ls_immediate_waiters := ls_immediate_waiters s - 1\<rparr>"
| "waiter_remove Ordinary s = s\<lparr>ls_ordinary_waiters := ls_ordinary_waiters s - 1\<rparr>"

fun lane_granted :: "lane \<Rightarrow> limiter_state \<Rightarrow> limiter_state" where
  "lane_granted Collision s = s"
| "lane_granted Immediate s =
     s\<lparr>ls_consecutive := if ls_ordinary_waiters s = 0 then 0
        else min (ls_consecutive s + 1) MAX_CONSECUTIVE_IMMEDIATE_GRANTS\<rparr>"
| "lane_granted Ordinary s = s\<lparr>ls_consecutive := 0\<rparr>"

text \<open>The three operations that are followed by a signal: their own critical sections.\<close>

definition try_acquire :: "lane \<Rightarrow> limiter_state \<Rightarrow> bool \<times> limiter_state" where
  "try_acquire l s =
     (if \<not> eligible l s then (False, s)
      else (True, lane_granted l (waiter_remove l (s\<lparr>ls_available := ls_available s - 1\<rparr>))))"

definition waiter_drop :: "bool \<Rightarrow> lane \<Rightarrow> limiter_state \<Rightarrow> limiter_state" where
  "waiter_drop registered l s = (if \<not> registered then s else waiter_remove l s)"

definition permit_drop :: "limiter_state \<Rightarrow> limiter_state" where
  "permit_drop s = s\<lparr>ls_available := ls_available s + 1\<rparr>"

fun waiters :: "limiter_state \<Rightarrow> lane \<Rightarrow> nat" where
  "waiters s Collision = ls_collision_waiters s"
| "waiters s Immediate = ls_immediate_waiters s"
| "waiters s Ordinary = ls_ordinary_waiters s"

section \<open>Runs of concurrent tasks\<close>

text \<open>A task acquires in steps: it registers a waiter, tries until a try is granted (the waiter is then
  no longer registered), or is cancelled and drops the registered waiter; a granted permit is
  dropped once. Each is one critical section of the mutex. After a grant, a cancellation or a release
  the task owes one signal, which runs later: \<open>sy_signals\<close> counts those owed.\<close>

record limiter_system =
  sy_state :: limiter_state
  sy_waiting :: "lane multiset"
  sy_permits :: nat
  sy_signals :: nat

datatype limiter_event =
    Registered product_priority
  | Granted lane
  | Refused lane
  | Cancelled lane
  | Released
  | Signalled "lane option"

inductive limiter_step :: "limiter_system \<Rightarrow> limiter_event \<Rightarrow> limiter_system \<Rightarrow> bool" where
  register: "l = lane_for_priority p \<Longrightarrow>
    limiter_step y (Registered p) (y\<lparr>sy_state := waiter_new l (sy_state y), sy_waiting := add_mset l (sy_waiting y)\<rparr>)"
| grant: "l \<in># sy_waiting y \<Longrightarrow> try_acquire l (sy_state y) = (True, s) \<Longrightarrow>
    limiter_step y (Granted l)
      (y\<lparr>sy_state := s, sy_waiting := sy_waiting y - {#l#}, sy_permits := sy_permits y + 1, sy_signals := sy_signals y + 1\<rparr>)"
| refuse: "l \<in># sy_waiting y \<Longrightarrow> try_acquire l (sy_state y) = (False, s) \<Longrightarrow>
    limiter_step y (Refused l) (y\<lparr>sy_state := s\<rparr>)"
| cancel: "l \<in># sy_waiting y \<Longrightarrow>
    limiter_step y (Cancelled l)
      (y\<lparr>sy_state := waiter_drop True l (sy_state y), sy_waiting := sy_waiting y - {#l#}, sy_signals := sy_signals y + 1\<rparr>)"
| release: "sy_permits y > 0 \<Longrightarrow>
    limiter_step y Released
      (y\<lparr>sy_state := permit_drop (sy_state y), sy_permits := sy_permits y - 1, sy_signals := sy_signals y + 1\<rparr>)"
| signal: "sy_signals y > 0 \<Longrightarrow>
    limiter_step y (Signalled (signal_lane (sy_state y))) (y\<lparr>sy_signals := sy_signals y - 1\<rparr>)"

inductive_cases limiter_signalE: "limiter_step y (Signalled w) z"

inductive limiter_run :: "limiter_system \<Rightarrow> limiter_event list \<Rightarrow> limiter_system \<Rightarrow> bool" where
  run_nil: "limiter_run y [] y"
| run_cons: "limiter_step y e z \<Longrightarrow> limiter_run z es x \<Longrightarrow> limiter_run y (e # es) x"

inductive_cases limiter_run_ConsE: "limiter_run y (e # es) x"

definition limiter_start :: "nat \<Rightarrow> limiter_system \<Rightarrow> bool" where
  "limiter_start capacity y \<longleftrightarrow>
     (\<exists>s. limiter_new capacity = Some s \<and> y = \<lparr>sy_state = s, sy_waiting = {#}, sy_permits = 0, sy_signals = 0\<rparr>)"

section \<open>The limiter invariant\<close>

definition limiter_wf :: "nat \<Rightarrow> limiter_system \<Rightarrow> bool" where
  "limiter_wf capacity y \<longleftrightarrow>
     ls_available (sy_state y) + sy_permits y = capacity \<and>
     (\<forall>l. waiters (sy_state y) l = count (sy_waiting y) l) \<and>
     ls_consecutive (sy_state y) \<le> MAX_CONSECUTIVE_IMMEDIATE_GRANTS"

lemma all_lanes: "(\<forall>l. P l) \<longleftrightarrow> P Collision \<and> P Immediate \<and> P Ordinary"
  by (metis lane.exhaust)

lemma waiters_new: "waiters (waiter_new l s) m = waiters s m + (if m = l then 1 else 0)"
  by (cases l; cases m) auto

lemma waiters_remove: "waiters (waiter_remove l s) m = waiters s m - (if m = l then 1 else 0)"
  by (cases l; cases m) auto

lemma other_fields [simp]:
  "ls_available (waiter_new l s) = ls_available s" "ls_consecutive (waiter_new l s) = ls_consecutive s"
  "ls_available (waiter_remove l s) = ls_available s" "ls_consecutive (waiter_remove l s) = ls_consecutive s"
  "ls_available (lane_granted l s) = ls_available s" "waiters (lane_granted l s) m = waiters s m"
  "waiters (s\<lparr>ls_available := n\<rparr>) m = waiters s m"
  by (cases l; cases m; auto)+

lemma lane_granted_consecutive:
  "ls_consecutive s \<le> MAX_CONSECUTIVE_IMMEDIATE_GRANTS \<Longrightarrow> ls_consecutive (lane_granted l s) \<le> MAX_CONSECUTIVE_IMMEDIATE_GRANTS"
  by (cases l) auto

lemma step_wf: "limiter_step y e z \<Longrightarrow> limiter_wf capacity y \<Longrightarrow> limiter_wf capacity z"
proof (induction rule: limiter_step.induct)
  case (grant l y s)
  then show ?case
    by (auto simp: try_acquire_def limiter_wf_def eligible_def waiters_remove lane_granted_consecutive split: if_splits)
qed (auto simp: limiter_wf_def waiters_new waiters_remove try_acquire_def waiter_drop_def permit_drop_def Let_def split: if_splits)

lemma run_wf: "limiter_run y es z \<Longrightarrow> limiter_wf capacity y \<Longrightarrow> limiter_wf capacity z"
  by (induction rule: limiter_run.induct) (auto intro: step_wf)

lemma start_wf: "limiter_start capacity y \<Longrightarrow> limiter_wf capacity y"
  by (auto simp: limiter_start_def limiter_wf_def limiter_new_def all_lanes split: if_splits)

section \<open>Signals\<close>

text \<open>With a free permit exactly one lane with waiters may proceed, and it is the lane signalled.\<close>

lemma signal_lane_exact: "signal_lane s = Some l \<longleftrightarrow> waiters s l > 0 \<and> eligible l s"
  by (cases l) (auto simp: signal_lane_def eligible_def Let_def MAX_CONSECUTIVE_IMMEDIATE_GRANTS_def)

lemma signal_lane_None: "signal_lane s = None \<longleftrightarrow> ls_available s = 0 \<or> (\<forall>l. waiters s l = 0)"
  by (auto simp: signal_lane_def Let_def all_lanes MAX_CONSECUTIVE_IMMEDIATE_GRANTS_def)


lemma ordinary_count_step:
  "limiter_step y e z \<Longrightarrow> count (sy_waiting y) Ordinary \<le> count (sy_waiting z) Ordinary + (if e = Granted Ordinary \<or> e = Cancelled Ordinary then 1 else 0)"
  by (induction rule: limiter_step.induct) (auto simp: waiter_drop_def)

lemma immediate_grant_step:
  assumes "limiter_step y (Granted Immediate) z" "limiter_wf capacity y" "count (sy_waiting y) Ordinary > 0"
  shows "ls_consecutive (sy_state y) < MAX_CONSECUTIVE_IMMEDIATE_GRANTS \<and>
    ls_consecutive (sy_state z) = ls_consecutive (sy_state y) + 1"
  using assms
proof (cases rule: limiter_step.cases)
  case (grant s)
  have "ls_ordinary_waiters (sy_state y) > 0"
    using assms(2,3) unfolding limiter_wf_def by (metis waiters.simps(3))
  then show ?thesis using grant
    by (auto simp: try_acquire_def eligible_def Let_def split: if_splits)
qed

lemma consecutive_step:
  assumes "limiter_step y e z" "e \<noteq> Granted Ordinary" "e \<noteq> Granted Immediate"
  shows "ls_consecutive (sy_state z) = ls_consecutive (sy_state y)"
  using assms
proof (cases rule: limiter_step.cases)
  case (grant l s)
  then have "l = Collision" using assms(2,3) by (cases l) auto
  then show ?thesis using grant by (auto simp: try_acquire_def Let_def split: if_splits)
qed (auto simp: try_acquire_def waiter_drop_def permit_drop_def Let_def split: if_splits)

lemma collision_count_step:
  "limiter_step y e z \<Longrightarrow> count (sy_waiting z) Collision + (if e = Granted Collision then 1 else 0) \<le>
     count (sy_waiting y) Collision + (if e = Registered CollisionCritical then 1 else 0)"
  by (induction rule: limiter_step.induct) (auto split: if_splits elim: lane_for_priority.elims dest: sym)

lemma collision_run_bounded:
  "limiter_run y es z \<Longrightarrow>
   count_list es (Granted Collision) \<le> count (sy_waiting y) Collision + count_list es (Registered CollisionCritical)"
proof (induction rule: limiter_run.induct)
  case (run_cons y e z es x)
  then show ?case using collision_count_step [OF run_cons.hyps(1)] by (auto split: if_splits)
qed simp

text \<open>While ordinary work waits, the counter counts the immediate grants.\<close>

lemma immediate_run_counted:
  assumes "limiter_run y es z" "limiter_wf capacity y" "Granted Ordinary \<notin> set es"
    "count_list es (Cancelled Ordinary) < count (sy_waiting y) Ordinary"
  shows "ls_consecutive (sy_state z) = ls_consecutive (sy_state y) + count_list es (Granted Immediate)"
  using assms
proof (induction rule: limiter_run.induct)
  case (run_cons y e z es x)
  have wf: "limiter_wf capacity z" using step_wf [OF run_cons.hyps(1) run_cons.prems(1)] .
  have "count_list es (Cancelled Ordinary) < count (sy_waiting z) Ordinary"
    using ordinary_count_step [OF run_cons.hyps(1)] run_cons.prems(2,3) by (auto split: if_splits)
  then have IH: "ls_consecutive (sy_state x) = ls_consecutive (sy_state z) + count_list es (Granted Immediate)"
    using run_cons.IH wf run_cons.prems(2) by simp
  show ?case
  proof (cases "e = Granted Immediate")
    case True
    have "count (sy_waiting y) Ordinary > 0" using run_cons.prems(3) by (cases "count (sy_waiting y) Ordinary") auto
    with immediate_grant_step [of y z capacity] run_cons.hyps(1) run_cons.prems(1) True IH show ?thesis by auto
  next
    case False
    with consecutive_step [OF run_cons.hyps(1)] run_cons.prems(2) IH show ?thesis by auto
  qed
qed simp

lemma ordinary_survives:
  assumes "limiter_run y es z" "Granted Ordinary \<notin> set es" "count_list es (Cancelled Ordinary) < count (sy_waiting y) Ordinary"
  shows "Ordinary \<in># sy_waiting z"
  using assms
proof (induction rule: limiter_run.induct)
  case (run_cons y e z es x)
  have "count_list es (Cancelled Ordinary) < count (sy_waiting z) Ordinary"
    using ordinary_count_step [OF run_cons.hyps(1)] run_cons.prems by (auto split: if_splits)
  with run_cons show ?case by simp
qed simp

section \<open>Properties\<close>

lemma waiting_eligible:
  assumes wf: "limiter_wf capacity y" and av: "ls_available (sy_state y) > 0" and ne: "sy_waiting y \<noteq> {#}"
  shows "\<exists>!l. l \<in># sy_waiting y \<and> eligible l (sy_state y)"
proof -
  have sig: "signal_lane (sy_state y) = Some l \<longleftrightarrow> l \<in># sy_waiting y \<and> eligible l (sy_state y)" for l
    using wf by (simp add: signal_lane_exact limiter_wf_def)
  obtain m where "m \<in># sy_waiting y" using ne by (meson multiset_nonemptyE)
  then have "waiters (sy_state y) m \<noteq> 0" using wf by (simp add: limiter_wf_def)
  then have "\<not> (\<forall>l. waiters (sy_state y) l = 0)" by (rule contrapos_nn) (erule spec)
  with av have "signal_lane (sy_state y) \<noteq> None" by (simp add: signal_lane_None)
  then obtain l where "signal_lane (sy_state y) = Some l" by auto
  with sig show ?thesis by (metis option.inject)
qed

lemma try_acquire_eligible: "fst (try_acquire l s) \<longleftrightarrow> eligible l s"
  by (simp add: try_acquire_def)

text \<open>
  In every state concurrent tasks can reach, permits and free capacity add up to the configured
  capacity and the counters count exactly the registered waiters. When capacity is free and someone
  waits, exactly one lane may proceed, a waiting collision task first; a signal notifies precisely
  that lane of the state it runs in, and nobody only when no waiter could proceed.
\<close>

theorem limiter_sound:
  assumes "limiter_start capacity y0" "limiter_run y0 es y"
  shows "ls_available (sy_state y) + sy_permits y = capacity \<and>
    (\<forall>l. waiters (sy_state y) l = count (sy_waiting y) l) \<and>
    (ls_available (sy_state y) > 0 \<and> sy_waiting y \<noteq> {#} \<longrightarrow> (\<exists>!l. l \<in># sy_waiting y \<and> eligible l (sy_state y))) \<and>
    (Collision \<in># sy_waiting y \<longrightarrow> (\<forall>l z. limiter_step y (Granted l) z \<longrightarrow> l = Collision)) \<and>
    (\<forall>w z. limiter_step y (Signalled w) z \<longrightarrow> (\<forall>l. w = Some l \<longleftrightarrow> l \<in># sy_waiting y \<and> eligible l (sy_state y)))"
proof -
  have wf: "limiter_wf capacity y" using run_wf [OF assms(2) start_wf [OF assms(1)]] .
  have first: "l = Collision" if "Collision \<in># sy_waiting y" "limiter_step y (Granted l) z" for l z
    using that(2)
  proof (cases rule: limiter_step.cases)
    case (grant s)
    have "ls_collision_waiters (sy_state y) = count (sy_waiting y) Collision"
      using wf unfolding limiter_wf_def by (metis waiters.simps(1))
    then have "ls_collision_waiters (sy_state y) \<noteq> 0" using that(1) by simp
    with grant show ?thesis by (cases l) (auto simp: try_acquire_def eligible_def split: if_splits)
  qed
  have "w = Some l \<longleftrightarrow> l \<in># sy_waiting y \<and> eligible l (sy_state y)" if "limiter_step y (Signalled w) z" for w z l
    using that wf by (auto elim!: limiter_signalE simp: signal_lane_exact limiter_wf_def)
  with wf waiting_eligible [OF wf] first show ?thesis by (simp add: limiter_wf_def)
qed

text \<open>
  C29: ordinary work has a bounded turn. However tasks interleave, during a run in which no ordinary
  waiter is granted although one stays throughout (fewer are cancelled than waited at its start), at
  most eight virtual-terrain grants happen, and no more collision grants than there were collision
  waiters or have been registered since. Capacity is never left idle meanwhile: whenever a permit is
  free, exactly one waiting lane's try is granted; and once eight virtual-terrain grants have happened,
  it is the ordinary lane unless collision work waits. So more grants than eight and the collision
  tasks there were cannot happen before an ordinary one.
\<close>

theorem ordinary_turn_bounded:
  assumes "limiter_start capacity y0" "limiter_run y0 before y" "limiter_run y es z"
    and "Granted Ordinary \<notin> set es" "count_list es (Cancelled Ordinary) < count (sy_waiting y) Ordinary"
  shows "count_list es (Granted Immediate) \<le> 8 \<and>
    count_list es (Granted Collision) \<le> count (sy_waiting y) Collision + count_list es (Registered CollisionCritical) \<and>
    (ls_available (sy_state z) > 0 \<longrightarrow> (\<exists>!l. l \<in># sy_waiting z \<and> fst (try_acquire l (sy_state z)))) \<and>
    (ls_available (sy_state z) > 0 \<and> count_list es (Granted Immediate) = 8 \<and> Collision \<notin># sy_waiting z \<longrightarrow>
       fst (try_acquire Ordinary (sy_state z)) \<and> \<not> fst (try_acquire Immediate (sy_state z)))"
proof -
  have wfy: "limiter_wf capacity y" using run_wf [OF assms(2) start_wf [OF assms(1)]] .
  then have wfz: "limiter_wf capacity z" using run_wf [OF assms(3)] by blast
  note counted = immediate_run_counted [OF assms(3) wfy assms(4,5)]
  have bound: "ls_consecutive (sy_state z) \<le> 8" using wfz by (simp add: limiter_wf_def MAX_CONSECUTIVE_IMMEDIATE_GRANTS_def)
  have ord: "Ordinary \<in># sy_waiting z" by (rule ordinary_survives [OF assms(3-5)])
  have wl: "waiters (sy_state z) m = count (sy_waiting z) m" for m using wfz by (simp add: limiter_wf_def)
  have "fst (try_acquire Ordinary (sy_state z)) \<and> \<not> fst (try_acquire Immediate (sy_state z))"
    if "ls_available (sy_state z) > 0" "count_list es (Granted Immediate) = 8" "Collision \<notin># sy_waiting z"
  proof -
    have "ls_consecutive (sy_state z) = 8" using counted that(2) bound by simp
    moreover have "ls_collision_waiters (sy_state z) = 0" "ls_ordinary_waiters (sy_state z) > 0"
      using wl [of Collision] wl [of Ordinary] that(3) ord by (simp_all add: not_in_iff)
    ultimately show ?thesis
      using that(1) by (simp add: try_acquire_eligible eligible_def MAX_CONSECUTIVE_IMMEDIATE_GRANTS_def)
  qed
  moreover have "\<exists>!l. l \<in># sy_waiting z \<and> fst (try_acquire l (sy_state z))" if "ls_available (sy_state z) > 0"
    unfolding try_acquire_eligible by (rule waiting_eligible [OF wfz that]) (use ord in auto)
  ultimately show ?thesis using counted bound collision_run_bounded [OF assms(3)] by simp
qed

definition limiter_sample :: limiter_system where
  "limiter_sample = \<lparr>sy_state = \<lparr>ls_available = 1, ls_collision_waiters = 0, ls_immediate_waiters = 0, ls_ordinary_waiters = 0,
     ls_consecutive = 0\<rparr>, sy_waiting = {#}, sy_permits = 0, sy_signals = 0\<rparr>"

lemma limiter_sample_start: "limiter_start 1 limiter_sample"
  by (simp add: limiter_start_def limiter_new_def limiter_sample_def)

lemma register_step:
  "limiter_step y (Registered p)
     (y\<lparr>sy_state := waiter_new (lane_for_priority p) (sy_state y), sy_waiting := add_mset (lane_for_priority p) (sy_waiting y)\<rparr>)"
  by (rule register) simp

theorem limiter_sound_witness:
  "\<exists>y. limiter_run limiter_sample [Registered Prefetch, Registered VirtualTerrain] y \<and>
     (\<exists>!l. l \<in># sy_waiting y \<and> eligible l (sy_state y))"
proof -
  obtain y1 where y1: "limiter_step limiter_sample (Registered Prefetch) y1" "ls_available (sy_state y1) = 1"
    using register_step [of limiter_sample Prefetch] by (force simp: limiter_sample_def)
  obtain y where y: "limiter_step y1 (Registered VirtualTerrain) y" "ls_available (sy_state y) = 1" "sy_waiting y \<noteq> {#}"
    using register_step [of y1 VirtualTerrain] y1(2) by force
  have run: "limiter_run limiter_sample [Registered Prefetch, Registered VirtualTerrain] y"
    by (intro run_cons [OF y1(1)] run_cons [OF y(1)] run_nil)
  from limiter_sound [OF limiter_sample_start run] y(2,3) run show ?thesis by auto
qed

definition limiter_turn :: "nat \<Rightarrow> limiter_system" where
  "limiter_turn n = \<lparr>sy_state = \<lparr>ls_available = 1, ls_collision_waiters = 0, ls_immediate_waiters = 0, ls_ordinary_waiters = 1,
     ls_consecutive = n\<rparr>, sy_waiting = {#Ordinary#}, sy_permits = 0, sy_signals = 2 * n\<rparr>"

definition immediate_round :: "limiter_event list" where
  "immediate_round = [Registered VirtualTerrain, Granted Immediate, Released]"

lemma limiter_turn_start: "limiter_run limiter_sample [Registered Prefetch] (limiter_turn 0)"
  using run_cons [OF register_step run_nil, of limiter_sample Prefetch] by (simp add: limiter_turn_def limiter_sample_def)

lemma limiter_run_append: "limiter_run x es y \<Longrightarrow> limiter_run y fs z \<Longrightarrow> limiter_run x (es @ fs) z"
  by (induction rule: limiter_run.induct) (auto intro: run_cons)

lemma immediate_round_run:
  assumes "n < 8"
  shows "limiter_run (limiter_turn n) immediate_round (limiter_turn (Suc n))"
proof -
  let ?a = "(limiter_turn n)\<lparr>sy_state := waiter_new Immediate (sy_state (limiter_turn n)), sy_waiting := {#Immediate, Ordinary#}\<rparr>"
  let ?s = "\<lparr>ls_available = 0, ls_collision_waiters = 0, ls_immediate_waiters = 0, ls_ordinary_waiters = 1, ls_consecutive = Suc n\<rparr>"
  let ?b = "?a\<lparr>sy_state := ?s, sy_waiting := sy_waiting ?a - {#Immediate#}, sy_permits := sy_permits ?a + 1, sy_signals := sy_signals ?a + 1\<rparr>"
  have "limiter_step (limiter_turn n) (Registered VirtualTerrain) ?a"
    using register_step [of "limiter_turn n" VirtualTerrain] by (simp add: limiter_turn_def)
  moreover have "limiter_step ?a (Granted Immediate) ?b"
    using assms by (intro limiter_step.grant)
      (simp_all add: limiter_turn_def try_acquire_def eligible_def MAX_CONSECUTIVE_IMMEDIATE_GRANTS_def)
  moreover have "limiter_step ?b Released (limiter_turn (Suc n))"
    using limiter_step.release [of ?b] by (simp add: limiter_turn_def permit_drop_def)
  ultimately show ?thesis unfolding immediate_round_def by (blast intro: run_cons run_nil)
qed

lemma immediate_rounds_run: "n \<le> 8 \<Longrightarrow> limiter_run (limiter_turn 0) (concat (replicate n immediate_round)) (limiter_turn n)"
proof (induction n)
  case (Suc n)
  have "concat (replicate (Suc n) immediate_round) = concat (replicate n immediate_round) @ immediate_round"
    by (induction n) simp_all
  then show ?case using limiter_run_append [OF Suc.IH immediate_round_run [of n]] Suc.prems by simp
qed (simp add: run_nil)

theorem ordinary_turn_bounded_witness:
  "limiter_run (limiter_turn 0) (concat (replicate 8 immediate_round)) (limiter_turn 8) \<and>
   fst (try_acquire Ordinary (sy_state (limiter_turn 8))) \<and> \<not> fst (try_acquire Immediate (sy_state (limiter_turn 8)))"
proof -
  have c: "concat (replicate 8 immediate_round) = concat [immediate_round, immediate_round, immediate_round, immediate_round,
      immediate_round, immediate_round, immediate_round, immediate_round]" by (simp add: eval_nat_numeral)
  have "Granted Ordinary \<notin> set (concat (replicate 8 immediate_round))" by (simp add: immediate_round_def)
  moreover have "count_list (concat (replicate 8 immediate_round)) (Cancelled Ordinary) < count (sy_waiting (limiter_turn 0)) Ordinary"
    "count_list (concat (replicate 8 immediate_round)) (Granted Immediate) = 8"
    unfolding c by (simp_all add: immediate_round_def limiter_turn_def)
  moreover note run = immediate_rounds_run [of 8, simplified]
  moreover have "ls_available (sy_state (limiter_turn 8)) > 0" "Collision \<notin># sy_waiting (limiter_turn 8)"
    by (simp_all add: limiter_turn_def)
  ultimately show ?thesis using ordinary_turn_bounded [OF limiter_sample_start limiter_turn_start run] by simp
qed

end
