(* ===== verification/Chunk_Cache.thy ===== *)
theory Chunk_Cache
  imports Chunk_Model Ordered_Map
begin

text \<open>
  The bounded first-in first-out chunk cache of the bots (\<open>bots/src/cache.rs\<close>). The \<open>HashMap\<close> is a
  keyed map whose order is never observed. The eviction loop of \<open>insert\<close> would spin if the insertion
  order ran empty while the map is too large: that outcome is the value \<open>None\<close> of \<open>evict_loop\<close>,
  and the lemmas show it is never reached.
\<close>

declare split_paired_All [simp del] split_paired_Ex [simp del]

record chunk_cache =
  cc_capacity :: nat
  cc_chunks :: "(chunk_coord, chunk) btree"
  cc_order :: "chunk_coord list"

record voxel_physics =
  vp_collidable :: bool
  vp_fluid :: bool

definition cache_new :: "nat \<Rightarrow> chunk_cache" where
  "cache_new capacity = \<lparr>cc_capacity = capacity, cc_chunks = [], cc_order = []\<rparr>"

fun evict_loop :: "nat \<Rightarrow> (chunk_coord, chunk) btree \<Rightarrow> chunk_coord list \<Rightarrow> ((chunk_coord, chunk) btree \<times> chunk_coord list) option" where
  "evict_loop capacity chunks [] = (if length chunks > capacity then None else Some (chunks, []))"
| "evict_loop capacity chunks (evicted # order) =
     (if length chunks > capacity then evict_loop capacity (btree_remove evicted chunks) order
      else Some (chunks, evicted # order))"

definition cache_insert :: "chunk \<Rightarrow> chunk_cache \<Rightarrow> chunk_cache option" where
  "cache_insert k c =
     (let coord = ch_coord k; chunks = btree_insert coord k (cc_chunks c) in
      if btree_contains (cc_chunks c) coord then Some (c\<lparr>cc_chunks := chunks\<rparr>)
      else map_option (\<lambda>(kept, order). c\<lparr>cc_chunks := kept, cc_order := order\<rparr>)
             (evict_loop (cc_capacity c) chunks (cc_order c @ [coord])))"

definition cache_apply :: "voxel_coord \<Rightarrow> material \<Rightarrow> chunk_cache \<Rightarrow> chunk_cache option" where
  "cache_apply v m c =
     (case btree_get (cc_chunks c) (voxel_chunk v) of
        None \<Rightarrow> Some c
      | Some k \<Rightarrow> (case voxel_local v of (x, y, z) \<Rightarrow>
          map_option (\<lambda>k'. c\<lparr>cc_chunks := btree_update (voxel_chunk v) (\<lambda>_. k') (cc_chunks c)\<rparr>) (chunk_set k x y z m)))"

definition cache_clear :: "chunk_cache \<Rightarrow> chunk_cache" where
  "cache_clear c = c\<lparr>cc_chunks := [], cc_order := []\<rparr>"

definition cache_contains :: "chunk_cache \<Rightarrow> chunk_coord \<Rightarrow> bool" where
  "cache_contains c d = btree_contains (cc_chunks c) d"

definition cache_material :: "chunk_cache \<Rightarrow> voxel_coord \<Rightarrow> material option" where
  "cache_material c v =
     (case btree_get (cc_chunks c) (voxel_chunk v) of
        None \<Rightarrow> None
      | Some k \<Rightarrow> (case voxel_local v of (x, y, z) \<Rightarrow> chunk_get k x y z))"

definition cache_physics :: "chunk_cache \<Rightarrow> voxel_coord \<Rightarrow> voxel_physics" where
  "cache_physics c v =
     (let m = (case cache_material c v of Some m \<Rightarrow> m | None \<Rightarrow> Stone)
      in \<lparr>vp_collidable = is_collidable m, vp_fluid = is_fluid m\<rparr>)"

section \<open>The cache invariant\<close>

definition cache_wf :: "chunk_cache \<Rightarrow> bool" where
  "cache_wf c \<longleftrightarrow>
     btree_wf (cc_chunks c) \<and> distinct (cc_order c) \<and> set (cc_order c) = fst ` set (cc_chunks c) \<and>
     length (cc_order c) \<le> cc_capacity c \<and>
     (\<forall>d k. btree_get (cc_chunks c) d = Some k \<longrightarrow> chunk_wf k \<and> ch_coord k = d)"

lemma btree_length_keys: "btree_wf m \<Longrightarrow> distinct order \<Longrightarrow> set order = fst ` set m \<Longrightarrow> length m = length order"
  by (metis btree_wf_distinct distinct_card length_map list.set_map)

lemma evict_loop_spec:
  assumes "btree_wf m" "distinct order" "set order = fst ` set m"
  shows "\<exists>kept. evict_loop capacity m order = Some (kept, drop (length order - capacity) order) \<and> btree_wf kept \<and>
    (\<forall>d. btree_get kept d = (if d \<in> set (drop (length order - capacity) order) then btree_get m d else None))"
  using assms
proof (induction order arbitrary: m)
  case Nil
  then show ?case by auto
next
  case (Cons e order)
  note len = btree_length_keys [OF Cons.prems]
  show ?case
  proof (cases "length m > capacity")
    case True
    have keys: "set order = fst ` set (btree_remove e m)"
    proof -
      have "d \<in> fst ` set (btree_remove e m) \<longleftrightarrow> d \<in> set order" for d
        using btree_get_None [of "btree_remove e m" d] btree_get_None [of m d] Cons.prems
        by (auto simp: btree_get_remove split: if_splits)
      then show ?thesis by blast
    qed
    from Cons.IH [OF btree_wf_remove [OF Cons.prems(1)] _ keys] Cons.prems(2) obtain kept where
      k: "evict_loop capacity (btree_remove e m) order = Some (kept, drop (length order - capacity) order)" "btree_wf kept"
      "\<forall>d. btree_get kept d = (if d \<in> set (drop (length order - capacity) order) then btree_get (btree_remove e m) d else None)"
      by auto
    have "length (e # order) - capacity = Suc (length order - capacity)" using True len by simp
    moreover have "e \<notin> set (drop (length order - capacity) order)" using Cons.prems(2) by (auto dest: in_set_dropD)
    ultimately show ?thesis using True k Cons.prems(1) by (auto simp: btree_get_remove)
  next
    case False
    have "btree_get m d = None" if "d \<notin> set (e # order)" for d
      using that unfolding Cons.prems(3) btree_get_None .
    then show ?thesis using False len Cons.prems(1) by auto
  qed
qed

lemma cache_insert_spec:
  assumes wf: "cache_wf c" and k: "chunk_wf k"
  shows "\<exists>c'. cache_insert k c = Some c' \<and> cache_wf c' \<and> cc_capacity c' = cc_capacity c \<and>
    cc_order c' = (if cache_contains c (ch_coord k) then cc_order c
      else drop (Suc (length (cc_order c)) - cc_capacity c) (cc_order c @ [ch_coord k])) \<and>
    (\<forall>d. btree_get (cc_chunks c') d =
       (if d \<notin> set (cc_order c') then None else if d = ch_coord k then Some k else btree_get (cc_chunks c) d))"
proof (cases "cache_contains c (ch_coord k)")
  case True
  have in_order: "d \<in> set (cc_order c) \<longleftrightarrow> btree_get (cc_chunks c) d \<noteq> None" for d
    using wf btree_get_None [of "cc_chunks c" d] by (simp add: cache_wf_def)
  let ?c = "c\<lparr>cc_chunks := btree_insert (ch_coord k) k (cc_chunks c)\<rparr>"
  have "cache_wf ?c" using wf k True in_order
    by (auto simp: cache_wf_def set_fst_btree_insert btree_get_insert cache_contains_def btree_contains_def)
  then show ?thesis using True in_order
    by (intro exI [of _ ?c]) (auto simp: cache_insert_def cache_contains_def btree_get_insert btree_contains_def)
next
  case False
  let ?m = "btree_insert (ch_coord k) k (cc_chunks c)" and ?o = "cc_order c @ [ch_coord k]"
  have n: "ch_coord k \<notin> set (cc_order c)"
    using wf False btree_get_None [of "cc_chunks c" "ch_coord k"] by (simp add: cache_wf_def cache_contains_def btree_contains_def)
  have "btree_wf ?m" "distinct ?o" "set ?o = fst ` set ?m"
    using wf n by (auto simp: cache_wf_def set_fst_btree_insert)
  define D where "D = drop (length ?o - cc_capacity c) ?o"
  from evict_loop_spec [OF \<open>btree_wf ?m\<close> \<open>distinct ?o\<close> \<open>set ?o = fst ` set ?m\<close>, of "cc_capacity c"]
  obtain kept where e: "evict_loop (cc_capacity c) ?m ?o = Some (kept, D)" "btree_wf kept"
    "\<forall>d. btree_get kept d = (if d \<in> set D then btree_get ?m d else None)" unfolding D_def by blast
  have some: "btree_get ?m d \<noteq> None" if "d \<in> set D" for d
  proof -
    have "d \<in> fst ` set ?m" using in_set_dropD [OF that [unfolded D_def]] \<open>set ?o = fst ` set ?m\<close> by blast
    then show ?thesis using btree_get_None [of ?m d] by blast
  qed
  have keys: "set D = fst ` set kept"
  proof -
    have "d \<in> set D \<longleftrightarrow> \<not> btree_get kept d = None" for d using e(3) some [of d] by auto
    then show ?thesis unfolding btree_get_None by blast
  qed
  have D: "distinct D" "length D \<le> cc_capacity c" using \<open>distinct ?o\<close> by (simp_all add: D_def distinct_drop del: drop_append)
  let ?c = "c\<lparr>cc_chunks := kept, cc_order := D\<rparr>"
  have "chunk_wf q \<and> ch_coord q = d" if "btree_get kept d = Some q" for d q
    using that e(3) wf k by (auto simp: btree_get_insert cache_wf_def split: if_splits)
  then have "cache_wf ?c" using e(2) keys D by (simp add: cache_wf_def)
  moreover have "cache_insert k c = Some ?c" using False e(1) by (simp add: cache_insert_def cache_contains_def)
  ultimately show ?thesis using False e(3) by (intro exI [of _ ?c]) (simp add: btree_get_insert D_def del: drop_append)
qed

section \<open>Runs\<close>

datatype cache_op = CacheInsert chunk | CacheApply voxel_coord material | CacheClear

fun cache_run_op :: "cache_op \<Rightarrow> chunk_cache \<Rightarrow> chunk_cache option" where
  "cache_run_op (CacheInsert k) c = cache_insert k c"
| "cache_run_op (CacheApply v m) c = cache_apply v m c"
| "cache_run_op CacheClear c = Some (cache_clear c)"

fun cache_run :: "cache_op list \<Rightarrow> chunk_cache \<Rightarrow> chunk_cache option" where
  "cache_run [] c = Some c"
| "cache_run (op # ops) c = (case cache_run_op op c of None \<Rightarrow> None | Some c' \<Rightarrow> cache_run ops c')"

fun cache_op_ok :: "cache_op \<Rightarrow> bool" where
  "cache_op_ok (CacheInsert k) = chunk_wf k"
| "cache_op_ok (CacheApply v m) = voxel_ok v"
| "cache_op_ok CacheClear = True"

lemma voxel_eq_iff:
  assumes "voxel_chunk w = voxel_chunk v" shows "voxel_local w = voxel_local v \<longleftrightarrow> w = v"
proof
  assume l: "voxel_local w = voxel_local v"
  have "vx w div 32 = vx v div 32" "vy w div 32 = vy v div 32" "vz w div 32 = vz v div 32"
    using assms by (simp_all add: voxel_chunk_def Let_def)
  moreover have "vx w mod 32 = vx v mod 32" "vy w mod 32 = vy v mod 32" "vz w mod 32 = vz v mod 32"
    using l by (simp_all add: voxel_local_def Let_def eq_nat_nat_iff)
  ultimately have "vx w = vx v" "vy w = vy v" "vz w = vz v" by (metis mult_div_mod_eq)+
  then show "w = v" by (simp add: voxel_coord.equality)
qed simp

lemma cache_apply_spec:
  assumes wf: "cache_wf c"
  shows "\<exists>c'. cache_apply v m c = Some c' \<and> cache_wf c' \<and> cc_capacity c' = cc_capacity c \<and>
    cache_material c' w = (if w = v \<and> cache_contains c (voxel_chunk v) then Some m else cache_material c w)"
proof (cases "btree_get (cc_chunks c) (voxel_chunk v)")
  case None
  then show ?thesis using wf by (auto simp: cache_apply_def cache_contains_def btree_contains_def)
next
  case (Some k)
  obtain x y z where l: "voxel_local v = (x, y, z)" by (cases "voxel_local v")
  have "local_ok (x, y, z)" using voxel_local_ok [of v] by (simp add: l)
  then obtain k' where k': "chunk_set k x y z m = Some k'" unfolding chunk_set_defined [of x y z k m] by auto
  have kw: "chunk_wf k" "ch_coord k = voxel_chunk v" using wf Some unfolding cache_wf_def by blast+
  note s = chunk_set_wf [OF kw(1) k']
  let ?c = "c\<lparr>cc_chunks := btree_update (voxel_chunk v) (\<lambda>_. k') (cc_chunks c)\<rparr>"
  have a: "cache_apply v m c = Some ?c" by (simp add: cache_apply_def Some l k')
  have "fst ` set (btree_update (voxel_chunk v) (\<lambda>_. k') (cc_chunks c)) = fst ` set (cc_chunks c)"
    by (metis fst_set_btree_update list.set_map)
  then have "cache_wf ?c" using wf s kw(2) by (auto simp: cache_wf_def btree_get_update split: if_splits)
  moreover have "cache_material ?c w = (if w = v then Some m else cache_material c w)"
  proof (cases "voxel_chunk w = voxel_chunk v")
    case True
    obtain x' y' z' where l': "voxel_local w = (x', y', z')" by (cases "voxel_local w")
    have "(x', y', z') = (x, y, z) \<longleftrightarrow> w = v" using voxel_eq_iff [of w v] True by (simp add: l l')
    then show ?thesis using True Some chunk_get_set [OF kw(1) k', of x' y' z'] wf
      by (auto simp: cache_material_def l l' btree_get_update cache_wf_def)
  next
    case False
    then show ?thesis using wf by (auto simp: cache_material_def btree_get_update cache_wf_def)
  qed
  ultimately show ?thesis using a Some by (simp add: cache_contains_def btree_contains_def)
qed


lemma cache_run_spec:
  assumes "cache_wf c" "\<forall>op \<in> set ops. cache_op_ok op"
  shows "\<exists>c'. cache_run ops c = Some c' \<and> cache_wf c' \<and> cc_capacity c' = cc_capacity c"
  using assms
proof (induction ops arbitrary: c)
  case (Cons op ops)
  have "\<exists>c'. cache_run_op op c = Some c' \<and> cache_wf c' \<and> cc_capacity c' = cc_capacity c"
  proof (cases op)
    case (CacheInsert k)
    then show ?thesis using cache_insert_spec [OF Cons.prems(1), of k] Cons.prems(2) by auto
  next
    case (CacheApply v m)
    then show ?thesis using cache_apply_spec [OF Cons.prems(1), of v m] by auto
  next
    case CacheClear
    then show ?thesis using Cons.prems(1) by (simp add: cache_clear_def cache_wf_def)
  qed
  then obtain c1 where c1: "cache_run_op op c = Some c1" "cache_wf c1" "cc_capacity c1 = cc_capacity c" by blast
  from Cons.IH [OF c1(2)] Cons.prems(2) c1 show ?case by simp
qed simp

lemma cache_new_wf: "cache_wf (cache_new capacity)"
  by (simp add: cache_new_def cache_wf_def)

section \<open>Properties\<close>

text \<open>
  C30: every run of insertions, mutations and clears returns (the eviction loop of \<open>insert\<close> ends and
  no index is out of range), with at most \<open>capacity\<close> chunks held; and the next insertion of a chunk
  replaces a chunk of the same coordinate in place, or else keeps exactly the newest \<open>capacity\<close>
  chunks in order of first insertion, unchanged, a capacity of zero included.
\<close>

theorem cache_runs_bounded_fifo:
  assumes "\<forall>op \<in> set ops. cache_op_ok op" "chunk_wf k"
  shows "\<exists>c c'. cache_run ops (cache_new capacity) = Some c \<and> length (cc_chunks c) \<le> capacity \<and>
    cache_insert k c = Some c' \<and> length (cc_chunks c') \<le> capacity \<and>
    cc_order c' = (if cache_contains c (ch_coord k) then cc_order c
      else drop (Suc (length (cc_order c)) - capacity) (cc_order c @ [ch_coord k])) \<and>
    (\<forall>d. btree_get (cc_chunks c') d =
       (if d \<notin> set (cc_order c') then None else if d = ch_coord k then Some k else btree_get (cc_chunks c) d))"
proof -
  from cache_run_spec [OF cache_new_wf assms(1), of capacity] obtain c where
    c: "cache_run ops (cache_new capacity) = Some c" "cache_wf c" "cc_capacity c = capacity" by (auto simp: cache_new_def)
  have bound: "length (cc_chunks x) \<le> cc_capacity x" if "cache_wf x" for x
    using that btree_length_keys [of "cc_chunks x" "cc_order x"] by (simp add: cache_wf_def)
  from cache_insert_spec [OF c(2) assms(2)] bound [OF c(2)] bound c(1,3) show ?thesis by metis
qed

theorem cache_runs_bounded_fifo_witness:
  "\<exists>k c c'. chunk_filled (chunk_at 2 0 1) Dirt = Some k \<and> cache_run [CacheClear] (cache_new 1) = Some c \<and>
     cache_insert k c = Some c' \<and> cc_order c' = [chunk_at 2 0 1]"
proof -
  obtain k where k: "chunk_filled (chunk_at 2 0 1) Dirt = Some k" "ch_coord k = chunk_at 2 0 1"
    by (simp add: chunk_filled_def is_world_representable_def)
  have "\<forall>op \<in> set [CacheClear]. cache_op_ok op" by simp
  from cache_runs_bounded_fifo [OF this chunk_filled_wf [OF k(1)], of 1] k show ?thesis
    by (auto simp: cache_new_def cache_clear_def cache_contains_def btree_contains_def)
qed

end
