(* ===== verification/Terrain_Stream.thy ===== *)
theory Terrain_Stream
  imports Terrain_Key Ordered_Map "HOL-Library.List_Lexorder" "HOL-Library.Sublist"
begin

text \<open>
  Deadline scheduling of virtual terrain pages (\<open>world/src/terrain_stream.rs\<close>, with the identities of
  \<open>world/src/terrain_transport.rs\<close>): admission of complete demand groups, selection and commitment
  of atomic transport batches, completion, failure with exponential backoff, deferral. Byte counters
  saturate at \<open>u64\<close>, priorities at \<open>u128\<close>; \<open>usize\<close> sums are unbounded here, as the sums of the
  code cannot reach its limit.
\<close>

declare split_paired_All [simp del] split_paired_Ex [simp del]

section \<open>Data\<close>

definition TERRAIN_PAGE_MAX_CHILDREN :: nat where "TERRAIN_PAGE_MAX_CHILDREN = 8"
definition TERRAIN_PAGE_TARGET_COMPRESSED_BYTES :: nat where "TERRAIN_PAGE_TARGET_COMPRESSED_BYTES = 65536"
definition TERRAIN_PAGE_MAX_COMPRESSED_BYTES :: nat where "TERRAIN_PAGE_MAX_COMPRESSED_BYTES = 262144"
definition TERRAIN_PAGE_TRANSFER_MAX_ITEMS :: nat where "TERRAIN_PAGE_TRANSFER_MAX_ITEMS = 256"
definition TERRAIN_PAGE_TRANSFER_MAX_BYTES :: nat where
  "TERRAIN_PAGE_TRANSFER_MAX_BYTES = TERRAIN_PAGE_TRANSFER_MAX_ITEMS * TERRAIN_PAGE_TARGET_COMPRESSED_BYTES + 32768"

record transfer_identity =
  ti_key :: page_key
  ti_revision :: u64
  ti_fingerprint :: "u8 list"

instantiation transfer_identity_ext :: (linorder) linorder
begin

definition less_eq_transfer_identity_ext :: "'a transfer_identity_scheme \<Rightarrow> 'a transfer_identity_scheme \<Rightarrow> bool" where
  "less_eq_transfer_identity_ext a b \<longleftrightarrow>
     (ti_key a, ti_revision a, ti_fingerprint a, transfer_identity.more a)
       \<le> (ti_key b, ti_revision b, ti_fingerprint b, transfer_identity.more b)"

definition less_transfer_identity_ext :: "'a transfer_identity_scheme \<Rightarrow> 'a transfer_identity_scheme \<Rightarrow> bool" where
  "less_transfer_identity_ext a b \<longleftrightarrow>
     (ti_key a, ti_revision a, ti_fingerprint a, transfer_identity.more a)
       < (ti_key b, ti_revision b, ti_fingerprint b, transfer_identity.more b)"

instance
  by standard (auto simp: less_eq_transfer_identity_ext_def less_transfer_identity_ext_def)

end

definition identity_validates :: "transfer_identity \<Rightarrow> bool" where
  "identity_validates i \<longleftrightarrow>
     (if is_surface (ti_key i) then horizontal_bounds (ti_key i) \<noteq> None else page_bounds (ti_key i) \<noteq> None) \<and>
     ti_fingerprint i \<noteq> replicate 32 0"

record terrain_stream_config =
  max_pending_pages :: nat
  max_in_flight_pages :: nat
  max_batch_items :: nat
  max_batch_bytes :: nat
  retry_base_ms :: nat
  retry_max_ms :: nat

definition DEVELOPMENT :: terrain_stream_config where
  "DEVELOPMENT = \<lparr>max_pending_pages = 2048, max_in_flight_pages = 256, max_batch_items = 64,
     max_batch_bytes = 2 * 1024 * 1024, retry_base_ms = 100, retry_max_ms = 5000\<rparr>"

definition INTERACTIVE_CLIENT :: terrain_stream_config where
  "INTERACTIVE_CLIENT = \<lparr>max_pending_pages = 2048, max_in_flight_pages = 64,
     max_batch_items = TERRAIN_PAGE_MAX_CHILDREN, max_batch_bytes = 2 * 1024 * 1024, retry_base_ms = 100, retry_max_ms = 5000\<rparr>"

definition config_validates :: "terrain_stream_config \<Rightarrow> bool" where
  "config_validates c \<longleftrightarrow>
     max_pending_pages c \<ge> TERRAIN_PAGE_MAX_CHILDREN \<and> max_in_flight_pages c > 0 \<and> max_batch_items c > 0 \<and>
     max_batch_items c \<le> TERRAIN_PAGE_TRANSFER_MAX_ITEMS \<and> max_batch_items c \<le> max_in_flight_pages c \<and>
     max_batch_bytes c \<ge> TERRAIN_PAGE_MAX_COMPRESSED_BYTES \<and> max_batch_bytes c \<le> TERRAIN_PAGE_TRANSFER_MAX_BYTES \<and>
     retry_base_ms c > 0 \<and> retry_base_ms c \<le> retry_max_ms c"

record page_demand =
  pd_identity :: transfer_identity
  pd_projected_error_millipixels :: nat
  pd_time_to_exposure_ms :: nat
  pd_distance_millimetres :: nat
  pd_occlusion_confidence_millis :: nat
  pd_presentation_critical :: bool
  pd_topology_critical :: bool
  pd_silhouette_critical :: bool
  pd_estimated_encoded_bytes :: nat

definition demand_validates :: "page_demand \<Rightarrow> bool" where
  "demand_validates d \<longleftrightarrow>
     identity_validates (pd_identity d) \<and> pd_occlusion_confidence_millis d \<le> 1000 \<and>
     pd_estimated_encoded_bytes d > 0 \<and> pd_estimated_encoded_bytes d \<le> TERRAIN_PAGE_MAX_COMPRESSED_BYTES"

record demand_group =
  dg_replacement_parent :: "page_key option"
  dg_pages :: "page_demand list"

record pending_demand =
  pe_demand :: page_demand
  pe_replacement_parent :: "page_key option"
  pe_attempt :: nat
  pe_retry_at_ms :: nat

record in_flight_demand =
  if_pending :: pending_demand
  if_obsolete :: bool

datatype terrain_stream_error =
    InvalidConfig
  | InvalidDemandGroup
  | InvalidRequestBatch
  | UnschedulableDemandGroup
  | UnknownPending transfer_identity
  | UnknownInFlight transfer_identity

record terrain_stream_stats =
  st_pending_pages :: nat
  st_in_flight_pages :: nat
  st_cancelled_pending_pages :: nat
  st_obsolete_in_flight_pages :: nat
  st_useful_bytes :: nat
  st_cancellation_waste_bytes :: nat
  st_failed_pages :: nat

record terrain_stream =
  ts_config :: terrain_stream_config
  ts_pending :: "(transfer_identity, pending_demand) btree"
  ts_in_flight :: "(transfer_identity, in_flight_demand) btree"
  ts_cancelled_pending_pages :: nat
  ts_useful_bytes :: nat
  ts_cancellation_waste_bytes :: nat
  ts_failed_pages :: nat

section \<open>Priorities\<close>

definition u128_saturating_add :: "nat \<Rightarrow> nat \<Rightarrow> nat" where
  "u128_saturating_add a b = min (a + b) u128_max"

definition u128_saturating_mul :: "nat \<Rightarrow> nat \<Rightarrow> nat" where
  "u128_saturating_mul a b = min (a * b) u128_max"

definition demand_priority :: "page_demand \<Rightarrow> nat" where
  "demand_priority d =
     (let critical = of_bool (pd_presentation_critical d) * 2 ^ 124 + of_bool (pd_topology_critical d) * 2 ^ 120
            + of_bool (pd_silhouette_critical d) * 2 ^ 112;
          visibility = (1000 - pd_occlusion_confidence_millis d) + 50;
          error = u128_saturating_add (pd_projected_error_millipixels d) 1000;
          deadline = (60000 - min (pd_time_to_exposure_ms d) 60000) + 1;
          bytes = max (pd_estimated_encoded_bytes d) 1
      in u128_saturating_add critical
           (u128_saturating_mul (u128_saturating_mul (u128_saturating_mul error error) visibility) deadline div bytes))"

definition compare_demands :: "page_demand \<Rightarrow> page_demand \<Rightarrow> ordering" where
  "compare_demands left right =
     then_with (then_with (then_with (cmp (demand_priority right) (demand_priority left))
       (cmp (pd_time_to_exposure_ms left) (pd_time_to_exposure_ms right)))
       (cmp (pd_distance_millimetres left) (pd_distance_millimetres right)))
       (cmp (pd_identity left) (pd_identity right))"

fun compare_best :: "page_demand option \<Rightarrow> page_demand option \<Rightarrow> ordering" where
  "compare_best (Some left) (Some right) = compare_demands left right"
| "compare_best (Some _) None = Less"
| "compare_best None (Some _) = Greater"
| "compare_best None None = Equal"

definition compare_demand_groups :: "demand_group \<Rightarrow> demand_group \<Rightarrow> ordering" where
  "compare_demand_groups left right =
     compare_best (min_by compare_demands (dg_pages left)) (min_by compare_demands (dg_pages right))"

definition compare_pending_groups :: "pending_demand list \<Rightarrow> pending_demand list \<Rightarrow> ordering" where
  "compare_pending_groups left right =
     (let best = \<lambda>group. map_option pe_demand (min_by (\<lambda>a b. compare_demands (pe_demand a) (pe_demand b)) group)
      in compare_best (best left) (best right))"

section \<open>Demand groups\<close>

definition singleton_group :: "page_demand \<Rightarrow> demand_group" where
  "singleton_group page = \<lparr>dg_replacement_parent = None, dg_pages = [page]\<rparr>"

definition group_validates :: "demand_group \<Rightarrow> bool" where
  "group_validates g \<longleftrightarrow>
     (if dg_pages g = [] \<or> length (dg_pages g) > TERRAIN_PAGE_MAX_CHILDREN \<or>
         list_ex (\<lambda>page. \<not> demand_validates page) (dg_pages g) then False
      else if length (btree_set (map pd_identity (dg_pages g))) \<noteq> length (dg_pages g) then False
      else case dg_replacement_parent g of
        None \<Rightarrow> length (dg_pages g) = 1
      | Some parent \<Rightarrow>
          (case refinement_children parent of
             None \<Rightarrow> False
           | Some children \<Rightarrow> length (dg_pages g) = length children \<and>
               list_all (\<lambda>child. list_ex (\<lambda>page. ti_key (pd_identity page) = child) (dg_pages g)) children))"

definition replacement_group :: "page_key \<Rightarrow> page_demand list \<Rightarrow> terrain_stream_error + demand_group" where
  "replacement_group parent pages =
     (let group = \<lparr>dg_replacement_parent = Some parent, dg_pages = pages\<rparr>
      in if \<not> group_validates group then Inl InvalidDemandGroup else Inr group)"

fun collect_options :: "'a option list \<Rightarrow> 'a list option" where
  "collect_options [] = Some []"
| "collect_options (None # _) = None"
| "collect_options (Some x # xs) = map_option (Cons x) (collect_options xs)"

definition terrain_page_replacement_groups ::
    "transfer_identity list \<Rightarrow> (page_key \<times> transfer_identity list) list" where
  "terrain_page_replacement_groups identities =
     (let requested = btree_collect (map (\<lambda>i. (ti_key i, i)) identities);
          parents = btree_set (List.map_filter page_parent (btree_keys requested))
      in List.map_filter (\<lambda>parent.
           case refinement_children parent of
             None \<Rightarrow> None
           | Some children \<Rightarrow> map_option (Pair parent) (collect_options (map (btree_get requested) children))) parents)"

section \<open>The scheduler\<close>

definition stream_new :: "terrain_stream_config \<Rightarrow> terrain_stream_error + terrain_stream" where
  "stream_new config =
     (if \<not> config_validates config then Inl InvalidConfig
      else Inr \<lparr>ts_config = config, ts_pending = [], ts_in_flight = [], ts_cancelled_pending_pages = 0,
        ts_useful_bytes = 0, ts_cancellation_waste_bytes = 0, ts_failed_pages = 0\<rparr>)"

definition missing :: "transfer_identity list \<Rightarrow> terrain_stream \<Rightarrow> page_demand \<Rightarrow> bool" where
  "missing available s d \<longleftrightarrow> pd_identity d \<notin> set available \<and> \<not> btree_contains (ts_in_flight s) (pd_identity d)"

definition unschedulable :: "transfer_identity list \<Rightarrow> terrain_stream \<Rightarrow> demand_group \<Rightarrow> bool" where
  "unschedulable available s g \<longleftrightarrow>
     (let (missing_pages, missing_bytes) =
            fold (\<lambda>page (pages, bytes).
                if missing available s page then (pages + 1, bytes + pd_estimated_encoded_bytes page) else (pages, bytes))
              (dg_pages g) (0, 0)
      in missing_pages > max_batch_items (ts_config s) \<or> missing_pages > max_in_flight_pages (ts_config s) \<or>
         missing_bytes > max_batch_bytes (ts_config s))"

definition admit_demand ::
    "terrain_stream \<Rightarrow> page_key option \<Rightarrow> page_demand \<Rightarrow> (transfer_identity, pending_demand) btree \<Rightarrow> (transfer_identity, pending_demand) btree"
  where
  "admit_demand s parent demand admitted =
     (let prior = btree_get (ts_pending s) (pd_identity demand) in
      btree_insert (pd_identity demand)
        \<lparr>pe_demand = demand, pe_replacement_parent = parent,
         pe_attempt = (case prior of None \<Rightarrow> 0 | Some p \<Rightarrow> pe_attempt p),
         pe_retry_at_ms = (case prior of None \<Rightarrow> 0 | Some p \<Rightarrow> pe_retry_at_ms p)\<rparr> admitted)"

fun admit_groups ::
    "transfer_identity list \<Rightarrow> terrain_stream \<Rightarrow> demand_group list \<Rightarrow> (transfer_identity, pending_demand) btree
      \<Rightarrow> (transfer_identity, pending_demand) btree" where
  "admit_groups available s [] admitted = admitted"
| "admit_groups available s (g # gs) admitted =
     (let new_pages = length (filter (missing available s) (dg_pages g)) in
      if length admitted + new_pages > max_pending_pages (ts_config s) then admit_groups available s gs admitted
      else admit_groups available s gs
             (fold (\<lambda>demand m. if missing available s demand then admit_demand s (dg_replacement_parent g) demand m else m)
               (dg_pages g) admitted))"

definition reconcile_with_available ::
    "demand_group list \<Rightarrow> transfer_identity list \<Rightarrow> terrain_stream \<Rightarrow> terrain_stream_error option \<times> terrain_stream" where
  "reconcile_with_available groups available s =
     (if list_ex (\<lambda>g. \<not> group_validates g) groups then (Some InvalidDemandGroup, s)
      else if list_ex (unschedulable available s) groups then (Some UnschedulableDemandGroup, s)
      else
        let demanded_missing = filter (\<lambda>i. i \<notin> set available) (concat (map (\<lambda>g. map pd_identity (dg_pages g)) groups));
            admitted = admit_groups available s (sort_by compare_demand_groups groups) [];
            cancelled = length (filter (\<lambda>i. \<not> btree_contains admitted i) (btree_keys (ts_pending s)))
        in (None, s\<lparr>ts_cancelled_pending_pages := u64_saturating_add (ts_cancelled_pending_pages s) cancelled,
               ts_pending := admitted,
               ts_in_flight := map (\<lambda>(i, e). (i, e\<lparr>if_obsolete := i \<notin> set demanded_missing\<rparr>)) (ts_in_flight s)\<rparr>))"

definition reconcile :: "demand_group list \<Rightarrow> terrain_stream \<Rightarrow> terrain_stream_error option \<times> terrain_stream" where
  "reconcile groups s = reconcile_with_available groups [] s"

definition push_pending ::
    "pending_demand \<Rightarrow> pending_demand list list \<times> (page_key, pending_demand list) btree
      \<Rightarrow> pending_demand list list \<times> (page_key, pending_demand list) btree" where
  "push_pending p acc =
     (case acc of (candidates, groups) \<Rightarrow>
        case pe_replacement_parent p of
          Some parent \<Rightarrow>
            (candidates, btree_insert parent ((case btree_get groups parent of None \<Rightarrow> [] | Some g \<Rightarrow> g) @ [p]) groups)
        | None \<Rightarrow> (candidates @ [[p]], groups))"

definition batch_candidates :: "nat \<Rightarrow> terrain_stream \<Rightarrow> pending_demand list list" where
  "batch_candidates now_ms s =
     (let (candidates, groups) = fold push_pending (btree_values (ts_pending s)) ([], []) in
      sort_by compare_pending_groups
        (filter (list_all (\<lambda>p. pe_retry_at_ms p \<le> now_ms)) (candidates @ btree_values groups)))"

definition group_bytes :: "pending_demand list \<Rightarrow> nat" where
  "group_bytes g = fold (\<lambda>p bytes. bytes + pd_estimated_encoded_bytes (pe_demand p)) g 0"

fun fill_batch :: "nat \<Rightarrow> nat \<Rightarrow> pending_demand list list \<Rightarrow> transfer_identity list \<Rightarrow> nat \<Rightarrow> transfer_identity list" where
  "fill_batch item_limit max_bytes [] pages bytes = pages"
| "fill_batch item_limit max_bytes (g # gs) pages bytes =
     (let group = sort_by (\<lambda>a b. compare_demands (pe_demand a) (pe_demand b)) g in
      if length pages + length group > item_limit then fill_batch item_limit max_bytes gs pages bytes
      else if bytes + group_bytes group > max_bytes then fill_batch item_limit max_bytes gs pages bytes
      else fill_batch item_limit max_bytes gs (pages @ map (pd_identity \<circ> pe_demand) group) (bytes + group_bytes group))"

definition item_limit_of :: "terrain_stream \<Rightarrow> nat" where
  "item_limit_of s = min (max_in_flight_pages (ts_config s) - length (ts_in_flight s)) (max_batch_items (ts_config s))"

definition peek_batch :: "nat \<Rightarrow> terrain_stream \<Rightarrow> transfer_identity list option" where
  "peek_batch now_ms s =
     (if item_limit_of s = 0 then None
      else let pages = fill_batch (item_limit_of s) (max_batch_bytes (ts_config s)) (batch_candidates now_ms s) [] 0
           in if pages \<noteq> [] then Some pages else None)"

fun commit_pages :: "transfer_identity list \<Rightarrow> terrain_stream \<Rightarrow> terrain_stream_error option \<times> terrain_stream" where
  "commit_pages [] s = (None, s)"
| "commit_pages (i # is) s =
     (case btree_get (ts_pending s) i of
        None \<Rightarrow> (Some (UnknownPending i), s)
      | Some p \<Rightarrow> commit_pages is (s\<lparr>ts_pending := btree_remove i (ts_pending s),
          ts_in_flight := btree_insert i \<lparr>if_pending = p, if_obsolete = False\<rparr> (ts_in_flight s)\<rparr>))"

definition commit_batch :: "transfer_identity list \<Rightarrow> terrain_stream \<Rightarrow> terrain_stream_error option \<times> terrain_stream" where
  "commit_batch pages s =
     (if pages = [] \<or> length (btree_set pages) \<noteq> length pages then (Some InvalidRequestBatch, s)
      else case List.find (\<lambda>i. \<not> btree_contains (ts_pending s) i) pages of
        Some i \<Rightarrow> (Some (UnknownPending i), s)
      | None \<Rightarrow> commit_pages pages s)"

definition next_batch :: "nat \<Rightarrow> terrain_stream \<Rightarrow> transfer_identity list option \<times> terrain_stream" where
  "next_batch now_ms s =
     (case peek_batch now_ms s of
        None \<Rightarrow> (None, s)
      | Some batch \<Rightarrow> (case commit_batch batch s of (Some e, t) \<Rightarrow> (None, t) | (None, t) \<Rightarrow> (Some batch, t)))"

definition stream_complete :: "transfer_identity \<Rightarrow> nat \<Rightarrow> terrain_stream \<Rightarrow> (terrain_stream_error + bool) \<times> terrain_stream" where
  "stream_complete i received_bytes s =
     (case btree_get (ts_in_flight s) i of
        None \<Rightarrow> (Inl (UnknownInFlight i), s)
      | Some e \<Rightarrow>
          let s1 = s\<lparr>ts_in_flight := btree_remove i (ts_in_flight s)\<rparr> in
          if if_obsolete e
          then (Inr False, s1\<lparr>ts_cancellation_waste_bytes := u64_saturating_add (ts_cancellation_waste_bytes s1) received_bytes\<rparr>)
          else (Inr True, s1\<lparr>ts_useful_bytes := u64_saturating_add (ts_useful_bytes s1) received_bytes\<rparr>))"

definition retry_delay :: "terrain_stream_config \<Rightarrow> nat \<Rightarrow> nat" where
  "retry_delay config attempt = min (min (retry_base_ms config * 2 ^ min attempt 20) u64_max) (retry_max_ms config)"

definition stream_fail :: "transfer_identity \<Rightarrow> nat \<Rightarrow> terrain_stream \<Rightarrow> terrain_stream_error option \<times> terrain_stream" where
  "stream_fail i now_ms s =
     (case btree_get (ts_in_flight s) i of
        None \<Rightarrow> (Some (UnknownInFlight i), s)
      | Some e \<Rightarrow>
          let s1 = s\<lparr>ts_in_flight := btree_remove i (ts_in_flight s),
                ts_failed_pages := u64_saturating_add (ts_failed_pages s) 1\<rparr> in
          if if_obsolete e then (None, s1)
          else
            let attempt = min (pe_attempt (if_pending e) + 1) 255;
                p = (if_pending e)\<lparr>pe_attempt := attempt,
                      pe_retry_at_ms := u64_saturating_add now_ms (retry_delay (ts_config s) attempt)\<rparr>
            in (None, if length (ts_pending s1) < max_pending_pages (ts_config s1)
                      then s1\<lparr>ts_pending := btree_insert i p (ts_pending s1)\<rparr> else s1))"

definition stream_defer :: "transfer_identity \<Rightarrow> terrain_stream \<Rightarrow> terrain_stream_error option \<times> terrain_stream" where
  "stream_defer i s =
     (case btree_get (ts_in_flight s) i of
        None \<Rightarrow> (Some (UnknownInFlight i), s)
      | Some e \<Rightarrow>
          let s1 = s\<lparr>ts_in_flight := btree_remove i (ts_in_flight s)\<rparr> in
          (None, if \<not> if_obsolete e \<and> length (ts_pending s1) < max_pending_pages (ts_config s1)
                 then s1\<lparr>ts_pending := btree_insert i (if_pending e) (ts_pending s1)\<rparr> else s1))"

definition stream_stats :: "terrain_stream \<Rightarrow> terrain_stream_stats" where
  "stream_stats s =
     \<lparr>st_pending_pages = length (ts_pending s), st_in_flight_pages = length (ts_in_flight s),
      st_cancelled_pending_pages = ts_cancelled_pending_pages s,
      st_obsolete_in_flight_pages = length (filter if_obsolete (btree_values (ts_in_flight s))),
      st_useful_bytes = ts_useful_bytes s, st_cancellation_waste_bytes = ts_cancellation_waste_bytes s,
      st_failed_pages = ts_failed_pages s\<rparr>"

section \<open>The scheduler invariant\<close>

definition pending_ok :: "terrain_stream \<Rightarrow> bool" where
  "pending_ok s \<longleftrightarrow> btree_wf (ts_pending s) \<and> length (ts_pending s) \<le> max_pending_pages (ts_config s) \<and>
     (\<forall>i p. btree_get (ts_pending s) i = Some p \<longrightarrow> pd_identity (pe_demand p) = i)"

definition in_flight_ok :: "terrain_stream \<Rightarrow> bool" where
  "in_flight_ok s \<longleftrightarrow> btree_wf (ts_in_flight s) \<and> length (ts_in_flight s) \<le> max_in_flight_pages (ts_config s) \<and>
     (\<forall>i e. btree_get (ts_in_flight s) i = Some e \<longrightarrow> pd_identity (pe_demand (if_pending e)) = i)"

definition stream_wf :: "terrain_stream \<Rightarrow> bool" where
  "stream_wf s \<longleftrightarrow> config_validates (ts_config s) \<and> pending_ok s \<and> in_flight_ok s \<and>
     (\<forall>i. btree_contains (ts_pending s) i \<longrightarrow> \<not> btree_contains (ts_in_flight s) i)"

lemma stream_new_wf: "stream_new config = Inr s \<Longrightarrow> stream_wf s"
  by (auto simp: stream_new_def stream_wf_def pending_ok_def in_flight_ok_def btree_contains_def split: if_splits)

lemma stream_complete_wf: "stream_wf s \<Longrightarrow> stream_wf (snd (stream_complete i n s))"
  by (auto simp: stream_complete_def Let_def stream_wf_def pending_ok_def in_flight_ok_def btree_contains_def
      btree_get_remove btree_length_remove split: option.splits)

lemma stream_fail_wf: "stream_wf s \<Longrightarrow> stream_wf (snd (stream_fail i now s))"
  by (auto simp: stream_fail_def Let_def stream_wf_def pending_ok_def in_flight_ok_def btree_contains_def
      btree_get_remove btree_get_insert btree_length_remove btree_length_insert split: option.splits if_splits)

lemma stream_defer_wf: "stream_wf s \<Longrightarrow> stream_wf (snd (stream_defer i s))"
  by (auto simp: stream_defer_def Let_def stream_wf_def pending_ok_def in_flight_ok_def btree_contains_def
      btree_get_remove btree_get_insert btree_length_remove btree_length_insert split: option.splits if_splits)

subsection \<open>Admission\<close>

definition carries :: "terrain_stream \<Rightarrow> pending_demand \<Rightarrow> bool" where
  "carries s p \<longleftrightarrow>
     (case btree_get (ts_pending s) (pd_identity (pe_demand p)) of
        None \<Rightarrow> pe_attempt p = 0 \<and> pe_retry_at_ms p = 0
      | Some old \<Rightarrow> pe_attempt p = pe_attempt old \<and> pe_retry_at_ms p = pe_retry_at_ms old)"

definition admitted_ok :: "transfer_identity list \<Rightarrow> terrain_stream \<Rightarrow> (transfer_identity, pending_demand) btree \<Rightarrow> bool" where
  "admitted_ok available s m \<longleftrightarrow> btree_wf m \<and> length m \<le> max_pending_pages (ts_config s) \<and>
     (\<forall>i p. btree_get m i = Some p \<longrightarrow> pd_identity (pe_demand p) = i \<and> missing available s (pe_demand p) \<and> carries s p)"

abbreviation admit_group where
  "admit_group available s g \<equiv>
     fold (\<lambda>demand m. if missing available s demand then admit_demand s (dg_replacement_parent g) demand m else m) (dg_pages g)"

lemma admit_demands_spec:
  fixes m :: "(transfer_identity, pending_demand) btree" and available :: "transfer_identity list"
    and s :: terrain_stream and parent :: "page_key option" and ds :: "page_demand list"
  assumes "btree_wf m"
  defines "f \<equiv> (\<lambda>demand m. if missing available s demand then admit_demand s parent demand m else m)"
  shows "btree_wf (fold f ds m) \<and> length (fold f ds m) \<le> length m + length (filter (missing available s) ds) \<and>
    (\<forall>d \<in> set ds. missing available s d \<longrightarrow> btree_contains (fold f ds m) (pd_identity d)) \<and>
    (\<forall>i. btree_contains m i \<longrightarrow> btree_contains (fold f ds m) i) \<and>
    (\<forall>i p. btree_get (fold f ds m) i = Some p \<longrightarrow> btree_get m i = Some p \<or>
       (pe_demand p \<in> set ds \<and> missing available s (pe_demand p) \<and> pd_identity (pe_demand p) = i \<and> pe_replacement_parent p = parent \<and> carries s p))"
  using assms(1)
proof (induction ds arbitrary: m)
  case (Cons d ds)
  have wf: "btree_wf (f d m)" using Cons.prems by (simp add: f_def admit_demand_def Let_def)
  have len: "length (f d m) + length (filter (missing available s) ds) \<le> length m + length (filter (missing available s) (d # ds))"
    using Cons.prems by (simp add: f_def admit_demand_def Let_def btree_length_insert)
  have get: "btree_get (f d m) i = Some p \<Longrightarrow> btree_get m i = Some p \<or>
      (pe_demand p = d \<and> missing available s d \<and> pd_identity d = i \<and> pe_replacement_parent p = parent \<and> carries s p)" for i p
    by (auto simp: f_def admit_demand_def Let_def btree_get_insert carries_def split: if_splits option.splits)
  have sub: "btree_contains m i \<Longrightarrow> btree_contains (f d m) i" "missing available s d \<Longrightarrow> btree_contains (f d m) (pd_identity d)" for i
    by (auto simp: f_def admit_demand_def Let_def btree_get_insert btree_contains_def)
  note IH = Cons.IH [OF wf]
  have "btree_wf (fold f (d # ds) m)" "length (fold f (d # ds) m) \<le> length m + length (filter (missing available s) (d # ds))"
    using IH len by simp_all
  moreover have "\<forall>e \<in> set (d # ds). missing available s e \<longrightarrow> btree_contains (fold f (d # ds) m) (pd_identity e)"
    using IH sub by auto
  moreover have "\<forall>i. btree_contains m i \<longrightarrow> btree_contains (fold f (d # ds) m) i" using IH sub by auto
  moreover have "btree_get m i = Some p \<or> (pe_demand p \<in> set (d # ds) \<and> missing available s (pe_demand p) \<and>
      pd_identity (pe_demand p) = i \<and> pe_replacement_parent p = parent \<and> carries s p)" if "btree_get (fold f (d # ds) m) i = Some p" for i p
    using IH get [of i p] that by auto
  ultimately show ?case by blast
qed (simp add: f_def)

lemma admit_groups_spec:
  assumes "admitted_ok available s m"
  shows "admitted_ok available s (admit_groups available s gs m) \<and>
    (\<forall>i. btree_contains m i \<longrightarrow> btree_contains (admit_groups available s gs m) i) \<and>
    (\<forall>g \<in> set gs. (\<forall>d \<in> set (dg_pages g). missing available s d \<longrightarrow> btree_contains (admit_groups available s gs m) (pd_identity d)) \<or>
       length (admit_groups available s gs m) + length (filter (missing available s) (dg_pages g)) > max_pending_pages (ts_config s)) \<and>
    (\<forall>i p. btree_get (admit_groups available s gs m) i = Some p \<longrightarrow> btree_get m i = Some p \<or>
       (\<exists>g \<in> set gs. pe_demand p \<in> set (dg_pages g) \<and> pe_replacement_parent p = dg_replacement_parent g))"
  using assms
proof (induction gs arbitrary: m)
  case (Cons g gs)
  let ?n = "length (filter (missing available s) (dg_pages g))"
  show ?case
  proof (cases "length m + ?n > max_pending_pages (ts_config s)")
    case True
    have "length m \<le> length (admit_groups available s gs m)"
    proof -
      have "set (map fst m) \<subseteq> set (map fst (admit_groups available s gs m))"
        using Cons.IH [OF Cons.prems] btree_get_None [of m] btree_get_None [of "admit_groups available s gs m"]
        unfolding btree_contains_def by auto
      moreover have "distinct (map fst m)" "distinct (map fst (admit_groups available s gs m))"
        using Cons.prems Cons.IH [OF Cons.prems] by (auto simp: admitted_ok_def intro: btree_wf_distinct)
      ultimately show ?thesis by (metis card_mono distinct_card finite_set length_map)
    qed
    then show ?thesis using True Cons.IH [OF Cons.prems] by auto
  next
    case False
    let ?m = "admit_group available s g m"
    have wf: "btree_wf m" using Cons.prems by (simp add: admitted_ok_def)
    note d = admit_demands_spec [OF wf, of available s "dg_replacement_parent g" "dg_pages g"]
    have ok: "admitted_ok available s ?m"
      unfolding admitted_ok_def
    proof (intro conjI allI impI)
      show "btree_wf ?m" "length ?m \<le> max_pending_pages (ts_config s)" using d False by auto
    next
      fix i p assume "btree_get ?m i = Some p"
      with d Cons.prems show "pd_identity (pe_demand p) = i" "missing available s (pe_demand p)" "carries s p"
        unfolding admitted_ok_def by blast+
    qed
    have eq: "admit_groups available s (g # gs) m = admit_groups available s gs ?m" using False by simp
    note IH = Cons.IH [OF ok]
    let ?M = "admit_groups available s gs ?m"
    have "admitted_ok available s ?M" using IH by blast
    moreover have "\<forall>i. btree_contains m i \<longrightarrow> btree_contains ?M i" using IH d by blast
    moreover have "(\<forall>d \<in> set (dg_pages h). missing available s d \<longrightarrow> btree_contains ?M (pd_identity d)) \<or>
        length ?M + length (filter (missing available s) (dg_pages h)) > max_pending_pages (ts_config s)"
      if "h \<in> set (g # gs)" for h
      using that IH d by (cases "h = g") auto
    moreover have "btree_get m i = Some p \<or>
        (\<exists>h \<in> set (g # gs). pe_demand p \<in> set (dg_pages h) \<and> pe_replacement_parent p = dg_replacement_parent h)"
      if "btree_get ?M i = Some p" for i p
    proof -
      have "btree_get ?m i = Some p \<or>
          (\<exists>h \<in> set gs. pe_demand p \<in> set (dg_pages h) \<and> pe_replacement_parent p = dg_replacement_parent h)"
        using IH that by blast
      then show ?thesis using d by auto
    qed
    ultimately show ?thesis unfolding eq by blast
  qed
qed simp

lemma reconcile_spec:
  assumes r: "reconcile_with_available groups available s = (err, t)"
  shows "(err \<noteq> None \<longrightarrow> t = s) \<and>
    (err = None \<longrightarrow> admitted_ok available s (ts_pending t) \<and> ts_config t = ts_config s \<and>
      (\<forall>i p. btree_get (ts_pending t) i = Some p \<longrightarrow>
         (\<exists>g \<in> set groups. pe_demand p \<in> set (dg_pages g) \<and> pe_replacement_parent p = dg_replacement_parent g)) \<and>
      (\<forall>g \<in> set groups. (\<forall>d \<in> set (dg_pages g). missing available s d \<longrightarrow> btree_contains (ts_pending t) (pd_identity d)) \<or>
         length (ts_pending t) + length (filter (missing available s) (dg_pages g)) > max_pending_pages (ts_config s)) \<and>
      ts_in_flight t = map (\<lambda>(i, e). (i, e\<lparr>if_obsolete :=
         \<not> (i \<notin> set available \<and> (\<exists>g \<in> set groups. \<exists>d \<in> set (dg_pages g). pd_identity d = i))\<rparr>)) (ts_in_flight s))"
proof (cases err)
  case (Some e)
  then show ?thesis using r by (auto simp: reconcile_with_available_def Let_def split: if_splits)
next
  case None
  let ?gs = "sort_by compare_demand_groups groups"
  have "admitted_ok available s []" by (simp add: admitted_ok_def)
  note a = admit_groups_spec [OF this, of ?gs]
  have t: "ts_pending t = admit_groups available s ?gs []" "ts_config t = ts_config s"
    and fl: "ts_in_flight t = map (\<lambda>(i, e). (i, e\<lparr>if_obsolete :=
         i \<notin> set (filter (\<lambda>i. i \<notin> set available) (concat (map (\<lambda>g. map pd_identity (dg_pages g)) groups)))\<rparr>)) (ts_in_flight s)"
    using r None by (auto simp: reconcile_with_available_def Let_def split: if_splits)
  have "(i \<in> set (filter (\<lambda>i. i \<notin> set available) (concat (map (\<lambda>g. map pd_identity (dg_pages g)) groups)))) =
      (i \<notin> set available \<and> (\<exists>g \<in> set groups. \<exists>d \<in> set (dg_pages g). pd_identity d = i))" for i by auto
  note fl = fl [unfolded this]
  have "admitted_ok available s (ts_pending t)" using a by (simp add: t)
  moreover have "\<exists>g \<in> set groups. pe_demand p \<in> set (dg_pages g) \<and> pe_replacement_parent p = dg_replacement_parent g"
    if "btree_get (ts_pending t) i = Some p" for i p
    using a that unfolding t(1) by simp
  moreover have "(\<forall>d \<in> set (dg_pages g). missing available s d \<longrightarrow> btree_contains (ts_pending t) (pd_identity d)) \<or>
      length (ts_pending t) + length (filter (missing available s) (dg_pages g)) > max_pending_pages (ts_config s)"
    if "g \<in> set groups" for g
    using a that unfolding t(1) by simp
  ultimately show ?thesis using None t(2) fl by blast
qed

lemma reconcile_wf: "stream_wf s \<Longrightarrow> stream_wf (snd (reconcile_with_available groups available s))"
proof -
  assume wf: "stream_wf s"
  obtain err t where r: "reconcile_with_available groups available s = (err, t)" by (cases "reconcile_with_available groups available s")
  note sp = reconcile_spec [OF r]
  show ?thesis
  proof (cases err)
    case (Some e)
    then show ?thesis using sp r wf by simp
  next
    case None
    then have "admitted_ok available s (ts_pending t)" "ts_config t = ts_config s"
      and fl: "ts_in_flight t = map (\<lambda>(i, e). (i, e\<lparr>if_obsolete :=
         \<not> (i \<notin> set available \<and> (\<exists>g \<in> set groups. \<exists>d \<in> set (dg_pages g). pd_identity d = i))\<rparr>)) (ts_in_flight s)"
      using sp by blast+
    then show ?thesis using wf r
      by (auto simp: stream_wf_def pending_ok_def in_flight_ok_def admitted_ok_def fl btree_contains_def missing_def)
  qed
qed

subsection \<open>Batches\<close>

abbreviation pending_id :: "pending_demand \<Rightarrow> transfer_identity" where
  "pending_id \<equiv> pd_identity \<circ> pe_demand"

abbreviation sorted_group :: "pending_demand list \<Rightarrow> pending_demand list" where
  "sorted_group \<equiv> sort_by (\<lambda>a b. compare_demands (pe_demand a) (pe_demand b))"

text \<open>The pending demands that must travel with a given one.\<close>

definition pending_group :: "terrain_stream \<Rightarrow> pending_demand \<Rightarrow> pending_demand list" where
  "pending_group s p =
     (case pe_replacement_parent p of
        None \<Rightarrow> [p]
      | Some parent \<Rightarrow> filter (\<lambda>q. pe_replacement_parent q = Some parent) (btree_values (ts_pending s)))"

lemma group_bytes_sum: "group_bytes g = sum_list (map (pd_estimated_encoded_bytes \<circ> pe_demand) g)"
proof -
  have "fold (\<lambda>p bytes. bytes + pd_estimated_encoded_bytes (pe_demand p)) g b
      = b + sum_list (map (pd_estimated_encoded_bytes \<circ> pe_demand) g)" for b
    by (induction g arbitrary: b) auto
  then show ?thesis by (simp add: group_bytes_def)
qed

lemma group_bytes_sorted [simp]: "group_bytes (sorted_group g) = group_bytes g"
proof -
  let ?f = "pd_estimated_encoded_bytes \<circ> pe_demand"
  have "sum_mset (mset (map ?f (sorted_group g))) = sum_mset (mset (map ?f g))" by simp
  then show ?thesis unfolding group_bytes_sum sum_mset_sum_list .
qed

lemma distinct_concat_mset: "mset xs = mset ys \<Longrightarrow> distinct (concat xs) = distinct (concat ys)"
proof -
  assume e: "mset xs = mset ys"
  have "mset (concat zs) = sum_mset (image_mset mset (mset zs))" for zs :: "'a list list"
    by (induction zs) auto
  then have "mset (concat xs) = mset (concat ys)" by (simp add: e)
  then show ?thesis by (rule mset_eq_imp_distinct_iff)
qed

lemma push_pending_simps:
  "pe_replacement_parent p = None \<Longrightarrow> push_pending p (C, G) = (C @ [[p]], G)"
  "pe_replacement_parent p = Some P \<Longrightarrow>
    push_pending p (C, G) = (C, btree_insert P ((case btree_get G P of None \<Rightarrow> [] | Some g \<Rightarrow> g) @ [p]) G)"
  by (simp_all add: push_pending_def)

lemma push_pending_fold:
  assumes "btree_wf G" "fold push_pending ps (C, G) = (C', G')"
  shows "C' = C @ map (\<lambda>p. [p]) (filter (\<lambda>p. pe_replacement_parent p = None) ps) \<and> btree_wf G' \<and>
    (\<forall>P. btree_get G' P = (case btree_get G P of
        Some g \<Rightarrow> Some (g @ filter (\<lambda>q. pe_replacement_parent q = Some P) ps)
      | None \<Rightarrow> if \<forall>q \<in> set ps. pe_replacement_parent q \<noteq> Some P then None
          else Some (filter (\<lambda>q. pe_replacement_parent q = Some P) ps)))"
  using assms
proof (induction ps arbitrary: C G)
  case Nil
  then show ?case by (auto split: option.splits)
next
  case (Cons p ps)
  show ?case
  proof (cases "pe_replacement_parent p")
    case None
    then have "fold push_pending ps (C @ [[p]], G) = (C', G')" using Cons.prems(2) by (simp add: push_pending_simps(1) [OF None])
    from Cons.IH [OF Cons.prems(1) this] None show ?thesis by (auto split: option.splits)
  next
    case (Some P)
    let ?G = "btree_insert P ((case btree_get G P of None \<Rightarrow> [] | Some g \<Rightarrow> g) @ [p]) G"
    have "fold push_pending ps (C, ?G) = (C', G')" using Cons.prems(2) by (simp add: push_pending_simps(2) [OF Some])
    from Cons.IH [OF _ this] Cons.prems(1) Some show ?thesis
      by (auto simp: btree_get_insert split: option.splits if_splits)
  qed
qed

lemma group_parent: "q \<in> set (pending_group s p) \<Longrightarrow> pe_replacement_parent q = pe_replacement_parent p"
  by (auto simp: pending_group_def split: option.splits)

lemma group_self: "p \<in> set (btree_values (ts_pending s)) \<Longrightarrow> p \<in> set (pending_group s p)"
  by (auto simp: pending_group_def split: option.splits)

lemma distinct_concat_filter: "distinct (concat xs) \<Longrightarrow> distinct (concat (filter P xs))"
  by (induction xs) auto

lemma candidates_spec:
  assumes wf: "pending_ok s"
  shows "distinct (concat (batch_candidates now s))"
    "g \<in> set (batch_candidates now s) \<longleftrightarrow>
      (\<exists>p \<in> set (btree_values (ts_pending s)). g = pending_group s p \<and> (\<forall>q \<in> set g. pe_retry_at_ms q \<le> now))"
proof -
  let ?V = "btree_values (ts_pending s)"
  obtain C G where f: "fold push_pending ?V ([], []) = (C, G)" by (cases "fold push_pending ?V ([], [])")
  have C: "C = map (\<lambda>p. [p]) (filter (\<lambda>p. pe_replacement_parent p = None) ?V)" and wG: "btree_wf G"
    and G: "btree_get G P = (if \<forall>q \<in> set ?V. pe_replacement_parent q \<noteq> Some P then None
        else Some (filter (\<lambda>q. pe_replacement_parent q = Some P) ?V))" for P
    using push_pending_fold [OF _ f] by auto
  have vals: "g \<in> set (btree_values G) \<longleftrightarrow>
      (\<exists>p \<in> set ?V. pe_replacement_parent p \<noteq> None \<and> g = pending_group s p)" for g
  proof -
    have "g \<in> set (btree_values G) \<longleftrightarrow> (\<exists>P. btree_get G P = Some g)" using btree_values_set [OF wG] by auto
    also have "\<dots> \<longleftrightarrow> (\<exists>P. (\<exists>p \<in> set ?V. pe_replacement_parent p = Some P) \<and> g = filter (\<lambda>q. pe_replacement_parent q = Some P) ?V)"
      by (auto simp: G)
    also have "\<dots> \<longleftrightarrow> (\<exists>p \<in> set ?V. pe_replacement_parent p \<noteq> None \<and> g = pending_group s p)"
      by (auto simp: pending_group_def)
    finally show ?thesis .
  qed
  have all: "g \<in> set (C @ btree_values G) \<longleftrightarrow> (\<exists>p \<in> set ?V. g = pending_group s p)" for g
  proof -
    have "g \<in> set C \<longleftrightarrow> (\<exists>p \<in> set ?V. pe_replacement_parent p = None \<and> g = pending_group s p)"
      by (auto simp: C pending_group_def)
    then show ?thesis unfolding set_append Un_iff vals by blast
  qed
  have set_cand: "set (batch_candidates now s) = {g \<in> set (C @ btree_values G). \<forall>q \<in> set g. pe_retry_at_ms q \<le> now}"
    by (auto simp: batch_candidates_def f list_all_iff)
  show "g \<in> set (batch_candidates now s) \<longleftrightarrow>
      (\<exists>p \<in> set ?V. g = pending_group s p \<and> (\<forall>q \<in> set g. pe_retry_at_ms q \<le> now))"
    unfolding set_cand using all [of g] by blast
  have dV: "distinct ?V"
  proof -
    have w: "btree_wf (ts_pending s)" using wf by (simp add: pending_ok_def)
    have "map pending_id ?V = map fst (ts_pending s)"
      using wf by (auto simp: btree_values_def pending_ok_def btree_get_iff)
    then show ?thesis using btree_wf_distinct [OF w] by (metis distinct_map)
  qed
  have "distinct (concat (C @ btree_values G))"
  proof (rule distinct_concat)
    have "distinct C" using dV by (simp add: C distinct_map inj_on_def)
    moreover have "distinct (btree_values G)"
    proof -
      have "inj_on snd (set G)"
      proof (rule inj_onI)
        fix x y assume xy: "x \<in> set G" "y \<in> set G" "snd x = snd y"
        then have "btree_get G (fst x) = Some (snd x)" "btree_get G (fst y) = Some (snd x)"
          using btree_get_iff [OF wG] by (metis prod.collapse)+
        then have "\<exists>q \<in> set ?V. pe_replacement_parent q = Some (fst x)"
          and x: "snd x = filter (\<lambda>q. pe_replacement_parent q = Some (fst x)) ?V"
          and y: "snd x = filter (\<lambda>q. pe_replacement_parent q = Some (fst y)) ?V"
          by (auto simp: G split: if_splits)
        then obtain q where q: "q \<in> set ?V" "pe_replacement_parent q = Some (fst x)" by blast
        then have "q \<in> set (snd x)" unfolding x by simp
        then have "pe_replacement_parent q = Some (fst y)" unfolding y by simp
        with q have "fst x = fst y" by simp
        with xy(3) show "x = y" by (simp add: prod_eq_iff)
      qed
      moreover have "distinct G" using btree_wf_distinct [OF wG] by (simp add: distinct_map)
      ultimately show ?thesis by (simp add: btree_values_def distinct_map)
    qed
    moreover have "g \<notin> set (btree_values G)" if "g \<in> set C" for g
    proof
      assume "g \<in> set (btree_values G)"
      then obtain p where p: "pe_replacement_parent p \<noteq> None" "g = pending_group s p" unfolding vals by blast
      obtain x where "pe_replacement_parent x = None" "x \<in> set g" using \<open>g \<in> set C\<close> by (auto simp: C)
      with p group_parent show False by metis
    qed
    ultimately show "distinct (C @ btree_values G)" by auto
  next
    fix g assume "g \<in> set (C @ btree_values G)"
    then show "distinct g" using dV unfolding all by (auto simp: pending_group_def split: option.splits)
  next
    fix g h assume "g \<in> set (C @ btree_values G)" "h \<in> set (C @ btree_values G)" "g \<noteq> h"
    then show "set g \<inter> set h = {}" unfolding all by (auto simp: pending_group_def split: option.splits)
  qed
  then have "distinct (concat (filter (list_all (\<lambda>p. pe_retry_at_ms p \<le> now)) (C @ btree_values G)))"
    by (rule distinct_concat_filter)
  then show "distinct (concat (batch_candidates now s))"
    unfolding batch_candidates_def f prod.case Let_def by (subst distinct_concat_mset [OF mset_sort_by])
qed

lemma fill_batch_spec:
  "\<exists>chosen. subseq chosen gs \<and>
     fill_batch limit mb gs pages bytes = pages @ concat (map (\<lambda>g. map pending_id (sorted_group g)) chosen) \<and>
     (length pages \<le> limit \<longrightarrow> length (fill_batch limit mb gs pages bytes) \<le> limit) \<and>
     (bytes \<le> mb \<longrightarrow> bytes + sum_list (map group_bytes chosen) \<le> mb)"
proof (induction gs arbitrary: pages bytes)
  case Nil
  then show ?case by (intro exI [of _ "[]"]) simp
next
  case (Cons g gs)
  let ?pages = "pages @ map pending_id (sorted_group g)"
  show ?case
  proof (cases "length pages + length g > limit \<or> bytes + group_bytes g > mb")
    case True
    then have eq: "fill_batch limit mb (g # gs) pages bytes = fill_batch limit mb gs pages bytes" by (auto simp: Let_def)
    from Cons.IH [of pages bytes] show ?thesis unfolding eq by (meson list_emb_Cons)
  next
    case False
    then have eq: "fill_batch limit mb (g # gs) pages bytes = fill_batch limit mb gs ?pages (bytes + group_bytes g)"
      by (simp add: Let_def)
    from Cons.IH [of ?pages "bytes + group_bytes g"] obtain chosen where c: "subseq chosen gs"
      "fill_batch limit mb gs ?pages (bytes + group_bytes g) = ?pages @ concat (map (\<lambda>g. map pending_id (sorted_group g)) chosen)"
      "length ?pages \<le> limit \<longrightarrow> length (fill_batch limit mb gs ?pages (bytes + group_bytes g)) \<le> limit"
      "bytes + group_bytes g \<le> mb \<longrightarrow> bytes + group_bytes g + sum_list (map group_bytes chosen) \<le> mb" by blast
    show ?thesis unfolding eq using c False by (intro exI [of _ "g # chosen"]) (simp add: comp_def)
  qed
qed

lemma fill_batch_prefix: "\<exists>rest. fill_batch limit mb gs pages bytes = pages @ rest"
  using fill_batch_spec by blast

lemma fill_batch_progress:
  assumes "\<forall>g \<in> set gs. g \<noteq> []" "g \<in> set gs" "length g \<le> limit" "group_bytes g \<le> mb"
  shows "fill_batch limit mb gs [] 0 \<noteq> []"
  using assms
proof (induction gs)
  case (Cons h gs)
  show ?case
  proof (cases "length h > limit \<or> group_bytes h > mb")
    case True
    then have "fill_batch limit mb (h # gs) [] 0 = fill_batch limit mb gs [] 0" by (auto simp: Let_def)
    moreover have "g \<in> set gs" using Cons.prems True by auto
    ultimately show ?thesis using Cons by simp
  next
    case False
    then have "fill_batch limit mb (h # gs) [] 0 = fill_batch limit mb gs (map pending_id (sorted_group h)) (group_bytes h)"
      by (simp add: Let_def)
    moreover have "sorted_group h \<noteq> []" using Cons.prems(1) by (metis length_0_conv length_sort_by list.set_intros(1))
    ultimately show ?thesis using fill_batch_prefix [of limit mb gs "map pending_id (sorted_group h)" "group_bytes h"] by auto
  qed
qed simp

lemma subseq_concat: "subseq xs ys \<Longrightarrow> subseq (concat xs) (concat ys)"
  by (induction rule: list_emb.induct) (auto intro: list_emb_append_mono subseq_append' list_emb_prefix)

lemma subseq_distinct: "subseq xs ys \<Longrightarrow> distinct ys \<Longrightarrow> distinct xs"
  by (metis distinct_nthsI subseq_conv_nths)

definition estimated_bytes :: "terrain_stream \<Rightarrow> transfer_identity \<Rightarrow> nat" where
  "estimated_bytes s i = (case btree_get (ts_pending s) i of None \<Rightarrow> 0 | Some p \<Rightarrow> pd_estimated_encoded_bytes (pe_demand p))"

lemma pending_value:
  assumes "pending_ok s"
  shows "p \<in> set (btree_values (ts_pending s)) \<longleftrightarrow> btree_get (ts_pending s) (pending_id p) = Some p"
  using assms btree_values_set [of "ts_pending s"] by (auto simp: pending_ok_def)

lemma peek_batch_spec:
  assumes wf: "pending_ok s" and b: "peek_batch now s = Some batch"
  shows "batch \<noteq> [] \<and> distinct batch \<and> length batch \<le> item_limit_of s \<and>
    sum_list (map (estimated_bytes s) batch) \<le> max_batch_bytes (ts_config s) \<and>
    (\<forall>i \<in> set batch. \<exists>p. btree_get (ts_pending s) i = Some p \<and>
       (\<forall>q \<in> set (pending_group s p). pe_retry_at_ms q \<le> now \<and> pending_id q \<in> set batch))"
proof -
  let ?cs = "batch_candidates now s" and ?V = "btree_values (ts_pending s)"
  from b have f: "batch = fill_batch (item_limit_of s) (max_batch_bytes (ts_config s)) ?cs [] 0" "batch \<noteq> []"
    by (auto simp: peek_batch_def Let_def split: if_splits)
  from fill_batch_spec [of ?cs "item_limit_of s" "max_batch_bytes (ts_config s)" "[]" 0] obtain chosen where
    c: "subseq chosen ?cs" "batch = concat (map (\<lambda>g. map pending_id (sorted_group g)) chosen)" "length batch \<le> item_limit_of s"
      "sum_list (map group_bytes chosen) \<le> max_batch_bytes (ts_config s)" by (auto simp: f)
  have sub: "set chosen \<subseteq> set ?cs" using list_emb_set [OF c(1)] by blast
  have inV: "q \<in> set ?V" if "g \<in> set chosen" "q \<in> set g" for g q
    using sub that candidates_spec(2) [OF wf, of g now] by (auto simp: pending_group_def split: option.splits)
  have m: "mset batch = mset (map pending_id (concat chosen))"
    unfolding c(2) by (induction chosen) auto
  have "distinct (concat chosen)"
    using subseq_distinct [OF subseq_concat [OF c(1)] candidates_spec(1) [OF wf]] .
  moreover have "inj_on pending_id (set (concat chosen))"
  proof (rule inj_onI)
    fix p q assume pq: "p \<in> set (concat chosen)" "q \<in> set (concat chosen)" and e: "pending_id p = pending_id q"
    have val: "btree_get (ts_pending s) (pending_id r) = Some r" if r: "r \<in> set (concat chosen)" for r
    proof -
      from r obtain g where "g \<in> set chosen" "r \<in> set g" by auto
      from inV [OF this] show ?thesis using pending_value [OF wf] by blast
    qed
    from trans [OF sym [OF val [OF pq(1), unfolded e]] val [OF pq(2)]] show "p = q" by (rule option.inject [THEN iffD1])
  qed
  ultimately have "distinct (map pending_id (concat chosen))" by (simp add: distinct_map)
  then have d: "distinct batch" using mset_eq_imp_distinct_iff [OF m] by simp
  have "sum_list (map (estimated_bytes s) batch) = sum_list (map (estimated_bytes s) (map pending_id (concat chosen)))"
    by (simp only: sum_mset_sum_list [symmetric] mset_map m)
  also have "\<dots> = sum_list (map group_bytes chosen)"
    using inV
  proof (induction chosen)
    case (Cons g chosen)
    have "estimated_bytes s (pending_id q) = pd_estimated_encoded_bytes (pe_demand q)" if "q \<in> set g" for q
      using pending_value [OF wf, of q] Cons.prems [of g q] that by (simp add: estimated_bytes_def)
    then have "sum_list (map (\<lambda>q. estimated_bytes s (pending_id q)) g) = group_bytes g"
      unfolding group_bytes_sum by (intro arg_cong [where f = sum_list] map_cong) simp_all
    moreover have "sum_list (map (estimated_bytes s) (map pending_id (concat chosen))) = sum_list (map group_bytes chosen)"
      by (rule Cons.IH) (rule Cons.prems, auto)
    ultimately show ?case by (simp add: comp_def)
  qed simp
  finally have bytes: "sum_list (map (estimated_bytes s) batch) \<le> max_batch_bytes (ts_config s)" using c(4) by simp
  have "\<exists>p. btree_get (ts_pending s) i = Some p \<and>
      (\<forall>q \<in> set (pending_group s p). pe_retry_at_ms q \<le> now \<and> pending_id q \<in> set batch)" if "i \<in> set batch" for i
  proof -
    from that obtain g p where g: "g \<in> set chosen" "p \<in> set g" "i = pending_id p" unfolding c(2) by auto
    have "g \<in> set ?cs" using sub g(1) by blast
    then obtain r where r: "g = pending_group s r" "\<forall>q \<in> set g. pe_retry_at_ms q \<le> now"
      unfolding candidates_spec(2) [OF wf] by blast
    have same: "pending_group s p = g"
      using group_parent [of p s r] g(2) r(1) by (auto simp: pending_group_def split: option.splits)
    have "pending_id q \<in> set batch" if "q \<in> set g" for q using g(1) that unfolding c(2) by auto
    moreover have "btree_get (ts_pending s) i = Some p" using inV [OF g(1,2)] pending_value [OF wf] g(3) by blast
    ultimately show ?thesis using r(2) by (intro exI [of _ p]) (simp add: same)
  qed
  with f(2) d c(3) bytes show ?thesis by blast
qed


lemma peek_batch_progress:
  assumes wf: "pending_ok s" and p: "btree_get (ts_pending s) i = Some p"
    and room: "length (pending_group s p) \<le> item_limit_of s" "group_bytes (pending_group s p) \<le> max_batch_bytes (ts_config s)"
    and ready: "\<forall>q \<in> set (pending_group s p). pe_retry_at_ms q \<le> now"
  shows "peek_batch now s \<noteq> None"
proof -
  have v: "p \<in> set (btree_values (ts_pending s))"
    using p wf pending_value [OF wf, of p] by (auto simp: pending_ok_def)
  then have ne: "pending_group s p \<noteq> []" using group_self by fastforce
  have "pending_group s p \<in> set (batch_candidates now s)" unfolding candidates_spec(2) [OF wf] using v ready by blast
  moreover have "\<forall>g \<in> set (batch_candidates now s). g \<noteq> []"
    unfolding candidates_spec(2) [OF wf] Ball_def using group_self by fastforce
  ultimately have "fill_batch (item_limit_of s) (max_batch_bytes (ts_config s)) (batch_candidates now s) [] 0 \<noteq> []"
    using room by (intro fill_batch_progress) auto
  moreover have "item_limit_of s \<noteq> 0" using room(1) ne by (cases "pending_group s p") auto
  ultimately show ?thesis by (simp add: peek_batch_def)
qed

subsection \<open>Commitment\<close>

lemma commit_pages_spec:
  assumes "distinct pages" "\<forall>i \<in> set pages. btree_contains (ts_pending s) i" "btree_wf (ts_pending s)" "btree_wf (ts_in_flight s)"
    "\<forall>i. btree_contains (ts_pending s) i \<longrightarrow> \<not> btree_contains (ts_in_flight s) i"
  shows "\<exists>t. commit_pages pages s = (None, t) \<and>
    t = s\<lparr>ts_pending := ts_pending t, ts_in_flight := ts_in_flight t\<rparr> \<and> btree_wf (ts_pending t) \<and> btree_wf (ts_in_flight t) \<and>
    (\<forall>i. btree_get (ts_pending t) i = (if i \<in> set pages then None else btree_get (ts_pending s) i)) \<and>
    (\<forall>i. btree_get (ts_in_flight t) i = (if i \<in> set pages
       then map_option (\<lambda>p. \<lparr>if_pending = p, if_obsolete = False\<rparr>) (btree_get (ts_pending s) i) else btree_get (ts_in_flight s) i)) \<and>
    length (ts_pending t) \<le> length (ts_pending s) \<and> length (ts_in_flight t) = length (ts_in_flight s) + length pages"
  using assms
proof (induction pages arbitrary: s)
  case (Cons i pages)
  obtain p where p: "btree_get (ts_pending s) i = Some p" using Cons.prems(2) by (auto simp: btree_contains_def)
  let ?s = "s\<lparr>ts_pending := btree_remove i (ts_pending s),
      ts_in_flight := btree_insert i \<lparr>if_pending = p, if_obsolete = False\<rparr> (ts_in_flight s)\<rparr>"
  have none: "btree_get (ts_in_flight s) i = None" using Cons.prems(5) p by (auto simp: btree_contains_def)
  have "\<exists>t. commit_pages pages ?s = (None, t) \<and>
    t = ?s\<lparr>ts_pending := ts_pending t, ts_in_flight := ts_in_flight t\<rparr> \<and> btree_wf (ts_pending t) \<and> btree_wf (ts_in_flight t) \<and>
    (\<forall>i. btree_get (ts_pending t) i = (if i \<in> set pages then None else btree_get (ts_pending ?s) i)) \<and>
    (\<forall>i. btree_get (ts_in_flight t) i = (if i \<in> set pages
       then map_option (\<lambda>p. \<lparr>if_pending = p, if_obsolete = False\<rparr>) (btree_get (ts_pending ?s) i) else btree_get (ts_in_flight ?s) i)) \<and>
    length (ts_pending t) \<le> length (ts_pending ?s) \<and> length (ts_in_flight t) = length (ts_in_flight ?s) + length pages"
    by (rule Cons.IH) (use Cons.prems in \<open>auto simp: btree_contains_def btree_get_remove btree_get_insert\<close>)
  then obtain t where t: "commit_pages pages ?s = (None, t)"
    "t = ?s\<lparr>ts_pending := ts_pending t, ts_in_flight := ts_in_flight t\<rparr>" "btree_wf (ts_pending t)" "btree_wf (ts_in_flight t)"
    "\<forall>i. btree_get (ts_pending t) i = (if i \<in> set pages then None else btree_get (ts_pending ?s) i)"
    "\<forall>i. btree_get (ts_in_flight t) i = (if i \<in> set pages
       then map_option (\<lambda>p. \<lparr>if_pending = p, if_obsolete = False\<rparr>) (btree_get (ts_pending ?s) i) else btree_get (ts_in_flight ?s) i)"
    "length (ts_pending t) \<le> length (ts_pending ?s)" "length (ts_in_flight t) = length (ts_in_flight ?s) + length pages" by blast
  have a: "t = s\<lparr>ts_pending := ts_pending t, ts_in_flight := ts_in_flight t\<rparr>" by (subst t(2)) simp
  have b: "btree_get (ts_pending t) j = (if j \<in> set (i # pages) then None else btree_get (ts_pending s) j)" for j
    using t(5) Cons.prems(3) by (auto simp: btree_get_remove)
  have c: "btree_get (ts_in_flight t) j = (if j \<in> set (i # pages)
       then map_option (\<lambda>p. \<lparr>if_pending = p, if_obsolete = False\<rparr>) (btree_get (ts_pending s) j) else btree_get (ts_in_flight s) j)" for j
    using t(6) Cons.prems(1,3) p by (auto simp: btree_get_remove btree_get_insert)
  have d: "length (ts_pending t) \<le> length (ts_pending s)" "length (ts_in_flight t) = length (ts_in_flight s) + length (i # pages)"
    using t(7,8) Cons.prems(3,4) none by (auto simp: btree_length_remove btree_length_insert btree_contains_def split: if_splits)
  have "commit_pages (i # pages) s = (None, t)" using p t(1) by simp
  with a b c d t(3,4) show ?case by blast
qed simp

lemma next_batch_spec:
  assumes wf: "stream_wf s" and n: "next_batch now s = (Some batch, t)"
  shows "peek_batch now s = Some batch \<and> stream_wf t \<and>
    t = s\<lparr>ts_pending := ts_pending t, ts_in_flight := ts_in_flight t\<rparr> \<and>
    (\<forall>i. btree_get (ts_pending t) i = (if i \<in> set batch then None else btree_get (ts_pending s) i)) \<and>
    (\<forall>i. btree_get (ts_in_flight t) i = (if i \<in> set batch
       then map_option (\<lambda>p. \<lparr>if_pending = p, if_obsolete = False\<rparr>) (btree_get (ts_pending s) i) else btree_get (ts_in_flight s) i))"
proof -
  from n have b: "peek_batch now s = Some batch" "commit_batch batch s = (None, t)"
    by (auto simp: next_batch_def split: option.splits prod.splits)
  have ok: "pending_ok s" "in_flight_ok s" "\<forall>i. btree_contains (ts_pending s) i \<longrightarrow> \<not> btree_contains (ts_in_flight s) i"
    "config_validates (ts_config s)" using wf by (simp_all add: stream_wf_def)
  note pk = peek_batch_spec [OF ok(1) b(1)]
  have inp: "\<forall>i \<in> set batch. btree_contains (ts_pending s) i" using pk unfolding btree_contains_def by fastforce
  then have "List.find (\<lambda>i. \<not> btree_contains (ts_pending s) i) batch = None" by (simp add: find_None_iff)
  then have "commit_pages batch s = (None, t)" using b(2) by (auto simp: commit_batch_def split: if_splits)
  with commit_pages_spec [of batch s] pk inp ok have t: "t = s\<lparr>ts_pending := ts_pending t, ts_in_flight := ts_in_flight t\<rparr>"
    "btree_wf (ts_pending t)" "btree_wf (ts_in_flight t)"
    "\<forall>i. btree_get (ts_pending t) i = (if i \<in> set batch then None else btree_get (ts_pending s) i)"
    "\<forall>i. btree_get (ts_in_flight t) i = (if i \<in> set batch
       then map_option (\<lambda>p. \<lparr>if_pending = p, if_obsolete = False\<rparr>) (btree_get (ts_pending s) i) else btree_get (ts_in_flight s) i)"
    "length (ts_pending t) \<le> length (ts_pending s)" "length (ts_in_flight t) = length (ts_in_flight s) + length batch"
    unfolding pending_ok_def in_flight_ok_def by auto
  have cfg: "ts_config t = ts_config s" by (subst t(1)) simp
  have "length (ts_in_flight t) \<le> max_in_flight_pages (ts_config s)"
    using pk t(7) ok(2) by (auto simp: item_limit_of_def in_flight_ok_def)
  then have "stream_wf t"
    using t(2-6) ok by (auto simp: stream_wf_def pending_ok_def in_flight_ok_def btree_contains_def cfg split: if_splits)
  with b(1) t(1,4,5) show ?thesis by blast
qed


section \<open>Properties\<close>

datatype stream_op =
    ReconcileOp "demand_group list" "transfer_identity list"
  | NextBatchOp nat
  | CompleteOp transfer_identity nat
  | FailOp transfer_identity nat
  | DeferOp transfer_identity

fun stream_apply :: "stream_op \<Rightarrow> terrain_stream \<Rightarrow> terrain_stream" where
  "stream_apply (ReconcileOp groups available) s = snd (reconcile_with_available groups available s)"
| "stream_apply (NextBatchOp now) s = snd (next_batch now s)"
| "stream_apply (CompleteOp i n) s = snd (stream_complete i n s)"
| "stream_apply (FailOp i now) s = snd (stream_fail i now s)"
| "stream_apply (DeferOp i) s = snd (stream_defer i s)"

definition stream_step :: "terrain_stream \<Rightarrow> terrain_stream \<Rightarrow> bool" where
  "stream_step s t \<longleftrightarrow> (\<exists>op. t = stream_apply op s)"

definition stream_start :: "terrain_stream_config \<Rightarrow> terrain_stream \<Rightarrow> bool" where
  "stream_start config s \<longleftrightarrow> stream_new config = Inr s"

lemma next_batch_None:
  assumes wf: "stream_wf s" and n: "next_batch now s = (None, t)"
  shows "peek_batch now s = None \<and> t = s"
proof (cases "peek_batch now s")
  case None
  then show ?thesis using n by (simp add: next_batch_def)
next
  case (Some batch)
  have ok: "pending_ok s" "in_flight_ok s" "\<forall>i. btree_contains (ts_pending s) i \<longrightarrow> \<not> btree_contains (ts_in_flight s) i"
    using wf by (simp_all add: stream_wf_def)
  note pk = peek_batch_spec [OF ok(1) Some]
  have inp: "\<forall>i \<in> set batch. btree_contains (ts_pending s) i" using pk unfolding btree_contains_def by fastforce
  then have "List.find (\<lambda>i. \<not> btree_contains (ts_pending s) i) batch = None" by (simp add: find_None_iff)
  then have "commit_batch batch s = commit_pages batch s" using pk by (simp add: commit_batch_def)
  moreover have "\<exists>t. commit_pages batch s = (None, t)"
    using commit_pages_spec [of batch s] pk inp ok unfolding pending_ok_def in_flight_ok_def by blast
  ultimately show ?thesis using n Some by (auto simp: next_batch_def)
qed

lemma next_batch_wf: "stream_wf s \<Longrightarrow> stream_wf (snd (next_batch now s))"
proof -
  assume wf: "stream_wf s"
  obtain r t where n: "next_batch now s = (r, t)" by (cases "next_batch now s")
  show ?thesis
  proof (cases r)
    case None
    then show ?thesis using next_batch_None [OF wf, of now t] n wf by simp
  next
    case (Some batch)
    then show ?thesis using next_batch_spec [OF wf, of now batch t] n by simp
  qed
qed

lemma stream_apply_wf: "stream_wf s \<Longrightarrow> stream_wf (stream_apply op s)"
  by (cases op) (simp_all add: reconcile_wf next_batch_wf stream_complete_wf stream_fail_wf stream_defer_wf)

interpretation streams: transition_invariant "stream_start config" stream_step stream_wf
  by unfold_locales (auto simp: stream_start_def stream_step_def intro: stream_new_wf stream_apply_wf)

text \<open>
  C27: a batch is atomic and fits. In every reachable scheduler the batch \<open>next_batch\<close> hands out names
  distinct pending pages, no more than the free in-flight room and the item limit allow, within the
  byte limit; with each page travel all pending members of its replacement group, and none of them
  is still backing off; exactly those pages move from pending to in flight. It hands out none only
  when no ready group of pending pages fits the room and the limits on its own.
\<close>

theorem next_batch_atomic:
  assumes "stream_start config s0" "stream_step\<^sup>*\<^sup>* s0 s" and n: "next_batch now s = (r, t)"
  shows "case r of
      Some batch \<Rightarrow> distinct batch \<and> length (ts_in_flight s) + length batch \<le> max_in_flight_pages (ts_config s) \<and>
        length batch \<le> max_batch_items (ts_config s) \<and>
        sum_list (map (estimated_bytes s) batch) \<le> max_batch_bytes (ts_config s) \<and>
        (\<forall>i \<in> set batch. \<exists>p. btree_get (ts_pending s) i = Some p \<and>
           (\<forall>q \<in> set (pending_group s p). pe_retry_at_ms q \<le> now \<and> pending_id q \<in> set batch)) \<and>
        (\<forall>i. btree_get (ts_pending t) i = (if i \<in> set batch then None else btree_get (ts_pending s) i)) \<and>
        (\<forall>i. btree_contains (ts_in_flight t) i \<longleftrightarrow> i \<in> set batch \<or> btree_contains (ts_in_flight s) i)
    | None \<Rightarrow> t = s \<and> (\<forall>i p. btree_get (ts_pending s) i = Some p \<longrightarrow>
        length (pending_group s p) > item_limit_of s \<or> group_bytes (pending_group s p) > max_batch_bytes (ts_config s) \<or>
        (\<exists>q \<in> set (pending_group s p). pe_retry_at_ms q > now))"
proof -
  have wf: "stream_wf s" by (rule streams.reachable_inv [OF assms(1,2)])
  then have pw: "pending_ok s" and iw: "in_flight_ok s" by (simp_all add: stream_wf_def)
  show ?thesis
  proof (cases r)
    case (Some batch)
    note sp = next_batch_spec [OF wf n [unfolded Some]]
    note pk = peek_batch_spec [OF pw, of now batch]
    have "length (ts_in_flight s) + length batch \<le> max_in_flight_pages (ts_config s)" "length batch \<le> max_batch_items (ts_config s)"
      using sp pk iw by (auto simp: item_limit_of_def in_flight_ok_def)
    moreover have "btree_contains (ts_in_flight t) i \<longleftrightarrow> i \<in> set batch \<or> btree_contains (ts_in_flight s) i" for i
      using sp pk by (auto simp: btree_contains_def)
    ultimately show ?thesis using sp pk by (simp add: Some)
  next
    case None
    have "peek_batch now s = None" "t = s" using next_batch_None [OF wf n [unfolded None]] by auto
    then have "\<not> (length (pending_group s p) \<le> item_limit_of s \<and> group_bytes (pending_group s p) \<le> max_batch_bytes (ts_config s) \<and>
        (\<forall>q \<in> set (pending_group s p). pe_retry_at_ms q \<le> now))" if "btree_get (ts_pending s) i = Some p" for i p
      using peek_batch_progress [OF pw that] by blast
    then show ?thesis using \<open>t = s\<close> by (simp add: None not_le)
  qed
qed


definition sample_demand :: page_demand where
  "sample_demand = \<lparr>pd_identity = \<lparr>ti_key = page_surface 0 1 2, ti_revision = 1, ti_fingerprint = replicate 32 1\<rparr>,
     pd_projected_error_millipixels = 500, pd_time_to_exposure_ms = 100, pd_distance_millimetres = 4000,
     pd_occlusion_confidence_millis = 0, pd_presentation_critical = True, pd_topology_critical = False,
     pd_silhouette_critical = False, pd_estimated_encoded_bytes = 1000\<rparr>"

definition sample_stream :: terrain_stream where
  "sample_stream = \<lparr>ts_config = INTERACTIVE_CLIENT, ts_pending = [], ts_in_flight = [], ts_cancelled_pending_pages = 0,
     ts_useful_bytes = 0, ts_cancellation_waste_bytes = 0, ts_failed_pages = 0\<rparr>"

lemma sample_stream_start: "stream_start INTERACTIVE_CLIENT sample_stream"
  by (simp add: stream_start_def stream_new_def sample_stream_def config_validates_def INTERACTIVE_CLIENT_def
      TERRAIN_PAGE_MAX_CHILDREN_def TERRAIN_PAGE_TRANSFER_MAX_ITEMS_def TERRAIN_PAGE_MAX_COMPRESSED_BYTES_def
      TERRAIN_PAGE_TRANSFER_MAX_BYTES_def TERRAIN_PAGE_TARGET_COMPRESSED_BYTES_def)

definition requested_stream :: terrain_stream where
  "requested_stream = snd (reconcile_with_available [singleton_group sample_demand] [] sample_stream)"

lemma sample_demand_validates: "group_validates (singleton_group sample_demand)"
  by (simp add: group_validates_def singleton_group_def demand_validates_def identity_validates_def sample_demand_def
      TERRAIN_PAGE_MAX_CHILDREN_def TERRAIN_PAGE_MAX_COMPRESSED_BYTES_def page_surface_def is_surface_def
      TERRAIN_SURFACE_PAGE_COORD_Y_def horizontal_bounds_def page_span_def TERRAIN_PAGE_EDGE_SAMPLES_def
      i64_try_def i32_try_def i32_ok_def btree_set_def)

lemma requested_stream_pending:
  "btree_get (ts_pending requested_stream) (pd_identity sample_demand) =
     Some \<lparr>pe_demand = sample_demand, pe_replacement_parent = None, pe_attempt = 0, pe_retry_at_ms = 0\<rparr>"
  "stream_step sample_stream requested_stream"
proof -
  show "stream_step sample_stream requested_stream"
    unfolding stream_step_def requested_stream_def by (rule exI [of _ "ReconcileOp [singleton_group sample_demand] []"]) simp
  show "btree_get (ts_pending requested_stream) (pd_identity sample_demand) =
     Some \<lparr>pe_demand = sample_demand, pe_replacement_parent = None, pe_attempt = 0, pe_retry_at_ms = 0\<rparr>"
    using sample_demand_validates
    by (simp add: requested_stream_def reconcile_with_available_def singleton_group_def unschedulable_def missing_def
        sample_stream_def INTERACTIVE_CLIENT_def TERRAIN_PAGE_MAX_CHILDREN_def btree_contains_def sort_by_def Let_def
        admit_demand_def sample_demand_def)
qed

theorem next_batch_atomic_witness:
  "\<exists>batch t. next_batch 7 requested_stream = (Some batch, t) \<and> distinct batch \<and> length batch \<le> max_batch_items INTERACTIVE_CLIENT"
proof -
  obtain r t where n: "next_batch 7 requested_stream = (r, t)" by (cases "next_batch 7 requested_stream")
  have reach: "stream_step\<^sup>*\<^sup>* sample_stream requested_stream" using requested_stream_pending(2) by blast
  have cfg: "ts_config requested_stream = INTERACTIVE_CLIENT" "ts_in_flight requested_stream = []"
    by (simp_all add: requested_stream_def reconcile_with_available_def sample_stream_def Let_def)
  note main = next_batch_atomic [OF sample_stream_start reach n]
  show ?thesis
  proof (cases r)
    case None
    from main have "\<forall>i p. btree_get (ts_pending requested_stream) i = Some p \<longrightarrow>
        length (pending_group requested_stream p) > item_limit_of requested_stream \<or>
        group_bytes (pending_group requested_stream p) > max_batch_bytes (ts_config requested_stream) \<or>
        (\<exists>q \<in> set (pending_group requested_stream p). pe_retry_at_ms q > 7)" by (simp add: None)
    from this [rule_format, OF requested_stream_pending(1)] have False
      by (simp add: pending_group_def group_bytes_def item_limit_of_def cfg INTERACTIVE_CLIENT_def TERRAIN_PAGE_MAX_CHILDREN_def sample_demand_def)
    then show ?thesis ..
  next
    case (Some batch)
    with main n cfg show ?thesis by simp
  qed
qed



text \<open>
  A failed page that is still wanted backs off exponentially, between one and the maximal retry
  delay: until then no batch of the resulting scheduler requests it.
\<close>

theorem failed_page_backs_off:
  assumes "stream_start config s0" "stream_step\<^sup>*\<^sup>* s0 s"
    and e: "btree_get (ts_in_flight s) i = Some e" "\<not> if_obsolete e"
    and early: "now' < u64_saturating_add now (retry_delay (ts_config s) (min (pe_attempt (if_pending e) + 1) 255))"
    and b: "peek_batch now' (snd (stream_fail i now s)) = Some batch"
  shows "i \<notin> set batch"
proof
  assume i: "i \<in> set batch"
  have wf: "stream_wf s" by (rule streams.reachable_inv [OF assms(1,2)])
  let ?t = "snd (stream_fail i now s)"
  have "pending_ok ?t" using stream_fail_wf [OF wf, of i now] by (simp add: stream_wf_def)
  from peek_batch_spec [OF this b] i obtain p where p: "btree_get (ts_pending ?t) i = Some p"
    "\<forall>q \<in> set (pending_group ?t p). pe_retry_at_ms q \<le> now'" by blast
  have none: "btree_get (ts_pending s) i = None" using wf e(1) by (auto simp: stream_wf_def btree_contains_def)
  have "p \<in> set (btree_values (ts_pending ?t))"
    using p(1) btree_values_set [of "ts_pending ?t"] stream_fail_wf [OF wf, of i now] by (auto simp: stream_wf_def pending_ok_def)
  then have "pe_retry_at_ms p \<le> now'" using p(2) group_self by blast
  moreover have "pe_retry_at_ms p = u64_saturating_add now (retry_delay (ts_config s) (min (pe_attempt (if_pending e) + 1) 255))"
    using p(1) e none by (auto simp: stream_fail_def Let_def btree_get_insert split: if_splits)
  ultimately show False using early by simp
qed

end
