(* ===== verification/Wire_Cursor.thy ===== *)
theory Wire_Cursor
  imports Wire_Bytes Ordered_Map
begin

text \<open>
  The forward cursor as a parser: \<open>cursor_at pre bs\<close> has read \<open>pre\<close> and still holds \<open>bs\<close>. Every
  read is characterised twice over it, forwards (what it yields on an encoded field) and backwards
  (which bytes it must have seen), so that the round trip and the canonicity of a message body are
  both simplification with \<open>cursor_read\<close> and \<open>cursor_seen\<close>.
\<close>

subsection \<open>The forward cursor\<close>

record cursor =
  cur_bytes :: "u8 list"
  cur_offset :: nat

definition cursor_new :: "u8 list \<Rightarrow> cursor" where
  "cursor_new bs = \<lparr>cur_bytes = bs, cur_offset = 0\<rparr>"

definition remaining :: "cursor \<Rightarrow> nat" where
  "remaining c = length (cur_bytes c) - cur_offset c"

definition cursor_take :: "'e \<Rightarrow> nat \<Rightarrow> cursor \<Rightarrow> 'e + (u8 list \<times> cursor)" where
  "cursor_take truncated n c =
     (let stop = cur_offset c + n in
      attempt (ok_or truncated (slice (cur_bytes c) (cur_offset c) stop)) (\<lambda>s.
        Inr (s, c\<lparr>cur_offset := stop\<rparr>)))"

definition cursor_u8 :: "'e \<Rightarrow> cursor \<Rightarrow> 'e + (u8 \<times> cursor)" where
  "cursor_u8 t c = attempt (cursor_take t 1 c) (\<lambda>(s, c). Inr (hd s, c))"

definition cursor_u16 :: "'e \<Rightarrow> cursor \<Rightarrow> 'e + (nat \<times> cursor)" where
  "cursor_u16 t c = attempt (cursor_take t 2 c) (\<lambda>(s, c). Inr (from_le s, c))"

definition cursor_u32 :: "'e \<Rightarrow> cursor \<Rightarrow> 'e + (nat \<times> cursor)" where
  "cursor_u32 t c = attempt (cursor_take t 4 c) (\<lambda>(s, c). Inr (from_le s, c))"

definition cursor_i32 :: "'e \<Rightarrow> cursor \<Rightarrow> 'e + (int \<times> cursor)" where
  "cursor_i32 t c = attempt (cursor_take t 4 c) (\<lambda>(s, c). Inr (i32_from_le s, c))"

definition cursor_u64 :: "'e \<Rightarrow> cursor \<Rightarrow> 'e + (u64 \<times> cursor)" where
  "cursor_u64 t c = attempt (cursor_take t 8 c) (\<lambda>(s, c). Inr (u64_from_le s, c))"

subsection \<open>Counted sequences\<close>

text \<open>
  Every format of the repository that holds a counted sequence of records decodes it with a loop
  of this shape.
\<close>

fun decode_many :: "(cursor \<Rightarrow> 'e + ('a \<times> cursor)) \<Rightarrow> nat \<Rightarrow> cursor \<Rightarrow> 'e + ('a list \<times> cursor)" where
  "decode_many dec 0 c = Inr ([], c)"
| "decode_many dec (Suc n) c =
     attempt (dec c) (\<lambda>(x, c1). attempt (decode_many dec n c1) (\<lambda>(xs, c2). Inr (x # xs, c2)))"

subsection \<open>Reads as parsing\<close>

named_theorems cursor_read \<open>what a read yields on an encoded field\<close>
named_theorems cursor_seen \<open>which bytes a successful read has consumed\<close>

definition cursor_at :: "u8 list \<Rightarrow> u8 list \<Rightarrow> cursor" where
  "cursor_at pre bs = \<lparr>cur_bytes = pre @ bs, cur_offset = length pre\<rparr>"

lemma cursor_new_at: "cursor_new bs = cursor_at [] bs"
  by (simp add: cursor_new_def cursor_at_def)

lemma remaining_at [simp]: "remaining (cursor_at pre bs) = length bs"
  by (simp add: remaining_def cursor_at_def)

lemma cursor_at_eq [simp]: "cursor_at p x = cursor_at p y \<longleftrightarrow> x = y"
  by (simp add: cursor_at_def)

lemma cursor_take_at: "length xs = n \<Longrightarrow> cursor_take t n (cursor_at pre (xs @ ys)) = Inr (xs, cursor_at (pre @ xs) ys)"
  by (simp add: cursor_take_def slice_def cursor_at_def Let_def)

lemma cursor_take_seen [cursor_seen]:
  "cursor_take t n (cursor_at pre bs) = Inr (s, c') \<longleftrightarrow>
     (\<exists>ys. bs = s @ ys \<and> length s = n \<and> c' = cursor_at (pre @ s) ys)"
proof
  assume "cursor_take t n (cursor_at pre bs) = Inr (s, c')"
  then have s: "n \<le> length bs" "s = take n bs" "c' = cursor_at pre bs\<lparr>cur_offset := length pre + n\<rparr>"
    by (auto simp: cursor_take_def slice_def cursor_at_def Let_def split: if_splits)
  then have "bs = s @ drop n bs" "length s = n" "c' = cursor_at (pre @ s) (drop n bs)"
    by (simp_all add: cursor_at_def)
  then show "\<exists>ys. bs = s @ ys \<and> length s = n \<and> c' = cursor_at (pre @ s) ys" by blast
qed (auto simp: cursor_take_at)

text \<open>A fixed-width read: the bytes it takes, and the value it makes of them.\<close>

lemma fixed_read_seen:
  assumes read: "r = (\<lambda>c. attempt (cursor_take t n c) (\<lambda>(s, c). Inr (f s, c)))"
    and dec: "\<And>s. length s = n \<Longrightarrow> ok (f s) \<and> e (f s) = s" and enc: "\<And>x. ok x \<Longrightarrow> f (e x) = x \<and> length (e x) = n"
  shows "r (cursor_at pre bs) = Inr (x, c') \<longleftrightarrow> ok x \<and> (\<exists>ys. bs = e x @ ys \<and> c' = cursor_at (pre @ e x) ys)"
proof
  assume "r (cursor_at pre bs) = Inr (x, c')"
  then obtain s ys where s: "bs = s @ ys" "length s = n" "c' = cursor_at (pre @ s) ys" "x = f s"
    by (auto simp: read cursor_take_seen)
  then have "ok x" "e x = s" using dec [of s] by auto
  with s(1,3) show "ok x \<and> (\<exists>ys. bs = e x @ ys \<and> c' = cursor_at (pre @ e x) ys)" by auto
next
  assume "ok x \<and> (\<exists>ys. bs = e x @ ys \<and> c' = cursor_at (pre @ e x) ys)"
  then show "r (cursor_at pre bs) = Inr (x, c')" using enc [of x] by (auto simp: read cursor_take_at)
qed

lemma cursor_u8_seen [cursor_seen]:
  "cursor_u8 t (cursor_at pre bs) = Inr (b, c') \<longleftrightarrow> (\<exists>ys. bs = b # ys \<and> c' = cursor_at (pre @ [b]) ys)"
proof -
  have "cursor_u8 t (cursor_at pre bs) = Inr (b, c') \<longleftrightarrow>
      True \<and> (\<exists>ys. bs = [b] @ ys \<and> c' = cursor_at (pre @ [b]) ys)"
    by (rule fixed_read_seen [where t = t and n = 1 and f = hd])
      (auto simp: cursor_u8_def fun_eq_iff length_Suc_conv)
  then show ?thesis by simp
qed

lemma read_le:
  "length s = 2 \<Longrightarrow> from_le s \<le> u16_max \<and> u16_le (from_le s) = s"
  "length s = 4 \<Longrightarrow> from_le s \<le> u32_max \<and> u32_le (from_le s) = s"
  using from_le_less [of s] by (simp_all add: u16_le_def u32_le_def to_from_le)

lemma cursor_u16_seen [cursor_seen]:
  "cursor_u16 t (cursor_at pre bs) = Inr (n, c') \<longleftrightarrow>
     n \<le> u16_max \<and> (\<exists>ys. bs = u16_le n @ ys \<and> c' = cursor_at (pre @ u16_le n) ys)"
  by (rule fixed_read_seen [where t = t and n = 2 and f = from_le])
    (auto simp: cursor_u16_def fun_eq_iff u16_roundtrip read_le)

lemma cursor_u32_seen [cursor_seen]:
  "cursor_u32 t (cursor_at pre bs) = Inr (n, c') \<longleftrightarrow>
     n \<le> u32_max \<and> (\<exists>ys. bs = u32_le n @ ys \<and> c' = cursor_at (pre @ u32_le n) ys)"
  by (rule fixed_read_seen [where t = t and n = 4 and f = from_le])
    (auto simp: cursor_u32_def fun_eq_iff u32_roundtrip read_le)

lemma cursor_i32_seen [cursor_seen]:
  "cursor_i32 t (cursor_at pre bs) = Inr (x, c') \<longleftrightarrow>
     i32_ok x \<and> (\<exists>ys. bs = i32_le x @ ys \<and> c' = cursor_at (pre @ i32_le x) ys)"
  by (rule fixed_read_seen [where t = t and n = 4 and f = i32_from_le])
    (auto simp: cursor_i32_def fun_eq_iff i32_roundtrip i32_from_le_ok i32_le_from_le)

lemma cursor_u64_seen [cursor_seen]:
  "cursor_u64 t (cursor_at pre bs) = Inr (w, c') \<longleftrightarrow>
     (\<exists>ys. bs = u64_le w @ ys \<and> c' = cursor_at (pre @ u64_le w) ys)"
proof -
  have "cursor_u64 t (cursor_at pre bs) = Inr (w, c') \<longleftrightarrow>
      True \<and> (\<exists>ys. bs = u64_le w @ ys \<and> c' = cursor_at (pre @ u64_le w) ys)"
    by (rule fixed_read_seen [where t = t and n = 8 and f = u64_from_le])
      (auto simp: cursor_u64_def fun_eq_iff u64_roundtrip u64_le_from_le)
  then show ?thesis by simp
qed

lemma cursor_reads_at [cursor_read]:
  "cursor_u8 t (cursor_at pre (b # ys)) = Inr (b, cursor_at (pre @ [b]) ys)"
  "n \<le> u16_max \<Longrightarrow> cursor_u16 t (cursor_at pre (u16_le n @ ys)) = Inr (n, cursor_at (pre @ u16_le n) ys)"
  "n \<le> u32_max \<Longrightarrow> cursor_u32 t (cursor_at pre (u32_le n @ ys)) = Inr (n, cursor_at (pre @ u32_le n) ys)"
  "i32_ok x \<Longrightarrow> cursor_i32 t (cursor_at pre (i32_le x @ ys)) = Inr (x, cursor_at (pre @ i32_le x) ys)"
  "cursor_u64 t (cursor_at pre (u64_le w @ ys)) = Inr (w, cursor_at (pre @ u64_le w) ys)"
  "length xs = k \<Longrightarrow> cursor_take t k (cursor_at pre (xs @ ys)) = Inr (xs, cursor_at (pre @ xs) ys)"
  by (auto simp: cursor_seen)

lemma cursor_reads_end [cursor_read]:
  "n \<le> u16_max \<Longrightarrow> cursor_u16 t (cursor_at pre (u16_le n)) = Inr (n, cursor_at (pre @ u16_le n) [])"
  "n \<le> u32_max \<Longrightarrow> cursor_u32 t (cursor_at pre (u32_le n)) = Inr (n, cursor_at (pre @ u32_le n) [])"
  "i32_ok x \<Longrightarrow> cursor_i32 t (cursor_at pre (i32_le x)) = Inr (x, cursor_at (pre @ i32_le x) [])"
  "cursor_u64 t (cursor_at pre (u64_le w)) = Inr (w, cursor_at (pre @ u64_le w) [])"
  "length xs = k \<Longrightarrow> cursor_take t k (cursor_at pre xs) = Inr (xs, cursor_at (pre @ xs) [])"
  by (auto simp: cursor_seen)

subsection \<open>Message bodies\<close>

text \<open>
  The contract of a message body, of any width: decoding an encoded value yields it and leaves
  what followed, and whatever is decoded was the encoding of a valid value.
\<close>

locale body_codec =
  fixes enc :: "'a \<Rightarrow> u8 list" and dec :: "cursor \<Rightarrow> 'e + ('a \<times> cursor)" and valid :: "'a \<Rightarrow> bool"
  assumes dec_seen: "dec (cursor_at pre bs) = Inr (x, c') \<longleftrightarrow>
    valid x \<and> (\<exists>ys. bs = enc x @ ys \<and> c' = cursor_at (pre @ enc x) ys)"
begin

lemma dec_read: "valid x \<Longrightarrow> dec (cursor_at pre (enc x @ ys)) = Inr (x, cursor_at (pre @ enc x) ys)"
  by (simp add: dec_seen)

lemma decode_many_seen:
  "decode_many dec n (cursor_at pre bs) = Inr (xs, c') \<longleftrightarrow>
     length xs = n \<and> list_all valid xs \<and>
     (\<exists>ys. bs = concat (map enc xs) @ ys \<and> c' = cursor_at (pre @ concat (map enc xs)) ys)"
proof (induction n arbitrary: pre bs xs)
  case (Suc n)
  have "decode_many dec (Suc n) (cursor_at pre bs) = Inr (xs, c') \<longleftrightarrow>
      (\<exists>x zs. xs = x # zs \<and> valid x \<and> (\<exists>ys. bs = enc x @ ys \<and>
        decode_many dec n (cursor_at (pre @ enc x) ys) = Inr (zs, c')))"
    by (auto simp: dec_seen)
  also have "\<dots> \<longleftrightarrow> length xs = Suc n \<and> list_all valid xs \<and>
     (\<exists>ys. bs = concat (map enc xs) @ ys \<and> c' = cursor_at (pre @ concat (map enc xs)) ys)"
    unfolding Suc.IH by (cases xs) auto
  finally show ?case .
qed auto

lemma decode_many_read:
  "list_all valid xs \<Longrightarrow> decode_many dec (length xs) (cursor_at pre (concat (map enc xs) @ ys)) =
     Inr (xs, cursor_at (pre @ concat (map enc xs)) ys)"
  by (simp add: decode_many_seen)

end

subsection \<open>Messages\<close>

text \<open>
  The contract of a whole message: the decoder accepts exactly the encodings of the values of its
  type. Both the round trip and the canonicity of a format are consequences.
\<close>

locale message_codec =
  fixes enc :: "'a \<Rightarrow> 'e + u8 list" and dec :: "u8 list \<Rightarrow> 'e + 'a" and ok :: "'a \<Rightarrow> bool"
  assumes dec_enc: "ok m \<Longrightarrow> enc m = Inr b \<Longrightarrow> dec b = Inr m"
    and enc_dec: "dec b = Inr m \<Longrightarrow> ok m \<and> enc m = Inr b"
begin

lemma dec_iff: "dec b = Inr m \<longleftrightarrow> ok m \<and> enc m = Inr b"
  using dec_enc enc_dec by blast

lemma enc_injective:
  assumes "ok m" "ok m'" "enc m = Inr b" "enc m' = Inr b"
  shows "m = m'"
  using dec_enc [OF assms(1,3)] dec_enc [OF assms(2,4)] by simp

lemma dec_injective:
  assumes "dec b = Inr m" "dec b' = Inr m"
  shows "b = b'"
  using enc_dec [OF assms(1)] enc_dec [OF assms(2)] by simp

end

end
