(* ===== verification/Terrain_Transport.thy ===== *)
theory Terrain_Transport
  imports Terrain_Stream Wire_Cursor
begin

text \<open>
  Wire framing of virtual terrain page requests (\<open>world/src/terrain_transport.rs\<close>): the envelope both
  directions share (magic, schema, source identity, counts, body and its hash), the 56-byte page
  identity and the request built from them. Identities are an instance of the body contract
  \<open>body_codec\<close>; blake3 is a parameter, of which only the digest length is relied on.
  The result direction embeds compressed page payloads (\<open>terrain_page.rs\<close>) and is not modelled.
\<close>

section \<open>Data\<close>

definition TRANSFER_SCHEMA_VERSION :: nat where "TRANSFER_SCHEMA_VERSION = 2"
definition REQUEST_MAGIC :: "u8 list" where "REQUEST_MAGIC = ascii ''VXPR''"
definition HEADER_BYTES :: nat where "HEADER_BYTES = 80"
definition REQUEST_ITEM_BYTES :: nat where "REQUEST_ITEM_BYTES = 56"
definition REQUEST_HASH_DOMAIN :: "u8 list" where
  "REQUEST_HASH_DOMAIN = ascii ''voxels-terrain-page-request-v2'' @ [0]"

record batch_request =
  br_source_identity_hash :: "u8 list"
  br_pages :: "transfer_identity list"

datatype transfer_error =
    Truncated
  | InvalidMagic
  | UnsupportedVersion nat
  | InvalidHeader string
  | SourceMismatch
  | InvalidIdentity
  | DuplicateOrUnsortedIdentity
  | LimitExceeded string
  | CorruptHash

record envelope =
  env_item_count :: nat
  env_body :: "u8 list"

section \<open>Operations\<close>

definition validate_identities :: "transfer_identity list \<Rightarrow> transfer_error + unit" where
  "validate_identities identities =
     (if identities = [] \<or> length identities > TERRAIN_PAGE_TRANSFER_MAX_ITEMS
      then Inl (LimitExceeded ''page identity count'')
      else if list_ex (\<lambda>i. \<not> identity_validates i) identities then Inl InvalidIdentity
      else if \<not> windows2_all (\<lambda>a b. ti_key a < ti_key b) identities
      then Inl DuplicateOrUnsortedIdentity
      else Inr ())"

definition envelope_hash :: "(u8 list \<Rightarrow> u8 list) \<Rightarrow> u8 list \<Rightarrow> u8 list \<Rightarrow> nat \<Rightarrow> u8 list \<Rightarrow> u8 list" where
  "envelope_hash blake3 domain source item_count body =
     blake3 (domain @ u16_le TRANSFER_SCHEMA_VERSION @ source @ u16_le item_count @
       u32_le (length body mod 2 ^ 32) @ body)"

definition encode_envelope ::
    "(u8 list \<Rightarrow> u8 list) \<Rightarrow> u8 list \<Rightarrow> u8 list \<Rightarrow> u8 list \<Rightarrow> nat \<Rightarrow> u8 list \<Rightarrow> transfer_error + u8 list" where
  "encode_envelope blake3 magic domain source item_count body =
     (if item_count = 0 \<or> item_count > TERRAIN_PAGE_TRANSFER_MAX_ITEMS then Inl (LimitExceeded ''item count'')
      else if length body > TERRAIN_PAGE_TRANSFER_MAX_BYTES then Inl (LimitExceeded ''body bytes'')
      else if item_count > u16_max then Inl (LimitExceeded ''item count'')
      else if length body > u32_max then Inl (LimitExceeded ''body bytes'')
      else let hash = envelope_hash blake3 domain source item_count body in
        Inr (magic @ u16_le TRANSFER_SCHEMA_VERSION @ u16_le HEADER_BYTES @ source @ u16_le item_count @
             u16_le 0 @ u32_le (length body) @ hash @ body))"

definition decode_envelope ::
    "(u8 list \<Rightarrow> u8 list) \<Rightarrow> u8 list \<Rightarrow> u8 list \<Rightarrow> u8 list \<Rightarrow> u8 list \<Rightarrow> transfer_error + envelope" where
  "decode_envelope blake3 bytes magic domain expected_source =
     (if length bytes < HEADER_BYTES then Inl Truncated
      else if length bytes > HEADER_BYTES + TERRAIN_PAGE_TRANSFER_MAX_BYTES then Inl (LimitExceeded ''encoded bytes'')
      else
        attempt (cursor_take Truncated 4 (cursor_new bytes)) (\<lambda>(found_magic, c).
        if found_magic \<noteq> magic then Inl InvalidMagic else
        attempt (cursor_u16 Truncated c) (\<lambda>(version, c).
        if version \<noteq> TRANSFER_SCHEMA_VERSION then Inl (UnsupportedVersion version) else
        attempt (cursor_u16 Truncated c) (\<lambda>(header, c).
        if header \<noteq> HEADER_BYTES then Inl (InvalidHeader ''header bytes'') else
        attempt (cursor_take Truncated 32 c) (\<lambda>(source, c).
        if source \<noteq> expected_source then Inl SourceMismatch else
        attempt (cursor_u16 Truncated c) (\<lambda>(item_count, c).
        if item_count = 0 \<or> item_count > TERRAIN_PAGE_TRANSFER_MAX_ITEMS then Inl (LimitExceeded ''item count'') else
        attempt (cursor_u16 Truncated c) (\<lambda>(reserved, c).
        if reserved \<noteq> 0 then Inl (InvalidHeader ''reserved bytes'') else
        attempt (cursor_u32 Truncated c) (\<lambda>(body_bytes, c).
        if body_bytes > TERRAIN_PAGE_TRANSFER_MAX_BYTES then Inl (LimitExceeded ''body bytes'') else
        attempt (cursor_take Truncated 32 c) (\<lambda>(claimed_hash, c).
        attempt (cursor_take Truncated body_bytes c) (\<lambda>(body, c).
        if remaining c \<noteq> 0 then Inl (InvalidHeader ''envelope trailing bytes'')
        else if claimed_hash \<noteq> envelope_hash blake3 domain source item_count body then Inl CorruptHash
        else Inr \<lparr>env_item_count = item_count, env_body = body\<rparr>))))))))))"

definition encode_identity :: "transfer_identity \<Rightarrow> u8 list" where
  "encode_identity i =
     [of_nat (pk_level (ti_key i))] @ [0, 0, 0] @ i32_le (pk_x (ti_key i)) @ i32_le (pk_y (ti_key i)) @
     i32_le (pk_z (ti_key i)) @ u64_le (ti_revision i) @ ti_fingerprint i"

definition decode_identity :: "cursor \<Rightarrow> transfer_error + (transfer_identity \<times> cursor)" where
  "decode_identity c =
     attempt (cursor_u8 Truncated c) (\<lambda>(level, c).
     attempt (cursor_take Truncated 3 c) (\<lambda>(reserved, c).
     if reserved \<noteq> [0, 0, 0] then Inl (InvalidHeader ''identity reserved bytes'') else
     attempt (cursor_i32 Truncated c) (\<lambda>(x, c).
     attempt (cursor_i32 Truncated c) (\<lambda>(y, c).
     attempt (cursor_i32 Truncated c) (\<lambda>(z, c).
     attempt (cursor_u64 Truncated c) (\<lambda>(revision, c).
     attempt (cursor_take Truncated 32 c) (\<lambda>(fingerprint, c).
     let identity = \<lparr>ti_key = page_at (unat level) x y z, ti_revision = revision, ti_fingerprint = fingerprint\<rparr> in
     if \<not> identity_validates identity then Inl InvalidIdentity else Inr (identity, c))))))))"

definition encode_request :: "(u8 list \<Rightarrow> u8 list) \<Rightarrow> batch_request \<Rightarrow> transfer_error + u8 list" where
  "encode_request blake3 r =
     attempt (validate_identities (br_pages r)) (\<lambda>_.
       encode_envelope blake3 REQUEST_MAGIC REQUEST_HASH_DOMAIN (br_source_identity_hash r)
         (length (br_pages r)) (concat (map encode_identity (br_pages r))))"

definition decode_request :: "(u8 list \<Rightarrow> u8 list) \<Rightarrow> u8 list \<Rightarrow> u8 list \<Rightarrow> transfer_error + batch_request" where
  "decode_request blake3 bytes expected_source =
     attempt (decode_envelope blake3 bytes REQUEST_MAGIC REQUEST_HASH_DOMAIN expected_source) (\<lambda>env.
     if length (env_body env) \<noteq> env_item_count env * REQUEST_ITEM_BYTES
     then Inl (InvalidHeader ''request body length'')
     else attempt (decode_many decode_identity (env_item_count env) (cursor_new (env_body env))) (\<lambda>(pages, _).
       attempt (validate_identities pages) (\<lambda>_.
         Inr \<lparr>br_source_identity_hash = expected_source, br_pages = pages\<rparr>)))"

section \<open>Identities\<close>

definition identity_ok :: "transfer_identity \<Rightarrow> bool" where
  "identity_ok i \<longleftrightarrow> key_ok (ti_key i) \<and> length (ti_fingerprint i) = 32 \<and> identity_validates i"

lemma length_encode_identity: "length (ti_fingerprint i) = 32 \<Longrightarrow> length (encode_identity i) = 56"
  by (simp add: encode_identity_def)

lemma u8_level: "n \<le> 255 \<Longrightarrow> unat (of_nat n :: u8) = n" "unat (b :: u8) \<le> 255"
  using unsigned_less [where ?'a = nat, of b] by (simp_all add: unat_of_nat_u8)

interpretation identity_body: body_codec encode_identity decode_identity identity_ok
proof
  show "decode_identity (cursor_at pre bs) = Inr (i, c') \<longleftrightarrow>
    identity_ok i \<and> (\<exists>ys. bs = encode_identity i @ ys \<and> c' = cursor_at (pre @ encode_identity i) ys)"
    for pre bs i c'
  proof
    show "decode_identity (cursor_at pre bs) = Inr (i, c') \<Longrightarrow>
      identity_ok i \<and> (\<exists>ys. bs = encode_identity i @ ys \<and> c' = cursor_at (pre @ encode_identity i) ys)"
      by (auto simp: decode_identity_def encode_identity_def cursor_seen identity_ok_def key_ok_def u8_level
          Let_def split: if_splits)
    assume "identity_ok i \<and> (\<exists>ys. bs = encode_identity i @ ys \<and> c' = cursor_at (pre @ encode_identity i) ys)"
    then obtain ys where i: "identity_ok i" and bs: "bs = encode_identity i @ ys"
      and c': "c' = cursor_at (pre @ encode_identity i) ys" by blast
    show "decode_identity (cursor_at pre bs) = Inr (i, c')"
      using i unfolding bs c' identity_ok_def key_ok_def
      by (cases i) (simp add: decode_identity_def encode_identity_def cursor_read cursor_take_at [of "[_, _, _]", simplified]
          u8_level Let_def del: try_Inr)
  qed
qed

section \<open>The envelope\<close>

lemma transfer_limits:
  "TERRAIN_PAGE_TRANSFER_MAX_ITEMS = 256" "TERRAIN_PAGE_TRANSFER_MAX_BYTES = 16809984" "HEADER_BYTES = 80"
  by (simp_all add: TERRAIN_PAGE_TRANSFER_MAX_ITEMS_def TERRAIN_PAGE_TRANSFER_MAX_BYTES_def
      TERRAIN_PAGE_TARGET_COMPRESSED_BYTES_def HEADER_BYTES_def)

definition envelope_frame :: "u8 list \<Rightarrow> u8 list \<Rightarrow> nat \<Rightarrow> u8 list \<Rightarrow> u8 list \<Rightarrow> u8 list" where
  "envelope_frame magic source item_count hash body =
     magic @ u16_le TRANSFER_SCHEMA_VERSION @ u16_le HEADER_BYTES @ source @ u16_le item_count @
     u16_le 0 @ u32_le (length body) @ hash @ body"

definition envelope_ok :: "u8 list \<Rightarrow> u8 list \<Rightarrow> nat \<Rightarrow> u8 list \<Rightarrow> bool" where
  "envelope_ok magic source item_count body \<longleftrightarrow>
     length magic = 4 \<and> length source = 32 \<and> 0 < item_count \<and> item_count \<le> TERRAIN_PAGE_TRANSFER_MAX_ITEMS \<and>
     length body \<le> TERRAIN_PAGE_TRANSFER_MAX_BYTES"

lemma encode_envelope_frame:
  "0 < n \<Longrightarrow> n \<le> TERRAIN_PAGE_TRANSFER_MAX_ITEMS \<Longrightarrow> length body \<le> TERRAIN_PAGE_TRANSFER_MAX_BYTES \<Longrightarrow>
   encode_envelope blake3 magic domain source n body =
     Inr (envelope_frame magic source n (envelope_hash blake3 domain source n body) body)"
  by (simp add: encode_envelope_def envelope_frame_def transfer_limits Let_def)

lemma decode_envelope_frame:
  assumes ok: "envelope_ok magic source n body" and digest: "length hash = 32"
  shows "decode_envelope blake3 (envelope_frame magic source n hash body) magic domain source =
    (if hash = envelope_hash blake3 domain source n body then Inr \<lparr>env_item_count = n, env_body = body\<rparr>
     else Inl CorruptHash)"
proof -
  have l: "length magic = 4" "length source = 32" "0 < n" "n \<le> 256" "length body \<le> 16809984"
    using ok by (auto simp: envelope_ok_def transfer_limits)
  show ?thesis
    unfolding decode_envelope_def envelope_frame_def cursor_new_at
    using l digest by (simp add: cursor_read transfer_limits TRANSFER_SCHEMA_VERSION_def del: try_Inr)
qed

lemma decode_envelope_inv:
  assumes "decode_envelope blake3 bytes magic domain source = Inr env"
  shows "envelope_ok magic source (env_item_count env) (env_body env) \<and>
    bytes = envelope_frame magic source (env_item_count env)
      (envelope_hash blake3 domain source (env_item_count env) (env_body env)) (env_body env)"
  using assms unfolding decode_envelope_def cursor_new_at
  by (auto simp: cursor_seen envelope_ok_def envelope_frame_def transfer_limits split: if_splits)

section \<open>Requests\<close>

definition request_ok :: "batch_request \<Rightarrow> bool" where
  "request_ok r \<longleftrightarrow> length (br_source_identity_hash r) = 32 \<and>
     (\<forall>i \<in> set (br_pages r). key_ok (ti_key i) \<and> length (ti_fingerprint i) = 32)"

lemma validate_identities_Inr:
  "validate_identities is = Inr u \<longleftrightarrow> is \<noteq> [] \<and> length is \<le> TERRAIN_PAGE_TRANSFER_MAX_ITEMS \<and>
     (\<forall>i \<in> set is. identity_validates i) \<and> sorted_wrt (<) (map ti_key is)"
  by (auto simp: validate_identities_def list_ex_iff windows2_all_less_iff)

lemma length_concat_identities:
  "\<forall>i \<in> set is. length (ti_fingerprint i) = 32 \<Longrightarrow> length (concat (map encode_identity is)) = length is * 56"
  by (induction "is") (auto simp: length_encode_identity)

lemma request_magic_simps [simp]: "length REQUEST_MAGIC = 4"
  by (simp add: REQUEST_MAGIC_def ascii_def)

lemma encode_request_frame:
  assumes ok: "request_ok r"
  shows "encode_request blake3 r =
    attempt (validate_identities (br_pages r)) (\<lambda>_.
      let body = concat (map encode_identity (br_pages r)); n = length (br_pages r)
      in Inr (envelope_frame REQUEST_MAGIC (br_source_identity_hash r) n
           (envelope_hash blake3 REQUEST_HASH_DOMAIN (br_source_identity_hash r) n body) body))"
proof (cases "validate_identities (br_pages r)")
  case (Inr u)
  then have n: "br_pages r \<noteq> []" "length (br_pages r) \<le> 256"
    by (auto simp: validate_identities_Inr transfer_limits)
  moreover have "length (concat (map encode_identity (br_pages r))) \<le> 256 * 56"
    using ok n(2) by (simp add: length_concat_identities request_ok_def)
  ultimately show ?thesis
    using Inr by (simp add: encode_request_def Let_def encode_envelope_frame transfer_limits)
qed (simp add: encode_request_def)

text \<open>
  Page requests round-trip. Every request the encoder accepts is decoded back to itself by a
  receiver that expects the same world source, provided the hash function yields 32 bytes.
\<close>

theorem decode_encode_request:
  assumes ok: "request_ok r" and digest: "\<forall>bs. length (blake3 bs) = 32" and enc: "encode_request blake3 r = Inr bytes"
  shows "decode_request blake3 bytes (br_source_identity_hash r) = Inr r"
proof -
  let ?body = "concat (map encode_identity (br_pages r))" and ?n = "length (br_pages r)"
  obtain u where v: "validate_identities (br_pages r) = Inr u"
    and bytes: "bytes = envelope_frame REQUEST_MAGIC (br_source_identity_hash r) ?n
      (envelope_hash blake3 REQUEST_HASH_DOMAIN (br_source_identity_hash r) ?n ?body) ?body"
    using enc unfolding encode_request_frame [OF ok] by (auto simp: Let_def)
  have len: "length ?body = ?n * 56" using ok by (simp add: length_concat_identities request_ok_def)
  have "envelope_ok REQUEST_MAGIC (br_source_identity_hash r) ?n ?body"
    using v ok by (auto simp: envelope_ok_def request_ok_def validate_identities_Inr len transfer_limits)
  then have env: "decode_envelope blake3 bytes REQUEST_MAGIC REQUEST_HASH_DOMAIN (br_source_identity_hash r)
      = Inr \<lparr>env_item_count = ?n, env_body = ?body\<rparr>"
    unfolding bytes by (subst decode_envelope_frame) (simp_all add: digest envelope_hash_def)
  have "\<forall>i \<in> set (br_pages r). identity_ok i"
    using v ok by (auto simp: identity_ok_def request_ok_def validate_identities_Inr)
  then have "decode_many decode_identity ?n (cursor_new ?body) = Inr (br_pages r, cursor_at ?body [])"
    using identity_body.decode_many_read [of "br_pages r" "[]" "[]"] by (simp add: cursor_new_at list_all_iff)
  then show ?thesis
    using v by (simp add: decode_request_def env len REQUEST_ITEM_BYTES_def)
qed

text \<open>
  Accepted page requests are canonical. Whatever bytes the decoder accepts are exactly the
  encoding of the request it returns: sorted by key, without duplicates, every identity valid,
  and made for the expected world source.
\<close>

theorem decode_request_canonical:
  assumes dec: "decode_request blake3 bytes source = Inr r"
  shows "encode_request blake3 r = Inr bytes \<and> br_source_identity_hash r = source \<and>
    sorted_wrt (<) (map ti_key (br_pages r)) \<and> (\<forall>i \<in> set (br_pages r). identity_ok i)"
proof -
  obtain env pages c' where env: "decode_envelope blake3 bytes REQUEST_MAGIC REQUEST_HASH_DOMAIN source = Inr env"
    and len: "length (env_body env) = env_item_count env * 56"
    and pages: "decode_many decode_identity (env_item_count env) (cursor_new (env_body env)) = Inr (pages, c')"
    and v: "validate_identities pages = Inr ()"
    and r: "r = \<lparr>br_source_identity_hash = source, br_pages = pages\<rparr>"
    using dec by (auto simp: decode_request_def REQUEST_ITEM_BYTES_def split: if_splits)
  note e = decode_envelope_inv [OF env]
  obtain rest where n: "length pages = env_item_count env" and ok: "\<forall>i \<in> set pages. identity_ok i"
    and body: "env_body env = concat (map encode_identity pages) @ rest"
    using pages by (auto simp: cursor_new_at identity_body.decode_many_seen list_all_iff)
  have f: "\<forall>i \<in> set pages. length (ti_fingerprint i) = 32 \<and> key_ok (ti_key i)" using ok by (auto simp: identity_ok_def)
  then have "rest = []" using body len n length_concat_identities [of pages] by simp
  moreover have "request_ok r" using f e by (auto simp: request_ok_def r envelope_ok_def)
  ultimately have "encode_request blake3 r = Inr bytes"
    using e body n v by (simp add: encode_request_frame r Let_def)
  moreover have "sorted_wrt (<) (map ti_key pages)"
    using v by (simp add: validate_identities_Inr)
  ultimately show ?thesis using ok r by simp
qed

text \<open>
  C31: the page request codec. A receiver that expects the request's world source decodes some bytes
  to a request exactly when they are what the encoder makes of it, and the encoder refuses exactly
  the requests no bytes decode to; all it needs of the hash is that it yields 32 bytes.
\<close>

theorem request_codec:
  assumes "request_ok r" "\<forall>bs. length (blake3 bs) = 32"
  shows "encode_request blake3 r = Inr bytes \<longleftrightarrow> decode_request blake3 bytes (br_source_identity_hash r) = Inr r"
  using decode_encode_request [OF assms] decode_request_canonical by blast

definition sample_request :: batch_request where
  "sample_request = \<lparr>br_source_identity_hash = replicate 32 7, br_pages = [pd_identity sample_demand]\<rparr>"

theorem request_codec_witness:
  "\<exists>bytes. encode_request (\<lambda>_. replicate 32 1) sample_request = Inr bytes \<and>
     decode_request (\<lambda>_. replicate 32 1) bytes (replicate 32 7) = Inr sample_request"
proof -
  have v: "identity_validates (pd_identity sample_demand)"
    by (simp add: identity_validates_def sample_demand_def page_surface_def is_surface_def
        TERRAIN_SURFACE_PAGE_COORD_Y_def horizontal_bounds_def page_span_def TERRAIN_PAGE_EDGE_SAMPLES_def
        i64_try_def i32_try_def i32_ok_def)
  have ok: "request_ok sample_request"
    by (simp add: request_ok_def sample_request_def sample_demand_def key_ok_def page_surface_def
        TERRAIN_SURFACE_PAGE_COORD_Y_def i32_ok_def)
  have "validate_identities (br_pages sample_request) = Inr ()"
    using v by (simp add: validate_identities_Inr sample_request_def transfer_limits)
  then obtain bytes where "encode_request (\<lambda>_. replicate 32 1) sample_request = Inr bytes"
    unfolding encode_request_frame [OF ok] by (simp add: Let_def)
  then show ?thesis
    using request_codec [OF ok, of "\<lambda>_. replicate 32 1" bytes] by (auto simp: sample_request_def)
qed

end
