(* ===== verification/Frame_Protocol.thy ===== *)
theory Frame_Protocol
  imports Wire_Cursor
begin

text \<open>
  VXWP framing (\<open>world/src/protocol.rs\<close>): the 24-byte frame header, the control messages of a
  session that carry only integers, and the fragmentation of large frames with the receiver's
  \<open>FrameReassembler\<close>. The lemmas show that frames and messages round-trip and are canonical, that
  the reassembler stays within its bounds, and that it delivers exactly the frame a sender cut up,
  whatever other traffic is interleaved with the fragments.
\<close>

section \<open>Frames\<close>

definition PROTOCOL_MAGIC :: "u8 list" where "PROTOCOL_MAGIC = ascii ''VXWP''"
definition PROTOCOL_VERSION :: nat where "PROTOCOL_VERSION = 44"
definition FRAME_HEADER_BYTES :: nat where "FRAME_HEADER_BYTES = 24"
definition MAX_PROTOCOL_FRAME_BYTES :: nat where "MAX_PROTOCOL_FRAME_BYTES = 16 * 1024 * 1024"
definition FRAME_FRAGMENT_OVERHEAD_BYTES :: nat where "FRAME_FRAGMENT_OVERHEAD_BYTES = FRAME_HEADER_BYTES + 8"
definition MAX_FRAME_FRAGMENT_DATA_BYTES :: nat where
  "MAX_FRAME_FRAGMENT_DATA_BYTES = MAX_PROTOCOL_FRAME_BYTES - FRAME_FRAGMENT_OVERHEAD_BYTES"
definition MAX_PLAYERS_PER_PRESENCE_DELTA :: nat where "MAX_PLAYERS_PER_PRESENCE_DELTA = 1024"

definition KIND_CANCEL :: nat where "KIND_CANCEL = 5"
definition KIND_OPEN_PRESENCE :: nat where "KIND_OPEN_PRESENCE = 9"
definition KIND_PRESENCE_OPENED :: nat where "KIND_PRESENCE_OPENED = 10"
definition KIND_PRESENCE_PING :: nat where "KIND_PRESENCE_PING = 13"
definition KIND_PRESENCE_PONG :: nat where "KIND_PRESENCE_PONG = 14"
definition KIND_RESYNC_REQUIRED :: nat where "KIND_RESYNC_REQUIRED = 17"
definition KIND_FRAME_FRAGMENT :: nat where "KIND_FRAME_FRAGMENT = 18"
definition KIND_FRAME_FRAGMENT_ABORT :: nat where "KIND_FRAME_FRAGMENT_ABORT = 19"
definition FLAG_NONE :: nat where "FLAG_NONE = 0"
definition RESERVED :: nat where "RESERVED = 0"

lemmas frame_consts = PROTOCOL_VERSION_def FRAME_HEADER_BYTES_def MAX_PROTOCOL_FRAME_BYTES_def
  FRAME_FRAGMENT_OVERHEAD_BYTES_def MAX_FRAME_FRAGMENT_DATA_BYTES_def MAX_PLAYERS_PER_PRESENCE_DELTA_def
  KIND_CANCEL_def KIND_OPEN_PRESENCE_def KIND_PRESENCE_OPENED_def KIND_PRESENCE_PING_def KIND_PRESENCE_PONG_def
  KIND_RESYNC_REQUIRED_def KIND_FRAME_FRAGMENT_def KIND_FRAME_FRAGMENT_ABORT_def FLAG_NONE_def RESERVED_def

datatype protocol_error =
    ProtocolTruncated
  | ProtocolInvalidMagic
  | ProtocolUnsupportedVersion nat
  | UnexpectedMessageKind nat
  | ProtocolInvalidHeader string
  | InvalidPayload string
  | InvalidUtf8
  | UnknownEnum string nat
  | ProtocolLimitExceeded string

record wire_frame =
  fr_kind :: nat
  fr_request_id :: u64
  fr_payload :: "u8 list"

definition encode_frame :: "nat \<Rightarrow> u64 \<Rightarrow> u8 list \<Rightarrow> u8 list" where
  "encode_frame kind request_id payload =
     PROTOCOL_MAGIC @ u16_le PROTOCOL_VERSION @ u16_le kind @ u16_le FLAG_NONE @ u16_le RESERVED @
     u64_le request_id @ u32_le (length payload mod 2 ^ 32) @ payload"

definition frame_read_u16 :: "u8 list \<Rightarrow> nat \<Rightarrow> protocol_error + nat" where
  "frame_read_u16 bytes offset =
     attempt (ok_or ProtocolTruncated (slice bytes offset (offset + 2))) (\<lambda>v. Inr (from_le v))"

definition frame_read_u32 :: "u8 list \<Rightarrow> nat \<Rightarrow> protocol_error + nat" where
  "frame_read_u32 bytes offset =
     attempt (ok_or ProtocolTruncated (slice bytes offset (offset + 4))) (\<lambda>v. Inr (from_le v))"

definition frame_read_u64 :: "u8 list \<Rightarrow> nat \<Rightarrow> protocol_error + u64" where
  "frame_read_u64 bytes offset =
     attempt (ok_or ProtocolTruncated (slice bytes offset (offset + 8))) (\<lambda>v. Inr (u64_from_le v))"

definition decode_frame :: "u8 list \<Rightarrow> protocol_error + wire_frame" where
  "decode_frame bytes =
     (if length bytes < FRAME_HEADER_BYTES then Inl ProtocolTruncated
      else if take 4 bytes \<noteq> PROTOCOL_MAGIC then Inl ProtocolInvalidMagic else
      attempt (frame_read_u16 bytes 4) (\<lambda>version.
      if version \<noteq> PROTOCOL_VERSION then Inl (ProtocolUnsupportedVersion version) else
      attempt (frame_read_u16 bytes 8) (\<lambda>flags.
      if flags \<noteq> FLAG_NONE then Inl (ProtocolInvalidHeader ''flags or reserved bits are nonzero'') else
      attempt (frame_read_u16 bytes 10) (\<lambda>reserved.
      if reserved \<noteq> RESERVED then Inl (ProtocolInvalidHeader ''flags or reserved bits are nonzero'') else
      attempt (frame_read_u32 bytes 20) (\<lambda>payload_len.
      let expected = FRAME_HEADER_BYTES + payload_len in
      if expected > MAX_PROTOCOL_FRAME_BYTES then Inl (ProtocolLimitExceeded ''frame bytes'')
      else if length bytes < expected then Inl ProtocolTruncated
      else if length bytes \<noteq> expected then Inl (ProtocolInvalidHeader ''trailing bytes'') else
      attempt (frame_read_u16 bytes 6) (\<lambda>kind.
      attempt (frame_read_u64 bytes 12) (\<lambda>request_id.
        Inr \<lparr>fr_kind = kind, fr_request_id = request_id, fr_payload = drop FRAME_HEADER_BYTES bytes\<rparr>)))))))"

definition expect_kind :: "wire_frame \<Rightarrow> nat \<Rightarrow> protocol_error + unit" where
  "expect_kind frame expected =
     (if fr_kind frame \<noteq> expected then Inl (UnexpectedMessageKind (fr_kind frame)) else Inr ())"

definition expect_zero_request_id :: "wire_frame \<Rightarrow> protocol_error + unit" where
  "expect_zero_request_id frame =
     (if fr_request_id frame \<noteq> 0 then Inl (InvalidPayload ''presence request id must be zero'') else Inr ())"

definition cursor_finish :: "cursor \<Rightarrow> protocol_error + unit" where
  "cursor_finish c = (if cur_offset c \<noteq> length (cur_bytes c) then Inl (InvalidPayload ''trailing payload bytes'') else Inr ())"

definition message_kind :: "u8 list \<Rightarrow> protocol_error + nat" where
  "message_kind bytes = attempt (decode_frame bytes) (\<lambda>frame. Inr (fr_kind frame))"

definition message_request_id :: "u8 list \<Rightarrow> protocol_error + u64" where
  "message_request_id bytes = attempt (decode_frame bytes) (\<lambda>frame. Inr (fr_request_id frame))"

definition clone_message_with_request_id :: "u8 list \<Rightarrow> u64 \<Rightarrow> protocol_error + u8 list" where
  "clone_message_with_request_id bytes request_id =
     attempt (decode_frame bytes) (\<lambda>_. Inr (take 12 bytes @ u64_le request_id @ drop 20 bytes))"

section \<open>Control messages\<close>

record presence_opened =
  po_connection_id :: u64
  po_server_time_ms :: u64
  po_broadcast_interval_ms :: nat
  po_max_players :: nat

record presence_ping =
  pi_sequence :: nat
  pi_observed_round_trip_ms :: nat
  pi_client_send_time_ms :: u64

record presence_pong =
  pn_sequence :: nat
  pn_outbound_rate_bytes_per_second :: nat
  pn_client_send_time_ms :: u64
  pn_server_receive_time_ms :: u64
  pn_server_send_time_ms :: u64

definition encode_cancel :: "u64 \<Rightarrow> protocol_error + u8 list" where
  "encode_cancel request_id =
     (if request_id = 0 then Inl (InvalidPayload ''request id must be nonzero'')
      else Inr (encode_frame KIND_CANCEL request_id []))"

definition decode_cancel :: "u8 list \<Rightarrow> protocol_error + u64" where
  "decode_cancel bytes =
     attempt (decode_frame bytes) (\<lambda>frame.
     attempt (expect_kind frame KIND_CANCEL) (\<lambda>_.
     if fr_request_id frame = 0 \<or> fr_payload frame \<noteq> [] then Inl (InvalidPayload ''invalid Cancel body'')
     else Inr (fr_request_id frame)))"

definition encode_resync_required :: "u64 \<Rightarrow> protocol_error + u8 list" where
  "encode_resync_required revision =
     (if revision = 0 then Inl (InvalidPayload ''resync revision must be nonzero'')
      else Inr (encode_frame KIND_RESYNC_REQUIRED 0 (u64_le revision)))"

definition decode_resync_required :: "u8 list \<Rightarrow> protocol_error + u64" where
  "decode_resync_required bytes =
     attempt (decode_frame bytes) (\<lambda>frame.
     attempt (expect_kind frame KIND_RESYNC_REQUIRED) (\<lambda>_.
     if fr_request_id frame \<noteq> 0 then Inl (InvalidPayload ''resync request id must be zero'') else
     attempt (cursor_u64 ProtocolTruncated (cursor_new (fr_payload frame))) (\<lambda>(revision, c).
     attempt (cursor_finish c) (\<lambda>_.
     if revision = 0 then Inl (InvalidPayload ''resync revision must be nonzero'') else Inr revision))))"

definition encode_open_presence :: "u8 list \<Rightarrow> protocol_error + u8 list" where
  "encode_open_presence session_id =
     (if session_id = replicate 16 0 then Inl (InvalidPayload ''presence session id is nil'')
      else Inr (encode_frame KIND_OPEN_PRESENCE 0 session_id))"

definition decode_open_presence :: "u8 list \<Rightarrow> protocol_error + u8 list" where
  "decode_open_presence bytes =
     attempt (decode_frame bytes) (\<lambda>frame.
     attempt (expect_zero_request_id frame) (\<lambda>_.
     attempt (expect_kind frame KIND_OPEN_PRESENCE) (\<lambda>_.
     attempt (cursor_take ProtocolTruncated 16 (cursor_new (fr_payload frame))) (\<lambda>(session_id, c).
     attempt (cursor_finish c) (\<lambda>_.
     if session_id = replicate 16 0 then Inl (InvalidPayload ''presence session id is nil'') else Inr session_id)))))"

definition opened_valid :: "presence_opened \<Rightarrow> bool" where
  "opened_valid o' \<longleftrightarrow> \<not> (po_connection_id o' = 0 \<or> po_server_time_ms o' = 0 \<or> po_broadcast_interval_ms o' = 0 \<or>
     po_max_players o' = 0 \<or> po_max_players o' > MAX_PLAYERS_PER_PRESENCE_DELTA)"

definition encode_presence_opened :: "presence_opened \<Rightarrow> protocol_error + u8 list" where
  "encode_presence_opened o' =
     (if \<not> opened_valid o' then Inl (InvalidPayload ''invalid PresenceOpened body'')
      else Inr (encode_frame KIND_PRESENCE_OPENED 0
        (u64_le (po_connection_id o') @ u64_le (po_server_time_ms o') @ u16_le (po_broadcast_interval_ms o') @
         u16_le (po_max_players o') @ u32_le 0)))"

definition decode_presence_opened :: "u8 list \<Rightarrow> protocol_error + presence_opened" where
  "decode_presence_opened bytes =
     attempt (decode_frame bytes) (\<lambda>frame.
     attempt (expect_zero_request_id frame) (\<lambda>_.
     attempt (expect_kind frame KIND_PRESENCE_OPENED) (\<lambda>_.
     attempt (cursor_u64 ProtocolTruncated (cursor_new (fr_payload frame))) (\<lambda>(connection_id, c).
     attempt (cursor_u64 ProtocolTruncated c) (\<lambda>(server_time_ms, c).
     attempt (cursor_u16 ProtocolTruncated c) (\<lambda>(broadcast_interval_ms, c).
     attempt (cursor_u16 ProtocolTruncated c) (\<lambda>(max_players, c).
     attempt (cursor_u32 ProtocolTruncated c) (\<lambda>(reserved, c).
     if reserved \<noteq> 0 then Inl (InvalidPayload ''reserved PresenceOpened field is nonzero'') else
     attempt (cursor_finish c) (\<lambda>_.
     let o' = \<lparr>po_connection_id = connection_id, po_server_time_ms = server_time_ms,
       po_broadcast_interval_ms = broadcast_interval_ms, po_max_players = max_players\<rparr> in
     if \<not> opened_valid o' then Inl (InvalidPayload ''invalid PresenceOpened body'') else Inr o')))))))))"

definition encode_presence_ping :: "presence_ping \<Rightarrow> protocol_error + u8 list" where
  "encode_presence_ping ping =
     (if pi_sequence ping = 0 \<or> pi_client_send_time_ms ping = 0 then Inl (InvalidPayload ''invalid presence ping'')
      else Inr (encode_frame KIND_PRESENCE_PING 0
        (u32_le (pi_sequence ping) @ u32_le (pi_observed_round_trip_ms ping) @ u64_le (pi_client_send_time_ms ping))))"

definition decode_presence_ping :: "u8 list \<Rightarrow> protocol_error + presence_ping" where
  "decode_presence_ping bytes =
     attempt (decode_frame bytes) (\<lambda>frame.
     attempt (expect_zero_request_id frame) (\<lambda>_.
     attempt (expect_kind frame KIND_PRESENCE_PING) (\<lambda>_.
     attempt (cursor_u32 ProtocolTruncated (cursor_new (fr_payload frame))) (\<lambda>(sequence, c).
     attempt (cursor_u32 ProtocolTruncated c) (\<lambda>(observed_round_trip_ms, c).
     attempt (cursor_u64 ProtocolTruncated c) (\<lambda>(client_send_time_ms, c).
     attempt (cursor_finish c) (\<lambda>_.
     if sequence = 0 \<or> client_send_time_ms = 0 then Inl (InvalidPayload ''invalid presence ping'')
     else Inr \<lparr>pi_sequence = sequence, pi_observed_round_trip_ms = observed_round_trip_ms,
       pi_client_send_time_ms = client_send_time_ms\<rparr>)))))))"

definition pong_valid :: "presence_pong \<Rightarrow> bool" where
  "pong_valid pong \<longleftrightarrow> \<not> (pn_sequence pong = 0 \<or> pn_outbound_rate_bytes_per_second pong = 0 \<or>
     pn_client_send_time_ms pong = 0 \<or> pn_server_receive_time_ms pong = 0 \<or>
     pn_server_send_time_ms pong < pn_server_receive_time_ms pong)"

definition encode_presence_pong :: "presence_pong \<Rightarrow> protocol_error + u8 list" where
  "encode_presence_pong pong =
     (if \<not> pong_valid pong then Inl (InvalidPayload ''invalid presence pong'')
      else Inr (encode_frame KIND_PRESENCE_PONG 0
        (u32_le (pn_sequence pong) @ u32_le (pn_outbound_rate_bytes_per_second pong) @
         u64_le (pn_client_send_time_ms pong) @ u64_le (pn_server_receive_time_ms pong) @
         u64_le (pn_server_send_time_ms pong))))"

definition decode_presence_pong :: "u8 list \<Rightarrow> protocol_error + presence_pong" where
  "decode_presence_pong bytes =
     attempt (decode_frame bytes) (\<lambda>frame.
     attempt (expect_zero_request_id frame) (\<lambda>_.
     attempt (expect_kind frame KIND_PRESENCE_PONG) (\<lambda>_.
     attempt (cursor_u32 ProtocolTruncated (cursor_new (fr_payload frame))) (\<lambda>(sequence, c).
     attempt (cursor_u32 ProtocolTruncated c) (\<lambda>(outbound_rate, c).
     attempt (cursor_u64 ProtocolTruncated c) (\<lambda>(client_send, c).
     attempt (cursor_u64 ProtocolTruncated c) (\<lambda>(server_receive, c).
     attempt (cursor_u64 ProtocolTruncated c) (\<lambda>(server_send, c).
     attempt (cursor_finish c) (\<lambda>_.
     let pong = \<lparr>pn_sequence = sequence, pn_outbound_rate_bytes_per_second = outbound_rate,
       pn_client_send_time_ms = client_send, pn_server_receive_time_ms = server_receive,
       pn_server_send_time_ms = server_send\<rparr> in
     if \<not> pong_valid pong then Inl (InvalidPayload ''invalid presence pong'') else Inr pong)))))))))"

section \<open>Fragments\<close>

record frame_fragment =
  ff_transfer_id :: u64
  ff_total_bytes :: nat
  ff_offset :: nat
  ff_bytes :: "u8 list"

record partial_frame =
  pf_total_bytes :: nat
  pf_bytes :: "u8 list"

type_synonym frame_reassembler = "(u64, partial_frame) btree"

definition MAX_ACTIVE_TRANSFERS :: nat where "MAX_ACTIVE_TRANSFERS = 32"

definition validate_frame_fragment_fields :: "u64 \<Rightarrow> nat \<Rightarrow> nat \<Rightarrow> nat \<Rightarrow> protocol_error + unit" where
  "validate_frame_fragment_fields transfer_id total_bytes offset fragment_bytes =
     (if transfer_id = 0 \<or> \<not> (FRAME_HEADER_BYTES \<le> total_bytes \<and> total_bytes \<le> MAX_PROTOCOL_FRAME_BYTES) \<or>
         fragment_bytes = 0 \<or> fragment_bytes > MAX_FRAME_FRAGMENT_DATA_BYTES \<or> offset \<ge> total_bytes \<or>
         offset + fragment_bytes > total_bytes
      then Inl (InvalidPayload ''invalid frame fragment'') else Inr ())"

definition encode_frame_fragment :: "u64 \<Rightarrow> nat \<Rightarrow> nat \<Rightarrow> u8 list \<Rightarrow> protocol_error + u8 list" where
  "encode_frame_fragment transfer_id total_bytes offset bytes =
     (if total_bytes > u32_max then Inl (ProtocolLimitExceeded ''fragmented frame'')
      else if offset > u32_max then Inl (ProtocolLimitExceeded ''fragment offset'')
      else attempt (validate_frame_fragment_fields transfer_id total_bytes offset (length bytes)) (\<lambda>_.
        Inr (encode_frame KIND_FRAME_FRAGMENT transfer_id (u32_le total_bytes @ u32_le offset @ bytes))))"

definition decode_frame_fragment :: "u8 list \<Rightarrow> protocol_error + frame_fragment" where
  "decode_frame_fragment bytes =
     attempt (decode_frame bytes) (\<lambda>frame.
     attempt (expect_kind frame KIND_FRAME_FRAGMENT) (\<lambda>_.
     attempt (cursor_u32 ProtocolTruncated (cursor_new (fr_payload frame))) (\<lambda>(total_bytes, c).
     attempt (cursor_u32 ProtocolTruncated c) (\<lambda>(offset, c).
     attempt (cursor_take ProtocolTruncated (remaining c) c) (\<lambda>(data, c).
     attempt (cursor_finish c) (\<lambda>_.
     attempt (validate_frame_fragment_fields (fr_request_id frame) total_bytes offset (length data)) (\<lambda>_.
       Inr \<lparr>ff_transfer_id = fr_request_id frame, ff_total_bytes = total_bytes, ff_offset = offset, ff_bytes = data\<rparr>)))))))"

definition encode_frame_fragment_abort :: "u64 \<Rightarrow> protocol_error + u8 list" where
  "encode_frame_fragment_abort transfer_id =
     (if transfer_id = 0 then Inl (InvalidPayload ''fragment abort transfer id is zero'')
      else Inr (encode_frame KIND_FRAME_FRAGMENT_ABORT transfer_id []))"

definition decode_frame_fragment_abort :: "u8 list \<Rightarrow> protocol_error + u64" where
  "decode_frame_fragment_abort bytes =
     attempt (decode_frame bytes) (\<lambda>frame.
     attempt (expect_kind frame KIND_FRAME_FRAGMENT_ABORT) (\<lambda>_.
     if fr_request_id frame = 0 \<or> fr_payload frame \<noteq> [] then Inl (InvalidPayload ''invalid frame fragment abort'')
     else Inr (fr_request_id frame)))"

definition reassembler_append ::
    "frame_fragment \<Rightarrow> frame_reassembler \<Rightarrow> (protocol_error + u8 list option) \<times> frame_reassembler" where
  "reassembler_append fragment transfers =
     (case btree_get transfers (ff_transfer_id fragment) of
        None \<Rightarrow> (Inl (InvalidPayload ''frame fragment has no start''), transfers)
      | Some partial \<Rightarrow>
          if pf_total_bytes partial \<noteq> ff_total_bytes fragment \<or> length (pf_bytes partial) \<noteq> ff_offset fragment
          then (Inl (InvalidPayload ''frame fragments are not contiguous''), transfers)
          else
            let bytes = pf_bytes partial @ ff_bytes fragment;
                extended = btree_update (ff_transfer_id fragment) (pf_bytes_update (\<lambda>_. bytes)) transfers in
            if length bytes < pf_total_bytes partial then (Inr None, extended)
            else
              let removed = btree_remove (ff_transfer_id fragment) extended in
              case decode_frame bytes of
                Inl error \<Rightarrow> (Inl error, removed)
              | Inr frame \<Rightarrow>
                  if fr_kind frame = KIND_FRAME_FRAGMENT
                  then (Inl (InvalidPayload ''fragmented frame identity mismatch''), removed)
                  else (Inr (Some bytes), removed))"

definition reassembler_accept ::
    "u8 list \<Rightarrow> frame_reassembler \<Rightarrow> (protocol_error + u8 list option) \<times> frame_reassembler" where
  "reassembler_accept bytes transfers =
     (case decode_frame_fragment bytes of
        Inl error \<Rightarrow> (Inl error, transfers)
      | Inr fragment \<Rightarrow>
          if ff_offset fragment = 0 then
            if btree_contains transfers (ff_transfer_id fragment)
            then (Inl (InvalidPayload ''duplicate frame fragment start''), transfers)
            else if length transfers \<ge> MAX_ACTIVE_TRANSFERS
            then (Inl (ProtocolLimitExceeded ''concurrent fragmented frames''), transfers)
            else reassembler_append fragment
                   (btree_insert (ff_transfer_id fragment)
                      \<lparr>pf_total_bytes = ff_total_bytes fragment, pf_bytes = []\<rparr> transfers)
          else reassembler_append fragment transfers)"

definition reassembler_clear :: "frame_reassembler \<Rightarrow> frame_reassembler" where
  "reassembler_clear transfers = []"

definition reassembler_abort :: "u64 \<Rightarrow> frame_reassembler \<Rightarrow> bool \<times> frame_reassembler" where
  "reassembler_abort transfer_id transfers =
     (btree_contains transfers transfer_id, btree_remove transfer_id transfers)"

section \<open>Frames round-trip\<close>

definition frame_ok :: "wire_frame \<Rightarrow> bool" where
  "frame_ok f \<longleftrightarrow> fr_kind f \<le> u16_max \<and> FRAME_HEADER_BYTES + length (fr_payload f) \<le> MAX_PROTOCOL_FRAME_BYTES"

definition frame_bytes :: "wire_frame \<Rightarrow> u8 list" where
  "frame_bytes f = encode_frame (fr_kind f) (fr_request_id f) (fr_payload f)"

lemma length_encode_frame [simp]: "length (encode_frame kind r payload) = 24 + length payload"
  by (simp add: encode_frame_def PROTOCOL_MAGIC_def ascii_def)

lemma encode_frame_reads:
  assumes "length payload \<le> u32_max" "b = encode_frame kind r payload"
  shows "take 4 b = PROTOCOL_MAGIC" and "slice b 4 6 = Some (u16_le PROTOCOL_VERSION)"
    and "slice b 6 8 = Some (u16_le kind)" and "slice b 8 10 = Some (u16_le FLAG_NONE)"
    and "slice b 10 12 = Some (u16_le RESERVED)" and "slice b 12 20 = Some (u64_le r)"
    and "slice b 20 24 = Some (u32_le (length payload))" and "drop 24 b = payload"
proof -
  have m: "length PROTOCOL_MAGIC = 4" by (simp add: PROTOCOL_MAGIC_def ascii_def)
  have l: "length payload mod 2 ^ 32 = length payload" using assms(1) by simp
  show "take 4 b = PROTOCOL_MAGIC" "slice b 4 6 = Some (u16_le PROTOCOL_VERSION)"
    "slice b 6 8 = Some (u16_le kind)" "slice b 8 10 = Some (u16_le FLAG_NONE)"
    "slice b 10 12 = Some (u16_le RESERVED)" "slice b 12 20 = Some (u64_le r)"
    "slice b 20 24 = Some (u32_le (length payload))" "drop 24 b = payload"
    unfolding assms(2) encode_frame_def l by (simp_all add: slice_append_skip slice_append_hit m)
qed

lemma decode_encode_frame:
  assumes "frame_ok f"
  shows "decode_frame (frame_bytes f) = Inr f"
proof -
  have len: "24 + length (fr_payload f) \<le> 16777216" "fr_kind f \<le> u16_max"
    using assms by (simp_all add: frame_ok_def frame_consts)
  then have small: "length (fr_payload f) \<le> u32_max" by simp
  note r = encode_frame_reads [OF small refl, of "fr_kind f" "fr_request_id f"]
  show ?thesis
    unfolding frame_bytes_def decode_frame_def frame_read_u16_def frame_read_u32_def frame_read_u64_def
    using r len by (simp add: frame_consts u16_roundtrip u32_roundtrip u64_roundtrip del: try_Inr)
qed

lemma frame_read_Inr:
  "frame_read_u16 b k = Inr v \<longleftrightarrow> k + 2 \<le> length b \<and> v = from_le (take 2 (drop k b))"
  "frame_read_u32 b k = Inr v \<longleftrightarrow> k + 4 \<le> length b \<and> v = from_le (take 4 (drop k b))"
  "frame_read_u64 b k = Inr w \<longleftrightarrow> k + 8 \<le> length b \<and> w = u64_from_le (take 8 (drop k b))"
  by (auto simp: frame_read_u16_def frame_read_u32_def frame_read_u64_def slice_def)

lemma if_Inl_Inr: "(if p then Inl e else x) = Inr y \<longleftrightarrow> \<not> p \<and> x = Inr y"
  by simp

lemma decode_frame_inv:
  assumes "decode_frame b = Inr f"
  shows "frame_ok f \<and> b = frame_bytes f"
proof -
  note guards = assms [unfolded decode_frame_def Let_def if_Inl_Inr try_Inr not_not not_less sum.inject
      FRAME_HEADER_BYTES_def MAX_PROTOCOL_FRAME_BYTES_def]
  obtain version flags reserved n kind request_id where
    reads: "frame_read_u16 b 4 = Inr version" "frame_read_u16 b 8 = Inr flags" "frame_read_u16 b 10 = Inr reserved"
      "frame_read_u32 b 20 = Inr n" "frame_read_u16 b 6 = Inr kind" "frame_read_u64 b 12 = Inr request_id"
    and g: "take 4 b = PROTOCOL_MAGIC" "version = PROTOCOL_VERSION" "flags = FLAG_NONE" "reserved = RESERVED"
      "24 + n \<le> 16 * 1024 * 1024" "length b = 24 + n"
    and f: "\<lparr>fr_kind = kind, fr_request_id = request_id, fr_payload = drop 24 b\<rparr> = f"
    using guards by blast
  note v = reads [unfolded frame_read_Inr]
  have l16: "from_le (take 2 (drop k b)) \<le> u16_max \<and> u16_le (from_le (take 2 (drop k b))) = take 2 (drop k b)"
    if "k + 2 \<le> 24" for k using that g(6) by (intro read_le(1)) simp
  have "length (take 4 (drop 20 b)) = 4" "length (take 8 (drop 12 b)) = 8" using g(6) by simp_all
  then have l32: "u32_le n = take 4 (drop 20 b)" and l64: "u64_le request_id = take 8 (drop 12 b)"
    using v(4,6) read_le(2) u64_le_from_le by blast+
  have ok: "frame_ok f" using l16 [of 6] g(5,6) v(5) by (simp add: f [symmetric] frame_ok_def frame_consts)
  have "b = take 4 b @ drop 4 b" by simp
  also have "drop 4 b = take 2 (drop 4 b) @ take 2 (drop 6 b) @ take 2 (drop 8 b) @ take 2 (drop 10 b) @ drop 12 b"
    using drop_split [of 4 b 2] drop_split [of 6 b 2] drop_split [of 8 b 2] drop_split [of 10 b 2] by simp
  also have "drop 12 b = take 8 (drop 12 b) @ take 4 (drop 20 b) @ drop 24 b"
    using drop_split [of 12 b 8] drop_split [of 20 b 4] by simp
  also have "take 2 (drop 4 b) = u16_le PROTOCOL_VERSION" using l16 [of 4] v(1) g(2) by simp
  also have "take 2 (drop 6 b) = u16_le (fr_kind f)" using l16 [of 6] v(5) by (simp add: f [symmetric])
  also have "take 2 (drop 8 b) = u16_le FLAG_NONE" using l16 [of 8] v(2) g(3) by simp
  also have "take 2 (drop 10 b) = u16_le RESERVED" using l16 [of 10] v(3) g(4) by simp
  also have "take 8 (drop 12 b) = u64_le (fr_request_id f)" by (simp add: f [symmetric] l64)
  also have "take 4 (drop 20 b) = u32_le (length (fr_payload f) mod 2 ^ 32)" using g(5,6) l32 by (simp add: f [symmetric])
  also have "drop 24 b = fr_payload f" by (simp add: f [symmetric])
  also note g(1)
  finally have "b = frame_bytes f" by (simp only: frame_bytes_def encode_frame_def append_assoc)
  with ok show ?thesis ..
qed

lemma decode_frame_iff: "decode_frame b = Inr f \<longleftrightarrow> frame_ok f \<and> b = frame_bytes f"
  using decode_frame_inv decode_encode_frame by blast

text \<open>
  cloning a message for another request. A valid frame with its request id replaced is the
  frame of the same kind and payload with the new id, so it decodes as such.
\<close>

theorem clone_message_retargets:
  assumes "decode_frame bytes = Inr f"
  shows "\<exists>cloned. clone_message_with_request_id bytes r = Inr cloned \<and>
    decode_frame cloned = Inr (f\<lparr>fr_request_id := r\<rparr>)"
proof -
  have ok: "frame_ok f" and b: "bytes = encode_frame (fr_kind f) (fr_request_id f) (fr_payload f)"
    using assms by (simp_all add: decode_frame_iff frame_bytes_def)
  have m: "length PROTOCOL_MAGIC = 4" by (simp add: PROTOCOL_MAGIC_def ascii_def)
  have "take 12 bytes @ u64_le r @ drop 20 bytes = frame_bytes (f\<lparr>fr_request_id := r\<rparr>)"
    unfolding b frame_bytes_def encode_frame_def by (simp add: m)
  moreover have "frame_ok (f\<lparr>fr_request_id := r\<rparr>)" using ok by (simp add: frame_ok_def)
  ultimately show ?thesis
    unfolding clone_message_with_request_id_def using assms by (simp add: decode_encode_frame)
qed

section \<open>Messages round-trip\<close>

text \<open>
  Each control message and the fragment are instances of the message contract: the facts
  \<open>cancel.dec_enc\<close>, \<open>pong.enc_dec\<close>, \<open>fragment.dec_iff\<close> and so on are what the receivers rely on.
\<close>

lemma decode_encode_frame_fields:
  "kind \<le> u16_max \<Longrightarrow> 24 + length payload \<le> 16777216 \<Longrightarrow>
   decode_frame (encode_frame kind r payload) = Inr \<lparr>fr_kind = kind, fr_request_id = r, fr_payload = payload\<rparr>"
  using decode_encode_frame [of "\<lparr>fr_kind = kind, fr_request_id = r, fr_payload = payload\<rparr>"]
  by (simp add: frame_ok_def frame_bytes_def frame_consts)

lemma cursor_finish_at [simp]:
  "cursor_finish (cursor_at pre bs) = (if bs = [] then Inr () else Inl (InvalidPayload ''trailing payload bytes''))"
  by (simp add: cursor_finish_def cursor_at_def)

lemma expect_Inr [simp]:
  "expect_kind f k = Inr u \<longleftrightarrow> fr_kind f = k" "expect_zero_request_id f = Inr u \<longleftrightarrow> fr_request_id f = 0"
  by (auto simp: expect_kind_def expect_zero_request_id_def)

lemmas message_read = decode_encode_frame_fields expect_kind_def expect_zero_request_id_def cursor_new_at cursor_read
  Let_def frame_consts

lemmas message_seen = decode_frame_iff frame_bytes_def cursor_new_at cursor_seen Let_def

interpretation cancel: message_codec encode_cancel decode_cancel "\<lambda>_. True"
proof
  show "decode_cancel b = Inr r" if "encode_cancel r = Inr b" for r b
    using that by (auto simp: encode_cancel_def decode_cancel_def message_read simp del: try_Inr split: if_splits)
  show "True \<and> encode_cancel r = Inr b" if "decode_cancel b = Inr r" for r b
    using that by (auto simp: encode_cancel_def decode_cancel_def message_seen split: if_splits)
qed

interpretation resync: message_codec encode_resync_required decode_resync_required "\<lambda>_. True"
proof
  show "decode_resync_required b = Inr r" if "encode_resync_required r = Inr b" for r b
    using that by (auto simp: encode_resync_required_def decode_resync_required_def message_read
        simp del: try_Inr split: if_splits)
  show "True \<and> encode_resync_required r = Inr b" if "decode_resync_required b = Inr r" for r b
    using that by (auto simp: encode_resync_required_def decode_resync_required_def message_seen split: if_splits)
qed

definition ids_ok :: "u8 list \<Rightarrow> bool" where "ids_ok i \<longleftrightarrow> length i = 16"

interpretation open_presence: message_codec encode_open_presence decode_open_presence ids_ok
proof
  show "decode_open_presence b = Inr i" if "ids_ok i" "encode_open_presence i = Inr b" for i b
    using that by (auto simp: encode_open_presence_def decode_open_presence_def message_read ids_ok_def
        simp del: try_Inr split: if_splits)
  show "ids_ok i \<and> encode_open_presence i = Inr b" if "decode_open_presence b = Inr i" for i b
    using that by (auto simp: encode_open_presence_def decode_open_presence_def message_seen ids_ok_def split: if_splits)
qed

definition opened_ok :: "presence_opened \<Rightarrow> bool" where
  "opened_ok o' \<longleftrightarrow> po_broadcast_interval_ms o' \<le> u16_max \<and> po_max_players o' \<le> u16_max"

interpretation opened: message_codec encode_presence_opened decode_presence_opened opened_ok
proof
  show "decode_presence_opened b = Inr m" if "opened_ok m" "encode_presence_opened m = Inr b" for m b
    using that by (cases m) (auto simp: encode_presence_opened_def decode_presence_opened_def message_read opened_ok_def
        simp del: try_Inr split: if_splits)
  show "opened_ok m \<and> encode_presence_opened m = Inr b" if "decode_presence_opened b = Inr m" for m b
    using that by (auto simp: encode_presence_opened_def decode_presence_opened_def message_seen opened_ok_def split: if_splits)
qed

definition ping_ok :: "presence_ping \<Rightarrow> bool" where
  "ping_ok m \<longleftrightarrow> pi_sequence m \<le> u32_max \<and> pi_observed_round_trip_ms m \<le> u32_max"

interpretation ping: message_codec encode_presence_ping decode_presence_ping ping_ok
proof
  show "decode_presence_ping b = Inr m" if "ping_ok m" "encode_presence_ping m = Inr b" for m b
    using that by (cases m) (auto simp: encode_presence_ping_def decode_presence_ping_def message_read ping_ok_def
        simp del: try_Inr split: if_splits)
  show "ping_ok m \<and> encode_presence_ping m = Inr b" if "decode_presence_ping b = Inr m" for m b
    using that by (auto simp: encode_presence_ping_def decode_presence_ping_def message_seen ping_ok_def split: if_splits)
qed

definition pong_ok :: "presence_pong \<Rightarrow> bool" where
  "pong_ok m \<longleftrightarrow> pn_sequence m \<le> u32_max \<and> pn_outbound_rate_bytes_per_second m \<le> u32_max"

interpretation pong: message_codec encode_presence_pong decode_presence_pong pong_ok
proof
  show "decode_presence_pong b = Inr m" if "pong_ok m" "encode_presence_pong m = Inr b" for m b
    using that by (cases m) (auto simp: encode_presence_pong_def decode_presence_pong_def message_read pong_ok_def
        simp del: try_Inr split: if_splits)
  show "pong_ok m \<and> encode_presence_pong m = Inr b" if "decode_presence_pong b = Inr m" for m b
    using that by (auto simp: encode_presence_pong_def decode_presence_pong_def message_seen pong_ok_def split: if_splits)
qed

interpretation fragment_abort: message_codec encode_frame_fragment_abort decode_frame_fragment_abort "\<lambda>_. True"
proof
  show "decode_frame_fragment_abort b = Inr r" if "encode_frame_fragment_abort r = Inr b" for r b
    using that by (auto simp: encode_frame_fragment_abort_def decode_frame_fragment_abort_def message_read
        simp del: try_Inr split: if_splits)
  show "True \<and> encode_frame_fragment_abort r = Inr b" if "decode_frame_fragment_abort b = Inr r" for r b
    using that by (auto simp: encode_frame_fragment_abort_def decode_frame_fragment_abort_def message_seen split: if_splits)
qed

abbreviation encode_fragment :: "frame_fragment \<Rightarrow> protocol_error + u8 list" where
  "encode_fragment f \<equiv> encode_frame_fragment (ff_transfer_id f) (ff_total_bytes f) (ff_offset f) (ff_bytes f)"

lemma validate_fragment_Inr:
  "validate_frame_fragment_fields t total_bytes offset n = Inr u \<longleftrightarrow> t \<noteq> 0 \<and> 24 \<le> total_bytes \<and>
     total_bytes \<le> 16777216 \<and> 0 < n \<and> n \<le> 16777184 \<and> offset + n \<le> total_bytes"
  by (auto simp: validate_frame_fragment_fields_def frame_consts)

interpretation fragment: message_codec encode_fragment decode_frame_fragment "\<lambda>_. True"
proof
  show "decode_frame_fragment b = Inr m" if "encode_fragment m = Inr b" for m b
  proof -
    have v: "validate_frame_fragment_fields (ff_transfer_id m) (ff_total_bytes m) (ff_offset m) (length (ff_bytes m)) = Inr ()"
      and u: "ff_total_bytes m \<le> u32_max" "ff_offset m \<le> u32_max"
      and b: "b = encode_frame KIND_FRAME_FRAGMENT (ff_transfer_id m)
        (u32_le (ff_total_bytes m) @ u32_le (ff_offset m) @ ff_bytes m)"
      using that by (auto simp: encode_frame_fragment_def split: if_splits)
    from v have "length (ff_bytes m) \<le> 16777184" unfolding validate_fragment_Inr by blast
    with u v show ?thesis
      unfolding b decode_frame_fragment_def by (simp add: message_read del: try_Inr)
  qed
  show "True \<and> encode_fragment m = Inr b" if dec: "decode_frame_fragment b = Inr m" for m b
  proof -
    obtain f total_bytes c offset c1 data c2 where f: "decode_frame b = Inr f" "fr_kind f = KIND_FRAME_FRAGMENT"
      and c: "cursor_u32 ProtocolTruncated (cursor_new (fr_payload f)) = Inr (total_bytes, c)"
        "cursor_u32 ProtocolTruncated c = Inr (offset, c1)"
        "cursor_take ProtocolTruncated (remaining c1) c1 = Inr (data, c2)" "cursor_finish c2 = Inr ()"
      and v: "validate_frame_fragment_fields (fr_request_id f) total_bytes offset (length data) = Inr ()"
      and m: "m = \<lparr>ff_transfer_id = fr_request_id f, ff_total_bytes = total_bytes, ff_offset = offset, ff_bytes = data\<rparr>"
      using dec unfolding decode_frame_fragment_def by auto
    from c have "total_bytes \<le> u32_max" "offset \<le> u32_max" "fr_payload f = u32_le total_bytes @ u32_le offset @ data"
      by (auto simp: cursor_new_at cursor_seen)
    with f v show ?thesis
      by (simp add: m encode_frame_fragment_def decode_frame_iff frame_bytes_def)
  qed
qed


end
