(* ===== verification/Frame_Reassembly.thy ===== *)
theory Frame_Reassembly
  imports Frame_Protocol
begin

text \<open>
  Correctness of the receiver's reassembly of fragmented frames (\<open>FrameReassembler\<close>,
  \<open>world/src/protocol.rs\<close>): its table stays bounded and holds only proper prefixes, transfers do
  not interfere, and a frame cut into contiguous fragments is delivered whole, exactly once and
  byte for byte, under any interleaving with other messages.
\<close>

section \<open>The table of transfers\<close>

definition partial_ok :: "partial_frame \<Rightarrow> bool" where
  "partial_ok p \<longleftrightarrow> pf_bytes p \<noteq> [] \<and> length (pf_bytes p) < pf_total_bytes p \<and>
     FRAME_HEADER_BYTES \<le> pf_total_bytes p \<and> pf_total_bytes p \<le> MAX_PROTOCOL_FRAME_BYTES"

definition reassembler_wf :: "frame_reassembler \<Rightarrow> bool" where
  "reassembler_wf r \<longleftrightarrow> btree_wf r \<and> length r \<le> MAX_ACTIVE_TRANSFERS \<and>
     (\<forall>t p. btree_get r t = Some p \<longrightarrow> t \<noteq> 0 \<and> partial_ok p)"

lemma fragment_fields:
  assumes "decode_frame_fragment b = Inr f"
  shows "ff_transfer_id f \<noteq> 0" "24 \<le> ff_total_bytes f" "ff_total_bytes f \<le> 16777216" "ff_bytes f \<noteq> []"
    "ff_offset f + length (ff_bytes f) \<le> ff_total_bytes f"
proof -
  have "encode_fragment f = Inr b" using assms fragment.enc_dec by blast
  then have "validate_frame_fragment_fields (ff_transfer_id f) (ff_total_bytes f) (ff_offset f) (length (ff_bytes f)) = Inr ()"
    by (auto simp: encode_frame_fragment_def split: if_splits)
  then show "ff_transfer_id f \<noteq> 0" "24 \<le> ff_total_bytes f" "ff_total_bytes f \<le> 16777216" "ff_bytes f \<noteq> []"
    "ff_offset f + length (ff_bytes f) \<le> ff_total_bytes f"
    unfolding validate_fragment_Inr by auto
qed

text \<open>What a fragment does to the entry of its own transfer, and that it leaves every other alone.\<close>

definition fragment_start :: "frame_fragment \<Rightarrow> partial_frame" where
  "fragment_start f = \<lparr>pf_total_bytes = ff_total_bytes f, pf_bytes = []\<rparr>"

lemma reassembler_append_other:
  "btree_wf r \<Longrightarrow> t \<noteq> ff_transfer_id f \<Longrightarrow> btree_get (snd (reassembler_append f r)) t = btree_get r t"
  by (auto simp: reassembler_append_def Let_def btree_get_remove btree_get_update split: option.splits sum.splits)

lemma reassembler_append_wf: "btree_wf r \<Longrightarrow> btree_wf (snd (reassembler_append f r))"
  by (auto simp: reassembler_append_def Let_def split: option.splits sum.splits)

lemma reassembler_append_length: "length (snd (reassembler_append f r)) \<le> length r"
  by (auto simp: reassembler_append_def Let_def btree_length_remove split: option.splits sum.splits)

lemma reassembler_append_none:
  "btree_get r (ff_transfer_id f) = None \<Longrightarrow> snd (reassembler_append f r) = r"
  by (simp add: reassembler_append_def)

lemma reassembler_append_own:
  assumes "btree_wf r" "btree_get r (ff_transfer_id f) = Some p"
  shows "btree_get (snd (reassembler_append f r)) (ff_transfer_id f) =
    (if pf_total_bytes p \<noteq> ff_total_bytes f \<or> length (pf_bytes p) \<noteq> ff_offset f then Some p
     else if length (pf_bytes p @ ff_bytes f) < pf_total_bytes p
     then Some (p\<lparr>pf_bytes := pf_bytes p @ ff_bytes f\<rparr>) else None)"
  using assms by (auto simp: reassembler_append_def Let_def btree_get_remove btree_get_update split: sum.splits)

lemma reassembler_accept_cases:
  obtains (invalid) e where "decode_frame_fragment b = Inl e" "reassembler_accept b r = (Inl e, r)"
  | (start) f where "decode_frame_fragment b = Inr f" "ff_offset f = 0" "btree_get r (ff_transfer_id f) = None"
      "length r < MAX_ACTIVE_TRANSFERS"
      "reassembler_accept b r = reassembler_append f (btree_insert (ff_transfer_id f) (fragment_start f) r)"
  | (refused) f e where "decode_frame_fragment b = Inr f" "ff_offset f = 0" "reassembler_accept b r = (Inl e, r)"
      "btree_get r (ff_transfer_id f) \<noteq> None \<or> length r \<ge> MAX_ACTIVE_TRANSFERS"
  | (later) f where "decode_frame_fragment b = Inr f" "ff_offset f \<noteq> 0" "reassembler_accept b r = reassembler_append f r"
proof (cases "decode_frame_fragment b")
  case (Inl e)
  then show thesis by (rule invalid) (simp add: reassembler_accept_def Inl)
next
  case (Inr f)
  note all = start [OF Inr] refused [OF Inr] later [OF Inr]
  show thesis
    using all by (cases "ff_offset f = 0"; cases "btree_get r (ff_transfer_id f) = None"; cases "length r < MAX_ACTIVE_TRANSFERS")
      (auto simp: reassembler_accept_def Inr btree_contains_def fragment_start_def)
qed

lemma reassembler_accept_btree_wf: "btree_wf r \<Longrightarrow> btree_wf (snd (reassembler_accept b r))"
  by (cases b r rule: reassembler_accept_cases) (auto intro: reassembler_append_wf)

lemma reassembler_accept_other:
  assumes "btree_wf r" "\<And>f. decode_frame_fragment b = Inr f \<Longrightarrow> ff_transfer_id f \<noteq> t"
  shows "btree_get (snd (reassembler_accept b r)) t = btree_get r t"
proof (cases b r rule: reassembler_accept_cases)
  case (start f)
  then show ?thesis using assms(2) [OF start(1)] assms(1)
    by (simp add: reassembler_append_other btree_get_insert)
next
  case (later f)
  then show ?thesis using assms(2) [OF later(1)] assms(1) by (simp add: reassembler_append_other)
qed simp_all

lemma reassembler_accept_wf:
  assumes wf: "reassembler_wf r"
  shows "reassembler_wf (snd (reassembler_accept b r))"
proof -
  have own: "partial_ok q" if f: "decode_frame_fragment b = Inr f" and r': "btree_wf r'" "btree_get r' (ff_transfer_id f) = Some p"
    and q: "btree_get (snd (reassembler_append f r')) (ff_transfer_id f) = Some q"
    and p: "partial_ok p \<or> p = fragment_start f \<and> ff_offset f = 0" for f r' p q
    using q p fragment_fields [OF f] unfolding reassembler_append_own [OF r']
    by (auto simp: partial_ok_def fragment_start_def frame_consts split: if_splits)
  have b: "btree_wf r" "length r \<le> 32" and e: "\<And>t p. btree_get r t = Some p \<Longrightarrow> t \<noteq> 0 \<and> partial_ok p"
    using wf by (auto simp: reassembler_wf_def MAX_ACTIVE_TRANSFERS_def)
  show ?thesis
  proof (cases b r rule: reassembler_accept_cases)
    case (start f)
    let ?r = "btree_insert (ff_transfer_id f) (fragment_start f) r"
    have "length ?r \<le> 32" using start(3,4) b by (simp add: btree_length_insert btree_contains_def MAX_ACTIVE_TRANSFERS_def)
    then have len: "length (snd (reassembler_append f ?r)) \<le> 32" using reassembler_append_length le_trans by blast
    have get: "btree_get ?r (ff_transfer_id f) = Some (fragment_start f)" by (simp add: btree_get_insert)
    have "t \<noteq> 0 \<and> partial_ok q" if q: "btree_get (snd (reassembler_append f ?r)) t = Some q" for t q
    proof (cases "t = ff_transfer_id f")
      case True
      then show ?thesis
        using own [OF start(1) _ get] q start(2) b(1) fragment_fields(1) [OF start(1)] by simp
    next
      case False
      then show ?thesis using e q b(1) by (simp add: reassembler_append_other btree_get_insert)
    qed
    then show ?thesis
      unfolding start(5) reassembler_wf_def using len b(1) by (simp add: reassembler_append_wf MAX_ACTIVE_TRANSFERS_def)
  next
    case (later f)
    have len: "length (snd (reassembler_append f r)) \<le> 32" using reassembler_append_length b(2) le_trans by blast
    have "t \<noteq> 0 \<and> partial_ok q" if q: "btree_get (snd (reassembler_append f r)) t = Some q" for t q
    proof (cases "t = ff_transfer_id f \<and> btree_get r t \<noteq> None")
      case True
      then obtain p where p: "btree_get r (ff_transfer_id f) = Some p" by auto
      then show ?thesis using own [OF later(1) b(1) p] q True e [OF p] by simp
    next
      case False
      then have "btree_get (snd (reassembler_append f r)) t = btree_get r t"
        using b(1) by (cases "t = ff_transfer_id f") (simp_all add: reassembler_append_other reassembler_append_none)
      then show ?thesis using e [of t q] q by simp
    qed
    then show ?thesis
      unfolding later(3) reassembler_wf_def using len b(1) by (simp add: reassembler_append_wf MAX_ACTIVE_TRANSFERS_def)
  qed (use wf in simp_all)
qed

inductive reassembler_step :: "frame_reassembler \<Rightarrow> frame_reassembler \<Rightarrow> bool" where
  accept: "reassembler_step r (snd (reassembler_accept b r))"
| abort: "reassembler_step r (snd (reassembler_abort t r))"
| clear: "reassembler_step r (reassembler_clear r)"

inductive_cases reassembler_stepE: "reassembler_step r r'"

lemma reassembler_step_wf: "reassembler_wf r \<Longrightarrow> reassembler_step r r' \<Longrightarrow> reassembler_wf r'"
proof (erule reassembler_stepE)
  assume wf: "reassembler_wf r"
  show "r' = snd (reassembler_accept b r) \<Longrightarrow> reassembler_wf r'" for b
    using reassembler_accept_wf [OF wf] by simp
  show "r' = snd (reassembler_abort t r) \<Longrightarrow> reassembler_wf r'" for t
    using wf by (auto simp: reassembler_abort_def reassembler_wf_def btree_get_remove btree_length_remove)
  show "r' = reassembler_clear r \<Longrightarrow> reassembler_wf r'"
    by (simp add: reassembler_clear_def reassembler_wf_def)
qed

interpretation reassembler: transition_invariant "\<lambda>r. r = []" reassembler_step reassembler_wf
proof
  show "reassembler_wf r" if "r = []" for r :: frame_reassembler using that by (simp add: reassembler_wf_def)
qed (rule reassembler_step_wf)

lemma btree_sum_bound: "(\<And>k v. btree_get m k = Some v \<Longrightarrow> f v \<le> n) \<Longrightarrow> btree_wf m \<Longrightarrow> btree_sum f m \<le> n * length m"
proof (induction m)
  case (Cons p m)
  obtain k v where p: "p = (k, v)" by fastforce
  have v: "f v \<le> n" using Cons.prems(1) [of k v] by (simp add: p)
  have "f v' \<le> n" if "btree_get m k' = Some v'" for k' v'
  proof (rule Cons.prems(1))
    have "(k', v') \<in> set m" using that Cons.prems(2) by (simp add: p btree_wf_Cons btree_get_iff)
    then show "btree_get (p # m) k' = Some v'" using that Cons.prems(2) by (force simp: p btree_wf_Cons)
  qed
  with Cons v show ?case by (simp add: p btree_wf_Cons)
qed simp

text \<open>
  Bounded reassembly. Whatever frames, aborts and resets a peer sends, the receiver tracks at
  most 32 transfers, each a nonempty proper prefix of a frame of at most 16 MiB, so it never
  buffers more than 32 such frames.
\<close>

theorem reassembler_bounded:
  assumes "reassembler_step\<^sup>*\<^sup>* [] r"
  shows "reassembler_wf r \<and> btree_sum (\<lambda>p. length (pf_bytes p)) r \<le> 32 * MAX_PROTOCOL_FRAME_BYTES"
proof -
  have wf: "reassembler_wf r" using reassembler.reachable_inv [OF refl assms] .
  have "btree_sum (\<lambda>p. length (pf_bytes p)) r \<le> MAX_PROTOCOL_FRAME_BYTES * length r"
  proof (rule btree_sum_bound)
    show "length (pf_bytes p) \<le> MAX_PROTOCOL_FRAME_BYTES" if "btree_get r t = Some p" for t p
      using wf that by (fastforce simp: reassembler_wf_def partial_ok_def)
  qed (use wf in \<open>simp add: reassembler_wf_def\<close>)
  also have "\<dots> \<le> MAX_PROTOCOL_FRAME_BYTES * 32"
    using wf by (simp add: reassembler_wf_def MAX_ACTIVE_TRANSFERS_def)
  finally show ?thesis using wf by (simp add: mult.commute)
qed

section \<open>Delivery\<close>

fun accept_all ::
    "u8 list list \<Rightarrow> frame_reassembler \<Rightarrow> (u8 list \<times> (protocol_error + u8 list option)) list \<times> frame_reassembler" where
  "accept_all [] r = ([], r)"
| "accept_all (m # ms) r =
     (let (result, r1) = reassembler_accept m r; (results, r2) = accept_all ms r1 in ((m, result) # results, r2))"

fun fragment_wires :: "u64 \<Rightarrow> nat \<Rightarrow> nat \<Rightarrow> u8 list list \<Rightarrow> protocol_error + u8 list list" where
  "fragment_wires t total_bytes offset [] = Inr []"
| "fragment_wires t total_bytes offset (chunk # chunks) =
     attempt (encode_frame_fragment t total_bytes offset chunk) (\<lambda>wire.
     attempt (fragment_wires t total_bytes (offset + length chunk) chunks) (\<lambda>wires. Inr (wire # wires)))"

definition transfer_of :: "u8 list \<Rightarrow> u64 option" where
  "transfer_of m = (case decode_frame_fragment m of Inl _ \<Rightarrow> None | Inr f \<Rightarrow> Some (ff_transfer_id f))"

lemma transfer_of_Some: "transfer_of m = Some t \<longleftrightarrow> (\<exists>f. decode_frame_fragment m = Inr f \<and> ff_transfer_id f = t)"
  by (auto simp: transfer_of_def split: sum.splits)

text \<open>The transfers a receiver holds after a message: at most one more, the message's own.\<close>

lemma reassembler_accept_ids:
  assumes "btree_wf r" "btree_get (snd (reassembler_accept m r)) t \<noteq> None"
  shows "btree_get r t \<noteq> None \<or> transfer_of m = Some t"
  using assms reassembler_accept_other [of r m t] by (fastforce simp: transfer_of_Some)

lemma reassembler_room:
  assumes "btree_wf r" "finite S" "card S < 32" "\<And>u. btree_get r u \<noteq> None \<Longrightarrow> u \<in> S"
  shows "length r < MAX_ACTIVE_TRANSFERS"
proof -
  have "length r = card (set (map fst r))" using btree_wf_distinct [OF assms(1)] distinct_card by fastforce
  also have "set (map fst r) \<subseteq> S"
  proof
    fix u assume "u \<in> set (map fst r)"
    then have "btree_get r u \<noteq> None" unfolding btree_get_None by simp
    then show "u \<in> S" by (rule assms(4))
  qed
  then have "card (set (map fst r)) \<le> card S" using assms(2) card_mono by blast
  finally show ?thesis using assms(3) by (simp add: MAX_ACTIVE_TRANSFERS_def)
qed

text \<open>One fragment of the transfer, the receiver holding what was sent before it.\<close>

definition transfer_state :: "u64 \<Rightarrow> nat \<Rightarrow> u8 list \<Rightarrow> frame_reassembler \<Rightarrow> bool" where
  "transfer_state t total_bytes received r \<longleftrightarrow>
     btree_get r t = (if received = [] then None else Some \<lparr>pf_total_bytes = total_bytes, pf_bytes = received\<rparr>)"

lemma accept_own_fragment:
  assumes wf: "btree_wf r" and st: "transfer_state t (length frame) received r"
    and enc: "encode_frame_fragment t (length frame) (length received) chunk = Inr m"
    and frame: "frame = received @ chunk @ rest" and room: "received = [] \<Longrightarrow> length r < MAX_ACTIVE_TRANSFERS"
    and final: "decode_frame frame = Inr f" "fr_kind f \<noteq> KIND_FRAME_FRAGMENT"
  shows "fst (reassembler_accept m r) = (if rest = [] then Inr (Some frame) else Inr None) \<and>
    (if rest = [] then btree_get (snd (reassembler_accept m r)) t = None
     else transfer_state t (length frame) (received @ chunk) (snd (reassembler_accept m r)))"
proof -
  define g where "g = \<lparr>ff_transfer_id = t, ff_total_bytes = length frame, ff_offset = length received, ff_bytes = chunk\<rparr>"
  have dec: "decode_frame_fragment m = Inr g" using enc by (simp add: fragment.dec_iff g_def)
  have chunk: "chunk \<noteq> []" using fragment_fields(4) [OF dec] by (simp add: g_def)
  define r1 where "r1 = (if received = [] then btree_insert t \<lparr>pf_total_bytes = length frame, pf_bytes = []\<rparr> r else r)"
  have acc: "reassembler_accept m r = reassembler_append g r1"
    using st room by (auto simp: reassembler_accept_def dec g_def r1_def transfer_state_def btree_contains_def)
  have get: "btree_get r1 t = Some \<lparr>pf_total_bytes = length frame, pf_bytes = received\<rparr>"
    using st by (simp add: r1_def transfer_state_def btree_get_insert)
  have wf1: "btree_wf r1" using wf by (simp add: r1_def)
  show ?thesis
  proof (cases "rest = []")
    case True
    then show ?thesis
      using final get wf1 frame
      by (simp add: acc reassembler_append_def g_def Let_def btree_get_remove)
  next
    case False
    then have "length (received @ chunk) < length frame" using frame by simp
    then show ?thesis
      using False get wf1 chunk
      by (simp add: acc reassembler_append_def g_def Let_def btree_get_update transfer_state_def)
  qed
qed

definition results_of :: "u64 \<Rightarrow> (u8 list \<times> 'b) list \<Rightarrow> 'b list" where
  "results_of t results = map snd (filter (\<lambda>(m, _). transfer_of m = Some t) results)"

lemma accept_all_delivers:
  assumes "btree_wf r" "finite S" "card S < 32" "t \<notin> S"
    and "\<forall>u. btree_get r u \<noteq> None \<longrightarrow> u = t \<or> u \<in> S"
    and "\<forall>m \<in> set ms. \<forall>u. transfer_of m = Some u \<longrightarrow> u = t \<or> u \<in> S"
    and "transfer_state t (length frame) received r"
    and "fragment_wires t (length frame) (length received) chunks = Inr (filter (\<lambda>m. transfer_of m = Some t) ms)"
    and "frame = received @ concat chunks" "chunks \<noteq> []"
    and final: "decode_frame frame = Inr f" "fr_kind f \<noteq> KIND_FRAME_FRAGMENT"
  shows "results_of t (fst (accept_all ms r)) = replicate (length chunks - 1) (Inr None) @ [Inr (Some frame)] \<and>
    btree_get (snd (accept_all ms r)) t = None"
  using assms(1-10)
proof (induction ms arbitrary: r received chunks)
  case Nil
  then show ?case by (cases chunks) auto
next
  case (Cons m ms)
  define r1 where "r1 = snd (reassembler_accept m r)"
  have split: "accept_all (m # ms) r =
      ((m, fst (reassembler_accept m r)) # fst (accept_all ms r1), snd (accept_all ms r1))"
    by (simp add: r1_def split_beta)
  have wf1: "btree_wf r1" using Cons.prems(1) by (simp add: r1_def reassembler_accept_btree_wf)
  have ids: "\<forall>u. btree_get r1 u \<noteq> None \<longrightarrow> u = t \<or> u \<in> S"
    using reassembler_accept_ids [OF Cons.prems(1), of m] Cons.prems(5,6) by (auto simp: r1_def)
  have ms: "\<forall>m \<in> set ms. \<forall>u. transfer_of m = Some u \<longrightarrow> u = t \<or> u \<in> S"
    using Cons.prems(6) by simp
  note IH = Cons.IH [OF wf1 Cons.prems(2-4) ids ms]
  show ?case
  proof (cases "transfer_of m = Some t")
    case False
    then have "btree_get r1 t = btree_get r t"
      unfolding r1_def using Cons.prems(1) by (intro reassembler_accept_other) (auto simp: transfer_of_Some)
    then have st: "transfer_state t (length frame) received r1" using Cons.prems(7) by (simp add: transfer_state_def)
    from IH [OF st, of chunks] Cons.prems(8-10) False show ?thesis
      unfolding split by (simp add: results_of_def)
  next
    case True
    obtain chunk rest where chunks: "chunks = chunk # rest" using Cons.prems(10) by (cases chunks) auto
    have enc: "encode_frame_fragment t (length frame) (length received) chunk = Inr m"
      and wires: "fragment_wires t (length frame) (length (received @ chunk)) rest =
        Inr (filter (\<lambda>m. transfer_of m = Some t) ms)"
      using Cons.prems(8) True by (auto simp: chunks)
    have frame: "frame = received @ chunk @ concat rest" using Cons.prems(9) by (simp add: chunks)
    have room: "length r < MAX_ACTIVE_TRANSFERS" if "received = []"
    proof (rule reassembler_room [OF Cons.prems(1-3)])
      have "btree_get r t = None" using Cons.prems(7) that by (simp add: transfer_state_def)
      then show "u \<in> S" if "btree_get r u \<noteq> None" for u using Cons.prems(5) that by metis
    qed
    note own = accept_own_fragment [OF Cons.prems(1,7) enc frame room final, folded r1_def]
    show ?thesis
    proof (cases "rest = []")
      case True
      then have e: "filter (\<lambda>m. transfer_of m = Some t) ms = []" using wires by simp
      have none: "btree_get r1 t = None" using own True by simp
      have "results_of t (fst (accept_all ms q)) = [] \<and> btree_get (snd (accept_all ms q)) t = btree_get q t"
        if "btree_wf q" "filter (\<lambda>m. transfer_of m = Some t) ms = []" for q
        using that
      proof (induction ms arbitrary: q)
        case (Cons a as)
        then have "btree_get (snd (reassembler_accept a q)) t = btree_get q t"
          by (intro reassembler_accept_other) (auto simp: transfer_of_Some split: if_splits)
        with Cons show ?case
          by (simp add: split_beta results_of_def reassembler_accept_btree_wf split: if_splits)
      qed (simp add: results_of_def)
      from this [OF wf1 e] own True none show ?thesis
        unfolding split by (simp add: results_of_def chunks \<open>transfer_of m = Some t\<close>)
    next
      case False
      have "concat rest \<noteq> []"
      proof -
        obtain c cs where "rest = c # cs" using False by (cases rest) auto
        then obtain w where w: "encode_frame_fragment t (length frame) (length (received @ chunk)) c = Inr w"
          using wires by auto
        then have "decode_frame_fragment w = Inr \<lparr>ff_transfer_id = t, ff_total_bytes = length frame,
            ff_offset = length (received @ chunk), ff_bytes = c\<rparr>"
          by (simp add: fragment.dec_iff)
        from fragment_fields(4) [OF this] show ?thesis by (simp add: \<open>rest = c # cs\<close>)
      qed
      then have st: "transfer_state t (length frame) (received @ chunk) r1"
        and res: "fst (reassembler_accept m r) = Inr None" using own by auto
      from IH [OF st wires _ False] frame res show ?thesis
        unfolding split using False by (cases rest) (simp_all add: results_of_def chunks True)
    qed
  qed
qed

text \<open>
  C32: fragmented frames are delivered whole. A sender cuts a valid frame into contiguous fragments
  of a fresh transfer; the receiver reads them in order, interleaved with any other messages, valid
  or not, as long as the other transfers, open at the start or named by a message, are at most 31.
  Each fragment but the last yields nothing, the last yields
  exactly the frame, and the transfer is forgotten.
\<close>

theorem fragments_deliver_frame:
  assumes "reassembler_wf r" "btree_get r t = None"
    and "decode_frame frame = Inr f" "fr_kind f \<noteq> KIND_FRAME_FRAGMENT" "concat chunks = frame"
    and "fragment_wires t (length frame) 0 chunks = Inr (filter (\<lambda>m. transfer_of m = Some t) ms)"
    and "card ({u. btree_get r u \<noteq> None} \<union> {u. \<exists>m \<in> set ms. transfer_of m = Some u} - {t}) < 32"
  shows "results_of t (fst (accept_all ms r)) = replicate (length chunks - 1) (Inr None) @ [Inr (Some frame)] \<and>
    btree_get (snd (accept_all ms r)) t = None"
proof (rule accept_all_delivers)
  let ?S = "{u. btree_get r u \<noteq> None} \<union> {u. \<exists>m \<in> set ms. transfer_of m = Some u} - {t}"
  have "{u. \<exists>m \<in> set ms. transfer_of m = Some u} = (\<lambda>m. the (transfer_of m)) ` {m \<in> set ms. transfer_of m \<noteq> None}"
    by force
  moreover have "{u. btree_get r u \<noteq> None} = fst ` set r" by (auto simp: btree_get_None)
  ultimately show "finite ?S" by simp
  show "fragment_wires t (length frame) (length []) chunks = Inr (filter (\<lambda>m. transfer_of m = Some t) ms)"
    using assms(6) by simp
  show "transfer_state t (length frame) [] r" using assms(2) by (simp add: transfer_state_def)
  show "chunks \<noteq> []" using assms(3,5) by (auto simp: decode_frame_def FRAME_HEADER_BYTES_def)
qed (use assms in \<open>auto simp: reassembler_wf_def\<close>)

section \<open>Witnesses\<close>

definition sample_frame :: "u8 list" where
  "sample_frame = encode_frame KIND_CANCEL 5 []"

lemma sample_frame: "decode_frame sample_frame = Inr \<lparr>fr_kind = KIND_CANCEL, fr_request_id = 5, fr_payload = []\<rparr>"
  "length sample_frame = 24"
proof -
  have "KIND_CANCEL \<le> u16_max" by (simp add: frame_consts)
  then show "decode_frame sample_frame = Inr \<lparr>fr_kind = KIND_CANCEL, fr_request_id = 5, fr_payload = []\<rparr>"
    unfolding sample_frame_def by (rule decode_encode_frame_fields) simp
qed (simp add: sample_frame_def encode_frame_def PROTOCOL_MAGIC_def ascii_def)

lemma sample_fragments:
  obtains w1 w2 where "encode_frame_fragment 9 24 0 (take 10 sample_frame) = Inr w1"
    "encode_frame_fragment 9 24 10 (drop 10 sample_frame) = Inr w2"
proof -
  have "validate_frame_fragment_fields 9 24 0 10 = Inr ()" "validate_frame_fragment_fields 9 24 10 14 = Inr ()"
    by (simp_all add: validate_fragment_Inr)
  then show thesis using that sample_frame(2) by (simp add: encode_frame_fragment_def)
qed

theorem reassembler_bounded_witness:
  "\<exists>w. encode_frame_fragment 9 24 0 (take 10 sample_frame) = Inr w \<and>
     reassembler_wf (snd (reassembler_accept w [])) \<and>
     btree_sum (\<lambda>p. length (pf_bytes p)) (snd (reassembler_accept w [])) \<le> 32 * MAX_PROTOCOL_FRAME_BYTES"
proof -
  obtain w w2 where w: "encode_frame_fragment 9 24 0 (take 10 sample_frame) = Inr w"
    "encode_frame_fragment 9 24 10 (drop 10 sample_frame) = Inr w2" by (rule sample_fragments)
  have "reassembler_step\<^sup>*\<^sup>* [] (snd (reassembler_accept w []))"
    using reassembler_step.accept by blast
  from reassembler_bounded [OF this] w(1) show ?thesis by blast
qed

theorem fragments_deliver_frame_witness:
  "\<exists>w1 w2. fragment_wires 9 24 0 [take 10 sample_frame, drop 10 sample_frame] = Inr [w1, w2] \<and>
     results_of 9 (fst (accept_all [w1, [], w2] [])) = [Inr None, Inr (Some sample_frame)]"
proof -
  obtain w1 w2 where w: "encode_frame_fragment 9 24 0 (take 10 sample_frame) = Inr w1"
    "encode_frame_fragment 9 24 10 (drop 10 sample_frame) = Inr w2" by (rule sample_fragments)
  have wires: "fragment_wires 9 24 0 [take 10 sample_frame, drop 10 sample_frame] = Inr [w1, w2]"
    using w by (simp add: sample_frame(2))
  have t: "transfer_of w1 = Some 9" "transfer_of w2 = Some 9" "transfer_of [] = None"
    using w by (simp_all add: transfer_of_def fragment.dec_iff [of _ "\<lparr>ff_transfer_id = 9, ff_total_bytes = 24, ff_offset = 0, ff_bytes = take 10 sample_frame\<rparr>", simplified, THEN iffD2]
        fragment.dec_iff [of _ "\<lparr>ff_transfer_id = 9, ff_total_bytes = 24, ff_offset = 10, ff_bytes = drop 10 sample_frame\<rparr>", simplified, THEN iffD2]
        decode_frame_fragment_def [of "[]"] decode_frame_def FRAME_HEADER_BYTES_def)
  have none: "{u. btree_get ([] :: frame_reassembler) u \<noteq> None} \<union>
      {u. \<exists>m \<in> set [w1, [], w2]. transfer_of m = Some u} - {9} = {}" using t by auto
  have "results_of 9 (fst (accept_all [w1, [], w2] [])) =
      replicate (length [take 10 sample_frame, drop 10 sample_frame] - 1) (Inr None) @ [Inr (Some sample_frame)]"
    using fragments_deliver_frame [of "[]" 9, OF _ _ sample_frame(1), of "[take 10 sample_frame, drop 10 sample_frame]" "[w1, [], w2]",
        unfolded none] wires t
    by (simp add: sample_frame(2) frame_consts reassembler_wf_def)
  then show ?thesis using wires by auto
qed

end
