(* ===== verification/Session_Requests.thy ===== *)
theory Session_Requests
  imports Ordered_Map
begin

text \<open>
  Admission of a world session's requests (\<open>SessionRequests\<close>, \<open>world-service/src/server.rs\<close>): the
  negotiated window of active requests, cancellation that frees the window at once while the
  cancelled task settles, and closing. A cancellation signal is an \<open>Arc\<close> whose identity the code
  compares, so signals are modelled by reference: a store from signal numbers to their flags. Each
  operation runs under the session's lock and is one atomic step; the second \<open>closed\<close> check of
  \<open>insert\<close> is the one under the lock. \<open>cancel_all\<close> stores \<open>closed\<close> before it takes the lock; the last
  section shows that what other tasks do in between could as well have happened before both.
\<close>

record session_requests =
  sr_max_in_flight :: nat
  sr_closed :: bool
  sr_in_flight :: "(u64, nat) btree"
  sr_signals :: "(nat, bool) btree"
  sr_next_signal :: nat
  sr_wakeups :: nat

datatype admission_error = SessionClosed | DuplicateRequest | SettlingBacklogFull | WindowFull

definition MAX_SETTLING_WINDOWS :: nat where "MAX_SETTLING_WINDOWS = 8"

definition session_new :: "nat \<Rightarrow> session_requests" where
  "session_new max_in_flight = \<lparr>sr_max_in_flight = max_in_flight, sr_closed = False, sr_in_flight = [],
     sr_signals = [], sr_next_signal = 0, sr_wakeups = 0\<rparr>"

definition signal_is_cancelled :: "session_requests \<Rightarrow> nat \<Rightarrow> bool" where
  "signal_is_cancelled s signal \<longleftrightarrow> btree_get (sr_signals s) signal = Some True"

definition signal_cancel :: "nat \<Rightarrow> session_requests \<Rightarrow> bool \<times> session_requests" where
  "signal_cancel signal s =
     (\<not> signal_is_cancelled s signal, s\<lparr>sr_signals := btree_insert signal True (sr_signals s)\<rparr>)"

definition active_requests :: "session_requests \<Rightarrow> nat" where
  "active_requests s = length (filter (\<lambda>signal. \<not> signal_is_cancelled s signal) (btree_values (sr_in_flight s)))"

definition session_insert :: "u64 \<Rightarrow> session_requests \<Rightarrow> (admission_error + nat) \<times> session_requests" where
  "session_insert request_id s =
     (if sr_closed s then (Inl SessionClosed, s)
      else if btree_contains (sr_in_flight s) request_id then (Inl DuplicateRequest, s)
      else if length (sr_in_flight s) \<ge> sr_max_in_flight s * MAX_SETTLING_WINDOWS then (Inl SettlingBacklogFull, s)
      else if active_requests s \<ge> sr_max_in_flight s then (Inl WindowFull, s)
      else let signal = sr_next_signal s in
        (Inr signal, s\<lparr>sr_in_flight := btree_insert request_id signal (sr_in_flight s),
           sr_signals := btree_insert signal False (sr_signals s), sr_next_signal := Suc signal\<rparr>))"

definition session_cancel :: "u64 \<Rightarrow> session_requests \<Rightarrow> bool \<times> session_requests" where
  "session_cancel request_id s =
     (case btree_get (sr_in_flight s) request_id of
        None \<Rightarrow> (False, s)
      | Some signal \<Rightarrow>
          let (changed, s') = signal_cancel signal s
          in (True, if changed then s'\<lparr>sr_wakeups := Suc (sr_wakeups s')\<rparr> else s'))"

definition session_finish :: "u64 \<Rightarrow> nat \<Rightarrow> session_requests \<Rightarrow> session_requests" where
  "session_finish request_id signal s =
     (if btree_get (sr_in_flight s) request_id = Some signal
      then s\<lparr>sr_in_flight := btree_remove request_id (sr_in_flight s)\<rparr> else s)"

definition session_close :: "session_requests \<Rightarrow> session_requests" where
  "session_close s = s\<lparr>sr_closed := True\<rparr>"

definition session_sweep :: "session_requests \<Rightarrow> session_requests" where
  "session_sweep s =
     (let (changed, s') = fold (\<lambda>signal (changed, t). let (c, t') = signal_cancel signal t in (changed \<or> c, t'))
            (btree_values (sr_in_flight s)) (False, s)
      in if changed then s'\<lparr>sr_wakeups := Suc (sr_wakeups s')\<rparr> else s')"

definition session_cancel_all :: "session_requests \<Rightarrow> session_requests" where
  "session_cancel_all s = session_sweep (session_close s)"

section \<open>Invariant\<close>

definition session_wf :: "session_requests \<Rightarrow> bool" where
  "session_wf s \<longleftrightarrow>
     btree_wf (sr_in_flight s) \<and> btree_wf (sr_signals s) \<and> distinct (btree_values (sr_in_flight s)) \<and>
     (\<forall>r signal. btree_get (sr_in_flight s) r = Some signal \<longrightarrow> btree_get (sr_signals s) signal \<noteq> None) \<and>
     (\<forall>signal. btree_get (sr_signals s) signal \<noteq> None \<longrightarrow> signal < sr_next_signal s) \<and>
     length (sr_in_flight s) \<le> sr_max_in_flight s * MAX_SETTLING_WINDOWS \<and>
     active_requests s \<le> sr_max_in_flight s \<and> (sr_closed s \<longrightarrow> active_requests s = 0)"

lemma signal_cancel_simps [simp]:
  "sr_in_flight (snd (signal_cancel g s)) = sr_in_flight s" "sr_closed (snd (signal_cancel g s)) = sr_closed s"
  "sr_max_in_flight (snd (signal_cancel g s)) = sr_max_in_flight s"
  "sr_next_signal (snd (signal_cancel g s)) = sr_next_signal s"
  "sr_signals (snd (signal_cancel g s)) = btree_insert g True (sr_signals s)"
  by (simp_all add: signal_cancel_def)

lemma signal_cancel_cancelled:
  "signal_is_cancelled (snd (signal_cancel g s)) h \<longleftrightarrow> h = g \<or> signal_is_cancelled s h"
  by (simp add: signal_is_cancelled_def btree_get_insert)

lemma length_filter_antimono: "(\<And>x. x \<in> set xs \<Longrightarrow> P x \<Longrightarrow> Q x) \<Longrightarrow> length (filter P xs) \<le> length (filter Q xs)"
  by (induction xs) force+

lemma active_requests_antimono:
  "sr_in_flight t = sr_in_flight s \<Longrightarrow> (\<And>g. signal_is_cancelled s g \<Longrightarrow> signal_is_cancelled t g) \<Longrightarrow>
   active_requests t \<le> active_requests s"
  unfolding active_requests_def by (auto intro: length_filter_antimono)

lemma values_insert_new:
  "btree_wf m \<Longrightarrow> btree_get m k = None \<Longrightarrow> mset (btree_values (btree_insert k v m)) = add_mset v (mset (btree_values m))"
  by (induction k v m rule: btree_insert.induct) (auto simp: btree_values_def btree_wf_Cons)

lemma values_remove:
  "btree_get m k = Some v \<Longrightarrow> mset (btree_values m) = add_mset v (mset (btree_values (btree_remove k m)))"
  by (induction k m rule: btree_remove.induct) (auto simp: btree_values_def split: if_splits)

lemma mset_length_filter: "mset xs = mset ys \<Longrightarrow> length (filter P xs) = length (filter P ys)"
  by (metis mset_filter size_mset)

text \<open>Settled cancellations only cancel: the shape shared by \<open>cancel\<close> and \<open>cancel_all\<close>.\<close>

definition cancels :: "nat set \<Rightarrow> session_requests \<Rightarrow> session_requests \<Rightarrow> bool" where
  "cancels G s t \<longleftrightarrow> sr_in_flight t = sr_in_flight s \<and> sr_max_in_flight t = sr_max_in_flight s \<and>
     sr_next_signal t = sr_next_signal s \<and> (btree_wf (sr_signals s) \<longrightarrow> btree_wf (sr_signals t)) \<and>
     (\<forall>g. btree_get (sr_signals t) g = (if g \<in> G then Some True else btree_get (sr_signals s) g))"

lemma cancels_signal: "cancels {g} s (snd (signal_cancel g s))"
  by (simp add: cancels_def btree_get_insert)

lemma cancels_trans: "cancels G s t \<Longrightarrow> cancels H t u \<Longrightarrow> cancels (G \<union> H) s u"
  by (auto simp: cancels_def)

lemma cancels_fold:
  "cancels (set gs) s (snd (fold (\<lambda>g (changed, t). let (c, t') = signal_cancel g t in (changed \<or> c, t')) gs (b, s)))"
proof (induction gs arbitrary: b s)
  case Nil
  then show ?case by (simp add: cancels_def)
next
  case (Cons g gs)
  let ?t = "snd (signal_cancel g s)"
  have "cancels ({g} \<union> set gs) s (snd (fold (\<lambda>g (changed, t). let (c, t') = signal_cancel g t in (changed \<or> c, t')) gs
      (b \<or> fst (signal_cancel g s), ?t)))"
    by (rule cancels_trans [OF cancels_signal Cons])
  then show ?case by (simp add: case_prod_unfold Let_def)
qed

lemma cancels_wf:
  assumes "session_wf s" "cancels G s t" "\<forall>g \<in> G. btree_get (sr_signals s) g \<noteq> None"
    "sr_closed t \<longrightarrow> sr_closed s \<or> active_requests t = 0"
  shows "session_wf t"
proof -
  have "active_requests t \<le> active_requests s"
    using assms(2) by (intro active_requests_antimono) (auto simp: cancels_def signal_is_cancelled_def)
  then show ?thesis
    using assms unfolding session_wf_def cancels_def by auto
qed

lemma session_wakeups [simp]:
  "session_wf (s\<lparr>sr_wakeups := n\<rparr>) = session_wf s" "active_requests (s\<lparr>sr_wakeups := n\<rparr>) = active_requests s"
  by (simp_all add: session_wf_def active_requests_def signal_is_cancelled_def)

lemma session_new_wf: "session_wf (session_new n)"
  by (simp add: session_wf_def session_new_def active_requests_def btree_values_def)

lemma session_insert_ok:
  assumes wf: "session_wf s" and ins: "session_insert r s = (Inr g, t)"
  shows "session_wf t \<and> \<not> sr_closed s \<and> btree_get (sr_in_flight s) r = None \<and>
    active_requests s < sr_max_in_flight s \<and> active_requests t = Suc (active_requests s) \<and>
    btree_get (sr_in_flight t) r = Some g \<and> \<not> signal_is_cancelled t g \<and> btree_get (sr_signals s) g = None"
proof -
  have t: "t = s\<lparr>sr_in_flight := btree_insert r g (sr_in_flight s), sr_signals := btree_insert g False (sr_signals s),
      sr_next_signal := Suc g\<rparr>" and g: "g = sr_next_signal s"
    and r: "btree_get (sr_in_flight s) r = None" and open': "\<not> sr_closed s"
    and room: "length (sr_in_flight s) < sr_max_in_flight s * MAX_SETTLING_WINDOWS" "active_requests s < sr_max_in_flight s"
    using ins by (auto simp: session_insert_def btree_contains_def Let_def split: if_splits)
  have b: "btree_wf (sr_in_flight s)" "btree_wf (sr_signals s)" "distinct (btree_values (sr_in_flight s))"
    and sig: "\<And>q h. btree_get (sr_in_flight s) q = Some h \<Longrightarrow> btree_get (sr_signals s) h \<noteq> None"
    and less: "\<And>h. btree_get (sr_signals s) h \<noteq> None \<Longrightarrow> h < sr_next_signal s"
    using wf unfolding session_wf_def by blast+
  have fresh: "btree_get (sr_signals s) g = None" using less g by blast
  have new: "g \<notin> set (btree_values (sr_in_flight s))" unfolding btree_values_set [OF b(1)] using sig fresh by blast
  note v = values_insert_new [OF b(1) r, of g]
  have canc: "signal_is_cancelled t h \<longleftrightarrow> h \<noteq> g \<and> signal_is_cancelled s h" for h
    by (simp add: t signal_is_cancelled_def btree_get_insert)
  have "active_requests t = length (filter (\<lambda>h. \<not> signal_is_cancelled t h) (g # btree_values (sr_in_flight s)))"
    unfolding active_requests_def by (rule mset_length_filter) (simp add: t v)
  also have "\<dots> = Suc (active_requests s)"
    unfolding active_requests_def using new by (simp add: canc) (metis (mono_tags, lifting) canc filter_cong)
  finally have act: "active_requests t = Suc (active_requests s)" .
  have "distinct (btree_values (sr_in_flight t))"
    using new b(3) v mset_eq_imp_distinct_iff [of "btree_values (sr_in_flight t)" "g # btree_values (sr_in_flight s)"]
    by (simp add: t)
  moreover have "length (sr_in_flight t) \<le> sr_max_in_flight t * MAX_SETTLING_WINDOWS"
    using room b(1) r by (simp add: t btree_length_insert btree_contains_def)
  moreover have "h < Suc g" if "btree_get (btree_insert g False (sr_signals s)) h \<noteq> None" for h
    using that less g by (fastforce simp: btree_get_insert split: if_splits)
  moreover have "btree_get (btree_insert g False (sr_signals s)) h \<noteq> None"
    if "btree_get (btree_insert r g (sr_in_flight s)) q = Some h" for q h
    using that sig by (auto simp: btree_get_insert split: if_splits)
  ultimately have "session_wf t"
    using b act room(2) open' by (simp add: session_wf_def t)
  with act open' r room fresh show ?thesis by (simp add: t canc [unfolded t] btree_get_insert)
qed

lemma session_insert_refused: "session_insert r s = (Inl e, t) \<Longrightarrow> t = s"
  unfolding session_insert_def Let_def by (simp split: if_split_asm)

lemma session_finish_wf: "session_wf s \<Longrightarrow> session_wf (session_finish r g s)"
proof (cases "btree_get (sr_in_flight s) r = Some g")
  case True
  assume wf: "session_wf s"
  then have b: "btree_wf (sr_in_flight s)" by (simp add: session_wf_def)
  let ?t = "s\<lparr>sr_in_flight := btree_remove r (sr_in_flight s)\<rparr>"
  note v = values_remove [OF True]
  have "active_requests s = length (filter (\<lambda>h. \<not> signal_is_cancelled s h) (g # btree_values (sr_in_flight ?t)))"
    unfolding active_requests_def by (rule mset_length_filter) (simp add: v)
  then have "active_requests ?t \<le> active_requests s"
    by (simp add: active_requests_def signal_is_cancelled_def)
  moreover have "distinct (btree_values (sr_in_flight ?t))"
    using wf v mset_eq_imp_distinct_iff [of "btree_values (sr_in_flight s)" "g # btree_values (sr_in_flight ?t)"]
    by (simp add: session_wf_def)
  moreover have "length (sr_in_flight ?t) \<le> length (sr_in_flight s)" by (simp add: btree_length_remove)
  ultimately show ?thesis
    using wf b True unfolding session_finish_def session_wf_def by (auto simp: btree_get_remove split: if_splits)
qed (simp add: session_finish_def)

lemma session_cancel_cancels:
  assumes "btree_get (sr_in_flight s) r = Some g"
  shows "\<exists>n. cancels {g} s ((snd (session_cancel r s))\<lparr>sr_wakeups := n\<rparr>) \<and> fst (session_cancel r s)"
  using cancels_signal [of g s] assms by (auto simp: session_cancel_def cancels_def split_beta Let_def)

lemma session_cancel_wf: "session_wf s \<Longrightarrow> session_wf (snd (session_cancel r s))"
proof (cases "btree_get (sr_in_flight s) r")
  case (Some g)
  assume wf: "session_wf s"
  obtain n where "cancels {g} s ((snd (session_cancel r s))\<lparr>sr_wakeups := n\<rparr>)" using session_cancel_cancels [OF Some] by blast
  moreover have "btree_get (sr_signals s) g \<noteq> None" using wf Some unfolding session_wf_def by blast
  moreover have "sr_closed (snd (session_cancel r s)) = sr_closed s"
    by (simp add: session_cancel_def Some split_beta)
  ultimately have "session_wf ((snd (session_cancel r s))\<lparr>sr_wakeups := n\<rparr>)" by (intro cancels_wf [OF wf]) auto
  then show ?thesis by simp
qed (simp add: session_cancel_def)

lemma session_cancel_all_wf:
  assumes wf: "session_wf s"
  shows "session_wf (session_cancel_all s) \<and> active_requests (session_cancel_all s) = 0 \<and> sr_closed (session_cancel_all s)"
proof -
  let ?gs = "btree_values (sr_in_flight s)"
  let ?c = "s\<lparr>sr_closed := True\<rparr>"
  define t where "t = snd (fold (\<lambda>g (changed, t). let (c, t') = signal_cancel g t in (changed \<or> c, t')) ?gs (False, ?c))"
  have c: "cancels (set ?gs) ?c t" unfolding t_def by (rule cancels_fold)
  have all: "signal_is_cancelled t g" if "g \<in> set ?gs" for g
    using c that by (simp add: cancels_def signal_is_cancelled_def)
  have act: "active_requests t = 0"
    using c all by (simp add: active_requests_def cancels_def)
  have b: "btree_wf (sr_in_flight s)" using wf by (simp add: session_wf_def)
  have "cancels (set ?gs) s t" using c by (simp add: cancels_def)
  moreover have "\<forall>g \<in> set ?gs. btree_get (sr_signals s) g \<noteq> None"
    using wf b unfolding session_wf_def by (auto simp: btree_values_set)
  ultimately have t: "session_wf t" using act by (intro cancels_wf [OF wf]) auto
  have closed: "sr_closed (snd (fold (\<lambda>g (changed, t). let (c, t') = signal_cancel g t in (changed \<or> c, t')) gs (b, u))) = sr_closed u"
    for gs b u by (induction gs arbitrary: b u) (auto simp: split_beta Let_def)
  have "sr_closed t" unfolding t_def closed by simp
  moreover obtain n where "session_cancel_all s = t\<lparr>sr_wakeups := n\<rparr>"
  proof (cases "fold (\<lambda>g (changed, t). let (c, t') = signal_cancel g t in (changed \<or> c, t')) ?gs (False, ?c)")
    case (Pair changed u)
    then have "session_cancel_all s = (if changed then t\<lparr>sr_wakeups := Suc (sr_wakeups t)\<rparr> else t\<lparr>sr_wakeups := sr_wakeups t\<rparr>)"
      by (simp add: session_cancel_all_def session_sweep_def session_close_def t_def)
    then show thesis using that [of "sr_wakeups t"] that [of "Suc (sr_wakeups t)"] by (cases changed) auto
  qed
  ultimately show ?thesis using t act by simp
qed

section \<open>Reachable sessions\<close>

inductive session_step :: "session_requests \<Rightarrow> session_requests \<Rightarrow> bool" where
  insert: "session_step s (snd (session_insert r s))"
| cancel: "session_step s (snd (session_cancel r s))"
| finish: "session_step s (session_finish r g s)"
| cancel_all: "session_step s (session_cancel_all s)"

inductive_cases session_stepE: "session_step s t"

lemma session_step_wf: "session_wf s \<Longrightarrow> session_step s t \<Longrightarrow> session_wf t"
proof (erule session_stepE)
  assume wf: "session_wf s"
  show "t = snd (session_insert r s) \<Longrightarrow> session_wf t" for r
  proof (cases "session_insert r s")
    case (Pair result u)
    then show "t = snd (session_insert r s) \<Longrightarrow> session_wf t"
      using wf session_insert_ok [OF wf, of r] session_insert_refused [of r s] by (cases result) auto
  qed
qed (auto simp: session_cancel_wf session_finish_wf session_cancel_all_wf)

interpretation session: transition_invariant "\<lambda>s. \<exists>n. s = session_new n" session_step session_wf
  by unfold_locales (auto simp: session_new_wf intro: session_step_wf)

text \<open>
  C33: the request window. However admissions, cancellations, completions and closing are
  interleaved, a session never has more active requests than it negotiated, never tracks more than
  eight windows of settling ones, and once it is closed none of its requests is left uncancelled.
\<close>

theorem session_window:
  assumes "session_step\<^sup>*\<^sup>* (session_new n) s"
  shows "active_requests s \<le> sr_max_in_flight s \<and> length (sr_in_flight s) \<le> 8 * sr_max_in_flight s \<and>
    (sr_closed s \<longrightarrow> active_requests s = 0)"
proof -
  have "session_wf s" using session.reachable_inv [OF exI [of _ n] assms] by blast
  then show ?thesis by (simp add: session_wf_def MAX_SETTLING_WINDOWS_def mult.commute)
qed

lemma cancel_frees:
  assumes wf: "session_wf s" and active: "btree_get (sr_in_flight s) r = Some g" "\<not> signal_is_cancelled s g"
  shows "Suc (active_requests (snd (session_cancel r s))) = active_requests s"
proof -
  let ?t = "snd (session_cancel r s)"
  have inf: "sr_in_flight ?t = sr_in_flight s" and canc: "signal_is_cancelled ?t h \<longleftrightarrow> h = g \<or> signal_is_cancelled s h" for h
    using active by (auto simp: session_cancel_def split_beta Let_def signal_is_cancelled_def btree_get_insert)
  have b: "btree_wf (sr_in_flight s)" "distinct (btree_values (sr_in_flight s))" using wf by (auto simp: session_wf_def)
  have g: "g \<in> set (btree_values (sr_in_flight s))" using active(1) b(1) by (auto simp: btree_values_set)
  have "Suc (length (filter (\<lambda>h. h \<noteq> g \<and> \<not> signal_is_cancelled s h) xs)) = length (filter (\<lambda>h. \<not> signal_is_cancelled s h) xs)"
    if "distinct xs" "g \<in> set xs" for xs
    using that
  proof (induction xs)
    case (Cons x xs)
    then show ?case
    proof (cases "x = g")
      case True
      with Cons.prems have "g \<notin> set xs" by simp
      then have "filter (\<lambda>h. h \<noteq> g \<and> \<not> signal_is_cancelled s h) xs = filter (\<lambda>h. \<not> signal_is_cancelled s h) xs"
        by (intro filter_cong) auto
      with True active(2) show ?thesis by simp
    qed auto
  qed simp
  from this [OF b(2) g] show ?thesis unfolding active_requests_def inf canc by simp
qed

text \<open>
  Cancelling frees the window at once. Cancelling an active request makes room for exactly one
  more: a fresh request is then admitted, whatever the number of active requests was, as long as
  the settling backlog has room; and the cancelled task's late completion cannot remove it, even
  when it reuses the same request id after the first has finished.
\<close>

theorem cancel_admits_replacement:
  assumes wf: "session_wf s" "\<not> sr_closed s" and r: "btree_get (sr_in_flight s) r = Some g" "\<not> signal_is_cancelled s g"
    and q: "btree_get (sr_in_flight s) q = None" and room: "length (sr_in_flight s) < 8 * sr_max_in_flight s"
  shows "\<exists>h t. session_insert q (snd (session_cancel r s)) = (Inr h, t) \<and> active_requests t = active_requests s \<and>
    session_finish r g (session_finish q g t) = session_finish r g t \<and>
    btree_get (sr_in_flight (session_finish r g t)) q = Some h"
proof -
  let ?u = "snd (session_cancel r s)"
  have u: "sr_in_flight ?u = sr_in_flight s" "sr_max_in_flight ?u = sr_max_in_flight s" "sr_closed ?u = sr_closed s"
    by (simp_all add: session_cancel_def r split_beta)
  have wfu: "session_wf ?u" by (rule session_cancel_wf [OF wf(1)])
  note frees = cancel_frees [OF wf(1) r]
  moreover have "active_requests s \<le> sr_max_in_flight s" using wf(1) by (simp add: session_wf_def)
  ultimately obtain h t where ins: "session_insert q ?u = (Inr h, t)"
    using q room wf(2) by (auto simp: session_insert_def u btree_contains_def MAX_SETTLING_WINDOWS_def Let_def mult.commute)
  note ok = session_insert_ok [OF wfu ins]
  have rq: "r \<noteq> q" using r q by auto
  have "btree_get (sr_signals ?u) g \<noteq> None" using wfu r u(1) unfolding session_wf_def by metis
  then have gh: "g \<noteq> h" using ok by auto
  have "btree_wf (sr_in_flight t)" using ok by (simp add: session_wf_def)
  then have "btree_get (sr_in_flight (session_finish r g t)) q = Some h"
    using ok rq by (auto simp: session_finish_def btree_get_remove)
  moreover have "session_finish q g t = t" using ok gh by (simp add: session_finish_def)
  ultimately show ?thesis using ins ok frees by auto
qed

section \<open>Closing in two moments\<close>

text \<open>
  Between the store to \<open>closed\<close> and the sweep under the lock other tasks may run. Admissions are
  already refused then, and cancellations and completions do not look at \<open>closed\<close>: every such
  interleaving ends in the state of a run in which they came first and \<open>cancel_all\<close> was one step.
\<close>

inductive closing_step :: "session_requests \<Rightarrow> session_requests \<Rightarrow> bool" where
  closing_insert: "closing_step s (snd (session_insert r s))"
| closing_cancel: "closing_step s (snd (session_cancel r s))"
| closing_finish: "closing_step s (session_finish r g s)"

lemma session_close_commutes:
  "session_insert r (session_close s) = (Inl SessionClosed, session_close s)"
  "snd (session_cancel r (session_close s)) = session_close (snd (session_cancel r s))"
  "session_finish r g (session_close s) = session_close (session_finish r g s)"
  by (auto simp: session_close_def session_insert_def session_cancel_def session_finish_def signal_cancel_def
      signal_is_cancelled_def split: option.split)

lemma closing_linearizes:
  assumes "closing_step\<^sup>*\<^sup>* (session_close s) t"
  shows "\<exists>s'. session_step\<^sup>*\<^sup>* s s' \<and> t = session_close s' \<and> session_sweep t = session_cancel_all s'"
  using assms
proof (induction rule: rtranclp_induct)
  case base
  show ?case by (intro exI [of _ s]) (simp add: session_cancel_all_def)
next
  case (step t u)
  then obtain s' where s': "session_step\<^sup>*\<^sup>* s s'" "t = session_close s'" by blast
  from step.hyps(2) show ?case
  proof cases
    case (closing_insert r)
    then have "u = session_close s'" by (simp add: s'(2) session_close_commutes)
    with s'(1) show ?thesis by (auto simp: session_cancel_all_def)
  next
    case (closing_cancel r)
    then have "u = session_close (snd (session_cancel r s'))" by (simp add: s'(2) session_close_commutes)
    with rtranclp.rtrancl_into_rtrancl [OF s'(1) session_step.cancel] show ?thesis by (auto simp: session_cancel_all_def)
  next
    case (closing_finish r g)
    then have "u = session_close (session_finish r g s')" by (simp add: s'(2) session_close_commutes)
    with rtranclp.rtrancl_into_rtrancl [OF s'(1) session_step.finish] show ?thesis by (auto simp: session_cancel_all_def)
  qed
qed

section \<open>Witnesses\<close>

definition sample_session :: session_requests where
  "sample_session = snd (session_insert 4 (session_new 1))"

lemma sample_session: "sample_session = \<lparr>sr_max_in_flight = 1, sr_closed = False, sr_in_flight = [(4, 0)],
    sr_signals = [(0, False)], sr_next_signal = 1, sr_wakeups = 0\<rparr>"
  by (simp add: sample_session_def session_insert_def session_new_def active_requests_def btree_values_def
      btree_contains_def MAX_SETTLING_WINDOWS_def Let_def)

theorem session_window_witness:
  "active_requests sample_session = 1 \<and> active_requests sample_session \<le> sr_max_in_flight sample_session"
proof -
  have "session_step\<^sup>*\<^sup>* (session_new 1) sample_session"
    unfolding sample_session_def by (blast intro: session_step.insert)
  from session_window [OF this] show ?thesis
    by (simp add: sample_session active_requests_def btree_values_def signal_is_cancelled_def)
qed

theorem cancel_admits_replacement_witness:
  "\<exists>h t. session_insert 5 (snd (session_cancel 4 sample_session)) = (Inr h, t) \<and> active_requests t = 1 \<and>
     btree_get (sr_in_flight (session_finish 4 0 t)) 5 = Some h"
proof -
  have wf: "session_wf sample_session"
    unfolding sample_session_def by (rule session_step_wf [OF session_new_wf session_step.insert])
  have h: "\<not> sr_closed sample_session" "btree_get (sr_in_flight sample_session) 4 = Some 0"
    "\<not> signal_is_cancelled sample_session 0" "btree_get (sr_in_flight sample_session) 5 = None"
    "length (sr_in_flight sample_session) < 8 * sr_max_in_flight sample_session" "active_requests sample_session = 1"
    by (simp_all add: sample_session btree_values_def active_requests_def signal_is_cancelled_def)
  show ?thesis using cancel_admits_replacement [OF wf h(1-5)] unfolding h(6) by blast
qed

end
