(* ===== verification/Error_Messages.thy ===== *)
theory Error_Messages
  imports Frame_Protocol
begin

text \<open>
  The server's error message (\<open>encode_error\<close>, \<open>decode_error\<close>, \<open>world/src/protocol.rs\<close>). A Rust string
  is the list of its UTF-8 bytes: \<open>utf8_valid\<close> is \<open>std::str::from_utf8\<close>, and \<open>is_char_boundary\<close> the
  standard library's. The lemmas show that the encoder's truncation keeps the text valid, so that every
  message decodes to the longest prefix of whole characters within 65,535 bytes.
\<close>

section \<open>UTF-8\<close>

text \<open>The lead byte of a character determines the ranges of the bytes that follow it.\<close>

definition utf8_cont :: "u8 \<times> u8" where
  "utf8_cont = (0x80, 0xBF)"

definition utf8_lead :: "u8 \<Rightarrow> (u8 \<times> u8) list option" where
  "utf8_lead b =
     (if b < 0x80 then Some []
      else if 0xC2 \<le> b \<and> b \<le> 0xDF then Some [utf8_cont]
      else if b = 0xE0 then Some [(0xA0, 0xBF), utf8_cont]
      else if b = 0xED then Some [(0x80, 0x9F), utf8_cont]
      else if 0xE1 \<le> b \<and> b \<le> 0xEF then Some [utf8_cont, utf8_cont]
      else if b = 0xF0 then Some [(0x90, 0xBF), utf8_cont, utf8_cont]
      else if 0xF1 \<le> b \<and> b \<le> 0xF3 then Some [utf8_cont, utf8_cont, utf8_cont]
      else if b = 0xF4 then Some [(0x80, 0x8F), utf8_cont, utf8_cont]
      else None)"

fun utf8_from :: "(u8 \<times> u8) list \<Rightarrow> u8 list \<Rightarrow> bool" where
  "utf8_from rs [] \<longleftrightarrow> rs = []"
| "utf8_from [] (b # bs) \<longleftrightarrow> (case utf8_lead b of None \<Rightarrow> False | Some rs \<Rightarrow> utf8_from rs bs)"
| "utf8_from ((lo, hi) # rs) (b # bs) \<longleftrightarrow> lo \<le> b \<and> b \<le> hi \<and> utf8_from rs bs"

definition utf8_valid :: "u8 list \<Rightarrow> bool" where
  "utf8_valid msg = utf8_from [] msg"

definition is_char_boundary :: "u8 list \<Rightarrow> nat \<Rightarrow> bool" where
  "is_char_boundary msg index \<longleftrightarrow>
     index = 0 \<or> index = length msg \<or> (index < length msg \<and> \<not> (0x80 \<le> msg ! index \<and> msg ! index \<le> 0xBF))"

section \<open>The message\<close>

definition KIND_ERROR :: nat where "KIND_ERROR = 6"

fun char_floor :: "u8 list \<Rightarrow> nat \<Rightarrow> nat" where
  "char_floor msg 0 = 0"
| "char_floor msg (Suc len) = (if is_char_boundary msg (Suc len) then Suc len else char_floor msg len)"

definition encode_error :: "u64 \<Rightarrow> u8 list \<Rightarrow> u8 list" where
  "encode_error request_id msg =
     (let len = char_floor msg (min (length msg) u16_max)
      in encode_frame KIND_ERROR request_id (u16_le len @ take len msg))"

definition decode_error :: "u8 list \<Rightarrow> protocol_error + (u64 \<times> u8 list)" where
  "decode_error bytes =
     attempt (decode_frame bytes) (\<lambda>frame.
     attempt (expect_kind frame KIND_ERROR) (\<lambda>_.
     attempt (cursor_u16 ProtocolTruncated (cursor_new (fr_payload frame))) (\<lambda>(len, c).
     attempt (cursor_take ProtocolTruncated len c) (\<lambda>(msg, c).
     if \<not> utf8_valid msg then Inl InvalidUtf8 else
     attempt (cursor_finish c) (\<lambda>_. Inr (fr_request_id frame, msg))))))"

section \<open>Truncation keeps the text valid\<close>

definition cont_ranges :: "(u8 \<times> u8) list \<Rightarrow> bool" where
  "cont_ranges rs \<longleftrightarrow> (\<forall>(lo, hi) \<in> set rs. 0x80 \<le> lo \<and> hi \<le> 0xBF)"

lemma utf8_lead_ranges: "utf8_lead b = Some rs \<Longrightarrow> cont_ranges rs"
  by (auto simp: utf8_lead_def cont_ranges_def utf8_cont_def split: if_splits)

text \<open>A character is never cut at a byte that does not continue one.\<close>

lemma utf8_from_take:
  assumes "utf8_from rs bs" "cont_ranges rs" "n \<le> length bs"
    and "n = length bs \<or> \<not> (0x80 \<le> bs ! n \<and> bs ! n \<le> 0xBF)"
  shows "utf8_from rs (take n bs)"
  using assms
proof (induction rs bs arbitrary: n rule: utf8_from.induct)
  case (2 b bs)
  then show ?case using utf8_lead_ranges by (cases n) (auto split: option.splits)
next
  case (3 lo hi rs b bs)
  show ?case
  proof (cases n)
    case 0
    then have "\<not> (0x80 \<le> b \<and> b \<le> 0xBF)" using 3 by simp
    moreover have "lo \<le> b" "b \<le> hi" "0x80 \<le> lo" "hi \<le> 0xBF" using "3.prems"(1,2) by (simp_all add: cont_ranges_def)
    ultimately show ?thesis by (meson order.trans)
  next
    case (Suc m)
    then show ?thesis using 3 by (auto simp: cont_ranges_def)
  qed
qed simp

lemma char_floor_boundary: "is_char_boundary msg (char_floor msg n) \<and> char_floor msg n \<le> n"
  by (induction n) (auto simp: is_char_boundary_def)

lemma char_floor_greatest: "is_char_boundary msg k \<Longrightarrow> k \<le> n \<Longrightarrow> k \<le> char_floor msg n"
  by (induction n) (auto simp: le_Suc_eq)

lemma truncated_valid:
  assumes "utf8_valid msg" "n \<le> length msg"
  shows "utf8_valid (take (char_floor msg n) msg)"
proof -
  let ?k = "char_floor msg n"
  have k: "is_char_boundary msg ?k" "?k \<le> length msg" using char_floor_boundary [of msg n] assms(2) by auto
  show ?thesis
  proof (cases "?k = 0")
    case False
    then have "?k = length msg \<or> \<not> (0x80 \<le> msg ! ?k \<and> msg ! ?k \<le> 0xBF)" using k by (auto simp: is_char_boundary_def)
    then show ?thesis using assms(1) k(2) unfolding utf8_valid_def by (intro utf8_from_take) (auto simp: cont_ranges_def)
  qed (simp add: utf8_valid_def)
qed

text \<open>An error message decodes to its request and the longest prefix of whole characters that fits.\<close>

lemma decode_encode_error:
  assumes "utf8_valid msg"
  shows "decode_error (encode_error request_id msg) =
    Inr (request_id, take (char_floor msg (min (length msg) u16_max)) msg)"
proof -
  let ?n = "char_floor msg (min (length msg) u16_max)"
  let ?t = "take ?n msg"
  have n: "?n \<le> length msg" "?n \<le> u16_max" using char_floor_boundary [of msg "min (length msg) u16_max"] by auto
  then have len: "length ?t = ?n" by simp
  have "decode_frame (encode_frame KIND_ERROR request_id (u16_le ?n @ ?t)) =
      Inr \<lparr>fr_kind = KIND_ERROR, fr_request_id = request_id, fr_payload = u16_le ?n @ ?t\<rparr>"
    using n by (intro decode_encode_frame_fields) (simp_all add: KIND_ERROR_def frame_consts)
  moreover have "cursor_u16 ProtocolTruncated (cursor_at [] (u16_le ?n @ ?t)) = Inr (?n, cursor_at (u16_le ?n) ?t)"
    using n(2) by (simp add: cursor_u16_seen)
  moreover have "cursor_take ProtocolTruncated ?n (cursor_at (u16_le ?n) ?t) = Inr (?t, cursor_at (u16_le ?n @ ?t) [])"
    using cursor_take_at [OF len, of _ _ "[]"] by simp
  moreover have "utf8_valid ?t" using assms by (intro truncated_valid) simp_all
  ultimately show ?thesis
    by (simp add: decode_error_def encode_error_def Let_def expect_kind_def cursor_new_at cursor_finish_def cursor_at_def
        del: take_append)
qed

lemma ascii_valid: "\<forall>b \<in> set msg. b < 0x80 \<Longrightarrow> utf8_valid msg"
  unfolding utf8_valid_def by (induction msg) (auto simp: utf8_lead_def)

lemma whole_text_fits: "length msg \<le> u16_max \<Longrightarrow> char_floor msg (min (length msg) u16_max) = length msg"
  by (cases msg) (auto simp: is_char_boundary_def)

end
