(* ===== verification/Edit_Mutations.thy ===== *)
theory Edit_Mutations
  imports Frame_Protocol
begin

text \<open>
  The compact mutation masks of edit commits (\<open>world/src/protocol.rs\<close>): which of the \<open>n\<close>
  candidate voxels of a stencil an edit changed, as variable-length deltas of their ordinals or as
  a bitset, whichever is shorter. Variable-length integers are natural numbers below
  \<open>2 ^ 64\<close>. Both are instances of the body contract \<open>body_codec\<close>: exactly the canonical encoding
  of a set of ordinals is accepted.
\<close>

unbundle bit_operations_syntax

section \<open>Operations\<close>

fun push_var_u64 :: "nat \<Rightarrow> u8 list" where
  "push_var_u64 v =
     (if v \<ge> 128 then ((of_nat v AND 127) OR 128) # push_var_u64 (v div 128) else [of_nat v])"

declare push_var_u64.simps [simp del]

fun decode_var_from :: "nat \<Rightarrow> nat \<Rightarrow> nat \<Rightarrow> cursor \<Rightarrow> protocol_error + (nat \<times> cursor)" where
  "decode_var_from index 0 v c = Inl (InvalidPayload ''protocol varint exceeds its field width'')"
| "decode_var_from index (Suc k) v c =
     attempt (cursor_u8 ProtocolTruncated c) (\<lambda>(byte, c).
     let payload = unat (byte AND 127); v = v OR push_bit (index * 7) payload in
     if byte AND 128 = 0 then
       if index > 0 \<and> payload = 0 then Inl (InvalidPayload ''non-canonical protocol varint'') else Inr (v, c)
     else decode_var_from (Suc index) k v c)"

definition decode_var_u64 :: "nat \<Rightarrow> cursor \<Rightarrow> protocol_error + (nat \<times> cursor)" where
  "decode_var_u64 max_bytes c = decode_var_from 0 max_bytes 0 c"

fun encode_ordinals_from :: "nat option \<Rightarrow> nat list \<Rightarrow> u8 list" where
  "encode_ordinals_from previous [] = []"
| "encode_ordinals_from previous (ordinal # ordinals) =
     push_var_u64 (case previous of None \<Rightarrow> ordinal | Some prior \<Rightarrow> ordinal - prior) @
     encode_ordinals_from (Some ordinal) ordinals"

definition encode_edit_ordinals :: "nat list \<Rightarrow> u8 list" where
  "encode_edit_ordinals = encode_ordinals_from None"

definition div_ceil_8 :: "nat \<Rightarrow> nat" where "div_ceil_8 n = (n + 7) div 8"

definition set_ordinal :: "nat \<Rightarrow> u8 list \<Rightarrow> u8 list" where
  "set_ordinal ordinal bitset = bitset[ordinal div 8 := bitset ! (ordinal div 8) OR push_bit (ordinal mod 8) 1]"

definition bitset_of :: "nat \<Rightarrow> nat list \<Rightarrow> u8 list" where
  "bitset_of n ordinals = fold set_ordinal ordinals (replicate (div_ceil_8 n) 0)"

definition EDIT_MUTATIONS_ORDINALS :: nat where "EDIT_MUTATIONS_ORDINALS = 0"
definition EDIT_MUTATIONS_BITSET :: nat where "EDIT_MUTATIONS_BITSET = 1"

definition encode_mutation_ordinals :: "nat \<Rightarrow> nat list \<Rightarrow> nat \<times> u8 list" where
  "encode_mutation_ordinals n ordinals =
     (let ordinal_bytes = encode_edit_ordinals ordinals; bitset = bitset_of n ordinals in
      if length bitset < length ordinal_bytes then (EDIT_MUTATIONS_BITSET, bitset)
      else (EDIT_MUTATIONS_ORDINALS, ordinal_bytes))"

fun decode_ordinals :: "nat \<Rightarrow> nat \<Rightarrow> nat option \<Rightarrow> cursor \<Rightarrow> protocol_error + (nat list \<times> cursor)" where
  "decode_ordinals n 0 previous c = Inr ([], c)"
| "decode_ordinals n (Suc k) previous c =
     attempt (decode_var_u64 3 c) (\<lambda>(encoded, c).
     attempt (case previous of None \<Rightarrow> Inr encoded
              | Some prior \<Rightarrow> if encoded \<noteq> 0 then Inr (prior + encoded)
                  else Inl (InvalidPayload ''edit ordinals are not strictly increasing'')) (\<lambda>ordinal.
     if ordinal \<ge> n then Inl (InvalidPayload ''edit ordinal exceeds its action stencil'') else
     attempt (decode_ordinals n k (Some ordinal) c) (\<lambda>(ordinals, c). Inr (ordinal # ordinals, c))))"

definition bitset_ordinals :: "nat \<Rightarrow> u8 list \<Rightarrow> nat list" where
  "bitset_ordinals n bytes = filter (\<lambda>ordinal. bytes ! (ordinal div 8) AND push_bit (ordinal mod 8) 1 \<noteq> 0) [0..<n]"

definition decode_bitset :: "nat \<Rightarrow> nat \<Rightarrow> cursor \<Rightarrow> protocol_error + (nat list \<times> cursor)" where
  "decode_bitset n mutation_count c =
     attempt (cursor_take ProtocolTruncated (div_ceil_8 n) c) (\<lambda>(bytes, c).
     if bytes \<noteq> [] \<and> n mod 8 \<noteq> 0 \<and> last bytes AND NOT (push_bit (n mod 8) 1 - 1) \<noteq> 0
     then Inl (InvalidPayload ''edit mutation bitset has nonzero padding'')
     else if length (bitset_ordinals n bytes) \<noteq> mutation_count
     then Inl (InvalidPayload ''edit mutation bitset count mismatch'')
     else Inr (bitset_ordinals n bytes, c))"

definition decode_mutation_ordinals :: "nat \<Rightarrow> nat \<Rightarrow> nat \<Rightarrow> cursor \<Rightarrow> protocol_error + (nat list \<times> cursor)" where
  "decode_mutation_ordinals n mutation_count encoding c =
     attempt (if encoding = EDIT_MUTATIONS_ORDINALS then decode_ordinals n mutation_count None c
              else if encoding = EDIT_MUTATIONS_BITSET then decode_bitset n mutation_count c
              else Inl (UnknownEnum ''edit mutation encoding'' encoding)) (\<lambda>(ordinals, c).
     let canonical_encoding =
           (if div_ceil_8 n < length (encode_edit_ordinals ordinals) then EDIT_MUTATIONS_BITSET
            else EDIT_MUTATIONS_ORDINALS)
     in if encoding \<noteq> canonical_encoding then Inl (InvalidPayload ''edit mutation encoding is not canonical'')
        else Inr (ordinals, c))"

section \<open>Variable-length integers\<close>

lemma low_bits: "unat (b AND 127 :: u8) = unat b mod 128"
proof -
  have "b AND 127 = take_bit 7 b" by (simp add: take_bit_eq_mask mask_eq_exp_minus_1)
  then show ?thesis by (simp add: unsigned_take_bit_eq) (simp add: take_bit_eq_mod)
qed

lemma high_bit: "b AND 128 = 0 \<longleftrightarrow> unat b < 128" for b :: u8
proof -
  have "b AND 128 = 0 \<longleftrightarrow> \<not> bit b 7" using and_exp_eq_0_iff_not_bit [of b 7] by simp
  also have "\<dots> \<longleftrightarrow> \<not> bit (unat b) 7" by (simp add: bit_unsigned_iff)
  also have "\<dots> \<longleftrightarrow> unat b < 128"
  proof -
    have "unat b < 256" using unsigned_less [where ?'a = nat, of b] by simp
    then have "unat b div 128 = (if unat b < 128 then 0 else 1)" by auto
    then show ?thesis by (simp add: bit_iff_odd)
  qed
  finally show ?thesis .
qed

lemma continued_byte: "unat ((of_nat v AND 127) OR 128 :: u8) = v mod 128 + 128"
proof -
  let ?w = "of_nat v AND 127 :: u8"
  have w: "unat ?w = v mod 128" by (simp add: low_bits unsigned_of_nat take_bit_eq_mod mod_mod_cancel)
  have "?w AND 128 = 0" unfolding high_bit w by simp
  then have "?w OR 128 = ?w + 128" by (simp add: disjunctive_add_eq_or)
  moreover have "unat (?w + 128) = unat ?w + 128" using w by (simp add: unat_word_ariths)
  ultimately show ?thesis using w by simp
qed

lemma push_var_small: "v < 128 \<Longrightarrow> push_var_u64 v = [of_nat v]"
  by (simp add: push_var_u64.simps)

lemma push_var_big: "128 \<le> v \<Longrightarrow> push_var_u64 v = ((of_nat v AND 127) OR 128) # push_var_u64 (v div 128)"
  by (simp add: push_var_u64.simps [of v])

lemma byte_eq_iff: "b = c \<longleftrightarrow> unat b = unat c" for b c :: u8
  by (fact word_unat_eq_iff)

lemma push_var_cons:
  "b # bs = push_var_u64 w @ ys \<longleftrightarrow>
     (if unat b < 128 then w = unat b \<and> ys = bs
      else 128 \<le> w \<and> w mod 128 + 128 = unat b \<and> bs = push_var_u64 (w div 128) @ ys)"
proof (cases "w < 128")
  case True
  then have "unat (of_nat w :: u8) = w" by (simp add: unsigned_of_nat take_bit_eq_mod)
  then show ?thesis using True by (auto simp: push_var_small byte_eq_iff simp del: unsigned_word_eqI)
next
  case False
  then show ?thesis using continued_byte [of w] by (auto simp: push_var_big byte_eq_iff)
qed

lemma or_shift: "v < 128 ^ n \<Longrightarrow> v OR push_bit (n * 7) p = v + p * 128 ^ n" for v p :: nat
proof -
  have pow: "(2::nat) ^ (n * 7) = 128 ^ n" by (simp add: mult.commute [of n] power_mult)
  assume "v < 128 ^ n"
  then have "take_bit (n * 7) v = v" by (simp add: take_bit_nat_eq_self pow)
  then have "\<not> bit v k \<or> \<not> bit (push_bit (n * 7) p) k" for k by (metis bit_push_bit_iff bit_take_bit_iff not_le)
  then have "v AND push_bit (n * 7) p = 0" by (auto simp: bit_eq_iff bit_and_iff)
  then have "v OR push_bit (n * 7) p = v + push_bit (n * 7) p" by (simp add: disjunctive_add_eq_or)
  then show ?thesis by (simp add: push_bit_eq_mult pow)
qed

lemma decode_var_from_seen:
  assumes "acc < 128 ^ index"
  shows "decode_var_from index k acc (cursor_at pre bs) = Inr (v, c') \<longleftrightarrow>
    (\<exists>w ys. v = acc + w * 128 ^ index \<and> w < 128 ^ k \<and> (index > 0 \<longrightarrow> w \<noteq> 0) \<and> k > 0 \<and>
      bs = push_var_u64 w @ ys \<and> c' = cursor_at (pre @ push_var_u64 w) ys)"
  using assms
proof (induction k arbitrary: index acc pre bs)
  case (Suc k)
  show ?case
  proof (cases bs)
    case Nil
    have "push_var_u64 w \<noteq> []" for w by (cases "w < 128") (simp_all add: push_var_small push_var_big)
    then show ?thesis using Nil by (auto simp: cursor_seen)
  next
    case (Cons b bs')
    let ?p = "unat b mod 128"
    have acc: "acc OR push_bit (index * 7) ?p = acc + ?p * 128 ^ index" by (rule or_shift [OF Suc.prems])
    have step: "decode_var_from index (Suc k) acc (cursor_at pre bs) =
        (if unat b < 128 then
           if index > 0 \<and> ?p = 0 then Inl (InvalidPayload ''non-canonical protocol varint'')
           else Inr (acc + ?p * 128 ^ index, cursor_at (pre @ [b]) bs')
         else decode_var_from (Suc index) k (acc + ?p * 128 ^ index) (cursor_at (pre @ [b]) bs'))"
      unfolding Cons decode_var_from.simps(2) cursor_reads_at(1) attempt.simps prod.case Let_def low_bits high_bit acc
      by (rule refl)
    show ?thesis
    proof (cases "unat b < 128")
      case True
      have "(128::nat) \<le> 128 ^ Suc k" by simp
      with True have "unat b < 128 ^ Suc k" by linarith
      moreover have "push_var_u64 (unat b) = [b]" using True by (simp add: push_var_small)
      ultimately show ?thesis unfolding step using True Cons by (auto simp: push_var_cons)
    next
      case False
      have "acc + ?p * 128 ^ index < 128 ^ index + 127 * 128 ^ index"
        using Suc.prems by (intro add_less_le_mono mult_le_mono1) auto
      then have "acc + ?p * 128 ^ index < 128 ^ Suc index" by simp
      note IH = Suc.IH [OF this, of "pre @ [b]" bs']
      have bytes: "push_var_u64 (w * 128 + ?p) = b # push_var_u64 w" if "w \<noteq> 0" for w
      proof -
        have "unat b < 256" using unsigned_less [where ?'a = nat, of b] by simp
        then have "?p + 128 = unat b" using False by (simp add: le_mod_geq)
        moreover have "128 \<le> w * 128 + ?p" using that by (cases w) auto
        ultimately have "b # push_var_u64 w = push_var_u64 (w * 128 + ?p) @ []"
          unfolding push_var_cons using False by simp
        then show ?thesis by simp
      qed
      show ?thesis (is "?L \<longleftrightarrow> ?R")
      proof
        assume ?L
        then obtain w ys where w: "v = acc + ?p * 128 ^ index + w * 128 ^ Suc index" "w < 128 ^ k" "w \<noteq> 0"
            "bs' = push_var_u64 w @ ys" "c' = cursor_at ((pre @ [b]) @ push_var_u64 w) ys"
          unfolding step using False IH by auto
        have "v = acc + (w * 128 + ?p) * 128 ^ index" using w(1) by (simp add: algebra_simps)
        moreover have "w * 128 + ?p < 128 ^ Suc k"
        proof -
          have "(w + 1) * 128 \<le> 128 ^ k * 128" using w(2) by (intro mult_le_mono1) simp
          moreover have "?p < 128" by simp
          ultimately show ?thesis by (simp add: algebra_simps)
        qed
        ultimately show ?R using w(3-5) Cons bytes [OF w(3)]
          by (intro exI [of _ "w * 128 + ?p"] exI [of _ ys]) simp
      next
        assume ?R
        then obtain w ys where w: "v = acc + w * 128 ^ index" "w < 128 ^ Suc k"
            "b # bs' = push_var_u64 w @ ys" "c' = cursor_at (pre @ push_var_u64 w) ys" using Cons by auto
        have d: "128 \<le> w" "w mod 128 + 128 = unat b" "bs' = push_var_u64 (w div 128) @ ys"
          using w(3) False by (simp_all add: push_var_cons)
        have p: "?p = w mod 128" using d(2) by (metis mod_add_self2 mod_mod_trivial)
        have "w = w div 128 * 128 + ?p" unfolding p by simp
        then have v: "v = acc + ?p * 128 ^ index + (w div 128) * 128 ^ Suc index"
        proof -
          have "acc + w * 128 ^ index = acc + (w div 128 * 128 + ?p) * 128 ^ index"
            by (simp only: \<open>w = w div 128 * 128 + ?p\<close> [symmetric])
          then show ?thesis using w(1) by (simp only: algebra_simps power_Suc)
        qed
        have ne: "w div 128 \<noteq> 0" "w div 128 < 128 ^ k" using d(1) w(2) by (auto simp: less_mult_imp_div_less)
        then have "k > 0" by (cases k) auto
        moreover have "push_var_u64 w = b # push_var_u64 (w div 128)" using w(3) d(3) by (metis append_Cons append_same_eq)
        ultimately show ?L unfolding step using False IH v ne d(3) w(4) by auto
      qed
    qed
  qed
qed simp

interpretation ordinal_delta: body_codec push_var_u64 "decode_var_u64 3" "\<lambda>v. v < 128 ^ 3"
proof
  fix pre bs v c'
  show "decode_var_u64 3 (cursor_at pre bs) = Inr (v, c') \<longleftrightarrow>
      v < 128 ^ 3 \<and> (\<exists>ys. bs = push_var_u64 v @ ys \<and> c' = cursor_at (pre @ push_var_u64 v) ys)"
    using decode_var_from_seen [of 0 0 3 pre bs v c']
    unfolding decode_var_u64_def power_0 mult_1_right add_0 by (simp only: zero_less_one less_irrefl) auto
qed

section \<open>Deltas of ordinals\<close>

fun follows :: "nat option \<Rightarrow> nat \<Rightarrow> bool" where
  "follows None ordinal \<longleftrightarrow> True"
| "follows (Some prior) ordinal \<longleftrightarrow> prior < ordinal"

definition ordinals_ok :: "nat \<Rightarrow> nat list \<Rightarrow> bool" where
  "ordinals_ok n ordinals \<longleftrightarrow> sorted_wrt (<) ordinals \<and> (\<forall>ordinal \<in> set ordinals. ordinal < n)"

lemma ordinals_ok_Cons:
  "ordinals_ok n (ordinal # ordinals) \<longleftrightarrow>
     ordinal < n \<and> ordinals_ok n ordinals \<and> (\<forall>later \<in> set ordinals. ordinal < later)"
  by (auto simp: ordinals_ok_def)

lemma decode_ordinals_seen:
  assumes "n \<le> 128 ^ 3"
  shows "decode_ordinals n k previous (cursor_at pre bs) = Inr (ordinals, c') \<longleftrightarrow>
    length ordinals = k \<and> ordinals_ok n ordinals \<and> (\<forall>ordinal \<in> set ordinals. follows previous ordinal) \<and>
    (\<exists>ys. bs = encode_ordinals_from previous ordinals @ ys \<and>
      c' = cursor_at (pre @ encode_ordinals_from previous ordinals) ys)"
proof (induction k arbitrary: previous pre bs ordinals)
  case 0
  show ?case by (cases ordinals) (auto simp: ordinals_ok_def)
next
  case (Suc k)
  let ?delta = "\<lambda>ordinal. case previous of None \<Rightarrow> ordinal | Some prior \<Rightarrow> ordinal - prior"
  have step: "decode_ordinals n (Suc k) previous (cursor_at pre bs) = Inr (ordinals, c') \<longleftrightarrow>
      (\<exists>ordinal rest ys. ordinals = ordinal # rest \<and> ordinal < n \<and> follows previous ordinal \<and>
        bs = push_var_u64 (?delta ordinal) @ ys \<and>
        decode_ordinals n k (Some ordinal) (cursor_at (pre @ push_var_u64 (?delta ordinal)) ys) = Inr (rest, c'))"
    (is "?L \<longleftrightarrow> ?R")
  proof
    assume ?L
    then obtain encoded c1 ordinal rest where
      read: "decode_var_u64 3 (cursor_at pre bs) = Inr (encoded, c1)"
      and val: "(case previous of None \<Rightarrow> Inr encoded | Some prior \<Rightarrow> if encoded \<noteq> 0 then Inr (prior + encoded)
          else Inl (InvalidPayload ''edit ordinals are not strictly increasing'')) = Inr ordinal"
      and rest: "ordinal < n" "decode_ordinals n k (Some ordinal) c1 = Inr (rest, c')" "ordinals = ordinal # rest"
      by (auto split: if_splits)
    have "encoded = ?delta ordinal" "follows previous ordinal"
      using val by (auto split: option.splits if_splits)
    then show ?R using read rest by (auto simp: ordinal_delta.dec_seen)
  next
    assume ?R
    then obtain ordinal rest ys where r: "ordinals = ordinal # rest" "ordinal < n" "follows previous ordinal"
        "bs = push_var_u64 (?delta ordinal) @ ys"
        "decode_ordinals n k (Some ordinal) (cursor_at (pre @ push_var_u64 (?delta ordinal)) ys) = Inr (rest, c')"
      by blast
    have "?delta ordinal < 128 ^ 3" using r(2) assms by (auto split: option.splits)
    then have "decode_var_u64 3 (cursor_at pre bs) =
        Inr (?delta ordinal, cursor_at (pre @ push_var_u64 (?delta ordinal)) ys)"
      unfolding r(4) by (rule ordinal_delta.dec_read)
    moreover have "(case previous of None \<Rightarrow> Inr (?delta ordinal) | Some prior \<Rightarrow>
        if ?delta ordinal \<noteq> 0 then Inr (prior + ?delta ordinal)
        else Inl (InvalidPayload ''edit ordinals are not strictly increasing'')) = Inr ordinal"
      using r(3) by (cases previous) auto
    ultimately show ?L using r(1,2,5) by (simp del: try_Inr)
  qed
  have "follows previous later" if "follows previous ordinal" "ordinal < later" for ordinal later
    using that by (cases previous) auto
  then show ?case unfolding step Suc.IH
    by (cases ordinals) (auto simp: ordinals_ok_Cons)
qed

section \<open>The bitset\<close>

lemma length_set_ordinals [simp]: "length (fold set_ordinal ordinals bitset) = length bitset"
  by (induction ordinals arbitrary: bitset) (simp_all add: set_ordinal_def)

lemma length_bitset_of [simp]: "length (bitset_of n ordinals) = div_ceil_8 n"
  by (simp add: bitset_of_def)

lemma set_ordinals_bit:
  assumes "\<forall>ordinal \<in> set ordinals. ordinal div 8 < length bitset" "i < length bitset" "j < 8"
  shows "bit (fold set_ordinal ordinals bitset ! i) j \<longleftrightarrow> bit (bitset ! i) j \<or> 8 * i + j \<in> set ordinals"
  using assms
proof (induction ordinals arbitrary: bitset)
  case (Cons ordinal ordinals)
  have "8 * i + j = ordinal \<longleftrightarrow> i = ordinal div 8 \<and> j = ordinal mod 8" using Cons.prems(3) by auto
  then have "bit (set_ordinal ordinal bitset ! i) j \<longleftrightarrow> bit (bitset ! i) j \<or> 8 * i + j = ordinal"
    using Cons.prems by (auto simp: set_ordinal_def nth_list_update bit_simps)
  moreover have "length (set_ordinal ordinal bitset) = length bitset" by (simp add: set_ordinal_def)
  ultimately show ?case using Cons by auto
qed simp

lemma ordinal_byte: "ordinal < n \<Longrightarrow> ordinal div 8 < div_ceil_8 n"
  by (simp add: div_ceil_8_def)

lemma bitset_of_bit:
  assumes "ordinals_ok n ordinals" "i < div_ceil_8 n" "j < 8"
  shows "bit (bitset_of n ordinals ! i) j \<longleftrightarrow> 8 * i + j \<in> set ordinals"
  using assms unfolding bitset_of_def
  by (subst set_ordinals_bit) (auto simp: ordinals_ok_def intro: ordinal_byte)

lemma bit_test: "b AND push_bit j 1 = 0 \<longleftrightarrow> \<not> bit b j" for b :: u8
  unfolding push_bit_eq_mult mult_1_left by (rule and_exp_eq_0_iff_not_bit)

lemma set_bitset_ordinals:
  "ordinal \<in> set (bitset_ordinals n bytes) \<longleftrightarrow> ordinal < n \<and> bit (bytes ! (ordinal div 8)) (ordinal mod 8)"
  unfolding bitset_ordinals_def bit_test by simp

lemma ordinals_ok_bitset: "ordinals_ok n (bitset_ordinals n bytes)"
  unfolding ordinals_ok_def bitset_ordinals_def by (simp add: sorted_wrt_filter)

lemma bitset_ordinals_of:
  assumes "ordinals_ok n ordinals"
  shows "bitset_ordinals n (bitset_of n ordinals) = ordinals"
proof -
  have "set (bitset_ordinals n (bitset_of n ordinals)) = set ordinals"
    using assms by (auto simp: set_bitset_ordinals bitset_of_bit ordinal_byte ordinals_ok_def)
  then show ?thesis using assms ordinals_ok_bitset [of n "bitset_of n ordinals"]
    by (simp add: ordinals_ok_def strict_sorted_equal)
qed

definition zero_padding :: "nat \<Rightarrow> u8 list \<Rightarrow> bool" where
  "zero_padding n bytes \<longleftrightarrow>
     \<not> (bytes \<noteq> [] \<and> n mod 8 \<noteq> 0 \<and> last bytes AND NOT (push_bit (n mod 8) 1 - 1) \<noteq> 0)"

lemma zero_padding_bits:
  assumes "length bytes = div_ceil_8 n"
  shows "zero_padding n bytes \<longleftrightarrow> (\<forall>i < length bytes. \<forall>j < 8. bit (bytes ! i) j \<longrightarrow> 8 * i + j < n)"
proof (cases "n mod 8 = 0")
  case True
  then have "div_ceil_8 n * 8 = n" by (simp add: div_ceil_8_def) presburger
  then show ?thesis using True assms by (auto simp: zero_padding_def)
next
  case False
  let ?q = "n div 8"
  have n: "n = 8 * ?q + n mod 8" "0 < n mod 8" "n mod 8 < 8" using False by simp_all
  have "(n + 7) div 8 = Suc q" if "n = 8 * q + r" "0 < r" "r < 8" for q r :: nat
    by (rule div_nat_eqI) (use that in simp_all)
  from this [OF n] have len: "length bytes = Suc ?q" using assms by (simp add: div_ceil_8_def)
  then have lst: "bytes \<noteq> []" by auto
  with len have last: "last bytes = bytes ! ?q" by (simp add: last_conv_nth)
  have "(push_bit (n mod 8) 1 - 1 :: u8) = mask (n mod 8)" by (simp add: mask_eq_exp_minus_1 push_bit_eq_mult)
  then have "zero_padding n bytes \<longleftrightarrow> last bytes AND NOT (mask (n mod 8)) = 0"
    using False lst unfolding zero_padding_def by simp
  also have "\<dots> \<longleftrightarrow> (\<forall>j < 8. bit (bytes ! ?q) j \<longrightarrow> j < n mod 8)"
    unfolding last by (auto simp: bit_eq_iff bit_simps)
  also have "\<dots> \<longleftrightarrow> (\<forall>i < length bytes. \<forall>j < 8. bit (bytes ! i) j \<longrightarrow> 8 * i + j < n)"
  proof -
    have "8 * i + j < n" if "i < ?q" "j < 8" for i j using that n by linarith
    moreover have "8 * ?q + j < n \<longleftrightarrow> j < n mod 8" for j using n by linarith
    ultimately show ?thesis unfolding len by (auto simp: less_Suc_eq)
  qed
  finally show ?thesis .
qed

lemma bitset_of_ordinals:
  assumes "length bytes = div_ceil_8 n" "zero_padding n bytes"
  shows "bitset_of n (bitset_ordinals n bytes) = bytes"
proof (rule nth_equalityI)
  fix i assume i: "i < length (bitset_of n (bitset_ordinals n bytes))"
  show "bitset_of n (bitset_ordinals n bytes) ! i = bytes ! i"
  proof (rule bit_word_eqI)
    fix j assume "j < LENGTH(8)"
    then have j: "j < 8" by simp
    have "bit (bitset_of n (bitset_ordinals n bytes) ! i) j \<longleftrightarrow> 8 * i + j \<in> set (bitset_ordinals n bytes)"
      using i j by (simp add: bitset_of_bit [OF ordinals_ok_bitset])
    also have "\<dots> \<longleftrightarrow> bit (bytes ! i) j"
      using assms i j by (auto simp: set_bitset_ordinals zero_padding_bits)
    finally show "bit (bitset_of n (bitset_ordinals n bytes) ! i) j = bit (bytes ! i) j" .
  qed
qed (simp add: assms)

lemma zero_padding_of: "ordinals_ok n ordinals \<Longrightarrow> zero_padding n (bitset_of n ordinals)"
  by (auto simp: zero_padding_bits bitset_of_bit) (auto simp: ordinals_ok_def)

lemma decode_bitset_seen:
  "decode_bitset n k (cursor_at pre bs) = Inr (ordinals, c') \<longleftrightarrow>
     length ordinals = k \<and> ordinals_ok n ordinals \<and>
     (\<exists>ys. bs = bitset_of n ordinals @ ys \<and> c' = cursor_at (pre @ bitset_of n ordinals) ys)"
proof -
  have "decode_bitset n k (cursor_at pre bs) = Inr (ordinals, c') \<longleftrightarrow>
      (\<exists>bytes ys. bs = bytes @ ys \<and> length bytes = div_ceil_8 n \<and> c' = cursor_at (pre @ bytes) ys \<and>
        zero_padding n bytes \<and> bitset_ordinals n bytes = ordinals \<and> length ordinals = k)"
    (is "_ \<longleftrightarrow> ?bytes")
  proof -
    have "decode_bitset n k (cursor_at pre bs) = Inr (ordinals, c') \<longleftrightarrow>
        (\<exists>bytes c. cursor_take ProtocolTruncated (div_ceil_8 n) (cursor_at pre bs) = Inr (bytes, c) \<and>
          zero_padding n bytes \<and> length (bitset_ordinals n bytes) = k \<and> bitset_ordinals n bytes = ordinals \<and> c = c')"
      unfolding decode_bitset_def try_Inr zero_padding_def by (simp only: split_paired_Ex prod.case if_Inl_Inr) simp
    then show ?thesis unfolding cursor_take_seen by blast
  qed
  also have "\<dots> \<longleftrightarrow> (\<exists>ys. bs = bitset_of n ordinals @ ys \<and> c' = cursor_at (pre @ bitset_of n ordinals) ys \<and>
        ordinals_ok n ordinals \<and> length ordinals = k)" (is "?L \<longleftrightarrow> ?R")
  proof
    assume ?L
    then obtain bytes ys where b: "bs = bytes @ ys" "length bytes = div_ceil_8 n" "c' = cursor_at (pre @ bytes) ys"
        "zero_padding n bytes" "bitset_ordinals n bytes = ordinals" "length ordinals = k" by blast
    then show ?R using bitset_of_ordinals [OF b(2,4)] ordinals_ok_bitset [of n bytes] by auto
  next
    assume ?R then show ?L using bitset_ordinals_of zero_padding_of length_bitset_of by blast
  qed
  finally show ?thesis by blast
qed

section \<open>The mask of a commit\<close>

lemma decode_mutation_ordinals_seen:
  assumes "n \<le> 128 ^ 3"
  shows "decode_mutation_ordinals n k encoding (cursor_at pre bs) = Inr (ordinals, c') \<longleftrightarrow>
    length ordinals = k \<and> ordinals_ok n ordinals \<and> fst (encode_mutation_ordinals n ordinals) = encoding \<and>
    (\<exists>ys. bs = snd (encode_mutation_ordinals n ordinals) @ ys \<and>
      c' = cursor_at (pre @ snd (encode_mutation_ordinals n ordinals)) ys)"
proof -
  have ordinals: "decode_ordinals n k None (cursor_at pre bs) = Inr (os, c) \<longleftrightarrow>
      length os = k \<and> ordinals_ok n os \<and>
      (\<exists>ys. bs = encode_edit_ordinals os @ ys \<and> c = cursor_at (pre @ encode_edit_ordinals os) ys)" for os c
    using decode_ordinals_seen [OF assms, of k None pre bs os c] by (simp add: encode_edit_ordinals_def)
  show ?thesis
    by (auto simp: decode_mutation_ordinals_def encode_mutation_ordinals_def Let_def ordinals decode_bitset_seen
        EDIT_MUTATIONS_ORDINALS_def EDIT_MUTATIONS_BITSET_def split: if_splits)
qed

end
