(* ===== verification/Edit_Volume.thy ===== *)
theory Edit_Volume
  imports Coords
begin

text \<open>
  The stencils of gameplay edits (\<open>EditShape\<close> and \<open>EditVolume\<close>, \<open>world/src/protocol.rs\<close>): one
  cubic metre of voxels, as a cube or as the voxels whose centres lie in a sphere, anchored on a
  hit voxel or against a surface. The lemmas show which voxels a stencil lists, in which
  order and how many, and that a placement touches its surface without overlapping it.
\<close>

section \<open>Shapes and volumes\<close>

datatype edit_shape = ShapeSphere | ShapeCube

fun shape_from_id :: "nat \<Rightarrow> edit_shape option" where
  "shape_from_id i = (if i = 0 then Some ShapeSphere else if i = 1 then Some ShapeCube else None)"

fun shape_id :: "edit_shape \<Rightarrow> nat" where
  "shape_id ShapeSphere = 0" | "shape_id ShapeCube = 1"

fun shape_next :: "edit_shape \<Rightarrow> edit_shape" where
  "shape_next ShapeSphere = ShapeCube" | "shape_next ShapeCube = ShapeSphere"

definition EDIT_CUBE_EDGE_VOXELS :: int where "EDIT_CUBE_EDGE_VOXELS = 10"
definition EDIT_CUBE_VOLUME_VOXELS :: nat where "EDIT_CUBE_VOLUME_VOXELS = 1000"
definition EDIT_SPHERE_BOUND_VOXELS :: int where "EDIT_SPHERE_BOUND_VOXELS = 7"
definition EDIT_SPHERE_RADIUS_SQUARED_CEIL :: int where "EDIT_SPHERE_RADIUS_SQUARED_CEIL = 39"

definition edit_sphere_volume_voxel_count :: nat where
  "edit_sphere_volume_voxel_count =
     (let radius = EDIT_SPHERE_BOUND_VOXELS - 1 in
      fold (\<lambda>x. fold (\<lambda>y. fold (\<lambda>z count.
          if x * x + y * y + z * z < EDIT_SPHERE_RADIUS_SQUARED_CEIL then Suc count else count)
        [-radius..radius]) [-radius..radius]) [-radius..radius] 0)"

definition EDIT_SPHERE_VOLUME_VOXELS :: nat where
  "EDIT_SPHERE_VOLUME_VOXELS = edit_sphere_volume_voxel_count"
definition EDIT_MAX_VOLUME_VOXELS :: nat where "EDIT_MAX_VOLUME_VOXELS = EDIT_SPHERE_VOLUME_VOXELS"

fun shape_voxel_count :: "edit_shape \<Rightarrow> nat" where
  "shape_voxel_count ShapeSphere = EDIT_SPHERE_VOLUME_VOXELS"
| "shape_voxel_count ShapeCube = EDIT_CUBE_VOLUME_VOXELS"

record edit_volume =
  ev_min :: voxel_coord
  ev_max :: voxel_coord
  ev_anchor :: voxel_coord
  ev_shape :: edit_shape

fun shape_bounds :: "edit_shape \<Rightarrow> int \<times> int" where
  "shape_bounds ShapeSphere = (EDIT_SPHERE_BOUND_VOXELS - 1, EDIT_SPHERE_BOUND_VOXELS - 1)"
| "shape_bounds ShapeCube = (EDIT_CUBE_EDGE_VOXELS div 2 - 1, EDIT_CUBE_EDGE_VOXELS div 2)"

definition volume_for_hit :: "voxel_coord \<Rightarrow> edit_shape \<Rightarrow> edit_volume option" where
  "volume_for_hit hit shape =
     (let (lower, upper) = shape_bounds shape in
      Option.bind (i32_try (vx hit - lower)) (\<lambda>x0. Option.bind (i32_try (vy hit - lower)) (\<lambda>y0.
      Option.bind (i32_try (vz hit - lower)) (\<lambda>z0. Option.bind (i32_checked_add (vx hit) upper) (\<lambda>x1.
      Option.bind (i32_checked_add (vy hit) upper) (\<lambda>y1. Option.bind (i32_checked_add (vz hit) upper) (\<lambda>z1.
        Some \<lparr>ev_min = voxel_at x0 y0 z0, ev_max = voxel_at x1 y1 z1, ev_anchor = hit, ev_shape = shape\<rparr>)))))))"

text \<open>The unsigned sum of the normal's components wraps in \<open>u32\<close>.\<close>

definition anchor_axis :: "int \<Rightarrow> int \<Rightarrow> int \<Rightarrow> int \<Rightarrow> int option" where
  "anchor_axis surface normal origin_min origin_max =
     (if normal = 1 then i32_checked_add surface (1 - origin_min)
      else if normal = -1 then i32_try (surface - (1 + origin_max)) else Some surface)"

definition volume_for_placement :: "voxel_coord \<Rightarrow> int \<times> int \<times> int \<Rightarrow> edit_shape \<Rightarrow> edit_volume option" where
  "volume_for_placement surface normal shape =
     (case normal of (nx, ny, nz) \<Rightarrow>
        if (\<bar>nx\<bar> + \<bar>ny\<bar> + \<bar>nz\<bar>) mod 2 ^ 32 \<noteq> 1 then None
        else Option.bind (volume_for_hit (voxel_at 0 0 0) shape) (\<lambda>origin.
          Option.bind (anchor_axis (vx surface) nx (vx (ev_min origin)) (vx (ev_max origin))) (\<lambda>x.
          Option.bind (anchor_axis (vy surface) ny (vy (ev_min origin)) (vy (ev_max origin))) (\<lambda>y.
          Option.bind (anchor_axis (vz surface) nz (vz (ev_min origin)) (vz (ev_max origin))) (\<lambda>z.
            volume_for_hit (voxel_at x y z) shape)))))"

definition sample_shape :: "edit_volume \<Rightarrow> nat \<times> nat \<times> nat" where
  "sample_shape v = (nat (vx (ev_max v) - vx (ev_min v) + 1), nat (vy (ev_max v) - vy (ev_min v) + 1),
     nat (vz (ev_max v) - vz (ev_min v) + 1))"

definition volume_contains :: "edit_volume \<Rightarrow> voxel_coord \<Rightarrow> bool" where
  "volume_contains v c \<longleftrightarrow>
     (if \<not> (vx c \<ge> vx (ev_min v) \<and> vx c \<le> vx (ev_max v) \<and> vy c \<ge> vy (ev_min v) \<and> vy c \<le> vy (ev_max v) \<and>
            vz c \<ge> vz (ev_min v) \<and> vz c \<le> vz (ev_max v)) then False
      else case ev_shape v of
        ShapeCube \<Rightarrow> True
      | ShapeSphere \<Rightarrow>
          let dx = vx c - vx (ev_anchor v); dy = vy c - vy (ev_anchor v); dz = vz c - vz (ev_anchor v)
          in dx * dx + dy * dy + dz * dz < EDIT_SPHERE_RADIUS_SQUARED_CEIL)"

definition volume_coordinates :: "edit_volume \<Rightarrow> voxel_coord list" where
  "volume_coordinates v =
     filter (volume_contains v)
       (concat (map (\<lambda>x. concat (map (\<lambda>y. map (\<lambda>z. voxel_at x y z)
         [vz (ev_min v)..vz (ev_max v)]) [vy (ev_min v)..vy (ev_max v)])) [vx (ev_min v)..vx (ev_max v)]))"

section \<open>What a stencil lists\<close>

lemmas volume_consts = EDIT_CUBE_EDGE_VOXELS_def EDIT_CUBE_VOLUME_VOXELS_def EDIT_SPHERE_BOUND_VOXELS_def
  EDIT_SPHERE_RADIUS_SQUARED_CEIL_def

lemma sphere_count: "edit_sphere_volume_voxel_count = 1021"
  by code_simp

lemma box_list_set:
  "c \<in> set (concat (map (\<lambda>x. concat (map (\<lambda>y. map (\<lambda>z. voxel_at x y z) [z0..z1]) [y0..y1])) [x0..x1])) \<longleftrightarrow>
     x0 \<le> vx c \<and> vx c \<le> x1 \<and> y0 \<le> vy c \<and> vy c \<le> y1 \<and> z0 \<le> vz c \<and> vz c \<le> z1"
proof -
  have "c \<in> set (concat (map (\<lambda>x. concat (map (\<lambda>y. map (\<lambda>z. voxel_at x y z) [z0..z1]) [y0..y1])) [x0..x1])) \<longleftrightarrow>
      (\<exists>x y z. c = voxel_at x y z \<and> x0 \<le> x \<and> x \<le> x1 \<and> y0 \<le> y \<and> y \<le> y1 \<and> z0 \<le> z \<and> z \<le> z1)"
    by (auto simp: image_iff intro!: bexI)
  also have "\<dots> \<longleftrightarrow> x0 \<le> vx c \<and> vx c \<le> x1 \<and> y0 \<le> vy c \<and> vy c \<le> y1 \<and> z0 \<le> vz c \<and> vz c \<le> z1"
    by (metis voxel_coord.select_convs(1-3) voxel_surjective)
  finally show ?thesis .
qed

lemma set_coordinates: "set (volume_coordinates v) = {c. volume_contains v c}"
  unfolding volume_coordinates_def set_filter box_list_set by (auto simp: volume_contains_def split: if_splits)

lemma sorted_concat_map:
  "sorted_wrt (<) xs \<Longrightarrow> \<forall>x \<in> set xs. sorted_wrt R (f x) \<Longrightarrow>
   \<forall>x \<in> set xs. \<forall>y \<in> set xs. x < y \<longrightarrow> (\<forall>a \<in> set (f x). \<forall>b \<in> set (f y). R a b) \<Longrightarrow> sorted_wrt R (concat (map f xs))"
proof (induction xs)
  case (Cons x xs)
  have "sorted_wrt R (concat (map f xs))" using Cons by simp
  moreover have "R a b" if "a \<in> set (f x)" "b \<in> set (concat (map f xs))" for a b
    using Cons.prems that by auto
  ultimately show ?case using Cons.prems(2) by (simp add: sorted_wrt_append)
qed simp

lemma strict_upto: "sorted_wrt (<) [a..b]"
  by (simp add: strict_sorted_iff)

lemma sorted_coordinates: "sorted_wrt (<) (volume_coordinates v)"
  unfolding volume_coordinates_def
  by (intro sorted_wrt_filter sorted_concat_map strict_upto ballI)
    (auto simp: sorted_wrt_map voxel_coord_less intro: sorted_wrt_mono_rel [OF _ strict_upto])

lemma volume_for_hit_Some:
  "volume_for_hit a s = Some v \<longleftrightarrow> (case shape_bounds s of (lower, upper) \<Rightarrow>
     voxel_ok (voxel_at (vx a - lower) (vy a - lower) (vz a - lower)) \<and>
     voxel_ok (voxel_at (vx a + upper) (vy a + upper) (vz a + upper)) \<and>
     v = \<lparr>ev_min = voxel_at (vx a - lower) (vy a - lower) (vz a - lower),
          ev_max = voxel_at (vx a + upper) (vy a + upper) (vz a + upper), ev_anchor = a, ev_shape = s\<rparr>)"
  by (auto simp: volume_for_hit_def bind_eq_Some_conv voxel_ok_def split: prod.splits)

text \<open>Membership relative to the anchor, the same at every anchor.\<close>

definition in_stencil :: "edit_shape \<Rightarrow> int \<Rightarrow> int \<Rightarrow> int \<Rightarrow> bool" where
  "in_stencil s dx dy dz \<longleftrightarrow> (case s of
     ShapeCube \<Rightarrow> -4 \<le> dx \<and> dx \<le> 5 \<and> -4 \<le> dy \<and> dy \<le> 5 \<and> -4 \<le> dz \<and> dz \<le> 5
   | ShapeSphere \<Rightarrow> -6 \<le> dx \<and> dx \<le> 6 \<and> -6 \<le> dy \<and> dy \<le> 6 \<and> -6 \<le> dz \<and> dz \<le> 6 \<and>
       dx * dx + dy * dy + dz * dz < 39)"

lemma volume_contains_stencil:
  "volume_for_hit a s = Some v \<Longrightarrow>
   volume_contains v c \<longleftrightarrow> in_stencil s (vx c - vx a) (vy c - vy a) (vz c - vz a)"
  by (cases s) (auto simp: volume_for_hit_Some volume_contains_def in_stencil_def volume_consts Let_def)

lemma count_nested:
  "fold (\<lambda>x. fold (\<lambda>y. fold (\<lambda>z count. if P x y z then Suc count else count) rs) rs) rs 0 =
     card {(x, y, z). x \<in> set rs \<and> y \<in> set rs \<and> z \<in> set rs \<and> P x y z}" if "distinct rs"
proof -
  have inner: "fold (\<lambda>z count. if Q z then Suc count else count) zs n = n + length (filter Q zs)" for Q zs n
    by (induction zs arbitrary: n) auto
  have sum: "fold (\<lambda>y n. n + f y) ys n = n + sum_list (map f ys)" for f :: "'a \<Rightarrow> nat" and ys n
    by (induction ys arbitrary: n) auto
  have fold_z: "(\<lambda>y. fold (\<lambda>z count. if P x y z then Suc count else count) rs) = (\<lambda>y n. n + length (filter (P x y) rs))" for x
    by (simp add: inner fun_eq_iff)
  have fold_y: "(\<lambda>x. fold (\<lambda>y. fold (\<lambda>z count. if P x y z then Suc count else count) rs) rs) =
      (\<lambda>x n. n + sum_list (map (\<lambda>y. length (filter (P x y) rs)) rs))"
    unfolding fold_z by (simp add: sum fun_eq_iff)
  let ?ps = "filter (\<lambda>(x, y, z). P x y z) (List.product rs (List.product rs rs))"
  have "fold (\<lambda>x. fold (\<lambda>y. fold (\<lambda>z count. if P x y z then Suc count else count) rs) rs) rs 0 =
      sum_list (map (\<lambda>x. sum_list (map (\<lambda>y. length (filter (P x y) rs)) rs)) rs)"
    unfolding fold_y by (simp add: sum)
  also have "\<dots> = length ?ps"
    by (simp add: product_concat_map filter_concat length_concat comp_def filter_map)
  also have "\<dots> = card (set ?ps)" using that by (intro distinct_card [symmetric] distinct_filter distinct_product)
  also have "set ?ps = {(x, y, z). x \<in> set rs \<and> y \<in> set rs \<and> z \<in> set rs \<and> P x y z}" by auto
  finally show ?thesis .
qed

lemma stencil_card: "card {(x, y, z). in_stencil s x y z} = shape_voxel_count s"
proof (cases s)
  case ShapeCube
  have "{(x, y, z). in_stencil ShapeCube x y z} = {-4..5} \<times> {-4..5} \<times> {-4..5}" by (auto simp: in_stencil_def)
  then show ?thesis by (simp add: ShapeCube card_cartesian_product volume_consts)
next
  case ShapeSphere
  have "{(x, y, z). x \<in> set [-6..6] \<and> y \<in> set [-6..6] \<and> z \<in> set [-6..6] \<and> x * x + y * y + z * z < (39 :: int)} =
      {(x, y, z). in_stencil ShapeSphere x y z}"
    unfolding set_upto atLeastAtMost_iff in_stencil_def edit_shape.case by blast
  moreover have "(7 :: int) - 1 = 6" by simp
  ultimately show ?thesis
    using count_nested [of "[-6..6]" "\<lambda>x y z. x * x + y * y + z * z < (39 :: int)"]
    by (simp only: ShapeSphere shape_voxel_count.simps EDIT_SPHERE_VOLUME_VOXELS_def edit_sphere_volume_voxel_count_def
        volume_consts Let_def distinct_upto)
qed

lemma stencil_image:
  assumes "volume_for_hit a s = Some v"
  shows "{c. volume_contains v c} = (\<lambda>(dx, dy, dz). voxel_at (vx a + dx) (vy a + dy) (vz a + dz)) ` {(x, y, z). in_stencil s x y z}"
proof (intro set_eqI iffI)
  fix c assume "c \<in> {c. volume_contains v c}"
  then show "c \<in> (\<lambda>(dx, dy, dz). voxel_at (vx a + dx) (vy a + dy) (vz a + dz)) ` {(x, y, z). in_stencil s x y z}"
    by (intro image_eqI [of _ _ "(vx c - vx a, vy c - vy a, vz c - vz a)"]) (simp_all add: volume_contains_stencil [OF assms])
qed (auto simp: volume_contains_stencil [OF assms])

lemma stencil_reach:
  "in_stencil s dx dy dz \<Longrightarrow> case s of ShapeSphere \<Rightarrow> \<bar>dx\<bar> \<le> 6 \<and> \<bar>dy\<bar> \<le> 6 \<and> \<bar>dz\<bar> \<le> 6
     | ShapeCube \<Rightarrow> -4 \<le> dx \<and> dx \<le> 5 \<and> -4 \<le> dy \<and> dy \<le> 5 \<and> -4 \<le> dz \<and> dz \<le> 5"
  by (auto simp: in_stencil_def split: edit_shape.splits)

lemma stencil_tips:
  "in_stencil ShapeSphere 6 0 0" "in_stencil ShapeSphere (-6) 0 0" "in_stencil ShapeSphere 0 6 0" "in_stencil ShapeSphere 0 (-6) 0"
  "in_stencil ShapeSphere 0 0 6" "in_stencil ShapeSphere 0 0 (-6)"
  "in_stencil ShapeCube 5 0 0" "in_stencil ShapeCube (-4) 0 0" "in_stencil ShapeCube 0 5 0" "in_stencil ShapeCube 0 (-4) 0"
  "in_stencil ShapeCube 0 0 5" "in_stencil ShapeCube 0 0 (-4)"
  by (simp_all add: in_stencil_def)

lemma length_coordinates:
  assumes "volume_for_hit a s = Some v"
  shows "length (volume_coordinates v) = shape_voxel_count s"
proof -
  have "distinct (volume_coordinates v)" using sorted_coordinates [of v] by (rule sorted_wrt_less_distinct)
  then have "length (volume_coordinates v) = card {c. volume_contains v c}"
    using distinct_card set_coordinates by metis
  also have "\<dots> = card {(x, y, z). in_stencil s x y z}"
    unfolding stencil_image [OF assms] by (intro card_image) (auto simp: inj_on_def)
  finally show ?thesis by (simp add: stencil_card)
qed

text \<open>
  C39: edit stencils. The voxels of a stencil are listed in strictly ascending order, without
  duplicates; they are exactly those it contains, the anchor among them; and there are as many as
  the shape promises, 1,000 for the cube and 1,021 for the sphere, wherever it is anchored.
\<close>

theorem stencil_exact:
  assumes "volume_for_hit a s = Some v"
  shows "sorted_wrt (<) (volume_coordinates v) \<and> set (volume_coordinates v) = {c. volume_contains v c} \<and>
    volume_contains v a \<and> length (volume_coordinates v) = shape_voxel_count s \<and>
    shape_voxel_count s = (case s of ShapeSphere \<Rightarrow> 1021 | ShapeCube \<Rightarrow> 1000)"
  using sorted_coordinates set_coordinates length_coordinates [OF assms] volume_contains_stencil [OF assms, of a] sphere_count
  by (cases s) (simp_all add: in_stencil_def EDIT_SPHERE_VOLUME_VOXELS_def volume_consts)

theorem stencil_exact_witness:
  "\<exists>v. volume_for_hit (voxel_at 3 4 (-5)) ShapeSphere = Some v \<and> length (volume_coordinates v) = 1021"
proof -
  obtain v where v: "volume_for_hit (voxel_at 3 4 (-5)) ShapeSphere = Some v"
    by (simp add: volume_for_hit_Some voxel_ok_def i32_ok_def volume_consts)
  from stencil_exact [OF v] v show ?thesis by auto
qed

section \<open>Placements\<close>

text \<open>
  Placements touch their surface. A stencil placed against a face of a surface voxel holds the
  voxel in front of that face, and every voxel of it lies beyond the face, so it never overlaps the
  surface it is placed on.
\<close>

theorem placement_touches_surface:
  assumes "volume_for_placement s (nx, ny, nz) shape = Some v" "\<bar>nx\<bar> + \<bar>ny\<bar> + \<bar>nz\<bar> = 1"
  shows "volume_contains v (voxel_at (vx s + nx) (vy s + ny) (vz s + nz)) \<and>
    (\<forall>c. volume_contains v c \<longrightarrow> (vx c - vx s) * nx + (vy c - vy s) * ny + (vz c - vz s) * nz \<ge> 1)"
proof -
  obtain origin x y z where o: "volume_for_hit (voxel_at 0 0 0) shape = Some origin"
    and x: "anchor_axis (vx s) nx (vx (ev_min origin)) (vx (ev_max origin)) = Some x"
    and y: "anchor_axis (vy s) ny (vy (ev_min origin)) (vy (ev_max origin)) = Some y"
    and z: "anchor_axis (vz s) nz (vz (ev_min origin)) (vz (ev_max origin)) = Some z"
    and v: "volume_for_hit (voxel_at x y z) shape = Some v"
    using assms(1) by (auto simp: volume_for_placement_def bind_eq_Some_conv split: if_splits)
  have ax: "anchor_axis p n lo hi = Some w \<Longrightarrow> w = (if n = 1 then p + 1 - lo else if n = -1 then p - 1 - hi else p)" for p n lo hi w
    by (auto simp: anchor_axis_def split: if_splits)
  have lo: "vx (ev_min origin) = (case shape of ShapeSphere \<Rightarrow> -6 | ShapeCube \<Rightarrow> -4)" "vy (ev_min origin) = vx (ev_min origin)"
    "vz (ev_min origin) = vx (ev_min origin)" "vx (ev_max origin) = (case shape of ShapeSphere \<Rightarrow> 6 | ShapeCube \<Rightarrow> 5)"
    "vy (ev_max origin) = vx (ev_max origin)" "vz (ev_max origin) = vx (ev_max origin)"
    using o by (cases shape; simp add: volume_for_hit_Some volume_consts)+
  have unit: "nx = 1 \<and> ny = 0 \<and> nz = 0 \<or> nx = -1 \<and> ny = 0 \<and> nz = 0 \<or> nx = 0 \<and> ny = 1 \<and> nz = 0 \<or>
      nx = 0 \<and> ny = -1 \<and> nz = 0 \<or> nx = 0 \<and> ny = 0 \<and> nz = 1 \<or> nx = 0 \<and> ny = 0 \<and> nz = -1"
  proof -
    have "nx = -1 \<or> nx = 0 \<or> nx = 1" "ny = -1 \<or> ny = 0 \<or> ny = 1" "nz = -1 \<or> nz = 0 \<or> nz = 1"
      using assms(2) by linarith+
    then show ?thesis using assms(2) by (elim disjE) simp_all
  qed
  have "in_stencil shape (vx s + nx - x) (vy s + ny - y) (vz s + nz - z)"
    using unit stencil_tips unfolding ax [OF x] ax [OF y] ax [OF z] lo by (elim disjE conjE; cases shape; simp)
  moreover have "(vx c - vx s) * nx + (vy c - vy s) * ny + (vz c - vz s) * nz \<ge> 1"
    if c: "in_stencil shape (vx c - x) (vy c - y) (vz c - z)" for c
    using unit stencil_reach [OF c] unfolding ax [OF x] ax [OF y] ax [OF z] lo
    by (elim disjE conjE; cases shape; simp add: abs_le_iff)
  ultimately show ?thesis unfolding volume_contains_stencil [OF v] voxel_coord.select_convs by blast
qed

theorem placement_touches_surface_witness:
  "\<exists>v. volume_for_placement (voxel_at 5 6 7) (0, -1, 0) ShapeSphere = Some v \<and> volume_contains v (voxel_at 5 5 7)"
proof -
  have o: "volume_for_hit (voxel_at 0 0 0) ShapeSphere =
      Some \<lparr>ev_min = voxel_at (-6) (-6) (-6), ev_max = voxel_at 6 6 6, ev_anchor = voxel_at 0 0 0, ev_shape = ShapeSphere\<rparr>"
    by (simp add: volume_for_hit_Some voxel_ok_def i32_ok_def volume_consts)
  obtain v where v: "volume_for_placement (voxel_at 5 6 7) (0, -1, 0) ShapeSphere = Some v"
    by (simp add: volume_for_placement_def o anchor_axis_def i32_try_def i32_ok_def)
      (simp add: volume_for_hit_Some voxel_ok_def i32_ok_def volume_consts)
  from placement_touches_surface [OF v] v show ?thesis by simp
qed

end
