(* ===== verification/Edit_Messages.thy ===== *)
theory Edit_Messages
  imports Edit_Mutations Edit_Volume Edit_Queries
begin

text \<open>
  The messages of gameplay edits (\<open>world/src/protocol.rs\<close>): the command a client submits and the
  commit the server broadcasts, with its semantic action, its compact mutation mask and the
  editor's inventory. The lemmas show that both are exact codecs, and that every edit of a stencil
  can be broadcast: whatever the server selects from a stencil passes the wire limits.
\<close>

section \<open>Data\<close>

definition KIND_EDIT_COMMAND :: nat where "KIND_EDIT_COMMAND = 15"
definition KIND_EDIT_COMMIT :: nat where "KIND_EDIT_COMMIT = 16"
definition MATERIAL_INVENTORY_SLOTS :: nat where "MATERIAL_INVENTORY_SLOTS = length MATERIAL_ALL"
definition MAX_EDIT_MUTATIONS :: nat where "MAX_EDIT_MUTATIONS = EDIT_MAX_VOLUME_VOXELS"
definition MAX_EDIT_AFFECTED_CHUNKS :: nat where "MAX_EDIT_AFFECTED_CHUNKS = 27"

datatype edit_action =
    ActionDig voxel_coord edit_shape
  | ActionPlace voxel_coord material edit_shape

record edit_command =
  ed_operation_id :: u64
  ed_edit_session_id :: "u8 list"
  ed_action :: edit_action

record material_inventory =
  mi_revision :: u64
  mi_counts :: "u64 list"

record voxel_mutation =
  vm_coord :: voxel_coord
  vm_material :: material

record edit_commit =
  ct_operation_id :: u64
  ct_edit_session_id :: "u8 list"
  ct_editor_connection_id :: u64
  ct_revision :: u64
  ct_action :: edit_action
  ct_mutations :: "voxel_mutation list"
  ct_affected_chunks :: "chunk_coord list"
  ct_editor_inventory :: "material_inventory option"

definition session_nil :: "u8 list \<Rightarrow> bool" where
  "session_nil session_id \<longleftrightarrow> session_id = replicate 16 0"

fun action_target :: "edit_action \<Rightarrow> voxel_coord" where
  "action_target (ActionDig hit shape) = hit"
| "action_target (ActionPlace coord material shape) = coord"

fun edit_action_volume :: "edit_action \<Rightarrow> edit_volume option" where
  "edit_action_volume (ActionDig hit shape) = volume_for_hit hit shape"
| "edit_action_volume (ActionPlace coord material shape) = volume_for_hit coord shape"

fun edit_action_material :: "edit_action \<Rightarrow> material" where
  "edit_action_material (ActionDig hit shape) = Air"
| "edit_action_material (ActionPlace coord material shape) = material"

definition reissue_after_session_rotation :: "edit_command \<Rightarrow> u64 \<Rightarrow> u8 list \<Rightarrow> edit_command option" where
  "reissue_after_session_rotation command operation_id edit_session_id =
     (if ed_edit_session_id command = edit_session_id \<or> operation_id = 0 then None
      else Some \<lparr>ed_operation_id = operation_id, ed_edit_session_id = edit_session_id, ed_action = ed_action command\<rparr>)"

section \<open>Actions and coordinates\<close>

definition validate_voxel_coord :: "voxel_coord \<Rightarrow> protocol_error + unit" where
  "validate_voxel_coord coord =
     (if \<not> is_world_representable (voxel_chunk coord) then Inl (InvalidPayload ''invalid voxel coordinate'') else Inr ())"

definition encode_voxel_coord :: "voxel_coord \<Rightarrow> u8 list" where
  "encode_voxel_coord coord = i32_le (vx coord) @ i32_le (vy coord) @ i32_le (vz coord)"

definition decode_voxel_coord :: "cursor \<Rightarrow> protocol_error + (voxel_coord \<times> cursor)" where
  "decode_voxel_coord c =
     attempt (cursor_i32 ProtocolTruncated c) (\<lambda>(x, c).
     attempt (cursor_i32 ProtocolTruncated c) (\<lambda>(y, c).
     attempt (cursor_i32 ProtocolTruncated c) (\<lambda>(z, c).
     attempt (validate_voxel_coord (voxel_at x y z)) (\<lambda>_. Inr (voxel_at x y z, c)))))"

definition check_action_volume :: "edit_action \<Rightarrow> protocol_error + unit" where
  "check_action_volume action =
     (if edit_action_volume action = None then Inl (InvalidPayload ''edit action volume exceeds world coordinates'')
      else Inr ())"

definition encode_edit_action :: "edit_action \<Rightarrow> protocol_error + nat \<times> nat \<times> nat \<times> voxel_coord" where
  "encode_edit_action action =
     attempt (case action of
         ActionDig hit shape \<Rightarrow> Inr (1, shape_id shape, 0, hit)
       | ActionPlace coord material shape \<Rightarrow>
           if material = Air then Inl (InvalidPayload ''cannot place air; use the dig action'')
           else Inr (2, shape_id shape, material_id material, coord)) (\<lambda>encoded.
     attempt (validate_voxel_coord (snd (snd (snd encoded)))) (\<lambda>_.
     attempt (check_action_volume action) (\<lambda>_. Inr encoded)))"

definition decode_edit_action :: "nat \<Rightarrow> nat \<Rightarrow> nat \<Rightarrow> voxel_coord \<Rightarrow> protocol_error + edit_action" where
  "decode_edit_action kind shape material_number coord =
     attempt (validate_voxel_coord coord) (\<lambda>_.
     attempt (ok_or (UnknownEnum ''edit shape'' shape) (shape_from_id shape)) (\<lambda>shape.
     attempt (if kind = 1 then
                if material_number = 0 then Inr (ActionDig coord shape)
                else Inl (InvalidPayload ''dig action has a nonzero material'')
              else if kind = 2 then
                attempt (ok_or (UnknownEnum ''material'' material_number) (material_from_id material_number)) (\<lambda>material.
                if material = Air then Inl (InvalidPayload ''cannot place air; use the dig action'')
                else Inr (ActionPlace coord material shape))
              else Inl (UnknownEnum ''edit action'' kind)) (\<lambda>action.
     attempt (check_action_volume action) (\<lambda>_. Inr action))))"

section \<open>Commands\<close>

definition encode_edit_command :: "edit_command \<Rightarrow> protocol_error + u8 list" where
  "encode_edit_command command =
     (if ed_operation_id command = 0 then Inl (InvalidPayload ''edit operation id must be nonzero'')
      else if session_nil (ed_edit_session_id command) then Inl (InvalidPayload ''edit session id is nil'')
      else attempt (encode_edit_action (ed_action command)) (\<lambda>(kind, argument, material_number, coord).
        Inr (encode_frame KIND_EDIT_COMMAND (ed_operation_id command)
          (ed_edit_session_id command @ [of_nat kind, of_nat argument] @ u16_le material_number @ encode_voxel_coord coord))))"

definition decode_edit_command :: "u8 list \<Rightarrow> protocol_error + edit_command" where
  "decode_edit_command bytes =
     attempt (decode_frame bytes) (\<lambda>frame.
     attempt (expect_kind frame KIND_EDIT_COMMAND) (\<lambda>_.
     if fr_request_id frame = 0 then Inl (InvalidPayload ''edit operation id must be nonzero'') else
     attempt (cursor_take ProtocolTruncated 16 (cursor_new (fr_payload frame))) (\<lambda>(edit_session_id, c).
     if session_nil edit_session_id then Inl (InvalidPayload ''edit session id is nil'') else
     attempt (cursor_u8 ProtocolTruncated c) (\<lambda>(kind, c).
     attempt (cursor_u8 ProtocolTruncated c) (\<lambda>(argument, c).
     attempt (cursor_u16 ProtocolTruncated c) (\<lambda>(material_number, c).
     attempt (decode_voxel_coord c) (\<lambda>(coord, c).
     attempt (cursor_finish c) (\<lambda>_.
     attempt (decode_edit_action (unat kind) (unat argument) material_number coord) (\<lambda>action.
       Inr \<lparr>ed_operation_id = fr_request_id frame, ed_edit_session_id = edit_session_id, ed_action = action\<rparr>)))))))))"

section \<open>Commits\<close>

text \<open>
  One pass over the candidates of the stencil marks those the commit mutated: the bitset, the
  ordinals, and the index of the next mutation to match.
\<close>

definition match_candidate ::
    "voxel_mutation list \<Rightarrow> nat \<times> voxel_coord \<Rightarrow> u8 list \<times> nat list \<times> nat \<Rightarrow> u8 list \<times> nat list \<times> nat" where
  "match_candidate mutations = (\<lambda>(ordinal, coord) (bitset, ordinals, mutation_index).
     if mutation_index < length mutations \<and> vm_coord (mutations ! mutation_index) = coord
     then (set_ordinal ordinal bitset, ordinals @ [ordinal], mutation_index + 1)
     else (bitset, ordinals, mutation_index))"

definition encode_edit_mutations :: "edit_action \<Rightarrow> voxel_mutation list \<Rightarrow> protocol_error + nat \<times> u8 list" where
  "encode_edit_mutations action mutations =
     attempt (ok_or (InvalidPayload ''edit action volume exceeds world coordinates'') (edit_action_volume action)) (\<lambda>volume.
     let candidates = volume_coordinates volume in
     case fold (match_candidate mutations) (List.enumerate 0 candidates)
         (replicate (div_ceil_8 (length candidates)) 0, [], 0) of (bitset, ordinals, mutation_index) \<Rightarrow>
     let ordinal_bytes = encode_edit_ordinals ordinals in
     if length bitset < length ordinal_bytes then Inr (EDIT_MUTATIONS_BITSET, bitset)
     else Inr (EDIT_MUTATIONS_ORDINALS, ordinal_bytes))"

definition decode_edit_mutations ::
    "edit_action \<Rightarrow> nat \<Rightarrow> nat \<Rightarrow> cursor \<Rightarrow> protocol_error + (voxel_mutation list \<times> cursor)" where
  "decode_edit_mutations action mutation_count encoding c =
     attempt (ok_or (InvalidPayload ''edit action volume exceeds world coordinates'') (edit_action_volume action)) (\<lambda>volume.
     let candidates = volume_coordinates volume in
     attempt (decode_mutation_ordinals (length candidates) mutation_count encoding c) (\<lambda>(ordinals, c).
     let material = edit_action_material action in
     Inr (map (\<lambda>ordinal. \<lparr>vm_coord = candidates ! ordinal, vm_material = material\<rparr>) ordinals, c)))"

definition validate_inventory :: "material_inventory \<Rightarrow> protocol_error + unit" where
  "validate_inventory inventory =
     (if mi_revision inventory = 0 then Inl (InvalidPayload ''inventory revision is zero'')
      else if mi_counts inventory ! material_id Air \<noteq> 0 then Inl (InvalidPayload ''air inventory count is nonzero'')
      else Inr ())"

definition encode_inventory :: "material_inventory \<Rightarrow> u8 list" where
  "encode_inventory inventory = u64_le (mi_revision inventory) @ concat (map u64_le (mi_counts inventory))"

definition decode_inventory :: "cursor \<Rightarrow> protocol_error + (material_inventory \<times> cursor)" where
  "decode_inventory c =
     attempt (cursor_u64 ProtocolTruncated c) (\<lambda>(revision, c).
     attempt (decode_many (cursor_u64 ProtocolTruncated) MATERIAL_INVENTORY_SLOTS c) (\<lambda>(counts, c).
     let inventory = \<lparr>mi_revision = revision, mi_counts = counts\<rparr> in
     attempt (validate_inventory inventory) (\<lambda>_. Inr (inventory, c))))"

fun strictly_sorted :: "('a :: linorder) list \<Rightarrow> bool" where
  "strictly_sorted (x # y # zs) \<longleftrightarrow> x < y \<and> strictly_sorted (y # zs)"
| "strictly_sorted _ \<longleftrightarrow> True"

text \<open>Collecting the chunks of every mutation into a \<open>BTreeSet\<close> sorts them and drops duplicates.\<close>

definition mutation_chunks :: "voxel_mutation list \<Rightarrow> chunk_coord list" where
  "mutation_chunks mutations =
     sort (remdups (concat (map (\<lambda>mutation. affected_chunks (vm_coord mutation)) mutations)))"

definition is_place :: "edit_action \<Rightarrow> bool" where
  "is_place action \<longleftrightarrow> (case action of ActionPlace _ _ _ \<Rightarrow> True | _ \<Rightarrow> False)"

definition validate_edit_commit :: "edit_commit \<Rightarrow> protocol_error + unit" where
  "validate_edit_commit commit =
     (if ct_operation_id commit = 0 then Inl (InvalidPayload ''edit operation id must be nonzero'')
      else if ct_editor_connection_id commit = 0 then Inl (InvalidPayload ''edit connection id must be nonzero'')
      else if ct_revision commit = 0 then Inl (InvalidPayload ''edit revision must be nonzero'')
      else if session_nil (ct_edit_session_id commit) then Inl (InvalidPayload ''edit session id is nil'')
      else attempt (encode_edit_action (ct_action commit)) (\<lambda>_.
      if length (ct_mutations commit) > MAX_EDIT_MUTATIONS then Inl (ProtocolLimitExceeded ''edit mutations'')
      else if \<not> strictly_sorted (map vm_coord (ct_mutations commit))
        then Inl (InvalidPayload ''edit mutations are not strictly coordinate-sorted'')
      else if list_ex (\<lambda>mutation. validate_voxel_coord (vm_coord mutation) \<noteq> Inr ()) (ct_mutations commit)
        then Inl (InvalidPayload ''invalid voxel coordinate'')
      else attempt (ok_or (InvalidPayload ''edit action volume exceeds world coordinates'')
          (edit_action_volume (ct_action commit))) (\<lambda>volume.
      let expected_material = edit_action_material (ct_action commit) in
      if list_ex (\<lambda>mutation. \<not> volume_contains volume (vm_coord mutation) \<or> vm_material mutation \<noteq> expected_material)
          (ct_mutations commit)
        then Inl (InvalidPayload ''edit mutations do not match their semantic action'')
      else if is_place (ct_action commit) \<and> length (ct_mutations commit) \<noteq> length (volume_coordinates volume)
        then Inl (InvalidPayload ''placed stencil is not complete'')
      else if length (ct_affected_chunks commit) > MAX_EDIT_AFFECTED_CHUNKS
        then Inl (ProtocolLimitExceeded ''edit affected chunks'')
      else if ct_mutations commit = [] \<and> ct_affected_chunks commit \<noteq> [] \<or>
              ct_mutations commit \<noteq> [] \<and> ct_affected_chunks commit = []
        then Inl (InvalidPayload ''no-op edit has affected products or changed edit omits them'')
      else if \<not> strictly_sorted (ct_affected_chunks commit)
        then Inl (InvalidPayload ''edit affected chunks are not strictly sorted'')
      else if ct_affected_chunks commit \<noteq> mutation_chunks (ct_mutations commit)
        then Inl (InvalidPayload ''edit affected chunks do not match mutation halos'')
      else if list_ex (\<lambda>coord. \<not> is_world_representable coord) (ct_affected_chunks commit)
        then Inl (InvalidPayload ''invalid chunk coordinate'')
      else (case ct_editor_inventory commit of Some inventory \<Rightarrow> validate_inventory inventory | None \<Rightarrow> Inr ()))))"

definition encode_edit_commit :: "edit_commit \<Rightarrow> protocol_error + u8 list" where
  "encode_edit_commit commit =
     attempt (validate_edit_commit commit) (\<lambda>_.
     attempt (encode_edit_action (ct_action commit)) (\<lambda>(action_kind, shape, material, target).
     attempt (encode_edit_mutations (ct_action commit) (ct_mutations commit)) (\<lambda>(mutation_encoding, encoded_mutations).
       Inr (encode_frame KIND_EDIT_COMMIT (ct_operation_id commit)
         (ct_edit_session_id commit @ u64_le (ct_editor_connection_id commit) @ u64_le (ct_revision commit) @
          [of_nat action_kind, of_nat shape, of_nat mutation_encoding, 0] @ u16_le material @ u16_le 0 @
          encode_voxel_coord target @ u16_le (length (ct_mutations commit) mod 2 ^ 16) @
          u16_le (if ct_editor_inventory commit \<noteq> None then 1 else 0) @ u16_le 0 @ encoded_mutations @
          (case ct_editor_inventory commit of Some inventory \<Rightarrow> encode_inventory inventory | None \<Rightarrow> []))))))"

definition read_inventory :: "nat \<Rightarrow> cursor \<Rightarrow> protocol_error + (material_inventory option \<times> cursor)" where
  "read_inventory inventory_present c =
     (if inventory_present = 1 then attempt (decode_inventory c) (\<lambda>(inventory, c). Inr (Some inventory, c))
      else Inr (None, c))"

definition decode_edit_commit :: "u8 list \<Rightarrow> protocol_error + edit_commit" where
  "decode_edit_commit bytes =
     attempt (decode_frame bytes) (\<lambda>frame.
     attempt (expect_kind frame KIND_EDIT_COMMIT) (\<lambda>_.
     if fr_request_id frame = 0 then Inl (InvalidPayload ''edit operation id must be nonzero'') else
     attempt (cursor_take ProtocolTruncated 16 (cursor_new (fr_payload frame))) (\<lambda>(edit_session_id, c).
     if session_nil edit_session_id then Inl (InvalidPayload ''edit session id is nil'') else
     attempt (cursor_u64 ProtocolTruncated c) (\<lambda>(editor_connection_id, c).
     attempt (cursor_u64 ProtocolTruncated c) (\<lambda>(revision, c).
     attempt (cursor_u8 ProtocolTruncated c) (\<lambda>(action_kind, c).
     attempt (cursor_u8 ProtocolTruncated c) (\<lambda>(shape, c).
     attempt (cursor_u8 ProtocolTruncated c) (\<lambda>(mutation_encoding, c).
     attempt (cursor_u8 ProtocolTruncated c) (\<lambda>(reserved, c).
     if reserved \<noteq> 0 then Inl (InvalidPayload ''reserved edit mutation byte is nonzero'') else
     attempt (cursor_u16 ProtocolTruncated c) (\<lambda>(material, c).
     attempt (cursor_u16 ProtocolTruncated c) (\<lambda>(reserved, c).
     if reserved \<noteq> 0 then Inl (InvalidPayload ''reserved edit action field is nonzero'') else
     attempt (decode_voxel_coord c) (\<lambda>(target, c).
     attempt (decode_edit_action (unat action_kind) (unat shape) material target) (\<lambda>action.
     attempt (cursor_u16 ProtocolTruncated c) (\<lambda>(mutation_count, c).
     attempt (cursor_u16 ProtocolTruncated c) (\<lambda>(inventory_present, c).
     attempt (cursor_u16 ProtocolTruncated c) (\<lambda>(reserved, c).
     if reserved \<noteq> 0 then Inl (InvalidPayload ''reserved edit commit field is nonzero'')
     else if mutation_count > MAX_EDIT_MUTATIONS then Inl (ProtocolLimitExceeded ''edit mutations'')
     else if inventory_present > 1 then Inl (InvalidPayload ''invalid edit inventory presence flag'') else
     attempt (decode_edit_mutations action mutation_count (unat mutation_encoding) c) (\<lambda>(mutations, c).
     attempt (read_inventory inventory_present c) (\<lambda>(editor_inventory, c).
     attempt (cursor_finish c) (\<lambda>_.
     let commit = \<lparr>ct_operation_id = fr_request_id frame, ct_edit_session_id = edit_session_id,
           ct_editor_connection_id = editor_connection_id, ct_revision = revision, ct_action = action,
           ct_mutations = mutations, ct_affected_chunks = mutation_chunks mutations,
           ct_editor_inventory = editor_inventory\<rparr> in
     attempt (validate_edit_commit commit) (\<lambda>_. Inr commit))))))))))))))))))))"

section \<open>Fields\<close>

lemma voxel_ok_validates: "voxel_ok v \<Longrightarrow> validate_voxel_coord v = Inr ()"
  by (simp add: validate_voxel_coord_def voxel_chunk_representable)

interpretation voxel_body: body_codec encode_voxel_coord decode_voxel_coord voxel_ok
proof
  fix pre bs v c'
  have "voxel_ok (voxel_at x y z) \<longleftrightarrow> i32_ok x \<and> i32_ok y \<and> i32_ok z" for x y z by (simp add: voxel_ok_def)
  then show "decode_voxel_coord (cursor_at pre bs) = Inr (v, c') \<longleftrightarrow>
      voxel_ok v \<and> (\<exists>ys. bs = encode_voxel_coord v @ ys \<and> c' = cursor_at (pre @ encode_voxel_coord v) ys)"
    by (cases v) (auto simp: decode_voxel_coord_def encode_voxel_coord_def cursor_seen voxel_ok_validates)
qed

definition inventory_ok :: "material_inventory \<Rightarrow> bool" where
  "inventory_ok inventory \<longleftrightarrow> length (mi_counts inventory) = 15 \<and> validate_inventory inventory = Inr ()"

interpretation count_body: body_codec u64_le "cursor_u64 t" "\<lambda>_. True" for t
  by unfold_locales (simp add: cursor_seen)

lemma inventory_slots: "MATERIAL_INVENTORY_SLOTS = 15"
  by (simp add: MATERIAL_INVENTORY_SLOTS_def MATERIAL_ALL_def)

interpretation inventory_body: body_codec encode_inventory decode_inventory inventory_ok
proof
  fix pre bs i c'
  show "decode_inventory (cursor_at pre bs) = Inr (i, c') \<longleftrightarrow>
      inventory_ok i \<and> (\<exists>ys. bs = encode_inventory i @ ys \<and> c' = cursor_at (pre @ encode_inventory i) ys)"
    by (cases i) (auto simp: decode_inventory_def encode_inventory_def inventory_ok_def inventory_slots Let_def
      cursor_u64_seen count_body.decode_many_seen list_all_iff)
qed

lemma shape_ids:
  "shape_from_id n = Some s \<longleftrightarrow> n = shape_id s" "shape_id s \<le> Suc 0"
  by (cases s; auto)+

lemma material_ids:
  "material_from_id n = Some m \<longleftrightarrow> n = material_id m" "material_id m \<le> 14" "material_id m = 0 \<longleftrightarrow> m = Air"
  "0 < material_id m \<longleftrightarrow> m \<noteq> Air"
  by (cases m; auto simp: material_from_id_def)+

lemma validate_voxel_Inr: "validate_voxel_coord v = Inr u \<longleftrightarrow> is_world_representable (voxel_chunk v)"
  by (simp add: validate_voxel_coord_def)

lemma check_volume_Inr: "check_action_volume a = Inr u \<longleftrightarrow> edit_action_volume a \<noteq> None"
  by (simp add: check_action_volume_def)

text \<open>The four fields of an action stand for it, and only its own are accepted for it.\<close>

lemma decode_action_Inr:
  "decode_edit_action k s m c = Inr a \<longleftrightarrow> encode_edit_action a = Inr (k, s, m, c)"
proof -
  have ms: "ok_or e (material_from_id m) = Inr x \<longleftrightarrow> m = material_id x" for e :: protocol_error and x
    by (simp add: material_ids)
  have ss: "ok_or e (shape_from_id s) = Inr x \<longleftrightarrow> s = shape_id x" for e :: protocol_error and x
    by (simp only: ok_or_Inr shape_ids)
  show ?thesis
    unfolding decode_edit_action_def encode_edit_action_def try_Inr ms ss validate_voxel_Inr check_volume_Inr
    by (cases a) (auto split: if_splits simp: material_ids)
qed

lemma encode_action_fields:
  "encode_edit_action a = Inr (k, s, m, c) \<Longrightarrow> k \<le> 2 \<and> s \<le> 1 \<and> m \<le> 14 \<and> c = action_target a \<and> edit_action_volume a \<noteq> None"
  unfolding encode_edit_action_def try_Inr check_volume_Inr
  by (cases a) (auto simp: shape_ids material_ids split: if_splits)

section \<open>The mutations of an action\<close>

text \<open>What the marking pass computes: the ordinals of the candidates that match, in order.\<close>

fun matched :: "nat \<Rightarrow> voxel_coord list \<Rightarrow> voxel_coord list \<Rightarrow> nat list" where
  "matched k [] cs = []"
| "matched k (x # xs) [] = []"
| "matched k (x # xs) (c # cs) = (if c = x then k # matched (Suc k) xs cs else matched (Suc k) xs (c # cs))"

lemma matched_Nil [simp]: "matched k xs [] = []"
  by (cases xs) auto

lemma match_candidate_at:
  "match_candidate mutations (ordinal, coord) (bitset, ordinals, index) =
     (if index < length mutations \<and> vm_coord (mutations ! index) = coord
      then (set_ordinal ordinal bitset, ordinals @ [ordinal], Suc index) else (bitset, ordinals, index))"
  by (simp add: match_candidate_def)

lemma fold_match:
  "fold (match_candidate mutations) (List.enumerate k xs) (bitset, ordinals, index) =
     (let new = matched k xs (drop index (map vm_coord mutations)) in
      (fold set_ordinal new bitset, ordinals @ new, index + length new))"
proof (induction xs arbitrary: k bitset ordinals index)
  case (Cons x xs)
  show ?case
  proof (cases "index < length mutations")
    case True
    then have d: "drop index (map vm_coord mutations) =
        vm_coord (mutations ! index) # drop (Suc index) (map vm_coord mutations)"
      by (simp add: Cons_nth_drop_Suc [symmetric])
    show ?thesis
      by (cases "vm_coord (mutations ! index) = x")
        (simp_all add: match_candidate_at True d Cons.IH Let_def del: drop_map)
  next
    case False
    then show ?thesis by (simp add: match_candidate_at Cons.IH Let_def)
  qed
qed simp

lemma matched_ordinals:
  "distinct xs \<Longrightarrow> ordinals_ok (length xs) os \<Longrightarrow> matched k xs (map (\<lambda>i. xs ! i) os) = map ((+) k) os"
proof (induction xs arbitrary: k os)
  case Nil
  then show ?case by (cases os) (auto simp: ordinals_ok_def)
next
  case (Cons x xs)
  let ?down = "map (\<lambda>i. i - 1)"
  have below: "ordinals_ok (length xs) (?down os') \<and> map (\<lambda>i. (x # xs) ! i) os' = map (\<lambda>i. xs ! i) (?down os') \<and>
      map ((+) (Suc k)) (?down os') = map ((+) k) os'"
    if "ordinals_ok (length (x # xs)) os'" "\<forall>i \<in> set os'. 0 < i" for os'
    using that by (induction os') (auto simp: ordinals_ok_Cons ordinals_ok_def nth_Cons')
  show ?case
  proof (cases os)
    case (Cons o' rest)
    have rest: "ordinals_ok (length (x # xs)) rest" "\<forall>i \<in> set rest. o' < i" "o' < length (x # xs)"
      using Cons.prems(2) Cons by (auto simp: ordinals_ok_Cons)
    show ?thesis
    proof (cases "o' = 0")
      case True
      then have "\<forall>i \<in> set rest. 0 < i" using rest(2) by simp
      note b = below [OF rest(1) this]
      have "matched k (x # xs) (map (\<lambda>i. (x # xs) ! i) os) = k # matched (Suc k) xs (map (\<lambda>i. (x # xs) ! i) rest)"
        using Cons True by simp
      also have "\<dots> = k # map ((+) (Suc k)) (?down rest)"
        using b Cons.IH [of "?down rest" "Suc k"] Cons.prems(1) by (metis distinct.simps(2))
      also have "\<dots> = map ((+) k) os" using b by (simp only: Cons True list.map) simp
      finally show ?thesis .
    next
      case False
      then have "\<forall>i \<in> set os. 0 < i" using rest(2) Cons by auto
      note b = below [OF Cons.prems(2) this]
      have "(x # xs) ! o' \<noteq> x" using Cons.prems(1) rest(3) False by (auto simp: nth_Cons')
      then have "matched k (x # xs) (map (\<lambda>i. (x # xs) ! i) os) = matched (Suc k) xs (map (\<lambda>i. (x # xs) ! i) os)"
        using Cons by simp
      also have "\<dots> = map ((+) (Suc k)) (?down os)"
        using b Cons.IH [of "?down os" "Suc k"] Cons.prems(1) by (metis distinct.simps(2))
      also have "\<dots> = map ((+) k) os" using b by blast
      finally show ?thesis .
    qed
  qed simp
qed

text \<open>A strictly sorted selection of a strictly sorted list is given by its ordinals.\<close>

lemma selection_ordinals:
  assumes "sorted_wrt (<) (xs :: ('a :: linorder) list)" "sorted_wrt (<) cs" "set cs \<subseteq> set xs"
  shows "\<exists>os. ordinals_ok (length xs) os \<and> cs = map (\<lambda>i. xs ! i) os"
proof -
  let ?os = "filter (\<lambda>i. xs ! i \<in> set cs) [0..<length xs]"
  have ok: "ordinals_ok (length xs) ?os" by (simp add: ordinals_ok_def sorted_wrt_filter)
  have "set (map (\<lambda>i. xs ! i) ?os) = set cs" using assms(3) by (force simp: in_set_conv_nth)
  moreover have "sorted_wrt (<) (map (\<lambda>i. xs ! i) ?os)"
    using ok assms(1) unfolding sorted_wrt_map ordinals_ok_def
    by (elim conjE sorted_wrt_mono_rel [rotated]) (auto simp: sorted_wrt_nth_less)
  ultimately have "map (\<lambda>i. xs ! i) ?os = cs" using assms(2) by (intro strict_sorted_equal) auto
  then show ?thesis using ok by metis
qed

lemma ordinals_selection:
  assumes "sorted_wrt (<) xs" "ordinals_ok (length xs) os"
  shows "sorted_wrt (<) (map (\<lambda>i. xs ! i) os)" and "set (map (\<lambda>i. xs ! i) os) \<subseteq> set xs"
  using assms unfolding sorted_wrt_map ordinals_ok_def
  by (auto intro: sorted_wrt_nth_less elim!: sorted_wrt_mono_rel [rotated])

definition selection_ok :: "edit_action \<Rightarrow> voxel_mutation list \<Rightarrow> bool" where
  "selection_ok action mutations \<longleftrightarrow> (case edit_action_volume action of
     None \<Rightarrow> False
   | Some volume \<Rightarrow> sorted_wrt (<) (map vm_coord mutations) \<and>
       list_all (\<lambda>m. volume_contains volume (vm_coord m) \<and> vm_material m = edit_action_material action) mutations)"

definition selected :: "edit_action \<Rightarrow> edit_volume \<Rightarrow> nat list \<Rightarrow> voxel_mutation list" where
  "selected action volume =
     map (\<lambda>i. \<lparr>vm_coord = volume_coordinates volume ! i, vm_material = edit_action_material action\<rparr>)"

lemma selected_ordinals:
  assumes "edit_action_volume action = Some volume"
  shows "selection_ok action mutations \<longleftrightarrow>
    (\<exists>os. ordinals_ok (length (volume_coordinates volume)) os \<and> mutations = selected action volume os)"
proof
  assume ok: "selection_ok action mutations"
  then obtain os where os: "ordinals_ok (length (volume_coordinates volume)) os"
      "map vm_coord mutations = map (\<lambda>i. volume_coordinates volume ! i) os"
    using selection_ordinals [OF sorted_coordinates, of "map vm_coord mutations" volume] assms
    by (fastforce simp: selection_ok_def set_coordinates list_all_iff)
  have "mutations = map (\<lambda>c. \<lparr>vm_coord = c, vm_material = edit_action_material action\<rparr>) (map vm_coord mutations)"
    using ok assms by (auto simp: selection_ok_def list_all_iff intro!: map_idI [symmetric])
  also have "\<dots> = selected action volume os" unfolding os(2) by (simp add: selected_def)
  finally show "\<exists>os. ordinals_ok (length (volume_coordinates volume)) os \<and> mutations = selected action volume os"
    using os(1) by blast
next
  assume "\<exists>os. ordinals_ok (length (volume_coordinates volume)) os \<and> mutations = selected action volume os"
  then obtain os where os: "ordinals_ok (length (volume_coordinates volume)) os" "mutations = selected action volume os"
    by blast
  have m: "map vm_coord mutations = map (\<lambda>i. volume_coordinates volume ! i) os" by (simp add: os selected_def)
  note sel = ordinals_selection [OF sorted_coordinates os(1)]
  have "volume_contains volume (vm_coord x) \<and> vm_material x = edit_action_material action" if "x \<in> set mutations" for x
    using that sel(2) unfolding os(2) by (auto simp: selected_def set_coordinates)
  then show "selection_ok action mutations" using sel(1) unfolding selection_ok_def assms option.case m list_all_iff by blast
qed

lemma encode_selected:
  assumes v: "edit_action_volume action = Some volume" and os: "ordinals_ok (length (volume_coordinates volume)) os"
  shows "encode_edit_mutations action (selected action volume os) =
    Inr (encode_mutation_ordinals (length (volume_coordinates volume)) os)"
proof -
  have "distinct (volume_coordinates volume)" using sorted_coordinates by (rule sorted_wrt_less_distinct)
  then have "matched 0 (volume_coordinates volume) (map vm_coord (selected action volume os)) = os"
    using matched_ordinals [OF _ os, of 0] map_idI [of os "(+) 0"] by (simp add: selected_def comp_def)
  then show ?thesis
    by (simp add: encode_edit_mutations_def v fold_match Let_def encode_mutation_ordinals_def bitset_of_def)
qed

lemma stencil_small: "edit_action_volume action = Some volume \<Longrightarrow> length (volume_coordinates volume) \<le> 1021"
  by (cases action) (auto simp: length_coordinates stencil_exact split: edit_shape.splits)

definition mask_ok :: "edit_action \<Rightarrow> nat \<Rightarrow> nat \<Rightarrow> voxel_mutation list \<Rightarrow> bool" where
  "mask_ok action mutation_count encoding mutations \<longleftrightarrow> length mutations = mutation_count \<and>
     selection_ok action mutations \<and> map_sum id fst (encode_edit_mutations action mutations) = Inr encoding"

definition mask_bytes :: "edit_action \<Rightarrow> voxel_mutation list \<Rightarrow> u8 list" where
  "mask_bytes action mutations = (case encode_edit_mutations action mutations of Inr (_, bytes) \<Rightarrow> bytes | Inl _ \<Rightarrow> [])"

lemma selected_inj:
  assumes "ordinals_ok (length (volume_coordinates volume)) os" "ordinals_ok (length (volume_coordinates volume)) os'"
    and "selected action volume os = selected action volume os'"
  shows "os = os'"
proof -
  have d: "distinct (volume_coordinates volume)" using sorted_coordinates by (rule sorted_wrt_less_distinct)
  have "map vm_coord (selected action volume os) = map vm_coord (selected action volume os')" using assms(3) by simp
  then have h: "map (\<lambda>i. volume_coordinates volume ! i) os = map (\<lambda>i. volume_coordinates volume ! i) os'"
    unfolding selected_def map_map comp_def voxel_mutation.select_convs .
  have "map ((+) 0) os = map ((+) 0) os'"
    using matched_ordinals [OF d assms(1), of 0] unfolding h matched_ordinals [OF d assms(2)] by (rule sym)
  then show ?thesis unfolding map_idI [of os "(+) 0", OF add_0] map_idI [of os' "(+) 0", OF add_0] .
qed

interpretation mask_body: body_codec "mask_bytes action" "decode_edit_mutations action mutation_count encoding"
    "mask_ok action mutation_count encoding" for action mutation_count encoding
proof
  fix pre bs ms c'
  show "decode_edit_mutations action mutation_count encoding (cursor_at pre bs) = Inr (ms, c') \<longleftrightarrow>
      mask_ok action mutation_count encoding ms \<and>
      (\<exists>ys. bs = mask_bytes action ms @ ys \<and> c' = cursor_at (pre @ mask_bytes action ms) ys)"
  proof (cases "edit_action_volume action")
    case None
    then show ?thesis by (simp add: decode_edit_mutations_def mask_ok_def selection_ok_def)
  next
    case (Some volume)
    let ?n = "length (volume_coordinates volume)"
    have small: "?n \<le> 128 ^ 3" using stencil_small [OF Some] by simp
    have "decode_edit_mutations action mutation_count encoding (cursor_at pre bs) = Inr (ms, c') \<longleftrightarrow>
        (\<exists>os. decode_mutation_ordinals ?n mutation_count encoding (cursor_at pre bs) = Inr (os, c') \<and> ms = selected action volume os)"
      unfolding decode_edit_mutations_def Some ok_or_simps attempt.simps Let_def try_Inr selected_def
      by (simp only: split_paired_Ex prod.case sum.inject prod.inject) blast
    also have "\<dots> \<longleftrightarrow> (\<exists>os. ordinals_ok ?n os \<and> ms = selected action volume os \<and> length ms = mutation_count \<and>
        fst (encode_mutation_ordinals ?n os) = encoding \<and>
        (\<exists>ys. bs = snd (encode_mutation_ordinals ?n os) @ ys \<and>
          c' = cursor_at (pre @ snd (encode_mutation_ordinals ?n os)) ys))"
      unfolding decode_mutation_ordinals_seen [OF small] by (metis selected_def length_map)
    also have "\<dots> \<longleftrightarrow> mask_ok action mutation_count encoding ms \<and>
      (\<exists>ys. bs = mask_bytes action ms @ ys \<and> c' = cursor_at (pre @ mask_bytes action ms) ys)"
    proof (cases "\<exists>os. ordinals_ok ?n os \<and> ms = selected action volume os")
      case True
      then obtain os where os: "ordinals_ok ?n os" "ms = selected action volume os" by blast
      note enc = encode_selected [OF Some os(1)]
      have "selection_ok action ms" using selected_ordinals [OF Some] os by blast
      moreover have "mask_bytes action ms = snd (encode_mutation_ordinals ?n os)"
        by (simp add: mask_bytes_def os(2) enc split: prod.split)
      moreover have "map_sum id fst (encode_edit_mutations action ms) = Inr encoding \<longleftrightarrow>
          fst (encode_mutation_ordinals ?n os) = encoding" by (simp add: os(2) enc)
      moreover have "os' = os" if "ordinals_ok ?n os'" "ms = selected action volume os'" for os'
        using selected_inj that os by blast
      ultimately show ?thesis using os unfolding mask_ok_def by metis
    next
      case False
      then show ?thesis using selected_ordinals [OF Some] unfolding mask_ok_def by blast
    qed
    finally show ?thesis .
  qed
qed

section \<open>Commands round-trip\<close>

definition command_ok :: "edit_command \<Rightarrow> bool" where
  "command_ok m \<longleftrightarrow> length (ed_edit_session_id m) = 16 \<and> voxel_ok (action_target (ed_action m))"

lemma byte_unat: "n \<le> 255 \<Longrightarrow> unat (of_nat n :: u8) = n"
  by (simp add: unsigned_of_nat take_bit_eq_mod)

lemma length_voxel_coord [simp]: "length (encode_voxel_coord v) = 12"
  by (simp add: encode_voxel_coord_def)

interpretation command: message_codec encode_edit_command decode_edit_command command_ok
proof
  show "decode_edit_command b = Inr m" if ok: "command_ok m" and e: "encode_edit_command m = Inr b" for m b
  proof -
    obtain k s i c where a: "encode_edit_action (ed_action m) = Inr (k, s, i, c)"
      and b: "b = encode_frame KIND_EDIT_COMMAND (ed_operation_id m)
          (ed_edit_session_id m @ [of_nat k, of_nat s] @ u16_le i @ encode_voxel_coord c)"
      and ids: "ed_operation_id m \<noteq> 0" "\<not> session_nil (ed_edit_session_id m)"
      using e by (auto simp: encode_edit_command_def split: if_splits)
    note f = encode_action_fields [OF a]
    have d: "decode_edit_action k s i c = Inr (ed_action m)" using a by (simp add: decode_action_Inr)
    have c: "voxel_ok c" using f ok by (simp add: command_ok_def)
    have bytes: "unat (of_nat k :: u8) = k" "unat (of_nat s :: u8) = s" "i \<le> u16_max" using f by (simp_all add: byte_unat)
    show ?thesis using ok ids c bytes d voxel_body.dec_read [OF c, of _ "[]"] unfolding b decode_edit_command_def
      by (simp add: message_read KIND_EDIT_COMMAND_def command_ok_def del: try_Inr)
  qed
  show "command_ok m \<and> encode_edit_command m = Inr b" if d: "decode_edit_command b = Inr m" for m b
  proof -
    have "command_ok m \<and> encode_edit_command m = Inr b" if "encode_edit_action a = Inr (unat k, unat s, i, c)"
        "m = \<lparr>ed_operation_id = r, ed_edit_session_id = sid, ed_action = a\<rparr>" "voxel_ok c" "length sid = 16"
        "r \<noteq> 0" "\<not> session_nil sid"
        "b = encode_frame KIND_EDIT_COMMAND r (sid @ k # s # u16_le i @ encode_voxel_coord c)" for a k s i c r sid
      using that encode_action_fields [OF that(1)] by (simp add: command_ok_def encode_edit_command_def)
    then show ?thesis using d
      by (auto simp: decode_edit_command_def message_seen voxel_body.dec_seen decode_action_Inr split: if_splits)
  qed
qed

section \<open>Commits round-trip\<close>

lemma strictly_sorted_iff: "strictly_sorted xs \<longleftrightarrow> sorted_wrt (<) xs"
proof (induction xs rule: strictly_sorted.induct)
  case (1 x y zs)
  then show ?case by (auto dest: less_trans)
qed auto

lemma edit_max [simp]: "EDIT_MAX_VOLUME_VOXELS = 1021"
  by (simp add: EDIT_MAX_VOLUME_VOXELS_def EDIT_SPHERE_VOLUME_VOXELS_def sphere_count)

definition chunks_ok :: "edit_commit \<Rightarrow> bool" where
  "chunks_ok m \<longleftrightarrow> length (ct_affected_chunks m) \<le> 27 \<and> (ct_mutations m = [] \<longleftrightarrow> ct_affected_chunks m = []) \<and>
     sorted_wrt (<) (ct_affected_chunks m) \<and> ct_affected_chunks m = mutation_chunks (ct_mutations m) \<and>
     list_all is_world_representable (ct_affected_chunks m)"

definition inventory_valid :: "edit_commit \<Rightarrow> bool" where
  "inventory_valid m \<longleftrightarrow> pred_option (\<lambda>i. validate_inventory i = Inr ()) (ct_editor_inventory m)"

lemma validate_commit_Inr:
  "validate_edit_commit m = Inr () \<longleftrightarrow>
     ct_operation_id m \<noteq> 0 \<and> ct_editor_connection_id m \<noteq> 0 \<and> ct_revision m \<noteq> 0 \<and>
     \<not> session_nil (ct_edit_session_id m) \<and> (\<exists>e. encode_edit_action (ct_action m) = Inr e) \<and>
     length (ct_mutations m) \<le> 1021 \<and> list_all (\<lambda>x. is_world_representable (voxel_chunk (vm_coord x))) (ct_mutations m) \<and>
     selection_ok (ct_action m) (ct_mutations m) \<and>
     (is_place (ct_action m) \<longrightarrow> (\<forall>v. edit_action_volume (ct_action m) = Some v \<longrightarrow>
        length (ct_mutations m) = length (volume_coordinates v))) \<and> chunks_ok m \<and> inventory_valid m"
proof (cases "edit_action_volume (ct_action m)")
  case None
  then show ?thesis by (auto simp: validate_edit_commit_def selection_ok_def)
next
  case (Some v)
  have inv: "(case ct_editor_inventory m of Some i \<Rightarrow> validate_inventory i | None \<Rightarrow> Inr ()) = Inr () \<longleftrightarrow> inventory_valid m"
    by (simp add: inventory_valid_def split: option.split)
  have rep: "\<not> list_ex (\<lambda>x. validate_voxel_coord (vm_coord x) \<noteq> Inr ()) ms \<longleftrightarrow>
      list_all (\<lambda>x. is_world_representable (voxel_chunk (vm_coord x))) ms" for ms
    by (simp add: list_ex_iff list_all_iff validate_voxel_Inr)
  have sel: "selection_ok (ct_action m) (ct_mutations m) \<longleftrightarrow> strictly_sorted (map vm_coord (ct_mutations m)) \<and>
      \<not> list_ex (\<lambda>x. \<not> volume_contains v (vm_coord x) \<or> vm_material x \<noteq> edit_action_material (ct_action m)) (ct_mutations m)"
    by (auto simp: selection_ok_def Some strictly_sorted_iff list_ex_iff list_all_iff)
  have chunks: "chunks_ok m \<longleftrightarrow> \<not> length (ct_affected_chunks m) > MAX_EDIT_AFFECTED_CHUNKS \<and>
      \<not> (ct_mutations m = [] \<and> ct_affected_chunks m \<noteq> [] \<or> ct_mutations m \<noteq> [] \<and> ct_affected_chunks m = []) \<and>
      strictly_sorted (ct_affected_chunks m) \<and> ct_affected_chunks m = mutation_chunks (ct_mutations m) \<and>
      \<not> list_ex (\<lambda>c. \<not> is_world_representable c) (ct_affected_chunks m)"
    by (auto simp: chunks_ok_def MAX_EDIT_AFFECTED_CHUNKS_def strictly_sorted_iff list_ex_iff list_all_iff)
  show ?thesis
    unfolding validate_edit_commit_def if_Inl_Inr try_Inr Some ok_or_simps sum.inject Let_def inv rep sel chunks
      MAX_EDIT_MUTATIONS_def edit_max not_not not_less option.inject
    by blast
qed

definition commit_ok :: "edit_commit \<Rightarrow> bool" where
  "commit_ok m \<longleftrightarrow> length (ct_edit_session_id m) = 16 \<and> voxel_ok (action_target (ct_action m)) \<and>
     pred_option (\<lambda>i. length (mi_counts i) = 15) (ct_editor_inventory m)"

lemma mask_encodes:
  assumes "selection_ok action ms"
  shows "\<exists>encoding bytes. encode_edit_mutations action ms = Inr (encoding, bytes) \<and> encoding \<le> 1 \<and>
    length bytes \<le> 128 \<and> mask_ok action (length ms) encoding ms \<and> mask_bytes action ms = bytes"
proof -
  obtain volume where v: "edit_action_volume action = Some volume"
    using assms by (auto simp: selection_ok_def split: option.splits)
  let ?n = "length (volume_coordinates volume)"
  obtain os where os: "ordinals_ok ?n os" "ms = selected action volume os" using selected_ordinals [OF v] assms by blast
  note enc = encode_selected [OF v os(1), folded os(2)]
  have "div_ceil_8 ?n \<le> 128" using stencil_small [OF v] by (simp add: div_ceil_8_def)
  then have "length (snd (encode_mutation_ordinals ?n os)) \<le> 128" "fst (encode_mutation_ordinals ?n os) \<le> 1"
    by (auto simp: encode_mutation_ordinals_def Let_def EDIT_MUTATIONS_BITSET_def EDIT_MUTATIONS_ORDINALS_def)
  then show ?thesis using assms enc by (cases "encode_mutation_ordinals ?n os") (simp add: mask_ok_def mask_bytes_def)
qed

lemma length_inventory: "inventory_ok i \<Longrightarrow> length (encode_inventory i) = 128"
proof -
  have "length (concat (map u64_le cs)) = 8 * length cs" for cs by (induction cs) simp_all
  then show "inventory_ok i \<Longrightarrow> length (encode_inventory i) = 128" by (simp add: encode_inventory_def inventory_ok_def)
qed

definition inventory_bytes :: "material_inventory option \<Rightarrow> u8 list" where
  "inventory_bytes i = (case i of Some inventory \<Rightarrow> encode_inventory inventory | None \<Rightarrow> [])"

definition flagged_ok :: "nat \<Rightarrow> material_inventory option \<Rightarrow> bool" where
  "flagged_ok present i \<longleftrightarrow> pred_option inventory_ok i \<and> (present = 1 \<longleftrightarrow> i \<noteq> None)"

interpretation optional_inventory: body_codec inventory_bytes "read_inventory present" "flagged_ok present" for present
proof
  fix pre bs i c'
  show "read_inventory present (cursor_at pre bs) = Inr (i, c') \<longleftrightarrow>
      flagged_ok present i \<and> (\<exists>ys. bs = inventory_bytes i @ ys \<and> c' = cursor_at (pre @ inventory_bytes i) ys)"
    by (cases i) (auto simp: flagged_ok_def read_inventory_def inventory_bytes_def inventory_body.dec_seen)
qed

definition commit_payload :: "nat \<Rightarrow> nat \<Rightarrow> nat \<Rightarrow> nat \<Rightarrow> voxel_coord \<Rightarrow> edit_commit \<Rightarrow> u8 list" where
  "commit_payload k s i encoding target m =
     ct_edit_session_id m @ u64_le (ct_editor_connection_id m) @ u64_le (ct_revision m) @
     of_nat k # of_nat s # of_nat encoding # 0 # u16_le i @ u16_le 0 @ encode_voxel_coord target @
     u16_le (length (ct_mutations m)) @ u16_le (if ct_editor_inventory m \<noteq> None then 1 else 0) @ u16_le 0 @
     mask_bytes (ct_action m) (ct_mutations m) @ inventory_bytes (ct_editor_inventory m)"

lemma encode_commit_fields:
  assumes "encode_edit_commit m = Inr b"
  obtains k s i target encoding where "validate_edit_commit m = Inr ()"
    "encode_edit_action (ct_action m) = Inr (k, s, i, target)" "encoding \<le> 1"
    "mask_ok (ct_action m) (length (ct_mutations m)) encoding (ct_mutations m)"
    "length (mask_bytes (ct_action m) (ct_mutations m)) \<le> 128"
    "b = encode_frame KIND_EDIT_COMMIT (ct_operation_id m) (commit_payload k s i encoding target m)"
proof -
  obtain k s i target where v: "validate_edit_commit m = Inr ()"
      and a: "encode_edit_action (ct_action m) = Inr (k, s, i, target)"
    using assms by (auto simp: encode_edit_commit_def)
  note w = v [unfolded validate_commit_Inr]
  from w have sel: "selection_ok (ct_action m) (ct_mutations m)" and n: "length (ct_mutations m) mod 2 ^ 16 = length (ct_mutations m)"
    by simp_all
  obtain encoding bytes where e: "encode_edit_mutations (ct_action m) (ct_mutations m) = Inr (encoding, bytes)" "encoding \<le> 1"
      "length bytes \<le> 128" "mask_ok (ct_action m) (length (ct_mutations m)) encoding (ct_mutations m)"
      "mask_bytes (ct_action m) (ct_mutations m) = bytes"
    using mask_encodes [OF sel] by blast
  have "b = encode_frame KIND_EDIT_COMMIT (ct_operation_id m) (commit_payload k s i encoding target m)"
    using assms unfolding encode_edit_commit_def v a e(1) attempt.simps prod.case n
    by (simp add: commit_payload_def e(5) inventory_bytes_def)
  then show ?thesis using that v a e by blast
qed

lemma commit_fields_encode:
  assumes "validate_edit_commit m = Inr ()" "encode_edit_action (ct_action m) = Inr (k, s, i, target)"
    and "mask_ok (ct_action m) (length (ct_mutations m)) encoding (ct_mutations m)"
  shows "encode_edit_commit m =
    Inr (encode_frame KIND_EDIT_COMMIT (ct_operation_id m) (commit_payload k s i encoding target m))"
proof -
  have n: "length (ct_mutations m) mod 2 ^ 16 = length (ct_mutations m)"
    using assms(1) by (simp add: validate_commit_Inr)
  obtain bytes where "encode_edit_mutations (ct_action m) (ct_mutations m) = Inr (encoding, bytes)"
    using assms(3) unfolding mask_ok_def by (cases "encode_edit_mutations (ct_action m) (ct_mutations m)") auto
  then show ?thesis
    unfolding encode_edit_commit_def assms(1,2) attempt.simps prod.case n
    by (simp add: commit_payload_def inventory_bytes_def mask_bytes_def)
qed

interpretation commit: message_codec encode_edit_commit decode_edit_commit commit_ok
proof
  show "decode_edit_commit b = Inr m" if ok: "commit_ok m" and e: "encode_edit_commit m = Inr b" for m b
  proof -
    obtain k s i target encoding where f: "validate_edit_commit m = Inr ()"
        "encode_edit_action (ct_action m) = Inr (k, s, i, target)" "encoding \<le> 1"
        "mask_ok (ct_action m) (length (ct_mutations m)) encoding (ct_mutations m)"
        "length (mask_bytes (ct_action m) (ct_mutations m)) \<le> 128"
        and b: "b = encode_frame KIND_EDIT_COMMIT (ct_operation_id m) (commit_payload k s i encoding target m)"
      using encode_commit_fields [OF e] .
    note w = f(1) [unfolded validate_commit_Inr]
    note a = encode_action_fields [OF f(2)]
    have target: "voxel_ok target" using a ok by (simp add: commit_ok_def)
    have bytes: "unat (of_nat k :: u8) = k" "unat (of_nat s :: u8) = s" "unat (of_nat encoding :: u8) = encoding" "i \<le> u16_max"
      using a f(3) by (simp_all add: byte_unat)
    have inv: "pred_option inventory_ok (ct_editor_inventory m)"
      using w ok by (cases "ct_editor_inventory m") (auto simp: inventory_valid_def commit_ok_def inventory_ok_def)
    have sid: "length (ct_edit_session_id m) = 16" using ok by (simp add: commit_ok_def)
    have small: "24 + length (commit_payload k s i encoding target m) \<le> 16777216"
      using f(5) inv sid length_inventory
      by (cases "ct_editor_inventory m") (auto simp: commit_payload_def inventory_bytes_def)
    have n: "length (ct_mutations m) \<le> u16_max" "length (ct_mutations m) \<le> MAX_EDIT_MUTATIONS"
      using w by (simp_all add: MAX_EDIT_MUTATIONS_def)
    have d: "decode_edit_action k s i target = Inr (ct_action m)" using f(2) by (simp add: decode_action_Inr)
    have ch: "mutation_chunks (ct_mutations m) = ct_affected_chunks m" using w by (simp add: chunks_ok_def)
    have frame: "decode_frame b = Inr \<lparr>fr_kind = KIND_EDIT_COMMIT, fr_request_id = ct_operation_id m,
        fr_payload = commit_payload k s i encoding target m\<rparr>"
      unfolding b by (rule decode_encode_frame_fields [OF _ small]) (simp add: KIND_EDIT_COMMIT_def)
    define present :: nat where "present = (if ct_editor_inventory m \<noteq> None then 1 else 0)"
    have tail: "read_inventory present (cursor_at pre (inventory_bytes (ct_editor_inventory m))) =
        Inr (ct_editor_inventory m, cursor_at (pre @ inventory_bytes (ct_editor_inventory m)) [])" for pre
      using inv by (subst optional_inventory.dec_seen) (simp add: present_def flagged_ok_def)
    have present: "present \<le> u16_max" "\<not> present > 1" by (simp_all add: present_def)
    have same: "\<lparr>ct_operation_id = ct_operation_id m, ct_edit_session_id = ct_edit_session_id m,
        ct_editor_connection_id = ct_editor_connection_id m, ct_revision = ct_revision m, ct_action = ct_action m,
        ct_mutations = ct_mutations m, ct_affected_chunks = ct_affected_chunks m,
        ct_editor_inventory = ct_editor_inventory m\<rparr> = m" by simp
    have ids: "ct_operation_id m \<noteq> 0" "\<not> session_nil (ct_edit_session_id m)" using w by simp_all
    note reads = cursor_reads_at(1-3,5,6) cursor_new_at voxel_body.dec_read [OF target] mask_body.dec_read [OF f(4)] tail
    show ?thesis
      unfolding decode_edit_commit_def frame expect_kind_def commit_payload_def present_def [symmetric]
      using ids n sid present f(1)
      by (simp add: reads bytes d ch same Let_def del: try_Inr)
  qed
  show "commit_ok m \<and> encode_edit_commit m = Inr b" if d: "decode_edit_commit b = Inr m" for m b
  proof -
    obtain frame sid connection revision k s encoding i target action n present mutations inventory where
      frame: "frame_ok frame" "b = frame_bytes frame" "fr_kind frame = KIND_EDIT_COMMIT" "fr_request_id frame \<noteq> 0"
      and fields: "length sid = 16" "i \<le> u16_max" "voxel_ok target" "n \<le> u16_max" "present \<le> 1"
        "encode_edit_action action = Inr (unat k, unat s, i, target)"
        "mask_ok action n (unat encoding) mutations" "flagged_ok present inventory"
      and payload: "fr_payload frame = sid @ u64_le connection @ u64_le revision @ k # s # encoding # 0 # u16_le i @ u16_le 0 @
        encode_voxel_coord target @ u16_le n @ u16_le present @ u16_le 0 @ mask_bytes action mutations @ inventory_bytes inventory"
      and m: "m = \<lparr>ct_operation_id = fr_request_id frame, ct_edit_session_id = sid,
           ct_editor_connection_id = connection, ct_revision = revision, ct_action = action,
           ct_mutations = mutations, ct_affected_chunks = mutation_chunks mutations, ct_editor_inventory = inventory\<rparr>"
        "validate_edit_commit m = Inr ()"
      using d unfolding decode_edit_commit_def decode_frame_iff cursor_new_at try_Inr expect_Inr if_Inl_Inr
      by (auto simp: cursor_seen voxel_body.dec_seen mask_body.dec_seen optional_inventory.dec_seen decode_action_Inr Let_def
          not_less split: if_splits)
    have p: "present = (if inventory \<noteq> None then 1 else 0)" using fields(5,8) by (auto simp: flagged_ok_def)
    have len: "length mutations = n" using fields(7) by (simp add: mask_ok_def)
    have "fr_payload frame = commit_payload (unat k) (unat s) i (unat encoding) target m"
      unfolding payload commit_payload_def by (simp add: m(1) p len)
    then have "b = encode_frame KIND_EDIT_COMMIT (ct_operation_id m) (commit_payload (unat k) (unat s) i (unat encoding) target m)"
      using frame by (simp add: frame_bytes_def m(1))
    moreover have "encode_edit_commit m =
        Inr (encode_frame KIND_EDIT_COMMIT (ct_operation_id m) (commit_payload (unat k) (unat s) i (unat encoding) target m))"
      by (rule commit_fields_encode [OF m(2)]) (use fields len in \<open>simp_all add: m(1)\<close>)
    moreover have "commit_ok m"
      using fields encode_action_fields [OF fields(6)]
      by (cases inventory) (auto simp: m(1) commit_ok_def inventory_ok_def flagged_ok_def)
    ultimately show ?thesis by simp
  qed
qed

section \<open>Every edit of a stencil can be broadcast\<close>

text \<open>
  A stencil is narrower than a chunk, so the chunks whose meshing shell it meets are at most two
  on each axis.
\<close>

lemma stencil_offsets:
  assumes "edit_action_volume action = Some volume" "volume_contains volume c"
  shows "voxel_ok c \<and> \<bar>vx c - vx (action_target action)\<bar> \<le> 6 \<and> \<bar>vy c - vy (action_target action)\<bar> \<le> 6 \<and>
    \<bar>vz c - vz (action_target action)\<bar> \<le> 6"
proof -
  obtain s where v: "volume_for_hit (action_target action) s = Some volume" using assms(1) by (cases action) auto
  have "in_stencil s (vx c - vx (action_target action)) (vy c - vy (action_target action)) (vz c - vz (action_target action))"
    using volume_contains_stencil [OF v] assms(2) by simp
  note reach = stencil_reach [OF this]
  have "voxel_ok c" using assms(2) v
    by (cases s) (auto simp: volume_for_hit_Some volume_contains_def voxel_ok_def i32_ok_def volume_consts split: if_splits)
  then show ?thesis using reach by (cases s) auto
qed

definition near_chunks :: "voxel_coord \<Rightarrow> chunk_coord set" where
  "near_chunks a = (\<lambda>(x, y, z). chunk_at x y z) `
     ({(vx a - 7) div 32, (vx a + 7) div 32} \<times> {(vy a - 7) div 32, (vy a + 7) div 32} \<times> {(vz a - 7) div 32, (vz a + 7) div 32})"

lemma axis_near: "\<bar>v - a\<bar> \<le> 6 \<Longrightarrow> 32 * c - 1 \<le> v \<Longrightarrow> v \<le> 32 * c + 32 \<Longrightarrow> c = (a - 7) div 32 \<or> c = (a + 7) div 32"
  for a c v :: int
proof -
  assume v: "\<bar>v - a\<bar> \<le> 6" "32 * c - 1 \<le> v" "v \<le> 32 * c + 32"
  obtain q r where q: "a - 7 = 32 * q + r" "0 \<le> r" "r < 32" "(a - 7) div 32 = q"
    by (metis mult_div_mod_eq pos_mod_bound pos_mod_sign zero_less_numeral)
  obtain q' r' where q': "a + 7 = 32 * q' + r'" "0 \<le> r'" "r' < 32" "(a + 7) div 32 = q'"
    by (metis mult_div_mod_eq pos_mod_bound pos_mod_sign zero_less_numeral)
  have "v - a \<le> 6" "a - v \<le> 6" using v(1) by arith+
  then have "32 * c < 32 * (q' + 1)" "32 * q < 32 * (c + 1)" "32 * q' < 32 * (q + 2)"
    using v(2,3) q(1-3) q'(1-3) unfolding distrib_left by linarith+
  then have "c \<le> q'" "q \<le> c" "q' \<le> q + 1" by simp_all
  then show ?thesis unfolding q(4) q'(4) by linarith
qed

lemma card_near: "card (near_chunks a) \<le> 8"
proof -
  have two: "card {x, y} \<le> 2" for x y :: int by (simp add: card_insert_if)
  have "card (near_chunks a) \<le> card ({(vx a - 7) div 32, (vx a + 7) div 32} \<times> {(vy a - 7) div 32, (vy a + 7) div 32} \<times>
      {(vz a - 7) div 32, (vz a + 7) div 32})" unfolding near_chunks_def by (rule card_image_le) simp
  also have "\<dots> \<le> 2 * (2 * 2)" unfolding card_cartesian_product by (intro mult_le_mono two)
  finally show ?thesis by simp
qed

lemma mutation_chunks_set: "set (mutation_chunks ms) = (\<Union>m \<in> set ms. set (affected_chunks (vm_coord m)))"
  by (simp add: mutation_chunks_def)

lemma mutation_chunks_sorted: "sorted_wrt (<) (mutation_chunks ms)"
  by (simp add: mutation_chunks_def strict_sorted_iff)

lemma own_chunk_affected: "voxel_ok v \<Longrightarrow> voxel_chunk v \<in> set (affected_chunks v)"
  using voxel_chunk_representable [of v]
  by (auto simp: set_affected_chunks in_shell_def voxel_chunk_def Let_def)

lemma selection_chunks:
  assumes "selection_ok action ms"
  shows "length (mutation_chunks ms) \<le> 8" and "list_all is_world_representable (mutation_chunks ms)"
    and "mutation_chunks ms = [] \<longleftrightarrow> ms = []"
    and "list_all (\<lambda>x. is_world_representable (voxel_chunk (vm_coord x))) ms"
proof -
  obtain volume where v: "edit_action_volume action = Some volume"
    using assms by (auto simp: selection_ok_def split: option.splits)
  have off: "voxel_ok (vm_coord m) \<and> \<bar>vx (vm_coord m) - vx (action_target action)\<bar> \<le> 6 \<and>
      \<bar>vy (vm_coord m) - vy (action_target action)\<bar> \<le> 6 \<and> \<bar>vz (vm_coord m) - vz (action_target action)\<bar> \<le> 6"
    if "m \<in> set ms" for m
    using stencil_offsets [OF v] assms that by (auto simp: selection_ok_def v list_all_iff)
  have "c \<in> near_chunks (action_target action)" if "m \<in> set ms" "c \<in> set (affected_chunks (vm_coord m))" for m c
  proof -
    have "in_shell c (vm_coord m)" using that off set_affected_chunks by blast
    then have "cx c = (vx (action_target action) - 7) div 32 \<or> cx c = (vx (action_target action) + 7) div 32"
        "cy c = (vy (action_target action) - 7) div 32 \<or> cy c = (vy (action_target action) + 7) div 32"
        "cz c = (vz (action_target action) - 7) div 32 \<or> cz c = (vz (action_target action) + 7) div 32"
      using off [OF that(1)] unfolding in_shell_def by (meson axis_near)+
    then show ?thesis unfolding near_chunks_def by (intro image_eqI [of _ _ "(cx c, cy c, cz c)"]) auto
  qed
  then have sub: "set (mutation_chunks ms) \<subseteq> near_chunks (action_target action)" by (auto simp: mutation_chunks_set)
  have "distinct (mutation_chunks ms)" using mutation_chunks_sorted by (simp add: strict_sorted_iff)
  then have "length (mutation_chunks ms) = card (set (mutation_chunks ms))" by (simp add: distinct_card)
  also have "\<dots> \<le> card (near_chunks (action_target action))" by (rule card_mono [OF _ sub]) (simp add: near_chunks_def)
  finally show "length (mutation_chunks ms) \<le> 8" using card_near [of "action_target action"] by simp
  show "list_all is_world_representable (mutation_chunks ms)"
    using off by (auto simp: list_all_iff mutation_chunks_set set_affected_chunks)
  show "list_all (\<lambda>x. is_world_representable (voxel_chunk (vm_coord x))) ms"
    using off by (auto simp: list_all_iff voxel_chunk_representable)
  show "mutation_chunks ms = [] \<longleftrightarrow> ms = []"
  proof
    assume "mutation_chunks ms = []"
    then have "(\<Union>m \<in> set ms. set (affected_chunks (vm_coord m))) = {}" by (simp flip: mutation_chunks_set)
    then have "m \<notin> set ms" for m using off [of m] own_chunk_affected [of "vm_coord m"] by blast
    then show "ms = []" by (cases ms) auto
  qed (simp add: mutation_chunks_def)
qed

lemma selection_small:
  assumes "selection_ok action ms"
  shows "length ms \<le> 1021"
proof -
  obtain volume where v: "edit_action_volume action = Some volume"
    using assms by (auto simp: selection_ok_def split: option.splits)
  then obtain os where os: "ordinals_ok (length (volume_coordinates volume)) os" "ms = selected action volume os"
    using assms selected_ordinals [OF v] by blast
  have "distinct os" "set os \<subseteq> {..<length (volume_coordinates volume)}"
    using os(1) by (auto simp: ordinals_ok_def strict_sorted_iff)
  then have "length os \<le> card {..<length (volume_coordinates volume)}"
    by (metis card_mono distinct_card finite_lessThan)
  then show ?thesis using stencil_small [OF v] by (simp add: os(2) selected_def)
qed

text \<open>
  C40: the commit message is an exact codec. The decoder accepts exactly the encodings of valid
  commits, and yields the commit that was encoded: the semantic action, the mask over its stencil
  in whichever of the two forms is shorter, the affected chunks it leaves out of the wire, and the
  inventory when it is the editor's.
\<close>

theorem edit_commit_codec:
  "decode_edit_commit b = Inr m \<longleftrightarrow> commit_ok m \<and> encode_edit_commit m = Inr b"
  by (rule commit.dec_iff)

definition stencil_complete :: "edit_commit \<Rightarrow> bool" where
  "stencil_complete m \<longleftrightarrow> (case edit_action_volume (ct_action m) of
     None \<Rightarrow> True
   | Some v \<Rightarrow> is_place (ct_action m) \<longrightarrow> length (ct_mutations m) = length (volume_coordinates v))"

text \<open>
  Every edit of a stencil can be broadcast. Let the server apply an action, admitted by the
  client's encoder, to any strictly ordered selection of its stencil's voxels (all of them for a
  placement); with nonzero identifiers and a valid inventory the commit that names the chunks of
  those mutations passes every wire limit: it touches at most 8 of the 27 chunks allowed, its mask
  takes at most 128 bytes, and it encodes to at most 338 bytes.
\<close>

theorem stencil_commit_broadcasts:
  assumes "encode_edit_action (ct_action m) = Inr e" "selection_ok (ct_action m) (ct_mutations m)"
    and "stencil_complete m"
    and "ct_affected_chunks m = mutation_chunks (ct_mutations m)"
    and "ct_operation_id m \<noteq> 0" "ct_editor_connection_id m \<noteq> 0" "ct_revision m \<noteq> 0"
    and "length (ct_edit_session_id m) = 16" "\<not> session_nil (ct_edit_session_id m)"
    and "pred_option inventory_ok (ct_editor_inventory m)"
  shows "\<exists>b. encode_edit_commit m = Inr b \<and> length (ct_affected_chunks m) \<le> 8 \<and>
    length (mask_bytes (ct_action m) (ct_mutations m)) \<le> 128 \<and> length b \<le> 338"
proof -
  obtain k s i target where e: "encode_edit_action (ct_action m) = Inr (k, s, i, target)"
    using assms(1) by (cases e) auto
  note ch = selection_chunks [OF assms(2)]
  have whole: "length (ct_mutations m) = length (volume_coordinates v)"
    if "is_place (ct_action m)" "edit_action_volume (ct_action m) = Some v" for v
    using assms(3) that by (simp add: stencil_complete_def)
  have "chunks_ok m"
    unfolding chunks_ok_def assms(4) using ch mutation_chunks_sorted by auto
  moreover have "inventory_valid m"
    using assms(10) by (cases "ct_editor_inventory m") (simp_all add: inventory_valid_def inventory_ok_def)
  ultimately have v: "validate_edit_commit m = Inr ()"
    unfolding validate_commit_Inr using assms e ch(4) whole selection_small [OF assms(2)] by blast
  obtain encoding bytes where mask: "length bytes \<le> 128"
      "mask_ok (ct_action m) (length (ct_mutations m)) encoding (ct_mutations m)" "mask_bytes (ct_action m) (ct_mutations m) = bytes"
    using mask_encodes [OF assms(2)] by blast
  have "length (commit_payload k s i encoding target m) \<le> 314"
    using mask assms(8,10) length_inventory
    by (cases "ct_editor_inventory m") (auto simp: commit_payload_def inventory_bytes_def)
  then show ?thesis
    using commit_fields_encode [OF v e mask(2)] ch(1) mask by (simp add: assms(4))
qed

definition dig_example :: edit_commit where
  "dig_example = \<lparr>ct_operation_id = 7, ct_edit_session_id = replicate 16 1, ct_editor_connection_id = 3, ct_revision = 9,
     ct_action = ActionDig (voxel_at 31 0 5) ShapeCube, ct_mutations = [\<lparr>vm_coord = voxel_at 31 0 5, vm_material = Air\<rparr>],
     ct_affected_chunks = mutation_chunks [\<lparr>vm_coord = voxel_at 31 0 5, vm_material = Air\<rparr>],
     ct_editor_inventory = Some \<lparr>mi_revision = 1, mi_counts = replicate 15 0\<rparr>\<rparr>"

theorem stencil_commit_broadcasts_witness:
  "\<exists>b. encode_edit_commit dig_example = Inr b \<and> decode_edit_commit b = Inr dig_example \<and> length b \<le> 338"
proof -
  obtain v where v: "volume_for_hit (voxel_at 31 0 5) ShapeCube = Some v"
    by (simp add: volume_for_hit_Some voxel_ok_def i32_ok_def volume_consts)
  then have c: "volume_contains v (voxel_at 31 0 5)" by (simp add: volume_contains_stencil in_stencil_def)
  have "encode_edit_action (ct_action dig_example) = Inr (1, 1, 0, voxel_at 31 0 5)"
    by (simp add: dig_example_def encode_edit_action_def check_action_volume_def v voxel_ok_validates voxel_ok_def i32_ok_def)
  moreover have "selection_ok (ct_action dig_example) (ct_mutations dig_example)"
    by (simp add: dig_example_def selection_ok_def v c)
  moreover have "stencil_complete dig_example" by (simp add: stencil_complete_def dig_example_def is_place_def split: option.split)
  moreover have "pred_option inventory_ok (ct_editor_inventory dig_example)"
    by (simp add: dig_example_def inventory_ok_def validate_inventory_def)
  ultimately obtain b where "encode_edit_commit dig_example = Inr b" "length b \<le> 338"
    using stencil_commit_broadcasts [of dig_example] by (force simp: dig_example_def session_nil_def)
  moreover have "commit_ok dig_example" by (simp add: dig_example_def commit_ok_def voxel_ok_def i32_ok_def)
  ultimately show ?thesis using commit.dec_enc by blast
qed

end
