(* ===== verification/Outbound_Frames.thy ===== *)
theory Outbound_Frames
  imports Frame_Reassembly Session_Requests Error_Messages Edit_Messages
begin

text \<open>
  The server's frame writer and the client that reads it: \<open>OutboundFrame\<close> and \<open>write_frames\<close> of
  \<open>world-service/src/server.rs\<close>, which cut large frames into fragments and interleave them by
  priority, the fragment size chosen by \<open>ClientTrafficShaper::frame_fragment_bytes\<close>
  (\<open>world-service/src/traffic.rs\<close>), and the dispatch of incoming messages in
  \<open>shell/src/remote.rs\<close>. The shaper's pacing is floating point; the byte budget it allows at a
  moment is an argument here. The socket delivers in order, so a step hands its wires to the client
  at once. The handler of a complete message may end the connection: when it does is modelled for
  every kind, up to the content of an opened world and of the four batch results, which decode
  manifests, meshes and compressed pages: whether a handler accepts such a message is the argument
  \<open>content\<close>, any function of the messages handled before it.
\<close>

section \<open>Fragment sizes\<close>

definition MIN_PACING_QUANTUM_BYTES :: nat where "MIN_PACING_QUANTUM_BYTES = 2 * 1024"

definition frame_fragment_bytes :: "nat \<Rightarrow> nat \<Rightarrow> nat \<Rightarrow> nat option" where
  "frame_fragment_bytes max_frame_fragment_bytes delay_budget_bytes frame_len =
     (let fragment_bytes = min (max delay_budget_bytes MIN_PACING_QUANTUM_BYTES) max_frame_fragment_bytes
      in if frame_len > fragment_bytes then Some fragment_bytes else None)"

section \<open>Outbound frames\<close>

record outbound_frame =
  ob_bytes :: "u8 list"
  ob_offset :: nat
  ob_transfer :: "u64 option"
  ob_priority :: nat
  ob_cancellation :: "nat option"
  ob_tracked :: "(u64 \<times> nat) option"

definition outbound_fragment_bytes :: "nat \<Rightarrow> nat \<Rightarrow> outbound_frame \<Rightarrow> nat option" where
  "outbound_fragment_bytes max_frame_fragment_bytes delay_budget_bytes frame =
     (let fragmentable = ob_offset frame > 0 \<or>
            (case message_request_id (ob_bytes frame) of Inr request_id \<Rightarrow> request_id \<noteq> 0 | Inl _ \<Rightarrow> False)
      in if fragmentable then frame_fragment_bytes max_frame_fragment_bytes delay_budget_bytes (length (ob_bytes frame))
         else None)"

definition next_wire_bytes :: "outbound_frame \<Rightarrow> nat option \<Rightarrow> nat" where
  "next_wire_bytes frame fragment_bytes =
     (case fragment_bytes of None \<Rightarrow> length (ob_bytes frame)
      | Some n \<Rightarrow> min (length (ob_bytes frame) - ob_offset frame) n + FRAME_FRAGMENT_OVERHEAD_BYTES)"

definition next_transfer_id :: "u64 \<Rightarrow> u64" where
  "next_transfer_id i = max (i + 1) 1"

definition take_next_wire ::
    "outbound_frame \<Rightarrow> nat option \<Rightarrow> u64 \<Rightarrow> (protocol_error + (u8 list \<times> bool)) \<times> outbound_frame \<times> u64" where
  "take_next_wire frame fragment_bytes next_id =
     (case fragment_bytes of
        None \<Rightarrow> (Inr (ob_bytes frame, True), frame\<lparr>ob_bytes := []\<rparr>, next_id)
      | Some n \<Rightarrow>
          let (transfer_id, next_id) =
                (case ob_transfer frame of Some t \<Rightarrow> (t, next_id) | None \<Rightarrow> (next_id, next_transfer_id next_id));
              frame = frame\<lparr>ob_transfer := Some transfer_id\<rparr>;
              stop = min (ob_offset frame + n) (length (ob_bytes frame))
          in case encode_frame_fragment transfer_id (length (ob_bytes frame)) (ob_offset frame)
                    (take (stop - ob_offset frame) (drop (ob_offset frame) (ob_bytes frame))) of
               Inl error \<Rightarrow> (Inl error, frame, next_id)
             | Inr wire \<Rightarrow> (Inr (wire, stop = length (ob_bytes frame)), frame\<lparr>ob_offset := stop\<rparr>, next_id))"

definition partial_frame_abort :: "outbound_frame \<Rightarrow> protocol_error + u8 list option" where
  "partial_frame_abort frame =
     (case ob_transfer frame of None \<Rightarrow> Inr None
      | Some t \<Rightarrow> attempt (encode_frame_fragment_abort t) (\<lambda>b. Inr (Some b)))"

section \<open>The writer\<close>

definition PRIORITY_COUNT :: nat where "PRIORITY_COUNT = 6"

record frame_writer =
  wr_queues :: "outbound_frame list list"
  wr_next_transfer :: u64
  wr_session :: session_requests
  wr_open :: bool

definition writer_new :: "session_requests \<Rightarrow> frame_writer" where
  "writer_new s = \<lparr>wr_queues = replicate PRIORITY_COUNT [], wr_next_transfer = 1, wr_session = s, wr_open = True\<rparr>"

definition finish_tracked :: "outbound_frame \<Rightarrow> session_requests \<Rightarrow> session_requests" where
  "finish_tracked frame s = (case ob_tracked frame of None \<Rightarrow> s | Some (r, g) \<Rightarrow> session_finish r g s)"

definition frame_cancelled :: "session_requests \<Rightarrow> outbound_frame \<Rightarrow> bool" where
  "frame_cancelled s frame \<longleftrightarrow> (case ob_cancellation frame of None \<Rightarrow> False | Some g \<Rightarrow> signal_is_cancelled s g)"

definition writer_receive :: "outbound_frame \<Rightarrow> frame_writer \<Rightarrow> frame_writer" where
  "writer_receive frame w =
     w\<lparr>wr_queues := (wr_queues w)[ob_priority frame := wr_queues w ! ob_priority frame @ [frame]]\<rparr>"

text \<open>Leaving the loop: \<open>session.cancel_all()\<close> and the socket is closed.\<close>

definition writer_stop :: "frame_writer \<Rightarrow> frame_writer" where
  "writer_stop w = w\<lparr>wr_session := session_cancel_all (wr_session w), wr_open := False\<rparr>"

text \<open>The front frame of a priority is dropped when its request was cancelled, with an abort if it was begun.\<close>

definition writer_drop :: "nat \<Rightarrow> frame_writer \<Rightarrow> u8 list list \<times> frame_writer" where
  "writer_drop p w =
     (case wr_queues w ! p of
        [] \<Rightarrow> ([], w)
      | frame # queue \<Rightarrow>
          let w = w\<lparr>wr_queues := (wr_queues w)[p := queue]\<rparr> in
          case partial_frame_abort frame of
            Inl _ \<Rightarrow> ([], writer_stop w)
          | Inr abort \<Rightarrow>
              ((case abort of None \<Rightarrow> [] | Some b \<Rightarrow> [b]), w\<lparr>wr_session := finish_tracked frame (wr_session w)\<rparr>))"

text \<open>The same when a permit was granted for the frame; here a failed abort finishes the request too.\<close>

definition writer_drop_permitted :: "nat \<Rightarrow> frame_writer \<Rightarrow> u8 list list \<times> frame_writer" where
  "writer_drop_permitted p w =
     (case wr_queues w ! p of
        [] \<Rightarrow> ([], w)
      | frame # queue \<Rightarrow>
          let w = w\<lparr>wr_queues := (wr_queues w)[p := queue], wr_session := finish_tracked frame (wr_session w)\<rparr> in
          case partial_frame_abort frame of
            Inl _ \<Rightarrow> ([], writer_stop w)
          | Inr abort \<Rightarrow> ((case abort of None \<Rightarrow> [] | Some b \<Rightarrow> [b]), w))"

text \<open>The front frame of a priority is sent, whole or by one fragment.\<close>

definition writer_send :: "nat \<Rightarrow> nat option \<Rightarrow> frame_writer \<Rightarrow> u8 list list \<times> frame_writer" where
  "writer_send p fragment_bytes w =
     (case wr_queues w ! p of
        [] \<Rightarrow> ([], writer_stop w)
      | frame # queue \<Rightarrow>
          if frame_cancelled (wr_session w) frame then writer_drop_permitted p w
          else case take_next_wire frame fragment_bytes (wr_next_transfer w) of
            (Inl _, frame', next_id) \<Rightarrow>
              ([], writer_stop (w\<lparr>wr_queues := (wr_queues w)[p := queue], wr_next_transfer := next_id,
                 wr_session := finish_tracked frame' (wr_session w)\<rparr>))
          | (Inr (wire, complete), frame', next_id) \<Rightarrow>
              if complete then
                ([wire], w\<lparr>wr_queues := (wr_queues w)[p := queue], wr_next_transfer := next_id,
                   wr_session := finish_tracked frame' (wr_session w)\<rparr>)
              else ([wire], w\<lparr>wr_queues := (wr_queues w)[p := frame' # queue], wr_next_transfer := next_id\<rparr>))"

section \<open>The client\<close>

record frame_client =
  cl_reassembler :: frame_reassembler
  cl_handled :: "u8 list list"
  cl_connected :: bool

definition client_new :: frame_client where
  "client_new = \<lparr>cl_reassembler = [], cl_handled = [], cl_connected = True\<rparr>"

definition client_disconnect :: "frame_client \<Rightarrow> frame_client" where
  "client_disconnect c = c\<lparr>cl_reassembler := reassembler_clear (cl_reassembler c), cl_connected := False\<rparr>"

text \<open>
  The connection is open once a \<open>WorldOpened\<close> was handled. The handler of a message ends the
  connection when it comes in the wrong state, when it does not decode, or, for an error, when it
  concerns no request; a kind without a handler ends it too.
\<close>

definition KIND_WORLD_OPENED :: nat where "KIND_WORLD_OPENED = 2"
definition KIND_CHUNK_BATCH_RESULT :: nat where "KIND_CHUNK_BATCH_RESULT = 4"
definition KIND_TERRAIN_DIRECTORY_BATCH_RESULT :: nat where "KIND_TERRAIN_DIRECTORY_BATCH_RESULT = 21"
definition KIND_TERRAIN_PAGE_BATCH_RESULT :: nat where "KIND_TERRAIN_PAGE_BATCH_RESULT = 23"
definition KIND_TERRAIN_REGION_COLUMN_BATCH_RESULT :: nat where "KIND_TERRAIN_REGION_COLUMN_BATCH_RESULT = 25"

definition BATCH_RESULT_KINDS :: "nat list" where
  "BATCH_RESULT_KINDS = [KIND_CHUNK_BATCH_RESULT, KIND_TERRAIN_REGION_COLUMN_BATCH_RESULT,
     KIND_TERRAIN_DIRECTORY_BATCH_RESULT, KIND_TERRAIN_PAGE_BATCH_RESULT]"

definition world_opened :: "u8 list list \<Rightarrow> bool" where
  "world_opened handled \<longleftrightarrow> list_ex (\<lambda>bytes. message_kind bytes = Inr KIND_WORLD_OPENED) handled"

type_synonym content_check = "u8 list list \<Rightarrow> u8 list \<Rightarrow> bool"

definition handler_keeps :: "content_check \<Rightarrow> u8 list list \<Rightarrow> nat \<Rightarrow> u8 list \<Rightarrow> bool" where
  "handler_keeps content handled kind bytes \<longleftrightarrow>
     (if kind = KIND_WORLD_OPENED then \<not> world_opened handled \<and> content handled bytes
      else if kind \<in> set BATCH_RESULT_KINDS then world_opened handled \<and> content handled bytes
      else if kind = KIND_EDIT_COMMIT
      then world_opened handled \<and> (case decode_edit_commit bytes of Inl _ \<Rightarrow> False | Inr _ \<Rightarrow> True)
      else if kind = KIND_RESYNC_REQUIRED
      then world_opened handled \<and> (case decode_resync_required bytes of Inl _ \<Rightarrow> False | Inr _ \<Rightarrow> True)
      else if kind = KIND_ERROR
      then (case decode_error bytes of Inl _ \<Rightarrow> False | Inr (request_id, _) \<Rightarrow> request_id \<noteq> 0)
      else False)"

text \<open>A complete message goes to the handler of its kind, or ends a transfer when it is an abort.
  (A reassembled message is never a fragment: the reassembler refuses those.)\<close>

definition client_dispatch :: "content_check \<Rightarrow> u8 list \<Rightarrow> frame_client \<Rightarrow> frame_client" where
  "client_dispatch content bytes c =
     (case message_kind bytes of
        Inl _ \<Rightarrow> client_disconnect c
      | Inr kind \<Rightarrow>
          if kind = KIND_FRAME_FRAGMENT_ABORT then
            (case decode_frame_fragment_abort bytes of
               Inl _ \<Rightarrow> client_disconnect c
             | Inr t \<Rightarrow> c\<lparr>cl_reassembler := snd (reassembler_abort t (cl_reassembler c))\<rparr>)
          else if handler_keeps content (cl_handled c) kind bytes then c\<lparr>cl_handled := cl_handled c @ [bytes]\<rparr>
          else client_disconnect c)"

definition client_message :: "content_check \<Rightarrow> u8 list \<Rightarrow> frame_client \<Rightarrow> frame_client" where
  "client_message content bytes c =
     (if \<not> cl_connected c then c
      else case message_kind bytes of
        Inl _ \<Rightarrow> client_disconnect c
      | Inr kind \<Rightarrow>
          if kind = KIND_FRAME_FRAGMENT then
            (case reassembler_accept bytes (cl_reassembler c) of
               (Inl _, r) \<Rightarrow> client_disconnect (c\<lparr>cl_reassembler := r\<rparr>)
             | (Inr None, r) \<Rightarrow> c\<lparr>cl_reassembler := r\<rparr>
             | (Inr (Some completed), r) \<Rightarrow> client_dispatch content completed (c\<lparr>cl_reassembler := r\<rparr>))
          else client_dispatch content bytes c)"

section \<open>The writer and the client together\<close>

record frame_link =
  lk_writer :: frame_writer
  lk_client :: frame_client
  lk_sent :: "u8 list list"

text \<open>
  \<open>lk_sent\<close> records the frames the writer reports complete, in order. A step of the link is a
  frame queued by a task of the session, a step of the session's admission, the writer dropping a
  cancelled frame, or the writer sending, under whatever byte budget the shaper allows then. In a
  \<open>steady\<close> step the shaper does not lift fragmentation from a frame already begun, and the
  64-bit transfer counter does not wrap.
\<close>

text \<open>What the tasks of a world session queue: valid frames of the kinds a client has handlers for.\<close>

definition WORLD_KINDS :: "nat list" where
  "WORLD_KINDS = [KIND_WORLD_OPENED, KIND_EDIT_COMMIT, KIND_RESYNC_REQUIRED, KIND_ERROR] @ BATCH_RESULT_KINDS"

definition deliverable :: "outbound_frame \<Rightarrow> bool" where
  "deliverable f \<longleftrightarrow> (case decode_frame (ob_bytes f) of Inl _ \<Rightarrow> False | Inr fr \<Rightarrow> fr_kind fr \<in> set WORLD_KINDS)"

lemmas world_kinds = WORLD_KINDS_def BATCH_RESULT_KINDS_def KIND_WORLD_OPENED_def KIND_CHUNK_BATCH_RESULT_def
  KIND_TERRAIN_DIRECTORY_BATCH_RESULT_def KIND_TERRAIN_PAGE_BATCH_RESULT_def KIND_TERRAIN_REGION_COLUMN_BATCH_RESULT_def
  KIND_EDIT_COMMIT_def KIND_ERROR_def

definition client_accepts :: "content_check \<Rightarrow> u8 list list \<Rightarrow> u8 list \<Rightarrow> bool" where
  "client_accepts content handled bytes \<longleftrightarrow>
     (case message_kind bytes of Inl _ \<Rightarrow> False | Inr kind \<Rightarrow> handler_keeps content handled kind bytes)"

definition link_receive :: "outbound_frame \<Rightarrow> frame_link \<Rightarrow> frame_link" where
  "link_receive f l = l\<lparr>lk_writer := writer_receive f (lk_writer l)\<rparr>"

definition link_drop :: "content_check \<Rightarrow> nat \<Rightarrow> frame_link \<Rightarrow> frame_link" where
  "link_drop content p l =
     (let (wires, w) = writer_drop p (lk_writer l)
      in l\<lparr>lk_writer := w, lk_client := fold (client_message content) wires (lk_client l)\<rparr>)"

definition link_send :: "content_check \<Rightarrow> nat \<Rightarrow> nat option \<Rightarrow> frame_link \<Rightarrow> frame_link" where
  "link_send content p fragment_bytes l =
     (let (wires, w) = writer_send p fragment_bytes (lk_writer l);
          front = hd (wr_queues (lk_writer l) ! p);
          complete = (case fst (take_next_wire front fragment_bytes (wr_next_transfer (lk_writer l))) of
            Inl _ \<Rightarrow> False | Inr (_, complete) \<Rightarrow> complete)
      in l\<lparr>lk_writer := w, lk_client := fold (client_message content) wires (lk_client l),
           lk_sent := (if complete then lk_sent l @ [ob_bytes front] else lk_sent l)\<rparr>)"

definition link_new :: "session_requests \<Rightarrow> frame_link" where
  "link_new s = \<lparr>lk_writer = writer_new s, lk_client = client_new, lk_sent = []\<rparr>"

definition link_front :: "frame_link \<Rightarrow> nat \<Rightarrow> outbound_frame option" where
  "link_front l p = (case wr_queues (lk_writer l) ! p of [] \<Rightarrow> None | f # _ \<Rightarrow> Some f)"

inductive steady_step :: "content_check \<Rightarrow> nat \<Rightarrow> frame_link \<Rightarrow> frame_link \<Rightarrow> bool" for content M where
  receive: "deliverable f \<Longrightarrow> ob_offset f = 0 \<Longrightarrow> ob_transfer f = None \<Longrightarrow> ob_priority f < PRIORITY_COUNT \<Longrightarrow>
    steady_step content M l (link_receive f l)"
| session: "session_step (wr_session (lk_writer l)) s \<Longrightarrow>
    steady_step content M l (l\<lparr>lk_writer := (lk_writer l)\<lparr>wr_session := s\<rparr>\<rparr>)"
| drop: "p < PRIORITY_COUNT \<Longrightarrow> link_front l p = Some f \<Longrightarrow> frame_cancelled (wr_session (lk_writer l)) f \<Longrightarrow>
    steady_step content M l (link_drop content p l)"
| send: "p < PRIORITY_COUNT \<Longrightarrow> link_front l p = Some f \<Longrightarrow> \<not> frame_cancelled (wr_session (lk_writer l)) f \<Longrightarrow>
    fragment_bytes = outbound_fragment_bytes M budget f \<Longrightarrow>
    ob_offset f > 0 \<longrightarrow> fragment_bytes \<noteq> None \<Longrightarrow> wr_next_transfer (lk_writer l) \<noteq> -1 \<Longrightarrow>
    steady_step content M l (link_send content p fragment_bytes l)"

inductive_cases steady_stepE: "steady_step content M l l'"

section \<open>The client mirrors the writer\<close>

definition progress :: "outbound_frame \<Rightarrow> (u64 \<times> partial_frame) option" where
  "progress f = map_option (\<lambda>t. (t, \<lparr>pf_total_bytes = length (ob_bytes f), pf_bytes = take (ob_offset f) (ob_bytes f)\<rparr>))
     (ob_transfer f)"

definition mirrors :: "frame_reassembler \<Rightarrow> (nat \<Rightarrow> outbound_frame option) \<Rightarrow> bool" where
  "mirrors r F \<longleftrightarrow> (\<forall>t part. btree_get r t = Some part \<longleftrightarrow>
     (\<exists>p < PRIORITY_COUNT. \<exists>f. F p = Some f \<and> progress f = Some (t, part)))"

definition transfers_unique :: "(nat \<Rightarrow> outbound_frame option) \<Rightarrow> bool" where
  "transfers_unique F \<longleftrightarrow> (\<forall>p < PRIORITY_COUNT. \<forall>q < PRIORITY_COUNT. \<forall>f g t.
     F p = Some f \<longrightarrow> F q = Some g \<longrightarrow> ob_transfer f = Some t \<longrightarrow> ob_transfer g = Some t \<longrightarrow> p = q)"

definition frame_state_ok :: "u64 \<Rightarrow> outbound_frame \<Rightarrow> bool" where
  "frame_state_ok next_id f \<longleftrightarrow> deliverable f \<and>
     (case ob_transfer f of None \<Rightarrow> ob_offset f = 0
      | Some t \<Rightarrow> 0 < t \<and> t < next_id \<and> 0 < ob_offset f \<and> ob_offset f < length (ob_bytes f))"

definition queue_ok :: "u64 \<Rightarrow> outbound_frame list \<Rightarrow> bool" where
  "queue_ok next_id fs \<longleftrightarrow> list_all (frame_state_ok next_id) fs \<and> list_all (\<lambda>f. ob_transfer f = None) (tl fs)"

definition link_inv :: "frame_link \<Rightarrow> bool" where
  "link_inv l \<longleftrightarrow>
     length (wr_queues (lk_writer l)) = PRIORITY_COUNT \<and> list_all (queue_ok (wr_next_transfer (lk_writer l))) (wr_queues (lk_writer l)) \<and>
     wr_open (lk_writer l) \<and> 0 < wr_next_transfer (lk_writer l) \<and>
     cl_connected (lk_client l) \<and> cl_handled (lk_client l) = lk_sent l \<and> reassembler_wf (cl_reassembler (lk_client l)) \<and>
     mirrors (cl_reassembler (lk_client l)) (link_front l) \<and> transfers_unique (link_front l)"

text \<open>A handler has ended the connection: everything sent before the frame it refused was handled.\<close>

definition link_refused :: "content_check \<Rightarrow> frame_link \<Rightarrow> bool" where
  "link_refused content l \<longleftrightarrow> \<not> cl_connected (lk_client l) \<and>
     (\<exists>refused later. lk_sent l = cl_handled (lk_client l) @ refused # later \<and>
        \<not> client_accepts content (cl_handled (lk_client l)) refused)"

lemma ex_split: "(\<exists>q < N. Q q) \<longleftrightarrow> (p < N \<and> Q p) \<or> (\<exists>q < N. q \<noteq> p \<and> Q q)" for N :: nat
  by blast

lemma ex_upd:
  "(\<exists>q < N. \<exists>f. (F(p := g)) q = Some f \<and> P f) \<longleftrightarrow>
     (p < N \<and> (\<exists>f. g = Some f \<and> P f)) \<or> (\<exists>q < N. q \<noteq> p \<and> (\<exists>f. F q = Some f \<and> P f))"
  for N :: nat
  using ex_split [of N "\<lambda>q. \<exists>f. (F(p := g)) q = Some f \<and> P f" p] unfolding fun_upd_def by force

lemma progress_transfer: "progress f = Some (u, part) \<Longrightarrow> ob_transfer f = Some u"
  by (auto simp: progress_def)

lemma mirrors_step:
  assumes "mirrors r F" "\<And>u. u \<noteq> t \<Longrightarrow> btree_get r' u = btree_get r u"
    and "btree_get r' t = (case g of None \<Rightarrow> None | Some h \<Rightarrow> map_option snd (progress h))"
    and "\<And>f. F p = Some f \<Longrightarrow> ob_transfer f = None \<or> ob_transfer f = Some t"
    and "\<And>h. g = Some h \<Longrightarrow> ob_transfer h = None \<or> ob_transfer h = Some t"
    and "\<And>q f. q < PRIORITY_COUNT \<Longrightarrow> q \<noteq> p \<Longrightarrow> F q = Some f \<Longrightarrow> ob_transfer f \<noteq> Some t" and p: "p < PRIORITY_COUNT"
  shows "mirrors r' (F(p := g))"
  unfolding mirrors_def
proof (intro allI)
  fix u part
  show "btree_get r' u = Some part \<longleftrightarrow> (\<exists>q < PRIORITY_COUNT. \<exists>f. (F(p := g)) q = Some f \<and> progress f = Some (u, part))"
  proof (cases "u = t")
    case True
    have "\<not> (\<exists>q < PRIORITY_COUNT. q \<noteq> p \<and> (\<exists>f. F q = Some f \<and> progress f = Some (t, part)))"
      using assms(6) progress_transfer by blast
    moreover have "btree_get r' t = Some part \<longleftrightarrow> (\<exists>h. g = Some h \<and> progress h = Some (t, part))"
      using assms(3,5) by (cases g) (fastforce simp: progress_def)+
    ultimately show ?thesis unfolding True ex_upd using p by blast
  next
    case False
    have "\<not> (\<exists>f. F p = Some f \<and> progress f = Some (u, part))" "\<not> (\<exists>f. g = Some f \<and> progress f = Some (u, part))"
      using assms(4,5) False progress_transfer by fastforce+
    moreover have "btree_get r' u = Some part \<longleftrightarrow> (\<exists>q < PRIORITY_COUNT. \<exists>f. F q = Some f \<and> progress f = Some (u, part))"
      using assms(1,2) False by (simp add: mirrors_def)
    ultimately show ?thesis
      unfolding ex_upd using ex_split [of PRIORITY_COUNT "\<lambda>q. \<exists>f. F q = Some f \<and> progress f = Some (u, part)" p] by blast
  qed
qed

lemma mirrors_idle:
  assumes "mirrors r F" "\<And>f. F p = Some f \<Longrightarrow> ob_transfer f = None" "\<And>h. g = Some h \<Longrightarrow> ob_transfer h = None"
  shows "mirrors r (F(p := g))"
proof -
  have "\<not> (\<exists>f. F p = Some f \<and> progress f = Some x)" "\<not> (\<exists>f. g = Some f \<and> progress f = Some x)" for x
    using assms(2,3) by (auto simp: progress_def)
  then have "(\<exists>q < PRIORITY_COUNT. \<exists>f. (F(p := g)) q = Some f \<and> progress f = Some x) \<longleftrightarrow>
      (\<exists>q < PRIORITY_COUNT. \<exists>f. F q = Some f \<and> progress f = Some x)" for x
    unfolding ex_upd using ex_split [of PRIORITY_COUNT "\<lambda>q. \<exists>f. F q = Some f \<and> progress f = Some x" p] by blast
  then show ?thesis using assms(1) by (simp add: mirrors_def)
qed

lemma transfers_unique_upd:
  assumes "transfers_unique F"
    and "\<And>h u q f. g = Some h \<Longrightarrow> ob_transfer h = Some u \<Longrightarrow> q < PRIORITY_COUNT \<Longrightarrow> q \<noteq> p \<Longrightarrow> F q = Some f \<Longrightarrow>
      ob_transfer f \<noteq> Some u"
  shows "transfers_unique (F(p := g))"
  using assms unfolding transfers_unique_def by (auto simp: fun_upd_def split: if_splits)

lemma frame_state_ok_mono: "frame_state_ok n f \<Longrightarrow> n \<le> m \<Longrightarrow> frame_state_ok m f"
  by (auto simp: frame_state_ok_def split: option.splits)

lemma queue_ok_mono: "queue_ok n fs \<Longrightarrow> n \<le> m \<Longrightarrow> queue_ok m fs"
  by (auto simp: queue_ok_def list_all_iff intro: frame_state_ok_mono)

lemma link_front_update:
  "p < length (wr_queues (lk_writer l)) \<Longrightarrow>
   link_front (l\<lparr>lk_writer := w, lk_client := c, lk_sent := x\<rparr>) = link_front (l\<lparr>lk_writer := w\<rparr>)"
  by (simp add: link_front_def fun_eq_iff)

lemma link_front_queues:
  assumes "wr_queues w = (wr_queues (lk_writer l))[p := fs]" "p < length (wr_queues (lk_writer l))" "lk_writer l' = w"
  shows "link_front l' = (link_front l)(p := (case fs of [] \<Rightarrow> None | f # _ \<Rightarrow> Some f))"
  using assms by (auto simp: link_front_def fun_eq_iff nth_list_update)

section \<open>Every steady step keeps the mirror\<close>

definition link_of :: "frame_writer \<Rightarrow> frame_client \<Rightarrow> u8 list list \<Rightarrow> frame_link" where
  "link_of w c sent = \<lparr>lk_writer = w, lk_client = c, lk_sent = sent\<rparr>"

lemma link_update_all:
  "l\<lparr>lk_writer := w, lk_client := c, lk_sent := sent\<rparr> = link_of w c sent"
  "l\<lparr>lk_writer := w, lk_client := c\<rparr> = link_of w c (lk_sent l)"
  "(link_of w c x)\<lparr>lk_sent := sent\<rparr> = link_of w c sent"
  by (cases l; simp add: link_of_def)+

lemma link_advance:
  assumes inv: "link_inv l" and p: "p < PRIORITY_COUNT"
    and w: "wr_queues w = (wr_queues (lk_writer l))[p := fs]" "queue_ok (wr_next_transfer w) fs" "wr_open w"
      "wr_next_transfer (lk_writer l) \<le> wr_next_transfer w"
    and c: "cl_connected c" "cl_handled c = sent" "reassembler_wf (cl_reassembler c)"
    and F: "F = (link_front l)(p := (case fs of [] \<Rightarrow> None | f # _ \<Rightarrow> Some f))"
    and m: "mirrors (cl_reassembler c) F" "transfers_unique F"
  shows "link_inv (link_of w c sent)"
proof -
  have len: "length (wr_queues (lk_writer l)) = PRIORITY_COUNT"
    and qs: "\<And>fs. fs \<in> set (wr_queues (lk_writer l)) \<Longrightarrow> queue_ok (wr_next_transfer w) fs"
    and pos: "0 < wr_next_transfer (lk_writer l)"
    using inv queue_ok_mono [OF _ w(4)] by (auto simp: link_inv_def list_all_iff)
  have front: "link_front (link_of w c sent) = F"
    unfolding F using link_front_queues [OF w(1), of "link_of w c sent"] p len by (simp add: link_of_def)
  have "\<forall>fs \<in> set (wr_queues w). queue_ok (wr_next_transfer w) fs"
    using qs w(2) set_update_subset_insert [of "wr_queues (lk_writer l)" p fs] unfolding w(1) by blast
  then have q: "list_all (queue_ok (wr_next_transfer w)) (wr_queues w)" by (simp add: list_all_iff)
  have "length (wr_queues w) = PRIORITY_COUNT" "0 < wr_next_transfer w" using len w(1,4) pos by auto
  with q show ?thesis
    unfolding link_inv_def front using c m w(3) by (simp add: link_of_def)
qed

lemma link_inv_front:
  assumes inv: "link_inv l" and p: "p < PRIORITY_COUNT" and f: "link_front l p = Some f"
  obtains q where "wr_queues (lk_writer l) ! p = f # q" "frame_state_ok (wr_next_transfer (lk_writer l)) f"
    "queue_ok (wr_next_transfer (lk_writer l)) q" "list_all (\<lambda>f. ob_transfer f = None) q"
proof -
  obtain q where q: "wr_queues (lk_writer l) ! p = f # q" using f by (auto simp: link_front_def split: list.splits)
  have "queue_ok (wr_next_transfer (lk_writer l)) (f # q)"
    using inv p q nth_mem [of p "wr_queues (lk_writer l)"] by (auto simp: link_inv_def list_all_iff)
  then show thesis using that [OF q] by (cases q) (auto simp: queue_ok_def)
qed

lemma queue_head_idle: "list_all (\<lambda>f. ob_transfer f = None) q \<Longrightarrow> (case q of [] \<Rightarrow> None | f # _ \<Rightarrow> Some f) = Some h \<Longrightarrow> ob_transfer h = None"
  by (cases q) auto

lemma receive_inv:
  assumes inv: "link_inv l" and f: "deliverable f" "ob_offset f = 0" "ob_transfer f = None" "ob_priority f < PRIORITY_COUNT"
  shows "link_inv (link_receive f l)"
proof -
  let ?p = "ob_priority f"
  let ?q = "wr_queues (lk_writer l) ! ?p"
  let ?w = "writer_receive f (lk_writer l)"
  let ?F = "(link_front l)(?p := (case ?q @ [f] of [] \<Rightarrow> None | f # _ \<Rightarrow> Some f))"
  have q: "queue_ok (wr_next_transfer (lk_writer l)) ?q"
    using inv f(4) by (auto simp: link_inv_def list_all_iff)
  have ok: "queue_ok (wr_next_transfer (lk_writer l)) (?q @ [f])"
    using q f by (cases ?q) (auto simp: queue_ok_def frame_state_ok_def)
  have m: "mirrors (cl_reassembler (lk_client l)) (link_front l)" "transfers_unique (link_front l)"
    using inv by (auto simp: link_inv_def)
  have "mirrors (cl_reassembler (lk_client l)) ?F \<and> transfers_unique ?F"
  proof (cases ?q)
    case Nil
    then have "mirrors (cl_reassembler (lk_client l)) ((link_front l)(?p := Some f))"
      using m(1) f(3) by (intro mirrors_idle) (auto simp: link_front_def)
    moreover have "transfers_unique ((link_front l)(?p := Some f))" using m(2) f(3) by (intro transfers_unique_upd) auto
    ultimately show ?thesis using Nil by simp
  next
    case (Cons g gs)
    then have "?F = link_front l" by (simp add: link_front_def fun_eq_iff)
    with m show ?thesis by simp
  qed
  then have "link_inv (link_of ?w (lk_client l) (lk_sent l))"
    using inv ok f(4) by (intro link_advance [OF inv f(4) _ _ _ _ _ _ _ refl]) (auto simp: writer_receive_def link_inv_def)
  then show ?thesis by (cases l) (simp add: link_receive_def link_of_def)
qed

lemma abort_message:
  "t \<noteq> 0 \<Longrightarrow> cl_connected c \<Longrightarrow> client_message content (encode_frame KIND_FRAME_FRAGMENT_ABORT t []) c =
     c\<lparr>cl_reassembler := btree_remove t (cl_reassembler c)\<rparr>"
  by (simp add: client_message_def message_kind_def decode_encode_frame_fields client_dispatch_def
      decode_frame_fragment_abort_def expect_kind_def reassembler_abort_def frame_consts)

lemma reassembler_wf_remove: "reassembler_wf r \<Longrightarrow> reassembler_wf (btree_remove t r)"
  using reassembler_step_wf [OF _ reassembler_step.abort [of r t]] by (simp add: reassembler_abort_def)

lemma drop_inv:
  assumes inv: "link_inv l" and p: "p < PRIORITY_COUNT" and f: "link_front l p = Some f"
  shows "link_inv (link_drop content p l)"
proof -
  obtain q where q: "wr_queues (lk_writer l) ! p = f # q" and st: "frame_state_ok (wr_next_transfer (lk_writer l)) f"
    and ok: "queue_ok (wr_next_transfer (lk_writer l)) q" "list_all (\<lambda>f. ob_transfer f = None) q"
    by (rule link_inv_front [OF inv p f])
  let ?F = "(link_front l)(p := (case q of [] \<Rightarrow> None | f # _ \<Rightarrow> Some f))"
  let ?w = "(lk_writer l)\<lparr>wr_queues := (wr_queues (lk_writer l))[p := q], wr_session := finish_tracked f (wr_session (lk_writer l))\<rparr>"
  let ?r = "cl_reassembler (lk_client l)"
  have m: "mirrors ?r (link_front l)" "transfers_unique (link_front l)" and cl: "cl_connected (lk_client l)"
    "cl_handled (lk_client l) = lk_sent l" "reassembler_wf ?r" "wr_open (lk_writer l)"
    using inv by (auto simp: link_inv_def)
  have uniq: "transfers_unique ?F"
    using m(2) queue_head_idle [OF ok(2)] by (intro transfers_unique_upd) auto
  show ?thesis
  proof (cases "ob_transfer f")
    case None
    then have "link_drop content p l = link_of ?w (lk_client l) (lk_sent l)"
      by (simp add: link_drop_def writer_drop_def q partial_frame_abort_def Let_def link_of_def)
    moreover have "mirrors ?r ?F" using m(1) f None queue_head_idle [OF ok(2)] by (intro mirrors_idle) auto
    ultimately show ?thesis
      using cl ok uniq by (simp, intro link_advance [OF inv p _ _ _ _ _ _ _ refl]) auto
  next
    case (Some t)
    then have t: "t \<noteq> 0" using st by (auto simp: frame_state_ok_def)
    let ?c = "(lk_client l)\<lparr>cl_reassembler := btree_remove t ?r\<rparr>"
    have "link_drop content p l = link_of ?w ?c (lk_sent l)"
      using t by (simp add: link_drop_def writer_drop_def q partial_frame_abort_def Some Let_def link_of_def
          encode_frame_fragment_abort_def abort_message cl)
    moreover have "mirrors (btree_remove t ?r) ?F"
    proof (rule mirrors_step [OF m(1) _ _ _ _ _ p, where t = t])
      have "btree_wf ?r" using cl(3) by (simp add: reassembler_wf_def)
      then show "u \<noteq> t \<Longrightarrow> btree_get (btree_remove t ?r) u = btree_get ?r u" for u by (simp add: btree_get_remove)
      show "btree_get (btree_remove t ?r) t = (case (case q of [] \<Rightarrow> None | f # _ \<Rightarrow> Some f) of None \<Rightarrow> None
          | Some h \<Rightarrow> map_option snd (progress h))"
        using \<open>btree_wf ?r\<close> ok(2) by (cases q) (auto simp: btree_get_remove progress_def)
      show "ob_transfer g \<noteq> Some t" if "i < PRIORITY_COUNT" "i \<noteq> p" "link_front l i = Some g" for i g
        using m(2) that p f Some unfolding transfers_unique_def by blast
    qed (use f Some queue_head_idle [OF ok(2)] in auto)
    ultimately show ?thesis
      using cl ok uniq reassembler_wf_remove [OF cl(3)] by (simp, intro link_advance [OF inv p _ _ _ _ _ _ _ refl]) auto
  qed
qed

lemma link_held:
  assumes "link_inv l"
  shows "length (cl_reassembler (lk_client l)) \<le> PRIORITY_COUNT"
proof -
  let ?r = "cl_reassembler (lk_client l)"
  let ?S = "(\<lambda>p. the (ob_transfer (the (link_front l p)))) ` {..<PRIORITY_COUNT}"
  have wf: "btree_wf ?r" using assms by (simp add: link_inv_def reassembler_wf_def)
  have "fst ` set ?r \<subseteq> ?S"
  proof
    fix u assume "u \<in> fst ` set ?r"
    then obtain part0 where "btree_get ?r u = Some part0" using btree_get_None by force
    then obtain p f part where "p < PRIORITY_COUNT" "link_front l p = Some f" "progress f = Some (u, part)"
      using assms unfolding link_inv_def mirrors_def by blast
    then show "u \<in> ?S" using progress_transfer [of f u part] by (intro image_eqI [of _ _ p]) simp_all
  qed
  then have "card (fst ` set ?r) \<le> card ?S" by (intro card_mono) auto
  also have "card ?S \<le> card {..<PRIORITY_COUNT}" by (rule card_image_le) simp
  finally have "card (fst ` set ?r) \<le> PRIORITY_COUNT" by simp
  moreover have "card (fst ` set ?r) = length ?r"
    using wf distinct_card [of "map fst ?r"] by (simp add: btree_wf_def sorted_wrt_less_distinct)
  ultimately show ?thesis by simp
qed

lemma link_room: "link_inv l \<Longrightarrow> length (cl_reassembler (lk_client l)) < MAX_ACTIVE_TRANSFERS"
  using link_held [of l] by (simp add: PRIORITY_COUNT_def MAX_ACTIVE_TRANSFERS_def)

lemma link_fresh_transfer:
  assumes "link_inv l"
  shows "btree_get (cl_reassembler (lk_client l)) (wr_next_transfer (lk_writer l)) = None"
proof (rule ccontr)
  let ?n = "wr_next_transfer (lk_writer l)"
  assume "btree_get (cl_reassembler (lk_client l)) ?n \<noteq> None"
  then obtain p f part where p: "p < PRIORITY_COUNT" "link_front l p = Some f" and pr: "progress f = Some (?n, part)"
    using assms unfolding link_inv_def mirrors_def by blast
  obtain q where "wr_queues (lk_writer l) ! p = f # q" "frame_state_ok ?n f" "queue_ok ?n q"
    "list_all (\<lambda>f. ob_transfer f = None) q"
    by (rule link_inv_front [OF assms p])
  then show False using progress_transfer [OF pr] by (simp add: frame_state_ok_def)
qed

lemma deliverable_dispatch:
  assumes "deliverable f" "cl_connected c"
  shows "client_dispatch content (ob_bytes f) c = (if client_accepts content (cl_handled c) (ob_bytes f)
      then c\<lparr>cl_handled := cl_handled c @ [ob_bytes f]\<rparr> else client_disconnect c)"
    "client_message content (ob_bytes f) c = (if client_accepts content (cl_handled c) (ob_bytes f)
      then c\<lparr>cl_handled := cl_handled c @ [ob_bytes f]\<rparr> else client_disconnect c)"
  using assms
  by (auto simp: deliverable_def client_dispatch_def client_message_def client_accepts_def message_kind_def world_kinds
      frame_consts split: sum.splits)

text \<open>The wire a frame yields for a fragment size, and what the client makes of it.\<close>

lemma fragment_of_frame:
  assumes f: "deliverable f" "ob_offset f < length (ob_bytes f)" and t: "t \<noteq> 0"
    and n: "0 < n" "n \<le> MAX_FRAME_FRAGMENT_DATA_BYTES"
    and stop: "stop = min (ob_offset f + n) (length (ob_bytes f))"
  shows "\<exists>wire. encode_frame_fragment t (length (ob_bytes f)) (ob_offset f)
    (take (stop - ob_offset f) (drop (ob_offset f) (ob_bytes f))) = Inr wire"
proof -
  obtain fr where "decode_frame (ob_bytes f) = Inr fr" using f(1) by (auto simp: deliverable_def split: sum.splits)
  then have b: "24 \<le> length (ob_bytes f)" "length (ob_bytes f) \<le> 16777216"
    by (auto simp: decode_frame_iff frame_ok_def frame_bytes_def frame_consts)
  have "length (take (stop - ob_offset f) (drop (ob_offset f) (ob_bytes f))) = stop - ob_offset f" using stop by simp
  moreover have "0 < stop - ob_offset f" "stop - ob_offset f \<le> 16777184" "ob_offset f + (stop - ob_offset f) \<le> length (ob_bytes f)"
    using n f(2) by (auto simp: stop frame_consts)
  ultimately have "validate_frame_fragment_fields t (length (ob_bytes f)) (ob_offset f)
      (length (take (stop - ob_offset f) (drop (ob_offset f) (ob_bytes f)))) = Inr ()"
    unfolding validate_fragment_Inr using t b by simp
  then show ?thesis using b f(2) by (simp add: encode_frame_fragment_def)
qed

lemma client_fragment:
  assumes wire: "encode_frame_fragment t (length (ob_bytes f)) (ob_offset f)
      (take (stop - ob_offset f) (drop (ob_offset f) (ob_bytes f))) = Inr wire"
    and stop: "ob_offset f \<le> stop" "stop \<le> length (ob_bytes f)"
    and f: "deliverable f" and c: "cl_connected c" "btree_wf (cl_reassembler c)" "length (cl_reassembler c) < MAX_ACTIVE_TRANSFERS"
    and st: "transfer_state t (length (ob_bytes f)) (take (ob_offset f) (ob_bytes f)) (cl_reassembler c)"
  defines "r \<equiv> snd (reassembler_accept wire (cl_reassembler c))"
  shows "client_message content wire c = (if stop \<noteq> length (ob_bytes f) then c\<lparr>cl_reassembler := r\<rparr>
      else if client_accepts content (cl_handled c) (ob_bytes f)
      then c\<lparr>cl_reassembler := r, cl_handled := cl_handled c @ [ob_bytes f]\<rparr>
      else client_disconnect (c\<lparr>cl_reassembler := r\<rparr>))"
    and "if stop = length (ob_bytes f) then btree_get r t = None
      else transfer_state t (length (ob_bytes f)) (take stop (ob_bytes f)) r"
    and "u \<noteq> t \<Longrightarrow> btree_get r u = btree_get (cl_reassembler c) u"
proof -
  let ?chunk = "take (stop - ob_offset f) (drop (ob_offset f) (ob_bytes f))"
  obtain fr where fr: "decode_frame (ob_bytes f) = Inr fr" "fr_kind fr \<noteq> KIND_FRAME_FRAGMENT"
    using f by (auto simp: deliverable_def world_kinds frame_consts split: sum.splits)
  have off: "length (take (ob_offset f) (ob_bytes f)) = ob_offset f" using stop by simp
  have frame: "ob_bytes f = take (ob_offset f) (ob_bytes f) @ ?chunk @ drop stop (ob_bytes f)"
    using stop by (metis append_take_drop_id drop_drop le_add_diff_inverse2)
  have recv: "take (ob_offset f) (ob_bytes f) @ ?chunk = take stop (ob_bytes f)"
    using stop by (metis le_add_diff_inverse take_add)
  have own: "fst (reassembler_accept wire (cl_reassembler c)) = (if drop stop (ob_bytes f) = [] then Inr (Some (ob_bytes f)) else Inr None)"
    "if drop stop (ob_bytes f) = [] then btree_get r t = None else transfer_state t (length (ob_bytes f)) (take stop (ob_bytes f)) r"
    using accept_own_fragment [OF c(2) st _ frame c(3) fr] wire off unfolding recv r_def by simp_all
  have fin: "drop stop (ob_bytes f) = [] \<longleftrightarrow> stop = length (ob_bytes f)" using stop by auto
  have dec: "decode_frame_fragment wire = Inr \<lparr>ff_transfer_id = t, ff_total_bytes = length (ob_bytes f),
      ff_offset = ob_offset f, ff_bytes = ?chunk\<rparr>"
    using wire by (simp add: fragment.dec_iff)
  then have kind: "message_kind wire = Inr KIND_FRAME_FRAGMENT"
    unfolding decode_frame_fragment_def message_kind_def by auto
  show "client_message content wire c = (if stop \<noteq> length (ob_bytes f) then c\<lparr>cl_reassembler := r\<rparr>
      else if client_accepts content (cl_handled c) (ob_bytes f)
      then c\<lparr>cl_reassembler := r, cl_handled := cl_handled c @ [ob_bytes f]\<rparr>
      else client_disconnect (c\<lparr>cl_reassembler := r\<rparr>))"
    using c(1) own(1) deliverable_dispatch(1) [OF f, of "c\<lparr>cl_reassembler := r\<rparr>" content] unfolding fin
    by (cases "reassembler_accept wire (cl_reassembler c)") (auto simp: client_message_def kind r_def)
  show "if stop = length (ob_bytes f) then btree_get r t = None
      else transfer_state t (length (ob_bytes f)) (take stop (ob_bytes f)) r"
    using own(2) unfolding fin .
  show "u \<noteq> t \<Longrightarrow> btree_get r u = btree_get (cl_reassembler c) u"
    unfolding r_def using c(2) dec by (intro reassembler_accept_other) auto
qed

lemma next_transfer_id_succ:
  assumes "i \<noteq> -1"
  shows "next_transfer_id i = i + 1" "i < i + 1"
proof -
  have "1 + i \<noteq> 0" using assms max_word_wrap [of i] by (metis add.commute)
  then have "unat (i + 1) = Suc (unat i)" using unatSuc [of i] by (metis add.commute)
  then have "1 \<le> i + 1" and less: "i < i + 1" by (simp_all add: word_less_nat_alt word_le_nat_alt)
  then show "next_transfer_id i = i + 1" by (simp add: next_transfer_id_def max_def)
  show "i < i + 1" by (rule less)
qed

lemma next_transfer_id_less: "i \<noteq> -1 \<Longrightarrow> i < next_transfer_id i \<and> 0 < next_transfer_id i"
  using next_transfer_id_succ [of i] by (metis word_gt_0 not_less_iff_gr_or_eq word_not_simps(1))

lemma refused_sent:
  "link_inv l \<Longrightarrow> \<not> client_accepts content (cl_handled (lk_client l)) b \<Longrightarrow> cl_handled c = cl_handled (lk_client l) \<Longrightarrow>
   link_refused content (link_of w (client_disconnect c) (lk_sent l @ [b]))"
  by (auto simp: link_refused_def link_of_def client_disconnect_def link_inv_def)

lemma whole_send_inv:
  assumes inv: "link_inv l" and p: "p < PRIORITY_COUNT" and f: "link_front l p = Some f"
    and live: "\<not> frame_cancelled (wr_session (lk_writer l)) f" and start: "ob_offset f = 0"
  shows "link_inv (link_send content p None l) \<or> link_refused content (link_send content p None l)"
proof -
  obtain q where q: "wr_queues (lk_writer l) ! p = f # q" and st: "frame_state_ok (wr_next_transfer (lk_writer l)) f"
    and ok: "queue_ok (wr_next_transfer (lk_writer l)) q" "list_all (\<lambda>f. ob_transfer f = None) q"
    by (rule link_inv_front [OF inv p f])
  let ?F = "(link_front l)(p := (case q of [] \<Rightarrow> None | f # _ \<Rightarrow> Some f))"
  let ?w = "(lk_writer l)\<lparr>wr_queues := (wr_queues (lk_writer l))[p := q],
    wr_session := finish_tracked f (wr_session (lk_writer l))\<rparr>"
  let ?c = "(lk_client l)\<lparr>cl_handled := cl_handled (lk_client l) @ [ob_bytes f]\<rparr>"
  have m: "mirrors (cl_reassembler (lk_client l)) (link_front l)" "transfers_unique (link_front l)"
    and cl: "cl_connected (lk_client l)" "cl_handled (lk_client l) = lk_sent l"
    "reassembler_wf (cl_reassembler (lk_client l))" "wr_open (lk_writer l)"
    using inv by (auto simp: link_inv_def)
  have idle: "ob_transfer f = None" and d: "deliverable f" using st start by (auto simp: frame_state_ok_def split: option.splits)
  have send: "link_send content p None l = link_of ?w (client_message content (ob_bytes f) (lk_client l)) (lk_sent l @ [ob_bytes f])"
    using q live by (cases l) (simp add: link_send_def writer_send_def take_next_wire_def link_of_def finish_tracked_def)
  show ?thesis
  proof (cases "client_accepts content (cl_handled (lk_client l)) (ob_bytes f)")
    case False
    then show ?thesis using refused_sent [OF inv False refl] by (simp add: send deliverable_dispatch(2) [OF d cl(1)])
  next
    case True
  then have "link_send content p None l = link_of ?w ?c (lk_sent l @ [ob_bytes f])"
    by (simp add: send deliverable_dispatch(2) [OF d cl(1)])
  moreover have "mirrors (cl_reassembler (lk_client l)) ?F"
    using m(1) f idle queue_head_idle [OF ok(2)] by (intro mirrors_idle) auto
  moreover have "transfers_unique ?F"
    using m(2) queue_head_idle [OF ok(2)] by (intro transfers_unique_upd) auto
  ultimately have "link_inv (link_send content p None l)"
    using cl ok by (simp, intro link_advance [OF inv p _ _ _ _ _ _ _ refl]) auto
  then show ?thesis ..
  qed
qed

lemma fragment_send_inv:
  assumes inv: "link_inv l" and p: "p < PRIORITY_COUNT" and f: "link_front l p = Some f"
    and live: "\<not> frame_cancelled (wr_session (lk_writer l)) f" and n: "0 < n" "n \<le> MAX_FRAME_FRAGMENT_DATA_BYTES"
    and part: "n < length (ob_bytes f)" and wrap: "wr_next_transfer (lk_writer l) \<noteq> -1"
  shows "link_inv (link_send content p (Some n) l) \<or> link_refused content (link_send content p (Some n) l)"
proof -
  let ?next = "wr_next_transfer (lk_writer l)"
  obtain q where q: "wr_queues (lk_writer l) ! p = f # q" and st: "frame_state_ok ?next f"
    and ok: "queue_ok ?next q" "list_all (\<lambda>f. ob_transfer f = None) q"
    by (rule link_inv_front [OF inv p f])
  let ?r = "cl_reassembler (lk_client l)" and ?c = "lk_client l"
  have m: "mirrors ?r (link_front l)" "transfers_unique (link_front l)" and cl: "cl_connected ?c"
    "cl_handled ?c = lk_sent l" "reassembler_wf ?r" "wr_open (lk_writer l)" and pos: "0 < ?next"
    using inv by (auto simp: link_inv_def)
  then have wf: "btree_wf ?r" by (simp add: reassembler_wf_def)
  define t where "t = (case ob_transfer f of Some t \<Rightarrow> t | None \<Rightarrow> ?next)"
  define next' where "next' = (case ob_transfer f of Some t \<Rightarrow> ?next | None \<Rightarrow> next_transfer_id ?next)"
  have next': "?next \<le> next'" "t < next'" "0 < t" "deliverable f" "ob_offset f < length (ob_bytes f)"
    using st next_transfer_id_less [OF wrap] pos part
    by (auto simp: t_def next'_def frame_state_ok_def split: option.splits)
  define stop where "stop = min (ob_offset f + n) (length (ob_bytes f))"
  have stop: "ob_offset f < stop" "stop \<le> length (ob_bytes f)" using n next'(5) by (auto simp: stop_def)
  have t0: "t \<noteq> 0" using next'(3) by auto
  obtain wire where wire: "encode_frame_fragment t (length (ob_bytes f)) (ob_offset f)
      (take (stop - ob_offset f) (drop (ob_offset f) (ob_bytes f))) = Inr wire"
    using fragment_of_frame [OF next'(4,5) t0 n stop_def] by blast
  have held: "transfer_state t (length (ob_bytes f)) (take (ob_offset f) (ob_bytes f)) ?r"
  proof (cases "ob_transfer f")
    case None
    then show ?thesis using st link_fresh_transfer [OF inv] by (simp add: t_def frame_state_ok_def transfer_state_def)
  next
    case (Some u)
    then have "progress f = Some (u, \<lparr>pf_total_bytes = length (ob_bytes f), pf_bytes = take (ob_offset f) (ob_bytes f)\<rparr>)"
      by (simp add: progress_def)
    then have "btree_get ?r u = Some \<lparr>pf_total_bytes = length (ob_bytes f), pf_bytes = take (ob_offset f) (ob_bytes f)\<rparr>"
      using m(1) p f unfolding mirrors_def by blast
    moreover have "take (ob_offset f) (ob_bytes f) \<noteq> []" using st Some by (auto simp: frame_state_ok_def)
    ultimately show ?thesis using Some by (simp add: t_def transfer_state_def)
  qed
  define r where "r = snd (reassembler_accept wire ?r)"
  note cf = client_fragment [OF wire less_imp_le [OF stop(1)] stop(2) next'(4) cl(1) wf link_room [OF inv] held, folded r_def]
  have wfr: "reassembler_wf r" unfolding r_def by (rule reassembler_accept_wf [OF cl(3)])
  have other: "ob_transfer g \<noteq> Some t" if i: "i < PRIORITY_COUNT" "i \<noteq> p" "link_front l i = Some g" for i g
  proof
    assume g: "ob_transfer g = Some t"
    obtain q' where "wr_queues (lk_writer l) ! i = g # q'" "frame_state_ok ?next g" "queue_ok ?next q'"
      "list_all (\<lambda>f. ob_transfer f = None) q'" by (rule link_inv_front [OF inv i(1,3)])
    then have "t < ?next" using g by (simp add: frame_state_ok_def)
    then have "ob_transfer f = Some t" by (auto simp: t_def split: option.splits)
    then show False using m(2) i p f g unfolding transfers_unique_def by blast
  qed
  have own: "ob_transfer g = None \<or> ob_transfer g = Some t" if "link_front l p = Some g" for g
    using that f by (auto simp: t_def split: option.splits)
  let ?f = "f\<lparr>ob_transfer := Some t, ob_offset := stop\<rparr>"
  have take: "take_next_wire f (Some n) ?next = (Inr (wire, stop = length (ob_bytes f)), ?f, next')"
    using wire by (cases "ob_transfer f") (simp_all add: take_next_wire_def t_def next'_def stop_def [symmetric] Let_def)
  show ?thesis
  proof (cases "stop = length (ob_bytes f)")
    case True
    let ?F = "(link_front l)(p := (case q of [] \<Rightarrow> None | f # _ \<Rightarrow> Some f))"
    let ?w = "(lk_writer l)\<lparr>wr_queues := (wr_queues (lk_writer l))[p := q], wr_next_transfer := next',
      wr_session := finish_tracked f (wr_session (lk_writer l))\<rparr>"
    have send: "link_send content p (Some n) l = link_of ?w (client_message content wire ?c) (lk_sent l @ [ob_bytes f])"
      using q live True by (simp add: link_send_def writer_send_def take link_update_all finish_tracked_def)
    show ?thesis
    proof (cases "client_accepts content (cl_handled ?c) (ob_bytes f)")
      case False
      then show ?thesis using refused_sent [OF inv False, of "?c\<lparr>cl_reassembler := r\<rparr>"] True by (simp add: send cf(1))
    next
      case accepted: True
    have "link_send content p (Some n) l = link_of ?w (?c\<lparr>cl_reassembler := r, cl_handled := cl_handled ?c @ [ob_bytes f]\<rparr>)
        (lk_sent l @ [ob_bytes f])"
      using True accepted cf(1) by (simp add: send)
    moreover have "mirrors r ?F"
    proof (rule mirrors_step [OF m(1) cf(3) _ own _ other p])
      show "btree_get r t = (case (case q of [] \<Rightarrow> None | f # _ \<Rightarrow> Some f) of None \<Rightarrow> None
          | Some h \<Rightarrow> map_option snd (progress h))"
        using cf(2) True ok(2) by (cases q) (auto simp: progress_def)
    qed (use queue_head_idle [OF ok(2)] in auto)
    moreover have "transfers_unique ?F"
      using m(2) queue_head_idle [OF ok(2)] by (intro transfers_unique_upd) auto
    ultimately have "link_inv (link_send content p (Some n) l)"
      using cl wfr next'(1) queue_ok_mono [OF ok(1) next'(1)]
      by (simp, intro link_advance [OF inv p _ _ _ _ _ _ _ refl]) auto
    then show ?thesis ..
    qed
  next
    case False
    let ?F = "(link_front l)(p := (case ?f # q of [] \<Rightarrow> None | f # _ \<Rightarrow> Some f))"
    let ?w = "(lk_writer l)\<lparr>wr_queues := (wr_queues (lk_writer l))[p := ?f # q], wr_next_transfer := next'\<rparr>"
    have "link_send content p (Some n) l = link_of ?w (?c\<lparr>cl_reassembler := r\<rparr>) (lk_sent l)"
      using q live False cf(1) by (simp add: link_send_def writer_send_def take link_update_all)
    moreover have "mirrors r ?F"
    proof (rule mirrors_step [OF m(1) cf(3) _ own _ other p])
      show "btree_get r t = (case (case ?f # q of [] \<Rightarrow> None | f # _ \<Rightarrow> Some f) of None \<Rightarrow> None
          | Some h \<Rightarrow> map_option snd (progress h))"
        using cf(2) False stop by (auto simp: progress_def transfer_state_def)
    qed auto
    moreover have "transfers_unique ?F"
      using m(2) other by (intro transfers_unique_upd) auto
    moreover have "queue_ok next' (?f # q)"
      using queue_ok_mono [OF ok(1) next'(1)] ok(2) next' stop False
      by (auto simp: queue_ok_def frame_state_ok_def deliverable_def)
    ultimately have "link_inv (link_send content p (Some n) l)"
      using cl wfr next'(1) by (simp, intro link_advance [OF inv p _ _ _ _ _ _ _ refl]) auto
    then show ?thesis ..
  qed
qed

section \<open>Reachable links\<close>

lemma outbound_fragment_bytes_Some:
  assumes "outbound_fragment_bytes M budget f = Some n" "0 < M"
  shows "0 < n \<and> n \<le> M \<and> n < length (ob_bytes f)"
  using assms by (auto simp: outbound_fragment_bytes_def frame_fragment_bytes_def MIN_PACING_QUANTUM_BYTES_def
      Let_def split: if_splits)

lemma session_inv:
  assumes "link_inv l"
  shows "link_inv (l\<lparr>lk_writer := (lk_writer l)\<lparr>wr_session := s\<rparr>\<rparr>)"
proof -
  have "link_front (l\<lparr>lk_writer := (lk_writer l)\<lparr>wr_session := s\<rparr>\<rparr>) = link_front l"
    by (simp add: link_front_def fun_eq_iff)
  then show ?thesis using assms by (simp add: link_inv_def)
qed

lemma send_inv:
  assumes inv: "link_inv l" and M: "0 < M" "M \<le> MAX_FRAME_FRAGMENT_DATA_BYTES"
    and f: "p < PRIORITY_COUNT" "link_front l p = Some f" "\<not> frame_cancelled (wr_session (lk_writer l)) f"
    and fb: "fb = outbound_fragment_bytes M budget f" "ob_offset f > 0 \<longrightarrow> fb \<noteq> None" "wr_next_transfer (lk_writer l) \<noteq> -1"
  shows "link_inv (link_send content p fb l) \<or> link_refused content (link_send content p fb l)"
proof (cases fb)
  case None
  then show ?thesis using whole_send_inv [OF inv f] fb(2) by simp
next
  case (Some n)
  then have "0 < n" "n \<le> M" "n < length (ob_bytes f)" using fb(1) M(1) outbound_fragment_bytes_Some by metis+
  then show ?thesis using Some M(2) fragment_send_inv [OF inv f] fb(3) by simp
qed

text \<open>A client that is gone handles nothing more, whatever is sent.\<close>

lemma fold_disconnected: "\<not> cl_connected c \<Longrightarrow> fold (client_message content) wires c = c"
  by (induction wires) (simp_all add: client_message_def)

lemma refused_stays:
  assumes "link_refused content l" "lk_client l' = lk_client l" "\<exists>xs. lk_sent l' = lk_sent l @ xs"
  shows "link_refused content l'"
  using assms unfolding link_refused_def by (metis append_Cons append_assoc)

lemma steady_step_refused:
  assumes "link_refused content l" "steady_step content M l l'"
  shows "link_refused content l'"
proof -
  have gone: "\<not> cl_connected (lk_client l)" using assms(1) by (simp add: link_refused_def)
  from assms(2) have "lk_client l' = lk_client l \<and> (\<exists>xs. lk_sent l' = lk_sent l @ xs)"
    by (cases rule: steady_step.cases)
      (auto simp: link_receive_def link_drop_def link_send_def fold_disconnected [OF gone] Let_def split_beta)
  then show ?thesis using refused_stays [OF assms(1)] by blast
qed

lemma steady_step_inv:
  assumes M: "0 < M" "M \<le> MAX_FRAME_FRAGMENT_DATA_BYTES" and l: "link_inv l" "steady_step content M l l'"
  shows "link_inv l' \<or> link_refused content l'"
  using receive_inv [OF l(1)] session_inv [OF l(1)] drop_inv [OF l(1)] send_inv [OF l(1) M]
  by - (rule steady_stepE [OF l(2)]; simp)

lemma link_new_inv: "link_inv (link_new s)"
proof -
  have "link_front (link_new s) p = None" if "p < PRIORITY_COUNT" for p
    using that by (simp add: link_front_def link_new_def writer_new_def)
  then have "mirrors [] (link_front (link_new s))" "transfers_unique (link_front (link_new s))"
    by (simp_all add: mirrors_def transfers_unique_def)
  then show ?thesis
    unfolding link_inv_def by (simp add: link_new_def writer_new_def client_new_def list_all_iff queue_ok_def
        reassembler_wf_def)
qed

abbreviation fragment_limit :: "nat \<Rightarrow> nat" where
  "fragment_limit M \<equiv> max 1 (min M MAX_FRAME_FRAGMENT_DATA_BYTES)"

interpretation link: transition_invariant "\<lambda>l. \<exists>s. l = link_new s" "steady_step content (fragment_limit M)"
    "\<lambda>l. link_inv l \<or> link_refused content l" for content M
proof
  have "0 < fragment_limit M" "fragment_limit M \<le> MAX_FRAME_FRAGMENT_DATA_BYTES" by (simp_all add: frame_consts)
  then show "link_inv l \<or> link_refused content l \<Longrightarrow> steady_step content (fragment_limit M) l l' \<Longrightarrow>
      link_inv l' \<or> link_refused content l'" for l l'
    using steady_step_inv steady_step_refused by blast
qed (auto simp: link_new_inv)

text \<open>
  C34: the frame link. As long as the shaper never lifts fragmentation from a frame it has begun, a
  client that reads what the writer sends handles exactly the frames the writer reports complete, each
  once, whole and in that order, however they were cut, interleaved and cancelled; and its reassembler
  holds exactly the prefixes of the frames begun and not yet finished, at most one per priority. The
  framing never disconnects it: if it is disconnected, then by the handler of a whole frame, delivered
  in its place after all the frames before it were handled.
\<close>

theorem link_delivers_exactly:
  assumes "(steady_step content M)\<^sup>*\<^sup>* (link_new s) l" "0 < M" "M \<le> MAX_FRAME_FRAGMENT_DATA_BYTES"
  shows "if cl_connected (lk_client l)
    then cl_handled (lk_client l) = lk_sent l \<and> length (cl_reassembler (lk_client l)) \<le> PRIORITY_COUNT \<and>
      mirrors (cl_reassembler (lk_client l)) (link_front l)
    else \<exists>refused later. lk_sent l = cl_handled (lk_client l) @ refused # later \<and>
      \<not> client_accepts content (cl_handled (lk_client l)) refused"
proof -
  have "fragment_limit M = M" using assms(2,3) by simp
  then have inv: "link_inv l \<or> link_refused content l" using link.reachable_inv [of "link_new s" content M l] assms(1) by auto
  then show ?thesis using link_held [of l] by (auto simp: link_inv_def link_refused_def)
qed

section \<open>A frame whose fragmentation is lifted\<close>

text \<open>
  The hypothesis on the shaper is needed. \<open>fragment_bytes\<close> asks the shaper afresh for every wire, so
  a frame begun in fragments under a small budget is sent whole once the budget has grown past its
  length: the client handles the frame, but the transfer it began is neither completed nor aborted.
  The frames here are ones whose handler keeps the connection, such as batch results after the world
  was opened, or an error for some request.
\<close>

definition budget_rise :: "content_check \<Rightarrow> nat \<Rightarrow> outbound_frame \<Rightarrow> frame_link \<Rightarrow> frame_link" where
  "budget_rise content M f l =
     (let p = ob_priority f;
          l = link_receive f l;
          l = link_send content p (outbound_fragment_bytes M 0 (the (link_front l p))) l
      in link_send content p (outbound_fragment_bytes M (length (ob_bytes f)) (the (link_front l p))) l)"

definition risen :: "nat \<Rightarrow> frame_link \<Rightarrow> bool" where
  "risen n l \<longleftrightarrow> wr_queues (lk_writer l) = replicate PRIORITY_COUNT [] \<and> wr_next_transfer (lk_writer l) = of_nat (Suc n) \<and>
     cl_connected (lk_client l) \<and> reassembler_wf (cl_reassembler (lk_client l)) \<and>
     fst ` set (cl_reassembler (lk_client l)) = of_nat ` {1..n}"

lemma of_nat_small: "a \<le> 64 \<Longrightarrow> b \<le> 64 \<Longrightarrow> (of_nat a :: u64) = of_nat b \<longleftrightarrow> a = b"
  by (simp add: word_of_nat_eq_iff take_bit_eq_mod)

lemma risen_length:
  assumes "risen n l" "n \<le> 32"
  shows "length (cl_reassembler (lk_client l)) = n \<and> btree_get (cl_reassembler (lk_client l)) (of_nat (Suc n)) = None"
proof -
  let ?r = "cl_reassembler (lk_client l)"
  have r: "fst ` set ?r = of_nat ` {1..n}" "btree_wf ?r" using assms(1) by (auto simp: risen_def reassembler_wf_def)
  have "inj_on (of_nat :: nat \<Rightarrow> u64) {1..n}" using assms(2) by (intro inj_onI) (simp add: of_nat_small)
  then have "card (fst ` set ?r) = n" unfolding r(1) by (simp add: card_image)
  moreover have "card (fst ` set ?r) = length ?r" using distinct_card [OF btree_wf_distinct [OF r(2)]] by simp
  moreover have "(of_nat (Suc n) :: u64) \<noteq> of_nat i" if "i \<le> n" for i
    using of_nat_small [of "Suc n" i] that assms(2) by simp
  then have "btree_get ?r (of_nat (Suc n)) = None" unfolding btree_get_None r(1) by fastforce
  ultimately show ?thesis by simp
qed

definition rises :: "nat \<Rightarrow> outbound_frame \<Rightarrow> bool" where
  "rises M f \<longleftrightarrow> deliverable f \<and> ob_offset f = 0 \<and> ob_transfer f = None \<and> ob_priority f < PRIORITY_COUNT \<and>
     ob_cancellation f = None \<and> (\<exists>r. message_request_id (ob_bytes f) = Inr r \<and> r \<noteq> 0) \<and>
     2048 < length (ob_bytes f) \<and> length (ob_bytes f) \<le> M"

lemma rise_link:
  assumes f: "rises M f" and q: "wr_queues (lk_writer l) = replicate PRIORITY_COUNT []"
    and t: "wr_next_transfer (lk_writer l) = t" "t \<noteq> 0"
  obtains wire where "encode_frame_fragment t (length (ob_bytes f)) 0 (take 2048 (ob_bytes f)) = Inr wire"
    "budget_rise content M f l = link_of
       ((lk_writer l)\<lparr>wr_queues := replicate PRIORITY_COUNT [], wr_next_transfer := next_transfer_id t,
          wr_session := finish_tracked f (wr_session (lk_writer l))\<rparr>)
       (client_message content (ob_bytes f) (client_message content wire (lk_client l))) (lk_sent l @ [ob_bytes f])"
proof -
  let ?p = "ob_priority f" and ?len = "length (ob_bytes f)"
  have d: "deliverable f" "ob_offset f < ?len" "?p < PRIORITY_COUNT" and idle: "ob_offset f = 0" "ob_transfer f = None"
    and big: "2048 < ?len" "?len \<le> M" and live: "ob_cancellation f = None"
    using f by (auto simp: rises_def)
  obtain wire where wire: "encode_frame_fragment t ?len 0 (take 2048 (ob_bytes f)) = Inr wire"
    using fragment_of_frame [OF d(1,2) t(2), of 2048 2048] idle big by (auto simp: frame_consts)
  define f' where "f' = f\<lparr>ob_transfer := Some t, ob_offset := 2048\<rparr>"
  let ?w1 = "(lk_writer l)\<lparr>wr_queues := (replicate PRIORITY_COUNT [])[?p := [f]]\<rparr>"
  have l1: "link_receive f l = link_of ?w1 (lk_client l) (lk_sent l)"
    using q d(3) by (cases l) (simp add: link_receive_def writer_receive_def link_of_def)
  have b1: "outbound_fragment_bytes M 0 f = Some 2048"
    using f idle big by (auto simp: rises_def outbound_fragment_bytes_def frame_fragment_bytes_def MIN_PACING_QUANTUM_BYTES_def)
  have take1: "take_next_wire f (Some 2048) t = (Inr (wire, False), f', next_transfer_id t)"
    using wire idle big by (simp add: take_next_wire_def f'_def)
  let ?w2 = "(lk_writer l)\<lparr>wr_queues := (replicate PRIORITY_COUNT [])[?p := [f']], wr_next_transfer := next_transfer_id t\<rparr>"
  have l2: "link_send content ?p (Some 2048) (link_of ?w1 c s) = link_of ?w2 (client_message content wire c) s" for c s
    using d(3) live t(1) by (simp add: link_send_def writer_send_def link_of_def frame_cancelled_def take1)
  have b2: "outbound_fragment_bytes M ?len f' = None"
    using big by (simp add: outbound_fragment_bytes_def frame_fragment_bytes_def f'_def MIN_PACING_QUANTUM_BYTES_def)
  have l3: "link_send content ?p None (link_of ?w2 c s) = link_of
      ((lk_writer l)\<lparr>wr_queues := replicate PRIORITY_COUNT [], wr_next_transfer := next_transfer_id t,
        wr_session := finish_tracked f (wr_session (lk_writer l))\<rparr>) (client_message content (ob_bytes f) c) (s @ [ob_bytes f])" for c s
    using d(3) live
    by (simp add: link_send_def writer_send_def link_of_def frame_cancelled_def take_next_wire_def f'_def
        finish_tracked_def list_update_same_conv [THEN iffD2])
  have fronts: "link_front (link_of ?w1 c s) ?p = Some f" "link_front (link_of ?w2 c s) ?p = Some f'" for c s
    using d(3) by (simp_all add: link_front_def link_of_def)
  show thesis
    using that [OF wire] by (simp add: budget_rise_def Let_def l1 fronts b1 l2 b2 l3)
qed

text \<open>One rise: the client keeps the 2048 bytes of a transfer that will never end, or is disconnected by it.\<close>

lemma rise_step:
  assumes f: "rises M f" and r: "risen n l" and n: "n \<le> 32"
    and keeps: "client_accepts content (cl_handled (lk_client l)) (ob_bytes f)"
  shows "if n < 32 then risen (Suc n) (budget_rise content M f l) \<and>
      cl_handled (lk_client (budget_rise content M f l)) = cl_handled (lk_client l) @ [ob_bytes f]
    else \<not> cl_connected (lk_client (budget_rise content M f l))"
proof -
  let ?t = "of_nat (Suc n) :: u64" and ?c = "lk_client l" and ?len = "length (ob_bytes f)"
  let ?r = "cl_reassembler ?c"
  have q: "wr_queues (lk_writer l) = replicate PRIORITY_COUNT []" "wr_next_transfer (lk_writer l) = ?t"
    and c: "cl_connected ?c" "reassembler_wf ?r" "btree_wf ?r" and keys: "fst ` set ?r = of_nat ` {1..n}"
    using r by (auto simp: risen_def reassembler_wf_def)
  have t0: "?t \<noteq> 0" using of_nat_small [of "Suc n" 0] n by simp
  have len: "length ?r = n" "btree_get ?r ?t = None" using risen_length [OF r n] by auto
  obtain wire where wire: "encode_frame_fragment ?t ?len 0 (take 2048 (ob_bytes f)) = Inr wire"
    and eq: "budget_rise content M f l = link_of
       ((lk_writer l)\<lparr>wr_queues := replicate PRIORITY_COUNT [], wr_next_transfer := next_transfer_id ?t,
          wr_session := finish_tracked f (wr_session (lk_writer l))\<rparr>)
       (client_message content (ob_bytes f) (client_message content wire ?c)) (lk_sent l @ [ob_bytes f])"
    by (rule rise_link [OF f q(1) q(2) t0])
  have d: "deliverable f" "ob_offset f = 0" "2048 < ?len" using f by (auto simp: rises_def)
  show ?thesis
  proof (cases "n < 32")
    case True
    let ?r' = "snd (reassembler_accept wire ?r)"
    have st: "transfer_state ?t ?len (take (ob_offset f) (ob_bytes f)) ?r" using d len by (simp add: transfer_state_def)
    have room: "length ?r < MAX_ACTIVE_TRANSFERS" using len True by (simp add: MAX_ACTIVE_TRANSFERS_def)
    note cf = client_fragment [OF _ _ _ d(1) c(1) c(3) room st, of 2048 wire]
    have msg: "client_message content wire ?c = ?c\<lparr>cl_reassembler := ?r'\<rparr>" using cf(1) wire d by simp
    have own: "btree_get ?r' ?t \<noteq> None" using cf(2) wire d by (auto simp: transfer_state_def)
    have other: "u \<noteq> ?t \<Longrightarrow> btree_get ?r' u = btree_get ?r u" for u using cf(3) wire d by simp
    have "u \<in> fst ` set ?r' \<longleftrightarrow> u = ?t \<or> u \<in> fst ` set ?r" for u
      using own other [of u] btree_get_None [of ?r' u] btree_get_None [of ?r u] by (cases "u = ?t") auto
    then have "fst ` set ?r' = insert ?t (of_nat ` {1..n})" unfolding keys [symmetric] by blast
    also have "\<dots> = of_nat ` {1..Suc n}" by (simp add: atLeastAtMostSuc_conv)
    finally have keys': "fst ` set ?r' = of_nat ` {1..Suc n}" .
    have "of_nat (Suc n) \<noteq> (-1 :: u64)"
    proof
      assume "of_nat (Suc n) = (-1 :: u64)"
      then have "of_nat (Suc (Suc n)) = (0 :: u64)" by simp
      then show False using of_nat_small [of "Suc (Suc n)" 0] n by simp
    qed
    then have "next_transfer_id ?t = of_nat (Suc (Suc n))" using next_transfer_id_succ(1) [of ?t] by simp
    moreover have whole: "client_message content (ob_bytes f) (client_message content wire ?c) =
        ?c\<lparr>cl_reassembler := ?r', cl_handled := cl_handled ?c @ [ob_bytes f]\<rparr>"
      using deliverable_dispatch(2) [OF d(1), of "?c\<lparr>cl_reassembler := ?r'\<rparr>" content] c(1) keeps by (simp add: msg)
    ultimately have "risen (Suc n) (budget_rise content M f l)"
      unfolding risen_def eq whole using c keys' reassembler_accept_wf [OF c(2), of wire] by (simp add: link_of_def)
    then show ?thesis using True unfolding eq whole by (simp add: link_of_def)
  next
    case False
    have "decode_frame_fragment wire = Inr \<lparr>ff_transfer_id = ?t, ff_total_bytes = ?len, ff_offset = 0,
        ff_bytes = take 2048 (ob_bytes f)\<rparr>"
      using wire by (simp add: fragment.dec_iff)
    moreover from this have "message_kind wire = Inr KIND_FRAME_FRAGMENT"
      unfolding decode_frame_fragment_def message_kind_def by auto
    ultimately have "\<not> cl_connected (client_message content wire ?c)"
      using c(1) len False
      by (simp add: client_message_def reassembler_accept_def btree_contains_def MAX_ACTIVE_TRANSFERS_def client_disconnect_def)
    then show ?thesis using False unfolding eq by (simp add: link_of_def client_message_def)
  qed
qed

lemma rises_risen:
  assumes f: "rises M f" and start: "risen 0 l" and n: "n \<le> 32"
    and keeps: "\<forall>k. client_accepts content (cl_handled (lk_client l) @ replicate k (ob_bytes f)) (ob_bytes f)"
  shows "risen n ((budget_rise content M f ^^ n) l) \<and>
    cl_handled (lk_client ((budget_rise content M f ^^ n) l)) = cl_handled (lk_client l) @ replicate n (ob_bytes f)"
  using n
proof (induction n)
  case (Suc n)
  then show ?case using rise_step [OF f, of n "(budget_rise content M f ^^ n) l" content] keeps
    by (simp add: replicate_append_same)
qed (use start in simp)

text \<open>
  C35: a rising budget strands transfers. On a link that has begun no transfer yet, take a frame of a
  request of more than 2048 bytes that the client's handler accepts each time. Begun in fragments and then
  finding the budget risen past its length, it is sent whole: the client handles it and the writer
  forgets it, but the begun transfer stays in the client's reassembler for the life of the
  connection. After n such frames the client has handled n frames and n transfers are stranded, none
  of them in any queue of the writer, and the 33rd disconnects the client.
\<close>

theorem risen_budget_strands:
  assumes "rises M f" "risen 0 l0" "n \<le> 32" "l = (budget_rise content M f ^^ n) l0"
    and "\<forall>k. client_accepts content (cl_handled (lk_client l0) @ replicate k (ob_bytes f)) (ob_bytes f)"
  shows "cl_connected (lk_client l) \<and> cl_handled (lk_client l) = cl_handled (lk_client l0) @ replicate n (ob_bytes f) \<and>
    length (cl_reassembler (lk_client l)) = n \<and> wr_queues (lk_writer l) = replicate PRIORITY_COUNT [] \<and>
    (n = 32 \<longrightarrow> \<not> cl_connected (lk_client (budget_rise content M f l)))"
proof -
  have r: "risen n l" "cl_handled (lk_client l) = cl_handled (lk_client l0) @ replicate n (ob_bytes f)"
    using rises_risen [OF assms(1,2,3,5)] by (simp_all add: assms(4))
  have "client_accepts content (cl_handled (lk_client l)) (ob_bytes f)" using assms(5) by (simp add: r(2))
  then show ?thesis
    using r risen_length [OF r(1) assms(3)] rise_step [OF assms(1) r(1) assms(3)] by (auto simp: risen_def)
qed

section \<open>Witnesses\<close>

text \<open>An error for request 7: its handler keeps the connection, whatever was handled before.\<close>

definition sample_text :: "u8 list" where
  "sample_text = replicate 3000 65"

definition sample_outbound :: outbound_frame where
  "sample_outbound = \<lparr>ob_bytes = encode_error 7 sample_text, ob_offset = 0, ob_transfer = None, ob_priority = 2,
     ob_cancellation = None, ob_tracked = None\<rparr>"

lemma sample_text_length: "length sample_text = 3000"
  by (simp add: sample_text_def)

lemma sample_outbound_bytes:
  "ob_bytes sample_outbound = encode_frame KIND_ERROR 7 (u16_le 3000 @ sample_text)"
  "length (ob_bytes sample_outbound) = 3026"
proof -
  have "char_floor sample_text (min (length sample_text) u16_max) = 3000"
    using whole_text_fits [of sample_text] by (simp add: sample_text_def)
  then show bytes: "ob_bytes sample_outbound = encode_frame KIND_ERROR 7 (u16_le 3000 @ sample_text)"
    by (simp add: sample_outbound_def encode_error_def Let_def) (simp add: sample_text_def)
  show "length (ob_bytes sample_outbound) = 3026" unfolding bytes by (simp add: sample_text_def)
qed

lemma sample_outbound_frame:
  "decode_frame (ob_bytes sample_outbound) = Inr \<lparr>fr_kind = KIND_ERROR, fr_request_id = 7, fr_payload = u16_le 3000 @ sample_text\<rparr>"
  unfolding sample_outbound_bytes(1) by (rule decode_encode_frame_fields) (simp_all add: sample_text_def KIND_ERROR_def)

lemma sample_accepted: "client_accepts content handled (ob_bytes sample_outbound)"
proof -
  have "utf8_valid sample_text" by (rule ascii_valid) (simp add: sample_text_def)
  then obtain t where "decode_error (ob_bytes sample_outbound) = Inr (7, t)"
    using decode_encode_error [of sample_text 7] by (simp add: sample_outbound_def)
  moreover have "message_kind (ob_bytes sample_outbound) = Inr KIND_ERROR"
    by (simp add: message_kind_def sample_outbound_frame)
  ultimately show ?thesis
    by (simp add: client_accepts_def handler_keeps_def world_kinds KIND_RESYNC_REQUIRED_def)
qed

lemma sample_rises: "rises 8192 sample_outbound"
proof -
  have "deliverable sample_outbound" by (simp add: deliverable_def sample_outbound_frame world_kinds)
  moreover have "message_request_id (ob_bytes sample_outbound) = Inr 7"
    by (simp add: message_request_id_def sample_outbound_frame)
  moreover have "ob_offset sample_outbound = 0" "ob_transfer sample_outbound = None" "ob_priority sample_outbound < PRIORITY_COUNT"
    "ob_cancellation sample_outbound = None" by (simp_all add: sample_outbound_def PRIORITY_COUNT_def)
  ultimately show ?thesis by (simp add: rises_def sample_outbound_bytes sample_text_length)
qed

definition no_content :: content_check where
  "no_content handled bytes = False"

theorem link_delivers_exactly_witness:
  "\<exists>l. link_front l 2 = Some sample_outbound \<and>
     cl_handled (lk_client (link_send no_content 2 (Some 2048) l)) = lk_sent (link_send no_content 2 (Some 2048) l) \<and>
     cl_connected (lk_client (link_send no_content 2 (Some 2048) l))"
proof -
  define s where "s = session_new 1"
  let ?l = "link_receive sample_outbound (link_new s)"
  let ?m = "link_send no_content 2 (Some 2048) ?l"
  have r: "deliverable sample_outbound" "ob_offset sample_outbound = 0" "ob_transfer sample_outbound = None"
    "ob_priority sample_outbound < PRIORITY_COUNT" and rid: "\<exists>r. message_request_id (ob_bytes sample_outbound) = Inr r \<and> r \<noteq> 0"
    using sample_rises by (auto simp: rises_def)
  have queue: "wr_queues (lk_writer ?l) ! 2 = [sample_outbound]" and live: "\<not> frame_cancelled (wr_session (lk_writer ?l)) sample_outbound"
    and first: "wr_next_transfer (lk_writer ?l) = 1" and none: "lk_sent ?l = []"
    by (simp_all add: link_receive_def writer_receive_def link_new_def writer_new_def PRIORITY_COUNT_def
        frame_cancelled_def) (simp_all add: sample_outbound_def)
  have front: "link_front ?l 2 = Some sample_outbound" unfolding link_front_def queue by simp
  have b: "Some 2048 = outbound_fragment_bytes 8192 0 sample_outbound"
    using rid r by (auto simp: outbound_fragment_bytes_def frame_fragment_bytes_def MIN_PACING_QUANTUM_BYTES_def sample_outbound_bytes
        sample_text_length)
  have "steady_step no_content 8192 (link_new s) ?l" by (rule steady_step.receive [OF r])
  moreover have "steady_step no_content 8192 ?l ?m"
    using b first by (intro steady_step.send [OF _ front live, where budget = 0]) (simp_all add: PRIORITY_COUNT_def b [symmetric])
  ultimately have run: "(steady_step no_content 8192)\<^sup>*\<^sup>* (link_new s) ?m"
    by (meson converse_rtranclp_into_rtranclp r_into_rtranclp)
  have "lk_sent ?m = []"
    using r(2) none by (simp add: link_send_def queue take_next_wire_def sample_outbound_bytes(2) Let_def split_beta
        split: sum.splits option.splits)
  moreover note link_delivers_exactly [OF run]
  ultimately show ?thesis using front by (auto simp: frame_consts split: if_splits)
qed

theorem risen_budget_strands_witness:
  "length (cl_reassembler (lk_client ((budget_rise no_content 8192 sample_outbound ^^ 32) (link_new (session_new 1))))) = 32 \<and>
   \<not> cl_connected (lk_client (budget_rise no_content 8192 sample_outbound
       ((budget_rise no_content 8192 sample_outbound ^^ 32) (link_new (session_new 1)))))"
proof -
  have "risen 0 (link_new (session_new 1))"
    by (simp add: risen_def link_new_def writer_new_def client_new_def reassembler_wf_def)
  from risen_budget_strands [OF sample_rises this _ refl, of 32 no_content] show ?thesis by (simp add: sample_accepted)
qed

end
