(* ===== verification/Virtual_Surface.thy ===== *)
theory Virtual_Surface
  imports Terrain_Key Material_Model Wire_Bytes
begin

text \<open>
  Exact surfaces of the virtual terrain (\<open>world/src/virtual_surface.rs\<close>): the exposed unit faces of
  a box of voxels, the directional rule by which neighbouring pages share the faces of their common
  X and Z planes, and the boundary certificates that a group of child pages must match before it
  may replace its parent. The voxel at an address is given by a function; blake3 is a parameter.
\<close>

section \<open>Axes, sides and faces\<close>

datatype face_axis = AxisX | AxisY | AxisZ

fun axis_index :: "face_axis \<Rightarrow> nat" where
  "axis_index AxisX = 0" | "axis_index AxisY = 1" | "axis_index AxisZ = 2"

lemma axis_index_inject [simp]: "axis_index a = axis_index b \<longleftrightarrow> a = b"
  by (cases a; cases b) simp_all

instantiation face_axis :: linorder
begin

definition less_eq_face_axis :: "face_axis \<Rightarrow> face_axis \<Rightarrow> bool" where
  "less_eq_face_axis a b \<longleftrightarrow> axis_index a \<le> axis_index b"

definition less_face_axis :: "face_axis \<Rightarrow> face_axis \<Rightarrow> bool" where
  "less_face_axis a b \<longleftrightarrow> axis_index a < axis_index b"

instance
  by standard (auto simp: less_eq_face_axis_def less_face_axis_def)

end

definition face_axes :: "face_axis list" where "face_axes = [AxisX, AxisY, AxisZ]"

datatype boundary_side = NegativeX | PositiveX | NegativeY | PositiveY | NegativeZ | PositiveZ

definition boundary_sides :: "boundary_side list" where
  "boundary_sides = [NegativeX, PositiveX, NegativeY, PositiveY, NegativeZ, PositiveZ]"

fun side_axis :: "boundary_side \<Rightarrow> face_axis" where
  "side_axis NegativeX = AxisX" | "side_axis PositiveX = AxisX"
| "side_axis NegativeY = AxisY" | "side_axis PositiveY = AxisY"
| "side_axis NegativeZ = AxisZ" | "side_axis PositiveZ = AxisZ"

fun side_positive :: "boundary_side \<Rightarrow> bool" where
  "side_positive PositiveX = True" | "side_positive PositiveY = True" | "side_positive PositiveZ = True"
| "side_positive _ = False"

fun side_opposite :: "boundary_side \<Rightarrow> boundary_side" where
  "side_opposite NegativeX = PositiveX" | "side_opposite PositiveX = NegativeX"
| "side_opposite NegativeY = PositiveY" | "side_opposite PositiveY = NegativeY"
| "side_opposite NegativeZ = PositiveZ" | "side_opposite PositiveZ = NegativeZ"

fun side_index :: "boundary_side \<Rightarrow> nat" where
  "side_index NegativeX = 0" | "side_index PositiveX = 1" | "side_index NegativeY = 2"
| "side_index PositiveY = 3" | "side_index NegativeZ = 4" | "side_index PositiveZ = 5"

fun bounds_plane :: "voxel_bounds \<Rightarrow> boundary_side \<Rightarrow> int" where
  "bounds_plane b NegativeX = vx (vb_min b)" | "bounds_plane b PositiveX = vx (vb_max b)"
| "bounds_plane b NegativeY = vy (vb_min b)" | "bounds_plane b PositiveY = vy (vb_max b)"
| "bounds_plane b NegativeZ = vz (vb_min b)" | "bounds_plane b PositiveZ = vz (vb_max b)"

record face_key =
  fk_axis :: face_axis
  fk_plane :: int
  fk_u :: int
  fk_v :: int
  fk_solid_side :: voxel_coord
  fk_material_id :: nat

instantiation face_key_ext :: (linorder) linorder
begin

definition less_eq_face_key_ext :: "'a face_key_scheme \<Rightarrow> 'a face_key_scheme \<Rightarrow> bool" where
  "less_eq_face_key_ext a b \<longleftrightarrow>
     (fk_axis a, fk_plane a, fk_u a, fk_v a, fk_solid_side a, fk_material_id a, face_key.more a) \<le>
     (fk_axis b, fk_plane b, fk_u b, fk_v b, fk_solid_side b, fk_material_id b, face_key.more b)"

definition less_face_key_ext :: "'a face_key_scheme \<Rightarrow> 'a face_key_scheme \<Rightarrow> bool" where
  "less_face_key_ext a b \<longleftrightarrow>
     (fk_axis a, fk_plane a, fk_u a, fk_v a, fk_solid_side a, fk_material_id a, face_key.more a) <
     (fk_axis b, fk_plane b, fk_u b, fk_v b, fk_solid_side b, fk_material_id b, face_key.more b)"

instance
  by standard (auto simp: less_eq_face_key_ext_def less_face_key_ext_def)

end

fun axis_component :: "face_axis \<Rightarrow> voxel_coord \<Rightarrow> int" where
  "axis_component AxisX v = vx v" | "axis_component AxisY v = vy v" | "axis_component AxisZ v = vz v"

fun axis_uv :: "face_axis \<Rightarrow> voxel_coord \<Rightarrow> int \<times> int" where
  "axis_uv AxisX v = (vy v, vz v)" | "axis_uv AxisY v = (vx v, vz v)" | "axis_uv AxisZ v = (vx v, vy v)"

definition exposed_face :: "voxel_coord \<Rightarrow> material \<Rightarrow> face_axis \<Rightarrow> bool \<Rightarrow> face_key" where
  "exposed_face solid m axis positive =
     \<lparr>fk_axis = axis, fk_plane = axis_component axis solid + (if positive then 1 else 0),
      fk_u = fst (axis_uv axis solid), fk_v = snd (axis_uv axis solid),
      fk_solid_side = solid, fk_material_id = material_id m\<rparr>"

definition material_face_is_visible :: "material \<Rightarrow> material \<Rightarrow> bool" where
  "material_face_is_visible m neighbor =
     (case render_layer_of m of
        LayerEmpty \<Rightarrow> False
      | LayerOpaque \<Rightarrow> render_layer_of neighbor \<noteq> LayerOpaque
      | LayerTranslucent \<Rightarrow> render_layer_of neighbor = LayerEmpty)"

fun face_neighbor :: "voxel_coord \<Rightarrow> face_axis \<Rightarrow> bool \<Rightarrow> voxel_coord" where
  "face_neighbor v AxisX positive = v\<lparr>vx := i32_saturating_add (vx v) (if positive then 1 else -1)\<rparr>"
| "face_neighbor v AxisY positive = v\<lparr>vy := i32_saturating_add (vy v) (if positive then 1 else -1)\<rparr>"
| "face_neighbor v AxisZ positive = v\<lparr>vz := i32_saturating_add (vz v) (if positive then 1 else -1)\<rparr>"

definition voxel_faces :: "(voxel_coord \<Rightarrow> material) \<Rightarrow> voxel_coord \<Rightarrow> face_key list" where
  "voxel_faces material_at solid =
     (let m = material_at solid in
      if \<not> is_renderable m then []
      else concat (map (\<lambda>axis. concat (map (\<lambda>positive.
        if material_face_is_visible m (material_at (face_neighbor solid axis positive))
        then [exposed_face solid m axis positive] else []) [False, True])) face_axes))"

definition bounds_voxels :: "voxel_bounds \<Rightarrow> voxel_coord list" where
  "bounds_voxels b =
     concat (map (\<lambda>z. concat (map (\<lambda>y. map (\<lambda>x. voxel_at x y z)
       (range_excl (vx (vb_min b)) (vx (vb_max b)))) (range_excl (vy (vb_min b)) (vy (vb_max b)))))
       (range_excl (vz (vb_min b)) (vz (vb_max b))))"

definition canonical_exposed_faces :: "voxel_bounds \<Rightarrow> (voxel_coord \<Rightarrow> material) \<Rightarrow> face_key list" where
  "canonical_exposed_faces b material_at = sort (concat (map (voxel_faces material_at) (bounds_voxels b)))"

definition shared_face :: "(voxel_coord \<Rightarrow> material) \<Rightarrow> face_axis \<Rightarrow> voxel_coord \<Rightarrow> voxel_coord \<Rightarrow> face_key list" where
  "shared_face material_at axis inside outside =
     (if material_face_is_visible (material_at outside) (material_at inside)
      then [exposed_face outside (material_at outside) axis False] else [])"

definition directionally_owned_surface_faces :: "voxel_bounds \<Rightarrow> (voxel_coord \<Rightarrow> material) \<Rightarrow> face_key list" where
  "directionally_owned_surface_faces b material_at =
     (let faces = filter (\<lambda>f. \<not> (fk_axis f = AxisX \<and> fk_plane f = vx (vb_min b)) \<and>
              \<not> (fk_axis f = AxisZ \<and> fk_plane f = vz (vb_min b))) (canonical_exposed_faces b material_at);
          right = concat (map (\<lambda>z. concat (map (\<lambda>y.
              shared_face material_at AxisX (voxel_at (vx (vb_max b) - 1) y z) (voxel_at (vx (vb_max b)) y z))
              (range_excl (vy (vb_min b)) (vy (vb_max b))))) (range_excl (vz (vb_min b)) (vz (vb_max b))));
          far = concat (map (\<lambda>x. concat (map (\<lambda>y.
              shared_face material_at AxisZ (voxel_at x y (vz (vb_max b) - 1)) (voxel_at x y (vz (vb_max b))))
              (range_excl (vy (vb_min b)) (vy (vb_max b))))) (range_excl (vx (vb_min b)) (vx (vb_max b))))
      in remdups_adj (sort (faces @ right @ far)))"

section \<open>Boundary certificates\<close>

record boundary_sample =
  bs_axis :: face_axis
  bs_plane :: int
  bs_u :: int
  bs_v :: int
  bs_negative_material_id :: nat
  bs_positive_material_id :: nat

instantiation boundary_sample_ext :: (linorder) linorder
begin

definition less_eq_boundary_sample_ext :: "'a boundary_sample_scheme \<Rightarrow> 'a boundary_sample_scheme \<Rightarrow> bool" where
  "less_eq_boundary_sample_ext a b \<longleftrightarrow>
     (bs_axis a, bs_plane a, bs_u a, bs_v a, bs_negative_material_id a, bs_positive_material_id a, boundary_sample.more a) \<le>
     (bs_axis b, bs_plane b, bs_u b, bs_v b, bs_negative_material_id b, bs_positive_material_id b, boundary_sample.more b)"

definition less_boundary_sample_ext :: "'a boundary_sample_scheme \<Rightarrow> 'a boundary_sample_scheme \<Rightarrow> bool" where
  "less_boundary_sample_ext a b \<longleftrightarrow>
     (bs_axis a, bs_plane a, bs_u a, bs_v a, bs_negative_material_id a, bs_positive_material_id a, boundary_sample.more a) <
     (bs_axis b, bs_plane b, bs_u b, bs_v b, bs_negative_material_id b, bs_positive_material_id b, boundary_sample.more b)"

instance
  by standard (auto simp: less_eq_boundary_sample_ext_def less_boundary_sample_ext_def)

end

record side_certificate =
  sc_fingerprint :: "u8 list"
  sc_samples :: "boundary_sample list"

record boundary_certificate =
  bc_bounds :: voxel_bounds
  bc_sides :: "side_certificate list"

definition encode_sample :: "boundary_sample \<Rightarrow> u8 list" where
  "encode_sample s = [of_nat (axis_index (bs_axis s))] @ i32_le (bs_plane s) @ i32_le (bs_u s) @ i32_le (bs_v s) @
     u16_le (bs_negative_material_id s) @ u16_le (bs_positive_material_id s)"

definition BOUNDARY_HASH_DOMAIN :: "u8 list" where
  "BOUNDARY_HASH_DOMAIN = ascii ''voxels-boundary-certificate-v1'' @ [0]"

definition boundary_fingerprint :: "(u8 list \<Rightarrow> u8 list) \<Rightarrow> boundary_sample list \<Rightarrow> u8 list" where
  "boundary_fingerprint blake3 samples =
     blake3 (BOUNDARY_HASH_DOMAIN @ u64_le (of_nat (length samples)) @ concat (map encode_sample samples))"

definition boundary_voxel :: "face_axis \<Rightarrow> int \<Rightarrow> int \<Rightarrow> int \<Rightarrow> bool \<Rightarrow> voxel_coord" where
  "boundary_voxel axis plane u v positive =
     (let normal = if positive then plane else i32_saturating_sub plane 1 in
      case axis of AxisX \<Rightarrow> voxel_at normal u v | AxisY \<Rightarrow> voxel_at u normal v | AxisZ \<Rightarrow> voxel_at u v normal)"

definition side_ranges :: "voxel_bounds \<Rightarrow> face_axis \<Rightarrow> (int \<times> int) \<times> (int \<times> int)" where
  "side_ranges b axis =
     (let (u0, v0) = axis_uv axis (vb_min b); (u1, v1) = axis_uv axis (vb_max b) in ((u0, u1), (v0, v1)))"

definition boundary_sample_at :: "(voxel_coord \<Rightarrow> material) \<Rightarrow> face_axis \<Rightarrow> int \<Rightarrow> int \<Rightarrow> int \<Rightarrow> boundary_sample" where
  "boundary_sample_at material_at axis plane u v =
     \<lparr>bs_axis = axis, bs_plane = plane, bs_u = u, bs_v = v,
      bs_negative_material_id = material_id (material_at (boundary_voxel axis plane u v False)),
      bs_positive_material_id = material_id (material_at (boundary_voxel axis plane u v True))\<rparr>"

definition boundary_samples :: "voxel_bounds \<Rightarrow> boundary_side \<Rightarrow> (voxel_coord \<Rightarrow> material) \<Rightarrow> boundary_sample list" where
  "boundary_samples b side material_at =
     (let axis = side_axis side; plane = bounds_plane b side; ((u0, u1), (v0, v1)) = side_ranges b axis in
      concat (map (\<lambda>v. map (\<lambda>u. boundary_sample_at material_at axis plane u v) (range_excl u0 u1)) (range_excl v0 v1)))"

definition certificate_build ::
    "(u8 list \<Rightarrow> u8 list) \<Rightarrow> voxel_bounds \<Rightarrow> (voxel_coord \<Rightarrow> material) \<Rightarrow> boundary_certificate" where
  "certificate_build blake3 b material_at =
     \<lparr>bc_bounds = b, bc_sides = map (\<lambda>side. let samples = boundary_samples b side material_at in
        \<lparr>sc_fingerprint = boundary_fingerprint blake3 samples, sc_samples = samples\<rparr>) boundary_sides\<rparr>"

definition certificate_side :: "boundary_certificate \<Rightarrow> boundary_side \<Rightarrow> side_certificate" where
  "certificate_side c side = bc_sides c ! side_index side"

definition matches_adjacent :: "boundary_certificate \<Rightarrow> boundary_side \<Rightarrow> boundary_certificate \<Rightarrow> bool" where
  "matches_adjacent c side adjacent \<longleftrightarrow>
     bounds_plane (bc_bounds c) side = bounds_plane (bc_bounds adjacent) (side_opposite side) \<and>
     certificate_side c side = certificate_side adjacent (side_opposite side)"

definition bounds_overlap :: "voxel_bounds \<Rightarrow> voxel_bounds \<Rightarrow> bool" where
  "bounds_overlap a b \<longleftrightarrow>
     vx (vb_min a) < vx (vb_max b) \<and> vx (vb_min b) < vx (vb_max a) \<and>
     vy (vb_min a) < vy (vb_max b) \<and> vy (vb_min b) < vy (vb_max a) \<and>
     vz (vb_min a) < vz (vb_max b) \<and> vz (vb_min b) < vz (vb_max a)"

fun any_pair :: "('a \<Rightarrow> 'a \<Rightarrow> bool) \<Rightarrow> 'a list \<Rightarrow> bool" where
  "any_pair P [] \<longleftrightarrow> False"
| "any_pair P (x # xs) \<longleftrightarrow> list_ex (P x) xs \<or> any_pair P xs"

definition tally :: "boundary_sample \<Rightarrow> (boundary_sample, nat) btree \<Rightarrow> (boundary_sample, nat) btree" where
  "tally s m = btree_insert s (min 255 (Suc (case btree_get m s of None \<Rightarrow> 0 | Some n \<Rightarrow> n))) m"

definition tally_children ::
    "boundary_certificate \<Rightarrow> boundary_certificate list \<Rightarrow>
     (boundary_sample, nat) btree \<times> (boundary_sample, nat) btree" where
  "tally_children parent children =
     fold (\<lambda>child (outer, internal).
       fold (\<lambda>side (outer, internal).
         let samples = sc_samples (certificate_side child side) in
         if bounds_plane (bc_bounds child) side = bounds_plane (bc_bounds parent) side
         then (fold tally samples outer, internal) else (outer, fold tally samples internal))
       boundary_sides (outer, internal))
     children ([], [])"

text \<open>The volumes are summed in \<open>u64\<close>.\<close>

definition validates_child_group :: "boundary_certificate \<Rightarrow> boundary_certificate list \<Rightarrow> bool" where
  "validates_child_group parent children \<longleftrightarrow>
     (if children = [] \<or> list_ex (\<lambda>child. \<not> contains_bounds (bc_bounds parent) (bc_bounds child)) children \<or>
         sum_list (List.map_filter (\<lambda>child. bounds_volume (bc_bounds child)) children) mod 2 ^ 64 \<noteq>
           (case bounds_volume (bc_bounds parent) of None \<Rightarrow> 0 | Some n \<Rightarrow> n)
      then False
      else if any_pair (\<lambda>a b. bounds_overlap (bc_bounds a) (bc_bounds b)) children then False
      else let parent_samples = btree_set (concat (map sc_samples (bc_sides parent)));
               (outer, internal) = tally_children parent children
           in length parent_samples = length outer \<and> parent_samples = map fst outer \<and>
              list_all (\<lambda>n. n = 1) (btree_values outer) \<and> list_all (\<lambda>n. n = 2) (btree_values internal))"

section \<open>Visible faces and their owners\<close>

definition visible_face :: "(voxel_coord \<Rightarrow> material) \<Rightarrow> face_key \<Rightarrow> bool" where
  "visible_face material_at f \<longleftrightarrow> (\<exists>solid axis positive. voxel_ok solid \<and>
     f = exposed_face solid (material_at solid) axis positive \<and>
     material_face_is_visible (material_at solid) (material_at (face_neighbor solid axis positive)))"

text \<open>The voxel on the lower side of an X or Z face owns it; a Y face belongs to its solid voxel.\<close>

definition owner_voxel :: "face_key \<Rightarrow> voxel_coord" where
  "owner_voxel f =
     (case fk_axis f of
        AxisX \<Rightarrow> voxel_at (fk_plane f - 1) (fk_u f) (fk_v f)
      | AxisY \<Rightarrow> fk_solid_side f
      | AxisZ \<Rightarrow> voxel_at (fk_u f) (fk_v f) (fk_plane f - 1))"

definition bounds_ok :: "voxel_bounds \<Rightarrow> bool" where
  "bounds_ok b \<longleftrightarrow> voxel_ok (vb_min b) \<and> voxel_ok (vb_max b) \<and>
     vx (vb_min b) < vx (vb_max b) \<and> vy (vb_min b) < vy (vb_max b) \<and> vz (vb_min b) < vz (vb_max b)"

lemma visible_renderable: "material_face_is_visible m n \<Longrightarrow> is_renderable m"
  by (auto simp: material_face_is_visible_def is_renderable_def split: render_layer.splits)

lemma visible_asym: "material_face_is_visible m n \<Longrightarrow> \<not> material_face_is_visible n m"
  by (auto simp: material_face_is_visible_def split: render_layer.splits)

lemma voxel_faces_set:
  "f \<in> set (voxel_faces mat solid) \<longleftrightarrow> (\<exists>axis positive. f = exposed_face solid (mat solid) axis positive \<and>
     material_face_is_visible (mat solid) (mat (face_neighbor solid axis positive)))"
proof -
  have "(\<exists>axis. P axis) \<longleftrightarrow> P AxisX \<or> P AxisY \<or> P AxisZ" for P by (metis face_axis.exhaust)
  then show ?thesis
    using visible_renderable by (auto simp: voxel_faces_def face_axes_def Let_def ex_bool_eq)
qed

lemma exposed_face_inject:
  "exposed_face s m a p = exposed_face s' m' a' p' \<longleftrightarrow> s = s' \<and> material_id m = material_id m' \<and> a = a' \<and> p = p'"
  by (auto simp: exposed_face_def split: if_splits)

lemma voxel_faces_distinct: "distinct (voxel_faces mat solid)"
  by (auto simp: voxel_faces_def face_axes_def Let_def exposed_face_inject)

lemma bounds_voxels_set: "v \<in> set (bounds_voxels b) \<longleftrightarrow> bounds_contains b v"
proof -
  have "v \<in> set (bounds_voxels b) \<longleftrightarrow> (\<exists>x y z. v = voxel_at x y z \<and> bounds_contains b (voxel_at x y z))"
    by (auto simp: bounds_voxels_def bounds_contains_def image_iff intro!: bexI)
  also have "\<dots> \<longleftrightarrow> bounds_contains b v" by (metis voxel_surjective)
  finally show ?thesis .
qed

lemma bounds_voxels_distinct: "distinct (bounds_voxels b)"
  unfolding bounds_voxels_def by (intro distinct_concat_disjoint) (auto simp: distinct_map inj_on_def)

lemma voxel_faces_solid: "f \<in> set (voxel_faces mat solid) \<Longrightarrow> fk_solid_side f = solid"
  by (auto simp: voxel_faces_set exposed_face_def)

lemma canonical_faces_set:
  "f \<in> set (canonical_exposed_faces b mat) \<longleftrightarrow> (\<exists>solid. bounds_contains b solid \<and> f \<in> set (voxel_faces mat solid))"
  by (auto simp: canonical_exposed_faces_def bounds_voxels_set [symmetric])

lemma canonical_faces_distinct: "distinct (canonical_exposed_faces b mat)"
  unfolding canonical_exposed_faces_def distinct_sort
  by (intro distinct_concat_disjoint bounds_voxels_distinct voxel_faces_distinct) (use voxel_faces_solid in blast)

lemma contains_ok: "bounds_ok b \<Longrightarrow> bounds_contains b v \<Longrightarrow> voxel_ok v"
  by (auto simp: bounds_ok_def bounds_contains_def voxel_ok_def i32_ok_def)

lemma owner_exposed:
  "owner_voxel (exposed_face s m a p) =
     (if p then s else case a of AxisX \<Rightarrow> s\<lparr>vx := vx s - 1\<rparr> | AxisY \<Rightarrow> s | AxisZ \<Rightarrow> s\<lparr>vz := vz s - 1\<rparr>)"
  by (cases a; cases s) (simp_all add: owner_voxel_def exposed_face_def)

lemma in_concat_map: "f \<in> set (concat (map g xs)) \<longleftrightarrow> (\<exists>x \<in> set xs. f \<in> set (g x))"
  by auto

lemma owned_faces_set:
  "f \<in> set (directionally_owned_surface_faces b mat) \<longleftrightarrow>
     f \<in> set (canonical_exposed_faces b mat) \<and> \<not> (fk_axis f = AxisX \<and> fk_plane f = vx (vb_min b)) \<and>
        \<not> (fk_axis f = AxisZ \<and> fk_plane f = vz (vb_min b)) \<or>
     (\<exists>z \<in> {vz (vb_min b)..vz (vb_max b) - 1}. \<exists>y \<in> {vy (vb_min b)..vy (vb_max b) - 1}.
        f \<in> set (shared_face mat AxisX (voxel_at (vx (vb_max b) - 1) y z) (voxel_at (vx (vb_max b)) y z))) \<or>
     (\<exists>x \<in> {vx (vb_min b)..vx (vb_max b) - 1}. \<exists>y \<in> {vy (vb_min b)..vy (vb_max b) - 1}.
        f \<in> set (shared_face mat AxisZ (voxel_at x y (vz (vb_max b) - 1)) (voxel_at x y (vz (vb_max b)))))"
  unfolding directionally_owned_surface_faces_def Let_def remdups_adj_set set_sort set_append Un_iff in_concat_map
  by (simp only: set_filter mem_Collect_eq set_upto)

text \<open>Across the upper X or Z plane of a box, the neighbour below a voxel is the box's own.\<close>

lemma upper_neighbor:
  assumes "bounds_ok b"
  shows "face_neighbor (voxel_at (vx (vb_max b)) y z) AxisX False = voxel_at (vx (vb_max b) - 1) y z"
    "face_neighbor (voxel_at x y (vz (vb_max b))) AxisZ False = voxel_at x y (vz (vb_max b) - 1)"
  using assms by (simp_all add: i32_saturating_add_def bounds_ok_def voxel_ok_def i32_ok_def)

lemma owned_face_sound:
  assumes b: "bounds_ok b" and f: "f \<in> set (directionally_owned_surface_faces b mat)"
  shows "visible_face mat f \<and> bounds_contains b (owner_voxel f)"
proof -
  consider (own) solid where "bounds_contains b solid" "f \<in> set (voxel_faces mat solid)"
      "\<not> (fk_axis f = AxisX \<and> fk_plane f = vx (vb_min b))" "\<not> (fk_axis f = AxisZ \<and> fk_plane f = vz (vb_min b))"
    | (right) y z where "z \<in> {vz (vb_min b)..vz (vb_max b) - 1}" "y \<in> {vy (vb_min b)..vy (vb_max b) - 1}"
      "f \<in> set (shared_face mat AxisX (voxel_at (vx (vb_max b) - 1) y z) (voxel_at (vx (vb_max b)) y z))"
    | (far) x y where "x \<in> {vx (vb_min b)..vx (vb_max b) - 1}" "y \<in> {vy (vb_min b)..vy (vb_max b) - 1}"
      "f \<in> set (shared_face mat AxisZ (voxel_at x y (vz (vb_max b) - 1)) (voxel_at x y (vz (vb_max b))))"
    using f unfolding owned_faces_set canonical_faces_set by blast
  then show ?thesis
  proof cases
    case own
    then obtain a p where a: "f = exposed_face solid (mat solid) a p"
      "material_face_is_visible (mat solid) (mat (face_neighbor solid a p))" by (auto simp: voxel_faces_set)
    then have "visible_face mat f" using contains_ok [OF b own(1)] unfolding visible_face_def by blast
    moreover have "bounds_contains b (owner_voxel f)"
      unfolding a(1) owner_exposed using own(1,3,4) a(1)
      by (cases a) (auto simp: bounds_contains_def exposed_face_def)
    ultimately show ?thesis by simp
  next
    case right
    let ?s = "voxel_at (vx (vb_max b)) y z"
    have v: "f = exposed_face ?s (mat ?s) AxisX False" "material_face_is_visible (mat ?s) (mat (face_neighbor ?s AxisX False))"
      using right(3) unfolding upper_neighbor(1) [OF b] by (auto simp: shared_face_def split: if_splits)
    have "voxel_ok ?s" using b right(1,2) by (simp add: bounds_ok_def voxel_ok_def i32_ok_def)
    then have "visible_face mat f" using v unfolding visible_face_def by blast
    moreover have "bounds_contains b (owner_voxel f)"
      unfolding v(1) owner_exposed using b right(1,2) by (simp add: bounds_contains_def bounds_ok_def)
    ultimately show ?thesis by simp
  next
    case far
    let ?s = "voxel_at x y (vz (vb_max b))"
    have v: "f = exposed_face ?s (mat ?s) AxisZ False" "material_face_is_visible (mat ?s) (mat (face_neighbor ?s AxisZ False))"
      using far(3) unfolding upper_neighbor(2) [OF b] by (auto simp: shared_face_def split: if_splits)
    have "voxel_ok ?s" using b far(1,2) by (simp add: bounds_ok_def voxel_ok_def i32_ok_def)
    then have "visible_face mat f" using v unfolding visible_face_def by blast
    moreover have "bounds_contains b (owner_voxel f)"
      unfolding v(1) owner_exposed using b far(1,2) by (simp add: bounds_contains_def bounds_ok_def)
    ultimately show ?thesis by simp
  qed
qed

lemma owned_face_complete:
  assumes b: "bounds_ok b" and f: "visible_face mat f" "bounds_contains b (owner_voxel f)"
  shows "f \<in> set (directionally_owned_surface_faces b mat)"
proof -
  obtain s a p where s: "voxel_ok s" "f = exposed_face s (mat s) a p"
    and v: "material_face_is_visible (mat s) (mat (face_neighbor s a p))"
    using f(1) unfolding visible_face_def by blast
  have faces: "f \<in> set (voxel_faces mat s)" using s(2) v by (auto simp: voxel_faces_set)
  have own: "bounds_contains b (if p then s else case a of AxisX \<Rightarrow> s\<lparr>vx := vx s - 1\<rparr> | AxisY \<Rightarrow> s | AxisZ \<Rightarrow> s\<lparr>vz := vz s - 1\<rparr>)"
    using f(2) unfolding s(2) owner_exposed .
  show ?thesis
  proof (cases "bounds_contains b s")
    case True
    then have "f \<in> set (canonical_exposed_faces b mat)" using faces by (auto simp: canonical_faces_set)
    moreover have "\<not> (fk_axis f = AxisX \<and> fk_plane f = vx (vb_min b))" "\<not> (fk_axis f = AxisZ \<and> fk_plane f = vz (vb_min b))"
      using own True unfolding s(2) by (auto simp: exposed_face_def bounds_contains_def split: if_splits)
    ultimately show ?thesis unfolding owned_faces_set by blast
  next
    case False
    then have "\<not> p" "a \<noteq> AxisY" using own by (auto split: if_splits)
    then consider "a = AxisX" "bounds_contains b (s\<lparr>vx := vx s - 1\<rparr>)" | "a = AxisZ" "bounds_contains b (s\<lparr>vz := vz s - 1\<rparr>)"
      using own by (cases a) auto
    then show ?thesis
    proof cases
      case 1
      then have r: "vx s = vx (vb_max b)" "vz s \<in> {vz (vb_min b)..vz (vb_max b) - 1}" "vy s \<in> {vy (vb_min b)..vy (vb_max b) - 1}"
        using False by (auto simp: bounds_contains_def)
      then have e: "s = voxel_at (vx (vb_max b)) (vy s) (vz s)" by simp
      have "f \<in> set (shared_face mat AxisX (voxel_at (vx (vb_max b) - 1) (vy s) (vz s)) (voxel_at (vx (vb_max b)) (vy s) (vz s)))"
        using v \<open>\<not> p\<close> 1(1) upper_neighbor(1) [OF b, of "vy s" "vz s"] unfolding shared_face_def e [symmetric] s(2) by simp
      then show ?thesis using r unfolding owned_faces_set by blast
    next
      case 2
      then have r: "vz s = vz (vb_max b)" "vx s \<in> {vx (vb_min b)..vx (vb_max b) - 1}" "vy s \<in> {vy (vb_min b)..vy (vb_max b) - 1}"
        using False by (auto simp: bounds_contains_def)
      then have e: "s = voxel_at (vx s) (vy s) (vz (vb_max b))" by simp
      have "f \<in> set (shared_face mat AxisZ (voxel_at (vx s) (vy s) (vz (vb_max b) - 1)) (voxel_at (vx s) (vy s) (vz (vb_max b))))"
        using v \<open>\<not> p\<close> 2(1) upper_neighbor(2) [OF b, of "vx s" "vy s"] unfolding shared_face_def e [symmetric] s(2) by simp
      then show ?thesis using r unfolding owned_faces_set by blast
    qed
  qed
qed

text \<open>One visible face at most lies on a unit square: of two solid sides only one shows.\<close>

lemma visible_face_unique:
  assumes f: "visible_face mat f" and g: "visible_face mat g"
    and eq: "fk_axis f = fk_axis g" "fk_plane f = fk_plane g" "fk_u f = fk_u g" "fk_v f = fk_v g"
  shows "f = g"
proof -
  obtain s a p where s: "voxel_ok s" "f = exposed_face s (mat s) a p"
    and v: "material_face_is_visible (mat s) (mat (face_neighbor s a p))"
    using f unfolding visible_face_def by blast
  obtain s' a' p' where s': "voxel_ok s'" "g = exposed_face s' (mat s') a' p'"
    and v': "material_face_is_visible (mat s') (mat (face_neighbor s' a' p'))"
    using g unfolding visible_face_def by blast
  have a: "a' = a" using eq(1) unfolding s s' by (simp add: exposed_face_def)
  have no: "\<not> material_face_is_visible (mat (face_neighbor r a q)) (mat r)"
    if "material_face_is_visible (mat r) (mat (face_neighbor r a q))" for r q using that visible_asym by blast
  show ?thesis
  proof (cases "p = p'")
    case True
    then have "s = s'" using eq a unfolding s(2) s'(2) by (cases a; cases s; cases s') (auto simp: exposed_face_def)
    then show ?thesis using True a s s' by simp
  next
    case False
    have "face_neighbor s a p = s' \<and> face_neighbor s' a p' = s"
      using eq a False s(1) s'(1) unfolding s(2) s'(2)
      by (cases a; cases s; cases s'; cases p)
        (auto simp: exposed_face_def voxel_ok_def i32_ok_def i32_saturating_add_def)
    then show ?thesis using v v' a visible_asym by metis
  qed
qed

text \<open>
  C36: directional ownership. The faces of a box are listed in strictly ascending order and are
  exactly the visible faces of the world whose owning voxel lies in the box, whatever is stored
  around it; no two of them share a unit square. Boxes that tile a region therefore
  divide its visible faces among them, each face going to exactly one box.
\<close>

theorem owned_faces_exact:
  assumes "bounds_ok b"
  shows "sorted_wrt (<) (directionally_owned_surface_faces b mat) \<and>
    set (directionally_owned_surface_faces b mat) = {f. visible_face mat f \<and> bounds_contains b (owner_voxel f)} \<and>
    inj_on (\<lambda>f. (fk_axis f, fk_plane f, fk_u f, fk_v f)) (set (directionally_owned_surface_faces b mat))"
proof -
  have set: "set (directionally_owned_surface_faces b mat) = {f. visible_face mat f \<and> bounds_contains b (owner_voxel f)}"
    using owned_face_sound [OF assms] owned_face_complete [OF assms] by blast
  moreover have "sorted_wrt (<) (directionally_owned_surface_faces b mat)"
    unfolding directionally_owned_surface_faces_def Let_def strict_sorted_iff
    by (simp add: sorted_remdups_adj distinct_remdups_adj_sorted)
  moreover have "inj_on (\<lambda>f. (fk_axis f, fk_plane f, fk_u f, fk_v f)) (set (directionally_owned_surface_faces b mat))"
    unfolding set by (intro inj_onI) (auto intro: visible_face_unique)
  ultimately show ?thesis by blast
qed

section \<open>The squares of a side\<close>

definition in_side :: "voxel_bounds \<Rightarrow> boundary_side \<Rightarrow> int \<Rightarrow> int \<Rightarrow> bool" where
  "in_side b s u v \<longleftrightarrow> (case side_ranges b (side_axis s) of ((u0, u1), (v0, v1)) \<Rightarrow> u0 \<le> u \<and> u < u1 \<and> v0 \<le> v \<and> v < v1)"

abbreviation inside_voxel :: "boundary_side \<Rightarrow> int \<Rightarrow> int \<Rightarrow> int \<Rightarrow> voxel_coord" where
  "inside_voxel s p u v \<equiv> boundary_voxel (side_axis s) p u v (\<not> side_positive s)"

abbreviation outside_voxel :: "boundary_side \<Rightarrow> int \<Rightarrow> int \<Rightarrow> int \<Rightarrow> voxel_coord" where
  "outside_voxel s p u v \<equiv> boundary_voxel (side_axis s) p u v (side_positive s)"

lemma side_opposite_simps [simp]:
  "side_axis (side_opposite s) = side_axis s" "side_positive (side_opposite s) \<longleftrightarrow> \<not> side_positive s"
  "side_opposite (side_opposite s) = s"
  by (cases s; simp)+

lemmas side_defs = in_side_def side_ranges_def boundary_voxel_def bounds_contains_def contains_bounds_def bounds_ok_def
  i32_saturating_sub_def voxel_ok_def i32_ok_def

lemma inside_voxel_in: "bounds_ok b \<Longrightarrow> bounds_contains b (inside_voxel s (bounds_plane b s) u v) \<longleftrightarrow> in_side b s u v"
  by (cases s) (auto simp: side_defs)

lemma outside_voxel_in_parent:
  "bounds_ok b \<Longrightarrow> bounds_ok c \<Longrightarrow> contains_bounds b c \<Longrightarrow> in_side c s u v \<Longrightarrow> bounds_plane c s \<noteq> bounds_plane b s \<Longrightarrow>
   bounds_contains b (outside_voxel s (bounds_plane c s) u v)"
  by (cases s) (auto simp: side_defs)

lemma outside_voxel_not_in_parent:
  "bounds_ok b \<Longrightarrow> in_side c s u v \<Longrightarrow> bounds_plane c s = bounds_plane b s \<Longrightarrow> contains_bounds b d \<Longrightarrow> bounds_ok d \<Longrightarrow>
   bounds_plane c s = bounds_plane d (side_opposite s) \<Longrightarrow> False"
  by (cases s) (auto simp: side_defs)

lemma neighbor_plane:
  "bounds_ok c \<Longrightarrow> bounds_ok d \<Longrightarrow> in_side c s u v \<Longrightarrow> bounds_contains d (outside_voxel s (bounds_plane c s) u v) \<Longrightarrow>
   \<not> bounds_contains d (inside_voxel s (bounds_plane c s) u v) \<Longrightarrow>
   bounds_plane d (side_opposite s) = bounds_plane c s \<and> in_side d (side_opposite s) u v"
  by (cases s) (auto simp: side_defs)

lemma outside_not_inside:
  "bounds_ok b \<Longrightarrow> bounds_ok c \<Longrightarrow> contains_bounds b c \<Longrightarrow> bounds_plane c s \<noteq> bounds_plane b s \<Longrightarrow>
   \<not> bounds_contains c (outside_voxel s (bounds_plane c s) u v)"
  by (cases s) (auto simp: side_defs)

lemma child_in_parent_side:
  "contains_bounds b c \<Longrightarrow> bounds_plane c s = bounds_plane b s \<Longrightarrow> in_side c s u v \<Longrightarrow> in_side b s u v"
  by (cases s) (auto simp: side_defs)

lemma parent_side_child:
  "bounds_ok b \<Longrightarrow> bounds_ok c \<Longrightarrow> contains_bounds b c \<Longrightarrow> bounds_contains c (inside_voxel s (bounds_plane b s) u v) \<Longrightarrow>
   bounds_plane c s = bounds_plane b s"
  by (cases s) (auto simp: side_defs)

lemma planes_apart:
  "bounds_ok c \<Longrightarrow> contains_bounds b c \<Longrightarrow> bounds_plane c s \<noteq> bounds_plane b (side_opposite s)"
  by (cases s) (auto simp: side_defs)

lemma bounds_ok_plane: "bounds_ok b \<Longrightarrow> bounds_plane b s \<noteq> bounds_plane b (side_opposite s)"
  by (cases s) (auto simp: side_defs)

lemma axis_sides: "side_axis s = side_axis t \<longleftrightarrow> s = t \<or> s = side_opposite t"
  by (cases s; cases t) simp_all

lemma contains_bounds_iff:
  assumes "bounds_ok b" "bounds_ok c"
  shows "contains_bounds b c \<longleftrightarrow> (\<forall>v. bounds_contains c v \<longrightarrow> bounds_contains b v)"
proof
  assume "\<forall>v. bounds_contains c v \<longrightarrow> bounds_contains b v"
  from spec [OF this, of "vb_min c"] spec [OF this, of "voxel_at (vx (vb_max c) - 1) (vy (vb_max c) - 1) (vz (vb_max c) - 1)"]
  show "contains_bounds b c" using assms by (auto simp: side_defs)
qed (auto simp: side_defs)

lemma bounds_overlap_iff:
  assumes "bounds_ok b" "bounds_ok c"
  shows "bounds_overlap b c \<longleftrightarrow> (\<exists>v. bounds_contains b v \<and> bounds_contains c v)"
proof
  assume "bounds_overlap b c"
  then have "bounds_contains b w \<and> bounds_contains c w"
    if "w = voxel_at (max (vx (vb_min b)) (vx (vb_min c))) (max (vy (vb_min b)) (vy (vb_min c))) (max (vz (vb_min b)) (vz (vb_min c)))" for w
    using assms that by (auto simp: bounds_overlap_def bounds_contains_def bounds_ok_def)
  then show "\<exists>v. bounds_contains b v \<and> bounds_contains c v" by blast
qed (auto simp: bounds_overlap_def bounds_contains_def)

lemma in_grid:
  "x \<in> set (concat (map (\<lambda>v. map (\<lambda>u. f u v) (range_excl u0 u1)) (range_excl v0 v1))) \<longleftrightarrow>
     (\<exists>u v. (u0 \<le> u \<and> u < u1 \<and> v0 \<le> v \<and> v < v1) \<and> x = f u v)"
  unfolding in_concat_map set_map image_iff set_upto Bex_def atLeastAtMost_iff zle_diff1_eq by blast

lemma boundary_samples_list:
  obtains u0 u1 v0 v1 where
    "boundary_samples b s mat = concat (map (\<lambda>v. map (\<lambda>u. boundary_sample_at mat (side_axis s) (bounds_plane b s) u v)
      (range_excl u0 u1)) (range_excl v0 v1))"
    "\<And>u v. in_side b s u v \<longleftrightarrow> u0 \<le> u \<and> u < u1 \<and> v0 \<le> v \<and> v < v1"
    "side_ranges b (side_axis s) = ((u0, u1), (v0, v1))"
proof -
  obtain u0 u1 v0 v1 where "side_ranges b (side_axis s) = ((u0, u1), (v0, v1))" by (metis surj_pair)
  then show thesis using that by (simp add: boundary_samples_def in_side_def)
qed

lemma boundary_sample_at_simps [simp]:
  "bs_axis (boundary_sample_at mat a p u v) = a" "bs_plane (boundary_sample_at mat a p u v) = p"
  "bs_u (boundary_sample_at mat a p u v) = u" "bs_v (boundary_sample_at mat a p u v) = v"
  by (simp_all add: boundary_sample_at_def)

lemma boundary_sample_at_inject:
  "boundary_sample_at mat a p u v = boundary_sample_at mat' a' p' u' v' \<Longrightarrow> a = a' \<and> p = p' \<and> u = u' \<and> v = v'"
  by (simp add: boundary_sample_at_def)

lemma boundary_samples_set:
  "x \<in> set (boundary_samples b s mat) \<longleftrightarrow> (\<exists>u v. in_side b s u v \<and> x = boundary_sample_at mat (side_axis s) (bounds_plane b s) u v)"
proof (rule boundary_samples_list [of b s mat])
  fix u0 u1 v0 v1
  assume e: "boundary_samples b s mat = concat (map (\<lambda>v. map (\<lambda>u. boundary_sample_at mat (side_axis s) (bounds_plane b s) u v)
      (range_excl u0 u1)) (range_excl v0 v1))"
    and i: "\<And>u v. in_side b s u v \<longleftrightarrow> u0 \<le> u \<and> u < u1 \<and> v0 \<le> v \<and> v < v1"
  show ?thesis unfolding e i in_grid by blast
qed

lemma boundary_samples_distinct: "distinct (boundary_samples b s mat)"
proof (rule boundary_samples_list [of b s mat])
  fix u0 u1 v0 v1
  assume "boundary_samples b s mat = concat (map (\<lambda>v. map (\<lambda>u. boundary_sample_at mat (side_axis s) (bounds_plane b s) u v)
      (range_excl u0 u1)) (range_excl v0 v1))"
  then show ?thesis
    by (simp only:) (intro distinct_concat_disjoint; auto simp: distinct_map inj_on_def dest: boundary_sample_at_inject)
qed

definition sees_alike :: "(voxel_coord \<Rightarrow> material) \<Rightarrow> (voxel_coord \<Rightarrow> material) \<Rightarrow> boundary_side \<Rightarrow> int \<Rightarrow> int \<Rightarrow> int \<Rightarrow> bool" where
  "sees_alike m m' s p u v \<longleftrightarrow> m (inside_voxel s p u v) = m' (inside_voxel s p u v) \<and>
     m (outside_voxel s p u v) = m' (outside_voxel s p u v)"

lemma sees_alike_sample:
  "boundary_sample_at m (side_axis s) p u v = boundary_sample_at m' (side_axis s) p u v \<longleftrightarrow> sees_alike m m' s p u v"
  by (cases "side_positive s") (auto simp: boundary_sample_at_def sees_alike_def)

section \<open>Adjacent certificates\<close>

lemma certificate_side_build [simp]:
  "certificate_side (certificate_build blake3 b mat) s =
     \<lparr>sc_fingerprint = boundary_fingerprint blake3 (boundary_samples b s mat), sc_samples = boundary_samples b s mat\<rparr>"
  by (cases s) (simp_all add: certificate_side_def certificate_build_def boundary_sides_def Let_def)

lemma certificate_bounds_build [simp]: "bc_bounds (certificate_build blake3 b mat) = b"
  by (simp add: certificate_build_def)

lemma range_excl_nonempty: "u0 < u1 \<Longrightarrow> u0' < u1' \<Longrightarrow> v0 < v1 \<Longrightarrow> v0' < v1' \<Longrightarrow>
  (\<And>u v. (u0 \<le> u \<and> u < u1 \<and> v0 \<le> v \<and> v < v1) = (u0' \<le> u \<and> u < u1' \<and> v0' \<le> v \<and> v < v1')) \<Longrightarrow>
  (u0, u1, v0, v1) = (u0', u1', v0', v1')" for u0 u1 v0 v1 u0' u1' v0' v1' :: int
proof -
  assume ne: "u0 < u1" "u0' < u1'" "v0 < v1" "v0' < v1'"
    and eq: "\<And>u v. (u0 \<le> u \<and> u < u1 \<and> v0 \<le> v \<and> v < v1) = (u0' \<le> u \<and> u < u1' \<and> v0' \<le> v \<and> v < v1')"
  show ?thesis
    using ne eq [of u0 v0] eq [of u0' v0'] eq [of "u1 - 1" "v1 - 1"] eq [of "u1' - 1" "v1' - 1"] by auto
qed

lemma same_sides:
  assumes "bounds_ok a" "bounds_ok b" "side_axis s = side_axis t" "\<And>u v. in_side a s u v \<longleftrightarrow> in_side b t u v"
  shows "side_ranges a (side_axis s) = side_ranges b (side_axis t)"
proof -
  obtain u0 u1 v0 v1 where a: "side_ranges a (side_axis s) = ((u0, u1), (v0, v1))" by (metis surj_pair)
  obtain u0' u1' v0' v1' where b: "side_ranges b (side_axis t) = ((u0', u1'), (v0', v1'))" by (metis surj_pair)
  have "u0 < u1" "v0 < v1" using assms(1) a by (cases s; auto simp: side_ranges_def bounds_ok_def)+
  moreover have "u0' < u1'" "v0' < v1'" using assms(2) b by (cases t; auto simp: side_ranges_def bounds_ok_def)+
  ultimately have "(u0, u1, v0, v1) = (u0', u1', v0', v1')"
    using assms(4) unfolding in_side_def a b prod.case by (intro range_excl_nonempty) auto
  then show ?thesis using a b by simp
qed

text \<open>
  C37: certificates of neighbours. The certificates of two boxes match across a side exactly when
  the boxes share that whole side, in the same plane and over the same rectangle, and the two
  builders saw the same materials in both layers of voxels along it. No property of the hash is used.
\<close>

theorem matches_adjacent_exact:
  assumes "bounds_ok a" "bounds_ok b"
  shows "matches_adjacent (certificate_build blake3 a m) s (certificate_build blake3 b m') \<longleftrightarrow>
    bounds_plane a s = bounds_plane b (side_opposite s) \<and> side_ranges a (side_axis s) = side_ranges b (side_axis s) \<and>
    (\<forall>u v. in_side a s u v \<longrightarrow> sees_alike m m' s (bounds_plane a s) u v)"
    (is "?M \<longleftrightarrow> ?P \<and> ?R \<and> ?A")
proof -
  let ?t = "side_opposite s"
  let ?sa = "boundary_samples a s m" and ?sb = "boundary_samples b ?t m'"
  have M: "?M \<longleftrightarrow> ?P \<and> ?sa = ?sb" by (auto simp: matches_adjacent_def)
  have at: "x \<in> set ?sb \<longleftrightarrow> (\<exists>u v. in_side b ?t u v \<and> x = boundary_sample_at m' (side_axis s) (bounds_plane b ?t) u v)" for x
    unfolding boundary_samples_set by simp
  have "?R \<and> ?A" if "?P" "?sa = ?sb"
  proof -
    have "in_side a s u v \<longleftrightarrow> in_side b ?t u v" for u v
    proof
      assume "in_side a s u v"
      then have "boundary_sample_at m (side_axis s) (bounds_plane a s) u v \<in> set ?sb"
        unfolding \<open>?sa = ?sb\<close> [symmetric] boundary_samples_set by blast
      then show "in_side b ?t u v" unfolding at by (auto dest: boundary_sample_at_inject)
    next
      assume "in_side b ?t u v"
      then have "boundary_sample_at m' (side_axis s) (bounds_plane b ?t) u v \<in> set ?sa"
        unfolding \<open>?sa = ?sb\<close> at by blast
      then show "in_side a s u v" unfolding boundary_samples_set by (auto dest: boundary_sample_at_inject)
    qed
    then have "?R" using same_sides [OF assms, of s ?t] by simp
    moreover have "sees_alike m m' s (bounds_plane a s) u v" if h: "in_side a s u v" for u v
    proof -
      have "boundary_sample_at m (side_axis s) (bounds_plane a s) u v \<in> set ?sb"
        using h unfolding \<open>?sa = ?sb\<close> [symmetric] boundary_samples_set by blast
      then obtain u' v' where "boundary_sample_at m (side_axis s) (bounds_plane a s) u v =
          boundary_sample_at m' (side_axis s) (bounds_plane b ?t) u' v'" unfolding at by blast
      then show ?thesis unfolding sees_alike_sample [symmetric] \<open>?P\<close> [symmetric] by (auto dest: boundary_sample_at_inject)
    qed
    ultimately show ?thesis by blast
  qed
  moreover have "?sa = ?sb" if P: "?P" and R: "?R" and A: "?A"
  proof -
    obtain u0 u1 v0 v1 where a: "side_ranges a (side_axis s) = ((u0, u1), (v0, v1))" by (metis surj_pair)
    have "boundary_sample_at m (side_axis s) (bounds_plane a s) u v = boundary_sample_at m' (side_axis s) (bounds_plane a s) u v"
      if "u0 \<le> u" "u < u1" "v0 \<le> v" "v < v1" for u v
      using A that by (simp add: in_side_def a sees_alike_sample)
    moreover have "side_ranges b (side_axis s) = ((u0, u1), (v0, v1))" using R a by simp
    ultimately show ?thesis
      using P a by (auto simp: boundary_samples_def Let_def intro!: arg_cong [of _ _ concat] map_cong)
  qed
  ultimately show ?thesis unfolding M by blast
qed

section \<open>Tilings\<close>

lemma length_concat_same: "(\<And>x. x \<in> set xs \<Longrightarrow> length (f x) = n) \<Longrightarrow> length (concat (map f xs)) = length xs * n"
  by (induction xs) auto

lemma length_bounds_voxels:
  "length (bounds_voxels b) = nat (vx (vb_max b) - vx (vb_min b)) * nat (vy (vb_max b) - vy (vb_min b)) * nat (vz (vb_max b) - vz (vb_min b))"
  unfolding bounds_voxels_def by (subst length_concat_same [OF length_concat_same]) (auto simp: mult_ac)

lemma bounds_volume_length:
  assumes "bounds_ok b"
  shows "bounds_volume b = (if length (bounds_voxels b) \<le> u64_max then Some (length (bounds_voxels b)) else None)"
proof -
  let ?x = "nat (vx (vb_max b) - vx (vb_min b))" and ?y = "nat (vy (vb_max b) - vy (vb_min b))" and ?z = "nat (vz (vb_max b) - vz (vb_min b))"
  have "1 \<le> ?z" using assms by (auto simp: bounds_ok_def)
  then have "?x * ?y * 1 \<le> ?x * ?y * ?z" by (rule mult_le_mono2)
  then have "?x * ?y * ?z \<le> u64_max \<Longrightarrow> ?x * ?y \<le> u64_max" by linarith
  then show ?thesis
    using assms unfolding length_bounds_voxels
    by (auto simp: bounds_volume_def u64_checked_mul_def bounds_ok_def)
qed

definition bounds_tile :: "voxel_bounds \<Rightarrow> voxel_bounds list \<Rightarrow> bool" where
  "bounds_tile b cs \<longleftrightarrow> (\<forall>c \<in> set cs. contains_bounds b c) \<and>
     sorted_wrt (\<lambda>c d. \<not> (\<exists>v. bounds_contains c v \<and> bounds_contains d v)) cs \<and>
     (\<forall>v. bounds_contains b v \<longrightarrow> (\<exists>c \<in> set cs. bounds_contains c v))"

lemma any_pair_iff: "any_pair P xs \<longleftrightarrow> \<not> sorted_wrt (\<lambda>a b. \<not> P a b) xs"
  by (induction xs) (auto simp: list_ex_iff)

lemma sorted_wrt_disjoint_distinct:
  "sorted_wrt (\<lambda>c d. \<not> (\<exists>v. bounds_contains c v \<and> bounds_contains d v)) cs \<Longrightarrow> distinct (concat (map bounds_voxels cs))"
  by (induction cs) (auto simp: bounds_voxels_distinct bounds_voxels_set)

lemma sum_list_lengths: "length (concat (map bounds_voxels cs)) = sum_list (map (\<lambda>c. length (bounds_voxels c)) cs)"
  by (simp add: length_concat comp_def)

text \<open>Boxes inside a box, pairwise disjoint, tile it exactly when their volumes add up.\<close>

lemma tile_volume:
  assumes c: "\<forall>c \<in> set cs. contains_bounds b c" and ok: "bounds_ok b" "\<forall>c \<in> set cs. bounds_ok c"
    and d: "sorted_wrt (\<lambda>c d. \<not> (\<exists>v. bounds_contains c v \<and> bounds_contains d v)) cs"
  shows "(\<forall>v. bounds_contains b v \<longrightarrow> (\<exists>c \<in> set cs. bounds_contains c v)) \<longleftrightarrow>
      sum_list (map (\<lambda>c. length (bounds_voxels c)) cs) = length (bounds_voxels b)"
    and "sum_list (map (\<lambda>c. length (bounds_voxels c)) cs) \<le> length (bounds_voxels b)"
proof -
  let ?U = "set (concat (map bounds_voxels cs))" and ?B = "set (bounds_voxels b)"
  have sub: "?U \<subseteq> ?B" using c ok contains_bounds_iff [of b] by (auto simp: bounds_voxels_set)
  have cards: "card ?U = sum_list (map (\<lambda>c. length (bounds_voxels c)) cs)" "card ?B = length (bounds_voxels b)"
    using distinct_card [OF sorted_wrt_disjoint_distinct [OF d]] distinct_card [OF bounds_voxels_distinct [of b]]
    by (simp_all only: sum_list_lengths)
  then show "sum_list (map (\<lambda>c. length (bounds_voxels c)) cs) \<le> length (bounds_voxels b)"
    using card_mono [OF _ sub] by simp
  have "(\<forall>v. bounds_contains b v \<longrightarrow> (\<exists>c \<in> set cs. bounds_contains c v)) \<longleftrightarrow> ?B \<subseteq> ?U"
    by (auto simp: bounds_voxels_set subset_iff)
  also have "\<dots> \<longleftrightarrow> ?U = ?B" using sub by blast
  also have "\<dots> \<longleftrightarrow> card ?U = card ?B" using card_subset_eq [OF _ sub] by auto
  finally show "(\<forall>v. bounds_contains b v \<longrightarrow> (\<exists>c \<in> set cs. bounds_contains c v)) \<longleftrightarrow>
      sum_list (map (\<lambda>c. length (bounds_voxels c)) cs) = length (bounds_voxels b)" unfolding cards .
qed

lemma volume_check:
  assumes ok: "bounds_ok b" "\<forall>c \<in> set cs. bounds_ok c" and v: "bounds_volume b = Some n"
  shows "(\<forall>c \<in> set cs. contains_bounds b c) \<and> sum_list (List.map_filter bounds_volume cs) mod 2 ^ 64 = n \<and>
      \<not> any_pair bounds_overlap cs \<longleftrightarrow> bounds_tile b cs"
proof -
  have n: "n = length (bounds_voxels b)" "n \<le> u64_max" using v bounds_volume_length [OF ok(1)] by (auto split: if_splits)
  have pairs: "\<not> any_pair bounds_overlap cs \<longleftrightarrow> sorted_wrt (\<lambda>c d. \<not> (\<exists>v. bounds_contains c v \<and> bounds_contains d v)) cs"
    unfolding any_pair_iff using ok(2) bounds_overlap_iff by (auto elim!: sorted_wrt_mono_rel [rotated])
  have "sum_list (List.map_filter bounds_volume cs) mod 2 ^ 64 = n \<longleftrightarrow>
      (\<forall>v. bounds_contains b v \<longrightarrow> (\<exists>c \<in> set cs. bounds_contains c v))"
    if c: "\<forall>c \<in> set cs. contains_bounds b c"
      and d: "sorted_wrt (\<lambda>c d. \<not> (\<exists>v. bounds_contains c v \<and> bounds_contains d v)) cs"
  proof -
    note t = tile_volume [OF c ok d]
    have each: "bounds_volume c = Some (length (bounds_voxels c))" if h: "c \<in> set cs" for c
    proof -
      have "length (bounds_voxels c) \<le> sum_list (map (\<lambda>c. length (bounds_voxels c)) cs)"
        using h by (intro member_le_sum_list) auto
      then show ?thesis using t(2) n bounds_volume_length [of c] ok(2) h by auto
    qed
    have "List.map_filter bounds_volume cs = map (\<lambda>c. length (bounds_voxels c)) cs"
      using each by (induction cs) (auto simp: List.map_filter_simps)
    then show ?thesis using t n by simp
  qed
  then show ?thesis unfolding bounds_tile_def pairs by blast
qed

section \<open>Tallies\<close>

definition tallies :: "(boundary_sample, nat) btree \<Rightarrow> boundary_sample list \<Rightarrow> bool" where
  "tallies m xs \<longleftrightarrow> btree_wf m \<and>
     (\<forall>k. btree_get m k = (if count_list xs k = 0 then None else Some (min 255 (count_list xs k))))"

lemma tallies_tally: "tallies m xs \<Longrightarrow> tallies (tally x m) (xs @ [x])"
  by (auto simp: tallies_def tally_def)

lemma tallies_fold: "tallies m xs \<Longrightarrow> tallies (fold tally ys m) (xs @ ys)"
proof (induction ys arbitrary: m xs)
  case (Cons y ys)
  from Cons.IH [OF tallies_tally [OF Cons.prems]] show ?case by simp
qed simp

definition outer_side :: "boundary_certificate \<Rightarrow> boundary_certificate \<Rightarrow> boundary_side \<Rightarrow> bool" where
  "outer_side parent child s \<longleftrightarrow> bounds_plane (bc_bounds child) s = bounds_plane (bc_bounds parent) s"

definition split_samples :: "bool \<Rightarrow> boundary_certificate \<Rightarrow> boundary_certificate \<Rightarrow> boundary_side \<Rightarrow> boundary_sample list" where
  "split_samples out parent child s = (if outer_side parent child s = out then sc_samples (certificate_side child s) else [])"

definition group_samples :: "bool \<Rightarrow> boundary_certificate \<Rightarrow> boundary_certificate list \<Rightarrow> boundary_sample list" where
  "group_samples out parent children = concat (map (\<lambda>child. concat (map (split_samples out parent child) boundary_sides)) children)"

lemma tally_sides:
  assumes "tallies o1 xs" "tallies i1 ys"
  shows "case fold (\<lambda>s (out, internal). let samples = sc_samples (certificate_side child s) in
      if bounds_plane (bc_bounds child) s = bounds_plane (bc_bounds parent) s
      then (fold tally samples out, internal) else (out, fold tally samples internal)) sides (o1, i1) of
    (o2, i2) \<Rightarrow> tallies o2 (xs @ concat (map (split_samples True parent child) sides)) \<and>
      tallies i2 (ys @ concat (map (split_samples False parent child) sides))"
  using assms
proof (induction sides arbitrary: o1 i1 xs ys)
  case (Cons s sides)
  let ?z = "sc_samples (certificate_side child s)"
  show ?case
  proof (cases "bounds_plane (bc_bounds child) s = bounds_plane (bc_bounds parent) s")
    case True
    from Cons.IH [OF tallies_fold [OF Cons.prems(1), of ?z] Cons.prems(2)] True show ?thesis
      by (simp add: split_samples_def outer_side_def Let_def)
  next
    case False
    from Cons.IH [OF Cons.prems(1) tallies_fold [OF Cons.prems(2), of ?z]] False show ?thesis
      by (simp add: split_samples_def outer_side_def Let_def)
  qed
qed simp

lemma tally_children_tallies:
  "case tally_children parent children of (outer, internal) \<Rightarrow>
     tallies outer (group_samples True parent children) \<and> tallies internal (group_samples False parent children)"
proof -
  let ?step = "\<lambda>child (outer, internal). fold (\<lambda>s (out, internal). let samples = sc_samples (certificate_side child s) in
      if bounds_plane (bc_bounds child) s = bounds_plane (bc_bounds parent) s
      then (fold tally samples out, internal) else (out, fold tally samples internal)) boundary_sides (outer, internal)"
  have "case fold ?step cs (o1, i1) of (o2, i2) \<Rightarrow>
      tallies o2 (xs @ group_samples True parent cs) \<and> tallies i2 (ys @ group_samples False parent cs)"
    if "tallies o1 xs" "tallies i1 ys" for cs o1 i1 xs ys
    using that
  proof (induction cs arbitrary: o1 i1 xs ys)
    case (Cons c cs)
    obtain o2 i2 where st: "?step c (o1, i1) = (o2, i2)" by (cases "?step c (o1, i1)")
    with tally_sides [OF Cons.prems, where child = c and parent = parent and sides = boundary_sides]
    have t: "tallies o2 (xs @ concat (map (split_samples True parent c) boundary_sides))"
      "tallies i2 (ys @ concat (map (split_samples False parent c) boundary_sides))" by simp_all
    from Cons.IH [OF t] show ?case unfolding fold.simps comp_def st by (simp add: group_samples_def)
  qed (simp add: group_samples_def)
  from this [of "[]" "[]" "[]" "[]" children] show ?thesis by (simp add: tally_children_def tallies_def btree_wf_def)
qed

section \<open>What a group tally counts\<close>

type_synonym seen_box = "voxel_bounds \<times> (voxel_coord \<Rightarrow> material)"

definition child_sees :: "bool \<Rightarrow> voxel_bounds \<Rightarrow> boundary_sample \<Rightarrow> boundary_side \<Rightarrow> seen_box \<Rightarrow> bool" where
  "child_sees out b x s c \<longleftrightarrow> (bounds_plane (fst c) s = bounds_plane b s) = out \<and> x \<in> set (boundary_samples (fst c) s (snd c))"

lemma count_list_distinct: "distinct xs \<Longrightarrow> count_list xs x = of_bool (x \<in> set xs)"
  by (induction xs) auto

lemma count_list_concat: "count_list (concat xss) x = sum_list (map (\<lambda>xs. count_list xs x) xss)"
  by (induction xss) auto

lemma sum_exclusive:
  "sorted_wrt (\<lambda>c d. \<not> (P c \<and> P d)) cs \<Longrightarrow> sum_list (map (\<lambda>c. of_bool (P c) :: nat) cs) = of_bool (\<exists>c \<in> set cs. P c)"
proof (induction cs)
  case (Cons c cs)
  then show ?case by (cases "P c") auto
qed simp

lemma sum_sides:
  assumes "\<And>s. P s \<Longrightarrow> side_axis s = side_axis t"
  shows "sum_list (map (\<lambda>s. of_bool (P s) :: nat) boundary_sides) = of_bool (P t) + of_bool (P (side_opposite t))"
proof -
  have no: "\<not> P s" if "s \<noteq> t" "s \<noteq> side_opposite t" for s using assms [of s] that axis_sides [of s t] by blast
  show ?thesis
    by (cases t; simp add: boundary_sides_def;
      use no [of NegativeX] no [of PositiveX] no [of NegativeY] no [of PositiveY] no [of NegativeZ] no [of PositiveZ] in simp)
qed

lemma count_group:
  assumes d: "sorted_wrt (\<lambda>c d. \<not> (\<exists>v. bounds_contains c v \<and> bounds_contains d v)) (map fst cs)"
    and ok: "\<forall>c \<in> set cs. bounds_ok (fst c)" and t: "side_axis t = bs_axis x"
  shows "count_list (group_samples out (certificate_build blake3 b m) (map (\<lambda>c. certificate_build blake3 (fst c) (snd c)) cs)) x =
    of_bool (\<exists>c \<in> set cs. child_sees out b x t c) + of_bool (\<exists>c \<in> set cs. child_sees out b x (side_opposite t) c)"
proof -
  have ax: "child_sees out b x s c \<Longrightarrow> side_axis s = side_axis t" for s c
    using t by (auto simp: child_sees_def boundary_samples_set)
  have one: "count_list (split_samples out (certificate_build blake3 b m) (certificate_build blake3 (fst c) (snd c)) s) x =
      of_bool (child_sees out b x s c)" for s c
    by (simp add: split_samples_def outer_side_def child_sees_def count_list_distinct [OF boundary_samples_distinct])
  have excl: "sum_list (map (\<lambda>c. of_bool (child_sees out b x s c) :: nat) cs) = of_bool (\<exists>c \<in> set cs. child_sees out b x s c)" for s
  proof (rule sum_exclusive)
    have "sorted_wrt (\<lambda>c d. \<not> (\<exists>v. bounds_contains (fst c) v \<and> bounds_contains (fst d) v)) cs" using d by (simp add: sorted_wrt_map)
    then show "sorted_wrt (\<lambda>c d. \<not> (child_sees out b x s c \<and> child_sees out b x s d)) cs"
    proof (rule sorted_wrt_mono_rel [rotated])
      fix c e assume ce: "c \<in> set cs" "e \<in> set cs" and dis: "\<not> (\<exists>v. bounds_contains (fst c) v \<and> bounds_contains (fst e) v)"
      have "bounds_contains (fst f) (inside_voxel s (bs_plane x) (bs_u x) (bs_v x))" if "child_sees out b x s f" "f \<in> set cs" for f
        using that ok inside_voxel_in [of "fst f" s] by (auto simp: child_sees_def boundary_samples_set)
      then show "\<not> (child_sees out b x s c \<and> child_sees out b x s e)" using ce dis by blast
    qed
  qed
  have sides: "sum_list (map (\<lambda>s. of_bool (child_sees out b x s c)) boundary_sides) =
      (of_bool (child_sees out b x t c) + of_bool (child_sees out b x (side_opposite t) c) :: nat)" for c
    by (rule sum_sides) (rule ax)
  have "count_list (group_samples out (certificate_build blake3 b m) (map (\<lambda>c. certificate_build blake3 (fst c) (snd c)) cs)) x =
      sum_list (map (\<lambda>c. sum_list (map (\<lambda>s. of_bool (child_sees out b x s c)) boundary_sides)) cs)"
    by (simp add: group_samples_def count_list_concat comp_def one)
  also have "\<dots> = sum_list (map (\<lambda>c. of_bool (child_sees out b x t c) + of_bool (child_sees out b x (side_opposite t) c)) cs)"
    by (simp only: sides)
  also have "\<dots> = of_bool (\<exists>c \<in> set cs. child_sees out b x t c) + of_bool (\<exists>c \<in> set cs. child_sees out b x (side_opposite t) c)"
    unfolding sum_list_addf excl ..
  finally show ?thesis .
qed

lemma tallies_values:
  assumes "tallies m xs" "n < 255"
  shows "list_all (\<lambda>k. k = n) (btree_values m) \<longleftrightarrow> (\<forall>x \<in> set xs. count_list xs x = n)" "fst ` set m = set xs"
proof -
  have wf: "btree_wf m" and g: "\<And>k. btree_get m k = (if count_list xs k = 0 then None else Some (min 255 (count_list xs k)))"
    using assms(1) by (auto simp: tallies_def)
  have "set (btree_values m) = {v. \<exists>k \<in> set xs. v = min 255 (count_list xs k)}"
    unfolding btree_values_set [OF wf] g by (auto simp: count_list_0_iff)
  then show "list_all (\<lambda>k. k = n) (btree_values m) \<longleftrightarrow> (\<forall>x \<in> set xs. count_list xs x = n)"
    using assms(2) by (auto simp: list_all_iff)
  have "k \<in> fst ` set m \<longleftrightarrow> k \<in> set xs" for k
    using btree_get_None [of m k] g [of k] by (auto simp: count_list_0_iff split: if_splits)
  then show "fst ` set m = set xs" by blast
qed

lemma parent_samples_keys:
  assumes "btree_wf outer"
  shows "(length (btree_set ps) = length outer \<and> btree_set ps = map fst outer) \<longleftrightarrow> set ps = fst ` set outer"
proof -
  have "btree_set ps = map fst outer \<longleftrightarrow> set ps = fst ` set outer"
  proof
    assume "set ps = fst ` set outer"
    then show "btree_set ps = map fst outer"
      using assms by (intro btree_set_unique [symmetric]) (auto simp: btree_wf_def strict_sorted_iff)
  qed (metis list.set_map set_btree_set)
  then show ?thesis by (metis length_map)
qed

section \<open>Child groups\<close>

definition inner_agrees :: "seen_box list \<Rightarrow> bool" where
  "inner_agrees cs \<longleftrightarrow> (\<forall>c \<in> set cs. \<forall>d \<in> set cs. \<forall>s u v.
     bounds_plane (fst c) s = bounds_plane (fst d) (side_opposite s) \<and> in_side (fst c) s u v \<and>
     in_side (fst d) (side_opposite s) u v \<longrightarrow> sees_alike (snd c) (snd d) s (bounds_plane (fst c) s) u v)"

definition outer_agrees :: "voxel_bounds \<Rightarrow> (voxel_coord \<Rightarrow> material) \<Rightarrow> seen_box list \<Rightarrow> bool" where
  "outer_agrees b m cs \<longleftrightarrow> (\<forall>c \<in> set cs. \<forall>s u v.
     bounds_plane (fst c) s = bounds_plane b s \<and> in_side (fst c) s u v \<longrightarrow>
     sees_alike (snd c) m s (bounds_plane b s) u v)"

definition child_tiling :: "voxel_bounds \<Rightarrow> seen_box list \<Rightarrow> bool" where
  "child_tiling b cs \<longleftrightarrow> bounds_ok b \<and> (\<forall>c \<in> set cs. bounds_ok (fst c)) \<and> bounds_tile b (map fst cs)"

lemma child_tilingD:
  assumes "child_tiling b cs"
  shows "bounds_ok b" "c \<in> set cs \<Longrightarrow> bounds_ok (fst c)" "bounds_tile b (map fst cs)"
  using assms by (auto simp: child_tiling_def)

lemma child_in: "child_tiling b cs \<Longrightarrow> c \<in> set cs \<Longrightarrow> contains_bounds b (fst c)"
  by (auto simp: child_tiling_def bounds_tile_def)

lemma child_unique:
  assumes T: "child_tiling b cs" and "c \<in> set cs" "d \<in> set cs" "bounds_contains (fst c) v" "bounds_contains (fst d) v"
  shows "c = d"
proof (rule ccontr)
  assume ne: "c \<noteq> d"
  have "sorted_wrt (\<lambda>c d. \<not> (\<exists>v. bounds_contains (fst c) v \<and> bounds_contains (fst d) v)) cs"
    using child_tilingD(3) [OF T] by (simp add: bounds_tile_def sorted_wrt_map)
  then have apart: "\<not> (bounds_contains (fst (cs ! i)) v \<and> bounds_contains (fst (cs ! j)) v)" if "i < j" "j < length cs" for i j
    using that sorted_wrt_nth_less by blast
  obtain i where i: "i < length cs" "c = cs ! i" using assms(2) by (auto simp: in_set_conv_nth)
  obtain j where j: "j < length cs" "d = cs ! j" using assms(3) by (auto simp: in_set_conv_nth)
  have "i \<noteq> j" using ne i j by auto
  then show False using apart [of i j] apart [of j i] i j assms(4,5) by (cases "i < j") auto
qed

lemma child_at: "child_tiling b cs \<Longrightarrow> bounds_contains b v \<Longrightarrow> \<exists>c \<in> set cs. bounds_contains (fst c) v"
  by (auto simp: child_tiling_def bounds_tile_def)

lemma child_sees_iff:
  "child_sees out b x s c \<longleftrightarrow> (bounds_plane (fst c) s = bounds_plane b s) = out \<and>
     (\<exists>u v. in_side (fst c) s u v \<and> x = boundary_sample_at (snd c) (side_axis s) (bounds_plane (fst c) s) u v)"
  by (simp add: child_sees_def boundary_samples_set)

text \<open>Across an inner square lies exactly one other child, whose opposite side holds the square.\<close>

lemma inner_neighbor:
  assumes T: "child_tiling b cs" and c: "c \<in> set cs" "in_side (fst c) s u v" "bounds_plane (fst c) s \<noteq> bounds_plane b s"
  obtains d where "d \<in> set cs" "bounds_plane (fst d) (side_opposite s) = bounds_plane (fst c) s" "in_side (fst d) (side_opposite s) u v"
proof -
  note ok = child_tilingD [OF T]
  have "bounds_contains b (outside_voxel s (bounds_plane (fst c) s) u v)"
    using outside_voxel_in_parent [OF ok(1) ok(2) child_in [OF T]] c by blast
  then obtain d where d: "d \<in> set cs" "bounds_contains (fst d) (outside_voxel s (bounds_plane (fst c) s) u v)"
    using child_at [OF T] by blast
  have inside: "bounds_contains (fst c) (inside_voxel s (bounds_plane (fst c) s) u v)" using inside_voxel_in ok(2) c by blast
  have "\<not> bounds_contains (fst d) (inside_voxel s (bounds_plane (fst c) s) u v)"
  proof
    assume "bounds_contains (fst d) (inside_voxel s (bounds_plane (fst c) s) u v)"
    then have "d = c" using child_unique [OF T] d(1) c(1) inside by blast
    moreover have "\<not> bounds_contains (fst c) (outside_voxel s (bounds_plane (fst c) s) u v)"
      using outside_not_inside [OF ok(1) ok(2) child_in [OF T]] c(1,3) by blast
    ultimately show False using d(2) by blast
  qed
  then show thesis using that [OF d(1)] neighbor_plane ok(2) c(1,2) d by blast
qed

lemma inner_counts:
  assumes T: "child_tiling b cs"
  shows "(\<forall>x s. (\<exists>c \<in> set cs. child_sees False b x s c) \<longrightarrow> (\<exists>c \<in> set cs. child_sees False b x (side_opposite s) c)) \<longleftrightarrow>
     inner_agrees cs"
proof
  note ok = child_tilingD [OF T]
  assume both: "\<forall>x s. (\<exists>c \<in> set cs. child_sees False b x s c) \<longrightarrow> (\<exists>c \<in> set cs. child_sees False b x (side_opposite s) c)"
  show "inner_agrees cs"
    unfolding inner_agrees_def
  proof (intro ballI allI impI; elim conjE)
    fix c d s u v
    assume c: "c \<in> set cs" and d: "d \<in> set cs" and p: "bounds_plane (fst c) s = bounds_plane (fst d) (side_opposite s)"
      and uv: "in_side (fst c) s u v" "in_side (fst d) (side_opposite s) u v"
    let ?x = "boundary_sample_at (snd c) (side_axis s) (bounds_plane (fst c) s) u v"
    have "bounds_plane (fst c) s \<noteq> bounds_plane b s"
      using outside_voxel_not_in_parent [OF ok(1) uv(1) _ child_in [OF T d] ok(2) [OF d] p] by blast
    then have "child_sees False b ?x s c" using uv(1) unfolding child_sees_iff by blast
    then obtain e where e: "e \<in> set cs" "child_sees False b ?x (side_opposite s) e" using both c by blast
    obtain u' v' where e1: "in_side (fst e) (side_opposite s) u' v'"
      "?x = boundary_sample_at (snd e) (side_axis s) (bounds_plane (fst e) (side_opposite s)) u' v'"
      using e(2) unfolding child_sees_iff side_opposite_simps by blast
    note eq = boundary_sample_at_inject [OF e1(2)]
    then have e': "bounds_plane (fst e) (side_opposite s) = bounds_plane (fst c) s" "in_side (fst e) (side_opposite s) u v"
      "?x = boundary_sample_at (snd e) (side_axis s) (bounds_plane (fst c) s) u v"
      using e1 by metis+
    have "bounds_contains (fst e) (inside_voxel (side_opposite s) (bounds_plane (fst c) s) u v)"
      "bounds_contains (fst d) (inside_voxel (side_opposite s) (bounds_plane (fst c) s) u v)"
      using inside_voxel_in [OF ok(2) [OF e(1)], of "side_opposite s" u v] inside_voxel_in [OF ok(2) [OF d], of "side_opposite s" u v]
        e'(1,2) uv(2) unfolding p by simp_all
    then have "e = d" using child_unique [OF T] e(1) d by blast
    then show "sees_alike (snd c) (snd d) s (bounds_plane (fst c) s) u v" using e'(3) by (simp add: sees_alike_sample)
  qed
next
  note ok = child_tilingD [OF T]
  assume agree: "inner_agrees cs"
  show "\<forall>x s. (\<exists>c \<in> set cs. child_sees False b x s c) \<longrightarrow> (\<exists>c \<in> set cs. child_sees False b x (side_opposite s) c)"
  proof (intro allI impI; elim bexE)
    fix x s c assume c: "c \<in> set cs" and see: "child_sees False b x s c"
    then obtain u v where uv: "in_side (fst c) s u v" and x: "x = boundary_sample_at (snd c) (side_axis s) (bounds_plane (fst c) s) u v"
      and ne: "bounds_plane (fst c) s \<noteq> bounds_plane b s" by (auto simp: child_sees_def boundary_samples_set)
    obtain d where d: "d \<in> set cs" "bounds_plane (fst d) (side_opposite s) = bounds_plane (fst c) s" "in_side (fst d) (side_opposite s) u v"
      using inner_neighbor [OF T c uv ne] by blast
    then have "sees_alike (snd c) (snd d) s (bounds_plane (fst c) s) u v" using agree c uv unfolding inner_agrees_def by metis
    then have "x = boundary_sample_at (snd d) (side_axis s) (bounds_plane (fst d) (side_opposite s)) u v"
      unfolding x d(2) sees_alike_sample .
    moreover have "bounds_plane (fst d) (side_opposite s) \<noteq> bounds_plane b (side_opposite s)"
      unfolding d(2) using planes_apart ok(2) child_in [OF T] c by blast
    ultimately have "child_sees False b x (side_opposite s) d"
      using d(3) unfolding child_sees_iff side_opposite_simps by blast
    then show "\<exists>c \<in> set cs. child_sees False b x (side_opposite s) c" using d(1) by blast
  qed
qed

lemma outer_keys:
  assumes T: "child_tiling b cs"
  shows "(\<forall>x. (\<exists>s. x \<in> set (boundary_samples b s m)) \<longleftrightarrow> (\<exists>s. \<exists>c \<in> set cs. child_sees True b x s c)) \<longleftrightarrow> outer_agrees b m cs"
proof
  note ok = child_tilingD [OF T]
  assume keys: "\<forall>x. (\<exists>s. x \<in> set (boundary_samples b s m)) \<longleftrightarrow> (\<exists>s. \<exists>c \<in> set cs. child_sees True b x s c)"
  show "outer_agrees b m cs"
    unfolding outer_agrees_def
  proof (intro ballI allI impI; elim conjE)
    fix c s u v assume c: "c \<in> set cs" "bounds_plane (fst c) s = bounds_plane b s" "in_side (fst c) s u v"
    let ?x = "boundary_sample_at (snd c) (side_axis s) (bounds_plane b s) u v"
    have "child_sees True b ?x s c" unfolding child_sees_iff using c(2,3) by metis
    then obtain t where "?x \<in> set (boundary_samples b t m)" using keys c(1) by blast
    then have t: "side_axis t = side_axis s" "bounds_plane b t = bounds_plane b s"
      "?x = boundary_sample_at m (side_axis t) (bounds_plane b t) u v"
      unfolding boundary_samples_set by (auto dest: boundary_sample_at_inject)
    then show "sees_alike (snd c) m s (bounds_plane b s) u v" by (simp add: sees_alike_sample)
  qed
next
  note ok = child_tilingD [OF T]
  assume agree: "outer_agrees b m cs"
  show "\<forall>x. (\<exists>s. x \<in> set (boundary_samples b s m)) \<longleftrightarrow> (\<exists>s. \<exists>c \<in> set cs. child_sees True b x s c)"
  proof (intro allI iffI; elim exE bexE)
    fix x s assume "x \<in> set (boundary_samples b s m)"
    then obtain u v where uv: "in_side b s u v" and x: "x = boundary_sample_at m (side_axis s) (bounds_plane b s) u v"
      by (auto simp: boundary_samples_set)
    have "bounds_contains b (inside_voxel s (bounds_plane b s) u v)" using inside_voxel_in ok(1) uv by blast
    then obtain c where c: "c \<in> set cs" "bounds_contains (fst c) (inside_voxel s (bounds_plane b s) u v)" using child_at [OF T] by blast
    have p: "bounds_plane (fst c) s = bounds_plane b s" using parent_side_child ok child_in [OF T] c by blast
    have i: "in_side (fst c) s u v" using inside_voxel_in [OF ok(2) [OF c(1)], of s u v] c(2) by (simp add: p)
    then have "sees_alike (snd c) m s (bounds_plane b s) u v" using agree c(1) p unfolding outer_agrees_def by blast
    then have "x = boundary_sample_at (snd c) (side_axis s) (bounds_plane (fst c) s) u v"
      unfolding x p sees_alike_sample [symmetric] by simp
    then have "child_sees True b x s c" using i p unfolding child_sees_iff by blast
    then show "\<exists>s. \<exists>c \<in> set cs. child_sees True b x s c" using c(1) by blast
  next
    fix x s c assume c: "c \<in> set cs" and see: "child_sees True b x s c"
    then obtain u v where uv: "in_side (fst c) s u v" and p: "bounds_plane (fst c) s = bounds_plane b s"
      and x: "x = boundary_sample_at (snd c) (side_axis s) (bounds_plane b s) u v"
      by (auto simp: child_sees_def boundary_samples_set)
    then have "sees_alike (snd c) m s (bounds_plane b s) u v" using agree c unfolding outer_agrees_def by blast
    then have "x = boundary_sample_at m (side_axis s) (bounds_plane b s) u v" unfolding x sees_alike_sample .
    then show "\<exists>s. x \<in> set (boundary_samples b s m)"
      using child_in_parent_side [OF child_in [OF T c] p uv] by (auto simp: boundary_samples_set)
  qed
qed

lemma outer_once:
  assumes T: "child_tiling b cs" and "c \<in> set cs" "d \<in> set cs" "child_sees True b x s c" "child_sees True b x (side_opposite s) d"
  shows False
  using assms bounds_ok_plane [OF child_tilingD(1) [OF T], of s] by (auto simp: child_sees_iff dest!: boundary_sample_at_inject)

abbreviation seen_certificates :: "(u8 list \<Rightarrow> u8 list) \<Rightarrow> seen_box list \<Rightarrow> boundary_certificate list" where
  "seen_certificates blake3 cs \<equiv> map (\<lambda>c. certificate_build blake3 (fst c) (snd c)) cs"

abbreviation group_of :: "(u8 list \<Rightarrow> u8 list) \<Rightarrow> bool \<Rightarrow> voxel_bounds \<Rightarrow> (voxel_coord \<Rightarrow> material) \<Rightarrow> seen_box list \<Rightarrow>
    boundary_sample list" where
  "group_of blake3 out b m cs \<equiv> group_samples out (certificate_build blake3 b m) (seen_certificates blake3 cs)"

lemma child_sees_axis: "child_sees out b x s c \<Longrightarrow> side_axis s = bs_axis x"
  by (auto simp: child_sees_iff)

lemma tiling_count:
  assumes "child_tiling b cs" "side_axis s = bs_axis x"
  shows "count_list (group_of blake3 out b m cs) x =
    of_bool (\<exists>c \<in> set cs. child_sees out b x s c) + of_bool (\<exists>c \<in> set cs. child_sees out b x (side_opposite s) c)"
  using assms by (intro count_group) (auto simp: child_tiling_def bounds_tile_def)

lemma tiling_mem:
  assumes T: "child_tiling b cs"
  shows "x \<in> set (group_of blake3 out b m cs) \<longleftrightarrow> (\<exists>s. \<exists>c \<in> set cs. child_sees out b x s c)"
proof -
  obtain s where s: "side_axis s = bs_axis x" by (metis face_axis.exhaust side_axis.simps(1,3,5))
  have "x \<in> set (group_of blake3 out b m cs) \<longleftrightarrow> count_list (group_of blake3 out b m cs) x \<noteq> 0" by (simp add: count_list_0_iff)
  also have "\<dots> \<longleftrightarrow> (\<exists>c \<in> set cs. child_sees out b x s c) \<or> (\<exists>c \<in> set cs. child_sees out b x (side_opposite s) c)"
    unfolding tiling_count [OF T s] by auto
  also have "\<dots> \<longleftrightarrow> (\<exists>s. \<exists>c \<in> set cs. child_sees out b x s c)" using child_sees_axis s axis_sides by metis
  finally show ?thesis .
qed

lemma outer_tally_ones:
  assumes T: "child_tiling b cs" and t: "tallies outer (group_of blake3 True b m cs)"
  shows "list_all (\<lambda>n. n = 1) (btree_values outer)"
proof -
  have "count_list (group_of blake3 True b m cs) x = 1" if h: "x \<in> set (group_of blake3 True b m cs)" for x
  proof -
    obtain s c where sc: "c \<in> set cs" "child_sees True b x s c" using h unfolding tiling_mem [OF T] by blast
    then have "\<not> (\<exists>c \<in> set cs. child_sees True b x (side_opposite s) c)" using outer_once [OF T sc(1) _ sc(2)] by blast
    then show ?thesis unfolding tiling_count [OF T child_sees_axis [OF sc(2)]] using sc by auto
  qed
  then show ?thesis using tallies_values(1) [OF t, of 1] by simp
qed

lemma inner_tally_twos:
  assumes T: "child_tiling b cs" and t: "tallies internal (group_of blake3 False b m cs)"
  shows "list_all (\<lambda>n. n = 2) (btree_values internal) \<longleftrightarrow> inner_agrees cs"
  unfolding inner_counts [OF T, symmetric]
proof (intro iffI allI impI)
  fix x s
  assume "list_all (\<lambda>n. n = 2) (btree_values internal)" and ex: "\<exists>c \<in> set cs. child_sees False b x s c"
  then have "count_list (group_of blake3 False b m cs) x = 2"
    using tallies_values(1) [OF t, of 2] tiling_mem [OF T, where x = x and out = False and m = m and ?blake3.0 = blake3] by auto
  then show "\<exists>c \<in> set cs. child_sees False b x (side_opposite s) c"
    using ex child_sees_axis tiling_count [OF T, where s = s and x = x and out = False and m = m and ?blake3.0 = blake3] by (auto simp: of_bool_def split: if_splits)
next
  assume r: "\<forall>x s. (\<exists>c \<in> set cs. child_sees False b x s c) \<longrightarrow> (\<exists>c \<in> set cs. child_sees False b x (side_opposite s) c)"
  have "count_list (group_of blake3 False b m cs) x = 2" if h: "x \<in> set (group_of blake3 False b m cs)" for x
  proof -
    obtain s where s: "\<exists>c \<in> set cs. child_sees False b x s c" using h unfolding tiling_mem [OF T] by blast
    then have "\<exists>c \<in> set cs. child_sees False b x (side_opposite s) c" using r by blast
    moreover have "side_axis s = bs_axis x" using s child_sees_axis by blast
    ultimately show ?thesis using s tiling_count [OF T, where s = s and x = x and out = False and m = m and ?blake3.0 = blake3] by (simp only: of_bool_eq)
  qed
  then show "list_all (\<lambda>n. n = 2) (btree_values internal)" using tallies_values(1) [OF t, of 2] by simp
qed

lemma parent_sample_mem:
  "x \<in> set (concat (map sc_samples (bc_sides (certificate_build blake3 b m)))) \<longleftrightarrow> (\<exists>s. x \<in> set (boundary_samples b s m))"
proof -
  have "x \<in> set (concat (map sc_samples (bc_sides (certificate_build blake3 b m)))) \<longleftrightarrow>
      (\<exists>s \<in> set boundary_sides. x \<in> set (boundary_samples b s m))"
    by (auto simp: certificate_build_def Let_def)
  moreover have "s \<in> set boundary_sides" for s by (cases s) (simp_all add: boundary_sides_def)
  ultimately show ?thesis by blast
qed

lemma outer_tally_keys:
  assumes T: "child_tiling b cs" and t: "tallies outer (group_of blake3 True b m cs)"
    and ps: "ps = concat (map sc_samples (bc_sides (certificate_build blake3 b m)))"
  shows "length (btree_set ps) = length outer \<and> btree_set ps = map fst outer \<longleftrightarrow> outer_agrees b m cs"
proof -
  have wf: "btree_wf outer" using t by (simp add: tallies_def)
  show ?thesis
    unfolding parent_samples_keys [OF wf] tallies_values(2) [OF t, of 1, simplified] set_eq_iff ps parent_sample_mem
      tiling_mem [OF T] outer_keys [OF T] ..
qed

text \<open>
  C38: replacing a page by its children. The certificates of a group of children pass the check
  against the parent's, whoever built them and whatever they saw, exactly when the children tile the
  parent, every child saw the parent's outer boundary as the parent did, and any two children saw
  the squares they share alike. The parent's volume must fit in \<open>u64\<close>.
\<close>

theorem child_group_exact:
  assumes ok: "bounds_ok b" "\<forall>c \<in> set cs. bounds_ok (fst c)" and v: "bounds_volume b \<noteq> None"
  shows "validates_child_group (certificate_build blake3 b m) (map (\<lambda>c. certificate_build blake3 (fst c) (snd c)) cs) \<longleftrightarrow>
    bounds_tile b (map fst cs) \<and> outer_agrees b m cs \<and> inner_agrees cs"
proof -
  let ?P = "certificate_build blake3 b m" and ?C = "seen_certificates blake3 cs"
  let ?ps = "concat (map sc_samples (bc_sides ?P))"
  obtain n where n: "bounds_volume b = Some n" using v by blast
  obtain outer internal where t: "tally_children ?P ?C = (outer, internal)" by (cases "tally_children ?P ?C")
  have to: "tallies outer (group_of blake3 True b m cs)" and ti: "tallies internal (group_of blake3 False b m cs)"
    using tally_children_tallies [of ?P ?C] t by simp_all
  have vol: "list_ex (\<lambda>child. \<not> contains_bounds (bc_bounds ?P) (bc_bounds child)) ?C \<longleftrightarrow> \<not> (\<forall>c \<in> set (map fst cs). contains_bounds b c)"
    "any_pair (\<lambda>a b. bounds_overlap (bc_bounds a) (bc_bounds b)) ?C \<longleftrightarrow> any_pair bounds_overlap (map fst cs)"
    by (auto simp: list_ex_iff any_pair_iff sorted_wrt_map)
  have sum: "List.map_filter (\<lambda>child. bounds_volume (bc_bounds child)) ?C = List.map_filter bounds_volume (map fst cs)"
    by (induction cs) (auto simp: List.map_filter_simps split: option.splits)
  have "validates_child_group ?P ?C \<longleftrightarrow> cs \<noteq> [] \<and> bounds_tile b (map fst cs) \<and>
      (length (btree_set ?ps) = length outer \<and> btree_set ?ps = map fst outer) \<and>
      list_all (\<lambda>n. n = 1) (btree_values outer) \<and> list_all (\<lambda>n. n = 2) (btree_values internal)"
    unfolding validates_child_group_def vol sum using volume_check [of b "map fst cs" n, OF ok(1) _ n] ok(2) n t
    by (auto simp: Let_def)
  moreover have "cs \<noteq> []" if "bounds_tile b (map fst cs)"
  proof -
    have "bounds_contains b (vb_min b)" using ok(1) by (simp add: bounds_contains_def bounds_ok_def)
    then show ?thesis using that by (auto simp: bounds_tile_def)
  qed
  moreover have "child_tiling b cs" if "bounds_tile b (map fst cs)" using that ok by (simp add: child_tiling_def)
  ultimately show ?thesis
    using outer_tally_keys [OF _ to refl] outer_tally_ones [OF _ to] inner_tally_twos [OF _ ti] by blast
qed

section \<open>Witnesses\<close>

definition sample_box :: "int \<Rightarrow> int \<Rightarrow> voxel_bounds" where
  "sample_box x0 x1 = \<lparr>vb_min = voxel_at x0 0 0, vb_max = voxel_at x1 1 1\<rparr>"

definition sample_world :: "voxel_coord \<Rightarrow> material" where
  "sample_world v = (if vy v < 1 then Stone else Air)"

lemma sample_box_ok: "-9 \<le> x0 \<Longrightarrow> x0 < x1 \<Longrightarrow> x1 \<le> 9 \<Longrightarrow> bounds_ok (sample_box x0 x1)"
  by (simp add: sample_box_def bounds_ok_def voxel_ok_def i32_ok_def)

theorem owned_faces_exact_witness:
  "exposed_face (voxel_at 0 0 0) Stone AxisY True \<in> set (directionally_owned_surface_faces (sample_box 0 1) sample_world)"
proof -
  have "visible_face sample_world (exposed_face (voxel_at 0 0 0) (sample_world (voxel_at 0 0 0)) AxisY True)"
    unfolding visible_face_def
    by (intro exI [of _ "voxel_at 0 0 0"] exI [of _ AxisY] exI [of _ True])
      (simp add: voxel_ok_def i32_ok_def sample_world_def i32_saturating_add_def material_face_is_visible_def)
  then show ?thesis
    using owned_faces_exact [OF sample_box_ok [of 0 1], of sample_world]
    by (simp add: owner_exposed sample_world_def sample_box_def bounds_contains_def)
qed

theorem matches_adjacent_exact_witness:
  "matches_adjacent (certificate_build (\<lambda>_. []) (sample_box 0 1) sample_world) PositiveX
     (certificate_build (\<lambda>_. []) (sample_box 1 2) sample_world)"
  using matches_adjacent_exact [OF sample_box_ok [of 0 1] sample_box_ok [of 1 2], of "\<lambda>_. []" sample_world PositiveX sample_world]
  by (simp add: sees_alike_def side_ranges_def sample_box_def)

theorem child_group_exact_witness:
  "validates_child_group (certificate_build (\<lambda>_. []) (sample_box 0 2) sample_world)
     [certificate_build (\<lambda>_. []) (sample_box 0 1) sample_world, certificate_build (\<lambda>_. []) (sample_box 1 2) sample_world]"
proof -
  let ?cs = "[(sample_box 0 1, sample_world), (sample_box 1 2, sample_world)]"
  have tile: "bounds_tile (sample_box 0 2) (map fst ?cs)"
    by (auto simp: bounds_tile_def sample_box_def contains_bounds_def bounds_contains_def)
  have "outer_agrees (sample_box 0 2) sample_world ?cs" "inner_agrees ?cs"
    by (auto simp: outer_agrees_def inner_agrees_def sees_alike_def)
  moreover have "bounds_volume (sample_box 0 2) \<noteq> None"
    by (simp add: bounds_volume_def sample_box_def u64_checked_mul_def)
  ultimately show ?thesis
    using child_group_exact [of "sample_box 0 2" ?cs "\<lambda>_. []" sample_world] tile
      sample_box_ok [of 0 2] sample_box_ok [of 0 1] sample_box_ok [of 1 2] by simp
qed

end
