(* ===== verification/Voxel_Source.thy ===== *)
theory Voxel_Source
  imports Edit_Queries Wire_Bytes
begin

text \<open>
  Blocks of generated voxels (\<open>world/src/source.rs\<close>): the request, the snapshot with its layout
  (x fastest, then y, then z), the procedural source's block generation over a sampler of single
  voxels, and the exchange the edit authority has with a source (\<open>source_voxel_block\<close>,
  \<open>world-service/src/edits.rs\<close>). The per-voxel generator is a parameter. The lemmas show that a
  served block samples exactly the generator inside its box and nothing outside.
\<close>

section \<open>Blocks\<close>

definition MAX_VOXEL_BLOCK_SAMPLES :: nat where "MAX_VOXEL_BLOCK_SAMPLES = 1048576"

datatype source_error =
    BatchTooLarge | InvalidChunkCoordinate | InvalidBlockCoordinate | EmptyBlock | BlockTooLarge
  | InvalidSearchRadius | SearchRadiusTooLarge | EmptyMacroBlock | MacroBlockTooLarge | MalformedMacroBlock
  | SourceCoverageUnavailable

record voxel_block_request =
  vq_min :: voxel_coord
  vq_sample_shape :: "nat \<times> nat \<times> nat"

record voxel_block_snapshot =
  bs_source_identity_hash :: "u8 list"
  bs_request :: voxel_block_request
  bs_materials :: "material list"

definition usize_checked_mul :: "nat \<Rightarrow> nat \<Rightarrow> nat option" where
  "usize_checked_mul a b = (if a * b < 2 ^ 64 then Some (a * b) else None)"

definition block_sample_count :: "nat \<times> nat \<times> nat \<Rightarrow> nat option" where
  "block_sample_count = (\<lambda>(width, height, depth).
     Option.bind (usize_checked_mul width height) (\<lambda>plane. usize_checked_mul plane depth))"

definition block_axis_is_representable :: "int \<Rightarrow> nat \<Rightarrow> bool" where
  "block_axis_is_representable origin sample_count \<longleftrightarrow> origin + int sample_count - 1 \<le> i32_max"

definition block_from_materials ::
    "u8 list \<Rightarrow> voxel_block_request \<Rightarrow> material list \<Rightarrow> voxel_block_snapshot option" where
  "block_from_materials source_identity_hash request materials =
     (case vq_sample_shape request of (width, height, depth) \<Rightarrow>
      Option.bind (block_sample_count (width, height, depth)) (\<lambda>sample_count.
      if sample_count > 0 \<and> sample_count \<le> MAX_VOXEL_BLOCK_SAMPLES \<and> length materials = sample_count \<and>
         block_axis_is_representable (vx (vq_min request)) width \<and>
         block_axis_is_representable (vy (vq_min request)) height \<and>
         block_axis_is_representable (vz (vq_min request)) depth
      then Some \<lparr>bs_source_identity_hash = source_identity_hash, bs_request = request, bs_materials = materials\<rparr>
      else None))"

definition block_sample :: "voxel_block_snapshot \<Rightarrow> voxel_coord \<Rightarrow> material option" where
  "block_sample snapshot coord =
     (let dx = vx coord - vx (vq_min (bs_request snapshot)); dy = vy coord - vy (vq_min (bs_request snapshot));
          dz = vz coord - vz (vq_min (bs_request snapshot)) in
      case vq_sample_shape (bs_request snapshot) of (width, height, depth) \<Rightarrow>
      if dx < 0 \<or> dy < 0 \<or> dz < 0 \<or> dx \<ge> int width \<or> dy \<ge> int height \<or> dz \<ge> int depth then None
      else
        let index = dx + dy * int width + dz * int width * int height in
        if nat index < length (bs_materials snapshot) then Some (bs_materials snapshot ! nat index) else None)"

text \<open>The procedural source over its region sampler.\<close>

definition voxel_block ::
    "u8 list \<Rightarrow> (int \<Rightarrow> int \<Rightarrow> int \<Rightarrow> material) \<Rightarrow> voxel_block_request \<Rightarrow> source_error + voxel_block_snapshot" where
  "voxel_block source_identity_hash region_sample request =
     (case vq_sample_shape request of (width, height, depth) \<Rightarrow>
      if width = 0 \<or> height = 0 \<or> depth = 0 then Inl EmptyBlock else
      attempt (ok_or BlockTooLarge (block_sample_count (width, height, depth))) (\<lambda>sample_count.
      if sample_count > MAX_VOXEL_BLOCK_SAMPLES \<or> \<not> block_axis_is_representable (vx (vq_min request)) width \<or>
         \<not> block_axis_is_representable (vy (vq_min request)) height \<or>
         \<not> block_axis_is_representable (vz (vq_min request)) depth
      then Inl (if sample_count > MAX_VOXEL_BLOCK_SAMPLES then BlockTooLarge else InvalidBlockCoordinate)
      else
        let materials = concat (map (\<lambda>z. concat (map (\<lambda>y. map (\<lambda>x.
              region_sample (vx (vq_min request) + int x) (vy (vq_min request) + int y) (vz (vq_min request) + int z))
              [0..<width]) [0..<height])) [0..<depth]) in
        Inr \<lparr>bs_source_identity_hash = source_identity_hash, bs_request = request, bs_materials = materials\<rparr>))"

section \<open>The exchange with a source\<close>

text \<open>
  A source answers a batch of product requests with keyed results. Products and requests of other
  kinds than voxel blocks are one constructor each: the edit path only distinguishes them from its
  own.
\<close>

datatype product_request = RequestVoxelBlock voxel_block_request | RequestOther

datatype world_product = ProductVoxelBlock voxel_block_snapshot | ProductOther

record batch_result =
  ba_source_identity_hash :: "u8 list"
  ba_items :: "(product_request \<times> (source_error + world_product)) list"

record world_source =
  ws_identity_hash :: "u8 list"
  ws_generate_batch :: "product_request list \<Rightarrow> source_error + batch_result"

datatype authority_error =
    AuthorityError string
  | SourceFailure source_error
  | AuthorityPanic

definition source_voxel_block ::
    "world_source \<Rightarrow> voxel_coord \<Rightarrow> nat \<times> nat \<times> nat \<Rightarrow> authority_error + voxel_block_snapshot" where
  "source_voxel_block source minimum sample_shape =
     (let request = \<lparr>vq_min = minimum, vq_sample_shape = sample_shape\<rparr> in
      case ws_generate_batch source [RequestVoxelBlock request] of
        Inl error \<Rightarrow> Inl (SourceFailure error)
      | Inr result \<Rightarrow>
          if ba_source_identity_hash result \<noteq> ws_identity_hash source \<or> length (ba_items result) \<noteq> 1
          then Inl (AuthorityError ''world source returned a mismatched edit sample batch'')
          else case ba_items result of
              [] \<Rightarrow> Inl (AuthorityError ''world source omitted an edit sample'')
            | item # _ \<Rightarrow>
                (case item of
                   (_, Inl error) \<Rightarrow> Inl (SourceFailure error)
                 | (RequestVoxelBlock returned, Inr (ProductVoxelBlock snapshot)) \<Rightarrow>
                     if returned = request \<and> bs_request snapshot = request \<and>
                        bs_source_identity_hash snapshot = ws_identity_hash source
                     then Inr snapshot
                     else Inl (AuthorityError ''world source returned a mismatched edit sample'')
                 | _ \<Rightarrow> Inl (AuthorityError ''world source returned a mismatched edit sample'')))"

definition MAX_WORLD_PRODUCT_BATCH :: nat where "MAX_WORLD_PRODUCT_BATCH = 256"

text \<open>The procedural source, for batches of voxel blocks.\<close>

definition procedural_generate_batch ::
    "u8 list \<Rightarrow> (int \<Rightarrow> int \<Rightarrow> int \<Rightarrow> material) \<Rightarrow> product_request list \<Rightarrow> source_error + batch_result" where
  "procedural_generate_batch identity_hash region_sample requests =
     (if length requests > MAX_WORLD_PRODUCT_BATCH then Inl BatchTooLarge
      else Inr \<lparr>ba_source_identity_hash = identity_hash,
        ba_items = map (\<lambda>request. (request, case request of
            RequestVoxelBlock block \<Rightarrow> map_sum id ProductVoxelBlock (voxel_block identity_hash region_sample block)
          | RequestOther \<Rightarrow> Inr ProductOther)) requests\<rparr>)"

definition procedural_source :: "u8 list \<Rightarrow> (int \<Rightarrow> int \<Rightarrow> int \<Rightarrow> material) \<Rightarrow> world_source" where
  "procedural_source identity_hash region_sample =
     \<lparr>ws_identity_hash = identity_hash, ws_generate_batch = procedural_generate_batch identity_hash region_sample\<rparr>"

section \<open>What a served block holds\<close>

lemma sample_count_Some:
  "block_sample_count (w, h, d) = Some n \<longleftrightarrow> w * h < 2 ^ 64 \<and> w * h * d < 2 ^ 64 \<and> n = w * h * d"
  by (auto simp: block_sample_count_def usize_checked_mul_def bind_eq_Some_conv)

lemma length_nested: "(\<And>k. k < n \<Longrightarrow> length (f k) = m) \<Longrightarrow> length (concat (map f [0..<n])) = n * m"
  by (induction n) auto

lemma nested_nth:
  assumes "\<And>k. k < n \<Longrightarrow> length (f k) = m" "i < m" "j < n"
  shows "concat (map f [0..<n]) ! (i + j * m) = f j ! i"
  using assms
proof (induction n)
  case (Suc n)
  have len: "length (concat (map f [0..<n])) = n * m" using Suc.prems(1) by (intro length_nested) simp
  show ?case
  proof (cases "j < n")
    case True
    have "i + j * m < Suc j * m" using Suc.prems(2) by simp
    also have "\<dots> \<le> n * m" using True by (intro mult_le_mono1) simp
    finally show ?thesis using Suc.IH Suc.prems True by (simp add: nth_append len)
  next
    case False
    then have "j = n" using Suc.prems(3) by simp
    then show ?thesis using Suc.prems by (simp add: nth_append len)
  qed
qed simp

definition in_block :: "voxel_block_request \<Rightarrow> voxel_coord \<Rightarrow> bool" where
  "in_block r c \<longleftrightarrow> (case vq_sample_shape r of (w, h, d) \<Rightarrow>
     vx (vq_min r) \<le> vx c \<and> vx c < vx (vq_min r) + int w \<and> vy (vq_min r) \<le> vy c \<and> vy c < vy (vq_min r) + int h \<and>
     vz (vq_min r) \<le> vz c \<and> vz c < vz (vq_min r) + int d)"

lemma voxel_block_samples:
  assumes "voxel_block h g r = Inr b"
  shows "bs_request b = r \<and> bs_source_identity_hash b = h \<and>
    block_sample b c = (if in_block r c then Some (g (vx c) (vy c) (vz c)) else None)"
proof -
  obtain w ht d where s: "vq_sample_shape r = (w, ht, d)" by (cases "vq_sample_shape r")
  let ?g = "\<lambda>x y z. g (vx (vq_min r) + int x) (vy (vq_min r) + int y) (vz (vq_min r) + int z)"
  let ?row = "\<lambda>z y. map (\<lambda>x. ?g x y z) [0..<w]"
  let ?plane = "\<lambda>z. concat (map (?row z) [0..<ht])"
  let ?ms = "concat (map ?plane [0..<d])"
  have b: "b = \<lparr>bs_source_identity_hash = h, bs_request = r, bs_materials = ?ms\<rparr>"
    using assms by (auto simp: voxel_block_def s Let_def split: if_splits)
  show ?thesis
  proof (cases "in_block r c")
    case True
    define x y z where "x = nat (vx c - vx (vq_min r))" and "y = nat (vy c - vy (vq_min r))" and "z = nat (vz c - vz (vq_min r))"
    have xyz: "x < w" "y < ht" "z < d" "vx c = vx (vq_min r) + int x" "vy c = vy (vq_min r) + int y" "vz c = vz (vq_min r) + int z"
      using True by (auto simp: in_block_def s x_def y_def z_def)
    have plane: "length (?plane k) = ht * w" "?plane k ! (x + y * w) = ?g x y k" for k
      using nested_nth [of ht "?row k" w x y] length_nested [of ht "?row k" w] xyz by simp_all
    have pos: "x + y * w < ht * w"
    proof -
      have "x + y * w < Suc y * w" using xyz by simp
      also have "\<dots> \<le> ht * w" using xyz by (intro mult_le_mono1) simp
      finally show ?thesis .
    qed
    have all: "?ms ! (x + y * w + z * (ht * w)) = ?g x y z" "length ?ms = d * (ht * w)"
      using nested_nth [of d ?plane "ht * w" "x + y * w" z] length_nested [of d ?plane "ht * w"] plane pos xyz by simp_all
    have "x + y * w + z * (ht * w) < Suc z * (ht * w)" using pos by simp
    also have "\<dots> \<le> d * (ht * w)" using xyz by (intro mult_le_mono1) simp
    finally have bound: "x + y * w + z * (ht * w) < length ?ms" unfolding all(2) .
    have index: "nat (int x + int y * int w + int z * int w * int ht) = x + y * w + z * (ht * w)"
      by (simp add: nat_eq_iff algebra_simps)
    have "block_sample b c = Some (?g x y z)"
      unfolding block_sample_def b Let_def
      using xyz index bound all(1) by (simp add: s)
    then show ?thesis using True xyz(4-6) by (simp add: b)
  next
    case False
    then show ?thesis by (auto simp: b block_sample_def in_block_def s Let_def)
  qed
qed

text \<open>
  A source serves a generator when every voxel block it answers holds the generator's voxels. The
  procedural source serves its sampler.
\<close>

definition serves :: "world_source \<Rightarrow> (voxel_coord \<Rightarrow> material) \<Rightarrow> bool" where
  "serves source g \<longleftrightarrow> (\<forall>minimum shape b. source_voxel_block source minimum shape = Inr b \<longrightarrow>
     (\<forall>c. block_sample b c =
        (if in_block \<lparr>vq_min = minimum, vq_sample_shape = shape\<rparr> c then Some (g c) else None)))"

lemma serves_sample:
  "serves source g \<Longrightarrow> source_voxel_block source minimum shape = Inr b \<Longrightarrow>
   block_sample b c = (if in_block \<lparr>vq_min = minimum, vq_sample_shape = shape\<rparr> c then Some (g c) else None)"
  unfolding serves_def by blast

lemma procedural_block:
  "source_voxel_block (procedural_source h g) minimum shape =
     map_sum SourceFailure id (voxel_block h g \<lparr>vq_min = minimum, vq_sample_shape = shape\<rparr>)"
  using voxel_block_samples [of h g "\<lparr>vq_min = minimum, vq_sample_shape = shape\<rparr>"]
  by (cases "voxel_block h g \<lparr>vq_min = minimum, vq_sample_shape = shape\<rparr>")
    (auto simp: source_voxel_block_def procedural_source_def procedural_generate_batch_def MAX_WORLD_PRODUCT_BATCH_def Let_def)

lemma procedural_serves: "serves (procedural_source h g) (\<lambda>c. g (vx c) (vy c) (vz c))"
  unfolding serves_def procedural_block
proof (intro allI impI)
  fix minimum shape b c
  assume "map_sum SourceFailure id (voxel_block h g \<lparr>vq_min = minimum, vq_sample_shape = shape\<rparr>) = Inr b"
  then have "voxel_block h g \<lparr>vq_min = minimum, vq_sample_shape = shape\<rparr> = Inr b"
    by (cases "voxel_block h g \<lparr>vq_min = minimum, vq_sample_shape = shape\<rparr>") auto
  then show "block_sample b c =
      (if in_block \<lparr>vq_min = minimum, vq_sample_shape = shape\<rparr> c then Some (g (vx c) (vy c) (vz c)) else None)"
    using voxel_block_samples by blast
qed

text \<open>The blocks the editor asks for are always served: a stencil fits the limits of a block.\<close>

lemma procedural_available:
  assumes "0 < w" "w \<le> 64" "0 < ht" "ht \<le> 64" "0 < d" "d \<le> 64"
    and "vx m + int w - 1 \<le> i32_max" "vy m + int ht - 1 \<le> i32_max" "vz m + int d - 1 \<le> i32_max"
  shows "\<exists>b. source_voxel_block (procedural_source h g) m (w, ht, d) = Inr b"
proof -
  have plane: "w * ht \<le> 64 * 64" using assms by (intro mult_le_mono)
  then have "w * ht * d \<le> 64 * 64 * 64" using assms(6) by (rule mult_le_mono)
  then have n: "block_sample_count (w, ht, d) = Some (w * ht * d)" "w * ht * d \<le> MAX_VOXEL_BLOCK_SAMPLES"
    using plane by (simp_all add: sample_count_Some MAX_VOXEL_BLOCK_SAMPLES_def)
  have "\<exists>b. voxel_block h g \<lparr>vq_min = m, vq_sample_shape = (w, ht, d)\<rparr> = Inr b"
    using assms n by (simp add: voxel_block_def block_axis_is_representable_def Let_def)
  then show ?thesis unfolding procedural_block by auto
qed

end
