(* ===== verification/Edit_Outcome.thy ===== *)
theory Edit_Outcome
  imports Edit_Messages Edit_Codec Voxel_Source
begin

text \<open>
  The durable receipt of an edit (\<open>world-service/src/edits.rs\<close>): the action columns and the compact
  outcome blob, whose coordinates are zigzag varints of the differences along a strictly sorted
  list. The lemmas show that whatever an edit stores is read back.
\<close>

unbundle bit_operations_syntax

section \<open>Varints and zigzag\<close>

fun push_varint :: "nat \<Rightarrow> u8 list" where
  "push_varint value =
     (if value \<ge> 128 then ((of_nat value AND 127) OR 128) # push_varint (value div 128) else [of_nat value])"

declare push_varint.simps [simp del]

definition zigzag_encode :: "64 word \<Rightarrow> u64" where
  "zigzag_encode value = push_bit 1 value XOR signed_drop_bit 63 value"

definition zigzag_decode :: "u64 \<Rightarrow> 64 word" where
  "zigzag_decode value = drop_bit 1 value XOR (- (value AND 1))"

fun varint_from :: "nat list \<Rightarrow> nat \<Rightarrow> cursor \<Rightarrow> authority_error + (nat \<times> cursor)" where
  "varint_from [] value c = Inl (AuthorityError ''durable operation outcome has an unterminated varint'')"
| "varint_from (shift # shifts) value c =
     attempt (cursor_u8 (AuthorityError ''durable operation outcome is truncated'') c) (\<lambda>(byte, c).
     let payload = unat (byte AND 127) in
     if shift = 63 \<and> payload > 1 then Inl (AuthorityError ''durable operation outcome has an overflowing varint'')
     else
       let value = value OR push_bit shift payload in
       if byte AND 128 = 0 then Inr (value, c) else varint_from shifts value c)"

definition outcome_varint :: "cursor \<Rightarrow> authority_error + (nat \<times> cursor)" where
  "outcome_varint c = varint_from (map ((*) 7) [0..<10]) 0 c"

section \<open>Coordinates\<close>

fun push_coord_deltas :: "int list \<Rightarrow> int list \<Rightarrow> u8 list" where
  "push_coord_deltas (p # previous) (c # current) =
     push_varint (unat (zigzag_encode (word_of_int (c - p)))) @ push_coord_deltas previous current"
| "push_coord_deltas _ _ = []"

definition i64_checked_add :: "int \<Rightarrow> int \<Rightarrow> int option" where
  "i64_checked_add a b = (if - (2 ^ 63) \<le> a + b \<and> a + b < 2 ^ 63 then Some (a + b) else None)"

fun coord_deltas :: "int list \<Rightarrow> cursor \<Rightarrow> authority_error + (int list \<times> cursor)" where
  "coord_deltas [] c = Inr ([], c)"
| "coord_deltas (p # previous) c =
     attempt (outcome_varint c) (\<lambda>(delta, c).
     attempt (ok_or (AuthorityError ''durable operation outcome coordinate overflowed'')
       (Option.bind (i64_checked_add p (sint (zigzag_decode (of_nat delta)))) i32_try)) (\<lambda>value.
     attempt (coord_deltas previous c) (\<lambda>(rest, c). Inr (value # rest, c))))"

definition voxel_array :: "voxel_coord \<Rightarrow> int list" where
  "voxel_array v = [vx v, vy v, vz v]"

definition chunk_array :: "chunk_coord \<Rightarrow> int list" where
  "chunk_array c = [cx c, cy c, cz c]"

section \<open>The outcome\<close>

definition OPERATION_OUTCOME_MAGIC :: "u8 list" where "OPERATION_OUTCOME_MAGIC = ascii ''VXEO''"
definition OPERATION_OUTCOME_VERSION :: u8 where "OPERATION_OUTCOME_VERSION = 2"
definition OPERATION_OUTCOME_HEADER_BYTES :: nat where "OPERATION_OUTCOME_HEADER_BYTES = 10"

definition validate_outcome_collections :: "voxel_mutation list \<Rightarrow> chunk_coord list \<Rightarrow> authority_error + unit" where
  "validate_outcome_collections mutations chunks =
     (if length mutations > MAX_EDIT_MUTATIONS \<or> length chunks > MAX_EDIT_AFFECTED_CHUNKS
      then Inl (AuthorityError ''operation outcome exceeds protocol bounds'')
      else if \<not> strictly_sorted (map vm_coord mutations) \<or> \<not> strictly_sorted chunks
      then Inl (AuthorityError ''operation outcome coordinates are not strictly sorted'')
      else Inr ())"

fun encode_outcome_mutations :: "int list \<Rightarrow> voxel_mutation list \<Rightarrow> u8 list" where
  "encode_outcome_mutations previous [] = []"
| "encode_outcome_mutations previous (mutation # mutations) =
     push_coord_deltas previous (voxel_array (vm_coord mutation)) @ [of_nat (material_id (vm_material mutation))] @
     encode_outcome_mutations (voxel_array (vm_coord mutation)) mutations"

fun encode_outcome_chunks :: "int list \<Rightarrow> chunk_coord list \<Rightarrow> u8 list" where
  "encode_outcome_chunks previous [] = []"
| "encode_outcome_chunks previous (chunk # chunks) =
     push_coord_deltas previous (chunk_array chunk) @ encode_outcome_chunks (chunk_array chunk) chunks"

definition encode_operation_outcome :: "voxel_mutation list \<Rightarrow> chunk_coord list \<Rightarrow> authority_error + u8 list" where
  "encode_operation_outcome mutations chunks =
     attempt (validate_outcome_collections mutations chunks) (\<lambda>_.
     if length mutations > u16_max then Inl (AuthorityError ''operation mutation count exceeds u16'')
     else if length chunks > u16_max then Inl (AuthorityError ''operation chunk count exceeds u16'')
     else Inr (OPERATION_OUTCOME_MAGIC @ [OPERATION_OUTCOME_VERSION, 0] @ u16_le (length mutations) @
       u16_le (length chunks) @ encode_outcome_mutations [0, 0, 0] mutations @ encode_outcome_chunks [0, 0, 0] chunks))"

definition decode_material :: "nat \<Rightarrow> authority_error + material" where
  "decode_material i = ok_or (AuthorityError ''unknown durable material id'') (material_from_id i)"

fun decode_outcome_mutations ::
    "nat \<Rightarrow> int list \<Rightarrow> cursor \<Rightarrow> authority_error + (voxel_mutation list \<times> cursor)" where
  "decode_outcome_mutations 0 previous c = Inr ([], c)"
| "decode_outcome_mutations (Suc k) previous c =
     attempt (coord_deltas previous c) (\<lambda>(current, c).
     attempt (cursor_u8 (AuthorityError ''durable operation outcome is truncated'') c) (\<lambda>(byte, c).
     attempt (decode_material (unat byte)) (\<lambda>material.
     attempt (decode_outcome_mutations k current c) (\<lambda>(mutations, c).
       Inr (\<lparr>vm_coord = voxel_at (current ! 0) (current ! 1) (current ! 2), vm_material = material\<rparr> # mutations, c)))))"

fun decode_outcome_chunks :: "nat \<Rightarrow> int list \<Rightarrow> cursor \<Rightarrow> authority_error + (chunk_coord list \<times> cursor)" where
  "decode_outcome_chunks 0 previous c = Inr ([], c)"
| "decode_outcome_chunks (Suc k) previous c =
     attempt (coord_deltas previous c) (\<lambda>(current, c).
     let chunk = chunk_at (current ! 0) (current ! 1) (current ! 2) in
     if \<not> is_world_representable chunk
     then Inl (AuthorityError ''durable operation outcome contains an invalid chunk'')
     else attempt (decode_outcome_chunks k current c) (\<lambda>(chunks, c). Inr (chunk # chunks, c)))"

definition decode_operation_outcome :: "u8 list \<Rightarrow> authority_error + (voxel_mutation list \<times> chunk_coord list)" where
  "decode_operation_outcome bytes =
     (if length bytes < OPERATION_OUTCOME_HEADER_BYTES \<or> take 4 bytes \<noteq> OPERATION_OUTCOME_MAGIC \<or>
         bytes ! 4 \<noteq> OPERATION_OUTCOME_VERSION \<or> bytes ! 5 \<noteq> 0
      then Inl (AuthorityError ''durable operation outcome has an invalid envelope'')
      else
        let mutation_count = from_le [bytes ! 6, bytes ! 7]; chunk_count = from_le [bytes ! 8, bytes ! 9] in
        if mutation_count > MAX_EDIT_MUTATIONS \<or> chunk_count > MAX_EDIT_AFFECTED_CHUNKS
        then Inl (AuthorityError ''durable operation outcome exceeds protocol bounds'')
        else
          attempt (decode_outcome_mutations mutation_count [0, 0, 0]
            \<lparr>cur_bytes = bytes, cur_offset = OPERATION_OUTCOME_HEADER_BYTES\<rparr>) (\<lambda>(mutations, c).
          attempt (decode_outcome_chunks chunk_count [0, 0, 0] c) (\<lambda>(chunks, c).
          if cur_offset c \<noteq> length bytes
          then Inl (AuthorityError ''durable operation outcome contains trailing bytes'')
          else attempt (validate_outcome_collections mutations chunks) (\<lambda>_. Inr (mutations, chunks)))))"

section \<open>The action columns\<close>

fun encode_action :: "edit_action \<Rightarrow> nat \<times> voxel_coord \<times> nat" where
  "encode_action (ActionDig hit ShapeSphere) = (1, hit, 0)"
| "encode_action (ActionPlace coord material ShapeSphere) = (2, coord, material_id material)"
| "encode_action (ActionDig hit ShapeCube) = (3, hit, 0)"
| "encode_action (ActionPlace coord material ShapeCube) = (4, coord, material_id material)"

definition decode_action :: "nat \<Rightarrow> voxel_coord \<Rightarrow> nat \<Rightarrow> authority_error + edit_action" where
  "decode_action action coord argument =
     (if action = 1 \<or> action = 3 then
        if argument = 0 then Inr (ActionDig coord (if action = 1 then ShapeSphere else ShapeCube))
        else Inl (AuthorityError ''durable dig operation has a nonzero material'')
      else if action = 2 \<or> action = 4 then
        attempt (decode_material argument) (\<lambda>material.
        if material = Air then Inl (AuthorityError ''durable placement operation contains Air'')
        else Inr (ActionPlace coord material (if action = 2 then ShapeSphere else ShapeCube)))
      else Inl (AuthorityError ''durable edit operation has an invalid action''))"

section \<open>What is stored is read back\<close>

lemma push_varint_u64: "push_varint v = push_var_u64 v"
proof (induction v rule: less_induct)
  case (less v)
  show ?case using less.IH [of "v div 128"] by (simp add: push_varint.simps [of v] push_var_u64.simps [of v])
qed

lemma zigzag_bit: "bit (zigzag_encode v) n \<longleftrightarrow> n < 64 \<and> ((1 \<le> n \<and> bit v (n - 1)) \<noteq> bit v 63)"
proof -
  have "bit (signed_drop_bit 63 v) n \<longleftrightarrow> n < 64 \<and> bit v 63"
    using bit_imp_le_length [of v "63 + n"] by (cases "n = 0") (auto simp: bit_signed_drop_bit_iff)
  moreover have "bit (push_bit 1 v) n \<longleftrightarrow> n < 64 \<and> 1 \<le> n \<and> bit v (n - 1)"
    by (auto simp only: bit_push_bit_iff possible_bit_word) simp_all
  ultimately show ?thesis by (auto simp only: zigzag_encode_def bit_xor_iff)
qed

lemma zigzag_roundtrip: "zigzag_decode (zigzag_encode v) = v"
proof (rule bit_word_eqI)
  fix n assume "n < LENGTH(64)"
  then have n: "n < 64" by simp
  have "bit (zigzag_encode v AND 1) k \<longleftrightarrow> bit (of_bool (bit v 63) :: u64) k" for k
    by (cases k) (simp_all add: bit_and_iff zigzag_bit bit_1_iff bit_of_bool_iff)
  then have low: "zigzag_encode v AND 1 = of_bool (bit v 63)" by (intro bit_eqI)
  have "bit (- (of_bool (bit v 63) :: u64)) n \<longleftrightarrow> bit v 63" using n by simp
  then show "bit (zigzag_decode (zigzag_encode v)) n \<longleftrightarrow> bit v n"
    using n bit_imp_le_length [of v n]
    by (cases "n = 63") (auto simp: zigzag_decode_def low bit_xor_iff bit_drop_bit_eq zigzag_bit)
qed

lemma seven_shifts: "map ((*) 7) [0..<10] = [0, 7, 14, 21, 28, 35, 42, 49, 56, 63]"
  by (simp add: upt_rec)

lemma varint_from_read:
  assumes "acc < 128 ^ k" "k + n = 10" "n > 0" "acc + w * 128 ^ k < 2 ^ 64"
  shows "varint_from (map ((*) 7) [k..<10]) acc (cursor_at pre (push_var_u64 w @ ys)) =
    Inr (acc + w * 128 ^ k, cursor_at (pre @ push_var_u64 w) ys)"
  using assms
proof (induction n arbitrary: k acc w pre)
  case (Suc n)
  have upt: "[k..<10] = k # [Suc k..<10]" using Suc.prems(2) by (simp add: upt_rec)
  obtain b bs where b: "push_var_u64 w = b # bs"
    by (cases "w < 128") (simp_all add: push_var_small push_var_big)
  note cons = push_var_cons [of b "bs @ ys" w ys, unfolded b append_Cons, simplified]
  have or: "acc OR push_bit (7 * k) (unat b mod 128) = acc + unat b mod 128 * 128 ^ k"
    using or_shift [OF Suc.prems(1)] by (simp add: mult.commute)
  have top: "\<not> (7 * k = 63 \<and> unat b mod 128 > 1)"
  proof
    assume t: "7 * k = 63 \<and> unat b mod 128 > 1"
    then have "k = 9" by simp
    have "unat b mod 128 \<le> w" using cons by (auto split: if_splits)
    then have "2 * 128 ^ 9 \<le> acc + w * 128 ^ k" using t \<open>k = 9\<close> by simp
    then show False using Suc.prems(4) by simp
  qed
  have step: "varint_from (map ((*) 7) [k..<10]) acc (cursor_at pre (push_var_u64 w @ ys)) =
      (if unat b < 128 then Inr (acc + unat b mod 128 * 128 ^ k, cursor_at (pre @ [b]) (bs @ ys))
       else varint_from (map ((*) 7) [Suc k..<10]) (acc + unat b mod 128 * 128 ^ k) (cursor_at (pre @ [b]) (bs @ ys)))"
    unfolding upt b list.map varint_from.simps append_Cons cursor_reads_at(1) attempt.simps prod.case Let_def
      low_bits high_bit or by (simp only: top if_False)
  show ?case
  proof (cases "unat b < 128")
    case True
    then have "w = unat b" "bs = []" using cons by auto
    then show ?thesis unfolding step using True b by simp
  next
    case False
    then have w: "128 \<le> w" "unat b mod 128 = w mod 128" "bs = push_var_u64 (w div 128)"
      using cons by (auto simp: mod_add_self2 dest: arg_cong [where f = "\<lambda>x. x mod 128"])
    have split: "acc + w * 128 ^ k = (acc + w mod 128 * 128 ^ k) + w div 128 * 128 ^ Suc k"
    proof -
      have "w = w div 128 * 128 + w mod 128" by simp
      then have "w * 128 ^ k = (w div 128 * 128 + w mod 128) * 128 ^ k" by (rule arg_cong)
      then show ?thesis by (simp only: algebra_simps power_Suc)
    qed
    have "w mod 128 * 128 ^ k \<le> 127 * 128 ^ k" by (intro mult_le_mono1) simp
    then have "acc + w mod 128 * 128 ^ k < 128 ^ k + 127 * 128 ^ k" using Suc.prems(1) by linarith
    then have acc: "acc + w mod 128 * 128 ^ k < 128 ^ Suc k" by simp
    have "n > 0"
    proof (rule ccontr)
      assume "\<not> n > 0"
      then have "k = 9" using Suc.prems(2) by simp
      then have "128 * 128 ^ 9 \<le> acc + w * 128 ^ k" using w(1) by simp
      then show False using Suc.prems(4) by simp
    qed
    then have "varint_from (map ((*) 7) [Suc k..<10]) (acc + w mod 128 * 128 ^ k)
        (cursor_at (pre @ [b]) (push_var_u64 (w div 128) @ ys)) =
        Inr (acc + w * 128 ^ k, cursor_at ((pre @ [b]) @ push_var_u64 (w div 128)) ys)"
      using Suc.IH [OF acc, of "w div 128" "pre @ [b]"] Suc.prems(2,4) unfolding split by simp
    then show ?thesis unfolding step using False w b by simp
  qed
qed simp

lemma outcome_varint_read:
  "v < 2 ^ 64 \<Longrightarrow> outcome_varint (cursor_at pre (push_varint v @ ys)) = Inr (v, cursor_at (pre @ push_varint v) ys)"
  using varint_from_read [of 0 0 10 v pre ys] by (simp add: outcome_varint_def push_varint_u64)

lemma delta_roundtrip:
  assumes "i32_ok p" "i32_ok c"
  shows "Option.bind (i64_checked_add p (sint (zigzag_decode (of_nat (unat (zigzag_encode (word_of_int (c - p)))))))) i32_try =
    Some c"
proof -
  have "sint (word_of_int (c - p) :: 64 word) = c - p"
    unfolding signed_of_int using assms by (simp add: i32_ok_def signed_take_bit_int_eq_self)
  then show ?thesis using assms by (simp add: zigzag_roundtrip i64_checked_add_def i32_ok_def)
qed

definition array_ok :: "int list \<Rightarrow> bool" where
  "array_ok xs \<longleftrightarrow> list_all i32_ok xs"

lemma coord_deltas_read:
  assumes "length previous = length current" "array_ok previous" "array_ok current"
  shows "coord_deltas previous (cursor_at pre (push_coord_deltas previous current @ ys)) =
    Inr (current, cursor_at (pre @ push_coord_deltas previous current) ys)"
  using assms
proof (induction previous current arbitrary: pre rule: list_induct2)
  case (Cons p previous c current)
  have "unat (zigzag_encode (word_of_int (c - p))) < 2 ^ 64"
    using unsigned_less [where ?'a = nat, of "zigzag_encode (word_of_int (c - p))"] by simp
  note v = outcome_varint_read [OF this]
  have d: "Option.bind (i64_checked_add p (sint (zigzag_decode (of_nat (unat (zigzag_encode (word_of_int (c - p)))))))) i32_try =
      Some c" using Cons.prems by (intro delta_roundtrip) (simp_all add: array_ok_def)
  have rest: "array_ok previous" "array_ok current" using Cons.prems by (simp_all add: array_ok_def)
  show ?case
    unfolding push_coord_deltas.simps(1) append_assoc coord_deltas.simps(2) v attempt.simps prod.case d ok_or_simps
      Cons.IH [OF rest, of "pre @ push_varint (unat (zigzag_encode (word_of_int (c - p))))", unfolded append_assoc]
    by (rule refl)
qed simp

lemma arrays_ok: "voxel_ok v \<Longrightarrow> array_ok (voxel_array v)" "chunk_ok c \<Longrightarrow> array_ok (chunk_array c)" "array_ok [0, 0, 0]"
  by (simp_all add: array_ok_def voxel_array_def chunk_array_def voxel_ok_def chunk_ok_def i32_ok_def)

lemma array_lengths [simp]: "length (voxel_array v) = 3" "length (chunk_array c) = 3"
  by (simp_all add: voxel_array_def chunk_array_def)

lemma array_coords [simp]:
  "voxel_at (voxel_array v ! 0) (voxel_array v ! Suc 0) (voxel_array v ! 2) = v"
  "chunk_at (chunk_array c ! 0) (chunk_array c ! Suc 0) (chunk_array c ! 2) = c"
  by (simp_all add: voxel_array_def chunk_array_def)

lemma material_byte: "decode_material (unat (of_nat (material_id m) :: u8)) = Inr m"
proof -
  have "unat (of_nat (material_id m) :: u8) = material_id m" using material_ids(2) [of m] by (intro byte_unat) simp
  then show ?thesis by (simp only: decode_material_def) (simp add: material_ids)
qed

lemma decode_mutations_read:
  assumes "list_all (\<lambda>m. voxel_ok (vm_coord m)) ms" "array_ok previous" "length previous = 3"
  shows "decode_outcome_mutations (length ms) previous (cursor_at pre (encode_outcome_mutations previous ms @ ys)) =
    Inr (ms, cursor_at (pre @ encode_outcome_mutations previous ms) ys)"
  using assms
proof (induction ms arbitrary: previous pre)
  case (Cons m ms)
  let ?current = "voxel_array (vm_coord m)"
  have cur: "array_ok ?current" using Cons.prems by (simp add: arrays_ok)
  have read: "coord_deltas previous (cursor_at pre (push_coord_deltas previous ?current @ zs)) =
      Inr (?current, cursor_at (pre @ push_coord_deltas previous ?current) zs)" for pre zs
    using Cons.prems cur by (intro coord_deltas_read) simp_all
  have IH: "decode_outcome_mutations (length ms) ?current (cursor_at pre (encode_outcome_mutations ?current ms @ ys)) =
      Inr (ms, cursor_at (pre @ encode_outcome_mutations ?current ms) ys)" for pre
    using Cons.prems by (intro Cons.IH cur) simp_all
  show ?case by (simp add: read IH cursor_reads_at(1) material_byte del: try_Inr)
qed simp

lemma decode_chunks_read:
  assumes "list_all is_world_representable cs" "array_ok previous" "length previous = 3"
  shows "decode_outcome_chunks (length cs) previous (cursor_at pre (encode_outcome_chunks previous cs @ ys)) =
    Inr (cs, cursor_at (pre @ encode_outcome_chunks previous cs) ys)"
  using assms
proof (induction cs arbitrary: previous pre)
  case (Cons c cs)
  let ?current = "chunk_array c"
  have cur: "array_ok ?current" using Cons.prems by (simp add: arrays_ok chunk_ok_representable)
  have read: "coord_deltas previous (cursor_at pre (push_coord_deltas previous ?current @ zs)) =
      Inr (?current, cursor_at (pre @ push_coord_deltas previous ?current) zs)" for pre zs
    using Cons.prems cur by (intro coord_deltas_read) simp_all
  have IH: "decode_outcome_chunks (length cs) ?current (cursor_at pre (encode_outcome_chunks ?current cs @ ys)) =
      Inr (cs, cursor_at (pre @ encode_outcome_chunks ?current cs) ys)" for pre
    using Cons.prems by (intro Cons.IH cur) simp_all
  have rep: "is_world_representable c" using Cons.prems by simp
  show ?case by (simp add: read IH rep Let_def del: try_Inr)
qed simp

definition outcome_ok :: "voxel_mutation list \<Rightarrow> chunk_coord list \<Rightarrow> bool" where
  "outcome_ok mutations chunks \<longleftrightarrow> list_all (\<lambda>m. voxel_ok (vm_coord m)) mutations \<and> list_all is_world_representable chunks"

lemma outcome_header:
  assumes "n \<le> u16_max" "k \<le> u16_max"
    and "b = OPERATION_OUTCOME_MAGIC @ [OPERATION_OUTCOME_VERSION, 0] @ u16_le n @ u16_le k @ body"
  shows "take 4 b = OPERATION_OUTCOME_MAGIC" "b ! 4 = OPERATION_OUTCOME_VERSION" "b ! 5 = 0" "10 \<le> length b"
    "from_le [b ! 6, b ! 7] = n" "from_le [b ! 8, b ! 9] = k"
    "\<lparr>cur_bytes = b, cur_offset = 10\<rparr> = cursor_at (take 10 b) body" "length (take 10 b) = 10"
proof -
  obtain m where m: "OPERATION_OUTCOME_MAGIC = m" "length m = 4" by (simp add: OPERATION_OUTCOME_MAGIC_def ascii_def)
  obtain n1 n2 k1 k2 where w: "u16_le n = [n1, n2]" "u16_le k = [k1, k2]" using u16_le_two by metis
  have "from_le [n1, n2] = n" "from_le [k1, k2] = k" using u16_roundtrip assms(1,2) w by metis+
  then show "take 4 b = OPERATION_OUTCOME_MAGIC" "b ! 4 = OPERATION_OUTCOME_VERSION" "b ! 5 = 0" "10 \<le> length b"
    "from_le [b ! 6, b ! 7] = n" "from_le [b ! 8, b ! 9] = k"
    "\<lparr>cur_bytes = b, cur_offset = 10\<rparr> = cursor_at (take 10 b) body" "length (take 10 b) = 10"
    unfolding assms(3) m(1) w using m(2) by (simp_all add: nth_append cursor_at_def)
qed

lemma decode_encode_outcome:
  assumes ok: "outcome_ok ms cs" and e: "encode_operation_outcome ms cs = Inr b"
  shows "decode_operation_outcome b = Inr (ms, cs)"
proof -
  have v: "validate_outcome_collections ms cs = Inr ()" "length ms \<le> u16_max" "length cs \<le> u16_max"
    and b: "b = OPERATION_OUTCOME_MAGIC @ [OPERATION_OUTCOME_VERSION, 0] @ u16_le (length ms) @ u16_le (length cs) @
      encode_outcome_mutations [0, 0, 0] ms @ encode_outcome_chunks [0, 0, 0] cs"
    using e by (auto simp: encode_operation_outcome_def split: if_splits)
  note h = outcome_header [OF v(2,3) b]
  have n: "length ms \<le> MAX_EDIT_MUTATIONS" "length cs \<le> MAX_EDIT_AFFECTED_CHUNKS"
    using v(1) by (auto simp: validate_outcome_collections_def split: if_splits)
  have ms: "decode_outcome_mutations (length ms) [0, 0, 0] (cursor_at pre (encode_outcome_mutations [0, 0, 0] ms @ ys)) =
      Inr (ms, cursor_at (pre @ encode_outcome_mutations [0, 0, 0] ms) ys)" for pre ys
    using ok by (intro decode_mutations_read) (simp_all add: outcome_ok_def arrays_ok)
  have cs: "decode_outcome_chunks (length cs) [0, 0, 0] (cursor_at pre (encode_outcome_chunks [0, 0, 0] cs)) =
      Inr (cs, cursor_at (pre @ encode_outcome_chunks [0, 0, 0] cs) [])" for pre
    using ok decode_chunks_read [of cs "[0, 0, 0]" pre "[]"] by (simp add: outcome_ok_def arrays_ok)
  have fin: "cur_offset (cursor_at (take 10 b @ encode_outcome_mutations [0, 0, 0] ms @ encode_outcome_chunks [0, 0, 0] cs) []) = length b"
    by (simp add: cursor_at_def h(8)) (simp add: b OPERATION_OUTCOME_MAGIC_def ascii_def)
  show ?thesis
    unfolding decode_operation_outcome_def OPERATION_OUTCOME_HEADER_BYTES_def Let_def h(1-3,5-7)
    using h(4) n ms cs fin v(1) by (simp del: try_Inr)
qed

lemma decode_encode_action:
  "is_place a \<longrightarrow> edit_action_material a \<noteq> Air \<Longrightarrow> encode_action a = (k, c, i) \<Longrightarrow> decode_action k c i = Inr a"
  by (cases a rule: encode_action.cases) (auto simp: decode_action_def decode_material_def material_ids is_place_def)

end
