(* ===== verification/Edit_Planning.thy ===== *)
theory Edit_Planning
  imports Edit_Outcome
begin

text \<open>
  How the server plans an edit (\<open>world-service/src/edits.rs\<close>): the regions it locks, the protected
  starting area, the plan of a dig or a placement against the effective world, and the chunks the
  plan affects. The effective world is the journal over the generated voxels. The lemmas show what
  a plan changes, that it neither creates nor destroys material, and that the overrides it asks to
  store never repeat the generator.
\<close>

section \<open>Regions and protection\<close>

definition EDIT_REGION_EDGE_VOXELS :: int where "EDIT_REGION_EDGE_VOXELS = 256"

record edit_region =
  rg_x :: int
  rg_z :: int

definition edit_volume_of :: "edit_action \<Rightarrow> authority_error + edit_volume" where
  "edit_volume_of action =
     ok_or (AuthorityError ''edit volume exceeds world coordinates'')
       (case action of ActionDig hit shape \<Rightarrow> volume_for_hit hit shape
        | ActionPlace coord material shape \<Rightarrow> volume_for_hit coord shape)"

text \<open>The set of regions, in the order in which their locks are taken.\<close>

definition edit_regions :: "edit_action \<Rightarrow> authority_error + edit_region list" where
  "edit_regions action =
     attempt (edit_volume_of action) (\<lambda>volume.
     let minimum = \<lparr>rg_x = vx (ev_min volume) div EDIT_REGION_EDGE_VOXELS, rg_z = vz (ev_min volume) div EDIT_REGION_EDGE_VOXELS\<rparr>;
         maximum = \<lparr>rg_x = vx (ev_max volume) div EDIT_REGION_EDGE_VOXELS, rg_z = vz (ev_max volume) div EDIT_REGION_EDGE_VOXELS\<rparr>
     in Inr (concat (map (\<lambda>x. map (\<lambda>z. \<lparr>rg_x = x, rg_z = z\<rparr>) [rg_z minimum..rg_z maximum]) [rg_x minimum..rg_x maximum])))"

record protected_spawn =
  ps_centre_xz :: "int \<times> int"
  ps_radius_voxels :: nat
  ps_overrides :: "voxel_mutation list"

text \<open>Sixty-four-bit arithmetic wraps in the release build.\<close>

definition i64_wrap :: "int \<Rightarrow> int" where
  "i64_wrap x = (x + 2 ^ 63) mod 2 ^ 64 - 2 ^ 63"

definition spawn_contains :: "protected_spawn \<Rightarrow> voxel_coord \<Rightarrow> bool" where
  "spawn_contains spawn coord \<longleftrightarrow>
     (let dx = vx coord - fst (ps_centre_xz spawn); dz = vz coord - snd (ps_centre_xz spawn);
          radius = int (ps_radius_voxels spawn)
      in i64_wrap (i64_wrap (dx * dx) + i64_wrap (dz * dz)) \<le> radius * radius)"

definition spawn_intersects :: "protected_spawn \<Rightarrow> edit_action \<Rightarrow> bool" where
  "spawn_intersects spawn action \<longleftrightarrow>
     (case (case action of ActionPlace coord material shape \<Rightarrow> volume_for_hit coord shape
            | ActionDig hit shape \<Rightarrow> volume_for_hit hit shape) of
        None \<Rightarrow> False
      | Some volume \<Rightarrow> list_ex (spawn_contains spawn) (volume_coordinates volume))"

section \<open>Plans\<close>

record planned_action =
  pl_mutations :: "voxel_mutation list"
  pl_durable_overrides :: "material option list"
  pl_inventory :: material_inventory

definition u64_checked_add :: "u64 \<Rightarrow> nat \<Rightarrow> u64 option" where
  "u64_checked_add w n = (if unat w + n < 2 ^ 64 then Some (w + of_nat n) else None)"

fun dig_voxels ::
    "voxel_block_snapshot \<Rightarrow> edit_map \<Rightarrow> edit_volume \<Rightarrow> voxel_coord list \<Rightarrow> planned_action \<Rightarrow>
     authority_error + planned_action" where
  "dig_voxels snapshot edits volume [] plan = Inr plan"
| "dig_voxels snapshot edits volume (coord # coords) plan =
     (if \<not> volume_contains volume coord then dig_voxels snapshot edits volume coords plan else
      attempt (ok_or (AuthorityError ''source omitted a requested dig voxel'') (block_sample snapshot coord)) (\<lambda>generated.
      let material = resolve_generated edits coord generated in
      if material = Air then dig_voxels snapshot edits volume coords plan else
      attempt (ok_or (AuthorityError ''material inventory overflowed'')
        (u64_checked_add (mi_counts (pl_inventory plan) ! material_id material) 1)) (\<lambda>units.
      dig_voxels snapshot edits volume coords
        \<lparr>pl_mutations = pl_mutations plan @ [\<lparr>vm_coord = coord, vm_material = Air\<rparr>],
         pl_durable_overrides = pl_durable_overrides plan @ [if generated \<noteq> Air then Some Air else None],
         pl_inventory = mi_counts_update (\<lambda>counts. counts[material_id material := units]) (pl_inventory plan)\<rparr>)))"

fun place_voxels ::
    "voxel_block_snapshot \<Rightarrow> edit_map \<Rightarrow> material \<Rightarrow> voxel_coord list \<Rightarrow>
     voxel_mutation list \<times> material option list \<Rightarrow> authority_error + voxel_mutation list \<times> material option list" where
  "place_voxels snapshot edits material [] plan = Inr plan"
| "place_voxels snapshot edits material (target # targets) (mutations, durable_overrides) =
     attempt (ok_or (AuthorityError ''source omitted a requested placement voxel'') (block_sample snapshot target)) (\<lambda>generated.
     if resolve_generated edits target generated \<noteq> Air
     then Inl (AuthorityError ''placement volume is occupied or obstructed'')
     else place_voxels snapshot edits material targets
       (mutations @ [\<lparr>vm_coord = target, vm_material = material\<rparr>],
        durable_overrides @ [if material \<noteq> generated then Some material else None]))"

definition volume_box :: "edit_volume \<Rightarrow> voxel_coord list" where
  "volume_box v = concat (map (\<lambda>x. concat (map (\<lambda>y. map (\<lambda>z. voxel_at x y z)
     [vz (ev_min v)..vz (ev_max v)]) [vy (ev_min v)..vy (ev_max v)])) [vx (ev_min v)..vx (ev_max v)])"

fun plan_action ::
    "world_source \<Rightarrow> edit_map \<Rightarrow> material_inventory \<Rightarrow> edit_action \<Rightarrow> authority_error + planned_action" where
  "plan_action source edits inventory (ActionDig hit shape) =
     attempt (ok_or (AuthorityError ''dig volume exceeds world coordinates'') (volume_for_hit hit shape)) (\<lambda>volume.
     attempt (source_voxel_block source (ev_min volume) (sample_shape volume)) (\<lambda>snapshot.
       dig_voxels snapshot edits volume (volume_box volume)
         \<lparr>pl_mutations = [], pl_durable_overrides = [], pl_inventory = inventory\<rparr>))"
| "plan_action source edits inventory (ActionPlace coord material shape) =
     (if material = Air then Inl (AuthorityError ''Air cannot be placed'') else
      attempt (ok_or (AuthorityError ''placement volume exceeds world coordinates'') (volume_for_hit coord shape)) (\<lambda>volume.
      attempt (source_voxel_block source (ev_min volume) (sample_shape volume)) (\<lambda>snapshot.
      attempt (place_voxels snapshot edits material (volume_coordinates volume) ([], [])) (\<lambda>(mutations, durable_overrides).
      let slot = mi_counts inventory ! material_id material; required = length mutations in
      if unat slot < required then Inl (AuthorityError ''placement requires more units than remain'')
      else Inr \<lparr>pl_mutations = mutations, pl_durable_overrides = durable_overrides,
        pl_inventory = mi_counts_update (\<lambda>counts. counts[material_id material := slot - of_nat required]) inventory\<rparr>))))"

definition affected_products :: "voxel_mutation list \<Rightarrow> authority_error + chunk_coord list" where
  "affected_products mutations =
     (if length mutations > MAX_EDIT_MUTATIONS \<or> length (mutation_chunks mutations) > MAX_EDIT_AFFECTED_CHUNKS
      then Inl (AuthorityError ''edit outcome exceeds protocol bounds'')
      else Inr (mutation_chunks mutations))"

section \<open>What a plan holds\<close>

definition world :: "(voxel_coord \<Rightarrow> material) \<Rightarrow> edit_map \<Rightarrow> voxel_coord \<Rightarrow> material" where
  "world g edits c = resolve_generated edits c (g c)"

definition units :: "material_inventory \<Rightarrow> material \<Rightarrow> nat" where
  "units inventory m = unat (mi_counts inventory ! material_id m)"

definition counts_ok :: "material_inventory \<Rightarrow> bool" where
  "counts_ok inventory \<longleftrightarrow> length (mi_counts inventory) = 15"

lemma material_slot: "counts_ok i \<Longrightarrow> material_id m < length (mi_counts i)"
  using material_ids(2) [of m] by (simp add: counts_ok_def)

lemma units_update:
  assumes "counts_ok i"
  shows "units (mi_counts_update (\<lambda>counts. counts[material_id m := w]) i) n = (if n = m then unat w else units i n)"
    and "counts_ok (mi_counts_update (\<lambda>counts. counts[material_id m := w]) i)"
  using material_slot [OF assms, of m] assms by (auto simp: units_def counts_ok_def nth_list_update)

lemma checked_add_Some: "u64_checked_add w n = Some w' \<longleftrightarrow> unat w + n < 2 ^ 64 \<and> w' = w + of_nat n"
  by (auto simp: u64_checked_add_def)

lemma checked_add_unat: "unat w + n < 2 ^ 64 \<Longrightarrow> unat (w + of_nat n :: u64) = unat w + n"
  by (simp add: unat_word_ariths unsigned_of_nat take_bit_eq_mod)

abbreviation solid :: "(voxel_coord \<Rightarrow> material) \<Rightarrow> edit_map \<Rightarrow> edit_volume \<Rightarrow> voxel_coord list \<Rightarrow> voxel_coord list" where
  "solid g edits volume \<equiv> filter (\<lambda>c. volume_contains volume c \<and> world g edits c \<noteq> Air)"

lemma dig_voxels_Inr:
  assumes "\<forall>c \<in> set cs. volume_contains volume c \<longrightarrow> block_sample snapshot c = Some (g c)"
    and "dig_voxels snapshot edits volume cs plan = Inr plan'" "counts_ok (pl_inventory plan)"
  shows "pl_mutations plan' = pl_mutations plan @ map (\<lambda>c. \<lparr>vm_coord = c, vm_material = Air\<rparr>) (solid g edits volume cs) \<and>
    pl_durable_overrides plan' =
      pl_durable_overrides plan @ map (\<lambda>c. if g c \<noteq> Air then Some Air else None) (solid g edits volume cs) \<and>
    mi_revision (pl_inventory plan') = mi_revision (pl_inventory plan) \<and> counts_ok (pl_inventory plan') \<and>
    (\<forall>m. units (pl_inventory plan') m =
      units (pl_inventory plan) m + length (filter (\<lambda>c. world g edits c = m) (solid g edits volume cs)))"
  using assms
proof (induction cs arbitrary: plan)
  case (Cons c cs)
  show ?case
  proof (cases "volume_contains volume c \<and> world g edits c \<noteq> Air")
    case False
    then have "dig_voxels snapshot edits volume (c # cs) plan = dig_voxels snapshot edits volume cs plan"
      using Cons.prems(1) by (auto simp: world_def Let_def)
    then show ?thesis using Cons False by auto
  next
    case True
    let ?m = "world g edits c"
    let ?w = "mi_counts (pl_inventory plan) ! material_id ?m"
    let ?i = "mi_counts_update (\<lambda>counts. counts[material_id ?m := ?w + of_nat 1]) (pl_inventory plan)"
    have s: "block_sample snapshot c = Some (g c)" using Cons.prems(1) True by simp
    have fits: "unat ?w + 1 < 2 ^ 64" and rest: "dig_voxels snapshot edits volume cs
        \<lparr>pl_mutations = pl_mutations plan @ [\<lparr>vm_coord = c, vm_material = Air\<rparr>],
         pl_durable_overrides = pl_durable_overrides plan @ [if g c \<noteq> Air then Some Air else None],
         pl_inventory = ?i\<rparr> = Inr plan'"
      using Cons.prems(2) True
      by (auto simp: s world_def [symmetric] Let_def checked_add_Some simp del: of_nat_1 split: if_splits)
    have u: "units ?i n = (if n = ?m then units (pl_inventory plan) ?m + 1 else units (pl_inventory plan) n)"
        "counts_ok ?i" for n
      using units_update [OF Cons.prems(3), of ?m "?w + of_nat 1"] checked_add_unat [OF fits] by (simp_all add: units_def)
    show ?thesis using Cons.IH [OF _ rest] Cons.prems(1) u True by auto
  qed
qed auto

lemma place_voxels_Inr:
  assumes "\<forall>c \<in> set cs. block_sample snapshot c = Some (g c)"
    and "place_voxels snapshot edits material cs (ms, ds) = Inr (ms', ds')"
  shows "(\<forall>c \<in> set cs. world g edits c = Air) \<and> ms' = ms @ map (\<lambda>c. \<lparr>vm_coord = c, vm_material = material\<rparr>) cs \<and>
    ds' = ds @ map (\<lambda>c. if material \<noteq> g c then Some material else None) cs"
  using assms
proof (induction cs arbitrary: ms ds)
  case (Cons c cs)
  have s: "block_sample snapshot c = Some (g c)" using Cons.prems(1) by simp
  have "world g edits c = Air" and rest: "place_voxels snapshot edits material cs
      (ms @ [\<lparr>vm_coord = c, vm_material = material\<rparr>], ds @ [if material \<noteq> g c then Some material else None]) = Inr (ms', ds')"
    using Cons.prems(2) by (auto simp: s world_def split: if_splits)
  then show ?case using Cons.IH [OF _ rest] Cons.prems(1) by auto
qed simp

lemma volume_in_block:
  "edit_action_volume action = Some v \<Longrightarrow> volume_contains v c \<Longrightarrow>
   in_block \<lparr>vq_min = ev_min v, vq_sample_shape = sample_shape v\<rparr> c"
  by (auto simp: volume_contains_def in_block_def sample_shape_def split: if_splits)

lemma box_coordinates: "filter (\<lambda>c. volume_contains v c \<and> P c) (volume_box v) = filter P (volume_coordinates v)"
  by (simp add: volume_coordinates_def volume_box_def conj_commute)

text \<open>The voxels an action changes: the solid ones of a dug stencil, all of a placed one.\<close>

definition changed_voxels :: "(voxel_coord \<Rightarrow> material) \<Rightarrow> edit_map \<Rightarrow> edit_action \<Rightarrow> edit_volume \<Rightarrow> voxel_coord list" where
  "changed_voxels g edits action volume =
     (if is_place action then volume_coordinates volume
      else filter (\<lambda>c. world g edits c \<noteq> Air) (volume_coordinates volume))"

definition placed_override :: "(voxel_coord \<Rightarrow> material) \<Rightarrow> material \<Rightarrow> voxel_coord \<Rightarrow> material option" where
  "placed_override g material c = (if material = g c then None else Some material)"

definition amount :: "(voxel_coord \<Rightarrow> material) \<Rightarrow> edit_volume \<Rightarrow> material \<Rightarrow> nat" where
  "amount w volume m = length (filter (\<lambda>c. w c = m) (volume_coordinates volume))"

definition plan_of ::
    "(voxel_coord \<Rightarrow> material) \<Rightarrow> edit_map \<Rightarrow> edit_action \<Rightarrow> edit_volume \<Rightarrow> material_inventory \<Rightarrow> planned_action \<Rightarrow> bool" where
  "plan_of g edits action volume inventory plan \<longleftrightarrow>
     pl_mutations plan = map (\<lambda>c. \<lparr>vm_coord = c, vm_material = edit_action_material action\<rparr>) (changed_voxels g edits action volume) \<and>
     pl_durable_overrides plan =
       map (placed_override g (edit_action_material action)) (changed_voxels g edits action volume) \<and>
     mi_revision (pl_inventory plan) = mi_revision inventory \<and> counts_ok (pl_inventory plan) \<and>
     (is_place action \<longrightarrow> edit_action_material action \<noteq> Air \<and> (\<forall>c \<in> set (volume_coordinates volume). world g edits c = Air)) \<and>
     (\<forall>m. m \<noteq> Air \<longrightarrow> units (pl_inventory plan) m + (if is_place action \<and> m = edit_action_material action
         then length (volume_coordinates volume) else 0) =
       units inventory m + (if is_place action then 0 else amount (world g edits) volume m)) \<and>
     units (pl_inventory plan) Air = units inventory Air"

lemma plan_action_Inr:
  assumes src: "serves source g" and counts: "counts_ok inventory" and v: "edit_action_volume action = Some volume"
    and p: "plan_action source edits inventory action = Inr plan"
  shows "plan_of g edits action volume inventory plan"
proof (cases action)
  case (ActionDig hit shape)
  have vol: "volume_for_hit hit shape = Some volume" using v ActionDig by simp
  obtain snapshot where b: "source_voxel_block source (ev_min volume) (sample_shape volume) = Inr snapshot"
    and d: "dig_voxels snapshot edits volume (volume_box volume)
      \<lparr>pl_mutations = [], pl_durable_overrides = [], pl_inventory = inventory\<rparr> = Inr plan"
    using p by (auto simp: ActionDig vol)
  have "\<forall>c \<in> set (volume_box volume). volume_contains volume c \<longrightarrow> block_sample snapshot c = Some (g c)"
    using serves_sample [OF src b] volume_in_block [OF v] by simp
  from dig_voxels_Inr [OF this d] counts have r:
    "pl_mutations plan = map (\<lambda>c. \<lparr>vm_coord = c, vm_material = Air\<rparr>) (filter (\<lambda>c. world g edits c \<noteq> Air) (volume_coordinates volume))"
    "pl_durable_overrides plan =
      map (\<lambda>c. if g c \<noteq> Air then Some Air else None) (filter (\<lambda>c. world g edits c \<noteq> Air) (volume_coordinates volume))"
    "mi_revision (pl_inventory plan) = mi_revision inventory" "counts_ok (pl_inventory plan)"
    "\<And>m. units (pl_inventory plan) m = units inventory m +
      length (filter (\<lambda>c. world g edits c = m) (filter (\<lambda>c. world g edits c \<noteq> Air) (volume_coordinates volume)))"
    by (simp_all add: box_coordinates)
  have "filter (\<lambda>c. world g edits c = m) (filter (\<lambda>c. world g edits c \<noteq> Air) (volume_coordinates volume)) =
      (if m = Air then [] else filter (\<lambda>c. world g edits c = m) (volume_coordinates volume))" for m
    by (auto simp: filter_empty_conv intro: filter_cong)
  then show ?thesis using r by (auto simp: plan_of_def changed_voxels_def placed_override_def amount_def ActionDig is_place_def)
next
  case (ActionPlace coord material shape)
  have vol: "volume_for_hit coord shape = Some volume" using v ActionPlace by simp
  let ?slot = "mi_counts inventory ! material_id material"
  obtain snapshot ms ds where b: "source_voxel_block source (ev_min volume) (sample_shape volume) = Inr snapshot"
    and pv: "place_voxels snapshot edits material (volume_coordinates volume) ([], []) = Inr (ms, ds)"
    and m: "material \<noteq> Air" and stock: "length ms \<le> unat ?slot"
    and plan: "plan = \<lparr>pl_mutations = ms, pl_durable_overrides = ds,
        pl_inventory = mi_counts_update (\<lambda>counts. counts[material_id material := ?slot - of_nat (length ms)]) inventory\<rparr>"
    using p by (auto simp: ActionPlace vol Let_def split: if_splits)
  have "\<forall>c \<in> set (volume_coordinates volume). block_sample snapshot c = Some (g c)"
    using serves_sample [OF src b] volume_in_block [OF v] by (simp add: set_coordinates)
  note r = place_voxels_Inr [OF this pv]
  have len: "length ms = length (volume_coordinates volume)" using r by simp
  have "(of_nat (length ms) :: u64) \<le> ?slot"
  proof -
    have "unat (of_nat (length ms) :: u64) \<le> length ms" by (simp add: unsigned_of_nat take_bit_eq_mod)
    then show ?thesis using stock by (simp add: word_le_nat_alt)
  qed
  moreover have "unat (of_nat (length ms) :: u64) = length ms"
    using stock unsigned_less [where ?'a = nat, of ?slot] by (simp add: unsigned_of_nat take_bit_eq_mod)
  ultimately have "unat (?slot - of_nat (length ms)) = unat ?slot - length ms" by (simp add: unat_sub)
  then have "units (pl_inventory plan) n = (if n = material then units inventory n - length ms else units inventory n)"
      "counts_ok (pl_inventory plan)" for n
    using units_update [OF counts, of material "?slot - of_nat (length ms)"] by (simp_all add: plan units_def)
  moreover have "pl_mutations plan = ms" "pl_durable_overrides plan = ds" "mi_revision (pl_inventory plan) = mi_revision inventory"
      "length ms \<le> units inventory material"
    using stock by (simp_all add: plan units_def)
  ultimately show ?thesis using r m len
    by (auto simp: plan_of_def changed_voxels_def placed_override_def ActionPlace is_place_def)
qed

section \<open>What a plan does to the world\<close>

definition plan_changes :: "planned_action \<Rightarrow> change list" where
  "plan_changes plan = zip (map vm_coord (pl_mutations plan)) (pl_durable_overrides plan)"

lemma zip_graph: "zip xs (map f xs) = map (\<lambda>x. (x, f x)) xs"
  by (induction xs) auto

lemma plan_changes_of:
  assumes "plan_of g edits action volume inventory plan"
  shows "plan_changes plan =
    map (\<lambda>c. (c, placed_override g (edit_action_material action) c)) (changed_voxels g edits action volume)"
  using assms by (simp add: plan_changes_def plan_of_def comp_def zip_graph)

lemma changed_distinct: "distinct (changed_voxels g edits action volume)"
  using sorted_coordinates [of volume] sorted_wrt_less_distinct by (auto simp: changed_voxels_def)

lemma changed_set: "c \<in> set (changed_voxels g edits action volume) \<Longrightarrow> volume_contains volume c"
  by (auto simp: changed_voxels_def set_coordinates split: if_splits)

lemma changed_sorted: "sorted_wrt (<) (changed_voxels g edits action volume)"
  using sorted_coordinates by (auto simp: changed_voxels_def intro: sorted_wrt_filter)

lemma plan_changes_ok:
  assumes "edit_action_volume action = Some volume" "plan_of g edits action volume inventory plan"
  shows "distinct (map fst (plan_changes plan)) \<and> (\<forall>(c, _) \<in> set (plan_changes plan). voxel_ok c)"
  using changed_distinct [of g edits action volume] stencil_offsets [OF assms(1)] changed_set [of _ g edits action volume]
  by (auto simp: plan_changes_of [OF assms(2)] comp_def)

lemma plan_selection:
  assumes "edit_action_volume action = Some volume" "plan_of g edits action volume inventory plan"
  shows "selection_ok action (pl_mutations plan)"
  using assms changed_sorted [of g edits action volume] changed_set [of _ g edits action volume]
  by (auto simp: selection_ok_def plan_of_def comp_def list_all_iff)

lemma map_of_graph: "map_of (map (\<lambda>c. (c, f c)) cs) c = (if c \<in> set cs then Some (f c) else None)"
  by (induction cs) auto

lemma plan_override:
  assumes "em_wf em" "edit_action_volume action = Some volume" "plan_of g edits action volume inventory plan"
  shows "override_at (replace_durable_overrides (plan_changes plan) em) c =
    (if c \<in> set (changed_voxels g edits action volume) then placed_override g (edit_action_material action) c
     else override_at em c)"
  using replace_durable_overrides_at [OF assms(1), of "plan_changes plan" c] plan_changes_ok [OF assms(2,3)]
  by (simp add: plan_changes_of [OF assms(3)] map_of_graph)

lemma plan_world:
  assumes "em_wf em" "edit_action_volume action = Some volume" "plan_of g edits action volume inventory plan"
  shows "world g (replace_durable_overrides (plan_changes plan) em) c =
    (if c \<in> set (changed_voxels g edits action volume) then edit_action_material action else world g em c)"
  unfolding world_def resolve_generated_def plan_override [OF assms] placed_override_def by simp

text \<open>No override repeats the generator: digging away what was placed leaves no trace.\<close>

definition pristine :: "(voxel_coord \<Rightarrow> material) \<Rightarrow> edit_map \<Rightarrow> bool" where
  "pristine g em \<longleftrightarrow> (\<forall>c. override_at em c \<noteq> Some (g c))"

lemma plan_pristine:
  assumes "em_wf em" "edit_action_volume action = Some volume" "plan_of g edits action volume inventory plan" "pristine g em"
  shows "pristine g (replace_durable_overrides (plan_changes plan) em)"
  using assms(4) unfolding pristine_def plan_override [OF assms(1-3)] placed_override_def by simp

text \<open>
  The units of each material in the stencil plus the units in the inventory are the same before and
  after a plan: a dig credits exactly what it removes, a placement debits exactly what it adds.
\<close>

lemma plan_conserves:
  assumes "em_wf edits" "edit_action_volume action = Some volume" "plan_of g edits action volume inventory plan" "m \<noteq> Air"
  defines "after \<equiv> world g (replace_durable_overrides (plan_changes plan) edits)"
  shows "amount after volume m + units (pl_inventory plan) m = amount (world g edits) volume m + units inventory m"
proof -
  note p = assms(3)
  have w: "after c = (if c \<in> set (changed_voxels g edits action volume) then edit_action_material action else world g edits c)" for c
    unfolding after_def by (rule plan_world [OF assms(1,2) p])
  have mat: "edit_action_material action = Air" if "\<not> is_place action" using that by (cases action) (auto simp: is_place_def)
  have "amount after volume m = (if is_place action \<and> m = edit_action_material action then length (volume_coordinates volume) else 0)"
    (is "_ = ?n")
  proof (cases "is_place action")
    case True
    then have "after c = edit_action_material action" if "c \<in> set (volume_coordinates volume)" for c
      using that w by (simp add: changed_voxels_def)
    then have "filter (\<lambda>c. after c = m) (volume_coordinates volume) =
        (if m = edit_action_material action then volume_coordinates volume else [])"
      by (auto simp: filter_empty_conv filter_id_conv)
    then show ?thesis using True by (simp add: amount_def)
  next
    case False
    then have "after c = Air" if "c \<in> set (volume_coordinates volume)" for c
      using that w mat by (auto simp: changed_voxels_def)
    then show ?thesis using False assms(4) by (simp add: amount_def filter_empty_conv)
  qed
  moreover have "is_place action \<longrightarrow> amount (world g edits) volume m = 0"
    using p assms(4) by (auto simp: plan_of_def amount_def filter_empty_conv)
  ultimately show ?thesis using p assms(4) unfolding plan_of_def by (cases "is_place action") auto
qed

text \<open>A dig succeeds when no count can overflow.\<close>

lemma dig_voxels_fits:
  assumes "\<forall>c \<in> set cs. volume_contains volume c \<longrightarrow> block_sample snapshot c = Some (g c)" "counts_ok (pl_inventory plan)"
    and "\<forall>m. units (pl_inventory plan) m + length (filter (volume_contains volume) cs) < 2 ^ 64"
  shows "\<exists>plan'. dig_voxels snapshot edits volume cs plan = Inr plan'"
  using assms
proof (induction cs arbitrary: plan)
  case (Cons c cs)
  show ?case
  proof (cases "volume_contains volume c \<and> world g edits c \<noteq> Air")
    case False
    have "\<forall>m. units (pl_inventory plan) m + length (filter (volume_contains volume) cs) < 2 ^ 64"
    proof
      fix m
      have "length (filter (volume_contains volume) cs) \<le> length (filter (volume_contains volume) (c # cs))" by simp
      then show "units (pl_inventory plan) m + length (filter (volume_contains volume) cs) < 2 ^ 64"
        using Cons.prems(3) by (meson add_left_mono le_less_trans)
    qed
    moreover have "dig_voxels snapshot edits volume (c # cs) plan = dig_voxels snapshot edits volume cs plan"
      using Cons.prems(1) False by (auto simp: world_def Let_def)
    ultimately show ?thesis using Cons.IH Cons.prems(1,2) by simp
  next
    case True
    let ?m = "world g edits c"
    let ?w = "mi_counts (pl_inventory plan) ! material_id ?m"
    let ?i = "mi_counts_update (\<lambda>counts. counts[material_id ?m := ?w + of_nat 1]) (pl_inventory plan)"
    let ?plan = "\<lparr>pl_mutations = pl_mutations plan @ [\<lparr>vm_coord = c, vm_material = Air\<rparr>],
      pl_durable_overrides = pl_durable_overrides plan @ [if g c \<noteq> Air then Some Air else None], pl_inventory = ?i\<rparr>"
    have s: "block_sample snapshot c = Some (g c)" using Cons.prems(1) True by simp
    have room: "units (pl_inventory plan) m + Suc (length (filter (volume_contains volume) cs)) < 2 ^ 64" for m
      using Cons.prems(3) True by simp
    have fits: "unat ?w + 1 < 2 ^ 64" using room [of ?m] by (simp add: units_def)
    have "units ?i n = (if n = ?m then units (pl_inventory plan) ?m + 1 else units (pl_inventory plan) n)" "counts_ok ?i" for n
      using units_update [OF Cons.prems(2), of ?m "?w + of_nat 1"] checked_add_unat [OF fits] by (simp_all add: units_def)
    then have "\<forall>m. units (pl_inventory ?plan) m + length (filter (volume_contains volume) cs) < 2 ^ 64" "counts_ok (pl_inventory ?plan)"
      using room by (auto intro: Suc_lessD)
    then obtain plan' where "dig_voxels snapshot edits volume cs ?plan = Inr plan'" using Cons.IH [of ?plan] Cons.prems(1) by auto
    then show ?thesis using True s fits
      by (simp add: world_def [symmetric] Let_def u64_checked_add_def del: of_nat_1)
  qed
qed simp

lemma plan_dig_fits:
  assumes "serves source g" "source_voxel_block source (ev_min volume) (sample_shape volume) = Inr snapshot"
    and "volume_for_hit hit shape = Some volume" "counts_ok inventory" "\<forall>m. units inventory m + 1021 < 2 ^ 64"
  shows "\<exists>plan. plan_action source edits inventory (ActionDig hit shape) = Inr plan"
proof -
  have v: "edit_action_volume (ActionDig hit shape) = Some volume" using assms(3) by simp
  have "filter (volume_contains volume) (volume_box volume) = volume_coordinates volume"
    using box_coordinates [of volume "\<lambda>_. True"] by simp
  then have "length (filter (volume_contains volume) (volume_box volume)) \<le> 1021" using stencil_small [OF v] by simp
  then have "units inventory m + length (filter (volume_contains volume) (volume_box volume)) < 2 ^ 64" for m
    using assms(5) by (meson add_left_mono le_less_trans)
  moreover have "\<forall>c \<in> set (volume_box volume). volume_contains volume c \<longrightarrow> block_sample snapshot c = Some (g c)"
    using serves_sample [OF assms(1,2)] volume_in_block [OF v] by simp
  ultimately show ?thesis using dig_voxels_fits [of "volume_box volume" volume snapshot g] assms(2-4) by simp
qed

section \<open>Regions and the protected area\<close>

definition region_of :: "voxel_coord \<Rightarrow> edit_region" where
  "region_of c = \<lparr>rg_x = vx c div 256, rg_z = vz c div 256\<rparr>"

lemma volume_of_action: "edit_volume_of action = ok_or (AuthorityError ''edit volume exceeds world coordinates'') (edit_action_volume action)"
  by (cases action) (simp_all add: edit_volume_of_def)

lemma edit_regions_set:
  assumes "edit_regions action = Inr regions" "edit_action_volume action = Some volume"
  shows "r \<in> set regions \<longleftrightarrow> rg_x r \<in> {vx (ev_min volume) div 256..vx (ev_max volume) div 256} \<and>
    rg_z r \<in> {vz (ev_min volume) div 256..vz (ev_max volume) div 256}"
proof -
  have "regions = concat (map (\<lambda>x. map (\<lambda>z. \<lparr>rg_x = x, rg_z = z\<rparr>)
      [vz (ev_min volume) div 256..vz (ev_max volume) div 256]) [vx (ev_min volume) div 256..vx (ev_max volume) div 256])"
    using assms by (simp add: edit_regions_def volume_of_action EDIT_REGION_EDGE_VOXELS_def)
  then show ?thesis by (cases r) (auto simp: image_iff)
qed

lemma regions_cover:
  assumes "edit_regions action = Inr regions" "edit_action_volume action = Some volume"
    and "vx (ev_min volume) \<le> vx c" "vx c \<le> vx (ev_max volume)" "vz (ev_min volume) \<le> vz c" "vz c \<le> vz (ev_max volume)"
  shows "region_of c \<in> set regions"
  unfolding edit_regions_set [OF assms(1,2)] using assms(3-6) by (auto simp: region_of_def intro: zdiv_mono1)

text \<open>
  Edits that hold disjoint regions have disjoint stencils: no voxel of one lies in the columns the
  other samples.
\<close>

lemma disjoint_regions:
  assumes "edit_regions a = Inr ra" "edit_regions b = Inr rb" "set ra \<inter> set rb = {}"
    and "edit_action_volume a = Some va" "edit_action_volume b = Some vb" "volume_contains va c"
  shows "\<not> (vx (ev_min vb) \<le> vx c \<and> vx c \<le> vx (ev_max vb) \<and> vz (ev_min vb) \<le> vz c \<and> vz c \<le> vz (ev_max vb))"
proof -
  have "region_of c \<in> set ra"
    using assms(6) by (intro regions_cover [OF assms(1,4)]) (auto simp: volume_contains_def split: if_splits)
  then show ?thesis using regions_cover [OF assms(2,5), of c] assms(3) by blast
qed

lemma i64_wrap_id: "\<bar>x\<bar> < 2 ^ 63 \<Longrightarrow> i64_wrap x = x"
  by (simp add: i64_wrap_def)

text \<open>Within two thirds of the grid of the centre the protected area is the disc it is meant to be.\<close>

lemma spawn_contains_disc:
  assumes "\<bar>vx c - fst (ps_centre_xz s)\<bar> < 2 ^ 31" "\<bar>vz c - snd (ps_centre_xz s)\<bar> < 2 ^ 31"
  shows "spawn_contains s c \<longleftrightarrow>
    (vx c - fst (ps_centre_xz s))\<^sup>2 + (vz c - snd (ps_centre_xz s))\<^sup>2 \<le> (int (ps_radius_voxels s))\<^sup>2"
proof -
  let ?x = "vx c - fst (ps_centre_xz s)" and ?z = "vz c - snd (ps_centre_xz s)"
  have sq: "\<bar>y * y\<bar> \<le> (2 ^ 31 - 1) * (2 ^ 31 - 1)" if "\<bar>y\<bar> < 2 ^ 31" for y :: int
    unfolding abs_mult using that by (intro mult_mono) auto
  note b = sq [OF assms(1)] sq [OF assms(2)]
  have w: "i64_wrap (?x * ?x) = ?x * ?x" "i64_wrap (?z * ?z) = ?z * ?z" using b by (auto intro!: i64_wrap_id)
  have "i64_wrap (?x * ?x + ?z * ?z) = ?x * ?x + ?z * ?z" using b 
    by (intro i64_wrap_id, intro order.strict_trans1 [OF abs_triangle_ineq]) (use b in simp)
  then show ?thesis unfolding spawn_contains_def Let_def w by (simp add: power2_eq_square)
qed

text \<open>At the far corner of the grid the sum of squares wraps, and the corner counts as protected.\<close>

lemma spawn_wraps_at_corner:
  "spawn_contains \<lparr>ps_centre_xz = (0, 0), ps_radius_voxels = 16, ps_overrides = []\<rparr> (voxel_at i32_min 0 i32_min)"
  by (simp add: spawn_contains_def i64_wrap_def)

end
