(* ===== verification/Edit_Store.thy ===== *)
theory Edit_Store
  imports Edit_Planning
begin

text \<open>
  The durable tables of the edit authority (\<open>world-service/src/edits.rs\<close>): the schema, the rows an
  edit writes in its one transaction, and what is loaded back. A table is a map from its primary
  key; the operation log is the list of its rows. SQLite itself is not modelled: a transaction
  either commits every statement or none, and \<open>fault\<close> is what it reports when it refuses to. The CHECK
  constraints of the schema (lengths of identifiers, positive counters) are left out.
\<close>

section \<open>Tables\<close>

record player_resume =
  re_revision :: u64
  re_pose :: "32 word list"

record player_row =
  pr_session :: "u8 list option"
  pr_max_operation :: "u64 option"
  pr_inventory_revision :: int
  pr_resume_revision :: int
  pr_pose :: "32 word list"

record operation_row =
  op_player :: "u8 list"
  op_session :: "u8 list"
  op_operation :: u64
  op_receipt_order :: int
  op_action :: nat
  op_coord :: voxel_coord
  op_argument :: nat
  op_revision :: int
  op_outcome :: "u8 list"

record edit_database =
  db_version :: int
  db_world_id :: "u8 list"
  db_source_hash :: "u8 list"
  db_revision :: int
  db_edit_chunks :: "(edit_key, u8 list) btree"
  db_chunk_revisions :: "(chunk_coord, int) btree"
  db_players :: "u8 list \<rightharpoonup> player_row"
  db_inventory :: "u8 list \<times> material \<rightharpoonup> int"
  db_operations :: "operation_row list"

definition EDIT_DATABASE_SCHEMA_VERSION :: int where "EDIT_DATABASE_SCHEMA_VERSION = 14"
definition INITIAL_REVISION :: u64 where "INITIAL_REVISION = 1"
definition RETAINED_OPERATION_OUTCOMES_PER_PLAYER :: nat where "RETAINED_OPERATION_OUTCOMES_PER_PLAYER = 64"

text \<open>
  An empty file has version 0. It is the only database of that version: \<open>initialize_schema\<close> creates
  the tables without asking what they hold, where SQLite would refuse to create one that exists.
\<close>

definition db_empty :: edit_database where
  "db_empty = \<lparr>db_version = 0, db_world_id = [], db_source_hash = [], db_revision = 0, db_edit_chunks = [],
     db_chunk_revisions = [], db_players = Map.empty, db_inventory = Map.empty, db_operations = []\<rparr>"

definition positive_u64 :: "int \<Rightarrow> authority_error + u64" where
  "positive_u64 value =
     (if value > 0 \<and> value < 2 ^ 64 then Inr (of_int value) else Inl (AuthorityError ''durable value is not positive''))"

definition to_sql_i64 :: "u64 \<Rightarrow> authority_error + int" where
  "to_sql_i64 value =
     (if unat value < 2 ^ 63 then Inr (int (unat value)) else Inl (AuthorityError ''value exceeded SQLite INTEGER''))"

definition initialize_schema :: "u8 list \<Rightarrow> u8 list \<Rightarrow> edit_database \<Rightarrow> authority_error + edit_database" where
  "initialize_schema world_id source_hash db =
     (if db_version db = 0 then
        Inr (db\<lparr>db_version := EDIT_DATABASE_SCHEMA_VERSION, db_world_id := world_id, db_source_hash := source_hash,
          db_revision := int (unat INITIAL_REVISION)\<rparr>)
      else if db_version db \<noteq> EDIT_DATABASE_SCHEMA_VERSION then Inl (AuthorityError ''unsupported edit database schema'')
      else if db_world_id db \<noteq> world_id \<or> db_source_hash db \<noteq> source_hash
      then Inl (AuthorityError ''edit database belongs to a different world manifest'')
      else Inr db)"

section \<open>Loading\<close>

definition load_edits :: "(u8 list \<Rightarrow> u8 list) \<Rightarrow> edit_database \<Rightarrow> authority_error + edit_map \<times> u64" where
  "load_edits blake3 db =
     attempt (positive_u64 (db_revision db)) (\<lambda>revision.
     case hydrate_journal blake3 (map (\<lambda>(key, payload). (chunk_of_key key, payload)) (db_edit_chunks db)) em_empty of
       Inl error \<Rightarrow> Inl (AuthorityError ''decode durable edit chunk'')
     | Inr edits \<Rightarrow> Inr (edits, revision))"

fun load_revision_rows :: "u64 \<Rightarrow> (chunk_coord \<times> int) list \<Rightarrow> (chunk_coord, u64) btree \<Rightarrow> authority_error + (chunk_coord, u64) btree" where
  "load_revision_rows world_revision [] chunk_revisions = Inr chunk_revisions"
| "load_revision_rows world_revision ((coord, value) # rows) chunk_revisions =
     attempt (positive_u64 value) (\<lambda>revision.
     if revision > world_revision \<or> \<not> is_world_representable coord
     then Inl (AuthorityError ''durable chunk revision is inconsistent'')
     else load_revision_rows world_revision rows (btree_insert coord revision chunk_revisions))"

definition load_product_revisions :: "edit_database \<Rightarrow> u64 \<Rightarrow> authority_error + (chunk_coord, u64) btree" where
  "load_product_revisions db world_revision = load_revision_rows world_revision (db_chunk_revisions db) []"

record durable_player =
  dp_current_edit_session :: "u8 list option"
  dp_max_operation_id :: "u64 option"
  dp_inventory :: material_inventory
  dp_resume :: player_resume

text \<open>Only the float ranges of a pose are a parameter, \<open>pose_valid\<close>.\<close>

definition validate_resume :: "(32 word list \<Rightarrow> bool) \<Rightarrow> player_resume \<Rightarrow> authority_error + unit" where
  "validate_resume pose_valid resume =
     (if re_revision resume = 0 \<or> \<not> pose_valid (re_pose resume) then Inl (AuthorityError ''player resume state is invalid'')
      else Inr ())"

definition inventory_rows :: "edit_database \<Rightarrow> u8 list \<Rightarrow> int option list" where
  "inventory_rows db player_id = map (\<lambda>material. db_inventory db (player_id, material)) MATERIAL_ALL"

definition load_durable_player ::
    "(32 word list \<Rightarrow> bool) \<Rightarrow> edit_database \<Rightarrow> u8 list \<Rightarrow> authority_error + durable_player option" where
  "load_durable_player pose_valid db player_id =
     (case db_players db player_id of
        None \<Rightarrow> Inr None
      | Some row \<Rightarrow>
          if (case pr_session row of Some session \<Rightarrow> session_nil session | None \<Rightarrow> False)
          then Inl (AuthorityError ''durable player edit session is nil'')
          else if list_ex (\<lambda>units. case units of Some n \<Rightarrow> n < 0 | None \<Rightarrow> False) (inventory_rows db player_id)
          then Inl (AuthorityError ''durable inventory count is negative'')
          else
            let counts = map (\<lambda>units. case units of Some n \<Rightarrow> of_int n | None \<Rightarrow> 0) (inventory_rows db player_id) in
            if None \<in> set (inventory_rows db player_id) \<or> counts ! material_id Air \<noteq> 0
            then Inl (AuthorityError ''durable inventory is incomplete or contains Air'')
            else
              attempt (positive_u64 (pr_inventory_revision row)) (\<lambda>inventory_revision.
              attempt (positive_u64 (pr_resume_revision row)) (\<lambda>resume_revision.
              let resume = \<lparr>re_revision = resume_revision, re_pose = pr_pose row\<rparr> in
              attempt (validate_resume pose_valid resume) (\<lambda>_.
                Inr (Some \<lparr>dp_current_edit_session = pr_session row, dp_max_operation_id = pr_max_operation row,
                  dp_inventory = \<lparr>mi_revision = inventory_revision, mi_counts = counts\<rparr>, dp_resume = resume\<rparr>)))))"

record stored_operation =
  so_action :: edit_action
  so_revision :: u64
  so_mutations :: "voxel_mutation list"
  so_affected_chunks :: "chunk_coord list"

definition operation_key :: "u8 list \<Rightarrow> u8 list \<Rightarrow> u64 \<Rightarrow> operation_row \<Rightarrow> bool" where
  "operation_key player_id session operation row \<longleftrightarrow>
     op_player row = player_id \<and> op_session row = session \<and> op_operation row = operation"

definition load_operation ::
    "edit_database \<Rightarrow> u8 list \<Rightarrow> u8 list \<Rightarrow> u64 \<Rightarrow> authority_error + stored_operation option" where
  "load_operation db player_id session operation =
     (case find (operation_key player_id session operation) (db_operations db) of
        None \<Rightarrow> Inr None
      | Some row \<Rightarrow>
          attempt (decode_action (op_action row) (op_coord row) (op_argument row)) (\<lambda>action.
          attempt (decode_operation_outcome (op_outcome row)) (\<lambda>(mutations, affected).
          attempt (positive_u64 (op_revision row)) (\<lambda>revision.
            Inr (Some \<lparr>so_action = action, so_revision = revision, so_mutations = mutations,
              so_affected_chunks = affected\<rparr>)))))"

definition stored_commit :: "stored_operation \<Rightarrow> edit_command \<Rightarrow> u64 \<Rightarrow> material_inventory option \<Rightarrow> edit_commit" where
  "stored_commit stored command editor_connection_id editor_inventory =
     \<lparr>ct_operation_id = ed_operation_id command, ct_edit_session_id = ed_edit_session_id command,
      ct_editor_connection_id = editor_connection_id, ct_revision = so_revision stored, ct_action = so_action stored,
      ct_mutations = so_mutations stored, ct_affected_chunks = so_affected_chunks stored,
      ct_editor_inventory = editor_inventory\<rparr>"

section \<open>Writing\<close>

text \<open>The chunks of the mutated voxels, each with its record or, when pristine again, none.\<close>

definition encode_durable_chunks ::
    "(u8 list \<Rightarrow> u8 list) \<Rightarrow> edit_map \<Rightarrow> voxel_mutation list \<Rightarrow> (chunk_coord \<times> u8 list option) list" where
  "encode_durable_chunks blake3 edits mutations =
     map (\<lambda>coord. (coord, encode_chunk_overrides blake3 coord edits))
       (sort (remdups (map (\<lambda>mutation. voxel_chunk (vm_coord mutation)) mutations)))"

fun persist_chunk :: "chunk_coord \<times> u8 list option \<Rightarrow> (edit_key, u8 list) btree \<Rightarrow> (edit_key, u8 list) btree" where
  "persist_chunk (coord, Some payload) table = btree_insert (chunk_key coord) payload table"
| "persist_chunk (coord, None) table = btree_remove (chunk_key coord) table"

fun persist_inventory_delta ::
    "u8 list \<Rightarrow> material_inventory \<Rightarrow> material_inventory \<Rightarrow> material list \<Rightarrow> edit_database \<Rightarrow> authority_error + edit_database" where
  "persist_inventory_delta player_id before after [] db = Inr db"
| "persist_inventory_delta player_id before after (material # materials) db =
     (let index = material_id material in
      if mi_counts before ! index = mi_counts after ! index
      then persist_inventory_delta player_id before after materials db
      else attempt (to_sql_i64 (mi_counts after ! index)) (\<lambda>units.
        if db_inventory db (player_id, material) = None
        then Inl (AuthorityError ''durable material inventory row is missing'')
        else persist_inventory_delta player_id before after materials
          (db\<lparr>db_inventory := (db_inventory db)((player_id, material) \<mapsto> units)\<rparr>)))"

definition persist_product_revisions :: "u64 \<Rightarrow> chunk_coord list \<Rightarrow> edit_database \<Rightarrow> authority_error + edit_database" where
  "persist_product_revisions revision chunks db =
     attempt (to_sql_i64 revision) (\<lambda>revision.
       Inr (db\<lparr>db_chunk_revisions := fold (\<lambda>coord. btree_insert coord revision) chunks (db_chunk_revisions db)\<rparr>))"

definition player_receipts :: "u8 list \<Rightarrow> operation_row list \<Rightarrow> int list" where
  "player_receipts player_id rows = map op_receipt_order (filter (\<lambda>row. op_player row = player_id) rows)"

definition retained_receipts :: "u8 list \<Rightarrow> operation_row list \<Rightarrow> int list" where
  "retained_receipts player_id rows =
     take RETAINED_OPERATION_OUTCOMES_PER_PLAYER (rev (sort (player_receipts player_id rows)))"

definition prune_receipts :: "u8 list \<Rightarrow> operation_row list \<Rightarrow> operation_row list" where
  "prune_receipts player_id rows =
     filter (\<lambda>row. \<not> (op_player row = player_id \<and> op_receipt_order row \<notin> set (retained_receipts player_id rows))) rows"

definition persist_operation ::
    "u8 list \<Rightarrow> edit_command \<Rightarrow> u64 \<Rightarrow> voxel_mutation list \<Rightarrow> chunk_coord list \<Rightarrow> edit_database \<Rightarrow>
     authority_error + edit_database" where
  "persist_operation player_id command revision mutations affected db =
     (case encode_action (ed_action command) of (action, coord, argument) \<Rightarrow>
      attempt (encode_operation_outcome mutations affected) (\<lambda>outcome.
      let receipt_order = fold max (player_receipts player_id (db_operations db)) 0 + 1 in
      attempt (to_sql_i64 revision) (\<lambda>revision.
      if list_ex (operation_key player_id (ed_edit_session_id command) (ed_operation_id command)) (db_operations db)
      then Inl (AuthorityError ''persist edit operation'')
      else if db_players db player_id = None then Inl (AuthorityError ''persist edit operation'')
      else
        let row = \<lparr>op_player = player_id, op_session = ed_edit_session_id command, op_operation = ed_operation_id command,
              op_receipt_order = receipt_order, op_action = action, op_coord = coord, op_argument = argument,
              op_revision = revision, op_outcome = outcome\<rparr>;
            rows = db_operations db @ [row] in
        Inr (db\<lparr>db_players := (case db_players db player_id of
                None \<Rightarrow> db_players db
              | Some player \<Rightarrow> (db_players db)(player_id \<mapsto> player\<lparr>pr_max_operation := Some (ed_operation_id command)\<rparr>)),
            db_operations := prune_receipts player_id rows\<rparr>))))"

definition persist_world ::
    "u8 list \<Rightarrow> u64 \<Rightarrow> material_inventory \<Rightarrow> material_inventory \<Rightarrow> (chunk_coord \<times> u8 list option) list \<Rightarrow>
     chunk_coord list \<Rightarrow> edit_database \<Rightarrow> authority_error + edit_database" where
  "persist_world player_id revision previous_inventory inventory durable_chunks affected db =
     attempt (to_sql_i64 revision) (\<lambda>revision_sql.
     let db = db\<lparr>db_edit_chunks := fold persist_chunk durable_chunks (db_edit_chunks db), db_revision := revision_sql\<rparr> in
     attempt (to_sql_i64 (mi_revision inventory)) (\<lambda>inventory_revision.
     let db = db\<lparr>db_players := (case db_players db player_id of
           None \<Rightarrow> db_players db
         | Some player \<Rightarrow> (db_players db)(player_id \<mapsto> player\<lparr>pr_inventory_revision := inventory_revision\<rparr>))\<rparr> in
     attempt (persist_inventory_delta player_id previous_inventory inventory MATERIAL_ALL db) (\<lambda>db.
       persist_product_revisions revision affected db)))"

definition persist_action ::
    "authority_error option \<Rightarrow> u8 list \<Rightarrow> edit_command \<Rightarrow> u64 \<Rightarrow> material_inventory \<Rightarrow> material_inventory \<Rightarrow>
     voxel_mutation list \<Rightarrow> (chunk_coord \<times> u8 list option) list \<Rightarrow> chunk_coord list \<Rightarrow> edit_database \<Rightarrow>
     authority_error + edit_database" where
  "persist_action fault player_id command revision previous_inventory inventory mutations durable_chunks affected db =
     attempt (if mutations \<noteq> []
              then persist_world player_id revision previous_inventory inventory durable_chunks affected db
              else Inr db) (\<lambda>db.
     attempt (persist_operation player_id command revision mutations affected db) (\<lambda>db.
       case fault of Some error \<Rightarrow> Inl error | None \<Rightarrow> Inr db))"

section \<open>Integers of the tables\<close>

lemma to_sql_Inr: "to_sql_i64 w = Inr i \<longleftrightarrow> unat w < 2 ^ 63 \<and> i = int (unat w)"
  by (auto simp: to_sql_i64_def)

lemma positive_sql: "0 < w \<Longrightarrow> positive_u64 (int (unat w)) = Inr w"
proof -
  assume w: "0 < w"
  have "uint w < 2 ^ 64" using uint_lt2p [of w] by simp
  moreover have "0 < uint w" using w by (simp add: word_less_def)
  ultimately show ?thesis by (simp add: positive_u64_def uint_nat [symmetric])
qed

section \<open>Receipts\<close>

text \<open>
  A receipt reads back as the command and the outcome it was written for. The log has one row per
  operation and at most 64 rows per player, in distinct receipt order, and no operation of a
  player's current session is above the player's watermark.
\<close>

definition receipt_ok :: "operation_row \<Rightarrow> bool" where
  "receipt_ok row \<longleftrightarrow> (\<exists>a ms cs. encode_action a = (op_action row, op_coord row, op_argument row) \<and>
     (is_place a \<longrightarrow> edit_action_material a \<noteq> Air) \<and> encode_operation_outcome ms cs = Inr (op_outcome row) \<and>
     outcome_ok ms cs \<and> 0 < op_revision row \<and> op_revision row < 2 ^ 63)"

definition row_key :: "operation_row \<Rightarrow> u8 list \<times> u8 list \<times> u64" where
  "row_key row = (op_player row, op_session row, op_operation row)"

definition receipts_wf :: "edit_database \<Rightarrow> bool" where
  "receipts_wf db \<longleftrightarrow> list_all receipt_ok (db_operations db) \<and> distinct (map row_key (db_operations db)) \<and>
     (\<forall>p. distinct (player_receipts p (db_operations db)) \<and> length (player_receipts p (db_operations db)) \<le> 64) \<and>
     list_all (\<lambda>row. \<exists>player. db_players db (op_player row) = Some player \<and>
       (pr_session player = Some (op_session row) \<longrightarrow>
         (\<exists>m. pr_max_operation player = Some m \<and> op_operation row \<le> m))) (db_operations db)"

lemma fold_max_start: "(a :: 'a :: linorder) \<le> fold max rs a"
  by (induction rs arbitrary: a) (auto intro: order.trans [OF max.cobounded2])

lemma fold_max_le: "r \<in> set rs \<Longrightarrow> r \<le> fold max rs (a :: 'a :: linorder)"
proof (induction rs arbitrary: a)
  case (Cons x rs)
  then show ?case using fold_max_start [of "max x a" rs] by (auto intro: order.trans [OF max.cobounded1])
qed simp

lemma player_receipts_append [simp]:
  "player_receipts p (rows @ [row]) = player_receipts p rows @ (if op_player row = p then [op_receipt_order row] else [])"
  by (simp add: player_receipts_def)

lemma player_receipts_prune:
  "player_receipts p (prune_receipts q rows) =
     (if p = q then filter (\<lambda>r. r \<in> set (retained_receipts q rows)) (player_receipts p rows) else player_receipts p rows)"
  by (auto simp: player_receipts_def prune_receipts_def filter_map comp_def intro!: arg_cong [where f = "map op_receipt_order"] filter_cong)

lemma retained_bound: "card (set (retained_receipts q rows)) \<le> 64"
  using card_length [of "retained_receipts q rows"] by (simp add: retained_receipts_def RETAINED_OPERATION_OUTCOMES_PER_PLAYER_def)

lemma newest_retained:
  assumes "\<forall>r \<in> set (player_receipts q rows). r \<le> m" "m \<in> set (player_receipts q rows)"
  shows "m \<in> set (retained_receipts q rows)"
proof -
  let ?s = "sort (player_receipts q rows)"
  have m: "m \<in> set ?s" using assms(2) by simp
  then have ne: "?s \<noteq> []" by (metis empty_iff list.set(1))
  obtain i where i: "i < length ?s" "?s ! i = m" using m by (metis in_set_conv_nth)
  have "?s ! i \<le> ?s ! (length ?s - 1)" using i(1) by (intro sorted_nth_mono) auto
  moreover have "last ?s \<le> m" using assms(1) last_in_set [OF ne] by (simp del: last_in_set)
  ultimately have "last ?s = m" using i(2) last_conv_nth [OF ne] by simp
  then have "hd (rev ?s) = m" by (simp only: hd_rev)
  then obtain rest where "rev ?s = m # rest" using ne by (cases "rev ?s") auto
  then show ?thesis by (simp add: retained_receipts_def RETAINED_OPERATION_OUTCOMES_PER_PLAYER_def)
qed

lemma persist_operation_Inr:
  assumes "persist_operation p command revision ms cs db = Inr db'"
  obtains outcome player row where
    "encode_operation_outcome ms cs = Inr outcome" "unat revision < 2 ^ 63" "db_players db p = Some player"
    "row = \<lparr>op_player = p, op_session = ed_edit_session_id command, op_operation = ed_operation_id command,
       op_receipt_order = fold max (player_receipts p (db_operations db)) 0 + 1,
       op_action = fst (encode_action (ed_action command)), op_coord = fst (snd (encode_action (ed_action command))),
       op_argument = snd (snd (encode_action (ed_action command))), op_revision = int (unat revision), op_outcome = outcome\<rparr>"
    "row_key row \<notin> row_key ` set (db_operations db)"
    "db' = db\<lparr>db_players := (db_players db)(p \<mapsto> player\<lparr>pr_max_operation := Some (ed_operation_id command)\<rparr>),
       db_operations := prune_receipts p (db_operations db @ [row])\<rparr>"
proof -
  obtain k c i where a: "encode_action (ed_action command) = (k, c, i)" by (metis prod_cases3)
  have "list_ex (operation_key p (ed_edit_session_id command) (ed_operation_id command)) rows \<longleftrightarrow>
      (p, ed_edit_session_id command, ed_operation_id command) \<in> row_key ` set rows" for rows
    by (auto simp: list_ex_iff operation_key_def row_key_def image_iff)
  then show ?thesis using assms that
    by (auto simp: persist_operation_def a to_sql_Inr Let_def row_key_def split: if_splits)
qed

lemma persist_operation_row:
  assumes "receipts_wf db" "is_place (ed_action command) \<longrightarrow> edit_action_material (ed_action command) \<noteq> Air"
    and "outcome_ok ms cs" "0 < revision"
    and "persist_operation p command revision ms cs db = Inr db'"
    and "\<forall>player m. db_players db p = Some player \<longrightarrow> pr_session player = Some (ed_edit_session_id command) \<and>
      (pr_max_operation player = Some m \<longrightarrow> m < ed_operation_id command)"
  shows "receipts_wf db'" and "load_operation db' p (ed_edit_session_id command) (ed_operation_id command) =
    Inr (Some \<lparr>so_action = ed_action command, so_revision = revision, so_mutations = ms, so_affected_chunks = cs\<rparr>)"
proof -
  obtain outcome player row where o': "encode_operation_outcome ms cs = Inr outcome" "unat revision < 2 ^ 63"
      "db_players db p = Some player"
    and row: "row = \<lparr>op_player = p, op_session = ed_edit_session_id command, op_operation = ed_operation_id command,
       op_receipt_order = fold max (player_receipts p (db_operations db)) 0 + 1,
       op_action = fst (encode_action (ed_action command)), op_coord = fst (snd (encode_action (ed_action command))),
       op_argument = snd (snd (encode_action (ed_action command))), op_revision = int (unat revision), op_outcome = outcome\<rparr>"
    and fresh: "row_key row \<notin> row_key ` set (db_operations db)"
    and db': "db' = db\<lparr>db_players := (db_players db)(p \<mapsto> player\<lparr>pr_max_operation := Some (ed_operation_id command)\<rparr>),
       db_operations := prune_receipts p (db_operations db @ [row])\<rparr>"
    using persist_operation_Inr [OF assms(5)] by metis
  let ?rows = "db_operations db @ [row]"
  have player: "pr_session player = Some (ed_edit_session_id command)"
      "\<And>m. pr_max_operation player = Some m \<Longrightarrow> m < ed_operation_id command" using assms(6) o'(3) by auto
  have sub: "set (prune_receipts p ?rows) \<subseteq> set ?rows" by (auto simp: prune_receipts_def)
  have "int (unat revision) < int (2 ^ 63)" using o'(2) by (simp only: of_nat_less_iff)
  then have range: "0 < int (unat revision)" "int (unat revision) < 2 ^ 63"
    using assms(4) by (simp_all add: word_less_def)
  have receipt: "receipt_ok row"
    unfolding receipt_ok_def row operation_row.select_convs using assms(2,3) o'(1) range
    by (intro exI [of _ "ed_action command"] exI [of _ ms] exI [of _ cs]) simp
  have d: "distinct (player_receipts q ?rows)" for q
  proof -
    have "op_receipt_order row \<notin> set (player_receipts p (db_operations db))"
      using fold_max_le [of _ "player_receipts p (db_operations db)" 0] by (fastforce simp: row)
    then show ?thesis using assms(1) by (auto simp: receipts_wf_def row)
  qed
  have "length (player_receipts q (prune_receipts p ?rows)) \<le> 64" for q
  proof (cases "q = p")
    case True
    let ?kept = "filter (\<lambda>r. r \<in> set (retained_receipts p ?rows)) (player_receipts p ?rows)"
    have "length ?kept = card (set ?kept)" by (rule distinct_card [symmetric]) (use d [of p] in \<open>rule distinct_filter\<close>)
    also have "\<dots> \<le> card (set (retained_receipts p ?rows))" by (rule card_mono) auto
    finally show ?thesis using retained_bound [of p ?rows] True by (simp add: player_receipts_prune)
  next
    case False
    then show ?thesis using assms(1) by (simp add: player_receipts_prune receipts_wf_def row)
  qed
  moreover have "distinct (player_receipts q (prune_receipts p ?rows))" for q
    using d [of q] unfolding player_receipts_prune by (cases "q = p") (simp_all only: if_True if_False refl distinct_filter)
  moreover have "distinct (map row_key (prune_receipts p ?rows))"
    using assms(1) fresh unfolding prune_receipts_def by (intro distinct_map_filter) (simp add: receipts_wf_def)
  moreover have "list_all receipt_ok (prune_receipts p ?rows)"
    using assms(1) receipt sub by (auto simp: receipts_wf_def list_all_iff)
  moreover have "\<exists>pl. db_players db' (op_player r) = Some pl \<and> (pr_session pl = Some (op_session r) \<longrightarrow>
      (\<exists>m. pr_max_operation pl = Some m \<and> op_operation r \<le> m))" if "r \<in> set ?rows" for r
  proof (cases "r = row")
    case True
    then show ?thesis by (simp add: db' row)
  next
    case False
    then have "r \<in> set (db_operations db)" using that by simp
    then obtain pl where pl: "db_players db (op_player r) = Some pl"
        "pr_session pl = Some (op_session r) \<Longrightarrow> \<exists>m. pr_max_operation pl = Some m \<and> op_operation r \<le> m"
      using assms(1) by (auto simp: receipts_wf_def list_all_iff)
    show ?thesis
    proof (cases "op_player r = p")
      case True
      have "op_operation r \<le> ed_operation_id command" if "pr_session player = Some (op_session r)"
        using pl True o'(3) player(2) that by (auto dest: order.strict_implies_order intro: order.trans)
      then show ?thesis using True by (simp add: db')
    qed (use pl in \<open>simp add: db'\<close>)
  qed
  moreover have "db_operations db' = prune_receipts p ?rows" by (simp add: db')
  ultimately show "receipts_wf db'"
    using sub unfolding receipts_wf_def list_all_iff by (metis (no_types, lifting) subsetD)
  have "op_receipt_order row \<in> set (retained_receipts p ?rows)"
  proof (rule newest_retained)
    show "\<forall>r \<in> set (player_receipts p ?rows). r \<le> op_receipt_order row"
      using fold_max_le [of _ "player_receipts p (db_operations db)" 0] by (fastforce simp: row)
    show "op_receipt_order row \<in> set (player_receipts p ?rows)" by (simp add: row)
  qed
  then have mem: "row \<in> set (prune_receipts p ?rows)" by (simp add: prune_receipts_def)
  have unique: "r = row" if "r \<in> set ?rows" "operation_key p (ed_edit_session_id command) (ed_operation_id command) r" for r
    using that fresh by (auto simp: operation_key_def row_key_def row image_iff)
  have "operation_key p (ed_edit_session_id command) (ed_operation_id command) row" by (simp add: operation_key_def row)
  then obtain r where r: "find (operation_key p (ed_edit_session_id command) (ed_operation_id command)) (prune_receipts p ?rows) = Some r"
    using mem by (cases "find (operation_key p (ed_edit_session_id command) (ed_operation_id command)) (prune_receipts p ?rows)")
      (auto simp: find_None_iff)
  then have "r \<in> set (prune_receipts p ?rows)" and found: "operation_key p (ed_edit_session_id command) (ed_operation_id command) r"
    by (auto simp: find_Some_iff)
  then have "r \<in> set ?rows" using sub by blast
  from this found have "r = row" by (rule unique)
  moreover have "decode_action (op_action row) (op_coord row) (op_argument row) = Inr (ed_action command)"
    by (rule decode_encode_action [OF assms(2)]) (simp add: row)
  moreover have "decode_operation_outcome (op_outcome row) = Inr (ms, cs)"
    using decode_encode_outcome [OF assms(3) o'(1)] by (simp add: row)
  moreover have "positive_u64 (op_revision row) = Inr revision" using positive_sql [OF assms(4)] by (simp add: row)
  ultimately show "load_operation db' p (ed_edit_session_id command) (ed_operation_id command) =
    Inr (Some \<lparr>so_action = ed_action command, so_revision = revision, so_mutations = ms, so_affected_chunks = cs\<rparr>)"
    using r by (simp add: load_operation_def db' del: try_Inr)
qed

section \<open>Players and inventories\<close>

lemma material_all: "set MATERIAL_ALL = UNIV" "distinct MATERIAL_ALL" "length MATERIAL_ALL = 15"
  "i < 15 \<Longrightarrow> material_id (MATERIAL_ALL ! i) = i"
proof -
  show "set MATERIAL_ALL = UNIV"
  proof (intro set_eqI iffI UNIV_I)
    fix m show "m \<in> set MATERIAL_ALL" by (cases m) (simp_all add: MATERIAL_ALL_def)
  qed
  show "i < 15 \<Longrightarrow> material_id (MATERIAL_ALL ! i) = i"
    by (auto simp: MATERIAL_ALL_def nth_Cons' eval_nat_numeral less_Suc_eq)
qed (simp_all add: MATERIAL_ALL_def)

lemma counts_by_material:
  assumes "length counts = 15"
  shows "map (\<lambda>m. counts ! material_id m) MATERIAL_ALL = counts"
  using assms by (intro nth_equalityI) (simp_all add: material_all)

text \<open>The inventory rows of a player hold an inventory.\<close>

definition stored_inventory :: "edit_database \<Rightarrow> u8 list \<Rightarrow> material_inventory \<Rightarrow> bool" where
  "stored_inventory db p i \<longleftrightarrow> length (mi_counts i) = 15 \<and> mi_counts i ! 0 = 0 \<and> 0 < mi_revision i \<and>
     (\<forall>m. db_inventory db (p, m) = Some (int (unat (mi_counts i ! material_id m))))"

lemma stored_rows:
  assumes "stored_inventory db p i"
  shows "inventory_rows db p = map (\<lambda>m. Some (int (unat (mi_counts i ! material_id m)))) MATERIAL_ALL"
  using assms by (simp add: stored_inventory_def inventory_rows_def)

lemma load_stored_player:
  assumes "stored_inventory db p i" "db_players db p = Some row" "pr_inventory_revision row = int (unat (mi_revision i))"
    and "positive_u64 (pr_resume_revision row) = Inr r" "validate_resume pose_valid \<lparr>re_revision = r, re_pose = pr_pose row\<rparr> = Inr ()"
    and "\<forall>s. pr_session row = Some s \<longrightarrow> \<not> session_nil s"
  shows "load_durable_player pose_valid db p = Inr (Some \<lparr>dp_current_edit_session = pr_session row,
    dp_max_operation_id = pr_max_operation row, dp_inventory = i, dp_resume = \<lparr>re_revision = r, re_pose = pr_pose row\<rparr>\<rparr>)"
proof -
  have len: "length (mi_counts i) = 15" and air: "mi_counts i ! 0 = 0" and rev: "0 < mi_revision i"
    using assms(1) by (auto simp: stored_inventory_def)
  have counts: "map (\<lambda>units. case units of Some n \<Rightarrow> of_int n | None \<Rightarrow> 0) (inventory_rows db p) = mi_counts i"
    unfolding stored_rows [OF assms(1)] using counts_by_material [OF len] by (simp add: comp_def)
  have none: "None \<notin> set (inventory_rows db p)"
    and neg: "\<not> list_ex (\<lambda>units. case units of Some n \<Rightarrow> n < 0 | None \<Rightarrow> False) (inventory_rows db p)"
    unfolding stored_rows [OF assms(1)] by (auto simp: list_ex_iff)
  have nil: "\<not> (case pr_session row of Some session \<Rightarrow> session_nil session | None \<Rightarrow> False)"
    using assms(6) by (auto split: option.split)
  show ?thesis
    unfolding load_durable_player_def assms(2) option.case Let_def counts
    using none neg nil air assms(3-5) positive_sql [OF rev] by (simp del: try_Inr)
qed

lemma persist_delta_Inr:
  assumes "persist_inventory_delta p before after ms db = Inr db'"
    and "\<forall>m \<in> set ms. db_inventory db (p, m) = Some (int (unat (mi_counts before ! material_id m)))"
    and "distinct ms"
  shows "db' = db\<lparr>db_inventory := (\<lambda>(q, m). if q = p \<and> m \<in> set ms then Some (int (unat (mi_counts after ! material_id m)))
    else db_inventory db (q, m))\<rparr>"
  using assms
proof (induction ms arbitrary: db)
  case Nil
  then show ?case by auto
next
  case (Cons m ms)
  show ?case
  proof (cases "mi_counts before ! material_id m = mi_counts after ! material_id m")
    case True
    then have "persist_inventory_delta p before after ms db = Inr db'" using Cons.prems(1) by simp
    from Cons.IH [OF this] Cons.prems(2,3) have
      "db' = db\<lparr>db_inventory := (\<lambda>(q, m). if q = p \<and> m \<in> set ms then Some (int (unat (mi_counts after ! material_id m)))
        else db_inventory db (q, m))\<rparr>" by simp
    moreover have "db_inventory db (p, m) = Some (int (unat (mi_counts after ! material_id m)))"
      using Cons.prems(2) True by simp
    ultimately show ?thesis by (auto intro!: arg_cong [where f = "\<lambda>f. db\<lparr>db_inventory := f\<rparr>"])
  next
    case False
    let ?db = "db\<lparr>db_inventory := (db_inventory db)((p, m) \<mapsto> int (unat (mi_counts after ! material_id m)))\<rparr>"
    have r: "persist_inventory_delta p before after ms ?db = Inr db'"
      using Cons.prems(1) False by (auto simp: Let_def to_sql_Inr split: if_splits)
    have "\<forall>k \<in> set ms. db_inventory ?db (p, k) = Some (int (unat (mi_counts before ! material_id k)))"
      using Cons.prems(2,3) by auto
    from Cons.IH [OF r this] Cons.prems(3) show ?thesis
      by (auto intro!: arg_cong [where f = "\<lambda>f. db\<lparr>db_inventory := f\<rparr>"])
  qed
qed

lemma persist_world_Inr:
  assumes "persist_world p revision before after durable_chunks chunks db = Inr db'" "stored_inventory db p before"
    and "db_players db p = Some player"
  shows "unat revision < 2 ^ 63 \<and> unat (mi_revision after) < 2 ^ 63 \<and>
    db' = db\<lparr>db_edit_chunks := fold persist_chunk durable_chunks (db_edit_chunks db), db_revision := int (unat revision),
      db_chunk_revisions := fold (\<lambda>coord. btree_insert coord (int (unat revision))) chunks (db_chunk_revisions db),
      db_players := (db_players db)(p \<mapsto> player\<lparr>pr_inventory_revision := int (unat (mi_revision after))\<rparr>),
      db_inventory := (\<lambda>(q, m). if q = p then Some (int (unat (mi_counts after ! material_id m))) else db_inventory db (q, m))\<rparr>"
proof -
  let ?db = "db\<lparr>db_edit_chunks := fold persist_chunk durable_chunks (db_edit_chunks db), db_revision := int (unat revision),
      db_players := (db_players db)(p \<mapsto> player\<lparr>pr_inventory_revision := int (unat (mi_revision after))\<rparr>)\<rparr>"
  obtain db1 where d: "persist_inventory_delta p before after MATERIAL_ALL ?db = Inr db1"
    and r: "persist_product_revisions revision chunks db1 = Inr db'"
    and bounds: "unat revision < 2 ^ 63" "unat (mi_revision after) < 2 ^ 63"
    using assms(1,3) by (auto simp: persist_world_def to_sql_Inr Let_def)
  have db1: "db1 = ?db\<lparr>db_inventory := (\<lambda>(q, m). if q = p \<and> m \<in> set MATERIAL_ALL
      then Some (int (unat (mi_counts after ! material_id m))) else db_inventory ?db (q, m))\<rparr>"
    using assms(2) by (intro persist_delta_Inr [OF d]) (simp_all add: stored_inventory_def material_all)
  have "db' = db1\<lparr>db_chunk_revisions := fold (\<lambda>coord. btree_insert coord (int (unat revision))) chunks (db_chunk_revisions db1)\<rparr>"
    using r by (auto simp: persist_product_revisions_def to_sql_Inr)
  moreover have inv: "db_inventory ?db = db_inventory db" by simp
  ultimately show ?thesis using bounds unfolding db1 inv by (simp add: material_all)
qed

end
