(* ===== verification/Edit_Authority.thy ===== *)
theory Edit_Authority
  imports Edit_Store Terrain_Key
begin

text \<open>
  The server's edit authority (\<open>world-service/src/edits.rs\<close>): its state, the application of a
  command in the three phases the code has (admission under the state lock, planning without it,
  commit under it again), the players' rows, and the revisions it serves. \<open>apply_edit\<close> runs the
  three phases in a row, which is what the locks of the regions and of the player leave of two
  edits that touch the same chunks; the interleaving of unrelated edits is not modelled.
\<close>

declare split_paired_All [simp del] split_paired_Ex [simp del]

section \<open>State\<close>

text \<open>What the authority calls: the digest of records, the world source, and the float checks of a pose.\<close>

record edit_env =
  en_blake3 :: "u8 list \<Rightarrow> u8 list"
  en_source :: world_source
  en_pose_valid :: "32 word list \<Rightarrow> bool"

record edit_state =
  es_db :: edit_database
  es_durable_edits :: edit_map
  es_edits :: edit_map
  es_revision :: u64
  es_chunk_revisions :: "(chunk_coord, u64) btree"
  es_surface_revisions :: "(int, (int, u64) btree) btree"
  es_protected_spawn :: "protected_spawn option"

definition record_surface_revision ::
    "chunk_coord \<Rightarrow> u64 \<Rightarrow> (int, (int, u64) btree) btree \<Rightarrow> (int, (int, u64) btree) btree" where
  "record_surface_revision coord revision surface_revisions =
     (let row = btree_get_or [] surface_revisions (cx coord);
          value = (case btree_get row (cz coord) of Some current \<Rightarrow> max current revision | None \<Rightarrow> revision)
      in btree_insert (cx coord) (btree_insert (cz coord) value row) surface_revisions)"

definition build_surface_revision_index :: "(chunk_coord, u64) btree \<Rightarrow> (int, (int, u64) btree) btree" where
  "build_surface_revision_index chunk_revisions =
     fold (\<lambda>(coord, revision). record_surface_revision coord revision) chunk_revisions []"

definition from_connection :: "edit_env \<Rightarrow> u8 list \<Rightarrow> edit_database \<Rightarrow> authority_error + edit_state" where
  "from_connection env world_id db =
     attempt (initialize_schema world_id (ws_identity_hash (en_source env)) db) (\<lambda>db.
     attempt (load_edits (en_blake3 env) db) (\<lambda>(durable_edits, revision).
     attempt (load_product_revisions db revision) (\<lambda>chunk_revisions.
       Inr \<lparr>es_db = db, es_durable_edits = durable_edits, es_edits = durable_edits, es_revision = revision,
         es_chunk_revisions = chunk_revisions, es_surface_revisions = build_surface_revision_index chunk_revisions,
         es_protected_spawn = None\<rparr>)))"

definition install_protected_spawn :: "protected_spawn \<Rightarrow> edit_state \<Rightarrow> edit_state" where
  "install_protected_spawn spawn st =
     (let changes = map (\<lambda>mutation. (vm_coord mutation, Some (vm_material mutation))) (ps_overrides spawn)
      in st\<lparr>es_edits := replace_durable_overrides changes (es_durable_edits st), es_protected_spawn := Some spawn\<rparr>)"

section \<open>Players\<close>

definition EMPTY_INVENTORY :: material_inventory where
  "EMPTY_INVENTORY = \<lparr>mi_revision = 1, mi_counts = replicate MATERIAL_INVENTORY_SLOTS 0\<rparr>"

definition with_fault :: "authority_error option \<Rightarrow> 'a \<Rightarrow> authority_error + 'a" where
  "with_fault fault x = (case fault of Some error \<Rightarrow> Inl error | None \<Rightarrow> Inr x)"

definition load_player ::
    "edit_env \<Rightarrow> authority_error option \<Rightarrow> u8 list \<Rightarrow> player_resume \<Rightarrow> edit_state \<Rightarrow>
     authority_error + (material_inventory \<times> player_resume) \<times> edit_state" where
  "load_player env fault player_id default_resume st =
     attempt (validate_resume (en_pose_valid env) default_resume) (\<lambda>_.
     attempt (load_durable_player (en_pose_valid env) (es_db st) player_id) (\<lambda>loaded.
     case loaded of
       Some player \<Rightarrow> Inr ((dp_inventory player, dp_resume player), st)
     | None \<Rightarrow>
         attempt (to_sql_i64 (re_revision default_resume)) (\<lambda>resume_revision.
         let row = \<lparr>pr_session = None, pr_max_operation = None, pr_inventory_revision = 1,
               pr_resume_revision = resume_revision, pr_pose = re_pose default_resume\<rparr>;
             inventory = EMPTY_INVENTORY;
             db = (es_db st)\<lparr>db_players := (db_players (es_db st))(player_id \<mapsto> row),
               db_inventory := (\<lambda>(player, material). if player = player_id
                 then Some (int (unat (mi_counts inventory ! material_id material)))
                 else db_inventory (es_db st) (player, material))\<rparr> in
         attempt (with_fault fault db) (\<lambda>db. Inr ((inventory, default_resume), st\<lparr>es_db := db\<rparr>)))))"

definition begin_player_session ::
    "authority_error option \<Rightarrow> u8 list \<Rightarrow> u8 list \<Rightarrow> edit_state \<Rightarrow> authority_error + edit_state" where
  "begin_player_session fault edit_session_id player_id st =
     (case db_players (es_db st) player_id of
        None \<Rightarrow> Inl (AuthorityError ''cannot begin an edit session for an unloaded player'')
      | Some row \<Rightarrow>
          attempt (with_fault fault ((es_db st)\<lparr>db_players := (db_players (es_db st))(player_id \<mapsto>
              row\<lparr>pr_session := Some edit_session_id, pr_max_operation := None\<rparr>)\<rparr>)) (\<lambda>db. Inr (st\<lparr>es_db := db\<rparr>)))"

definition save_player_resume ::
    "edit_env \<Rightarrow> authority_error option \<Rightarrow> u8 list \<Rightarrow> player_resume \<Rightarrow> edit_state \<Rightarrow> authority_error + edit_state" where
  "save_player_resume env fault player_id resume st =
     attempt (validate_resume (en_pose_valid env) resume) (\<lambda>_.
     attempt (to_sql_i64 (re_revision resume)) (\<lambda>revision.
     case db_players (es_db st) player_id of
       Some row \<Rightarrow>
         if pr_resume_revision row < revision
         then attempt (with_fault fault ((es_db st)\<lparr>db_players := (db_players (es_db st))(player_id \<mapsto>
             row\<lparr>pr_resume_revision := revision, pr_pose := re_pose resume\<rparr>)\<rparr>)) (\<lambda>db. Inr (st\<lparr>es_db := db\<rparr>))
         else attempt (load_durable_player (en_pose_valid env) (es_db st) player_id) (\<lambda>_. Inr st)
     | None \<Rightarrow> Inl (AuthorityError ''cannot save resume for an unopened player'')))"

section \<open>Application of a command\<close>

datatype admission =
    AdmitReplay edit_commit
  | AdmitPlan durable_player edit_map

definition admit_edit ::
    "edit_env \<Rightarrow> u8 list \<Rightarrow> u64 \<Rightarrow> edit_command \<Rightarrow> edit_state \<Rightarrow> authority_error + admission" where
  "admit_edit env player_id editor_connection_id command st =
     attempt (load_operation (es_db st) player_id (ed_edit_session_id command) (ed_operation_id command)) (\<lambda>stored.
     case stored of
       Some stored \<Rightarrow>
         if so_action stored \<noteq> ed_action command
         then Inl (AuthorityError ''edit operation id was reused with a different command'')
         else attempt (load_durable_player (en_pose_valid env) (es_db st) player_id) (\<lambda>player.
         attempt (ok_or (AuthorityError ''edit player does not exist'') player) (\<lambda>player.
           Inr (AdmitReplay (stored_commit stored command editor_connection_id (Some (dp_inventory player))))))
     | None \<Rightarrow>
         attempt (load_durable_player (en_pose_valid env) (es_db st) player_id) (\<lambda>player.
         attempt (ok_or (AuthorityError ''edit player does not exist'') player) (\<lambda>player.
         if dp_current_edit_session player \<noteq> Some (ed_edit_session_id command)
         then Inl (AuthorityError ''edit session is not current'')
         else if (case dp_max_operation_id player of Some maximum \<Rightarrow> ed_operation_id command \<le> maximum | None \<Rightarrow> False)
         then Inl (AuthorityError ''edit operation is older than the bounded retry window or arrived out of order'')
         else attempt (edit_volume_of (ed_action command)) (\<lambda>volume.
         attempt (ok_or AuthorityPanic (snapshot_for_voxel_columns (vx (ev_min volume)) (vx (ev_max volume))
             (vz (ev_min volume)) (vz (ev_max volume)) (es_edits st))) (\<lambda>planning_edits.
           Inr (AdmitPlan player planning_edits))))))"

record edit_plan =
  ep_plan :: planned_action
  ep_inventory :: material_inventory
  ep_affected_chunks :: "chunk_coord list"

definition plan_edit :: "edit_env \<Rightarrow> durable_player \<Rightarrow> edit_map \<Rightarrow> edit_command \<Rightarrow> authority_error + edit_plan" where
  "plan_edit env player planning_edits command =
     attempt (plan_action (en_source env) planning_edits (dp_inventory player) (ed_action command)) (\<lambda>plan.
     if length (pl_mutations plan) \<noteq> length (pl_durable_overrides plan)
     then Inl (AuthorityError ''edit plan has mismatched durable outcomes'')
     else
       let changed = (pl_mutations plan \<noteq> []) in
       attempt (if changed
                then attempt (ok_or (AuthorityError ''inventory revision overflowed'')
                  (u64_checked_add (mi_revision (dp_inventory player)) 1)) (\<lambda>revision.
                    Inr ((pl_inventory plan)\<lparr>mi_revision := revision\<rparr>))
                else Inr (dp_inventory player)) (\<lambda>inventory.
       attempt (if changed then affected_products (pl_mutations plan) else Inr []) (\<lambda>affected_chunks.
         Inr \<lparr>ep_plan = plan, ep_inventory = inventory, ep_affected_chunks = affected_chunks\<rparr>)))"

definition restore_overrides :: "voxel_mutation list \<Rightarrow> material option list \<Rightarrow> edit_map \<Rightarrow> edit_map" where
  "restore_overrides mutations previous edits = replace_durable_overrides (zip (map vm_coord mutations) previous) edits"

definition commit_edit ::
    "edit_env \<Rightarrow> authority_error option \<Rightarrow> u8 list \<Rightarrow> u64 \<Rightarrow> edit_command \<Rightarrow> durable_player \<Rightarrow> edit_plan \<Rightarrow> edit_state \<Rightarrow>
     (authority_error + edit_commit \<times> bool) \<times> edit_state" where
  "commit_edit env fault player_id editor_connection_id command player prepared st =
     (let mutations = pl_mutations (ep_plan prepared); changed = (mutations \<noteq> []) in
      case (if changed then ok_or (AuthorityError ''edit revision overflowed'') (u64_checked_add (es_revision st) 1)
            else Inr (es_revision st)) of
        Inl error \<Rightarrow> (Inl error, st)
      | Inr revision \<Rightarrow>
          let previous_effective = map (\<lambda>mutation. override_at (es_edits st) (vm_coord mutation)) mutations;
              previous_durable = map (\<lambda>mutation. override_at (es_durable_edits st) (vm_coord mutation)) mutations;
              durable_changes = zip (map vm_coord mutations) (pl_durable_overrides (ep_plan prepared));
              durable = replace_durable_overrides durable_changes (es_durable_edits st);
              edits = replace_durable_overrides durable_changes (es_edits st);
              commit = \<lparr>ct_operation_id = ed_operation_id command, ct_edit_session_id = ed_edit_session_id command,
                ct_editor_connection_id = editor_connection_id, ct_revision = revision, ct_action = ed_action command,
                ct_mutations = mutations, ct_affected_chunks = ep_affected_chunks prepared,
                ct_editor_inventory = Some (ep_inventory prepared)\<rparr>
          in case persist_action fault player_id command revision (dp_inventory player) (ep_inventory prepared) mutations
                 (encode_durable_chunks (en_blake3 env) durable mutations) (ep_affected_chunks prepared) (es_db st) of
               Inl error \<Rightarrow>
                 (Inl error, st\<lparr>es_durable_edits := restore_overrides mutations previous_durable durable,
                    es_edits := restore_overrides mutations previous_effective edits\<rparr>)
             | Inr db \<Rightarrow>
                 let st = st\<lparr>es_db := db, es_durable_edits := durable, es_edits := edits\<rparr> in
                 (Inr (commit, changed),
                  if changed
                  then st\<lparr>es_revision := revision,
                    es_chunk_revisions := fold (\<lambda>coord. btree_insert coord revision) (ep_affected_chunks prepared) (es_chunk_revisions st),
                    es_surface_revisions := fold (\<lambda>coord. record_surface_revision coord revision) (ep_affected_chunks prepared)
                      (es_surface_revisions st)\<rparr>
                  else st))"

definition spawn_protected :: "edit_state \<Rightarrow> edit_action \<Rightarrow> bool" where
  "spawn_protected st action \<longleftrightarrow>
     (case es_protected_spawn st of Some spawn \<Rightarrow> spawn_intersects spawn action | None \<Rightarrow> False)"

definition apply_edit ::
    "edit_env \<Rightarrow> authority_error option \<Rightarrow> u8 list \<Rightarrow> u64 \<Rightarrow> edit_command \<Rightarrow> edit_state \<Rightarrow>
     (authority_error + edit_commit \<times> bool) \<times> edit_state" where
  "apply_edit env fault player_id editor_connection_id command st =
     (if spawn_protected st (ed_action command)
      then (Inl (AuthorityError ''the starting area is protected from world edits''), st)
      else case edit_regions (ed_action command) of
        Inl error \<Rightarrow> (Inl error, st)
      | Inr _ \<Rightarrow>
          (case admit_edit env player_id editor_connection_id command st of
             Inl error \<Rightarrow> (Inl error, st)
           | Inr (AdmitReplay commit) \<Rightarrow> (Inr (commit, False), st)
           | Inr (AdmitPlan player planning_edits) \<Rightarrow>
               (case plan_edit env player planning_edits command of
                  Inl error \<Rightarrow> (Inl error, st)
                | Inr prepared \<Rightarrow> commit_edit env fault player_id editor_connection_id command player prepared st)))"

section \<open>Revisions served\<close>

definition terrain_region_revision_of :: "edit_state \<Rightarrow> chunk_coord list \<Rightarrow> u64" where
  "terrain_region_revision_of st chunks =
     (case List.map_filter (btree_get (es_chunk_revisions st)) chunks of
        [] \<Rightarrow> INITIAL_REVISION
      | r # rs \<Rightarrow> fold max rs r)"

definition TERRAIN_REGION_ROOT_LEVEL :: nat where "TERRAIN_REGION_ROOT_LEVEL = 2"

definition terrain_region_chunks :: "page_key \<Rightarrow> chunk_coord list option" where
  "terrain_region_chunks root =
     (if pk_level root \<noteq> TERRAIN_REGION_ROOT_LEVEL then None else
      Option.bind (page_bounds root) (\<lambda>bounds.
      Option.bind (i32_try (vx (vb_min bounds) - 1)) (\<lambda>x.
      Option.bind (i32_try (vy (vb_min bounds) - 1)) (\<lambda>y.
      Option.bind (i32_try (vz (vb_min bounds) - 1)) (\<lambda>z.
      let minimum_chunk = voxel_chunk (voxel_at x y z); maximum_chunk = voxel_chunk (vb_max bounds) in
      Some (concat (map (\<lambda>z. concat (map (\<lambda>y. map (\<lambda>x. chunk_at x y z)
        [cx minimum_chunk..cx maximum_chunk]) [cy minimum_chunk..cy maximum_chunk])) [cz minimum_chunk..cz maximum_chunk])))))))"

definition terrain_region_revision :: "page_key \<Rightarrow> edit_state \<Rightarrow> u64 option" where
  "terrain_region_revision root st = map_option (terrain_region_revision_of st) (terrain_region_chunks root)"

definition surface_terrain_revision_in :: "(int, (int, u64) btree) btree \<Rightarrow> int \<Rightarrow> int \<Rightarrow> int \<Rightarrow> int \<Rightarrow> u64" where
  "surface_terrain_revision_in surface_revisions minimum_x maximum_x minimum_z maximum_z =
     (let minimum_chunk = voxel_chunk (voxel_at minimum_x 0 minimum_z);
          maximum_chunk = voxel_chunk (voxel_at maximum_x 0 maximum_z);
          revisions = concat (map (\<lambda>(_, by_z). map snd (btree_range (cz minimum_chunk) (cz maximum_chunk) by_z))
            (btree_range (cx minimum_chunk) (cx maximum_chunk) surface_revisions))
      in case revisions of [] \<Rightarrow> INITIAL_REVISION | r # rs \<Rightarrow> fold max rs r)"

definition surface_terrain_revision :: "page_key \<Rightarrow> edit_state \<Rightarrow> u64 option" where
  "surface_terrain_revision root st =
     map_option (\<lambda>((minimum_x, minimum_z), (maximum_x, maximum_z)).
       surface_terrain_revision_in (es_surface_revisions st) minimum_x maximum_x minimum_z maximum_z) (horizontal_bounds root)"

text \<open>A root outside the grid gives \<open>None\<close>; an inner \<open>None\<close> is a panic of the journal's query, which a well-formed journal never has.\<close>

record chunk_edit_snapshot =
  ces_edits :: edit_map
  ces_revisions :: "u64 list"

record terrain_edit_snapshot =
  tes_edits :: edit_map
  tes_revision :: u64

definition snapshot_chunks :: "chunk_coord list \<Rightarrow> edit_state \<Rightarrow> chunk_edit_snapshot option" where
  "snapshot_chunks coords st = map_option (\<lambda>edits.
     \<lparr>ces_edits = edits, ces_revisions = map (\<lambda>coord. case btree_get (es_chunk_revisions st) coord of
         Some revision \<Rightarrow> revision | None \<Rightarrow> INITIAL_REVISION) coords\<rparr>) (snapshot_for_chunks (es_edits st) coords)"

definition snapshot_terrain_region :: "page_key \<Rightarrow> edit_state \<Rightarrow> terrain_edit_snapshot option option" where
  "snapshot_terrain_region root st = map_option (\<lambda>chunks.
     map_option (\<lambda>edits. \<lparr>tes_edits = edits, tes_revision = terrain_region_revision_of st chunks\<rparr>)
       (snapshot_for_chunks (es_edits st) chunks)) (terrain_region_chunks root)"

definition snapshot_surface_terrain :: "page_key \<Rightarrow> edit_state \<Rightarrow> terrain_edit_snapshot option option" where
  "snapshot_surface_terrain root st = map_option (\<lambda>((minimum_x, minimum_z), (maximum_x, maximum_z)).
     map_option (\<lambda>edits. \<lparr>tes_edits = edits, tes_revision =
         surface_terrain_revision_in (es_surface_revisions st) minimum_x maximum_x minimum_z maximum_z\<rparr>)
       (snapshot_for_voxel_columns minimum_x maximum_x minimum_z maximum_z (es_edits st))) (horizontal_bounds root)"

section \<open>The journal and its table\<close>

lemma zip_changes:
  assumes "distinct (map vm_coord ms)" "\<forall>m \<in> set ms. voxel_ok (vm_coord m)" "length ds = length ms"
  shows "distinct (map fst (zip (map vm_coord ms) ds))" "\<forall>(v, _) \<in> set (zip (map vm_coord ms) ds). voxel_ok v"
proof -
  show "distinct (map fst (zip (map vm_coord ms) ds))" using assms(1,3) by simp
  have "voxel_ok v" if "(v, d) \<in> set (zip (map vm_coord ms) ds)" for v d
  proof -
    have "v \<in> set (map vm_coord ms)" using that by (rule set_zip_leftD)
    then show ?thesis using assms(2) by auto
  qed
  then show "\<forall>(v, _) \<in> set (zip (map vm_coord ms) ds). voxel_ok v" by blast
qed

lemma em_chunk_same:
  assumes "em_wf a" "em_wf b" "\<And>l. em_lookup a key l = em_lookup b key l"
  shows "btree_get (em_chunks a) key = btree_get (em_chunks b) key"
proof -
  have "btree_get_or [] (em_chunks a) key = btree_get_or [] (em_chunks b) key"
    using assms(3) em_wf_chunk(1) assms(1,2) by (intro btree_ext) (auto simp: em_lookup_def)
  then show ?thesis
    using em_wf_get [OF assms(1), of key] em_wf_get [OF assms(2), of key]
    by (cases "btree_get (em_chunks a) key"; cases "btree_get (em_chunks b) key") auto
qed

lemma overrides_other_chunk:
  assumes "em_wf em" "distinct (map fst changes)" "\<forall>(v, _) \<in> set changes. voxel_ok v"
    and "\<forall>(v, _) \<in> set changes. chunk_key (voxel_chunk v) \<noteq> key"
  shows "btree_get (em_chunks (replace_durable_overrides changes em)) key = btree_get (em_chunks em) key"
proof -
  note s = replace_durable_overrides_spec [OF assms(1-3)]
  have "key_changes key changes = []"
  proof (rule ccontr)
    assume "key_changes key changes \<noteq> []"
    then obtain l x where "(l, x) \<in> set (key_changes key changes)" by (metis last_in_set surj_pair)
    then obtain v where "(v, x) \<in> set changes" "address v = (key, l)" by (auto simp: key_changes_mem)
    then show False using assms(4) by (auto simp: address_def)
  qed
  then show ?thesis by (intro em_chunk_same [OF s(1) assms(1)]) (simp add: s(2))
qed

definition chunks_stored :: "(u8 list \<Rightarrow> u8 list) \<Rightarrow> edit_database \<Rightarrow> edit_map \<Rightarrow> bool" where
  "chunks_stored blake3 db em \<longleftrightarrow> btree_wf (db_edit_chunks db) \<and>
     (\<forall>key. btree_get (db_edit_chunks db) key = encode_chunk_overrides blake3 (chunk_of_key key) em)"

lemma persist_chunks_get:
  assumes "btree_wf table"
  shows "btree_wf (fold persist_chunk (map (\<lambda>c. (c, f c)) cs) table) \<and>
    btree_get (fold persist_chunk (map (\<lambda>c. (c, f c)) cs) table) key =
      (if chunk_of_key key \<in> set cs then f (chunk_of_key key) else btree_get table key)"
  using assms
proof (induction cs arbitrary: table)
  case (Cons c cs)
  have wf: "btree_wf (persist_chunk (c, f c) table)" using Cons.prems by (cases "f c") simp_all
  have "btree_get (persist_chunk (c, f c) table) key = (if key = chunk_key c then f c else btree_get table key)"
    using Cons.prems by (cases "f c") (simp_all add: btree_get_insert btree_get_remove)
  moreover have "chunk_of_key key = c \<longleftrightarrow> key = chunk_key c" by auto
  ultimately show ?case using Cons.IH [OF wf] by auto
qed simp

lemma encode_same_chunk:
  "btree_get (em_chunks a) (chunk_key c) = btree_get (em_chunks b) (chunk_key c) \<Longrightarrow>
   encode_chunk_overrides blake3 c a = encode_chunk_overrides blake3 c b"
  by (simp add: encode_chunk_overrides_def)

text \<open>Writing the records of the mutated chunks keeps the table the image of the journal.\<close>

lemma chunks_stored_step:
  assumes "chunks_stored blake3 db em" "em_wf em" "distinct (map vm_coord ms)" "\<forall>m \<in> set ms. voxel_ok (vm_coord m)"
    and "length ds = length ms"
  defines "em' \<equiv> replace_durable_overrides (zip (map vm_coord ms) ds) em"
  shows "chunks_stored blake3 (db\<lparr>db_edit_chunks :=
    fold persist_chunk (encode_durable_chunks blake3 em' ms) (db_edit_chunks db)\<rparr>) em'"
proof -
  let ?cs = "sort (remdups (map (\<lambda>m. voxel_chunk (vm_coord m)) ms))"
  note changes = zip_changes [OF assms(3-5)]
  have "encode_chunk_overrides blake3 (chunk_of_key key) em' = encode_chunk_overrides blake3 (chunk_of_key key) em"
    if "chunk_of_key key \<notin> set ?cs" for key
  proof (rule encode_same_chunk)
    have "\<forall>(v, _) \<in> set (zip (map vm_coord ms) ds). chunk_key (voxel_chunk v) \<noteq> key"
      using that by (auto dest!: set_zip_leftD)
    then show "btree_get (em_chunks em') (chunk_key (chunk_of_key key)) = btree_get (em_chunks em) (chunk_key (chunk_of_key key))"
      unfolding em'_def using overrides_other_chunk [OF assms(2) changes] by simp
  qed
  moreover have "encode_durable_chunks blake3 em' ms = map (\<lambda>c. (c, encode_chunk_overrides blake3 c em')) ?cs"
    by (simp add: encode_durable_chunks_def)
  ultimately show ?thesis
    using assms(1) persist_chunks_get [of "db_edit_chunks db" "\<lambda>c. encode_chunk_overrides blake3 c em'" ?cs]
    by (simp add: chunks_stored_def del: set_sort)
qed

lemma load_stored_edits:
  assumes "digests_ok blake3" "em_wf em" "chunks_stored blake3 db em" "db_revision db = int (unat revision)" "0 < revision"
  shows "load_edits blake3 db = Inr (em, revision)"
proof -
  have some: "encode_chunk_overrides blake3 (chunk_of_key key) em = Some (the (encode_chunk_overrides blake3 (chunk_of_key key) em))
      \<longleftrightarrow> btree_get (em_chunks em) key \<noteq> None" for key
  proof (cases "btree_get (em_chunks em) key")
    case None
    then show ?thesis by (simp add: encode_chunk_overrides_def)
  next
    case (Some chunk)
    then have "length chunk \<le> u32_max" using em_wf_get [OF assms(2)] ec_wf_length [of chunk] by fastforce
    then show ?thesis using Some by (simp add: encode_chunk_overrides_def Let_def)
  qed
  have wf: "btree_wf (em_chunks em)" using assms(2) by (simp add: em_wf_def)
  have "db_edit_chunks db = map (\<lambda>(key, _). (key, the (encode_chunk_overrides blake3 (chunk_of_key key) em))) (em_chunks em)"
  proof (rule btree_ext)
    show "btree_wf (db_edit_chunks db)" using assms(3) by (simp add: chunks_stored_def)
    show "btree_wf (map (\<lambda>(key, _). (key, the (encode_chunk_overrides blake3 (chunk_of_key key) em))) (em_chunks em))"
      using wf by simp
    fix key
    have "btree_get (map (\<lambda>(key, _). (key, the (encode_chunk_overrides blake3 (chunk_of_key key) em))) (em_chunks em)) key =
        map_option (\<lambda>_. the (encode_chunk_overrides blake3 (chunk_of_key key) em)) (btree_get (em_chunks em) key)"
      by simp
    also have "\<dots> = encode_chunk_overrides blake3 (chunk_of_key key) em"
      using some [of key] by (cases "btree_get (em_chunks em) key"; cases "encode_chunk_overrides blake3 (chunk_of_key key) em") auto
    finally show "btree_get (db_edit_chunks db) key =
        btree_get (map (\<lambda>(key, _). (key, the (encode_chunk_overrides blake3 (chunk_of_key key) em))) (em_chunks em)) key"
      using assms(3) by (simp add: chunks_stored_def)
  qed
  then have "map (\<lambda>(key, payload). (chunk_of_key key, payload)) (db_edit_chunks db) = journal_records blake3 em"
    by (simp add: journal_records_def edited_chunks_def btree_keys_def chunk_of_key_def case_prod_unfold)
  then show ?thesis
    using hydrate_journal_records [OF assms(1,2)] positive_sql [OF assms(5)] by (simp add: load_edits_def assms(4) del: try_Inr)
qed

section \<open>A failed commit\<close>

text \<open>Putting back the overrides that were there restores the journal itself.\<close>

lemma restore_overrides_id:
  assumes "em_wf em" "distinct (map vm_coord ms)" "\<forall>m \<in> set ms. voxel_ok (vm_coord m)" "length ds = length ms"
  shows "restore_overrides ms (map (\<lambda>m. override_at em (vm_coord m)) ms)
    (replace_durable_overrides (zip (map vm_coord ms) ds) em) = em"
proof -
  let ?changes = "zip (map vm_coord ms) ds"
  let ?undo = "zip (map vm_coord ms) (map (\<lambda>m. override_at em (vm_coord m)) ms)"
  have undo: "distinct (map fst ?undo)" "\<forall>(v, _) \<in> set ?undo. voxel_ok v"
    by (rule zip_changes [OF assms(2,3)], simp)+
  note changes = zip_changes [OF assms(2-4)]
  note s = replace_durable_overrides_spec(1) [OF assms(1) changes]
  have graph: "?undo = map (\<lambda>c. (c, override_at em c)) (map vm_coord ms)"
    using zip_graph [of "map vm_coord ms" "override_at em"] by (simp add: comp_def)
  have fsts: "map fst ?changes = map vm_coord ms" using assms(4) by simp
  have dom: "map_of ?changes v = None \<longleftrightarrow> v \<notin> set (map vm_coord ms)" for v
    unfolding map_of_eq_None_iff set_map [symmetric, of fst] fsts ..
  show ?thesis
    unfolding restore_overrides_def
  proof (rule override_at_ext)
    show "em_wf (replace_durable_overrides ?undo (replace_durable_overrides ?changes em))"
      by (rule replace_durable_overrides_spec(1) [OF s undo])
    fix v
    show "override_at (replace_durable_overrides ?undo (replace_durable_overrides ?changes em)) v = override_at em v"
      unfolding replace_durable_overrides_at [OF s undo] replace_durable_overrides_at [OF assms(1) changes]
      using dom [of v] by (auto simp: graph map_of_graph simp del: map_map)
  qed (rule assms(1))
qed

section \<open>Planning and committing\<close>

definition prepared_ok ::
    "(voxel_coord \<Rightarrow> material) \<Rightarrow> edit_map \<Rightarrow> edit_action \<Rightarrow> edit_volume \<Rightarrow> material_inventory \<Rightarrow> edit_plan \<Rightarrow> bool" where
  "prepared_ok g planning action volume inventory prepared \<longleftrightarrow>
     plan_of g planning action volume inventory (ep_plan prepared) \<and>
     ep_affected_chunks prepared = mutation_chunks (pl_mutations (ep_plan prepared)) \<and>
     (if pl_mutations (ep_plan prepared) = [] then ep_inventory prepared = inventory
      else unat (mi_revision (ep_inventory prepared)) = unat (mi_revision inventory) + 1 \<and>
        mi_counts (ep_inventory prepared) = mi_counts (pl_inventory (ep_plan prepared)))"

lemma plan_edit_Inr:
  assumes "serves (en_source env) g" "counts_ok (dp_inventory player)"
    and "edit_action_volume (ed_action command) = Some volume" "plan_edit env player planning command = Inr prepared"
  shows "prepared_ok g planning (ed_action command) volume (dp_inventory player) prepared"
proof -
  obtain plan inventory chunks where p: "plan_action (en_source env) planning (dp_inventory player) (ed_action command) = Inr plan"
    and i: "(if pl_mutations plan \<noteq> [] then attempt (ok_or (AuthorityError ''inventory revision overflowed'')
        (u64_checked_add (mi_revision (dp_inventory player)) 1)) (\<lambda>revision. Inr ((pl_inventory plan)\<lparr>mi_revision := revision\<rparr>))
      else Inr (dp_inventory player)) = Inr inventory"
    and c: "(if pl_mutations plan \<noteq> [] then affected_products (pl_mutations plan) else Inr []) = Inr chunks"
    and prepared: "prepared = \<lparr>ep_plan = plan, ep_inventory = inventory, ep_affected_chunks = chunks\<rparr>"
    using assms(4) unfolding plan_edit_def Let_def try_Inr if_Inl_Inr by blast
  have m: "mutation_chunks [] = []" by (simp add: mutation_chunks_def)
  have chunks: "chunks = mutation_chunks (pl_mutations plan)"
    using c m by (auto simp: affected_products_def split: if_splits)
  have "if pl_mutations plan = [] then inventory = dp_inventory player
      else unat (mi_revision inventory) = unat (mi_revision (dp_inventory player)) + 1 \<and>
        mi_counts inventory = mi_counts (pl_inventory plan)"
    using i checked_add_unat [of "mi_revision (dp_inventory player)" 1] by (auto simp: checked_add_Some split: if_splits)
  then show ?thesis using plan_action_Inr [OF assms(1-3) p] by (simp add: prepared_ok_def prepared chunks)
qed

lemma prepared_mutations:
  assumes "prepared_ok g planning action volume inventory prepared" "edit_action_volume action = Some volume"
  defines "ms \<equiv> pl_mutations (ep_plan prepared)"
  shows "distinct (map vm_coord ms)" "\<forall>m \<in> set ms. voxel_ok (vm_coord m)"
    "length (pl_durable_overrides (ep_plan prepared)) = length ms" "selection_ok action ms" "length ms \<le> 1021"
    "zip (map vm_coord ms) (pl_durable_overrides (ep_plan prepared)) = plan_changes (ep_plan prepared)"
proof -
  have p: "plan_of g planning action volume inventory (ep_plan prepared)" using assms(1) by (simp add: prepared_ok_def)
  show len: "length (pl_durable_overrides (ep_plan prepared)) = length ms" using p by (simp add: plan_of_def ms_def)
  show "zip (map vm_coord ms) (pl_durable_overrides (ep_plan prepared)) = plan_changes (ep_plan prepared)"
    by (simp add: plan_changes_def ms_def)
  have coords: "map vm_coord ms = changed_voxels g planning action volume"
    using p by (simp add: plan_of_def ms_def comp_def)
  then show "distinct (map vm_coord ms)" using changed_distinct by simp
  have "voxel_ok c" if "c \<in> set (map vm_coord ms)" for c
    using that changed_set [of c g planning action volume] stencil_offsets [OF assms(2)] unfolding coords by blast
  then show "\<forall>m \<in> set ms. voxel_ok (vm_coord m)" by simp
  show "selection_ok action ms" unfolding ms_def by (rule plan_selection [OF assms(2) p])
  then show "length ms \<le> 1021" by (rule selection_small)
qed

definition committed :: "edit_plan \<Rightarrow> u64 \<Rightarrow> edit_database \<Rightarrow> edit_state \<Rightarrow> edit_state" where
  "committed prepared revision db st =
     (let st' = st\<lparr>es_db := db, es_durable_edits := replace_durable_overrides (plan_changes (ep_plan prepared)) (es_durable_edits st),
           es_edits := replace_durable_overrides (plan_changes (ep_plan prepared)) (es_edits st)\<rparr>
      in if pl_mutations (ep_plan prepared) \<noteq> []
         then st'\<lparr>es_revision := revision,
           es_chunk_revisions := fold (\<lambda>coord. btree_insert coord revision) (ep_affected_chunks prepared) (es_chunk_revisions st),
           es_surface_revisions := fold (\<lambda>coord. record_surface_revision coord revision) (ep_affected_chunks prepared)
             (es_surface_revisions st)\<rparr>
         else st')"

definition commit_of :: "u64 \<Rightarrow> edit_command \<Rightarrow> edit_plan \<Rightarrow> u64 \<Rightarrow> edit_commit" where
  "commit_of editor_connection_id command prepared revision =
     \<lparr>ct_operation_id = ed_operation_id command, ct_edit_session_id = ed_edit_session_id command,
      ct_editor_connection_id = editor_connection_id, ct_revision = revision, ct_action = ed_action command,
      ct_mutations = pl_mutations (ep_plan prepared), ct_affected_chunks = ep_affected_chunks prepared,
      ct_editor_inventory = Some (ep_inventory prepared)\<rparr>"

lemma commit_edit_cases:
  assumes "prepared_ok g planning (ed_action command) volume (dp_inventory player) prepared"
    and "edit_action_volume (ed_action command) = Some volume" "em_wf (es_durable_edits st)" "em_wf (es_edits st)"
  shows "(\<exists>e. commit_edit env fault p conn command player prepared st = (Inl e, st)) \<or>
    (\<exists>revision db. commit_edit env fault p conn command player prepared st =
        (Inr (commit_of conn command prepared revision, pl_mutations (ep_plan prepared) \<noteq> []),
         committed prepared revision db st) \<and>
      unat revision = unat (es_revision st) + (if pl_mutations (ep_plan prepared) = [] then 0 else 1) \<and>
      persist_action fault p command revision (dp_inventory player) (ep_inventory prepared) (pl_mutations (ep_plan prepared))
        (encode_durable_chunks (en_blake3 env)
          (replace_durable_overrides (plan_changes (ep_plan prepared)) (es_durable_edits st)) (pl_mutations (ep_plan prepared)))
        (ep_affected_chunks prepared) (es_db st) = Inr db)"
proof -
  let ?ms = "pl_mutations (ep_plan prepared)"
  note m = prepared_mutations [OF assms(1,2)]
  let ?rev = "if ?ms \<noteq> [] then ok_or (AuthorityError ''edit revision overflowed'') (u64_checked_add (es_revision st) 1)
    else Inr (es_revision st)"
  show ?thesis
  proof (cases ?rev)
    case (Inl e)
    then show ?thesis unfolding commit_edit_def by (simp add: Let_def)
  next
    case (Inr revision)
    have rev: "unat revision = unat (es_revision st) + (if ?ms = [] then 0 else 1)"
      using Inr checked_add_unat [of "es_revision st" 1] by (auto simp: checked_add_Some split: if_splits)
    let ?durable = "replace_durable_overrides (plan_changes (ep_plan prepared)) (es_durable_edits st)"
    let ?persist = "persist_action fault p command revision (dp_inventory player) (ep_inventory prepared) ?ms
        (encode_durable_chunks (en_blake3 env) ?durable ?ms) (ep_affected_chunks prepared) (es_db st)"
    show ?thesis
    proof (cases ?persist)
      case (Inl e)
      have "commit_edit env fault p conn command player prepared st = (Inl e, st)"
        unfolding commit_edit_def Let_def Inr sum.case m(6) Inl
        using restore_overrides_id [OF assms(3) m(1-3)] restore_overrides_id [OF assms(4) m(1-3)] by (simp add: m(6))
      then show ?thesis by blast
    next
      case (Inr db)
      have "commit_edit env fault p conn command player prepared st =
          (Inr (commit_of conn command prepared revision, ?ms \<noteq> []), committed prepared revision db st)"
        unfolding commit_edit_def Let_def \<open>?rev = Inr revision\<close> sum.case m(6) Inr by (simp add: commit_of_def committed_def)
      then show ?thesis using rev Inr by blast
    qed
  qed
qed

end
