(* ===== verification/Authority_Invariant.thy ===== *)
theory Authority_Invariant
  imports Edit_Authority
begin

text \<open>
  The state the edit authority keeps (\<open>world-service/src/edits.rs\<close>): the journals, the revision
  tables, the receipts and the players' rows agree with the database after every operation, so that
  a restart of the server finds exactly the state it left.
\<close>

declare split_paired_All [simp del] split_paired_Ex [simp del]

section \<open>The surface index\<close>

text \<open>The index holds, for each column of chunks, the newest revision of a chunk of the column.\<close>

definition greatest :: "u64 set \<Rightarrow> u64 \<Rightarrow> bool" where
  "greatest V v \<longleftrightarrow> v \<in> V \<and> (\<forall>w \<in> V. w \<le> v)"

definition surface_at :: "(int, (int, u64) btree) btree \<Rightarrow> int \<Rightarrow> int \<Rightarrow> u64 option" where
  "surface_at S x z = btree_get (btree_get_or [] S x) z"

definition surface_wf :: "(int, (int, u64) btree) btree \<Rightarrow> bool" where
  "surface_wf S \<longleftrightarrow> btree_wf S \<and> (\<forall>x row. btree_get S x = Some row \<longrightarrow> btree_wf row \<and> row \<noteq> [])"

lemma btree_insert_nonempty [simp]: "btree_insert k v m \<noteq> []"
  by (cases "(k, v, m)" rule: btree_insert.cases) auto

lemma surface_row: "surface_wf S \<Longrightarrow> btree_wf (btree_get_or [] S x)"
  by (cases "btree_get S x") (auto simp: surface_wf_def)

lemma record_surface_at:
  "surface_at (record_surface_revision c r S) x z =
     (if x = cx c \<and> z = cz c then Some (case surface_at S x z of Some current \<Rightarrow> max current r | None \<Rightarrow> r)
      else surface_at S x z)"
  by (auto simp: surface_at_def record_surface_revision_def Let_def btree_get_insert btree_get_or_def)

lemma record_surface_wf: "surface_wf S \<Longrightarrow> surface_wf (record_surface_revision c r S)"
  using surface_row [of S "cx c"]
  by (auto simp: surface_wf_def record_surface_revision_def Let_def btree_get_insert)

lemma surface_ext:
  assumes "surface_wf S" "surface_wf T" "\<And>x z. surface_at S x z = surface_at T x z"
  shows "S = T"
proof (rule btree_ext)
  fix x
  have "btree_get_or [] S x = btree_get_or [] T x"
    using assms surface_row by (intro btree_ext) (auto simp: surface_at_def)
  then show "btree_get S x = btree_get T x"
    using assms(1,2) unfolding surface_wf_def by (cases "btree_get S x"; cases "btree_get T x") auto
qed (use assms(1,2) in \<open>simp_all add: surface_wf_def\<close>)

definition column_revisions :: "(chunk_coord \<times> u64) list \<Rightarrow> int \<Rightarrow> int \<Rightarrow> u64 set" where
  "column_revisions rs x z = {r. \<exists>y. (chunk_at x y z, r) \<in> set rs}"

lemma column_revisions_Cons:
  "column_revisions ((c, r) # rs) x z = (if x = cx c \<and> z = cz c then {r} else {}) \<union> column_revisions rs x z"
  by (cases c) (auto simp: column_revisions_def)

lemma greatest_max: "greatest (insert (max u r) V) v \<longleftrightarrow> greatest (insert u (insert r V)) v"
proof -
  have "v = max u r \<or> v \<in> V \<longleftrightarrow> v = u \<or> v = r \<or> v \<in> V" if "u \<le> v" "r \<le> v"
    using that by (cases "u \<le> r") (auto simp: max_def)
  then show ?thesis unfolding greatest_def by (auto simp: max_def split: if_splits)
qed

lemma fold_record:
  "surface_wf S \<Longrightarrow> surface_wf (fold (\<lambda>(c, r). record_surface_revision c r) rs S) \<and>
   (surface_at (fold (\<lambda>(c, r). record_surface_revision c r) rs S) x z = Some v \<longleftrightarrow>
    greatest (set_option (surface_at S x z) \<union> column_revisions rs x z) v)"
proof (induction rs arbitrary: S)
  case Nil
  then show ?case by (auto simp: greatest_def column_revisions_def)
next
  case (Cons cr rs)
  obtain c r where cr: "cr = (c, r)" by fastforce
  note IH = Cons.IH [OF record_surface_wf [OF Cons.prems], of c r]
  have "greatest (set_option (surface_at (record_surface_revision c r S) x z) \<union> column_revisions rs x z) v \<longleftrightarrow>
      greatest (set_option (surface_at S x z) \<union> column_revisions (cr # rs) x z) v"
  proof (cases "surface_at S x z")
    case None
    then show ?thesis by (cases "x = cx c \<and> z = cz c") (auto simp: record_surface_at cr column_revisions_Cons insert_commute)
  next
    case (Some u)
    note greatest_max [of u r]
    then show ?thesis using Some
      by (cases "x = cx c \<and> z = cz c") (auto simp: record_surface_at cr column_revisions_Cons insert_commute)
  qed
  then show ?case using IH by (simp add: cr)
qed

definition surface_exact :: "(int, (int, u64) btree) btree \<Rightarrow> (chunk_coord, u64) btree \<Rightarrow> bool" where
  "surface_exact S revs \<longleftrightarrow> surface_wf S \<and>
     (\<forall>x z v. surface_at S x z = Some v \<longleftrightarrow> greatest (column_revisions revs x z) v)"

lemma build_surface_exact: "surface_exact (build_surface_revision_index revs) revs"
proof -
  have "surface_wf []" by (simp add: surface_wf_def)
  from fold_record [OF this, of revs] show ?thesis
    by (simp add: surface_exact_def build_surface_revision_index_def surface_at_def)
qed

lemma option_Some_ext: "(\<And>v. a = Some v \<longleftrightarrow> b = Some v) \<Longrightarrow> a = b"
  by (cases a; cases b) auto

lemma surface_exact_unique: "surface_exact S revs \<Longrightarrow> surface_exact T revs \<Longrightarrow> S = T"
  unfolding surface_exact_def by (intro surface_ext option_Some_ext) auto

lemma column_revisions_get: "btree_wf revs \<Longrightarrow> r \<in> column_revisions revs x z \<longleftrightarrow> (\<exists>y. btree_get revs (chunk_at x y z) = Some r)"
  by (simp add: column_revisions_def btree_get_iff)

lemma fold_insert_get:
  "btree_get (fold (\<lambda>c. btree_insert c r) cs m) c = (if c \<in> set cs then Some r else btree_get m c)"
  by (induction cs arbitrary: m) (auto simp: btree_get_insert)

lemma fold_insert_wf: "btree_wf m \<Longrightarrow> btree_wf (fold (\<lambda>c. btree_insert c r) cs m)"
  by (induction cs arbitrary: m) auto

text \<open>Recording a newer revision for some chunks keeps the index the one a restart builds.\<close>

lemma record_newer:
  assumes "btree_wf revs" "\<forall>c r. btree_get revs c = Some r \<longrightarrow> r \<le> revision"
  shows "fold (\<lambda>c. record_surface_revision c revision) cs (build_surface_revision_index revs) =
    build_surface_revision_index (fold (\<lambda>c. btree_insert c revision) cs revs)"
proof (rule surface_exact_unique)
  let ?S = "build_surface_revision_index revs" and ?new = "map (\<lambda>c. (c, revision)) cs"
  let ?revs = "fold (\<lambda>c. btree_insert c revision) cs revs"
  have S: "surface_wf ?S" "\<And>x z v. surface_at ?S x z = Some v \<longleftrightarrow> greatest (column_revisions revs x z) v"
    using build_surface_exact [of revs] by (auto simp: surface_exact_def)
  have f: "fold (\<lambda>(c, r). record_surface_revision c r) ?new ?S = fold (\<lambda>c. record_surface_revision c revision) cs ?S"
    by (simp add: fold_map comp_def)
  note r = fold_record [OF S(1), of ?new, unfolded f]
  have "greatest (set_option (surface_at ?S x z) \<union> column_revisions ?new x z) v \<longleftrightarrow> greatest (column_revisions ?revs x z) v" for x z v
  proof -
    have new: "column_revisions ?new x z = (if \<exists>y. chunk_at x y z \<in> set cs then {revision} else {})"
      by (auto simp: column_revisions_def)
    have old: "w \<le> revision" if "w \<in> column_revisions revs x z" for w
      using that assms by (auto simp: column_revisions_get)
    have after: "w \<in> column_revisions ?revs x z \<longleftrightarrow> (\<exists>y. chunk_at x y z \<in> set cs \<and> w = revision \<or>
        chunk_at x y z \<notin> set cs \<and> btree_get revs (chunk_at x y z) = Some w)" for w
      unfolding column_revisions_get [OF fold_insert_wf [OF assms(1)]] fold_insert_get by auto
    show ?thesis
    proof (cases "\<exists>y. chunk_at x y z \<in> set cs")
      case True
      have "w \<le> revision" if "w \<in> column_revisions ?revs x z" for w
        using that old unfolding after by (auto simp: column_revisions_get [OF assms(1)])
      moreover have "revision \<in> column_revisions ?revs x z" using True unfolding after by blast
      moreover have "w \<le> revision" if "surface_at ?S x z = Some w" for w
        using that old unfolding S(2) greatest_def by blast
      ultimately show ?thesis using True unfolding new greatest_def by (auto intro: order.antisym)
    next
      case False
      then have "column_revisions ?revs x z = column_revisions revs x z"
        using after column_revisions_get [OF assms(1)] by blast
      moreover have "greatest (set_option (surface_at ?S x z)) v \<longleftrightarrow> surface_at ?S x z = Some v"
        by (cases "surface_at ?S x z") (auto simp: greatest_def)
      ultimately show ?thesis using False unfolding new S(2) by simp
    qed
  qed
  then show "surface_exact (fold (\<lambda>c. record_surface_revision c revision) cs ?S) ?revs"
    unfolding surface_exact_def using r by blast
qed (rule build_surface_exact)

section \<open>The revision table\<close>

definition revisions_stored :: "edit_database \<Rightarrow> (chunk_coord, u64) btree \<Rightarrow> u64 \<Rightarrow> bool" where
  "revisions_stored db revs revision \<longleftrightarrow> btree_wf revs \<and> db_chunk_revisions db = map (\<lambda>(c, r). (c, int (unat r))) revs \<and>
     (\<forall>c r. btree_get revs c = Some r \<longrightarrow> 0 < r \<and> r \<le> revision \<and> is_world_representable c)"

lemma btree_insert_map: "map (\<lambda>(k, v). (k, f v)) (btree_insert k v m) = btree_insert k (f v) (map (\<lambda>(k, v). (k, f v)) m)"
  by (induction k v m rule: btree_insert.induct) auto

lemma fold_insert_map:
  "map (\<lambda>(k, v). (k, f v)) (fold (\<lambda>c. btree_insert c r) cs m) = fold (\<lambda>c. btree_insert c (f r)) cs (map (\<lambda>(k, v). (k, f v)) m)"
  by (induction cs arbitrary: m) (simp_all add: btree_insert_map)

lemma load_revision_rows_stored:
  assumes "\<forall>(c, r) \<in> set rs. 0 < r \<and> r \<le> revision \<and> is_world_representable c"
  shows "load_revision_rows revision (map (\<lambda>(c, r). (c, int (unat r))) rs) m = Inr (fold (\<lambda>(c, r). btree_insert c r) rs m)"
  using assms
proof (induction rs arbitrary: m)
  case (Cons cr rs)
  obtain c r where cr: "cr = (c, r)" by fastforce
  have "positive_u64 (int (unat r)) = Inr r" using Cons.prems by (intro positive_sql) (simp add: cr)
  then show ?case using Cons by (simp add: cr not_less)
qed simp

lemma load_stored_revisions:
  assumes "revisions_stored db revs revision"
  shows "load_product_revisions db revision = Inr revs"
proof -
  have "fold (\<lambda>(c, r). btree_insert c r) revs [] = revs"
    using btree_collect_id [of revs] assms by (simp add: btree_collect_def revisions_stored_def)
  moreover have "\<forall>(c, r) \<in> set revs. 0 < r \<and> r \<le> revision \<and> is_world_representable c"
    using assms btree_get_iff by (fastforce simp: revisions_stored_def)
  ultimately show ?thesis
    using load_revision_rows_stored [of revs revision "[]"] assms
    by (simp add: load_product_revisions_def revisions_stored_def)
qed

lemma revisions_stored_step:
  assumes "revisions_stored db revs old" "old \<le> revision" "0 < revision" "list_all is_world_representable cs"
  shows "revisions_stored (db\<lparr>db_chunk_revisions := fold (\<lambda>c. btree_insert c (int (unat revision))) cs (db_chunk_revisions db)\<rparr>)
    (fold (\<lambda>c. btree_insert c revision) cs revs) revision"
  using assms fold_insert_wf [of revs revision cs] fold_insert_map [of "\<lambda>r. int (unat r)" revision cs revs]
  by (auto simp: revisions_stored_def fold_insert_get list_all_iff intro: order.trans)

section \<open>The players' rows\<close>

definition player_stored :: "(32 word list \<Rightarrow> bool) \<Rightarrow> edit_database \<Rightarrow> u8 list \<Rightarrow> player_row \<Rightarrow> bool" where
  "player_stored pose_valid db p row \<longleftrightarrow>
     (\<exists>i r. stored_inventory db p i \<and> pr_inventory_revision row = int (unat (mi_revision i)) \<and>
        positive_u64 (pr_resume_revision row) = Inr r \<and>
        validate_resume pose_valid \<lparr>re_revision = r, re_pose = pr_pose row\<rparr> = Inr ()) \<and>
     (\<forall>s. pr_session row = Some s \<longrightarrow> \<not> session_nil s)"

definition players_stored :: "(32 word list \<Rightarrow> bool) \<Rightarrow> edit_database \<Rightarrow> bool" where
  "players_stored pose_valid db \<longleftrightarrow> (\<forall>p row. db_players db p = Some row \<longrightarrow> player_stored pose_valid db p row)"

lemma load_players_stored:
  assumes "players_stored pose_valid db" "db_players db p = Some row"
  obtains i r where "stored_inventory db p i" "pr_inventory_revision row = int (unat (mi_revision i))"
    "load_durable_player pose_valid db p = Inr (Some \<lparr>dp_current_edit_session = pr_session row,
       dp_max_operation_id = pr_max_operation row, dp_inventory = i, dp_resume = \<lparr>re_revision = r, re_pose = pr_pose row\<rparr>\<rparr>)"
    "positive_u64 (pr_resume_revision row) = Inr r"
proof -
  obtain i r where "stored_inventory db p i" "pr_inventory_revision row = int (unat (mi_revision i))"
      "positive_u64 (pr_resume_revision row) = Inr r" "validate_resume pose_valid \<lparr>re_revision = r, re_pose = pr_pose row\<rparr> = Inr ()"
      "\<forall>s. pr_session row = Some s \<longrightarrow> \<not> session_nil s"
    using assms unfolding players_stored_def player_stored_def by blast
  then show ?thesis using load_stored_player [OF _ assms(2)] that by blast
qed

lemma load_player_None: "load_durable_player pose_valid db p = Inr None \<longleftrightarrow> db_players db p = None"
  by (auto simp: load_durable_player_def Let_def split: option.splits if_splits)

section \<open>The invariant\<close>

definition spawn_changes :: "protected_spawn \<Rightarrow> change list" where
  "spawn_changes spawn = map (\<lambda>mutation. (vm_coord mutation, Some (vm_material mutation))) (ps_overrides spawn)"

text \<open>The pillar the server builds lies in the area it protects.\<close>

definition spawn_ok :: "protected_spawn \<Rightarrow> bool" where
  "spawn_ok spawn \<longleftrightarrow> distinct (map vm_coord (ps_overrides spawn)) \<and>
     (\<forall>m \<in> set (ps_overrides spawn). voxel_ok (vm_coord m) \<and> spawn_contains spawn (vm_coord m))"

definition spawn_layered :: "edit_state \<Rightarrow> bool" where
  "spawn_layered st \<longleftrightarrow> (case es_protected_spawn st of
     None \<Rightarrow> es_edits st = es_durable_edits st
   | Some spawn \<Rightarrow> spawn_ok spawn \<and> es_edits st = replace_durable_overrides (spawn_changes spawn) (es_durable_edits st))"

definition authority_wf :: "edit_env \<Rightarrow> u8 list \<Rightarrow> edit_state \<Rightarrow> bool" where
  "authority_wf env world_id st \<longleftrightarrow>
     db_version (es_db st) = EDIT_DATABASE_SCHEMA_VERSION \<and> db_world_id (es_db st) = world_id \<and>
     db_source_hash (es_db st) = ws_identity_hash (en_source env) \<and>
     em_wf (es_durable_edits st) \<and> chunks_stored (en_blake3 env) (es_db st) (es_durable_edits st) \<and>
     0 < es_revision st \<and> db_revision (es_db st) = int (unat (es_revision st)) \<and>
     revisions_stored (es_db st) (es_chunk_revisions st) (es_revision st) \<and>
     es_surface_revisions st = build_surface_revision_index (es_chunk_revisions st) \<and>
     receipts_wf (es_db st) \<and> players_stored (en_pose_valid env) (es_db st) \<and> spawn_layered st"

lemma spawn_changes_ok:
  "spawn_ok spawn \<Longrightarrow> distinct (map fst (spawn_changes spawn)) \<and> (\<forall>(v, _) \<in> set (spawn_changes spawn). voxel_ok v)"
  by (auto simp: spawn_ok_def spawn_changes_def comp_def)

lemma authority_edits_wf: "authority_wf env w st \<Longrightarrow> em_wf (es_edits st)"
  using spawn_changes_ok replace_durable_overrides_spec(1) [of "es_durable_edits st"]
  by (cases "es_protected_spawn st") (auto simp: authority_wf_def spawn_layered_def)

text \<open>The restarted server's state: the durable journal, before the spawn is built again.\<close>

definition restarted :: "edit_state \<Rightarrow> edit_state" where
  "restarted st = st\<lparr>es_edits := es_durable_edits st, es_protected_spawn := None\<rparr>"

lemma restart_exact:
  assumes "digests_ok (en_blake3 env)" "authority_wf env w st"
  shows "from_connection env w (es_db st) = Inr (restarted st)"
proof -
  have i: "initialize_schema w (ws_identity_hash (en_source env)) (es_db st) = Inr (es_db st)"
    using assms(2) by (simp add: initialize_schema_def authority_wf_def EDIT_DATABASE_SCHEMA_VERSION_def)
  have "load_edits (en_blake3 env) (es_db st) = Inr (es_durable_edits st, es_revision st)"
    using assms by (intro load_stored_edits) (simp_all add: authority_wf_def)
  moreover have "load_product_revisions (es_db st) (es_revision st) = Inr (es_chunk_revisions st)"
    using assms(2) by (intro load_stored_revisions) (simp add: authority_wf_def)
  ultimately show ?thesis
    using i assms(2) by (simp add: from_connection_def restarted_def authority_wf_def del: try_Inr)
qed

lemma restarted_wf: "authority_wf env w st \<Longrightarrow> authority_wf env w (restarted st)"
  by (simp add: authority_wf_def restarted_def spawn_layered_def)

lemma install_spawn_wf:
  "authority_wf env w st \<Longrightarrow> spawn_ok spawn \<Longrightarrow> authority_wf env w (install_protected_spawn spawn st)"
  by (simp add: authority_wf_def install_protected_spawn_def spawn_layered_def spawn_changes_def)

text \<open>Restarting and building the spawn again gives back the state.\<close>

lemma reinstall_spawn:
  assumes "authority_wf env w st" "es_protected_spawn st = Some spawn"
  shows "install_protected_spawn spawn (restarted st) = st"
  using assms by (simp add: authority_wf_def install_protected_spawn_def spawn_layered_def spawn_changes_def restarted_def)

lemma authority_start:
  assumes "from_connection env w db_empty = Inr st"
  shows "authority_wf env w st"
proof -
  have "chunks_stored b db em_empty" if "db_edit_chunks db = []" for b db
    using that by (simp add: chunks_stored_def encode_chunk_overrides_def em_empty_def)
  moreover have "st = \<lparr>es_db = db_empty\<lparr>db_version := 14, db_world_id := w, db_source_hash := ws_identity_hash (en_source env),
      db_revision := 1\<rparr>, es_durable_edits = em_empty, es_edits = em_empty, es_revision = 1, es_chunk_revisions = [],
      es_surface_revisions = [], es_protected_spawn = None\<rparr>"
    using assms by (simp add: from_connection_def initialize_schema_def db_empty_def load_edits_def load_product_revisions_def
      INITIAL_REVISION_def EDIT_DATABASE_SCHEMA_VERSION_def positive_u64_def build_surface_revision_index_def)
  ultimately show ?thesis
    by (simp add: authority_wf_def EDIT_DATABASE_SCHEMA_VERSION_def db_empty_def revisions_stored_def receipts_wf_def
      players_stored_def spawn_layered_def build_surface_revision_index_def player_receipts_def)
qed

end
