(* ===== verification/Authority_Steps.thy ===== *)
theory Authority_Steps
  imports Authority_Invariant
begin

text \<open>
  The operations of the edit authority as steps: every one of them keeps the invariant, an error
  leaves the state as it was, a command is applied at most once, and a restart finds the state the
  server left.
\<close>

declare split_paired_All [simp del] split_paired_Ex [simp del]

section \<open>The transaction of an edit\<close>

definition world_written ::
    "u8 list \<Rightarrow> player_row \<Rightarrow> u64 \<Rightarrow> material_inventory \<Rightarrow> (chunk_coord \<times> u8 list option) list \<Rightarrow> chunk_coord list \<Rightarrow>
     edit_database \<Rightarrow> edit_database" where
  "world_written p player revision after records chunks db =
     db\<lparr>db_edit_chunks := fold persist_chunk records (db_edit_chunks db), db_revision := int (unat revision),
      db_chunk_revisions := fold (\<lambda>coord. btree_insert coord (int (unat revision))) chunks (db_chunk_revisions db),
      db_players := (db_players db)(p \<mapsto> player\<lparr>pr_inventory_revision := int (unat (mi_revision after))\<rparr>),
      db_inventory := (\<lambda>(q, m). if q = p then Some (int (unat (mi_counts after ! material_id m))) else db_inventory db (q, m))\<rparr>"

text \<open>With nothing changed the same formula describes the rows left alone.\<close>

lemma world_unwritten:
  assumes "stored_inventory db p after" "db_players db p = Some player" "pr_inventory_revision player = int (unat (mi_revision after))"
    and "db_revision db = int (unat revision)"
  shows "world_written p player revision after [] [] db = db"
proof -
  have "(\<lambda>(q, m). if q = p then Some (int (unat (mi_counts after ! material_id m))) else db_inventory db (q, m)) = db_inventory db"
    using assms(1) by (auto simp: stored_inventory_def)
  moreover have "(db_players db)(p \<mapsto> player\<lparr>pr_inventory_revision := int (unat (mi_revision after))\<rparr>) = db_players db"
    using assms(2,3) by (auto simp: fun_upd_idem)
  ultimately show ?thesis using assms(4) by (simp add: world_written_def)
qed

lemma persist_action_spec:
  assumes "persist_action fault p command revision before after ms records chunks db = Inr db'"
    and "stored_inventory db p before" "db_players db p = Some player"
    and "pr_inventory_revision player = int (unat (mi_revision before))"
    and "ms = [] \<Longrightarrow> after = before \<and> records = [] \<and> chunks = [] \<and> db_revision db = int (unat revision)"
  shows "fault = None \<and> (ms = [] \<or> unat (mi_revision after) < 2 ^ 63) \<and>
    persist_operation p command revision ms chunks (world_written p player revision after records chunks db) = Inr db'"
proof (cases "ms = []")
  case True
  then show ?thesis
    using assms world_unwritten [OF assms(2-4)] by (auto simp: persist_action_def split: option.splits)
next
  case False
  then obtain db1 where w: "persist_world p revision before after records chunks db = Inr db1"
    and r: "persist_operation p command revision ms chunks db1 = Inr db'" "fault = None"
    using assms(1) by (auto simp: persist_action_def split: option.splits)
  then show ?thesis using persist_world_Inr [OF w assms(2,3)] by (simp add: world_written_def)
qed

lemma receipts_wf_rows:
  assumes "receipts_wf db" "db_operations db' = db_operations db"
    and "\<And>q row. db_players db q = Some row \<Longrightarrow>
      \<exists>row'. db_players db' q = Some row' \<and> (pr_session row' = pr_session row \<and> pr_max_operation row' = pr_max_operation row \<or>
        (\<forall>r \<in> set (db_operations db). op_player r = q \<longrightarrow> pr_session row' \<noteq> Some (op_session r)))"
  shows "receipts_wf db'"
proof -
  have "\<exists>player. db_players db' (op_player r) = Some player \<and> (pr_session player = Some (op_session r) \<longrightarrow>
      (\<exists>m. pr_max_operation player = Some m \<and> op_operation r \<le> m))" if r: "r \<in> set (db_operations db)" for r
  proof -
    obtain row where row: "db_players db (op_player r) = Some row" "pr_session row = Some (op_session r) \<Longrightarrow>
        \<exists>m. pr_max_operation row = Some m \<and> op_operation r \<le> m"
      using assms(1) r by (auto simp: receipts_wf_def list_all_iff)
    obtain row' where "db_players db' (op_player r) = Some row'" "pr_session row' = pr_session row \<and>
        pr_max_operation row' = pr_max_operation row \<or> pr_session row' \<noteq> Some (op_session r)"
      using assms(3) [OF row(1)] r by blast
    then show ?thesis using row(2) by auto
  qed
  then show ?thesis using assms(1,2) by (simp add: receipts_wf_def list_all_iff)
qed

text \<open>A row of another player stays stored when only \<open>p\<close>'s inventory changes.\<close>

lemma player_stored_inventory:
  assumes "player_stored pose_valid db q row" "\<And>m. db_inventory db' (q, m) = db_inventory db (q, m)"
  shows "player_stored pose_valid db' q row"
  using assms by (auto simp: player_stored_def stored_inventory_def)

section \<open>What an application does\<close>

record fresh_edit =
  fe_volume :: edit_volume
  fe_player :: durable_player
  fe_plan :: edit_plan
  fe_revision :: u64
  fe_db :: edit_database

text \<open>\<open>fresh\<close> describes an application that is new to the authority and passes every check.\<close>

definition fresh ::
    "edit_env \<Rightarrow> (voxel_coord \<Rightarrow> material) \<Rightarrow> u8 list \<Rightarrow> edit_command \<Rightarrow> edit_state \<Rightarrow> fresh_edit \<Rightarrow> bool" where
  "fresh env g p command st f \<longleftrightarrow>
     \<not> spawn_protected st (ed_action command) \<and> edit_action_volume (ed_action command) = Some (fe_volume f) \<and>
     load_operation (es_db st) p (ed_edit_session_id command) (ed_operation_id command) = Inr None \<and>
     load_durable_player (en_pose_valid env) (es_db st) p = Inr (Some (fe_player f)) \<and>
     dp_current_edit_session (fe_player f) = Some (ed_edit_session_id command) \<and>
     (\<forall>m. dp_max_operation_id (fe_player f) = Some m \<longrightarrow> m < ed_operation_id command) \<and>
     prepared_ok g (es_edits st) (ed_action command) (fe_volume f) (dp_inventory (fe_player f)) (fe_plan f) \<and>
     unat (fe_revision f) = unat (es_revision st) + (if pl_mutations (ep_plan (fe_plan f)) = [] then 0 else 1) \<and>
     persist_action None p command (fe_revision f) (dp_inventory (fe_player f)) (ep_inventory (fe_plan f))
       (pl_mutations (ep_plan (fe_plan f)))
       (encode_durable_chunks (en_blake3 env)
         (replace_durable_overrides (plan_changes (ep_plan (fe_plan f))) (es_durable_edits st)) (pl_mutations (ep_plan (fe_plan f))))
       (ep_affected_chunks (fe_plan f)) (es_db st) = Inr (fe_db f)"

lemma action_volume_fits:
  assumes "edit_action_volume action = Some v"
  shows "i32_ok (vx (ev_min v))" "i32_ok (vx (ev_max v))" "i32_ok (vz (ev_min v))" "i32_ok (vz (ev_max v))"
  using assms by (cases action; auto simp: volume_for_hit_Some voxel_ok_def)+

lemma plan_of_cong:
  assumes "\<And>c. volume_contains volume c \<Longrightarrow> override_at a c = override_at b c"
  shows "plan_of g a action volume inventory plan \<longleftrightarrow> plan_of g b action volume inventory plan"
proof -
  have w: "world g a c = world g b c" if "c \<in> set (volume_coordinates volume)" for c
    using assms that by (simp add: world_def resolve_generated_def set_coordinates)
  have "changed_voxels g a action volume = changed_voxels g b action volume"
    using w by (auto simp: changed_voxels_def intro: filter_cong)
  moreover have "amount (world g a) volume m = amount (world g b) volume m" for m
    unfolding amount_def using w by (intro arg_cong [where f = length] filter_cong) auto
  ultimately show ?thesis using w by (simp add: plan_of_def)
qed

lemma admit_Inr:
  assumes "authority_wf env w st"
    and "admit_edit env p conn command st = Inr admission" "edit_action_volume (ed_action command) = Some volume"
  shows "(\<exists>stored player. load_operation (es_db st) p (ed_edit_session_id command) (ed_operation_id command) = Inr (Some stored) \<and>
      so_action stored = ed_action command \<and> load_durable_player (en_pose_valid env) (es_db st) p = Inr (Some player) \<and>
      admission = AdmitReplay (stored_commit stored command conn (Some (dp_inventory player)))) \<or>
    (\<exists>player planning. load_operation (es_db st) p (ed_edit_session_id command) (ed_operation_id command) = Inr None \<and>
      load_durable_player (en_pose_valid env) (es_db st) p = Inr (Some player) \<and>
      dp_current_edit_session player = Some (ed_edit_session_id command) \<and>
      (\<forall>m. dp_max_operation_id player = Some m \<longrightarrow> m < ed_operation_id command) \<and>
      admission = AdmitPlan player planning \<and>
      (\<forall>c. volume_contains volume c \<longrightarrow> override_at planning c = override_at (es_edits st) c))"
proof (cases "load_operation (es_db st) p (ed_edit_session_id command) (ed_operation_id command)")
  case (Inr loaded)
  show ?thesis
  proof (cases loaded)
    case None
    obtain player planning where r: "load_durable_player (en_pose_valid env) (es_db st) p = Inr (Some player)"
        "dp_current_edit_session player = Some (ed_edit_session_id command)"
        "\<forall>m. dp_max_operation_id player = Some m \<longrightarrow> \<not> ed_operation_id command \<le> m"
        "snapshot_for_voxel_columns (vx (ev_min volume)) (vx (ev_max volume)) (vz (ev_min volume)) (vz (ev_max volume))
           (es_edits st) = Some planning" "admission = AdmitPlan player planning"
      using assms(2,3) by (auto simp: admit_edit_def Inr None volume_of_action split: option.splits if_splits)
    have "override_at planning c = override_at (es_edits st) c" if c: "volume_contains volume c" for c
    proof -
      have "voxel_ok c" using stencil_offsets [OF assms(3) c] by simp
      moreover have "vx (ev_min volume) \<le> vx c \<and> vx c \<le> vx (ev_max volume) \<and> vz (ev_min volume) \<le> vz c \<and> vz c \<le> vz (ev_max volume)"
        using c by (auto simp: volume_contains_def split: if_splits)
      ultimately show ?thesis
        using snapshot_for_voxel_columns_exact [OF authority_edits_wf [OF assms(1)] action_volume_fits [OF assms(3)]] r(4) by auto
    qed
    then show ?thesis using r Inr None by (simp add: not_le)
  next
    case (Some stored)
    then show ?thesis using assms(2) Inr
      by (auto simp: admit_edit_def split: option.splits if_splits)
  qed
qed (use assms(2) in \<open>simp add: admit_edit_def\<close>)

lemma load_player_counts:
  assumes "authority_wf env w st" "load_durable_player (en_pose_valid env) (es_db st) p = Inr (Some player)"
  obtains row where "db_players (es_db st) p = Some row" "stored_inventory (es_db st) p (dp_inventory player)"
    "pr_inventory_revision row = int (unat (mi_revision (dp_inventory player)))"
    "dp_current_edit_session player = pr_session row" "dp_max_operation_id player = pr_max_operation row"
proof -
  obtain row where row: "db_players (es_db st) p = Some row"
    using assms(2) load_player_None by (cases "db_players (es_db st) p") (auto simp: load_durable_player_def)
  have "players_stored (en_pose_valid env) (es_db st)" using assms(1) by (simp add: authority_wf_def)
  from load_players_stored [OF this row] assms(2) show ?thesis using that [OF row] by (metis durable_player.select_convs(1-3) option.inject sum.inject(2))
qed

definition replayed ::
    "edit_env \<Rightarrow> u8 list \<Rightarrow> u64 \<Rightarrow> edit_command \<Rightarrow> edit_state \<Rightarrow> edit_commit \<Rightarrow> bool" where
  "replayed env p conn command st commit \<longleftrightarrow> \<not> spawn_protected st (ed_action command) \<and>
     (\<exists>stored player. load_operation (es_db st) p (ed_edit_session_id command) (ed_operation_id command) = Inr (Some stored) \<and>
      so_action stored = ed_action command \<and> load_durable_player (en_pose_valid env) (es_db st) p = Inr (Some player) \<and>
      commit = stored_commit stored command conn (Some (dp_inventory player)))"

lemma apply_edit_cases:
  assumes "serves (en_source env) g" "authority_wf env w st" "apply_edit env fault p conn command st = (result, st')"
  shows "(\<exists>e. result = Inl e \<and> st' = st) \<or>
    (\<exists>commit. replayed env p conn command st commit \<and> result = Inr (commit, False) \<and> st' = st) \<or>
    (\<exists>f. fresh env g p command st f \<and>
      result = Inr (commit_of conn command (fe_plan f) (fe_revision f), pl_mutations (ep_plan (fe_plan f)) \<noteq> []) \<and>
      st' = committed (fe_plan f) (fe_revision f) (fe_db f) st)"
proof (cases "spawn_protected st (ed_action command) \<or> (\<exists>e. edit_regions (ed_action command) = Inl e) \<or>
    (\<exists>e. admit_edit env p conn command st = Inl e)")
  case True
  then show ?thesis using assms(3) by (auto simp: apply_edit_def split: if_splits sum.splits)
next
  case False
  then obtain regions admission where no: "\<not> spawn_protected st (ed_action command)" "edit_regions (ed_action command) = Inr regions"
    and a: "admit_edit env p conn command st = Inr admission"
    by (cases "edit_regions (ed_action command)"; cases "admit_edit env p conn command st") auto
  obtain volume where v: "edit_action_volume (ed_action command) = Some volume"
    using no(2) by (cases "edit_action_volume (ed_action command)") (auto simp: edit_regions_def volume_of_action)
  from admit_Inr [OF assms(2) a v] show ?thesis
  proof (elim disjE exE conjE)
    fix stored player
    assume "admission = AdmitReplay (stored_commit stored command conn (Some (dp_inventory player)))"
      and "load_operation (es_db st) p (ed_edit_session_id command) (ed_operation_id command) = Inr (Some stored)"
      and "so_action stored = ed_action command" "load_durable_player (en_pose_valid env) (es_db st) p = Inr (Some player)"
    then show ?thesis using assms(3) no a by (auto simp: apply_edit_def replayed_def)
  next
    fix player planning
    assume l: "load_operation (es_db st) p (ed_edit_session_id command) (ed_operation_id command) = Inr None"
      "load_durable_player (en_pose_valid env) (es_db st) p = Inr (Some player)"
      "dp_current_edit_session player = Some (ed_edit_session_id command)"
      "\<forall>m. dp_max_operation_id player = Some m \<longrightarrow> m < ed_operation_id command"
      and adm: "admission = AdmitPlan player planning"
      and same: "\<forall>c. volume_contains volume c \<longrightarrow> override_at planning c = override_at (es_edits st) c"
    show ?thesis
    proof (cases "plan_edit env player planning command")
      case (Inl e)
      then show ?thesis using assms(3) no a by (auto simp: apply_edit_def adm)
    next
      case (Inr prepared)
      obtain row where "stored_inventory (es_db st) p (dp_inventory player)" using load_player_counts [OF assms(2) l(2)] by blast
      then have counts: "counts_ok (dp_inventory player)" by (simp add: stored_inventory_def counts_ok_def)
      have "prepared_ok g planning (ed_action command) volume (dp_inventory player) prepared"
        by (rule plan_edit_Inr [OF assms(1) counts v Inr])
      then have ok: "prepared_ok g (es_edits st) (ed_action command) volume (dp_inventory player) prepared"
        using plan_of_cong [of volume planning "es_edits st"] same by (simp add: prepared_ok_def)
      have e: "apply_edit env fault p conn command st = commit_edit env fault p conn command player prepared st"
        using no a Inr by (simp add: apply_edit_def adm)
      have wf: "em_wf (es_durable_edits st)" using assms(2) by (simp add: authority_wf_def)
      from commit_edit_cases [OF ok v wf authority_edits_wf [OF assms(2)], of env fault p conn] show ?thesis
      proof (elim disjE exE conjE)
        fix e assume "commit_edit env fault p conn command player prepared st = (Inl e, st)"
        then show ?thesis using assms(3) e by auto
      next
        fix revision db
        assume c: "commit_edit env fault p conn command player prepared st =
            (Inr (commit_of conn command prepared revision, pl_mutations (ep_plan prepared) \<noteq> []), committed prepared revision db st)"
          and rev: "unat revision = unat (es_revision st) + (if pl_mutations (ep_plan prepared) = [] then 0 else 1)"
          and persist: "persist_action fault p command revision (dp_inventory player) (ep_inventory prepared) (pl_mutations (ep_plan prepared))
            (encode_durable_chunks (en_blake3 env)
              (replace_durable_overrides (plan_changes (ep_plan prepared)) (es_durable_edits st)) (pl_mutations (ep_plan prepared)))
            (ep_affected_chunks prepared) (es_db st) = Inr db"
        have "fault = None" using persist by (auto simp: persist_action_def split: option.splits)
        then have "fresh env g p command st
            \<lparr>fe_volume = volume, fe_player = player, fe_plan = prepared, fe_revision = revision, fe_db = db\<rparr>"
          using no(1) v l ok rev persist by (simp add: fresh_def)
        then show ?thesis using assms(3) e c by (intro disjI2 exI conjI) auto
      qed
    qed
  qed
qed

section \<open>A fresh application keeps the invariant\<close>

lemma chunks_stored_table: "chunks_stored b db em \<Longrightarrow> db_edit_chunks db' = db_edit_chunks db \<Longrightarrow> chunks_stored b db' em"
  by (simp add: chunks_stored_def)

lemma revisions_stored_table:
  "revisions_stored db revs r \<Longrightarrow> db_chunk_revisions db' = db_chunk_revisions db \<Longrightarrow> revisions_stored db' revs r"
  by (simp add: revisions_stored_def)

lemma fresh_plan:
  assumes "fresh env g p command st f"
  defines "ms \<equiv> pl_mutations (ep_plan (fe_plan f))"
  shows "plan_of g (es_edits st) (ed_action command) (fe_volume f) (dp_inventory (fe_player f)) (ep_plan (fe_plan f))"
    "edit_action_volume (ed_action command) = Some (fe_volume f)" "selection_ok (ed_action command) ms"
    "ep_affected_chunks (fe_plan f) = mutation_chunks ms"
    "ms = [] \<Longrightarrow> ep_affected_chunks (fe_plan f) = [] \<and> fe_revision f = es_revision st \<and>
       ep_inventory (fe_plan f) = dp_inventory (fe_player f)"
    "ms \<noteq> [] \<Longrightarrow> unat (mi_revision (ep_inventory (fe_plan f))) = unat (mi_revision (dp_inventory (fe_player f))) + 1 \<and>
       mi_counts (ep_inventory (fe_plan f)) = mi_counts (pl_inventory (ep_plan (fe_plan f)))"
    "unat (fe_revision f) = unat (es_revision st) + (if ms = [] then 0 else 1)"
proof -
  have ok: "prepared_ok g (es_edits st) (ed_action command) (fe_volume f) (dp_inventory (fe_player f)) (fe_plan f)"
    and v: "edit_action_volume (ed_action command) = Some (fe_volume f)"
    and r: "unat (fe_revision f) = unat (es_revision st) + (if ms = [] then 0 else 1)"
    using assms(1) by (auto simp: fresh_def ms_def)
  show "plan_of g (es_edits st) (ed_action command) (fe_volume f) (dp_inventory (fe_player f)) (ep_plan (fe_plan f))"
    "ep_affected_chunks (fe_plan f) = mutation_chunks ms"
    using ok by (simp_all add: prepared_ok_def ms_def)
  then show "ms = [] \<Longrightarrow> ep_affected_chunks (fe_plan f) = [] \<and> fe_revision f = es_revision st \<and>
       ep_inventory (fe_plan f) = dp_inventory (fe_player f)"
    using ok r by (simp add: prepared_ok_def ms_def mutation_chunks_def word_unat_eq_iff)
  show "ms \<noteq> [] \<Longrightarrow> unat (mi_revision (ep_inventory (fe_plan f))) = unat (mi_revision (dp_inventory (fe_player f))) + 1 \<and>
       mi_counts (ep_inventory (fe_plan f)) = mi_counts (pl_inventory (ep_plan (fe_plan f)))"
    using ok by (simp add: prepared_ok_def ms_def)
  show "selection_ok (ed_action command) ms" unfolding ms_def by (rule prepared_mutations(4) [OF ok v])
qed (use assms(1) in \<open>auto simp: fresh_def ms_def\<close>)

text \<open>The resulting state in one formula, whether or not a voxel changed.\<close>

lemma committed_fields:
  assumes "fresh env g p command st f"
  shows "committed (fe_plan f) (fe_revision f) (fe_db f) st =
    st\<lparr>es_db := fe_db f, es_durable_edits := replace_durable_overrides (plan_changes (ep_plan (fe_plan f))) (es_durable_edits st),
      es_edits := replace_durable_overrides (plan_changes (ep_plan (fe_plan f))) (es_edits st), es_revision := fe_revision f,
      es_chunk_revisions := fold (\<lambda>c. btree_insert c (fe_revision f)) (ep_affected_chunks (fe_plan f)) (es_chunk_revisions st),
      es_surface_revisions := fold (\<lambda>c. record_surface_revision c (fe_revision f)) (ep_affected_chunks (fe_plan f))
        (es_surface_revisions st)\<rparr>"
  using fresh_plan(5) [OF assms] by (cases "pl_mutations (ep_plan (fe_plan f)) = []") (auto simp: committed_def Let_def)

text \<open>The inventory a fresh application stores is one the tables can hold.\<close>

lemma fresh_inventory:
  assumes "fresh env g p command st f" "stored_inventory db p (dp_inventory (fe_player f))"
  defines "after \<equiv> ep_inventory (fe_plan f)"
  shows "length (mi_counts after) = 15 \<and> mi_counts after ! 0 = 0 \<and> 0 < mi_revision after"
proof (cases "pl_mutations (ep_plan (fe_plan f)) = []")
  case True
  then show ?thesis using fresh_plan(5) [OF assms(1)] assms(2) by (simp add: after_def stored_inventory_def)
next
  case False
  note f = fresh_plan(1) [OF assms(1)] fresh_plan(6) [OF assms(1) False]
  have "mi_counts (dp_inventory (fe_player f)) ! 0 = 0" using assms(2) by (simp add: stored_inventory_def)
  then have "mi_counts (pl_inventory (ep_plan (fe_plan f))) ! 0 = 0"
    using f(1) by (simp add: plan_of_def units_def word_unat_eq_iff)
  then show ?thesis using f by (auto simp: after_def plan_of_def counts_ok_def word_less_nat_alt)
qed

lemma replace_disjoint:
  assumes "em_wf em" "distinct (map fst a)" "\<forall>(v, _) \<in> set a. voxel_ok v" "distinct (map fst b)" "\<forall>(v, _) \<in> set b. voxel_ok v"
    and "fst ` set a \<inter> fst ` set b = {}"
  shows "replace_durable_overrides a (replace_durable_overrides b em) = replace_durable_overrides b (replace_durable_overrides a em)"
proof (rule override_at_ext)
  note sa = replace_durable_overrides_spec(1) [OF assms(1-3)]
  note sb = replace_durable_overrides_spec(1) [OF assms(1,4,5)]
  show "em_wf (replace_durable_overrides a (replace_durable_overrides b em))"
    by (rule replace_durable_overrides_spec(1) [OF sb assms(2,3)])
  show "em_wf (replace_durable_overrides b (replace_durable_overrides a em))"
    by (rule replace_durable_overrides_spec(1) [OF sa assms(4,5)])
  fix v
  have "map_of a v = None \<or> map_of b v = None" using assms(6) unfolding map_of_eq_None_iff by blast
  then show "override_at (replace_durable_overrides a (replace_durable_overrides b em)) v =
      override_at (replace_durable_overrides b (replace_durable_overrides a em)) v"
    unfolding replace_durable_overrides_at [OF sb assms(2,3)] replace_durable_overrides_at [OF sa assms(4,5)]
      replace_durable_overrides_at [OF assms(1-3)] replace_durable_overrides_at [OF assms(1,4,5)]
    by (auto split: option.split)
qed

lemma fresh_spawn:
  assumes "fresh env g p command st f" "em_wf (es_durable_edits st)" "spawn_layered st"
  shows "spawn_layered (committed (fe_plan f) (fe_revision f) (fe_db f) st)"
proof (cases "es_protected_spawn st")
  case None
  then show ?thesis using assms(3) by (simp add: spawn_layered_def committed_fields [OF assms(1)])
next
  case (Some spawn)
  let ?changes = "plan_changes (ep_plan (fe_plan f))"
  note plan = fresh_plan(1,2) [OF assms(1)]
  have ok: "spawn_ok spawn" and edits: "es_edits st = replace_durable_overrides (spawn_changes spawn) (es_durable_edits st)"
    using assms(3) Some by (simp_all add: spawn_layered_def)
  have "\<not> spawn_intersects spawn (ed_action command)" using assms(1) Some by (simp add: fresh_def spawn_protected_def)
  then have "\<not> spawn_contains spawn c" if "volume_contains (fe_volume f) c" for c
    using plan(2) that by (cases "ed_action command") (auto simp: spawn_intersects_def list_ex_iff set_coordinates)
  moreover have "volume_contains (fe_volume f) c" if "c \<in> fst ` set ?changes" for c
    using that changed_set by (auto simp: plan_changes_of [OF plan(1)])
  moreover have "spawn_contains spawn c" if "c \<in> fst ` set (spawn_changes spawn)" for c
    using that ok by (auto simp: spawn_changes_def spawn_ok_def)
  ultimately have disjoint: "fst ` set ?changes \<inter> fst ` set (spawn_changes spawn) = {}" by blast
  have c: "distinct (map fst ?changes)" "\<forall>(v, _) \<in> set ?changes. voxel_ok v"
    and sc: "distinct (map fst (spawn_changes spawn))" "\<forall>(v, _) \<in> set (spawn_changes spawn). voxel_ok v"
    using plan_changes_ok [OF plan(2,1)] spawn_changes_ok [OF ok] by blast+
  show ?thesis
    using Some ok replace_disjoint [OF assms(2) c sc disjoint] by (simp add: spawn_layered_def committed_fields [OF assms(1)] edits)
qed

lemma fresh_persisted:
  assumes "authority_wf env w st" "fresh env g p command st f"
  defines "ms \<equiv> pl_mutations (ep_plan (fe_plan f))" and "chunks \<equiv> ep_affected_chunks (fe_plan f)"
    and "records \<equiv> encode_durable_chunks (en_blake3 env)
      (replace_durable_overrides (plan_changes (ep_plan (fe_plan f))) (es_durable_edits st)) (pl_mutations (ep_plan (fe_plan f)))"
  obtains player db1 rows row where "db_players (es_db st) p = Some player"
    "pr_session player = Some (ed_edit_session_id command)" "\<forall>m. pr_max_operation player = Some m \<longrightarrow> m < ed_operation_id command"
    "stored_inventory (es_db st) p (dp_inventory (fe_player f))" "dp_max_operation_id (fe_player f) = pr_max_operation player"
    "db1 = world_written p player (fe_revision f) (ep_inventory (fe_plan f)) records chunks (es_db st)"
    "fe_db f = db1\<lparr>db_players := (db_players (es_db st))(p \<mapsto> player\<lparr>pr_inventory_revision := int (unat (mi_revision (ep_inventory (fe_plan f)))),
       pr_max_operation := Some (ed_operation_id command)\<rparr>), db_operations := rows\<rparr>"
    "set rows \<subseteq> insert row (set (db_operations (es_db st)))" "row_key row = (p, ed_edit_session_id command, ed_operation_id command)"
    "receipts_wf (fe_db f)"
    "load_operation (fe_db f) p (ed_edit_session_id command) (ed_operation_id command) =
       Inr (Some \<lparr>so_action = ed_action command, so_revision = fe_revision f, so_mutations = ms, so_affected_chunks = chunks\<rparr>)"
proof -
  note plan = fresh_plan [OF assms(2), folded ms_def chunks_def]
  have f: "load_durable_player (en_pose_valid env) (es_db st) p = Inr (Some (fe_player f))"
      "dp_current_edit_session (fe_player f) = Some (ed_edit_session_id command)"
      "\<forall>m. dp_max_operation_id (fe_player f) = Some m \<longrightarrow> m < ed_operation_id command"
    and per: "persist_action None p command (fe_revision f) (dp_inventory (fe_player f)) (ep_inventory (fe_plan f)) ms records chunks
      (es_db st) = Inr (fe_db f)"
    using assms(2) by (simp_all add: fresh_def ms_def chunks_def records_def)
  obtain player where player: "db_players (es_db st) p = Some player" "stored_inventory (es_db st) p (dp_inventory (fe_player f))"
    "pr_inventory_revision player = int (unat (mi_revision (dp_inventory (fe_player f))))"
    "dp_current_edit_session (fe_player f) = pr_session player" "dp_max_operation_id (fe_player f) = pr_max_operation player"
    using load_player_counts [OF assms(1) f(1)] by blast
  define db1 where "db1 = world_written p player (fe_revision f) (ep_inventory (fe_plan f)) records chunks (es_db st)"
  have "ep_inventory (fe_plan f) = dp_inventory (fe_player f) \<and> records = [] \<and> chunks = [] \<and>
      db_revision (es_db st) = int (unat (fe_revision f))" if "ms = []"
    using that plan(5) assms(1) by (simp add: records_def encode_durable_chunks_def authority_wf_def flip: ms_def)
  from persist_action_spec [OF per player(2,1,3) this]
  have op: "persist_operation p command (fe_revision f) ms chunks db1 = Inr (fe_db f)" by (simp add: db1_def)
  have db1: "db_players db1 = (db_players (es_db st))(p \<mapsto> player\<lparr>pr_inventory_revision := int (unat (mi_revision (ep_inventory (fe_plan f))))\<rparr>)"
      "db_operations db1 = db_operations (es_db st)" by (simp_all add: db1_def world_written_def)
  have wf1: "receipts_wf db1"
    by (rule receipts_wf_rows [of "es_db st"]) (use assms(1) player(1) in \<open>auto simp: db1 authority_wf_def\<close>)
  have place: "is_place (ed_action command) \<longrightarrow> edit_action_material (ed_action command) \<noteq> Air"
    using plan(1) by (simp add: plan_of_def)
  have outcome: "outcome_ok ms chunks"
  proof -
    have "list_all (\<lambda>m. voxel_ok (vm_coord m)) ms"
      using plan(3) stencil_offsets [OF plan(2)] by (auto simp: selection_ok_def plan(2) list_all_iff)
    then show ?thesis using selection_chunks(2) [OF plan(3)] by (simp add: outcome_ok_def plan(4))
  qed
  have rev: "0 < fe_revision f" using plan(7) assms(1) by (auto simp: authority_wf_def word_less_nat_alt)
  have "\<forall>pl m. db_players db1 p = Some pl \<longrightarrow> pr_session pl = Some (ed_edit_session_id command) \<and>
      (pr_max_operation pl = Some m \<longrightarrow> m < ed_operation_id command)"
    using f(2,3) player(4,5) by (simp add: db1)
  note row = persist_operation_row [OF wf1 place outcome rev op this]
  obtain outcome pl r where r: "db_players db1 p = Some pl"
      "r = \<lparr>op_player = p, op_session = ed_edit_session_id command, op_operation = ed_operation_id command,
         op_receipt_order = fold max (player_receipts p (db_operations db1)) 0 + 1,
         op_action = fst (encode_action (ed_action command)), op_coord = fst (snd (encode_action (ed_action command))),
         op_argument = snd (snd (encode_action (ed_action command))), op_revision = int (unat (fe_revision f)), op_outcome = outcome\<rparr>"
    and d: "fe_db f = db1\<lparr>db_players := (db_players db1)(p \<mapsto> pl\<lparr>pr_max_operation := Some (ed_operation_id command)\<rparr>),
       db_operations := prune_receipts p (db_operations db1 @ [r])\<rparr>"
    using persist_operation_Inr [OF op] by metis
  have "set (prune_receipts p (db_operations db1 @ [r])) \<subseteq> insert r (set (db_operations (es_db st)))"
    by (auto simp: prune_receipts_def db1(2))
  moreover have "row_key r = (p, ed_edit_session_id command, ed_operation_id command)" by (simp add: r(2) row_key_def)
  moreover have "fe_db f = db1\<lparr>db_players := (db_players (es_db st))(p \<mapsto>
      player\<lparr>pr_inventory_revision := int (unat (mi_revision (ep_inventory (fe_plan f)))), pr_max_operation := Some (ed_operation_id command)\<rparr>),
      db_operations := prune_receipts p (db_operations db1 @ [r])\<rparr>"
    using r(1) by (simp add: d db1(1))
  ultimately show ?thesis using that [OF player(1) _ _ player(2,5) db1_def] row f(2,3) player(4,5) by simp
qed

lemma fresh_wf:
  assumes "authority_wf env w st" "fresh env g p command st f"
  shows "authority_wf env w (committed (fe_plan f) (fe_revision f) (fe_db f) st)"
proof -
  let ?ms = "pl_mutations (ep_plan (fe_plan f))" and ?chunks = "ep_affected_chunks (fe_plan f)"
    and ?after = "ep_inventory (fe_plan f)"
  let ?changes = "plan_changes (ep_plan (fe_plan f))"
  let ?durable = "replace_durable_overrides ?changes (es_durable_edits st)"
  let ?records = "encode_durable_chunks (en_blake3 env) ?durable ?ms"
  note plan = fresh_plan [OF assms(2)]
  obtain player db1 rows row where player: "db_players (es_db st) p = Some player"
    "pr_session player = Some (ed_edit_session_id command)" "stored_inventory (es_db st) p (dp_inventory (fe_player f))"
    and db1: "db1 = world_written p player (fe_revision f) ?after ?records ?chunks (es_db st)"
    and db: "fe_db f = db1\<lparr>db_players := (db_players (es_db st))(p \<mapsto> player\<lparr>pr_inventory_revision := int (unat (mi_revision ?after)),
       pr_max_operation := Some (ed_operation_id command)\<rparr>), db_operations := rows\<rparr>"
    and receipts: "receipts_wf (fe_db f)"
    by (rule fresh_persisted [OF assms])
  have wf: "em_wf (es_durable_edits st)" "chunks_stored (en_blake3 env) (es_db st) (es_durable_edits st)"
      "revisions_stored (es_db st) (es_chunk_revisions st) (es_revision st)" "players_stored (en_pose_valid env) (es_db st)"
      "0 < es_revision st" "es_surface_revisions st = build_surface_revision_index (es_chunk_revisions st)" "spawn_layered st"
    using assms(1) by (simp_all add: authority_wf_def)
  have ok: "prepared_ok g (es_edits st) (ed_action command) (fe_volume f) (dp_inventory (fe_player f)) (fe_plan f)"
    using assms(2) by (simp add: fresh_def)
  note m = prepared_mutations [OF ok plan(2)]
  have newer: "es_revision st \<le> fe_revision f" "0 < fe_revision f"
    using plan(7) wf(5) by (auto simp: word_le_nat_alt word_less_nat_alt)
  have fields: "db_version (fe_db f) = db_version (es_db st)" "db_world_id (fe_db f) = db_world_id (es_db st)"
    "db_source_hash (fe_db f) = db_source_hash (es_db st)" "db_revision (fe_db f) = int (unat (fe_revision f))"
    "db_edit_chunks (fe_db f) = fold persist_chunk ?records (db_edit_chunks (es_db st))"
    "db_chunk_revisions (fe_db f) = fold (\<lambda>c. btree_insert c (int (unat (fe_revision f)))) ?chunks (db_chunk_revisions (es_db st))"
    "db_players (fe_db f) = (db_players (es_db st))(p \<mapsto> player\<lparr>pr_inventory_revision := int (unat (mi_revision ?after)),
       pr_max_operation := Some (ed_operation_id command)\<rparr>)"
    "\<And>q k. db_inventory (fe_db f) (q, k) = (if q = p then Some (int (unat (mi_counts ?after ! material_id k))) else db_inventory (es_db st) (q, k))"
    by (simp_all add: db db1 world_written_def)
  have "chunks_stored (en_blake3 env) (fe_db f) ?durable"
    using chunks_stored_table [OF chunks_stored_step [OF wf(2,1) m(1-3)], of "fe_db f"] by (simp add: fields m(6))
  moreover have "revisions_stored (fe_db f) (fold (\<lambda>c. btree_insert c (fe_revision f)) ?chunks (es_chunk_revisions st)) (fe_revision f)"
  proof (rule revisions_stored_table)
    show "revisions_stored ((es_db st)\<lparr>db_chunk_revisions := fold (\<lambda>c. btree_insert c (int (unat (fe_revision f)))) ?chunks
        (db_chunk_revisions (es_db st))\<rparr>) (fold (\<lambda>c. btree_insert c (fe_revision f)) ?chunks (es_chunk_revisions st)) (fe_revision f)"
      using selection_chunks(2) [OF plan(3)] by (intro revisions_stored_step [OF wf(3) newer]) (simp add: plan(4))
  qed (simp add: fields)
  moreover have "fold (\<lambda>c. record_surface_revision c (fe_revision f)) ?chunks (es_surface_revisions st) =
      build_surface_revision_index (fold (\<lambda>c. btree_insert c (fe_revision f)) ?chunks (es_chunk_revisions st))"
    unfolding wf(6) using wf(3) newer(1) by (intro record_newer) (auto simp: revisions_stored_def intro: order.trans)
  moreover have "players_stored (en_pose_valid env) (fe_db f)"
    unfolding players_stored_def
  proof (intro allI impI)
    fix q row assume row: "db_players (fe_db f) q = Some row"
    show "player_stored (en_pose_valid env) (fe_db f) q row"
    proof (cases "q = p")
      case False
      then have "db_players (es_db st) q = Some row" using row by (simp add: fields(7))
      then have "player_stored (en_pose_valid env) (es_db st) q row" using wf(4) by (simp add: players_stored_def)
      then show ?thesis by (rule player_stored_inventory) (simp only: fields(8) False if_False)
    next
      case True
      have "player_stored (en_pose_valid env) (es_db st) p player" using wf(4) player(1) by (simp add: players_stored_def)
      then obtain r where r: "positive_u64 (pr_resume_revision player) = Inr r"
          "validate_resume (en_pose_valid env) \<lparr>re_revision = r, re_pose = pr_pose player\<rparr> = Inr ()"
          "\<forall>s. pr_session player = Some s \<longrightarrow> \<not> session_nil s"
        unfolding player_stored_def by blast
      have i: "stored_inventory (fe_db f) p ?after"
        using fresh_inventory [OF assms(2) player(3)] by (simp add: stored_inventory_def fields(8))
      have "row = player\<lparr>pr_inventory_revision := int (unat (mi_revision ?after)), pr_max_operation := Some (ed_operation_id command)\<rparr>"
        using row True by (simp add: fields(7))
      then show ?thesis unfolding player_stored_def True using i r by (intro conjI exI [of _ ?after] exI [of _ r]) simp_all
    qed
  qed
  moreover have "em_wf ?durable"
    using replace_durable_overrides_spec(1) [OF wf(1)] plan_changes_ok [OF plan(2,1)] by blast
  ultimately show ?thesis
    using assms(1) receipts newer(2) fresh_spawn [OF assms(2) wf(1,7)]
    by (simp add: authority_wf_def committed_fields [OF assms(2)] fields)
qed

section \<open>The players\<close>

lemma authority_wf_db:
  assumes "authority_wf env w st" "receipts_wf db" "players_stored (en_pose_valid env) db"
    and "db_version db = db_version (es_db st)" "db_world_id db = db_world_id (es_db st)"
    and "db_source_hash db = db_source_hash (es_db st)" "db_revision db = db_revision (es_db st)"
    and "db_edit_chunks db = db_edit_chunks (es_db st)" "db_chunk_revisions db = db_chunk_revisions (es_db st)"
  shows "authority_wf env w (st\<lparr>es_db := db\<rparr>)"
  using assms by (simp add: authority_wf_def chunks_stored_def revisions_stored_def spawn_layered_def split: option.splits)

lemma stored_player_row:
  "authority_wf env w st \<Longrightarrow> db_players (es_db st) p = Some row \<Longrightarrow> player_stored (en_pose_valid env) (es_db st) p row"
  by (simp add: authority_wf_def players_stored_def)

lemma load_player_wf:
  assumes "authority_wf env w st" "load_player env fault p resume st = Inr (loaded, st')"
  shows "authority_wf env w st' \<and> db_operations (es_db st') = db_operations (es_db st) \<and>
    (\<forall>q row. db_players (es_db st') q = Some row \<longrightarrow> db_players (es_db st) q = Some row \<or>
      q = p \<and> db_players (es_db st) p = None \<and> pr_session row = None) \<and>
    (\<forall>q row. db_players (es_db st) q = Some row \<longrightarrow> db_players (es_db st') q = Some row)"
proof (cases "db_players (es_db st) p")
  case None
  define row where "row = \<lparr>pr_session = None, pr_max_operation = None, pr_inventory_revision = 1,
    pr_resume_revision = int (unat (re_revision resume)), pr_pose = re_pose resume\<rparr>"
  define players where "players = (db_players (es_db st))(p \<mapsto> row)"
  define inventory where "inventory = (\<lambda>(player, material). if player = p
    then Some (int (unat (mi_counts EMPTY_INVENTORY ! material_id material))) else db_inventory (es_db st) (player, material))"
  define db where "db = (es_db st)\<lparr>db_players := players, db_inventory := inventory\<rparr>"
  have valid: "validate_resume (en_pose_valid env) resume = Inr ()" and st': "st' = st\<lparr>es_db := db\<rparr>"
    using assms(2) None
    by (auto simp: load_player_def load_player_None [THEN iffD2, OF None] to_sql_Inr with_fault_def Let_def db_def players_def
      inventory_def row_def split: option.splits)
  have rev: "positive_u64 (int (unat (re_revision resume))) = Inr (re_revision resume)"
    using valid by (intro positive_sql) (auto simp: validate_resume_def word_gt_0 split: if_splits)
  have "receipts_wf db"
    by (rule receipts_wf_rows [of "es_db st"]) (use assms(1) None in \<open>auto simp: db_def players_def authority_wf_def\<close>)
  moreover have "players_stored (en_pose_valid env) db"
    unfolding players_stored_def
  proof (intro allI impI)
    fix q r assume r: "db_players db q = Some r"
    show "player_stored (en_pose_valid env) db q r"
    proof (cases "q = p")
      case True
      have i: "stored_inventory db p EMPTY_INVENTORY"
        using inventory_slots by (simp add: stored_inventory_def db_def inventory_def EMPTY_INVENTORY_def)
      have "r = row" using r True by (simp add: db_def players_def)
      then show ?thesis unfolding player_stored_def True using i rev valid
        by (intro conjI exI [of _ EMPTY_INVENTORY] exI [of _ "re_revision resume"])
          (simp_all add: row_def EMPTY_INVENTORY_def validate_resume_def)
    next
      case False
      then have "db_players (es_db st) q = Some r" using r by (simp add: db_def players_def)
      then have "player_stored (en_pose_valid env) (es_db st) q r" by (rule stored_player_row [OF assms(1)])
      moreover have "db_inventory db (q, m) = db_inventory (es_db st) (q, m)" for m using False by (simp add: db_def inventory_def)
      ultimately show ?thesis by (rule player_stored_inventory)
    qed
  qed
  ultimately have "authority_wf env w st'" unfolding st' by (intro authority_wf_db [OF assms(1)]) (simp_all add: db_def)
  then show ?thesis using None by (auto simp: st' db_def players_def row_def)
next
  case (Some row)
  then have "st' = st"
    using assms(2) load_player_None [of "en_pose_valid env" "es_db st" p]
    by (auto simp: load_player_def split: option.splits)
  then show ?thesis using assms(1) by simp
qed

lemma begin_session_wf:
  assumes "authority_wf env w st" "begin_player_session fault s p st = Inr st'" "\<not> session_nil s"
    and "\<forall>r \<in> set (db_operations (es_db st)). op_player r = p \<longrightarrow> op_session r \<noteq> s"
  shows "authority_wf env w st' \<and> db_operations (es_db st') = db_operations (es_db st) \<and>
    (\<exists>row. db_players (es_db st) p = Some row \<and>
      db_players (es_db st') = (db_players (es_db st))(p \<mapsto> row\<lparr>pr_session := Some s, pr_max_operation := None\<rparr>))"
proof -
  obtain row where row: "db_players (es_db st) p = Some row"
    and st': "st' = st\<lparr>es_db := (es_db st)\<lparr>db_players := (db_players (es_db st))(p \<mapsto>
      row\<lparr>pr_session := Some s, pr_max_operation := None\<rparr>)\<rparr>\<rparr>"
    using assms(2) by (auto simp: begin_player_session_def with_fault_def split: option.splits)
  let ?db = "(es_db st)\<lparr>db_players := (db_players (es_db st))(p \<mapsto> row\<lparr>pr_session := Some s, pr_max_operation := None\<rparr>)\<rparr>"
  have "receipts_wf ?db"
    by (rule receipts_wf_rows [of "es_db st"]) (use assms(1,4) row in \<open>auto simp: authority_wf_def\<close>)
  moreover have "players_stored (en_pose_valid env) ?db"
    unfolding players_stored_def
  proof (intro allI impI)
    fix q r assume "db_players ?db q = Some r"
    then show "player_stored (en_pose_valid env) ?db q r"
      using assms(1,3) row by (cases "q = p") (auto simp: authority_wf_def players_stored_def player_stored_def stored_inventory_def)
  qed
  ultimately have "authority_wf env w st'" unfolding st' by (intro authority_wf_db [OF assms(1)]) simp_all
  then show ?thesis using row by (simp add: st')
qed

lemma save_resume_wf:
  assumes "authority_wf env w st" "save_player_resume env fault p resume st = Inr st'"
  shows "authority_wf env w st' \<and> db_operations (es_db st') = db_operations (es_db st) \<and>
    (\<forall>q. map_option (\<lambda>row. (pr_session row, pr_max_operation row)) (db_players (es_db st') q) =
      map_option (\<lambda>row. (pr_session row, pr_max_operation row)) (db_players (es_db st) q))"
proof (cases "st' = st")
  case False
  obtain row where row: "db_players (es_db st) p = Some row" and valid: "validate_resume (en_pose_valid env) resume = Inr ()"
    and st': "st' = st\<lparr>es_db := (es_db st)\<lparr>db_players := (db_players (es_db st))(p \<mapsto>
      row\<lparr>pr_resume_revision := int (unat (re_revision resume)), pr_pose := re_pose resume\<rparr>)\<rparr>\<rparr>"
    using assms(2) False by (auto simp: save_player_resume_def with_fault_def to_sql_Inr split: option.splits if_splits)
  let ?db = "(es_db st)\<lparr>db_players := (db_players (es_db st))(p \<mapsto>
      row\<lparr>pr_resume_revision := int (unat (re_revision resume)), pr_pose := re_pose resume\<rparr>)\<rparr>"
  have rev: "positive_u64 (int (unat (re_revision resume))) = Inr (re_revision resume)"
    using valid by (intro positive_sql) (auto simp: validate_resume_def word_gt_0 split: if_splits)
  have "receipts_wf ?db"
    by (rule receipts_wf_rows [of "es_db st"]) (use assms(1) row in \<open>auto simp: authority_wf_def\<close>)
  moreover have "players_stored (en_pose_valid env) ?db"
    unfolding players_stored_def
  proof (intro allI impI)
    fix q r assume r: "db_players ?db q = Some r"
    show "player_stored (en_pose_valid env) ?db q r"
    proof (cases "q = p")
      case True
      obtain i where i: "stored_inventory (es_db st) p i" "pr_inventory_revision row = int (unat (mi_revision i))"
          "\<forall>s. pr_session row = Some s \<longrightarrow> \<not> session_nil s"
        using stored_player_row [OF assms(1) row] unfolding player_stored_def by blast
      have "r = row\<lparr>pr_resume_revision := int (unat (re_revision resume)), pr_pose := re_pose resume\<rparr>"
        using r True by simp
      then show ?thesis unfolding player_stored_def True using i rev valid
        by (intro conjI exI [of _ i] exI [of _ "re_revision resume"]) (simp_all add: stored_inventory_def validate_resume_def)
    next
      case False
      then have "db_players (es_db st) q = Some r" using r by simp
      then have "player_stored (en_pose_valid env) (es_db st) q r" by (rule stored_player_row [OF assms(1)])
      then show ?thesis by (rule player_stored_inventory) simp
    qed
  qed
  ultimately have "authority_wf env w st'" unfolding st' by (intro authority_wf_db [OF assms(1)]) simp_all
  then show ?thesis using row by (simp add: st')
qed (use assms(1) in simp)

end
