(* ===== verification/Authority_History.thy ===== *)
theory Authority_History
  imports Authority_Steps
begin

text \<open>
  Histories of the edit authority: every operation of \<open>world-service/src/edits.rs\<close> as a step, failing
  transactions and restarts of the server included, and what holds along any sequence of them. The
  set of edit sessions issued so far is carried along: identifiers are random UUIDs, and a step
  never issues one twice.
\<close>

declare split_paired_All [simp del] split_paired_Ex [simp del]

type_synonym sessions = "(u8 list \<times> u8 list) set"

inductive authority_step :: "edit_env \<Rightarrow> u8 list \<Rightarrow> sessions \<Rightarrow> edit_state \<Rightarrow> sessions \<Rightarrow> edit_state \<Rightarrow> bool" for env w where
  step_load: "load_player env fault p resume st = Inr (loaded, st') \<Longrightarrow> authority_step env w issued st issued st'"
| step_session: "begin_player_session fault s p st = Inr st' \<Longrightarrow> (p, s) \<notin> issued \<Longrightarrow> \<not> session_nil s \<Longrightarrow>
    authority_step env w issued st (insert (p, s) issued) st'"
| step_resume: "save_player_resume env fault p resume st = Inr st' \<Longrightarrow> authority_step env w issued st issued st'"
| step_apply: "apply_edit env fault p conn command st = (result, st') \<Longrightarrow> authority_step env w issued st issued st'"
| step_spawn: "spawn_ok spawn \<Longrightarrow> authority_step env w issued st issued (install_protected_spawn spawn st)"
| step_restart: "from_connection env w (es_db st) = Inr st' \<Longrightarrow> authority_step env w issued st issued st'"

inductive authority_steps :: "edit_env \<Rightarrow> u8 list \<Rightarrow> sessions \<Rightarrow> edit_state \<Rightarrow> sessions \<Rightarrow> edit_state \<Rightarrow> bool" for env w where
  steps_none: "authority_steps env w issued st issued st"
| steps_more: "authority_steps env w issued st issued' st' \<Longrightarrow> authority_step env w issued' st' issued'' st'' \<Longrightarrow>
    authority_steps env w issued st issued'' st''"

definition authority_reachable :: "edit_env \<Rightarrow> u8 list \<Rightarrow> sessions \<Rightarrow> edit_state \<Rightarrow> bool" where
  "authority_reachable env w issued st \<longleftrightarrow>
     (\<exists>st0. from_connection env w db_empty = Inr st0 \<and> authority_steps env w {} st0 issued st)"

inductive_cases authority_stepE: "authority_step env w issued st issued' st'"

lemma reachable_step: "authority_reachable env w i st \<Longrightarrow> authority_step env w i st i' st' \<Longrightarrow> authority_reachable env w i' st'"
  unfolding authority_reachable_def by (blast intro: steps_more)

lemma reachable_apply:
  "authority_reachable env w i st \<Longrightarrow> apply_edit env fault p conn command st = (result, st') \<Longrightarrow> authority_reachable env w i st'"
  by (blast intro: reachable_step step_apply)

text \<open>Every session in a player's row or in the log was issued.\<close>

definition sessions_issued :: "sessions \<Rightarrow> edit_database \<Rightarrow> bool" where
  "sessions_issued issued db \<longleftrightarrow>
     (\<forall>p row s. db_players db p = Some row \<and> pr_session row = Some s \<longrightarrow> (p, s) \<in> issued) \<and>
     (\<forall>r \<in> set (db_operations db). (op_player r, op_session r) \<in> issued)"

lemma sessions_issued_rows:
  assumes "sessions_issued issued db" "set (db_operations db') \<subseteq> set (db_operations db)"
    and "\<And>p row s. db_players db' p = Some row \<Longrightarrow> pr_session row = Some s \<Longrightarrow>
      \<exists>row'. db_players db p = Some row' \<and> pr_session row' = Some s"
  shows "sessions_issued issued db'"
  using assms unfolding sessions_issued_def by (meson subsetD)

lemma sessions_more: "sessions_issued issued db \<Longrightarrow> issued \<subseteq> issued' \<Longrightarrow> sessions_issued issued' db"
  by (auto simp: sessions_issued_def)

lemma restart_db: "digests_ok (en_blake3 env) \<Longrightarrow> authority_wf env w st \<Longrightarrow> from_connection env w (es_db st) = Inr st' \<Longrightarrow> st' = restarted st"
  by (simp add: restart_exact)

lemma authority_step_wf:
  assumes "serves (en_source env) g" "digests_ok (en_blake3 env)"
    and "authority_step env w issued st issued' st'" "authority_wf env w st" "sessions_issued issued (es_db st)"
  shows "authority_wf env w st' \<and> sessions_issued issued' (es_db st') \<and> issued \<subseteq> issued'"
  using assms(3)
proof (cases rule: authority_step.cases)
  case (step_load fault p resume loaded)
  note l = load_player_wf [OF assms(4) step_load(2)]
  note l = l [THEN conjunct1] l [THEN conjunct2, THEN conjunct1] l [THEN conjunct2, THEN conjunct2, THEN conjunct1, rule_format]
  have "sessions_issued issued (es_db st')"
  proof (rule sessions_issued_rows [OF assms(5)])
    fix q row s assume "db_players (es_db st') q = Some row" "pr_session row = Some s"
    then show "\<exists>row'. db_players (es_db st) q = Some row' \<and> pr_session row' = Some s" using l(3) [of q row] by auto
  qed (simp add: l(2))
  then show ?thesis using l(1) step_load(1) by simp
next
  case (step_session fault s p)
  have "\<forall>r \<in> set (db_operations (es_db st)). op_player r = p \<longrightarrow> op_session r \<noteq> s"
    using step_session(3) assms(5) by (auto simp: sessions_issued_def)
  from begin_session_wf [OF assms(4) step_session(2,4) this]
  obtain row where r: "authority_wf env w st'" "db_operations (es_db st') = db_operations (es_db st)"
      "db_players (es_db st') = (db_players (es_db st))(p \<mapsto> row\<lparr>pr_session := Some s, pr_max_operation := None\<rparr>)" by blast
  then have "sessions_issued issued' (es_db st')"
    using assms(5) by (auto simp: sessions_issued_def step_session(1))
  then show ?thesis using r(1) step_session(1) by auto
next
  case (step_resume fault p resume)
  from save_resume_wf [OF assms(4) step_resume(2)] have r: "authority_wf env w st'"
      "db_operations (es_db st') = db_operations (es_db st)"
      "\<And>q. map_option (\<lambda>row. (pr_session row, pr_max_operation row)) (db_players (es_db st') q) =
        map_option (\<lambda>row. (pr_session row, pr_max_operation row)) (db_players (es_db st) q)" by auto
  have "sessions_issued issued (es_db st')"
  proof (rule sessions_issued_rows [OF assms(5)])
    fix q row s assume "db_players (es_db st') q = Some row" "pr_session row = Some s"
    then show "\<exists>row'. db_players (es_db st) q = Some row' \<and> pr_session row' = Some s"
      using r(3) [of q] by (cases "db_players (es_db st) q") auto
  qed (simp add: r(2))
  then show ?thesis using r(1) step_resume(1) by simp
next
  case (step_apply fault p conn command result)
  from apply_edit_cases [OF assms(1,4) step_apply(2)] show ?thesis
  proof (elim disjE exE conjE)
    fix f assume f: "fresh env g p command st f" and st': "st' = committed (fe_plan f) (fe_revision f) (fe_db f) st"
    obtain player db1 rows row where p: "db_players (es_db st) p = Some player" "pr_session player = Some (ed_edit_session_id command)"
      and db: "fe_db f = db1\<lparr>db_players := (db_players (es_db st))(p \<mapsto> player\<lparr>pr_inventory_revision :=
         int (unat (mi_revision (ep_inventory (fe_plan f)))), pr_max_operation := Some (ed_operation_id command)\<rparr>), db_operations := rows\<rparr>"
      and rows: "set rows \<subseteq> insert row (set (db_operations (es_db st)))"
      and key: "row_key row = (p, ed_edit_session_id command, ed_operation_id command)"
      by (rule fresh_persisted [OF assms(4) f])
    have "(p, ed_edit_session_id command) \<in> issued" using assms(5) p unfolding sessions_issued_def by blast
    then have "sessions_issued issued (fe_db f)"
      using assms(5) rows key p unfolding sessions_issued_def db by (auto simp: row_key_def)
    then show ?thesis using fresh_wf [OF assms(4) f] step_apply(1) by (simp add: st' committed_fields [OF f])
  qed (use assms(4,5) step_apply(1) in simp_all)
next
  case (step_spawn spawn)
  then show ?thesis using install_spawn_wf [OF assms(4)] assms(5) by (simp add: install_protected_spawn_def)
next
  case step_restart
  then show ?thesis using restarted_wf [OF assms(4)] restart_db [OF assms(2,4)] assms(5) by (simp add: restarted_def)
qed

lemma authority_steps_wf:
  assumes "authority_steps env w issued st issued' st'" "serves (en_source env) g" "digests_ok (en_blake3 env)"
    and "authority_wf env w st" "sessions_issued issued (es_db st)"
  shows "authority_wf env w st' \<and> sessions_issued issued' (es_db st') \<and> issued \<subseteq> issued'"
  using assms
proof (induction rule: authority_steps.induct)
  case (steps_more issued st issued' st' issued'' st'')
  then show ?case using authority_step_wf [OF steps_more.prems(1,2) steps_more.hyps(2)] by blast
qed simp

lemma reachable_wf:
  assumes "serves (en_source env) g" "digests_ok (en_blake3 env)" "authority_reachable env w issued st"
  shows "authority_wf env w st" and "sessions_issued issued (es_db st)"
proof -
  obtain st0 where st0: "from_connection env w db_empty = Inr st0" "authority_steps env w {} st0 issued st"
    using assms(3) unfolding authority_reachable_def by blast
  have "sessions_issued {} (es_db st0)"
    using st0(1) by (auto simp: from_connection_def initialize_schema_def db_empty_def load_edits_def load_product_revisions_def
      INITIAL_REVISION_def EDIT_DATABASE_SCHEMA_VERSION_def positive_u64_def sessions_issued_def)
  from authority_steps_wf [OF st0(2) assms(1,2) authority_start [OF st0(1)] this]
  show "authority_wf env w st" "sessions_issued issued (es_db st)" by auto
qed

section \<open>Errors\<close>

text \<open>
  C6: an edit that is refused leaves the authority as it was. Whatever refuses it, at whichever of
  the three phases (the protected spawn, the retry window, the planner, an overflow, SQLite refusing
  the transaction after the journals in memory were already changed), the state after the error is
  the state before.
\<close>

theorem refused_edit_changes_nothing:
  assumes "serves (en_source env) g" "digests_ok (en_blake3 env)" "authority_reachable env w issued st"
    and "apply_edit env fault p conn command st = (Inl e, st')"
  shows "st' = st"
  using apply_edit_cases [OF assms(1) reachable_wf(1) [OF assms(1-3)] assms(4)] by auto

section \<open>Restart\<close>

text \<open>
  C1: a restart loses nothing. After any sequence of operations, failures and earlier restarts, the
  server that opens the database again finds the schema and the world it wrote, decodes every row,
  and has the same state: the journals, the world revision, the revision of every chunk, the surface
  index it recomputes, the receipts and the players; once the spawn is installed again the two are
  equal.
\<close>

theorem restart_loses_nothing:
  assumes "serves (en_source env) g" "digests_ok (en_blake3 env)" "authority_reachable env w issued st"
  shows "\<exists>st'. from_connection env w (es_db st) = Inr st' \<and>
    (case es_protected_spawn st of None \<Rightarrow> st' = st | Some spawn \<Rightarrow> install_protected_spawn spawn st' = st)"
proof (intro exI conjI)
  note wf = reachable_wf(1) [OF assms]
  show "from_connection env w (es_db st) = Inr (restarted st)" by (rule restart_exact [OF assms(2) wf])
  show "case es_protected_spawn st of None \<Rightarrow> restarted st = st | Some spawn \<Rightarrow> install_protected_spawn spawn (restarted st) = st"
    using wf reinstall_spawn [OF wf]
    by (cases "es_protected_spawn st") (simp_all add: authority_wf_def spawn_layered_def restarted_def)
qed

section \<open>Retries\<close>

lemma stored_inventory_unique:
  assumes "stored_inventory db p i" "stored_inventory db p j" "mi_revision i = mi_revision j"
  shows "i = (j :: material_inventory)"
proof -
  have "mi_counts i = mi_counts j"
  proof (rule nth_equalityI)
    show "length (mi_counts i) = length (mi_counts j)" using assms by (simp add: stored_inventory_def)
    fix k assume "k < length (mi_counts i)"
    then have k: "material_id (MATERIAL_ALL ! k) = k" using assms(1) material_all(4) by (simp add: stored_inventory_def)
    have "Some (int (unat (mi_counts i ! material_id m))) = Some (int (unat (mi_counts j ! material_id m)))" for m
      using assms(1,2) unfolding stored_inventory_def by metis
    from this [of "MATERIAL_ALL ! k"] show "mi_counts i ! k = mi_counts j ! k" by (simp add: k word_uint_eq_iff)
  qed
  then show ?thesis using assms(3) by (cases i; cases j) simp
qed

text \<open>The player a fresh application leaves has the inventory of the commit.\<close>

lemma fresh_load:
  assumes "authority_wf env w st" "fresh env g p command st f"
  shows "\<exists>player. load_durable_player (en_pose_valid env) (fe_db f) p = Inr (Some player) \<and>
    dp_inventory player = ep_inventory (fe_plan f)"
proof -
  let ?after = "ep_inventory (fe_plan f)"
  obtain player db1 rows row where i: "stored_inventory (es_db st) p (dp_inventory (fe_player f))"
    and db1: "db1 = world_written p player (fe_revision f) ?after (encode_durable_chunks (en_blake3 env)
      (replace_durable_overrides (plan_changes (ep_plan (fe_plan f))) (es_durable_edits st)) (pl_mutations (ep_plan (fe_plan f))))
      (ep_affected_chunks (fe_plan f)) (es_db st)"
    and db: "fe_db f = db1\<lparr>db_players := (db_players (es_db st))(p \<mapsto> player\<lparr>pr_inventory_revision := int (unat (mi_revision ?after)),
       pr_max_operation := Some (ed_operation_id command)\<rparr>), db_operations := rows\<rparr>"
    by (rule fresh_persisted [OF assms])
  have after: "stored_inventory (fe_db f) p ?after"
    using fresh_inventory [OF assms(2) i] by (simp add: stored_inventory_def db db1 world_written_def)
  have "players_stored (en_pose_valid env) (fe_db f)"
    using fresh_wf [OF assms] by (simp add: authority_wf_def committed_fields [OF assms(2)])
  moreover have "db_players (fe_db f) p = Some (player\<lparr>pr_inventory_revision := int (unat (mi_revision ?after)),
       pr_max_operation := Some (ed_operation_id command)\<rparr>)" by (simp add: db)
  ultimately obtain j resume where j: "stored_inventory (fe_db f) p j" "int (unat (mi_revision ?after)) = int (unat (mi_revision j))"
      "load_durable_player (en_pose_valid env) (fe_db f) p = Inr (Some \<lparr>dp_current_edit_session = pr_session player,
        dp_max_operation_id = Some (ed_operation_id command), dp_inventory = j, dp_resume = resume\<rparr>)"
    by (rule load_players_stored) simp
  have "mi_revision j = mi_revision ?after" using j(2) by (simp add: word_uint_eq_iff)
  then have "j = ?after" by (rule stored_inventory_unique [OF j(1) after])
  then show ?thesis using j(3) by simp
qed

text \<open>
  C7: a retry is acknowledged and changes nothing. Sending a successful command again, on whatever
  connection, returns the commit of the first time with the same revision, mutations, chunks and
  inventory, addressed to the new connection and marked as no change, even when the database could
  not take another write; the state is untouched.
\<close>

theorem retry_acknowledges:
  assumes "serves (en_source env) g" "digests_ok (en_blake3 env)" "authority_reachable env w issued st"
    and "apply_edit env fault p conn command st = (Inr (commit, changed), st1)"
  shows "apply_edit env fault' p conn' command st1 = (Inr (commit\<lparr>ct_editor_connection_id := conn'\<rparr>, False), st1)"
proof -
  note wf = reachable_wf(1) [OF assms(1-3)]
  obtain regions where regions: "edit_regions (ed_action command) = Inr regions"
    using assms(4) by (cases "edit_regions (ed_action command)") (auto simp: apply_edit_def split: if_splits)
  from apply_edit_cases [OF assms(1) wf assms(4)] show ?thesis
  proof (elim disjE exE conjE)
    fix commit' assume r: "replayed env p conn command st commit'" and c: "Inr (commit, changed) = Inr (commit', False)" and st: "st1 = st"
    obtain stored player where l: "load_operation (es_db st) p (ed_edit_session_id command) (ed_operation_id command) = Inr (Some stored)"
        "so_action stored = ed_action command" "load_durable_player (en_pose_valid env) (es_db st) p = Inr (Some player)"
        "commit = stored_commit stored command conn (Some (dp_inventory player))" "\<not> spawn_protected st (ed_action command)"
      using r c by (auto simp: replayed_def)
    then show ?thesis by (simp add: apply_edit_def admit_edit_def regions st stored_commit_def del: try_Inr)
  next
    fix f assume f: "fresh env g p command st f"
      and c: "Inr (commit, changed) = Inr (commit_of conn command (fe_plan f) (fe_revision f), pl_mutations (ep_plan (fe_plan f)) \<noteq> [])"
      and st1: "st1 = committed (fe_plan f) (fe_revision f) (fe_db f) st"
    obtain player where l: "load_durable_player (en_pose_valid env) (fe_db f) p = Inr (Some player)"
        "dp_inventory player = ep_inventory (fe_plan f)"
      using fresh_load [OF wf f] by blast
    have o': "load_operation (fe_db f) p (ed_edit_session_id command) (ed_operation_id command) =
       Inr (Some \<lparr>so_action = ed_action command, so_revision = fe_revision f, so_mutations = pl_mutations (ep_plan (fe_plan f)),
         so_affected_chunks = ep_affected_chunks (fe_plan f)\<rparr>)"
      by (rule fresh_persisted [OF wf f])
    have "es_db st1 = fe_db f" "es_protected_spawn st1 = es_protected_spawn st" by (simp_all add: st1 committed_fields [OF f])
    moreover have "\<not> spawn_protected st (ed_action command)" using f by (simp add: fresh_def)
    ultimately show ?thesis
      using c l o' by (simp add: apply_edit_def admit_edit_def regions stored_commit_def commit_of_def spawn_protected_def del: try_Inr)
  qed simp
qed

text \<open>A spent operation of a player: its session is over, or the watermark has reached it. The log holds no other row for it.\<close>

definition kept :: "u8 list \<Rightarrow> u8 list \<Rightarrow> u64 \<Rightarrow> operation_row \<Rightarrow> edit_database \<Rightarrow> bool" where
  "kept p s n row db \<longleftrightarrow>
     (\<exists>player. db_players db p = Some player \<and>
        (pr_session player = Some s \<longrightarrow> (\<exists>m. pr_max_operation player = Some m \<and> n \<le> m))) \<and>
     (\<forall>r \<in> set (db_operations db). row_key r = (p, s, n) \<longrightarrow> r = row)"

lemma find_key:
  "find (operation_key p s n) rows = Some row \<Longrightarrow> row \<in> set rows \<and> row_key row = (p, s, n)"
  by (auto simp: find_Some_iff operation_key_def row_key_def)

lemma loaded_kept:
  assumes "receipts_wf db" "load_operation db p s n = Inr (Some stored)"
  obtains row where "find (operation_key p s n) (db_operations db) = Some row" "kept p s n row db"
proof -
  obtain row where row: "find (operation_key p s n) (db_operations db) = Some row"
    using assms(2) by (auto simp: load_operation_def split: option.splits)
  note k = find_key [OF row]
  have "r = row" if "r \<in> set (db_operations db)" "row_key r = (p, s, n)" for r
    using assms(1) that k by (auto simp: receipts_wf_def distinct_map inj_on_def)
  moreover have "op_player row = p" "op_session row = s" "op_operation row = n" using k by (simp_all add: row_key_def)
  ultimately show ?thesis using that [OF row] assms(1) k unfolding kept_def receipts_wf_def list_all_iff by blast
qed

lemma kept_not_fresh:
  assumes "authority_wf env w st" "kept p s n row (es_db st)" "ed_edit_session_id command = s" "ed_operation_id command = n"
  shows "\<not> fresh env g p command st f"
proof
  assume f: "fresh env g p command st f"
  obtain player db1 rows r where "db_players (es_db st) p = Some player" "pr_session player = Some s"
      "\<forall>m. pr_max_operation player = Some m \<longrightarrow> m < n"
    by (rule fresh_persisted [OF assms(1) f, unfolded assms(3,4)])
  then show False using assms(2) by (auto simp: kept_def)
qed

lemma kept_step:
  assumes "serves (en_source env) g" "digests_ok (en_blake3 env)" "authority_step env w issued st issued' st'"
    and "authority_wf env w st" "(p, s) \<in> issued" "kept p s n row (es_db st)"
  shows "kept p s n row (es_db st')"
proof -
  have same: "kept p s n row db" if "set (db_operations db) \<subseteq> set (db_operations (es_db st))"
    "\<And>player. db_players (es_db st) p = Some player \<Longrightarrow> \<exists>player'. db_players db p = Some player' \<and>
       (pr_session player' = pr_session player \<and> pr_max_operation player' = pr_max_operation player \<or> pr_session player' \<noteq> Some s)" for db
    using assms(6) that unfolding kept_def by (metis (no_types, lifting) subsetD)
  from assms(3) show ?thesis
  proof (cases rule: authority_step.cases)
    case (step_load fault q resume loaded)
    note l = load_player_wf [OF assms(4) step_load(2)]
    note l = l [THEN conjunct2, THEN conjunct1] l [THEN conjunct2, THEN conjunct2, THEN conjunct2, rule_format]
    show ?thesis by (rule same) (auto simp: l)
  next
    case (step_session fault s' q)
    obtain row where "db_players (es_db st) q = Some row" "es_db st' = (es_db st)\<lparr>db_players := (db_players (es_db st))(q \<mapsto>
        row\<lparr>pr_session := Some s', pr_max_operation := None\<rparr>)\<rparr>"
      using step_session(2) by (auto simp: begin_player_session_def with_fault_def split: option.splits)
    moreover have "q = p \<longrightarrow> s' \<noteq> s" using step_session(3) assms(5) by auto
    ultimately show ?thesis by (intro same) auto
  next
    case (step_resume fault q resume)
    note r = save_resume_wf [OF assms(4) step_resume(2)]
    note r = r [THEN conjunct2, THEN conjunct1] r [THEN conjunct2, THEN conjunct2, rule_format, of p]
    show ?thesis by (rule same) (use r in \<open>auto simp: map_option_case split: option.splits\<close>)
  next
    case (step_apply fault q conn command result)
    from apply_edit_cases [OF assms(1,4) step_apply(2)] show ?thesis
    proof (elim disjE exE conjE)
      fix f assume f: "fresh env g q command st f" and st': "st' = committed (fe_plan f) (fe_revision f) (fe_db f) st"
      obtain player db1 rows r where q: "db_players (es_db st) q = Some player" "pr_session player = Some (ed_edit_session_id command)"
          "\<forall>m. pr_max_operation player = Some m \<longrightarrow> m < ed_operation_id command"
        and db: "fe_db f = db1\<lparr>db_players := (db_players (es_db st))(q \<mapsto> player\<lparr>pr_inventory_revision :=
           int (unat (mi_revision (ep_inventory (fe_plan f)))), pr_max_operation := Some (ed_operation_id command)\<rparr>), db_operations := rows\<rparr>"
        and rows: "set rows \<subseteq> insert r (set (db_operations (es_db st)))"
        and key: "row_key r = (q, ed_edit_session_id command, ed_operation_id command)"
        by (rule fresh_persisted [OF assms(4) f])
      have newer: "n < ed_operation_id command" if "q = p" "ed_edit_session_id command = s"
        using assms(6) q that unfolding kept_def by (metis option.inject order.strict_trans1)
      have "r' = row" if "r' \<in> set rows" "row_key r' = (p, s, n)" for r'
        using rows key newer that assms(6) unfolding kept_def by auto
      moreover have "\<exists>player. db_players (fe_db f) p = Some player \<and>
          (pr_session player = Some s \<longrightarrow> (\<exists>m. pr_max_operation player = Some m \<and> n \<le> m))"
        using newer q(2) assms(6) unfolding kept_def by (cases "q = p") (auto simp: db)
      ultimately show ?thesis unfolding kept_def st' committed_fields [OF f] by (simp add: db)
    qed (use assms(6) in simp_all)
  next
    case (step_spawn spawn)
    then show ?thesis using assms(6) by (simp add: install_protected_spawn_def)
  next
    case step_restart
    then show ?thesis using assms(6) restart_db [OF assms(2,4)] by (simp add: restarted_def)
  qed
qed

lemma kept_steps:
  assumes "authority_steps env w issued st issued' st'" "serves (en_source env) g" "digests_ok (en_blake3 env)"
    and "authority_wf env w st" "sessions_issued issued (es_db st)" "(p, s) \<in> issued" "kept p s n row (es_db st)"
  shows "kept p s n row (es_db st')"
  using assms
proof (induction rule: authority_steps.induct)
  case (steps_more issued st issued' st' issued'' st'')
  from authority_steps_wf [OF steps_more.hyps(1) steps_more.prems(1-4)]
  show ?case using kept_step [OF steps_more.prems(1,2) steps_more.hyps(2)] steps_more.IH steps_more.prems by blast
qed simp

text \<open>A command that succeeds leaves its receipt in the log, and the commit is the receipt's.\<close>

lemma applied_logged:
  assumes "serves (en_source env) g" "authority_wf env w st"
    and "apply_edit env fault p conn command st = (Inr (commit, changed), st1)"
  shows "\<exists>stored. load_operation (es_db st1) p (ed_edit_session_id command) (ed_operation_id command) = Inr (Some stored) \<and>
    ct_action commit = so_action stored \<and> ct_revision commit = so_revision stored \<and>
    ct_mutations commit = so_mutations stored \<and> ct_affected_chunks commit = so_affected_chunks stored"
  using apply_edit_cases [OF assms]
proof (elim disjE exE conjE)
  let ?s = "ed_edit_session_id command" and ?n = "ed_operation_id command"
  fix f assume f: "fresh env g p command st f"
    and e: "Inr (commit, changed) = Inr (commit_of conn command (fe_plan f) (fe_revision f), pl_mutations (ep_plan (fe_plan f)) \<noteq> [])"
    and st1: "st1 = committed (fe_plan f) (fe_revision f) (fe_db f) st"
  have o': "load_operation (fe_db f) p ?s ?n = Inr (Some \<lparr>so_action = ed_action command, so_revision = fe_revision f,
      so_mutations = pl_mutations (ep_plan (fe_plan f)), so_affected_chunks = ep_affected_chunks (fe_plan f)\<rparr>)"
    by (rule fresh_persisted [OF assms(2) f])
  have db: "es_db st1 = fe_db f" by (simp add: st1 committed_fields [OF f])
  show ?thesis by (intro exI conjI, rule o' [folded db]) (use e in \<open>simp_all add: commit_of_def\<close>)
qed (auto simp: replayed_def stored_commit_def)

text \<open>
  C2: an edit is applied at most once. After a command succeeded, let anything happen to the
  authority (other edits of this player and of others, new sessions, resumes, failed transactions,
  restarts) and let a command of the same session and operation id arrive, whatever its action and
  connection: it changes nothing, and if it is acknowledged, it is with the revision, the action, the
  mutations and the chunks of the first commit, however often receipts were pruned in between.
\<close>

theorem edit_applied_once:
  assumes "serves (en_source env) g" "digests_ok (en_blake3 env)" "authority_reachable env w issued st"
    and "apply_edit env fault p conn command st = (Inr (commit, changed), st1)"
    and "authority_steps env w issued st1 issued2 st2"
    and "ed_edit_session_id again = ed_edit_session_id command" "ed_operation_id again = ed_operation_id command"
    and "apply_edit env fault' p conn' again st2 = (result, st3)"
  shows "st3 = st2 \<and> (\<exists>e. result = Inl e) \<or>
    st3 = st2 \<and> (\<exists>commit'. result = Inr (commit', False) \<and> ed_action again = ct_action commit \<and>
      ct_action commit' = ct_action commit \<and> ct_revision commit' = ct_revision commit \<and>
      ct_mutations commit' = ct_mutations commit \<and> ct_affected_chunks commit' = ct_affected_chunks commit)"
proof -
  let ?s = "ed_edit_session_id command" and ?n = "ed_operation_id command"
  note wf = reachable_wf [OF assms(1-3)]
  note r1 = reachable_apply [OF assms(3,4)]
  note wf1 = reachable_wf [OF assms(1,2) r1]
  note wf2 = authority_steps_wf [OF assms(5,1,2) wf1, THEN conjunct1]
  obtain stored where l: "load_operation (es_db st1) p ?s ?n = Inr (Some stored)"
    and c: "ct_action commit = so_action stored" "ct_revision commit = so_revision stored"
      "ct_mutations commit = so_mutations stored" "ct_affected_chunks commit = so_affected_chunks stored"
    using applied_logged [OF assms(1) wf(1) assms(4)] by blast
  have "receipts_wf (es_db st1)" using wf1(1) by (simp add: authority_wf_def)
  from loaded_kept [OF this l] obtain row where row: "find (operation_key p ?s ?n) (db_operations (es_db st1)) = Some row"
      "kept p ?s ?n row (es_db st1)" by blast
  have "row \<in> set (db_operations (es_db st1)) \<and> row_key row = (p, ?s, ?n)" by (rule find_key [OF row(1)])
  then have "(p, ?s) \<in> issued" using wf1(2) by (auto simp: sessions_issued_def row_key_def)
  then have k: "kept p ?s ?n row (es_db st2)" using kept_steps [OF assms(5,1,2) wf1] row(2) by blast
  have same: "stored' = stored" if now: "load_operation (es_db st2) p ?s ?n = Inr (Some stored')" for stored'
  proof -
    obtain row' where r: "find (operation_key p ?s ?n) (db_operations (es_db st2)) = Some row'"
      using now by (auto simp: load_operation_def split: option.splits)
    then have "row' = row" using find_key [OF r] k by (simp add: kept_def)
    then show ?thesis using now l r row(1) by (simp add: load_operation_def del: try_Inr)
  qed
  from apply_edit_cases [OF assms(1) wf2 assms(8)] show ?thesis
  proof (elim disjE exE conjE)
    fix f assume "fresh env g p again st2 f"
    then show ?thesis using kept_not_fresh [OF wf2 k assms(6,7)] by blast
  next
    fix commit' assume r: "replayed env p conn' again st2 commit'" "result = Inr (commit', False)" "st3 = st2"
    then obtain stored' and player :: durable_player where "load_operation (es_db st2) p ?s ?n = Inr (Some stored')" "so_action stored' = ed_action again"
        "commit' = stored_commit stored' again conn' (Some (dp_inventory player))"
      unfolding replayed_def assms(6,7) by blast
    then show ?thesis using r same c by (auto simp: stored_commit_def)
  qed simp
qed

end
