(* ===== verification/Authority_Effects.thy ===== *)
theory Authority_Effects
  imports Authority_History
begin

text \<open>
  What an edit does (\<open>world-service/src/edits.rs\<close>): the voxels it changes and the units it moves, the
  revisions it publishes, the message it broadcasts, and the digs the authority cannot refuse.
\<close>

declare split_paired_All [simp del] split_paired_Ex [simp del]

section \<open>The world after an edit\<close>

lemma fresh_changed:
  assumes "serves (en_source env) g" "digests_ok (en_blake3 env)" "authority_reachable env w issued st"
    and "apply_edit env fault p conn command st = (Inr (commit, True), st')"
  obtains f where "fresh env g p command st f" "commit = commit_of conn command (fe_plan f) (fe_revision f)"
    "pl_mutations (ep_plan (fe_plan f)) \<noteq> []" "st' = committed (fe_plan f) (fe_revision f) (fe_db f) st"
  using apply_edit_cases [OF assms(1) reachable_wf(1) [OF assms(1-3)] assms(4)] by auto

lemma set_changed:
  assumes "plan_of g edits action volume inventory plan"
  shows "set (changed_voxels g edits action volume) =
    {c. volume_contains volume c \<and> (is_place action \<noteq> (world g edits c \<noteq> Air))}"
  using assms by (auto simp: changed_voxels_def plan_of_def set_coordinates)

text \<open>
  C3: an edit does to the world what its commit says, and nothing else. The mutations of the commit
  are the voxels of the stencil that were not air for a dig and the whole stencil, all air before,
  for a placement; each now has the action's material, and every other voxel of the world the one it
  had. The revision of the world advances by one, the chunks whose meshes the mutations reach carry
  it, and every other chunk keeps its own.
\<close>

theorem edit_does_what_it_says:
  assumes "serves (en_source env) g" "digests_ok (en_blake3 env)" "authority_reachable env w issued st"
    and "apply_edit env fault p conn command st = (Inr (commit, True), st')"
    and "edit_action_volume (ed_action command) = Some volume"
  shows "vm_coord ` set (ct_mutations commit) =
      {c. volume_contains volume c \<and> (is_place (ed_action command) \<noteq> (world g (es_edits st) c \<noteq> Air))} \<and>
    world g (es_edits st') c = (if c \<in> vm_coord ` set (ct_mutations commit)
      then edit_action_material (ed_action command) else world g (es_edits st) c) \<and>
    unat (ct_revision commit) = unat (es_revision st) + 1 \<and> es_revision st' = ct_revision commit \<and>
    btree_get (es_chunk_revisions st') chunk = (if \<exists>m \<in> set (ct_mutations commit). chunk \<in> set (affected_chunks (vm_coord m))
      then Some (ct_revision commit) else btree_get (es_chunk_revisions st) chunk)"
proof -
  obtain f where f: "fresh env g p command st f" and commit: "commit = commit_of conn command (fe_plan f) (fe_revision f)"
    and ms: "pl_mutations (ep_plan (fe_plan f)) \<noteq> []" and st': "st' = committed (fe_plan f) (fe_revision f) (fe_db f) st"
    by (rule fresh_changed [OF assms(1-4)])
  note p = fresh_plan [OF f]
  have v: "fe_volume f = volume" using p(2) assms(5) by simp
  note wf = authority_edits_wf [OF reachable_wf(1) [OF assms(1-3)]]
  have mut: "ct_mutations commit = pl_mutations (ep_plan (fe_plan f))" "ct_revision commit = fe_revision f"
    by (simp_all add: commit commit_of_def)
  have coords: "vm_coord ` set (ct_mutations commit) = set (changed_voxels g (es_edits st) (ed_action command) volume)"
    using p(1) by (simp add: mut plan_of_def v image_image)
  have "set (ep_affected_chunks (fe_plan f)) = {chunk. \<exists>m \<in> set (ct_mutations commit). chunk \<in> set (affected_chunks (vm_coord m))}"
    by (auto simp: p(4) mut mutation_chunks_set)
  then show ?thesis
    using plan_world [OF wf p(2,1), of c] p(7) ms set_changed [OF p(1)] unfolding coords
    by (simp add: st' committed_fields [OF f] fold_insert_get mut v)
qed

text \<open>
  C4: an edit conserves matter. Whatever the stencil and the world, the units of a material in the
  stencil plus the units the tables hold for the player are the same before and after an edit; the
  commit tells the editor the inventory that was stored.
\<close>

theorem edits_conserve_matter:
  assumes "serves (en_source env) g" "digests_ok (en_blake3 env)" "authority_reachable env w issued st"
    and "apply_edit env fault p conn command st = (Inr (commit, True), st')"
    and "edit_action_volume (ed_action command) = Some volume" "m \<noteq> Air"
  shows "\<exists>before after. load_durable_player (en_pose_valid env) (es_db st) p = Inr (Some before) \<and>
    load_durable_player (en_pose_valid env) (es_db st') p = Inr (Some after) \<and>
    ct_editor_inventory commit = Some (dp_inventory after) \<and>
    amount (world g (es_edits st')) volume m + units (dp_inventory after) m =
      amount (world g (es_edits st)) volume m + units (dp_inventory before) m"
proof -
  obtain f where f: "fresh env g p command st f" and commit: "commit = commit_of conn command (fe_plan f) (fe_revision f)"
    and ms: "pl_mutations (ep_plan (fe_plan f)) \<noteq> []" and st': "st' = committed (fe_plan f) (fe_revision f) (fe_db f) st"
    by (rule fresh_changed [OF assms(1-4)])
  note p = fresh_plan [OF f]
  note wf = reachable_wf(1) [OF assms(1-3)]
  have v: "fe_volume f = volume" using p(2) assms(5) by simp
  obtain player where l: "load_durable_player (en_pose_valid env) (fe_db f) p = Inr (Some player)"
      "dp_inventory player = ep_inventory (fe_plan f)"
    using fresh_load [OF wf f] by blast
  have "units (ep_inventory (fe_plan f)) m = units (pl_inventory (ep_plan (fe_plan f))) m" using p(6) [OF ms] by (simp add: units_def)
  then have "amount (world g (es_edits st')) volume m + units (dp_inventory player) m =
      amount (world g (es_edits st)) volume m + units (dp_inventory (fe_player f)) m"
    using plan_conserves [OF authority_edits_wf [OF wf] p(2,1) assms(6)] l(2) by (simp add: v st' committed_fields [OF f])
  moreover have "load_durable_player (en_pose_valid env) (es_db st) p = Inr (Some (fe_player f))" using f by (simp add: fresh_def)
  moreover have "es_db st' = fe_db f" by (simp add: st' committed_fields [OF f])
  ultimately show ?thesis using l by (simp add: commit commit_of_def)
qed

section \<open>The message\<close>

text \<open>
  C8: every edit can be broadcast. When a command that came off the wire changes the world, the
  commit passes every limit of the protocol, with the editor's inventory or without it for the other
  players: it encodes to at most 338 bytes, and every client decodes the commit that was made.
\<close>

theorem commits_broadcast:
  assumes "serves (en_source env) g" "digests_ok (en_blake3 env)" "authority_reachable env w issued st"
    and "decode_edit_command bytes = Inr command" "conn \<noteq> 0"
    and "apply_edit env fault p conn command st = (Inr (commit, True), st')"
    and "inventory \<in> {None, ct_editor_inventory commit}"
  defines "sent \<equiv> commit\<lparr>ct_editor_inventory := inventory\<rparr>"
  shows "\<exists>b. encode_edit_commit sent = Inr b \<and> length b \<le> 338 \<and> decode_edit_commit b = Inr sent"
proof -
  obtain f where f: "fresh env g p command st f" and commit: "commit = commit_of conn command (fe_plan f) (fe_revision f)"
    and ms: "pl_mutations (ep_plan (fe_plan f)) \<noteq> []"
    by (rule fresh_changed [OF assms(1-3,6)])
  note p = fresh_plan [OF f]
  note wf = reachable_wf(1) [OF assms(1-3)]
  have c: "command_ok command" "encode_edit_command command = Inr bytes" using assms(4) by (simp_all add: command.dec_iff)
  then obtain k s i target where e: "encode_edit_action (ed_action command) = Inr (k, s, i, target)"
    and ids: "ed_operation_id command \<noteq> 0" "\<not> session_nil (ed_edit_session_id command)"
    by (auto simp: encode_edit_command_def split: if_splits)
  have inv: "length (mi_counts (ep_inventory (fe_plan f))) = 15" "inventory_ok (ep_inventory (fe_plan f))"
  proof -
    obtain player db1 rows row where "stored_inventory (es_db st) p (dp_inventory (fe_player f))"
      by (rule fresh_persisted [OF wf f])
    from fresh_inventory [OF f this] show "length (mi_counts (ep_inventory (fe_plan f))) = 15" "inventory_ok (ep_inventory (fe_plan f))"
      by (auto simp: inventory_ok_def validate_inventory_def)
  qed
  have fields: "ct_operation_id sent = ed_operation_id command" "ct_edit_session_id sent = ed_edit_session_id command"
    "ct_editor_connection_id sent = conn" "ct_revision sent = fe_revision f" "ct_action sent = ed_action command"
    "ct_mutations sent = pl_mutations (ep_plan (fe_plan f))" "ct_affected_chunks sent = ep_affected_chunks (fe_plan f)"
    "ct_editor_inventory sent = inventory" "inventory = None \<or> inventory = Some (ep_inventory (fe_plan f))"
    using assms(7) by (simp_all add: sent_def commit commit_of_def)
  have "stencil_complete sent"
    using p(1) unfolding stencil_complete_def fields p(2) option.case by (simp add: plan_of_def changed_voxels_def)
  moreover have "ct_revision sent \<noteq> 0" using p(7) ms by (auto simp: fields word_unat_eq_iff)
  moreover have "length (ct_edit_session_id sent) = 16" "voxel_ok (action_target (ct_action sent))"
    using c(1) by (simp_all add: fields command_ok_def)
  moreover have "pred_option inventory_ok (ct_editor_inventory sent)" using inv fields(9) by (auto simp: fields(8))
  ultimately obtain b where b: "encode_edit_commit sent = Inr b" "length b \<le> 338"
    using stencil_commit_broadcasts [of sent] e ids p(3,4) assms(5) by (auto simp: fields)
  moreover have "commit_ok sent" using c(1) inv(1) fields(9) by (auto simp: commit_ok_def fields(1-8) command_ok_def)
  ultimately show ?thesis using commit.dec_enc by blast
qed

section \<open>Revisions served\<close>

lemma fold_max_greatest: "greatest (insert a (set rs)) (fold max rs a)"
proof (induction rs arbitrary: a)
  case (Cons r rs)
  have "greatest (insert (max r a) (set rs)) (fold max rs (max r a))" by (rule Cons.IH)
  then show ?case by (simp add: greatest_max insert_commute)
qed (simp add: greatest_def)

lemma set_rows:
  "v \<in> set (concat (map (\<lambda>(_, row). map snd (f row)) rows)) \<longleftrightarrow> (\<exists>x row z. (x, row) \<in> set rows \<and> (z, v) \<in> set (f row))"
proof -
  have "v \<in> set (concat (map (\<lambda>(_, row). map snd (f row)) rows)) \<longleftrightarrow> (\<exists>r \<in> set rows. \<exists>e \<in> set (f (snd r)). v = snd e)"
    by (simp add: case_prod_unfold image_iff)
  also have "\<dots> \<longleftrightarrow> (\<exists>x row z. (x, row) \<in> set rows \<and> (z, v) \<in> set (f row))"
  proof (intro iffI; elim exE bexE conjE)
    fix r e assume "r \<in> set rows" "e \<in> set (f (snd r))" "v = snd e"
    then show "\<exists>x row z. (x, row) \<in> set rows \<and> (z, v) \<in> set (f row)"
      by (intro exI [of _ "fst r"] exI [of _ "snd r"] exI [of _ "fst e"]) simp
  next
    fix x row z assume "(x, row) \<in> set rows" "(z, v) \<in> set (f row)"
    then show "\<exists>r \<in> set rows. \<exists>e \<in> set (f (snd r)). v = snd e"
      by (intro bexI [of _ "(x, row)"] bexI [of _ "(z, v)"]) simp_all
  qed
  finally show ?thesis .
qed

lemma surface_at_Some: "surface_at S x z = Some v \<longleftrightarrow> (\<exists>row. btree_get S x = Some row \<and> btree_get row z = Some v)"
  by (cases "btree_get S x") (simp_all add: surface_at_def)

lemma word_positive: "0 < (w :: u64) \<longleftrightarrow> 1 \<le> w"
  by (auto simp: word_less_nat_alt word_le_nat_alt)

text \<open>The values the range scan of a two-level index visits.\<close>

lemma surface_scan:
  assumes "surface_wf S"
  shows "v \<in> set (concat (map (\<lambda>(_, by_z). map snd (btree_range z0 z1 by_z)) (btree_range x0 x1 S)))
    \<longleftrightarrow> (\<exists>x z. x \<in> {x0..x1} \<and> z \<in> {z0..z1} \<and> surface_at S x z = Some v)"
proof -
  have row: "(x, row) \<in> set (btree_range x0 x1 S) \<and> (z, v) \<in> set (btree_range z0 z1 row) \<longleftrightarrow>
      x \<in> {x0..x1} \<and> btree_get S x = Some row \<and> z \<in> {z0..z1} \<and> btree_get row z = Some v" for x row z
  proof (cases "btree_get S x = Some row")
    case True
    then have "btree_wf row" using assms by (auto simp: surface_wf_def)
    then show ?thesis using assms by (auto simp: surface_wf_def btree_range_set)
  next
    case False
    then show ?thesis using assms by (simp add: surface_wf_def btree_range_set)
  qed
  then show ?thesis unfolding set_rows surface_at_Some by blast
qed

lemma column_greatest: "btree_get revs c = Some r \<Longrightarrow> btree_wf revs \<Longrightarrow>
  \<exists>v. greatest (column_revisions revs (cx c) (cz c)) v \<and> r \<le> v"
proof -
  let ?C = "column_revisions revs (cx c) (cz c)"
  assume "btree_get revs c = Some r" "btree_wf revs"
  then have r: "r \<in> ?C" by (auto simp: column_revisions_get intro: exI [of _ "cy c"])
  have "?C \<subseteq> snd ` set revs" by (force simp: column_revisions_def)
  then have "finite ?C" by (rule finite_subset) simp
  with r show ?thesis by (intro exI [of _ "Max ?C"]) (auto simp: greatest_def intro!: Max_in)
qed

lemma newest_found:
  assumes "set found \<subseteq> V" "\<And>r. r \<in> V \<Longrightarrow> \<exists>v \<in> set found. r \<le> v" "\<And>r. r \<in> V \<Longrightarrow> least \<le> r"
  shows "greatest (insert least V) (case found of [] \<Rightarrow> least | r # rs \<Rightarrow> fold max rs r)"
proof (cases found)
  case Nil
  then have "V = {}" using assms(2) by auto
  then show ?thesis unfolding Nil by (simp add: greatest_def)
next
  case (Cons r rs)
  have g: "greatest (set found) (fold max rs r)" using fold_max_greatest [of r rs] by (simp add: Cons)
  then have "fold max rs r \<in> V" using assms(1) by (auto simp: greatest_def)
  moreover have "v \<le> fold max rs r" if "v \<in> V" for v using assms(2) [OF that] g by (auto simp: greatest_def intro: order.trans)
  ultimately show ?thesis using assms(3) unfolding greatest_def Cons list.case by blast
qed

text \<open>
  C9: a surface page is served at the newest revision of its columns. In every reachable state the
  range scan over the two-level surface index gives the greatest revision of any edited chunk, at any
  height, whose column of chunks meets the page, and the initial revision when none was edited.
\<close>

theorem surface_revision_newest:
  assumes "serves (en_source env) g" "digests_ok (en_blake3 env)" "authority_reachable env w issued st"
    and "horizontal_bounds root = Some ((x0, z0), (x1, z1))"
  shows "\<exists>r. surface_terrain_revision root st = Some r \<and>
    greatest (insert INITIAL_REVISION {r. \<exists>c. btree_get (es_chunk_revisions st) c = Some r \<and>
      cx c \<in> {x0 div 32..x1 div 32} \<and> cz c \<in> {z0 div 32..z1 div 32}}) r"
proof -
  let ?S = "es_surface_revisions st" and ?revs = "es_chunk_revisions st"
  let ?V = "{r. \<exists>c. btree_get ?revs c = Some r \<and> cx c \<in> {x0 div 32..x1 div 32} \<and> cz c \<in> {z0 div 32..z1 div 32}}"
  note wf = reachable_wf(1) [OF assms(1-3)]
  have revs: "btree_wf ?revs" "\<And>c r. btree_get ?revs c = Some r \<Longrightarrow> INITIAL_REVISION \<le> r"
    using wf by (auto simp: authority_wf_def revisions_stored_def INITIAL_REVISION_def word_positive)
  have S: "surface_wf ?S" "\<And>x z v. surface_at ?S x z = Some v \<longleftrightarrow> greatest (column_revisions ?revs x z) v"
    using build_surface_exact [of ?revs] wf by (auto simp: surface_exact_def authority_wf_def)
  define found where "found = concat (map (\<lambda>(_, by_z). map snd (btree_range (z0 div 32) (z1 div 32) by_z))
    (btree_range (x0 div 32) (x1 div 32) ?S))"
  note found = surface_scan [OF S(1), of _ "z0 div 32" "z1 div 32" "x0 div 32" "x1 div 32", folded found_def, unfolded S(2)]
  have "set found \<subseteq> ?V" unfolding found greatest_def column_revisions_get [OF revs(1)] subset_iff by fastforce
  moreover have "\<exists>v \<in> set found. r \<le> v" if edited: "r \<in> ?V" for r
  proof -
    obtain c where c: "btree_get ?revs c = Some r" "cx c \<in> {x0 div 32..x1 div 32}" "cz c \<in> {z0 div 32..z1 div 32}" using edited by blast
    obtain v where v: "greatest (column_revisions ?revs (cx c) (cz c)) v" "r \<le> v" using column_greatest [OF c(1) revs(1)] by blast
    then have "v \<in> set found" unfolding found using c(2,3) by blast
    with v(2) show ?thesis by blast
  qed
  ultimately have "greatest (insert INITIAL_REVISION ?V) (case found of [] \<Rightarrow> INITIAL_REVISION | r # rs \<Rightarrow> fold max rs r)"
    using revs(2) by (intro newest_found) blast+
  moreover have "surface_terrain_revision root st = Some (case found of [] \<Rightarrow> INITIAL_REVISION | r # rs \<Rightarrow> fold max rs r)"
    using assms(4) by (simp add: surface_terrain_revision_def surface_terrain_revision_in_def found_def voxel_chunk_def Let_def)
  ultimately show ?thesis by blast
qed

section \<open>Digs that cannot be refused\<close>

lemma persist_delta_ok:
  assumes "\<forall>m \<in> set ms. db_inventory db (p, m) \<noteq> None \<and> unat (mi_counts after ! material_id m) < 2 ^ 63"
  shows "\<exists>inventory. persist_inventory_delta p before after ms db = Inr (db\<lparr>db_inventory := inventory\<rparr>)"
  using assms
proof (induction ms arbitrary: db)
  case Nil
  show ?case by (rule exI [of _ "db_inventory db"]) simp
next
  case (Cons m ms)
  show ?case
  proof (cases "mi_counts before ! material_id m = mi_counts after ! material_id m")
    case True
    then show ?thesis using Cons by (simp add: Let_def)
  next
    case False
    let ?db = "db\<lparr>db_inventory := (db_inventory db)((p, m) \<mapsto> int (unat (mi_counts after ! material_id m)))\<rparr>"
    have "\<forall>k \<in> set ms. db_inventory ?db (p, k) \<noteq> None \<and> unat (mi_counts after ! material_id k) < 2 ^ 63"
      using Cons.prems by auto
    from Cons.IH [OF this] obtain inventory where
      "persist_inventory_delta p before after ms ?db = Inr (?db\<lparr>db_inventory := inventory\<rparr>)" by blast
    moreover have "to_sql_i64 (mi_counts after ! material_id m) = Inr (int (unat (mi_counts after ! material_id m)))"
      using Cons.prems by (simp add: to_sql_Inr)
    ultimately show ?thesis using False Cons.prems by (auto simp: Let_def simp del: try_Inr)
  qed
qed

lemma outcome_encodes:
  assumes "sorted_wrt (<) (map vm_coord ms)" "length ms \<le> 1021" "sorted_wrt (<) cs" "length cs \<le> 8"
  shows "\<exists>b. encode_operation_outcome ms cs = Inr b"
proof -
  have "validate_outcome_collections ms cs = Inr ()"
    unfolding validate_outcome_collections_def strictly_sorted_iff using assms
    by (simp add: MAX_EDIT_MUTATIONS_def MAX_EDIT_AFFECTED_CHUNKS_def)
  moreover have "length ms \<le> u16_max" "length cs \<le> u16_max" using assms(2,4) by simp_all
  ultimately show ?thesis unfolding encode_operation_outcome_def by (simp del: try_Inr)
qed

lemma persist_operation_ok:
  assumes "encode_operation_outcome ms cs = Inr b" "unat revision < 2 ^ 63" "db_players db p \<noteq> None"
    and "\<forall>r \<in> set (db_operations db). row_key r \<noteq> (p, ed_edit_session_id command, ed_operation_id command)"
  shows "\<exists>db'. persist_operation p command revision ms cs db = Inr db'"
proof -
  have "\<not> list_ex (operation_key p (ed_edit_session_id command) (ed_operation_id command)) (db_operations db)"
    using assms(4) by (auto simp: list_ex_iff operation_key_def row_key_def)
  moreover have "to_sql_i64 revision = Inr (int (unat revision))" using assms(2) by (simp add: to_sql_Inr)
  ultimately show ?thesis using assms(1,3) by (auto simp: persist_operation_def Let_def split: prod.split)
qed

lemma persist_action_ok:
  assumes "encode_operation_outcome ms cs = Inr b" "unat revision < 2 ^ 63" "db_players db p \<noteq> None"
    and "\<forall>r \<in> set (db_operations db). row_key r \<noteq> (p, ed_edit_session_id command, ed_operation_id command)"
    and "unat (mi_revision after) < 2 ^ 63"
    and "\<forall>m. db_inventory db (p, m) \<noteq> None \<and> unat (mi_counts after ! material_id m) < 2 ^ 63"
  shows "\<exists>db'. persist_action None p command revision before after ms records cs db = Inr db'"
proof (cases "ms = []")
  case True
  then show ?thesis using persist_operation_ok [OF assms(1-4)] by (auto simp: persist_action_def)
next
  case False
  have sql: "to_sql_i64 revision = Inr (int (unat revision))" "to_sql_i64 (mi_revision after) = Inr (int (unat (mi_revision after)))"
    using assms(2,5) by (simp_all add: to_sql_Inr)
  obtain player where player: "db_players db p = Some player" using assms(3) by blast
  let ?db = "db\<lparr>db_edit_chunks := fold persist_chunk records (db_edit_chunks db), db_revision := int (unat revision),
    db_players := (db_players db)(p \<mapsto> player\<lparr>pr_inventory_revision := int (unat (mi_revision after))\<rparr>)\<rparr>"
  obtain inventory where "persist_inventory_delta p before after MATERIAL_ALL ?db = Inr (?db\<lparr>db_inventory := inventory\<rparr>)"
    using persist_delta_ok [of MATERIAL_ALL ?db p after before] assms(6) by auto
  then have w: "persist_world p revision before after records cs db = Inr (?db\<lparr>db_inventory := inventory,
      db_chunk_revisions := fold (\<lambda>coord. btree_insert coord (int (unat revision))) cs (db_chunk_revisions db)\<rparr>)"
    using player by (simp add: persist_world_def sql persist_product_revisions_def Let_def del: try_Inr)
  let ?db' = "?db\<lparr>db_inventory := inventory,
      db_chunk_revisions := fold (\<lambda>coord. btree_insert coord (int (unat revision))) cs (db_chunk_revisions db)\<rparr>"
  obtain db' where "persist_operation p command revision ms cs ?db' = Inr db'"
    using persist_operation_ok [OF assms(1,2), of ?db' p command] assms(4) by auto
  then show ?thesis using False w by (simp add: persist_action_def)
qed

lemma commit_edit_ok:
  assumes "prepared_ok g planning (ed_action command) volume (dp_inventory player) prepared"
    and "edit_action_volume (ed_action command) = Some volume" "unat (es_revision st) + 1 < 2 ^ 64"
  defines "ms \<equiv> pl_mutations (ep_plan prepared)"
  defines "revision \<equiv> (if ms = [] then es_revision st else es_revision st + of_nat 1)"
  assumes "persist_action None p command revision (dp_inventory player) (ep_inventory prepared) ms
      (encode_durable_chunks (en_blake3 env) (replace_durable_overrides (plan_changes (ep_plan prepared)) (es_durable_edits st)) ms)
      (ep_affected_chunks prepared) (es_db st) = Inr db"
  shows "commit_edit env None p conn command player prepared st =
    (Inr (commit_of conn command prepared revision, ms \<noteq> []), committed prepared revision db st)"
proof -
  note m = prepared_mutations [OF assms(1,2)]
  have "(if pl_mutations (ep_plan prepared) \<noteq> [] then ok_or (AuthorityError ''edit revision overflowed'') (u64_checked_add (es_revision st) 1)
      else Inr (es_revision st)) = Inr revision"
    using assms(3) by (simp add: revision_def ms_def u64_checked_add_def)
  then show ?thesis
    using assms(6) unfolding commit_edit_def Let_def m(6) ms_def by (simp add: commit_of_def committed_def)
qed

lemma plan_edit_ok:
  assumes "serves (en_source env) g" "counts_ok (dp_inventory player)" "edit_action_volume (ed_action command) = Some volume"
    and "plan_action (en_source env) planning (dp_inventory player) (ed_action command) = Inr plan"
    and "unat (mi_revision (dp_inventory player)) + 1 < 2 ^ 64"
  shows "\<exists>prepared. plan_edit env player planning command = Inr prepared"
proof -
  have p: "plan_of g planning (ed_action command) volume (dp_inventory player) plan" by (rule plan_action_Inr [OF assms(1-4)])
  note sel = plan_selection [OF assms(3) p]
  have "affected_products (pl_mutations plan) = Inr (mutation_chunks (pl_mutations plan))"
    using selection_small [OF sel] selection_chunks(1) [OF sel]
    by (simp add: affected_products_def MAX_EDIT_MUTATIONS_def MAX_EDIT_AFFECTED_CHUNKS_def)
  moreover have "length (pl_mutations plan) = length (pl_durable_overrides plan)" using p by (simp add: plan_of_def)
  moreover have "u64_checked_add (mi_revision (dp_inventory player)) 1 = Some (mi_revision (dp_inventory player) + of_nat 1)"
    using assms(5) by (simp add: u64_checked_add_def)
  ultimately show ?thesis using assms(4) unfolding plan_edit_def by (simp add: Let_def del: try_Inr)
qed

lemma session_fresh:
  assumes "receipts_wf db" "db_players db p = Some row" "pr_session row = Some s" "\<forall>m. pr_max_operation row = Some m \<longrightarrow> m < n"
  shows "\<forall>r \<in> set (db_operations db). row_key r \<noteq> (p, s, n)" and "load_operation db p s n = Inr None"
proof -
  show fresh: "\<forall>r \<in> set (db_operations db). row_key r \<noteq> (p, s, n)"
  proof (intro ballI notI)
    fix r assume r: "r \<in> set (db_operations db)" "row_key r = (p, s, n)"
    then obtain m where "pr_max_operation row = Some m" "n \<le> m"
      using assms(1-3) by (fastforce simp: receipts_wf_def list_all_iff row_key_def)
    then show False using assms(4) by (simp add: not_le)
  qed
  have "find (operation_key p s n) (db_operations db) = None"
    using fresh by (auto simp: find_None_iff operation_key_def row_key_def)
  then show "load_operation db p s n = Inr None" by (simp add: load_operation_def)
qed

lemma dig_commits:
  assumes "serves (en_source env) g" "authority_wf env w st"
    and "db_players (es_db st) p = Some row" "pr_session row = Some s" "\<forall>m. pr_max_operation row = Some m \<longrightarrow> m < n"
    and "volume_for_hit hit shape = Some volume" "\<not> spawn_protected st (ActionDig hit shape)"
    and "source_voxel_block (en_source env) (ev_min volume) (sample_shape volume) = Inr snapshot"
    and "unat (es_revision st) + 1 < 2 ^ 63" "pr_inventory_revision row + 1 < 2 ^ 63"
    and "\<forall>m units. db_inventory (es_db st) (p, m) = Some units \<longrightarrow> units + 1021 < 2 ^ 63"
  defines "command \<equiv> \<lparr>ed_operation_id = n, ed_edit_session_id = s, ed_action = ActionDig hit shape\<rparr>"
  shows "\<exists>commit changed st'. apply_edit env None p conn command st = (Inr (commit, changed), st') \<and>
    (changed \<longleftrightarrow> (\<exists>c. volume_contains volume c \<and> world g (es_edits st) c \<noteq> Air)) \<and>
    (\<forall>c. volume_contains volume c \<longrightarrow> world g (es_edits st') c = Air)"
proof -
  note wf = assms(2)
  note edits = authority_edits_wf [OF wf]
  have players: "players_stored (en_pose_valid env) (es_db st)" and receipts: "receipts_wf (es_db st)"
    using wf by (simp_all add: authority_wf_def)
  have action: "ed_action command = ActionDig hit shape" "ed_edit_session_id command = s" "ed_operation_id command = n"
    by (simp_all add: command_def)
  have v: "edit_action_volume (ed_action command) = Some volume" using assms(6) by (simp add: action)
  obtain i r where i: "stored_inventory (es_db st) p i" "pr_inventory_revision row = int (unat (mi_revision i))"
    and l: "load_durable_player (en_pose_valid env) (es_db st) p = Inr (Some \<lparr>dp_current_edit_session = pr_session row,
       dp_max_operation_id = pr_max_operation row, dp_inventory = i, dp_resume = \<lparr>re_revision = r, re_pose = pr_pose row\<rparr>\<rparr>)"
    by (rule load_players_stored [OF players assms(3)])
  define player where "player = \<lparr>dp_current_edit_session = pr_session row, dp_max_operation_id = pr_max_operation row,
    dp_inventory = i, dp_resume = \<lparr>re_revision = r, re_pose = pr_pose row\<rparr>\<rparr>"
  have pl: "dp_inventory player = i" by (simp add: player_def)
  have counts: "counts_ok i" using i(1) by (simp add: stored_inventory_def counts_ok_def)
  have units: "units i m + 1021 < 2 ^ 63" for m
  proof -
    have "db_inventory (es_db st) (p, m) = Some (int (units i m))" using i(1) by (simp add: stored_inventory_def units_def)
    then have "int (units i m) + 1021 < 2 ^ 63" using assms(11) by blast
    then show ?thesis using of_nat_less_iff [where ?'a = int, of "units i m + 1021" "2 ^ 63"] by simp
  qed
  have inv_rev: "unat (mi_revision i) + 1 < 2 ^ 63"
    using assms(10) i(2) of_nat_less_iff [where ?'a = int, of "unat (mi_revision i) + 1" "2 ^ 63"] by simp
  obtain regions where regions: "edit_regions (ed_action command) = Inr regions"
    using v by (simp add: edit_regions_def volume_of_action Let_def)
  note snap = snapshot_for_voxel_columns_exact [OF edits action_volume_fits [OF v]]
  obtain planning where planning: "snapshot_for_voxel_columns (vx (ev_min volume)) (vx (ev_max volume)) (vz (ev_min volume))
      (vz (ev_max volume)) (es_edits st) = Some planning"
    using snap by blast
  have admit: "admit_edit env p conn command st = Inr (AdmitPlan player planning)"
    using session_fresh(2) [OF receipts assms(3-5)] assms(4,5) planning v
    by (auto simp: admit_edit_def action l player_def volume_of_action not_le split: option.split simp del: try_Inr edit_action_volume.simps)
  have fits: "\<forall>m. units i m + 1021 < 2 ^ 64"
  proof
    fix m show "units i m + 1021 < 2 ^ 64" using units [of m] by simp
  qed
  obtain plan where "plan_action (en_source env) planning i (ActionDig hit shape) = Inr plan"
    using plan_dig_fits [OF assms(1,8,6) counts fits, of planning] by blast
  then have "plan_action (en_source env) planning (dp_inventory player) (ed_action command) = Inr plan" by (simp only: action pl)
  then obtain prepared where prepared: "plan_edit env player planning command = Inr prepared"
    using plan_edit_ok [OF assms(1) counts [folded pl] v] inv_rev by (auto simp: pl)
  have applied: "apply_edit env None p conn command st = commit_edit env None p conn command player prepared st"
    using assms(7) by (simp add: apply_edit_def action regions [unfolded action] admit prepared)
  have ok: "prepared_ok g planning (ed_action command) volume i prepared"
    using plan_edit_Inr [OF assms(1) _ v prepared] counts by (simp add: pl)
  define ms where "ms = pl_mutations (ep_plan prepared)"
  define revision where "revision = (if ms = [] then es_revision st else es_revision st + of_nat 1)"
  note m = prepared_mutations [OF ok v, folded ms_def]
  have "volume_contains volume c \<Longrightarrow> override_at planning c = override_at (es_edits st) c" for c
    using snap planning stencil_offsets [OF v, of c] by (auto simp: volume_contains_def split: if_splits)
  then have ok': "plan_of g (es_edits st) (ed_action command) volume i (ep_plan prepared)"
    using ok plan_of_cong [of volume planning "es_edits st"] by (simp add: prepared_ok_def)
  have dig: "\<not> is_place (ed_action command)" "edit_action_material (ed_action command) = Air" by (simp_all add: action is_place_def)
  have chunks: "ep_affected_chunks prepared = mutation_chunks ms" using ok by (simp add: prepared_ok_def ms_def)
  obtain b where b: "encode_operation_outcome ms (ep_affected_chunks prepared) = Inr b"
    using outcome_encodes [of ms "mutation_chunks ms"] m(4,5) mutation_chunks_sorted selection_chunks(1) [OF m(4)]
    by (auto simp: chunks selection_ok_def v)
  have after: "unat (mi_counts (ep_inventory prepared) ! material_id k) < 2 ^ 63" for k
  proof -
    have "amount (world g (es_edits st)) volume k \<le> 1021"
      using stencil_small [OF v] unfolding amount_def by (meson le_trans length_filter_le)
    then have "units (pl_inventory (ep_plan prepared)) k < 2 ^ 63"
      using ok' dig(1) units [of k] by (cases "k = Air") (auto simp: plan_of_def)
    then show ?thesis using ok units [of k] by (auto simp: prepared_ok_def units_def split: if_splits)
  qed
  have rev: "unat revision < 2 ^ 63" "unat (mi_revision (ep_inventory prepared)) < 2 ^ 63"
    using assms(9) inv_rev ok checked_add_unat [of "es_revision st" 1] by (auto simp: revision_def prepared_ok_def split: if_splits)
  have rows: "\<forall>k. db_inventory (es_db st) (p, k) \<noteq> None" using i(1) by (simp add: stored_inventory_def)
  obtain db where db: "persist_action None p command revision i (ep_inventory prepared) ms
      (encode_durable_chunks (en_blake3 env) (replace_durable_overrides (plan_changes (ep_plan prepared)) (es_durable_edits st)) ms)
      (ep_affected_chunks prepared) (es_db st) = Inr db"
  proof -
    have "\<exists>db. persist_action None p command revision i (ep_inventory prepared) ms records (ep_affected_chunks prepared) (es_db st) = Inr db" for records
      using session_fresh(1) [OF receipts assms(3-5)] rows after assms(3)
      by (intro persist_action_ok [OF b rev(1) _ _ rev(2)]) (simp_all add: action)
    then show ?thesis using that by blast
  qed
  have final: "apply_edit env None p conn command st =
      (Inr (commit_of conn command prepared revision, ms \<noteq> []), committed prepared revision db st)"
    unfolding applied using commit_edit_ok [OF ok [folded pl] v, where st = st and env = env and db = db and p = p and conn = conn] db assms(9)
    by (simp add: pl flip: ms_def revision_def)
  have ms: "ms \<noteq> [] \<longleftrightarrow> (\<exists>c. volume_contains volume c \<and> world g (es_edits st) c \<noteq> Air)"
  proof -
    have "ms \<noteq> [] \<longleftrightarrow> set (changed_voxels g (es_edits st) (ed_action command) volume) \<noteq> {}"
      using ok' by (simp add: ms_def plan_of_def)
    then show ?thesis using set_changed [OF ok'] dig(1) by auto
  qed
  have "world g (es_edits (committed prepared revision db st)) c = Air" if "volume_contains volume c" for c
    using plan_world [OF edits v ok', of c] set_changed [OF ok'] dig that
    by (auto simp: committed_def Let_def split: if_splits)
  then show ?thesis using final ms by blast
qed

text \<open>
  C5: a dig is never refused for a reason the player cannot see. In a reachable state, let a player
  whose session this is dig, with an operation id above the last, a stencil within the grid and
  outside the protected spawn whose voxels the world source can produce; unless a counter of the
  database is within a stencil of its 63-bit limit or SQLite fails, the authority accepts it,
  and afterwards the whole stencil is air.
\<close>

theorem dig_accepted:
  assumes "serves (en_source env) g" "digests_ok (en_blake3 env)" "authority_reachable env w issued st"
    and "db_players (es_db st) p = Some row" "pr_session row = Some s" "\<forall>m. pr_max_operation row = Some m \<longrightarrow> m < n"
    and "volume_for_hit hit shape = Some volume" "\<not> spawn_protected st (ActionDig hit shape)"
    and "source_voxel_block (en_source env) (ev_min volume) (sample_shape volume) = Inr snapshot"
    and "unat (es_revision st) + 1 < 2 ^ 63" "pr_inventory_revision row + 1 < 2 ^ 63"
    and "\<forall>m units. db_inventory (es_db st) (p, m) = Some units \<longrightarrow> units + 1021 < 2 ^ 63"
  defines "command \<equiv> \<lparr>ed_operation_id = n, ed_edit_session_id = s, ed_action = ActionDig hit shape\<rparr>"
  shows "\<exists>commit changed st'. apply_edit env None p conn command st = (Inr (commit, changed), st') \<and>
    (changed \<longleftrightarrow> (\<exists>c. volume_contains volume c \<and> world g (es_edits st) c \<noteq> Air)) \<and>
    (\<forall>c. volume_contains volume c \<longrightarrow> world g (es_edits st') c = Air)"
  unfolding command_def by (rule dig_commits [OF assms(1) reachable_wf(1) [OF assms(1-3)] assms(4-12)])

end
