(* ===== verification/Authority_Scene.thy ===== *)
theory Authority_Scene
  imports Authority_Effects
begin

text \<open>
  A scene on which the properties of the edit authority are exercised: a world of stone, a new
  database, one player who logs in and digs, and a restart of the server.
\<close>

declare split_paired_All [simp del] split_paired_Ex [simp del]

definition stone_env :: edit_env where
  "stone_env = \<lparr>en_blake3 = (\<lambda>_. zero_hash), en_source = procedural_source [] (\<lambda>_ _ _. Stone), en_pose_valid = (\<lambda>_. True)\<rparr>"

definition digger :: "u8 list" where "digger = replicate 16 7"
definition dig_session :: "u8 list" where "dig_session = replicate 16 9"

definition dig_command :: edit_command where
  "dig_command = \<lparr>ed_operation_id = 1, ed_edit_session_id = dig_session, ed_action = ActionDig (voxel_at 0 64 0) ShapeCube\<rparr>"

definition logged_in :: edit_state where
  "logged_in =
     \<lparr>es_db = \<lparr>db_version = 14, db_world_id = [], db_source_hash = [], db_revision = 1, db_edit_chunks = [],
        db_chunk_revisions = [],
        db_players = [digger \<mapsto> \<lparr>pr_session = Some dig_session, pr_max_operation = None, pr_inventory_revision = 1,
          pr_resume_revision = 1, pr_pose = []\<rparr>],
        db_inventory = (\<lambda>(player, material). if player = digger then Some 0 else None), db_operations = []\<rparr>,
      es_durable_edits = em_empty, es_edits = em_empty, es_revision = 1, es_chunk_revisions = [],
      es_surface_revisions = [], es_protected_spawn = None\<rparr>"

lemma stone_ok: "serves (en_source stone_env) (\<lambda>_. Stone)" "digests_ok (en_blake3 stone_env)"
  using procedural_serves [of "[]" "\<lambda>_ _ _. Stone"] sample_ok(1) by (simp_all add: stone_env_def)

lemma login: "authority_reachable stone_env [] {(digger, dig_session)} logged_in"
proof -
  let ?st0 = "logged_in\<lparr>es_db := (es_db logged_in)\<lparr>db_players := Map.empty, db_inventory := Map.empty\<rparr>\<rparr>"
  let ?resume = "\<lparr>re_revision = 1, re_pose = []\<rparr> :: player_resume"
  let ?st1 = "logged_in\<lparr>es_db := (es_db logged_in)\<lparr>db_players := [digger \<mapsto> \<lparr>pr_session = None, pr_max_operation = None,
    pr_inventory_revision = 1, pr_resume_revision = 1, pr_pose = []\<rparr>]\<rparr>\<rparr>"
  have start: "from_connection stone_env [] db_empty = Inr ?st0"
    by (simp add: from_connection_def initialize_schema_def db_empty_def load_edits_def load_product_revisions_def
      INITIAL_REVISION_def EDIT_DATABASE_SCHEMA_VERSION_def positive_u64_def build_surface_revision_index_def logged_in_def
      stone_env_def procedural_source_def em_empty_def)
  have none: "load_durable_player (en_pose_valid stone_env) (es_db ?st0) digger = Inr None" by (simp add: load_player_None)
  have "material_id m < 15" for m using material_ids(2) [of m] by simp
  then have stock: "(\<lambda>(player, material). if player = digger
      then Some (int (unat (mi_counts EMPTY_INVENTORY ! material_id material))) else db_inventory (es_db ?st0) (player, material)) =
      (\<lambda>(player, material). if player = digger then Some 0 else None)"
    by (intro ext) (auto simp: EMPTY_INVENTORY_def inventory_slots logged_in_def split: prod.split)
  have valid: "validate_resume (en_pose_valid stone_env) ?resume = Inr ()" "to_sql_i64 1 = Inr 1"
    by (simp_all add: validate_resume_def stone_env_def to_sql_i64_def)
  have "load_player stone_env None digger ?resume ?st0 = Inr ((EMPTY_INVENTORY, ?resume), ?st1)"
    unfolding load_player_def none Let_def stock by (simp add: valid with_fault_def del: try_Inr) (simp add: logged_in_def)
  moreover have "begin_player_session None dig_session digger ?st1 = Inr logged_in"
    by (simp add: begin_player_session_def with_fault_def logged_in_def del: try_Inr)
  ultimately have "authority_steps stone_env [] {} ?st0 {(digger, dig_session)} logged_in"
    by (intro steps_more [OF steps_more [OF steps_none step_load] step_session]) (simp_all add: dig_session_def session_nil_def)
  then show ?thesis using start unfolding authority_reachable_def by blast
qed

lemma dig_volume: obtains volume where "volume_for_hit (voxel_at 0 64 0) ShapeCube = Some volume"
  "volume_contains volume (voxel_at 0 64 0)" "ev_min volume = voxel_at (-4) 60 (-4)" "sample_shape volume = (10, 10, 10)"
proof -
  obtain volume where v: "volume_for_hit (voxel_at 0 64 0) ShapeCube = Some volume"
    by (simp add: volume_for_hit_Some voxel_ok_def i32_ok_def volume_consts)
  moreover have "volume_contains volume (voxel_at 0 64 0)" using v by (simp add: volume_contains_stencil in_stencil_def)
  moreover have "ev_min volume = voxel_at (-4) 60 (-4)" "sample_shape volume = (10, 10, 10)"
    using v by (auto simp: volume_for_hit_Some sample_shape_def volume_consts)
  ultimately show ?thesis using that by blast
qed

lemma digger_row:
  "db_players (es_db logged_in) digger = Some \<lparr>pr_session = Some dig_session, pr_max_operation = None, pr_inventory_revision = 1,
     pr_resume_revision = 1, pr_pose = []\<rparr>"
  "\<not> spawn_protected logged_in (ActionDig (voxel_at 0 64 0) ShapeCube)" "unat (es_revision logged_in) + 1 < 2 ^ 63"
  "\<forall>m units. db_inventory (es_db logged_in) (digger, m) = Some units \<longrightarrow> units + 1021 < 2 ^ 63"
  by (simp_all add: logged_in_def spawn_protected_def)

text \<open>The dig of the scene is accepted and changes the world.\<close>

lemma dig_happens: "\<exists>commit st'. apply_edit stone_env None digger 5 dig_command logged_in = (Inr (commit, True), st')"
proof -
  obtain volume where v: "volume_for_hit (voxel_at 0 64 0) ShapeCube = Some volume"
    and c: "volume_contains volume (voxel_at 0 64 0)" and shape: "ev_min volume = voxel_at (-4) 60 (-4)" "sample_shape volume = (10, 10, 10)"
    by (rule dig_volume)
  obtain b where b: "source_voxel_block (en_source stone_env) (ev_min volume) (sample_shape volume) = Inr b"
    unfolding shape using procedural_available [of 10 10 10 "voxel_at (-4) 60 (-4)"] by (auto simp: stone_env_def)
  have stone: "world (\<lambda>_. Stone) (es_edits logged_in) (voxel_at 0 64 0) \<noteq> Air"
    by (simp add: logged_in_def world_def resolve_generated_def override_at_def em_empty_def)
  let ?row = "\<lparr>pr_session = Some dig_session, pr_max_operation = None, pr_inventory_revision = 1, pr_resume_revision = 1, pr_pose = []\<rparr>"
  have session: "pr_session ?row = Some dig_session" "\<forall>m. pr_max_operation ?row = Some m \<longrightarrow> m < 1" "pr_inventory_revision ?row + 1 < 2 ^ 63"
    by simp_all
  obtain commit changed st' where dug: "apply_edit stone_env None digger 5 dig_command logged_in = (Inr (commit, changed), st')"
    and effect: "changed \<longleftrightarrow> (\<exists>c. volume_contains volume c \<and> world (\<lambda>_. Stone) (es_edits logged_in) c \<noteq> Air)"
    using dig_commits [OF stone_ok(1) reachable_wf(1) [OF stone_ok login] digger_row(1) session(1,2) v digger_row(2) b digger_row(3)
        session(3) digger_row(4), of 5]
    unfolding dig_command_def by blast
  have changed using effect c stone by blast
  then show ?thesis using dug by auto
qed

lemma scene_dug:
  obtains commit st where "apply_edit stone_env None digger 5 dig_command logged_in = (Inr (commit, True), st)"
    "authority_reachable stone_env [] {(digger, dig_session)} st" "es_protected_spawn st = None"
proof -
  obtain commit st where a: "apply_edit stone_env None digger 5 dig_command logged_in = (Inr (commit, True), st)"
    using dig_happens by blast
  note r = reachable_apply [OF login a]
  obtain f where f: "fresh stone_env (\<lambda>_. Stone) digger dig_command logged_in f"
    and st: "st = committed (fe_plan f) (fe_revision f) (fe_db f) logged_in"
    by (rule fresh_changed [OF stone_ok login a])
  have "es_protected_spawn st = es_protected_spawn logged_in" by (simp add: st committed_fields [OF f])
  then have "es_protected_spawn st = None" by (simp add: logged_in_def)
  then show ?thesis using that [OF a r] by blast
qed

section \<open>Witnesses\<close>

text \<open>A command of another session is refused.\<close>

theorem refused_edit_changes_nothing_witness:
  "\<exists>e st'. apply_edit stone_env None digger 5 (dig_command\<lparr>ed_edit_session_id := replicate 16 1\<rparr>) logged_in = (Inl e, st') \<and>
     st' = logged_in"
proof -
  let ?command = "dig_command\<lparr>ed_edit_session_id := replicate 16 1\<rparr>"
  have players: "players_stored (en_pose_valid stone_env) (es_db logged_in)"
    using reachable_wf(1) [OF stone_ok login] by (simp add: authority_wf_def)
  obtain i r where l: "load_durable_player (en_pose_valid stone_env) (es_db logged_in) digger = Inr (Some
      \<lparr>dp_current_edit_session = Some dig_session, dp_max_operation_id = None, dp_inventory = i, dp_resume = \<lparr>re_revision = r, re_pose = []\<rparr>\<rparr>)"
    by (rule load_players_stored [OF players digger_row(1)]) auto
  have other: "dig_session \<noteq> replicate 16 1" by (simp add: dig_session_def replicate_eq_replicate)
  have "db_operations (es_db logged_in) = []" by (simp add: logged_in_def)
  then have "admit_edit stone_env digger 5 ?command logged_in = Inl (AuthorityError ''edit session is not current'')"
    using other by (simp add: admit_edit_def load_operation_def l)
  then have "\<exists>e. fst (apply_edit stone_env None digger 5 ?command logged_in) = Inl e"
    by (auto simp: apply_edit_def split: sum.split)
  then obtain e st' where "apply_edit stone_env None digger 5 ?command logged_in = (Inl e, st')" by (metis prod.collapse)
  then show ?thesis using refused_edit_changes_nothing [OF stone_ok login] by blast
qed

theorem restart_loses_nothing_witness:
  "\<exists>commit st. apply_edit stone_env None digger 5 dig_command logged_in = (Inr (commit, True), st) \<and>
     from_connection stone_env [] (es_db st) = Inr st"
proof -
  obtain commit st where a: "apply_edit stone_env None digger 5 dig_command logged_in = (Inr (commit, True), st)"
    and r: "authority_reachable stone_env [] {(digger, dig_session)} st" "es_protected_spawn st = None"
    by (rule scene_dug)
  then show ?thesis using restart_loses_nothing [OF stone_ok r(1)] by auto
qed

theorem retry_acknowledges_witness:
  "\<exists>commit st. apply_edit stone_env None digger 5 dig_command logged_in = (Inr (commit, True), st) \<and>
     apply_edit stone_env (Some (AuthorityError ''disk full'')) digger 8 dig_command st =
       (Inr (commit\<lparr>ct_editor_connection_id := 8\<rparr>, False), st)"
  using dig_happens retry_acknowledges [OF stone_ok login] by blast

text \<open>After a restart the same operation id cannot place a block.\<close>

theorem edit_applied_once_witness:
  "\<exists>commit st st' result. apply_edit stone_env None digger 5 dig_command logged_in = (Inr (commit, True), st) \<and>
     from_connection stone_env [] (es_db st) = Inr st' \<and>
     apply_edit stone_env None digger 6 (dig_command\<lparr>ed_action := ActionPlace (voxel_at 0 64 0) Stone ShapeCube\<rparr>) st' = (result, st')"
proof -
  obtain commit st where a: "apply_edit stone_env None digger 5 dig_command logged_in = (Inr (commit, True), st)"
    and r: "authority_reachable stone_env [] {(digger, dig_session)} st"
    by (rule scene_dug)
  obtain st' where st': "from_connection stone_env [] (es_db st) = Inr st'"
    using restart_exact [OF stone_ok(2) reachable_wf(1) [OF stone_ok r]] by blast
  note steps = steps_more [OF steps_none step_restart [OF st']]
  obtain result st'' where again: "apply_edit stone_env None digger 6
      (dig_command\<lparr>ed_action := ActionPlace (voxel_at 0 64 0) Stone ShapeCube\<rparr>) st' = (result, st'')" by fastforce
  have "st'' = st'" using edit_applied_once [OF stone_ok login a steps _ _ again] by auto
  then show ?thesis using a st' again by blast
qed

theorem edit_does_what_it_says_witness:
  "\<exists>commit st. apply_edit stone_env None digger 5 dig_command logged_in = (Inr (commit, True), st) \<and>
     world (\<lambda>_. Stone) (es_edits st) (voxel_at 0 64 0) = Air \<and> unat (ct_revision commit) = 2"
proof -
  obtain commit st where a: "apply_edit stone_env None digger 5 dig_command logged_in = (Inr (commit, True), st)"
    using dig_happens by blast
  obtain volume where v: "volume_for_hit (voxel_at 0 64 0) ShapeCube = Some volume" "volume_contains volume (voxel_at 0 64 0)"
    by (rule dig_volume)
  have stone: "world (\<lambda>_. Stone) (es_edits logged_in) (voxel_at 0 64 0) = Stone"
    by (simp add: logged_in_def world_def resolve_generated_def override_at_def em_empty_def)
  have "edit_action_volume (ed_action dig_command) = Some volume" using v(1) by (simp add: dig_command_def)
  from edit_does_what_it_says [OF stone_ok login a this, of "voxel_at 0 64 0" "chunk_at 0 2 0"] show ?thesis
    using a v(2) stone by (intro exI [of _ commit] exI [of _ st]) (auto simp: dig_command_def is_place_def logged_in_def)
qed

theorem edits_conserve_matter_witness:
  "\<exists>commit st volume before after. apply_edit stone_env None digger 5 dig_command logged_in = (Inr (commit, True), st) \<and>
     volume_for_hit (voxel_at 0 64 0) ShapeCube = Some volume \<and> ct_editor_inventory commit = Some (dp_inventory after) \<and>
     load_durable_player (en_pose_valid stone_env) (es_db logged_in) digger = Inr (Some before) \<and>
     load_durable_player (en_pose_valid stone_env) (es_db st) digger = Inr (Some after) \<and>
     amount (world (\<lambda>_. Stone) (es_edits st)) volume Stone + units (dp_inventory after) Stone =
       amount (world (\<lambda>_. Stone) (es_edits logged_in)) volume Stone + units (dp_inventory before) Stone"
proof -
  obtain commit st where a: "apply_edit stone_env None digger 5 dig_command logged_in = (Inr (commit, True), st)"
    using dig_happens by blast
  obtain volume where v: "volume_for_hit (voxel_at 0 64 0) ShapeCube = Some volume" by (rule dig_volume)
  have "edit_action_volume (ed_action dig_command) = Some volume" using v by (simp add: dig_command_def)
  from edits_conserve_matter [OF stone_ok login a this, of Stone] show ?thesis using a v by auto
qed

theorem commits_broadcast_witness:
  "\<exists>commit st b. apply_edit stone_env None digger 5 dig_command logged_in = (Inr (commit, True), st) \<and>
     encode_edit_commit (commit\<lparr>ct_editor_inventory := None\<rparr>) = Inr b \<and> length b \<le> 338"
proof -
  obtain commit st where a: "apply_edit stone_env None digger 5 dig_command logged_in = (Inr (commit, True), st)"
    using dig_happens by blast
  obtain volume where v: "volume_for_hit (voxel_at 0 64 0) ShapeCube = Some volume" by (rule dig_volume)
  obtain bytes where "encode_edit_command dig_command = Inr bytes"
    by (simp add: encode_edit_command_def dig_command_def dig_session_def session_nil_def encode_edit_action_def check_action_volume_def
      v voxel_ok_validates voxel_ok_def i32_ok_def)
  then have d: "decode_edit_command bytes = Inr dig_command"
    by (simp add: command.dec_iff command_ok_def dig_command_def dig_session_def voxel_ok_def i32_ok_def)
  show ?thesis using a commits_broadcast [OF stone_ok login d _ a, of None] by auto
qed

theorem surface_revision_newest_witness:
  "\<exists>commit st r. apply_edit stone_env None digger 5 dig_command logged_in = (Inr (commit, True), st) \<and>
     surface_terrain_revision \<lparr>pk_level = 0, pk_x = 0, pk_y = 0, pk_z = 0\<rparr> st = Some r \<and> INITIAL_REVISION \<le> r"
proof -
  obtain commit st where a: "apply_edit stone_env None digger 5 dig_command logged_in = (Inr (commit, True), st)"
    and r: "authority_reachable stone_env [] {(digger, dig_session)} st"
    by (rule scene_dug)
  have "horizontal_bounds \<lparr>pk_level = 0, pk_x = 0, pk_y = 0, pk_z = 0\<rparr> =
      Some ((0, 0), (int TERRAIN_PAGE_EDGE_SAMPLES, int TERRAIN_PAGE_EDGE_SAMPLES))"
    by (simp add: TERRAIN_PAGE_EDGE_SAMPLES_def horizontal_bounds_def page_span_def i64_try_def i32_try_def i32_ok_def)
  from surface_revision_newest [OF stone_ok r this] show ?thesis using a by (auto simp: greatest_def)
qed

theorem dig_accepted_witness:
  "\<exists>commit st. apply_edit stone_env None digger 5 dig_command logged_in = (Inr (commit, True), st) \<and>
     world (\<lambda>_. Stone) (es_edits st) (voxel_at 0 64 0) = Air"
proof -
  obtain volume where v: "volume_for_hit (voxel_at 0 64 0) ShapeCube = Some volume"
    and c: "volume_contains volume (voxel_at 0 64 0)" and shape: "ev_min volume = voxel_at (-4) 60 (-4)" "sample_shape volume = (10, 10, 10)"
    by (rule dig_volume)
  obtain b where b: "source_voxel_block (en_source stone_env) (ev_min volume) (sample_shape volume) = Inr b"
    unfolding shape using procedural_available [of 10 10 10 "voxel_at (-4) 60 (-4)"] by (auto simp: stone_env_def)
  let ?row = "\<lparr>pr_session = Some dig_session, pr_max_operation = None, pr_inventory_revision = 1, pr_resume_revision = 1, pr_pose = []\<rparr>"
  have session: "pr_session ?row = Some dig_session" "\<forall>m. pr_max_operation ?row = Some m \<longrightarrow> m < 1" "pr_inventory_revision ?row + 1 < 2 ^ 63"
    by simp_all
  obtain commit changed st' where dug: "apply_edit stone_env None digger 5 dig_command logged_in = (Inr (commit, changed), st')"
      "\<forall>c. volume_contains volume c \<longrightarrow> world (\<lambda>_. Stone) (es_edits st') c = Air"
    using dig_accepted [OF stone_ok login digger_row(1) session(1,2) v digger_row(2) b digger_row(3) session(3) digger_row(4), of 5]
    unfolding dig_command_def by blast
  moreover have changed using dig_happens dug(1) by auto
  ultimately show ?thesis using c by auto
qed

end
