(* ===== verification/Spec2Isabelle.thy ===== *)
theory Spec2Isabelle
  imports Edit_Codec Edit_Surface Revisions Stream_Frames Arena Brick_Atlas Generation_Limiter Chunk_Cache Terrain_Transport Outbound_Frames Virtual_Surface Authority_Scene
begin

text \<open>
  Verification library of a voxel world: a server that owns the edits of an endless generated
  terrain, a client that streams and draws it, and the protocol between them. Source paths below
  are relative to \<open>src/\<close>.

  \<^bold>\<open>The program and its parts.\<close> The world is a pure generator plus a journal of edits. The server
  (\<open>world-service\<close>) validates an edit against the generated voxels and the journal, writes a receipt
  and the changed chunks to SQLite in one transaction, and broadcasts a commit with the revision of
  every affected chunk. The client (\<open>runtime\<close>, \<open>shell\<close>) keeps the newest revision it has seen,
  fences every product it derives from the world with the revisions it used, and schedules the
  generation, meshing and upload of chunks around its focus; the renderer (\<open>render\<close>) places what is
  uploaded in GPU buffers. Terrain too far for chunks is streamed as pages of a hierarchy. All
  integers are kept at the width of the source: \<open>w word\<close> where the code wraps or works bitwise,
  ranges of \<open>int\<close> and \<open>nat\<close> (\<open>Prelude\<close>) where it checks or saturates. A panic is \<open>None\<close>, an error is
  \<open>Inl\<close> of the source's error type. \<open>usize\<close> is taken as 64 bits in what is serialised and as
  unbounded in lengths and counts.

  \<^bold>\<open>Foundations.\<close> \<open>Prelude\<close>: integer ranges, list and comparison operations of Rust's standard
  library, results and \<open>?\<close>. \<open>Ordered_Map\<close>: \<open>BTreeMap\<close> and \<open>BTreeSet\<close> as sorted association lists,
  the locale of their laws and its interpretation. \<open>Coords\<close>: chunk and voxel coordinates
  (\<open>world/src/chunk.rs\<close>, \<open>edit.rs\<close>). \<open>Material_Model\<close>, \<open>Chunk_Model\<close>: \<open>material.rs\<close>, \<open>chunk.rs\<close>.
  \<open>Wire_Bytes\<close>, \<open>Wire_Cursor\<close>: offset reads and the forward cursor of every binary format.

  \<^bold>\<open>Payloads and the journal.\<close> \<open>Bit_Packing\<close>, \<open>Chunk_Codec\<close>: the palette, its packing loop and the
  \<open>VXCH\<close> codec of \<open>world/src/codec.rs\<close>, inverse to each other and strict on malformed input.
  \<open>Edit_Chunk\<close>, \<open>Edit_Map\<close>: \<open>EditedChunk\<close> and \<open>EditMap\<close> of \<open>world/src/edit.rs\<close>, whose updates, one
  by one and in merged batches, refine a finite map from voxels to materials. \<open>Edit_Codec\<close>: the
  \<open>VXED\<close> records and hydration. \<open>Edit_Queries\<close>, \<open>Edit_Surface\<close>: affected chunks, bounded snapshots,
  application to generated chunks and the visible surface of an edited column.

  \<^bold>\<open>The edit authority\<close> (\<open>world-service/src/edits.rs\<close>). \<open>Edit_Volume\<close>, \<open>Edit_Mutations\<close>,
  \<open>Edit_Messages\<close>: stencils, commands, commits, mutation masks and inventories of
  \<open>world/src/protocol.rs\<close>. \<open>Voxel_Source\<close>: the blocks of generated voxels of \<open>world/src/source.rs\<close>.
  \<open>Edit_Outcome\<close>, \<open>Edit_Planning\<close>: durable receipts and the plan of a dig or a placement.
  \<open>Edit_Store\<close>: the tables, what a transaction writes and what opening the database reads back.
  \<open>Edit_Authority\<close>: the state and its operations, from opening and spawn installation over players
  and sessions to the three phases of an edit. \<open>Authority_Invariant\<close> states what the state always satisfies
  (the tables hold the journal, the revisions and the players exactly, the receipts decode, the
  surface index is the one built from the revisions); \<open>Authority_Steps\<close> shows that every operation keeps
  it; \<open>Authority_History\<close> closes the operations, failed transactions and restarts under reachability;
  \<open>Authority_Effects\<close> states what an accepted edit does to the world, the inventory and the
  revisions; \<open>Authority_Scene\<close> runs a small world through login, dig, retry and restart.

  \<^bold>\<open>The client's world.\<close> \<open>Revisions\<close>: fences and authoritative floors of \<open>runtime/src/lib.rs\<close>, whose
  merge walks compute set intersections. \<open>Stream_Scheduler\<close>, \<open>Stream_Invariant\<close>, \<open>Stream_Tickets\<close>,
  \<open>Stream_Frames\<close>: \<open>StreamScheduler\<close>, its invariant, its tickets as a transition system and its
  reports. \<open>Request_Window\<close>, \<open>Generation_Limiter\<close>, \<open>Chunk_Cache\<close>: the choice of pending requests
  (\<open>shell/src/request_window.rs\<close>), admission of generation (\<open>world-service/src/generation_limiter.rs\<close>)
  with its interleavings, a signal being a critical section of its own, and the bots' cache (\<open>bots/src/cache.rs\<close>).

  \<^bold>\<open>GPU resources.\<close> \<open>Arena\<close>: \<open>render/src/arena.rs\<close>, best fit and coalescing as a partition of each
  page. \<open>Brick_Residency\<close>, \<open>Brick_Hash\<close>, \<open>Brick_Atlas\<close>: \<open>brick_residency.rs\<close>, \<open>brick_hash.rs\<close> and
  \<open>brick_gpu.rs\<close>; the atlas mirrors the residency cache through the open-addressing table, or
  answers from a table its caller uploaded, until the next refresh.

  \<^bold>\<open>Terrain pages and transport.\<close> \<open>Terrain_Key\<close>, \<open>Virtual_Surface\<close>: page keys, exact faces and
  boundary certificates (\<open>terrain_page.rs\<close>, \<open>virtual_surface.rs\<close>). \<open>Terrain_Stream\<close>,
  \<open>Terrain_Transport\<close>: the page scheduler and its requests. \<open>Frame_Protocol\<close>, \<open>Frame_Reassembly\<close>,
  \<open>Error_Messages\<close>: frames, fragments and the error message of \<open>protocol.rs\<close>. \<open>Session_Requests\<close>,
  \<open>Outbound_Frames\<close>: admission, where closing a session and cancelling its requests are two steps, the
  frame writer of \<open>world-service/src/server.rs\<close> and the client of \<open>shell/src/remote.rs\<close> that reads it
  and hands complete messages to their handlers.

  \<^bold>\<open>Loops and bounds.\<close> Every definition is total and none needs fuel. Three loops are \<open>function\<close>s with
  a measure: the refill of the bit reader, the downward scan of the edited surface and the eviction
  that makes room in the scheduler. The others recurse on what bounds them in the source: a probe on
  the slots of the table, a batch on the ready groups, the cache's eviction on its recency order
  (\<open>None\<close> where that would run empty; \<open>Chunk_Cache\<close> shows that it never does).

  \<^bold>\<open>Parameters.\<close> What is not under \<open>src/\<close> is an argument: the blake3 digest (32 bytes), the world
  source that serves voxel blocks, the byte budget of the traffic shaper, whether the client's
  handler accepts the content of an opened world or a batch result, the binding limit of the GPU device, the range checks of a pose in floating point, and the failure of an SQLite transaction,
  which either commits whole or leaves nothing. Session identifiers drawn as UUIDs are not issued
  twice (a step draws one that is new). Each such hypothesis has a witness on concrete functions.

  \<^bold>\<open>Departures the model shows.\<close> \<open>QueueUpdate::Stale\<close> is not reported for an older revision over a
  newer pending one when the brick is resident (\<open>brick_residency.rs\<close>). A frame begun in fragments
  and sent whole after the byte budget rose strands its transfer in the client (\<open>server.rs\<close>).
  \<open>ProtectedSpawn::contains\<close> overflows for voxels almost \<open>2 ^ 32\<close> apart on both axes (\<open>edits.rs\<close>).

  \<^bold>\<open>Not modelled.\<close> Image synthesis, meshing, user interface, physics and camera code, which computes
  in \<open>f32\<close>; world generation, which is noise in floating point; page payloads, directories and
  regions; presence; configuration files; the bots' behaviour; window, input and audio glue; the
  web client. Of \<open>edits.rs\<close>, the keyed locks (the phases of an edit run in a row) and the subscriber
  channels; of \<open>protocol.rs\<close>, messages that carry floats or manifests; \<open>tokio\<close>'s wake-ups are returned as
  values and their delivery is not modelled.
\<close>

end
